(* ===== verification/Php_Prelude.thy ===== *)
theory Php_Prelude
  imports Main "HOL-Library.Word" "HOL-Library.Monad_Syntax" "HOL-Library.AList"
    "HOL-Library.Multiset"
begin

text \<open>
  Shared vocabulary of the development: the C integer types of the build the repository
  documents (Windows, x86: \<open>int\<close>, \<open>long\<close>, pointers and \<open>size_t\<close> are 32 bits wide), the
  status codes of the Zend API, pointers into a component's memory, and the lemmas on lists,
  options and words that several components use.

  A computation that C leaves undefined (a dangling or null dereference, an index outside an
  allocated array) or that never ends is \<open>None\<close> of an option type; every operation is written
  in the option monad and its theorems state that the result is \<open>Some\<close>.
\<close>

unbundle bit_operations_syntax

named_theorems zsimps \<open>equations of the model's primitive memory operations\<close>
named_theorems zframe \<open>what an operation leaves unchanged\<close>

type_synonym uint = "32 word"
type_synonym ulong = "32 word"
type_synonym byte = "8 word"
type_synonym addr = nat
type_synonym ptr = "nat option"

datatype status = SUCCESS | FAILURE

text \<open>\<open>Fatal\<close>: \<open>zend_error(E_ERROR, ...)\<close>, which does not return to its caller.\<close>

datatype 'a outcome = Done 'a | Fatal

text \<open>\<open>LONG_MAX\<close> as the unsigned value the sources compare with.\<close>

definition LONG_MAX :: ulong where
  "LONG_MAX = 0x7FFFFFFF"

text \<open>\<open>sizeof(void *)\<close> of the build.\<close>

definition sizeof_ptr :: uint where
  "sizeof_ptr = 4"

subsection \<open>Lists\<close>

definition head_opt :: "'a list \<Rightarrow> 'a option" where
  "head_opt xs = (case xs of [] \<Rightarrow> None | x # _ \<Rightarrow> Some x)"

definition last_opt :: "'a list \<Rightarrow> 'a option" where
  "last_opt xs = (if xs = [] then None else Some (last xs))"

lemma head_opt_simps [simp]:
  "head_opt [] = None"
  "head_opt (x # xs) = Some x"
  by (simp_all add: head_opt_def)

lemma last_opt_simps [simp]:
  "last_opt [] = None"
  "last_opt (xs @ [x]) = Some x"
  by (simp_all add: last_opt_def)

lemma head_opt_append: "head_opt (xs @ ys) = (if xs = [] then head_opt ys else head_opt xs)"
  by (cases xs) auto

lemma last_opt_append: "last_opt (xs @ ys) = (if ys = [] then last_opt xs else last_opt ys)"
  by (auto simp: last_opt_def)

lemma last_opt_Cons: "last_opt (x # xs) = (if xs = [] then Some x else last_opt xs)"
  by (auto simp: last_opt_def)

lemma head_opt_None_iff [simp]: "head_opt xs = None \<longleftrightarrow> xs = []"
  by (cases xs) auto

lemma last_opt_None_iff [simp]: "last_opt xs = None \<longleftrightarrow> xs = []"
  by (auto simp: last_opt_def)

lemma head_opt_rev: "head_opt (rev xs) = last_opt xs"
  by (cases xs rule: rev_cases) auto

lemma last_opt_rev: "last_opt (rev xs) = head_opt xs"
  by (cases xs) (auto simp: last_opt_def)

lemma head_opt_SomeD: "head_opt xs = Some x \<Longrightarrow> \<exists>ys. xs = x # ys"
  by (cases xs) auto

lemma last_opt_SomeD: "last_opt xs = Some x \<Longrightarrow> \<exists>ys. xs = ys @ [x]"
  by (cases xs rule: rev_cases) auto

lemma head_opt_in_set: "head_opt xs = Some x \<Longrightarrow> x \<in> set xs"
  by (cases xs) auto

lemma last_opt_in_set: "last_opt xs = Some x \<Longrightarrow> x \<in> set xs"
  by (auto simp: last_opt_def split: if_splits)

lemma remove1_split: "x \<notin> set us \<Longrightarrow> remove1 x (us @ x # vs) = us @ vs"
  by (simp add: remove1_append)

lemma distinct_split:
  assumes "distinct xs" and "a \<in> set xs"
  obtains us vs where "xs = us @ a # vs" and "a \<notin> set us" and "a \<notin> set vs"
    and "distinct us" and "distinct vs" and "set us \<inter> set vs = {}"
  using assms by (metis distinct_append distinct.simps(2) split_list disjoint_insert(1) list.simps(15))

subsection \<open>Words\<close>

lemma unat_lt2p: "unat (x :: 'a::len word) < 2 ^ LENGTH('a)"
  by (rule unsigned_less)

lemma unat_inc: "unat (x :: 'a::len word) + 1 < 2 ^ LENGTH('a) \<Longrightarrow> unat (x + 1) = unat x + 1"
  by (simp add: unat_word_ariths)

lemma unat_dec: "0 < unat (x :: 'a::len word) \<Longrightarrow> unat (x - 1) = unat x - 1"
  by (metis One_nat_def gr_implies_not0 unat_0 unat_minus_one)

lemma word_and_le_mask: "unat (x AND m) \<le> unat (m :: 'a::len word)"
  by (simp add: word_and_le1 word_le_nat_alt [symmetric])

lemma word_and_lt_Suc_mask: "unat (x AND m) < Suc (unat (m :: 'a::len word))"
  by (simp add: word_and_le_mask less_Suc_eq_le)

lemma sint_small:
  assumes "uint x < 2 ^ 31"
  shows "sint (x :: 32 word) = uint x"
proof -
  have "signed_take_bit 31 (uint x) = uint x"
    using assms by (intro signed_take_bit_int_eq_self order_trans [OF _ uint_ge_0 [of x]]) simp_all
  then show ?thesis by (simp add: sint_uint)
qed

lemma sint_LONG_MAX: "sint LONG_MAX = 2147483647"
  by (simp add: LONG_MAX_def)

end
