(* ===== verification/Dllist.thy ===== *)
theory Dllist
  imports Php_Prelude
begin

text \<open>
  Doubly linked lists in memory, as the engine uses them three times: the global list of a
  hash table, the collision chain of each of its slots, and \<open>zend_llist\<close>.  A list of nodes
  \<open>xs\<close> is laid out by two pointer fields \<open>nx\<close> and \<open>pv\<close> when every node's fields name its
  neighbours in \<open>xs\<close> (predicate \<open>linked\<close>).  The lemmas say what one insertion or one removal
  does to the neighbours, which is what the C macros write.
\<close>

fun next_in :: "'a list \<Rightarrow> 'a \<Rightarrow> 'a option" where
  "next_in [] a = None"
| "next_in (x # xs) a = (if x = a then head_opt xs else next_in xs a)"

definition prev_in :: "'a list \<Rightarrow> 'a \<Rightarrow> 'a option" where
  "prev_in xs a = next_in (rev xs) a"

definition linked :: "('a \<Rightarrow> 'a option) \<Rightarrow> ('a \<Rightarrow> 'a option) \<Rightarrow> 'a list \<Rightarrow> bool" where
  "linked nx pv xs \<longleftrightarrow> distinct xs \<and> (\<forall>a\<in>set xs. nx a = next_in xs a \<and> pv a = prev_in xs a)"

lemma next_in_notin [simp]: "a \<notin> set us \<Longrightarrow> next_in (us @ a # vs) a = head_opt vs"
  by (induction us) auto

lemma prev_in_notin [simp]: "a \<notin> set vs \<Longrightarrow> prev_in (us @ a # vs) a = last_opt us"
  by (simp add: prev_in_def head_opt_rev)

lemma next_in_append_left:
  "a \<in> set us \<Longrightarrow> distinct us \<Longrightarrow>
   next_in (us @ vs) a = (if last_opt us = Some a then head_opt vs else next_in us a)"
  by (induction us) (auto simp: last_opt_Cons head_opt_append dest: last_opt_in_set)

lemma next_in_append_right: "a \<notin> set us \<Longrightarrow> next_in (us @ vs) a = next_in vs a"
  by (induction us) auto

lemma prev_in_append_right:
  "a \<in> set vs \<Longrightarrow> distinct vs \<Longrightarrow>
   prev_in (us @ vs) a = (if head_opt vs = Some a then last_opt us else prev_in vs a)"
  by (simp add: prev_in_def next_in_append_left head_opt_rev last_opt_rev)

lemma prev_in_append_left: "a \<notin> set vs \<Longrightarrow> prev_in (us @ vs) a = prev_in us a"
  by (simp add: prev_in_def next_in_append_right)

lemma next_in_in_set: "next_in xs a = Some b \<Longrightarrow> b \<in> set xs"
  by (induction xs) (auto split: if_splits dest: head_opt_in_set)

lemma prev_in_in_set: "prev_in xs a = Some b \<Longrightarrow> b \<in> set xs"
  by (metis next_in_in_set prev_in_def set_rev)

lemma linkedI:
  "distinct xs \<Longrightarrow> (\<And>a. a \<in> set xs \<Longrightarrow> nx a = next_in xs a) \<Longrightarrow>
   (\<And>a. a \<in> set xs \<Longrightarrow> pv a = prev_in xs a) \<Longrightarrow> linked nx pv xs"
  by (simp add: linked_def)

lemma linked_Nil [simp]: "linked nx pv []"
  by (simp add: linked_def)

lemma linked_distinct: "linked nx pv xs \<Longrightarrow> distinct xs"
  by (simp add: linked_def)

lemma linked_cong:
  "(\<And>a. a \<in> set xs \<Longrightarrow> nx a = nx' a) \<Longrightarrow> (\<And>a. a \<in> set xs \<Longrightarrow> pv a = pv' a) \<Longrightarrow>
   linked nx pv xs = linked nx' pv' xs"
  by (auto simp: linked_def)

lemma linked_split:
  assumes "linked nx pv (us @ a # vs)"
  shows "nx a = head_opt vs" and "pv a = last_opt us"
  using assms by (auto simp: linked_def)

lemma linked_nx_in_set: "linked nx pv xs \<Longrightarrow> a \<in> set xs \<Longrightarrow> nx a = Some b \<Longrightarrow> b \<in> set xs"
  by (auto simp: linked_def intro: next_in_in_set)

lemma linked_pv_in_set: "linked nx pv xs \<Longrightarrow> a \<in> set xs \<Longrightarrow> pv a = Some b \<Longrightarrow> b \<in> set xs"
  by (auto simp: linked_def intro: prev_in_in_set)

text \<open>The neighbours of a node differ from it.\<close>

lemma linked_neq:
  assumes "linked nx pv xs" and "a \<in> set xs"
  shows "nx a \<noteq> Some a" and "pv a \<noteq> Some a"
proof -
  from assms obtain us vs where "xs = us @ a # vs" "a \<notin> set us" "a \<notin> set vs"
    by (metis distinct_split linked_def)
  with assms(1) linked_split [of nx pv us a vs] show "nx a \<noteq> Some a" "pv a \<noteq> Some a"
    by (auto dest: head_opt_in_set last_opt_in_set)
qed

text \<open>
  Insertion between \<open>us\<close> and \<open>vs\<close>: the new node points at its neighbours, the neighbours
  point back, nothing else changes.
\<close>

lemma linked_insert:
  assumes l: "linked nx pv (us @ vs)" and a: "a \<notin> set us" "a \<notin> set vs"
    and nx': "nx' a = head_opt vs" "\<And>b. b \<noteq> a \<Longrightarrow> nx' b = (if last_opt us = Some b then Some a else nx b)"
    and pv': "pv' a = last_opt us" "\<And>b. b \<noteq> a \<Longrightarrow> pv' b = (if head_opt vs = Some b then Some a else pv b)"
  shows "linked nx' pv' (us @ a # vs)"
proof (rule linkedI)
  from l a show d: "distinct (us @ a # vs)" by (auto simp: linked_def)
  fix b assume b: "b \<in> set (us @ a # vs)"
  show "nx' b = next_in (us @ a # vs) b"
  proof (cases "b = a")
    case False
    from b False consider "b \<in> set us" | "b \<in> set vs" by auto
    then show ?thesis
    proof cases
      case 1
      then show ?thesis using l d False nx' by (auto simp: linked_def next_in_append_left)
    next
      case 2
      with d have "b \<notin> set us" "last_opt us \<noteq> Some b" by (auto dest: last_opt_in_set)
      then show ?thesis using 2 l False nx' by (simp add: linked_def next_in_append_right)
    qed
  qed (use nx' a in simp)
  show "pv' b = prev_in (us @ a # vs) b"
  proof (cases "b = a")
    case False
    from b False consider "b \<in> set us" | "b \<in> set vs" by auto
    then show ?thesis
    proof cases
      case 1
      with d have "head_opt vs \<noteq> Some b" and nv: "b \<notin> set vs" by (auto dest: head_opt_in_set)
      with False l pv' 1 show ?thesis by (simp add: linked_def prev_in_append_left)
    next
      case 2
      have "prev_in (us @ a # vs) b = prev_in ((us @ [a]) @ vs) b" by simp
      also have "\<dots> = (if head_opt vs = Some b then Some a else prev_in vs b)"
        using 2 d by (subst prev_in_append_right) auto
      finally show ?thesis using False l pv' 2 d
        by (auto simp: linked_def prev_in_append_right)
    qed
  qed (use pv' a in simp)
qed

text \<open>Removal of a node: its neighbours are joined.\<close>

lemma linked_remove:
  assumes l: "linked nx pv (us @ a # vs)"
    and nx': "\<And>b. b \<noteq> a \<Longrightarrow> nx' b = (if last_opt us = Some b then head_opt vs else nx b)"
    and pv': "\<And>b. b \<noteq> a \<Longrightarrow> pv' b = (if head_opt vs = Some b then last_opt us else pv b)"
  shows "linked nx' pv' (us @ vs)"
proof (rule linkedI)
  from l have d: "distinct (us @ a # vs)" by (simp add: linked_def)
  then show "distinct (us @ vs)" by auto
  fix b assume b: "b \<in> set (us @ vs)"
  with d have ba: "b \<noteq> a" by auto
  from b consider "b \<in> set us" | "b \<in> set vs" by auto
  then show "nx' b = next_in (us @ vs) b"
  proof cases
    case 1
    then show ?thesis using l d ba nx' by (auto simp: linked_def next_in_append_left)
  next
    case 2
    with d have "b \<notin> set us" "last_opt us \<noteq> Some b" by (auto dest: last_opt_in_set)
    then show ?thesis using 2 l ba nx' by (simp add: linked_def next_in_append_right)
  qed
  from b consider "b \<in> set us" | "b \<in> set vs" by auto
  then show "pv' b = prev_in (us @ vs) b"
  proof cases
    case 1
    with d have "b \<notin> set vs" "head_opt vs \<noteq> Some b" by (auto dest: head_opt_in_set)
    then show ?thesis using 1 l ba pv' by (simp add: linked_def prev_in_append_left)
  next
    case 2
    have "pv b = prev_in ((us @ [a]) @ vs) b" using 2 l by (simp add: linked_def)
    also have "\<dots> = (if head_opt vs = Some b then Some a else prev_in vs b)"
      using 2 d by (subst prev_in_append_right) auto
    finally show ?thesis using 2 d ba pv' by (auto simp: prev_in_append_right)
  qed
qed

lemma linked_unique_head:
  assumes "linked nx pv xs" and "linked nx pv ys" and "head_opt xs = head_opt ys"
  shows "xs = ys"
proof -
  have "linked nx pv (us @ vs) \<Longrightarrow> linked nx pv (us @ ws) \<Longrightarrow> head_opt vs = head_opt ws \<Longrightarrow> vs = ws"
    for us vs ws
  proof (induction vs arbitrary: us ws)
    case Nil
    then show ?case by (metis head_opt_None_iff)
  next
    case (Cons v vs)
    then obtain ws' where ws: "ws = v # ws'" by (metis head_opt_SomeD head_opt_simps(2))
    have "head_opt vs = head_opt ws'"
      using Cons.prems(1,2) ws by (metis linked_split(1))
    then show ?case using Cons.IH [of "us @ [v]" ws'] Cons.prems ws by simp
  qed
  from this [of "[]" xs ys] assms show ?thesis by simp
qed

text \<open>The neighbours of a node by its index.\<close>

lemma linked_nthI:
  assumes "distinct xs"
    and "\<And>k. k < length xs \<Longrightarrow> nx (xs ! k) = (if Suc k < length xs then Some (xs ! Suc k) else None)"
    and "\<And>k. k < length xs \<Longrightarrow> pv (xs ! k) = (if k = 0 then None else Some (xs ! (k - 1)))"
  shows "linked nx pv xs"
proof (rule linkedI [OF assms(1)])
  fix a assume "a \<in> set xs"
  then obtain k where k: "k < length xs" "a = xs ! k" by (metis in_set_conv_nth)
  have split: "xs = take k xs @ a # drop (Suc k) xs" using k by (simp add: id_take_nth_drop)
  have d: "a \<notin> set (take k xs)" "a \<notin> set (drop (Suc k) xs)"
    using assms(1) by (subst (asm) split, simp)+
  have "next_in xs a = head_opt (drop (Suc k) xs)" by (subst split) (simp add: d)
  then show "nx a = next_in xs a" using assms(2) [OF k(1)] k(2)
    by (cases "Suc k < length xs") (simp_all add: Cons_nth_drop_Suc [symmetric])
  have "prev_in xs a = last_opt (take k xs)" by (subst split) (simp add: d)
  then show "pv a = prev_in xs a" using assms(3) [OF k(1)] k
    by (cases k) (simp_all add: take_Suc_conv_app_nth)
qed

end
