(* ===== verification/Zend_Hash.thy ===== *)
theory Zend_Hash
  imports Dllist
begin

text \<open>
  The model of \<open>Zend/zend_hash.c\<close> and \<open>Zend/zend_hash.h\<close>, part one: the data structure, the
  string hash, creation, insertion, update, deletion, growth and lookup.

  A table owns its buckets: \<open>heap\<close> maps the address of every live bucket to its contents, and
  \<open>pemalloc\<close> hands out the address \<open>brk\<close>, which no live bucket has.  The value a \<open>void *pData\<close>
  argument points at is copied into the bucket, so a bucket holds a value of type \<open>'d\<close>;
  \<open>pDataInline\<close> records whether that copy lives in \<open>pDataPtr\<close> or in a block of its own.  The
  calls of \<open>pDestructor\<close> are recorded in order in \<open>dtor_log\<close>; destructors are assumed not to
  re-enter the table.
\<close>

subsection \<open>Data\<close>

text \<open>
  A \<open>const char *\<close> key together with the bytes it points at: in the table of interned strings
  (one copy per contents, so the address is determined by the contents), in the memory right
  behind a bucket, or elsewhere.  Two such pointers are equal when the values are.
\<close>

datatype key_loc = Interned | InBucket addr | Elsewhere nat

datatype cstr = NullStr | CStr key_loc "byte list"

primrec cstr_bytes :: "cstr \<Rightarrow> byte list" where
  "cstr_bytes NullStr = []"
| "cstr_bytes (CStr l bs) = bs"

definition IS_INTERNED :: "cstr \<Rightarrow> bool" where
  "IS_INTERNED s = (case s of CStr Interned _ \<Rightarrow> True | _ \<Rightarrow> False)"

record 'd Bucket =
  b_h :: ulong
  nKeyLength :: uint
  pData :: 'd
  pDataInline :: bool
  pListNext :: ptr
  pListLast :: ptr
  pNext :: ptr
  pLast :: ptr
  arKey :: cstr

record 'd HashTable =
  nTableSize :: uint
  nTableMask :: uint
  nNumOfElements :: uint
  nNextFreeElement :: ulong
  pInternalPointer :: ptr
  pListHead :: ptr
  pListTail :: ptr
  arBuckets :: "ptr list"
  pDestructor :: bool
  persistent :: bool
  nApplyCount :: byte
  bApplyProtection :: bool
  heap :: "addr \<Rightarrow> 'd Bucket option"
  brk :: addr
  dtor_log :: "'d list"

definition HASH_UPDATE :: uint where "HASH_UPDATE = 1"
definition HASH_ADD :: uint where "HASH_ADD = 2"
definition HASH_NEXT_INSERT :: uint where "HASH_NEXT_INSERT = 4"

datatype del_flag = HASH_DEL_KEY | HASH_DEL_INDEX | HASH_DEL_KEY_QUICK

subsection \<open>Memory accesses\<close>

definition ht_write :: "'d HashTable \<Rightarrow> addr \<Rightarrow> ('d Bucket \<Rightarrow> 'd Bucket) \<Rightarrow> 'd HashTable option" where
  "ht_write ht a f = (case heap ht a of None \<Rightarrow> None | Some b \<Rightarrow> Some (ht\<lparr>heap := (heap ht)(a \<mapsto> f b)\<rparr>))"

definition slot_read :: "'d HashTable \<Rightarrow> nat \<Rightarrow> ptr option" where
  "slot_read ht i = (if i < length (arBuckets ht) then Some (arBuckets ht ! i) else None)"

definition slot_write :: "'d HashTable \<Rightarrow> nat \<Rightarrow> ptr \<Rightarrow> 'd HashTable option" where
  "slot_write ht i p =
     (if i < length (arBuckets ht) then Some (ht\<lparr>arBuckets := (arBuckets ht)[i := p]\<rparr>) else None)"

definition hash_index :: "'d HashTable \<Rightarrow> ulong \<Rightarrow> nat" where
  "hash_index ht h = unat (h AND nTableMask ht)"

definition pemalloc_bucket :: "'d HashTable \<Rightarrow> 'd Bucket \<Rightarrow> addr \<times> 'd HashTable" where
  "pemalloc_bucket ht b = (brk ht, ht\<lparr>heap := (heap ht)(brk ht \<mapsto> b), brk := Suc (brk ht)\<rparr>)"

definition pefree_bucket :: "'d HashTable \<Rightarrow> addr \<Rightarrow> 'd HashTable" where
  "pefree_bucket ht a = ht\<lparr>heap := (heap ht)(a := None)\<rparr>"

definition call_pDestructor :: "'d HashTable \<Rightarrow> 'd \<Rightarrow> 'd HashTable" where
  "call_pDestructor ht d = (if pDestructor ht then ht\<lparr>dtor_log := dtor_log ht @ [d]\<rparr> else ht)"

subsection \<open>The macros\<close>

definition CONNECT_TO_BUCKET_DLLIST :: "addr \<Rightarrow> ptr \<Rightarrow> 'd HashTable \<Rightarrow> 'd HashTable option" where
  "CONNECT_TO_BUCKET_DLLIST el list_head ht = do {
     ht \<leftarrow> ht_write ht el (\<lambda>b. b\<lparr>pNext := list_head, pLast := None\<rparr>);
     (case list_head of
        Some n \<Rightarrow> ht_write ht n (\<lambda>b. b\<lparr>pLast := Some el\<rparr>)
      | None \<Rightarrow> Some ht)
   }"

definition CONNECT_TO_GLOBAL_DLLIST_EX ::
  "addr \<Rightarrow> ptr \<Rightarrow> ptr \<Rightarrow> 'd HashTable \<Rightarrow> 'd HashTable option" where
  "CONNECT_TO_GLOBAL_DLLIST_EX el lst nxt ht = do {
     ht \<leftarrow> ht_write ht el (\<lambda>b. b\<lparr>pListLast := lst, pListNext := nxt\<rparr>);
     ht \<leftarrow> (case lst of
        Some l \<Rightarrow> ht_write ht l (\<lambda>b. b\<lparr>pListNext := Some el\<rparr>)
      | None \<Rightarrow> Some (ht\<lparr>pListHead := Some el\<rparr>));
     (case nxt of
        Some n \<Rightarrow> ht_write ht n (\<lambda>b. b\<lparr>pListLast := Some el\<rparr>)
      | None \<Rightarrow> Some (ht\<lparr>pListTail := Some el\<rparr>))
   }"

definition CONNECT_TO_GLOBAL_DLLIST :: "addr \<Rightarrow> 'd HashTable \<Rightarrow> 'd HashTable option" where
  "CONNECT_TO_GLOBAL_DLLIST el ht = do {
     ht \<leftarrow> CONNECT_TO_GLOBAL_DLLIST_EX el (pListTail ht) None ht;
     Some (if pInternalPointer ht = None then ht\<lparr>pInternalPointer := Some el\<rparr> else ht)
   }"

definition UPDATE_DATA :: "addr \<Rightarrow> 'd \<Rightarrow> uint \<Rightarrow> 'd HashTable \<Rightarrow> 'd HashTable option" where
  "UPDATE_DATA a d nDataSize ht =
     ht_write ht a (\<lambda>b. b\<lparr>pData := d, pDataInline := (nDataSize = sizeof_ptr)\<rparr>)"

definition CHECK_INIT :: "'d HashTable \<Rightarrow> 'd HashTable" where
  "CHECK_INIT ht =
     (if nTableMask ht = 0
      then ht\<lparr>arBuckets := replicate (unat (nTableSize ht)) None, nTableMask := nTableSize ht - 1\<rparr>
      else ht)"

subsection \<open>The string hash\<close>

text \<open>
  DJBX33A.  \<open>char\<close> is signed on the target, so a key byte is sign-extended before it is added.
\<close>

definition hash_step :: "ulong \<Rightarrow> byte \<Rightarrow> ulong" where
  "hash_step hash c = (push_bit 5 hash + hash) + scast c"

fun hash_switch :: "ulong \<Rightarrow> byte list \<Rightarrow> nat \<Rightarrow> ulong" where
  "hash_switch hash key 0 = hash"
| "hash_switch hash key (Suc n) = hash_switch (hash_step hash (key ! 0)) (drop 1 key) n"

fun hash_unrolled :: "ulong \<Rightarrow> byte list \<Rightarrow> nat \<Rightarrow> ulong" where
  "hash_unrolled hash key n =
     (if 8 \<le> n then
        let hash = hash_step hash (key ! 0);
            hash = hash_step hash (key ! 1);
            hash = hash_step hash (key ! 2);
            hash = hash_step hash (key ! 3);
            hash = hash_step hash (key ! 4);
            hash = hash_step hash (key ! 5);
            hash = hash_step hash (key ! 6);
            hash = hash_step hash (key ! 7)
        in hash_unrolled hash (drop 8 key) (n - 8)
      else hash_switch hash key n)"

declare hash_unrolled.simps [simp del]

definition zend_inline_hash_func :: "byte list \<Rightarrow> uint \<Rightarrow> ulong" where
  "zend_inline_hash_func key n = hash_unrolled 5381 key (unat n)"

definition zend_hash_func :: "byte list \<Rightarrow> uint \<Rightarrow> ulong" where
  "zend_hash_func key n = zend_inline_hash_func key n"

subsection \<open>Creation\<close>

function init_shift :: "nat \<Rightarrow> nat \<Rightarrow> nat" where
  "init_shift i nSize = (if 2 ^ i < nSize then init_shift (Suc i) nSize else i)"
  by pat_completeness auto
termination
proof (relation "measure (\<lambda>(i, n). n - i)")
  fix i nSize :: nat
  assume "2 ^ i < nSize"
  moreover have "i < 2 ^ i" by (rule less_exp)
  ultimately have "i < nSize" by linarith
  then show "((Suc i, nSize), i, nSize) \<in> measure (\<lambda>(i, n). n - i)" by simp
qed simp

declare init_shift.simps [simp del]

definition zend_hash_init :: "uint \<Rightarrow> bool \<Rightarrow> bool \<Rightarrow> 'd HashTable" where
  "zend_hash_init nSize dtor persist =
     \<lparr>nTableSize = (if 0x80000000 \<le> nSize then 0x80000000 else push_bit (init_shift 3 (unat nSize)) 1),
      nTableMask = 0, nNumOfElements = 0, nNextFreeElement = 0, pInternalPointer = None,
      pListHead = None, pListTail = None, arBuckets = [None], pDestructor = dtor,
      persistent = persist, nApplyCount = 0, bApplyProtection = True,
      heap = Map.empty, brk = 0, dtor_log = []\<rparr>"

definition zend_hash_set_apply_protection :: "bool \<Rightarrow> 'd HashTable \<Rightarrow> 'd HashTable" where
  "zend_hash_set_apply_protection b ht = ht\<lparr>bApplyProtection := b\<rparr>"

definition zend_hash_init_ex :: "uint \<Rightarrow> bool \<Rightarrow> bool \<Rightarrow> bool \<Rightarrow> 'd HashTable" where
  "zend_hash_init_ex nSize dtor persist prot = (zend_hash_init nSize dtor persist)\<lparr>bApplyProtection := prot\<rparr>"

subsection \<open>Growth\<close>

partial_function (option) rehash_loop :: "'d HashTable \<Rightarrow> ptr \<Rightarrow> 'd HashTable option" where [code]:
  "rehash_loop ht p = (case p of
     None \<Rightarrow> Some ht
   | Some a \<Rightarrow> do {
       b \<leftarrow> heap ht a;
       slot \<leftarrow> slot_read ht (hash_index ht (b_h b));
       ht \<leftarrow> CONNECT_TO_BUCKET_DLLIST a slot ht;
       ht \<leftarrow> slot_write ht (hash_index ht (b_h b)) (Some a);
       b \<leftarrow> heap ht a;
       rehash_loop ht (pListNext b)
     })"

definition zend_hash_rehash :: "'d HashTable \<Rightarrow> 'd HashTable option" where
  "zend_hash_rehash ht =
     (if nNumOfElements ht = 0 then Some ht
      else rehash_loop (ht\<lparr>arBuckets := replicate (unat (nTableSize ht)) None\<rparr>) (pListHead ht))"

text \<open>
  \<open>perealloc\<close> leaves the second half of the slot array indeterminate; a resize happens only in
  a table that has elements, so the \<open>memset\<close> of \<open>zend_hash_rehash\<close> overwrites it.
\<close>

definition zend_hash_do_resize :: "'d HashTable \<Rightarrow> 'd HashTable option" where
  "zend_hash_do_resize ht =
     (if 0 < push_bit 1 (nTableSize ht) then
        let ht = ht\<lparr>arBuckets := arBuckets ht @ replicate (unat (nTableSize ht)) None\<rparr>;
            ht = ht\<lparr>nTableSize := push_bit 1 (nTableSize ht)\<rparr>;
            ht = ht\<lparr>nTableMask := nTableSize ht - 1\<rparr>
        in zend_hash_rehash ht
      else Some ht)"

definition ZEND_HASH_IF_FULL_DO_RESIZE :: "'d HashTable \<Rightarrow> 'd HashTable option" where
  "ZEND_HASH_IF_FULL_DO_RESIZE ht =
     (if nTableSize ht < nNumOfElements ht then zend_hash_do_resize ht else Some ht)"

subsection \<open>Searching a slot's chain\<close>

text \<open>
  The loop \<open>while (p != NULL) { if (...) ...; p = p->pNext; }\<close> every lookup contains, with its
  test as a parameter: \<open>Some None\<close> when the chain ends, \<open>None\<close> on a dangling pointer or a cycle.
\<close>

partial_function (option) chain_find ::
  "'d HashTable \<Rightarrow> ('d Bucket \<Rightarrow> bool) \<Rightarrow> ptr \<Rightarrow> ptr option" where [code]:
  "chain_find ht found p = (case p of
     None \<Rightarrow> Some None
   | Some a \<Rightarrow> do {
       b \<leftarrow> heap ht a;
       if found b then Some (Some a) else chain_find ht found (pNext b)
     })"

definition memcmp_eq :: "byte list \<Rightarrow> byte list \<Rightarrow> uint \<Rightarrow> bool" where
  "memcmp_eq s t n = (take (unat n) s = take (unat n) t)"

definition key_match :: "cstr \<Rightarrow> uint \<Rightarrow> ulong \<Rightarrow> 'd Bucket \<Rightarrow> bool" where
  "key_match key len h b =
     (arKey b = key \<or> b_h b = h \<and> nKeyLength b = len \<and> memcmp_eq (cstr_bytes (arKey b)) (cstr_bytes key) len)"

definition index_match :: "ulong \<Rightarrow> 'd Bucket \<Rightarrow> bool" where
  "index_match h b = (nKeyLength b = 0 \<and> b_h b = h)"

definition del_match :: "cstr \<Rightarrow> uint \<Rightarrow> ulong \<Rightarrow> 'd Bucket \<Rightarrow> bool" where
  "del_match key len h b =
     (b_h b = h \<and> nKeyLength b = len \<and>
      (nKeyLength b = 0 \<or> memcmp_eq (cstr_bytes (arKey b)) (cstr_bytes key) len))"

subsection \<open>Insertion and update\<close>

text \<open>The key of a new bucket: the interned pointer itself, or a copy behind the bucket.\<close>

definition new_key :: "addr \<Rightarrow> cstr \<Rightarrow> uint \<Rightarrow> cstr" where
  "new_key a key len =
     (if IS_INTERNED key then key else CStr (InBucket a) (take (unat len) (cstr_bytes key)))"

definition update_found ::
  "addr \<Rightarrow> 'd \<Rightarrow> uint \<Rightarrow> 'd HashTable \<Rightarrow> ('d HashTable \<times> status \<times> ptr) option" where
  "update_found a d nDataSize ht = do {
     b \<leftarrow> heap ht a;
     ht \<leftarrow> UPDATE_DATA a d nDataSize (call_pDestructor ht (pData b));
     Some (ht, SUCCESS, Some a)
   }"

definition zend_hash_quick_add_or_update ::
  "cstr \<Rightarrow> uint \<Rightarrow> ulong \<Rightarrow> 'd \<Rightarrow> uint \<Rightarrow> uint \<Rightarrow> 'd HashTable \<Rightarrow> ('d HashTable \<times> status \<times> ptr) option" where
  "zend_hash_quick_add_or_update key len h d nDataSize flag ht0 = do {
     let ht = CHECK_INIT ht0;
     let nIndex = hash_index ht h;
     slot \<leftarrow> slot_read ht nIndex;
     q \<leftarrow> chain_find ht (key_match key len h) slot;
     (case q of
        Some a \<Rightarrow> if flag AND HASH_ADD \<noteq> 0 then Some (ht, FAILURE, None) else update_found a d nDataSize ht
      | None \<Rightarrow> do {
          let (a, ht) = pemalloc_bucket ht
            \<lparr>b_h = h, nKeyLength = len, pData = d, pDataInline = (nDataSize = sizeof_ptr),
             pListNext = None, pListLast = None, pNext = None, pLast = None,
             arKey = new_key (brk ht) key len\<rparr>;
          ht \<leftarrow> CONNECT_TO_BUCKET_DLLIST a slot ht;
          ht \<leftarrow> slot_write ht nIndex (Some a);
          ht \<leftarrow> CONNECT_TO_GLOBAL_DLLIST a ht;
          let ht = ht\<lparr>nNumOfElements := nNumOfElements ht + 1\<rparr>;
          ht \<leftarrow> ZEND_HASH_IF_FULL_DO_RESIZE ht;
          Some (ht, SUCCESS, Some a)
        })
   }"

definition zend_hash_add_or_update ::
  "cstr \<Rightarrow> uint \<Rightarrow> 'd \<Rightarrow> uint \<Rightarrow> uint \<Rightarrow> 'd HashTable \<Rightarrow> ('d HashTable \<times> status \<times> ptr) option" where
  "zend_hash_add_or_update key len d nDataSize flag ht0 = do {
     let ht = CHECK_INIT ht0;
     let h = zend_inline_hash_func (cstr_bytes key) len;
     let nIndex = hash_index ht h;
     slot \<leftarrow> slot_read ht nIndex;
     q \<leftarrow> chain_find ht (key_match key len h) slot;
     (case q of
        Some a \<Rightarrow> if flag AND HASH_ADD \<noteq> 0 then Some (ht, FAILURE, None) else update_found a d nDataSize ht
      | None \<Rightarrow> do {
          let (a, ht) = pemalloc_bucket ht
            \<lparr>b_h = h, nKeyLength = len, pData = d, pDataInline = (nDataSize = sizeof_ptr),
             pListNext = None, pListLast = None, pNext = None, pLast = None,
             arKey = new_key (brk ht) key len\<rparr>;
          ht \<leftarrow> CONNECT_TO_BUCKET_DLLIST a slot ht;
          ht \<leftarrow> CONNECT_TO_GLOBAL_DLLIST a ht;
          ht \<leftarrow> slot_write ht nIndex (Some a);
          let ht = ht\<lparr>nNumOfElements := nNumOfElements ht + 1\<rparr>;
          ht \<leftarrow> ZEND_HASH_IF_FULL_DO_RESIZE ht;
          Some (ht, SUCCESS, Some a)
        })
   }"

definition zend_hash_add_empty_element ::
  "cstr \<Rightarrow> uint \<Rightarrow> 'd \<Rightarrow> 'd HashTable \<Rightarrow> ('d HashTable \<times> status \<times> ptr) option" where
  "zend_hash_add_empty_element key len dummy ht =
     zend_hash_add_or_update key len dummy sizeof_ptr HASH_ADD ht"

definition bump_next_free :: "ulong \<Rightarrow> 'd HashTable \<Rightarrow> 'd HashTable" where
  "bump_next_free h ht =
     (if sint (nNextFreeElement ht) \<le> sint h
      then ht\<lparr>nNextFreeElement := (if h < LONG_MAX then h + 1 else LONG_MAX)\<rparr> else ht)"

definition zend_hash_index_update_or_next_insert ::
  "ulong \<Rightarrow> 'd \<Rightarrow> uint \<Rightarrow> uint \<Rightarrow> 'd HashTable \<Rightarrow> ('d HashTable \<times> status \<times> ptr) option" where
  "zend_hash_index_update_or_next_insert h0 d nDataSize flag ht0 = do {
     let ht = CHECK_INIT ht0;
     let h = (if flag AND HASH_NEXT_INSERT \<noteq> 0 then nNextFreeElement ht else h0);
     let nIndex = hash_index ht h;
     slot \<leftarrow> slot_read ht nIndex;
     q \<leftarrow> chain_find ht (index_match h) slot;
     (case q of
        Some a \<Rightarrow>
          if flag AND HASH_NEXT_INSERT \<noteq> 0 \<or> flag AND HASH_ADD \<noteq> 0 then Some (ht, FAILURE, None)
          else update_found a d nDataSize ht
      | None \<Rightarrow> do {
          let (a, ht) = pemalloc_bucket ht
            \<lparr>b_h = h, nKeyLength = 0, pData = d, pDataInline = (nDataSize = sizeof_ptr),
             pListNext = None, pListLast = None, pNext = None, pLast = None, arKey = NullStr\<rparr>;
          ht \<leftarrow> CONNECT_TO_BUCKET_DLLIST a slot ht;
          ht \<leftarrow> slot_write ht nIndex (Some a);
          ht \<leftarrow> CONNECT_TO_GLOBAL_DLLIST a ht;
          let ht = bump_next_free h ht;
          let ht = ht\<lparr>nNumOfElements := nNumOfElements ht + 1\<rparr>;
          ht \<leftarrow> ZEND_HASH_IF_FULL_DO_RESIZE ht;
          Some (ht, SUCCESS, Some a)
        })
   }"

subsection \<open>Deletion\<close>

definition i_zend_hash_bucket_delete :: "addr \<Rightarrow> 'd HashTable \<Rightarrow> 'd HashTable option" where
  "i_zend_hash_bucket_delete a ht = do {
     p \<leftarrow> heap ht a;
     ht \<leftarrow> (case pLast p of
        Some l \<Rightarrow> ht_write ht l (\<lambda>b. b\<lparr>pNext := pNext p\<rparr>)
      | None \<Rightarrow> slot_write ht (hash_index ht (b_h p)) (pNext p));
     ht \<leftarrow> (case pNext p of
        Some n \<Rightarrow> ht_write ht n (\<lambda>b. b\<lparr>pLast := pLast p\<rparr>)
      | None \<Rightarrow> Some ht);
     ht \<leftarrow> (case pListLast p of
        Some l \<Rightarrow> ht_write ht l (\<lambda>b. b\<lparr>pListNext := pListNext p\<rparr>)
      | None \<Rightarrow> Some (ht\<lparr>pListHead := pListNext p\<rparr>));
     ht \<leftarrow> (case pListNext p of
        Some n \<Rightarrow> ht_write ht n (\<lambda>b. b\<lparr>pListLast := pListLast p\<rparr>)
      | None \<Rightarrow> Some (ht\<lparr>pListTail := pListLast p\<rparr>));
     let ht = (if pInternalPointer ht = Some a then ht\<lparr>pInternalPointer := pListNext p\<rparr> else ht);
     let ht = ht\<lparr>nNumOfElements := nNumOfElements ht - 1\<rparr>;
     let ht = call_pDestructor ht (pData p);
     Some (pefree_bucket ht a)
   }"

definition zend_hash_bucket_delete :: "addr \<Rightarrow> 'd HashTable \<Rightarrow> 'd HashTable option" where
  "zend_hash_bucket_delete a ht = i_zend_hash_bucket_delete a ht"

definition zend_hash_del_key_or_index ::
  "cstr \<Rightarrow> uint \<Rightarrow> ulong \<Rightarrow> del_flag \<Rightarrow> 'd HashTable \<Rightarrow> ('d HashTable \<times> status) option" where
  "zend_hash_del_key_or_index key len h0 flag ht = do {
     let h = (if flag = HASH_DEL_KEY then zend_inline_hash_func (cstr_bytes key) len else h0);
     slot \<leftarrow> slot_read ht (hash_index ht h);
     q \<leftarrow> chain_find ht (del_match key len h) slot;
     (case q of
        Some a \<Rightarrow> do { ht \<leftarrow> i_zend_hash_bucket_delete a ht; Some (ht, SUCCESS) }
      | None \<Rightarrow> Some (ht, FAILURE))
   }"

subsection \<open>Lookup\<close>

definition found_data :: "'d HashTable \<Rightarrow> ptr \<Rightarrow> 'd option option" where
  "found_data ht q = (case q of
     Some a \<Rightarrow> do { b \<leftarrow> heap ht a; Some (Some (pData b)) }
   | None \<Rightarrow> Some None)"

definition zend_hash_quick_find :: "cstr \<Rightarrow> uint \<Rightarrow> ulong \<Rightarrow> 'd HashTable \<Rightarrow> 'd option option" where
  "zend_hash_quick_find key len h ht = do {
     slot \<leftarrow> slot_read ht (hash_index ht h);
     q \<leftarrow> chain_find ht (key_match key len h) slot;
     found_data ht q
   }"

definition zend_hash_find :: "cstr \<Rightarrow> uint \<Rightarrow> 'd HashTable \<Rightarrow> 'd option option" where
  "zend_hash_find key len ht = do {
     let h = zend_inline_hash_func (cstr_bytes key) len;
     slot \<leftarrow> slot_read ht (hash_index ht h);
     q \<leftarrow> chain_find ht (key_match key len h) slot;
     found_data ht q
   }"

definition zend_hash_quick_exists :: "cstr \<Rightarrow> uint \<Rightarrow> ulong \<Rightarrow> 'd HashTable \<Rightarrow> bool option" where
  "zend_hash_quick_exists key len h ht = do {
     slot \<leftarrow> slot_read ht (hash_index ht h);
     q \<leftarrow> chain_find ht (key_match key len h) slot;
     Some (q \<noteq> None)
   }"

definition zend_hash_exists :: "cstr \<Rightarrow> uint \<Rightarrow> 'd HashTable \<Rightarrow> bool option" where
  "zend_hash_exists key len ht = do {
     let h = zend_inline_hash_func (cstr_bytes key) len;
     slot \<leftarrow> slot_read ht (hash_index ht h);
     q \<leftarrow> chain_find ht (key_match key len h) slot;
     Some (q \<noteq> None)
   }"

definition zend_hash_index_find :: "ulong \<Rightarrow> 'd HashTable \<Rightarrow> 'd option option" where
  "zend_hash_index_find h ht = do {
     slot \<leftarrow> slot_read ht (hash_index ht h);
     q \<leftarrow> chain_find ht (index_match h) slot;
     found_data ht q
   }"

definition zend_hash_index_exists :: "ulong \<Rightarrow> 'd HashTable \<Rightarrow> bool option" where
  "zend_hash_index_exists h ht = do {
     slot \<leftarrow> slot_read ht (hash_index ht h);
     q \<leftarrow> chain_find ht (index_match h) slot;
     Some (q \<noteq> None)
   }"

definition zend_hash_num_elements :: "'d HashTable \<Rightarrow> uint" where
  "zend_hash_num_elements ht = nNumOfElements ht"

definition zend_hash_next_free_element :: "'d HashTable \<Rightarrow> ulong" where
  "zend_hash_next_free_element ht = nNextFreeElement ht"

end
