(* ===== verification/Zend_Hash_Inv.thy ===== *)
theory Zend_Hash_Inv
  imports Zend_Hash
begin

text \<open>
  The invariant of a hash table and the laws of its pointer surgery.  The global list and the
  slot chains are two independent linked structures over the same buckets: an operation on one
  leaves the other as it is (the frame lemmas), and each macro of \<open>zend_hash.c\<close> performs one
  insertion into or one removal from a list of addresses.
\<close>

subsection \<open>Views of a bucket and frames\<close>

definition payload :: "'d Bucket \<Rightarrow> ulong \<times> uint \<times> 'd \<times> bool \<times> cstr" where
  "payload b = (b_h b, nKeyLength b, pData b, pDataInline b, arKey b)"

definition same_by :: "('d Bucket \<Rightarrow> 'v) \<Rightarrow> (addr \<Rightarrow> 'd Bucket option) \<Rightarrow> (addr \<Rightarrow> 'd Bucket option) \<Rightarrow> bool" where
  "same_by f hp hp' \<longleftrightarrow> (\<forall>a. map_option f (hp' a) = map_option f (hp a))"

definition view_list :: "'d Bucket \<Rightarrow> (ulong \<times> uint \<times> 'd \<times> bool \<times> cstr) \<times> ptr \<times> ptr" where
  "view_list b = (payload b, pListNext b, pListLast b)"

definition view_chain :: "'d Bucket \<Rightarrow> (ulong \<times> uint \<times> 'd \<times> bool \<times> cstr) \<times> ptr \<times> ptr" where
  "view_chain b = (payload b, pNext b, pLast b)"

lemma same_by_refl [simp]: "same_by f hp hp"
  by (simp add: same_by_def)

lemma same_by_trans: "same_by f h1 h2 \<Longrightarrow> same_by f h2 h3 \<Longrightarrow> same_by f h1 h3"
  by (simp add: same_by_def)

lemma same_by_dom: "same_by f hp hp' \<Longrightarrow> dom hp' = dom hp"
  unfolding same_by_def by (metis (no_types) domIff option.map_disc_iff set_eqI)

lemma same_by_at: "same_by f hp hp' \<Longrightarrow> a \<in> dom hp \<Longrightarrow> f (the (hp' a)) = f (the (hp a))"
  unfolding same_by_def by (metis domD domIff option.map_sel option.map_disc_iff option.simps(3))

lemma same_by_upd: "hp a = Some b \<Longrightarrow> f b' = f b \<Longrightarrow> same_by f hp (hp(a \<mapsto> b'))"
  by (simp add: same_by_def)

lemma same_by_payload:
  "same_by view_list hp hp' \<Longrightarrow> same_by payload hp hp'"
  "same_by view_chain hp hp' \<Longrightarrow> same_by payload hp hp'"
  unfolding same_by_def view_list_def [abs_def] view_chain_def [abs_def]
  by (metis (no_types, lifting) fst_conv option.map_comp comp_apply option.map_cong)+

lemma payload_h:
  assumes "same_by payload hp hp'" and "a \<in> dom hp"
  shows "b_h (the (hp' a)) = b_h (the (hp a))" "nKeyLength (the (hp' a)) = nKeyLength (the (hp a))"
    "pData (the (hp' a)) = pData (the (hp a))" "arKey (the (hp' a)) = arKey (the (hp a))"
  using same_by_at [OF assms] by (simp_all add: payload_def)

subsection \<open>The two list structures\<close>

definition glist :: "(addr \<Rightarrow> 'd Bucket option) \<Rightarrow> ptr \<Rightarrow> ptr \<Rightarrow> addr list \<Rightarrow> bool" where
  "glist hp pf pl xs \<longleftrightarrow>
     linked (\<lambda>a. pListNext (the (hp a))) (\<lambda>a. pListLast (the (hp a))) xs \<and>
     pf = head_opt xs \<and> pl = last_opt xs"

definition chains ::
  "(addr \<Rightarrow> 'd Bucket option) \<Rightarrow> ptr list \<Rightarrow> uint \<Rightarrow> addr set \<Rightarrow> (nat \<Rightarrow> addr list) \<Rightarrow> bool" where
  "chains hp ar m S cs \<longleftrightarrow>
     (\<forall>i < length ar. ar ! i = head_opt (cs i) \<and>
        linked (\<lambda>a. pNext (the (hp a))) (\<lambda>a. pLast (the (hp a))) (cs i) \<and>
        set (cs i) = {a \<in> S. unat (b_h (the (hp a)) AND m) = i})"

lemma glist_fields:
  "(\<And>x. x \<in> set xs \<Longrightarrow> pListNext (the (hp' x)) = pListNext (the (hp x)) \<and> pListLast (the (hp' x)) = pListLast (the (hp x))) \<Longrightarrow>
   glist hp' pf pl xs = glist hp pf pl xs"
  unfolding glist_def by (intro arg_cong2 [where f = "(\<and>)"] linked_cong refl) simp_all

lemma chains_fields:
  assumes eq: "\<And>x. x \<in> S \<Longrightarrow> pNext (the (hp' x)) = pNext (the (hp x)) \<and>
      pLast (the (hp' x)) = pLast (the (hp x)) \<and> b_h (the (hp' x)) = b_h (the (hp x))"
    and ch: "chains hp ar m S cs"
  shows "chains hp' ar m S cs"
  unfolding chains_def
proof (intro allI impI)
  fix i assume i: "i < length ar"
  have ci: "ar ! i = head_opt (cs i)"
    "linked (\<lambda>a. pNext (the (hp a))) (\<lambda>a. pLast (the (hp a))) (cs i)"
    "set (cs i) = {a \<in> S. unat (b_h (the (hp a)) AND m) = i}"
    using ch i by (auto simp: chains_def)
  have "linked (\<lambda>a. pNext (the (hp' a))) (\<lambda>a. pLast (the (hp' a))) (cs i) =
     linked (\<lambda>a. pNext (the (hp a))) (\<lambda>a. pLast (the (hp a))) (cs i)"
    using ci(3) eq by (intro linked_cong) simp_all
  moreover have "{a \<in> S. unat (b_h (the (hp' a)) AND m) = i} = {a \<in> S. unat (b_h (the (hp a)) AND m) = i}"
    using eq by (intro Collect_cong) (metis (no_types, lifting))
  ultimately show "ar ! i = head_opt (cs i) \<and>
      linked (\<lambda>a. pNext (the (hp' a))) (\<lambda>a. pLast (the (hp' a))) (cs i) \<and>
      set (cs i) = {a \<in> S. unat (b_h (the (hp' a)) AND m) = i}"
    using ci by simp
qed

lemma glist_frame: "same_by view_list hp hp' \<Longrightarrow> set xs \<subseteq> dom hp \<Longrightarrow> glist hp' pf pl xs = glist hp pf pl xs"
  by (rule glist_fields, drule same_by_at, erule (1) subsetD) (simp add: view_list_def)

lemma chains_frame:
  assumes "same_by view_chain hp hp'" and "S \<subseteq> dom hp" and "chains hp ar m S cs"
  shows "chains hp' ar m S cs"
proof (rule chains_fields [OF _ assms(3)])
  fix x assume "x \<in> S"
  then have "view_chain (the (hp' x)) = view_chain (the (hp x))"
    using assms(2) by (intro same_by_at [OF assms(1)]) auto
  then show "pNext (the (hp' x)) = pNext (the (hp x)) \<and> pLast (the (hp' x)) = pLast (the (hp x)) \<and>
      b_h (the (hp' x)) = b_h (the (hp x))"
    by (simp add: view_chain_def payload_def)
qed

lemma glist_off: "(\<And>x. x \<in> set xs \<Longrightarrow> hp' x = hp x) \<Longrightarrow> glist hp' pf pl xs = glist hp pf pl xs"
  by (rule glist_fields) simp

lemma chains_off: "(\<And>x. x \<in> S \<Longrightarrow> hp' x = hp x) \<Longrightarrow> chains hp ar m S cs \<Longrightarrow> chains hp' ar m S cs"
  by (rule chains_fields) simp_all

lemma chainsD:
  assumes "chains hp ar m S cs" and "i < length ar"
  shows "ar ! i = head_opt (cs i)"
    and "linked (\<lambda>a. pNext (the (hp a))) (\<lambda>a. pLast (the (hp a))) (cs i)"
    and "set (cs i) = {a \<in> S. unat (b_h (the (hp a)) AND m) = i}"
  using assms by (auto simp: chains_def)

subsection \<open>Inserting into a chain\<close>

definition link_chain :: "addr \<Rightarrow> 'd HashTable \<Rightarrow> 'd HashTable option" where
  "link_chain a ht = do {
     b \<leftarrow> heap ht a;
     slot \<leftarrow> slot_read ht (hash_index ht (b_h b));
     ht \<leftarrow> CONNECT_TO_BUCKET_DLLIST a slot ht;
     slot_write ht (hash_index ht (b_h b)) (Some a)
   }"

lemma link_chain_ok:
  assumes ch: "chains (heap ht) (arBuckets ht) (nTableMask ht) S cs"
    and S: "S \<subseteq> dom (heap ht)" "a \<notin> S" and b: "heap ht a = Some b"
    and i: "i = hash_index ht (b_h b)" "i < length (arBuckets ht)"
  shows "\<exists>hp. link_chain a ht = Some (ht\<lparr>heap := hp, arBuckets := (arBuckets ht)[i := Some a]\<rparr>) \<and>
     same_by view_list (heap ht) hp \<and>
     chains hp ((arBuckets ht)[i := Some a]) (nTableMask ht) (insert a S) (cs(i := a # cs i))"
proof -
  let ?hp1 = "(heap ht)(a \<mapsto> b\<lparr>pNext := head_opt (cs i), pLast := None\<rparr>)"
  define hp where "hp = (case head_opt (cs i) of None \<Rightarrow> ?hp1
     | Some n \<Rightarrow> ?hp1(n \<mapsto> (the (heap ht n))\<lparr>pLast := Some a\<rparr>))"
  note ci = chainsD [OF ch i(2)]
  have sub: "set (cs i) \<subseteq> dom (heap ht)" "a \<notin> set (cs i)" using ci(3) S by auto
  have nd: "\<exists>bn. heap ht n = Some bn \<and> n \<noteq> a \<and> n \<in> S \<and> unat (b_h (the (heap ht n)) AND nTableMask ht) = i"
    if "head_opt (cs i) = Some n" for n
    using head_opt_in_set [OF that] sub ci(3) S by auto
  have eq: "link_chain a ht = Some (ht\<lparr>heap := hp, arBuckets := (arBuckets ht)[i := Some a]\<rparr>)"
    using b i ci(1) nd
    by (auto simp: link_chain_def slot_read_def slot_write_def CONNECT_TO_BUCKET_DLLIST_def ht_write_def
        hp_def hash_index_def split: option.splits)
  have sb: "same_by view_list (heap ht) hp"
    using b nd by (auto simp: hp_def same_by_def view_list_def payload_def split: option.splits)
  have hsame: "b_h (the (hp x)) = b_h (the (heap ht x))" if "x \<in> S \<or> x = a" for x
    using payload_h(1) [OF same_by_payload(1) [OF sb]] that S b by blast
  have other: "hp x = heap ht x" if "x \<in> S" "head_opt (cs i) \<noteq> Some x" for x
    using that S by (auto simp: hp_def split: option.splits)
  have "chains hp ((arBuckets ht)[i := Some a]) (nTableMask ht) (insert a S) (cs(i := a # cs i))"
    unfolding chains_def
  proof (intro allI impI)
    fix j assume "j < length ((arBuckets ht)[i := Some a])"
    then have j: "j < length (arBuckets ht)" by simp
    note cj = chainsD [OF ch j]
    have "{x \<in> insert a S. unat (b_h (the (hp x)) AND nTableMask ht) = j} =
       {x \<in> insert a S. unat (b_h (the (heap ht x)) AND nTableMask ht) = j}"
      using hsame by (intro Collect_cong) (metis insertE)
    also have "\<dots> = (if j = i then insert a (set (cs i)) else set (cs j))"
      unfolding cj(3) ci(3) using i(1) b by (auto simp: hash_index_def)
    finally have set_eq: "{x \<in> insert a S. unat (b_h (the (hp x)) AND nTableMask ht) = j} =
       (if j = i then insert a (set (cs i)) else set (cs j))" .
    show "(arBuckets ht)[i := Some a] ! j = head_opt ((cs(i := a # cs i)) j) \<and>
       linked (\<lambda>a. pNext (the (hp a))) (\<lambda>a. pLast (the (hp a))) ((cs(i := a # cs i)) j) \<and>
       set ((cs(i := a # cs i)) j) = {x \<in> insert a S. unat (b_h (the (hp x)) AND nTableMask ht) = j}"
    proof (cases "j = i")
      case False
      have "hp x = heap ht x" if "x \<in> set (cs j)" for x
      proof (rule other)
        show "x \<in> S" using that cj(3) by simp
        show "head_opt (cs i) \<noteq> Some x" using nd [of x] that cj(3) False by auto
      qed
      then have "linked (\<lambda>a. pNext (the (hp a))) (\<lambda>a. pLast (the (hp a))) (cs j) =
          linked (\<lambda>a. pNext (the (heap ht a))) (\<lambda>a. pLast (the (heap ht a))) (cs j)"
        by (intro linked_cong) simp_all
      with cj(2) have "linked (\<lambda>a. pNext (the (hp a))) (\<lambda>a. pLast (the (hp a))) (cs j)" by simp
      then show ?thesis using False set_eq cj(1) by simp
    next
      case True
      have "linked (\<lambda>a. pNext (the (hp a))) (\<lambda>a. pLast (the (hp a))) ([] @ a # cs i)"
      proof (rule linked_insert [where us = "[]" and nx = "\<lambda>a. pNext (the (heap ht a))" and pv = "\<lambda>a. pLast (the (heap ht a))"])
        show "linked (\<lambda>a. pNext (the (heap ht a))) (\<lambda>a. pLast (the (heap ht a))) ([] @ cs i)"
          using ci(2) by simp
      qed (use sub nd in \<open>auto simp: hp_def split: option.splits\<close>)
      then show ?thesis using True set_eq i(2) by simp
    qed
  qed
  with eq sb show ?thesis by blast
qed

subsection \<open>Removing from a chain\<close>

definition unlink_chain :: "'d Bucket \<Rightarrow> 'd HashTable \<Rightarrow> 'd HashTable option" where
  "unlink_chain p ht = do {
     ht \<leftarrow> (case pLast p of
        Some l \<Rightarrow> ht_write ht l (\<lambda>b. b\<lparr>pNext := pNext p\<rparr>)
      | None \<Rightarrow> slot_write ht (hash_index ht (b_h p)) (pNext p));
     (case pNext p of
        Some n \<Rightarrow> ht_write ht n (\<lambda>b. b\<lparr>pLast := pLast p\<rparr>)
      | None \<Rightarrow> Some ht)
   }"

lemma unlink_chain_ok:
  assumes ch: "chains (heap ht) (arBuckets ht) (nTableMask ht) S cs"
    and S: "S \<subseteq> dom (heap ht)" "a \<in> S" and p: "heap ht a = Some p"
    and len: "hash_index ht (b_h p) < length (arBuckets ht)"
  shows "\<exists>hp ar i. unlink_chain p ht = Some (ht\<lparr>heap := hp, arBuckets := ar\<rparr>) \<and>
     length ar = length (arBuckets ht) \<and> same_by view_list (heap ht) hp \<and> hp a = heap ht a \<and>
     chains hp ar (nTableMask ht) (S - {a}) (cs(i := remove1 a (cs i)))"
proof -
  define i where "i = hash_index ht (b_h p)"
  note ci = chainsD [OF ch len [folded i_def]]
  have "a \<in> set (cs i)" using ci(3) S p by (simp add: i_def hash_index_def)
  then obtain us vs where uv: "cs i = us @ a # vs" "a \<notin> set us" "a \<notin> set vs" "set us \<inter> set vs = {}"
    using distinct_split [OF linked_distinct [OF ci(2)]] by metis
  have nb: "pNext p = head_opt vs" "pLast p = last_opt us"
    using linked_split [of _ _ us a vs] ci(2) uv(1) p by fastforce+
  have memb: "x \<in> S \<and> x \<noteq> a \<and> unat (b_h (the (heap ht x)) AND nTableMask ht) = i \<and> (\<exists>b. heap ht x = Some b)"
    if "x \<in> set us \<or> x \<in> set vs" for x
    using that ci(3) uv S(1) by auto
  have hdv: "head_opt vs = Some n \<Longrightarrow> \<exists>b. heap ht n = Some b" "head_opt vs = Some n \<Longrightarrow> n \<noteq> a"
    "head_opt vs = Some n \<Longrightarrow> unat (b_h (the (heap ht n)) AND nTableMask ht) = i" for n
    using memb [of n] head_opt_in_set [of vs n] by simp_all
  have ltu: "last_opt us = Some n \<Longrightarrow> \<exists>b. heap ht n = Some b" "last_opt us = Some n \<Longrightarrow> n \<noteq> a"
    "last_opt us = Some n \<Longrightarrow> unat (b_h (the (heap ht n)) AND nTableMask ht) = i" for n
    using memb [of n] last_opt_in_set [of us n] by simp_all
  have ne: "last_opt us = Some l \<Longrightarrow> head_opt vs = Some n \<Longrightarrow> l \<noteq> n" for l n
    using uv(4) head_opt_in_set last_opt_in_set by fastforce
  define hp1 where "hp1 = (case last_opt us of None \<Rightarrow> heap ht
    | Some l \<Rightarrow> (heap ht)(l \<mapsto> (the (heap ht l))\<lparr>pNext := head_opt vs\<rparr>))"
  define hp where "hp = (case head_opt vs of None \<Rightarrow> hp1
    | Some n \<Rightarrow> hp1(n \<mapsto> (the (heap ht n))\<lparr>pLast := last_opt us\<rparr>))"
  define ar where "ar = (if us = [] then (arBuckets ht)[i := head_opt vs] else arBuckets ht)"
  have eq: "unlink_chain p ht = Some (ht\<lparr>heap := hp, arBuckets := ar\<rparr>)"
    using len hdv(1) ltu(1) ne
    by (cases "last_opt us"; cases "head_opt vs"; fastforce simp: unlink_chain_def nb slot_write_def
        ht_write_def hp_def hp1_def ar_def i_def)
  have sb: "same_by view_list (heap ht) hp"
    using hdv(1) ltu(1) ne
    by (cases "last_opt us"; cases "head_opt vs";
        fastforce simp: hp_def hp1_def same_by_def view_list_def payload_def)
  have hpa: "hp a = heap ht a"
    using hdv(2) ltu(2) by (auto simp: hp_def hp1_def split: option.splits)
  have hsame: "b_h (the (hp x)) = b_h (the (heap ht x))" if "x \<in> S" for x
    using payload_h(1) [OF same_by_payload(1) [OF sb]] that S by blast
  have other: "hp x = heap ht x" if "head_opt vs \<noteq> Some x" "last_opt us \<noteq> Some x" for x
    using that by (auto simp: hp_def hp1_def split: option.splits)
  have "chains hp ar (nTableMask ht) (S - {a}) (cs(i := remove1 a (cs i)))"
    unfolding chains_def
  proof (intro allI impI)
    fix j assume "j < length ar"
    then have j: "j < length (arBuckets ht)" by (simp add: ar_def split: if_splits)
    note cj = chainsD [OF ch j]
    have "{x \<in> S - {a}. unat (b_h (the (hp x)) AND nTableMask ht) = j} = set (cs j) - {a}"
      unfolding cj(3) using hsame by auto
    moreover have "set (cs j) - {a} = set ((cs(i := remove1 a (cs i))) j)"
    proof (cases "j = i")
      case True
      then show ?thesis using uv by (auto simp: remove1_append)
    next
      case False
      have "a \<notin> set (cs j)" using False cj(3) p by (auto simp: i_def hash_index_def)
      then show ?thesis using False by simp
    qed
    ultimately have set_eq: "set ((cs(i := remove1 a (cs i))) j) =
      {x \<in> S - {a}. unat (b_h (the (hp x)) AND nTableMask ht) = j}" by simp
    show "ar ! j = head_opt ((cs(i := remove1 a (cs i))) j) \<and>
       linked (\<lambda>a. pNext (the (hp a))) (\<lambda>a. pLast (the (hp a))) ((cs(i := remove1 a (cs i))) j) \<and>
       set ((cs(i := remove1 a (cs i))) j) = {x \<in> S - {a}. unat (b_h (the (hp x)) AND nTableMask ht) = j}"
    proof (cases "j = i")
      case False
      have "hp x = heap ht x" if "x \<in> set (cs j)" for x
      proof (rule other)
        show "head_opt vs \<noteq> Some x" using hdv(3) [of x] that cj(3) False by auto
        show "last_opt us \<noteq> Some x" using ltu(3) [of x] that cj(3) False by auto
      qed
      then have "linked (\<lambda>a. pNext (the (hp a))) (\<lambda>a. pLast (the (hp a))) (cs j) =
          linked (\<lambda>a. pNext (the (heap ht a))) (\<lambda>a. pLast (the (heap ht a))) (cs j)"
        by (intro linked_cong) simp_all
      then show ?thesis using False set_eq cj(1,2) by (simp add: ar_def)
    next
      case True
      have "linked (\<lambda>a. pNext (the (hp a))) (\<lambda>a. pLast (the (hp a))) (us @ vs)"
      proof (rule linked_remove [where nx = "\<lambda>a. pNext (the (heap ht a))" and pv = "\<lambda>a. pLast (the (heap ht a))"])
        show "linked (\<lambda>a. pNext (the (heap ht a))) (\<lambda>a. pLast (the (heap ht a))) (us @ a # vs)"
          using ci(2) uv(1) by simp
      qed (use ne in \<open>auto simp: hp_def hp1_def split: option.splits\<close>)
      moreover have "ar ! i = head_opt (us @ vs)"
        using ci(1) uv(1) len by (simp add: ar_def head_opt_append i_def)
      ultimately show ?thesis using True set_eq uv by (simp add: remove1_split)
    qed
  qed
  moreover have "length ar = length (arBuckets ht)" by (simp add: ar_def)
  ultimately show ?thesis using eq sb hpa by blast
qed

subsection \<open>The global list\<close>

lemma link_global_ok:
  assumes g: "glist (heap ht) (pListHead ht) (pListTail ht) (us @ vs)"
    and dom: "set (us @ vs) \<subseteq> dom (heap ht)" and a: "a \<notin> set (us @ vs)" "heap ht a = Some b"
  shows "\<exists>hp pf pl. CONNECT_TO_GLOBAL_DLLIST_EX a (last_opt us) (head_opt vs) ht =
       Some (ht\<lparr>heap := hp, pListHead := pf, pListTail := pl\<rparr>) \<and>
     same_by view_chain (heap ht) hp \<and> glist hp pf pl (us @ a # vs)"
proof -
  let ?hp1 = "(heap ht)(a \<mapsto> b\<lparr>pListLast := last_opt us, pListNext := head_opt vs\<rparr>)"
  define hp2 where "hp2 = (case last_opt us of None \<Rightarrow> ?hp1
    | Some l \<Rightarrow> ?hp1(l \<mapsto> (the (heap ht l))\<lparr>pListNext := Some a\<rparr>))"
  define hp where "hp = (case head_opt vs of None \<Rightarrow> hp2
    | Some n \<Rightarrow> hp2(n \<mapsto> (the (heap ht n))\<lparr>pListLast := Some a\<rparr>))"
  have l: "linked (\<lambda>a. pListNext (the (heap ht a))) (\<lambda>a. pListLast (the (heap ht a))) (us @ vs)"
    using g by (simp add: glist_def)
  have ne: "last_opt us = Some l \<Longrightarrow> head_opt vs = Some n \<Longrightarrow> l \<noteq> n" for l n
    using linked_distinct [OF l] head_opt_in_set [of vs n] last_opt_in_set [of us l] by auto
  have nd: "head_opt vs = Some n \<Longrightarrow> \<exists>bn. heap ht n = Some bn" "head_opt vs = Some n \<Longrightarrow> n \<noteq> a"
    "last_opt us = Some n \<Longrightarrow> \<exists>bn. heap ht n = Some bn" "last_opt us = Some n \<Longrightarrow> n \<noteq> a" for n
    using head_opt_in_set [of vs n] last_opt_in_set [of us n] dom a by auto
  let ?pf = "if us = [] then Some a else pListHead ht" and ?pl = "if vs = [] then Some a else pListTail ht"
  have "CONNECT_TO_GLOBAL_DLLIST_EX a (last_opt us) (head_opt vs) ht =
       Some (ht\<lparr>heap := hp, pListHead := ?pf, pListTail := ?pl\<rparr>)"
    using a(2) nd(1) [of "the (head_opt vs)"] nd(2) [of "the (head_opt vs)"]
      nd(3) [of "the (last_opt us)"] nd(4) [of "the (last_opt us)"]
      ne [of "the (last_opt us)" "the (head_opt vs)"]
    by (cases "last_opt us"; cases "head_opt vs")
      (auto simp: CONNECT_TO_GLOBAL_DLLIST_EX_def ht_write_def hp_def hp2_def)
  moreover have "same_by view_chain (heap ht) hp"
    using a nd ne by (auto simp: hp_def hp2_def same_by_def view_chain_def payload_def split: option.splits)
  moreover have "linked (\<lambda>a. pListNext (the (hp a))) (\<lambda>a. pListLast (the (hp a))) (us @ a # vs)"
    by (rule linked_insert [OF l])
       (use a nd ne in \<open>auto simp: hp_def hp2_def split: option.splits\<close>)
  moreover have "?pf = head_opt (us @ a # vs)" "?pl = last_opt (us @ a # vs)"
    using g by (auto simp: glist_def head_opt_append last_opt_append last_opt_Cons)
  ultimately show ?thesis unfolding glist_def by blast
qed

definition unlink_global :: "'d Bucket \<Rightarrow> 'd HashTable \<Rightarrow> 'd HashTable option" where
  "unlink_global p ht = do {
     ht \<leftarrow> (case pListLast p of
        Some l \<Rightarrow> ht_write ht l (\<lambda>b. b\<lparr>pListNext := pListNext p\<rparr>)
      | None \<Rightarrow> Some (ht\<lparr>pListHead := pListNext p\<rparr>));
     (case pListNext p of
        Some n \<Rightarrow> ht_write ht n (\<lambda>b. b\<lparr>pListLast := pListLast p\<rparr>)
      | None \<Rightarrow> Some (ht\<lparr>pListTail := pListLast p\<rparr>))
   }"

lemma unlink_global_ok:
  assumes g: "glist (heap ht) (pListHead ht) (pListTail ht) (us @ a # vs)"
    and dom: "set (us @ a # vs) \<subseteq> dom (heap ht)" and p: "heap ht a = Some p"
  shows "\<exists>hp pf pl. unlink_global p ht = Some (ht\<lparr>heap := hp, pListHead := pf, pListTail := pl\<rparr>) \<and>
     same_by view_chain (heap ht) hp \<and> hp a = heap ht a \<and> glist hp pf pl (us @ vs) \<and>
     pListNext p = head_opt vs"
proof -
  have l: "linked (\<lambda>a. pListNext (the (heap ht a))) (\<lambda>a. pListLast (the (heap ht a))) (us @ a # vs)"
    using g by (simp add: glist_def)
  have nb: "pListNext p = head_opt vs" "pListLast p = last_opt us"
    using linked_split [OF l] p by simp_all
  define hp1 where "hp1 = (case last_opt us of None \<Rightarrow> heap ht
    | Some l \<Rightarrow> (heap ht)(l \<mapsto> (the (heap ht l))\<lparr>pListNext := head_opt vs\<rparr>))"
  define hp where "hp = (case head_opt vs of None \<Rightarrow> hp1
    | Some n \<Rightarrow> hp1(n \<mapsto> (the (heap ht n))\<lparr>pListLast := last_opt us\<rparr>))"
  have ne: "last_opt us = Some l \<Longrightarrow> head_opt vs = Some n \<Longrightarrow> l \<noteq> n" for l n
    using linked_distinct [OF l] head_opt_in_set [of vs n] last_opt_in_set [of us l] by auto
  have nd: "head_opt vs = Some n \<Longrightarrow> \<exists>bn. heap ht n = Some bn" "head_opt vs = Some n \<Longrightarrow> n \<noteq> a"
    "last_opt us = Some n \<Longrightarrow> \<exists>bn. heap ht n = Some bn" "last_opt us = Some n \<Longrightarrow> n \<noteq> a" for n
    using head_opt_in_set [of vs n] last_opt_in_set [of us n] dom linked_distinct [OF l] by auto
  let ?pf = "if us = [] then head_opt vs else pListHead ht" and ?pl = "if vs = [] then last_opt us else pListTail ht"
  have "unlink_global p ht = Some (ht\<lparr>heap := hp, pListHead := ?pf, pListTail := ?pl\<rparr>)"
    using nd(1) [of "the (head_opt vs)"] nd(3) [of "the (last_opt us)"]
      ne [of "the (last_opt us)" "the (head_opt vs)"]
    by (cases "last_opt us"; cases "head_opt vs")
      (auto simp: unlink_global_def nb ht_write_def hp_def hp1_def)
  moreover have "same_by view_chain (heap ht) hp"
    using nd ne by (auto simp: hp_def hp1_def same_by_def view_chain_def payload_def split: option.splits)
  moreover have "hp a = heap ht a"
    using nd by (auto simp: hp_def hp1_def split: option.splits)
  moreover have "linked (\<lambda>a. pListNext (the (hp a))) (\<lambda>a. pListLast (the (hp a))) (us @ vs)"
    by (rule linked_remove [OF l]) (use ne in \<open>auto simp: hp_def hp1_def split: option.splits\<close>)
  moreover have "?pf = head_opt (us @ vs)" "?pl = last_opt (us @ vs)"
    using g by (auto simp: glist_def head_opt_append last_opt_append last_opt_Cons)
  ultimately show ?thesis using nb unfolding glist_def by blast
qed

subsection \<open>The invariant\<close>

datatype hkey = KInt ulong | KStr "byte list"

definition bucket_key :: "'d Bucket \<Rightarrow> hkey" where
  "bucket_key b = (if nKeyLength b = 0 then KInt (b_h b) else KStr (cstr_bytes (arKey b)))"

text \<open>
  A string bucket's key is interned or stored in the bucket itself, has the length the bucket
  records, and \<open>h\<close> is its hash.
\<close>

definition bucket_wf :: "addr \<Rightarrow> 'd Bucket \<Rightarrow> bool" where
  "bucket_wf a b \<longleftrightarrow> (nKeyLength b \<noteq> 0 \<longrightarrow>
     (\<exists>loc bs. arKey b = CStr loc bs \<and> (loc = Interned \<or> loc = InBucket a) \<and>
        length bs = unat (nKeyLength b) \<and> b_h b = zend_inline_hash_func bs (nKeyLength b)))"

definition table_ok :: "'d HashTable \<Rightarrow> bool" where
  "table_ok ht \<longleftrightarrow> (\<exists>k. 3 \<le> k \<and> k \<le> 31 \<and> nTableSize ht = 2 ^ k) \<and>
     (nTableMask ht = 0 \<or> nTableMask ht = nTableSize ht - 1) \<and>
     length (arBuckets ht) = Suc (unat (nTableMask ht))"

definition next_free_ok :: "ulong \<Rightarrow> ('a \<times> 'd) list \<Rightarrow> ('a \<Rightarrow> hkey) \<Rightarrow> bool" where
  "next_free_ok n al f \<longleftrightarrow> 0 \<le> sint n \<and>
     (n \<noteq> LONG_MAX \<longrightarrow> (\<forall>k h. k \<in> fst ` set al \<and> f k = KInt h \<longrightarrow> sint h < sint n))"

definition entries :: "'d HashTable \<Rightarrow> addr list \<Rightarrow> (hkey \<times> 'd) list" where
  "entries ht xs = map (\<lambda>a. (bucket_key (the (heap ht a)), pData (the (heap ht a)))) xs"

definition hash_inv :: "'d HashTable \<Rightarrow> addr list \<Rightarrow> bool" where
  "hash_inv ht xs \<longleftrightarrow>
     table_ok ht \<and> (nTableMask ht = 0 \<longrightarrow> xs = []) \<and>
     glist (heap ht) (pListHead ht) (pListTail ht) xs \<and>
     (\<exists>cs. chains (heap ht) (arBuckets ht) (nTableMask ht) (set xs) cs) \<and>
     dom (heap ht) = set xs \<and> (\<forall>a\<in>set xs. a < brk ht) \<and>
     unat (nNumOfElements ht) = length xs \<and>
     (\<forall>a. pInternalPointer ht = Some a \<longrightarrow> a \<in> set xs) \<and>
     (\<forall>a\<in>set xs. bucket_wf a (the (heap ht a))) \<and>
     distinct (map fst (entries ht xs)) \<and>
     next_free_ok (nNextFreeElement ht) (entries ht xs) id"

text \<open>
  A bucket without a string key has no key pointer.  This is a property of its own because
  \<open>zend_hash_reindex\<close> does not keep it.
\<close>

definition clean_keys :: "'d HashTable \<Rightarrow> bool" where
  "clean_keys ht \<longleftrightarrow> (\<forall>a b. heap ht a = Some b \<longrightarrow> nKeyLength b = 0 \<longrightarrow> arKey b = NullStr)"

text \<open>The contract: a table stands for an association list in insertion order.\<close>

definition hash_refines :: "'d HashTable \<Rightarrow> (hkey \<times> 'd) list \<Rightarrow> bool" where
  "hash_refines ht al \<longleftrightarrow> (\<exists>xs. hash_inv ht xs \<and> clean_keys ht \<and> entries ht xs = al)"

lemma hash_invD:
  assumes "hash_inv ht xs"
  shows "table_ok ht" "nTableMask ht = 0 \<Longrightarrow> xs = []"
    "glist (heap ht) (pListHead ht) (pListTail ht) xs"
    "\<exists>cs. chains (heap ht) (arBuckets ht) (nTableMask ht) (set xs) cs"
    "dom (heap ht) = set xs" "\<And>a. a \<in> set xs \<Longrightarrow> a < brk ht"
    "unat (nNumOfElements ht) = length xs"
    "\<And>a. pInternalPointer ht = Some a \<Longrightarrow> a \<in> set xs"
    "\<And>a. a \<in> set xs \<Longrightarrow> bucket_wf a (the (heap ht a))"
    "distinct (map fst (entries ht xs))"
    "next_free_ok (nNextFreeElement ht) (entries ht xs) id"
    "distinct xs"
  using assms by (auto simp: hash_inv_def glist_def linked_def)

lemma hash_index_lt: "table_ok ht \<Longrightarrow> hash_index ht h < length (arBuckets ht)"
  by (simp add: table_ok_def hash_index_def word_and_lt_Suc_mask)

lemma slot_read_ok: "table_ok ht \<Longrightarrow> slot_read ht (hash_index ht h) = Some (arBuckets ht ! hash_index ht h)"
  by (simp add: slot_read_def hash_index_lt)

lemma entries_cong: "same_by payload (heap ht) (heap ht') \<Longrightarrow> set xs \<subseteq> dom (heap ht) \<Longrightarrow> entries ht' xs = entries ht xs"
  unfolding entries_def bucket_key_def
  by (rule map_cong [OF refl]) (simp add: payload_h subset_iff)

lemma bucket_wf_cong: "same_by payload hp hp' \<Longrightarrow> a \<in> dom hp \<Longrightarrow> bucket_wf a (the (hp' a)) = bucket_wf a (the (hp a))"
  by (simp add: bucket_wf_def payload_h)

lemma clean_keys_cong:
  assumes "same_by payload (heap ht) (heap ht')" and "clean_keys ht"
  shows "clean_keys ht'"
  unfolding clean_keys_def
proof (intro allI impI)
  fix a b assume ab: "heap ht' a = Some b" "nKeyLength b = 0"
  then have a: "a \<in> dom (heap ht)" using same_by_dom [OF assms(1)] by auto
  from payload_h [OF assms(1) a] ab assms(2) a show "arKey b = NullStr"
    by (auto simp: clean_keys_def)
qed

subsection \<open>Lookup\<close>

definition key_addr :: "'d HashTable \<Rightarrow> addr list \<Rightarrow> hkey \<Rightarrow> addr option" where
  "key_addr ht xs k = List.find (\<lambda>a. bucket_key (the (heap ht a)) = k) xs"

lemma map_of_entries: "map_of (entries ht xs) k = map_option (\<lambda>a. pData (the (heap ht a))) (key_addr ht xs k)"
  by (induction xs) (auto simp: entries_def key_addr_def)

lemma key_addr_NoneD: "key_addr ht xs k = None \<Longrightarrow> k \<notin> fst ` set (entries ht xs)"
  by (auto simp: key_addr_def find_None_iff entries_def)

lemma key_addr_SomeD: "key_addr ht xs k = Some a \<Longrightarrow> a \<in> set xs \<and> bucket_key (the (heap ht a)) = k"
  by (auto simp: key_addr_def find_Some_iff)

lemma key_addr_unique:
  assumes "distinct (map fst (entries ht xs))" and "a \<in> set xs" and "bucket_key (the (heap ht a)) = k"
  shows "key_addr ht xs k = Some a"
  using assms
proof (induction xs)
  case (Cons x xs)
  show ?case
  proof (cases "a = x")
    case False
    with Cons.prems have "a \<in> set xs" "bucket_key (the (heap ht x)) \<noteq> k"
      by (force simp: entries_def)+
    with Cons.IH Cons.prems show ?thesis by (simp add: key_addr_def entries_def)
  qed (use Cons.prems in \<open>simp add: key_addr_def\<close>)
qed simp

lemma find_unique:
  assumes "a \<in> set xs" and "P a" and "\<And>x. x \<in> set xs \<Longrightarrow> P x \<Longrightarrow> x = a"
  shows "List.find P xs = Some a"
proof (cases "List.find P xs")
  case None
  with assms(1,2) show ?thesis by (simp add: find_None_iff)
next
  case (Some y)
  then have "y \<in> set xs" "P y" by (auto simp: find_Some_iff)
  with assms(3) Some show ?thesis by simp
qed

lemma chain_find_ok:
  assumes "linked (\<lambda>a. pNext (the (heap ht a))) pv (us @ ys)" and "set ys \<subseteq> dom (heap ht)"
  shows "chain_find ht P (head_opt ys) = Some (List.find (\<lambda>a. P (the (heap ht a))) ys)"
  using assms
proof (induction ys arbitrary: us)
  case Nil
  then show ?case by (simp add: chain_find.simps)
next
  case (Cons y ys)
  then obtain b where b: "heap ht y = Some b" by auto
  with linked_split(1) [OF Cons.prems(1)] have "pNext b = head_opt ys" by simp
  with b Cons.IH [of "us @ [y]"] Cons.prems show ?case by (subst chain_find.simps) simp
qed

text \<open>
  A search whose test recognises the key \<open>k\<close>, in the slot every bucket with that key belongs
  to, returns the bucket of \<open>k\<close>.
\<close>

lemma chain_lookup:
  assumes inv: "hash_inv ht xs"
    and P: "\<And>a. a \<in> set xs \<Longrightarrow> P (the (heap ht a)) \<longleftrightarrow> bucket_key (the (heap ht a)) = k"
    and h: "\<And>a. a \<in> set xs \<Longrightarrow> bucket_key (the (heap ht a)) = k \<Longrightarrow> b_h (the (heap ht a)) = h"
  shows "chain_find ht P (arBuckets ht ! hash_index ht h) = Some (key_addr ht xs k)"
proof -
  let ?i = "hash_index ht h"
  obtain cs where ch: "chains (heap ht) (arBuckets ht) (nTableMask ht) (set xs) cs"
    using hash_invD(4) [OF inv] by blast
  note ci = chainsD [OF ch hash_index_lt [OF hash_invD(1) [OF inv], of h]]
  have "chain_find ht P (head_opt (cs ?i)) = Some (List.find (\<lambda>a. P (the (heap ht a))) (cs ?i))"
    by (rule chain_find_ok [where us = "[]"]) (use ci hash_invD(5) [OF inv] in auto)
  moreover have "List.find (\<lambda>a. P (the (heap ht a))) (cs ?i) = key_addr ht xs k"
  proof (cases "key_addr ht xs k")
    case None
    then have "\<forall>a\<in>set xs. \<not> P (the (heap ht a))" using P by (auto simp: key_addr_def find_None_iff)
    then show ?thesis unfolding None using ci(3) by (auto simp: find_None_iff)
  next
    case (Some a)
    then have a: "a \<in> set xs" "bucket_key (the (heap ht a)) = k" by (auto dest: key_addr_SomeD)
    then have "a \<in> set (cs ?i)" using ci(3) h by (auto simp: hash_index_def)
    moreover have "P (the (heap ht a))" using a P by simp
    moreover have "x = a" if "x \<in> set (cs ?i)" "P (the (heap ht x))" for x
    proof -
      from that ci(3) have x: "x \<in> set xs" by simp
      with that P have "bucket_key (the (heap ht x)) = k" by simp
      from key_addr_unique [OF hash_invD(10) [OF inv] x this] Some show ?thesis by simp
    qed
    ultimately show ?thesis unfolding Some by (intro find_unique)
  qed
  ultimately show ?thesis using ci(1) by simp
qed

text \<open>What the three tests of the source recognise.\<close>

definition key_arg :: "cstr \<Rightarrow> uint \<Rightarrow> ulong \<Rightarrow> bool" where
  "key_arg key len h \<longleftrightarrow> len \<noteq> 0 \<and> key \<noteq> NullStr \<and> length (cstr_bytes key) = unat len \<and>
     h = zend_inline_hash_func (cstr_bytes key) len"

lemma key_match_iff:
  assumes "bucket_wf a b" and "nKeyLength b = 0 \<Longrightarrow> arKey b = NullStr" and "key_arg key len h"
  shows "key_match key len h b \<longleftrightarrow> bucket_key b = KStr (cstr_bytes key)"
proof (cases "nKeyLength b = 0")
  case True
  with assms show ?thesis by (auto simp: key_match_def bucket_key_def key_arg_def)
next
  case False
  with assms(1) obtain loc bs where bs: "arKey b = CStr loc bs" "length bs = unat (nKeyLength b)"
    "b_h b = zend_inline_hash_func bs (nKeyLength b)" by (auto simp: bucket_wf_def)
  then have "nKeyLength b = len" if "bs = cstr_bytes key"
    unfolding word_unat_eq_iff using that assms(3) by (simp add: key_arg_def)
  with bs False assms(3) show ?thesis
    by (auto simp: key_match_def bucket_key_def key_arg_def memcmp_eq_def)
qed

lemma key_arg_len:
  assumes "bucket_wf a b" and "key_arg key len h" and "bucket_key b = KStr (cstr_bytes key)"
  shows "nKeyLength b = len" and "b_h b = h"
proof -
  from assms(3) have "nKeyLength b \<noteq> 0" by (auto simp: bucket_key_def)
  with assms(1) obtain loc bs where bs: "arKey b = CStr loc bs" "length bs = unat (nKeyLength b)"
    "b_h b = zend_inline_hash_func bs (nKeyLength b)" by (auto simp: bucket_wf_def)
  with assms show "nKeyLength b = len"
    unfolding word_unat_eq_iff by (simp add: bucket_key_def key_arg_def split: if_splits)
  with bs assms show "b_h b = h" by (auto simp: bucket_key_def key_arg_def split: if_splits)
qed

lemma index_match_iff: "index_match h b \<longleftrightarrow> bucket_key b = KInt h"
  by (simp add: index_match_def bucket_key_def)

lemma index_key_h: "bucket_key b = KInt h \<Longrightarrow> b_h b = h"
  by (simp add: bucket_key_def split: if_splits)

lemma del_match_key_iff:
  assumes "bucket_wf a b" and "key_arg key len h"
  shows "del_match key len h b \<longleftrightarrow> bucket_key b = KStr (cstr_bytes key)"
proof
  assume "bucket_key b = KStr (cstr_bytes key)"
  with key_arg_len [OF assms] show "del_match key len h b"
    by (auto simp: del_match_def bucket_key_def memcmp_eq_def split: if_splits)
next
  assume "del_match key len h b"
  then have d: "nKeyLength b = len" "len \<noteq> 0" "take (unat len) (cstr_bytes (arKey b)) = take (unat len) (cstr_bytes key)"
    using assms(2) by (auto simp: del_match_def key_arg_def memcmp_eq_def)
  with assms show "bucket_key b = KStr (cstr_bytes key)"
    by (auto simp: bucket_key_def bucket_wf_def key_arg_def)
qed

lemma del_match_index_iff: "del_match key 0 h b \<longleftrightarrow> bucket_key b = KInt h"
  by (auto simp: del_match_def bucket_key_def)

lemma clean_keysD:
  assumes "clean_keys ht" and "hash_inv ht xs" and "a \<in> set xs" and "nKeyLength (the (heap ht a)) = 0"
  shows "arKey (the (heap ht a)) = NullStr"
proof -
  from assms(3) hash_invD(5) [OF assms(2)] obtain b where "heap ht a = Some b" by blast
  with assms(1,4) show ?thesis by (simp add: clean_keys_def)
qed

lemma key_lookup:
  assumes "hash_inv ht xs" and "clean_keys ht" and "key_arg key len h"
  shows "chain_find ht (key_match key len h) (arBuckets ht ! hash_index ht h) =
    Some (key_addr ht xs (KStr (cstr_bytes key)))"
  by (rule chain_lookup [OF assms(1)])
     (use key_match_iff [OF hash_invD(9) [OF assms(1)] clean_keysD [OF assms(2,1)] assms(3)]
        key_arg_len(2) [OF hash_invD(9) [OF assms(1)] assms(3)] in blast)+

lemma index_lookup:
  assumes "hash_inv ht xs"
  shows "chain_find ht (index_match h) (arBuckets ht ! hash_index ht h) = Some (key_addr ht xs (KInt h))"
  by (rule chain_lookup [OF assms]) (auto simp: index_match_iff intro: index_key_h)

lemma del_key_lookup:
  assumes "hash_inv ht xs" and "key_arg key len h"
  shows "chain_find ht (del_match key len h) (arBuckets ht ! hash_index ht h) =
    Some (key_addr ht xs (KStr (cstr_bytes key)))"
  by (rule chain_lookup [OF assms(1)])
     (use del_match_key_iff [OF hash_invD(9) [OF assms(1)] assms(2)]
        key_arg_len(2) [OF hash_invD(9) [OF assms(1)] assms(2)] in blast)+

lemma del_index_lookup:
  assumes "hash_inv ht xs"
  shows "chain_find ht (del_match key 0 h) (arBuckets ht ! hash_index ht h) = Some (key_addr ht xs (KInt h))"
  by (rule chain_lookup [OF assms]) (auto simp: del_match_index_iff intro: index_key_h)

end
