(* ===== verification/Zend_Hash_Ops.thy ===== *)
theory Zend_Hash_Ops
  imports Zend_Hash_Inv
begin

text \<open>
  Every operation of part one keeps the invariant and implements the operation of the same
  name on association lists (\<open>AList.update\<close>, \<open>AList.delete\<close>, \<open>map_of\<close>).  Growth and rehashing
  change the slots only: the order and the contents of the table stay.
\<close>

subsection \<open>Rehashing\<close>

lemma rehash_loop_None [simp]: "rehash_loop ht None = Some ht"
  by (simp add: rehash_loop.simps)

lemma rehash_loop_Some:
  "rehash_loop ht (Some a) = do { ht \<leftarrow> link_chain a ht; b \<leftarrow> heap ht a; rehash_loop ht (pListNext b) }"
  by (subst rehash_loop.simps) (simp add: link_chain_def)

lemma rehash_loop_ok:
  assumes "glist (heap ht) pf pl (us @ vs)" and "set (us @ vs) \<subseteq> dom (heap ht)"
    and "chains (heap ht) (arBuckets ht) (nTableMask ht) (set us) cs"
    and "length (arBuckets ht) = Suc (unat (nTableMask ht))"
  shows "\<exists>hp ar cs'. rehash_loop ht (head_opt vs) = Some (ht\<lparr>heap := hp, arBuckets := ar\<rparr>) \<and>
     same_by view_list (heap ht) hp \<and> length ar = length (arBuckets ht) \<and>
     chains hp ar (nTableMask ht) (set (us @ vs)) cs'"
  using assms
proof (induction vs arbitrary: us ht cs)
  case Nil
  then show ?case by (intro exI [of _ "heap ht"] exI [of _ "arBuckets ht"] exI [of _ cs]) simp
next
  case (Cons a vs)
  obtain b where b: "heap ht a = Some b" using Cons.prems(2) by auto
  let ?i = "hash_index ht (b_h b)"
  have i: "?i < length (arBuckets ht)"
    using Cons.prems(4) by (simp add: hash_index_def word_and_lt_Suc_mask)
  have "a \<notin> set us" using Cons.prems(1) by (auto simp: glist_def linked_def)
  with link_chain_ok [OF Cons.prems(3) _ _ b refl i] Cons.prems(2)
  obtain hp where hp: "link_chain a ht = Some (ht\<lparr>heap := hp, arBuckets := (arBuckets ht)[?i := Some a]\<rparr>)"
    "same_by view_list (heap ht) hp"
    "chains hp ((arBuckets ht)[?i := Some a]) (nTableMask ht) (insert a (set us)) (cs(?i := a # cs ?i))"
    by auto
  have g: "glist hp pf pl (us @ a # vs)" using glist_frame [OF hp(2) Cons.prems(2)] Cons.prems(1) by simp
  obtain b' where b': "hp a = Some b'" using same_by_dom [OF hp(2)] b by blast
  have nx: "pListNext b' = head_opt vs" using g b' linked_split(1) [of _ _ us a vs] by (fastforce simp: glist_def)
  let ?ht = "ht\<lparr>heap := hp, arBuckets := (arBuckets ht)[?i := Some a]\<rparr>"
  have "\<exists>hp' ar cs'. rehash_loop ?ht (head_opt vs) = Some (?ht\<lparr>heap := hp', arBuckets := ar\<rparr>) \<and>
     same_by view_list (heap ?ht) hp' \<and> length ar = length (arBuckets ?ht) \<and>
     chains hp' ar (nTableMask ?ht) (set ((us @ [a]) @ vs)) cs'"
  proof (rule Cons.IH)
    show "glist (heap ?ht) pf pl ((us @ [a]) @ vs)" using g by simp
    show "set ((us @ [a]) @ vs) \<subseteq> dom (heap ?ht)" using Cons.prems(2) same_by_dom [OF hp(2)] by auto
    show "chains (heap ?ht) (arBuckets ?ht) (nTableMask ?ht) (set (us @ [a])) (cs(?i := a # cs ?i))"
      using hp(3) by simp
    show "length (arBuckets ?ht) = Suc (unat (nTableMask ?ht))" using Cons.prems(4) by simp
  qed
  then obtain hp' ar cs' where r: "rehash_loop ?ht (head_opt vs) = Some (ht\<lparr>heap := hp', arBuckets := ar\<rparr>)"
    "same_by view_list hp hp'" "length ar = length (arBuckets ht)"
    "chains hp' ar (nTableMask ht) (set (us @ a # vs)) cs'" by auto
  have "rehash_loop ht (head_opt (a # vs)) = Some (ht\<lparr>heap := hp', arBuckets := ar\<rparr>)"
    using hp(1) b' nx r(1) by (simp add: rehash_loop_Some)
  with same_by_trans [OF hp(2) r(2)] r(3,4) show ?case by blast
qed

lemma chains_empty: "chains hp (replicate n None) m {} (\<lambda>_. [])"
  by (simp add: chains_def)

text \<open>
  \<open>zend_hash_rehash\<close> rebuilds all chains of a table whose slot array has the size the mask says.
\<close>

lemma zend_hash_rehash_ok:
  assumes g: "glist (heap ht) (pListHead ht) (pListTail ht) xs" and dom: "set xs \<subseteq> dom (heap ht)"
    and len: "unat (nTableSize ht) = Suc (unat (nTableMask ht))" and ne: "nNumOfElements ht \<noteq> 0"
  shows "\<exists>hp ar cs. zend_hash_rehash ht = Some (ht\<lparr>heap := hp, arBuckets := ar\<rparr>) \<and>
     same_by view_list (heap ht) hp \<and> length ar = Suc (unat (nTableMask ht)) \<and>
     chains hp ar (nTableMask ht) (set xs) cs"
proof -
  let ?ht = "ht\<lparr>arBuckets := replicate (unat (nTableSize ht)) None\<rparr>"
  have "\<exists>hp ar cs. rehash_loop ?ht (head_opt xs) = Some (?ht\<lparr>heap := hp, arBuckets := ar\<rparr>) \<and>
     same_by view_list (heap ?ht) hp \<and> length ar = length (arBuckets ?ht) \<and>
     chains hp ar (nTableMask ?ht) (set ([] @ xs)) cs"
  proof (rule rehash_loop_ok)
    show "glist (heap ?ht) (pListHead ht) (pListTail ht) ([] @ xs)" using g by simp
    show "chains (heap ?ht) (arBuckets ?ht) (nTableMask ?ht) (set []) (\<lambda>_. [])"
      by (simp add: chains_empty del: replicate_Suc)
  qed (use dom len in simp_all)
  moreover have "pListHead ht = head_opt xs" using g by (simp add: glist_def)
  ultimately show ?thesis using ne len by (auto simp: zend_hash_rehash_def)
qed

subsection \<open>Growth\<close>

lemma two_power_less:
  assumes "k \<le> 31"
  shows "unat ((2 :: uint) ^ k) = 2 ^ k"
proof -
  have "unat (of_nat (2 ^ k) :: uint) = 2 ^ k mod 2 ^ 32" by (simp only: unat_of_nat) simp
  also have "\<dots> = 2 ^ k" using assms by (intro mod_less power_strict_increasing) auto
  finally show ?thesis by simp
qed

lemma hash_inv_same:
  assumes inv: "hash_inv ht xs" and sb: "same_by view_list (heap ht) hp"
    and ch: "chains hp ar m (set xs) cs" and t: "table_ok (ht\<lparr>nTableSize := sz, nTableMask := m, heap := hp, arBuckets := ar\<rparr>)"
    and m: "m \<noteq> 0"
  shows "hash_inv (ht\<lparr>nTableSize := sz, nTableMask := m, heap := hp, arBuckets := ar\<rparr>) xs"
    and "entries (ht\<lparr>nTableSize := sz, nTableMask := m, heap := hp, arBuckets := ar\<rparr>) xs = entries ht xs"
proof -
  let ?ht = "ht\<lparr>nTableSize := sz, nTableMask := m, heap := hp, arBuckets := ar\<rparr>"
  note sp = same_by_payload(1) [OF sb]
  have dom: "set xs \<subseteq> dom (heap ht)" using hash_invD(5) [OF inv] by simp
  show e: "entries ?ht xs = entries ht xs" by (rule entries_cong [OF _ dom]) (simp add: sp)
  have "bucket_wf a (the (hp a))" if "a \<in> set xs" for a
    using that bucket_wf_cong [OF sp, of a] hash_invD(5,9) [OF inv] by auto
  moreover have "glist hp (pListHead ht) (pListTail ht) xs"
    using glist_frame [OF sb dom] hash_invD(3) [OF inv] by simp
  moreover have "dom hp = set xs" using same_by_dom [OF sb] hash_invD(5) [OF inv] by simp
  ultimately show "hash_inv ?ht xs" using inv ch t m e
    by (auto simp: hash_inv_def)
qed

lemma push_bit1_size:
  assumes "3 \<le> k" "k \<le> 31" "sz = (2 :: uint) ^ k" "0 < push_bit 1 sz"
  shows "k < 31" "push_bit 1 sz = 2 ^ Suc k" "unat (push_bit 1 sz) = Suc (unat (push_bit 1 sz - 1))"
    "push_bit 1 sz - 1 \<noteq> 0"
proof -
  have p: "push_bit 1 sz = 2 ^ Suc k" by (simp add: assms(3) push_bit_eq_mult)
  show k: "k < 31"
  proof (rule ccontr)
    assume "\<not> k < 31"
    with assms(2) have "Suc k = 32" by simp
    with p have "push_bit 1 sz = (2 :: uint) ^ 32" by metis
    also have "(2 :: uint) ^ 32 = 0" by simp
    finally show False using assms(4) by simp
  qed
  show "push_bit 1 sz = 2 ^ Suc k" by (rule p)
  have u: "unat (push_bit 1 sz) = 2 ^ Suc k" using k unfolding p by (intro two_power_less) simp
  have g: "(16 :: nat) \<le> 2 ^ Suc k" using assms(1) power_increasing [of 4 "Suc k" "2 :: nat"] by simp
  then have "push_bit 1 sz \<noteq> 0" using u by (metis not_numeral_le_zero unat_0)
  then have "unat (push_bit 1 sz - 1) = unat (push_bit 1 sz) - 1" by (rule unat_minus_one)
  with u g show "unat (push_bit 1 sz) = Suc (unat (push_bit 1 sz - 1))"
    and "push_bit 1 sz - 1 \<noteq> 0" by (auto simp: unat_eq_0 [symmetric])
qed

lemma IF_FULL_ok:
  assumes inv: "hash_inv ht xs" and cl: "clean_keys ht"
  shows "\<exists>ht'. ZEND_HASH_IF_FULL_DO_RESIZE ht = Some ht' \<and> hash_inv ht' xs \<and> clean_keys ht' \<and>
    entries ht' xs = entries ht xs \<and> dtor_log ht' = dtor_log ht \<and> pDestructor ht' = pDestructor ht \<and>
    pInternalPointer ht' = pInternalPointer ht"
proof (cases "nTableSize ht < nNumOfElements ht \<and> 0 < push_bit 1 (nTableSize ht)")
  case False
  with inv cl show ?thesis by (auto simp: ZEND_HASH_IF_FULL_DO_RESIZE_def zend_hash_do_resize_def)
next
  case True
  let ?sz = "push_bit 1 (nTableSize ht)"
  let ?ht = "ht\<lparr>arBuckets := arBuckets ht @ replicate (unat (nTableSize ht)) None, nTableSize := ?sz, nTableMask := ?sz - 1\<rparr>"
  obtain k where k: "3 \<le> k" "k \<le> 31" "nTableSize ht = 2 ^ k" using hash_invD(1) [OF inv] by (auto simp: table_ok_def)
  note pk = push_bit1_size [OF k conjunct2 [OF True]]
  have ne: "nNumOfElements ht \<noteq> 0" using True by auto
  have "\<exists>hp ar cs. zend_hash_rehash ?ht = Some (?ht\<lparr>heap := hp, arBuckets := ar\<rparr>) \<and>
     same_by view_list (heap ?ht) hp \<and> length ar = Suc (unat (nTableMask ?ht)) \<and>
     chains hp ar (nTableMask ?ht) (set xs) cs"
    by (rule zend_hash_rehash_ok) (use hash_invD(3,5) [OF inv] pk(3) ne in auto)
  then obtain hp ar cs where r: "zend_hash_rehash ?ht = Some (ht\<lparr>nTableSize := ?sz, nTableMask := ?sz - 1, heap := hp, arBuckets := ar\<rparr>)"
    "same_by view_list (heap ht) hp" "length ar = Suc (unat (?sz - 1))" "chains hp ar (?sz - 1) (set xs) cs"
    by auto
  let ?ht' = "ht\<lparr>nTableSize := ?sz, nTableMask := ?sz - 1, heap := hp, arBuckets := ar\<rparr>"
  have t: "table_ok ?ht'" using pk k(1) r(3) by (auto simp: table_ok_def intro!: exI [of _ "Suc k"])
  note hi = hash_inv_same [OF inv r(2,4) t pk(4)]
  have "clean_keys ?ht'" by (rule clean_keys_cong [OF _ cl]) (simp add: same_by_payload(1) [OF r(2)])
  with hi True r(1) show ?thesis
    by (auto simp: ZEND_HASH_IF_FULL_DO_RESIZE_def zend_hash_do_resize_def Let_def)
qed

subsection \<open>A new bucket\<close>

definition insert_bucket :: "'d Bucket \<Rightarrow> 'd HashTable \<Rightarrow> 'd HashTable option" where
  "insert_bucket b ht = do {
     ht \<leftarrow> link_chain (brk ht) (snd (pemalloc_bucket ht b));
     CONNECT_TO_GLOBAL_DLLIST (brk ht - 1) ht
   }"

lemma insert_bucket_links:
  assumes inv: "hash_inv ht xs"
  shows "\<exists>ht' cs. insert_bucket b ht = Some ht' \<and>
     glist (heap ht') (pListHead ht') (pListTail ht') (xs @ [brk ht]) \<and>
     chains (heap ht') (arBuckets ht') (nTableMask ht') (insert (brk ht) (set xs)) cs \<and>
     same_by payload ((heap ht)(brk ht \<mapsto> b)) (heap ht') \<and>
     length (arBuckets ht') = length (arBuckets ht) \<and>
     pInternalPointer ht' = (if pInternalPointer ht = None then Some (brk ht) else pInternalPointer ht) \<and>
     ht'\<lparr>heap := heap ht, arBuckets := arBuckets ht, pListHead := pListHead ht, pListTail := pListTail ht,
        pInternalPointer := pInternalPointer ht, brk := brk ht\<rparr> = ht \<and> brk ht' = Suc (brk ht)"
proof -
  let ?a = "brk ht" and ?h0 = "(heap ht)(brk ht \<mapsto> b)"
  let ?ht0 = "ht\<lparr>heap := ?h0, brk := Suc (brk ht)\<rparr>"
  have a: "?a \<notin> set xs" using hash_invD(6) [OF inv] by blast
  then have other: "?h0 x = heap ht x" if "x \<in> set xs" for x using that by auto
  obtain cs where ch: "chains (heap ht) (arBuckets ht) (nTableMask ht) (set xs) cs"
    using hash_invD(4) [OF inv] by blast
  have ch0: "chains ?h0 (arBuckets ht) (nTableMask ht) (set xs) cs" by (rule chains_off [OF other ch])
  have g0: "glist ?h0 (pListHead ht) (pListTail ht) xs"
    using glist_off [of xs ?h0 "heap ht"] other hash_invD(3) [OF inv] by simp
  let ?i = "hash_index ht (b_h b)"
  have i: "?i < length (arBuckets ht)" by (rule hash_index_lt [OF hash_invD(1) [OF inv]])
  have "\<exists>hp. link_chain ?a ?ht0 = Some (?ht0\<lparr>heap := hp, arBuckets := (arBuckets ?ht0)[?i := Some ?a]\<rparr>) \<and>
     same_by view_list (heap ?ht0) hp \<and>
     chains hp ((arBuckets ?ht0)[?i := Some ?a]) (nTableMask ?ht0) (insert ?a (set xs)) (cs(?i := ?a # cs ?i))"
    by (rule link_chain_ok [where b = b]) (use ch0 a i hash_invD(5) [OF inv] in \<open>auto simp: hash_index_def\<close>)
  then obtain hp where hp: "link_chain ?a ?ht0 = Some (?ht0\<lparr>heap := hp, arBuckets := (arBuckets ht)[?i := Some ?a]\<rparr>)"
    "same_by view_list ?h0 hp"
    "chains hp ((arBuckets ht)[?i := Some ?a]) (nTableMask ht) (insert ?a (set xs)) (cs(?i := ?a # cs ?i))"
    by auto
  let ?ht1 = "?ht0\<lparr>heap := hp, arBuckets := (arBuckets ht)[?i := Some ?a]\<rparr>"
  have dom1: "dom hp = insert ?a (set xs)" using same_by_dom [OF hp(2)] hash_invD(5) [OF inv] by simp
  have g1: "glist hp (pListHead ht) (pListTail ht) (xs @ [])"
    using glist_frame [OF hp(2), of xs] g0 hash_invD(5) [OF inv] by auto
  obtain b1 where b1: "hp ?a = Some b1" using dom1 by blast
  have "\<exists>hp' pf pl. CONNECT_TO_GLOBAL_DLLIST_EX ?a (last_opt xs) (head_opt []) ?ht1 =
       Some (?ht1\<lparr>heap := hp', pListHead := pf, pListTail := pl\<rparr>) \<and>
     same_by view_chain (heap ?ht1) hp' \<and> glist hp' pf pl (xs @ ?a # [])"
    by (rule link_global_ok [where b = b1]) (use g1 dom1 a b1 in auto)
  then obtain hp' pf pl where g: "CONNECT_TO_GLOBAL_DLLIST_EX ?a (last_opt xs) None ?ht1 =
       Some (?ht1\<lparr>heap := hp', pListHead := pf, pListTail := pl\<rparr>)"
     "same_by view_chain hp hp'" "glist hp' pf pl (xs @ [?a])" by auto
  have tl: "pListTail ht = last_opt xs" using hash_invD(3) [OF inv] by (simp add: glist_def)
  have "chains hp' ((arBuckets ht)[?i := Some ?a]) (nTableMask ht) (insert ?a (set xs)) (cs(?i := ?a # cs ?i))"
    using chains_frame [OF g(2) _ hp(3)] dom1 by auto
  moreover have "same_by payload ?h0 hp'"
    using same_by_trans [OF same_by_payload(1) [OF hp(2)] same_by_payload(2) [OF g(2)]] .
  ultimately show ?thesis using hp(1) g tl
    by (auto simp: insert_bucket_def pemalloc_bucket_def CONNECT_TO_GLOBAL_DLLIST_def)
qed

lemma insert_bucket_ok:
  assumes inv: "hash_inv ht xs" and cl: "clean_keys ht" and m: "nTableMask ht \<noteq> 0"
    and b: "bucket_wf (brk ht) b" "nKeyLength b = 0 \<Longrightarrow> arKey b = NullStr"
      "bucket_key b \<notin> fst ` set (entries ht xs)"
    and len: "Suc (length xs) < 2 ^ 32"
    and nf: "next_free_ok n (entries ht xs @ [(bucket_key b, pData b)]) id"
  shows "\<exists>ht'. insert_bucket b ht = Some ht' \<and>
     ht'\<lparr>heap := heap ht, arBuckets := arBuckets ht, pListHead := pListHead ht, pListTail := pListTail ht,
        pInternalPointer := pInternalPointer ht, brk := brk ht\<rparr> = ht \<and>
     hash_inv (ht'\<lparr>nNextFreeElement := n, nNumOfElements := nNumOfElements ht + 1\<rparr>) (xs @ [brk ht]) \<and>
     clean_keys (ht'\<lparr>nNextFreeElement := n, nNumOfElements := nNumOfElements ht + 1\<rparr>) \<and>
     entries (ht'\<lparr>nNextFreeElement := n, nNumOfElements := nNumOfElements ht + 1\<rparr>) (xs @ [brk ht]) =
       entries ht xs @ [(bucket_key b, pData b)]"
proof -
  let ?a = "brk ht" and ?h0 = "(heap ht)(brk ht \<mapsto> b)"
  from insert_bucket_links [OF inv, of b] obtain ht' cs where r: "insert_bucket b ht = Some ht'"
    "glist (heap ht') (pListHead ht') (pListTail ht') (xs @ [?a])"
    "chains (heap ht') (arBuckets ht') (nTableMask ht') (insert ?a (set xs)) cs"
    "same_by payload ?h0 (heap ht')" "length (arBuckets ht') = length (arBuckets ht)"
    "pInternalPointer ht' = (if pInternalPointer ht = None then Some ?a else pInternalPointer ht)"
    "ht'\<lparr>heap := heap ht, arBuckets := arBuckets ht, pListHead := pListHead ht, pListTail := pListTail ht,
        pInternalPointer := pInternalPointer ht, brk := ?a\<rparr> = ht" "brk ht' = Suc ?a" by blast
  let ?ht2 = "ht'\<lparr>nNextFreeElement := n, nNumOfElements := nNumOfElements ht + 1\<rparr>"
  have same: "nTableSize ht' = nTableSize ht" "nTableMask ht' = nTableMask ht"
    using arg_cong [OF r(7), of nTableSize] arg_cong [OF r(7), of nTableMask] by simp_all
  have a: "?a \<notin> set xs" using hash_invD(6) [OF inv] by blast
  have dom0: "dom ?h0 = insert ?a (set xs)" using hash_invD(5) [OF inv] by simp
  have e: "entries ?ht2 (xs @ [?a]) = entries ht xs @ [(bucket_key b, pData b)]"
  proof -
    have "entries ?ht2 (xs @ [?a]) = entries (ht\<lparr>heap := ?h0\<rparr>) (xs @ [?a])"
      by (rule entries_cong) (use r(4) dom0 in auto)
    also have "\<dots> = entries ht xs @ [(bucket_key b, pData b)]"
      using a by (simp add: entries_def)
    finally show ?thesis .
  qed
  have wf: "bucket_wf x (the (heap ht' x))" if "x \<in> insert ?a (set xs)" for x
    using bucket_wf_cong [OF r(4), of x] that dom0 b(1) hash_invD(9) [OF inv] by (cases "x = ?a") auto
  have "clean_keys (ht\<lparr>heap := ?h0\<rparr>)" using cl b(2) by (simp add: clean_keys_def)
  then have cl': "clean_keys ?ht2" by (rule clean_keys_cong [rotated]) (simp add: r(4))
  have "hash_inv ?ht2 (xs @ [?a])" unfolding hash_inv_def e
  proof (intro conjI)
    show "table_ok ?ht2" using hash_invD(1) [OF inv] same r(5) by (simp add: table_ok_def)
    show "nTableMask ?ht2 = 0 \<longrightarrow> xs @ [?a] = []" using m same by simp
    show "\<exists>cs. chains (heap ?ht2) (arBuckets ?ht2) (nTableMask ?ht2) (set (xs @ [?a])) cs" using r(3) by auto
    show "dom (heap ?ht2) = set (xs @ [?a])" using same_by_dom [OF r(4)] dom0 by auto
    show "\<forall>x\<in>set (xs @ [?a]). x < brk ?ht2" using hash_invD(6) [OF inv] r(8) by fastforce
    show "unat (nNumOfElements ?ht2) = length (xs @ [?a])"
      using hash_invD(7) [OF inv] len unat_inc [of "nNumOfElements ht"] by simp
    show "\<forall>x. pInternalPointer ?ht2 = Some x \<longrightarrow> x \<in> set (xs @ [?a])"
      using r(6) hash_invD(8) [OF inv] by auto
    show "distinct (map fst (entries ht xs @ [(bucket_key b, pData b)]))"
      using b(3) hash_invD(10) [OF inv] by simp
  qed (use r(2) wf nf in auto)
  with r(1,7) cl' e show ?thesis by blast
qed

subsection \<open>Overwriting the data of a bucket\<close>

lemma entries_upd_data:
  assumes "distinct (map fst (entries ht xs))" and "a \<in> set xs" and "distinct xs" and "heap ht a = Some b"
    and "heap ht' = (heap ht)(a \<mapsto> b\<lparr>pData := d, pDataInline := il\<rparr>)"
  shows "entries ht' xs = AList.update (bucket_key b) d (entries ht xs)"
  using assms
proof (induction xs)
  case (Cons x xs)
  show ?case
  proof (cases "x = a")
    case True
    then have "a \<notin> set xs" using Cons.prems(3) by simp
    then have "entries ht' xs = entries ht xs" using Cons.prems(5) by (auto simp: entries_def)
    with True Cons.prems(4,5) show ?thesis by (simp add: entries_def bucket_key_def)
  next
    case False
    then have "a \<in> set xs" using Cons.prems(2) by simp
    then have "bucket_key b \<in> fst ` set (entries ht xs)" using Cons.prems(4) by (force simp: entries_def)
    then have "bucket_key (the (heap ht x)) \<noteq> bucket_key b" using Cons.prems(1) by (auto simp: entries_def)
    with False Cons \<open>a \<in> set xs\<close> show ?thesis by (simp add: entries_def)
  qed
qed simp

lemma fst_set_update: "fst ` set (AList.update k d al) = insert k (fst ` set al)"
  by (induction al) auto

lemma next_free_ok_keys: "fst ` set al = fst ` set al' \<Longrightarrow> next_free_ok n al f = next_free_ok n al' f"
  by (simp add: next_free_ok_def)

definition log_dtor :: "'d HashTable \<Rightarrow> 'd list \<Rightarrow> 'd list" where
  "log_dtor ht ds = dtor_log ht @ (if pDestructor ht then ds else [])"

lemma call_pDestructor_eq: "call_pDestructor ht d = ht\<lparr>dtor_log := log_dtor ht [d]\<rparr>"
  by (simp add: call_pDestructor_def log_dtor_def)

lemma set_data_inv:
  assumes inv: "hash_inv ht xs" and cl: "clean_keys ht" and a: "a \<in> set xs" and b: "heap ht a = Some b"
    and ht'_def: "ht' = ht\<lparr>dtor_log := l, heap := (heap ht)(a \<mapsto> b\<lparr>pData := d, pDataInline := il\<rparr>)\<rparr>"
  shows "hash_inv ht' xs" and "clean_keys ht'" and "entries ht' xs = AList.update (bucket_key b) d (entries ht xs)"
proof -
  show e: "entries ht' xs = AList.update (bucket_key b) d (entries ht xs)"
    by (rule entries_upd_data [OF hash_invD(10) [OF inv] a hash_invD(12) [OF inv] b]) (simp add: ht'_def)
  show "clean_keys ht'" using cl b by (auto simp: clean_keys_def ht'_def)
  have k: "bucket_key b \<in> fst ` set (entries ht xs)" using a b by (force simp: entries_def)
  then have fs: "fst ` set (entries ht' xs) = fst ` set (entries ht xs)"
    unfolding e fst_set_update by auto
  obtain cs where ch: "chains (heap ht) (arBuckets ht) (nTableMask ht) (set xs) cs"
    using hash_invD(4) [OF inv] by blast
  have "chains (heap ht') (arBuckets ht) (nTableMask ht) (set xs) cs"
    by (rule chains_fields [OF _ ch]) (auto simp: ht'_def b)
  moreover have "glist (heap ht') (pListHead ht) (pListTail ht) xs"
    using glist_fields [of xs "heap ht'" "heap ht"] hash_invD(3) [OF inv] b by (auto simp: ht'_def)
  moreover have "bucket_wf x (the (heap ht' x))" if "x \<in> set xs" for x
    using hash_invD(9) [OF inv that] b by (auto simp: ht'_def bucket_wf_def)
  moreover have "distinct (map fst (entries ht' xs))"
    unfolding e by (rule distinct_update [OF hash_invD(10) [OF inv]])
  moreover have "next_free_ok (nNextFreeElement ht) (entries ht' xs) id"
    using hash_invD(11) [OF inv] next_free_ok_keys [OF fs, of "nNextFreeElement ht" id] by simp
  ultimately show "hash_inv ht' xs" using inv a b
    by (auto simp: hash_inv_def ht'_def table_ok_def)
qed

lemma update_found_ok:
  assumes "hash_inv ht xs" and "clean_keys ht" and "key_addr ht xs k = Some a"
  shows "\<exists>ht'. update_found a d sz ht = Some (ht', SUCCESS, Some a) \<and> hash_inv ht' xs \<and> clean_keys ht' \<and>
     entries ht' xs = AList.update k d (entries ht xs) \<and> pDestructor ht' = pDestructor ht \<and>
     dtor_log ht' = log_dtor ht [the (map_of (entries ht xs) k)]"
proof -
  have a: "a \<in> set xs" "bucket_key (the (heap ht a)) = k" using key_addr_SomeD [OF assms(3)] by auto
  then obtain b where b: "heap ht a = Some b" using hash_invD(5) [OF assms(1)] by blast
  show ?thesis
    using set_data_inv [OF assms(1,2) a(1) b refl, where l = "log_dtor ht [pData b]" and d = d and il = "sz = sizeof_ptr"] a(2) b assms(3)
    by (simp add: update_found_def UPDATE_DATA_def ht_write_def call_pDestructor_eq map_of_entries)
qed

subsection \<open>Lazy allocation of the slots\<close>

lemma CHECK_INIT_ok:
  assumes inv: "hash_inv ht xs" and cl: "clean_keys ht"
  shows "hash_inv (CHECK_INIT ht) xs" "clean_keys (CHECK_INIT ht)" "nTableMask (CHECK_INIT ht) \<noteq> 0"
    "entries (CHECK_INIT ht) ys = entries ht ys" "brk (CHECK_INIT ht) = brk ht"
    "dtor_log (CHECK_INIT ht) = dtor_log ht" "pDestructor (CHECK_INIT ht) = pDestructor ht"
    "nNextFreeElement (CHECK_INIT ht) = nNextFreeElement ht"
proof -
  obtain k where k: "3 \<le> k" "k \<le> 31" "nTableSize ht = 2 ^ k" using hash_invD(1) [OF inv] by (auto simp: table_ok_def)
  have u: "unat (nTableSize ht) = 2 ^ k" using k by (simp add: two_power_less)
  have g: "(8 :: nat) \<le> 2 ^ k" using k(1) power_increasing [of 3 k "2 :: nat"] by simp
  then have "nTableSize ht \<noteq> 0" using u by (metis not_numeral_le_zero unat_0)
  then have m: "unat (nTableSize ht - 1) = 2 ^ k - 1" using u by (simp add: unat_minus_one)
  then have mz: "nTableSize ht - 1 \<noteq> 0" using g by (auto simp: unat_eq_0 [symmetric])
  show "hash_inv (CHECK_INIT ht) xs"
  proof (cases "nTableMask ht = 0")
    case True
    then have "xs = []" using hash_invD(2) [OF inv] by simp
    then show ?thesis using inv True m g mz chains_empty [of "heap ht"] u
      by (auto simp: hash_inv_def CHECK_INIT_def table_ok_def entries_def)
  qed (use inv in \<open>simp add: CHECK_INIT_def\<close>)
  show "clean_keys (CHECK_INIT ht)" using cl by (simp add: CHECK_INIT_def clean_keys_def)
  show "nTableMask (CHECK_INIT ht) \<noteq> 0" using mz by (simp add: CHECK_INIT_def)
qed (simp_all add: CHECK_INIT_def entries_def)

subsection \<open>Insertion and update\<close>

lemma AList_update_new: "k \<notin> fst ` set al \<Longrightarrow> AList.update k d al = al @ [(k, d)]"
  by (induction al) auto

lemma length_entries [simp]: "length (entries ht xs) = length xs"
  by (simp add: entries_def)

text \<open>The insertion branch of the three insertion functions, as one composition.\<close>

lemma insert_branch:
  "insert_bucket b ht = do {
     slot \<leftarrow> slot_read ht (hash_index ht (b_h b));
     ht' \<leftarrow> CONNECT_TO_BUCKET_DLLIST (brk ht) slot (snd (pemalloc_bucket ht b));
     ht' \<leftarrow> slot_write ht' (hash_index ht' (b_h b)) (Some (brk ht));
     CONNECT_TO_GLOBAL_DLLIST (brk ht' - 1) ht'
   }"
  by (simp add: insert_bucket_def link_chain_def pemalloc_bucket_def slot_read_def hash_index_def)

lemma connect_bucket_same:
  "CONNECT_TO_BUCKET_DLLIST el slot ht = Some ht' \<Longrightarrow>
   nTableMask ht' = nTableMask ht \<and> brk ht' = brk ht \<and> arBuckets ht' = arBuckets ht"
  by (auto simp: CONNECT_TO_BUCKET_DLLIST_def ht_write_def bind_eq_Some_conv split: option.splits)

lemma slot_write_same: "slot_write ht i p = Some ht' \<Longrightarrow> brk ht' = brk ht"
  by (auto simp: slot_write_def split: if_splits)

lemma insert_branch':
  assumes "table_ok ht"
  shows "insert_bucket b ht = do {
     ht' \<leftarrow> CONNECT_TO_BUCKET_DLLIST (brk ht) (arBuckets ht ! hash_index ht (b_h b)) (snd (pemalloc_bucket ht b));
     ht' \<leftarrow> slot_write ht' (hash_index ht (b_h b)) (Some (brk ht));
     CONNECT_TO_GLOBAL_DLLIST (brk ht) ht'
   }"
proof (cases "CONNECT_TO_BUCKET_DLLIST (brk ht) (arBuckets ht ! hash_index ht (b_h b)) (snd (pemalloc_bucket ht b))")
  case None
  then show ?thesis by (simp add: insert_branch slot_read_ok [OF assms])
next
  case (Some ht1)
  note c = connect_bucket_same [OF Some]
  then have "hash_index ht1 (b_h b) = hash_index ht (b_h b)" "brk ht1 = Suc (brk ht)"
    by (simp_all add: hash_index_def pemalloc_bucket_def)
  with Some show ?thesis
    by (cases "slot_write ht1 (hash_index ht (b_h b)) (Some (brk ht))")
       (auto simp: insert_branch slot_read_ok [OF assms] dest: slot_write_same)
qed

lemma insert_branchE:
  assumes "table_ok ht" and "insert_bucket b ht = Some ht'"
  obtains y ya where
    "CONNECT_TO_BUCKET_DLLIST (brk ht) (arBuckets ht ! hash_index ht (b_h b)) (snd (pemalloc_bucket ht b)) = Some y"
    "slot_write y (hash_index ht (b_h b)) (Some (brk ht)) = Some ya" "CONNECT_TO_GLOBAL_DLLIST (brk ht) ya = Some ht'"
  using assms(2) unfolding insert_branch' [OF assms(1)] by (auto simp: bind_eq_Some_conv)

lemma next_free_ok_append_str:
  "next_free_ok n al id \<Longrightarrow> next_free_ok n (al @ [(KStr bs, d)]) id"
  by (auto simp: next_free_ok_def)

text \<open>
  \<open>_zend_hash_quick_add_or_update\<close> on a table standing for \<open>al\<close>: with \<open>HASH_ADD\<close> an existing
  key is refused and nothing changes; otherwise the table stands for \<open>AList.update\<close> of \<open>al\<close>,
  and the destructor has run on the replaced value, if there was one.
\<close>

definition add_result ::
  "bool \<Rightarrow> hkey \<Rightarrow> 'd \<Rightarrow> (hkey \<times> 'd) list \<Rightarrow> 'd HashTable \<Rightarrow> 'd HashTable \<times> status \<times> ptr \<Rightarrow> bool" where
  "add_result refuse k d al ht r \<longleftrightarrow> (case r of (ht', st, dest) \<Rightarrow>
     pDestructor ht' = pDestructor ht \<and>
     (if refuse \<and> k \<in> fst ` set al
      then st = FAILURE \<and> hash_refines ht' al \<and> dtor_log ht' = dtor_log ht
      else st = SUCCESS \<and> hash_refines ht' (AList.update k d al) \<and>
        dtor_log ht' = (case map_of al k of None \<Rightarrow> dtor_log ht | Some old \<Rightarrow> log_dtor ht [old]) \<and>
        (\<exists>a b. dest = Some a \<and> heap ht' a = Some b \<and> bucket_key b = k \<and> pData b = d)))"

lemma dest_ok:
  assumes "hash_inv ht xs" and "(k, d) \<in> set (entries ht xs)" and "a \<in> set xs" and "bucket_key (the (heap ht a)) = k"
  shows "\<exists>b. heap ht a = Some b \<and> bucket_key b = k \<and> pData b = d"
proof -
  obtain b where b: "heap ht a = Some b" using assms hash_invD(5) [OF assms(1)] by blast
  have "(k, pData b) \<in> set (entries ht xs)" using b assms(3,4) by (force simp: entries_def)
  with assms(2) have "pData b = d"
    using hash_invD(10) [OF assms(1)] by (metis eq_key_imp_eq_value)
  with b assms(4) show ?thesis by simp
qed

lemma in_set_update: "(k, d) \<in> set (AList.update k d al)"
  by (induction al) auto

lemma add_found:
  assumes inv: "hash_inv ht xs" and cl: "clean_keys ht" and k: "key_addr ht xs k = Some a"
    and al: "entries ht xs = al" and "pDestructor ht = pDestructor ht0" "dtor_log ht = dtor_log ht0"
  shows "\<exists>r. (if refuse then Some (ht, FAILURE, None) else update_found a d sz ht) = Some r \<and>
    add_result refuse k d al ht0 r"
proof -
  have old: "map_of al k \<noteq> None" using k al map_of_entries [of ht xs k] by simp
  then have "k \<in> fst ` set al" by (simp add: map_of_eq_None_iff)
  obtain ht' where u: "update_found a d sz ht = Some (ht', SUCCESS, Some a)" "hash_inv ht' xs" "clean_keys ht'"
    "entries ht' xs = AList.update k d al" "pDestructor ht' = pDestructor ht"
    "dtor_log ht' = log_dtor ht [the (map_of al k)]" using update_found_ok [OF inv cl k, of d sz] al by auto
  have "hash_refines ht al" using inv cl al by (auto simp: hash_refines_def)
  moreover have "hash_refines ht' (AList.update k d al)" using u by (auto simp: hash_refines_def)
  moreover have "\<exists>b. heap ht' a = Some b \<and> bucket_key b = k \<and> pData b = d"
  proof (rule dest_ok [OF u(2)])
    show "(k, d) \<in> set (entries ht' xs)" using u(4) in_set_update by metis
    show "a \<in> set xs" using key_addr_SomeD [OF k] by simp
    obtain b where b: "heap ht a = Some b" using hash_invD(5) [OF inv] key_addr_SomeD [OF k] by blast
    show "bucket_key (the (heap ht' a)) = k"
      using u(1) b key_addr_SomeD [OF k]
      by (auto simp: update_found_def UPDATE_DATA_def ht_write_def call_pDestructor_eq bucket_key_def)
  qed
  ultimately show ?thesis
    using u old \<open>k \<in> fst ` set al\<close> assms(5,6) by (auto simp: add_result_def log_dtor_def)
qed

lemma add_new:
  assumes inv: "hash_inv ht xs" and cl: "clean_keys ht" and m: "nTableMask ht \<noteq> 0"
    and k: "key_addr ht xs (bucket_key b) = None"
    and b: "bucket_wf (brk ht) b" "nKeyLength b = 0 \<Longrightarrow> arKey b = NullStr"
    and len: "Suc (length xs) < 2 ^ 32"
    and nf: "next_free_ok n (entries ht xs @ [(bucket_key b, pData b)]) id"
    and al: "entries ht xs = al" and "pDestructor ht = pDestructor ht0" "dtor_log ht = dtor_log ht0"
  shows "\<exists>ht'. insert_bucket b ht = Some ht' \<and> nNextFreeElement ht' = nNextFreeElement ht \<and>
    nNumOfElements ht' = nNumOfElements ht \<and>
    (\<exists>ht2. ZEND_HASH_IF_FULL_DO_RESIZE (ht'\<lparr>nNextFreeElement := n, nNumOfElements := nNumOfElements ht + 1\<rparr>) = Some ht2 \<and>
      add_result refuse (bucket_key b) (pData b) al ht0 (ht2, SUCCESS, Some (brk ht)))"
proof -
  note fresh = key_addr_NoneD [OF k]
  obtain ht' where r: "insert_bucket b ht = Some ht'"
    "ht'\<lparr>heap := heap ht, arBuckets := arBuckets ht, pListHead := pListHead ht, pListTail := pListTail ht,
        pInternalPointer := pInternalPointer ht, brk := brk ht\<rparr> = ht"
    "hash_inv (ht'\<lparr>nNextFreeElement := n, nNumOfElements := nNumOfElements ht + 1\<rparr>) (xs @ [brk ht])"
    "clean_keys (ht'\<lparr>nNextFreeElement := n, nNumOfElements := nNumOfElements ht + 1\<rparr>)"
    "entries (ht'\<lparr>nNextFreeElement := n, nNumOfElements := nNumOfElements ht + 1\<rparr>) (xs @ [brk ht]) =
       al @ [(bucket_key b, pData b)]"
    using insert_bucket_ok [OF inv cl m b fresh len nf] al by auto
  have same: "nNextFreeElement ht' = nNextFreeElement ht" "nNumOfElements ht' = nNumOfElements ht"
    "dtor_log ht' = dtor_log ht" "pDestructor ht' = pDestructor ht"
    using arg_cong [OF r(2), of nNextFreeElement] arg_cong [OF r(2), of nNumOfElements]
      arg_cong [OF r(2), of dtor_log] arg_cong [OF r(2), of pDestructor] by simp_all
  obtain ht2 where f: "ZEND_HASH_IF_FULL_DO_RESIZE (ht'\<lparr>nNextFreeElement := n, nNumOfElements := nNumOfElements ht + 1\<rparr>) = Some ht2"
    "hash_inv ht2 (xs @ [brk ht])" "clean_keys ht2" "entries ht2 (xs @ [brk ht]) = al @ [(bucket_key b, pData b)]"
    "dtor_log ht2 = dtor_log ht" "pDestructor ht2 = pDestructor ht"
    using IF_FULL_ok [OF r(3,4)] r(5) same by auto
  have "map_of al (bucket_key b) = None" "bucket_key b \<notin> fst ` set al"
    using fresh al by (simp_all add: map_of_eq_None_iff)
  moreover have "hash_refines ht2 (AList.update (bucket_key b) (pData b) al)"
    using f calculation(2) by (auto simp: hash_refines_def AList_update_new)
  moreover have "\<exists>c. heap ht2 (brk ht) = Some c \<and> bucket_key c = bucket_key b \<and> pData c = pData b"
  proof (rule dest_ok [OF f(2)])
    have "entries ht2 (xs @ [brk ht]) = entries ht2 xs @ entries ht2 [brk ht]" by (simp add: entries_def)
    then have "entries ht2 [brk ht] = [(bucket_key b, pData b)]" using f(4) by (simp add: entries_def)
    then show "bucket_key (the (heap ht2 (brk ht))) = bucket_key b" by (simp add: entries_def)
  qed (use f(4) in auto)
  ultimately show ?thesis using r(1) same f assms(10,11) by (auto simp: add_result_def)
qed

lemma new_key_simps:
  assumes "key_arg key len h"
  shows "cstr_bytes (new_key a key len) = cstr_bytes key"
    "\<exists>loc. new_key a key len = CStr loc (cstr_bytes key) \<and> (loc = Interned \<or> loc = InBucket a)"
  using assms by (auto simp: new_key_def key_arg_def IS_INTERNED_def split: cstr.splits key_loc.splits)

lemma quick_add_ok:
  assumes inv: "hash_inv ht xs" and cl: "clean_keys ht" and ka: "key_arg key len h"
    and n: "Suc (length xs) < 2 ^ 32"
  shows "\<exists>r. zend_hash_quick_add_or_update key len h d sz flag ht = Some r \<and>
    add_result (flag AND HASH_ADD \<noteq> 0) (KStr (cstr_bytes key)) d (entries ht xs) ht r"
proof -
  let ?ht = "CHECK_INIT ht" and ?k = "KStr (cstr_bytes key)"
  note ci = CHECK_INIT_ok [OF inv cl]
  note t = hash_invD(1) [OF ci(1)]
  note lk = key_lookup [OF ci(1,2) ka]
  show ?thesis
  proof (cases "key_addr ?ht xs ?k")
    case (Some a)
    from add_found [OF ci(1,2) Some ci(4) ci(7,6), of "flag AND HASH_ADD \<noteq> 0" d sz]
    show ?thesis using Some lk by (simp add: zend_hash_quick_add_or_update_def slot_read_ok [OF t] Let_def)
  next
    case None
    let ?b = "\<lparr>b_h = h, nKeyLength = len, pData = d, pDataInline = (sz = sizeof_ptr),
             pListNext = None, pListLast = None, pNext = None, pLast = None,
             arKey = new_key (brk ?ht) key len\<rparr>"
    note nk = new_key_simps [OF ka, of "brk ?ht"]
    have k: "bucket_key ?b = ?k" using ka nk by (simp add: bucket_key_def key_arg_def)
    have wf: "bucket_wf (brk ?ht) ?b" using ka nk(2) by (auto simp: bucket_wf_def key_arg_def)
    have "len \<noteq> 0" using ka by (simp add: key_arg_def)
    from add_new [OF ci(1,2,3), of ?b "nNextFreeElement ?ht" "entries ht xs" ht "flag AND HASH_ADD \<noteq> 0"] None k wf n ci(4,6,7) \<open>len \<noteq> 0\<close>
      next_free_ok_append_str [OF hash_invD(11) [OF ci(1)]]
    obtain ht' ht2 where r: "insert_bucket ?b ?ht = Some ht'" "nNextFreeElement ht' = nNextFreeElement ?ht"
      "nNumOfElements ht' = nNumOfElements ?ht"
      "ZEND_HASH_IF_FULL_DO_RESIZE (ht'\<lparr>nNextFreeElement := nNextFreeElement ?ht, nNumOfElements := nNumOfElements ?ht + 1\<rparr>) = Some ht2"
      "add_result (flag AND HASH_ADD \<noteq> 0) ?k d (entries ht xs) ht (ht2, SUCCESS, Some (brk ?ht))"
      by auto
    have full: "ZEND_HASH_IF_FULL_DO_RESIZE (ht'\<lparr>nNumOfElements := nNumOfElements ?ht + 1\<rparr>) = Some ht2"
      using r(4) unfolding r(2) [symmetric] by simp
    from insert_branchE [OF t r(1)] obtain y ya where
      "CONNECT_TO_BUCKET_DLLIST (brk ?ht) (arBuckets ?ht ! hash_index ?ht h) (snd (pemalloc_bucket ?ht ?b)) = Some y"
      "slot_write y (hash_index ?ht h) (Some (brk ?ht)) = Some ya" "CONNECT_TO_GLOBAL_DLLIST (brk ?ht) ya = Some ht'"
      by auto
    then have "zend_hash_quick_add_or_update key len h d sz flag ht = Some (ht2, SUCCESS, Some (brk ?ht))"
      using r(3) lk None full
      by (simp add: zend_hash_quick_add_or_update_def slot_read_ok [OF t] pemalloc_bucket_def Let_def)
    with r(5) show ?thesis by blast
  qed
qed

text \<open>
  \<open>_zend_hash_add_or_update\<close> connects the new bucket to the global list before it stores it in
  its slot; the other function does it the other way round.  The two orders commute.
\<close>

lemma slot_write_connect_commute:
  "(do { ht \<leftarrow> slot_write ht i p; CONNECT_TO_GLOBAL_DLLIST a ht }) =
   (do { ht \<leftarrow> CONNECT_TO_GLOBAL_DLLIST a ht; slot_write ht i p })"
proof -
  have w: "ht_write (ht\<lparr>arBuckets := ar\<rparr>) x f = map_option (\<lambda>h. h\<lparr>arBuckets := ar\<rparr>) (ht_write ht x f)"
    for ht :: "'a HashTable" and ar x f
    by (simp add: ht_write_def split: option.splits)
  have ex: "CONNECT_TO_GLOBAL_DLLIST_EX a l n (ht\<lparr>arBuckets := ar\<rparr>) =
     map_option (\<lambda>h. h\<lparr>arBuckets := ar\<rparr>) (CONNECT_TO_GLOBAL_DLLIST_EX a l n ht)" for ht :: "'a HashTable" and ar l n
    by (cases l; cases n; cases "heap ht a")
       (auto simp: CONNECT_TO_GLOBAL_DLLIST_EX_def w ht_write_def split: option.splits)
  have c: "CONNECT_TO_GLOBAL_DLLIST a (ht\<lparr>arBuckets := ar\<rparr>) =
     map_option (\<lambda>h. h\<lparr>arBuckets := ar\<rparr>) (CONNECT_TO_GLOBAL_DLLIST a ht)" for ht :: "'a HashTable" and ar
    by (cases "CONNECT_TO_GLOBAL_DLLIST_EX a (pListTail ht) None ht") (simp_all add: CONNECT_TO_GLOBAL_DLLIST_def ex)
  have same: "arBuckets h = arBuckets ht" if "CONNECT_TO_GLOBAL_DLLIST a ht = Some h" for h
    using that by (cases "pListTail ht"; cases "heap ht a")
      (auto simp: CONNECT_TO_GLOBAL_DLLIST_def CONNECT_TO_GLOBAL_DLLIST_EX_def ht_write_def
        split: option.splits if_splits)
  show ?thesis
    by (cases "CONNECT_TO_GLOBAL_DLLIST a ht") (auto simp: slot_write_def c same)
qed

lemma zend_hash_add_eq_quick:
  "zend_hash_add_or_update key len d sz flag ht =
   zend_hash_quick_add_or_update key len (zend_inline_hash_func (cstr_bytes key) len) d sz flag ht"
proof -
  have swap: "(do { h1 \<leftarrow> CONNECT_TO_GLOBAL_DLLIST a ht; h2 \<leftarrow> slot_write h1 i p; k h2 }) =
     (do { h1 \<leftarrow> slot_write ht i p; h2 \<leftarrow> CONNECT_TO_GLOBAL_DLLIST a h1; k h2 })"
    for ht :: "'a HashTable" and a i p and k :: "'a HashTable \<Rightarrow> ('a HashTable \<times> status \<times> ptr) option"
    using arg_cong [OF slot_write_connect_commute [of ht i p a], of "\<lambda>m. Option.bind m k"] by simp
  show ?thesis
    by (simp add: zend_hash_add_or_update_def zend_hash_quick_add_or_update_def swap pemalloc_bucket_def Let_def)
qed

lemma next_free_ok_bump:
  assumes "next_free_ok n al id"
  shows "next_free_ok (if sint n \<le> sint h then (if h < LONG_MAX then h + 1 else LONG_MAX) else n) (al @ [(KInt h, d)]) id"
proof (cases "sint n \<le> sint h")
  case True
  have n0: "0 \<le> sint n" using assms by (simp add: next_free_ok_def)
  then have h0: "0 \<le> sint h" using True by simp
  show ?thesis
  proof (cases "h < LONG_MAX")
    case lt: True
    then have u: "uint h < 2 ^ 31 - 1" by (simp add: word_less_def LONG_MAX_def)
    have "uint (h + 1) = uint h + 1" using u by (simp add: uint_word_ariths mod_pos_pos_trivial)
    then have "sint (h + 1) = sint h + 1" using u by (simp add: sint_small)
    moreover have "n \<noteq> LONG_MAX" using True u by (auto simp: sint_LONG_MAX sint_small)
    ultimately show ?thesis using True lt assms h0 by (auto simp: next_free_ok_def)
  next
    case False
    then show ?thesis using True by (simp add: next_free_ok_def LONG_MAX_def)
  qed
next
  case False
  then show ?thesis using assms by (auto simp: next_free_ok_def)
qed

lemma bump_next_free_eq:
  "bump_next_free h ht = ht\<lparr>nNextFreeElement := (if sint (nNextFreeElement ht) \<le> sint h
     then (if h < LONG_MAX then h + 1 else LONG_MAX) else nNextFreeElement ht)\<rparr>"
  by (simp add: bump_next_free_def)

text \<open>The integer-keyed insertion, with the key it uses.\<close>

definition index_of_flag :: "uint \<Rightarrow> ulong \<Rightarrow> 'd HashTable \<Rightarrow> ulong" where
  "index_of_flag flag h ht = (if flag AND HASH_NEXT_INSERT \<noteq> 0 then nNextFreeElement ht else h)"

lemma index_add_ok:
  assumes inv: "hash_inv ht xs" and cl: "clean_keys ht" and n: "Suc (length xs) < 2 ^ 32"
  shows "\<exists>r. zend_hash_index_update_or_next_insert h d sz flag ht = Some r \<and>
    add_result (flag AND HASH_NEXT_INSERT \<noteq> 0 \<or> flag AND HASH_ADD \<noteq> 0) (KInt (index_of_flag flag h ht)) d (entries ht xs) ht r"
proof -
  let ?ht = "CHECK_INIT ht" and ?h = "index_of_flag flag h ht"
  note ci = CHECK_INIT_ok [OF inv cl]
  note t = hash_invD(1) [OF ci(1)]
  note lk = index_lookup [OF ci(1), of ?h]
  have h: "(if flag AND HASH_NEXT_INSERT \<noteq> 0 then nNextFreeElement ?ht else h) = ?h"
    using ci(8) by (simp add: index_of_flag_def)
  show ?thesis
  proof (cases "key_addr ?ht xs (KInt ?h)")
    case (Some a)
    from add_found [OF ci(1,2) Some ci(4) ci(7,6), of "flag AND HASH_NEXT_INSERT \<noteq> 0 \<or> flag AND HASH_ADD \<noteq> 0" d sz]
    show ?thesis using Some lk
      by (simp only: zend_hash_index_update_or_next_insert_def Let_def h) (simp add: slot_read_ok [OF t])
  next
    case None
    let ?b = "\<lparr>b_h = ?h, nKeyLength = 0, pData = d, pDataInline = (sz = sizeof_ptr),
             pListNext = None, pListLast = None, pNext = None, pLast = None, arKey = NullStr\<rparr>"
    let ?n = "if sint (nNextFreeElement ?ht) \<le> sint ?h
       then (if ?h < LONG_MAX then ?h + 1 else LONG_MAX) else nNextFreeElement ?ht"
    have k: "bucket_key ?b = KInt ?h" by (simp add: bucket_key_def)
    have wf: "bucket_wf (brk ?ht) ?b" by (simp add: bucket_wf_def)
    from add_new [OF ci(1,2,3), of ?b ?n "entries ht xs" ht
        "flag AND HASH_NEXT_INSERT \<noteq> 0 \<or> flag AND HASH_ADD \<noteq> 0"] None k wf n ci(4,6,7)
      next_free_ok_bump [OF hash_invD(11) [OF ci(1)], of ?h d]
    obtain ht' ht2 where r: "insert_bucket ?b ?ht = Some ht'" "nNextFreeElement ht' = nNextFreeElement ?ht"
      "nNumOfElements ht' = nNumOfElements ?ht"
      "ZEND_HASH_IF_FULL_DO_RESIZE (ht'\<lparr>nNextFreeElement := ?n, nNumOfElements := nNumOfElements ?ht + 1\<rparr>) = Some ht2"
      "add_result (flag AND HASH_NEXT_INSERT \<noteq> 0 \<or> flag AND HASH_ADD \<noteq> 0) (KInt ?h) d (entries ht xs) ht (ht2, SUCCESS, Some (brk ?ht))"
      by auto
    have bump: "bump_next_free ?h ht' = ht'\<lparr>nNextFreeElement := ?n\<rparr>"
      by (simp add: bump_next_free_eq r(2))
    from insert_branchE [OF t r(1)] obtain y ya where
      "CONNECT_TO_BUCKET_DLLIST (brk ?ht) (arBuckets ?ht ! hash_index ?ht ?h) (snd (pemalloc_bucket ?ht ?b)) = Some y"
      "slot_write y (hash_index ?ht ?h) (Some (brk ?ht)) = Some ya" "CONNECT_TO_GLOBAL_DLLIST (brk ?ht) ya = Some ht'"
      by auto
    then have "zend_hash_index_update_or_next_insert h d sz flag ht = Some (ht2, SUCCESS, Some (brk ?ht))"
      using r(3,4) lk None bump
      by (simp only: zend_hash_index_update_or_next_insert_def Let_def h)
         (simp add: slot_read_ok [OF t] pemalloc_bucket_def)
    with r(5) show ?thesis by blast
  qed
qed

subsection \<open>Deletion\<close>

lemma bucket_delete_steps:
  "i_zend_hash_bucket_delete a ht = do {
     p \<leftarrow> heap ht a;
     ht \<leftarrow> unlink_chain p ht;
     ht \<leftarrow> unlink_global p ht;
     let ht = (if pInternalPointer ht = Some a then ht\<lparr>pInternalPointer := pListNext p\<rparr> else ht);
     let ht = ht\<lparr>nNumOfElements := nNumOfElements ht - 1\<rparr>;
     let ht = call_pDestructor ht (pData p);
     Some (pefree_bucket ht a)
   }"
  by (simp add: i_zend_hash_bucket_delete_def unlink_chain_def unlink_global_def)

lemma bucket_delete_links:
  assumes inv: "hash_inv ht xs" and p: "heap ht a = Some p" and xs: "xs = us @ a # vs"
  shows "\<exists>ht' cs hp. i_zend_hash_bucket_delete a ht = Some ht' \<and>
     glist (heap ht') (pListHead ht') (pListTail ht') (us @ vs) \<and>
     chains (heap ht') (arBuckets ht') (nTableMask ht) (set (us @ vs)) cs \<and>
     same_by payload (heap ht) hp \<and> heap ht' = hp(a := None) \<and>
     length (arBuckets ht') = length (arBuckets ht) \<and>
     pInternalPointer ht' = (if pInternalPointer ht = Some a then head_opt vs else pInternalPointer ht) \<and>
     nNumOfElements ht' = nNumOfElements ht - 1 \<and> dtor_log ht' = log_dtor ht [pData p] \<and>
     ht'\<lparr>heap := heap ht, arBuckets := arBuckets ht, pListHead := pListHead ht, pListTail := pListTail ht,
        pInternalPointer := pInternalPointer ht, nNumOfElements := nNumOfElements ht, dtor_log := dtor_log ht\<rparr> = ht"
proof -
  obtain cs where ch: "chains (heap ht) (arBuckets ht) (nTableMask ht) (set xs) cs"
    using hash_invD(4) [OF inv] by blast
  have d: "a \<notin> set (us @ vs)" using hash_invD(12) [OF inv] xs by auto
  have dom: "dom (heap ht) = set xs" by (rule hash_invD(5) [OF inv])
  from unlink_chain_ok [OF ch _ _ p hash_index_lt [OF hash_invD(1) [OF inv]]] dom xs
  obtain hp ar i where u1: "unlink_chain p ht = Some (ht\<lparr>heap := hp, arBuckets := ar\<rparr>)"
     "length ar = length (arBuckets ht)" "same_by view_list (heap ht) hp" "hp a = heap ht a"
     "chains hp ar (nTableMask ht) (set xs - {a}) (cs(i := remove1 a (cs i)))" by auto
  let ?ht1 = "ht\<lparr>heap := hp, arBuckets := ar\<rparr>"
  have dom1: "dom hp = set xs" using same_by_dom [OF u1(3)] dom by simp
  have "glist hp (pListHead ht) (pListTail ht) (us @ a # vs)"
    using glist_frame [OF u1(3)] dom hash_invD(3) [OF inv] xs by simp
  with unlink_global_ok [of ?ht1 us a vs p] dom1 u1(4) p xs
  obtain hp' pf pl where u2: "unlink_global p ?ht1 = Some (?ht1\<lparr>heap := hp', pListHead := pf, pListTail := pl\<rparr>)"
    "same_by view_chain hp hp'" "hp' a = hp a" "glist hp' pf pl (us @ vs)" "pListNext p = head_opt vs" by auto
  let ?h = "hp'(a := None)"
  have s: "set xs - {a} = set (us @ vs)" using xs d by auto
  have off: "?h x = hp' x" if "x \<in> set (us @ vs)" for x using that d by auto
  have "chains hp' ar (nTableMask ht) (set (us @ vs)) (cs(i := remove1 a (cs i)))"
    using chains_frame [OF u2(2) _ u1(5)] dom1 s by auto
  then have c: "chains ?h ar (nTableMask ht) (set (us @ vs)) (cs(i := remove1 a (cs i)))"
    by (rule chains_off [rotated]) (rule off)
  have g: "glist ?h pf pl (us @ vs)" using glist_off [of "us @ vs" ?h hp'] off u2(4) by blast
  have sp: "same_by payload (heap ht) hp'"
    using same_by_trans [OF same_by_payload(1) [OF u1(3)] same_by_payload(2) [OF u2(2)]] .
  show ?thesis
    by (intro exI conjI, simp only: bucket_delete_steps, simp add: p u1(1) u2(1,5) Let_def call_pDestructor_eq pefree_bucket_def)
       (use c g sp u1(2) u2(5) in \<open>auto simp: log_dtor_def\<close>)
qed

lemma entries_remove:
  assumes "distinct (map fst (entries ht (us @ a # vs)))"
  shows "entries ht (us @ vs) = AList.delete (bucket_key (the (heap ht a))) (entries ht (us @ a # vs))"
proof -
  let ?k = "bucket_key (the (heap ht a))"
  have id: "AList.delete ?k (entries ht zs) = entries ht zs" if "?k \<notin> fst ` set (entries ht zs)" for zs
    using that by (simp add: delete_id)
  have app: "entries ht (us @ a # vs) = entries ht us @ (?k, pData (the (heap ht a))) # entries ht vs"
    by (simp add: entries_def)
  have dapp: "AList.delete k (xs @ ys) = AList.delete k xs @ AList.delete k ys" for k and xs ys :: "(hkey \<times> 'a) list"
    by (simp add: AList.delete_eq)
  have "entries ht (us @ vs) = entries ht us @ entries ht vs" by (simp add: entries_def)
  with assms show ?thesis unfolding app dapp by (auto simp: id)
qed

lemma bucket_delete_ok:
  assumes inv: "hash_inv ht xs" and p: "heap ht a = Some p" and xs: "xs = us @ a # vs"
  shows "\<exists>ht'. i_zend_hash_bucket_delete a ht = Some ht' \<and> hash_inv ht' (us @ vs) \<and>
     (clean_keys ht \<longrightarrow> clean_keys ht') \<and>
     entries ht' (us @ vs) = entries ht (us @ vs) \<and>
     entries ht' (us @ vs) = AList.delete (bucket_key p) (entries ht xs) \<and>
     dtor_log ht' = log_dtor ht [pData p] \<and>
     ht'\<lparr>heap := heap ht, arBuckets := arBuckets ht, pListHead := pListHead ht, pListTail := pListTail ht,
        pInternalPointer := pInternalPointer ht, nNumOfElements := nNumOfElements ht, dtor_log := dtor_log ht\<rparr> = ht"
proof -
  from bucket_delete_links [OF inv p xs] obtain ht' cs hp where r: "i_zend_hash_bucket_delete a ht = Some ht'"
     "glist (heap ht') (pListHead ht') (pListTail ht') (us @ vs)"
     "chains (heap ht') (arBuckets ht') (nTableMask ht) (set (us @ vs)) cs"
     "same_by payload (heap ht) hp" "heap ht' = hp(a := None)"
     "length (arBuckets ht') = length (arBuckets ht)"
     "pInternalPointer ht' = (if pInternalPointer ht = Some a then head_opt vs else pInternalPointer ht)"
     "nNumOfElements ht' = nNumOfElements ht - 1" "dtor_log ht' = log_dtor ht [pData p]"
     "ht'\<lparr>heap := heap ht, arBuckets := arBuckets ht, pListHead := pListHead ht, pListTail := pListTail ht,
        pInternalPointer := pInternalPointer ht, nNumOfElements := nNumOfElements ht, dtor_log := dtor_log ht\<rparr> = ht"
    by blast
  have same: "nTableSize ht' = nTableSize ht" "nTableMask ht' = nTableMask ht" "brk ht' = brk ht"
    "nNextFreeElement ht' = nNextFreeElement ht"
    using arg_cong [OF r(10), of nTableSize] arg_cong [OF r(10), of nTableMask] arg_cong [OF r(10), of brk]
      arg_cong [OF r(10), of nNextFreeElement] by simp_all
  have d: "a \<notin> set (us @ vs)" "distinct xs" using hash_invD(12) [OF inv] xs by auto
  have dom: "dom (heap ht) = set xs" by (rule hash_invD(5) [OF inv])
  have dom': "dom (heap ht') = set (us @ vs)" using same_by_dom [OF r(4)] dom xs d(1) by (auto simp: r(5))
  have e: "entries ht' (us @ vs) = entries ht (us @ vs)"
  proof -
    have "entries ht' (us @ vs) = entries (ht\<lparr>heap := hp\<rparr>) (us @ vs)"
      unfolding entries_def using d(1) by (intro map_cong) (auto simp: r(5))
    also have "\<dots> = entries ht (us @ vs)" by (rule entries_cong) (use r(4) dom xs in auto)
    finally show ?thesis .
  qed
  have del: "entries ht (us @ vs) = AList.delete (bucket_key p) (entries ht xs)"
    using entries_remove [of ht us a vs] hash_invD(10) [OF inv] p xs by simp
  have sub: "set (entries ht (us @ vs)) \<subseteq> set (entries ht xs)" using xs by (auto simp: entries_def)
  have nz: "nNumOfElements ht \<noteq> 0" using hash_invD(7) [OF inv] xs by auto
  have wf: "bucket_wf x (the (heap ht' x))" if "x \<in> set (us @ vs)" for x
  proof -
    have x: "x \<in> set xs" "x \<noteq> a" using that d(1) xs by auto
    then show ?thesis using bucket_wf_cong [OF r(4), of x] hash_invD(9) [OF inv] dom by (auto simp: r(5))
  qed
  have "hash_inv ht' (us @ vs)" unfolding hash_inv_def e
  proof (intro conjI)
    show "table_ok ht'" using hash_invD(1) [OF inv] same r(6) by (simp add: table_ok_def)
    show "nTableMask ht' = 0 \<longrightarrow> us @ vs = []" using hash_invD(2) [OF inv] same xs by auto
    show "unat (nNumOfElements ht') = length (us @ vs)"
      using hash_invD(7) [OF inv] xs nz by (simp add: r(8) unat_minus_one)
    show "\<forall>x. pInternalPointer ht' = Some x \<longrightarrow> x \<in> set (us @ vs)"
      using r(7) hash_invD(8) [OF inv] xs by (auto dest: head_opt_in_set)
    show "distinct (map fst (entries ht (us @ vs)))" using hash_invD(10) [OF inv] xs by (auto simp: entries_def)
    show "next_free_ok (nNextFreeElement ht') (entries ht (us @ vs)) id"
      using hash_invD(11) [OF inv] sub same by (force simp: next_free_ok_def)
    show "\<forall>x\<in>set (us @ vs). x < brk ht'" using hash_invD(6) [OF inv] xs same by auto
  qed (use r(2,3) same dom' wf in auto)
  moreover have "clean_keys ht'" if "clean_keys ht"
  proof -
    have "clean_keys (ht\<lparr>heap := hp\<rparr>)" by (rule clean_keys_cong [OF _ that]) (simp add: r(4))
    then show ?thesis by (auto simp: clean_keys_def r(5))
  qed
  ultimately show ?thesis using r(1,9,10) e del by (intro exI [of _ ht']) auto
qed

text \<open>Deletion by key, by key and hash, or by index.\<close>

definition del_result ::
  "hkey \<Rightarrow> (hkey \<times> 'd) list \<Rightarrow> 'd HashTable \<Rightarrow> 'd HashTable \<times> status \<Rightarrow> bool" where
  "del_result k al ht r \<longleftrightarrow> (case r of (ht', st) \<Rightarrow>
     pDestructor ht' = pDestructor ht \<and>
     (case map_of al k of
        None \<Rightarrow> st = FAILURE \<and> ht' = ht
      | Some old \<Rightarrow> st = SUCCESS \<and> hash_refines ht' (AList.delete k al) \<and> dtor_log ht' = log_dtor ht [old]))"

lemma del_found:
  assumes inv: "hash_inv ht xs" and cl: "clean_keys ht"
  shows "\<exists>r. (case key_addr ht xs k of
        Some a \<Rightarrow> do { ht \<leftarrow> i_zend_hash_bucket_delete a ht; Some (ht, SUCCESS) }
      | None \<Rightarrow> Some (ht, FAILURE)) = Some r \<and> del_result k (entries ht xs) ht r"
proof (cases "key_addr ht xs k")
  case None
  then show ?thesis by (simp add: del_result_def map_of_entries)
next
  case (Some a)
  then have a: "a \<in> set xs" "bucket_key (the (heap ht a)) = k" by (auto dest: key_addr_SomeD)
  then obtain p where p: "heap ht a = Some p" using hash_invD(5) [OF inv] by blast
  obtain us vs where xs: "xs = us @ a # vs" using a(1) by (meson split_list)
  from bucket_delete_ok [OF inv p xs] cl obtain ht' where r: "i_zend_hash_bucket_delete a ht = Some ht'"
    "hash_inv ht' (us @ vs)" "clean_keys ht'" "entries ht' (us @ vs) = AList.delete (bucket_key p) (entries ht xs)"
    "dtor_log ht' = log_dtor ht [pData p]"
    "ht'\<lparr>heap := heap ht, arBuckets := arBuckets ht, pListHead := pListHead ht, pListTail := pListTail ht,
        pInternalPointer := pInternalPointer ht, nNumOfElements := nNumOfElements ht, dtor_log := dtor_log ht\<rparr> = ht"
    by blast
  have "pDestructor ht' = pDestructor ht" using arg_cong [OF r(6), of pDestructor] by simp
  moreover have "hash_refines ht' (AList.delete k (entries ht xs))"
    using r(2-4) a(2) p by (auto simp: hash_refines_def)
  ultimately show ?thesis using Some r p a(2) by (simp add: del_result_def map_of_entries)
qed

lemma del_key_ok:
  assumes "hash_inv ht xs" and "clean_keys ht" and "key_arg key len h" and "flag \<noteq> HASH_DEL_INDEX"
    and "flag = HASH_DEL_KEY_QUICK \<Longrightarrow> h0 = h"
  shows "\<exists>r. zend_hash_del_key_or_index key len h0 flag ht = Some r \<and>
    del_result (KStr (cstr_bytes key)) (entries ht xs) ht r"
proof -
  have "(if flag = HASH_DEL_KEY then zend_inline_hash_func (cstr_bytes key) len else h0) = h"
    using assms(3-5) by (cases flag) (auto simp: key_arg_def)
  then have "zend_hash_del_key_or_index key len h0 flag ht =
     (case key_addr ht xs (KStr (cstr_bytes key)) of
        Some a \<Rightarrow> do { ht \<leftarrow> i_zend_hash_bucket_delete a ht; Some (ht, SUCCESS) }
      | None \<Rightarrow> Some (ht, FAILURE))"
    by (simp add: zend_hash_del_key_or_index_def slot_read_ok [OF hash_invD(1) [OF assms(1)]]
        del_key_lookup [OF assms(1,3)] Let_def cong: option.case_cong)
  then show ?thesis using del_found [OF assms(1,2), of "KStr (cstr_bytes key)"] by simp
qed

lemma del_index_ok:
  assumes "hash_inv ht xs" and "clean_keys ht"
  shows "\<exists>r. zend_hash_del_key_or_index NullStr 0 h HASH_DEL_INDEX ht = Some r \<and>
    del_result (KInt h) (entries ht xs) ht r"
proof -
  have "zend_hash_del_key_or_index NullStr 0 h HASH_DEL_INDEX ht =
     (case key_addr ht xs (KInt h) of
        Some a \<Rightarrow> do { ht \<leftarrow> i_zend_hash_bucket_delete a ht; Some (ht, SUCCESS) }
      | None \<Rightarrow> Some (ht, FAILURE))"
    by (simp add: zend_hash_del_key_or_index_def slot_read_ok [OF hash_invD(1) [OF assms(1)]]
        del_index_lookup [OF assms(1)] cong: option.case_cong)
  then show ?thesis using del_found [OF assms, of "KInt h"] by simp
qed

subsection \<open>Lookup\<close>

lemma found_data_ok:
  assumes "hash_inv ht xs"
  shows "found_data ht (key_addr ht xs k) = Some (map_of (entries ht xs) k)"
proof (cases "key_addr ht xs k")
  case (Some a)
  then have "a \<in> dom (heap ht)" using hash_invD(5) [OF assms] key_addr_SomeD by metis
  with Some show ?thesis by (auto simp: found_data_def map_of_entries)
qed (simp add: found_data_def map_of_entries)

lemma quick_find_ok:
  assumes "hash_inv ht xs" and "clean_keys ht" and "key_arg key len h"
  shows "zend_hash_quick_find key len h ht = Some (map_of (entries ht xs) (KStr (cstr_bytes key)))"
    and "zend_hash_quick_exists key len h ht = Some (map_of (entries ht xs) (KStr (cstr_bytes key)) \<noteq> None)"
    and "zend_hash_find key len ht = Some (map_of (entries ht xs) (KStr (cstr_bytes key)))"
    and "zend_hash_exists key len ht = Some (map_of (entries ht xs) (KStr (cstr_bytes key)) \<noteq> None)"
  using key_lookup [OF assms] found_data_ok [OF assms(1)] assms(3)
  by (simp_all add: zend_hash_quick_find_def zend_hash_find_def zend_hash_quick_exists_def zend_hash_exists_def
      slot_read_ok [OF hash_invD(1) [OF assms(1)]] map_of_entries key_arg_def)

lemma index_find_ok:
  assumes "hash_inv ht xs"
  shows "zend_hash_index_find h ht = Some (map_of (entries ht xs) (KInt h))"
    and "zend_hash_index_exists h ht = Some (map_of (entries ht xs) (KInt h) \<noteq> None)"
  using index_lookup [OF assms] found_data_ok [OF assms]
  by (simp_all add: zend_hash_index_find_def zend_hash_index_exists_def
      slot_read_ok [OF hash_invD(1) [OF assms]] map_of_entries)

subsection \<open>Creation\<close>

lemma init_shift_bounds:
  assumes "i \<le> 31" and "n \<le> 2 ^ 31"
  shows "i \<le> init_shift i n \<and> init_shift i n \<le> 31 \<and> n \<le> 2 ^ init_shift i n"
  using assms
proof (induction i n rule: init_shift.induct)
  case (1 i n)
  show ?case
  proof (cases "2 ^ i < n")
    case True
    have "i \<noteq> 31" using True "1.prems"(2) by auto
    then show ?thesis using "1.IH" [OF True] True "1.prems" by (auto simp: init_shift.simps [of i n])
  next
    case False
    then show ?thesis using "1.prems" by (simp add: init_shift.simps [of i n])
  qed
qed

lemma init_size: "\<exists>k. 3 \<le> k \<and> k \<le> 31 \<and> nTableSize (zend_hash_init nSize dtor persist) = 2 ^ k"
proof (cases "0x80000000 \<le> nSize")
  case True
  have "(0x80000000 :: uint) = 2 ^ 31" by simp
  then show ?thesis using True by (intro exI [of _ 31]) (simp add: zend_hash_init_def)
next
  case False
  then have "unat nSize \<le> 2 ^ 31" by (simp add: word_le_nat_alt)
  from init_shift_bounds [of 3, OF _ this]
  show ?thesis using False by (auto simp: zend_hash_init_def push_bit_eq_mult)
qed

lemma zend_hash_init_ok: "hash_refines (zend_hash_init nSize dtor persist) []"
proof -
  have "hash_inv (zend_hash_init nSize dtor persist) []"
    using init_size [of nSize dtor persist]
    by (auto simp: hash_inv_def table_ok_def glist_def chains_def entries_def next_free_ok_def zend_hash_init_def
        intro!: exI [of _ "\<lambda>_. []"])
  then show ?thesis by (auto simp: hash_refines_def clean_keys_def entries_def zend_hash_init_def)
qed

end
