(* ===== verification/Zend_Hash_Spec.thy ===== *)
theory Zend_Hash_Spec
  imports Zend_Hash_Ops
begin

text \<open>
  The contract of the hash table for its clients.  The locale \<open>ordered_map\<close> is what the engine
  relies on when it uses a table as a PHP array or a symbol table: a finite map whose entries
  keep their insertion order.  It is interpreted on the operations of \<open>zend_hash.c\<close>; the
  properties of the component follow.
\<close>

subsection \<open>The interface\<close>

locale ordered_map =
  fixes repr :: "'t \<Rightarrow> ('k \<times> 'd) list \<Rightarrow> bool"
    and valid :: "'k \<Rightarrow> bool"
    and room :: nat
    and put :: "'k \<Rightarrow> 'd \<Rightarrow> 't \<Rightarrow> 't option"
    and del :: "'k \<Rightarrow> 't \<Rightarrow> 't option"
    and get :: "'k \<Rightarrow> 't \<Rightarrow> 'd option option"
  assumes repr_distinct: "repr t al \<Longrightarrow> distinct (map fst al)"
    and put_repr: "repr t al \<Longrightarrow> valid k \<Longrightarrow> length al < room \<Longrightarrow>
      \<exists>t'. put k d t = Some t' \<and> repr t' (AList.update k d al)"
    and del_repr: "repr t al \<Longrightarrow> valid k \<Longrightarrow> \<exists>t'. del k t = Some t' \<and> repr t' (AList.delete k al)"
    and get_repr: "repr t al \<Longrightarrow> valid k \<Longrightarrow> get k t = Some (map_of al k)"
begin

lemma get_put:
  assumes "repr t al" and "valid k" and "valid k'" and "length al < room"
  shows "\<exists>t'. put k d t = Some t' \<and> get k' t' = (if k' = k then Some (Some d) else get k' t)"
proof -
  obtain t' where t': "put k d t = Some t'" "repr t' (AList.update k d al)"
    using put_repr [OF assms(1,2,4)] by blast
  then have "get k' t' = Some (map_of (AList.update k d al) k')" using get_repr assms(3) by blast
  then show ?thesis using t'(1) get_repr [OF assms(1,3)] by (auto simp: update_conv')
qed

lemma get_del:
  assumes "repr t al" and "valid k" and "valid k'"
  shows "\<exists>t'. del k t = Some t' \<and> get k' t' = (if k' = k then Some None else get k' t)"
proof -
  obtain t' where t': "del k t = Some t'" "repr t' (AList.delete k al)"
    using del_repr [OF assms(1,2)] by blast
  then have "get k' t' = Some (map_of (AList.delete k al) k')" using get_repr assms(3) by blast
  then show ?thesis using t'(1) get_repr [OF assms(1,3)] by (auto simp: delete_conv')
qed

text \<open>Runs of updates: the table stands for the fold, and the last value of a key wins.\<close>

fun puts :: "('k \<times> 'd) list \<Rightarrow> 't \<Rightarrow> 't option" where
  "puts [] t = Some t"
| "puts ((k, d) # ps) t = Option.bind (put k d t) (puts ps)"

lemma puts_repr:
  assumes "repr t al" and "\<forall>p\<in>set ps. valid (fst p)" and "length al + length ps \<le> room"
  shows "\<exists>t'. puts ps t = Some t' \<and> repr t' (AList.updates (map fst ps) (map snd ps) al)"
  using assms
proof (induction ps arbitrary: t al)
  case (Cons p ps)
  obtain k d where p: "p = (k, d)" by fastforce
  obtain t1 where t1: "put k d t = Some t1" "repr t1 (AList.update k d al)"
    using put_repr [of t al k d] Cons.prems p by auto
  have "length (AList.update k d al) \<le> Suc (length al)" by (induction al) auto
  then show ?case using Cons.IH [OF t1(2)] Cons.prems t1(1) p by auto
qed simp

lemma puts_get:
  assumes "repr t []" and "\<forall>p\<in>set ps. valid (fst p)" and "length ps \<le> room" and "valid k"
  shows "\<exists>t'. puts ps t = Some t' \<and> get k t' = Some (map_of (rev ps) k)"
proof -
  obtain t' where t': "puts ps t = Some t'" "repr t' (AList.updates (map fst ps) (map snd ps) [])"
    using puts_repr [OF assms(1,2)] assms(3) by auto
  have "map_of (AList.updates (map fst ps) (map snd ps) []) = map_of (rev ps)"
    by (simp add: updates_conv' map_upds_def zip_map_fst_snd)
  then show ?thesis using t' get_repr [OF t'(2) assms(4)] by simp
qed

end

subsection \<open>The operations behind the interface\<close>

text \<open>
  A client names a key by its value; it passes a pointer to a string of its own or an integer.
  \<open>HASH_UPDATE\<close> with pointer-sized data is what \<open>zend_hash_update\<close> and \<open>zend_hash_index_update\<close>
  are for PHP values.
\<close>

definition key_ptr :: "byte list \<Rightarrow> cstr" where
  "key_ptr bs = CStr (Elsewhere 0) bs"

definition hkey_valid :: "hkey \<Rightarrow> bool" where
  "hkey_valid k = (case k of KInt _ \<Rightarrow> True | KStr bs \<Rightarrow> bs \<noteq> [] \<and> length bs < 2 ^ 32)"

definition hash_put :: "hkey \<Rightarrow> 'd \<Rightarrow> 'd HashTable \<Rightarrow> 'd HashTable option" where
  "hash_put k d ht = map_option fst (case k of
     KInt h \<Rightarrow> zend_hash_index_update_or_next_insert h d sizeof_ptr HASH_UPDATE ht
   | KStr bs \<Rightarrow> zend_hash_add_or_update (key_ptr bs) (of_nat (length bs)) d sizeof_ptr HASH_UPDATE ht)"

definition hash_del :: "hkey \<Rightarrow> 'd HashTable \<Rightarrow> 'd HashTable option" where
  "hash_del k ht = map_option fst (case k of
     KInt h \<Rightarrow> zend_hash_del_key_or_index NullStr 0 h HASH_DEL_INDEX ht
   | KStr bs \<Rightarrow> zend_hash_del_key_or_index (key_ptr bs) (of_nat (length bs)) 0 HASH_DEL_KEY ht)"

definition hash_get :: "hkey \<Rightarrow> 'd HashTable \<Rightarrow> 'd option option" where
  "hash_get k ht = (case k of
     KInt h \<Rightarrow> zend_hash_index_find h ht
   | KStr bs \<Rightarrow> zend_hash_find (key_ptr bs) (of_nat (length bs)) ht)"

lemma key_arg_key_ptr:
  assumes "hkey_valid (KStr bs)"
  shows "key_arg (key_ptr bs) (of_nat (length bs)) (zend_inline_hash_func bs (of_nat (length bs)))"
proof -
  have "unat (of_nat (length bs) :: uint) = length bs" using assms by (simp add: hkey_valid_def unat_of_nat)
  moreover from this have "(of_nat (length bs) :: uint) \<noteq> 0" using assms
    unfolding word_unat_eq_iff by (simp add: hkey_valid_def)
  ultimately show ?thesis by (simp add: key_arg_def key_ptr_def)
qed

lemma hash_refinesE:
  assumes "hash_refines ht al"
  obtains xs where "hash_inv ht xs" and "clean_keys ht" and "entries ht xs = al" and "length al = length xs"
  using assms by (auto simp: hash_refines_def)

lemma flag_update_bits [simp]: "HASH_UPDATE AND HASH_ADD = 0" "HASH_UPDATE AND HASH_NEXT_INSERT = 0"
  "HASH_ADD AND HASH_NEXT_INSERT = 0" "HASH_NEXT_INSERT AND HASH_ADD = 0"
  "HASH_UPDATE \<noteq> 0" "HASH_ADD \<noteq> 0" "HASH_NEXT_INSERT \<noteq> 0"
  by (simp_all add: HASH_UPDATE_def HASH_ADD_def HASH_NEXT_INSERT_def)

interpretation zhash: ordered_map hash_refines hkey_valid "2 ^ 32 - 2" hash_put hash_del hash_get
proof (unfold_locales, goal_cases)
  case (1 t al)
  then show ?case by (auto simp: hash_refines_def dest: hash_invD(10))
next
  case (2 t al k d)
  then obtain xs where xs: "hash_inv t xs" "clean_keys t" "entries t xs = al" "length al = length xs"
    by (auto elim: hash_refinesE)
  then have n: "Suc (length xs) < 2 ^ 32" using 2(3) by simp
  show ?case
  proof (cases k)
    case (KInt h)
    with index_add_ok [OF xs(1,2) n, of h d sizeof_ptr HASH_UPDATE] xs(3) show ?thesis
      by (auto simp: hash_put_def add_result_def index_of_flag_def)
  next
    case (KStr bs)
    with quick_add_ok [OF xs(1,2) key_arg_key_ptr n, of bs d sizeof_ptr HASH_UPDATE] 2(2) xs(3) show ?thesis
      by (auto simp: hash_put_def add_result_def zend_hash_add_eq_quick key_ptr_def)
  qed
next
  case (3 t al k)
  then obtain xs where xs: "hash_inv t xs" "clean_keys t" "entries t xs = al" by (auto elim: hash_refinesE)
  have none: "hash_refines t (AList.delete k al)" if "map_of al k = None"
    using that 3(1) by (simp add: delete_id map_of_eq_None_iff)
  show ?case
  proof (cases k)
    case (KInt h)
    with del_index_ok [OF xs(1,2), of h] xs(3) none show ?thesis
      by (auto simp: hash_del_def del_result_def split: option.splits)
  next
    case (KStr bs)
    with del_key_ok [OF xs(1,2) key_arg_key_ptr, of bs HASH_DEL_KEY 0] 3(2) xs(3) none show ?thesis
      by (auto simp: hash_del_def del_result_def key_ptr_def split: option.splits)
  qed
next
  case (4 t al k)
  then obtain xs where xs: "hash_inv t xs" "clean_keys t" "entries t xs = al" by (auto elim: hash_refinesE)
  show ?case
  proof (cases k)
    case (KInt h)
    with index_find_ok [OF xs(1), of h] xs(3) show ?thesis by (simp add: hash_get_def)
  next
    case (KStr bs)
    with quick_find_ok(3) [OF xs(1,2) key_arg_key_ptr, of bs] 4(2) xs(3) show ?thesis
      by (simp add: hash_get_def key_ptr_def)
  qed
qed

text \<open>A client's run of updates.\<close>

primrec hash_puts :: "(hkey \<times> 'd) list \<Rightarrow> 'd HashTable \<Rightarrow> 'd HashTable option" where
  "hash_puts [] ht = Some ht"
| "hash_puts (p # ps) ht = Option.bind (hash_put (fst p) (snd p) ht) (hash_puts ps)"

lemma hash_puts_eq: "zhash.puts ps ht = hash_puts ps ht"
proof (induction ps arbitrary: ht)
  case (Cons p ps)
  then have "zhash.puts ps = hash_puts ps" by auto
  then show ?case by (cases p) simp
qed simp

text \<open>A small table: the entries 3 and "a", stored in a new table.\<close>

definition sample_entries :: "(hkey \<times> nat) list" where
  "sample_entries = [(KInt 3, 1), (KStr [97, 0], 2)]"

definition sample_table :: "nat HashTable" where
  "sample_table = the (hash_puts sample_entries (zend_hash_init 0 True False))"

lemma sample_refines: "hash_refines sample_table sample_entries"
proof -
  have "\<exists>t'. hash_puts sample_entries (zend_hash_init 0 True False) = Some t' \<and> hash_refines t' sample_entries"
    using zhash.puts_repr [OF zend_hash_init_ok [of 0 True False], of sample_entries]
    by (simp add: hash_puts_eq [symmetric] sample_entries_def hkey_valid_def del: hash_puts.simps zhash.puts.simps)
  then show ?thesis by (auto simp: sample_table_def)
qed

subsection \<open>The string hash\<close>

definition hash_ref :: "byte list \<Rightarrow> ulong" where
  "hash_ref bs = foldl hash_step 5381 bs"

lemma hash_switch_ref: "n \<le> length key \<Longrightarrow> hash_switch hash key n = foldl hash_step hash (take n key)"
proof (induction hash key n rule: hash_switch.induct)
  case (2 hash key n)
  then obtain c cs where "key = c # cs" by (cases key) auto
  with 2 show ?case by simp
qed simp

lemma take8: "8 \<le> length key \<Longrightarrow>
  take 8 key = [key ! 0, key ! 1, key ! 2, key ! 3, key ! 4, key ! 5, key ! 6, key ! 7]"
  by (rule nth_equalityI) (auto simp: less_Suc_eq numeral_eq_Suc)

lemma hash_unrolled_ref: "n \<le> length key \<Longrightarrow> hash_unrolled hash key n = foldl hash_step hash (take n key)"
proof (induction hash key n rule: hash_unrolled.induct)
  case (1 hash key n)
  show ?case
  proof (cases "8 \<le> n")
    case True
    with "1.prems" have "take n key = take 8 key @ take (n - 8) (drop 8 key)"
      by (metis le_add_diff_inverse take_add)
    moreover have "8 \<le> length key" using True "1.prems" by simp
    ultimately show ?thesis using True "1.IH" [OF True refl refl refl refl refl refl refl refl] "1.prems"
      by (simp add: hash_unrolled.simps [of hash key n] take8 Let_def)
  next
    case False
    then show ?thesis using "1.prems" by (simp add: hash_unrolled.simps [of hash key n] hash_switch_ref)
  qed
qed

text \<open>
  \<open>zend_inline_hash_func\<close>, unrolled eight times with a fall-through switch for the rest,
  computes DJB's hash: one step \<open>hash * 33 + c\<close> per byte, from 5381, modulo 2^32.
\<close>

theorem hash_func_ref:
  assumes "unat n \<le> length key"
  shows "zend_inline_hash_func key n = hash_ref (take (unat n) key) \<and>
    (\<forall>h c. hash_step h c = h * 33 + scast c)"
  using hash_unrolled_ref [OF assms]
  by (simp add: zend_inline_hash_func_def hash_ref_def hash_step_def push_bit_eq_mult)

theorem hash_func_ref_witness:
  "zend_inline_hash_func [97, 98, 99, 100, 101, 102, 103, 104, 0] 9 =
   hash_ref [97, 98, 99, 100, 101, 102, 103, 104, 0]"
  using hash_func_ref [of 9 "[97, 98, 99, 100, 101, 102, 103, 104, 0]"] by simp

subsection \<open>Refinement\<close>

text \<open>
  C1: on a table that stands for the association list \<open>al\<close>, \<open>_zend_hash_add_or_update\<close> and its
  quick variant return, keep every part of the invariant (through resizing too), and refine
  \<open>AList.update\<close>: the value of an existing key is replaced in place, after its destructor ran,
  unless the flag is \<open>HASH_ADD\<close>, when the call is refused and nothing changes; a new key goes
  to the end.
\<close>

theorem hash_add_refines:
  assumes "hash_refines ht al" and "key_arg key len h" and "length al < 2 ^ 32 - 1"
  shows "\<exists>r. zend_hash_quick_add_or_update key len h d sz flag ht = Some r \<and>
    zend_hash_add_or_update key len d sz flag ht = Some r \<and>
    add_result (flag AND HASH_ADD \<noteq> 0) (KStr (cstr_bytes key)) d al ht r"
proof -
  obtain xs where xs: "hash_inv ht xs" "clean_keys ht" "entries ht xs = al" "length al = length xs"
    using assms(1) by (rule hash_refinesE)
  then show ?thesis
    using quick_add_ok [OF xs(1,2) assms(2), of d sz flag] assms(2,3)
    by (auto simp: zend_hash_add_eq_quick key_arg_def)
qed

theorem hash_add_refines_witness:
  "\<exists>r. zend_hash_add_or_update (key_ptr [97, 0]) 2 (7 :: nat) 4 HASH_ADD (zend_hash_init 0 True False) = Some r \<and>
    add_result True (KStr [97, 0]) 7 [] (zend_hash_init 0 True False) r"
proof -
  have "key_arg (key_ptr [97, 0]) 2 (zend_inline_hash_func [97, 0] 2)"
    by (simp add: key_arg_def key_ptr_def)
  from hash_add_refines [OF zend_hash_init_ok this, of "7 :: nat" 4 HASH_ADD 0 True False] show ?thesis
    by (auto simp: key_ptr_def)
qed

text \<open>
  C4: \<open>_zend_hash_index_update_or_next_insert\<close> does the same for integer keys; with
  \<open>HASH_NEXT_INSERT\<close> the key is \<open>nNextFreeElement\<close>, and the call is refused only when the
  largest integer key is taken, so an append never overwrites an element.
\<close>

theorem hash_index_add_refines:
  assumes "hash_refines ht al" and "length al < 2 ^ 32 - 1"
  shows "\<exists>r. zend_hash_index_update_or_next_insert h d sz flag ht = Some r \<and>
    add_result (flag AND HASH_NEXT_INSERT \<noteq> 0 \<or> flag AND HASH_ADD \<noteq> 0)
      (KInt (index_of_flag flag h ht)) d al ht r \<and>
    (flag = HASH_NEXT_INSERT \<and> nNextFreeElement ht \<noteq> LONG_MAX \<longrightarrow>
      hash_refines (fst r) (al @ [(KInt (nNextFreeElement ht), d)]))"
proof -
  obtain xs where xs: "hash_inv ht xs" "clean_keys ht" "entries ht xs = al" "length al = length xs"
    using assms(1) by (rule hash_refinesE)
  then obtain r where r: "zend_hash_index_update_or_next_insert h d sz flag ht = Some r"
    "add_result (flag AND HASH_NEXT_INSERT \<noteq> 0 \<or> flag AND HASH_ADD \<noteq> 0) (KInt (index_of_flag flag h ht)) d al ht r"
    using index_add_ok [OF xs(1,2), of h d sz flag] assms(2) by auto
  have "KInt (nNextFreeElement ht) \<notin> fst ` set al" if "nNextFreeElement ht \<noteq> LONG_MAX"
    using hash_invD(11) [OF xs(1)] that xs(3) by (auto simp: next_free_ok_def)
  then have "hash_refines (fst r) (al @ [(KInt (nNextFreeElement ht), d)])"
    if "flag = HASH_NEXT_INSERT" "nNextFreeElement ht \<noteq> LONG_MAX"
    using that r(2) by (cases r) (simp add: add_result_def index_of_flag_def AList_update_new)
  with r show ?thesis by blast
qed

theorem hash_index_add_refines_witness:
  "\<exists>r. zend_hash_index_update_or_next_insert 0 (7 :: nat) 4 HASH_NEXT_INSERT (zend_hash_init 0 True False) = Some r \<and>
    hash_refines (fst r) [(KInt 0, 7)]"
  using hash_index_add_refines [OF zend_hash_init_ok [of 0 True False], of 0 "7 :: nat" 4 HASH_NEXT_INSERT]
  by (auto simp: zend_hash_init_def LONG_MAX_def)

text \<open>
  C2: \<open>zend_hash_del_key_or_index\<close> refines \<open>AList.delete\<close>: a key that is present is removed,
  its bucket freed and the destructor called exactly once on its value; a key that is absent
  gives \<open>FAILURE\<close> and leaves the table as it was.
\<close>

theorem hash_del_refines:
  assumes "hash_refines ht al"
  shows "(\<forall>key len h. key_arg key len h \<longrightarrow>
      (\<exists>r. zend_hash_del_key_or_index key len 0 HASH_DEL_KEY ht = Some r \<and>
        zend_hash_del_key_or_index key len h HASH_DEL_KEY_QUICK ht = Some r \<and>
        del_result (KStr (cstr_bytes key)) al ht r)) \<and>
    (\<forall>h. \<exists>r. zend_hash_del_key_or_index NullStr 0 h HASH_DEL_INDEX ht = Some r \<and> del_result (KInt h) al ht r)"
proof -
  obtain xs where xs: "hash_inv ht xs" "clean_keys ht" "entries ht xs = al"
    using assms by (rule hash_refinesE)
  have "zend_hash_del_key_or_index key len 0 HASH_DEL_KEY ht = zend_hash_del_key_or_index key len h HASH_DEL_KEY_QUICK ht"
    if "key_arg key len h" for key len h
    using that by (simp add: zend_hash_del_key_or_index_def key_arg_def)
  then show ?thesis using del_key_ok [OF xs(1,2), of _ _ _ HASH_DEL_KEY_QUICK] del_index_ok [OF xs(1,2)] xs(3)
    by fastforce
qed

theorem hash_del_refines_witness:
  "\<exists>r. zend_hash_del_key_or_index NullStr 0 3 HASH_DEL_INDEX sample_table = Some r \<and>
    snd r = SUCCESS \<and> hash_refines (fst r) [(KStr [97, 0], 2)]"
  using conjunct2 [OF hash_del_refines [OF sample_refines], THEN spec, of 3]
  by (auto simp: del_result_def sample_entries_def)

text \<open>
  C3: every lookup function returns exactly what the association list holds, whichever pointer
  the caller passes for the key.
\<close>

theorem hash_find_refines:
  assumes "hash_refines ht al"
  shows "(\<forall>key len h. key_arg key len h \<longrightarrow>
      zend_hash_find key len ht = Some (map_of al (KStr (cstr_bytes key))) \<and>
      zend_hash_quick_find key len h ht = Some (map_of al (KStr (cstr_bytes key))) \<and>
      zend_hash_exists key len ht = Some (map_of al (KStr (cstr_bytes key)) \<noteq> None) \<and>
      zend_hash_quick_exists key len h ht = Some (map_of al (KStr (cstr_bytes key)) \<noteq> None)) \<and>
    (\<forall>h. zend_hash_index_find h ht = Some (map_of al (KInt h)) \<and>
      zend_hash_index_exists h ht = Some (map_of al (KInt h) \<noteq> None)) \<and>
    unat (zend_hash_num_elements ht) = length al"
proof -
  obtain xs where xs: "hash_inv ht xs" "clean_keys ht" "entries ht xs = al" "length al = length xs"
    using assms by (rule hash_refinesE)
  then show ?thesis using quick_find_ok [OF xs(1,2)] index_find_ok [OF xs(1)] hash_invD(7) [OF xs(1)]
    by (simp add: zend_hash_num_elements_def)
qed

theorem hash_find_refines_witness:
  "zend_hash_index_find 3 sample_table = Some (Some 1) \<and> zend_hash_index_find 4 sample_table = Some None"
  using hash_find_refines [OF sample_refines] by (simp add: sample_entries_def)

text \<open>
  a client that stores a list of entries in a new table, under any mixture of string and
  integer keys, finds under every key the value it stored last.
\<close>

theorem hash_puts_get:
  assumes "\<forall>p\<in>set ps. hkey_valid (fst p)" and "length ps \<le> 2 ^ 32 - 2" and "hkey_valid k"
  shows "\<exists>t'. hash_puts ps (zend_hash_init nSize dtor persist) = Some t' \<and>
    hash_get k t' = Some (map_of (rev ps) k)"
  using zhash.puts_get [OF zend_hash_init_ok assms] by (simp add: hash_puts_eq)

theorem hash_puts_get_witness:
  "\<exists>t'. hash_puts [(KInt 3, 1), (KStr [97, 0], 2), (KInt 3, 5)] (zend_hash_init 0 False False) = Some t' \<and>
    hash_get (KInt 3) t' = Some (Some (5 :: nat))"
  using hash_puts_get [of "[(KInt 3, 1 :: nat), (KStr [97, 0], 2), (KInt 3, 5)]" "KInt 3" 0 False False]
  by (simp add: hkey_valid_def del: hash_puts.simps)

text \<open>
  \<open>_zend_hash_init\<close> chooses a table size that is a power of two, at least 8 and at most
  2^31, and at least the requested size whenever that is at most 2^31; the new table is empty.
\<close>

theorem hash_init_size:
  fixes ht :: "'d HashTable"
  assumes "ht = zend_hash_init nSize dtor persist"
  shows "hash_refines ht [] \<and> (\<exists>k. 3 \<le> k \<and> k \<le> 31 \<and> nTableSize ht = 2 ^ k) \<and>
     (unat nSize \<le> 2 ^ 31 \<longrightarrow> unat nSize \<le> unat (nTableSize ht))"
proof -
  have "unat nSize \<le> unat (nTableSize ht)" if "unat nSize \<le> 2 ^ 31"
  proof (cases "0x80000000 \<le> nSize")
    case True
    with that have "unat nSize = 2 ^ 31" by (simp add: word_le_nat_alt)
    then show ?thesis using True assms by (simp add: zend_hash_init_def)
  next
    case False
    note b = init_shift_bounds [of 3, OF _ that]
    then show ?thesis using False assms
      by (simp add: zend_hash_init_def push_bit_eq_mult two_power_less)
  qed
  with init_size [of nSize dtor persist, where 'a = 'd] zend_hash_init_ok [of nSize dtor persist, where 'a = 'd]
  show ?thesis using assms by simp
qed

theorem hash_init_size_witness: "10 \<le> unat (nTableSize (zend_hash_init 10 True False :: nat HashTable))"
  using hash_init_size [of "zend_hash_init 10 True False :: nat HashTable" 10 True False] by simp

end
