(* ===== verification/Zend_Hash_Iter.thy ===== *)
theory Zend_Hash_Iter
  imports Zend_Hash_Spec
begin

text \<open>
  The model of \<open>Zend/zend_hash.c\<close>, part two: destruction, the apply functions, and traversal
  with positions.  An \<open>apply_func\<close> is a function on the caller's state \<open>'s\<close> and the data it is
  given; it may change both and returns the bits \<open>ZEND_HASH_APPLY_REMOVE\<close> and
  \<open>ZEND_HASH_APPLY_STOP\<close>.
\<close>

subsection \<open>Destruction\<close>

partial_function (option) destroy_loop :: "ptr \<Rightarrow> 'd HashTable \<Rightarrow> 'd HashTable option" where [code]:
  "destroy_loop p ht = (case p of
     None \<Rightarrow> Some ht
   | Some q \<Rightarrow> do {
       b \<leftarrow> heap ht q;
       destroy_loop (pListNext b) (pefree_bucket (call_pDestructor ht (pData b)) q)
     })"

definition zend_hash_destroy :: "'d HashTable \<Rightarrow> 'd HashTable option" where
  "zend_hash_destroy ht = do {
     ht \<leftarrow> destroy_loop (pListHead ht) ht;
     Some (if nTableMask ht \<noteq> 0 then ht\<lparr>arBuckets := []\<rparr> else ht)
   }"

definition zend_hash_clean :: "'d HashTable \<Rightarrow> 'd HashTable option" where
  "zend_hash_clean ht0 = do {
     let p = pListHead ht0;
     let ht = (if nTableMask ht0 \<noteq> 0
               then ht0\<lparr>arBuckets := replicate (unat (nTableSize ht0)) None\<rparr> else ht0);
     let ht = ht\<lparr>nNumOfElements := 0, nNextFreeElement := 0, pInternalPointer := None,
                pListHead := None, pListTail := None\<rparr>;
     destroy_loop p ht
   }"

partial_function (option) graceful_loop ::
  "('d HashTable \<Rightarrow> ptr) \<Rightarrow> 'd HashTable \<Rightarrow> 'd HashTable option" where [code]:
  "graceful_loop end_of ht = (case end_of ht of
     None \<Rightarrow> Some ht
   | Some a \<Rightarrow> do { ht \<leftarrow> zend_hash_bucket_delete a ht; graceful_loop end_of ht })"

definition zend_hash_graceful_destroy :: "'d HashTable \<Rightarrow> 'd HashTable option" where
  "zend_hash_graceful_destroy ht = do {
     ht \<leftarrow> graceful_loop pListHead ht;
     Some (if nTableMask ht \<noteq> 0 then ht\<lparr>arBuckets := []\<rparr> else ht)
   }"

definition zend_hash_graceful_reverse_destroy :: "'d HashTable \<Rightarrow> 'd HashTable option" where
  "zend_hash_graceful_reverse_destroy ht = do {
     ht \<leftarrow> graceful_loop pListTail ht;
     Some (if nTableMask ht \<noteq> 0 then ht\<lparr>arBuckets := []\<rparr> else ht)
   }"

subsection \<open>Apply\<close>

definition ZEND_HASH_APPLY_KEEP :: uint where "ZEND_HASH_APPLY_KEEP = 0"
definition ZEND_HASH_APPLY_REMOVE :: uint where "ZEND_HASH_APPLY_REMOVE = 1"
definition ZEND_HASH_APPLY_STOP :: uint where "ZEND_HASH_APPLY_STOP = 2"

definition HASH_PROTECT_RECURSION :: "'d HashTable \<Rightarrow> 'd HashTable outcome" where
  "HASH_PROTECT_RECURSION ht =
     (if bApplyProtection ht then
        if 3 \<le> nApplyCount ht then Fatal else Done (ht\<lparr>nApplyCount := nApplyCount ht + 1\<rparr>)
      else Done ht)"

definition HASH_UNPROTECT_RECURSION :: "'d HashTable \<Rightarrow> 'd HashTable" where
  "HASH_UNPROTECT_RECURSION ht =
     (if bApplyProtection ht then ht\<lparr>nApplyCount := nApplyCount ht - 1\<rparr> else ht)"

record zend_hash_key =
  hk_arKey :: cstr
  hk_nKeyLength :: uint
  hk_h :: ulong

partial_function (option) apply_loop ::
  "('d Bucket \<Rightarrow> ptr) \<Rightarrow> ('s \<Rightarrow> 'd \<Rightarrow> zend_hash_key \<Rightarrow> 's \<times> 'd \<times> uint) \<Rightarrow> 's \<Rightarrow> ptr \<Rightarrow> 'd HashTable \<Rightarrow>
   ('d HashTable \<times> 's) option" where [code]:
  "apply_loop step f s p ht = (case p of
     None \<Rightarrow> Some (ht, s)
   | Some a \<Rightarrow> do {
       b \<leftarrow> heap ht a;
       let (s', d, result) = f s (pData b) \<lparr>hk_arKey = arKey b, hk_nKeyLength = nKeyLength b, hk_h = b_h b\<rparr>;
       ht \<leftarrow> ht_write ht a (\<lambda>b. b\<lparr>pData := d\<rparr>);
       b \<leftarrow> heap ht a;
       ht \<leftarrow> (if result AND ZEND_HASH_APPLY_REMOVE \<noteq> 0 then zend_hash_bucket_delete a ht else Some ht);
       if result AND ZEND_HASH_APPLY_STOP \<noteq> 0 then Some (ht, s') else apply_loop step f s' (step b) ht
     })"

definition zend_hash_apply_with_arguments ::
  "('s \<Rightarrow> 'd \<Rightarrow> zend_hash_key \<Rightarrow> 's \<times> 'd \<times> uint) \<Rightarrow> 's \<Rightarrow> 'd HashTable \<Rightarrow> ('d HashTable \<times> 's) outcome option" where
  "zend_hash_apply_with_arguments f s ht0 = (case HASH_PROTECT_RECURSION ht0 of
     Fatal \<Rightarrow> Some Fatal
   | Done ht \<Rightarrow> do {
       (ht, s) \<leftarrow> apply_loop pListNext f s (pListHead ht) ht;
       Some (Done (HASH_UNPROTECT_RECURSION ht, s))
     })"

definition zend_hash_apply_with_argument ::
  "('s \<Rightarrow> 'd \<Rightarrow> 'arg \<Rightarrow> 's \<times> 'd \<times> uint) \<Rightarrow> 'arg \<Rightarrow> 's \<Rightarrow> 'd HashTable \<Rightarrow> ('d HashTable \<times> 's) outcome option" where
  "zend_hash_apply_with_argument f arg s ht0 = (case HASH_PROTECT_RECURSION ht0 of
     Fatal \<Rightarrow> Some Fatal
   | Done ht \<Rightarrow> do {
       (ht, s) \<leftarrow> apply_loop pListNext (\<lambda>s d _. f s d arg) s (pListHead ht) ht;
       Some (Done (HASH_UNPROTECT_RECURSION ht, s))
     })"

definition zend_hash_apply ::
  "('s \<Rightarrow> 'd \<Rightarrow> 's \<times> 'd \<times> uint) \<Rightarrow> 's \<Rightarrow> 'd HashTable \<Rightarrow> ('d HashTable \<times> 's) outcome option" where
  "zend_hash_apply f s ht0 = (case HASH_PROTECT_RECURSION ht0 of
     Fatal \<Rightarrow> Some Fatal
   | Done ht \<Rightarrow> do {
       (ht, s) \<leftarrow> apply_loop pListNext (\<lambda>s d _. f s d) s (pListHead ht) ht;
       Some (Done (HASH_UNPROTECT_RECURSION ht, s))
     })"

definition zend_hash_reverse_apply ::
  "('s \<Rightarrow> 'd \<Rightarrow> 's \<times> 'd \<times> uint) \<Rightarrow> 's \<Rightarrow> 'd HashTable \<Rightarrow> ('d HashTable \<times> 's) outcome option" where
  "zend_hash_reverse_apply f s ht0 = (case HASH_PROTECT_RECURSION ht0 of
     Fatal \<Rightarrow> Some Fatal
   | Done ht \<Rightarrow> do {
       (ht, s) \<leftarrow> apply_loop pListLast (\<lambda>s d _. f s d) s (pListTail ht) ht;
       Some (Done (HASH_UNPROTECT_RECURSION ht, s))
     })"

subsection \<open>Positions\<close>

text \<open>
  A \<open>HashPosition *pos\<close> argument: \<open>None\<close> is the null pointer, when the function works on the
  table's internal pointer, \<open>Some p\<close> a caller's variable holding \<open>p\<close>.
\<close>

type_synonym pos_arg = "ptr option"

definition current :: "'d HashTable \<Rightarrow> pos_arg \<Rightarrow> ptr" where
  "current ht pos = (case pos of Some p \<Rightarrow> p | None \<Rightarrow> pInternalPointer ht)"

definition set_current :: "ptr \<Rightarrow> 'd HashTable \<Rightarrow> pos_arg \<Rightarrow> 'd HashTable \<times> pos_arg" where
  "set_current p ht pos = (case pos of Some _ \<Rightarrow> (ht, Some p) | None \<Rightarrow> (ht\<lparr>pInternalPointer := p\<rparr>, None))"

definition zend_hash_internal_pointer_reset_ex :: "'d HashTable \<Rightarrow> pos_arg \<Rightarrow> 'd HashTable \<times> pos_arg" where
  "zend_hash_internal_pointer_reset_ex ht pos = set_current (pListHead ht) ht pos"

definition zend_hash_internal_pointer_end_ex :: "'d HashTable \<Rightarrow> pos_arg \<Rightarrow> 'd HashTable \<times> pos_arg" where
  "zend_hash_internal_pointer_end_ex ht pos = set_current (pListTail ht) ht pos"

definition zend_hash_move_forward_ex ::
  "'d HashTable \<Rightarrow> pos_arg \<Rightarrow> (('d HashTable \<times> pos_arg) \<times> status) option" where
  "zend_hash_move_forward_ex ht pos = (case current ht pos of
     Some a \<Rightarrow> do { b \<leftarrow> heap ht a; Some (set_current (pListNext b) ht pos, SUCCESS) }
   | None \<Rightarrow> Some ((ht, pos), FAILURE))"

definition zend_hash_move_backwards_ex ::
  "'d HashTable \<Rightarrow> pos_arg \<Rightarrow> (('d HashTable \<times> pos_arg) \<times> status) option" where
  "zend_hash_move_backwards_ex ht pos = (case current ht pos of
     Some a \<Rightarrow> do { b \<leftarrow> heap ht a; Some (set_current (pListLast b) ht pos, SUCCESS) }
   | None \<Rightarrow> Some ((ht, pos), FAILURE))"

text \<open>
  The results \<open>HASH_KEY_IS_STRING\<close>, \<open>HASH_KEY_IS_LONG\<close> and \<open>HASH_KEY_NON_EXISTENT\<close>, the first
  two with what is stored through the output pointers; \<open>estrndup(arKey, nKeyLength - 1)\<close>
  duplicates the key without its terminator and adds one.
\<close>

datatype cur_key = HASH_KEY_IS_STRING "byte list" uint | HASH_KEY_IS_LONG ulong | HASH_KEY_NON_EXISTENT

definition estrndup :: "byte list \<Rightarrow> nat \<Rightarrow> byte list" where
  "estrndup s n = take n s @ [0]"

definition zend_hash_get_current_key_ex :: "bool \<Rightarrow> 'd HashTable \<Rightarrow> pos_arg \<Rightarrow> cur_key option" where
  "zend_hash_get_current_key_ex duplicate ht pos = (case current ht pos of
     Some a \<Rightarrow> do {
       b \<leftarrow> heap ht a;
       Some (if nKeyLength b \<noteq> 0
             then HASH_KEY_IS_STRING
               (if duplicate then estrndup (cstr_bytes (arKey b)) (unat (nKeyLength b - 1)) else cstr_bytes (arKey b))
               (nKeyLength b)
             else HASH_KEY_IS_LONG (b_h b))
     }
   | None \<Rightarrow> Some HASH_KEY_NON_EXISTENT)"

datatype key_type = TY_STRING | TY_LONG | TY_NON_EXISTENT

definition zend_hash_get_current_key_type_ex :: "'d HashTable \<Rightarrow> pos_arg \<Rightarrow> key_type option" where
  "zend_hash_get_current_key_type_ex ht pos = (case current ht pos of
     Some a \<Rightarrow> do { b \<leftarrow> heap ht a; Some (if nKeyLength b \<noteq> 0 then TY_STRING else TY_LONG) }
   | None \<Rightarrow> Some TY_NON_EXISTENT)"

datatype key_zval = ZNull | ZString "byte list" uint | ZLong ulong

definition zend_hash_get_current_key_zval_ex :: "'d HashTable \<Rightarrow> pos_arg \<Rightarrow> key_zval option" where
  "zend_hash_get_current_key_zval_ex ht pos = (case current ht pos of
     None \<Rightarrow> Some ZNull
   | Some a \<Rightarrow> do {
       b \<leftarrow> heap ht a;
       Some (if nKeyLength b \<noteq> 0
             then ZString (if IS_INTERNED (arKey b) then cstr_bytes (arKey b)
                           else estrndup (cstr_bytes (arKey b)) (unat (nKeyLength b - 1))) (nKeyLength b - 1)
             else ZLong (b_h b))
     })"

definition zend_hash_get_current_data_ex :: "'d HashTable \<Rightarrow> pos_arg \<Rightarrow> 'd option option" where
  "zend_hash_get_current_data_ex ht pos = (case current ht pos of
     Some a \<Rightarrow> do { b \<leftarrow> heap ht a; Some (Some (pData b)) }
   | None \<Rightarrow> Some None)"

record HashPointer =
  hp_pos :: ptr
  hp_h :: ulong

definition zend_hash_get_pointer :: "'d HashTable \<Rightarrow> (HashPointer \<times> bool) option" where
  "zend_hash_get_pointer ht = (case pInternalPointer ht of
     Some a \<Rightarrow> do { b \<leftarrow> heap ht a; Some (\<lparr>hp_pos = Some a, hp_h = b_h b\<rparr>, True) }
   | None \<Rightarrow> Some (\<lparr>hp_pos = None, hp_h = 0\<rparr>, False))"

partial_function (option) chain_member :: "'d HashTable \<Rightarrow> addr \<Rightarrow> ptr \<Rightarrow> bool option" where [code]:
  "chain_member ht x p = (case p of
     None \<Rightarrow> Some False
   | Some a \<Rightarrow> do { b \<leftarrow> heap ht a; if a = x then Some True else chain_member ht x (pNext b) })"

definition zend_hash_set_pointer :: "HashPointer \<Rightarrow> 'd HashTable \<Rightarrow> ('d HashTable \<times> bool) option" where
  "zend_hash_set_pointer hp ht = (case hp_pos hp of
     None \<Rightarrow> Some (ht\<lparr>pInternalPointer := None\<rparr>, True)
   | Some a \<Rightarrow>
       if pInternalPointer ht \<noteq> Some a then do {
         slot \<leftarrow> slot_read ht (hash_index ht (hp_h hp));
         found \<leftarrow> chain_member ht a slot;
         Some (if found then (ht\<lparr>pInternalPointer := Some a\<rparr>, True) else (ht, False))
       }
       else Some (ht, True))"

end
