(* ===== verification/Zend_Hash_Iter_Spec.thy ===== *)
theory Zend_Hash_Iter_Spec
  imports Zend_Hash_Iter
begin

text \<open>
  Destruction, apply and traversal against the association list a table stands for.  The apply
  functions refine \<open>apply_spec\<close>, a recursion over the list of entries; the destruction functions
  free every bucket and call the destructor once per element, in list order or in reverse; a
  walk with positions visits the entries in insertion order.
\<close>

subsection \<open>Fields no traversal changes\<close>

definition same_flags :: "'d HashTable \<Rightarrow> 'd HashTable \<Rightarrow> bool" where
  "same_flags ht ht' \<longleftrightarrow> pDestructor ht' = pDestructor ht \<and> persistent ht' = persistent ht \<and>
     bApplyProtection ht' = bApplyProtection ht \<and> nApplyCount ht' = nApplyCount ht"

lemma same_flags_refl [simp]: "same_flags ht ht"
  by (simp add: same_flags_def)

lemma same_flags_trans: "same_flags h1 h2 \<Longrightarrow> same_flags h2 h3 \<Longrightarrow> same_flags h1 h3"
  by (simp add: same_flags_def)

lemma log_dtor_trans:
  "dtor_log h2 = log_dtor h1 xs \<Longrightarrow> same_flags h1 h2 \<Longrightarrow> log_dtor h2 ys = log_dtor h1 (xs @ ys)"
  by (simp add: log_dtor_def same_flags_def)

lemma entries_append [simp]: "entries ht (us @ vs) = entries ht us @ entries ht vs"
  by (simp add: entries_def)

lemma entries_Nil [simp]: "entries ht [] = []"
  by (simp add: entries_def)

lemma entries_Cons: "entries ht (a # vs) = (bucket_key (the (heap ht a)), pData (the (heap ht a))) # entries ht vs"
  by (simp add: entries_def)

lemma delete_step:
  assumes "hash_inv ht (us @ a # vs)" and "clean_keys ht"
  obtains b ht' where "heap ht a = Some b" and "zend_hash_bucket_delete a ht = Some ht'"
    and "hash_inv ht' (us @ vs)" and "clean_keys ht'" and "entries ht' us = entries ht us"
    and "entries ht' vs = entries ht vs" and "dtor_log ht' = log_dtor ht [pData b]" and "same_flags ht ht'"
    and "nTableMask ht' = nTableMask ht"
proof -
  obtain b where b: "heap ht a = Some b" using hash_invD(5) [OF assms(1)] by fastforce
  from bucket_delete_ok [OF assms(1) b refl] assms(2) obtain ht' where
    r: "i_zend_hash_bucket_delete a ht = Some ht'" "hash_inv ht' (us @ vs)" "clean_keys ht'"
      "entries ht' (us @ vs) = entries ht (us @ vs)" "dtor_log ht' = log_dtor ht [pData b]"
    and f: "ht'\<lparr>heap := heap ht, arBuckets := arBuckets ht, pListHead := pListHead ht, pListTail := pListTail ht,
        pInternalPointer := pInternalPointer ht, nNumOfElements := nNumOfElements ht, dtor_log := dtor_log ht\<rparr> = ht"
    by blast
  have "same_flags ht ht'" "nTableMask ht' = nTableMask ht"
    using arg_cong [OF f, of pDestructor] arg_cong [OF f, of persistent]
      arg_cong [OF f, of bApplyProtection] arg_cong [OF f, of nApplyCount] arg_cong [OF f, of nTableMask]
    by (simp_all add: same_flags_def)
  with that [of b ht'] b r show thesis by (simp add: zend_hash_bucket_delete_def)
qed

subsection \<open>Apply\<close>

definition abs_key :: "zend_hash_key \<Rightarrow> hkey" where
  "abs_key k = (if hk_nKeyLength k = 0 then KInt (hk_h k) else KStr (cstr_bytes (hk_arKey k)))"

text \<open>
  The entries that remain, the caller's state, and the values destroyed.  An element is kept with
  the value \<open>f\<close> left in it, or destroyed when the result has the bit \<open>ZEND_HASH_APPLY_REMOVE\<close>;
  the bit \<open>ZEND_HASH_APPLY_STOP\<close> ends the walk after it.
\<close>

primrec apply_spec ::
  "('s \<Rightarrow> 'd \<Rightarrow> hkey \<Rightarrow> 's \<times> 'd \<times> uint) \<Rightarrow> 's \<Rightarrow> (hkey \<times> 'd) list \<Rightarrow> (hkey \<times> 'd) list \<times> 's \<times> 'd list" where
  "apply_spec g s [] = ([], s, [])"
| "apply_spec g s (e # al) =
     (let (s', d, r) = g s (snd e) (fst e);
          (al', s'', ds) = (if r AND ZEND_HASH_APPLY_STOP \<noteq> 0 then (al, s', []) else apply_spec g s' al)
      in if r AND ZEND_HASH_APPLY_REMOVE \<noteq> 0 then (al', s'', d # ds) else ((fst e, d) # al', s'', ds))"

lemma apply_write:
  assumes "hash_inv ht (us @ a # vs)" and "clean_keys ht" and "heap ht a = Some b"
    and "ht1 = ht\<lparr>heap := (heap ht)(a \<mapsto> b\<lparr>pData := d\<rparr>)\<rparr>"
  shows "hash_inv ht1 (us @ a # vs)" and "clean_keys ht1" and "entries ht1 us = entries ht us"
    and "entries ht1 vs = entries ht vs" and "same_flags ht ht1" and "dtor_log ht1 = dtor_log ht"
proof -
  have e: "ht1 = ht\<lparr>dtor_log := dtor_log ht, heap := (heap ht)(a \<mapsto> b\<lparr>pData := d, pDataInline := pDataInline b\<rparr>)\<rparr>"
    using assms(4) by simp
  show "hash_inv ht1 (us @ a # vs)" "clean_keys ht1"
    using set_data_inv [OF assms(1,2) _ assms(3) e] by auto
  have "a \<notin> set us" "a \<notin> set vs" using hash_invD(12) [OF assms(1)] by auto
  then show "entries ht1 us = entries ht us" "entries ht1 vs = entries ht vs"
    using assms(4) by (auto simp: entries_def)
  show "same_flags ht ht1" "dtor_log ht1 = dtor_log ht" using assms(4) by (simp_all add: same_flags_def)
qed

lemma bucket_abs_key:
  "abs_key \<lparr>hk_arKey = arKey b, hk_nKeyLength = nKeyLength b, hk_h = b_h b\<rparr> = bucket_key b"
  by (simp add: abs_key_def bucket_key_def)

definition apply_post ::
  "(hkey \<times> 'd) list \<Rightarrow> (hkey \<times> 'd) list \<Rightarrow> 'd list \<Rightarrow> 'd HashTable \<Rightarrow> 'd HashTable \<Rightarrow> bool" where
  "apply_post al1 al2 ds ht ht' \<longleftrightarrow> (\<exists>xs. hash_inv ht' xs \<and> clean_keys ht' \<and> entries ht' xs = al1 @ al2) \<and>
     dtor_log ht' = log_dtor ht ds \<and> same_flags ht ht'"

text \<open>One turn of the loop: the state it leaves and the neighbour it goes on with.\<close>

lemma apply_step:
  assumes inv: "hash_inv ht (us @ a # vs)" and cl: "clean_keys ht"
    and g: "g s (pData (the (heap ht a))) (bucket_key (the (heap ht a))) = (s', d, r)"
    and f: "f = (\<lambda>s d k. g s d (abs_key k))"
    and nb: "step = pListNext \<and> q = head_opt vs \<or> step = pListLast \<and> q = last_opt us"
  obtains ht' where
    "apply_loop step f s (Some a) ht =
       (if r AND ZEND_HASH_APPLY_STOP \<noteq> 0 then Some (ht', s') else apply_loop step f s' q ht')"
    and "hash_inv ht' (us @ (if r AND ZEND_HASH_APPLY_REMOVE \<noteq> 0 then [] else [a]) @ vs)" and "clean_keys ht'"
    and "entries ht' us = entries ht us" and "entries ht' vs = entries ht vs"
    and "r AND ZEND_HASH_APPLY_REMOVE = 0 \<Longrightarrow> entries ht' [a] = [(bucket_key (the (heap ht a)), d)]"
    and "dtor_log ht' = log_dtor ht (if r AND ZEND_HASH_APPLY_REMOVE \<noteq> 0 then [d] else [])" and "same_flags ht ht'"
proof -
  obtain b where b: "heap ht a = Some b" using hash_invD(5) [OF inv] by fastforce
  define ht1 where "ht1 = ht\<lparr>heap := (heap ht)(a \<mapsto> b\<lparr>pData := d\<rparr>)\<rparr>"
  note w = apply_write [OF inv cl b ht1_def]
  have "glist (heap ht1) (pListHead ht1) (pListTail ht1) (us @ a # vs)" by (rule hash_invD(3) [OF w(1)])
  then have "linked (\<lambda>a. pListNext (the (heap ht1 a))) (\<lambda>a. pListLast (the (heap ht1 a))) (us @ a # vs)"
    by (simp add: glist_def)
  from linked_split [OF this] nb have q: "step (b\<lparr>pData := d\<rparr>) = q"
    by (auto simp: ht1_def)
  have loop: "apply_loop step f s (Some a) ht = do {
       ht \<leftarrow> (if r AND ZEND_HASH_APPLY_REMOVE \<noteq> 0 then zend_hash_bucket_delete a ht1 else Some ht1);
       if r AND ZEND_HASH_APPLY_STOP \<noteq> 0 then Some (ht, s') else apply_loop step f s' q ht }"
    using g b q by (subst apply_loop.simps) (simp add: f bucket_abs_key ht_write_def ht1_def)
  show thesis
  proof (cases "r AND ZEND_HASH_APPLY_REMOVE = 0")
    case True
    have "entries ht1 [a] = [(bucket_key (the (heap ht a)), d)]"
      by (simp add: entries_def ht1_def b bucket_key_def)
    moreover have "dtor_log ht1 = log_dtor ht []" using w(6) by (simp add: log_dtor_def)
    ultimately show thesis using that [of ht1] loop True w by simp
  next
    case False
    from delete_step [OF w(1,2)] obtain b1 ht2 where d: "heap ht1 a = Some b1"
      "zend_hash_bucket_delete a ht1 = Some ht2" "hash_inv ht2 (us @ vs)" "clean_keys ht2"
      "entries ht2 us = entries ht1 us" "entries ht2 vs = entries ht1 vs"
      "dtor_log ht2 = log_dtor ht1 [pData b1]" "same_flags ht1 ht2" by metis
    have "pData b1 = d" using d(1) by (auto simp: ht1_def)
    then have "dtor_log ht2 = log_dtor ht [d]" using d(7) w(5,6) by (simp add: log_dtor_def same_flags_def)
    then show thesis using that [of ht2] loop False d w same_flags_trans [OF w(5) d(8)] by simp
  qed
qed

lemma apply_loop_forward:
  assumes "hash_inv ht (us @ ys)" and "clean_keys ht" and f: "f = (\<lambda>s d k. g s d (abs_key k))"
    and "apply_spec g s (entries ht ys) = (al, s', ds)"
  shows "\<exists>ht'. apply_loop pListNext f s (head_opt ys) ht = Some (ht', s') \<and> apply_post (entries ht us) al ds ht ht'"
  using assms(1,2,4)
proof (induction ys arbitrary: ht us s al s' ds)
  case Nil
  then show ?case by (auto simp: apply_loop.simps apply_post_def log_dtor_def)
next
  case (Cons a vs)
  let ?e = "(bucket_key (the (heap ht a)), pData (the (heap ht a)))"
  obtain s1 d r where g: "g s (snd ?e) (fst ?e) = (s1, d, r)" by (metis prod_cases3)
  let ?keep = "if r AND ZEND_HASH_APPLY_REMOVE \<noteq> 0 then [] else [a]"
  from apply_step [where g = g, OF Cons.prems(1,2) g [simplified] f, of pListNext "head_opt vs"] obtain ht1 where
    h: "apply_loop pListNext f s (Some a) ht =
       (if r AND ZEND_HASH_APPLY_STOP \<noteq> 0 then Some (ht1, s1) else apply_loop pListNext f s1 (head_opt vs) ht1)"
     "hash_inv ht1 ((us @ ?keep) @ vs)" "clean_keys ht1" "entries ht1 us = entries ht us"
     "entries ht1 vs = entries ht vs"
     "r AND ZEND_HASH_APPLY_REMOVE = 0 \<Longrightarrow> entries ht1 [a] = [(bucket_key (the (heap ht a)), d)]"
     "dtor_log ht1 = log_dtor ht (if r AND ZEND_HASH_APPLY_REMOVE \<noteq> 0 then [d] else [])" "same_flags ht ht1"
    by auto
  obtain al1 s2 ds1 where sp: "(if r AND ZEND_HASH_APPLY_STOP \<noteq> 0 then (entries ht vs, s1, [])
      else apply_spec g s1 (entries ht vs)) = (al1, s2, ds1)" by (metis prod_cases3)
  have res: "s' = s2" "al = (if r AND ZEND_HASH_APPLY_REMOVE \<noteq> 0 then [] else [(fst ?e, d)]) @ al1"
    "ds = (if r AND ZEND_HASH_APPLY_REMOVE \<noteq> 0 then [d] else []) @ ds1"
    using Cons.prems(3) g sp by (auto simp: entries_Cons split: if_splits)
  have "\<exists>ht'. apply_loop pListNext f s (Some a) ht = Some (ht', s2) \<and>
      apply_post (entries ht1 (us @ ?keep)) al1 ds1 ht1 ht'"
  proof (cases "r AND ZEND_HASH_APPLY_STOP = 0")
    case True
    with Cons.IH [OF h(2,3), of s1 al1 s2 ds1] sp h(1,5) show ?thesis by simp
  next
    case False
    with sp h(1,5) show ?thesis
      using h(2,3) by (auto simp: apply_post_def log_dtor_def entries_Cons intro!: exI [of _ "us @ ?keep @ vs"])
  qed
  moreover have "entries ht1 (us @ ?keep) @ al1 = entries ht us @ al"
    using h(4,6) res(2) by simp
  ultimately show ?case using res(1,3) h(7,8) log_dtor_trans [OF h(7,8), of ds1] same_flags_trans [OF h(8)]
    by (auto simp: apply_post_def)
qed


lemma apply_loop_reverse:
  assumes "hash_inv ht (ys @ us)" and "clean_keys ht" and f: "f = (\<lambda>s d k. g s d (abs_key k))"
    and "apply_spec g s (rev (entries ht ys)) = (al, s', ds)"
  shows "\<exists>ht'. apply_loop pListLast f s (last_opt ys) ht = Some (ht', s') \<and>
    apply_post (rev al) (entries ht us) ds ht ht'"
  using assms(1,2,4)
proof (induction ys arbitrary: ht us s al s' ds rule: rev_induct)
  case Nil
  then show ?case by (auto simp: apply_loop.simps apply_post_def log_dtor_def)
next
  case (snoc a vs)
  let ?e = "(bucket_key (the (heap ht a)), pData (the (heap ht a)))"
  obtain s1 d r where g: "g s (snd ?e) (fst ?e) = (s1, d, r)" by (metis prod_cases3)
  let ?keep = "if r AND ZEND_HASH_APPLY_REMOVE \<noteq> 0 then [] else [a]"
  have inv: "hash_inv ht (vs @ a # us)" using snoc.prems(1) by simp
  from apply_step [where g = g, OF inv snoc.prems(2) g [simplified] f, of pListLast "last_opt vs"] obtain ht1 where
    h: "apply_loop pListLast f s (Some a) ht =
       (if r AND ZEND_HASH_APPLY_STOP \<noteq> 0 then Some (ht1, s1) else apply_loop pListLast f s1 (last_opt vs) ht1)"
     "hash_inv ht1 (vs @ (?keep @ us))" "clean_keys ht1" "entries ht1 vs = entries ht vs"
     "entries ht1 us = entries ht us"
     "r AND ZEND_HASH_APPLY_REMOVE = 0 \<Longrightarrow> entries ht1 [a] = [(bucket_key (the (heap ht a)), d)]"
     "dtor_log ht1 = log_dtor ht (if r AND ZEND_HASH_APPLY_REMOVE \<noteq> 0 then [d] else [])" "same_flags ht ht1"
    by auto
  obtain al1 s2 ds1 where sp: "(if r AND ZEND_HASH_APPLY_STOP \<noteq> 0 then (rev (entries ht vs), s1, [])
      else apply_spec g s1 (rev (entries ht vs))) = (al1, s2, ds1)" by (metis prod_cases3)
  have res: "s' = s2" "al = (if r AND ZEND_HASH_APPLY_REMOVE \<noteq> 0 then [] else [(fst ?e, d)]) @ al1"
    "ds = (if r AND ZEND_HASH_APPLY_REMOVE \<noteq> 0 then [d] else []) @ ds1"
    using snoc.prems(3) g sp by (auto simp: entries_Cons split: if_splits)
  have "\<exists>ht'. apply_loop pListLast f s (Some a) ht = Some (ht', s2) \<and>
      apply_post (rev al1) (entries ht1 (?keep @ us)) ds1 ht1 ht'"
  proof (cases "r AND ZEND_HASH_APPLY_STOP = 0")
    case True
    with snoc.IH [OF h(2,3), of s1 al1 s2 ds1] sp h(1,4) show ?thesis by simp
  next
    case False
    with sp h(1,4) show ?thesis
      using h(2,3) by (auto simp: apply_post_def log_dtor_def entries_Cons intro!: exI [of _ "vs @ ?keep @ us"])
  qed
  moreover have "rev al1 @ entries ht1 (?keep @ us) = rev al @ entries ht us"
    using h(5,6) res(2) by simp
  ultimately show ?case using res(1,3) h(7,8) log_dtor_trans [OF h(7,8), of ds1] same_flags_trans [OF h(8)]
    by (auto simp: apply_post_def)
qed

subsection \<open>The recursion guard\<close>

definition apply_nested :: "'d HashTable \<Rightarrow> bool" where
  "apply_nested ht \<longleftrightarrow> bApplyProtection ht \<and> 3 \<le> nApplyCount ht"

lemma protect_ok:
  assumes "hash_inv ht xs" and "clean_keys ht" and "\<not> apply_nested ht"
  obtains ht1 where "HASH_PROTECT_RECURSION ht = Done ht1" and "hash_inv ht1 xs" and "clean_keys ht1"
    and "\<And>ys. entries ht1 ys = entries ht ys" and "\<And>ds. log_dtor ht1 ds = log_dtor ht ds"
    and "pListHead ht1 = pListHead ht" and "pListTail ht1 = pListTail ht"
    and "\<And>ht2. same_flags ht1 ht2 \<Longrightarrow> same_flags ht (HASH_UNPROTECT_RECURSION ht2)"
proof (rule that [of "if bApplyProtection ht then ht\<lparr>nApplyCount := nApplyCount ht + 1\<rparr> else ht"])
  show "HASH_PROTECT_RECURSION ht = Done (if bApplyProtection ht then ht\<lparr>nApplyCount := nApplyCount ht + 1\<rparr> else ht)"
    using assms(3) by (auto simp: HASH_PROTECT_RECURSION_def apply_nested_def)
qed (use assms(1,2) in \<open>auto simp: hash_inv_def table_ok_def clean_keys_def entries_def log_dtor_def
       same_flags_def HASH_UNPROTECT_RECURSION_def\<close>)

lemma unprotect_post:
  assumes "apply_post al1 al2 ds ht1 ht2" and "\<And>ds. log_dtor ht1 ds = log_dtor ht ds"
    and "\<And>ht2. same_flags ht1 ht2 \<Longrightarrow> same_flags ht (HASH_UNPROTECT_RECURSION ht2)"
  shows "hash_refines (HASH_UNPROTECT_RECURSION ht2) (al1 @ al2) \<and>
    dtor_log (HASH_UNPROTECT_RECURSION ht2) = log_dtor ht ds \<and> same_flags ht (HASH_UNPROTECT_RECURSION ht2)"
proof -
  let ?ht = "HASH_UNPROTECT_RECURSION ht2"
  obtain xs where xs: "hash_inv ht2 xs" "clean_keys ht2" "entries ht2 xs = al1 @ al2"
    using assms(1) by (auto simp: apply_post_def)
  have "hash_inv ?ht xs" "clean_keys ?ht" "entries ?ht xs = al1 @ al2"
    using xs by (auto simp: HASH_UNPROTECT_RECURSION_def hash_inv_def table_ok_def clean_keys_def entries_def)
  moreover have "dtor_log ?ht = log_dtor ht ds"
    using assms(1,2) by (simp add: HASH_UNPROTECT_RECURSION_def apply_post_def)
  moreover have "same_flags ht ?ht" using assms(1,3) by (simp add: apply_post_def)
  ultimately show ?thesis by (auto simp: hash_refines_def)
qed

definition apply_result ::
  "('s \<Rightarrow> 'd \<Rightarrow> hkey \<Rightarrow> 's \<times> 'd \<times> uint) \<Rightarrow> bool \<Rightarrow> 's \<Rightarrow> (hkey \<times> 'd) list \<Rightarrow> 'd HashTable \<Rightarrow>
   ('d HashTable \<times> 's) outcome \<Rightarrow> bool" where
  "apply_result g backwards s al ht out \<longleftrightarrow>
     (if apply_nested ht then out = Fatal
      else \<exists>ht' s' al' ds. out = Done (ht', s') \<and>
        apply_spec g s (if backwards then rev al else al) = (al', s', ds) \<and>
        hash_refines ht' (if backwards then rev al' else al') \<and>
        dtor_log ht' = log_dtor ht ds \<and> same_flags ht ht')"

lemma apply_with_arguments_ok:
  assumes "hash_refines ht al"
  shows "\<exists>out. zend_hash_apply_with_arguments (\<lambda>s d k. g s d (abs_key k)) s ht = Some out \<and>
    apply_result g False s al ht out"
proof (cases "apply_nested ht")
  case True
  then show ?thesis
    by (simp add: zend_hash_apply_with_arguments_def apply_result_def apply_nested_def HASH_PROTECT_RECURSION_def)
next
  case False
  obtain xs where xs: "hash_inv ht xs" "clean_keys ht" "entries ht xs = al"
    using assms by (rule hash_refinesE)
  from protect_ok [OF xs(1,2) False] obtain ht1 where p: "HASH_PROTECT_RECURSION ht = Done ht1"
    "hash_inv ht1 ([] @ xs)" "clean_keys ht1" "entries ht1 xs = al" "\<And>ds. log_dtor ht1 ds = log_dtor ht ds"
    "\<And>ht2. same_flags ht1 ht2 \<Longrightarrow> same_flags ht (HASH_UNPROTECT_RECURSION ht2)"
    using xs(3) by (metis append_Nil)
  obtain al' s' ds where sp: "apply_spec g s al = (al', s', ds)" by (metis prod_cases3)
  have hd: "pListHead ht1 = head_opt xs" using hash_invD(3) [OF p(2)] by (simp add: glist_def)
  from apply_loop_forward [OF p(2,3) refl, of g s al' s' ds] sp p(4) obtain ht2 where
    l: "apply_loop pListNext (\<lambda>s d k. g s d (abs_key k)) s (head_opt xs) ht1 = Some (ht2, s')"
       "apply_post [] al' ds ht1 ht2" by auto
  then show ?thesis using unprotect_post [OF l(2) p(5,6)] sp p(1) hd False
    by (auto simp: zend_hash_apply_with_arguments_def apply_result_def)
qed

lemma reverse_apply_ok:
  assumes "hash_refines ht al"
  shows "\<exists>out. zend_hash_reverse_apply f s ht = Some out \<and> apply_result (\<lambda>s d _. f s d) True s al ht out"
proof (cases "apply_nested ht")
  case True
  then show ?thesis
    by (simp add: zend_hash_reverse_apply_def apply_result_def apply_nested_def HASH_PROTECT_RECURSION_def)
next
  case False
  obtain xs where xs: "hash_inv ht xs" "clean_keys ht" "entries ht xs = al"
    using assms by (rule hash_refinesE)
  from protect_ok [OF xs(1,2) False] obtain ht1 where p: "HASH_PROTECT_RECURSION ht = Done ht1"
    "hash_inv ht1 (xs @ [])" "clean_keys ht1" "entries ht1 xs = al" "\<And>ds. log_dtor ht1 ds = log_dtor ht ds"
    "\<And>ht2. same_flags ht1 ht2 \<Longrightarrow> same_flags ht (HASH_UNPROTECT_RECURSION ht2)"
    using xs(3) by (metis append_Nil2)
  let ?g = "\<lambda>s d (_ :: hkey). f s d"
  obtain al' s' ds where sp: "apply_spec ?g s (rev al) = (al', s', ds)" by (metis prod_cases3)
  have tl: "pListTail ht1 = last_opt xs" using hash_invD(3) [OF p(2)] by (simp add: glist_def)
  from apply_loop_reverse [OF p(2,3) refl, of ?g s al' s' ds] sp p(4) obtain ht2 where
    l: "apply_loop pListLast (\<lambda>s d _. f s d) s (last_opt xs) ht1 = Some (ht2, s')"
       "apply_post (rev al') [] ds ht1 ht2" by auto
  then show ?thesis using unprotect_post [OF l(2) p(5,6)] sp p(1) tl False
    by (auto simp: zend_hash_reverse_apply_def apply_result_def)
qed


subsection \<open>Destruction\<close>

definition bucket_data :: "'d HashTable \<Rightarrow> addr list \<Rightarrow> 'd list" where
  "bucket_data ht ys = map (\<lambda>a. pData (the (heap ht a))) ys"

lemma bucket_data_entries: "bucket_data ht ys = map snd (entries ht ys)"
  by (simp add: bucket_data_def entries_def)

lemma destroy_loop_ok:
  assumes "linked (\<lambda>a. pListNext (the (heap ht a))) pv (us @ ys)" and "set ys \<subseteq> dom (heap ht)"
  shows "destroy_loop (head_opt ys) ht =
    Some (ht\<lparr>dtor_log := log_dtor ht (bucket_data ht ys), heap := heap ht |` (- set ys)\<rparr>)"
  using assms
proof (induction ys arbitrary: ht us pv)
  case Nil
  then show ?case by (simp add: destroy_loop.simps log_dtor_def bucket_data_def)
next
  case (Cons a ys)
  then obtain b where b: "heap ht a = Some b" by auto
  let ?ht = "ht\<lparr>dtor_log := log_dtor ht [pData b], heap := (heap ht)(a := None)\<rparr>"
  have n: "pListNext b = head_opt ys" using linked_split(1) [OF Cons.prems(1)] b by simp
  have a: "a \<notin> set ys" "distinct ys" "a \<notin> set us"
    using linked_distinct [OF Cons.prems(1)] by auto
  have "linked (\<lambda>x. pListNext (the (heap ?ht x))) (\<lambda>x. prev_in ys x) ([] @ ys)"
  proof (rule linkedI)
    fix x assume x: "x \<in> set ([] @ ys)"
    then have "pListNext (the (heap ht x)) = next_in (us @ a # ys) x" "x \<notin> set us" "x \<noteq> a"
      using Cons.prems(1) a by (auto simp: linked_def)
    then show "pListNext (the (heap ?ht x)) = next_in ([] @ ys) x" by (simp add: next_in_append_right)
  qed (use a in simp_all)
  moreover have "set ys \<subseteq> dom (heap ?ht)" using Cons.prems(2) a(1) by auto
  ultimately have "destroy_loop (head_opt ys) ?ht =
     Some (?ht\<lparr>dtor_log := log_dtor ?ht (bucket_data ?ht ys), heap := heap ?ht |` (- set ys)\<rparr>)"
    by (rule Cons.IH)
  moreover have "heap ?ht |` (- set ys) = heap ht |` (- set (a # ys))"
    by (rule ext) (simp add: restrict_map_def)
  moreover have "log_dtor ?ht (bucket_data ?ht ys) = log_dtor ht (bucket_data ht (a # ys))"
    using a(1) b by (auto simp: log_dtor_def bucket_data_def)
  ultimately show ?case using b n
    by (subst destroy_loop.simps) (simp add: call_pDestructor_eq pefree_bucket_def)
qed

lemma destroy_all:
  assumes "hash_inv ht xs" and "heap ht1 = heap ht" and "pDestructor ht1 = pDestructor ht" and "dtor_log ht1 = dtor_log ht"
  shows "destroy_loop (pListHead ht) ht1 =
    Some (ht1\<lparr>dtor_log := log_dtor ht (map snd (entries ht xs)), heap := Map.empty\<rparr>)"
proof -
  have l: "linked (\<lambda>a. pListNext (the (heap ht1 a))) (\<lambda>a. pListLast (the (heap ht1 a))) ([] @ xs)"
    and p: "pListHead ht = head_opt xs"
    using hash_invD(3) [OF assms(1)] assms(2) by (simp_all add: glist_def)
  have "heap ht1 |` (- set xs) = Map.empty"
    using hash_invD(5) [OF assms(1)] assms(2) by (auto simp: restrict_map_def fun_eq_iff)
  with destroy_loop_ok [OF l] hash_invD(5) [OF assms(1)] show ?thesis
    using assms(2-4) by (simp add: p log_dtor_def bucket_data_def entries_def comp_def)
qed

lemma empty_slots:
  assumes "hash_inv ht []" and "nTableMask ht = 0"
  shows "arBuckets ht = [None]"
proof -
  obtain cs where ch: "chains (heap ht) (arBuckets ht) (nTableMask ht) {} cs"
    using hash_invD(4) [OF assms(1)] by auto
  have len: "length (arBuckets ht) = 1" using hash_invD(1) [OF assms(1)] assms(2) by (simp add: table_ok_def)
  have "cs 0 = []" using chainsD(3) [OF ch, of 0] len by simp
  then have "arBuckets ht ! 0 = None" using chainsD(1) [OF ch, of 0] len by simp
  with len show ?thesis by (cases "arBuckets ht") auto
qed

lemma table_ok_size: "table_ok ht \<Longrightarrow> nTableMask ht \<noteq> 0 \<Longrightarrow> Suc (unat (nTableMask ht)) = unat (nTableSize ht)"
  by (auto simp: table_ok_def unat_minus_one two_power_less)

lemma empty_inv:
  assumes "table_ok ht" and "arBuckets ht = replicate (Suc (unat (nTableMask ht))) None" and "heap ht = Map.empty"
    and "pListHead ht = None" and "pListTail ht = None" and "nNumOfElements ht = 0"
    and "pInternalPointer ht = None" and "nNextFreeElement ht = 0"
  shows "hash_refines ht []"
proof -
  have "chains (heap ht) (arBuckets ht) (nTableMask ht) {} (\<lambda>_. [])"
    unfolding assms(2) by (rule chains_empty)
  with assms have "hash_inv ht []" by (auto simp: hash_inv_def glist_def next_free_ok_def)
  moreover have "clean_keys ht" using assms(3) by (simp add: clean_keys_def)
  ultimately show ?thesis by (auto simp: hash_refines_def)
qed

lemma clean_ok:
  assumes inv: "hash_inv ht xs"
  shows "\<exists>ht'. zend_hash_clean ht = Some ht' \<and> hash_refines ht' [] \<and>
    dtor_log ht' = log_dtor ht (map snd (entries ht xs)) \<and> nNextFreeElement ht' = 0 \<and> nTableSize ht' = nTableSize ht"
proof -
  define ht0 where "ht0 = (if nTableMask ht \<noteq> 0
    then ht\<lparr>arBuckets := replicate (unat (nTableSize ht)) None\<rparr> else ht)
    \<lparr>nNumOfElements := 0, nNextFreeElement := 0, pInternalPointer := None, pListHead := None, pListTail := None\<rparr>"
  define ht1 where "ht1 = ht0\<lparr>dtor_log := log_dtor ht (map snd (entries ht xs)), heap := Map.empty\<rparr>"
  have "zend_hash_clean ht = Some ht1"
    using destroy_all [OF inv, of ht0]
    by (simp add: zend_hash_clean_def ht1_def Let_def ht0_def [symmetric]) (simp add: ht0_def)
  moreover have ar: "arBuckets ht1 = replicate (Suc (unat (nTableMask ht))) None"
  proof (cases "nTableMask ht = 0")
    case True
    with hash_invD(2) [OF inv] inv have "hash_inv ht []" by simp
    from empty_slots [OF this True] show ?thesis using True by (simp add: ht1_def ht0_def)
  next
    case False
    with table_ok_size [OF hash_invD(1) [OF inv]] show ?thesis by (simp add: ht1_def ht0_def)
  qed
  moreover have "nTableSize ht1 = nTableSize ht" "nTableMask ht1 = nTableMask ht" by (simp_all add: ht1_def ht0_def)
  moreover from this have "table_ok ht1" using hash_invD(1) [OF inv] ar by (simp add: table_ok_def)
  ultimately show ?thesis using empty_inv [of ht1] by (auto simp: ht1_def ht0_def)
qed

lemma graceful_loop_ok:
  assumes "hash_inv ht xs" and "clean_keys ht"
  shows "\<exists>ht'. graceful_loop pListHead ht = Some ht' \<and> hash_inv ht' [] \<and>
      dtor_log ht' = log_dtor ht (map snd (entries ht xs)) \<and> nTableMask ht' = nTableMask ht"
    and "\<exists>ht'. graceful_loop pListTail ht = Some ht' \<and> hash_inv ht' [] \<and>
      dtor_log ht' = log_dtor ht (map snd (rev (entries ht xs))) \<and> nTableMask ht' = nTableMask ht"
proof -
  show "\<exists>ht'. graceful_loop pListHead ht = Some ht' \<and> hash_inv ht' [] \<and>
      dtor_log ht' = log_dtor ht (map snd (entries ht xs)) \<and> nTableMask ht' = nTableMask ht"
    using assms
  proof (induction xs arbitrary: ht)
    case Nil
    then have "pListHead ht = None" using hash_invD(3) [OF Nil(1)] by (simp add: glist_def)
    with Nil show ?case by (simp add: graceful_loop.simps log_dtor_def)
  next
    case (Cons a vs)
    have p: "pListHead ht = Some a" using hash_invD(3) [OF Cons.prems(1)] by (simp add: glist_def)
    from Cons.prems(1) have "hash_inv ht ([] @ a # vs)" by simp
    from delete_step [OF this Cons.prems(2)] obtain b ht1 where d: "heap ht a = Some b"
      "zend_hash_bucket_delete a ht = Some ht1" "hash_inv ht1 vs" "clean_keys ht1"
      "entries ht1 vs = entries ht vs" "dtor_log ht1 = log_dtor ht [pData b]" "same_flags ht ht1"
      "nTableMask ht1 = nTableMask ht" by (metis append_Nil)
    from Cons.IH [OF d(3,4)] d p log_dtor_trans [OF d(6,7)] show ?case
      by (subst graceful_loop.simps) (auto simp: entries_Cons)
  qed
  show "\<exists>ht'. graceful_loop pListTail ht = Some ht' \<and> hash_inv ht' [] \<and>
      dtor_log ht' = log_dtor ht (map snd (rev (entries ht xs))) \<and> nTableMask ht' = nTableMask ht"
    using assms
  proof (induction xs arbitrary: ht rule: rev_induct)
    case Nil
    then have "pListTail ht = None" using hash_invD(3) [OF Nil(1)] by (simp add: glist_def)
    with Nil show ?case by (simp add: graceful_loop.simps log_dtor_def)
  next
    case (snoc a us)
    have p: "pListTail ht = Some a" using hash_invD(3) [OF snoc.prems(1)] by (simp add: glist_def)
    from delete_step [OF snoc.prems] obtain b ht1 where d: "heap ht a = Some b"
      "zend_hash_bucket_delete a ht = Some ht1" "hash_inv ht1 us" "clean_keys ht1"
      "entries ht1 us = entries ht us" "dtor_log ht1 = log_dtor ht [pData b]" "same_flags ht ht1"
      "nTableMask ht1 = nTableMask ht" by (metis append_Nil2)
    from snoc.IH [OF d(3,4)] d p log_dtor_trans [OF d(6,7)] show ?case
      by (subst graceful_loop.simps) (auto simp: entries_Cons)
  qed
qed

subsection \<open>Positions\<close>

lemma glist_neighbours:
  assumes "hash_inv ht xs" and "i < length xs"
  shows "pListNext (the (heap ht (xs ! i))) = (if Suc i < length xs then Some (xs ! Suc i) else None)"
    and "pListLast (the (heap ht (xs ! i))) = (if i = 0 then None else Some (xs ! (i - 1)))"
proof -
  have "xs = take i xs @ xs ! i # drop (Suc i) xs" using assms(2) by (rule id_take_nth_drop)
  then have l: "linked (\<lambda>a. pListNext (the (heap ht a))) (\<lambda>a. pListLast (the (heap ht a))) (take i xs @ xs ! i # drop (Suc i) xs)"
    using hash_invD(3) [OF assms(1)] by (simp add: glist_def)
  show "pListNext (the (heap ht (xs ! i))) = (if Suc i < length xs then Some (xs ! Suc i) else None)"
    using linked_split(1) [OF l] by (cases "Suc i < length xs") (simp_all add: Cons_nth_drop_Suc [symmetric])
  show "pListLast (the (heap ht (xs ! i))) = (if i = 0 then None else Some (xs ! (i - 1)))"
    using linked_split(2) [OF l] assms(2) by (auto simp: last_opt_def last_conv_nth min_def)
qed

text \<open>The walks of the callers: reset (or end) and \<open>n\<close> moves, on a position of their own.\<close>

primrec walk :: "('d HashTable \<Rightarrow> pos_arg \<Rightarrow> (('d HashTable \<times> pos_arg) \<times> status) option) \<Rightarrow> nat \<Rightarrow>
    'd HashTable \<times> pos_arg \<Rightarrow> ('d HashTable \<times> pos_arg) option" where
  "walk move 0 st = Some st"
| "walk move (Suc n) st = do { st \<leftarrow> walk move n st; (st, _) \<leftarrow> move (fst st) (snd st); Some st }"

lemma current_set_current [simp]: "current (fst (set_current q ht pos)) (snd (set_current q ht pos)) = q"
  by (auto simp: current_def set_current_def split: option.splits)

lemma set_current_twice [simp]:
  "set_current q2 (fst (set_current q ht pos)) (snd (set_current q ht pos)) = set_current q2 ht pos"
  by (auto simp: set_current_def split: option.splits)

lemma heap_set_current [simp]: "heap (fst (set_current q ht pos)) = heap ht"
  by (auto simp: set_current_def split: option.splits)

lemma set_current_inv:
  assumes "hash_inv ht xs" and "\<And>a. q = Some a \<Longrightarrow> a \<in> set xs"
  shows "hash_inv (fst (set_current q ht pos)) xs"
  using assms by (auto simp: set_current_def hash_inv_def table_ok_def entries_def split: option.splits)

lemma walk_forward:
  assumes "hash_inv ht xs" and "n \<le> length xs"
  shows "walk zend_hash_move_forward_ex n (zend_hash_internal_pointer_reset_ex ht pos) =
    Some (set_current (if n < length xs then Some (xs ! n) else None) ht pos)"
  using assms(2)
proof (induction n)
  case 0
  then show ?case using hash_invD(3) [OF assms(1)]
    by (cases xs) (simp_all add: zend_hash_internal_pointer_reset_ex_def glist_def)
next
  case (Suc n)
  then have "n < length xs" by simp
  moreover have "xs ! n \<in> dom (heap ht)" using hash_invD(5) [OF assms(1)] \<open>n < length xs\<close> by simp
  ultimately show ?case using Suc glist_neighbours(1) [OF assms(1), of n]
    by (auto simp: zend_hash_move_forward_ex_def)
qed

lemma walk_backwards:
  assumes "hash_inv ht xs" and "n \<le> length xs"
  shows "walk zend_hash_move_backwards_ex n (zend_hash_internal_pointer_end_ex ht pos) =
    Some (set_current (if n < length xs then Some (rev xs ! n) else None) ht pos)"
  using assms(2)
proof (induction n)
  case 0
  then show ?case using hash_invD(3) [OF assms(1)]
    by (cases xs rule: rev_cases) (simp_all add: zend_hash_internal_pointer_end_ex_def glist_def)
next
  case (Suc n)
  then have n: "n < length xs" by simp
  let ?i = "length xs - Suc n"
  have "xs ! ?i \<in> dom (heap ht)" using hash_invD(5) [OF assms(1)] n by simp
  moreover have "pListLast (the (heap ht (xs ! ?i))) = (if Suc n < length xs then Some (rev xs ! Suc n) else None)"
    using glist_neighbours(2) [OF assms(1), of ?i] n by (auto simp: rev_nth)
  ultimately show ?case using Suc n
    by (auto simp: zend_hash_move_backwards_ex_def rev_nth)
qed

text \<open>The key and the value a position shows.\<close>

definition shows_entry :: "'d HashTable \<Rightarrow> pos_arg \<Rightarrow> (hkey \<times> 'd) option \<Rightarrow> bool" where
  "shows_entry ht pos e \<longleftrightarrow> zend_hash_get_current_data_ex ht pos = Some (map_option snd e) \<and>
     (case e of
        None \<Rightarrow> (\<forall>dup. zend_hash_get_current_key_ex dup ht pos = Some HASH_KEY_NON_EXISTENT) \<and>
          zend_hash_get_current_key_type_ex ht pos = Some TY_NON_EXISTENT \<and>
          zend_hash_get_current_key_zval_ex ht pos = Some ZNull
      | Some (KInt h, d) \<Rightarrow> (\<forall>dup. zend_hash_get_current_key_ex dup ht pos = Some (HASH_KEY_IS_LONG h)) \<and>
          zend_hash_get_current_key_type_ex ht pos = Some TY_LONG \<and>
          zend_hash_get_current_key_zval_ex ht pos = Some (ZLong h)
      | Some (KStr bs, d) \<Rightarrow>
          zend_hash_get_current_key_ex False ht pos = Some (HASH_KEY_IS_STRING bs (of_nat (length bs))) \<and>
          zend_hash_get_current_key_ex True ht pos = Some (HASH_KEY_IS_STRING (butlast bs @ [0]) (of_nat (length bs))) \<and>
          zend_hash_get_current_key_type_ex ht pos = Some TY_STRING \<and>
          (\<exists>s. zend_hash_get_current_key_zval_ex ht pos = Some (ZString s (of_nat (length bs) - 1)) \<and>
             butlast s = butlast bs))"

lemma shows_entry_at:
  assumes "hash_inv ht xs" and "a \<in> set xs" and "current ht pos = Some a"
  shows "shows_entry ht pos (Some (bucket_key (the (heap ht a)), pData (the (heap ht a))))"
proof -
  obtain b where b: "heap ht a = Some b" using hash_invD(5) [OF assms(1)] assms(2) by blast
  have wf: "bucket_wf a b" using hash_invD(9) [OF assms(1,2)] b by simp
  show ?thesis
  proof (cases "nKeyLength b = 0")
    case True
    then show ?thesis using b assms(3)
      by (simp add: shows_entry_def bucket_key_def zend_hash_get_current_data_ex_def
          zend_hash_get_current_key_ex_def zend_hash_get_current_key_type_ex_def zend_hash_get_current_key_zval_ex_def)
  next
    case False
    with wf obtain loc bs where bs: "arKey b = CStr loc bs" "length bs = unat (nKeyLength b)"
      by (auto simp: bucket_wf_def)
    have l: "unat (nKeyLength b - 1) = length bs - 1" using False bs(2) by (simp add: unat_minus_one)
    have "(of_nat (length bs) :: uint) = nKeyLength b" by (simp add: bs(2))
    then show ?thesis using b False bs l assms(3)
      by (auto simp: shows_entry_def bucket_key_def zend_hash_get_current_data_ex_def
          zend_hash_get_current_key_ex_def zend_hash_get_current_key_type_ex_def
          zend_hash_get_current_key_zval_ex_def estrndup_def butlast_conv_take)
  qed
qed

lemma shows_entry_None: "current ht pos = None \<Longrightarrow> shows_entry ht pos None"
  by (simp add: shows_entry_def zend_hash_get_current_data_ex_def
      zend_hash_get_current_key_ex_def zend_hash_get_current_key_type_ex_def zend_hash_get_current_key_zval_ex_def)

lemma set_current_shows:
  assumes "hash_inv ht xs" and "clean_keys ht"
    and "q = (if n < length xs then Some (ys ! n) else None)" and "length ys = length xs" and "set ys = set xs"
  shows "shows_entry (fst (set_current q ht pos)) (snd (set_current q ht pos))
      (if n < length xs then Some (entries ht ys ! n) else None)"
    and "hash_refines (fst (set_current q ht pos)) (entries ht xs)"
proof -
  let ?ht = "fst (set_current q ht pos)"
  have i: "hash_inv ?ht xs"
    by (rule set_current_inv [OF assms(1)]) (use assms(3-5) in \<open>metis nth_mem option.distinct(1) option.inject\<close>)
  show "shows_entry (fst (set_current q ht pos)) (snd (set_current q ht pos))
      (if n < length xs then Some (entries ht ys ! n) else None)"
  proof (cases "n < length xs")
    case True
    then have "ys ! n \<in> set xs" using assms(4,5) by (metis nth_mem)
    from shows_entry_at [OF i this, of "snd (set_current q ht pos)"] show ?thesis
      using True assms(3,4) by (simp add: entries_def)
  next
    case False
    then show ?thesis using assms(3) by (simp add: shows_entry_None)
  qed
  have "clean_keys ?ht" using assms(2) by (simp add: clean_keys_def)
  moreover have "entries ?ht xs = entries ht xs" by (simp add: entries_def)
  ultimately show "hash_refines ?ht (entries ht xs)" using i by (auto simp: hash_refines_def)
qed

lemma chain_member_ok:
  assumes "linked (\<lambda>a. pNext (the (heap ht a))) pv (us @ ys)" and "set ys \<subseteq> dom (heap ht)"
  shows "chain_member ht x (head_opt ys) = Some (x \<in> set ys)"
  using assms
proof (induction ys arbitrary: us)
  case Nil
  then show ?case by (simp add: chain_member.simps)
next
  case (Cons y ys)
  then obtain b where b: "heap ht y = Some b" by auto
  with linked_split(1) [OF Cons.prems(1)] have "pNext b = head_opt ys" by simp
  with b Cons.IH [of "us @ [y]"] Cons.prems show ?case by (subst chain_member.simps) auto
qed

lemma chain_member_slot:
  assumes "hash_inv ht xs"
  shows "chain_member ht a (arBuckets ht ! hash_index ht h) =
    Some (a \<in> set xs \<and> hash_index ht (b_h (the (heap ht a))) = hash_index ht h)"
proof -
  obtain cs where ch: "chains (heap ht) (arBuckets ht) (nTableMask ht) (set xs) cs"
    using hash_invD(4) [OF assms] by blast
  note ci = chainsD [OF ch hash_index_lt [OF hash_invD(1) [OF assms], of h]]
  have "chain_member ht a (head_opt (cs (hash_index ht h))) = Some (a \<in> set (cs (hash_index ht h)))"
    by (rule chain_member_ok [where us = "[]"]) (use ci hash_invD(5) [OF assms] in auto)
  then show ?thesis using ci(1,3) by (simp add: hash_index_def)
qed


subsection \<open>Properties\<close>

text \<open>
  C5: the four apply functions visit the elements in list order (\<open>zend_hash_reverse_apply\<close> in
  reverse), destroy exactly the elements whose callback asked for it, stop where the callback
  says so, leave the invariant and \<open>nApplyCount\<close> as they were, and raise the fatal error of the
  nesting guard exactly when protection is on and three walks are already active.
\<close>

theorem hash_apply_refines:
  assumes "hash_refines ht al"
  shows "(\<exists>out. zend_hash_apply_with_arguments (\<lambda>s d k. g s d (abs_key k)) s ht = Some out \<and>
      apply_result g False s al ht out) \<and>
    (\<exists>out. zend_hash_apply f s ht = Some out \<and> apply_result (\<lambda>s d _. f s d) False s al ht out) \<and>
    (\<exists>out. zend_hash_apply_with_argument fa arg s ht = Some out \<and>
      apply_result (\<lambda>s d _. fa s d arg) False s al ht out) \<and>
    (\<exists>out. zend_hash_reverse_apply f s ht = Some out \<and> apply_result (\<lambda>s d _. f s d) True s al ht out)"
  using apply_with_arguments_ok [OF assms, of g s] apply_with_arguments_ok [OF assms, of "\<lambda>s d _. f s d" s]
    apply_with_arguments_ok [OF assms, of "\<lambda>s d _. fa s d arg" s] reverse_apply_ok [OF assms, of f s]
  by (simp add: zend_hash_apply_def zend_hash_apply_with_argument_def zend_hash_apply_with_arguments_def)

theorem hash_apply_refines_witness:
  "\<exists>out. zend_hash_apply (\<lambda>s d. (s + d, d, ZEND_HASH_APPLY_REMOVE)) 0 sample_table = Some out \<and>
    apply_result (\<lambda>s d _. (s + d, d, ZEND_HASH_APPLY_REMOVE)) False 0 sample_entries sample_table out"
  by (rule conjunct1 [OF conjunct2 [OF hash_apply_refines [OF sample_refines]]])

text \<open>
  the four ways to empty a table call the destructor exactly once per element and free
  every bucket: \<open>zend_hash_destroy\<close>, \<open>zend_hash_clean\<close> and \<open>zend_hash_graceful_destroy\<close> in
  insertion order, \<open>zend_hash_graceful_reverse_destroy\<close> in reverse; after \<open>zend_hash_clean\<close> the
  table is an empty table again.
\<close>

theorem hash_destroy_refines:
  assumes "hash_refines ht al"
  shows "(\<exists>ht'. zend_hash_destroy ht = Some ht' \<and> heap ht' = Map.empty \<and> dtor_log ht' = log_dtor ht (map snd al)) \<and>
    (\<exists>ht'. zend_hash_clean ht = Some ht' \<and> hash_refines ht' [] \<and> dtor_log ht' = log_dtor ht (map snd al) \<and>
       nNextFreeElement ht' = 0 \<and> nTableSize ht' = nTableSize ht) \<and>
    (\<exists>ht'. zend_hash_graceful_destroy ht = Some ht' \<and> heap ht' = Map.empty \<and> dtor_log ht' = log_dtor ht (map snd al)) \<and>
    (\<exists>ht'. zend_hash_graceful_reverse_destroy ht = Some ht' \<and> heap ht' = Map.empty \<and>
       dtor_log ht' = log_dtor ht (map snd (rev al)))"
proof (intro conjI)
  obtain xs where xs: "hash_inv ht xs" "clean_keys ht" "entries ht xs = al"
    using assms by (rule hash_refinesE)
  show "\<exists>ht'. zend_hash_destroy ht = Some ht' \<and> heap ht' = Map.empty \<and> dtor_log ht' = log_dtor ht (map snd al)"
    using destroy_all [OF xs(1), of ht] xs(3) by (auto simp: zend_hash_destroy_def)
  show "\<exists>ht'. zend_hash_clean ht = Some ht' \<and> hash_refines ht' [] \<and>
      dtor_log ht' = log_dtor ht (map snd al) \<and> nNextFreeElement ht' = 0 \<and> nTableSize ht' = nTableSize ht"
    using clean_ok [OF xs(1)] xs(3) by simp
  show "\<exists>ht'. zend_hash_graceful_destroy ht = Some ht' \<and> heap ht' = Map.empty \<and> dtor_log ht' = log_dtor ht (map snd al)"
    using graceful_loop_ok(1) [OF xs(1,2)] xs(3)
    by (auto simp: zend_hash_graceful_destroy_def dest: hash_invD(5))
  show "\<exists>ht'. zend_hash_graceful_reverse_destroy ht = Some ht' \<and> heap ht' = Map.empty \<and>
       dtor_log ht' = log_dtor ht (map snd (rev al))"
    using graceful_loop_ok(2) [OF xs(1,2)] xs(3)
    by (auto simp: zend_hash_graceful_reverse_destroy_def dest: hash_invD(5))
qed

theorem hash_destroy_refines_witness:
  "\<exists>ht'. zend_hash_destroy sample_table = Some ht' \<and> heap ht' = Map.empty"
  using hash_destroy_refines [OF sample_refines] by blast

text \<open>
  a walk over a table with \<open>zend_hash_internal_pointer_reset_ex\<close> and
  \<open>zend_hash_move_forward_ex\<close> shows after \<open>n\<close> moves the key and the value of the \<open>n\<close>-th entry
  in insertion order, and past the last one no entry; \<open>zend_hash_internal_pointer_end_ex\<close> and
  \<open>zend_hash_move_backwards_ex\<close> show them in reverse.
\<close>

theorem hash_walk_order:
  assumes "hash_refines ht al" and "n \<le> length al"
  shows "(\<exists>st. walk zend_hash_move_forward_ex n (zend_hash_internal_pointer_reset_ex ht pos) = Some st \<and>
      shows_entry (fst st) (snd st) (if n < length al then Some (al ! n) else None) \<and> hash_refines (fst st) al) \<and>
    (\<exists>st. walk zend_hash_move_backwards_ex n (zend_hash_internal_pointer_end_ex ht pos) = Some st \<and>
      shows_entry (fst st) (snd st) (if n < length al then Some (rev al ! n) else None) \<and> hash_refines (fst st) al)"
proof -
  obtain xs where xs: "hash_inv ht xs" "clean_keys ht" "entries ht xs = al" "length al = length xs"
    using assms(1) by (rule hash_refinesE)
  have r: "entries ht (rev xs) = rev al" using xs(3) by (simp add: entries_def rev_map [symmetric])
  show ?thesis
    using walk_forward [OF xs(1), of n pos] set_current_shows [OF xs(1,2) refl, of xs n pos]
      walk_backwards [OF xs(1), of n pos] set_current_shows [OF xs(1,2) refl, of "rev xs" n pos] assms(2) xs(3,4) r
    by (cases "n < length xs") simp_all
qed

theorem hash_walk_order_witness:
  "\<exists>st. walk zend_hash_move_forward_ex 1 (zend_hash_internal_pointer_reset_ex sample_table None) = Some st \<and>
      shows_entry (fst st) (snd st) (Some (KStr [97, 0], 2)) \<and> hash_refines (fst st) sample_entries"
  using hash_walk_order [OF sample_refines, of 1 None] by (simp add: sample_entries_def)

text \<open>
  \<open>zend_hash_set_pointer\<close> moves the internal pointer to a position that
  \<open>zend_hash_get_pointer\<close> saved whenever the saved bucket is still in the table, whatever was
  inserted or removed in between, and otherwise reports failure and changes nothing.
\<close>

theorem hash_pointer_restore:
  assumes "hash_inv ht xs" and "pInternalPointer ht = Some a" and "hash_inv ht2 ys"
    and "a \<in> set ys \<Longrightarrow> b_h (the (heap ht2 a)) = b_h (the (heap ht a))"
  shows "\<exists>hp. zend_hash_get_pointer ht = Some (hp, True) \<and>
    zend_hash_set_pointer hp ht2 =
      Some (if a \<in> set ys then (ht2\<lparr>pInternalPointer := Some a\<rparr>, True) else (ht2, False))"
proof -
  obtain b where b: "heap ht a = Some b" using hash_invD(5,8) [OF assms(1)] assms(2) by blast
  have "pInternalPointer ht2 = Some a \<Longrightarrow> a \<in> set ys" by (rule hash_invD(8) [OF assms(3)])
  moreover have "ht2\<lparr>pInternalPointer := Some a\<rparr> = ht2" if "pInternalPointer ht2 = Some a"
    by (simp add: that [symmetric])
  ultimately show ?thesis using b assms(2,4) chain_member_slot [OF assms(3), of a "b_h b"]
    by (auto simp: zend_hash_get_pointer_def zend_hash_set_pointer_def
        slot_read_ok [OF hash_invD(1) [OF assms(3)]])
qed

theorem hash_pointer_restore_witness:
  "\<exists>a hp. zend_hash_get_pointer (fst (zend_hash_internal_pointer_reset_ex sample_table None)) = Some (hp, True) \<and>
    zend_hash_set_pointer hp sample_table = Some (sample_table\<lparr>pInternalPointer := Some a\<rparr>, True)"
proof -
  obtain xs where xs: "hash_inv sample_table xs" "length sample_entries = length xs"
    using sample_refines by (rule hash_refinesE)
  then obtain a where a: "head_opt xs = Some a" "a \<in> set xs" by (cases xs) (auto simp: sample_entries_def)
  let ?ht = "fst (zend_hash_internal_pointer_reset_ex sample_table None)"
  have p: "pListHead sample_table = Some a" using hash_invD(3) [OF xs(1)] a(1) by (simp add: glist_def)
  have "hash_inv ?ht xs" unfolding zend_hash_internal_pointer_reset_ex_def
    by (rule set_current_inv [OF xs(1)]) (use a p in simp)
  moreover have "pInternalPointer ?ht = Some a"
    using p by (simp add: zend_hash_internal_pointer_reset_ex_def set_current_def)
  moreover have "heap ?ht = heap sample_table" by (simp add: zend_hash_internal_pointer_reset_ex_def)
  ultimately show ?thesis using hash_pointer_restore [of ?ht xs a sample_table xs] xs(1) a(2) by auto
qed

end
