(* ===== verification/Zend_Sort.thy ===== *)
theory Zend_Sort
  imports Php_Prelude
begin

text \<open>
  The model of \<open>Zend/zend_qsort.c\<close>: a quicksort that keeps the segments still to be sorted on an
  explicit stack of \<open>QSORT_STACK_SIZE\<close> entries, always going on with the smaller part.  Positions
  are element indices (the pointers of the source are \<open>base + i * siz\<close>, and \<open>end\<close> may be one
  element below the base); every access is checked, so a result other than \<open>None\<close> means that the
  run ended and stayed within the array and within the stack.
\<close>

subsection \<open>The exchange of two elements\<close>

text \<open>
  \<open>_zend_qsort_swap\<close> on byte-addressed memory: first whole \<open>int\<close>s, then the remaining bytes.
\<close>

definition sizeof_int :: nat where "sizeof_int = 4"

definition swap_unit :: "nat \<Rightarrow> nat \<Rightarrow> nat \<Rightarrow> (nat \<Rightarrow> byte) \<Rightarrow> nat \<Rightarrow> byte" where
  "swap_unit w a b mem =
     (let t = (\<lambda>i. mem (a + i));
          mem1 = (\<lambda>x. if a \<le> x \<and> x < a + w then mem (b + (x - a)) else mem x)
      in (\<lambda>x. if b \<le> x \<and> x < b + w then t (x - b) else mem1 x))"

function swap_ints :: "nat \<Rightarrow> nat \<Rightarrow> nat \<Rightarrow> nat \<Rightarrow> (nat \<Rightarrow> byte) \<Rightarrow> nat \<times> nat \<times> nat \<times> (nat \<Rightarrow> byte)" where
  "swap_ints siz i a b mem =
     (if i \<le> siz then swap_ints siz (i + sizeof_int) (a + sizeof_int) (b + sizeof_int) (swap_unit sizeof_int a b mem)
      else (i, a, b, mem))"
  by pat_completeness auto
termination by (relation "measure (\<lambda>(siz, i, _). Suc siz - i)") (auto simp: sizeof_int_def)

function swap_chars :: "nat \<Rightarrow> nat \<Rightarrow> nat \<Rightarrow> nat \<Rightarrow> (nat \<Rightarrow> byte) \<Rightarrow> nat \<Rightarrow> byte" where
  "swap_chars siz i a b mem =
     (if i \<le> siz then swap_chars siz (i + 1) (a + 1) (b + 1) (swap_unit 1 a b mem) else mem)"
  by pat_completeness auto
termination by (relation "measure (\<lambda>(siz, i, _). Suc siz - i)") auto

declare swap_ints.simps [simp del] swap_chars.simps [simp del]

definition zend_qsort_swap :: "nat \<Rightarrow> nat \<Rightarrow> nat \<Rightarrow> (nat \<Rightarrow> byte) \<Rightarrow> nat \<Rightarrow> byte" where
  "zend_qsort_swap a b siz mem =
     (let (i, a, b, mem) = swap_ints siz sizeof_int a b mem
      in swap_chars siz (i - sizeof_int + 1) a b mem)"

subsection \<open>The sort\<close>

definition QSORT_STACK_SIZE :: nat where "QSORT_STACK_SIZE = 32"

definition rd :: "'a list \<Rightarrow> int \<Rightarrow> 'a option" where
  "rd arr i = (if 0 \<le> i \<and> nat i < length arr then Some (arr ! nat i) else None)"

definition wr :: "'a list \<Rightarrow> int \<Rightarrow> 'a \<Rightarrow> 'a list option" where
  "wr arr i x = (if 0 \<le> i \<and> nat i < length arr then Some (arr[nat i := x]) else None)"

definition swap_elems :: "'a list \<Rightarrow> int \<Rightarrow> int \<Rightarrow> 'a list option" where
  "swap_elems arr i j = do { x \<leftarrow> rd arr i; y \<leftarrow> rd arr j; arr \<leftarrow> wr arr i y; wr arr j x }"

partial_function (option) scan_up :: "('a \<Rightarrow> 'a \<Rightarrow> int) \<Rightarrow> 'a list \<Rightarrow> int \<Rightarrow> int \<Rightarrow> int \<Rightarrow> int option" where [code]:
  "scan_up cmp arr begin seg2 seg1 =
     (if seg1 < seg2 then do {
        x \<leftarrow> rd arr begin;
        y \<leftarrow> rd arr seg1;
        if 0 < cmp x y then scan_up cmp arr begin seg2 (seg1 + 1) else Some seg1
      }
      else Some seg1)"

partial_function (option) scan_down :: "('a \<Rightarrow> 'a \<Rightarrow> int) \<Rightarrow> 'a list \<Rightarrow> int \<Rightarrow> int \<Rightarrow> int \<Rightarrow> int option" where [code]:
  "scan_down cmp arr begin seg1 seg2 =
     (if seg1 \<le> seg2 then do {
        y \<leftarrow> rd arr seg2;
        x \<leftarrow> rd arr begin;
        if 0 < cmp y x then scan_down cmp arr begin seg1 (seg2 - 1) else Some seg2
      }
      else Some seg2)"

partial_function (option) partition_loop ::
  "('a \<Rightarrow> 'a \<Rightarrow> int) \<Rightarrow> int \<Rightarrow> int \<Rightarrow> int \<Rightarrow> 'a list \<Rightarrow> ('a list \<times> int) option" where [code]:
  "partition_loop cmp begin seg1 seg2 arr = do {
     seg1 \<leftarrow> scan_up cmp arr begin seg2 seg1;
     seg2 \<leftarrow> scan_down cmp arr begin seg1 seg2;
     if seg2 \<le> seg1 then Some (arr, seg2)
     else do {
       arr \<leftarrow> swap_elems arr seg1 seg2;
       partition_loop cmp begin (seg1 + 1) (seg2 - 1) arr
     }
   }"

text \<open>The byte offset of the middle element, as the source computes it.\<close>

definition mid_offset :: "nat \<Rightarrow> nat \<Rightarrow> nat" where
  "mid_offset siz n = (let offset = n * siz div 2 in (offset - offset mod siz) div siz)"

partial_function (option) segment_loop ::
  "('a \<Rightarrow> 'a \<Rightarrow> int) \<Rightarrow> nat \<Rightarrow> int \<Rightarrow> int \<Rightarrow> int \<Rightarrow> int list \<Rightarrow> int list \<Rightarrow> 'a list \<Rightarrow>
   (int \<times> int list \<times> int list \<times> 'a list) option" where [code]:
  "segment_loop cmp siz begin end loop begin_stack end_stack arr =
     (if begin < end then do {
        arr \<leftarrow> swap_elems arr begin (begin + int (mid_offset siz (nat (end - begin))));
        (arr, seg2) \<leftarrow> partition_loop cmp begin (begin + 1) end arr;
        arr \<leftarrow> swap_elems arr begin seg2;
        let seg2p = seg2;
        if seg2p - begin \<le> end - seg2p then do {
          (loop, begin_stack, end_stack) \<leftarrow>
            (if seg2p + 1 < end then do {
               begin_stack \<leftarrow> wr begin_stack loop (seg2p + 1);
               end_stack \<leftarrow> wr end_stack loop end;
               Some (loop + 1, begin_stack, end_stack)
             }
             else Some (loop, begin_stack, end_stack));
          segment_loop cmp siz begin (seg2p - 1) loop begin_stack end_stack arr
        }
        else do {
          (loop, begin_stack, end_stack) \<leftarrow>
            (if begin < seg2p - 1 then do {
               begin_stack \<leftarrow> wr begin_stack loop begin;
               end_stack \<leftarrow> wr end_stack loop (seg2p - 1);
               Some (loop + 1, begin_stack, end_stack)
             }
             else Some (loop, begin_stack, end_stack));
          segment_loop cmp siz (seg2p + 1) end loop begin_stack end_stack arr
        }
      }
      else Some (loop, begin_stack, end_stack, arr))"

partial_function (option) stack_loop ::
  "('a \<Rightarrow> 'a \<Rightarrow> int) \<Rightarrow> nat \<Rightarrow> int \<Rightarrow> int list \<Rightarrow> int list \<Rightarrow> 'a list \<Rightarrow> 'a list option" where [code]:
  "stack_loop cmp siz loop begin_stack end_stack arr =
     (if 0 \<le> loop then do {
        begin \<leftarrow> rd begin_stack loop;
        end \<leftarrow> rd end_stack loop;
        (loop, begin_stack, end_stack, arr) \<leftarrow>
          segment_loop cmp siz begin end loop begin_stack end_stack arr;
        stack_loop cmp siz (loop - 1) begin_stack end_stack arr
      }
      else Some arr)"

text \<open>
  The stack arrays are not initialised in the source; the model's initial contents are never
  read before they are written.  The extra argument of \<open>zend_qsort_r\<close> is part of \<open>cmp\<close>.
\<close>

definition zend_qsort_r :: "('a \<Rightarrow> 'a \<Rightarrow> int) \<Rightarrow> nat \<Rightarrow> 'a list \<Rightarrow> 'a list option" where
  "zend_qsort_r cmp siz base = do {
     begin_stack \<leftarrow> wr (replicate QSORT_STACK_SIZE 0) 0 0;
     end_stack \<leftarrow> wr (replicate QSORT_STACK_SIZE 0) 0 (int (length base) - 1);
     stack_loop cmp siz 0 begin_stack end_stack base
   }"

definition zend_qsort :: "nat \<Rightarrow> ('a \<Rightarrow> 'a \<Rightarrow> int) \<Rightarrow> 'a list \<Rightarrow> 'a list option" where
  "zend_qsort siz cmp base = zend_qsort_r cmp siz base"

end
