(* ===== verification/Zend_Hash_Bulk.thy ===== *)
theory Zend_Hash_Bulk
  imports Zend_Hash_Iter_Spec Zend_Sort
begin

text \<open>
  The model of \<open>Zend/zend_hash.c\<close>, part three: copying and merging tables, renumbering, splicing,
  sorting, comparison, and minimum and maximum.

  A \<open>pCopyConstructor\<close> changes the copied value in place, so it is a function on values.  The
  source and the target of a copy are different tables, each with buckets of its own.
\<close>

subsection \<open>Copy and merge\<close>

definition run_ctor :: "('d \<Rightarrow> 'd) option \<Rightarrow> ptr \<Rightarrow> 'd HashTable \<Rightarrow> 'd HashTable option" where
  "run_ctor pCopyConstructor dest ht = (case pCopyConstructor of
     None \<Rightarrow> Some ht
   | Some f \<Rightarrow> (case dest of None \<Rightarrow> None | Some a \<Rightarrow> ht_write ht a (\<lambda>b. b\<lparr>pData := f (pData b)\<rparr>)))"

partial_function (option) copy_loop ::
  "'d HashTable \<Rightarrow> ('d \<Rightarrow> 'd) option \<Rightarrow> uint \<Rightarrow> bool \<Rightarrow> ptr \<Rightarrow> 'd HashTable \<Rightarrow> 'd HashTable option" where [code]:
  "copy_loop source pCopyConstructor siz setTargetPointer p target = (case p of
     None \<Rightarrow> Some target
   | Some a \<Rightarrow> do {
       b \<leftarrow> heap source a;
       let target = (if setTargetPointer \<and> pInternalPointer source = Some a
                     then target\<lparr>pInternalPointer := None\<rparr> else target);
       (target, _, new_entry) \<leftarrow>
         (if nKeyLength b \<noteq> 0
          then zend_hash_quick_add_or_update (arKey b) (nKeyLength b) (b_h b) (pData b) siz HASH_UPDATE target
          else zend_hash_index_update_or_next_insert (b_h b) (pData b) siz HASH_UPDATE target);
       target \<leftarrow> run_ctor pCopyConstructor new_entry target;
       copy_loop source pCopyConstructor siz setTargetPointer (pListNext b) target
     })"

definition zend_hash_copy ::
  "'d HashTable \<Rightarrow> 'd HashTable \<Rightarrow> ('d \<Rightarrow> 'd) option \<Rightarrow> uint \<Rightarrow> 'd HashTable option" where
  "zend_hash_copy target source pCopyConstructor siz = do {
     let setTargetPointer = (pInternalPointer target = None);
     target \<leftarrow> copy_loop source pCopyConstructor siz setTargetPointer (pListHead source) target;
     Some (if pInternalPointer target = None then target\<lparr>pInternalPointer := pListHead target\<rparr> else target)
   }"

partial_function (option) merge_loop ::
  "'d HashTable \<Rightarrow> ('d \<Rightarrow> 'd) option \<Rightarrow> uint \<Rightarrow> uint \<Rightarrow> ptr \<Rightarrow> 'd HashTable \<Rightarrow> 'd HashTable option" where [code]:
  "merge_loop source pCopyConstructor siz mode p target = (case p of
     None \<Rightarrow> Some target
   | Some a \<Rightarrow> do {
       b \<leftarrow> heap source a;
       target \<leftarrow>
         (if 0 < nKeyLength b then do {
            (target, st, t) \<leftarrow>
              zend_hash_quick_add_or_update (arKey b) (nKeyLength b) (b_h b) (pData b) siz mode target;
            if st = SUCCESS then run_ctor pCopyConstructor t target else Some target
          }
          else do {
            present \<leftarrow> (if mode = HASH_UPDATE then Some False else zend_hash_index_exists (b_h b) target);
            if present then Some target
            else do {
              (target, st, t) \<leftarrow> zend_hash_index_update_or_next_insert (b_h b) (pData b) siz HASH_UPDATE target;
              if st = SUCCESS then run_ctor pCopyConstructor t target else Some target
            }
          });
       merge_loop source pCopyConstructor siz mode (pListNext b) target
     })"

definition zend_hash_merge ::
  "'d HashTable \<Rightarrow> 'd HashTable \<Rightarrow> ('d \<Rightarrow> 'd) option \<Rightarrow> uint \<Rightarrow> bool \<Rightarrow> 'd HashTable option" where
  "zend_hash_merge target source pCopyConstructor siz overwrite = do {
     let mode = (if overwrite then HASH_UPDATE else HASH_ADD);
     target \<leftarrow> merge_loop source pCopyConstructor siz mode (pListHead source) target;
     Some (target\<lparr>pInternalPointer := pListHead target\<rparr>)
   }"

definition zend_hash_replace_checker_wrapper ::
  "'d HashTable \<Rightarrow> 'd \<Rightarrow> 'd Bucket \<Rightarrow> ('d HashTable \<Rightarrow> 'd \<Rightarrow> zend_hash_key \<Rightarrow> bool) \<Rightarrow> bool" where
  "zend_hash_replace_checker_wrapper target source_data p merge_checker_func =
     merge_checker_func target source_data \<lparr>hk_arKey = arKey p, hk_nKeyLength = nKeyLength p, hk_h = b_h p\<rparr>"

partial_function (option) merge_ex_loop ::
  "'d HashTable \<Rightarrow> ('d \<Rightarrow> 'd) option \<Rightarrow> uint \<Rightarrow> ('d HashTable \<Rightarrow> 'd \<Rightarrow> zend_hash_key \<Rightarrow> bool) \<Rightarrow> ptr \<Rightarrow>
   'd HashTable \<Rightarrow> 'd HashTable option" where [code]:
  "merge_ex_loop source pCopyConstructor siz pMergeSource p target = (case p of
     None \<Rightarrow> Some target
   | Some a \<Rightarrow> do {
       b \<leftarrow> heap source a;
       target \<leftarrow>
         (if zend_hash_replace_checker_wrapper target (pData b) b pMergeSource then do {
            (target, st, t) \<leftarrow>
              zend_hash_quick_add_or_update (arKey b) (nKeyLength b) (b_h b) (pData b) siz HASH_UPDATE target;
            if st = SUCCESS then run_ctor pCopyConstructor t target else Some target
          }
          else Some target);
       merge_ex_loop source pCopyConstructor siz pMergeSource (pListNext b) target
     })"

definition zend_hash_merge_ex ::
  "'d HashTable \<Rightarrow> 'd HashTable \<Rightarrow> ('d \<Rightarrow> 'd) option \<Rightarrow> uint \<Rightarrow>
   ('d HashTable \<Rightarrow> 'd \<Rightarrow> zend_hash_key \<Rightarrow> bool) \<Rightarrow> 'd HashTable option" where
  "zend_hash_merge_ex target source pCopyConstructor siz pMergeSource = do {
     target \<leftarrow> merge_ex_loop source pCopyConstructor siz pMergeSource (pListHead source) target;
     Some (target\<lparr>pInternalPointer := pListHead target\<rparr>)
   }"

subsection \<open>Renumbering\<close>

partial_function (option) reindex_loop ::
  "bool \<Rightarrow> ulong \<Rightarrow> ptr \<Rightarrow> 'd HashTable \<Rightarrow> ('d HashTable \<times> ulong) option" where [code]:
  "reindex_loop only_integer_keys offset p ht = (case p of
     None \<Rightarrow> Some (ht, offset)
   | Some a \<Rightarrow> do {
       b \<leftarrow> heap ht a;
       (ht, offset) \<leftarrow>
         (if \<not> only_integer_keys \<or> nKeyLength b = 0 then do {
            ht \<leftarrow> ht_write ht a (\<lambda>b. b\<lparr>b_h := offset, nKeyLength := 0\<rparr>);
            Some (ht, offset + 1)
          }
          else Some (ht, offset));
       b \<leftarrow> heap ht a;
       slot \<leftarrow> slot_read ht (hash_index ht (b_h b));
       ht \<leftarrow> CONNECT_TO_BUCKET_DLLIST a slot ht;
       ht \<leftarrow> slot_write ht (hash_index ht (b_h b)) (Some a);
       b \<leftarrow> heap ht a;
       reindex_loop only_integer_keys offset (pListNext b) ht
     })"

definition zend_hash_reindex :: "bool \<Rightarrow> 'd HashTable \<Rightarrow> 'd HashTable option" where
  "zend_hash_reindex only_integer_keys ht =
     (if nNumOfElements ht = 0 then Some (ht\<lparr>nNextFreeElement := 0\<rparr>)
      else do {
        let ht = ht\<lparr>arBuckets := replicate (unat (nTableSize ht)) None\<rparr>;
        (ht, offset) \<leftarrow> reindex_loop only_integer_keys 0 (pListHead ht) ht;
        Some (ht\<lparr>nNextFreeElement := offset\<rparr>)
      })"

subsection \<open>Splice\<close>

partial_function (option) skip_loop :: "'d HashTable \<Rightarrow> uint \<Rightarrow> uint \<Rightarrow> ptr \<Rightarrow> (uint \<times> ptr) option" where [code]:
  "skip_loop ht offset pos p =
     (case p of
        Some a \<Rightarrow> if pos < offset then do { b \<leftarrow> heap ht a; skip_loop ht offset (pos + 1) (pListNext b) }
                  else Some (pos, p)
      | None \<Rightarrow> Some (pos, p))"

definition collect_removed ::
  "('d \<Rightarrow> 'd) option \<Rightarrow> 'd Bucket \<Rightarrow> 'd HashTable option \<Rightarrow> 'd HashTable option option" where
  "collect_removed pCopyConstructor b removed = (case removed of
     None \<Rightarrow> Some None
   | Some rt \<Rightarrow> do {
       (rt, _, new_entry) \<leftarrow>
         (if nKeyLength b = 0
          then zend_hash_index_update_or_next_insert 0 (pData b) sizeof_ptr HASH_NEXT_INSERT rt
          else zend_hash_quick_add_or_update (arKey b) (nKeyLength b) (b_h b) (pData b) sizeof_ptr HASH_UPDATE rt);
       rt \<leftarrow> run_ctor pCopyConstructor new_entry rt;
       Some (Some rt)
     })"

partial_function (option) remove_loop ::
  "('d \<Rightarrow> 'd) option \<Rightarrow> uint \<Rightarrow> uint \<Rightarrow> ptr \<Rightarrow> 'd HashTable option \<Rightarrow> 'd HashTable \<Rightarrow>
   (ptr \<times> 'd HashTable option \<times> 'd HashTable) option" where [code]:
  "remove_loop pCopyConstructor stop pos p removed ht =
     (case p of
        Some a \<Rightarrow>
          if pos < stop then do {
            b \<leftarrow> heap ht a;
            removed \<leftarrow> collect_removed pCopyConstructor b removed;
            ht \<leftarrow> zend_hash_bucket_delete a ht;
            remove_loop pCopyConstructor stop (pos + 1) (pListNext b) removed ht
          }
          else Some (p, removed, ht)
      | None \<Rightarrow> Some (p, removed, ht))"

primrec insert_loop :: "('d \<Rightarrow> 'd) option \<Rightarrow> uint \<Rightarrow> ptr \<Rightarrow> 'd list \<Rightarrow> 'd HashTable \<Rightarrow> 'd HashTable option" where
  "insert_loop pCopyConstructor nDataSize p [] ht = Some ht"
| "insert_loop pCopyConstructor nDataSize p (d # list) ht = do {
     let (q, ht) = pemalloc_bucket ht
       \<lparr>b_h = 0, nKeyLength = 0, pData = d, pDataInline = (nDataSize = sizeof_ptr),
        pListNext = None, pListLast = None, pNext = None, pLast = None, arKey = NullStr\<rparr>;
     lst \<leftarrow> (case p of Some a \<Rightarrow> map_option pListLast (heap ht a) | None \<Rightarrow> Some (pListTail ht));
     ht \<leftarrow> CONNECT_TO_GLOBAL_DLLIST_EX q lst p ht;
     let ht = ht\<lparr>nNumOfElements := nNumOfElements ht + 1\<rparr>;
     ht \<leftarrow> run_ctor pCopyConstructor (Some q) ht;
     insert_loop pCopyConstructor nDataSize p list ht
   }"

definition zend_hash_splice ::
  "uint \<Rightarrow> ('d \<Rightarrow> 'd) option \<Rightarrow> uint \<Rightarrow> uint \<Rightarrow> 'd list option \<Rightarrow> 'd HashTable option \<Rightarrow> 'd HashTable \<Rightarrow>
   ('d HashTable \<times> 'd HashTable option) option" where
  "zend_hash_splice nDataSize pCopyConstructor offset len list removed ht0 = do {
     let ht = CHECK_INIT ht0;
     (pos, p) \<leftarrow> skip_loop ht offset 0 (pListHead ht);
     (p, removed, ht) \<leftarrow> remove_loop pCopyConstructor (offset + len) pos p removed ht;
     ht \<leftarrow> (case list of
        None \<Rightarrow> Some ht
      | Some ds \<Rightarrow> do {
          ht \<leftarrow> insert_loop pCopyConstructor nDataSize p ds ht;
          ZEND_HASH_IF_FULL_DO_RESIZE ht
        });
     ht \<leftarrow> zend_hash_reindex True ht;
     Some (ht, removed)
   }"

subsection \<open>Sort\<close>

partial_function (option) collect_loop :: "'d HashTable \<Rightarrow> ptr \<Rightarrow> addr list option" where [code]:
  "collect_loop ht p = (case p of
     None \<Rightarrow> Some []
   | Some a \<Rightarrow> do { b \<leftarrow> heap ht a; as \<leftarrow> collect_loop ht (pListNext b); Some (a # as) })"

function relink_mid :: "addr list \<Rightarrow> nat \<Rightarrow> 'd HashTable \<Rightarrow> 'd HashTable option" where
  "relink_mid arTmp j ht =
     (if j < length arTmp - 1 then do {
        ht \<leftarrow> ht_write ht (arTmp ! j)
          (\<lambda>b. b\<lparr>pListLast := Some (arTmp ! (j - 1)), pListNext := Some (arTmp ! (j + 1))\<rparr>);
        relink_mid arTmp (j + 1) ht
      }
      else Some ht)"
  by pat_completeness auto
termination by (relation "measure (\<lambda>(arTmp, j, ht). length arTmp - j)") auto

declare relink_mid.simps [simp del]

text \<open>The links of the sorted array; the loop of the middle elements ends with \<open>j\<close> at the last.\<close>

definition relink :: "addr list \<Rightarrow> 'd HashTable \<Rightarrow> 'd HashTable option" where
  "relink arTmp ht = do {
     ht \<leftarrow> ht_write ht (arTmp ! 0) (\<lambda>b. b\<lparr>pListLast := None\<rparr>);
     (if 1 < length arTmp then do {
        ht \<leftarrow> ht_write ht (arTmp ! 0) (\<lambda>b. b\<lparr>pListNext := Some (arTmp ! 1)\<rparr>);
        ht \<leftarrow> relink_mid arTmp 1 ht;
        let j = length arTmp - 1;
        ht_write ht (arTmp ! j) (\<lambda>b. b\<lparr>pListLast := Some (arTmp ! (j - 1)), pListNext := None\<rparr>)
      }
      else ht_write ht (arTmp ! 0) (\<lambda>b. b\<lparr>pListNext := None\<rparr>))
   }"

definition zend_hash_sort ::
  "(nat \<Rightarrow> (addr \<Rightarrow> addr \<Rightarrow> int) \<Rightarrow> addr list \<Rightarrow> addr list option) \<Rightarrow> ('d Bucket \<Rightarrow> 'd Bucket \<Rightarrow> int) \<Rightarrow> bool \<Rightarrow>
   'd HashTable \<Rightarrow> 'd HashTable option" where
  "zend_hash_sort sort_func compar renumber ht =
     (if \<not> 1 < nNumOfElements ht \<and> \<not> (renumber \<and> 0 < nNumOfElements ht) then Some ht
      else do {
        arTmp \<leftarrow> collect_loop ht (pListHead ht);
        arTmp \<leftarrow> sort_func (unat sizeof_ptr) (\<lambda>a b. compar (the (heap ht a)) (the (heap ht b))) arTmp;
        let ht = ht\<lparr>pListHead := Some (arTmp ! 0), pListTail := None, pInternalPointer := Some (arTmp ! 0)\<rparr>;
        ht \<leftarrow> relink arTmp ht;
        let ht = ht\<lparr>pListTail := Some (arTmp ! (length arTmp - 1))\<rparr>;
        if renumber then zend_hash_reindex False ht else Some ht
      })"

subsection \<open>Comparison, minimum and maximum\<close>

text \<open>C fixes only the sign of \<open>memcmp\<close>; the model returns the difference of the first bytes that differ.\<close>

fun memcmp_int :: "byte list \<Rightarrow> byte list \<Rightarrow> nat \<Rightarrow> int" where
  "memcmp_int (x # xs) (y # ys) (Suc n) = (if x = y then memcmp_int xs ys n else uint x - uint y)"
| "memcmp_int _ _ _ = 0"

partial_function (option) compare_loop ::
  "('d \<Rightarrow> 'd \<Rightarrow> int) \<Rightarrow> bool \<Rightarrow> 'd HashTable \<Rightarrow> 'd HashTable \<Rightarrow> ptr \<Rightarrow> ptr \<Rightarrow> int option" where [code]:
  "compare_loop compar ordered ht1 ht2 p1 p2 = (case p1 of
     None \<Rightarrow> Some 0
   | Some a1 \<Rightarrow>
       if ordered then (case p2 of
         None \<Rightarrow> Some 1
       | Some a2 \<Rightarrow> do {
           b1 \<leftarrow> heap ht1 a1;
           b2 \<leftarrow> heap ht2 a2;
           let result =
             (if nKeyLength b1 = 0 \<and> nKeyLength b2 = 0
              then (if b_h b1 \<noteq> b_h b2 then (if b_h b2 < b_h b1 then 1 else -1) else 0)
              else if nKeyLength b1 - nKeyLength b2 \<noteq> 0 then sint (nKeyLength b1 - nKeyLength b2)
              else memcmp_int (cstr_bytes (arKey b1)) (cstr_bytes (arKey b2)) (unat (nKeyLength b1)));
           if result \<noteq> 0 then Some result
           else do {
             let result = compar (pData b1) (pData b2);
             if result \<noteq> 0 then Some result
             else compare_loop compar ordered ht1 ht2 (pListNext b1) (pListNext b2)
           }
         })
       else do {
         b1 \<leftarrow> heap ht1 a1;
         found \<leftarrow>
           (if nKeyLength b1 = 0 then zend_hash_index_find (b_h b1) ht2
            else zend_hash_quick_find (arKey b1) (nKeyLength b1) (b_h b1) ht2);
         (case found of
            None \<Rightarrow> Some 1
          | Some pData2 \<Rightarrow> do {
              let result = compar (pData b1) pData2;
              if result \<noteq> 0 then Some result
              else compare_loop compar ordered ht1 ht2 (pListNext b1) None
            })
       })"

definition zend_hash_compare ::
  "('d \<Rightarrow> 'd \<Rightarrow> int) \<Rightarrow> bool \<Rightarrow> 'd HashTable \<Rightarrow> 'd HashTable \<Rightarrow>
   (('d HashTable \<times> 'd HashTable) \<times> int) outcome option" where
  "zend_hash_compare compar ordered ht10 ht20 = (case HASH_PROTECT_RECURSION ht10 of
     Fatal \<Rightarrow> Some Fatal
   | Done ht1 \<Rightarrow> (case HASH_PROTECT_RECURSION ht20 of
       Fatal \<Rightarrow> Some Fatal
     | Done ht2 \<Rightarrow> do {
         let result = sint (nNumOfElements ht1 - nNumOfElements ht2);
         result \<leftarrow>
           (if result \<noteq> 0 then Some result
            else compare_loop compar ordered ht1 ht2 (pListHead ht1) (if ordered then pListHead ht2 else None));
         Some (Done ((HASH_UNPROTECT_RECURSION ht1, HASH_UNPROTECT_RECURSION ht2), result))
       }))"

partial_function (option) minmax_loop ::
  "('d Bucket \<Rightarrow> 'd Bucket \<Rightarrow> int) \<Rightarrow> bool \<Rightarrow> 'd HashTable \<Rightarrow> 'd Bucket \<Rightarrow> ptr \<Rightarrow> 'd Bucket option" where [code]:
  "minmax_loop compar flag ht res p = (case p of
     None \<Rightarrow> Some res
   | Some a \<Rightarrow> do {
       b \<leftarrow> heap ht a;
       minmax_loop compar flag ht
         (if flag then (if compar res b < 0 then b else res) else (if 0 < compar res b then b else res)) (pListNext b)
     })"

definition zend_hash_minmax ::
  "('d Bucket \<Rightarrow> 'd Bucket \<Rightarrow> int) \<Rightarrow> bool \<Rightarrow> 'd HashTable \<Rightarrow> ('d option \<times> status) option" where
  "zend_hash_minmax compar flag ht =
     (if nNumOfElements ht = 0 then Some (None, FAILURE)
      else do {
        a \<leftarrow> pListHead ht;
        b \<leftarrow> heap ht a;
        res \<leftarrow> minmax_loop compar flag ht b (pListNext b);
        Some (Some (pData res), SUCCESS)
      })"

end
