(* ===== verification/Zend_Sort_Spec.thy ===== *)
theory Zend_Sort_Spec
  imports Zend_Sort
begin

text \<open>
  The sort is correct for every array of fewer than 2^32 elements: it returns, stays within the
  array and within its 32-entry stack, permutes the elements whatever the comparison function
  answers, and sorts them when the comparison is a total preorder.
\<close>

subsection \<open>Permutations of a segment\<close>

abbreviation el :: "'a list \<Rightarrow> int \<Rightarrow> 'a" where
  "el arr k \<equiv> arr ! nat k"

definition perm_on :: "int \<Rightarrow> int \<Rightarrow> 'a list \<Rightarrow> 'a list \<Rightarrow> bool" where
  "perm_on b e arr arr' \<longleftrightarrow> length arr' = length arr \<and> mset arr' = mset arr \<and>
     (\<forall>k. 0 \<le> k \<and> k < b \<or> e < k \<longrightarrow> el arr' k = el arr k) \<and>
     (\<forall>k. b \<le> k \<and> k \<le> e \<longrightarrow> (\<exists>k'. b \<le> k' \<and> k' \<le> e \<and> el arr' k = el arr k'))"

lemma perm_on_refl: "perm_on b e arr arr"
  by (auto simp: perm_on_def)

lemma perm_on_trans: "perm_on b e a1 a2 \<Longrightarrow> perm_on b e a2 a3 \<Longrightarrow> perm_on b e a1 a3"
  unfolding perm_on_def by (metis (no_types, lifting))

lemma perm_on_wider:
  assumes p: "perm_on b e a1 a2" and le: "b' \<le> b" "e \<le> e'" "0 \<le> b'"
  shows "perm_on b' e' a1 a2"
  unfolding perm_on_def
proof (intro conjI allI impI)
  show "length a2 = length a1" "mset a2 = mset a1" using p by (auto simp: perm_on_def)
  fix k :: int
  show "el a2 k = el a1 k" if "0 \<le> k \<and> k < b' \<or> e' < k" using p le that by (auto simp: perm_on_def)
  assume k: "b' \<le> k \<and> k \<le> e'"
  show "\<exists>k'\<ge>b'. k' \<le> e' \<and> el a2 k = el a1 k'"
  proof (cases "b \<le> k \<and> k \<le> e")
    case True
    then obtain k' where "b \<le> k'" "k' \<le> e" "el a2 k = el a1 k'" using p by (auto simp: perm_on_def)
    with le show ?thesis by (intro exI [of _ k']) auto
  next
    case False
    then have "el a2 k = el a1 k" using p le k by (auto simp: perm_on_def)
    with k show ?thesis by blast
  qed
qed

lemma rd_in: "0 \<le> i \<Longrightarrow> i < int (length arr) \<Longrightarrow> rd arr i = Some (el arr i)"
  by (simp add: rd_def nat_less_iff)

lemma wr_in: "0 \<le> i \<Longrightarrow> i < int (length arr) \<Longrightarrow> wr arr i x = Some (arr[nat i := x])"
  by (simp add: wr_def nat_less_iff)

lemma mset_swap: "i < length xs \<Longrightarrow> j < length xs \<Longrightarrow> mset (xs[i := xs ! j, j := xs ! i]) = mset xs"
  by (cases "i = j") (simp_all add: mset_update nth_list_update)

lemma swap_elems_ok:
  assumes "0 \<le> b" and "e < int (length arr)" and "b \<le> i" "i \<le> e" and "b \<le> j" "j \<le> e"
  shows "\<exists>arr'. swap_elems arr i j = Some arr' \<and> perm_on b e arr arr' \<and> el arr' i = el arr j \<and> el arr' j = el arr i \<and>
    (\<forall>k. 0 \<le> k \<and> k \<noteq> i \<and> k \<noteq> j \<longrightarrow> el arr' k = el arr k)"
proof -
  let ?a = "arr[nat i := el arr j, nat j := el arr i]"
  have l: "nat i < length arr" "nat j < length arr" using assms by (simp_all add: nat_less_iff)
  have "swap_elems arr i j = Some ?a" using assms by (simp add: swap_elems_def rd_in wr_in)
  moreover have n: "el ?a k = (if k = j then el arr i else if k = i then el arr j else el arr k)" if "0 \<le> k" for k
    using l that assms by (auto simp: nth_list_update nat_eq_iff)
  moreover have "perm_on b e arr ?a"
    unfolding perm_on_def
  proof (intro conjI allI impI)
    show "mset ?a = mset arr" using l by (rule mset_swap)
    fix k :: int
    show "el ?a k = el arr k" if "0 \<le> k \<and> k < b \<or> e < k" using n [of k] that assms by auto
    show "\<exists>k'\<ge>b. k' \<le> e \<and> el ?a k = el arr k'" if "b \<le> k \<and> k \<le> e"
      using n [of k] that assms by (cases "k = j"; cases "k = i") auto
  qed simp
  ultimately show ?thesis using assms by (intro exI [of _ ?a]) auto
qed

subsection \<open>Partition\<close>

lemma scan_up_ok:
  assumes "0 \<le> b" "b < int (length arr)" and "0 \<le> seg1" and "seg2 < int (length arr)"
  shows "\<exists>s. scan_up cmp arr b seg2 seg1 = Some s \<and> seg1 \<le> s \<and> (s = seg1 \<or> s \<le> seg2) \<and>
    (\<forall>k. seg1 \<le> k \<and> k < s \<longrightarrow> 0 < cmp (el arr b) (el arr k)) \<and> (seg2 \<le> s \<or> cmp (el arr b) (el arr s) \<le> 0)"
  using assms
proof (induction "nat (seg2 - seg1)" arbitrary: seg1 rule: less_induct)
  case less
  show ?case
  proof (cases "seg1 < seg2 \<and> 0 < cmp (el arr b) (el arr seg1)")
    case False
    then show ?thesis using less.prems by (subst scan_up.simps) (auto simp: rd_in intro!: exI [of _ seg1])
  next
    case True
    then obtain s where s: "scan_up cmp arr b seg2 (seg1 + 1) = Some s" "seg1 + 1 \<le> s" "s = seg1 + 1 \<or> s \<le> seg2"
      "\<forall>k. seg1 + 1 \<le> k \<and> k < s \<longrightarrow> 0 < cmp (el arr b) (el arr k)" "seg2 \<le> s \<or> cmp (el arr b) (el arr s) \<le> 0"
      using less.hyps [of "seg1 + 1"] less.prems by auto
    have "scan_up cmp arr b seg2 seg1 = Some s" using True less.prems s(1) by (subst scan_up.simps) (simp add: rd_in)
    moreover have "\<forall>k. seg1 \<le> k \<and> k < s \<longrightarrow> 0 < cmp (el arr b) (el arr k)"
      using s(4) True by (metis add1_zle_eq order_le_less)
    ultimately show ?thesis using s True by auto
  qed
qed

lemma scan_down_ok:
  assumes "0 \<le> b" "b < int (length arr)" and "0 \<le> seg1" and "seg2 < int (length arr)"
  shows "\<exists>s. scan_down cmp arr b seg1 seg2 = Some s \<and> s \<le> seg2 \<and> (s = seg2 \<or> seg1 - 1 \<le> s) \<and>
    (\<forall>k. s < k \<and> k \<le> seg2 \<longrightarrow> 0 < cmp (el arr k) (el arr b)) \<and> (s < seg1 \<or> cmp (el arr s) (el arr b) \<le> 0)"
  using assms
proof (induction "nat (seg2 - seg1 + 1)" arbitrary: seg2 rule: less_induct)
  case less
  show ?case
  proof (cases "seg1 \<le> seg2 \<and> 0 < cmp (el arr seg2) (el arr b)")
    case False
    then show ?thesis using less.prems by (subst scan_down.simps) (auto simp: rd_in intro!: exI [of _ seg2])
  next
    case True
    then obtain s where s: "scan_down cmp arr b seg1 (seg2 - 1) = Some s" "s \<le> seg2 - 1" "s = seg2 - 1 \<or> seg1 - 1 \<le> s"
      "\<forall>k. s < k \<and> k \<le> seg2 - 1 \<longrightarrow> 0 < cmp (el arr k) (el arr b)" "s < seg1 \<or> cmp (el arr s) (el arr b) \<le> 0"
      using less.hyps [of "seg2 - 1"] less.prems by auto
    have "scan_down cmp arr b seg1 seg2 = Some s" using True less.prems s(1) by (subst scan_down.simps) (simp add: rd_in)
    moreover have "\<forall>k. s < k \<and> k \<le> seg2 \<longrightarrow> 0 < cmp (el arr k) (el arr b)"
      using s(4) True by (metis add1_zle_eq le_diff_eq order_le_less)
    ultimately show ?thesis using s True by auto
  qed
qed

definition antisym_cmp :: "('a \<Rightarrow> 'a \<Rightarrow> int) \<Rightarrow> bool" where
  "antisym_cmp cmp \<longleftrightarrow> (\<forall>x y. 0 < cmp x y \<longrightarrow> cmp y x \<le> 0)"

lemma partition_ok:
  assumes "0 \<le> b" and "b < seg1" and "seg1 - 1 \<le> seg2" and "seg2 \<le> e" and "e < int (length arr)"
    and "\<And>k. antisym_cmp cmp \<Longrightarrow> b < k \<Longrightarrow> k < seg1 \<Longrightarrow> cmp (el arr k) (el arr b) \<le> 0"
    and "\<And>k. antisym_cmp cmp \<Longrightarrow> seg2 < k \<Longrightarrow> k \<le> e \<Longrightarrow> cmp (el arr b) (el arr k) \<le> 0"
  shows "\<exists>arr' s. partition_loop cmp b seg1 seg2 arr = Some (arr', s) \<and> b \<le> s \<and> s \<le> e \<and> perm_on (b + 1) e arr arr' \<and>
    (antisym_cmp cmp \<longrightarrow> (\<forall>k. b < k \<and> k \<le> s \<longrightarrow> cmp (el arr' k) (el arr' b) \<le> 0) \<and>
      (\<forall>k. s < k \<and> k \<le> e \<longrightarrow> cmp (el arr' b) (el arr' k) \<le> 0))"
  using assms
proof (induction "nat (seg2 - seg1 + 1)" arbitrary: seg1 seg2 arr rule: less_induct)
  case less
  have bl: "b < int (length arr)" "0 \<le> seg1" "seg2 < int (length arr)" using less.prems by linarith+
  obtain s1 where s1: "scan_up cmp arr b seg2 seg1 = Some s1" "seg1 \<le> s1" "s1 = seg1 \<or> s1 \<le> seg2"
    "\<And>k. seg1 \<le> k \<Longrightarrow> k < s1 \<Longrightarrow> 0 < cmp (el arr b) (el arr k)" "seg2 \<le> s1 \<or> cmp (el arr b) (el arr s1) \<le> 0"
    using scan_up_ok [OF less.prems(1) bl, of cmp] by blast
  have "0 \<le> s1" using s1(2) bl(2) by simp
  from scan_down_ok [OF less.prems(1) bl(1) this bl(3), of cmp] obtain s2 where
    s2: "scan_down cmp arr b s1 seg2 = Some s2" "s2 \<le> seg2" "s2 = seg2 \<or> s1 - 1 \<le> s2"
    "\<And>k. s2 < k \<Longrightarrow> k \<le> seg2 \<Longrightarrow> 0 < cmp (el arr k) (el arr b)" "s2 < s1 \<or> cmp (el arr s2) (el arr b) \<le> 0" by blast
  have left: "cmp (el arr k) (el arr b) \<le> 0" if "antisym_cmp cmp" "b < k" "k < s1" for k
    using less.prems(6) [OF that(1,2)] s1(4) [of k] that by (cases "k < seg1") (auto simp: antisym_cmp_def)
  have right: "cmp (el arr b) (el arr k) \<le> 0" if "antisym_cmp cmp" "s2 < k" "k \<le> e" for k
    using less.prems(7) [OF that(1) _ that(3)] s2(4) [of k] that by (cases "seg2 < k") (auto simp: antisym_cmp_def)
  have bnd: "b \<le> s2" "s2 \<le> e" using s1(2) s2(2,3) less.prems(2-4) by auto
  show ?case
  proof (cases "s2 \<le> s1")
    case True
    have "cmp (el arr k) (el arr b) \<le> 0" if "antisym_cmp cmp" "b < k" "k \<le> s2" for k
    proof (cases "k < s1")
      case False
      then have "k = s2" "k = s1" using that(3) True by linarith+
      with s2(5) show ?thesis by simp
    qed (rule left [OF that(1,2)])
    with True s1(1) s2(1) bnd right show ?thesis
      by (subst partition_loop.simps) (auto simp: perm_on_refl)
  next
    case False
    have r: "0 \<le> b + 1" "b + 1 \<le> s1" "s1 \<le> e" "b + 1 \<le> s2" using less.prems(1,2) s1(2) False bnd(2) by auto
    from swap_elems_ok [OF r(1) less.prems(5) r(2,3,4) bnd(2)] obtain a1 where
      a1: "swap_elems arr s1 s2 = Some a1" "perm_on (b + 1) e arr a1" "el a1 s1 = el arr s2" "el a1 s2 = el arr s1"
        "\<And>k. 0 \<le> k \<Longrightarrow> k \<noteq> s1 \<Longrightarrow> k \<noteq> s2 \<Longrightarrow> el a1 k = el arr k" by blast
    have piv: "el a1 b = el arr b" using a1(5) [of b] less.prems(1) r False by auto
    have dec: "nat ((s2 - 1) - (s1 + 1) + 1) < nat (seg2 - seg1 + 1)" using False s1(2) s2(2) by auto
    have "\<exists>arr' s. partition_loop cmp b (s1 + 1) (s2 - 1) a1 = Some (arr', s) \<and> b \<le> s \<and> s \<le> e \<and> perm_on (b + 1) e a1 arr' \<and>
      (antisym_cmp cmp \<longrightarrow> (\<forall>k. b < k \<and> k \<le> s \<longrightarrow> cmp (el arr' k) (el arr' b) \<le> 0) \<and>
        (\<forall>k. s < k \<and> k \<le> e \<longrightarrow> cmp (el arr' b) (el arr' k) \<le> 0))"
    proof (rule less.hyps [OF dec less.prems(1)])
      show "e < int (length a1)" using less.prems(5) a1(2) by (simp add: perm_on_def)
      show "cmp (el a1 k) (el a1 b) \<le> 0" if "antisym_cmp cmp" "b < k" "k < s1 + 1" for k
        using left [OF that(1,2)] a1(3) a1(5) [of k] s2(5) piv that False less.prems(1) by (cases "k = s1") auto
      show "cmp (el a1 b) (el a1 k) \<le> 0" if "antisym_cmp cmp" "s2 - 1 < k" "k \<le> e" for k
        using right [OF that(1) _ that(3)] a1(4) a1(5) [of k] s1(5) s2(2) piv that False less.prems(1) r(2)
        by (cases "k = s2") auto
    qed (use r False bnd(2) in auto)
    then obtain arr' s where f: "partition_loop cmp b (s1 + 1) (s2 - 1) a1 = Some (arr', s)" "b \<le> s" "s \<le> e"
      "perm_on (b + 1) e a1 arr'"
      "antisym_cmp cmp \<longrightarrow> (\<forall>k. b < k \<and> k \<le> s \<longrightarrow> cmp (el arr' k) (el arr' b) \<le> 0) \<and>
        (\<forall>k. s < k \<and> k \<le> e \<longrightarrow> cmp (el arr' b) (el arr' k) \<le> 0)" by blast
    have "partition_loop cmp b seg1 seg2 arr = Some (arr', s)"
      using s1(1) s2(1) False a1(1) f(1) by (subst partition_loop.simps) simp
    with f perm_on_trans [OF a1(2) f(4)] show ?thesis by blast
  qed
qed


lemma mid_offset_eq:
  assumes "0 < siz"
  shows "mid_offset siz n = n div 2"
proof -
  have "mid_offset siz n = n * siz div 2 div siz"
    using assms by (simp add: mid_offset_def Let_def minus_mod_eq_mult_div)
  also have "\<dots> = n * siz div (siz * 2)" by (simp add: div_mult2_eq [symmetric] mult.commute)
  also have "\<dots> = n div 2" using assms by (simp add: mult.commute)
  finally show ?thesis .
qed

lemma partition_step:
  assumes "0 \<le> b" and "b < e" and "e < int (length arr)" and "0 < siz"
  obtains a1 a2 a3 s where "swap_elems arr b (b + int (mid_offset siz (nat (e - b)))) = Some a1"
    and "partition_loop cmp b (b + 1) e a1 = Some (a2, s)" and "swap_elems a2 b s = Some a3"
    and "b \<le> s" and "s \<le> e" and "perm_on b e arr a3"
    and "\<And>k. antisym_cmp cmp \<Longrightarrow> b \<le> k \<Longrightarrow> k < s \<Longrightarrow> cmp (el a3 k) (el a3 s) \<le> 0"
    and "\<And>k. antisym_cmp cmp \<Longrightarrow> s < k \<Longrightarrow> k \<le> e \<Longrightarrow> cmp (el a3 s) (el a3 k) \<le> 0"
proof -
  let ?m = "b + int (mid_offset siz (nat (e - b)))"
  have m: "b \<le> ?m" "?m \<le> e" using assms(2) by (auto simp: mid_offset_eq [OF assms(4)])
  have be: "b \<le> b" "b \<le> e" using assms(2) by auto
  from swap_elems_ok [OF assms(1,3) be m] obtain a1 where
    a1: "swap_elems arr b ?m = Some a1" "perm_on b e arr a1" by blast
  have len: "e < int (length a1)" using a1(2) assms(3) by (simp add: perm_on_def)
  have "\<exists>a2 s. partition_loop cmp b (b + 1) e a1 = Some (a2, s) \<and> b \<le> s \<and> s \<le> e \<and> perm_on (b + 1) e a1 a2 \<and>
    (antisym_cmp cmp \<longrightarrow> (\<forall>k. b < k \<and> k \<le> s \<longrightarrow> cmp (el a2 k) (el a2 b) \<le> 0) \<and>
      (\<forall>k. s < k \<and> k \<le> e \<longrightarrow> cmp (el a2 b) (el a2 k) \<le> 0))"
    by (rule partition_ok) (use assms(1,2) len in auto)
  then obtain a2 s where a2: "partition_loop cmp b (b + 1) e a1 = Some (a2, s)" "b \<le> s" "s \<le> e"
    "perm_on (b + 1) e a1 a2"
    "\<And>k. antisym_cmp cmp \<Longrightarrow> b < k \<Longrightarrow> k \<le> s \<Longrightarrow> cmp (el a2 k) (el a2 b) \<le> 0"
    "\<And>k. antisym_cmp cmp \<Longrightarrow> s < k \<Longrightarrow> k \<le> e \<Longrightarrow> cmp (el a2 b) (el a2 k) \<le> 0" by blast
  have len2: "e < int (length a2)" using a2(4) len by (simp add: perm_on_def)
  from swap_elems_ok [OF assms(1) len2 be a2(2,3)] obtain a3 where
    a3: "swap_elems a2 b s = Some a3" "perm_on b e a2 a3" "el a3 b = el a2 s" "el a3 s = el a2 b"
      "\<And>k. 0 \<le> k \<Longrightarrow> k \<noteq> b \<Longrightarrow> k \<noteq> s \<Longrightarrow> el a3 k = el a2 k" by blast
  have "perm_on b e a1 a2" by (rule perm_on_wider [OF a2(4)]) (use assms(1) in auto)
  then have p: "perm_on b e arr a3" using perm_on_trans a1(2) a3(2) by blast
  have "cmp (el a3 k) (el a3 s) \<le> 0" if "antisym_cmp cmp" "b \<le> k" "k < s" for k
    using a2(5) [OF that(1), of k] a2(5) [OF that(1), of s] a3(3,4) a3(5) [of k] that assms(1)
    by (cases "k = b") auto
  moreover have "cmp (el a3 s) (el a3 k) \<le> 0" if "antisym_cmp cmp" "s < k" "k \<le> e" for k
    using a2(6) [OF that] a3(4) a3(5) [of k] that a2(2) assms(1) by auto
  ultimately show thesis using that a1(1) a2(1-3) a3(1) p by blast
qed

subsection \<open>Pending segments\<close>

definition preorder_cmp :: "('a \<Rightarrow> 'a \<Rightarrow> int) \<Rightarrow> bool" where
  "preorder_cmp cmp \<longleftrightarrow> antisym_cmp cmp \<and> (\<forall>x y z. cmp x y \<le> 0 \<longrightarrow> cmp y z \<le> 0 \<longrightarrow> cmp x z \<le> 0)"

definition disj :: "int \<times> int \<Rightarrow> int \<times> int \<Rightarrow> bool" where
  "disj p q \<longleftrightarrow> snd p < fst q \<or> snd q < fst p"

text \<open>Two elements are in order unless one pending segment contains both.\<close>

definition ordered_but :: "('a \<Rightarrow> 'a \<Rightarrow> int) \<Rightarrow> 'a list \<Rightarrow> (int \<times> int) set \<Rightarrow> bool" where
  "ordered_but cmp arr P \<longleftrightarrow> (\<forall>i j. 0 \<le> i \<and> i < j \<and> j < int (length arr) \<longrightarrow>
     (\<exists>p\<in>P. fst p \<le> i \<and> j \<le> snd p) \<or> cmp (el arr i) (el arr j) \<le> 0)"

lemma ordered_drop:
  assumes "ordered_but cmp arr (insert (b, e) P)" and "e \<le> b"
  shows "ordered_but cmp arr P"
  unfolding ordered_but_def
proof (intro allI impI)
  fix i j assume ij: "0 \<le> i \<and> i < j \<and> j < int (length arr)"
  then have "(\<exists>p\<in>insert (b, e) P. fst p \<le> i \<and> j \<le> snd p) \<or> cmp (el arr i) (el arr j) \<le> 0"
    using assms(1) by (simp add: ordered_but_def)
  then show "(\<exists>p\<in>P. fst p \<le> i \<and> j \<le> snd p) \<or> cmp (el arr i) (el arr j) \<le> 0"
    using assms(2) ij by auto
qed

lemma ordered_split:
  assumes o: "ordered_but cmp arr (insert (b, e) P)" and pre: "preorder_cmp cmp" and p: "perm_on b e arr arr'"
    and d: "\<And>q. q \<in> P \<Longrightarrow> disj q (b, e)" and r: "0 \<le> b" "e < int (length arr)"
    and s: "b \<le> s" "s \<le> e" "\<And>k. b \<le> k \<Longrightarrow> k < s \<Longrightarrow> cmp (el arr' k) (el arr' s) \<le> 0"
      "\<And>k. s < k \<Longrightarrow> k \<le> e \<Longrightarrow> cmp (el arr' s) (el arr' k) \<le> 0"
  shows "ordered_but cmp arr' (insert (b, s - 1) (insert (s + 1, e) P))"
  unfolding ordered_but_def
proof (intro allI impI)
  fix i j assume ij: "0 \<le> i \<and> i < j \<and> j < int (length arr')"
  have len: "length arr' = length arr" using p by (simp add: perm_on_def)
  have orig: "\<exists>k'. el arr' k = el arr k' \<and> (if b \<le> k \<and> k \<le> e then b \<le> k' \<and> k' \<le> e else k' = k)" if "0 \<le> k" for k
    using p that by (cases "b \<le> k \<and> k \<le> e") (auto simp: perm_on_def not_le)
  obtain i' where i': "el arr' i = el arr i'" "if b \<le> i \<and> i \<le> e then b \<le> i' \<and> i' \<le> e else i' = i"
    using orig [of i] ij by auto
  obtain j' where j': "el arr' j = el arr j'" "if b \<le> j \<and> j \<le> e then b \<le> j' \<and> j' \<le> e else j' = j"
    using orig [of j] ij by auto
  show "(\<exists>p\<in>insert (b, s - 1) (insert (s + 1, e) P). fst p \<le> i \<and> j \<le> snd p) \<or> cmp (el arr' i) (el arr' j) \<le> 0"
  proof (cases "b \<le> i \<and> j \<le> e")
    case True
    have tr: "cmp x y \<le> 0 \<Longrightarrow> cmp y z \<le> 0 \<Longrightarrow> cmp x z \<le> 0" for x y z
      using pre by (auto simp: preorder_cmp_def)
    consider "j \<le> s - 1" | "s + 1 \<le> i" | "i < s" "j = s" | "i = s" "s < j" | "i < s" "s < j" using ij by linarith
    then show ?thesis
    proof cases
      case 5
      with True s(3) [of i] s(4) [of j] tr [of "el arr' i" "el arr' s" "el arr' j"] show ?thesis by simp
    qed (use True s(3) [of i] s(4) [of j] in simp_all)
  next
    case False
    have i2: "i' = i \<and> \<not> (b \<le> i \<and> i \<le> e) \<or> b \<le> i' \<and> i' \<le> e \<and> b \<le> i \<and> i \<le> e" using i'(2) by (simp split: if_splits)
    have j2: "j' = j \<and> \<not> (b \<le> j \<and> j \<le> e) \<or> b \<le> j' \<and> j' \<le> e \<and> b \<le> j \<and> j \<le> e" using j'(2) by (simp split: if_splits)
    have ij': "0 \<le> i'" "i' < j'" "j' < int (length arr)"
      using i2 j2 False ij r len by linarith+
    with o have "(\<exists>p\<in>insert (b, e) P. fst p \<le> i' \<and> j' \<le> snd p) \<or> cmp (el arr i') (el arr j') \<le> 0"
      by (simp add: ordered_but_def)
    then show ?thesis
    proof
      assume "\<exists>p\<in>insert (b, e) P. fst p \<le> i' \<and> j' \<le> snd p"
      then obtain q where q: "q \<in> insert (b, e) P" "fst q \<le> i'" "j' \<le> snd q" by blast
      have "q \<noteq> (b, e)"
      proof
        assume "q = (b, e)"
        with q(2,3) have "b \<le> i'" "j' \<le> e" by simp_all
        with i2 j2 False ij ij' show False by linarith
      qed
      then have P: "q \<in> P" using q(1) by simp
      then have dj: "snd q < b \<or> e < fst q" using d [of q] by (simp add: disj_def)
      have "i' = i" "j' = j" using dj q(2,3) ij'(2) i2 j2 by linarith+
      with P q show ?thesis by blast
    next
      assume "cmp (el arr i') (el arr j') \<le> 0"
      then show ?thesis using i' j' by simp
    qed
  qed
qed


subsection \<open>The stack\<close>

definition seg_size :: "int \<times> int \<Rightarrow> nat" where
  "seg_size p = nat (snd p - fst p + 1)"

text \<open>
  The pending segments, the current one last: within the array, pairwise disjoint, and the one at
  depth \<open>i\<close> at most a \<open>2^i\<close>-th of the array.
\<close>

definition segs :: "nat \<Rightarrow> (int \<times> int) list \<Rightarrow> bool" where
  "segs N L \<longleftrightarrow> (\<forall>i<length L. 0 \<le> fst (L ! i) \<and> snd (L ! i) < int N \<and> seg_size (L ! i) * 2 ^ i \<le> N) \<and>
     (\<forall>j<length L. \<forall>i<j. disj (L ! i) (L ! j))"

definition weight :: "(int \<times> int) list \<Rightarrow> nat" where
  "weight L = (\<Sum>p\<leftarrow>L. 2 * seg_size p + 1)"

definition stk :: "int list \<Rightarrow> int list \<Rightarrow> nat \<Rightarrow> (int \<times> int) list" where
  "stk bs es n = map (\<lambda>k. (bs ! k, es ! k)) [0..<n]"

lemma length_stk [simp]: "length (stk bs es n) = n"
  by (simp add: stk_def)

lemma stk_Suc: "stk bs es (Suc n) = stk bs es n @ [(bs ! n, es ! n)]"
  by (simp add: stk_def)

lemma stk_push:
  assumes "n < length bs" and "n < length es"
  shows "stk (bs[n := b]) (es[n := e]) (Suc n) = stk bs es n @ [(b, e)]"
  unfolding stk_Suc using assms by (simp add: stk_def)

lemma segsD:
  assumes "segs N L"
  shows "i < length L \<Longrightarrow> 0 \<le> fst (L ! i) \<and> snd (L ! i) < int N \<and> seg_size (L ! i) * 2 ^ i \<le> N"
    and "j < length L \<Longrightarrow> i < j \<Longrightarrow> disj (L ! i) (L ! j)"
  using assms by (simp_all add: segs_def)

lemma segs_snoc:
  "segs N (L @ [p]) \<longleftrightarrow> segs N L \<and> 0 \<le> fst p \<and> snd p < int N \<and> seg_size p * 2 ^ length L \<le> N \<and> (\<forall>q\<in>set L. disj q p)"
  (is "_ \<longleftrightarrow> ?R")
proof
  assume a: "segs N (L @ [p])"
  have "segs N L" unfolding segs_def
  proof (intro conjI allI impI)
    fix i assume "i < length L"
    with segsD(1) [OF a, of i] show "0 \<le> fst (L ! i)" "snd (L ! i) < int N" "seg_size (L ! i) * 2 ^ i \<le> N"
      by (simp_all add: nth_append)
  next
    fix j i assume "j < length L" "i < j"
    with segsD(2) [OF a, of j i] show "disj (L ! i) (L ! j)" by (simp add: nth_append)
  qed
  moreover have "0 \<le> fst p \<and> snd p < int N \<and> seg_size p * 2 ^ length L \<le> N"
    using segsD(1) [OF a, of "length L"] by simp
  moreover have "disj q p" if q: "q \<in> set L" for q
  proof -
    from q obtain i where "i < length L" "q = L ! i" by (auto simp: in_set_conv_nth)
    then show ?thesis using segsD(2) [OF a, of "length L" i] by (simp add: nth_append)
  qed
  ultimately show ?R by blast
next
  assume r: ?R
  show "segs N (L @ [p])" unfolding segs_def
  proof (intro conjI allI impI)
    fix i assume "i < length (L @ [p])"
    then have "i < length L \<or> i = length L" by auto
    then show "0 \<le> fst ((L @ [p]) ! i)" "snd ((L @ [p]) ! i) < int N" "seg_size ((L @ [p]) ! i) * 2 ^ i \<le> N"
      using r segsD(1) [of N L i] by (auto simp: nth_append)
  next
    fix j i assume "j < length (L @ [p])" "i < j"
    then show "disj ((L @ [p]) ! i) ((L @ [p]) ! j)" using r segsD(2) [of N L j i] by (auto simp: nth_append)
  qed
qed

lemma segs_snocD:
  assumes "segs N (L @ [p])"
  shows "segs N L" and "0 \<le> fst p" and "snd p < int N" and "seg_size p * 2 ^ length L \<le> N"
    and "\<And>q. q \<in> set L \<Longrightarrow> disj q p"
  using assms unfolding segs_snoc by blast+

lemma segs_snocI:
  assumes "segs N L" and "0 \<le> fst p" and "snd p < int N" and "seg_size p * 2 ^ length L \<le> N"
    and "\<And>q. q \<in> set L \<Longrightarrow> disj q p"
  shows "segs N (L @ [p])"
  using assms unfolding segs_snoc by blast

lemma disj_sub: "disj q (b, e) \<Longrightarrow> b \<le> fst p \<Longrightarrow> snd p \<le> e \<Longrightarrow> disj q p"
  by (auto simp: disj_def)

lemma segs_shrink:
  assumes "segs N (st @ [(b, e)])" and "b \<le> fst p" and "snd p \<le> e"
  shows "segs N (st @ [p])"
proof (rule segs_snocI)
  note d = segs_snocD [OF assms(1)]
  show "segs N st" by (rule d(1))
  show "0 \<le> fst p" "snd p < int N" using d(2,3) assms by auto
  have "seg_size p \<le> seg_size (b, e)" using assms by (simp add: seg_size_def)
  then have "seg_size p * 2 ^ length st \<le> seg_size (b, e) * 2 ^ length st" by simp
  then show "seg_size p * 2 ^ length st \<le> N" using d(4) by linarith
  show "disj q p" if "q \<in> set st" for q using disj_sub [OF d(5) [OF that] assms(2,3)] .
qed

lemma segs_push:
  assumes "segs N (st @ [(b, e)])" and "b \<le> fst p" "snd p \<le> e" and "b \<le> fst q" "snd q \<le> e"
    and "disj p q" and "2 * seg_size q \<le> seg_size (b, e)"
  shows "segs N ((st @ [p]) @ [q])"
proof (rule segs_snocI)
  note d = segs_snocD [OF assms(1)]
  show "segs N (st @ [p])" by (rule segs_shrink [OF assms(1-3)])
  show "0 \<le> fst q" "snd q < int N" using d(2,3) assms by auto
  have "2 * seg_size q * 2 ^ length st \<le> seg_size (b, e) * 2 ^ length st" using assms(7) by simp
  then have "seg_size q * (2 * 2 ^ length st) \<le> N" using d(4) by (simp only: mult.assoc mult.left_commute)
  then show "seg_size q * 2 ^ length (st @ [p]) \<le> N" by simp
  show "disj x q" if "x \<in> set (st @ [p])" for x
    using that assms(6) disj_sub [OF d(5) assms(4,5)] by (cases "x = p") auto
qed

lemma segs_depth:
  assumes "segs N (st @ [(b, e)])" and "b < e" and "N < 2 ^ 32"
  shows "length st < 31"
proof -
  have "2 \<le> seg_size (b, e)" using assms(2) by (simp add: seg_size_def)
  then have "2 * 2 ^ length st \<le> seg_size (b, e) * 2 ^ length st" by (rule mult_le_mono1)
  also note segs_snocD(4) [OF assms(1)]
  also note assms(3)
  finally have "2 ^ Suc (length st) < (2 :: nat) ^ 32" by simp
  then have "Suc (length st) < 32" by (rule power_less_imp_less_exp [rotated]) simp
  then show ?thesis by simp
qed

lemma weight_append [simp]: "weight (L @ M) = weight L + weight M"
  by (simp add: weight_def)


subsection \<open>The loops\<close>

definition seg_result ::
  "('a \<Rightarrow> 'a \<Rightarrow> int) \<Rightarrow> (int \<times> int) list \<Rightarrow> 'a list \<Rightarrow> int \<times> int list \<times> int list \<times> 'a list \<Rightarrow> bool" where
  "seg_result cmp L arr r \<longleftrightarrow> (\<exists>n bs es arr'. r = (int n, bs, es, arr') \<and> n \<le> QSORT_STACK_SIZE \<and> length bs = QSORT_STACK_SIZE \<and>
     length es = QSORT_STACK_SIZE \<and> segs (length arr) (stk bs es n) \<and> weight (stk bs es n) < weight L \<and>
     length arr' = length arr \<and> mset arr' = mset arr \<and>
     (preorder_cmp cmp \<and> ordered_but cmp arr (set L) \<longrightarrow> ordered_but cmp arr' (set (stk bs es n))))"

text \<open>
  One turn: partition, push the larger part when it has two elements or more, go on with the other.
\<close>

lemma segment_step:
  assumes sg: "segs (length arr) (stk bs es n @ [(b, e)])" and n: "length arr < 2 ^ 32" and siz: "0 < siz"
    and st: "length bs = QSORT_STACK_SIZE" "length es = QSORT_STACK_SIZE" and n_le: "n \<le> QSORT_STACK_SIZE" and be: "b < e"
  obtains b' e' n' bs' es' arr' where
    "segment_loop cmp siz b e (int n) bs es arr = segment_loop cmp siz b' e' (int n') bs' es' arr'"
    and "length bs' = QSORT_STACK_SIZE" and "length es' = QSORT_STACK_SIZE" and "n' \<le> QSORT_STACK_SIZE"
    and "segs (length arr) (stk bs' es' n' @ [(b', e')])" and "seg_size (b', e') < seg_size (b, e)"
    and "weight (stk bs' es' n' @ [(b', e')]) < weight (stk bs es n @ [(b, e)])"
    and "length arr' = length arr" and "mset arr' = mset arr"
    and "preorder_cmp cmp \<and> ordered_but cmp arr (set (stk bs es n @ [(b, e)])) \<longrightarrow>
      ordered_but cmp arr' (set (stk bs' es' n' @ [(b', e')]))"
proof -
  let ?st = "stk bs es n"
  note d = segs_snocD [OF sg]
  have n31: "n < 31" using segs_depth [OF sg be n] by simp
  have idx: "0 \<le> int n" "int n < int (length bs)" "int n < int (length es)" "n < length bs" "n < length es"
    using n31 st by (simp_all add: QSORT_STACK_SIZE_def)
  have r: "0 \<le> b" "e < int (length arr)" using d(2,3) by simp_all
  from partition_step [OF r(1) be r(2) siz, of cmp] obtain a1 a2 a3 s where
    p: "swap_elems arr b (b + int (mid_offset siz (nat (e - b)))) = Some a1"
      "partition_loop cmp b (b + 1) e a1 = Some (a2, s)" "swap_elems a2 b s = Some a3" "b \<le> s" "s \<le> e"
      "perm_on b e arr a3"
      "\<And>k. antisym_cmp cmp \<Longrightarrow> b \<le> k \<Longrightarrow> k < s \<Longrightarrow> cmp (el a3 k) (el a3 s) \<le> 0"
      "\<And>k. antisym_cmp cmp \<Longrightarrow> s < k \<Longrightarrow> k \<le> e \<Longrightarrow> cmp (el a3 s) (el a3 k) \<le> 0" by metis
  have len: "length a3 = length arr" "mset a3 = mset arr" using p(6) by (auto simp: perm_on_def)
  have ord: "ordered_but cmp a3 (insert (b, s - 1) (insert (s + 1, e) (set ?st)))"
    if "preorder_cmp cmp" "ordered_but cmp arr (set (?st @ [(b, e)]))"
  proof (rule ordered_split [OF _ that(1) p(6)])
    show "ordered_but cmp arr (insert (b, e) (set ?st))" using that(2) by simp
    show "\<And>q. q \<in> set ?st \<Longrightarrow> disj q (b, e)" by (rule d(5))
  qed (use p(4,5,7,8) r that(1) in \<open>auto simp: preorder_cmp_def\<close>)
  show thesis
  proof (cases "s - b \<le> e - s")
    case left: True
    show thesis
    proof (cases "s + 1 < e")
      case True
      let ?bs = "bs[n := s + 1]" and ?es = "es[n := e]"
      have sk: "stk ?bs ?es (Suc n) = ?st @ [(s + 1, e)]" by (rule stk_push [OF idx(4,5)])
      show thesis
      proof (rule that [of b "s - 1" "Suc n" ?bs ?es a3])
        show "segment_loop cmp siz b e (int n) bs es arr = segment_loop cmp siz b (s - 1) (int (Suc n)) ?bs ?es a3"
          using be p(1-3) left True idx by (subst segment_loop.simps) (simp add: wr_in add.commute)
        show "segs (length arr) (stk ?bs ?es (Suc n) @ [(b, s - 1)])" unfolding sk
          by (rule segs_push [OF sg]) (use left p(4,5) in \<open>auto simp: disj_def seg_size_def\<close>)
        show "preorder_cmp cmp \<and> ordered_but cmp arr (set (?st @ [(b, e)])) \<longrightarrow>
            ordered_but cmp a3 (set (stk ?bs ?es (Suc n) @ [(b, s - 1)]))"
          unfolding sk using ord by (simp add: insert_commute)
        show "weight (stk ?bs ?es (Suc n) @ [(b, s - 1)]) < weight (?st @ [(b, e)])" unfolding sk
          using p(4,5) by (simp add: weight_def seg_size_def)
      qed (use st len p(4,5) be n31 in \<open>auto simp: seg_size_def QSORT_STACK_SIZE_def\<close>)
    next
      case False
      show thesis
      proof (rule that [of b "s - 1" n bs es a3])
        show "segment_loop cmp siz b e (int n) bs es arr = segment_loop cmp siz b (s - 1) (int n) bs es a3"
          using be p(1-3) left False by (subst segment_loop.simps) simp
        show "segs (length arr) (?st @ [(b, s - 1)])" by (rule segs_shrink [OF sg]) (use p(5) in auto)
        show "preorder_cmp cmp \<and> ordered_but cmp arr (set (?st @ [(b, e)])) \<longrightarrow>
            ordered_but cmp a3 (set (?st @ [(b, s - 1)]))"
        proof
          assume "preorder_cmp cmp \<and> ordered_but cmp arr (set (?st @ [(b, e)]))"
          then have "ordered_but cmp a3 (insert (s + 1, e) (insert (b, s - 1) (set ?st)))"
            by (subst insert_commute) (simp add: ord)
          from ordered_drop [OF this] False show "ordered_but cmp a3 (set (?st @ [(b, s - 1)]))" by simp
        qed
      qed (use st len p(4,5) be n_le in \<open>auto simp: seg_size_def weight_def\<close>)
    qed
  next
    case right: False
    show thesis
    proof (cases "b < s - 1")
      case True
      let ?bs = "bs[n := b]" and ?es = "es[n := s - 1]"
      have sk: "stk ?bs ?es (Suc n) = ?st @ [(b, s - 1)]" by (rule stk_push [OF idx(4,5)])
      show thesis
      proof (rule that [of "s + 1" e "Suc n" ?bs ?es a3])
        show "segment_loop cmp siz b e (int n) bs es arr = segment_loop cmp siz (s + 1) e (int (Suc n)) ?bs ?es a3"
          using be p(1-3) right True idx by (subst segment_loop.simps) (simp add: wr_in add.commute)
        show "segs (length arr) (stk ?bs ?es (Suc n) @ [(s + 1, e)])" unfolding sk
          by (rule segs_push [OF sg]) (use right p(4,5) in \<open>auto simp: disj_def seg_size_def\<close>)
        show "preorder_cmp cmp \<and> ordered_but cmp arr (set (?st @ [(b, e)])) \<longrightarrow>
            ordered_but cmp a3 (set (stk ?bs ?es (Suc n) @ [(s + 1, e)]))"
          unfolding sk using ord by simp
        show "weight (stk ?bs ?es (Suc n) @ [(s + 1, e)]) < weight (?st @ [(b, e)])" unfolding sk
          using p(4,5) by (simp add: weight_def seg_size_def)
      qed (use st len p(4,5) be n31 in \<open>auto simp: seg_size_def QSORT_STACK_SIZE_def\<close>)
    next
      case False
      show thesis
      proof (rule that [of "s + 1" e n bs es a3])
        show "segment_loop cmp siz b e (int n) bs es arr = segment_loop cmp siz (s + 1) e (int n) bs es a3"
          using be p(1-3) right False by (subst segment_loop.simps) simp
        show "segs (length arr) (?st @ [(s + 1, e)])" by (rule segs_shrink [OF sg]) (use p(4) in auto)
        show "preorder_cmp cmp \<and> ordered_but cmp arr (set (?st @ [(b, e)])) \<longrightarrow>
            ordered_but cmp a3 (set (?st @ [(s + 1, e)]))"
          using ordered_drop [OF ord] False by simp
      qed (use st len p(4,5) be n_le in \<open>auto simp: seg_size_def weight_def\<close>)
    qed
  qed
qed

lemma seg_result_step:
  assumes "seg_result cmp L' arr' r" and "weight L' < weight L" and "length arr' = length arr" and "mset arr' = mset arr"
    and "preorder_cmp cmp \<and> ordered_but cmp arr (set L) \<longrightarrow> ordered_but cmp arr' (set L')"
  shows "seg_result cmp L arr r"
proof -
  from assms(1) obtain n bs es a where r: "r = (int n, bs, es, a)" "n \<le> QSORT_STACK_SIZE" "length bs = QSORT_STACK_SIZE"
     "length es = QSORT_STACK_SIZE" "segs (length arr') (stk bs es n)" "weight (stk bs es n) < weight L'"
     "length a = length arr'" "mset a = mset arr'"
     "preorder_cmp cmp \<and> ordered_but cmp arr' (set L') \<longrightarrow> ordered_but cmp a (set (stk bs es n))"
    unfolding seg_result_def by blast
  then show ?thesis unfolding seg_result_def
    by (intro exI [of _ n] exI [of _ bs] exI [of _ es] exI [of _ a]) (use assms in simp)
qed

lemma seg_result_base:
  assumes "segs (length arr) (stk bs es n @ [(b, e)])" and "length bs = QSORT_STACK_SIZE" "length es = QSORT_STACK_SIZE"
    and "n \<le> QSORT_STACK_SIZE" and "\<not> b < e"
  shows "seg_result cmp (stk bs es n @ [(b, e)]) arr (int n, bs, es, arr)"
proof -
  have o: "ordered_but cmp arr (set (stk bs es n))" if "ordered_but cmp arr (set (stk bs es n @ [(b, e)]))"
  proof (rule ordered_drop)
    show "ordered_but cmp arr (insert (b, e) (set (stk bs es n)))" using that by simp
    show "e \<le> b" using assms(5) by simp
  qed
  have w: "weight (stk bs es n) < weight (stk bs es n @ [(b, e)])" by (simp add: weight_def)
  show ?thesis unfolding seg_result_def
    using assms(2-4) segs_snocD(1) [OF assms(1)] o w by blast
qed

lemma segment_loop_ok:
  assumes "segs (length arr) (stk bs es n @ [(b, e)])" and "length arr < 2 ^ 32" and "0 < siz"
    and "length bs = QSORT_STACK_SIZE" "length es = QSORT_STACK_SIZE" and "n \<le> QSORT_STACK_SIZE"
  shows "\<exists>r. segment_loop cmp siz b e (int n) bs es arr = Some r \<and> seg_result cmp (stk bs es n @ [(b, e)]) arr r"
  using assms
proof (induction "seg_size (b, e)" arbitrary: b e n bs es arr rule: less_induct)
  case less
  show ?case
  proof (cases "b < e")
    case False
    from False seg_result_base [OF less.prems(1,4,5,6) False, of cmp] show ?thesis
      by (subst segment_loop.simps) simp
  next
    case True
    obtain b' e' n' bs' es' arr' where
      s: "segment_loop cmp siz b e (int n) bs es arr = segment_loop cmp siz b' e' (int n') bs' es' arr'"
        "length bs' = QSORT_STACK_SIZE" "length es' = QSORT_STACK_SIZE" "n' \<le> QSORT_STACK_SIZE"
        "segs (length arr) (stk bs' es' n' @ [(b', e')])" "seg_size (b', e') < seg_size (b, e)"
        "weight (stk bs' es' n' @ [(b', e')]) < weight (stk bs es n @ [(b, e)])"
        "length arr' = length arr" "mset arr' = mset arr"
        "preorder_cmp cmp \<and> ordered_but cmp arr (set (stk bs es n @ [(b, e)])) \<longrightarrow>
          ordered_but cmp arr' (set (stk bs' es' n' @ [(b', e')]))"
      by (rule segment_step [OF less.prems True, of cmp])
    have sg: "segs (length arr') (stk bs' es' n' @ [(b', e')])" and l: "length arr' < 2 ^ 32"
      using s(5,8) less.prems(2) by simp_all
    from less.hyps [OF s(6) sg l less.prems(3) s(2-4)] obtain r where
      r: "segment_loop cmp siz b' e' (int n') bs' es' arr' = Some r" "seg_result cmp (stk bs' es' n' @ [(b', e')]) arr' r"
      by blast
    from seg_result_step [OF r(2) s(7-10)] s(1) r(1) show ?thesis by simp
  qed
qed

lemma stack_loop_ok:
  assumes "segs (length arr) (stk bs es n)" and "length arr < 2 ^ 32" and "0 < siz"
    and "length bs = QSORT_STACK_SIZE" "length es = QSORT_STACK_SIZE" and "n \<le> QSORT_STACK_SIZE"
  shows "\<exists>arr'. stack_loop cmp siz (int n - 1) bs es arr = Some arr' \<and> mset arr' = mset arr \<and>
    (preorder_cmp cmp \<and> ordered_but cmp arr (set (stk bs es n)) \<longrightarrow> ordered_but cmp arr' {})"
  using assms
proof (induction "weight (stk bs es n)" arbitrary: n bs es arr rule: less_induct)
  case less
  show ?case
  proof (cases n)
    case 0
    then show ?thesis by (subst stack_loop.simps) (simp add: stk_def)
  next
    case (Suc m)
    let ?b = "bs ! m" and ?e = "es ! m"
    have m: "int m < int (length bs)" "int m < int (length es)" "m \<le> QSORT_STACK_SIZE" using Suc less.prems by simp_all
    have sk: "stk bs es n = stk bs es m @ [(?b, ?e)]" unfolding Suc by (rule stk_Suc)
    obtain r where
      r: "segment_loop cmp siz ?b ?e (int m) bs es arr = Some r" "seg_result cmp (stk bs es n) arr r"
      using segment_loop_ok [OF less.prems(1) [unfolded sk] less.prems(2-5) m(3), of cmp] unfolding sk by blast
    from r(2) obtain n' bs' es' arr' where
      f: "r = (int n', bs', es', arr')" "n' \<le> QSORT_STACK_SIZE" "length bs' = QSORT_STACK_SIZE" "length es' = QSORT_STACK_SIZE"
        "segs (length arr) (stk bs' es' n')" "weight (stk bs' es' n') < weight (stk bs es n)"
        "length arr' = length arr" "mset arr' = mset arr"
        "preorder_cmp cmp \<and> ordered_but cmp arr (set (stk bs es n)) \<longrightarrow> ordered_but cmp arr' (set (stk bs' es' n'))"
      unfolding seg_result_def by blast
    have sg: "segs (length arr') (stk bs' es' n')" and l: "length arr' < 2 ^ 32" using f(5,7) less.prems(2) by simp_all
    from less.hyps [OF f(6) sg l less.prems(3) f(3,4,2)] obtain a where
      a: "stack_loop cmp siz (int n' - 1) bs' es' arr' = Some a" "mset a = mset arr'"
      "preorder_cmp cmp \<and> ordered_but cmp arr' (set (stk bs' es' n')) \<longrightarrow> ordered_but cmp a {}" by blast
    have "stack_loop cmp siz (int n - 1) bs es arr = Some a"
      using r(1) f(1) m a(1) by (subst stack_loop.simps) (simp add: rd_in Suc)
    with a(2,3) f(8,9) show ?thesis by simp
  qed
qed


lemma ordered_sorted: "ordered_but cmp arr {} \<Longrightarrow> sorted_wrt (\<lambda>x y. cmp x y \<le> 0) arr"
  unfolding sorted_wrt_iff_nth_less
proof (intro allI impI)
  fix i j assume o: "ordered_but cmp arr {}" and ij: "i < j" "j < length arr"
  from ij o have "cmp (el arr (int i)) (el arr (int j)) \<le> 0" unfolding ordered_but_def by (simp del: nat_int)
  then show "cmp (arr ! i) (arr ! j) \<le> 0" by simp
qed

lemma qsort_ok:
  assumes "0 < siz" and "length xs < 2 ^ 32"
  shows "\<exists>ys. zend_qsort siz cmp xs = Some ys \<and> mset ys = mset xs \<and>
    (preorder_cmp cmp \<longrightarrow> sorted_wrt (\<lambda>x y. cmp x y \<le> 0) ys)"
proof -
  let ?e = "int (length xs) - 1"
  let ?bs = "(replicate QSORT_STACK_SIZE 0)[0 := 0 :: int]" and ?es = "(replicate QSORT_STACK_SIZE 0)[0 := ?e]"
  have sk: "stk ?bs ?es (Suc 0) = [(0, ?e)]" by (simp add: stk_def QSORT_STACK_SIZE_def)
  have "segs (length xs) [(0, ?e)]" by (simp add: segs_def seg_size_def)
  then have sg: "segs (length xs) (stk ?bs ?es (Suc 0))" by (simp only: sk)
  have o: "ordered_but cmp xs (set (stk ?bs ?es (Suc 0)))" unfolding sk by (auto simp: ordered_but_def)
  have le: "Suc 0 \<le> QSORT_STACK_SIZE" by (simp add: QSORT_STACK_SIZE_def)
  from stack_loop_ok [OF sg assms(2,1) _ _ le, of cmp] obtain ys where
    ys: "stack_loop cmp siz (int (Suc 0) - 1) ?bs ?es xs = Some ys" "mset ys = mset xs"
      "preorder_cmp cmp \<longrightarrow> ordered_but cmp ys {}" using o by auto
  have "zend_qsort siz cmp xs = Some ys"
    using ys(1) by (simp add: zend_qsort_def zend_qsort_r_def wr_def QSORT_STACK_SIZE_def)
  with ys(2,3) ordered_sorted show ?thesis by blast
qed

subsection \<open>The interface of a sort function\<close>

text \<open>
  What \<open>zend_hash_sort\<close> relies on: the function returns a permutation of its input, sorted when
  the comparison is a total preorder.
\<close>

locale sort_function =
  fixes sort_func :: "nat \<Rightarrow> ('a \<Rightarrow> 'a \<Rightarrow> int) \<Rightarrow> 'a list \<Rightarrow> 'a list option"
  assumes sort_perm: "0 < siz \<Longrightarrow> length xs < 2 ^ 32 \<Longrightarrow> \<exists>ys. sort_func siz cmp xs = Some ys \<and> mset ys = mset xs"
    and sort_sorted: "0 < siz \<Longrightarrow> length xs < 2 ^ 32 \<Longrightarrow> preorder_cmp cmp \<Longrightarrow> sort_func siz cmp xs = Some ys \<Longrightarrow>
      sorted_wrt (\<lambda>x y. cmp x y \<le> 0) ys"
begin

lemma sort_result:
  assumes "0 < siz" and "length xs < 2 ^ 32" and "distinct xs"
  obtains ys where "sort_func siz cmp xs = Some ys" and "mset ys = mset xs" and "distinct ys"
    and "set ys = set xs" and "length ys = length xs"
    and "preorder_cmp cmp \<longrightarrow> sorted_wrt (\<lambda>x y. cmp x y \<le> 0) ys"
proof -
  obtain ys where ys: "sort_func siz cmp xs = Some ys" "mset ys = mset xs" using sort_perm [OF assms(1,2)] by blast
  have "set ys = set xs" "length ys = length xs" "distinct ys"
    using ys(2) assms(3) by (metis set_mset_mset, metis size_mset, metis mset_eq_imp_distinct_iff)
  with that [of ys] ys sort_sorted [OF assms(1,2) _ ys(1)] show thesis by blast
qed

end

interpretation zqsort: sort_function zend_qsort
proof
  fix siz :: nat and xs ys :: "'a list" and cmp :: "'a \<Rightarrow> 'a \<Rightarrow> int"
  assume a: "0 < siz" "length xs < 2 ^ 32"
  show "\<exists>ys. zend_qsort siz cmp xs = Some ys \<and> mset ys = mset xs" using qsort_ok [OF a, of cmp] by blast
  assume "preorder_cmp cmp" "zend_qsort siz cmp xs = Some ys"
  with qsort_ok [OF a, of cmp] show "sorted_wrt (\<lambda>x y. cmp x y \<le> 0) ys" by auto
qed

subsection \<open>Properties\<close>

text \<open>
  C6: \<open>zend_qsort\<close> on an array of fewer than 2^32 elements of any size ends, reads and writes
  only within the array and never overflows its stack of 32 segments; it permutes the elements
  for every comparison function and sorts them for every total preorder.
\<close>

theorem qsort_sorts:
  assumes "0 < siz" and "length xs < 2 ^ 32"
  shows "\<exists>ys. zend_qsort siz cmp xs = Some ys \<and> mset ys = mset xs \<and>
    (preorder_cmp cmp \<longrightarrow> sorted_wrt (\<lambda>x y. cmp x y \<le> 0) ys)"
  by (rule qsort_ok [OF assms])

theorem qsort_sorts_witness:
  "zend_qsort 4 (\<lambda>x y. x - y) [3, 1, 2, 2, 0] = Some [0, 1, 2, 2, 3] \<and>
   (\<exists>ys. zend_qsort 4 (\<lambda>x y :: int. x - y) [3, 1, 2, 2, 0] = Some ys \<and> mset ys = mset [3, 1, 2, 2, 0])"
proof
  show "zend_qsort 4 (\<lambda>x y :: int. x - y) [3, 1, 2, 2, 0] = Some [0, 1, 2, 2, 3]" by code_simp
  show "\<exists>ys. zend_qsort 4 (\<lambda>x y :: int. x - y) [3, 1, 2, 2, 0] = Some ys \<and> mset ys = mset [3, 1, 2, 2, 0]"
    using qsort_sorts [of 4 "[3, 1, 2, 2, 0]" "\<lambda>x y :: int. x - y"] by auto
qed

definition exchanged :: "nat \<Rightarrow> nat \<Rightarrow> nat \<Rightarrow> (nat \<Rightarrow> byte) \<Rightarrow> nat \<Rightarrow> byte" where
  "exchanged a b n mem x =
     (if a \<le> x \<and> x < a + n then mem (b + (x - a)) else if b \<le> x \<and> x < b + n then mem (a + (x - b)) else mem x)"

definition apart :: "nat \<Rightarrow> nat \<Rightarrow> nat \<Rightarrow> bool" where
  "apart a b n \<longleftrightarrow> a = b \<or> a + n \<le> b \<or> b + n \<le> a"

lemma swap_unit_exchanged: "apart a b w \<Longrightarrow> swap_unit w a b mem = exchanged a b w mem"
  by (auto simp: swap_unit_def exchanged_def apart_def fun_eq_iff)

lemma exchanged_0 [simp]: "exchanged a b 0 mem = mem"
  by (rule ext) (auto simp: exchanged_def)

lemma exchanged_same [simp]: "exchanged a a n mem = mem"
  by (rule ext) (auto simp: exchanged_def)

lemma exchanged_at:
  assumes "a + n \<le> b \<or> b + n \<le> a"
  shows "i < n \<Longrightarrow> exchanged a b n mem (a + i) = mem (b + i)" and "i < n \<Longrightarrow> exchanged a b n mem (b + i) = mem (a + i)"
    and "\<not> (a \<le> x \<and> x < a + n) \<Longrightarrow> \<not> (b \<le> x \<and> x < b + n) \<Longrightarrow> exchanged a b n mem x = mem x"
  using assms by (auto simp: exchanged_def)

lemma exchanged_append:
  assumes "apart a b (m + k)"
  shows "exchanged (a + m) (b + m) k (exchanged a b m mem) = exchanged a b (m + k) mem"
proof (cases "a = b")
  case False
  then have ap: "a + (m + k) \<le> b \<or> b + (m + k) \<le> a" using assms by (simp add: apart_def)
  then have ap1: "a + m \<le> b \<or> b + m \<le> a" "a + m + k \<le> b + m \<or> b + m + k \<le> a + m" by auto
  note at = exchanged_at [OF ap] and at1 = exchanged_at [OF ap1(1)] and at2 = exchanged_at [OF ap1(2)]
  show ?thesis
  proof
    fix x
    consider (a) i where "x = a + i" "i < m + k" | (b) i where "x = b + i" "i < m + k"
      | (c) "\<not> (a \<le> x \<and> x < a + (m + k))" "\<not> (b \<le> x \<and> x < b + (m + k))"
      by (metis add_less_cancel_left le_Suc_ex)
    then show "exchanged (a + m) (b + m) k (exchanged a b m mem) x = exchanged a b (m + k) mem x"
    proof cases
      case a
      show ?thesis
      proof (cases "i < m")
        case True
        then have "exchanged (a + m) (b + m) k (exchanged a b m mem) x = exchanged a b m mem x"
          using a ap by (intro at2(3)) auto
        then show ?thesis using a True at(1) at1(1) by simp
      next
        case False
        then obtain j where j: "i = m + j" "j < k" using a(2) by (metis add_less_cancel_left le_Suc_ex not_less)
        have "exchanged a b m mem (b + i) = mem (b + i)" using False ap j by (intro at1(3)) auto
        then show ?thesis using a j at(1) [of i] at2(1) [of j] by (simp add: add.assoc)
      qed
    next
      case b
      show ?thesis
      proof (cases "i < m")
        case True
        then have "exchanged (a + m) (b + m) k (exchanged a b m mem) x = exchanged a b m mem x"
          using b ap by (intro at2(3)) auto
        then show ?thesis using b True at(2) at1(2) by simp
      next
        case False
        then obtain j where j: "i = m + j" "j < k" using b(2) by (metis add_less_cancel_left le_Suc_ex not_less)
        have "exchanged a b m mem (a + i) = mem (a + i)" using False ap j by (intro at1(3)) auto
        then show ?thesis using b j at(2) [of i] at2(2) [of j] by (simp add: add.assoc)
      qed
    next
      case c
      then have "exchanged (a + m) (b + m) k (exchanged a b m mem) x = exchanged a b m mem x" by (intro at2(3)) auto
      moreover have "exchanged a b m mem x = mem x" using c by (intro at1(3)) auto
      ultimately show ?thesis using at(3) [OF c] by simp
    qed
  qed
qed simp

lemma apart_mono: "apart a b n \<Longrightarrow> m \<le> n \<Longrightarrow> apart a b m" "apart a b (m + k) \<Longrightarrow> apart (a + m) (b + m) k"
  by (auto simp: apart_def)

lemma swap_chars_ok:
  assumes "i \<le> Suc siz" and "apart a b (Suc siz - i)"
  shows "swap_chars siz i a b mem = exchanged a b (Suc siz - i) mem"
  using assms
proof (induction siz i a b mem rule: swap_chars.induct)
  case (1 siz i a b mem)
  show ?case
  proof (cases "i \<le> siz")
    case True
    then have n: "Suc siz - i = 1 + (Suc siz - (i + 1))" by simp
    have ap: "apart a b (1 + (Suc siz - (i + 1)))" using "1.prems"(2) n by metis
    have "swap_chars siz i a b mem = swap_chars siz (i + 1) (a + 1) (b + 1) (swap_unit 1 a b mem)"
      using True by (subst swap_chars.simps) simp
    also have "\<dots> = exchanged (a + 1) (b + 1) (Suc siz - (i + 1)) (swap_unit 1 a b mem)"
      by (rule "1.IH" [OF True]) (use True apart_mono(2) [OF ap] in auto)
    also have "\<dots> = exchanged a b (1 + (Suc siz - (i + 1))) mem"
      using exchanged_append [OF ap] swap_unit_exchanged [OF apart_mono(1) [OF ap, of 1]] by simp
    finally show ?thesis using n by metis
  next
    case False
    then show ?thesis using "1.prems"(1) by (subst swap_chars.simps) simp
  qed
qed

lemma swap_ints_ok:
  assumes "apart a b (siz + 4 - i)" and "4 \<le> i"
  shows "swap_ints siz i a b mem = (let q = 4 * ((siz + 4 - i) div 4) in (i + q, a + q, b + q, exchanged a b q mem))"
  using assms
proof (induction siz i a b mem rule: swap_ints.induct)
  case (1 siz i a b mem)
  show ?case
  proof (cases "i \<le> siz")
    case True
    let ?q = "4 * ((siz - i) div 4)"
    have dv: "(siz + 4 - i) div 4 = Suc ((siz - i) div 4)" using True by simp
    have "4 + (siz - i) = siz + 4 - i" using True by simp
    then have ap: "apart a b (4 + (siz - i))" using "1.prems"(1) by simp
    have "swap_ints siz i a b mem = swap_ints siz (i + 4) (a + 4) (b + 4) (swap_unit 4 a b mem)"
      using True by (subst swap_ints.simps) (simp add: sizeof_int_def)
    also have "\<dots> = (i + 4 + ?q, a + 4 + ?q, b + 4 + ?q, exchanged (a + 4) (b + 4) ?q (swap_unit 4 a b mem))"
      using "1.IH" [OF True] apart_mono(2) [OF ap] by (simp add: sizeof_int_def Let_def)
    also have "exchanged (a + 4) (b + 4) ?q (swap_unit 4 a b mem) = exchanged a b (4 + ?q) mem"
    proof -
      have "apart a b (4 + ?q)" by (rule apart_mono(1) [OF ap]) simp
      then show ?thesis using exchanged_append [of a b 4 ?q mem] swap_unit_exchanged [OF apart_mono(1) [OF ap, of 4]] by simp
    qed
    finally show ?thesis by (simp add: dv Let_def add.commute add.left_commute)
  next
    case False
    then have "(siz + 4 - i) div 4 = 0" by simp
    with False show ?thesis by (subst swap_ints.simps) simp
  qed
qed

text \<open>
  \<open>_zend_qsort_swap\<close> exchanges two memory blocks of \<open>siz\<close> bytes that are the same block or
  do not overlap, for every size, and changes no other byte.
\<close>

theorem qsort_swap_exchanges:
  assumes "a = b \<or> a + siz \<le> b \<or> b + siz \<le> a"
  shows "zend_qsort_swap a b siz mem x =
    (if a \<le> x \<and> x < a + siz then mem (b + (x - a)) else if b \<le> x \<and> x < b + siz then mem (a + (x - b)) else mem x)"
proof -
  let ?q = "4 * (siz div 4)"
  have ap: "apart a b siz" using assms by (simp add: apart_def)
  have q: "?q + (siz - ?q) = siz" by simp
  have "swap_ints siz sizeof_int a b mem = (4 + ?q, a + ?q, b + ?q, exchanged a b ?q mem)"
    using swap_ints_ok [of a b siz 4 mem] ap by (simp add: sizeof_int_def Let_def)
  then have "zend_qsort_swap a b siz mem = swap_chars siz (?q + 1) (a + ?q) (b + ?q) (exchanged a b ?q mem)"
    by (simp add: zend_qsort_swap_def sizeof_int_def)
  also have "\<dots> = exchanged (a + ?q) (b + ?q) (siz - ?q) (exchanged a b ?q mem)"
    using swap_chars_ok [of "?q + 1" siz "a + ?q" "b + ?q"] apart_mono(2) [of a b ?q "siz - ?q"] ap q by simp
  also have "\<dots> = exchanged a b siz mem" using exchanged_append [of a b ?q "siz - ?q" mem] ap q by simp
  finally show ?thesis by (simp add: exchanged_def)
qed

theorem qsort_swap_exchanges_witness:
  "zend_qsort_swap 0 6 6 (\<lambda>i. of_nat i) 1 = 7 \<and> zend_qsort_swap 0 6 6 (\<lambda>i. of_nat i) 11 = 5"
  using qsort_swap_exchanges [of 0 6 6 "\<lambda>i. of_nat i" 1] qsort_swap_exchanges [of 0 6 6 "\<lambda>i. of_nat i" 11] by simp

end
