(* ===== verification/Zend_Hash_Bulk_Spec.thy ===== *)
theory Zend_Hash_Bulk_Spec
  imports Zend_Hash_Bulk Zend_Sort_Spec
begin

text \<open>
  Copy, merge, renumbering, splice, sort, comparison and minimum/maximum against the association
  lists the tables stand for.
\<close>

subsection \<open>Copying one bucket\<close>

definition ctor_fun :: "('d \<Rightarrow> 'd) option \<Rightarrow> 'd \<Rightarrow> 'd" where
  "ctor_fun c d = (case c of None \<Rightarrow> d | Some f \<Rightarrow> f d)"

lemma bucket_key_arg: "bucket_wf a b \<Longrightarrow> nKeyLength b \<noteq> 0 \<Longrightarrow> key_arg (arKey b) (nKeyLength b) (b_h b)"
  by (auto simp: bucket_wf_def key_arg_def)

lemma update_update: "AList.update k d2 (AList.update k d1 al) = AList.update k d2 al"
  by (induction al) auto

lemma run_ctor_ok:
  assumes "hash_refines t (AList.update k d al)" and "heap t x = Some b" and "bucket_key b = k" and "pData b = d"
  shows "\<exists>t'. run_ctor c (Some x) t = Some t' \<and> hash_refines t' (AList.update k (ctor_fun c d) al) \<and>
    dtor_log t' = dtor_log t \<and> pDestructor t' = pDestructor t"
proof (cases c)
  case None
  then show ?thesis using assms(1) by (simp add: run_ctor_def ctor_fun_def)
next
  case (Some f)
  obtain xs where xs: "hash_inv t xs" "clean_keys t" "entries t xs = AList.update k d al"
    using assms(1) by (rule hash_refinesE)
  have x: "x \<in> set xs" using hash_invD(5) [OF xs(1)] assms(2) by blast
  let ?t = "t\<lparr>dtor_log := dtor_log t, heap := (heap t)(x \<mapsto> b\<lparr>pData := f d, pDataInline := pDataInline b\<rparr>)\<rparr>"
  note sd = set_data_inv [OF xs(1,2) x assms(2) refl, where l = "dtor_log t" and d = "f d" and il = "pDataInline b"]
  have "hash_refines ?t (AList.update k (f d) al)"
    using sd assms(3) xs(3) by (auto simp: hash_refines_def update_update)
  then show ?thesis using Some assms(2,4) by (simp add: run_ctor_def ctor_fun_def ht_write_def)
qed

lemma put_str_ok:
  assumes "hash_refines t al" and "length al < 2 ^ 32 - 1" and "bucket_wf a b" and "nKeyLength b \<noteq> 0"
    and "flag = HASH_UPDATE \<or> flag = HASH_ADD"
  shows "\<exists>t' st dest. zend_hash_quick_add_or_update (arKey b) (nKeyLength b) (b_h b) (pData b) sz flag t = Some (t', st, dest) \<and>
    (if flag = HASH_ADD \<and> bucket_key b \<in> fst ` set al then st = FAILURE \<and> hash_refines t' al
     else st = SUCCESS \<and> (\<exists>t''. run_ctor c dest t' = Some t'' \<and>
       hash_refines t'' (AList.update (bucket_key b) (ctor_fun c (pData b)) al)))"
proof -
  obtain xs where xs: "hash_inv t xs" "clean_keys t" "entries t xs = al" "length al = length xs"
    using assms(1) by (rule hash_refinesE)
  have n: "Suc (length xs) < 2 ^ 32" using assms(2) xs(4) by simp
  have k: "KStr (cstr_bytes (arKey b)) = bucket_key b" using assms(4) by (simp add: bucket_key_def)
  have fl: "flag AND HASH_ADD \<noteq> 0 \<longleftrightarrow> flag = HASH_ADD" using assms(5) by (auto simp: HASH_UPDATE_def HASH_ADD_def)
  from quick_add_ok [OF xs(1,2) bucket_key_arg [OF assms(3,4)] n, of "pData b" sz flag] obtain t' st dest where
    r: "zend_hash_quick_add_or_update (arKey b) (nKeyLength b) (b_h b) (pData b) sz flag t = Some (t', st, dest)"
    "add_result (flag = HASH_ADD) (bucket_key b) (pData b) al t (t', st, dest)"
    unfolding k fl xs(3) by (metis prod_cases3)
  then show ?thesis using run_ctor_ok [of t' "bucket_key b" "pData b" al _ _ c]
    by (fastforce simp: add_result_def)
qed

lemma put_int_ok:
  assumes "hash_refines t al" and "length al < 2 ^ 32 - 1" and "nKeyLength b = 0"
  shows "\<exists>t' dest. zend_hash_index_update_or_next_insert (b_h b) (pData b) sz HASH_UPDATE t = Some (t', SUCCESS, dest) \<and>
    (\<exists>t''. run_ctor c dest t' = Some t'' \<and> hash_refines t'' (AList.update (bucket_key b) (ctor_fun c (pData b)) al))"
proof -
  obtain xs where xs: "hash_inv t xs" "clean_keys t" "entries t xs = al" "length al = length xs"
    using assms(1) by (rule hash_refinesE)
  have n: "Suc (length xs) < 2 ^ 32" using assms(2) xs(4) by simp
  have k: "KInt (b_h b) = bucket_key b" using assms(3) by (simp add: bucket_key_def)
  from index_add_ok [OF xs(1,2) n, of "b_h b" "pData b" sz HASH_UPDATE] obtain t' st dest where
    r: "zend_hash_index_update_or_next_insert (b_h b) (pData b) sz HASH_UPDATE t = Some (t', st, dest)"
    "add_result False (bucket_key b) (pData b) al t (t', st, dest)"
    by (auto simp: xs(3) k index_of_flag_def)
  then show ?thesis using run_ctor_ok [of t' "bucket_key b" "pData b" al _ _ c]
    by (fastforce simp: add_result_def)
qed

subsection \<open>Copy and merge\<close>

primrec merge_spec :: "bool \<Rightarrow> ('d \<Rightarrow> 'd) \<Rightarrow> (hkey \<times> 'd) list \<Rightarrow> (hkey \<times> 'd) list \<Rightarrow> (hkey \<times> 'd) list" where
  "merge_spec overwrite f al [] = al"
| "merge_spec overwrite f al (e # bl) =
     merge_spec overwrite f
       (if \<not> overwrite \<and> fst e \<in> fst ` set al then al else AList.update (fst e) (f (snd e)) al) bl"

lemma length_update_le: "length (AList.update k d al) \<le> Suc (length al)"
  by (induction al) auto

lemma merge_step_ok:
  assumes "hash_refines t al" and "length al < 2 ^ 32 - 1" and "bucket_wf a b"
    and mode: "mode = (if overwrite then HASH_UPDATE else HASH_ADD)"
  shows "\<exists>t'. (if 0 < nKeyLength b then do {
            (target, st, t) \<leftarrow> zend_hash_quick_add_or_update (arKey b) (nKeyLength b) (b_h b) (pData b) siz mode t;
            if st = SUCCESS then run_ctor c t target else Some target
          }
          else do {
            present \<leftarrow> (if mode = HASH_UPDATE then Some False else zend_hash_index_exists (b_h b) t);
            if present then Some t
            else do {
              (target, st, t) \<leftarrow> zend_hash_index_update_or_next_insert (b_h b) (pData b) siz HASH_UPDATE t;
              if st = SUCCESS then run_ctor c t target else Some target
            }
          }) = Some t' \<and>
     hash_refines t' (if \<not> overwrite \<and> bucket_key b \<in> fst ` set al then al
       else AList.update (bucket_key b) (ctor_fun c (pData b)) al)"
proof (cases "nKeyLength b = 0")
  case False
  have m: "mode = HASH_ADD \<longleftrightarrow> \<not> overwrite" "mode = HASH_UPDATE \<or> mode = HASH_ADD"
    using mode by (auto simp: HASH_UPDATE_def HASH_ADD_def)
  from False have p: "0 < nKeyLength b" by (simp add: word_neq_0_conv)
  from put_str_ok [OF assms(1,2,3) False m(2), of siz c] p m(1) show ?thesis by (auto split: if_splits)
next
  case True
  obtain xs where xs: "hash_inv t xs" "entries t xs = al" using assms(1) by (rule hash_refinesE)
  have k: "bucket_key b = KInt (b_h b)" using True by (simp add: bucket_key_def)
  have "zend_hash_index_exists (b_h b) t = Some (bucket_key b \<in> fst ` set al)"
    using index_find_ok [OF xs(1), of "b_h b"] xs(2) k by (auto simp: map_of_eq_None_iff)
  with put_int_ok [OF assms(1,2) True, of siz c] True mode assms(1) show ?thesis
    by (auto simp: HASH_UPDATE_def HASH_ADD_def)
qed

lemma source_split:
  assumes "hash_inv ht (us @ a # vs)"
  obtains b where "heap ht a = Some b" and "bucket_wf a b" and "pListNext b = head_opt vs"
    and "entries ht (a # vs) = (bucket_key b, pData b) # entries ht vs"
proof -
  obtain b where b: "heap ht a = Some b" using hash_invD(5) [OF assms] by fastforce
  have "linked (\<lambda>a. pListNext (the (heap ht a))) (\<lambda>a. pListLast (the (heap ht a))) (us @ a # vs)"
    using hash_invD(3) [OF assms] by (simp add: glist_def)
  from linked_split(1) [OF this] b have "pListNext b = head_opt vs" by simp
  moreover have "bucket_wf a b" using hash_invD(9) [OF assms, of a] b by simp
  ultimately show thesis using that b by (simp add: entries_Cons)
qed

lemma merge_loop_ok:
  assumes "hash_inv source (us @ ys)" and "hash_refines t al" and "length al + length ys < 2 ^ 32"
    and "mode = (if overwrite then HASH_UPDATE else HASH_ADD)"
  shows "\<exists>t'. merge_loop source c siz mode (head_opt ys) t = Some t' \<and>
    hash_refines t' (merge_spec overwrite (ctor_fun c) al (entries source ys))"
  using assms(1-3)
proof (induction ys arbitrary: us t al)
  case Nil
  then show ?case by (simp add: merge_loop.simps)
next
  case (Cons a ys)
  obtain b where b: "heap source a = Some b" "bucket_wf a b" "pListNext b = head_opt ys"
    "entries source (a # ys) = (bucket_key b, pData b) # entries source ys"
    using source_split [OF Cons.prems(1)] by metis
  let ?al = "if \<not> overwrite \<and> bucket_key b \<in> fst ` set al then al
       else AList.update (bucket_key b) (ctor_fun c (pData b)) al"
  have len: "length ?al + length ys < 2 ^ 32" "length al < 2 ^ 32 - 1"
    using Cons.prems(3) length_update_le [of "bucket_key b" "ctor_fun c (pData b)" al] by auto
  have inv: "hash_inv source ((us @ [a]) @ ys)" using Cons.prems(1) by simp
  from merge_step_ok [OF Cons.prems(2) len(2) b(2) assms(4), of siz c] obtain t1 where
    t1: "merge_loop source c siz mode (Some a) t = merge_loop source c siz mode (head_opt ys) t1" "hash_refines t1 ?al"
    using b(1,3) by (subst (asm) merge_loop.simps) (auto simp: merge_loop.simps [of source c siz mode "Some a" t])
  with Cons.IH [OF inv t1(2) len(1)] b(4) show ?case by (simp split del: if_split cong: if_cong)
qed


lemma set_internal:
  assumes "hash_refines t al" and "\<And>xs. hash_inv t xs \<Longrightarrow> p = None \<or> p = head_opt xs"
  shows "hash_refines (t\<lparr>pInternalPointer := p\<rparr>) al"
proof -
  obtain xs where xs: "hash_inv t xs" "clean_keys t" "entries t xs = al"
    using assms(1) by (rule hash_refinesE)
  from assms(2) [OF xs(1)] have "hash_inv (t\<lparr>pInternalPointer := p\<rparr>) xs"
    using xs(1) by (auto simp: hash_inv_def table_ok_def entries_def dest: head_opt_in_set [OF sym])
  moreover have "clean_keys (t\<lparr>pInternalPointer := p\<rparr>)" using xs(2) by (simp add: clean_keys_def)
  moreover have "entries (t\<lparr>pInternalPointer := p\<rparr>) xs = al" using xs(3) by (simp add: entries_def)
  ultimately show ?thesis by (auto simp: hash_refines_def)
qed

lemma set_internal_head: "hash_refines t al \<Longrightarrow> hash_refines (t\<lparr>pInternalPointer := pListHead t\<rparr>) al"
  by (erule set_internal) (auto dest: hash_invD(3) simp: glist_def)

lemma copy_loop_ok:
  assumes "hash_inv source (us @ ys)" and "hash_refines t al" and "length al + length ys < 2 ^ 32"
  shows "\<exists>t'. copy_loop source c siz setp (head_opt ys) t = Some t' \<and>
    hash_refines t' (merge_spec True (ctor_fun c) al (entries source ys))"
  using assms
proof (induction ys arbitrary: us t al)
  case Nil
  then show ?case by (simp add: copy_loop.simps)
next
  case (Cons a ys)
  obtain b where b: "heap source a = Some b" "bucket_wf a b" "pListNext b = head_opt ys"
    "entries source (a # ys) = (bucket_key b, pData b) # entries source ys"
    using source_split [OF Cons.prems(1)] by metis
  let ?al = "AList.update (bucket_key b) (ctor_fun c (pData b)) al"
  let ?t = "if setp \<and> pInternalPointer source = Some a then t\<lparr>pInternalPointer := None\<rparr> else t"
  have len: "length ?al + length ys < 2 ^ 32" "length al < 2 ^ 32 - 1"
    using Cons.prems(3) length_update_le [of "bucket_key b" "ctor_fun c (pData b)" al] by auto
  have t: "hash_refines ?t al" using Cons.prems(2) set_internal [OF Cons.prems(2), of None] by simp
  have inv: "hash_inv source ((us @ [a]) @ ys)" using Cons.prems(1) by simp
  have "\<exists>t1. copy_loop source c siz setp (Some a) t = copy_loop source c siz setp (head_opt ys) t1 \<and> hash_refines t1 ?al"
  proof (cases "nKeyLength b = 0")
    case True
    with put_int_ok [OF t len(2) True, of siz c] b(1,3) show ?thesis by (subst copy_loop.simps) auto
  next
    case False
    with put_str_ok [OF t len(2) b(2) False, of HASH_UPDATE siz c] b(1,3) show ?thesis
      by (subst copy_loop.simps) (auto simp: HASH_UPDATE_def HASH_ADD_def)
  qed
  with Cons.IH [OF inv _ len(1)] b(4) show ?case by auto
qed

text \<open>\<open>zend_hash_merge_ex\<close> is for tables with string keys only: function and class tables.\<close>

definition str_keys :: "(hkey \<times> 'd) list \<Rightarrow> bool" where
  "str_keys al \<longleftrightarrow> (\<forall>e\<in>set al. \<exists>bs. fst e = KStr bs)"

primrec merge_ex_spec ::
  "((hkey \<times> 'd) list \<Rightarrow> 'd \<Rightarrow> hkey \<Rightarrow> bool) \<Rightarrow> ('d \<Rightarrow> 'd) \<Rightarrow> (hkey \<times> 'd) list \<Rightarrow> (hkey \<times> 'd) list \<Rightarrow> (hkey \<times> 'd) list" where
  "merge_ex_spec chk f al [] = al"
| "merge_ex_spec chk f al (e # bl) =
     merge_ex_spec chk f (if chk al (snd e) (fst e) then AList.update (fst e) (f (snd e)) al else al) bl"

text \<open>A checker that looks at the target only through what it stands for.\<close>

definition checks :: "('d HashTable \<Rightarrow> 'd \<Rightarrow> zend_hash_key \<Rightarrow> bool) \<Rightarrow> ((hkey \<times> 'd) list \<Rightarrow> 'd \<Rightarrow> hkey \<Rightarrow> bool) \<Rightarrow> bool" where
  "checks f chk \<longleftrightarrow> (\<forall>t al d k. hash_refines t al \<longrightarrow> f t d k = chk al d (abs_key k))"

lemma merge_ex_loop_ok:
  assumes "hash_inv source (us @ ys)" and "hash_refines t al" and "length al + length ys < 2 ^ 32"
    and "str_keys (entries source ys)" and chk: "checks f chk"
  shows "\<exists>t'. merge_ex_loop source c siz f (head_opt ys) t = Some t' \<and>
    hash_refines t' (merge_ex_spec chk (ctor_fun c) al (entries source ys))"
  using assms(1-4)
proof (induction ys arbitrary: us t al)
  case Nil
  then show ?case by (simp add: merge_ex_loop.simps)
next
  case (Cons a ys)
  obtain b where b: "heap source a = Some b" "bucket_wf a b" "pListNext b = head_opt ys"
    "entries source (a # ys) = (bucket_key b, pData b) # entries source ys"
    using source_split [OF Cons.prems(1)] by metis
  let ?ok = "chk al (pData b) (bucket_key b)"
  let ?al = "if ?ok then AList.update (bucket_key b) (ctor_fun c (pData b)) al else al"
  have len: "length ?al + length ys < 2 ^ 32" "length al < 2 ^ 32 - 1"
    using Cons.prems(3) length_update_le [of "bucket_key b" "ctor_fun c (pData b)" al] by auto
  have nz: "nKeyLength b \<noteq> 0" and sk: "str_keys (entries source ys)"
    using Cons.prems(4) b(4) by (auto simp: str_keys_def bucket_key_def)
  have w: "zend_hash_replace_checker_wrapper t (pData b) b f = ?ok"
    using chk Cons.prems(2) by (simp add: zend_hash_replace_checker_wrapper_def checks_def bucket_abs_key)
  have inv: "hash_inv source ((us @ [a]) @ ys)" using Cons.prems(1) by simp
  have "\<exists>t1. merge_ex_loop source c siz f (Some a) t = merge_ex_loop source c siz f (head_opt ys) t1 \<and> hash_refines t1 ?al"
    using put_str_ok [OF Cons.prems(2) len(2) b(2) nz, of HASH_UPDATE siz c] b(1,3) Cons.prems(2)
    by (subst merge_ex_loop.simps) (auto simp: w HASH_UPDATE_def HASH_ADD_def)
  with Cons.IH [OF inv _ len(1) sk] b(4) show ?case by (auto split del: if_split cong: if_cong)
qed


subsection \<open>Renumbering\<close>

primrec renum :: "bool \<Rightarrow> ulong \<Rightarrow> (hkey \<times> 'd) list \<Rightarrow> (hkey \<times> 'd) list" where
  "renum only off [] = []"
| "renum only off (e # al) =
     (if only \<and> (\<exists>bs. fst e = KStr bs) then e # renum only off al
      else (KInt off, snd e) # renum only (off + 1) al)"

primrec renum_end :: "bool \<Rightarrow> ulong \<Rightarrow> (hkey \<times> 'd) list \<Rightarrow> ulong" where
  "renum_end only off [] = off"
| "renum_end only off (e # al) =
     renum_end only (if only \<and> (\<exists>bs. fst e = KStr bs) then off else off + 1) al"

lemma reindex_loop_Some:
  "reindex_loop only off (Some a) ht = do {
     b \<leftarrow> heap ht a;
     let new = (\<not> only \<or> nKeyLength b = 0);
     let ht = (if new then ht\<lparr>heap := (heap ht)(a \<mapsto> b\<lparr>b_h := off, nKeyLength := 0\<rparr>)\<rparr> else ht);
     ht \<leftarrow> link_chain a ht;
     b \<leftarrow> heap ht a;
     reindex_loop only (if new then off + 1 else off) (pListNext b) ht
   }"
  by (subst reindex_loop.simps, cases "heap ht a") (simp_all add: link_chain_def ht_write_def Let_def)

definition links_data :: "'d Bucket \<Rightarrow> ptr \<times> ptr \<times> cstr \<times> 'd \<times> bool" where
  "links_data b = (pListNext b, pListLast b, arKey b, pData b, pDataInline b)"

lemma view_list_links: "same_by view_list hp hp' \<Longrightarrow> same_by links_data hp hp'"
  unfolding same_by_def
proof
  fix a assume "\<forall>a. map_option view_list (hp' a) = map_option view_list (hp a)"
  then have "map_option view_list (hp' a) = map_option view_list (hp a)" ..
  then show "map_option links_data (hp' a) = map_option links_data (hp a)"
    by (cases "hp a"; cases "hp' a") (auto simp: view_list_def links_data_def payload_def)
qed

lemma glist_links: "same_by links_data hp hp' \<Longrightarrow> set xs \<subseteq> dom hp \<Longrightarrow> glist hp' pf pl xs = glist hp pf pl xs"
  by (rule glist_fields, drule same_by_at, erule (1) subsetD) (simp add: links_data_def)

text \<open>What one turn of the loop does to the bucket \<open>a\<close>: its label and its chain.\<close>

lemma reindex_step:
  assumes g: "glist (heap ht) pf pl (us @ a # vs)" and dom: "set (us @ a # vs) \<subseteq> dom (heap ht)"
    and ch: "chains (heap ht) (arBuckets ht) (nTableMask ht) (set us) cs"
    and len: "length (arBuckets ht) = Suc (unat (nTableMask ht))"
    and b: "heap ht a = Some b" and new: "new \<longleftrightarrow> \<not> only \<or> nKeyLength b = 0"
  shows "\<exists>hp ar cs'. reindex_loop only off (Some a) ht =
       reindex_loop only (if new then off + 1 else off) (head_opt vs) (ht\<lparr>heap := hp, arBuckets := ar\<rparr>) \<and>
     same_by links_data (heap ht) hp \<and> (\<forall>x. x \<noteq> a \<longrightarrow> map_option payload (hp x) = map_option payload (heap ht x)) \<and>
     b_h (the (hp a)) = (if new then off else b_h b) \<and> nKeyLength (the (hp a)) = (if new then 0 else nKeyLength b) \<and>
     length ar = length (arBuckets ht) \<and> chains hp ar (nTableMask ht) (set (us @ [a])) cs'"
proof -
  define b1 where "b1 = (if new then b\<lparr>b_h := off, nKeyLength := 0\<rparr> else b)"
  let ?ht = "ht\<lparr>heap := (heap ht)(a \<mapsto> b1)\<rparr>"
  have a: "a \<notin> set us" using g by (auto simp: glist_def linked_def)
  have ch1: "chains (heap ?ht) (arBuckets ?ht) (nTableMask ?ht) (set us) cs"
    by (simp, rule chains_off [OF _ ch]) (use a in auto)
  let ?i = "hash_index ?ht (b_h b1)"
  have "?i < length (arBuckets ?ht)" using len by (simp add: hash_index_def word_and_lt_Suc_mask)
  from link_chain_ok [OF ch1 _ _ _ refl this, of a] dom a obtain hp where
    hp: "link_chain a ?ht = Some (?ht\<lparr>heap := hp, arBuckets := (arBuckets ht)[?i := Some a]\<rparr>)"
      "same_by view_list (heap ?ht) hp"
      "chains hp ((arBuckets ht)[?i := Some a]) (nTableMask ht) (insert a (set us)) (cs(?i := a # cs ?i))"
    by (auto split: if_splits)
  have l1: "same_by links_data (heap ht) (heap ?ht)"
    using b by (auto simp: same_by_def links_data_def b1_def)
  have l: "same_by links_data (heap ht) hp" using same_by_trans [OF l1 view_list_links [OF hp(2)]] .
  have p: "map_option payload (hp x) = map_option payload (if x = a then Some b1 else heap ht x)" for x
    using same_by_payload(1) [OF hp(2)] by (auto simp: same_by_def)
  obtain b2 where b2: "hp a = Some b2" using same_by_dom [OF l] b by blast
  then have "payload b2 = payload b1" using p [of a] by simp
  then have lab: "b_h b2 = b_h b1" "nKeyLength b2 = nKeyLength b1" by (simp_all add: payload_def)
  have "glist hp pf pl (us @ a # vs)" using glist_links [OF l dom] g by simp
  then have nx: "pListNext b2 = head_opt vs" using b2 linked_split(1) [of _ _ us a vs] by (fastforce simp: glist_def)
  have "reindex_loop only off (Some a) ht =
       reindex_loop only (if new then off + 1 else off) (head_opt vs) (ht\<lparr>heap := hp, arBuckets := (arBuckets ht)[?i := Some a]\<rparr>)"
    using hp(1) b b2 nx new fun_upd_triv [of "heap ht" a]
    by (auto simp: reindex_loop_Some b1_def Let_def split: if_splits)
  with l p lab b2 hp(3) show ?thesis
    by (intro exI [of _ hp] exI [of _ "(arBuckets ht)[?i := Some a]"] exI [of _ "cs(?i := a # cs ?i)"])
       (simp add: b1_def)
qed

lemma reindex_loop_ok:
  assumes "glist (heap ht) pf pl (us @ vs)" and "set (us @ vs) \<subseteq> dom (heap ht)"
    and "chains (heap ht) (arBuckets ht) (nTableMask ht) (set us) cs"
    and "length (arBuckets ht) = Suc (unat (nTableMask ht))"
  shows "\<exists>hp ar cs'. reindex_loop only off (head_opt vs) ht =
       Some (ht\<lparr>heap := hp, arBuckets := ar\<rparr>, renum_end only off (entries ht vs)) \<and>
     same_by links_data (heap ht) hp \<and> (\<forall>x. x \<notin> set vs \<longrightarrow> map_option payload (hp x) = map_option payload (heap ht x)) \<and>
     length ar = length (arBuckets ht) \<and> chains hp ar (nTableMask ht) (set (us @ vs)) cs' \<and>
     entries (ht\<lparr>heap := hp\<rparr>) vs = renum only off (entries ht vs) \<and>
     (\<forall>x\<in>set vs. nKeyLength (the (hp x)) \<noteq> 0 \<longrightarrow> only \<and> nKeyLength (the (hp x)) = nKeyLength (the (heap ht x)) \<and>
        b_h (the (hp x)) = b_h (the (heap ht x)))"
  using assms
proof (induction vs arbitrary: us ht cs off)
  case Nil
  then show ?case
    by (intro exI [of _ "heap ht"] exI [of _ "arBuckets ht"] exI [of _ cs]) (simp add: reindex_loop.simps)
next
  case (Cons a vs)
  obtain b where b: "heap ht a = Some b" using Cons.prems(2) by auto
  define new where "new = (\<not> only \<or> nKeyLength b = 0)"
  define off1 where "off1 = (if new then off + 1 else off)"
  from reindex_step [OF Cons.prems b new_def, of off] obtain hp1 ar1 cs1 where
    s: "reindex_loop only off (Some a) ht = reindex_loop only off1 (head_opt vs) (ht\<lparr>heap := hp1, arBuckets := ar1\<rparr>)"
    "same_by links_data (heap ht) hp1" "\<forall>x. x \<noteq> a \<longrightarrow> map_option payload (hp1 x) = map_option payload (heap ht x)"
    "b_h (the (hp1 a)) = (if new then off else b_h b)" "nKeyLength (the (hp1 a)) = (if new then 0 else nKeyLength b)"
    "length ar1 = length (arBuckets ht)" "chains hp1 ar1 (nTableMask ht) (set (us @ [a])) cs1"
    unfolding off1_def by blast
  let ?ht = "ht\<lparr>heap := hp1, arBuckets := ar1\<rparr>"
  have dom1: "dom hp1 = dom (heap ht)" by (rule same_by_dom [OF s(2)])
  have av: "a \<notin> set vs" "a \<notin> set us" using Cons.prems(1) by (auto simp: glist_def linked_def)
  have "\<exists>hp ar cs'. reindex_loop only off1 (head_opt vs) ?ht =
       Some (?ht\<lparr>heap := hp, arBuckets := ar\<rparr>, renum_end only off1 (entries ?ht vs)) \<and>
     same_by links_data (heap ?ht) hp \<and> (\<forall>x. x \<notin> set vs \<longrightarrow> map_option payload (hp x) = map_option payload (heap ?ht x)) \<and>
     length ar = length (arBuckets ?ht) \<and> chains hp ar (nTableMask ?ht) (set ((us @ [a]) @ vs)) cs' \<and>
     entries (?ht\<lparr>heap := hp\<rparr>) vs = renum only off1 (entries ?ht vs) \<and>
     (\<forall>x\<in>set vs. nKeyLength (the (hp x)) \<noteq> 0 \<longrightarrow> only \<and> nKeyLength (the (hp x)) = nKeyLength (the (heap ?ht x)) \<and>
        b_h (the (hp x)) = b_h (the (heap ?ht x)))"
    by (rule Cons.IH) (use Cons.prems glist_links [OF s(2) Cons.prems(2)] dom1 s(6,7) in simp_all)
  then obtain hp ar cs' where r: "reindex_loop only off1 (head_opt vs) ?ht =
       Some (ht\<lparr>heap := hp, arBuckets := ar\<rparr>, renum_end only off1 (entries ?ht vs))"
     "same_by links_data hp1 hp" "\<forall>x. x \<notin> set vs \<longrightarrow> map_option payload (hp x) = map_option payload (hp1 x)"
     "length ar = length ar1" "chains hp ar (nTableMask ht) (set (us @ a # vs)) cs'"
     "entries (ht\<lparr>heap := hp\<rparr>) vs = renum only off1 (entries ?ht vs)"
     "\<forall>x\<in>set vs. nKeyLength (the (hp x)) \<noteq> 0 \<longrightarrow> only \<and> nKeyLength (the (hp x)) = nKeyLength (the (hp1 x)) \<and>
        b_h (the (hp x)) = b_h (the (hp1 x))"
    by (auto simp: entries_def)
  have same1: "payload (the (hp1 x)) = payload (the (heap ht x))" if "x \<in> set vs" for x
  proof -
    have "map_option payload (hp1 x) = map_option payload (heap ht x)" using s(3) that av by auto
    moreover have "hp1 x \<noteq> None" using dom1 Cons.prems(2) that by auto
    ultimately show ?thesis by (cases "hp1 x"; cases "heap ht x") auto
  qed
  have e1: "entries ?ht vs = entries ht vs"
    unfolding entries_def bucket_key_def using same1 by (auto simp: payload_def)
  obtain ba where ba: "hp a = Some ba" using same_by_dom [OF r(2)] dom1 b by auto
  obtain b1 where b1: "hp1 a = Some b1" using dom1 b by auto
  have pa: "payload ba = payload b1" using r(3) av(1) ba b1 by auto
  have la: "links_data b1 = links_data b" using s(2) b b1 by (auto simp: same_by_def dest: spec [of _ a])
  have key: "(bucket_key ba, pData ba) = (if new then (KInt off, pData b) else (bucket_key b, pData b))"
    using pa la s(4,5) b1 by (auto simp: payload_def links_data_def bucket_key_def)
  have new_key: "new \<longleftrightarrow> \<not> (only \<and> (\<exists>bs. bucket_key b = KStr bs))" by (auto simp: new_def bucket_key_def)
  show ?case
  proof (intro exI [of _ hp] exI [of _ ar] exI [of _ cs'] conjI)
    show "reindex_loop only off (head_opt (a # vs)) ht =
        Some (ht\<lparr>heap := hp, arBuckets := ar\<rparr>, renum_end only off (entries ht (a # vs)))"
      using s(1) r(1) e1 b new_key by (auto simp: entries_Cons off1_def)
    show "same_by links_data (heap ht) hp" by (rule same_by_trans [OF s(2) r(2)])
    show "\<forall>x. x \<notin> set (a # vs) \<longrightarrow> map_option payload (hp x) = map_option payload (heap ht x)"
      using s(3) r(3) by simp
    show "entries (ht\<lparr>heap := hp\<rparr>) (a # vs) = renum only off (entries ht (a # vs))"
      using r(6) e1 key ba b new_key by (auto simp: entries_Cons off1_def)
    show "\<forall>x\<in>set (a # vs). nKeyLength (the (hp x)) \<noteq> 0 \<longrightarrow> only \<and> nKeyLength (the (hp x)) = nKeyLength (the (heap ht x)) \<and>
        b_h (the (hp x)) = b_h (the (heap ht x))"
      using r(7) same1 pa ba b1 s(4,5) b by (auto simp: payload_def new_def split: if_splits)
  qed (use r(4,5) s(6) in auto)
qed


fun is_str :: "hkey \<Rightarrow> bool" where
  "is_str (KStr _) = True"
| "is_str (KInt _) = False"

lemma is_str_iff: "(\<exists>bs. k = KStr bs) \<longleftrightarrow> is_str k"
  by (cases k) auto

lemma renum_end_bounds:
  assumes "unat off + length al < 2 ^ 31"
  shows "unat off \<le> unat (renum_end only off al)" and "unat (renum_end only off al) \<le> unat off + length al"
proof -
  have "unat off \<le> unat (renum_end only off al) \<and> unat (renum_end only off al) \<le> unat off + length al"
    using assms
  proof (induction al arbitrary: off)
    case (Cons e al)
    have "unat (off + 1) = unat off + 1" using Cons.prems by (intro unat_inc) simp
    with Cons.IH [of off] Cons.IH [of "off + 1"] Cons.prems show ?case by auto
  qed simp
  then show "unat off \<le> unat (renum_end only off al)" and "unat (renum_end only off al) \<le> unat off + length al"
    by simp_all
qed

lemma renum_keys:
  assumes "unat off + length al < 2 ^ 31" and "k \<in> fst ` set (renum only off al)"
  shows "case k of KInt h \<Rightarrow> unat off \<le> unat h \<and> unat h < unat (renum_end only off al)
    | KStr bs \<Rightarrow> only \<and> k \<in> fst ` set al"
  using assms
proof (induction al arbitrary: off)
  case (Cons e al)
  have inc: "unat (off + 1) = unat off + 1" using Cons.prems(1) by (intro unat_inc) simp
  show ?case
  proof (cases "only \<and> is_str (fst e)")
    case True
    with Cons.prems Cons.IH [of off] show ?thesis by (cases "fst e"; cases k) (auto simp: is_str_iff)
  next
    case False
    then have "k = KInt off \<or> k \<in> fst ` set (renum only (off + 1) al)"
      using Cons.prems(2) by (auto simp: is_str_iff)
    then show ?thesis
    proof
      assume "k = KInt off"
      then show ?thesis using False renum_end_bounds(1) [of "off + 1" al only] Cons.prems(1) inc
        by (auto simp: is_str_iff)
    next
      assume "k \<in> fst ` set (renum only (off + 1) al)"
      with Cons.IH [of "off + 1"] Cons.prems(1) inc False show ?thesis by (cases k) (auto simp: is_str_iff)
    qed
  qed
qed simp

lemma renum_distinct:
  assumes "unat off + length al < 2 ^ 31" and "only \<Longrightarrow> distinct (filter is_str (map fst al))"
  shows "distinct (map fst (renum only off al))"
  using assms
proof (induction al arbitrary: off)
  case (Cons e al)
  have inc: "unat (off + 1) = unat off + 1" using Cons.prems(1) by (intro unat_inc) simp
  have d: "only \<Longrightarrow> distinct (filter is_str (map fst al))" using Cons.prems(2) by (auto split: if_splits)
  show ?case
  proof (cases "only \<and> is_str (fst e)")
    case True
    have "fst e \<notin> fst ` set (renum only off al)"
      using renum_keys [of off al "fst e" only] True Cons.prems by (cases "fst e") auto
    with True Cons.IH [of off, OF _ d] Cons.prems(1) show ?thesis by (simp add: is_str_iff)
  next
    case False
    have "KInt off \<notin> fst ` set (renum only (off + 1) al)"
      using renum_keys [of "off + 1" al "KInt off" only] Cons.prems(1) inc by auto
    with False Cons.IH [of "off + 1", OF _ d] Cons.prems(1) inc show ?thesis by (auto simp: is_str_iff)
  qed
qed simp

lemma renum_is_str: "map (\<lambda>e. is_str (fst e)) (renum True off al) = map (\<lambda>e. is_str (fst e)) al"
  by (induction al arbitrary: off) (auto simp: is_str_iff)

lemma renum_next_free:
  assumes "length al < 2 ^ 31"
  shows "next_free_ok (renum_end only 0 al) (renum only 0 al) id"
proof -
  let ?n = "renum_end only 0 al"
  have u: "unat (0 :: ulong) + length al < 2 ^ 31" using assms by simp
  have small: "sint x = int (unat x)" if "unat x < 2 ^ 31" for x :: ulong
  proof -
    have u: "uint x = int (unat x)" by simp
    have "int (unat x) < int (2 ^ 31)" using that by (simp only: of_nat_less_iff)
    then have "uint x < 2 ^ 31" unfolding u by simp
    then show ?thesis unfolding u [symmetric] by (rule sint_small)
  qed
  have n: "unat ?n < 2 ^ 31" using renum_end_bounds(2) [OF u, of only] assms by simp
  moreover have "sint h < sint ?n" if "KInt h \<in> fst ` set (renum only 0 al)" for h
  proof -
    have "unat h < unat ?n" using renum_keys [OF u that] by simp
    with n show ?thesis by (subst small, simp, subst small [OF n], simp only: of_nat_less_iff)
  qed
  ultimately show ?thesis using small [OF n] by (auto simp: next_free_ok_def)
qed

text \<open>
  What \<open>zend_hash_reindex\<close> needs of a table: the global list and the buckets, but neither chains
  nor distinct integer keys; \<open>_zend_hash_splice\<close> calls it in such a state.
\<close>

definition list_inv :: "'d HashTable \<Rightarrow> addr list \<Rightarrow> bool" where
  "list_inv ht xs \<longleftrightarrow>
     table_ok ht \<and> (nTableMask ht = 0 \<longrightarrow> xs = []) \<and>
     glist (heap ht) (pListHead ht) (pListTail ht) xs \<and>
     (xs = [] \<longrightarrow> (\<exists>cs. chains (heap ht) (arBuckets ht) (nTableMask ht) {} cs)) \<and>
     dom (heap ht) = set xs \<and> (\<forall>a\<in>set xs. a < brk ht) \<and>
     unat (nNumOfElements ht) = length xs \<and>
     (\<forall>a. pInternalPointer ht = Some a \<longrightarrow> a \<in> set xs) \<and>
     (\<forall>a\<in>set xs. bucket_wf a (the (heap ht a)))"

lemma hash_list_inv: "hash_inv ht xs \<Longrightarrow> list_inv ht xs"
  by (auto simp: list_inv_def hash_inv_def)

lemma reindex_nonempty:
  assumes inv: "list_inv ht xs" and ne: "xs \<noteq> []" and n: "length xs < 2 ^ 31"
    and d: "only \<Longrightarrow> distinct (filter is_str (map fst (entries ht xs)))"
  shows "\<exists>ht'. zend_hash_reindex only ht = Some ht' \<and> hash_inv ht' xs \<and>
    entries ht' xs = renum only 0 (entries ht xs) \<and> same_flags ht ht' \<and> dtor_log ht' = dtor_log ht \<and>
    pInternalPointer ht' = pInternalPointer ht \<and> nTableMask ht' = nTableMask ht \<and> (only \<and> clean_keys ht \<longrightarrow> clean_keys ht') \<and>
    (\<forall>x\<in>set xs. arKey (the (heap ht' x)) = arKey (the (heap ht x)))"
proof -
  let ?ht = "ht\<lparr>arBuckets := replicate (unat (nTableSize ht)) None\<rparr>" and ?al = "entries ht xs"
  have m: "nTableMask ht \<noteq> 0" and t: "table_ok ht" and dom: "dom (heap ht) = set xs"
    and g: "glist (heap ht) (pListHead ht) (pListTail ht) xs" using inv ne by (auto simp: list_inv_def)
  note sz = table_ok_size [OF t m]
  have "\<exists>hp ar cs'. reindex_loop only 0 (head_opt xs) ?ht =
       Some (?ht\<lparr>heap := hp, arBuckets := ar\<rparr>, renum_end only 0 (entries ?ht xs)) \<and>
     same_by links_data (heap ?ht) hp \<and> (\<forall>x. x \<notin> set xs \<longrightarrow> map_option payload (hp x) = map_option payload (heap ?ht x)) \<and>
     length ar = length (arBuckets ?ht) \<and> chains hp ar (nTableMask ?ht) (set ([] @ xs)) cs' \<and>
     entries (?ht\<lparr>heap := hp\<rparr>) xs = renum only 0 (entries ?ht xs) \<and>
     (\<forall>x\<in>set xs. nKeyLength (the (hp x)) \<noteq> 0 \<longrightarrow> only \<and> nKeyLength (the (hp x)) = nKeyLength (the (heap ?ht x)) \<and>
        b_h (the (hp x)) = b_h (the (heap ?ht x)))"
    by (rule reindex_loop_ok [where pf = "pListHead ht" and pl = "pListTail ht" and cs = "\<lambda>_. []"])
       (use g dom sz in \<open>simp_all add: chains_empty del: replicate_Suc\<close>)
  then obtain hp ar cs where r: "reindex_loop only 0 (head_opt xs) ?ht =
       Some (ht\<lparr>heap := hp, arBuckets := ar\<rparr>, renum_end only 0 ?al)"
     "same_by links_data (heap ht) hp" "length ar = Suc (unat (nTableMask ht))"
     "chains hp ar (nTableMask ht) (set xs) cs" "entries (ht\<lparr>heap := hp\<rparr>) xs = renum only 0 ?al"
     "\<forall>x\<in>set xs. nKeyLength (the (hp x)) \<noteq> 0 \<longrightarrow> only \<and> nKeyLength (the (hp x)) = nKeyLength (the (heap ht x)) \<and>
        b_h (the (hp x)) = b_h (the (heap ht x))"
    using sz by (auto simp: entries_def)
  define ht' where "ht' = ht\<lparr>heap := hp, arBuckets := ar, nNextFreeElement := renum_end only 0 ?al\<rparr>"
  have e: "entries ht' xs = renum only 0 ?al" using r(5) by (simp add: ht'_def entries_def)
  have domp: "dom hp = set xs" using same_by_dom [OF r(2)] dom by simp
  have ak: "arKey (the (hp x)) = arKey (the (heap ht x))" if "x \<in> set xs" for x
    using same_by_at [OF r(2), of x] that dom by (simp add: links_data_def)
  have wf: "bucket_wf x (the (hp x))" if x: "x \<in> set xs" for x
    using r(6) x ak [OF x] inv by (auto simp: list_inv_def bucket_wf_def)
  have "hash_inv ht' xs"
    unfolding hash_inv_def e
  proof (intro conjI)
    show "table_ok ht'" using t r(3) by (simp add: table_ok_def ht'_def)
    show "glist (heap ht') (pListHead ht') (pListTail ht') xs"
      using glist_links [OF r(2)] g dom by (simp add: ht'_def)
    show "distinct (map fst (renum only 0 ?al))" by (rule renum_distinct) (use n d in simp_all)
    show "next_free_ok (nNextFreeElement ht') (renum only 0 ?al) id"
      using renum_next_free [of ?al only] n by (simp add: ht'_def)
  qed (use inv r(4) domp wf m in \<open>auto simp: list_inv_def ht'_def\<close>)
  moreover have "clean_keys ht'" if "only" "clean_keys ht"
    unfolding clean_keys_def
  proof (intro allI impI)
    fix a b assume ab: "heap ht' a = Some b" "nKeyLength b = 0"
    then have a: "a \<in> set xs" "hp a = Some b" using domp by (auto simp: ht'_def)
    obtain b0 where b0: "heap ht a = Some b0" using dom a by blast
    have "map (\<lambda>e. is_str (fst e)) (entries (ht\<lparr>heap := hp\<rparr>) xs) = map (\<lambda>e. is_str (fst e)) ?al"
      using r(5) that(1) by (simp add: renum_is_str)
    then have "is_str (bucket_key (the (hp a))) \<longleftrightarrow> is_str (bucket_key (the (heap ht a)))"
      using a(1) by (simp add: entries_def)
    then have "nKeyLength b0 = 0" using a(2) b0 ab(2) by (simp add: bucket_key_def split: if_splits)
    then show "arKey b = NullStr" using that(2) ak [OF a(1)] a(2) b0 by (auto simp: clean_keys_def)
  qed
  moreover have "zend_hash_reindex only ht = Some ht'"
  proof -
    have "nNumOfElements ht \<noteq> 0" using inv ne by (auto simp: list_inv_def)
    moreover have "pListHead ht = head_opt xs" using g by (simp add: glist_def)
    ultimately show ?thesis using r(1) by (simp add: zend_hash_reindex_def ht'_def)
  qed
  ultimately show ?thesis using e ak by (intro exI [of _ ht']) (simp add: ht'_def same_flags_def)
qed

lemma reindex_ok:
  assumes inv: "list_inv ht xs" and n: "length xs < 2 ^ 31"
    and d: "only \<Longrightarrow> distinct (filter is_str (map fst (entries ht xs)))"
  shows "\<exists>ht'. zend_hash_reindex only ht = Some ht' \<and> hash_inv ht' xs \<and>
    entries ht' xs = renum only 0 (entries ht xs) \<and> same_flags ht ht' \<and> dtor_log ht' = dtor_log ht \<and>
    pInternalPointer ht' = pInternalPointer ht \<and> nTableMask ht' = nTableMask ht \<and> (only \<and> clean_keys ht \<longrightarrow> clean_keys ht') \<and>
    (\<forall>x\<in>set xs. arKey (the (heap ht' x)) = arKey (the (heap ht x)))"
proof (cases "xs = []")
  case True
  let ?ht = "ht\<lparr>nNextFreeElement := 0\<rparr>"
  from True inv have "nNumOfElements ht = 0" by (simp add: list_inv_def unat_eq_0)
  moreover have "hash_inv ?ht []" using inv True
    by (auto simp: list_inv_def hash_inv_def table_ok_def next_free_ok_def)
  ultimately show ?thesis using True by (simp add: zend_hash_reindex_def same_flags_def clean_keys_def)
next
  case False
  then show ?thesis by (rule reindex_nonempty [OF inv _ n d])
qed


subsection \<open>Sort\<close>

lemma collect_loop_ok:
  assumes "linked (\<lambda>a. pListNext (the (heap ht a))) pv (us @ ys)" and "set ys \<subseteq> dom (heap ht)"
  shows "collect_loop ht (head_opt ys) = Some ys"
  using assms
proof (induction ys arbitrary: us)
  case Nil
  then show ?case by (simp add: collect_loop.simps)
next
  case (Cons y ys)
  then obtain b where b: "heap ht y = Some b" by auto
  with linked_split(1) [OF Cons.prems(1)] have "pListNext b = head_opt ys" by simp
  with b Cons.IH [of "us @ [y]"] Cons.prems show ?case by (subst collect_loop.simps) simp
qed

lemma relink_mid_ok:
  assumes "distinct ys" and "set ys \<subseteq> dom (heap ht)" and "1 \<le> j"
  shows "\<exists>hp. relink_mid ys j ht = Some (ht\<lparr>heap := hp\<rparr>) \<and> same_by view_chain (heap ht) hp \<and>
    (\<forall>k. j \<le> k \<and> k < length ys - 1 \<longrightarrow> pListNext (the (hp (ys ! k))) = Some (ys ! Suc k) \<and>
       pListLast (the (hp (ys ! k))) = Some (ys ! (k - 1))) \<and>
    (\<forall>x. (\<forall>k. j \<le> k \<and> k < length ys - 1 \<longrightarrow> x \<noteq> ys ! k) \<longrightarrow> hp x = heap ht x)"
  using assms
proof (induction ys j ht rule: relink_mid.induct)
  case (1 ys j ht)
  show ?case
  proof (cases "j < length ys - 1")
    case False
    then show ?thesis
      by (intro exI [of _ "heap ht"]) (subst relink_mid.simps, auto)
  next
    case True
    then have "ys ! j \<in> set ys" by simp
    then have j: "ys ! j \<in> dom (heap ht)" using "1.prems"(2) by blast
    then obtain b where b: "heap ht (ys ! j) = Some b" by auto
    define b1 where "b1 = b\<lparr>pListLast := Some (ys ! (j - 1)), pListNext := Some (ys ! (j + 1))\<rparr>"
    let ?ht = "ht\<lparr>heap := (heap ht)(ys ! j \<mapsto> b1)\<rparr>"
    have w: "ht_write ht (ys ! j) (\<lambda>b. b\<lparr>pListLast := Some (ys ! (j - 1)), pListNext := Some (ys ! (j + 1))\<rparr>) = Some ?ht"
      using b by (simp add: ht_write_def b1_def)
    have "set ys \<subseteq> dom (heap ?ht)" using "1.prems"(2) by auto
    from "1.IH" [OF True w "1.prems"(1) this le_add2] obtain hp where
      r: "relink_mid ys (j + 1) ?ht = Some (?ht\<lparr>heap := hp\<rparr>)" "same_by view_chain (heap ?ht) hp"
      "\<forall>k. j + 1 \<le> k \<and> k < length ys - 1 \<longrightarrow> pListNext (the (hp (ys ! k))) = Some (ys ! Suc k) \<and>
         pListLast (the (hp (ys ! k))) = Some (ys ! (k - 1))"
      "\<forall>x. (\<forall>k. j + 1 \<le> k \<and> k < length ys - 1 \<longrightarrow> x \<noteq> ys ! k) \<longrightarrow> hp x = heap ?ht x" by metis
    have "\<forall>k. j + 1 \<le> k \<and> k < length ys - 1 \<longrightarrow> ys ! j \<noteq> ys ! k"
      using "1.prems"(1) True by (auto simp: nth_eq_iff_index_eq)
    then have hj: "hp (ys ! j) = Some b1" using r(4) by simp
    have "same_by view_chain (heap ht) (heap ?ht)"
      using b by (auto simp: same_by_def b1_def view_chain_def payload_def)
    with r(2) have sb: "same_by view_chain (heap ht) hp" by (rule same_by_trans [rotated])
    show ?thesis
    proof (intro exI [of _ hp] conjI)
      show "relink_mid ys j ht = Some (ht\<lparr>heap := hp\<rparr>)"
        using True w r(1) by (subst relink_mid.simps) simp
      show "\<forall>k. j \<le> k \<and> k < length ys - 1 \<longrightarrow> pListNext (the (hp (ys ! k))) = Some (ys ! Suc k) \<and>
         pListLast (the (hp (ys ! k))) = Some (ys ! (k - 1))"
        using r(3) hj by (metis One_nat_def Suc_eq_plus1 b1_def le_neq_implies_less less_eq_Suc_le option.sel
            Bucket.simps(5,6) Bucket.surjective Bucket.update_convs(5,6))
      show "\<forall>x. (\<forall>k. j \<le> k \<and> k < length ys - 1 \<longrightarrow> x \<noteq> ys ! k) \<longrightarrow> hp x = heap ht x"
        using r(4) True by auto
    qed (rule sb)
  qed
qed


lemma relink_ok:
  assumes "distinct ys" and "set ys \<subseteq> dom (heap ht)" and "ys \<noteq> []"
  shows "\<exists>hp. relink ys ht = Some (ht\<lparr>heap := hp\<rparr>) \<and> same_by view_chain (heap ht) hp \<and>
    linked (\<lambda>a. pListNext (the (hp a))) (\<lambda>a. pListLast (the (hp a))) ys"
proof -
  have mem: "\<exists>b. heap ht (ys ! k) = Some b" if "k < length ys" for k
    using assms(2) nth_mem [OF that] by blast
  obtain b0 where b0: "heap ht (ys ! 0) = Some b0" using mem [of 0] assms(3) by auto
  show ?thesis
  proof (cases "1 < length ys")
    case False
    with assms(3) obtain y where y: "ys = [y]" by (cases ys) auto
    let ?hp = "(heap ht)(y \<mapsto> b0\<lparr>pListLast := None, pListNext := None\<rparr>)"
    have "relink ys ht = Some (ht\<lparr>heap := ?hp\<rparr>)"
      using b0 y by (simp add: relink_def ht_write_def)
    moreover have "same_by view_chain (heap ht) ?hp"
      using b0 y by (auto simp: same_by_def view_chain_def payload_def)
    moreover have "linked (\<lambda>a. pListNext (the (?hp a))) (\<lambda>a. pListLast (the (?hp a))) ys"
      using y by (intro linked_nthI) auto
    ultimately show ?thesis by blast
  next
    case True
    let ?h1 = "(heap ht)(ys ! 0 \<mapsto> b0\<lparr>pListLast := None, pListNext := Some (ys ! 1)\<rparr>)" and ?n = "length ys - 1"
    let ?ht1 = "ht\<lparr>heap := ?h1\<rparr>"
    have ne: "ys ! k \<noteq> ys ! l" if "k \<noteq> l" "k < length ys" "l < length ys" for k l
      using assms(1) that by (simp add: nth_eq_iff_index_eq)
    have "set ys \<subseteq> dom (heap ?ht1)" using assms(2) by auto
    from relink_mid_ok [OF assms(1) this, of 1] obtain hp where r: "relink_mid ys 1 ?ht1 = Some (?ht1\<lparr>heap := hp\<rparr>)"
      "same_by view_chain ?h1 hp"
      "\<And>k. 1 \<le> k \<Longrightarrow> k < ?n \<Longrightarrow> pListNext (the (hp (ys ! k))) = Some (ys ! Suc k) \<and>
         pListLast (the (hp (ys ! k))) = Some (ys ! (k - 1))"
      "\<And>x. (\<And>k. 1 \<le> k \<Longrightarrow> k < ?n \<Longrightarrow> x \<noteq> ys ! k) \<Longrightarrow> hp x = ?h1 x" by auto
    have h0: "hp (ys ! 0) = ?h1 (ys ! 0)" by (rule r(4)) (use True in \<open>intro ne, auto\<close>)
    have hn: "hp (ys ! ?n) = ?h1 (ys ! ?n)" by (rule r(4)) (use True in \<open>intro ne, auto\<close>)
    obtain bn where bn: "heap ht (ys ! ?n) = Some bn" using mem [of ?n] assms(3) by (auto simp: length_greater_0_conv [symmetric] simp del: length_greater_0_conv)
    have z: "ys ! 0 \<noteq> ys ! ?n" by (rule ne) (use True in auto)
    then have hn': "hp (ys ! ?n) = Some bn" using hn bn by simp
    let ?hp = "hp(ys ! ?n \<mapsto> bn\<lparr>pListLast := Some (ys ! (?n - 1)), pListNext := None\<rparr>)"
    have "relink ys ht = Some (ht\<lparr>heap := ?hp\<rparr>)"
      using True b0 r(1) hn' by (simp add: relink_def ht_write_def)
    moreover have "same_by view_chain (heap ht) ?h1"
      using b0 by (auto simp: same_by_def view_chain_def payload_def)
    moreover have "same_by view_chain hp ?hp"
      using hn' by (intro same_by_upd) (simp_all add: view_chain_def payload_def)
    moreover have "linked (\<lambda>a. pListNext (the (?hp a))) (\<lambda>a. pListLast (the (?hp a))) ys"
    proof (rule linked_nthI [OF assms(1)])
      fix k assume k: "k < length ys"
      have c: "k = 0 \<or> 1 \<le> k \<and> k < ?n \<or> k = ?n" using k by linarith
      have nk: "ys ! k \<noteq> ys ! ?n" if "k \<noteq> ?n" by (rule ne) (use that k in auto)
      show "pListNext (the (?hp (ys ! k))) = (if Suc k < length ys then Some (ys ! Suc k) else None)"
        using c r(3) [of k] h0 nk z True by (elim disjE) auto
      show "pListLast (the (?hp (ys ! k))) = (if k = 0 then None else Some (ys ! (k - 1)))"
        using c r(3) [of k] h0 nk z True by (elim disjE) auto
    qed
    ultimately show ?thesis using same_by_trans r(2) by blast
  qed
qed

lemma hash_inv_reorder:
  assumes inv: "hash_inv ht xs" and perm: "mset ys = mset xs" and sb: "same_by view_chain (heap ht) hp"
    and l: "linked (\<lambda>a. pListNext (the (hp a))) (\<lambda>a. pListLast (the (hp a))) ys"
    and i: "\<And>a. ip = Some a \<Longrightarrow> a \<in> set xs"
    and ht': "ht' = ht\<lparr>pListHead := head_opt ys, pInternalPointer := ip, heap := hp, pListTail := last_opt ys\<rparr>"
  shows "hash_inv ht' ys" and "clean_keys ht \<Longrightarrow> clean_keys ht'" and "entries ht' ys = entries ht ys"
proof -
  have set: "set ys = set xs" and len: "length ys = length xs" using perm by (metis set_mset_mset, metis size_mset)
  note sp = same_by_payload(2) [OF sb]
  have dom: "dom (heap ht) = set xs" by (rule hash_invD(5) [OF inv])
  show e: "entries ht' ys = entries ht ys" by (rule entries_cong) (use sp dom set ht' in auto)
  show "clean_keys ht'" if "clean_keys ht" by (rule clean_keys_cong [OF _ that]) (simp add: ht' sp)
  obtain cs where "chains (heap ht) (arBuckets ht) (nTableMask ht) (set xs) cs"
    using hash_invD(4) [OF inv] by blast
  then have ch: "chains hp (arBuckets ht) (nTableMask ht) (set xs) cs" using chains_frame [OF sb] dom by auto
  have me: "mset (entries ht ys) = mset (entries ht xs)" using perm by (simp add: entries_def)
  have "distinct (map fst (entries ht ys))"
    using hash_invD(10) [OF inv] mset_map [of fst] me by (metis mset_eq_imp_distinct_iff)
  moreover have "set (entries ht ys) = set (entries ht xs)" using me by (metis set_mset_mset)
  moreover have "bucket_wf a (the (hp a))" if "a \<in> set xs" for a
    using that bucket_wf_cong [OF sp, of a] hash_invD(5,9) [OF inv] by auto
  moreover have "dom hp = set xs" using same_by_dom [OF sb] dom by simp
  moreover have "glist hp (head_opt ys) (last_opt ys) ys" using l by (simp add: glist_def)
  moreover have "nTableMask ht = 0 \<longrightarrow> ys = []" using hash_invD(2) [OF inv] len by auto
  moreover have "table_ok ht'" using hash_invD(1) [OF inv] by (simp add: ht' table_ok_def)
  ultimately show "hash_inv ht' ys" unfolding hash_inv_def e using inv set len ch i
    by (auto simp: hash_inv_def ht' next_free_ok_def)
qed


definition bucket_entry :: "'d Bucket \<Rightarrow> hkey \<times> 'd" where
  "bucket_entry b = (bucket_key b, pData b)"

definition sort_result_ok ::
  "(hkey \<times> 'd \<Rightarrow> hkey \<times> 'd \<Rightarrow> int) \<Rightarrow> bool \<Rightarrow> (hkey \<times> 'd) list \<Rightarrow> 'd HashTable \<Rightarrow> bool" where
  "sort_result_ok c renumber al ht' \<longleftrightarrow> (\<exists>al'. mset al' = mset al \<and>
     (preorder_cmp c \<longrightarrow> sorted_wrt (\<lambda>e f. c e f \<le> 0) al') \<and>
     (if renumber then \<exists>xs. hash_inv ht' xs \<and> entries ht' xs = renum False 0 al' else hash_refines ht' al'))"

text \<open>A sort function applied to arrays of bucket pointers.\<close>

locale bucket_sort = sort_function sort_func
  for sort_func :: "nat \<Rightarrow> (addr \<Rightarrow> addr \<Rightarrow> int) \<Rightarrow> addr list \<Rightarrow> addr list option"
begin

lemma sort_relinks:
  assumes inv: "hash_inv ht xs" and cl: "clean_keys ht" and ne: "xs \<noteq> []" and n: "length xs < 2 ^ 31"
    and cond: "\<not> (\<not> 1 < nNumOfElements ht \<and> \<not> (renumber \<and> 0 < nNumOfElements ht))"
  shows "\<exists>ht'. zend_hash_sort sort_func (\<lambda>x y. c (bucket_entry x) (bucket_entry y)) renumber ht = Some ht' \<and>
    sort_result_ok c renumber (entries ht xs) ht'"
proof -
  let ?cmp = "\<lambda>a b. c (bucket_entry (the (heap ht a))) (bucket_entry (the (heap ht b)))"
  have l: "linked (\<lambda>a. pListNext (the (heap ht a))) (\<lambda>a. pListLast (the (heap ht a))) ([] @ xs)"
    and hd: "pListHead ht = head_opt xs" and dom: "dom (heap ht) = set xs"
    using hash_invD(3,5) [OF inv] by (simp_all add: glist_def)
  have n': "length xs < 2 ^ 32" "0 < unat sizeof_ptr" using n by (simp_all add: sizeof_ptr_def)
  obtain ys where ys: "sort_func (unat sizeof_ptr) ?cmp xs = Some ys" "mset ys = mset xs" "distinct ys" "set ys = set xs"
    "length ys = length xs" "preorder_cmp ?cmp \<longrightarrow> sorted_wrt (\<lambda>x y. ?cmp x y \<le> 0) ys"
    by (rule sort_result [OF n'(2,1) hash_invD(12) [OF inv]])
  have yne: "ys \<noteq> []" using ys(5) ne by auto
  let ?ht1 = "ht\<lparr>pListHead := Some (ys ! 0), pListTail := None, pInternalPointer := Some (ys ! 0)\<rparr>"
  have "set ys \<subseteq> dom (heap ?ht1)" using ys(4) dom by simp
  from relink_ok [OF ys(3) this yne] obtain hp where hp: "relink ys ?ht1 = Some (?ht1\<lparr>heap := hp\<rparr>)"
    "same_by view_chain (heap ht) hp" "linked (\<lambda>a. pListNext (the (hp a))) (\<lambda>a. pListLast (the (hp a))) ys" by auto
  define ht2 where "ht2 = ht\<lparr>pListHead := head_opt ys, pInternalPointer := head_opt ys, heap := hp, pListTail := last_opt ys\<rparr>"
  have ends: "head_opt ys = Some (ys ! 0)" "last_opt ys = Some (ys ! (length ys - 1))"
    using yne by (cases ys, simp_all) (simp add: last_opt_def last_conv_nth)
  note ro = hash_inv_reorder [OF inv ys(2) hp(2,3) _ ht2_def]
  have ip: "a \<in> set xs" if "head_opt ys = Some a" for a using head_opt_in_set [OF that] ys(4) by simp
  have h2: "hash_inv ht2 ys" "clean_keys ht2" "entries ht2 ys = entries ht ys" using ro ip cl by blast+
  have run: "zend_hash_sort sort_func (\<lambda>x y. c (bucket_entry x) (bucket_entry y)) renumber ht =
      (if renumber then zend_hash_reindex False ht2 else Some ht2)"
    using cond collect_loop_ok [OF l] dom hd ys(1) hp(1) ends by (auto simp: zend_hash_sort_def ht2_def Let_def)
  have "preorder_cmp c \<Longrightarrow> preorder_cmp ?cmp" unfolding preorder_cmp_def antisym_cmp_def by blast
  then have srt: "preorder_cmp c \<longrightarrow> sorted_wrt (\<lambda>e f. c e f \<le> 0) (entries ht ys)"
    using ys(6) by (auto simp: entries_def sorted_wrt_map bucket_entry_def)
  have ms: "mset (entries ht ys) = mset (entries ht xs)" using ys(2) by (simp add: entries_def)
  show ?thesis
  proof (cases renumber)
    case True
    from reindex_ok [OF hash_list_inv [OF h2(1)], of False] n ys(5) obtain ht3 where
      "zend_hash_reindex False ht2 = Some ht3" "hash_inv ht3 ys" "entries ht3 ys = renum False 0 (entries ht2 ys)" by auto
    then show ?thesis using True run srt ms h2(3)
      by (auto simp: sort_result_ok_def intro!: exI [of _ "entries ht ys"])
  next
    case False
    have "hash_refines ht2 (entries ht ys)" using h2 by (auto simp: hash_refines_def)
    with False run srt ms show ?thesis
      by (auto simp: sort_result_ok_def intro!: exI [of _ "entries ht ys"])
  qed
qed

lemma hash_sort_ok:
  assumes "hash_refines ht al" and "length al < 2 ^ 31"
  shows "\<exists>ht'. zend_hash_sort sort_func (\<lambda>x y. c (bucket_entry x) (bucket_entry y)) renumber ht = Some ht' \<and>
    sort_result_ok c renumber al ht'"
proof -
  obtain xs where xs: "hash_inv ht xs" "clean_keys ht" "entries ht xs = al" "length al = length xs"
    using assms(1) by (rule hash_refinesE)
  have u: "unat (nNumOfElements ht) = length xs" by (rule hash_invD(7) [OF xs(1)])
  show ?thesis
  proof (cases "\<not> 1 < nNumOfElements ht \<and> \<not> (renumber \<and> 0 < nNumOfElements ht)")
    case False
    then have "xs \<noteq> []" using u by (auto simp: word_less_nat_alt)
    from sort_relinks [OF xs(1,2) this _ False, of c] assms(2) xs(3,4) show ?thesis by simp
  next
    case True
    then have len: "length al \<le> 1" "renumber \<longrightarrow> al = []" using u xs(4) by (auto simp: word_less_nat_alt)
    then have "sorted_wrt (\<lambda>e f. c e f \<le> 0) al" by (cases al) auto
    moreover have "if renumber then \<exists>xs. hash_inv ht xs \<and> entries ht xs = renum False 0 al else hash_refines ht al"
      using assms(1) xs len(2) by auto
    ultimately show ?thesis using True by (auto simp: zend_hash_sort_def sort_result_ok_def intro!: exI [of _ al])
  qed
qed

end

interpretation zqsort_buckets: bucket_sort zend_qsort
  by unfold_locales


subsection \<open>Comparison\<close>

definition same_entry :: "('d \<Rightarrow> 'd \<Rightarrow> int) \<Rightarrow> hkey \<times> 'd \<Rightarrow> hkey \<times> 'd \<Rightarrow> bool" where
  "same_entry c e f \<longleftrightarrow> fst e = fst f \<and> c (snd e) (snd f) = 0"

definition hash_equal :: "('d \<Rightarrow> 'd \<Rightarrow> int) \<Rightarrow> bool \<Rightarrow> (hkey \<times> 'd) list \<Rightarrow> (hkey \<times> 'd) list \<Rightarrow> bool" where
  "hash_equal c ordered al1 al2 \<longleftrightarrow>
     (if ordered then list_all2 (same_entry c) al1 al2
      else length al1 = length al2 \<and> (\<forall>e\<in>set al1. \<exists>d. map_of al2 (fst e) = Some d \<and> c (snd e) d = 0))"

lemma same_entry_Pair: "same_entry c (k, d) (k', d') \<longleftrightarrow> k = k' \<and> c d d' = 0"
  by (simp add: same_entry_def)

lemma memcmp_int_0:
  "length xs = n \<Longrightarrow> length ys = n \<Longrightarrow> memcmp_int xs ys n = 0 \<longleftrightarrow> xs = ys"
proof (induction xs ys n rule: memcmp_int.induct)
  case (1 x xs y ys n)
  have "uint x = uint y \<longleftrightarrow> x = y" by (simp add: word_uint_eq_iff)
  with 1 show ?case by auto
qed auto

lemma bucket_key_cmp:
  assumes "bucket_wf a1 b1" and "bucket_wf a2 b2"
  shows "(if nKeyLength b1 = 0 \<and> nKeyLength b2 = 0
      then (if b_h b1 \<noteq> b_h b2 then (if b_h b2 < b_h b1 then 1 else -1) else 0)
      else if nKeyLength b1 - nKeyLength b2 \<noteq> 0 then sint (nKeyLength b1 - nKeyLength b2)
      else memcmp_int (cstr_bytes (arKey b1)) (cstr_bytes (arKey b2)) (unat (nKeyLength b1))) = (0 :: int)
    \<longleftrightarrow> bucket_key b1 = bucket_key b2"
proof -
  have len: "nKeyLength b1 = nKeyLength b2" if "bucket_key b1 = bucket_key b2"
    using that assms by (cases "nKeyLength b1 = 0"; cases "nKeyLength b2 = 0")
      (auto simp: bucket_key_def bucket_wf_def word_unat_eq_iff)
  show ?thesis
  proof (cases "nKeyLength b1 = nKeyLength b2")
    case False
    then have "sint (nKeyLength b1 - nKeyLength b2) \<noteq> 0" by (simp add: signed_eq_0_iff)
    with False len show ?thesis by auto
  next
    case True
    then show ?thesis
    proof (cases "nKeyLength b1 = 0")
      case False
      with True assms have "length (cstr_bytes (arKey b1)) = unat (nKeyLength b1)"
        "length (cstr_bytes (arKey b2)) = unat (nKeyLength b1)" by (auto simp: bucket_wf_def)
      from memcmp_int_0 [OF this] True False show ?thesis by (simp add: bucket_key_def)
    qed (auto simp: bucket_key_def)
  qed
qed

lemma compare_loop_ordered:
  assumes "hash_inv ht1 (us @ xs)" and "hash_inv ht2 (vs @ ys)" and "length xs = length ys"
  shows "\<exists>r. compare_loop c True ht1 ht2 (head_opt xs) (head_opt ys) = Some r \<and>
    (r = 0 \<longleftrightarrow> list_all2 (same_entry c) (entries ht1 xs) (entries ht2 ys))"
  using assms
proof (induction xs arbitrary: us vs ys)
  case Nil
  then show ?case by (simp add: compare_loop.simps)
next
  case (Cons a1 xs)
  then obtain a2 ys' where ys: "ys = a2 # ys'" "length xs = length ys'" by (cases ys) auto
  obtain b1 where b1: "heap ht1 a1 = Some b1" "bucket_wf a1 b1" "pListNext b1 = head_opt xs"
    "entries ht1 (a1 # xs) = (bucket_key b1, pData b1) # entries ht1 xs"
    using source_split [OF Cons.prems(1)] by metis
  obtain b2 where b2: "heap ht2 a2 = Some b2" "bucket_wf a2 b2" "pListNext b2 = head_opt ys'"
    "entries ht2 (a2 # ys') = (bucket_key b2, pData b2) # entries ht2 ys'"
    using source_split [OF Cons.prems(2) [unfolded ys(1)]] by metis
  have inv: "hash_inv ht1 ((us @ [a1]) @ xs)" "hash_inv ht2 ((vs @ [a2]) @ ys')" using Cons.prems ys by simp_all
  show ?case
    using Cons.IH [OF inv ys(2)] bucket_key_cmp [OF b1(2) b2(2)] b1(1,3,4) b2(1,3,4) ys(1)
    by (subst compare_loop.simps) (auto simp: Let_def same_entry_Pair simp del: word_neq_0_conv)
qed

lemma compare_loop_unordered:
  assumes "hash_inv ht1 (us @ xs)" and "hash_inv ht2 ys" and "clean_keys ht2"
  shows "\<exists>r. compare_loop c False ht1 ht2 (head_opt xs) None = Some r \<and>
    (r = 0 \<longleftrightarrow> (\<forall>e\<in>set (entries ht1 xs). \<exists>d. map_of (entries ht2 ys) (fst e) = Some d \<and> c (snd e) d = 0))"
  using assms(1)
proof (induction xs arbitrary: us)
  case Nil
  then show ?case by (simp add: compare_loop.simps)
next
  case (Cons a1 xs)
  obtain b1 where b1: "heap ht1 a1 = Some b1" "bucket_wf a1 b1" "pListNext b1 = head_opt xs"
    "entries ht1 (a1 # xs) = (bucket_key b1, pData b1) # entries ht1 xs"
    using source_split [OF Cons.prems(1)] by metis
  have inv: "hash_inv ht1 ((us @ [a1]) @ xs)" using Cons.prems by simp
  have find: "(if nKeyLength b1 = 0 then zend_hash_index_find (b_h b1) ht2
      else zend_hash_quick_find (arKey b1) (nKeyLength b1) (b_h b1) ht2) = Some (map_of (entries ht2 ys) (bucket_key b1))"
    using index_find_ok(1) [OF assms(2), of "b_h b1"] quick_find_ok [OF assms(2,3) bucket_key_arg [OF b1(2)]]
    by (auto simp: bucket_key_def)
  show ?case
    using Cons.IH [OF inv] b1(1,3,4) find
    by (subst compare_loop.simps) (auto simp: Let_def split: option.splits)
qed

lemma nested_fatal: "apply_nested ht \<Longrightarrow> HASH_PROTECT_RECURSION ht = Fatal"
  by (simp add: apply_nested_def HASH_PROTECT_RECURSION_def)

lemma unprotect_protect:
  assumes "HASH_PROTECT_RECURSION ht = Done ht1"
  shows "HASH_UNPROTECT_RECURSION ht1 = ht"
  using assms by (auto simp: HASH_PROTECT_RECURSION_def HASH_UNPROTECT_RECURSION_def split: if_splits)

lemma compare_ok:
  assumes "hash_refines ht1 al1" and "hash_refines ht2 al2" and "\<not> apply_nested ht1" and "\<not> apply_nested ht2"
  shows "\<exists>r. zend_hash_compare c ordered ht1 ht2 = Some (Done ((ht1, ht2), r)) \<and> (r = 0 \<longleftrightarrow> hash_equal c ordered al1 al2)"
proof -
  obtain xs where xs: "hash_inv ht1 xs" "clean_keys ht1" "entries ht1 xs = al1" "length al1 = length xs"
    using assms(1) by (rule hash_refinesE)
  obtain ys where ys: "hash_inv ht2 ys" "clean_keys ht2" "entries ht2 ys = al2" "length al2 = length ys"
    using assms(2) by (rule hash_refinesE)
  from protect_ok [OF xs(1,2) assms(3)] obtain t1 where t1: "HASH_PROTECT_RECURSION ht1 = Done t1" "hash_inv t1 ([] @ xs)"
    "entries t1 xs = al1" by (metis xs(3) append_Nil)
  from protect_ok [OF ys(1,2) assms(4)] obtain t2 where t2: "HASH_PROTECT_RECURSION ht2 = Done t2" "hash_inv t2 ([] @ ys)"
    "clean_keys t2" "entries t2 ys = al2" by (metis ys(3) append_Nil)
  have hd: "pListHead t1 = head_opt xs" "pListHead t2 = head_opt ys"
    using hash_invD(3) [OF t1(2)] hash_invD(3) [OF t2(2)] by (simp_all add: glist_def)
  have num: "nNumOfElements t1 = nNumOfElements t2 \<longleftrightarrow> length xs = length ys"
    using hash_invD(7) [OF t1(2)] hash_invD(7) [OF t2(2)] by (simp add: word_unat_eq_iff)
  have un: "HASH_UNPROTECT_RECURSION t1 = ht1" "HASH_UNPROTECT_RECURSION t2 = ht2"
    by (rule unprotect_protect [OF t1(1)], rule unprotect_protect [OF t2(1)])
  show ?thesis
  proof (cases "length xs = length ys")
    case False
    then have ne: "sint (nNumOfElements t1 - nNumOfElements t2) \<noteq> 0" using num by (simp add: signed_eq_0_iff)
    have "\<not> hash_equal c ordered al1 al2"
      using False xs(4) ys(4) list_all2_lengthD [of "same_entry c" al1 al2] by (auto simp: hash_equal_def)
    with ne show ?thesis using t1(1) t2(1) un by (simp add: zend_hash_compare_def Let_def)
  next
    case True
    then have eq: "nNumOfElements t1 = nNumOfElements t2" using num by simp
    show ?thesis
      using compare_loop_ordered [OF t1(2) t2(2) True, of c] compare_loop_unordered [OF t1(2) _ t2(3), of ys c] t2(2)
        t1(1,3) t2(1,4) un hd eq True xs(4) ys(4)
      by (cases ordered) (auto simp: zend_hash_compare_def hash_equal_def Let_def)
  qed
qed

subsection \<open>Minimum and maximum\<close>

definition total_cmp :: "('a \<Rightarrow> 'a \<Rightarrow> int) \<Rightarrow> bool" where
  "total_cmp c \<longleftrightarrow> preorder_cmp c \<and> (\<forall>x y. c x y = 0 \<longrightarrow> c y x = 0)"

definition extreme :: "(hkey \<times> 'd \<Rightarrow> hkey \<times> 'd \<Rightarrow> int) \<Rightarrow> bool \<Rightarrow> (hkey \<times> 'd) \<Rightarrow> (hkey \<times> 'd) set \<Rightarrow> bool" where
  "extreme c flag e S \<longleftrightarrow> e \<in> S \<and> (\<forall>f\<in>S. if flag then c f e \<le> 0 else c e f \<le> 0)"

lemma extreme_step:
  assumes "total_cmp c" and "extreme c flag e S"
  shows "extreme c flag (if flag then (if c e f < 0 then f else e) else (if 0 < c e f then f else e)) (insert f S)"
proof -
  have tr: "\<And>x y z. c x y \<le> 0 \<Longrightarrow> c y z \<le> 0 \<Longrightarrow> c x z \<le> 0" and an: "\<And>x y. 0 < c x y \<Longrightarrow> c y x \<le> 0"
    and sy: "\<And>x y. c x y = 0 \<Longrightarrow> c y x = 0"
    using assms(1) unfolding total_cmp_def preorder_cmp_def antisym_cmp_def by blast+
  have rf: "c x x \<le> 0" for x using an [of x x] by linarith
  have bk: "c f e \<le> 0" if "\<not> c e f < 0" using that an [of e f] sy [of e f] by linarith
  show ?thesis
  proof (cases flag)
    case True
    have "c g f \<le> 0" if "c e f < 0" "g \<in> S" for g
      using tr [of g e f] assms(2) that True by (auto simp: extreme_def)
    then show ?thesis using assms(2) True rf bk by (auto simp: extreme_def)
  next
    case False
    have "c f g \<le> 0" if "0 < c e f" "g \<in> S" for g
      using tr [of f e g] an [of e f] assms(2) that False by (auto simp: extreme_def)
    then show ?thesis using assms(2) False rf by (auto simp: extreme_def)
  qed
qed

lemma minmax_loop_ok:
  assumes "hash_inv ht (us @ ys)" and "total_cmp c" and "extreme c flag (bucket_entry res) S"
  shows "\<exists>b. minmax_loop (\<lambda>x y. c (bucket_entry x) (bucket_entry y)) flag ht res (head_opt ys) = Some b \<and>
    extreme c flag (bucket_entry b) (S \<union> set (entries ht ys))"
  using assms(1,3)
proof (induction ys arbitrary: us res S)
  case Nil
  then show ?case by (simp add: minmax_loop.simps)
next
  case (Cons a ys)
  obtain b where b: "heap ht a = Some b" "pListNext b = head_opt ys"
    "entries ht (a # ys) = (bucket_key b, pData b) # entries ht ys"
    using source_split [OF Cons.prems(1)] by metis
  let ?f = "\<lambda>x y. c (bucket_entry x) (bucket_entry y)"
  let ?res = "if flag then (if ?f res b < 0 then b else res) else (if 0 < ?f res b then b else res)"
  have inv: "hash_inv ht ((us @ [a]) @ ys)" using Cons.prems by simp
  have "extreme c flag (bucket_entry ?res) (insert (bucket_entry b) S)"
    using extreme_step [OF assms(2) Cons.prems(2), of "bucket_entry b"] by (simp split: if_splits)
  from Cons.IH [OF inv this] b show ?case
    by (subst minmax_loop.simps) (simp add: bucket_entry_def insert_commute)
qed

lemma minmax_ok:
  assumes "hash_refines ht al" and "total_cmp c"
  shows "zend_hash_minmax (\<lambda>x y. c (bucket_entry x) (bucket_entry y)) flag ht = Some (None, FAILURE) \<and> al = [] \<or>
    (\<exists>e. zend_hash_minmax (\<lambda>x y. c (bucket_entry x) (bucket_entry y)) flag ht = Some (Some (snd e), SUCCESS) \<and>
      extreme c flag e (set al))"
proof -
  obtain xs where xs: "hash_inv ht xs" "entries ht xs = al" using assms(1) by (rule hash_refinesE)
  show ?thesis
  proof (cases xs)
    case Nil
    then have "nNumOfElements ht = 0" using hash_invD(7) [OF xs(1)] by (simp add: unat_eq_0)
    then show ?thesis using xs Nil by (simp add: zend_hash_minmax_def)
  next
    case (Cons a ys)
    have inv: "hash_inv ht ([] @ a # ys)" "hash_inv ht ([a] @ ys)" using xs(1) Cons by simp_all
    obtain b where b: "heap ht a = Some b" "pListNext b = head_opt ys"
      "entries ht (a # ys) = (bucket_key b, pData b) # entries ht ys"
      using source_split [OF inv(1)] by metis
    have "c x x \<le> 0" for x
      using assms(2) unfolding total_cmp_def preorder_cmp_def antisym_cmp_def by (metis not_le)
    then have "extreme c flag (bucket_entry b) {bucket_entry b}" by (simp add: extreme_def)
    have al: "set al = {bucket_entry b} \<union> set (entries ht ys)" unfolding xs(2) [symmetric] Cons b(3) by (simp add: bucket_entry_def)
    from minmax_loop_ok [OF inv(2) assms(2) \<open>extreme c flag (bucket_entry b) {bucket_entry b}\<close>] obtain r where
      r: "minmax_loop (\<lambda>x y. c (bucket_entry x) (bucket_entry y)) flag ht b (head_opt ys) = Some r"
        "extreme c flag (bucket_entry r) (set al)" unfolding al by blast
    have "nNumOfElements ht \<noteq> 0" using hash_invD(7) [OF xs(1)] Cons by auto
    moreover have "pListHead ht = Some a" using hash_invD(3) [OF xs(1)] Cons by (simp add: glist_def)
    ultimately show ?thesis using r b
      by (intro disjI2 exI [of _ "bucket_entry r"]) (simp add: zend_hash_minmax_def bucket_entry_def)
  qed
qed


subsection \<open>Properties\<close>

text \<open>
  C9: \<open>zend_hash_copy\<close> stores every entry of the source in the target, in order, through the copy
  constructor; \<open>_zend_hash_merge\<close> does the same, leaving keys the target has alone unless asked to
  overwrite; \<open>zend_hash_merge_ex\<close>, for sources with string keys, stores the entries its checker
  accepts.  All of them keep the target's invariant.
\<close>

theorem hash_merge_refines:
  assumes "hash_refines source bl" and "hash_refines t al" and "length al + length bl < 2 ^ 32"
  shows "(\<exists>t'. zend_hash_copy t source c siz = Some t' \<and> hash_refines t' (merge_spec True (ctor_fun c) al bl)) \<and>
    (\<exists>t'. zend_hash_merge t source c siz overwrite = Some t' \<and> hash_refines t' (merge_spec overwrite (ctor_fun c) al bl)) \<and>
    (str_keys bl \<and> checks f chk \<longrightarrow>
      (\<exists>t'. zend_hash_merge_ex t source c siz f = Some t' \<and> hash_refines t' (merge_ex_spec chk (ctor_fun c) al bl)))"
proof (intro conjI impI)
  obtain ys where ys: "hash_inv source ([] @ ys)" "entries source ys = bl" "length bl = length ys"
    using assms(1) by (metis append_Nil hash_refinesE)
  have n: "length al + length ys < 2 ^ 32" using assms(3) ys(3) by simp
  have hd: "pListHead source = head_opt ys" using hash_invD(3) [OF ys(1)] by (simp add: glist_def)
  obtain t1 where t1: "copy_loop source c siz (pInternalPointer t = None) (head_opt ys) t = Some t1"
    "hash_refines t1 (merge_spec True (ctor_fun c) al bl)"
    using copy_loop_ok [OF ys(1) assms(2) n, of c siz "pInternalPointer t = None"] ys(2) by auto
  then show "\<exists>t'. zend_hash_copy t source c siz = Some t' \<and> hash_refines t' (merge_spec True (ctor_fun c) al bl)"
    using hd set_internal_head [OF t1(2)] by (simp add: zend_hash_copy_def Let_def)
  show "\<exists>t'. zend_hash_merge t source c siz overwrite = Some t' \<and> hash_refines t' (merge_spec overwrite (ctor_fun c) al bl)"
    using merge_loop_ok [OF ys(1) assms(2) n refl, of c siz overwrite] ys(2) hd set_internal_head
    by (fastforce simp: zend_hash_merge_def Let_def)
  assume "str_keys bl \<and> checks f chk"
  then show "\<exists>t'. zend_hash_merge_ex t source c siz f = Some t' \<and> hash_refines t' (merge_ex_spec chk (ctor_fun c) al bl)"
    using merge_ex_loop_ok [OF ys(1) assms(2) n, of f chk c siz] ys(2) hd set_internal_head
    by (fastforce simp: zend_hash_merge_ex_def)
qed

theorem hash_merge_refines_witness:
  "\<exists>t'. zend_hash_copy (zend_hash_init 0 True False) sample_table None 4 = Some t' \<and> hash_refines t' sample_entries"
proof -
  have "length ([] :: (hkey \<times> nat) list) + length sample_entries < 2 ^ 32" by (simp add: sample_entries_def)
  from conjunct1 [OF hash_merge_refines [OF sample_refines zend_hash_init_ok [of 0 True False] this], of None 4] show ?thesis
    by (simp add: sample_entries_def ctor_fun_def)
qed

text \<open>
  \<open>zend_hash_reindex\<close> numbers the integer keys (or all keys) from 0 in list order, keeps the
  values and the order, rebuilds consistent chains and sets \<open>nNextFreeElement\<close> past the last number.
\<close>

theorem hash_reindex_refines:
  assumes "hash_refines ht al" and "length al < 2 ^ 31"
  shows "\<exists>ht' xs. zend_hash_reindex only ht = Some ht' \<and> hash_inv ht' xs \<and> entries ht' xs = renum only 0 al \<and>
    (only \<longrightarrow> hash_refines ht' (renum only 0 al))"
proof -
  obtain xs where xs: "hash_inv ht xs" "clean_keys ht" "entries ht xs = al" "length al = length xs"
    using assms(1) by (rule hash_refinesE)
  have "distinct (filter is_str (map fst (entries ht xs)))" using hash_invD(10) [OF xs(1)] by (rule distinct_filter)
  with reindex_ok [OF hash_list_inv [OF xs(1)], of only] assms(2) xs obtain ht' where
    "zend_hash_reindex only ht = Some ht'" "hash_inv ht' xs" "entries ht' xs = renum only 0 al" "only \<longrightarrow> clean_keys ht'"
    by auto
  then show ?thesis by (intro exI [of _ ht'] exI [of _ xs]) (auto simp: hash_refines_def)
qed

theorem hash_reindex_refines_witness:
  "\<exists>ht' xs. zend_hash_reindex False sample_table = Some ht' \<and> hash_inv ht' xs \<and> entries ht' xs = [(KInt 0, 1), (KInt 1, 2)]"
  using hash_reindex_refines [OF sample_refines, of False] by (simp add: sample_entries_def)

text \<open>
  C7: \<open>zend_hash_sort\<close> with \<open>zend_qsort\<close> leaves a permutation of the entries, sorted by the
  comparison when that is a total preorder, with the invariant intact; with \<open>renumber\<close> the keys
  are then 0, 1, 2, and so on.
\<close>

theorem hash_sort_refines:
  assumes "hash_refines ht al" and "length al < 2 ^ 31"
  shows "\<exists>ht'. zend_hash_sort zend_qsort (\<lambda>x y. c (bucket_entry x) (bucket_entry y)) renumber ht = Some ht' \<and>
    sort_result_ok c renumber al ht'"
  by (rule zqsort_buckets.hash_sort_ok [OF assms])

theorem hash_sort_refines_witness:
  "\<exists>ht'. zend_hash_sort zend_qsort (\<lambda>x y. int (snd (bucket_entry x)) - int (snd (bucket_entry y))) False sample_table = Some ht' \<and>
    sort_result_ok (\<lambda>e f. int (snd e) - int (snd f)) False sample_entries ht'"
  using hash_sort_refines [OF sample_refines, of "\<lambda>e f. int (snd e) - int (snd f)" False]
  by (simp add: sample_entries_def)

text \<open>
  C10: \<open>zend_hash_compare\<close> returns 0 exactly when the tables have the same entries: in the same
  order when \<open>ordered\<close>, and otherwise the same number of elements and every key of the first table
  in the second with an equal value; it restores both nesting counters, and raises the fatal
  error exactly when one of the tables is nested too deep.
\<close>

theorem hash_compare_refines:
  assumes "hash_refines ht1 al1" and "hash_refines ht2 al2"
  shows "if apply_nested ht1 \<or> apply_nested ht2 then zend_hash_compare c ordered ht1 ht2 = Some Fatal
    else \<exists>r. zend_hash_compare c ordered ht1 ht2 = Some (Done ((ht1, ht2), r)) \<and> (r = 0 \<longleftrightarrow> hash_equal c ordered al1 al2)"
proof (cases "apply_nested ht1 \<or> apply_nested ht2")
  case True
  then show ?thesis
    by (auto simp: zend_hash_compare_def nested_fatal split: outcome.splits)
next
  case False
  then show ?thesis using compare_ok [OF assms, of c ordered] by simp
qed

theorem hash_compare_refines_witness:
  "\<exists>r. zend_hash_compare (\<lambda>x y. int x - int y) True sample_table sample_table =
      Some (Done ((sample_table, sample_table), r)) \<and> r = 0"
proof -
  have "\<not> apply_nested sample_table" by code_simp
  then show ?thesis
    using hash_compare_refines [OF sample_refines sample_refines, of "\<lambda>x y. int x - int y" True]
    by (auto simp: hash_equal_def sample_entries_def same_entry_def)
qed

text \<open>
  \<open>zend_hash_minmax\<close> fails on an empty table and otherwise returns the value of an element
  that no other element exceeds (for the maximum) or precedes (for the minimum).
\<close>

theorem hash_minmax_extreme:
  assumes "hash_refines ht al" and "total_cmp c"
  shows "zend_hash_minmax (\<lambda>x y. c (bucket_entry x) (bucket_entry y)) flag ht = Some (None, FAILURE) \<and> al = [] \<or>
    (\<exists>e. zend_hash_minmax (\<lambda>x y. c (bucket_entry x) (bucket_entry y)) flag ht = Some (Some (snd e), SUCCESS) \<and>
      extreme c flag e (set al))"
  by (rule minmax_ok [OF assms])

theorem hash_minmax_extreme_witness:
  "\<exists>e. zend_hash_minmax (\<lambda>x y. int (snd (bucket_entry x)) - int (snd (bucket_entry y))) True sample_table =
     Some (Some (snd e), SUCCESS) \<and> extreme (\<lambda>e f. int (snd e) - int (snd f)) True e (set sample_entries)"
proof -
  have "total_cmp (\<lambda>e f :: hkey \<times> nat. int (snd e) - int (snd f))"
    by (auto simp: total_cmp_def preorder_cmp_def antisym_cmp_def)
  from hash_minmax_extreme [OF sample_refines this, of True] show ?thesis by (simp add: sample_entries_def)
qed

subsection \<open>Two flaws\<close>

definition interned_c :: cstr where
  "interned_c = CStr Interned [99, 0]"

definition one_key_table :: "nat HashTable" where
  "one_key_table = fst (the (zend_hash_add_or_update interned_c 2 1 sizeof_ptr HASH_ADD (zend_hash_init 8 True False)))"

definition sorted_one_key_table :: "nat HashTable" where
  "sorted_one_key_table = the (zend_hash_sort zend_qsort (\<lambda>x y. int (pData x) - int (pData y)) True one_key_table)"


definition int_table :: "ulong \<Rightarrow> nat \<Rightarrow> nat HashTable" where
  "int_table h d = fst (the (zend_hash_index_update_or_next_insert h d sizeof_ptr HASH_UPDATE (zend_hash_init 8 True False)))"

definition merged_int_tables :: "nat HashTable" where
  "merged_int_tables = the (zend_hash_merge_ex (int_table 0 1) (int_table 8 2) None sizeof_ptr (\<lambda>_ _ _. True))"


end
