(* ===== verification/Zend_Hash_Splice.thy ===== *)
theory Zend_Hash_Splice
  imports Zend_Hash_Bulk_Spec
begin

text \<open>
  \<open>_zend_hash_splice\<close>: the elements between two positions are replaced by new ones, first in the
  global list only, then the table is renumbered, which rebuilds the chains.
\<close>

subsection \<open>Skipping and removing\<close>

lemma unat_pos_inc:
  assumes "unat (pos :: uint) = n" and "Suc n < 2 ^ 32"
  shows "unat (pos + 1) = Suc n"
  using unat_inc [of pos] assms by simp

lemma skip_loop_ok:
  assumes "hash_inv ht (us @ ys)" and "unat pos = length us" and "length us \<le> unat offset"
  shows "\<exists>us' ys' pos'. us @ ys = us' @ ys' \<and> skip_loop ht offset pos (head_opt ys) = Some (pos', head_opt ys') \<and>
    unat pos' = length us' \<and> length us' = min (unat offset) (length (us @ ys))"
  using assms
proof (induction ys arbitrary: us pos)
  case Nil
  then show ?case by (intro exI [of _ us] exI [of _ "[]"] exI [of _ pos]) (simp add: skip_loop.simps)
next
  case (Cons a ys)
  obtain b where b: "heap ht a = Some b" "pListNext b = head_opt ys" using source_split [OF Cons.prems(1)] by metis
  show ?case
  proof (cases "pos < offset")
    case True
    have lt: "unat pos < unat offset" using True by (simp add: word_less_nat_alt)
    then have n: "Suc (length us) < 2 ^ 32" using unat_lt2p [of offset] Cons.prems(2) by simp
    have inv: "hash_inv ht ((us @ [a]) @ ys)" using Cons.prems(1) by simp
    have pre: "unat (pos + 1) = length (us @ [a])" "length (us @ [a]) \<le> unat offset"
      using unat_pos_inc [OF Cons.prems(2) n] lt Cons.prems(2) by simp_all
    from Cons.IH [OF inv pre] obtain us' ys' pos' where
      r: "(us @ [a]) @ ys = us' @ ys'" "skip_loop ht offset (pos + 1) (head_opt ys) = Some (pos', head_opt ys')"
        "unat pos' = length us'" "length us' = min (unat offset) (length ((us @ [a]) @ ys))" by blast
    have "skip_loop ht offset pos (head_opt (a # ys)) = Some (pos', head_opt ys')"
      using True b r(2) by (subst skip_loop.simps) simp
    moreover have "us @ a # ys = us' @ ys'" using r(1) by simp
    moreover have "length us' = min (unat offset) (length (us @ a # ys))" using r(4) by simp
    ultimately show ?thesis using r(3) by blast
  next
    case False
    then have "length us = unat offset" using Cons.prems(2,3) by (simp add: word_less_nat_alt)
    then have "length us = min (unat offset) (length (us @ a # ys))" by simp
    moreover have "skip_loop ht offset pos (head_opt (a # ys)) = Some (pos, head_opt (a # ys))"
      using False by (subst skip_loop.simps) simp
    ultimately show ?thesis using Cons.prems(2) by blast
  qed
qed

lemma remove_loop_ok:
  assumes "hash_inv ht (us @ ys)" and "clean_keys ht"
  shows "\<exists>ht' zs. remove_loop c stop pos (head_opt ys) None ht = Some (head_opt zs, None, ht') \<and>
    zs = drop (unat stop - unat pos) ys \<and> hash_inv ht' (us @ zs) \<and> clean_keys ht' \<and>
    entries ht' us = entries ht us \<and> entries ht' zs = entries ht zs \<and> same_flags ht ht' \<and>
    nTableMask ht' = nTableMask ht \<and>
    dtor_log ht' = log_dtor ht (map snd (entries ht (take (unat stop - unat pos) ys)))"
  using assms
proof (induction ys arbitrary: ht pos)
  case Nil
  then show ?case by (simp add: remove_loop.simps log_dtor_def)
next
  case (Cons a ys)
  show ?case
  proof (cases "pos < stop")
    case False
    then have "unat stop - unat pos = 0" by (simp add: word_less_nat_alt)
    with False Cons.prems show ?thesis by (subst remove_loop.simps) (simp add: log_dtor_def)
  next
    case True
    then have lt: "unat pos < unat stop" by (simp add: word_less_nat_alt)
    have "Suc (unat pos) < 2 ^ 32" using lt unat_lt2p [of stop] by simp
    then have d: "unat stop - unat pos = Suc (unat stop - unat (pos + 1))"
      using lt unat_pos_inc [OF refl, of pos] by simp
    obtain b where b: "heap ht a = Some b" "pListNext b = head_opt ys" using source_split [OF Cons.prems(1)] by metis
    from delete_step [OF Cons.prems] obtain b' ht1 where h: "heap ht a = Some b'" "zend_hash_bucket_delete a ht = Some ht1"
      "hash_inv ht1 (us @ ys)" "clean_keys ht1" "entries ht1 us = entries ht us" "entries ht1 ys = entries ht ys"
      "dtor_log ht1 = log_dtor ht [pData b']" "same_flags ht ht1" "nTableMask ht1 = nTableMask ht" by metis
    let ?k = "unat stop - unat (pos + 1)"
    obtain ht' zs where r: "remove_loop c stop (pos + 1) (head_opt ys) None ht1 = Some (head_opt zs, None, ht')"
      "zs = drop ?k ys" "hash_inv ht' (us @ zs)" "clean_keys ht'" "entries ht' us = entries ht1 us"
      "entries ht' zs = entries ht1 zs" "same_flags ht1 ht'" "nTableMask ht' = nTableMask ht1"
      "dtor_log ht' = log_dtor ht1 (map snd (entries ht1 (take ?k ys)))"
      using Cons.IH [OF h(3,4), of "pos + 1"] by blast
    have e: "entries ht1 (drop ?k ys) = entries ht (drop ?k ys)" "entries ht1 (take ?k ys) = entries ht (take ?k ys)"
      using h(6) by (auto simp: entries_def dest: in_set_dropD in_set_takeD)
    have "remove_loop c stop pos (head_opt (a # ys)) None ht = Some (head_opt zs, None, ht')"
      using True b h(2) r(1) by (subst remove_loop.simps) (simp add: collect_removed_def)
    moreover have "dtor_log ht' = log_dtor ht (map snd (entries ht (take (unat stop - unat pos) (a # ys))))"
      using r(9) log_dtor_trans [OF h(7,8)] h(1) e(2) d by (simp add: entries_Cons)
    ultimately show ?thesis
      using r h e(1) d same_flags_trans [OF h(8) r(7)] by (intro exI [of _ ht'] exI [of _ zs]) simp
  qed
qed

subsection \<open>Inserting into the global list\<close>

lemma list_inv_insert:
  assumes inv: "list_inv ht (us @ vs)" and m: "nTableMask ht \<noteq> 0" and n: "Suc (length (us @ vs)) < 2 ^ 32"
    and b: "bucket_wf (brk ht) b" "nKeyLength b = 0 \<Longrightarrow> arKey b = NullStr" and cl: "clean_keys ht"
    and ht0: "ht0 = ht\<lparr>heap := (heap ht)(brk ht \<mapsto> b), brk := Suc (brk ht)\<rparr>"
  shows "\<exists>ht'. CONNECT_TO_GLOBAL_DLLIST_EX (brk ht) (last_opt us) (head_opt vs) ht0 = Some ht' \<and>
    list_inv (ht'\<lparr>nNumOfElements := nNumOfElements ht' + 1\<rparr>) ((us @ [brk ht]) @ vs) \<and> clean_keys ht' \<and>
    entries ht' us = entries ht us \<and> entries ht' vs = entries ht vs \<and>
    entries ht' [brk ht] = [(bucket_key b, pData b)] \<and> same_flags ht ht' \<and> nTableMask ht' = nTableMask ht \<and>
    dtor_log ht' = dtor_log ht"
proof -
  let ?a = "brk ht" and ?h0 = "(heap ht)(brk ht \<mapsto> b)" and ?xs = "us @ brk ht # vs"
  have dom: "dom (heap ht) = set (us @ vs)" and g: "glist (heap ht) (pListHead ht) (pListTail ht) (us @ vs)"
    using inv by (auto simp: list_inv_def)
  have a: "?a \<notin> set (us @ vs)" using inv unfolding list_inv_def by blast
  then have other: "?h0 x = heap ht x" if "x \<in> set (us @ vs)" for x using that by auto
  have "glist (heap ht0) (pListHead ht0) (pListTail ht0) (us @ vs)"
    using glist_off [of "us @ vs" ?h0 "heap ht"] other g ht0 by simp
  from link_global_ok [OF this _ a, of b] dom ht0 obtain hp pf pl where
    r: "CONNECT_TO_GLOBAL_DLLIST_EX ?a (last_opt us) (head_opt vs) ht0 = Some (ht0\<lparr>heap := hp, pListHead := pf, pListTail := pl\<rparr>)"
      "same_by view_chain ?h0 hp" "glist hp pf pl ?xs" by auto
  define ht' where "ht' = ht0\<lparr>heap := hp, pListHead := pf, pListTail := pl\<rparr>"
  note sp = same_by_payload(2) [OF r(2)]
  have domh: "dom hp = set ?xs" using same_by_dom [OF r(2)] dom by auto
  have pl: "payload (the (hp x)) = payload (the (heap ht x))" if "x \<in> set (us @ vs)" for x
    using same_by_at [OF sp, of x] that other [OF that] dom by auto
  have pa: "payload (the (hp ?a)) = payload b" using same_by_at [OF sp, of ?a] by simp
  have e: "entries ht' us = entries ht us" "entries ht' vs = entries ht vs" "entries ht' [?a] = [(bucket_key b, pData b)]"
    using pl pa by (auto simp: entries_def ht'_def payload_def bucket_key_def)
  have wf: "bucket_wf x (the (hp x))" if "x \<in> set ?xs" for x
  proof (cases "x = ?a")
    case True
    then show ?thesis using pa b(1) by (simp add: bucket_wf_def payload_def)
  next
    case False
    then have "x \<in> set (us @ vs)" using that by auto
    with pl inv show ?thesis by (auto simp: list_inv_def bucket_wf_def payload_def)
  qed
  have cl': "clean_keys ht'"
  proof (rule clean_keys_cong [of ht0])
    show "same_by payload (heap ht0) (heap ht')" using sp by (simp add: ht'_def ht0)
    show "clean_keys ht0" using cl b(2) by (auto simp: clean_keys_def ht0)
  qed
  have "list_inv (ht'\<lparr>nNumOfElements := nNumOfElements ht' + 1\<rparr>) ((us @ [?a]) @ vs)"
    using inv r(3) domh wf m n unat_inc [of "nNumOfElements ht"]
    by (auto simp: list_inv_def ht'_def ht0 table_ok_def less_Suc_eq)
  with r(1) e cl' show ?thesis by (auto simp: ht'_def ht0 same_flags_def)
qed

lemma list_inv_ctor:
  assumes inv: "list_inv ht xs" and cl: "clean_keys ht" and a: "heap ht a = Some b"
  shows "\<exists>ht'. run_ctor c (Some a) ht = Some ht' \<and> list_inv ht' xs \<and> clean_keys ht' \<and> same_flags ht ht' \<and>
    nTableMask ht' = nTableMask ht \<and> dtor_log ht' = dtor_log ht \<and>
    entries ht' [a] = [(bucket_key b, ctor_fun c (pData b))] \<and> (\<forall>ys. a \<notin> set ys \<longrightarrow> entries ht' ys = entries ht ys)"
proof (cases c)
  case None
  then show ?thesis using assms by (simp add: run_ctor_def ctor_fun_def entries_def)
next
  case (Some f)
  let ?ht = "ht\<lparr>heap := (heap ht)(a \<mapsto> b\<lparr>pData := f (pData b)\<rparr>)\<rparr>"
  have g: "glist (heap ?ht) (pListHead ht) (pListTail ht) xs"
    using glist_fields [of xs "heap ?ht" "heap ht"] inv a by (auto simp: list_inv_def)
  have wf: "bucket_wf x (the (heap ?ht x))" if "x \<in> set xs" for x
    using inv that a by (auto simp: list_inv_def bucket_wf_def)
  have ch: "\<exists>cs. chains (heap ?ht) (arBuckets ht) (nTableMask ht) {} cs" if "xs = []"
    using inv that a by (auto simp: list_inv_def)
  have "list_inv ?ht xs" using inv a g wf ch by (auto simp: list_inv_def table_ok_def)
  moreover have "clean_keys ?ht" using cl a by (auto simp: clean_keys_def)
  moreover have "\<forall>ys. a \<notin> set ys \<longrightarrow> entries ?ht ys = entries ht ys" by (auto simp: entries_def)
  ultimately show ?thesis using Some a
    by (simp add: run_ctor_def ctor_fun_def ht_write_def same_flags_def) (simp add: entries_def bucket_key_def)
qed


definition splice_bucket :: "'d \<Rightarrow> uint \<Rightarrow> 'd Bucket" where
  "splice_bucket d nDataSize = \<lparr>b_h = 0, nKeyLength = 0, pData = d, pDataInline = (nDataSize = sizeof_ptr),
     pListNext = None, pListLast = None, pNext = None, pLast = None, arKey = NullStr\<rparr>"

lemma insert_loop_ok:
  assumes "list_inv ht (us @ vs)" and "clean_keys ht" and "nTableMask ht \<noteq> 0"
    and "length (us @ vs) + length ds < 2 ^ 32"
  shows "\<exists>ht' ws. insert_loop c nDataSize (head_opt vs) ds ht = Some ht' \<and> list_inv ht' ((us @ ws) @ vs) \<and> clean_keys ht' \<and>
    entries ht' (us @ ws) = entries ht us @ map (\<lambda>d. (KInt 0, ctor_fun c d)) ds \<and> entries ht' vs = entries ht vs \<and>
    length ws = length ds \<and> same_flags ht ht' \<and> nTableMask ht' = nTableMask ht \<and> dtor_log ht' = dtor_log ht"
  using assms
proof (induction ds arbitrary: us ht)
  case Nil
  then show ?case by (intro exI [of _ ht] exI [of _ "[]"]) simp
next
  case (Cons d ds)
  let ?b = "splice_bucket d nDataSize" and ?a = "brk ht"
  define ht0 where "ht0 = ht\<lparr>heap := (heap ht)(?a \<mapsto> ?b), brk := Suc ?a\<rparr>"
  have n: "Suc (length (us @ vs)) < 2 ^ 32" using Cons.prems(4) by simp
  have wf: "bucket_wf ?a ?b" "nKeyLength ?b = 0 \<Longrightarrow> arKey ?b = NullStr"
    by (simp_all add: splice_bucket_def bucket_wf_def)
  from list_inv_insert [OF Cons.prems(1,3) n wf Cons.prems(2) ht0_def] obtain ht1 where
    i: "CONNECT_TO_GLOBAL_DLLIST_EX ?a (last_opt us) (head_opt vs) ht0 = Some ht1"
      "list_inv (ht1\<lparr>nNumOfElements := nNumOfElements ht1 + 1\<rparr>) ((us @ [?a]) @ vs)" "clean_keys ht1"
      "entries ht1 us = entries ht us" "entries ht1 vs = entries ht vs" "entries ht1 [?a] = [(bucket_key ?b, pData ?b)]"
      "same_flags ht ht1" "nTableMask ht1 = nTableMask ht" "dtor_log ht1 = dtor_log ht" by blast
  let ?ht2 = "ht1\<lparr>nNumOfElements := nNumOfElements ht1 + 1\<rparr>"
  have L: "dom (heap ?ht2) = set ((us @ [?a]) @ vs)" "glist (heap ?ht2) (pListHead ?ht2) (pListTail ?ht2) ((us @ [?a]) @ vs)"
    using i(2) unfolding list_inv_def by blast+
  have "?a \<in> set ((us @ [?a]) @ vs)" by simp
  then obtain b1 where b1: "heap ?ht2 ?a = Some b1" unfolding L(1) [symmetric] by blast
  have cl2: "clean_keys ?ht2" using i(3) by (simp add: clean_keys_def)
  have "distinct ((us @ [?a]) @ vs)" using L(2) by (simp add: glist_def linked_def)
  then have d: "?a \<notin> set us" "?a \<notin> set vs" by simp_all
  have kb: "(bucket_key b1, pData b1) = (KInt 0, d)"
    using i(6) b1 by (simp add: entries_def splice_bucket_def bucket_key_def split: if_splits)
  from list_inv_ctor [OF i(2) cl2 b1, of c] obtain ht3 where
    r: "run_ctor c (Some ?a) ?ht2 = Some ht3" "list_inv ht3 ((us @ [?a]) @ vs)" "clean_keys ht3" "same_flags ?ht2 ht3"
      "nTableMask ht3 = nTableMask ?ht2" "dtor_log ht3 = dtor_log ?ht2"
      "entries ht3 [?a] = [(bucket_key b1, ctor_fun c (pData b1))]" "\<forall>ys. ?a \<notin> set ys \<longrightarrow> entries ht3 ys = entries ?ht2 ys"
    by blast
  have e3: "entries ht3 us = entries ht us" "entries ht3 vs = entries ht vs" "entries ht3 [?a] = [(KInt 0, ctor_fun c d)]"
    using r(7,8) d i(4,5) kb by (simp_all add: entries_def)
  have pre: "nTableMask ht3 \<noteq> 0" "length ((us @ [?a]) @ vs) + length ds < 2 ^ 32"
    using r(5) i(8) Cons.prems(3,4) by simp_all
  from Cons.IH [OF r(2,3) pre] obtain ht' ws where
    f: "insert_loop c nDataSize (head_opt vs) ds ht3 = Some ht'" "list_inv ht' (((us @ [?a]) @ ws) @ vs)" "clean_keys ht'"
      "entries ht' ((us @ [?a]) @ ws) = entries ht3 (us @ [?a]) @ map (\<lambda>d. (KInt 0, ctor_fun c d)) ds"
      "entries ht' vs = entries ht3 vs" "length ws = length ds" "same_flags ht3 ht'" "nTableMask ht' = nTableMask ht3"
      "dtor_log ht' = dtor_log ht3" by blast
  have lst: "(case head_opt vs of Some a \<Rightarrow> map_option pListLast (heap ht0 a) | None \<Rightarrow> Some (pListTail ht0)) = Some (last_opt us)"
  proof -
    have g: "linked (\<lambda>a. pListNext (the (heap ht a))) (\<lambda>a. pListLast (the (heap ht a))) (us @ vs)" "pListTail ht = last_opt (us @ vs)"
      and dom: "dom (heap ht) = set (us @ vs)" using Cons.prems(1) unfolding list_inv_def glist_def by blast+
    show ?thesis
    proof (cases vs)
      case Nil
      then show ?thesis using g(2) by (simp add: ht0_def)
    next
      case (Cons v vs')
      then obtain bv where bv: "heap ht v = Some bv" using dom by auto
      have "v \<noteq> ?a" using d(2) Cons by auto
      moreover have "pListLast bv = last_opt us" using linked_split(2) [of _ _ us v vs'] g(1) Cons bv by fastforce
      ultimately show ?thesis using Cons bv by (simp add: ht0_def)
    qed
  qed
  have "insert_loop c nDataSize (head_opt vs) (d # ds) ht = Some ht'"
    using lst i(1) r(1) f(1) by (simp add: pemalloc_bucket_def ht0_def [symmetric] splice_bucket_def [symmetric])
  moreover have "same_flags ht ht'"
    using i(7) r(4) f(7) by (simp add: same_flags_def)
  ultimately show ?case using f e3 r(5,6) i(8,9)
    by (intro exI [of _ ht'] exI [of _ "?a # ws"]) simp
qed

lemma list_resize_ok:
  assumes inv: "list_inv ht xs" and cl: "clean_keys ht" and m: "nTableMask ht \<noteq> 0"
  shows "\<exists>ht'. ZEND_HASH_IF_FULL_DO_RESIZE ht = Some ht' \<and> list_inv ht' xs \<and> clean_keys ht' \<and>
    entries ht' xs = entries ht xs \<and> same_flags ht ht' \<and> dtor_log ht' = dtor_log ht"
proof (cases "nTableSize ht < nNumOfElements ht \<and> 0 < push_bit 1 (nTableSize ht)")
  case False
  with inv cl show ?thesis by (auto simp: ZEND_HASH_IF_FULL_DO_RESIZE_def zend_hash_do_resize_def)
next
  case True
  let ?sz = "push_bit 1 (nTableSize ht)"
  let ?ht = "ht\<lparr>arBuckets := arBuckets ht @ replicate (unat (nTableSize ht)) None, nTableSize := ?sz, nTableMask := ?sz - 1\<rparr>"
  have t: "table_ok ht" and g: "glist (heap ht) (pListHead ht) (pListTail ht) xs" and dom: "dom (heap ht) = set xs"
    using inv by (auto simp: list_inv_def)
  obtain k where k: "3 \<le> k" "k \<le> 31" "nTableSize ht = 2 ^ k" using t by (auto simp: table_ok_def)
  note pk = push_bit1_size [OF k conjunct2 [OF True]]
  have ne: "nNumOfElements ht \<noteq> 0" using True by auto
  have "\<exists>hp ar cs. zend_hash_rehash ?ht = Some (?ht\<lparr>heap := hp, arBuckets := ar\<rparr>) \<and>
     same_by view_list (heap ?ht) hp \<and> length ar = Suc (unat (nTableMask ?ht)) \<and>
     chains hp ar (nTableMask ?ht) (set xs) cs"
    by (rule zend_hash_rehash_ok) (use g dom pk(3) ne in auto)
  then obtain hp ar cs where r: "zend_hash_rehash ?ht = Some (ht\<lparr>nTableSize := ?sz, nTableMask := ?sz - 1, heap := hp, arBuckets := ar\<rparr>)"
    "same_by view_list (heap ht) hp" "length ar = Suc (unat (?sz - 1))" "chains hp ar (?sz - 1) (set xs) cs"
    by auto
  let ?ht' = "ht\<lparr>nTableSize := ?sz, nTableMask := ?sz - 1, heap := hp, arBuckets := ar\<rparr>"
  note sp = same_by_payload(1) [OF r(2)]
  have "table_ok ?ht'" using pk k(1) r(3) by (auto simp: table_ok_def intro!: exI [of _ "Suc k"])
  moreover have "glist hp (pListHead ht) (pListTail ht) xs" using glist_frame [OF r(2)] g dom by simp
  moreover have "dom hp = set xs" using same_by_dom [OF r(2)] dom by simp
  moreover have "bucket_wf a (the (hp a))" if "a \<in> set xs" for a
    using that bucket_wf_cong [OF sp, of a] inv by (auto simp: list_inv_def)
  moreover have "xs \<noteq> []" using inv ne by (auto simp: list_inv_def unat_eq_0)
  ultimately have "list_inv ?ht' xs" using inv pk(4) by (auto simp: list_inv_def)
  moreover have "clean_keys ?ht'" by (rule clean_keys_cong [OF _ cl]) (simp add: sp)
  moreover have "entries ?ht' xs = entries ht xs" by (rule entries_cong) (use sp dom in auto)
  ultimately show ?thesis using True r(1)
    by (auto simp: ZEND_HASH_IF_FULL_DO_RESIZE_def zend_hash_do_resize_def Let_def same_flags_def)
qed


subsection \<open>The whole splice\<close>

definition splice_spec :: "('d \<Rightarrow> 'd) \<Rightarrow> nat \<Rightarrow> nat \<Rightarrow> 'd list \<Rightarrow> (hkey \<times> 'd) list \<Rightarrow> (hkey \<times> 'd) list" where
  "splice_spec f off n ds al = renum True 0 (take off al @ map (\<lambda>d. (KInt 0, f d)) ds @ drop (off + n) al)"

lemma splice_str_distinct:
  assumes "distinct (map fst al)" and "off \<le> k"
  shows "distinct (filter is_str (map fst (take off al @ map (\<lambda>d. (KInt 0, f d)) ds @ drop k al)))"
proof -
  have z: "filter is_str (map fst (map (\<lambda>d. (KInt 0, f d)) ds)) = []" by (induction ds) auto
  have "distinct (map fst (take off al) @ map fst (drop k al))"
  proof -
    have "distinct (map fst (take off al @ drop off al))" using assms by simp
    moreover have "set (drop k al) \<subseteq> set (drop off al)" using assms(2) by (rule set_drop_subset_set_drop)
    moreover have "distinct (map fst (drop k al))" using assms(1) by (metis distinct_drop drop_map)
    ultimately show ?thesis by (auto simp del: append_take_drop_id)
  qed
  then have "distinct (filter is_str (map fst (take off al) @ map fst (drop k al)))" by (rule distinct_filter)
  then show ?thesis using z by simp
qed

lemma split_at:
  assumes "xs = us @ ys" and "length us = min k (length xs)"
  shows "us = take k xs" and "ys = drop k xs"
proof -
  have e: "us = take (length us) xs" "ys = drop (length us) xs" using assms(1) by simp_all
  have "take (min k (length xs)) xs = take k xs" "drop (min k (length xs)) xs = drop k xs" by (auto simp: min_def)
  then show "us = take k xs" and "ys = drop k xs" using e unfolding assms(2) by simp_all
qed

lemma splice_ok:
  assumes "hash_refines ht al" and "unat offset + unat len < 2 ^ 32" and "ds = (case lst of None \<Rightarrow> [] | Some ds \<Rightarrow> ds)"
    and "length al + length ds < 2 ^ 31"
  shows "\<exists>ht'. zend_hash_splice nDataSize c offset len lst None ht = Some (ht', None) \<and>
    hash_refines ht' (splice_spec (ctor_fun c) (unat offset) (unat len) ds al) \<and>
    dtor_log ht' = log_dtor ht (map snd (take (unat len) (drop (unat offset) al))) \<and> pDestructor ht' = pDestructor ht"
proof -
  obtain xs where xs: "hash_inv ht xs" "clean_keys ht" "entries ht xs = al" "length al = length xs"
    using assms(1) by (rule hash_refinesE)
  let ?ht = "CHECK_INIT ht" and ?o = "unat offset" and ?stop = "offset + len"
  note ci = CHECK_INIT_ok [OF xs(1,2)]
  have stop: "unat ?stop = ?o + unat len" using assms(2) by (simp add: unat_word_ariths)
  have inv0: "hash_inv ?ht ([] @ xs)" using ci(1) by simp
  have hd: "pListHead ?ht = head_opt xs" using hash_invD(3) [OF ci(1)] by (simp add: glist_def)
  have p0: "unat (0 :: uint) = length ([] :: addr list)" "length ([] :: addr list) \<le> ?o" by simp_all
  from skip_loop_ok [OF inv0 p0] obtain us ys pos where
    sk0: "[] @ xs = us @ ys" "skip_loop ?ht offset 0 (head_opt xs) = Some (pos, head_opt ys)" "unat pos = length us"
      "length us = min ?o (length ([] @ xs))" by blast
  note sk = sk0 [unfolded append_Nil]
  have us: "us = take ?o xs" "ys = drop ?o xs" by (rule split_at [OF sk(1,4)])+
  from remove_loop_ok [OF ci(1) [unfolded sk(1)] ci(2), of c ?stop pos] obtain ht1 zs where
    rm: "remove_loop c ?stop pos (head_opt ys) None ?ht = Some (head_opt zs, None, ht1)"
      "zs = drop (unat ?stop - unat pos) ys" "hash_inv ht1 (us @ zs)" "clean_keys ht1"
      "entries ht1 us = entries ?ht us" "entries ht1 zs = entries ?ht zs" "same_flags ?ht ht1"
      "nTableMask ht1 = nTableMask ?ht"
      "dtor_log ht1 = log_dtor ?ht (map snd (entries ?ht (take (unat ?stop - unat pos) ys)))" by blast
  have k: "drop (unat ?stop - unat pos) ys = drop (?o + unat len) xs" "take (unat ?stop - unat pos) ys = take (unat len) (drop ?o xs)"
  proof -
    show "drop (unat ?stop - unat pos) ys = drop (?o + unat len) xs"
      using us stop sk(3,4) by (cases "?o \<le> length xs") (simp_all add: add.commute)
    show "take (unat ?stop - unat pos) ys = take (unat len) (drop ?o xs)"
      using us stop sk(3,4) by (cases "?o \<le> length xs") simp_all
  qed
  have ent: "entries ?ht us = take ?o al" "entries ?ht zs = drop (?o + unat len) al"
    "map snd (entries ?ht (take (unat ?stop - unat pos) ys)) = map snd (take (unat len) (drop ?o al))"
    using us rm(2) k ci(4) xs(3) by (auto simp: entries_def take_map drop_map)
  have m: "nTableMask ht1 \<noteq> 0" using rm(8) ci(3) by simp
  have len: "length (us @ zs) + length ds < 2 ^ 31" using assms(4) xs(4) us(1) rm(2) us(2) by simp
  obtain ht2 ws where ins: "(case lst of None \<Rightarrow> Some ht1 | Some ds \<Rightarrow>
      do { ht \<leftarrow> insert_loop c nDataSize (head_opt zs) ds ht1; ZEND_HASH_IF_FULL_DO_RESIZE ht }) = Some ht2"
    "list_inv ht2 (us @ ws @ zs)" "clean_keys ht2" "length ws = length ds" "same_flags ht1 ht2" "dtor_log ht2 = dtor_log ht1"
    "entries ht2 (us @ ws @ zs) = take ?o al @ map (\<lambda>d. (KInt 0, ctor_fun c d)) ds @ drop (?o + unat len) al"
  proof (cases lst)
    case None
    then show thesis using that [of ht1 "[]"] hash_list_inv [OF rm(3)] rm(4-6) ent assms(3) by simp
  next
    case (Some l)
    then have l: "l = ds" using assms(3) by simp
    have "length (us @ zs) + length ds < 2 ^ 32" using len by simp
    from insert_loop_ok [OF hash_list_inv [OF rm(3)] rm(4) m this, of c nDataSize] obtain ht' ws where
      i: "insert_loop c nDataSize (head_opt zs) ds ht1 = Some ht'" "list_inv ht' ((us @ ws) @ zs)" "clean_keys ht'"
        "entries ht' (us @ ws) = entries ht1 us @ map (\<lambda>d. (KInt 0, ctor_fun c d)) ds" "entries ht' zs = entries ht1 zs"
        "length ws = length ds" "same_flags ht1 ht'" "nTableMask ht' = nTableMask ht1" "dtor_log ht' = dtor_log ht1" by blast
    from list_resize_ok [OF i(2,3)] m i(8) obtain ht2 where
      r: "ZEND_HASH_IF_FULL_DO_RESIZE ht' = Some ht2" "list_inv ht2 ((us @ ws) @ zs)" "clean_keys ht2"
        "entries ht2 ((us @ ws) @ zs) = entries ht' ((us @ ws) @ zs)" "same_flags ht' ht2" "dtor_log ht2 = dtor_log ht'" by auto
    have "entries ht2 (us @ ws @ zs) = take ?o al @ map (\<lambda>d. (KInt 0, ctor_fun c d)) ds @ drop (?o + unat len) al"
      using r(4) i(4,5) rm(5,6) ent by simp
    with r i show thesis using that [of ht2 ws] Some l same_flags_trans [OF i(7) r(5)] by simp
  qed
  have al2: "length (us @ ws @ zs) < 2 ^ 31" using len ins(4) by simp
  have dist: "distinct (filter is_str (map fst (entries ht2 (us @ ws @ zs))))"
    unfolding ins(7) by (rule splice_str_distinct) (use hash_invD(10) [OF xs(1)] xs(3) in simp_all)
  from reindex_ok [OF ins(2) al2 dist] obtain ht' where
    f: "zend_hash_reindex True ht2 = Some ht'" "hash_inv ht' (us @ ws @ zs)"
      "entries ht' (us @ ws @ zs) = renum True 0 (entries ht2 (us @ ws @ zs))" "same_flags ht2 ht'"
      "dtor_log ht' = dtor_log ht2" "clean_keys ht'" using ins(3) by blast
  have "zend_hash_splice nDataSize c offset len lst None ht = Some (ht', None)"
    using sk(2) rm(1) ins(1) f(1) hd by (simp add: zend_hash_splice_def Let_def)
  moreover have "hash_refines ht' (splice_spec (ctor_fun c) ?o (unat len) ds al)"
    using f(2,3,6) ins(7) by (auto simp: hash_refines_def splice_spec_def)
  moreover have "dtor_log ht' = log_dtor ht (map snd (take (unat len) (drop ?o al)))" "pDestructor ht' = pDestructor ht"
    using f(4,5) ins(5,6) rm(7,9) ent(3) by (simp_all add: log_dtor_def same_flags_def CHECK_INIT_def)
  ultimately show ?thesis by blast
qed

text \<open>
  C8: \<open>_zend_hash_splice\<close> replaces the elements from \<open>offset\<close> to \<open>offset + length\<close> by the list:
  the elements before and behind stay in order with their string keys, integer keys are renumbered
  from 0 over the whole table, each removed element is destroyed once, and the chains are rebuilt,
  also when the list makes the table grow.
\<close>

theorem hash_splice_refines:
  assumes "hash_refines ht al" and "unat offset + unat len < 2 ^ 32" and "ds = (case lst of None \<Rightarrow> [] | Some ds \<Rightarrow> ds)"
    and "length al + length ds < 2 ^ 31"
  shows "\<exists>ht'. zend_hash_splice nDataSize c offset len lst None ht = Some (ht', None) \<and>
    hash_refines ht' (splice_spec (ctor_fun c) (unat offset) (unat len) ds al) \<and>
    dtor_log ht' = log_dtor ht (map snd (take (unat len) (drop (unat offset) al)))"
  using splice_ok [OF assms] by blast

theorem hash_splice_refines_witness:
  "\<exists>ht'. zend_hash_splice 4 None 1 0 (Some [8, 9]) None sample_table = Some (ht', None) \<and>
    hash_refines ht' [(KInt 0, 1), (KInt 1, 8), (KInt 2, 9), (KStr [97, 0], 2)]"
  using hash_splice_refines [OF sample_refines, of 1 0 "[8, 9]" "Some [8, 9]" 4 None]
  by (auto simp: sample_entries_def splice_spec_def ctor_fun_def)

end
