(* ===== verification/Zend_Llist.thy ===== *)
theory Zend_Llist
  imports Dllist Zend_Sort
begin

text \<open>
  The model of \<open>Zend/zend_llist.c\<close>: a doubly linked list that copies its elements in and calls a
  destructor on the elements it deletes.  \<open>l_heap\<close> holds the live elements, \<open>l_brk\<close> is the address
  \<open>pemalloc\<close> returns next, and \<open>l_log\<close> records the calls of the destructor.  The callbacks of
  the apply functions are functions on the caller's state and the element.
\<close>

record 'd zend_llist_element =
  e_next :: ptr
  e_prev :: ptr
  e_data :: 'd

record 'd zend_llist =
  l_head :: ptr
  l_tail :: ptr
  l_count :: uint
  l_size :: uint
  l_dtor :: bool
  l_persistent :: bool
  traverse_ptr :: ptr
  l_heap :: "addr \<Rightarrow> 'd zend_llist_element option"
  l_brk :: addr
  l_log :: "'d list"

definition ll_write :: "'d zend_llist \<Rightarrow> addr \<Rightarrow> ('d zend_llist_element \<Rightarrow> 'd zend_llist_element) \<Rightarrow> 'd zend_llist option" where
  "ll_write l a f = (case l_heap l a of None \<Rightarrow> None | Some e \<Rightarrow> Some (l\<lparr>l_heap := (l_heap l)(a \<mapsto> f e)\<rparr>))"

definition ll_alloc :: "'d zend_llist \<Rightarrow> 'd zend_llist_element \<Rightarrow> addr \<times> 'd zend_llist" where
  "ll_alloc l e = (l_brk l, l\<lparr>l_heap := (l_heap l)(l_brk l \<mapsto> e), l_brk := Suc (l_brk l)\<rparr>)"

definition ll_free :: "'d zend_llist \<Rightarrow> addr \<Rightarrow> 'd zend_llist" where
  "ll_free l a = l\<lparr>l_heap := (l_heap l)(a := None)\<rparr>"

definition ll_dtor :: "'d zend_llist \<Rightarrow> 'd \<Rightarrow> 'd zend_llist" where
  "ll_dtor l d = (if l_dtor l then l\<lparr>l_log := l_log l @ [d]\<rparr> else l)"

definition zend_llist_init :: "uint \<Rightarrow> bool \<Rightarrow> bool \<Rightarrow> 'd zend_llist" where
  "zend_llist_init siz dtor persist =
     \<lparr>l_head = None, l_tail = None, l_count = 0, l_size = siz, l_dtor = dtor, l_persistent = persist,
      traverse_ptr = None, l_heap = Map.empty, l_brk = 0, l_log = []\<rparr>"

definition zend_llist_add_element :: "'d \<Rightarrow> 'd zend_llist \<Rightarrow> 'd zend_llist option" where
  "zend_llist_add_element element l = do {
     let (tmp, l) = ll_alloc l \<lparr>e_next = None, e_prev = l_tail l, e_data = element\<rparr>;
     l \<leftarrow> (case l_tail l of
        Some t \<Rightarrow> ll_write l t (\<lambda>e. e\<lparr>e_next := Some tmp\<rparr>)
      | None \<Rightarrow> Some (l\<lparr>l_head := Some tmp\<rparr>));
     let l = l\<lparr>l_tail := Some tmp\<rparr>;
     Some (l\<lparr>l_count := l_count l + 1\<rparr>)
   }"

definition zend_llist_prepend_element :: "'d \<Rightarrow> 'd zend_llist \<Rightarrow> 'd zend_llist option" where
  "zend_llist_prepend_element element l = do {
     let (tmp, l) = ll_alloc l \<lparr>e_next = l_head l, e_prev = None, e_data = element\<rparr>;
     l \<leftarrow> (case l_head l of
        Some h \<Rightarrow> ll_write l h (\<lambda>e. e\<lparr>e_prev := Some tmp\<rparr>)
      | None \<Rightarrow> Some (l\<lparr>l_tail := Some tmp\<rparr>));
     let l = l\<lparr>l_head := Some tmp\<rparr>;
     Some (l\<lparr>l_count := l_count l + 1\<rparr>)
   }"

definition DEL_LLIST_ELEMENT :: "addr \<Rightarrow> 'd zend_llist \<Rightarrow> 'd zend_llist option" where
  "DEL_LLIST_ELEMENT cur l = do {
     e \<leftarrow> l_heap l cur;
     l \<leftarrow> (case e_prev e of
        Some p \<Rightarrow> ll_write l p (\<lambda>x. x\<lparr>e_next := e_next e\<rparr>)
      | None \<Rightarrow> Some (l\<lparr>l_head := e_next e\<rparr>));
     l \<leftarrow> (case e_next e of
        Some n \<Rightarrow> ll_write l n (\<lambda>x. x\<lparr>e_prev := e_prev e\<rparr>)
      | None \<Rightarrow> Some (l\<lparr>l_tail := e_prev e\<rparr>));
     let l = ll_dtor l (e_data e);
     let l = ll_free l cur;
     Some (l\<lparr>l_count := l_count l - 1\<rparr>)
   }"

partial_function (option) del_loop :: "('d \<Rightarrow> bool) \<Rightarrow> ptr \<Rightarrow> 'd zend_llist \<Rightarrow> 'd zend_llist option" where [code]:
  "del_loop same p l = (case p of
     None \<Rightarrow> Some l
   | Some a \<Rightarrow> do {
       e \<leftarrow> l_heap l a;
       if same (e_data e) then DEL_LLIST_ELEMENT a l else del_loop same (e_next e) l
     })"

definition zend_llist_del_element :: "'e \<Rightarrow> ('d \<Rightarrow> 'e \<Rightarrow> bool) \<Rightarrow> 'd zend_llist \<Rightarrow> 'd zend_llist option" where
  "zend_llist_del_element element compare l = del_loop (\<lambda>d. compare d element) (l_head l) l"

partial_function (option) ll_destroy_loop :: "ptr \<Rightarrow> 'd zend_llist \<Rightarrow> 'd zend_llist option" where [code]:
  "ll_destroy_loop p l = (case p of
     None \<Rightarrow> Some l
   | Some a \<Rightarrow> do { e \<leftarrow> l_heap l a; ll_destroy_loop (e_next e) (ll_free (ll_dtor l (e_data e)) a) })"

definition zend_llist_destroy :: "'d zend_llist \<Rightarrow> 'd zend_llist option" where
  "zend_llist_destroy l = do { l \<leftarrow> ll_destroy_loop (l_head l) l; Some (l\<lparr>l_count := 0\<rparr>) }"

definition zend_llist_clean :: "'d zend_llist \<Rightarrow> 'd zend_llist option" where
  "zend_llist_clean l = do { l \<leftarrow> zend_llist_destroy l; Some (l\<lparr>l_head := None, l_tail := None\<rparr>) }"

text \<open>The result of \<open>zend_llist_remove_tail\<close> points into the element whose address it is.\<close>

definition zend_llist_remove_tail :: "'d zend_llist \<Rightarrow> ('d zend_llist \<times> ptr) option" where
  "zend_llist_remove_tail l = (case l_tail l of
     Some old_tail \<Rightarrow> do {
       e \<leftarrow> l_heap l old_tail;
       l \<leftarrow> (case e_prev e of
          Some p \<Rightarrow> ll_write l p (\<lambda>x. x\<lparr>e_next := None\<rparr>)
        | None \<Rightarrow> Some (l\<lparr>l_head := None\<rparr>));
       let l = l\<lparr>l_tail := e_prev e\<rparr>;
       let l = ll_dtor l (e_data e);
       let l = ll_free l old_tail;
       Some (l\<lparr>l_count := l_count l - 1\<rparr>, Some old_tail)
     }
   | None \<Rightarrow> Some (l, None))"

partial_function (option) ll_copy_loop :: "'d zend_llist \<Rightarrow> ptr \<Rightarrow> 'd zend_llist \<Rightarrow> 'd zend_llist option" where [code]:
  "ll_copy_loop src p dst = (case p of
     None \<Rightarrow> Some dst
   | Some a \<Rightarrow> do {
       e \<leftarrow> l_heap src a;
       dst \<leftarrow> zend_llist_add_element (e_data e) dst;
       ll_copy_loop src (e_next e) dst
     })"

definition zend_llist_copy :: "'d zend_llist \<Rightarrow> 'd zend_llist option" where
  "zend_llist_copy src = ll_copy_loop src (l_head src) (zend_llist_init (l_size src) (l_dtor src) (l_persistent src))"

partial_function (option) with_del_loop ::
  "('s \<Rightarrow> 'd \<Rightarrow> 's \<times> 'd \<times> bool) \<Rightarrow> 's \<Rightarrow> ptr \<Rightarrow> 'd zend_llist \<Rightarrow> ('d zend_llist \<times> 's) option" where [code]:
  "with_del_loop func s p l = (case p of
     None \<Rightarrow> Some (l, s)
   | Some a \<Rightarrow> do {
       e \<leftarrow> l_heap l a;
       let (s, d, del) = func s (e_data e);
       l \<leftarrow> ll_write l a (\<lambda>x. x\<lparr>e_data := d\<rparr>);
       l \<leftarrow> (if del then DEL_LLIST_ELEMENT a l else Some l);
       with_del_loop func s (e_next e) l
     })"

definition zend_llist_apply_with_del ::
  "('s \<Rightarrow> 'd \<Rightarrow> 's \<times> 'd \<times> bool) \<Rightarrow> 's \<Rightarrow> 'd zend_llist \<Rightarrow> ('d zend_llist \<times> 's) option" where
  "zend_llist_apply_with_del func s l = with_del_loop func s (l_head l) l"

partial_function (option) ll_apply_loop ::
  "('s \<Rightarrow> 'd \<Rightarrow> 's \<times> 'd) \<Rightarrow> 's \<Rightarrow> ptr \<Rightarrow> 'd zend_llist \<Rightarrow> ('d zend_llist \<times> 's) option" where [code]:
  "ll_apply_loop func s p l = (case p of
     None \<Rightarrow> Some (l, s)
   | Some a \<Rightarrow> do {
       e \<leftarrow> l_heap l a;
       let (s, d) = func s (e_data e);
       l \<leftarrow> ll_write l a (\<lambda>x. x\<lparr>e_data := d\<rparr>);
       e \<leftarrow> l_heap l a;
       ll_apply_loop func s (e_next e) l
     })"

definition zend_llist_apply ::
  "('s \<Rightarrow> 'd \<Rightarrow> 's \<times> 'd) \<Rightarrow> 's \<Rightarrow> 'd zend_llist \<Rightarrow> ('d zend_llist \<times> 's) option" where
  "zend_llist_apply func s l = ll_apply_loop func s (l_head l) l"

definition zend_llist_apply_with_argument ::
  "('s \<Rightarrow> 'd \<Rightarrow> 'arg \<Rightarrow> 's \<times> 'd) \<Rightarrow> 'arg \<Rightarrow> 's \<Rightarrow> 'd zend_llist \<Rightarrow> ('d zend_llist \<times> 's) option" where
  "zend_llist_apply_with_argument func arg s l = ll_apply_loop (\<lambda>s d. func s d arg) s (l_head l) l"

definition zend_llist_apply_with_arguments ::
  "('s \<Rightarrow> 'd \<Rightarrow> 'arg list \<Rightarrow> 's \<times> 'd) \<Rightarrow> 'arg list \<Rightarrow> 's \<Rightarrow> 'd zend_llist \<Rightarrow> ('d zend_llist \<times> 's) option" where
  "zend_llist_apply_with_arguments func args s l = ll_apply_loop (\<lambda>s d. func s d args) s (l_head l) l"

partial_function (option) ll_collect :: "'d zend_llist \<Rightarrow> ptr \<Rightarrow> addr list option" where [code]:
  "ll_collect l p = (case p of
     None \<Rightarrow> Some []
   | Some a \<Rightarrow> do { e \<leftarrow> l_heap l a; as \<leftarrow> ll_collect l (e_next e); Some (a # as) })"

function ll_relink :: "addr list \<Rightarrow> nat \<Rightarrow> 'd zend_llist \<Rightarrow> 'd zend_llist option" where
  "ll_relink elements i l =
     (if i < length elements then do {
        l \<leftarrow> ll_write l (elements ! i) (\<lambda>x. x\<lparr>e_prev := Some (elements ! (i - 1))\<rparr>);
        l \<leftarrow> ll_write l (elements ! (i - 1)) (\<lambda>x. x\<lparr>e_next := Some (elements ! i)\<rparr>);
        ll_relink elements (i + 1) l
      }
      else Some l)"
  by pat_completeness auto
termination by (relation "measure (\<lambda>(elements, i, l). length elements - i)") auto

declare ll_relink.simps [simp del]

text \<open>The loop over \<open>i\<close> ends with \<open>i = l->count\<close>, so \<open>elements[i-1]\<close> is then the last one.\<close>

definition zend_llist_sort :: "('d zend_llist_element \<Rightarrow> 'd zend_llist_element \<Rightarrow> int) \<Rightarrow> 'd zend_llist \<Rightarrow> 'd zend_llist option" where
  "zend_llist_sort comp_func l =
     (if l_count l = 0 then Some l
      else do {
        elements \<leftarrow> ll_collect l (l_head l);
        elements \<leftarrow> zend_qsort (unat sizeof_ptr) (\<lambda>a b. comp_func (the (l_heap l a)) (the (l_heap l b))) elements;
        let l = l\<lparr>l_head := Some (elements ! 0)\<rparr>;
        l \<leftarrow> ll_write l (elements ! 0) (\<lambda>x. x\<lparr>e_prev := None\<rparr>);
        l \<leftarrow> ll_relink elements 1 l;
        l \<leftarrow> ll_write l (elements ! (length elements - 1)) (\<lambda>x. x\<lparr>e_next := None\<rparr>);
        Some (l\<lparr>l_tail := Some (elements ! (length elements - 1))\<rparr>)
      })"

definition zend_llist_count :: "'d zend_llist \<Rightarrow> uint" where
  "zend_llist_count l = l_count l"

subsection \<open>Traversal\<close>

text \<open>
  A \<open>zend_llist_position *\<close> argument: \<open>None\<close> for the null pointer, when \<open>traverse_ptr\<close> is used.
  The result is the data of the new position, \<open>None\<close> for \<open>NULL\<close>.
\<close>

definition ll_pos :: "'d zend_llist \<Rightarrow> ptr option \<Rightarrow> ptr" where
  "ll_pos l pos = (case pos of Some p \<Rightarrow> p | None \<Rightarrow> traverse_ptr l)"

definition ll_set_pos :: "ptr \<Rightarrow> 'd zend_llist \<Rightarrow> ptr option \<Rightarrow> 'd zend_llist \<times> ptr option" where
  "ll_set_pos q l pos = (case pos of Some _ \<Rightarrow> (l, Some q) | None \<Rightarrow> (l\<lparr>traverse_ptr := q\<rparr>, None))"

definition ll_data :: "'d zend_llist \<Rightarrow> ptr \<Rightarrow> 'd option option" where
  "ll_data l p = (case p of Some a \<Rightarrow> map_option (\<lambda>e. Some (e_data e)) (l_heap l a) | None \<Rightarrow> Some None)"

definition zend_llist_get_first_ex ::
  "'d zend_llist \<Rightarrow> ptr option \<Rightarrow> (('d zend_llist \<times> ptr option) \<times> 'd option) option" where
  "zend_llist_get_first_ex l pos = do {
     d \<leftarrow> ll_data l (l_head l);
     Some (ll_set_pos (l_head l) l pos, d)
   }"

definition zend_llist_get_last_ex ::
  "'d zend_llist \<Rightarrow> ptr option \<Rightarrow> (('d zend_llist \<times> ptr option) \<times> 'd option) option" where
  "zend_llist_get_last_ex l pos = do {
     d \<leftarrow> ll_data l (l_tail l);
     Some (ll_set_pos (l_tail l) l pos, d)
   }"

definition zend_llist_get_next_ex ::
  "'d zend_llist \<Rightarrow> ptr option \<Rightarrow> (('d zend_llist \<times> ptr option) \<times> 'd option) option" where
  "zend_llist_get_next_ex l pos = (case ll_pos l pos of
     Some a \<Rightarrow> do { e \<leftarrow> l_heap l a; d \<leftarrow> ll_data l (e_next e); Some (ll_set_pos (e_next e) l pos, d) }
   | None \<Rightarrow> Some ((l, pos), None))"

definition zend_llist_get_prev_ex ::
  "'d zend_llist \<Rightarrow> ptr option \<Rightarrow> (('d zend_llist \<times> ptr option) \<times> 'd option) option" where
  "zend_llist_get_prev_ex l pos = (case ll_pos l pos of
     Some a \<Rightarrow> do { e \<leftarrow> l_heap l a; d \<leftarrow> ll_data l (e_prev e); Some (ll_set_pos (e_prev e) l pos, d) }
   | None \<Rightarrow> Some ((l, pos), None))"

end
