(* ===== verification/Zend_Llist_Spec.thy ===== *)
theory Zend_Llist_Spec
  imports Zend_Llist Zend_Sort_Spec
begin

text \<open>
  A \<open>zend_llist\<close> stands for the list of its elements; every operation keeps the links consistent
  and implements the list operation of its name.
\<close>

subsection \<open>Invariant\<close>

definition ll_inv :: "'d zend_llist \<Rightarrow> addr list \<Rightarrow> bool" where
  "ll_inv l xs \<longleftrightarrow> linked (\<lambda>a. e_next (the (l_heap l a))) (\<lambda>a. e_prev (the (l_heap l a))) xs \<and>
     l_head l = head_opt xs \<and> l_tail l = last_opt xs \<and> dom (l_heap l) = set xs \<and>
     (\<forall>a\<in>set xs. a < l_brk l) \<and> unat (l_count l) = length xs"

definition ll_datas :: "'d zend_llist \<Rightarrow> addr list \<Rightarrow> 'd list" where
  "ll_datas l xs = map (\<lambda>a. e_data (the (l_heap l a))) xs"

definition ll_refines :: "'d zend_llist \<Rightarrow> 'd list \<Rightarrow> bool" where
  "ll_refines l ds \<longleftrightarrow> (\<exists>xs. ll_inv l xs \<and> ll_datas l xs = ds)"

definition ll_same :: "'d zend_llist \<Rightarrow> 'd zend_llist \<Rightarrow> bool" where
  "ll_same l l' \<longleftrightarrow> l_size l' = l_size l \<and> l_dtor l' = l_dtor l \<and> l_persistent l' = l_persistent l"

definition ll_logged :: "'d zend_llist \<Rightarrow> 'd list \<Rightarrow> 'd list" where
  "ll_logged l ds = l_log l @ (if l_dtor l then ds else [])"

lemma ll_invD:
  assumes "ll_inv l xs"
  shows "linked (\<lambda>a. e_next (the (l_heap l a))) (\<lambda>a. e_prev (the (l_heap l a))) xs"
    and "l_head l = head_opt xs" and "l_tail l = last_opt xs" and "dom (l_heap l) = set xs"
    and "\<And>a. a \<in> set xs \<Longrightarrow> a < l_brk l" and "unat (l_count l) = length xs" and "distinct xs"
  using assms by (auto simp: ll_inv_def linked_def)

lemma ll_refinesE:
  assumes "ll_refines l ds"
  obtains xs where "ll_inv l xs" and "ll_datas l xs = ds" and "length ds = length xs"
  using assms by (auto simp: ll_refines_def ll_datas_def)

lemma ll_datas_simps [simp]:
  "ll_datas l [] = []" "ll_datas l (us @ vs) = ll_datas l us @ ll_datas l vs"
  "ll_datas l (a # vs) = e_data (the (l_heap l a)) # ll_datas l vs"
  by (simp_all add: ll_datas_def)

lemma ll_same_refl [simp]: "ll_same l l"
  by (simp add: ll_same_def)

lemma ll_same_trans: "ll_same a b \<Longrightarrow> ll_same b c \<Longrightarrow> ll_same a c"
  by (simp add: ll_same_def)

lemma ll_node:
  assumes "ll_inv l (us @ a # vs)"
  obtains e where "l_heap l a = Some e" and "e_next e = head_opt vs" and "e_prev e = last_opt us"
proof -
  obtain e where "l_heap l a = Some e" using ll_invD(4) [OF assms] by fastforce
  with linked_split [OF ll_invD(1) [OF assms]] that show thesis by simp
qed

subsection \<open>Insertion\<close>

lemma ll_insert_ok:
  assumes inv: "ll_inv l (us @ vs)" and n: "Suc (length (us @ vs)) < 2 ^ 32"
    and a: "a = l_brk l"
    and hp: "hp a = Some \<lparr>e_next = head_opt vs, e_prev = last_opt us, e_data = d\<rparr>"
      "\<And>x. x \<noteq> a \<Longrightarrow> hp x = map_option (\<lambda>e. e
         \<lparr>e_next := (if last_opt us = Some x then Some a else e_next e),
          e_prev := (if head_opt vs = Some x then Some a else e_prev e)\<rparr>) (l_heap l x)"
    and l': "l' = l\<lparr>l_heap := hp, l_brk := Suc a, l_head := head_opt (us @ a # vs), l_tail := last_opt (us @ a # vs),
       l_count := l_count l + 1\<rparr>"
  shows "ll_inv l' (us @ a # vs)" and "ll_datas l' (us @ a # vs) = ll_datas l us @ d # ll_datas l vs"
proof -
  have fresh: "a \<notin> set (us @ vs)" using ll_invD(5) [OF inv] a by blast
  have dom: "dom (l_heap l) = set (us @ vs)" by (rule ll_invD(4) [OF inv])
  have live: "\<exists>e. l_heap l x = Some e" if "x \<in> set (us @ vs)" for x using that dom by blast
  have ends: "last_opt us = Some x \<Longrightarrow> l_heap l x \<noteq> None" "head_opt vs = Some x \<Longrightarrow> l_heap l x \<noteq> None" for x
    using live last_opt_in_set [of us x] head_opt_in_set [of vs x] by fastforce+
  have "linked (\<lambda>x. e_next (the (hp x))) (\<lambda>x. e_prev (the (hp x))) (us @ a # vs)"
  proof (rule linked_insert [OF ll_invD(1) [OF inv]])
    show "a \<notin> set us" "a \<notin> set vs" using fresh by auto
    show "e_next (the (hp a)) = head_opt vs" "e_prev (the (hp a)) = last_opt us" by (simp_all add: hp(1))
    fix x assume x: "x \<noteq> a"
    show "e_next (the (hp x)) = (if last_opt us = Some x then Some a else e_next (the (l_heap l x)))"
    proof (cases "l_heap l x")
      case None
      then show ?thesis using ends(1) [of x] by (auto simp: hp(2) [OF x])
    qed (simp add: hp(2) [OF x])
    show "e_prev (the (hp x)) = (if head_opt vs = Some x then Some a else e_prev (the (l_heap l x)))"
    proof (cases "l_heap l x")
      case None
      then show ?thesis using ends(2) [of x] by (auto simp: hp(2) [OF x])
    qed (simp add: hp(2) [OF x])
  qed
  moreover have "dom hp = set (us @ a # vs)"
  proof (rule set_eqI)
    fix x show "x \<in> dom hp \<longleftrightarrow> x \<in> set (us @ a # vs)"
    proof (cases "x = a")
      case False
      then have "x \<in> dom hp \<longleftrightarrow> x \<in> dom (l_heap l)" by (simp add: dom_def hp(2))
      then show ?thesis using dom False by simp
    qed (simp add: dom_def hp(1))
  qed
  moreover have "unat (l_count l + 1) = length (us @ a # vs)"
    using unat_inc [of "l_count l"] ll_invD(6) [OF inv] n by simp
  moreover have "\<forall>x\<in>set (us @ a # vs). x < Suc a" using ll_invD(5) [OF inv] a by (auto simp: less_Suc_eq)
  ultimately show "ll_inv l' (us @ a # vs)" by (simp add: ll_inv_def l')
  have "e_data (the (hp x)) = e_data (the (l_heap l x))" if "x \<in> set (us @ vs)" for x
  proof -
    have "x \<noteq> a" using that fresh by auto
    with live [OF that] show ?thesis by (auto simp: hp(2))
  qed
  then show "ll_datas l' (us @ a # vs) = ll_datas l us @ d # ll_datas l vs"
    using hp(1) by (simp add: ll_datas_def l')
qed

lemma ll_add_ok:
  assumes inv: "ll_inv l xs" and n: "Suc (length xs) < 2 ^ 32"
  shows "\<exists>l'. zend_llist_add_element d l = Some l' \<and> ll_inv l' (xs @ [l_brk l]) \<and>
    ll_datas l' (xs @ [l_brk l]) = ll_datas l xs @ [d] \<and> ll_same l l' \<and> l_log l' = l_log l"
proof -
  let ?a = "l_brk l"
  let ?h1 = "(l_heap l)(?a \<mapsto> \<lparr>e_next = None, e_prev = last_opt xs, e_data = d\<rparr>)"
  define hp where "hp = (case last_opt xs of None \<Rightarrow> ?h1
    | Some t \<Rightarrow> ?h1(t \<mapsto> (the (l_heap l t))\<lparr>e_next := Some ?a\<rparr>))"
  define l' where "l' = l\<lparr>l_heap := hp, l_brk := Suc ?a, l_head := head_opt (xs @ ?a # []), l_tail := last_opt (xs @ ?a # []),
       l_count := l_count l + 1\<rparr>"
  have tl: "t \<in> set xs \<and> t \<noteq> ?a \<and> (\<exists>e. l_heap l t = Some e)" if "last_opt xs = Some t" for t
    using last_opt_in_set [OF that] ll_invD(4,5) [OF inv] by fastforce
  have inv': "ll_inv l (xs @ [])" "Suc (length (xs @ [])) < 2 ^ 32" using inv n by simp_all
  have h: "hp ?a = Some \<lparr>e_next = head_opt [], e_prev = last_opt xs, e_data = d\<rparr>"
    "\<And>x. x \<noteq> ?a \<Longrightarrow> hp x = map_option (\<lambda>e. e
       \<lparr>e_next := (if last_opt xs = Some x then Some ?a else e_next e),
        e_prev := (if head_opt [] = Some x then Some ?a else e_prev e)\<rparr>) (l_heap l x)"
  proof -
    show "hp ?a = Some \<lparr>e_next = head_opt [], e_prev = last_opt xs, e_data = d\<rparr>"
      using tl by (auto simp: hp_def split: option.splits)
    show "hp x = map_option (\<lambda>e. e
       \<lparr>e_next := (if last_opt xs = Some x then Some ?a else e_next e),
        e_prev := (if head_opt [] = Some x then Some ?a else e_prev e)\<rparr>) (l_heap l x)" if "x \<noteq> ?a" for x
      using tl [of x] that by (cases "l_heap l x") (auto simp: hp_def split: option.splits)
  qed
  have "zend_llist_add_element d l = Some l'"
  proof (cases "last_opt xs")
    case None
    then show ?thesis using ll_invD(3) [OF inv]
      by (simp add: zend_llist_add_element_def ll_alloc_def l'_def hp_def head_opt_append last_opt_Cons)
  next
    case (Some t)
    then have "head_opt (xs @ [?a]) = l_head l" using ll_invD(2) [OF inv] by (cases xs) auto
    then show ?thesis using ll_invD(3) [OF inv] Some tl [OF Some]
      by (auto simp: zend_llist_add_element_def ll_alloc_def ll_write_def l'_def hp_def)
  qed
  with ll_insert_ok [OF inv' refl h l'_def] show ?thesis by (simp add: l'_def ll_same_def)
qed

lemma ll_prepend_ok:
  assumes inv: "ll_inv l xs" and n: "Suc (length xs) < 2 ^ 32"
  shows "\<exists>l'. zend_llist_prepend_element d l = Some l' \<and> ll_inv l' (l_brk l # xs) \<and>
    ll_datas l' (l_brk l # xs) = d # ll_datas l xs \<and> ll_same l l' \<and> l_log l' = l_log l"
proof -
  let ?a = "l_brk l"
  let ?h1 = "(l_heap l)(?a \<mapsto> \<lparr>e_next = head_opt xs, e_prev = None, e_data = d\<rparr>)"
  define hp where "hp = (case head_opt xs of None \<Rightarrow> ?h1
    | Some t \<Rightarrow> ?h1(t \<mapsto> (the (l_heap l t))\<lparr>e_prev := Some ?a\<rparr>))"
  define l' where "l' = l\<lparr>l_heap := hp, l_brk := Suc ?a, l_head := head_opt ([] @ ?a # xs), l_tail := last_opt ([] @ ?a # xs),
       l_count := l_count l + 1\<rparr>"
  have hd: "t \<in> set xs \<and> t \<noteq> ?a \<and> (\<exists>e. l_heap l t = Some e)" if "head_opt xs = Some t" for t
    using head_opt_in_set [OF that] ll_invD(4,5) [OF inv] by fastforce
  have inv': "ll_inv l ([] @ xs)" "Suc (length ([] @ xs)) < 2 ^ 32" using inv n by simp_all
  have h: "hp ?a = Some \<lparr>e_next = head_opt xs, e_prev = last_opt [], e_data = d\<rparr>"
    "\<And>x. x \<noteq> ?a \<Longrightarrow> hp x = map_option (\<lambda>e. e
       \<lparr>e_next := (if last_opt [] = Some x then Some ?a else e_next e),
        e_prev := (if head_opt xs = Some x then Some ?a else e_prev e)\<rparr>) (l_heap l x)"
  proof -
    show "hp ?a = Some \<lparr>e_next = head_opt xs, e_prev = last_opt [], e_data = d\<rparr>"
      using hd by (auto simp: hp_def split: option.splits)
    show "hp x = map_option (\<lambda>e. e
       \<lparr>e_next := (if last_opt [] = Some x then Some ?a else e_next e),
        e_prev := (if head_opt xs = Some x then Some ?a else e_prev e)\<rparr>) (l_heap l x)" if "x \<noteq> ?a" for x
      using hd [of x] that by (cases "l_heap l x") (auto simp: hp_def split: option.splits)
  qed
  have "zend_llist_prepend_element d l = Some l'"
  proof (cases "head_opt xs")
    case None
    then show ?thesis using ll_invD(2) [OF inv]
      by (simp add: zend_llist_prepend_element_def ll_alloc_def l'_def hp_def last_opt_def)
  next
    case (Some t)
    then have "last_opt (?a # xs) = l_tail l" using ll_invD(3) [OF inv] by (cases xs) (auto simp: last_opt_Cons)
    then show ?thesis using ll_invD(2) [OF inv] Some hd [OF Some]
      by (auto simp: zend_llist_prepend_element_def ll_alloc_def ll_write_def l'_def hp_def)
  qed
  with ll_insert_ok [OF inv' refl h l'_def] show ?thesis by (simp add: l'_def ll_same_def)
qed

lemma ll_add_refines:
  assumes "ll_refines l ds" and "Suc (length ds) < 2 ^ 32"
  shows "\<exists>l'. zend_llist_add_element d l = Some l' \<and> ll_refines l' (ds @ [d]) \<and> ll_same l l' \<and> l_log l' = l_log l"
proof -
  obtain xs where xs: "ll_inv l xs" "ll_datas l xs = ds" "length ds = length xs" by (rule ll_refinesE [OF assms(1)])
  with ll_add_ok [OF xs(1), of d] assms(2) show ?thesis unfolding ll_refines_def by metis
qed

subsection \<open>Deletion\<close>

text \<open>What an update of one field of one element does to the views of the heap.\<close>

lemma ll_del_ok:
  assumes inv: "ll_inv l (us @ a # vs)"
  shows "\<exists>l' e. l_heap l a = Some e \<and> DEL_LLIST_ELEMENT a l = Some l' \<and> ll_inv l' (us @ vs) \<and>
    ll_datas l' (us @ vs) = ll_datas l (us @ vs) \<and> ll_same l l' \<and> l_log l' = ll_logged l [e_data e]"
proof -
  obtain e where e: "l_heap l a = Some e" "e_next e = head_opt vs" "e_prev e = last_opt us"
    by (rule ll_node [OF inv])
  have d: "distinct (us @ a # vs)" and dom: "dom (l_heap l) = set (us @ a # vs)"
    using ll_invD [OF inv] by blast+
  define h1 where "h1 = (case last_opt us of None \<Rightarrow> l_heap l
    | Some p \<Rightarrow> (l_heap l)(p \<mapsto> (the (l_heap l p))\<lparr>e_next := head_opt vs\<rparr>))"
  define h2 where "h2 = (case head_opt vs of None \<Rightarrow> h1
    | Some n \<Rightarrow> h1(n \<mapsto> (the (h1 n))\<lparr>e_prev := last_opt us\<rparr>))"
  define l' where "l' = l\<lparr>l_head := head_opt (us @ vs), l_tail := last_opt (us @ vs), l_heap := h2(a := None),
    l_log := ll_logged l [e_data e], l_count := l_count l - 1\<rparr>"
  have lv: "x \<noteq> a \<and> l_heap l x \<noteq> None" if "x \<in> set (us @ vs)" for x using that d dom by auto
  have lp: "p \<in> set us \<and> p \<notin> set vs \<and> p \<noteq> a \<and> l_heap l p \<noteq> None" if "last_opt us = Some p" for p
    using last_opt_in_set [OF that] lv [of p] d by auto
  have ln: "n \<in> set vs \<and> n \<notin> set us \<and> n \<noteq> a \<and> l_heap l n \<noteq> None" if "head_opt vs = Some n" for n
    using head_opt_in_set [OF that] lv [of n] d by auto
  have h1: "h1 x = map_option (\<lambda>e. if last_opt us = Some x then e\<lparr>e_next := head_opt vs\<rparr> else e) (l_heap l x)" for x
    using lp [of x] by (cases "last_opt us"; cases "l_heap l x") (auto simp: h1_def)
  have h1n: "h1 n \<noteq> None" if "head_opt vs = Some n" for n using ln [OF that] by (simp add: h1)
  have h2: "h2 x = map_option (\<lambda>e. if head_opt vs = Some x then e\<lparr>e_prev := last_opt us\<rparr> else e) (h1 x)" for x
    using h1n [of x] by (cases "head_opt vs"; cases "h1 x") (auto simp: h2_def)
  have run: "DEL_LLIST_ELEMENT a l = Some l'"
  proof -
    have hd: "head_opt (us @ vs) = (if us = [] then head_opt vs else l_head l)"
      and tl: "last_opt (us @ vs) = (if vs = [] then last_opt us else l_tail l)"
      using ll_invD(2,3) [OF inv] by (simp_all add: head_opt_append last_opt_append last_opt_Cons)
    show ?thesis
    proof (cases "last_opt us")
      case None
      then show ?thesis using e hd tl ln h1n ll_invD(2,3) [OF inv]
        by (cases "head_opt vs")
          (auto simp: DEL_LLIST_ELEMENT_def ll_write_def ll_dtor_def ll_free_def l'_def h1_def h2_def ll_logged_def
            head_opt_append last_opt_append intro!: zend_llist.equality)
    next
      case (Some p)
      then have ne: "us \<noteq> []" by auto
      from Some lp obtain y where y: "l_heap l p = Some y" by blast
      have w: "ll_write l p (\<lambda>x. x\<lparr>e_next := e_next e\<rparr>) = Some (l\<lparr>l_heap := h1\<rparr>)"
        using Some y e by (simp add: ll_write_def h1_def)
      show ?thesis using Some e hd tl ne h1n w ll_invD(2,3) [OF inv]
        by (cases "head_opt vs")
          (auto simp: DEL_LLIST_ELEMENT_def ll_write_def [where l = "l\<lparr>l_heap := h1\<rparr>"] ll_dtor_def ll_free_def l'_def h2_def ll_logged_def
            intro!: zend_llist.equality)
    qed
  qed
  have "linked (\<lambda>x. e_next (the (l_heap l' x))) (\<lambda>x. e_prev (the (l_heap l' x))) (us @ vs)"
  proof (rule linked_remove [OF ll_invD(1) [OF inv]])
    fix b assume b: "b \<noteq> a"
    show "e_next (the (l_heap l' b)) = (if last_opt us = Some b then head_opt vs else e_next (the (l_heap l b)))"
      using b lp [of b] by (cases "l_heap l b") (auto simp: l'_def h2 h1)
    show "e_prev (the (l_heap l' b)) = (if head_opt vs = Some b then last_opt us else e_prev (the (l_heap l b)))"
      using b ln [of b] by (cases "l_heap l b") (auto simp: l'_def h2 h1)
  qed
  moreover have dom2: "dom h2 = dom (l_heap l)" by (simp add: dom_def h2 h1)
  moreover have "dom (l_heap l') = set (us @ vs)" using dom2 dom d by (auto simp: l'_def)
  moreover have "\<forall>x\<in>set (us @ vs). x < l_brk l" using ll_invD(5) [OF inv] by simp
  moreover have "unat (l_count l - 1) = length (us @ vs)"
    using ll_invD(6) [OF inv] by (simp add: unat_dec)
  ultimately have "ll_inv l' (us @ vs)" by (simp add: ll_inv_def l'_def)
  moreover have "e_data (the (l_heap l' x)) = e_data (the (l_heap l x))" if "x \<in> set (us @ vs)" for x
    using lv [OF that] by (cases "l_heap l x") (auto simp: l'_def h2 h1)
  then have "ll_datas l' (us @ vs) = ll_datas l (us @ vs)" unfolding ll_datas_def by (intro map_cong refl)
  ultimately show ?thesis using run e(1) by (simp add: l'_def ll_same_def)
qed

lemma ll_remove_tail_eq:
  assumes "ll_inv l (us @ [a])"
  shows "zend_llist_remove_tail l = map_option (\<lambda>l'. (l', Some a)) (DEL_LLIST_ELEMENT a l)"
proof -
  obtain e where e: "l_heap l a = Some e" "e_next e = None" "e_prev e = last_opt us"
    using ll_node [OF assms] by auto
  then show ?thesis using ll_invD(3) [OF assms]
    by (auto simp: zend_llist_remove_tail_def DEL_LLIST_ELEMENT_def ll_write_def Let_def split: option.splits)
qed

text \<open>The first element that satisfies \<open>P\<close>, taken out of the list.\<close>

definition del_first :: "('d \<Rightarrow> bool) \<Rightarrow> 'd list \<Rightarrow> 'd list" where
  "del_first P ds = takeWhile (\<lambda>d. \<not> P d) ds @ drop 1 (dropWhile (\<lambda>d. \<not> P d) ds)"

definition hit_first :: "('d \<Rightarrow> bool) \<Rightarrow> 'd list \<Rightarrow> 'd list" where
  "hit_first P ds = take 1 (dropWhile (\<lambda>d. \<not> P d) ds)"

lemma del_first_simps [simp]:
  "del_first P [] = []" "hit_first P [] = []"
  "del_first P (d # ds) = (if P d then ds else d # del_first P ds)"
  "hit_first P (d # ds) = (if P d then [d] else hit_first P ds)"
  by (simp_all add: del_first_def hit_first_def)

lemma del_loop_ok:
  assumes "ll_inv l (us @ vs)"
  shows "\<exists>l' ws. del_loop P (head_opt vs) l = Some l' \<and> ll_inv l' (us @ ws) \<and>
    ll_datas l' (us @ ws) = ll_datas l us @ del_first P (ll_datas l vs) \<and> ll_same l l' \<and>
    l_log l' = ll_logged l (hit_first P (ll_datas l vs))"
  using assms
proof (induction vs arbitrary: us)
  case Nil
  then show ?case by (subst del_loop.simps) (auto simp: ll_logged_def intro!: exI [of _ "[]"])
next
  case (Cons a vs)
  obtain e where e: "l_heap l a = Some e" "e_next e = head_opt vs" by (rule ll_node [OF Cons.prems])
  show ?case
  proof (cases "P (e_data e)")
    case True
    then show ?thesis using e ll_del_ok [OF Cons.prems]
      by (subst del_loop.simps) (auto intro!: exI [of _ vs])
  next
    case False
    obtain l' ws where "del_loop P (head_opt vs) l = Some l'" "ll_inv l' ((us @ [a]) @ ws)"
      "ll_datas l' ((us @ [a]) @ ws) = ll_datas l (us @ [a]) @ del_first P (ll_datas l vs)" "ll_same l l'"
      "l_log l' = ll_logged l (hit_first P (ll_datas l vs))"
      using Cons.IH [of "us @ [a]"] Cons.prems by auto
    with e False show ?thesis by (subst del_loop.simps) (auto intro!: exI [of _ "a # ws"])
  qed
qed

subsection \<open>Walks\<close>

text \<open>The \<open>next\<close> pointers alone, which is what the loops over a list follow.\<close>

primrec ll_chain :: "(addr \<Rightarrow> 'd zend_llist_element option) \<Rightarrow> addr list \<Rightarrow> bool" where
  "ll_chain hp [] = True"
| "ll_chain hp (a # vs) = ((\<exists>e. hp a = Some e \<and> e_next e = head_opt vs) \<and> ll_chain hp vs)"

lemma ll_chain_cong: "(\<And>a. a \<in> set vs \<Longrightarrow> hp a = hp' a) \<Longrightarrow> ll_chain hp vs = ll_chain hp' vs"
  by (induction vs) auto

lemma ll_inv_chain: "ll_inv l (us @ vs) \<Longrightarrow> ll_chain (l_heap l) vs"
proof (induction vs arbitrary: us)
  case (Cons a vs)
  obtain e where "l_heap l a = Some e" "e_next e = head_opt vs" by (rule ll_node [OF Cons.prems])
  then show ?case using Cons.IH [of "us @ [a]"] Cons.prems by auto
qed simp

lemma ll_collect_ok: "ll_chain (l_heap l) vs \<Longrightarrow> ll_collect l (head_opt vs) = Some vs"
  by (induction vs) (subst ll_collect.simps; auto)+

lemma ll_destroy_loop_ok:
  assumes "ll_chain (l_heap l) vs" and "distinct vs"
  shows "\<exists>l'. ll_destroy_loop (head_opt vs) l = Some l' \<and> l_heap l' = l_heap l |` (- set vs) \<and>
    l_log l' = ll_logged l (ll_datas l vs) \<and> ll_same l l' \<and> l_brk l' = l_brk l \<and> l_head l' = l_head l \<and> l_tail l' = l_tail l"
  using assms
proof (induction vs arbitrary: l)
  case Nil
  then show ?case by (subst ll_destroy_loop.simps) (simp add: ll_logged_def restrict_map_def)
next
  case (Cons a vs)
  obtain e where e: "l_heap l a = Some e" "e_next e = head_opt vs" using Cons.prems by auto
  let ?l = "ll_free (ll_dtor l (e_data e)) a"
  have hp: "l_heap ?l = (l_heap l)(a := None)" by (simp add: ll_free_def ll_dtor_def)
  have "ll_chain (l_heap ?l) vs = ll_chain (l_heap l) vs"
    by (rule ll_chain_cong) (use Cons.prems(2) hp in auto)
  then have "ll_chain (l_heap ?l) vs" "distinct vs" using Cons.prems by simp_all
  from Cons.IH [OF this] obtain l' where r: "ll_destroy_loop (head_opt vs) ?l = Some l'" "l_heap l' = l_heap ?l |` (- set vs)"
    "l_log l' = ll_logged ?l (ll_datas ?l vs)" "ll_same ?l l'" "l_brk l' = l_brk ?l" "l_head l' = l_head ?l" "l_tail l' = l_tail ?l"
    by blast
  have "ll_datas ?l vs = ll_datas l vs" using Cons.prems hp by (auto simp: ll_datas_def)
  moreover have "l_heap l' = l_heap l |` (- set (a # vs))" using r(2) hp by (auto simp: restrict_map_def)
  ultimately show ?case using e r
    by (subst ll_destroy_loop.simps) (auto simp: ll_free_def ll_dtor_def ll_logged_def ll_same_def)
qed

lemma ll_copy_loop_ok:
  assumes "ll_chain (l_heap src) vs" and "ll_refines dst ds" and "length ds + length vs < 2 ^ 32"
  shows "\<exists>dst'. ll_copy_loop src (head_opt vs) dst = Some dst' \<and> ll_refines dst' (ds @ ll_datas src vs) \<and>
    ll_same dst dst' \<and> l_log dst' = l_log dst"
  using assms
proof (induction vs arbitrary: dst ds)
  case Nil
  then show ?case by (subst ll_copy_loop.simps) auto
next
  case (Cons a vs)
  obtain e where e: "l_heap src a = Some e" "e_next e = head_opt vs" using Cons.prems by auto
  obtain d1 where d1: "zend_llist_add_element (e_data e) dst = Some d1" "ll_refines d1 (ds @ [e_data e])" "ll_same dst d1" "l_log d1 = l_log dst"
    using ll_add_refines [OF Cons.prems(2), of "e_data e"] Cons.prems(3) by auto
  from Cons.IH [OF _ d1(2)] Cons.prems(1,3) obtain d2 where
    "ll_copy_loop src (head_opt vs) d1 = Some d2" "ll_refines d2 ((ds @ [e_data e]) @ ll_datas src vs)" "ll_same d1 d2" "l_log d2 = l_log d1"
    by auto
  with e d1 show ?case by (subst ll_copy_loop.simps) (auto intro: ll_same_trans)
qed

subsection \<open>The apply functions\<close>

lemma ll_set_data:
  assumes inv: "ll_inv l (us @ a # vs)"
  shows "\<exists>l'. ll_write l a (\<lambda>x. x\<lparr>e_data := d\<rparr>) = Some l' \<and> ll_inv l' (us @ a # vs) \<and>
    ll_datas l' us = ll_datas l us \<and> ll_datas l' vs = ll_datas l vs \<and> e_data (the (l_heap l' a)) = d \<and>
    ll_same l l' \<and> l_log l' = l_log l"
proof -
  obtain e where e: "l_heap l a = Some e" by (rule ll_node [OF inv])
  let ?l = "l\<lparr>l_heap := (l_heap l)(a \<mapsto> e\<lparr>e_data := d\<rparr>)\<rparr>"
  have "linked (\<lambda>a. e_next (the (l_heap ?l a))) (\<lambda>a. e_prev (the (l_heap ?l a))) (us @ a # vs)"
    using ll_invD(1) [OF inv] e
    by (subst linked_cong [of _ _ "\<lambda>a. e_next (the (l_heap l a))" _ "\<lambda>a. e_prev (the (l_heap l a))"]) auto
  moreover have "dom (l_heap ?l) = set (us @ a # vs)" using ll_invD(4) [OF inv] e by auto
  ultimately have "ll_inv ?l (us @ a # vs)" using inv by (auto simp: ll_inv_def)
  moreover have "a \<notin> set us" "a \<notin> set vs" using ll_invD(7) [OF inv] by auto
  ultimately show ?thesis using e by (auto simp: ll_write_def ll_same_def ll_datas_def)
qed

text \<open>The list reading of the apply functions: the final state, the kept and the deleted elements.\<close>

fun apply_del_list :: "('s \<Rightarrow> 'd \<Rightarrow> 's \<times> 'd \<times> bool) \<Rightarrow> 's \<Rightarrow> 'd list \<Rightarrow> 's \<times> 'd list \<times> 'd list" where
  "apply_del_list f s [] = (s, [], [])"
| "apply_del_list f s (d # ds) =
     (let (s, d, del) = f s d; (s, kept, gone) = apply_del_list f s ds
      in if del then (s, kept, d # gone) else (s, d # kept, gone))"

lemma apply_del_none:
  "apply_del_list (\<lambda>s d. let (s, d) = h s d in (s, d, False)) s ds = (s', kept, gone) \<Longrightarrow> gone = []"
proof (induction ds arbitrary: s kept gone)
  case (Cons d ds)
  then show ?case by (simp add: Let_def split: prod.splits)
qed simp

lemma ll_logged_Nil [simp]: "ll_logged l [] = l_log l"
  by (simp add: ll_logged_def)

lemma with_del_loop_ok:
  assumes "ll_inv l (us @ vs)" and "apply_del_list f s (ll_datas l vs) = (s', kept, gone)"
  shows "\<exists>l' ws. with_del_loop f s (head_opt vs) l = Some (l', s') \<and> ll_inv l' (us @ ws) \<and>
    ll_datas l' (us @ ws) = ll_datas l us @ kept \<and> ll_same l l' \<and> l_log l' = ll_logged l gone"
  using assms
proof (induction vs arbitrary: us l s kept gone)
  case Nil
  then show ?case by (subst with_del_loop.simps) (auto intro!: exI [of _ "[]"])
next
  case (Cons a vs)
  obtain e where e: "l_heap l a = Some e" "e_next e = head_opt vs" by (rule ll_node [OF Cons.prems(1)])
  obtain s1 d del where f: "f s (e_data e) = (s1, d, del)" by (metis prod_cases3)
  obtain k1 g1 where rec: "apply_del_list f s1 (ll_datas l vs) = (s', k1, g1)"
    and kg: "kept = (if del then k1 else d # k1)" "gone = (if del then d # g1 else g1)"
    using Cons.prems(2) e(1) f by (auto split: prod.splits if_splits)
  obtain l1 where l1: "ll_write l a (\<lambda>x. x\<lparr>e_data := d\<rparr>) = Some l1" "ll_inv l1 (us @ a # vs)"
    "ll_datas l1 us = ll_datas l us" "ll_datas l1 vs = ll_datas l vs" "e_data (the (l_heap l1 a)) = d" "ll_same l l1" "l_log l1 = l_log l"
    using ll_set_data [OF Cons.prems(1)] by blast
  show ?case
  proof (cases del)
    case True
    obtain l2 where l2: "DEL_LLIST_ELEMENT a l1 = Some l2" "ll_inv l2 (us @ vs)" "ll_datas l2 us = ll_datas l us"
      "ll_datas l2 vs = ll_datas l vs" "ll_same l1 l2" "l_log l2 = ll_logged l1 [d]"
      using ll_del_ok [OF l1(2)] l1(3-5) by (auto simp: ll_datas_def)
    have lg: "ll_same l l2" "ll_logged l2 g1 = ll_logged l (d # g1)"
      using l1(6,7) l2(5,6) by (auto simp: ll_same_def ll_logged_def)
    from Cons.IH [OF l2(2)] rec l2(4) obtain l3 ws where
      "with_del_loop f s1 (head_opt vs) l2 = Some (l3, s')" "ll_inv l3 (us @ ws)"
      "ll_datas l3 (us @ ws) = ll_datas l2 us @ k1" "ll_same l2 l3" "l_log l3 = ll_logged l2 g1" by metis
    then show ?thesis using e f l1(1) l2(1,3) lg kg True
      by (subst with_del_loop.simps) (auto intro: ll_same_trans)
  next
    case False
    have "ll_inv l1 ((us @ [a]) @ vs)" using l1(2) by simp
    from Cons.IH [OF this] rec l1(4) obtain l3 ws where
      r: "with_del_loop f s1 (head_opt vs) l1 = Some (l3, s')" "ll_inv l3 ((us @ [a]) @ ws)"
      "ll_datas l3 ((us @ [a]) @ ws) = ll_datas l1 (us @ [a]) @ k1" "ll_same l1 l3" "l_log l3 = ll_logged l1 g1" by metis
    have "ll_logged l1 g1 = ll_logged l g1" using l1(6,7) by (simp add: ll_logged_def ll_same_def)
    moreover have "ll_datas l3 (us @ a # ws) = ll_datas l us @ d # k1" using r(3) l1(3,5) by simp
    moreover have "ll_inv l3 (us @ a # ws)" using r(2) by simp
    moreover have "ll_same l l3" using l1(6) r(4) by (rule ll_same_trans)
    ultimately show ?thesis using e f l1(1) r(1,5) kg False
      by (subst with_del_loop.simps) auto
  qed
qed

text \<open>An apply function without deletion is the case of a callback that never asks for one.\<close>

lemma ll_apply_loop_eq:
  assumes "ll_inv l (us @ vs)"
  shows "ll_apply_loop f s (head_opt vs) l = with_del_loop (\<lambda>s d. let (s, d) = f s d in (s, d, False)) s (head_opt vs) l"
  using assms
proof (induction vs arbitrary: us l s)
  case Nil
  then show ?case by (subst ll_apply_loop.simps, subst with_del_loop.simps) simp
next
  case (Cons a vs)
  obtain e where e: "l_heap l a = Some e" "e_next e = head_opt vs" by (rule ll_node [OF Cons.prems(1)])
  obtain s1 d where f: "f s (e_data e) = (s1, d)" by fastforce
  obtain l1 where l1: "ll_write l a (\<lambda>x. x\<lparr>e_data := d\<rparr>) = Some l1" "ll_inv l1 ((us @ [a]) @ vs)"
    using ll_set_data [OF Cons.prems(1), of d] by auto
  have "\<exists>e1. l_heap l1 a = Some e1 \<and> e_next e1 = head_opt vs"
    using l1(1) e by (auto simp: ll_write_def)
  then show ?case using e f l1(1) Cons.IH [OF l1(2), of s1]
    by (subst ll_apply_loop.simps, subst with_del_loop.simps) auto
qed

subsection \<open>Sorting\<close>

lemma ll_relink_ok:
  assumes "distinct ys" and "set ys \<subseteq> dom (l_heap l)" and "1 \<le> i"
  shows "\<exists>hp. ll_relink ys i l = Some (l\<lparr>l_heap := hp\<rparr>) \<and> dom hp = dom (l_heap l) \<and>
    (\<forall>x. e_data (the (hp x)) = e_data (the (l_heap l x))) \<and>
    (\<forall>k < length ys. e_prev (the (hp (ys ! k))) = (if i \<le> k then Some (ys ! (k - 1)) else e_prev (the (l_heap l (ys ! k)))) \<and>
       e_next (the (hp (ys ! k))) = (if i \<le> Suc k \<and> Suc k < length ys then Some (ys ! Suc k) else e_next (the (l_heap l (ys ! k)))))"
  using assms
proof (induction ys i l rule: ll_relink.induct)
  case (1 ys i l)
  show ?case
  proof (cases "i < length ys")
    case False
    then show ?thesis by (intro exI [of _ "l_heap l"]) (subst ll_relink.simps, auto)
  next
    case True
    have ne: "ys ! k = ys ! m \<longleftrightarrow> k = m" if "k < length ys" "m < length ys" for k m
      using "1.prems"(1) that by (simp add: nth_eq_iff_index_eq)
    have j: "i - 1 < length ys" "i - 1 \<noteq> i" using True "1.prems"(3) by auto
    obtain e f where e: "l_heap l (ys ! i) = Some e" and f: "l_heap l (ys ! (i - 1)) = Some f"
      using "1.prems"(2) nth_mem [OF True] nth_mem [OF j(1)] by blast
    let ?h1 = "(l_heap l)(ys ! i \<mapsto> e\<lparr>e_prev := Some (ys ! (i - 1))\<rparr>)"
    let ?h2 = "?h1(ys ! (i - 1) \<mapsto> f\<lparr>e_next := Some (ys ! i)\<rparr>)"
    have w1: "ll_write l (ys ! i) (\<lambda>x. x\<lparr>e_prev := Some (ys ! (i - 1))\<rparr>) = Some (l\<lparr>l_heap := ?h1\<rparr>)"
      using e by (simp add: ll_write_def)
    have w2: "ll_write (l\<lparr>l_heap := ?h1\<rparr>) (ys ! (i - 1)) (\<lambda>x. x\<lparr>e_next := Some (ys ! i)\<rparr>) = Some (l\<lparr>l_heap := ?h2\<rparr>)"
      using f ne [OF j(1) True] j(2) by (simp add: ll_write_def)
    have d2: "dom ?h2 = dom (l_heap l)" using e f by auto
    let ?l2 = "l\<lparr>l_heap := ?h2\<rparr>"
    have "set ys \<subseteq> dom (l_heap ?l2)" using "1.prems"(2) d2 by simp
    from "1.IH" [OF True w1 w2 "1.prems"(1) this le_add2] obtain hp where
      r: "ll_relink ys (i + 1) ?l2 = Some (?l2\<lparr>l_heap := hp\<rparr>)" "dom hp = dom (l_heap ?l2)"
        "\<forall>x. e_data (the (hp x)) = e_data (the (l_heap ?l2 x))"
        "\<forall>k<length ys. e_prev (the (hp (ys ! k))) = (if i + 1 \<le> k then Some (ys ! (k - 1)) else e_prev (the (l_heap ?l2 (ys ! k)))) \<and>
         e_next (the (hp (ys ! k))) = (if i + 1 \<le> Suc k \<and> Suc k < length ys then Some (ys ! Suc k) else e_next (the (l_heap ?l2 (ys ! k))))"
      by blast
    show ?thesis
    proof (intro exI [of _ hp] conjI allI impI)
      show "ll_relink ys i l = Some (l\<lparr>l_heap := hp\<rparr>)"
        using True w1 w2 r(1) by (subst ll_relink.simps) simp
      show "dom hp = dom (l_heap l)" using r(2) d2 by (metis zend_llist.select_convs(8) zend_llist.surjective zend_llist.update_convs(8))
      show "e_data (the (hp x)) = e_data (the (l_heap l x))" for x using r(3) e f by auto
      fix k assume k: "k < length ys"
      have h2: "l_heap ?l2 (ys ! k) = (if k = i - 1 then Some (f\<lparr>e_next := Some (ys ! i)\<rparr>)
          else if k = i then Some (e\<lparr>e_prev := Some (ys ! (i - 1))\<rparr>) else l_heap l (ys ! k))"
        using ne [OF k True] ne [OF k j(1)] by simp
      note rk = r(4) [rule_format, OF k, unfolded h2]
      have c: "Suc k < i \<or> Suc k = i \<or> k = i \<or> i < k" by linarith
      show "e_prev (the (hp (ys ! k))) = (if i \<le> k then Some (ys ! (k - 1)) else e_prev (the (l_heap l (ys ! k))))"
        using c rk f "1.prems"(3) by (elim disjE) auto
      show "e_next (the (hp (ys ! k))) = (if i \<le> Suc k \<and> Suc k < length ys then Some (ys ! Suc k) else e_next (the (l_heap l (ys ! k))))"
        using c rk e True "1.prems"(3) by (elim disjE) auto
    qed
  qed
qed

lemma ll_sort_ok:
  assumes inv: "ll_inv l xs" and n: "length xs < 2 ^ 32"
  shows "\<exists>l' ys. zend_llist_sort (\<lambda>x y. c (e_data x) (e_data y)) l = Some l' \<and> ll_inv l' ys \<and> mset ys = mset xs \<and>
    ll_datas l' ys = ll_datas l ys \<and> ll_same l l' \<and> l_log l' = l_log l \<and>
    (preorder_cmp c \<longrightarrow> sorted_wrt (\<lambda>d e. c d e \<le> 0) (ll_datas l' ys))"
proof (cases "xs = []")
  case True
  then have "l_count l = 0" using ll_invD(6) [OF inv] by (simp add: unat_eq_0)
  then show ?thesis using inv True by (auto simp: zend_llist_sort_def intro!: exI [of _ "[]"])
next
  case False
  let ?cmp = "\<lambda>a b. c (e_data (the (l_heap l a))) (e_data (the (l_heap l b)))"
  have siz: "0 < unat sizeof_ptr" by (simp add: sizeof_ptr_def)
  obtain ys where ys: "zend_qsort (unat sizeof_ptr) ?cmp xs = Some ys" "mset ys = mset xs" "distinct ys" "set ys = set xs"
    "length ys = length xs" "preorder_cmp ?cmp \<longrightarrow> sorted_wrt (\<lambda>a b. ?cmp a b \<le> 0) ys"
    by (rule zqsort.sort_result [OF siz n ll_invD(7) [OF inv]])
  have dom: "dom (l_heap l) = set ys" using ll_invD(4) [OF inv] ys(4) by simp
  have len: "0 < length ys" using False ys(5) by simp
  let ?n = "length ys - 1"
  obtain e0 where e0: "l_heap l (ys ! 0) = Some e0" using dom nth_mem [OF len] by blast
  let ?l1 = "l\<lparr>l_head := Some (ys ! 0), l_heap := (l_heap l)(ys ! 0 \<mapsto> e0\<lparr>e_prev := None\<rparr>)\<rparr>"
  have d1: "dom (l_heap ?l1) = set ys" using dom e0 nth_mem [OF len] by auto
  obtain hp where hp: "ll_relink ys 1 ?l1 = Some (?l1\<lparr>l_heap := hp\<rparr>)" "dom hp = dom (l_heap ?l1)"
    "\<forall>x. e_data (the (hp x)) = e_data (the (l_heap ?l1 x))"
    "\<forall>k<length ys. e_prev (the (hp (ys ! k))) = (if 1 \<le> k then Some (ys ! (k - 1)) else e_prev (the (l_heap ?l1 (ys ! k)))) \<and>
       e_next (the (hp (ys ! k))) = (if 1 \<le> Suc k \<and> Suc k < length ys then Some (ys ! Suc k) else e_next (the (l_heap ?l1 (ys ! k))))"
    using ll_relink_ok [OF ys(3), of ?l1 1] d1 by blast
  have last: "ys ! ?n \<in> set ys" using len by simp
  then obtain en where en: "hp (ys ! ?n) = Some en" using hp(2) d1 by blast
  let ?hp = "hp(ys ! ?n \<mapsto> en\<lparr>e_next := None\<rparr>)"
  let ?l' = "l\<lparr>l_head := Some (ys ! 0), l_heap := ?hp, l_tail := Some (ys ! ?n)\<rparr>"
  have "ll_collect l (l_head l) = Some xs"
    using ll_collect_ok [OF ll_inv_chain [of l "[]" xs]] inv ll_invD(2) [OF inv] by simp
  moreover have "l_count l \<noteq> 0" using ll_invD(6) [OF inv] False by auto
  ultimately have run: "zend_llist_sort (\<lambda>x y. c (e_data x) (e_data y)) l = Some ?l'"
    using ys(1) e0 hp(1) en by (simp add: zend_llist_sort_def ll_write_def)
  have data: "e_data (the (?hp x)) = e_data (the (l_heap l x))" for x
  proof -
    have "e_data (the (?hp x)) = e_data (the (hp x))" using en by simp
    then show ?thesis using hp(3) e0 by simp
  qed
  have "linked (\<lambda>a. e_next (the (?hp a))) (\<lambda>a. e_prev (the (?hp a))) ys"
  proof (rule linked_nthI [OF ys(3)])
    fix k assume k: "k < length ys"
    have ne: "ys ! k = ys ! m \<longleftrightarrow> k = m" if "m < length ys" for m using ys(3) k that by (simp add: nth_eq_iff_index_eq)
    show "e_next (the (?hp (ys ! k))) = (if Suc k < length ys then Some (ys ! Suc k) else None)"
      using hp(4) [rule_format, OF k] ne [of ?n] k by auto
    have "e_prev (the (?hp (ys ! k))) = e_prev (the (hp (ys ! k)))" using en by simp
    also have "\<dots> = (if k = 0 then None else Some (ys ! (k - 1)))"
    proof (cases "k = 0")
      case True
      then show ?thesis using hp(4) [rule_format, OF k] by simp
    next
      case False
      then have "1 \<le> k" by simp
      with hp(4) [rule_format, OF k] False show ?thesis by presburger
    qed
    finally show "e_prev (the (?hp (ys ! k))) = (if k = 0 then None else Some (ys ! (k - 1)))" .
  qed
  moreover have "head_opt ys = Some (ys ! 0)" using len by (cases ys) simp_all
  moreover have "last_opt ys = Some (ys ! ?n)" using len by (auto simp: last_opt_def last_conv_nth)
  moreover have "dom ?hp = set ys" using hp(2) d1 last by auto
  ultimately have inv': "ll_inv ?l' ys" using inv ys(4,5) by (simp add: ll_inv_def)
  have dt: "ll_datas ?l' ys = ll_datas l ys" using data by (simp add: ll_datas_def)
  have "sorted_wrt (\<lambda>d e. c d e \<le> 0) (ll_datas l ys)" if "preorder_cmp c"
  proof -
    have "preorder_cmp ?cmp" using that by (auto simp: preorder_cmp_def antisym_cmp_def)
    with ys(6) show ?thesis by (simp add: ll_datas_def sorted_wrt_map)
  qed
  with run inv' dt ys(2) show ?thesis by (intro exI [of _ ?l'] exI [of _ ys]) (simp add: ll_same_def)
qed

subsection \<open>Traversal\<close>

text \<open>A client loop: read elements until a step returns \<open>NULL\<close>.\<close>

fun ll_scan :: "('d zend_llist \<Rightarrow> ptr option \<Rightarrow> (('d zend_llist \<times> ptr option) \<times> 'd option) option) \<Rightarrow> nat \<Rightarrow>
    ('d zend_llist \<times> ptr option) \<times> 'd option \<Rightarrow> 'd list option" where
  "ll_scan step 0 r = None"
| "ll_scan step (Suc n) (lp, None) = Some []"
| "ll_scan step (Suc n) ((l, pos), Some d) = do { r \<leftarrow> step l pos; ds \<leftarrow> ll_scan step n r; Some (d # ds) }"

lemma ll_set_pos_simps [simp]:
  "ll_pos (fst (ll_set_pos q l pos)) (snd (ll_set_pos q l pos)) = q"
  "ll_set_pos p (fst (ll_set_pos q l pos)) (snd (ll_set_pos q l pos)) = ll_set_pos p l pos"
  "l_heap (fst (ll_set_pos q l pos)) = l_heap l"
  by (auto simp: ll_set_pos_def ll_pos_def split: option.splits)

lemma ll_data_set_pos [simp]: "ll_data (fst (ll_set_pos q l pos)) p = ll_data l p"
  by (auto simp: ll_data_def split: option.splits)

lemma ll_data_head:
  assumes "ll_inv l (us @ vs)"
  shows "ll_data l (head_opt vs) = Some (head_opt (ll_datas l vs))"
proof (cases vs)
  case (Cons a ws)
  then obtain e where "l_heap l a = Some e" using assms by (auto elim: ll_node)
  with Cons show ?thesis by (simp add: ll_data_def)
qed (simp add: ll_data_def)

lemma ll_data_last:
  assumes "ll_inv l (us @ vs)"
  shows "ll_data l (last_opt us) = Some (last_opt (ll_datas l us))"
proof (cases us rule: rev_cases)
  case (snoc ws a)
  then obtain e where "l_heap l a = Some e" using assms ll_node [of l ws a vs] by auto
  with snoc show ?thesis by (simp add: ll_data_def)
qed (simp add: ll_data_def)

lemma ll_scan_next:
  assumes "ll_inv l (us @ vs)" and "length vs < n"
  shows "ll_scan zend_llist_get_next_ex n (ll_set_pos (head_opt vs) l pos, head_opt (ll_datas l vs)) = Some (ll_datas l vs)"
  using assms
proof (induction vs arbitrary: us n)
  case Nil
  then show ?case by (cases n) simp_all
next
  case (Cons a vs)
  obtain m where n: "n = Suc m" using Cons.prems(2) by (cases n) auto
  obtain e where e: "l_heap l a = Some e" "e_next e = head_opt vs" by (rule ll_node [OF Cons.prems(1)])
  obtain l1 p1 where lp: "ll_set_pos (Some a) l pos = (l1, p1)" by fastforce
  note lp' = ll_set_pos_simps [where q = "Some a" and l = l and pos = pos, unfolded lp fst_conv snd_conv]
    ll_data_set_pos [where q = "Some a" and l = l and pos = pos, unfolded lp fst_conv]
  have inv: "ll_inv l ((us @ [a]) @ vs)" using Cons.prems(1) by simp
  from Cons.IH [OF this, of m] Cons.prems(2) n ll_data_head [OF inv] e lp lp' show ?case
    by (simp add: zend_llist_get_next_ex_def)
qed

lemma ll_scan_prev:
  assumes "ll_inv l (us @ vs)" and "length us < n"
  shows "ll_scan zend_llist_get_prev_ex n (ll_set_pos (last_opt us) l pos, last_opt (ll_datas l us)) = Some (rev (ll_datas l us))"
  using assms
proof (induction us arbitrary: vs n rule: rev_induct)
  case Nil
  then show ?case by (cases n) simp_all
next
  case (snoc a us)
  obtain m where n: "n = Suc m" using snoc.prems(2) by (cases n) auto
  have inv: "ll_inv l (us @ a # vs)" using snoc.prems(1) by simp
  obtain e where e: "l_heap l a = Some e" "e_prev e = last_opt us" by (rule ll_node [OF inv])
  obtain l1 p1 where lp: "ll_set_pos (Some a) l pos = (l1, p1)" by fastforce
  note lp' = ll_set_pos_simps [where q = "Some a" and l = l and pos = pos, unfolded lp fst_conv snd_conv]
    ll_data_set_pos [where q = "Some a" and l = l and pos = pos, unfolded lp fst_conv]
  from snoc.IH [OF inv, of m] snoc.prems(2) n ll_data_last [OF inv] e lp lp' show ?case
    by (simp add: zend_llist_get_prev_ex_def)
qed

subsection \<open>Properties\<close>

definition sample_llist :: "nat list \<Rightarrow> nat zend_llist" where
  "sample_llist ds = fold (\<lambda>d l. the (zend_llist_add_element d l)) ds (zend_llist_init 4 True False)"

lemma ll_init_refines: "ll_refines (zend_llist_init siz dtor persist) []"
  by (simp add: ll_refines_def ll_inv_def zend_llist_init_def)

lemma sample_llist_refines: "ll_refines (sample_llist [3, 1, 2]) [3, 1, 2]"
proof -
  have step: "ll_refines (the (zend_llist_add_element d l)) (ds @ [d])" if "ll_refines l ds" "length ds < 3" for d ds and l :: "nat zend_llist"
    using ll_add_refines [OF that(1), of d] that(2) by auto
  have "ll_refines (sample_llist [3, 1, 2]) ((([] @ [3]) @ [1]) @ [2])"
    unfolding sample_llist_def fold_simps by (intro step ll_init_refines) simp_all
  then show ?thesis by simp
qed

lemma ll_clean_refines:
  assumes inv: "ll_inv l xs"
  shows "\<exists>l'. zend_llist_clean l = Some l' \<and> ll_refines l' [] \<and> ll_same l l' \<and> l_log l' = ll_logged l (ll_datas l xs) \<and>
    l_heap l' = Map.empty"
proof -
  have chain: "ll_chain (l_heap l) xs" using ll_inv_chain [of l "[]" xs] inv by simp
  obtain l' where l': "ll_destroy_loop (head_opt xs) l = Some l'" "l_heap l' = l_heap l |` (- set xs)"
    "l_log l' = ll_logged l (ll_datas l xs)" "ll_same l l'"
    using ll_destroy_loop_ok [OF chain ll_invD(7) [OF inv]] by auto
  have "l_heap l' = Map.empty" using l'(2) ll_invD(4) [OF inv] by (auto simp: restrict_map_def dom_def fun_eq_iff)
  with l'(1,3,4) ll_invD(2) [OF inv] show ?thesis
    by (auto simp: zend_llist_clean_def zend_llist_destroy_def ll_refines_def ll_inv_def ll_same_def)
qed

lemma ll_copy_refines:
  assumes inv: "ll_inv l xs" and n: "length xs < 2 ^ 32"
  shows "\<exists>l'. zend_llist_copy l = Some l' \<and> ll_refines l' (ll_datas l xs) \<and> ll_same l l' \<and> l_log l' = []"
proof -
  let ?l0 = "zend_llist_init (l_size l) (l_dtor l) (l_persistent l)"
  have chain: "ll_chain (l_heap l) xs" using ll_inv_chain [of l "[]" xs] inv by simp
  have "ll_same l ?l0" "l_log ?l0 = []" by (simp_all add: ll_same_def zend_llist_init_def)
  with ll_copy_loop_ok [OF chain ll_init_refines, of "l_size l" "l_dtor l" "l_persistent l"] n ll_invD(2) [OF inv]
  show ?thesis by (auto simp: zend_llist_copy_def ll_same_def)
qed

text \<open>
  C13: The operations of \<open>zend_llist.c\<close> that add, remove and copy elements implement append,
  prepend, removal of the first match, clearing and copying of the list of elements, keep every
  link consistent, and call the destructor exactly on what they remove, in list order.
\<close>

theorem llist_ops_refine:
  assumes "ll_refines l ds" and "Suc (length ds) < 2 ^ 32"
  shows "(\<exists>l1. zend_llist_add_element d l = Some l1 \<and> ll_refines l1 (ds @ [d]) \<and> ll_same l l1 \<and> l_log l1 = l_log l) \<and>
    (\<exists>l2. zend_llist_prepend_element d l = Some l2 \<and> ll_refines l2 (d # ds) \<and> ll_same l l2 \<and> l_log l2 = l_log l) \<and>
    (\<exists>l3. zend_llist_del_element x eq l = Some l3 \<and> ll_refines l3 (del_first (\<lambda>d. eq d x) ds) \<and> ll_same l l3 \<and>
      l_log l3 = ll_logged l (hit_first (\<lambda>d. eq d x) ds)) \<and>
    (\<exists>l4. zend_llist_clean l = Some l4 \<and> ll_refines l4 [] \<and> ll_same l l4 \<and> l_log l4 = ll_logged l ds \<and> l_heap l4 = Map.empty) \<and>
    (\<exists>l5. zend_llist_copy l = Some l5 \<and> ll_refines l5 ds \<and> ll_same l l5 \<and> l_log l5 = []) \<and>
    unat (zend_llist_count l) = length ds"
proof (intro conjI)
  obtain xs where xs: "ll_inv l xs" "ll_datas l xs = ds" "length ds = length xs" by (rule ll_refinesE [OF assms(1)])
  show "\<exists>l1. zend_llist_add_element d l = Some l1 \<and> ll_refines l1 (ds @ [d]) \<and> ll_same l l1 \<and> l_log l1 = l_log l"
    by (rule ll_add_refines [OF assms])
  show "\<exists>l2. zend_llist_prepend_element d l = Some l2 \<and> ll_refines l2 (d # ds) \<and> ll_same l l2 \<and> l_log l2 = l_log l"
    using ll_prepend_ok [OF xs(1), of d] assms(2) xs unfolding ll_refines_def by metis
  show "\<exists>l3. zend_llist_del_element x eq l = Some l3 \<and> ll_refines l3 (del_first (\<lambda>d. eq d x) ds) \<and> ll_same l l3 \<and>
      l_log l3 = ll_logged l (hit_first (\<lambda>d. eq d x) ds)"
    using del_loop_ok [of l "[]" xs "\<lambda>d. eq d x"] xs ll_invD(2) [OF xs(1)]
    by (auto simp: zend_llist_del_element_def ll_refines_def)
  show "\<exists>l4. zend_llist_clean l = Some l4 \<and> ll_refines l4 [] \<and> ll_same l l4 \<and> l_log l4 = ll_logged l ds \<and> l_heap l4 = Map.empty"
    using ll_clean_refines [OF xs(1)] xs(2) by simp
  show "\<exists>l5. zend_llist_copy l = Some l5 \<and> ll_refines l5 ds \<and> ll_same l l5 \<and> l_log l5 = []"
    using ll_copy_refines [OF xs(1)] xs(2,3) assms(2) by simp
  show "unat (zend_llist_count l) = length ds"
    using ll_invD(6) [OF xs(1)] xs(3) by (simp add: zend_llist_count_def)
qed

theorem llist_ops_refine_witness:
  "\<exists>l3. zend_llist_del_element 1 (=) (sample_llist [3, 1, 2]) = Some l3 \<and> ll_refines l3 [3, 2]"
  using llist_ops_refine [OF sample_llist_refines, where x = 1 and eq = "(=)"] by auto

text \<open>
  \<open>zend_llist_apply_with_del\<close> calls its callback once per element in list order, deletes
  exactly the elements for which it answers true, even though the walk goes on from the element
  it frees, and destroys them in that order; the other apply functions visit every element and
  delete none.
\<close>

theorem llist_apply_refines:
  assumes "ll_refines l ds"
  shows "(case apply_del_list f s ds of (s', kept, gone) \<Rightarrow>
      \<exists>l'. zend_llist_apply_with_del f s l = Some (l', s') \<and> ll_refines l' kept \<and> ll_same l l' \<and> l_log l' = ll_logged l gone) \<and>
    (case apply_del_list (\<lambda>s d. let (s, d) = g s d arg in (s, d, False)) s ds of (s', kept, gone) \<Rightarrow>
      gone = [] \<and> (\<exists>l'. zend_llist_apply_with_argument g arg s l = Some (l', s') \<and>
        zend_llist_apply (\<lambda>s d. g s d arg) s l = Some (l', s') \<and> ll_refines l' kept \<and> ll_same l l' \<and> l_log l' = l_log l))"
proof -
  obtain xs where xs: "ll_inv l ([] @ xs)" "ll_datas l xs = ds" using ll_refinesE [OF assms] by auto
  have hd: "l_head l = head_opt xs" using ll_invD(2) [OF xs(1)] by simp
  have run: "case apply_del_list h s ds of (s', kept, gone) \<Rightarrow>
      \<exists>l'. with_del_loop h s (head_opt xs) l = Some (l', s') \<and> ll_refines l' kept \<and> ll_same l l' \<and> l_log l' = ll_logged l gone" for h and s :: 's
    using with_del_loop_ok [OF xs(1), of h s] xs(2) by (fastforce simp: ll_refines_def split: prod.splits)
  show ?thesis
    using run [of f s] run [of "\<lambda>s d. let (s, d) = g s d arg in (s, d, False)" s]
    by (auto dest!: apply_del_none [unfolded Let_def] simp: zend_llist_apply_with_del_def zend_llist_apply_with_argument_def zend_llist_apply_def hd
        ll_apply_loop_eq [OF xs(1)] split: prod.splits)
qed

theorem llist_apply_refines_witness:
  "\<exists>l'. zend_llist_apply_with_del (\<lambda>s d. (s + d, d, d < 3)) 0 (sample_llist [3, 1, 2]) = Some (l', 6) \<and> ll_refines l' [3]"
  using llist_apply_refines [OF sample_llist_refines, where f = "\<lambda>s d. (s + d, d, d < 3)" and s = 0 and g = "\<lambda>s d _. (s, d)" and arg = "()"]
  by auto

text \<open>
  \<open>zend_llist_sort\<close> with \<open>zend_qsort\<close> leaves a permutation of the elements with every link
  consistent, sorted by the comparison when that is a total preorder.
\<close>

theorem llist_sort_refines:
  assumes "ll_refines l ds" and "length ds < 2 ^ 32"
  shows "\<exists>l' ds'. zend_llist_sort (\<lambda>x y. c (e_data x) (e_data y)) l = Some l' \<and> ll_refines l' ds' \<and> mset ds' = mset ds \<and>
    ll_same l l' \<and> l_log l' = l_log l \<and> (preorder_cmp c \<longrightarrow> sorted_wrt (\<lambda>d e. c d e \<le> 0) ds')"
proof -
  obtain xs where xs: "ll_inv l xs" "ll_datas l xs = ds" "length ds = length xs" by (rule ll_refinesE [OF assms(1)])
  obtain l' ys where r: "zend_llist_sort (\<lambda>x y. c (e_data x) (e_data y)) l = Some l'" "ll_inv l' ys" "mset ys = mset xs"
    "ll_datas l' ys = ll_datas l ys" "ll_same l l'" "l_log l' = l_log l"
    "preorder_cmp c \<longrightarrow> sorted_wrt (\<lambda>d e. c d e \<le> 0) (ll_datas l' ys)"
    using ll_sort_ok [OF xs(1), of c] assms(2) xs(3) by auto
  have "mset (ll_datas l' ys) = mset ds" using r(3,4) xs(2) by (metis ll_datas_def mset_map)
  with r show ?thesis unfolding ll_refines_def by blast
qed

theorem llist_sort_refines_witness:
  "\<exists>l'. zend_llist_sort (\<lambda>x y. int (e_data x) - int (e_data y)) (sample_llist [3, 1, 2]) = Some l' \<and> ll_refines l' [1, 2, 3]"
proof -
  have "preorder_cmp (\<lambda>x y. int x - int y)" by (auto simp: preorder_cmp_def antisym_cmp_def)
  then obtain l' ds' where r: "zend_llist_sort (\<lambda>x y. int (e_data x) - int (e_data y)) (sample_llist [3, 1, 2]) = Some l'"
    "ll_refines l' ds'" "mset ds' = mset [3, 1, 2]" "sorted_wrt (\<lambda>d e. int d - int e \<le> 0) ds'"
    using llist_sort_refines [OF sample_llist_refines, of "\<lambda>x y. int x - int y"] by auto
  have "sorted ds'" using r(4) by simp
  then have "ds' = sort [3, 1, 2]" using r(3) by (metis properties_for_sort)
  with r(1,2) show ?thesis by simp
qed

text \<open>
  A walk with \<open>zend_llist_get_first_ex\<close> and \<open>zend_llist_get_next_ex\<close> reads every element
  in list order and then \<open>NULL\<close>, and one with \<open>zend_llist_get_last_ex\<close> and
  \<open>zend_llist_get_prev_ex\<close> reads them in reverse, with the caller's position or the list's own.
\<close>

theorem llist_walk_order:
  assumes "ll_refines l ds" and "length ds < n"
  shows "do { r \<leftarrow> zend_llist_get_first_ex l pos; ll_scan zend_llist_get_next_ex n r } = Some ds \<and>
    do { r \<leftarrow> zend_llist_get_last_ex l pos; ll_scan zend_llist_get_prev_ex n r } = Some (rev ds)"
proof -
  obtain xs where xs: "ll_inv l xs" "ll_datas l xs = ds" "length ds = length xs" by (rule ll_refinesE [OF assms(1)])
  have inv: "ll_inv l ([] @ xs)" "ll_inv l (xs @ [])" using xs(1) by simp_all
  show ?thesis
    using ll_scan_next [OF inv(1), of n pos] ll_scan_prev [OF inv(2), of n pos] ll_data_head [OF inv(1)] ll_data_last [OF inv(2)]
      assms(2) xs ll_invD(2,3) [OF xs(1)]
    by (simp add: zend_llist_get_first_ex_def zend_llist_get_last_ex_def)
qed

theorem llist_walk_order_witness:
  "do { r \<leftarrow> zend_llist_get_last_ex (sample_llist [3, 1, 2]) None; ll_scan zend_llist_get_prev_ex 4 r } = Some [2, 1, 3]"
  using llist_walk_order [OF sample_llist_refines, of 4 None] by simp

text \<open>
  C14: \<open>zend_llist_remove_tail\<close> removes the last element and destroys it, but the pointer it
  returns is into the element it has just freed.
\<close>

theorem llist_remove_tail_dangling:
  assumes "ll_refines l (ds @ [d])"
  shows "\<exists>l' a. zend_llist_remove_tail l = Some (l', Some a) \<and> ll_refines l' ds \<and> l_log l' = ll_logged l [d] \<and>
    l_heap l a \<noteq> None \<and> l_heap l' a = None"
proof -
  obtain xs where xs: "ll_inv l xs" "ll_datas l xs = ds @ [d]" by (rule ll_refinesE [OF assms])
  then obtain us a where us: "xs = us @ [a]" by (metis append_is_Nil_conv ll_datas_simps(1) list.distinct(1) rev_exhaust)
  with xs have inv: "ll_inv l (us @ [a])" and d: "ll_datas l us = ds" "e_data (the (l_heap l a)) = d" by simp_all
  obtain l' e where r: "l_heap l a = Some e" "DEL_LLIST_ELEMENT a l = Some l'" "ll_inv l' us"
    "ll_datas l' us = ll_datas l us" "l_log l' = ll_logged l [e_data e]"
    using ll_del_ok [OF inv] by auto
  have "a \<notin> set us" using ll_invD(7) [OF inv] by simp
  then have "l_heap l' a = None" using ll_invD(4) [OF r(3)] by auto
  moreover have "ll_refines l' ds" using r(3,4) d(1) by (auto simp: ll_refines_def)
  ultimately show ?thesis using r d(2) ll_remove_tail_eq [OF inv] by simp
qed

theorem llist_remove_tail_dangling_witness:
  "\<exists>l' a. zend_llist_remove_tail (sample_llist [3, 1, 2]) = Some (l', Some a) \<and> ll_refines l' [3, 1] \<and> l_heap l' a = None"
  using llist_remove_tail_dangling [of "sample_llist [3, 1, 2]" "[3, 1]" 2] sample_llist_refines by auto

end
