(* ===== verification/Zend_Stack.thy ===== *)
theory Zend_Stack
  imports Php_Prelude
begin

text \<open>
  The model of \<open>Zend/zend_stack.c\<close>, a stack that copies its elements into blocks of their own,
  and of \<open>Zend/zend_ptr_stack.c\<close> with the inline functions of \<open>zend_ptr_stack.h\<close>, a stack of
  pointers.  Both grow an array with \<open>realloc\<close>; a cell that was never written holds \<open>None\<close>.
  The counters are C \<open>int\<close>s, whose overflow is undefined, and the size passed to the allocator is
  a 32-bit product that wraps.  The memory manager aborts the request when it has no memory, so an
  allocation that returns succeeds.
\<close>

definition c_int :: "int \<Rightarrow> int option" where
  "c_int x = (if - (2 ^ 31) \<le> x \<and> x < 2 ^ 31 then Some x else None)"

lemma c_int_in [simp]: "- (2 ^ 31) \<le> x \<Longrightarrow> x < 2 ^ 31 \<Longrightarrow> c_int x = Some x"
  by (simp add: c_int_def)

text \<open>An array of pointers of \<open>n\<close> elements after \<open>realloc\<close>: the old cells as far as both reach.\<close>

definition array_cells :: "int \<Rightarrow> nat" where
  "array_cells n = unat (sizeof_ptr * word_of_int n) div unat sizeof_ptr"

definition realloc_cells :: "'c option list option \<Rightarrow> int \<Rightarrow> 'c option list option" where
  "realloc_cells arr n = (let old = (case arr of None \<Rightarrow> [] | Some cs \<Rightarrow> cs); k = array_cells n
     in Some (take k old @ replicate (k - length old) None))"

definition cell_read :: "'c option list option \<Rightarrow> int \<Rightarrow> 'c option" where
  "cell_read arr i = (case arr of None \<Rightarrow> None
     | Some cs \<Rightarrow> if 0 \<le> i \<and> nat i < length cs then cs ! nat i else None)"

definition cell_write :: "'c option list option \<Rightarrow> int \<Rightarrow> 'c \<Rightarrow> 'c option list option" where
  "cell_write arr i x = (case arr of None \<Rightarrow> None
     | Some cs \<Rightarrow> if 0 \<le> i \<and> nat i < length cs then Some (cs[nat i := Some x]) else None)"

subsection \<open>\<open>zend_stack.c\<close>\<close>

definition STACK_BLOCK_SIZE :: int where
  "STACK_BLOCK_SIZE = 64"

record 'd zend_stack =
  s_top :: int
  s_max :: int
  s_elements :: "addr option list option"
  s_heap :: "addr \<Rightarrow> 'd option"
  s_brk :: addr

definition zend_stack_init :: "(addr \<Rightarrow> 'd option) \<Rightarrow> addr \<Rightarrow> 'd zend_stack" where
  "zend_stack_init hp brk = \<lparr>s_top = 0, s_max = 0, s_elements = None, s_heap = hp, s_brk = brk\<rparr>"

definition zend_stack_push :: "'d \<Rightarrow> 'd zend_stack \<Rightarrow> ('d zend_stack \<times> int) option" where
  "zend_stack_push element s = do {
     s \<leftarrow> (if s_top s \<ge> s_max s then do {
         mx \<leftarrow> c_int (s_max s + STACK_BLOCK_SIZE);
         Some (s\<lparr>s_max := mx, s_elements := realloc_cells (s_elements s) mx\<rparr>)
       } else Some s);
     let a = s_brk s;
     let s = s\<lparr>s_heap := (s_heap s)(a \<mapsto> element), s_brk := Suc a\<rparr>;
     arr \<leftarrow> cell_write (s_elements s) (s_top s) a;
     tp \<leftarrow> c_int (s_top s + 1);
     Some (s\<lparr>s_elements := Some arr, s_top := tp\<rparr>, s_top s)
   }"

definition zend_stack_top :: "'d zend_stack \<Rightarrow> (status \<times> ptr) option" where
  "zend_stack_top s =
     (if s_top s > 0 then do { a \<leftarrow> cell_read (s_elements s) (s_top s - 1); Some (SUCCESS, Some a) }
      else Some (FAILURE, None))"

definition stack_efree :: "addr \<Rightarrow> 'd zend_stack \<Rightarrow> 'd zend_stack option" where
  "stack_efree a s = (case s_heap s a of None \<Rightarrow> None | Some _ \<Rightarrow> Some (s\<lparr>s_heap := (s_heap s)(a := None)\<rparr>))"

definition zend_stack_del_top :: "'d zend_stack \<Rightarrow> 'd zend_stack option" where
  "zend_stack_del_top s =
     (if s_top s > 0 then do {
        let s = s\<lparr>s_top := s_top s - 1\<rparr>;
        a \<leftarrow> cell_read (s_elements s) (s_top s);
        stack_efree a s
      }
      else Some s)"

definition zend_stack_int_top :: "int zend_stack \<Rightarrow> int option" where
  "zend_stack_int_top s = do {
     (st, e) \<leftarrow> zend_stack_top s;
     if st = FAILURE then Some (- 1) else (case e of None \<Rightarrow> None | Some a \<Rightarrow> s_heap s a)
   }"

definition zend_stack_is_empty :: "'d zend_stack \<Rightarrow> bool" where
  "zend_stack_is_empty s = (s_top s = 0)"

text \<open>A \<open>for\<close> loop over indices is a recursion over the list of the indices it takes.\<close>

primrec stack_free_cells :: "int list \<Rightarrow> 'd zend_stack \<Rightarrow> 'd zend_stack option" where
  "stack_free_cells [] s = Some s"
| "stack_free_cells (i # idx) s = do {
     a \<leftarrow> cell_read (s_elements s) i;
     s \<leftarrow> stack_efree a s;
     stack_free_cells idx s
   }"

definition zend_stack_destroy :: "'d zend_stack \<Rightarrow> 'd zend_stack option" where
  "zend_stack_destroy s = (case s_elements s of
     None \<Rightarrow> Some s
   | Some _ \<Rightarrow> do { s \<leftarrow> stack_free_cells [0..s_top s - 1] s; Some (s\<lparr>s_elements := None\<rparr>) })"

definition zend_stack_count :: "'d zend_stack \<Rightarrow> int" where
  "zend_stack_count s = s_top s"

datatype apply_type = ZEND_STACK_APPLY_TOPDOWN | ZEND_STACK_APPLY_BOTTOMUP

text \<open>The calls of an apply function, at the indices \<open>is\<close>, until the callback answers true.\<close>

primrec stack_visit :: "('s \<Rightarrow> 'd \<Rightarrow> 's \<times> 'd \<times> bool) \<Rightarrow> int list \<Rightarrow> 's \<Rightarrow> 'd zend_stack \<Rightarrow> ('d zend_stack \<times> 's) option" where
  "stack_visit f [] st s = Some (s, st)"
| "stack_visit f (i # idx) st s = do {
     a \<leftarrow> cell_read (s_elements s) i;
     d \<leftarrow> s_heap s a;
     let (st, d, stop) = f st d;
     let s = s\<lparr>s_heap := (s_heap s)(a \<mapsto> d)\<rparr>;
     if stop then Some (s, st) else stack_visit f idx st s
   }"

definition zend_stack_apply :: "apply_type \<Rightarrow> ('s \<Rightarrow> 'd \<Rightarrow> 's \<times> 'd \<times> bool) \<Rightarrow> 's \<Rightarrow> 'd zend_stack \<Rightarrow> ('d zend_stack \<times> 's) option" where
  "zend_stack_apply type f st s = (case type of
     ZEND_STACK_APPLY_TOPDOWN \<Rightarrow> stack_visit f (rev [0..s_top s - 1]) st s
   | ZEND_STACK_APPLY_BOTTOMUP \<Rightarrow> stack_visit f [0..s_top s - 1] st s)"

definition zend_stack_apply_with_argument ::
  "apply_type \<Rightarrow> ('s \<Rightarrow> 'd \<Rightarrow> 'arg \<Rightarrow> 's \<times> 'd \<times> bool) \<Rightarrow> 'arg \<Rightarrow> 's \<Rightarrow> 'd zend_stack \<Rightarrow> ('d zend_stack \<times> 's) option" where
  "zend_stack_apply_with_argument type f arg st s = (case type of
     ZEND_STACK_APPLY_TOPDOWN \<Rightarrow> stack_visit (\<lambda>st d. f st d arg) (rev [0..s_top s - 1]) st s
   | ZEND_STACK_APPLY_BOTTOMUP \<Rightarrow> stack_visit (\<lambda>st d. f st d arg) [0..s_top s - 1] st s)"

definition zend_stack_base :: "'d zend_stack \<Rightarrow> addr option list option" where
  "zend_stack_base s = s_elements s"

subsection \<open>\<open>zend_ptr_stack.c\<close> and \<open>zend_ptr_stack.h\<close>\<close>

definition PTR_STACK_BLOCK_SIZE :: int where
  "PTR_STACK_BLOCK_SIZE = 64"

text \<open>
  \<open>p_top_element\<close> is the offset of \<open>top_element\<close> from \<open>elements\<close>; the elements are addresses.
\<close>

record zend_ptr_stack =
  p_top :: int
  p_max :: int
  p_elements :: "addr option list option"
  p_top_element :: int
  p_persistent :: bool

definition zend_ptr_stack_init_ex :: "bool \<Rightarrow> zend_ptr_stack" where
  "zend_ptr_stack_init_ex persist =
     \<lparr>p_top = 0, p_max = 0, p_elements = None, p_top_element = 0, p_persistent = persist\<rparr>"

definition zend_ptr_stack_init :: zend_ptr_stack where
  "zend_ptr_stack_init = zend_ptr_stack_init_ex False"

function grow_max :: "int \<Rightarrow> int \<Rightarrow> int option" where
  "grow_max need mx = (case c_int (mx + PTR_STACK_BLOCK_SIZE) of
     None \<Rightarrow> None
   | Some mx' \<Rightarrow> if need > mx' then grow_max need mx' else Some mx')"
  by pat_completeness auto
termination
  by (relation "measure (\<lambda>(need, mx). nat (2 ^ 31 - mx))")
    (auto simp: c_int_def PTR_STACK_BLOCK_SIZE_def split: if_splits)

declare grow_max.simps [simp del]

definition ZEND_PTR_STACK_RESIZE_IF_NEEDED :: "int \<Rightarrow> zend_ptr_stack \<Rightarrow> zend_ptr_stack option" where
  "ZEND_PTR_STACK_RESIZE_IF_NEEDED cnt s = do {
     need \<leftarrow> c_int (p_top s + cnt);
     if need > p_max s then do {
       mx \<leftarrow> grow_max need (p_max s);
       Some (s\<lparr>p_max := mx, p_elements := realloc_cells (p_elements s) mx, p_top_element := p_top s\<rparr>)
     } else Some s
   }"

definition ptr_stack_put :: "addr \<Rightarrow> zend_ptr_stack \<Rightarrow> zend_ptr_stack option" where
  "ptr_stack_put e s = do {
     arr \<leftarrow> cell_write (p_elements s) (p_top_element s) e;
     Some (s\<lparr>p_elements := Some arr, p_top_element := p_top_element s + 1\<rparr>)
   }"

definition ptr_stack_take :: "zend_ptr_stack \<Rightarrow> (zend_ptr_stack \<times> addr) option" where
  "ptr_stack_take s = do {
     let s = s\<lparr>p_top_element := p_top_element s - 1\<rparr>;
     e \<leftarrow> cell_read (p_elements s) (p_top_element s);
     Some (s, e)
   }"

text \<open>The loop of \<open>zend_ptr_stack_n_push\<close>: it takes \<open>count\<close> arguments from the argument list.\<close>

fun n_push_loop :: "nat \<Rightarrow> addr list \<Rightarrow> zend_ptr_stack \<Rightarrow> zend_ptr_stack option" where
  "n_push_loop 0 args s = Some s"
| "n_push_loop (Suc n) [] s = None"
| "n_push_loop (Suc n) (e # args) s = do {
     tp \<leftarrow> c_int (p_top s + 1);
     s \<leftarrow> ptr_stack_put e (s\<lparr>p_top := tp\<rparr>);
     n_push_loop n args s
   }"

definition zend_ptr_stack_n_push :: "int \<Rightarrow> addr list \<Rightarrow> zend_ptr_stack \<Rightarrow> zend_ptr_stack option" where
  "zend_ptr_stack_n_push cnt args s = do {
     s \<leftarrow> ZEND_PTR_STACK_RESIZE_IF_NEEDED cnt s;
     n_push_loop (nat cnt) args s
   }"

text \<open>The values that \<open>zend_ptr_stack_n_pop\<close> stores through its arguments, in their order.\<close>

fun n_pop_loop :: "nat \<Rightarrow> zend_ptr_stack \<Rightarrow> (zend_ptr_stack \<times> addr list) option" where
  "n_pop_loop 0 s = Some (s, [])"
| "n_pop_loop (Suc n) s = do {
     (s, e) \<leftarrow> ptr_stack_take s;
     (s, es) \<leftarrow> n_pop_loop n (s\<lparr>p_top := p_top s - 1\<rparr>);
     Some (s, e # es)
   }"

definition zend_ptr_stack_n_pop :: "int \<Rightarrow> zend_ptr_stack \<Rightarrow> (zend_ptr_stack \<times> addr list) option" where
  "zend_ptr_stack_n_pop cnt s = n_pop_loop (nat cnt) s"

text \<open>\<open>zend_ptr_stack_destroy\<close> changes no field: its only effect is whether the array is freed.\<close>

definition zend_ptr_stack_destroy :: "zend_ptr_stack \<Rightarrow> bool" where
  "zend_ptr_stack_destroy s = (p_elements s \<noteq> None)"

text \<open>The callback of the apply functions gets the pointer and the caller's state.\<close>

primrec ptr_visit :: "('s \<Rightarrow> addr \<Rightarrow> 's) \<Rightarrow> int list \<Rightarrow> zend_ptr_stack \<Rightarrow> 's \<Rightarrow> 's option" where
  "ptr_visit f [] s st = Some st"
| "ptr_visit f (i # idx) s st = do { e \<leftarrow> cell_read (p_elements s) i; ptr_visit f idx s (f st e) }"

definition zend_ptr_stack_apply :: "('s \<Rightarrow> addr \<Rightarrow> 's) \<Rightarrow> zend_ptr_stack \<Rightarrow> 's \<Rightarrow> 's option" where
  "zend_ptr_stack_apply f s st = ptr_visit f (rev [0..p_top s - 1]) s st"

text \<open>The result pairs the stack and the state with the list of the freed elements.\<close>

definition zend_ptr_stack_clean ::
  "('s \<Rightarrow> addr \<Rightarrow> 's) \<Rightarrow> bool \<Rightarrow> zend_ptr_stack \<Rightarrow> 's \<Rightarrow> (zend_ptr_stack \<times> 's \<times> addr list) option" where
  "zend_ptr_stack_clean f free_elements s st = do {
     st \<leftarrow> zend_ptr_stack_apply f s st;
     freed \<leftarrow> (if free_elements then ptr_visit (\<lambda>fs e. fs @ [e]) (rev [0..p_top s - 1]) s [] else Some []);
     Some (s\<lparr>p_top := 0, p_top_element := 0\<rparr>, st, freed)
   }"

definition zend_ptr_stack_num_elements :: "zend_ptr_stack \<Rightarrow> int" where
  "zend_ptr_stack_num_elements s = p_top s"

definition zend_ptr_stack_3_push :: "addr \<Rightarrow> addr \<Rightarrow> addr \<Rightarrow> zend_ptr_stack \<Rightarrow> zend_ptr_stack option" where
  "zend_ptr_stack_3_push a b c s = do {
     s \<leftarrow> ZEND_PTR_STACK_RESIZE_IF_NEEDED 3 s;
     tp \<leftarrow> c_int (p_top s + 3);
     s \<leftarrow> ptr_stack_put a (s\<lparr>p_top := tp\<rparr>);
     s \<leftarrow> ptr_stack_put b s;
     ptr_stack_put c s
   }"

definition zend_ptr_stack_2_push :: "addr \<Rightarrow> addr \<Rightarrow> zend_ptr_stack \<Rightarrow> zend_ptr_stack option" where
  "zend_ptr_stack_2_push a b s = do {
     s \<leftarrow> ZEND_PTR_STACK_RESIZE_IF_NEEDED 2 s;
     tp \<leftarrow> c_int (p_top s + 2);
     s \<leftarrow> ptr_stack_put a (s\<lparr>p_top := tp\<rparr>);
     ptr_stack_put b s
   }"

definition zend_ptr_stack_3_pop :: "zend_ptr_stack \<Rightarrow> (zend_ptr_stack \<times> addr \<times> addr \<times> addr) option" where
  "zend_ptr_stack_3_pop s = do {
     (s, a) \<leftarrow> ptr_stack_take s;
     (s, b) \<leftarrow> ptr_stack_take s;
     (s, c) \<leftarrow> ptr_stack_take s;
     Some (s\<lparr>p_top := p_top s - 3\<rparr>, a, b, c)
   }"

definition zend_ptr_stack_2_pop :: "zend_ptr_stack \<Rightarrow> (zend_ptr_stack \<times> addr \<times> addr) option" where
  "zend_ptr_stack_2_pop s = do {
     (s, a) \<leftarrow> ptr_stack_take s;
     (s, b) \<leftarrow> ptr_stack_take s;
     Some (s\<lparr>p_top := p_top s - 2\<rparr>, a, b)
   }"

definition zend_ptr_stack_push :: "addr \<Rightarrow> zend_ptr_stack \<Rightarrow> zend_ptr_stack option" where
  "zend_ptr_stack_push e s = do {
     s \<leftarrow> ZEND_PTR_STACK_RESIZE_IF_NEEDED 1 s;
     tp \<leftarrow> c_int (p_top s + 1);
     ptr_stack_put e (s\<lparr>p_top := tp\<rparr>)
   }"

definition zend_ptr_stack_pop :: "zend_ptr_stack \<Rightarrow> (zend_ptr_stack \<times> addr) option" where
  "zend_ptr_stack_pop s = ptr_stack_take (s\<lparr>p_top := p_top s - 1\<rparr>)"

definition zend_ptr_stack_top :: "zend_ptr_stack \<Rightarrow> addr option" where
  "zend_ptr_stack_top s = cell_read (p_elements s) (p_top s - 1)"

end
