(* ===== verification/Zend_Stack_Spec.thy ===== *)
theory Zend_Stack_Spec
  imports Zend_Stack
begin

text \<open>
  Both stacks implement a last-in first-out list.  The locale \<open>lifo\<close> states what a client
  relies on; the runs of pushes and pops are proved inside it once and it is interpreted on the
  operations of both files.
\<close>

subsection \<open>The array both stacks grow\<close>

definition cells_hold :: "'c option list option \<Rightarrow> 'c list \<Rightarrow> int \<Rightarrow> bool" where
  "cells_hold arr es mx \<longleftrightarrow> 0 \<le> mx \<and> mx < 2 ^ 30 \<and> (case arr of None \<Rightarrow> es = [] \<and> mx = 0
     | Some cs \<Rightarrow> length cs = nat mx \<and> length es \<le> length cs \<and> take (length es) cs = map Some es)"

lemma array_cells_eq:
  assumes "0 \<le> n" and "n < 2 ^ 30"
  shows "array_cells n = nat n"
proof -
  have "unat (sizeof_ptr * word_of_int n :: 32 word) = nat (4 * n)"
    using assms by (simp add: sizeof_ptr_def unat_eq_nat_uint uint_word_ariths uint_word_of_int take_bit_eq_mod)
  then show ?thesis using assms(1) by (simp add: array_cells_def sizeof_ptr_def nat_mult_distrib)
qed

lemma cells_read:
  assumes "cells_hold arr es mx" and "i < length es"
  shows "cell_read arr (int i) = Some (es ! i)"
proof -
  obtain cs where cs: "arr = Some cs" "length es \<le> length cs" "take (length es) cs = map Some es"
    using assms by (auto simp: cells_hold_def split: option.splits)
  have "cs ! i = take (length es) cs ! i" using assms(2) by simp
  then show ?thesis using cs assms(2) by (simp add: cell_read_def)
qed

lemma cells_write:
  assumes "cells_hold arr es mx" and "int (length es) < mx"
  obtains cs where "cell_write arr (int (length es)) x = Some cs" and "cells_hold (Some cs) (es @ [x]) mx"
proof -
  obtain cs where cs: "arr = Some cs" "length cs = nat mx" "take (length es) cs = map Some es" "0 \<le> mx" "mx < 2 ^ 30"
    using assms by (auto simp: cells_hold_def split: option.splits)
  have n: "length es < length cs" using cs assms(2) by simp
  have "take (length es + 1) (cs[length es := Some x]) = map Some (es @ [x])"
    using cs n by (simp add: take_Suc_conv_app_nth)
  with cs n that [of "cs[length es := Some x]"] show thesis by (simp add: cell_write_def cells_hold_def)
qed

lemma cells_grow:
  assumes "cells_hold arr es mx" and "mx \<le> mx'" and "mx' < 2 ^ 30"
  shows "cells_hold (realloc_cells arr mx') es mx'"
proof -
  have k: "array_cells mx' = nat mx'" using assms by (intro array_cells_eq) (auto simp: cells_hold_def)
  show ?thesis
  proof (cases arr)
    case None
    then show ?thesis using assms k by (simp add: cells_hold_def realloc_cells_def)
  next
    case (Some cs)
    with assms k have "length cs \<le> nat mx'" "length es \<le> length cs" "take (length es) cs = map Some es" "0 \<le> mx'"
      by (auto simp: cells_hold_def)
    then show ?thesis using assms(3) Some k by (simp add: cells_hold_def realloc_cells_def)
  qed
qed

lemma cells_drop:
  assumes "cells_hold arr (es @ fs) mx"
  shows "cells_hold arr es mx"
proof (cases arr)
  case None
  then show ?thesis using assms by (simp add: cells_hold_def)
next
  case (Some cs)
  with assms have c: "take (length (es @ fs)) cs = map Some (es @ fs)" "length (es @ fs) \<le> length cs"
    by (auto simp: cells_hold_def)
  have "take (length es) cs = take (length es) (take (length (es @ fs)) cs)" by (simp add: min_def)
  with c assms Some show ?thesis by (simp add: cells_hold_def)
qed

subsection \<open>Last in, first out\<close>

datatype 'e stack_op = Push 'e | Pop

text \<open>The reference: a list with the top first, the result of the pops in order, and \<open>None\<close> for an underflow.\<close>

fun lifo_run :: "'e stack_op list \<Rightarrow> 'e list \<Rightarrow> ('e list \<times> 'e list) option" where
  "lifo_run [] es = Some (es, [])"
| "lifo_run (Push e # ops) es = lifo_run ops (e # es)"
| "lifo_run (Pop # ops) [] = None"
| "lifo_run (Pop # ops) (e # es) = map_option (\<lambda>(es, out). (es, e # out)) (lifo_run ops es)"

fun stack_run :: "('e \<Rightarrow> 's \<Rightarrow> 's option) \<Rightarrow> ('s \<Rightarrow> ('s \<times> 'e) option) \<Rightarrow> 'e stack_op list \<Rightarrow> 's \<Rightarrow> ('s \<times> 'e list) option" where
  "stack_run push pop [] s = Some (s, [])"
| "stack_run push pop (Push e # ops) s = do { s \<leftarrow> push e s; stack_run push pop ops s }"
| "stack_run push pop (Pop # ops) s = do { (s, e) \<leftarrow> pop s; (s, out) \<leftarrow> stack_run push pop ops s; Some (s, e # out) }"

locale lifo =
  fixes rel :: "'s \<Rightarrow> 'e list \<Rightarrow> bool"
    and push :: "'e \<Rightarrow> 's \<Rightarrow> 's option"
    and pop :: "'s \<Rightarrow> ('s \<times> 'e) option"
    and limit :: nat
  assumes push_ok: "rel s es \<Longrightarrow> length es < limit \<Longrightarrow> \<exists>s'. push e s = Some s' \<and> rel s' (e # es)"
    and pop_ok: "rel s (e # es) \<Longrightarrow> \<exists>s'. pop s = Some (s', e) \<and> rel s' es"
begin

lemma run_ok:
  assumes "rel s es" and "lifo_run ops es = Some (es', out)" and "length es + length ops \<le> limit"
  shows "\<exists>s'. stack_run push pop ops s = Some (s', out) \<and> rel s' es'"
  using assms
proof (induction ops es arbitrary: s out rule: lifo_run.induct)
  case (2 e ops es)
  then obtain s1 where "push e s = Some s1" "rel s1 (e # es)" using push_ok [of s es e] by auto
  with 2 show ?case by simp
next
  case (4 ops e es)
  obtain s1 where s1: "pop s = Some (s1, e)" "rel s1 es" using pop_ok [OF "4.prems"(1)] by auto
  obtain out1 where out: "lifo_run ops es = Some (es', out1)" "out = e # out1" using "4.prems"(2) by auto
  obtain s2 where "stack_run push pop ops s1 = Some (s2, out1)" "rel s2 es'"
    using "4.IH" [OF s1(2) out(1)] "4.prems"(3) by auto
  with s1 out show ?case by simp
qed auto

end

subsection \<open>\<open>zend_stack\<close>\<close>

definition stack_inv :: "'d zend_stack \<Rightarrow> addr list \<Rightarrow> bool" where
  "stack_inv s xs \<longleftrightarrow> cells_hold (s_elements s) xs (s_max s) \<and> s_top s = int (length xs) \<and> s_top s \<le> s_max s \<and>
     distinct xs \<and> dom (s_heap s) = set xs \<and> (\<forall>a\<in>set xs. a < s_brk s)"

definition stack_datas :: "'d zend_stack \<Rightarrow> addr list \<Rightarrow> 'd list" where
  "stack_datas s xs = map (\<lambda>a. the (s_heap s a)) xs"

text \<open>The list of the elements, the top first.\<close>

definition stack_rel :: "'d zend_stack \<Rightarrow> 'd list \<Rightarrow> bool" where
  "stack_rel s ds \<longleftrightarrow> (\<exists>xs. stack_inv s xs \<and> rev (stack_datas s xs) = ds)"

text \<open>A client's pop: read the top element, then delete it.\<close>

definition stack_pop :: "'d zend_stack \<Rightarrow> ('d zend_stack \<times> 'd) option" where
  "stack_pop s = do {
     (st, e) \<leftarrow> zend_stack_top s;
     a \<leftarrow> e;
     d \<leftarrow> s_heap s a;
     s \<leftarrow> zend_stack_del_top s;
     Some (s, d)
   }"

lemma stack_push_ok:
  assumes inv: "stack_inv s xs" and n: "length xs < 2 ^ 30 - 64"
  shows "\<exists>s'. zend_stack_push d s = Some (s', int (length xs)) \<and> stack_inv s' (xs @ [s_brk s]) \<and>
    stack_datas s' (xs @ [s_brk s]) = stack_datas s xs @ [d]"
proof -
  define mx where "mx = (if s_top s \<ge> s_max s then s_max s + 64 else s_max s)"
  define arr where "arr = (if s_top s \<ge> s_max s then realloc_cells (s_elements s) mx else s_elements s)"
  have h: "cells_hold (s_elements s) xs (s_max s)" and tp: "s_top s = int (length xs)" "s_top s \<le> s_max s"
    using inv by (auto simp: stack_inv_def)
  then have mx: "s_max s \<le> mx" "mx < 2 ^ 30" "int (length xs) < mx" using n by (auto simp: mx_def cells_hold_def)
  have "cells_hold arr xs mx" unfolding arr_def using h mx by (auto intro: cells_grow simp: mx_def)
  from cells_write [OF this mx(3)] obtain cs where
    cs: "cell_write arr (int (length xs)) (s_brk s) = Some cs" "cells_hold (Some cs) (xs @ [s_brk s]) mx" .
  let ?s = "s\<lparr>s_max := mx, s_elements := Some cs, s_heap := (s_heap s)(s_brk s \<mapsto> d), s_brk := Suc (s_brk s), s_top := int (length xs) + 1\<rparr>"
  have run: "zend_stack_push d s = Some (?s, int (length xs))"
    using cs(1) tp mx n 
    by (auto simp: zend_stack_push_def STACK_BLOCK_SIZE_def mx_def arr_def c_int_def cells_hold_def Let_def intro!: zend_stack.equality)
  have fresh: "s_brk s \<notin> set xs" using inv by (auto simp: stack_inv_def)
  moreover have "stack_inv ?s (xs @ [s_brk s])"
    using inv cs(2) mx fresh by (auto simp: stack_inv_def less_Suc_eq)
  moreover have "stack_datas ?s (xs @ [s_brk s]) = stack_datas s xs @ [d]"
    using fresh by (auto simp: stack_datas_def)
  ultimately show ?thesis using run by blast
qed

lemma stack_top_ok: "stack_inv s (xs @ [a]) \<Longrightarrow> zend_stack_top s = Some (SUCCESS, Some a)"
  using cells_read [of "s_elements s" "xs @ [a]" "s_max s" "length xs"]
  by (simp add: zend_stack_top_def stack_inv_def)

lemma stack_del_top_ok:
  assumes inv: "stack_inv s (xs @ [a])"
  shows "\<exists>s'. zend_stack_del_top s = Some s' \<and> stack_inv s' xs \<and> stack_datas s' xs = stack_datas s xs"
proof -
  have "cell_read (s_elements s) (int (length xs)) = Some a"
    using cells_read [of "s_elements s" "xs @ [a]" "s_max s" "length xs"] inv by (simp add: stack_inv_def)
  moreover have "s_heap s a \<noteq> None" using inv by (auto simp: stack_inv_def)
  ultimately have "zend_stack_del_top s = Some (s\<lparr>s_top := int (length xs), s_heap := (s_heap s)(a := None)\<rparr>)"
    using inv by (auto simp: zend_stack_del_top_def stack_inv_def stack_efree_def)
  moreover have "stack_inv (s\<lparr>s_top := int (length xs), s_heap := (s_heap s)(a := None)\<rparr>) xs"
    using inv cells_drop [of "s_elements s" xs "[a]"] by (auto simp: stack_inv_def)
  moreover have "a \<notin> set xs" using inv by (simp add: stack_inv_def)
  ultimately show ?thesis by (auto simp: stack_datas_def)
qed

interpretation zstack: lifo stack_rel "\<lambda>d s. map_option fst (zend_stack_push d s)" stack_pop "2 ^ 30 - 64"
proof
  fix s :: "'d zend_stack" and es :: "'d list" and e
  assume "stack_rel s es" and n: "length es < 2 ^ 30 - 64"
  then obtain xs where xs: "stack_inv s xs" "rev (stack_datas s xs) = es" by (auto simp: stack_rel_def)
  then have "length xs = length es" by (auto simp: stack_datas_def)
  with stack_push_ok [OF xs(1), of e] n xs(2) show "\<exists>s'. map_option fst (zend_stack_push e s) = Some s' \<and> stack_rel s' (e # es)"
    by (fastforce simp: stack_rel_def)
next
  fix s :: "'d zend_stack" and es :: "'d list" and e
  assume "stack_rel s (e # es)"
  then obtain xs where xs: "stack_inv s xs" "rev (stack_datas s xs) = e # es" by (auto simp: stack_rel_def)
  then obtain ys a where ys: "xs = ys @ [a]" "rev (stack_datas s ys) = es" "the (s_heap s a) = e"
    by (cases xs rule: rev_cases) (auto simp: stack_datas_def)
  with xs have inv: "stack_inv s (ys @ [a])" by simp
  then have "a \<in> dom (s_heap s)" by (simp add: stack_inv_def)
  then have "s_heap s a = Some e" using ys(3) by auto
  with stack_del_top_ok [OF inv] stack_top_ok [OF inv] ys(2)
  show "\<exists>s'. stack_pop s = Some (s', e) \<and> stack_rel s' es"
    by (auto simp: stack_pop_def stack_rel_def)
qed

lemma stack_free_cells_ok:
  assumes "distinct (xs @ ys)" and "\<And>i. i < length (xs @ ys) \<Longrightarrow> cell_read (s_elements s) (int i) = Some ((xs @ ys) ! i)"
    and "set ys \<subseteq> dom (s_heap s)"
  shows "stack_free_cells (map int [length xs..<length xs + length ys]) s = Some (s\<lparr>s_heap := s_heap s |` (- set ys)\<rparr>)"
  using assms
proof (induction ys arbitrary: xs s)
  case Nil
  then show ?case by (simp add: restrict_map_def)
next
  case (Cons a ys)
  let ?s = "s\<lparr>s_heap := (s_heap s)(a := None)\<rparr>"
  have r: "cell_read (s_elements s) (int (length xs)) = Some a" using Cons.prems(2) [of "length xs"] by simp
  obtain d where d: "s_heap s a = Some d" using Cons.prems(3) by auto
  have h: "(s_heap s)(a := None) |` (- set ys) = s_heap s |` (- set (a # ys))" by (auto simp: restrict_map_def)
  have "stack_free_cells (map int [length (xs @ [a])..<length (xs @ [a]) + length ys]) ?s
      = Some (?s\<lparr>s_heap := s_heap ?s |` (- set ys)\<rparr>)"
    by (rule Cons.IH) (use Cons.prems in auto)
  then have rest: "stack_free_cells (map int [Suc (length xs)..<Suc (length xs + length ys)]) ?s
      = Some (s\<lparr>s_heap := s_heap s |` (- set (a # ys))\<rparr>)" using h by simp
  have "[length xs..<length xs + length (a # ys)] = length xs # [Suc (length xs)..<Suc (length xs + length ys)]"
    by (subst upt_conv_Cons) simp_all
  then show ?case using r d rest by (simp add: stack_efree_def del: upt_Suc set_simps)
qed

text \<open>The apply functions: the list of elements as the callback leaves it.\<close>

fun visit_list :: "('s \<Rightarrow> 'd \<Rightarrow> 's \<times> 'd \<times> bool) \<Rightarrow> 's \<Rightarrow> 'd list \<Rightarrow> 's \<times> 'd list" where
  "visit_list f st [] = (st, [])"
| "visit_list f st (d # ds) = (case f st d of (st, d, stop) \<Rightarrow>
     if stop then (st, d # ds) else (case visit_list f st ds of (st, ds) \<Rightarrow> (st, d # ds)))"

lemma stack_visit_ok:
  assumes "distinct xs" and "list_all2 (\<lambda>i a. cell_read (s_elements s) i = Some a) idx xs" and "set xs \<subseteq> dom (s_heap s)"
  shows "\<exists>hp. stack_visit f idx st s = Some (s\<lparr>s_heap := hp\<rparr>, fst (visit_list f st (stack_datas s xs))) \<and> dom hp = dom (s_heap s) \<and>
    map (\<lambda>a. the (hp a)) xs = snd (visit_list f st (stack_datas s xs)) \<and> (\<forall>a. a \<notin> set xs \<longrightarrow> hp a = s_heap s a)"
  using assms
proof (induction idx arbitrary: xs st s)
  case Nil
  then show ?case by (auto simp: stack_datas_def intro!: exI [of _ "s_heap s"])
next
  case (Cons i idx)
  then obtain a ys where xs: "xs = a # ys" and i: "cell_read (s_elements s) i = Some a"
    and l: "list_all2 (\<lambda>i a. cell_read (s_elements s) i = Some a) idx ys" by (auto simp: list_all2_Cons1)
  obtain d where d: "s_heap s a = Some d" using Cons.prems(3) xs by auto
  obtain st1 d1 stop where f: "f st d = (st1, d1, stop)" by (metis prod_cases3)
  let ?s = "s\<lparr>s_heap := (s_heap s)(a \<mapsto> d1)\<rparr>"
  have dd: "stack_datas ?s ys = stack_datas s ys" using Cons.prems(1) xs by (auto simp: stack_datas_def)
  show ?case
  proof (cases stop)
    case True
    then show ?thesis using xs i d f dd
      by (intro exI [of _ "(s_heap s)(a \<mapsto> d1)"]) (auto simp: stack_datas_def fun_upd_def split: if_splits)
  next
    case False
    have p: "distinct ys" "list_all2 (\<lambda>i a. cell_read (s_elements ?s) i = Some a) idx ys" "set ys \<subseteq> dom (s_heap ?s)"
      using Cons.prems(1,3) xs l by auto
    obtain hp where hp: "stack_visit f idx st1 ?s = Some (?s\<lparr>s_heap := hp\<rparr>, fst (visit_list f st1 (stack_datas s ys)))"
      "dom hp = dom (s_heap ?s)" "map (\<lambda>a. the (hp a)) ys = snd (visit_list f st1 (stack_datas s ys))" "\<forall>b. b \<notin> set ys \<longrightarrow> hp b = s_heap ?s b"
      using Cons.IH [OF p, of st1] unfolding dd by blast
    have "hp a = Some d1" using hp(4) Cons.prems(1) xs by simp
    with hp xs i d f False show ?thesis
      by (intro exI [of _ hp]) (auto simp: stack_datas_def split: prod.splits)
  qed
qed

lemma map_int_upt_eq: "map int [0..<n] = [0..int n - 1]"
  by (induction n) (simp_all add: upto_rec2)

lemma stack_cells_list:
  assumes "cells_hold arr xs mx"
  shows "list_all2 (\<lambda>i a. cell_read arr i = Some a) [0..int (length xs) - 1] xs"
  using cells_read [OF assms] by (auto simp: list_all2_conv_all_nth nth_upto)

lemma stack_apply_ok:
  assumes inv: "stack_inv s xs"
  shows "\<exists>s'. zend_stack_apply ZEND_STACK_APPLY_BOTTOMUP f st s = Some (s', fst (visit_list f st (stack_datas s xs))) \<and>
      stack_inv s' xs \<and> stack_datas s' xs = snd (visit_list f st (stack_datas s xs))"
    and "\<exists>s'. zend_stack_apply ZEND_STACK_APPLY_TOPDOWN f st s = Some (s', fst (visit_list f st (rev (stack_datas s xs)))) \<and>
      stack_inv s' xs \<and> rev (stack_datas s' xs) = snd (visit_list f st (rev (stack_datas s xs)))"
proof -
  have c: "cells_hold (s_elements s) xs (s_max s)" "s_top s = int (length xs)" "distinct xs" "dom (s_heap s) = set xs"
    using inv by (auto simp: stack_inv_def)
  note l = stack_cells_list [OF c(1)]
  have inv': "stack_inv (s\<lparr>s_heap := hp\<rparr>) xs" if "dom hp = dom (s_heap s)" for hp
    using inv that by (simp add: stack_inv_def)
  show "\<exists>s'. zend_stack_apply ZEND_STACK_APPLY_BOTTOMUP f st s = Some (s', fst (visit_list f st (stack_datas s xs))) \<and>
      stack_inv s' xs \<and> stack_datas s' xs = snd (visit_list f st (stack_datas s xs))"
    using stack_visit_ok [OF c(3) l, of f st] c(2,4) inv' by (fastforce simp: zend_stack_apply_def stack_datas_def)
  have "list_all2 (\<lambda>i a. cell_read (s_elements s) i = Some a) (rev [0..int (length xs) - 1]) (rev xs)"
    using l by (simp only: list_all2_rev)
  from stack_visit_ok [OF _ this, of f st] c(3,4) obtain hp where
    "stack_visit f (rev [0..int (length xs) - 1]) st s = Some (s\<lparr>s_heap := hp\<rparr>, fst (visit_list f st (stack_datas s (rev xs))))"
    "dom hp = dom (s_heap s)" "map (\<lambda>a. the (hp a)) (rev xs) = snd (visit_list f st (stack_datas s (rev xs)))"
    by auto
  with inv' c(2) show "\<exists>s'. zend_stack_apply ZEND_STACK_APPLY_TOPDOWN f st s = Some (s', fst (visit_list f st (rev (stack_datas s xs)))) \<and>
      stack_inv s' xs \<and> rev (stack_datas s' xs) = snd (visit_list f st (rev (stack_datas s xs)))"
    by (auto simp: zend_stack_apply_def stack_datas_def rev_map)
qed

subsection \<open>\<open>zend_ptr_stack\<close>\<close>

text \<open>\<open>ptr_arr\<close> leaves \<open>top\<close> out, which the inline functions update before or after the array.\<close>

definition ptr_arr :: "zend_ptr_stack \<Rightarrow> addr list \<Rightarrow> bool" where
  "ptr_arr s es \<longleftrightarrow> cells_hold (p_elements s) es (p_max s) \<and> p_top_element s = int (length es) \<and> int (length es) \<le> p_max s"

definition ptr_inv :: "zend_ptr_stack \<Rightarrow> addr list \<Rightarrow> bool" where
  "ptr_inv s es \<longleftrightarrow> ptr_arr s es \<and> p_top s = int (length es)"

definition ptr_rel :: "zend_ptr_stack \<Rightarrow> addr list \<Rightarrow> bool" where
  "ptr_rel s es \<longleftrightarrow> ptr_inv s (rev es)"

lemma ptr_arr_top [simp]: "ptr_arr (s\<lparr>p_top := t\<rparr>) es = ptr_arr s es"
  by (simp add: ptr_arr_def)

lemma ptr_put_ok:
  assumes "ptr_arr s es" and "int (length es) < p_max s"
  obtains s' where "ptr_stack_put e s = Some s'" and "ptr_arr s' (es @ [e])" and "p_top s' = p_top s" and "p_max s' = p_max s"
proof -
  from assms have c: "cells_hold (p_elements s) es (p_max s)" "p_top_element s = int (length es)" by (auto simp: ptr_arr_def)
  from cells_write [OF c(1) assms(2)] obtain cs where
    "cell_write (p_elements s) (int (length es)) e = Some cs" "cells_hold (Some cs) (es @ [e]) (p_max s)" .
  with c(2) assms(2) that show thesis by (simp add: ptr_stack_put_def ptr_arr_def)
qed

lemma ptr_take_ok:
  assumes "ptr_arr s (es @ [e])"
  obtains s' where "ptr_stack_take s = Some (s', e)" and "ptr_arr s' es" and "p_top s' = p_top s" and "p_max s' = p_max s"
proof -
  have "cell_read (p_elements s) (int (length es)) = Some e"
    using cells_read [of "p_elements s" "es @ [e]" "p_max s" "length es"] assms by (simp add: ptr_arr_def)
  with assms cells_drop [of "p_elements s" es "[e]"] that show thesis by (simp add: ptr_stack_take_def ptr_arr_def)
qed

lemma grow_max_ok:
  assumes "0 \<le> mx" and "mx < need" and "need < 2 ^ 30 - 64"
  shows "\<exists>mx'. grow_max need mx = Some mx' \<and> need \<le> mx' \<and> mx' < need + 64"
  using assms
proof (induction need mx rule: grow_max.induct)
  case (1 need mx)
  let ?m = "mx + PTR_STACK_BLOCK_SIZE"
  have m: "c_int ?m = Some ?m" "?m = mx + 64" using "1.prems" by (simp_all add: PTR_STACK_BLOCK_SIZE_def)
  show ?case
  proof (cases "need > ?m")
    case True
    with "1.IH" [OF m(1) True] "1.prems" m show ?thesis by (subst grow_max.simps) simp
  next
    case False
    with "1.prems" m show ?thesis by (subst grow_max.simps) simp
  qed
qed

lemma ptr_resize_ok:
  assumes inv: "ptr_inv s es" and n: "0 \<le> k" "int (length es) + k < 2 ^ 30 - 64"
  obtains s' where "ZEND_PTR_STACK_RESIZE_IF_NEEDED k s = Some s'" and "ptr_inv s' es" and "int (length es) + k \<le> p_max s'"
proof -
  have tp: "p_top s = int (length es)" and c: "cells_hold (p_elements s) es (p_max s)" "0 \<le> p_max s"
    using inv by (auto simp: ptr_inv_def ptr_arr_def cells_hold_def)
  have need: "c_int (p_top s + k) = Some (int (length es) + k)" using n tp by simp
  show thesis
  proof (cases "int (length es) + k > p_max s")
    case True
    then obtain mx where mx: "grow_max (int (length es) + k) (p_max s) = Some mx" "int (length es) + k \<le> mx" "mx < int (length es) + k + 64"
      using grow_max_ok [OF c(2)] n by blast
    have "cells_hold (realloc_cells (p_elements s) mx) es mx" 
      by (rule cells_grow [OF c(1)]) (use mx(2,3) n True in auto)
    then show thesis using that need True mx n tp
      by (auto simp: ZEND_PTR_STACK_RESIZE_IF_NEEDED_def ptr_inv_def ptr_arr_def)
  next
    case False
    then show thesis using that need inv by (simp add: ZEND_PTR_STACK_RESIZE_IF_NEEDED_def)
  qed
qed

lemma ptr_push_ok:
  assumes inv: "ptr_inv s es" and n: "length es < 2 ^ 30 - 65"
  shows "\<exists>s'. zend_ptr_stack_push e s = Some s' \<and> ptr_inv s' (es @ [e])"
proof -
  obtain s1 where s1: "ZEND_PTR_STACK_RESIZE_IF_NEEDED 1 s = Some s1" "ptr_inv s1 es" "int (length es) + 1 \<le> p_max s1"
    using ptr_resize_ok [OF inv, of 1] n by auto
  let ?s = "s1\<lparr>p_top := int (length es) + 1\<rparr>"
  obtain s2 where "ptr_stack_put e ?s = Some s2" "ptr_arr s2 (es @ [e])" "p_top s2 = p_top ?s"
    using ptr_put_ok [of ?s es e] s1 by (auto simp: ptr_inv_def)
  with s1 n show ?thesis by (auto simp: zend_ptr_stack_push_def ptr_inv_def c_int_def)
qed

lemma ptr_pop_ok:
  assumes "ptr_inv s (es @ [e])"
  shows "\<exists>s'. zend_ptr_stack_pop s = Some (s', e) \<and> ptr_inv s' es"
proof -
  let ?s = "s\<lparr>p_top := p_top s - 1\<rparr>"
  obtain s' where "ptr_stack_take ?s = Some (s', e)" "ptr_arr s' es" "p_top s' = p_top ?s"
    using ptr_take_ok [of ?s es e] assms by (auto simp: ptr_inv_def)
  with assms show ?thesis by (auto simp: zend_ptr_stack_pop_def ptr_inv_def)
qed

interpretation zptr: lifo ptr_rel zend_ptr_stack_push zend_ptr_stack_pop "2 ^ 30 - 65"
  by unfold_locales (auto simp: ptr_rel_def dest: ptr_push_ok ptr_pop_ok)

lemma n_push_loop_ok:
  assumes "ptr_inv s es" and "int (length es + length args) \<le> p_max s"
  shows "\<exists>s'. n_push_loop (length args) args s = Some s' \<and> ptr_inv s' (es @ args)"
  using assms
proof (induction args arbitrary: s es)
  case (Cons e args)
  let ?s = "s\<lparr>p_top := int (length es) + 1\<rparr>"
  obtain s2 where s2: "ptr_stack_put e ?s = Some s2" "ptr_arr s2 (es @ [e])" "p_top s2 = p_top ?s" "p_max s2 = p_max ?s"
    using ptr_put_ok [of ?s es e] Cons.prems by (auto simp: ptr_inv_def)
  have "ptr_inv s2 (es @ [e])" using s2 by (simp add: ptr_inv_def)
  moreover have "c_int (p_top s + 1) = Some (int (length es) + 1)"
    using Cons.prems by (auto simp: ptr_inv_def ptr_arr_def cells_hold_def c_int_def)
  ultimately show ?case using Cons.IH [of s2 "es @ [e]"] Cons.prems(2) s2 by simp
qed simp

lemma n_pop_loop_ok:
  assumes "ptr_inv s (es @ rev args)"
  shows "\<exists>s'. n_pop_loop (length args) s = Some (s', args) \<and> ptr_inv s' es"
  using assms
proof (induction args arbitrary: s)
  case (Cons e args)
  have inv: "ptr_inv s ((es @ rev args) @ [e])" using Cons.prems by simp
  obtain s1 where s1: "ptr_stack_take s = Some (s1, e)" "ptr_arr s1 (es @ rev args)" "p_top s1 = p_top s"
    using ptr_take_ok [of s "es @ rev args" e] inv by (auto simp: ptr_inv_def)
  have "ptr_inv (s1\<lparr>p_top := p_top s1 - 1\<rparr>) (es @ rev args)" using s1 inv by (simp add: ptr_inv_def)
  from Cons.IH [OF this] s1(1) show ?case by auto
qed simp

lemma ptr_n_push_ok:
  assumes "ptr_inv s es" and "length es + length args < 2 ^ 30 - 64"
  shows "\<exists>s'. zend_ptr_stack_n_push (int (length args)) args s = Some s' \<and> ptr_inv s' (es @ args)"
proof -
  obtain s1 where s1: "ZEND_PTR_STACK_RESIZE_IF_NEEDED (int (length args)) s = Some s1" "ptr_inv s1 es"
    "int (length es) + int (length args) \<le> p_max s1"
    using ptr_resize_ok [OF assms(1), of "int (length args)"] assms(2) by auto
  with n_push_loop_ok [OF s1(2), of args] show ?thesis by (simp add: zend_ptr_stack_n_push_def)
qed

text \<open>The unrolled pushes and pops leave the stack the loops leave.\<close>

lemma ptr_23_push_ok:
  assumes inv: "ptr_inv s es" and n: "length es + 3 < 2 ^ 30 - 64"
  shows "\<exists>s'. zend_ptr_stack_3_push a b c s = Some s' \<and> ptr_inv s' (es @ [a, b, c])"
    and "\<exists>s'. zend_ptr_stack_2_push a b s = Some s' \<and> ptr_inv s' (es @ [a, b])"
proof -
  have put2: "\<exists>s2. do { s \<leftarrow> ptr_stack_put a s; ptr_stack_put b s } = Some s2 \<and> ptr_arr s2 (es @ [a, b]) \<and> p_top s2 = p_top s \<and> p_max s2 = p_max s"
    if arr: "ptr_arr s es" and room: "int (length es) + 2 \<le> p_max s" for s
  proof -
    obtain s1 where s1: "ptr_stack_put a s = Some s1" "ptr_arr s1 (es @ [a])" "p_top s1 = p_top s" "p_max s1 = p_max s"
      using ptr_put_ok [OF arr, of a] room by auto
    obtain s2 where "ptr_stack_put b s1 = Some s2" "ptr_arr s2 ((es @ [a]) @ [b])" "p_top s2 = p_top s1" "p_max s2 = p_max s1"
      using ptr_put_ok [OF s1(2), of b] s1(4) room by auto
    with s1 show ?thesis by simp
  qed
  obtain s1 where s1: "ZEND_PTR_STACK_RESIZE_IF_NEEDED 3 s = Some s1" "ptr_inv s1 es" "int (length es) + 3 \<le> p_max s1"
    using ptr_resize_ok [OF inv, of 3] n by auto
  let ?s = "s1\<lparr>p_top := int (length es) + 3\<rparr>"
  obtain s2 where s2: "do { s \<leftarrow> ptr_stack_put a ?s; ptr_stack_put b s } = Some s2" "ptr_arr s2 (es @ [a, b])" "p_top s2 = p_top ?s" "p_max s2 = p_max ?s"
    using put2 [of ?s] s1 by (auto simp: ptr_inv_def)
  obtain s3 where s3: "ptr_stack_put c s2 = Some s3" "ptr_arr s3 ((es @ [a, b]) @ [c])" "p_top s3 = p_top s2"
    using ptr_put_ok [OF s2(2), of c] s2(4) s1(3) by auto
  have "c_int (p_top s1 + 3) = Some (int (length es) + 3)" using s1(2) n by (simp add: ptr_inv_def)
  with s1 s2 s3 show "\<exists>s'. zend_ptr_stack_3_push a b c s = Some s' \<and> ptr_inv s' (es @ [a, b, c])"
    by (auto simp: zend_ptr_stack_3_push_def ptr_inv_def bind_eq_Some_conv)
  obtain t1 where t1: "ZEND_PTR_STACK_RESIZE_IF_NEEDED 2 s = Some t1" "ptr_inv t1 es" "int (length es) + 2 \<le> p_max t1"
    using ptr_resize_ok [OF inv, of 2] n by auto
  moreover have "c_int (p_top t1 + 2) = Some (int (length es) + 2)" using t1(2) n by (simp add: ptr_inv_def)
  ultimately show "\<exists>s'. zend_ptr_stack_2_push a b s = Some s' \<and> ptr_inv s' (es @ [a, b])"
    using put2 [of "t1\<lparr>p_top := int (length es) + 2\<rparr>"] by (auto simp: zend_ptr_stack_2_push_def ptr_inv_def)
qed

lemma ptr_23_pop_ok:
  shows "ptr_inv s (es @ [c, b, a]) \<Longrightarrow> \<exists>s'. zend_ptr_stack_3_pop s = Some (s', a, b, c) \<and> ptr_inv s' es"
    and "ptr_inv s (es @ [b, a]) \<Longrightarrow> \<exists>s'. zend_ptr_stack_2_pop s = Some (s', a, b) \<and> ptr_inv s' es"
proof -
  assume inv: "ptr_inv s (es @ [c, b, a])"
  obtain s1 where s1: "ptr_stack_take s = Some (s1, a)" "ptr_arr s1 (es @ [c, b])" "p_top s1 = p_top s"
    using ptr_take_ok [of s "es @ [c, b]" a] inv by (auto simp: ptr_inv_def)
  obtain s2 where s2: "ptr_stack_take s1 = Some (s2, b)" "ptr_arr s2 (es @ [c])" "p_top s2 = p_top s1"
    using ptr_take_ok [of s1 "es @ [c]" b] s1(2) by auto
  obtain s3 where s3: "ptr_stack_take s2 = Some (s3, c)" "ptr_arr s3 es" "p_top s3 = p_top s2"
    using ptr_take_ok [OF s2(2)] by auto
  show "\<exists>s'. zend_ptr_stack_3_pop s = Some (s', a, b, c) \<and> ptr_inv s' es"
    using s1 s2 s3 inv by (simp add: zend_ptr_stack_3_pop_def ptr_inv_def)
next
  assume inv: "ptr_inv s (es @ [b, a])"
  obtain s1 where s1: "ptr_stack_take s = Some (s1, a)" "ptr_arr s1 (es @ [b])" "p_top s1 = p_top s"
    using ptr_take_ok [of s "es @ [b]" a] inv by (auto simp: ptr_inv_def)
  obtain s2 where s2: "ptr_stack_take s1 = Some (s2, b)" "ptr_arr s2 es" "p_top s2 = p_top s1"
    using ptr_take_ok [OF s1(2)] by auto
  show "\<exists>s'. zend_ptr_stack_2_pop s = Some (s', a, b) \<and> ptr_inv s' es"
    using s1 s2 inv by (simp add: zend_ptr_stack_2_pop_def ptr_inv_def)
qed

lemma ptr_visit_ok:
  assumes "list_all2 (\<lambda>i a. cell_read (p_elements s) i = Some a) idx xs"
  shows "ptr_visit f idx s st = Some (foldl f st xs)"
  using assms
proof (induction idx arbitrary: xs st)
  case (Cons i idx)
  then show ?case by (auto simp: list_all2_Cons1)
qed simp

lemma ptr_apply_ok:
  assumes "ptr_rel s es"
  shows "zend_ptr_stack_apply f s st = Some (foldl f st es)"
proof -
  have c: "cells_hold (p_elements s) (rev es) (p_max s)" "p_top s = int (length es)"
    using assms by (simp_all add: ptr_rel_def ptr_inv_def ptr_arr_def)
  have "list_all2 (\<lambda>i a. cell_read (p_elements s) i = Some a) (rev [0..int (length es) - 1]) (rev (rev es))"
    using stack_cells_list [OF c(1)] by (simp only: list_all2_rev length_rev)
  with ptr_visit_ok [of s _ es] c(2) show ?thesis by (simp add: zend_ptr_stack_apply_def)
qed

subsection \<open>Properties\<close>

lemma stack_init_rel: "stack_rel (zend_stack_init Map.empty 0) []"
  by (simp add: stack_rel_def stack_inv_def zend_stack_init_def cells_hold_def stack_datas_def)

definition sample_stack :: "nat zend_stack" where
  "sample_stack = fst (the (zend_stack_push 5 (zend_stack_init Map.empty 0)))"

lemma sample_stack_rel: "stack_rel sample_stack [5]"
  using zstack.push_ok [OF stack_init_rel, of "5 :: nat"] by (auto simp: sample_stack_def)

lemma ptr_init_rel: "ptr_rel (zend_ptr_stack_init_ex persist) []"
  by (simp add: ptr_rel_def ptr_inv_def ptr_arr_def zend_ptr_stack_init_ex_def cells_hold_def)

text \<open>What the inspection functions of both stacks return.\<close>

lemma stack_inspect:
  assumes "stack_rel s ds"
  shows "zend_stack_count s = int (length ds)" and "zend_stack_is_empty s = (ds = [])"
    and "\<exists>p. zend_stack_top s = Some (if ds = [] then FAILURE else SUCCESS, p) \<and> Option.bind p (s_heap s) = head_opt ds"
proof -
  obtain xs where xs: "stack_inv s xs" "rev (stack_datas s xs) = ds" using assms by (auto simp: stack_rel_def)
  then have l: "length ds = length xs" by (auto simp: stack_datas_def)
  then show "zend_stack_count s = int (length ds)" "zend_stack_is_empty s = (ds = [])"
    using xs(1) by (auto simp: zend_stack_count_def zend_stack_is_empty_def stack_inv_def)
  show "\<exists>p. zend_stack_top s = Some (if ds = [] then FAILURE else SUCCESS, p) \<and> Option.bind p (s_heap s) = head_opt ds"
  proof (cases xs rule: rev_cases)
    case Nil
    with xs show ?thesis by (simp add: zend_stack_top_def stack_inv_def stack_datas_def)
  next
    case (snoc ys a)
    then have "a \<in> dom (s_heap s)" using xs(1) by (simp add: stack_inv_def)
    moreover have "ds = the (s_heap s a) # rev (stack_datas s ys)" using xs(2) snoc by (simp add: stack_datas_def)
    ultimately show ?thesis using stack_top_ok [of s ys a] xs(1) snoc by auto
  qed
qed

text \<open>
  C15: A run of pushes and pops of \<open>zend_stack.c\<close> on a new stack that never pops an empty stack
  gives back the elements last in, first out; count, emptiness and the top element are those of
  the list, whatever blocks the array has grown by.
\<close>

theorem stack_run_lifo:
  assumes "lifo_run ops [] = Some (es, out)" and "length ops \<le> 2 ^ 30 - 64"
  shows "\<exists>s. stack_run (\<lambda>d s. map_option fst (zend_stack_push d s)) stack_pop ops (zend_stack_init Map.empty 0) = Some (s, out) \<and>
    zend_stack_count s = int (length es) \<and> zend_stack_is_empty s = (es = []) \<and>
    (\<exists>p. zend_stack_top s = Some (if es = [] then FAILURE else SUCCESS, p) \<and> Option.bind p (s_heap s) = head_opt es)"
  using zstack.run_ok [OF stack_init_rel assms(1)] assms(2) stack_inspect by fastforce

theorem stack_run_lifo_witness:
  "\<exists>s. stack_run (\<lambda>d s. map_option fst (zend_stack_push d s)) stack_pop [Push 1, Push 2, Pop, Push (3 :: nat), Pop] (zend_stack_init Map.empty 0)
    = Some (s, [2, 3]) \<and> zend_stack_count s = 1"
  using stack_run_lifo [of "[Push 1, Push 2, Pop, Push (3 :: nat), Pop]" "[1]" "[2, 3]"] by auto

text \<open>
  \<open>zend_stack_apply\<close> visits the elements from the top or from the bottom and stops when the
  callback asks; \<open>zend_stack_destroy\<close> frees every block the stack owns.
\<close>

theorem stack_apply_destroy:
  assumes "stack_rel s ds"
  shows "(\<exists>s'. zend_stack_apply ZEND_STACK_APPLY_TOPDOWN f st s = Some (s', fst (visit_list f st ds)) \<and>
      stack_rel s' (snd (visit_list f st ds))) \<and>
    (\<exists>s'. zend_stack_apply ZEND_STACK_APPLY_BOTTOMUP f st s = Some (s', fst (visit_list f st (rev ds))) \<and>
      stack_rel s' (rev (snd (visit_list f st (rev ds))))) \<and>
    (\<exists>s'. zend_stack_destroy s = Some s' \<and> s_heap s' = Map.empty \<and> zend_stack_base s' = None)"
proof -
  obtain xs where xs: "stack_inv s xs" "rev (stack_datas s xs) = ds" using assms by (auto simp: stack_rel_def)
  have c: "cells_hold (s_elements s) xs (s_max s)" "s_top s = int (length xs)" "distinct xs" "dom (s_heap s) = set xs"
    using xs(1) by (auto simp: stack_inv_def)
  have "s_heap s = Map.empty" if "s_elements s = None" using that c(1,4) by (simp add: cells_hold_def)
  moreover have "s_heap s |` (- set xs) = Map.empty" using c(4) by (auto simp: restrict_map_def dom_def fun_eq_iff)
  moreover have "map int [0..<length xs] = [0..int (length xs) - 1]" by (rule map_int_upt_eq)
  moreover have "stack_free_cells (map int [0..<length xs]) s = Some (s\<lparr>s_heap := s_heap s |` (- set xs)\<rparr>)"
    using stack_free_cells_ok [of "[]" xs s] c cells_read [OF c(1)] by simp
  ultimately have "\<exists>s'. zend_stack_destroy s = Some s' \<and> s_heap s' = Map.empty \<and> zend_stack_base s' = None"
    using c(2) by (cases "s_elements s") (simp_all add: zend_stack_destroy_def zend_stack_base_def)
  with stack_apply_ok [OF xs(1), of f st] xs(2) show ?thesis by (fastforce simp: stack_rel_def rev_swap)
qed

theorem stack_apply_destroy_witness:
  "\<exists>s'. zend_stack_destroy sample_stack = Some s' \<and> s_heap s' = Map.empty \<and> s_heap sample_stack \<noteq> Map.empty"
proof -
  have "s_heap sample_stack \<noteq> Map.empty"
    using sample_stack_rel by (auto simp: stack_rel_def stack_inv_def stack_datas_def)
  then show ?thesis
    using stack_apply_destroy [OF sample_stack_rel, where f = "\<lambda>st d. (st, d, False)" and st = "()"] by blast
qed

text \<open>
  A run of \<open>zend_ptr_stack_push\<close> and \<open>zend_ptr_stack_pop\<close> is last in, first out; the
  variadic and the unrolled pushes append their arguments, the pops of the same size give them
  back in reverse, and \<open>zend_ptr_stack_clean\<close> visits and frees from the top and empties the stack.
\<close>

theorem ptr_stack_lifo:
  assumes "ptr_rel s es" and "length es + length ops + length args + 3 < 2 ^ 30 - 65"
  shows "(\<forall>es' out. lifo_run ops es = Some (es', out) \<longrightarrow>
      (\<exists>s'. stack_run zend_ptr_stack_push zend_ptr_stack_pop ops s = Some (s', out) \<and> ptr_rel s' es' \<and>
        zend_ptr_stack_num_elements s' = int (length es'))) \<and>
    (\<exists>s1 s2. zend_ptr_stack_n_push (int (length args)) args s = Some s1 \<and> ptr_rel s1 (rev args @ es) \<and>
      zend_ptr_stack_n_pop (int (length args)) s1 = Some (s2, rev args) \<and> ptr_rel s2 es) \<and>
    (\<exists>s1 s2. zend_ptr_stack_3_push a b c s = Some s1 \<and> ptr_rel s1 (c # b # a # es) \<and>
      zend_ptr_stack_3_pop s1 = Some (s2, c, b, a) \<and> ptr_rel s2 es) \<and>
    (\<exists>s1 s2. zend_ptr_stack_2_push a b s = Some s1 \<and> ptr_rel s1 (b # a # es) \<and>
      zend_ptr_stack_2_pop s1 = Some (s2, b, a) \<and> ptr_rel s2 es) \<and>
    (\<exists>s'. zend_ptr_stack_clean f fe s st = Some (s', foldl f st es, if fe then es else []) \<and> ptr_rel s' [])"
  (is "?run \<and> ?n \<and> ?three \<and> ?two \<and> ?clean")
proof (intro conjI)
  have inv: "ptr_inv s (rev es)" using assms(1) by (simp add: ptr_rel_def)
  have num: "zend_ptr_stack_num_elements s' = int (length es')" if "ptr_rel s' es'" for s' es'
    using that by (simp add: ptr_rel_def ptr_inv_def zend_ptr_stack_num_elements_def)
  have len: "length es + length ops \<le> 2 ^ 30 - 65" using assms(2) by simp
  show ?run
  proof (intro allI impI)
    fix es' out assume "lifo_run ops es = Some (es', out)"
    from zptr.run_ok [OF assms(1) this len] num
    show "\<exists>s'. stack_run zend_ptr_stack_push zend_ptr_stack_pop ops s = Some (s', out) \<and> ptr_rel s' es' \<and>
        zend_ptr_stack_num_elements s' = int (length es')" by metis
  qed
  obtain s1 where s1: "zend_ptr_stack_n_push (int (length args)) args s = Some s1" "ptr_inv s1 (rev es @ args)"
    using ptr_n_push_ok [OF inv, of args] assms(2) by auto
  with n_pop_loop_ok [of s1 "rev es" "rev args"] show ?n by (auto simp: ptr_rel_def zend_ptr_stack_n_pop_def)
  have n3: "length (rev es) + 3 < 2 ^ 30 - 64" using assms(2) by simp
  obtain s3 where "zend_ptr_stack_3_push a b c s = Some s3" "ptr_inv s3 (rev es @ [a, b, c])"
    using ptr_23_push_ok(1) [OF inv n3] by blast
  with ptr_23_pop_ok(1) [of s3 "rev es" a b c] show ?three by (auto simp: ptr_rel_def)
  obtain s2 where "zend_ptr_stack_2_push a b s = Some s2" "ptr_inv s2 (rev es @ [a, b])"
    using ptr_23_push_ok(2) [OF inv n3] by blast
  with ptr_23_pop_ok(2) [of s2 "rev es" a b] show ?two by (auto simp: ptr_rel_def)
  have "foldl (\<lambda>fs e. fs @ [e]) [] es = es" by (induction es rule: rev_induct) auto
  moreover have "ptr_rel (s\<lparr>p_top := 0, p_top_element := 0\<rparr>) []"
    using inv cells_drop [of "p_elements s" "[]" "rev es"] by (auto simp: ptr_rel_def ptr_inv_def ptr_arr_def)
  ultimately show ?clean using ptr_apply_ok [OF assms(1), of f st] ptr_apply_ok [OF assms(1), of "\<lambda>fs e. fs @ [e]" "[]"]
    by (simp add: zend_ptr_stack_clean_def zend_ptr_stack_apply_def)
qed

theorem ptr_stack_lifo_witness:
  "\<exists>s1 s2. zend_ptr_stack_n_push 3 [7, 8, 9] zend_ptr_stack_init = Some s1 \<and> zend_ptr_stack_n_pop 3 s1 = Some (s2, [9, 8, 7])"
  using ptr_stack_lifo [OF ptr_init_rel, where args = "[7, 8, 9]" and ops = "[]" and a = 0 and b = 0 and c = 0 and f = "\<lambda>st e. ()" and fe = False, of False]
  by (auto simp: zend_ptr_stack_init_def)

end
