(* ===== verification/Bytes.thy ===== *)
theory Bytes
  imports Php_Prelude
begin

text \<open>
  Byte buffers and the interface of the message digests: \<open>memcpy\<close> and \<open>memset\<close> into a buffer,
  words as bytes in both byte orders, and the block-wise reading of a message that every digest
  of the sources performs.  The locale \<open>streaming_digest\<close> is what a caller relies on.
\<close>

subsection \<open>Buffers\<close>

text \<open>A copy that does not stay inside the buffer is undefined.\<close>

definition memcpy_at :: "'b list \<Rightarrow> nat \<Rightarrow> 'b list \<Rightarrow> 'b list option" where
  "memcpy_at buf i src =
     (if i + length src \<le> length buf then Some (take i buf @ src @ drop (i + length src) buf) else None)"

definition memset_at :: "'b list \<Rightarrow> nat \<Rightarrow> 'b \<Rightarrow> nat \<Rightarrow> 'b list option" where
  "memset_at buf i x n = memcpy_at buf i (replicate n x)"

lemma memcpy_at_ok:
  assumes "i + length src \<le> length buf"
  obtains buf' where "memcpy_at buf i src = Some buf'" and "length buf' = length buf"
    and "take (i + length src) buf' = take i buf @ src"
  using assms that [of "take i buf @ src @ drop (i + length src) buf"] by (simp add: memcpy_at_def)

subsection \<open>Words as bytes\<close>

lemma unat_of_nat_small: "n < 2 ^ LENGTH('a) \<Longrightarrow> unat (of_nat n :: 'a::len word) = n"
  by (simp add: unat_of_nat)

lemma unat_and_mask: "unat (w AND mask k) = unat (w :: 'a::len word) mod 2 ^ k"
  by (subst take_bit_eq_mask [symmetric], subst unsigned_take_bit_eq) (rule take_bit_eq_mod)

lemma unat_shift_down: "unat (drop_bit k w) = unat (w :: 'a::len word) div 2 ^ k"
proof -
  have "take_bit LENGTH('a) (unat w) = unat w" by (rule take_bit_nat_eq_self) (rule unat_lt2p)
  then show ?thesis by (subst unsigned_drop_bit_eq) (simp only: drop_bit_eq_div)
qed

lemma unat_shift_up: "unat (push_bit k w) = unat (w :: 'a::len word) * 2 ^ k mod 2 ^ LENGTH('a)"
  by (subst unsigned_push_bit_eq) (simp only: push_bit_eq_mult take_bit_eq_mod)

lemma unat_and_not_mask: "unat (w AND NOT (mask k)) = unat (w :: 'a::len word) div 2 ^ k * 2 ^ k"
proof -
  have "w AND NOT (mask k) = push_bit k (drop_bit k w)" by (rule bit_word_eqI) (auto simp: bit_simps)
  moreover have "unat w div 2 ^ k * 2 ^ k < 2 ^ LENGTH('a)"
    by (rule le_less_trans [OF _ unat_lt2p [of w]]) (metis div_times_less_eq_dividend)
  ultimately show ?thesis by (simp add: unat_shift_up unat_shift_down)
qed

lemma mask_numerals: "(0x3f :: 'a::len word) = mask 6" "(0x1fffffff :: 'a::len word) = mask 29"
   "(0xff :: 'a::len word) = mask 8"
  by (simp_all add: mask_eq_exp_minus_1)

text \<open>The carry of an addition in a counter of two words.\<close>

lemma div_add_carry:
  fixes q :: nat
  assumes "0 < q"
  shows "(n + k) div q = n div q + k div q + (if (n + k) mod q < n mod q then 1 else 0)"
proof -
  define r where "r = n mod q + k mod q"
  have lt: "n mod q < q" "k mod q < q" using assms by simp_all
  have s: "(n + k) div q = n div q + k div q + r div q" unfolding r_def by (rule div_add1_eq)
  have m: "(n + k) mod q = r mod q" unfolding r_def by (simp only: mod_add_eq)
  show ?thesis
  proof (cases "r < q")
    case True
    then have "r div q = 0" "r mod q = r" by simp_all
    moreover have "n mod q \<le> r" by (simp add: r_def)
    ultimately show ?thesis using s m by simp
  next
    case False
    then have le: "q \<le> r" "r < q + q" using add_strict_mono [OF lt] by (simp_all add: r_def)
    then have "r mod q = r - q" by (simp add: le_mod_geq)
    moreover have "r div q = 1" by (rule div_nat_eqI) (use le in simp_all)
    moreover have "r - q < n mod q" using lt le unfolding r_def by linarith
    ultimately show ?thesis using s m by simp
  qed
qed

text \<open>\<open>(unsigned char) (w >> k)\<close>.\<close>

definition byte_of :: "'a::len word \<Rightarrow> nat \<Rightarrow> byte" where
  "byte_of w k = ucast (drop_bit k w)"

definition le32 :: "32 word \<Rightarrow> byte list" where
  "le32 w = [byte_of w 0, byte_of w 8, byte_of w 16, byte_of w 24]"

definition be32 :: "32 word \<Rightarrow> byte list" where
  "be32 w = [byte_of w 24, byte_of w 16, byte_of w 8, byte_of w 0]"

definition le64 :: "64 word \<Rightarrow> byte list" where
  "le64 w = map (byte_of w) [0, 8, 16, 24, 32, 40, 48, 56]"

definition be64 :: "64 word \<Rightarrow> byte list" where
  "be64 w = rev (le64 w)"

lemma length_le32 [simp]: "length (le32 w) = 4" "length (be32 w) = 4" "length (le64 v) = 8" "length (be64 v) = 8"
  by (simp_all add: le32_def be32_def le64_def be64_def)

text \<open>A 64-bit count kept in two words.\<close>

lemma le64_halves: "le64 w = le32 (ucast w) @ le32 (ucast (drop_bit 32 w))"
  unfolding le64_def le32_def byte_of_def
  by (auto simp: bit_eq_iff bit_simps)

lemma be64_halves: "be64 w = be32 (ucast (drop_bit 32 w)) @ be32 (ucast w)"
  unfolding be64_def le64_halves by (simp add: le32_def be32_def)

text \<open>The two shifts by which C programs rotate a word.\<close>

lemma rotl_shifts:
  fixes v :: "'a::len word"
  assumes "0 < s" and "s < LENGTH('a)"
  shows "push_bit s v OR drop_bit (LENGTH('a) - s) v = word_rotl s v"
proof (rule bit_word_eqI)
  fix n assume n: "n < LENGTH('a)"
  have "(n + LENGTH('a) - s) mod LENGTH('a) = (if s \<le> n then n - s else n + LENGTH('a) - s)"
    using n assms by (simp add: mod_if)
  then show "bit (push_bit s v OR drop_bit (LENGTH('a) - s) v) n = bit (word_rotl s v) n"
    using n assms bit_imp_le_length [of v "n + LENGTH('a) - s"] by (auto simp: bit_simps bit_word_rotl_iff add.commute)
qed

subsection \<open>Blocks of a message\<close>

text \<open>\<open>absorb\<close> feeds every full block of a message to a compression function; \<open>rest_of\<close> is what remains.\<close>

function absorb :: "('st \<Rightarrow> 'b list \<Rightarrow> 'st) \<Rightarrow> nat \<Rightarrow> 'st \<Rightarrow> 'b list \<Rightarrow> 'st" where
  "absorb f n st xs = (if n = 0 \<or> length xs < n then st else absorb f n (f st (take n xs)) (drop n xs))"
  by pat_completeness auto
termination by (relation "measure (\<lambda>(f, n, st, xs). length xs)") auto

declare absorb.simps [simp del]

definition rest_of :: "nat \<Rightarrow> 'b list \<Rightarrow> 'b list" where
  "rest_of n xs = drop (length xs div n * n) xs"

lemma absorb_short [simp]: "length xs < n \<Longrightarrow> absorb f n st xs = st"
  by (subst absorb.simps) simp

lemma absorb_block: "0 < n \<Longrightarrow> length b = n \<Longrightarrow> absorb f n st (b @ xs) = absorb f n (f st b) xs"
  by (subst absorb.simps) simp

lemma length_rest_of [simp]: "length (rest_of n xs) = length xs mod n"
  by (simp add: rest_of_def modulo_nat_def)

lemma rest_of_short [simp]: "length xs < n \<Longrightarrow> rest_of n xs = xs"
  by (simp add: rest_of_def)

lemma rest_of_block: "0 < n \<Longrightarrow> length b = n \<Longrightarrow> rest_of n (b @ xs) = rest_of n xs"
  by (simp add: rest_of_def div_add_self1)

text \<open>Absorbing a message in two parts: the second call starts from the rest of the first.\<close>

lemma absorb_append:
  assumes "0 < n"
  shows "absorb f n (absorb f n st xs) (rest_of n xs @ ys) = absorb f n st (xs @ ys) \<and>
    rest_of n (rest_of n xs @ ys) = rest_of n (xs @ ys)"
  using assms
proof (induction f n st xs rule: absorb.induct)
  case (1 f n st xs)
  show ?case
  proof (cases "length xs < n")
    case False
    then obtain b zs where xs: "xs = b @ zs" "length b = n" by (metis append_take_drop_id length_take min.absorb2 not_less)
    with "1.IH" "1.prems" False show ?thesis by (simp add: absorb_block rest_of_block)
  qed simp
qed

lemma absorb_exact_step:
  "0 < n \<Longrightarrow> length xs = n \<Longrightarrow> absorb f n st xs = f st xs"
  using absorb_block [of n xs f st "[]"] by simp

subsection \<open>The interface of a digest\<close>

text \<open>
  \<open>holds c m\<close>: the context has taken in the message \<open>m\<close>.  An update is defined for pieces up to
  a given length; whatever the pieces, the digest is that of the whole message.
\<close>

primrec updates :: "('c \<Rightarrow> 'b list \<Rightarrow> 'c option) \<Rightarrow> 'b list list \<Rightarrow> 'c \<Rightarrow> 'c option" where
  "updates upd [] c = Some c"
| "updates upd (xs # xss) c = do { c \<leftarrow> upd c xs; updates upd xss c }"

locale streaming_digest =
  fixes holds :: "'c \<Rightarrow> 'b list \<Rightarrow> bool"
    and ini :: 'c
    and upd :: "'c \<Rightarrow> 'b list \<Rightarrow> 'c option"
    and fin :: "'c \<Rightarrow> ('d \<times> 'c) option"
    and digest :: "'b list \<Rightarrow> 'd"
    and limit :: nat
  assumes init_holds: "holds ini []"
    and upd_holds: "holds c m \<Longrightarrow> length xs < limit \<Longrightarrow> \<exists>c'. upd c xs = Some c' \<and> holds c' (m @ xs)"
    and fin_digest: "holds c m \<Longrightarrow> \<exists>c'. fin c = Some (digest m, c')"
begin

lemma updates_hold:
  assumes "holds c m" and "\<forall>xs\<in>set xss. length xs < limit"
  shows "\<exists>c'. updates upd xss c = Some c' \<and> holds c' (m @ concat xss)"
  using assms
proof (induction xss arbitrary: c m)
  case (Cons xs xss)
  obtain c1 where "upd c xs = Some c1" "holds c1 (m @ xs)" using upd_holds [OF Cons.prems(1), of xs] Cons.prems(2) by auto
  with Cons.IH [of c1 "m @ xs"] Cons.prems(2) show ?case by simp
qed simp

lemma digest_of_pieces:
  assumes "\<forall>xs\<in>set xss. length xs < limit"
  shows "\<exists>c'. do { c \<leftarrow> updates upd xss ini; fin c } = Some (digest (concat xss), c')"
  using updates_hold [OF init_holds assms] fin_digest by fastforce

end

end
