(* ===== verification/Md_Digest.thy ===== *)
theory Md_Digest
  imports Bytes
begin

text \<open>
  The update and the finalization that the digests of \<open>ext/standard/sha1.c\<close> and of \<open>ext/hash\<close>
  share word for word: a buffer of one block, a count of bits in two words, and a loop that
  transforms the full blocks of the input in place.  The functions of the sources are instances for
  their transformation, their block size and their word width.
\<close>

record 'v digest_ctx =
  dg_state :: "'v list"
  dg_count0 :: 'v
  dg_count1 :: 'v
  dg_buffer :: "byte list"

text \<open>
  \<open>for (i = partLen; i + 63 < inputLen; i += 64) Transform(state, &input[i])\<close>, with the 32-bit
  arithmetic of \<open>i\<close>; the result is the state and the last \<open>i\<close>.
\<close>

partial_function (option) transform_loop ::
  "nat \<Rightarrow> ('st \<Rightarrow> byte list \<Rightarrow> 'st) \<Rightarrow> byte list \<Rightarrow> uint \<Rightarrow> 'st \<Rightarrow> ('st \<times> uint) option" where [code]:
  "transform_loop B tr input i st =
     (if i + of_nat (B - 1) < of_nat (length input) then
        if unat i + B \<le> length input then
          transform_loop B tr input (i + of_nat B) (tr st (take B (drop (unat i) input)))
        else None
      else Some (st, i))"

text \<open>\<open>inputLen\<close> is an \<open>unsigned int\<close>; the counts have the width of the digest's words.\<close>

definition digest_update ::
  "nat \<Rightarrow> ('w::len word list \<Rightarrow> byte list \<Rightarrow> 'w word list) \<Rightarrow> 'w word digest_ctx \<Rightarrow> byte list \<Rightarrow> 'w word digest_ctx option" where
  "digest_update B tr context input =
     (let inputLen = of_nat (length input) :: uint;
          index = unat (drop_bit 3 (dg_count0 context) AND of_nat (B - 1));
          bits = push_bit 3 (ucast inputLen) :: 'w word;
          context = context\<lparr>dg_count0 := dg_count0 context + bits\<rparr>;
          context = (if dg_count0 context < bits then context\<lparr>dg_count1 := dg_count1 context + 1\<rparr> else context);
          context = context\<lparr>dg_count1 := dg_count1 context + drop_bit (LENGTH('w) - 3) (ucast inputLen)\<rparr>;
          partLen = B - index
      in if unat inputLen \<ge> partLen then do {
           buf \<leftarrow> memcpy_at (dg_buffer context) index (take partLen input);
           (st, i) \<leftarrow> transform_loop B tr input (of_nat partLen) (tr (dg_state context) buf);
           buf \<leftarrow> memcpy_at buf 0 (drop (unat i) input);
           Some (context\<lparr>dg_state := st, dg_buffer := buf\<rparr>)
         } else do {
           buf \<leftarrow> memcpy_at (dg_buffer context) index input;
           Some (context\<lparr>dg_buffer := buf\<rparr>)
         })"

text \<open>\<open>L\<close> is the number of bytes of the count: the padding ends \<open>L\<close> bytes before a block's end.\<close>

definition digest_final ::
  "nat \<Rightarrow> nat \<Rightarrow> ('w::len word digest_ctx \<Rightarrow> byte list \<Rightarrow> 'w word digest_ctx option) \<Rightarrow> ('w word \<Rightarrow> 'w word \<Rightarrow> byte list) \<Rightarrow>
   ('w word list \<Rightarrow> byte list) \<Rightarrow> 'w word digest_ctx \<Rightarrow> (byte list \<times> 'w word digest_ctx) option" where
  "digest_final B L upd save encode context = do {
     let bits = save (dg_count0 context) (dg_count1 context);
     let index = unat (drop_bit 3 (dg_count0 context) AND of_nat (B - 1));
     let padLen = (if index < B - L then B - L - index else 2 * B - L - index);
     context \<leftarrow> upd context (take padLen (0x80 # replicate (B - 1) 0));
     context \<leftarrow> upd context bits;
     Some (encode (dg_state context),
       \<lparr>dg_state = replicate (length (dg_state context)) 0, dg_count0 = 0, dg_count1 = 0, dg_buffer = replicate B 0\<rparr>)
   }"

subsection \<open>The reference: pad, then compress block by block\<close>

definition md_pad_zeros :: "nat \<Rightarrow> nat \<Rightarrow> nat \<Rightarrow> nat" where
  "md_pad_zeros B L n = (if n mod B < B - L then B - L - n mod B else 2 * B - L - n mod B) - 1"

definition md_pad :: "nat \<Rightarrow> nat \<Rightarrow> (nat \<Rightarrow> byte list) \<Rightarrow> byte list \<Rightarrow> byte list" where
  "md_pad B L count_bytes m = m @ [0x80] @ replicate (md_pad_zeros B L (length m)) 0 @ count_bytes (8 * length m)"

text \<open>The two words of a count.\<close>

definition count_words :: "('w::len word \<Rightarrow> 'w word \<Rightarrow> byte list) \<Rightarrow> nat \<Rightarrow> byte list" where
  "count_words save k = save (of_nat k) (of_nat (k div 2 ^ LENGTH('w)))"

definition digest_holds :: "nat \<Rightarrow> ('w::len word list \<Rightarrow> byte list \<Rightarrow> 'w word list) \<Rightarrow> 'w word list \<Rightarrow> 'w word digest_ctx \<Rightarrow> byte list \<Rightarrow> bool" where
  "digest_holds B tr iv c m \<longleftrightarrow> dg_state c = absorb tr B iv m \<and> length (dg_buffer c) = B \<and>
     take (length m mod B) (dg_buffer c) = rest_of B m \<and>
     dg_count0 c = of_nat (8 * length m) \<and> dg_count1 c = of_nat (8 * length m div 2 ^ LENGTH('w))"

lemma transform_loop_ok:
  assumes "length input < 2 ^ 31" and "0 < B" and "B \<le> 2 ^ 20" and "unat i \<le> length input"
  shows "\<exists>j. transform_loop B tr input i st = Some (absorb tr B st (drop (unat i) input), j) \<and>
    drop (unat j) input = rest_of B (drop (unat i) input)"
  using assms
proof (induction "length input - unat i" arbitrary: i st rule: less_induct)
  case less
  have w: "unat (of_nat (length input) :: uint) = length input" using less.prems(1) by (simp add: unat_of_nat_small)
  have a: "unat (i + of_nat k) = unat i + k" if "k \<le> 2 ^ 20" for k
  proof -
    have "unat i + k < 2 ^ 32" using that less.prems(1,4) by simp
    then show ?thesis using that by (simp add: unat_word_ariths unat_of_nat)
  qed
  have lt: "i + of_nat (B - 1) < of_nat (length input) \<longleftrightarrow> unat i + B \<le> length input"
    unfolding word_less_nat_alt w using a [of "B - 1"] less.prems(2,3) by auto
  let ?x = "drop (unat i) input"
  show ?case
  proof (cases "unat i + B \<le> length input")
    case True
    have "drop B ?x = drop (unat i + B) input" by (simp add: add.commute)
    then have st: "?x = take B ?x @ drop (unat i + B) input" "length (take B ?x) = B"
      using True by (metis append_take_drop_id, simp)
    let ?i = "i + of_nat B"
    have "\<exists>j. transform_loop B tr input ?i (tr st (take B ?x)) = Some (absorb tr B (tr st (take B ?x)) (drop (unat ?i) input), j) \<and>
        drop (unat j) input = rest_of B (drop (unat ?i) input)"
      by (rule less.hyps) (use a [of B] True less.prems in simp_all)
    moreover have "absorb tr B st ?x = absorb tr B (tr st (take B ?x)) (drop (unat ?i) input)"
      "rest_of B ?x = rest_of B (drop (unat ?i) input)"
      using absorb_block [OF less.prems(2) st(2), of tr st "drop (unat i + B) input"]
        rest_of_block [OF less.prems(2) st(2), of "drop (unat i + B) input"] a [OF less.prems(3)] st(1) by simp_all
    ultimately show ?thesis using lt True by (subst transform_loop.simps) auto
  next
    case False
    then have "length ?x < B" using less.prems(4) by simp
    then show ?thesis using lt False by (subst transform_loop.simps) auto
  qed
qed

subsection \<open>The counts\<close>

lemma pow_eighth: "3 \<le> w \<Longrightarrow> (2 :: nat) ^ w = 8 * 2 ^ (w - 3)"
  using power_add [of "2 :: nat" 3 "w - 3"] by simp

lemma digest_count:
  fixes c0 c1 :: "'w::len word"
  assumes c0: "c0 = of_nat (8 * n)" and c1: "c1 = of_nat (8 * n div 2 ^ LENGTH('w))" and k: "k < 2 ^ 32" and W: "32 \<le> LENGTH('w)"
  shows "c0 + push_bit 3 (ucast (of_nat k :: uint)) = of_nat (8 * (n + k))"
    and "(if c0 + push_bit 3 (ucast (of_nat k :: uint)) < push_bit 3 (ucast (of_nat k :: uint)) then c1 + 1 else c1) +
      drop_bit (LENGTH('w) - 3) (ucast (of_nat k :: uint)) = of_nat (8 * (n + k) div 2 ^ LENGTH('w))"
proof -
  let ?Q = "2 ^ LENGTH('w) :: nat"
  have Q: "2 ^ 32 \<le> ?Q" "?Q = 8 * 2 ^ (LENGTH('w) - 3)"
    using W power_increasing [of 32 "LENGTH('w)" "2 :: nat"] pow_eighth [of "LENGTH('w)"] by simp_all
  have uk: "unat (ucast (of_nat k :: uint) :: 'w word) = k"
    using k Q(1) by (simp add: unsigned_ucast_eq unat_of_nat_small take_bit_nat_eq_self)
  then have up: "ucast (of_nat k :: uint) = (of_nat k :: 'w word)" by (metis word_unat_eq_iff unat_of_nat_small k Q(1) order_less_le_trans)
  have b: "push_bit 3 (ucast (of_nat k :: uint)) = (of_nat (8 * k) :: 'w word)" by (simp add: up push_bit_eq_mult)
  show s: "c0 + push_bit 3 (ucast (of_nat k :: uint)) = of_nat (8 * (n + k))"
    unfolding b c0 by (simp add: distrib_left)
  have d: "drop_bit (LENGTH('w) - 3) (ucast (of_nat k :: uint)) = (of_nat (8 * k div ?Q) :: 'w word)"
  proof -
    have "unat (drop_bit (LENGTH('w) - 3) (ucast (of_nat k :: uint) :: 'w word)) = k div 2 ^ (LENGTH('w) - 3)"
      by (simp add: unat_shift_down uk)
    also have "\<dots> = 8 * k div ?Q" unfolding Q(2) by simp
    finally show ?thesis
      by (metis of_nat_unat ucast_id)
  qed
  have "(8 * n + 8 * k) div ?Q = 8 * k div ?Q + 8 * n div ?Q + (if (8 * n + 8 * k) mod ?Q < 8 * k mod ?Q then 1 else 0)"
    using div_add_carry [of ?Q "8 * k" "8 * n"] by (simp only: add.commute [of "8 * n"]) simp
  moreover have "of_nat (8 * (n + k)) < (of_nat (8 * k) :: 'w word) \<longleftrightarrow> (8 * n + 8 * k) mod ?Q < 8 * k mod ?Q"
    unfolding word_less_nat_alt unat_of_nat by (simp add: distrib_left)
  ultimately show "(if c0 + push_bit 3 (ucast (of_nat k :: uint)) < push_bit 3 (ucast (of_nat k :: uint)) then c1 + 1 else c1) +
      drop_bit (LENGTH('w) - 3) (ucast (of_nat k :: uint)) = of_nat (8 * (n + k) div 2 ^ LENGTH('w))"
    unfolding s d unfolding b c1 by (simp add: distrib_left)
qed

lemma digest_index:
  fixes c0 :: "'w::len word"
  assumes "c0 = of_nat (8 * n)" and "B = 2 ^ b" and "b + 3 \<le> LENGTH('w)"
  shows "unat (drop_bit 3 c0 AND of_nat (B - 1)) = n mod B"
proof -
  let ?Q = "2 ^ (LENGTH('w) - 3) :: nat"
  have "(of_nat (B - 1) :: 'w word) = mask b" using assms(2) by (simp add: mask_eq_exp_minus_1 of_nat_diff)
  moreover have "unat c0 = 8 * n mod (8 * ?Q)"
    unfolding assms(1) unat_of_nat using assms(3) pow_eighth [of "LENGTH('w)"] by simp
  moreover have "8 * n mod (8 * ?Q) div 8 = n mod ?Q" by (simp flip: mult_mod_right)
  moreover have "n mod ?Q mod B = n mod B"
    using assms(2,3) by (intro mod_mod_cancel) (simp add: le_imp_power_dvd)
  ultimately show ?thesis using assms(2) by (simp add: unat_and_mask unat_shift_down)
qed

subsection \<open>Update and finalization\<close>

text \<open>The context with its counts advanced, and the update after that.\<close>

definition digest_counted :: "'w::len word digest_ctx \<Rightarrow> nat \<Rightarrow> 'w word digest_ctx" where
  "digest_counted c k = (let bits = push_bit 3 (ucast (of_nat k :: uint)) in
     c\<lparr>dg_count0 := dg_count0 c + bits, dg_count1 := (if dg_count0 c + bits < bits then dg_count1 c + 1 else dg_count1 c) +
       drop_bit (LENGTH('w) - 3) (ucast (of_nat k :: uint))\<rparr>)"

lemma digest_counted_simps [simp]:
  "dg_state (digest_counted c k) = dg_state c" "dg_buffer (digest_counted c k) = dg_buffer c"
  by (simp_all add: digest_counted_def Let_def)

lemma digest_update_eq:
  fixes c :: "'w::len word digest_ctx"
  assumes "unat (drop_bit 3 (dg_count0 c) AND of_nat (B - 1)) = u" and "length input < 2 ^ 32"
  shows "digest_update B tr c input =
    (if B - u \<le> length input then do {
       buf \<leftarrow> memcpy_at (dg_buffer c) u (take (B - u) input);
       (st, i) \<leftarrow> transform_loop B tr input (of_nat (B - u)) (tr (dg_state c) buf);
       buf \<leftarrow> memcpy_at buf 0 (drop (unat i) input);
       Some ((digest_counted c (length input))\<lparr>dg_state := st, dg_buffer := buf\<rparr>)
     } else do {
       buf \<leftarrow> memcpy_at (dg_buffer c) u input;
       Some ((digest_counted c (length input))\<lparr>dg_buffer := buf\<rparr>)
     })"
  using assms by (simp add: digest_update_def digest_counted_def Let_def unat_of_nat_small if_distrib cong: if_cong)

lemma digest_holds_step:
  fixes c :: "'w::len word digest_ctx"
  assumes h: "digest_holds B tr iv c m" and B: "0 < B" and len: "length xs < 2 ^ 32" and W: "32 \<le> LENGTH('w)"
    and "dg_state c' = absorb tr B (dg_state c) (rest_of B m @ xs)" and "length (dg_buffer c') = B"
    and "take (length (m @ xs) mod B) (dg_buffer c') = rest_of B (rest_of B m @ xs)"
    and "dg_count0 c' = dg_count0 (digest_counted c (length xs))" and "dg_count1 c' = dg_count1 (digest_counted c (length xs))"
  shows "digest_holds B tr iv c' (m @ xs)"
proof -
  have r: "dg_state c = absorb tr B iv m"
    and cnt: "dg_count0 c = of_nat (8 * length m)" "dg_count1 c = of_nat (8 * length m div 2 ^ LENGTH('w))"
    using h by (auto simp: digest_holds_def)
  note n = digest_count [OF cnt len W]
  have "dg_count0 c' = of_nat (8 * length (m @ xs))" "dg_count1 c' = of_nat (8 * length (m @ xs) div 2 ^ LENGTH('w))"
    using n assms(8,9) by (simp_all add: digest_counted_def Let_def)
  then show ?thesis using assms(5-7) absorb_append [OF B, of tr iv m xs] by (simp only: digest_holds_def r)
qed

lemma digest_update_ok:
  fixes c :: "'w::len word digest_ctx"
  assumes h: "digest_holds B tr iv c m" and B: "B = 2 ^ b" "b + 3 \<le> LENGTH('w)" "b \<le> 20"
    and len: "length xs < 2 ^ 31" and W: "32 \<le> LENGTH('w)"
  shows "\<exists>c'. digest_update B tr c xs = Some c' \<and> digest_holds B tr iv c' (m @ xs)"
proof -
  let ?u = "length m mod B" and ?c = "digest_counted c (length xs)" and ?r = "rest_of B m"
  have B': "0 < B" "B \<le> 2 ^ 20" using B power_increasing [of b 20 "2 :: nat"] by simp_all
  have buf: "length (dg_buffer c) = B" and tk: "take ?u (dg_buffer c) = ?r" using h by (auto simp: digest_holds_def)
  have "unat (drop_bit 3 (dg_count0 c) AND of_nat (B - 1)) = ?u" using h B(1,2) by (intro digest_index) (auto simp: digest_holds_def)
  note upd = digest_update_eq [OF this, of xs tr]
  have len': "length xs < 2 ^ 32" using len by simp
  note step = digest_holds_step [OF h B'(1) len' W]
  have lr: "length ?r = ?u" and u: "?u < B" using B' by simp_all
  have md: "length (m @ xs) mod B = length (?r @ xs) mod B" by (simp add: mod_simps)
  show ?thesis
  proof (cases "B - ?u \<le> length xs")
    case False
    then have n: "?u + length xs \<le> length (dg_buffer c)" "length (?r @ xs) < B" using buf by simp_all
    obtain b where b: "memcpy_at (dg_buffer c) ?u xs = Some b" "length b = B" "take (?u + length xs) b = ?r @ xs"
      using memcpy_at_ok [OF n(1)] tk buf by metis
    have "digest_holds B tr iv (?c\<lparr>dg_buffer := b\<rparr>) (m @ xs)"
      by (rule step) (use b n(2) md in simp_all)
    then show ?thesis using upd False b(1) len' by simp
  next
    case True
    let ?x = "take (B - ?u) xs" and ?y = "drop (B - ?u) xs"
    have n: "?u + length ?x = B" using True u by simp
    then have n': "?u + length ?x \<le> length (dg_buffer c)" using buf by simp
    obtain b where b: "memcpy_at (dg_buffer c) ?u ?x = Some b" "length b = length (dg_buffer c)"
      "take (?u + length ?x) b = take ?u (dg_buffer c) @ ?x"
      by (rule memcpy_at_ok [OF n'])
    have bx: "b = ?r @ ?x" and b2: "length b = B" using b(2,3) buf tk unfolding n by simp_all
    have ui: "unat (of_nat (B - ?u) :: uint) = B - ?u" using B'(2) by (simp add: unat_of_nat_small)
    obtain j where j: "transform_loop B tr xs (of_nat (B - ?u)) (tr (dg_state c) b) = Some (absorb tr B (tr (dg_state c) b) ?y, j)"
      "drop (unat j) xs = rest_of B ?y"
      using transform_loop_ok [OF len B', of "of_nat (B - ?u)" tr "tr (dg_state c) b"] ui True by auto
    have lr: "length (rest_of B ?y) \<le> length b" using B'(1) b2 by (simp add: less_imp_le)
    obtain b3 where b3: "memcpy_at b 0 (rest_of B ?y) = Some b3" "length b3 = B" "take (length (rest_of B ?y)) b3 = rest_of B ?y"
      using memcpy_at_ok [of 0 "rest_of B ?y" b] lr b2 by auto
    have split: "?r @ xs = b @ ?y" using bx by simp
    have "digest_holds B tr iv (?c\<lparr>dg_state := absorb tr B (tr (dg_state c) b) ?y, dg_buffer := b3\<rparr>) (m @ xs)"
    proof (rule step)
      show "take (length (m @ xs) mod B) (dg_buffer (?c\<lparr>dg_state := absorb tr B (tr (dg_state c) b) ?y, dg_buffer := b3\<rparr>)) =
          rest_of B (?r @ xs)"
        unfolding md split using b3(3) b2 B'(1) by (simp add: rest_of_block)
      show "dg_state (?c\<lparr>dg_state := absorb tr B (tr (dg_state c) b) ?y, dg_buffer := b3\<rparr>) = absorb tr B (dg_state c) (?r @ xs)"
        unfolding split using b2 B'(1) by (simp add: absorb_block)
    qed (use b3 in simp_all)
    then show ?thesis using upd True b(1) j b3(1) len' by simp
  qed
qed

definition digest_ref ::
  "nat \<Rightarrow> nat \<Rightarrow> ('w::len word list \<Rightarrow> byte list \<Rightarrow> 'w word list) \<Rightarrow> 'w word list \<Rightarrow> ('w word \<Rightarrow> 'w word \<Rightarrow> byte list) \<Rightarrow>
   ('w word list \<Rightarrow> byte list) \<Rightarrow> byte list \<Rightarrow> byte list" where
  "digest_ref B L tr iv save encode m = encode (absorb tr B iv (md_pad B L (count_words save) m))"

lemma md_pad_zeros_eq:
  assumes "L < B"
  shows "(if n mod B < B - L then B - L - n mod B else 2 * B - L - n mod B) = Suc (md_pad_zeros B L n)"
    and "Suc (md_pad_zeros B L n) \<le> B"
    and "n mod B + 1 + md_pad_zeros B L n + L = (if n mod B < B - L then B else 2 * B)"
proof -
  define u where "u = n mod B"
  have "u < B" using assms by (simp add: u_def)
  with assms show "(if n mod B < B - L then B - L - n mod B else 2 * B - L - n mod B) = Suc (md_pad_zeros B L n)"
    "Suc (md_pad_zeros B L n) \<le> B" "n mod B + 1 + md_pad_zeros B L n + L = (if n mod B < B - L then B else 2 * B)"
    unfolding md_pad_zeros_def u_def [symmetric] by auto
qed

lemma digest_final_ok:
  fixes c :: "'w::len word digest_ctx"
  assumes h: "digest_holds B tr iv c m" and B: "B = 2 ^ b" "b + 3 \<le> LENGTH('w)" "b \<le> 20" and W: "32 \<le> LENGTH('w)"
    and L: "L < B" "length (save (dg_count0 c) (dg_count1 c)) = L"
  shows "\<exists>c'. digest_final B L (digest_update B tr) save encode c = Some (digest_ref B L tr iv save encode m, c')"
proof -
  let ?u = "length m mod B" and ?z = "md_pad_zeros B L (length m)"
  let ?p = "0x80 # replicate ?z 0" and ?bits = "save (dg_count0 c) (dg_count1 c)"
  have bits: "?bits = count_words save (8 * length m)" using h by (simp add: digest_holds_def count_words_def)
  have idx: "unat (drop_bit 3 (dg_count0 c) AND of_nat (B - 1)) = ?u" using h B(1,2) by (intro digest_index) (auto simp: digest_holds_def)
  have u: "?u < B" and B20: "B \<le> 2 ^ 20" using B power_increasing [of b 20 "2 :: nat"] by simp_all
  have pl: "(if ?u < B - L then B - L - ?u else 2 * B - L - ?u) = Suc ?z" and z: "Suc ?z \<le> B"
    using md_pad_zeros_eq [OF L(1)] by auto
  have p: "take (Suc ?z) (0x80 # replicate (B - 1) 0) = ?p" using z by (simp add: min_def)
  have lp: "length ?p < 2 ^ 31" "length ?bits < 2 ^ 31" using z B20 L by simp_all
  obtain c1 where c1: "digest_update B tr c ?p = Some c1" "digest_holds B tr iv c1 (m @ ?p)"
    using digest_update_ok [OF h B lp(1) W] by blast
  obtain c2 where c2: "digest_update B tr c1 ?bits = Some c2" "digest_holds B tr iv c2 ((m @ ?p) @ ?bits)"
    using digest_update_ok [OF c1(2) B lp(2) W] by blast
  have "dg_state c2 = absorb tr B iv (md_pad B L (count_words save) m)"
    using c2(2) bits by (simp add: digest_holds_def md_pad_def)
  then show ?thesis unfolding digest_final_def Let_def idx pl p digest_ref_def using c1(1) c2(1) by simp
qed

lemma md_pad_blocks:
  assumes "L < B" and "length (cb (8 * length m)) = L"
  shows "length (md_pad B L cb m) mod B = 0"
proof -
  let ?u = "length m mod B"
  have "?u + 1 + md_pad_zeros B L (length m) + L = (if ?u < B - L then B else 2 * B)"
    using md_pad_zeros_eq(3) [OF assms(1)] .
  moreover have "length (md_pad B L cb m) mod B = (?u + 1 + md_pad_zeros B L (length m) + L) mod B"
    using assms(2) mod_add_left_eq [of "length m" B "1 + md_pad_zeros B L (length m) + L"]
    by (simp add: md_pad_def add.assoc)
  ultimately show ?thesis by simp
qed

lemma digest_init_holds:
  "dg_state c = iv \<Longrightarrow> dg_count0 c = 0 \<Longrightarrow> dg_count1 c = 0 \<Longrightarrow> length (dg_buffer c) = B \<Longrightarrow> 0 < B \<Longrightarrow> digest_holds B tr iv c []"
  by (simp add: digest_holds_def)

end
