(* ===== verification/Md5.thy ===== *)
theory Md5
  imports Bytes
begin

text \<open>
  The model of \<open>ext/standard/md5.c\<close>: the compression of one or more 64-byte blocks (\<open>body\<close>), the
  streaming update with its buffer and its counters of 29 and 32 bits, the padding of
  \<open>PHP_MD5Final\<close> and the functions a script calls.  The context's word buffer \<open>block\<close> is filled as in the
  branch of the sources without unaligned reads, which is the one the documented compiler takes.
\<close>

record PHP_MD5_CTX =
  md_lo :: "32 word"
  md_hi :: "32 word"
  md_a :: "32 word"
  md_b :: "32 word"
  md_c :: "32 word"
  md_d :: "32 word"
  md_buffer :: "byte list"
  md_block :: "32 word list"

type_synonym md5_regs = "32 word \<times> 32 word \<times> 32 word \<times> 32 word"

definition MD5_F :: "32 word \<Rightarrow> 32 word \<Rightarrow> 32 word \<Rightarrow> 32 word" where
  "MD5_F x y z = z XOR (x AND (y XOR z))"

definition MD5_G :: "32 word \<Rightarrow> 32 word \<Rightarrow> 32 word \<Rightarrow> 32 word" where
  "MD5_G x y z = y XOR (z AND (x XOR y))"

definition MD5_H :: "32 word \<Rightarrow> 32 word \<Rightarrow> 32 word \<Rightarrow> 32 word" where
  "MD5_H x y z = x XOR y XOR z"

definition MD5_I :: "32 word \<Rightarrow> 32 word \<Rightarrow> 32 word \<Rightarrow> 32 word" where
  "MD5_I x y z = y XOR (x OR NOT z)"

text \<open>The new value of the first register of a \<open>STEP\<close>.\<close>

definition STEP :: "(32 word \<Rightarrow> 32 word \<Rightarrow> 32 word \<Rightarrow> 32 word) \<Rightarrow> 32 word \<Rightarrow> 32 word \<Rightarrow> 32 word \<Rightarrow> 32 word \<Rightarrow>
    32 word \<Rightarrow> 32 word \<Rightarrow> nat \<Rightarrow> 32 word" where
  "STEP f a b c d x t s =
     (let a = a + (f b c d + x + t);
          a = push_bit s a OR drop_bit (32 - s) (a AND 0xffffffff)
      in a + b)"

definition SET :: "byte list \<Rightarrow> nat \<Rightarrow> 32 word" where
  "SET ptr n = ucast (ptr ! (n * 4)) OR push_bit 8 (ucast (ptr ! (n * 4 + 1))) OR
     push_bit 16 (ucast (ptr ! (n * 4 + 2))) OR push_bit 24 (ucast (ptr ! (n * 4 + 3)))"

definition md5_round1 :: "(nat \<Rightarrow> 32 word) \<Rightarrow> md5_regs \<Rightarrow> md5_regs" where
  "md5_round1 x r = (let (a, b, c, d) = r;
       a = STEP MD5_F a b c d (x 0) 0xd76aa478 7;
       d = STEP MD5_F d a b c (x 1) 0xe8c7b756 12;
       c = STEP MD5_F c d a b (x 2) 0x242070db 17;
       b = STEP MD5_F b c d a (x 3) 0xc1bdceee 22;
       a = STEP MD5_F a b c d (x 4) 0xf57c0faf 7;
       d = STEP MD5_F d a b c (x 5) 0x4787c62a 12;
       c = STEP MD5_F c d a b (x 6) 0xa8304613 17;
       b = STEP MD5_F b c d a (x 7) 0xfd469501 22;
       a = STEP MD5_F a b c d (x 8) 0x698098d8 7;
       d = STEP MD5_F d a b c (x 9) 0x8b44f7af 12;
       c = STEP MD5_F c d a b (x 10) 0xffff5bb1 17;
       b = STEP MD5_F b c d a (x 11) 0x895cd7be 22;
       a = STEP MD5_F a b c d (x 12) 0x6b901122 7;
       d = STEP MD5_F d a b c (x 13) 0xfd987193 12;
       c = STEP MD5_F c d a b (x 14) 0xa679438e 17;
       b = STEP MD5_F b c d a (x 15) 0x49b40821 22
     in (a, b, c, d))"

definition md5_round2 :: "(nat \<Rightarrow> 32 word) \<Rightarrow> md5_regs \<Rightarrow> md5_regs" where
  "md5_round2 x r = (let (a, b, c, d) = r;
       a = STEP MD5_G a b c d (x 1) 0xf61e2562 5;
       d = STEP MD5_G d a b c (x 6) 0xc040b340 9;
       c = STEP MD5_G c d a b (x 11) 0x265e5a51 14;
       b = STEP MD5_G b c d a (x 0) 0xe9b6c7aa 20;
       a = STEP MD5_G a b c d (x 5) 0xd62f105d 5;
       d = STEP MD5_G d a b c (x 10) 0x02441453 9;
       c = STEP MD5_G c d a b (x 15) 0xd8a1e681 14;
       b = STEP MD5_G b c d a (x 4) 0xe7d3fbc8 20;
       a = STEP MD5_G a b c d (x 9) 0x21e1cde6 5;
       d = STEP MD5_G d a b c (x 14) 0xc33707d6 9;
       c = STEP MD5_G c d a b (x 3) 0xf4d50d87 14;
       b = STEP MD5_G b c d a (x 8) 0x455a14ed 20;
       a = STEP MD5_G a b c d (x 13) 0xa9e3e905 5;
       d = STEP MD5_G d a b c (x 2) 0xfcefa3f8 9;
       c = STEP MD5_G c d a b (x 7) 0x676f02d9 14;
       b = STEP MD5_G b c d a (x 12) 0x8d2a4c8a 20
     in (a, b, c, d))"

definition md5_round3 :: "(nat \<Rightarrow> 32 word) \<Rightarrow> md5_regs \<Rightarrow> md5_regs" where
  "md5_round3 x r = (let (a, b, c, d) = r;
       a = STEP MD5_H a b c d (x 5) 0xfffa3942 4;
       d = STEP MD5_H d a b c (x 8) 0x8771f681 11;
       c = STEP MD5_H c d a b (x 11) 0x6d9d6122 16;
       b = STEP MD5_H b c d a (x 14) 0xfde5380c 23;
       a = STEP MD5_H a b c d (x 1) 0xa4beea44 4;
       d = STEP MD5_H d a b c (x 4) 0x4bdecfa9 11;
       c = STEP MD5_H c d a b (x 7) 0xf6bb4b60 16;
       b = STEP MD5_H b c d a (x 10) 0xbebfbc70 23;
       a = STEP MD5_H a b c d (x 13) 0x289b7ec6 4;
       d = STEP MD5_H d a b c (x 0) 0xeaa127fa 11;
       c = STEP MD5_H c d a b (x 3) 0xd4ef3085 16;
       b = STEP MD5_H b c d a (x 6) 0x04881d05 23;
       a = STEP MD5_H a b c d (x 9) 0xd9d4d039 4;
       d = STEP MD5_H d a b c (x 12) 0xe6db99e5 11;
       c = STEP MD5_H c d a b (x 15) 0x1fa27cf8 16;
       b = STEP MD5_H b c d a (x 2) 0xc4ac5665 23
     in (a, b, c, d))"

definition md5_round4 :: "(nat \<Rightarrow> 32 word) \<Rightarrow> md5_regs \<Rightarrow> md5_regs" where
  "md5_round4 x r = (let (a, b, c, d) = r;
       a = STEP MD5_I a b c d (x 0) 0xf4292244 6;
       d = STEP MD5_I d a b c (x 7) 0x432aff97 10;
       c = STEP MD5_I c d a b (x 14) 0xab9423a7 15;
       b = STEP MD5_I b c d a (x 5) 0xfc93a039 21;
       a = STEP MD5_I a b c d (x 12) 0x655b59c3 6;
       d = STEP MD5_I d a b c (x 3) 0x8f0ccc92 10;
       c = STEP MD5_I c d a b (x 10) 0xffeff47d 15;
       b = STEP MD5_I b c d a (x 1) 0x85845dd1 21;
       a = STEP MD5_I a b c d (x 8) 0x6fa87e4f 6;
       d = STEP MD5_I d a b c (x 15) 0xfe2ce6e0 10;
       c = STEP MD5_I c d a b (x 6) 0xa3014314 15;
       b = STEP MD5_I b c d a (x 13) 0x4e0811a1 21;
       a = STEP MD5_I a b c d (x 4) 0xf7537e82 6;
       d = STEP MD5_I d a b c (x 11) 0xbd3af235 10;
       c = STEP MD5_I c d a b (x 2) 0x2ad7d2bb 15;
       b = STEP MD5_I b c d a (x 9) 0xeb86d391 21
     in (a, b, c, d))"

text \<open>One pass of the loop of \<open>body\<close>, on the 64 bytes at \<open>ptr\<close>.\<close>

definition md5_compress :: "md5_regs \<Rightarrow> byte list \<Rightarrow> md5_regs" where
  "md5_compress saved ptr =
     (let blk = map (SET ptr) [0..<16];
          (a, b, c, d) = md5_round4 (nth blk) (md5_round3 (nth blk) (md5_round2 (nth blk) (md5_round1 (nth blk) saved)));
          (saved_a, saved_b, saved_c, saved_d) = saved
      in (a + saved_a, b + saved_b, c + saved_c, d + saved_d))"

text \<open>The loop reads 64 bytes, counts \<open>size\<close> down by 64 and stops at 0.\<close>

function body_loop :: "md5_regs \<Rightarrow> byte list \<Rightarrow> (md5_regs \<times> 32 word list) option" where
  "body_loop r ptr =
     (if length ptr < 64 then None
      else let r = md5_compress r (take 64 ptr); blk = map (SET (take 64 ptr)) [0..<16]; ptr = drop 64 ptr
           in if ptr = [] then Some (r, blk) else body_loop r ptr)"
  by pat_completeness auto
termination by (relation "measure (\<lambda>(r, ptr). length ptr)") auto

declare body_loop.simps [simp del]

definition body :: "PHP_MD5_CTX \<Rightarrow> byte list \<Rightarrow> PHP_MD5_CTX option" where
  "body ctx data = do {
     ((a, b, c, d), blk) \<leftarrow> body_loop (md_a ctx, md_b ctx, md_c ctx, md_d ctx) data;
     Some (ctx\<lparr>md_a := a, md_b := b, md_c := c, md_d := d, md_block := blk\<rparr>)
   }"

text \<open>\<open>PHP_MD5Init\<close> leaves the two buffers as they are.\<close>

definition PHP_MD5Init :: "PHP_MD5_CTX \<Rightarrow> PHP_MD5_CTX" where
  "PHP_MD5Init ctx = ctx\<lparr>md_a := 0x67452301, md_b := 0xefcdab89, md_c := 0x98badcfe, md_d := 0x10325476,
     md_lo := 0, md_hi := 0\<rparr>"

definition md5_tail :: "PHP_MD5_CTX \<Rightarrow> byte list \<Rightarrow> PHP_MD5_CTX option" where
  "md5_tail ctx data =
     (let size = of_nat (length data) :: 32 word in
      if size \<ge> 64 then do {
        let n = unat (size AND NOT 0x3f);
        ctx \<leftarrow> body ctx (take n data);
        buf \<leftarrow> memcpy_at (md_buffer ctx) 0 (take (unat (size AND 0x3f)) (drop n data));
        Some (ctx\<lparr>md_buffer := buf\<rparr>)
      } else do {
        buf \<leftarrow> memcpy_at (md_buffer ctx) 0 data;
        Some (ctx\<lparr>md_buffer := buf\<rparr>)
      })"

definition PHP_MD5Update :: "PHP_MD5_CTX \<Rightarrow> byte list \<Rightarrow> PHP_MD5_CTX option" where
  "PHP_MD5Update ctx data =
     (let size = of_nat (length data) :: 32 word;
          saved_lo = md_lo ctx;
          ctx = ctx\<lparr>md_lo := (saved_lo + size) AND 0x1fffffff\<rparr>;
          ctx = (if md_lo ctx < saved_lo then ctx\<lparr>md_hi := md_hi ctx + 1\<rparr> else ctx);
          ctx = ctx\<lparr>md_hi := md_hi ctx + drop_bit 29 size\<rparr>;
          used = saved_lo AND 0x3f
      in if used \<noteq> 0 then
           (let free = 64 - used in
            if size < free then do {
              buf \<leftarrow> memcpy_at (md_buffer ctx) (unat used) data;
              Some (ctx\<lparr>md_buffer := buf\<rparr>)
            } else do {
              buf \<leftarrow> memcpy_at (md_buffer ctx) (unat used) (take (unat free) data);
              ctx \<leftarrow> body (ctx\<lparr>md_buffer := buf\<rparr>) buf;
              md5_tail ctx (drop (unat free) data)
            })
         else md5_tail ctx data)"

definition PHP_MD5Final :: "PHP_MD5_CTX \<Rightarrow> (byte list \<times> PHP_MD5_CTX) option" where
  "PHP_MD5Final ctx = do {
     let used = unat (md_lo ctx AND 0x3f);
     buf \<leftarrow> memcpy_at (md_buffer ctx) used [0x80];
     let used = used + 1;
     let free = 64 - used;
     (ctx, buf, used, free) \<leftarrow> (if free < 8 then do {
         buf \<leftarrow> memset_at buf used 0 free;
         ctx \<leftarrow> body (ctx\<lparr>md_buffer := buf\<rparr>) buf;
         Some (ctx, buf, 0, 64)
       } else Some (ctx, buf, used, free));
     buf \<leftarrow> memset_at buf used 0 (free - 8);
     let ctx = ctx\<lparr>md_lo := push_bit 3 (md_lo ctx)\<rparr>;
     buf \<leftarrow> memcpy_at buf 56 (le32 (md_lo ctx));
     buf \<leftarrow> memcpy_at buf 60 (le32 (md_hi ctx));
     ctx \<leftarrow> body (ctx\<lparr>md_buffer := buf\<rparr>) buf;
     Some (le32 (md_a ctx) @ le32 (md_b ctx) @ le32 (md_c ctx) @ le32 (md_d ctx),
       \<lparr>md_lo = 0, md_hi = 0, md_a = 0, md_b = 0, md_c = 0, md_d = 0, md_buffer = replicate 64 0, md_block = replicate 16 0\<rparr>)
   }"

subsection \<open>The functions of a script\<close>

definition hexits :: string where
  "hexits = ''0123456789abcdef''"

text \<open>The terminating zero is left out.\<close>

primrec make_digest_ex :: "byte list \<Rightarrow> string" where
  "make_digest_ex [] = []"
| "make_digest_ex (x # xs) = hexits ! unat (drop_bit 4 x) # hexits ! unat (x AND 0x0F) # make_digest_ex xs"

definition make_digest :: "byte list \<Rightarrow> string" where
  "make_digest digest = make_digest_ex (take 16 digest)"

text \<open>The context is a local variable, whose first contents are arbitrary.\<close>

datatype digest_result = Raw "byte list" | Hex string | DigestFalse

definition php_if_md5 :: "PHP_MD5_CTX \<Rightarrow> byte list \<Rightarrow> bool \<Rightarrow> digest_result option" where
  "php_if_md5 context arg raw_output = do {
     context \<leftarrow> PHP_MD5Update (PHP_MD5Init context) arg;
     (digest, context) \<leftarrow> PHP_MD5Final context;
     Some (if raw_output then Raw digest else Hex (make_digest_ex digest))
   }"

text \<open>
  The stream layer is a parameter: \<open>None\<close> when the file cannot be opened, otherwise the results of
  the successive reads with a positive length and whether the last read failed.
\<close>

definition php_if_md5_file :: "PHP_MD5_CTX \<Rightarrow> (byte list list \<times> bool) option \<Rightarrow> bool \<Rightarrow> digest_result option" where
  "php_if_md5_file context stream raw_output = (case stream of
     None \<Rightarrow> Some DigestFalse
   | Some (reads, failed) \<Rightarrow> do {
       context \<leftarrow> updates PHP_MD5Update reads (PHP_MD5Init context);
       (digest, context) \<leftarrow> PHP_MD5Final context;
       Some (if failed then DigestFalse else if raw_output then Raw digest else Hex (make_digest_ex digest))
     })"

end
