(* ===== verification/Sha1.thy ===== *)
theory Sha1
  imports Md_Digest Md5
begin

text \<open>
  The model of \<open>ext/standard/sha1.c\<close>.  The message schedule lives in the 16 words \<open>x\<close>, which the
  macro \<open>W\<close> overwrites as it computes; the update and the finalization are those of
  \<open>digest_update\<close> and \<open>digest_final\<close> for this transformation.
\<close>

type_synonym PHP_SHA1_CTX = "32 word digest_ctx"
type_synonym sha1_regs = "32 word \<times> 32 word \<times> 32 word \<times> 32 word \<times> 32 word \<times> 32 word list"

definition SHA1_F :: "32 word \<Rightarrow> 32 word \<Rightarrow> 32 word \<Rightarrow> 32 word" where
  "SHA1_F x y z = z XOR (x AND (y XOR z))"

definition SHA1_G :: "32 word \<Rightarrow> 32 word \<Rightarrow> 32 word \<Rightarrow> 32 word" where
  "SHA1_G x y z = x XOR y XOR z"

definition SHA1_H :: "32 word \<Rightarrow> 32 word \<Rightarrow> 32 word \<Rightarrow> 32 word" where
  "SHA1_H x y z = (x AND y) OR (z AND (x OR y))"

definition SHA1_I :: "32 word \<Rightarrow> 32 word \<Rightarrow> 32 word \<Rightarrow> 32 word" where
  "SHA1_I x y z = x XOR y XOR z"

definition ROTATE_LEFT :: "32 word \<Rightarrow> nat \<Rightarrow> 32 word" where
  "ROTATE_LEFT x n = push_bit n x OR drop_bit (32 - n) x"

text \<open>\<open>W(i)\<close> stores the new word in the schedule and returns it; \<open>i\<close> is at least 16.\<close>

definition W :: "32 word list \<Rightarrow> nat \<Rightarrow> 32 word list \<times> 32 word" where
  "W x i = (let tmp = x ! ((i - 3) mod 16) XOR x ! ((i - 8) mod 16) XOR x ! ((i - 14) mod 16) XOR x ! (i mod 16);
                w = ROTATE_LEFT tmp 1
            in (x[i mod 16 := w], w))"

text \<open>The new values of \<open>e\<close> and \<open>b\<close>.\<close>

definition FF :: "32 word \<Rightarrow> 32 word \<Rightarrow> 32 word \<Rightarrow> 32 word \<Rightarrow> 32 word \<Rightarrow> 32 word \<Rightarrow> 32 word \<times> 32 word" where
  "FF a b c d e w = (let e = e + (SHA1_F b c d + w + 0x5A827999); e = e + ROTATE_LEFT a 5 in (e, ROTATE_LEFT b 30))"

definition GG :: "32 word \<Rightarrow> 32 word \<Rightarrow> 32 word \<Rightarrow> 32 word \<Rightarrow> 32 word \<Rightarrow> 32 word \<Rightarrow> 32 word \<times> 32 word" where
  "GG a b c d e w = (let e = e + (SHA1_G b c d + w + 0x6ED9EBA1); e = e + ROTATE_LEFT a 5 in (e, ROTATE_LEFT b 30))"

definition HH :: "32 word \<Rightarrow> 32 word \<Rightarrow> 32 word \<Rightarrow> 32 word \<Rightarrow> 32 word \<Rightarrow> 32 word \<Rightarrow> 32 word \<times> 32 word" where
  "HH a b c d e w = (let e = e + (SHA1_H b c d + w + 0x8F1BBCDC); e = e + ROTATE_LEFT a 5 in (e, ROTATE_LEFT b 30))"

definition II :: "32 word \<Rightarrow> 32 word \<Rightarrow> 32 word \<Rightarrow> 32 word \<Rightarrow> 32 word \<Rightarrow> 32 word \<Rightarrow> 32 word \<times> 32 word" where
  "II a b c d e w = (let e = e + (SHA1_I b c d + w + 0xCA62C1D6); e = e + ROTATE_LEFT a 5 in (e, ROTATE_LEFT b 30))"

definition SHA1Decode :: "byte list \<Rightarrow> nat \<Rightarrow> 32 word list" where
  "SHA1Decode input len = map (\<lambda>i. let j = 4 * i in ucast (input ! (j + 3)) OR push_bit 8 (ucast (input ! (j + 2))) OR
     push_bit 16 (ucast (input ! (j + 1))) OR push_bit 24 (ucast (input ! j))) [0..<len div 4]"

definition SHA1Encode :: "32 word list \<Rightarrow> nat \<Rightarrow> byte list" where
  "SHA1Encode input len = concat (map (\<lambda>i. be32 (input ! i)) [0..<len div 4])"

definition sha1_round1 :: "sha1_regs \<Rightarrow> sha1_regs" where
  "sha1_round1 r = (let (a, b, c, d, e, x) = r;
       (e, b) = FF a b c d e (x ! 0);
       (d, a) = FF e a b c d (x ! 1);
       (c, e) = FF d e a b c (x ! 2);
       (b, d) = FF c d e a b (x ! 3);
       (a, c) = FF b c d e a (x ! 4);
       (e, b) = FF a b c d e (x ! 5);
       (d, a) = FF e a b c d (x ! 6);
       (c, e) = FF d e a b c (x ! 7);
       (b, d) = FF c d e a b (x ! 8);
       (a, c) = FF b c d e a (x ! 9);
       (e, b) = FF a b c d e (x ! 10);
       (d, a) = FF e a b c d (x ! 11);
       (c, e) = FF d e a b c (x ! 12);
       (b, d) = FF c d e a b (x ! 13);
       (a, c) = FF b c d e a (x ! 14);
       (e, b) = FF a b c d e (x ! 15);
       (x, w) = W x 16; (d, a) = FF e a b c d w;
       (x, w) = W x 17; (c, e) = FF d e a b c w;
       (x, w) = W x 18; (b, d) = FF c d e a b w;
       (x, w) = W x 19; (a, c) = FF b c d e a w
     in (a, b, c, d, e, x))"

definition sha1_round2 :: "sha1_regs \<Rightarrow> sha1_regs" where
  "sha1_round2 r = (let (a, b, c, d, e, x) = r;
       (x, w) = W x 20; (e, b) = GG a b c d e w;
       (x, w) = W x 21; (d, a) = GG e a b c d w;
       (x, w) = W x 22; (c, e) = GG d e a b c w;
       (x, w) = W x 23; (b, d) = GG c d e a b w;
       (x, w) = W x 24; (a, c) = GG b c d e a w;
       (x, w) = W x 25; (e, b) = GG a b c d e w;
       (x, w) = W x 26; (d, a) = GG e a b c d w;
       (x, w) = W x 27; (c, e) = GG d e a b c w;
       (x, w) = W x 28; (b, d) = GG c d e a b w;
       (x, w) = W x 29; (a, c) = GG b c d e a w;
       (x, w) = W x 30; (e, b) = GG a b c d e w;
       (x, w) = W x 31; (d, a) = GG e a b c d w;
       (x, w) = W x 32; (c, e) = GG d e a b c w;
       (x, w) = W x 33; (b, d) = GG c d e a b w;
       (x, w) = W x 34; (a, c) = GG b c d e a w;
       (x, w) = W x 35; (e, b) = GG a b c d e w;
       (x, w) = W x 36; (d, a) = GG e a b c d w;
       (x, w) = W x 37; (c, e) = GG d e a b c w;
       (x, w) = W x 38; (b, d) = GG c d e a b w;
       (x, w) = W x 39; (a, c) = GG b c d e a w
     in (a, b, c, d, e, x))"

definition sha1_round3 :: "sha1_regs \<Rightarrow> sha1_regs" where
  "sha1_round3 r = (let (a, b, c, d, e, x) = r;
       (x, w) = W x 40; (e, b) = HH a b c d e w;
       (x, w) = W x 41; (d, a) = HH e a b c d w;
       (x, w) = W x 42; (c, e) = HH d e a b c w;
       (x, w) = W x 43; (b, d) = HH c d e a b w;
       (x, w) = W x 44; (a, c) = HH b c d e a w;
       (x, w) = W x 45; (e, b) = HH a b c d e w;
       (x, w) = W x 46; (d, a) = HH e a b c d w;
       (x, w) = W x 47; (c, e) = HH d e a b c w;
       (x, w) = W x 48; (b, d) = HH c d e a b w;
       (x, w) = W x 49; (a, c) = HH b c d e a w;
       (x, w) = W x 50; (e, b) = HH a b c d e w;
       (x, w) = W x 51; (d, a) = HH e a b c d w;
       (x, w) = W x 52; (c, e) = HH d e a b c w;
       (x, w) = W x 53; (b, d) = HH c d e a b w;
       (x, w) = W x 54; (a, c) = HH b c d e a w;
       (x, w) = W x 55; (e, b) = HH a b c d e w;
       (x, w) = W x 56; (d, a) = HH e a b c d w;
       (x, w) = W x 57; (c, e) = HH d e a b c w;
       (x, w) = W x 58; (b, d) = HH c d e a b w;
       (x, w) = W x 59; (a, c) = HH b c d e a w
     in (a, b, c, d, e, x))"

definition sha1_round4 :: "sha1_regs \<Rightarrow> sha1_regs" where
  "sha1_round4 r = (let (a, b, c, d, e, x) = r;
       (x, w) = W x 60; (e, b) = II a b c d e w;
       (x, w) = W x 61; (d, a) = II e a b c d w;
       (x, w) = W x 62; (c, e) = II d e a b c w;
       (x, w) = W x 63; (b, d) = II c d e a b w;
       (x, w) = W x 64; (a, c) = II b c d e a w;
       (x, w) = W x 65; (e, b) = II a b c d e w;
       (x, w) = W x 66; (d, a) = II e a b c d w;
       (x, w) = W x 67; (c, e) = II d e a b c w;
       (x, w) = W x 68; (b, d) = II c d e a b w;
       (x, w) = W x 69; (a, c) = II b c d e a w;
       (x, w) = W x 70; (e, b) = II a b c d e w;
       (x, w) = W x 71; (d, a) = II e a b c d w;
       (x, w) = W x 72; (c, e) = II d e a b c w;
       (x, w) = W x 73; (b, d) = II c d e a b w;
       (x, w) = W x 74; (a, c) = II b c d e a w;
       (x, w) = W x 75; (e, b) = II a b c d e w;
       (x, w) = W x 76; (d, a) = II e a b c d w;
       (x, w) = W x 77; (c, e) = II d e a b c w;
       (x, w) = W x 78; (b, d) = II c d e a b w;
       (x, w) = W x 79; (a, c) = II b c d e a w
     in (a, b, c, d, e, x))"

definition SHA1Transform :: "32 word list \<Rightarrow> byte list \<Rightarrow> 32 word list" where
  "SHA1Transform state blk =
     (let x = SHA1Decode blk 64;
          (a, b, c, d, e, x) = sha1_round4 (sha1_round3 (sha1_round2 (sha1_round1
            (state ! 0, state ! 1, state ! 2, state ! 3, state ! 4, x))))
      in [state ! 0 + a, state ! 1 + b, state ! 2 + c, state ! 3 + d, state ! 4 + e])"

definition PHP_SHA1Init :: "PHP_SHA1_CTX \<Rightarrow> PHP_SHA1_CTX" where
  "PHP_SHA1Init context = context\<lparr>dg_count0 := 0, dg_count1 := 0,
     dg_state := [0x67452301, 0xefcdab89, 0x98badcfe, 0x10325476, 0xc3d2e1f0]\<rparr>"

definition PHP_SHA1Update :: "PHP_SHA1_CTX \<Rightarrow> byte list \<Rightarrow> PHP_SHA1_CTX option" where
  "PHP_SHA1Update context input = digest_update 64 SHA1Transform context input"

text \<open>The bytes \<open>bits[0]\<close> to \<open>bits[7]\<close>: the high word first, each with its high byte first.\<close>

definition save_bits_be :: "32 word \<Rightarrow> 32 word \<Rightarrow> byte list" where
  "save_bits_be count0 count1 = be32 count1 @ be32 count0"

definition PHP_SHA1Final :: "PHP_SHA1_CTX \<Rightarrow> (byte list \<times> PHP_SHA1_CTX) option" where
  "PHP_SHA1Final context = digest_final 64 8 PHP_SHA1Update save_bits_be (\<lambda>state. SHA1Encode state 20) context"

subsection \<open>The functions of a script\<close>

definition make_sha1_digest :: "byte list \<Rightarrow> string" where
  "make_sha1_digest digest = make_digest_ex (take 20 digest)"

definition sha1 :: "PHP_SHA1_CTX \<Rightarrow> byte list \<Rightarrow> bool \<Rightarrow> digest_result option" where
  "sha1 context arg raw_output = do {
     context \<leftarrow> PHP_SHA1Update (PHP_SHA1Init context) arg;
     (digest, context) \<leftarrow> PHP_SHA1Final context;
     Some (if raw_output then Raw digest else Hex (make_digest_ex digest))
   }"

definition sha1_file :: "PHP_SHA1_CTX \<Rightarrow> (byte list list \<times> bool) option \<Rightarrow> bool \<Rightarrow> digest_result option" where
  "sha1_file context stream raw_output = (case stream of
     None \<Rightarrow> Some DigestFalse
   | Some (reads, failed) \<Rightarrow> do {
       context \<leftarrow> updates PHP_SHA1Update reads (PHP_SHA1Init context);
       (digest, context) \<leftarrow> PHP_SHA1Final context;
       Some (if failed then DigestFalse else if raw_output then Raw digest else Hex (make_digest_ex digest))
     })"

end
