(* ===== verification/Sha2.thy ===== *)
theory Sha2
  imports Md_Digest Sha1
begin

text \<open>
  The model of SHA-224, SHA-256, SHA-384 and SHA-512 of \<open>ext/hash/hash_sha.c\<close>.  SHA-224 shares the
  transformation of SHA-256 and SHA-384 that of SHA-512; the latter two count bits in two 64-bit words
  and have blocks of 128 bytes.
\<close>

type_synonym sha256_regs = "32 word \<times> 32 word \<times> 32 word \<times> 32 word \<times> 32 word \<times> 32 word \<times> 32 word \<times> 32 word"
type_synonym sha512_regs = "64 word \<times> 64 word \<times> 64 word \<times> 64 word \<times> 64 word \<times> 64 word \<times> 64 word \<times> 64 word"

definition ROTR32 :: "nat \<Rightarrow> 32 word \<Rightarrow> 32 word" where
  "ROTR32 b x = drop_bit b x OR push_bit (32 - b) x"

definition ROTR64 :: "nat \<Rightarrow> 64 word \<Rightarrow> 64 word" where
  "ROTR64 b x = drop_bit b x OR push_bit (64 - b) x"

definition SHR :: "nat \<Rightarrow> 'w::len word \<Rightarrow> 'w word" where
  "SHR b x = drop_bit b x"

definition SHADecode32 :: "byte list \<Rightarrow> nat \<Rightarrow> 32 word list" where
  "SHADecode32 input len = map (\<lambda>i. let j = 4 * i in ucast (input ! (j + 3)) OR push_bit 8 (ucast (input ! (j + 2))) OR
     push_bit 16 (ucast (input ! (j + 1))) OR push_bit 24 (ucast (input ! j))) [0..<len div 4]"

definition SHAEncode32 :: "32 word list \<Rightarrow> nat \<Rightarrow> byte list" where
  "SHAEncode32 input len = concat (map (\<lambda>i. be32 (input ! i)) [0..<len div 4])"

definition SHADecode64 :: "byte list \<Rightarrow> nat \<Rightarrow> 64 word list" where
  "SHADecode64 input len = map (\<lambda>i. let j = 8 * i in ucast (input ! (j + 7)) OR push_bit 8 (ucast (input ! (j + 6))) OR
     push_bit 16 (ucast (input ! (j + 5))) OR push_bit 24 (ucast (input ! (j + 4))) OR
     push_bit 32 (ucast (input ! (j + 3))) OR push_bit 40 (ucast (input ! (j + 2))) OR
     push_bit 48 (ucast (input ! (j + 1))) OR push_bit 56 (ucast (input ! j))) [0..<len div 8]"

definition SHAEncode64 :: "64 word list \<Rightarrow> nat \<Rightarrow> byte list" where
  "SHAEncode64 input len = concat (map (\<lambda>i. be64 (input ! i)) [0..<len div 8])"

definition save_bits_be64 :: "64 word \<Rightarrow> 64 word \<Rightarrow> byte list" where
  "save_bits_be64 count0 count1 = be64 count1 @ be64 count0"

text \<open>The macro that marks a 64-bit constant.\<close>

definition L64 :: "64 word \<Rightarrow> 64 word" where
  "L64 x = x"

subsection \<open>SHA-256 and SHA-224\<close>

definition SHA256_F0 :: "32 word \<Rightarrow> 32 word \<Rightarrow> 32 word \<Rightarrow> 32 word" where
  "SHA256_F0 x y z = (x AND y) XOR (NOT x AND z)"

definition SHA256_F1 :: "32 word \<Rightarrow> 32 word \<Rightarrow> 32 word \<Rightarrow> 32 word" where
  "SHA256_F1 x y z = (x AND y) XOR (x AND z) XOR (y AND z)"

definition SHA256_F2 :: "32 word \<Rightarrow> 32 word" where
  "SHA256_F2 x = ROTR32 2 x XOR ROTR32 13 x XOR ROTR32 22 x"

definition SHA256_F3 :: "32 word \<Rightarrow> 32 word" where
  "SHA256_F3 x = ROTR32 6 x XOR ROTR32 11 x XOR ROTR32 25 x"

definition SHA256_F4 :: "32 word \<Rightarrow> 32 word" where
  "SHA256_F4 x = ROTR32 7 x XOR ROTR32 18 x XOR SHR 3 x"

definition SHA256_F5 :: "32 word \<Rightarrow> 32 word" where
  "SHA256_F5 x = ROTR32 17 x XOR ROTR32 19 x XOR SHR 10 x"

definition SHA256_K :: "32 word list" where
  "SHA256_K = concat [
     [0x428a2f98, 0x71374491, 0xb5c0fbcf, 0xe9b5dba5, 0x3956c25b, 0x59f111f1, 0x923f82a4, 0xab1c5ed5],
     [0xd807aa98, 0x12835b01, 0x243185be, 0x550c7dc3, 0x72be5d74, 0x80deb1fe, 0x9bdc06a7, 0xc19bf174],
     [0xe49b69c1, 0xefbe4786, 0x0fc19dc6, 0x240ca1cc, 0x2de92c6f, 0x4a7484aa, 0x5cb0a9dc, 0x76f988da],
     [0x983e5152, 0xa831c66d, 0xb00327c8, 0xbf597fc7, 0xc6e00bf3, 0xd5a79147, 0x06ca6351, 0x14292967],
     [0x27b70a85, 0x2e1b2138, 0x4d2c6dfc, 0x53380d13, 0x650a7354, 0x766a0abb, 0x81c2c92e, 0x92722c85],
     [0xa2bfe8a1, 0xa81a664b, 0xc24b8b70, 0xc76c51a3, 0xd192e819, 0xd6990624, 0xf40e3585, 0x106aa070],
     [0x19a4c116, 0x1e376c08, 0x2748774c, 0x34b0bcb5, 0x391c0cb3, 0x4ed8aa4a, 0x5b9cca4f, 0x682e6ff3],
     [0x748f82ee, 0x78a5636f, 0x84c87814, 0x8cc70208, 0x90befffa, 0xa4506ceb, 0xbef9a3f7, 0xc67178f2]]"

text \<open>The loop that extends the schedule, and one pass of the loop over the rounds.\<close>

definition sha256_schedule :: "32 word list \<Rightarrow> 32 word list" where
  "sha256_schedule x = foldl (\<lambda>w i. w @ [SHA256_F5 (w ! (i - 2)) + w ! (i - 7) + SHA256_F4 (w ! (i - 15)) + w ! (i - 16)]) x [16..<64]"

definition sha256_round :: "32 word list \<Rightarrow> sha256_regs \<Rightarrow> nat \<Rightarrow> sha256_regs" where
  "sha256_round w r i = (let (a, b, c, d, e, f, g, h) = r;
       T1 = h + SHA256_F3 e + SHA256_F0 e f g + SHA256_K ! i + w ! i;
       T2 = SHA256_F2 a + SHA256_F1 a b c
     in (T1 + T2, a, b, c, d + T1, e, f, g))"

definition SHA256Transform :: "32 word list \<Rightarrow> byte list \<Rightarrow> 32 word list" where
  "SHA256Transform state blk =
     (let x = SHADecode32 blk 64;
          w = sha256_schedule x;
          (a, b, c, d, e, f, g, h) = foldl (sha256_round w)
            (state ! 0, state ! 1, state ! 2, state ! 3, state ! 4, state ! 5, state ! 6, state ! 7) [0..<64]
      in [state ! 0 + a, state ! 1 + b, state ! 2 + c, state ! 3 + d, state ! 4 + e, state ! 5 + f, state ! 6 + g, state ! 7 + h])"

definition PHP_SHA256Init :: "32 word digest_ctx \<Rightarrow> 32 word digest_ctx" where
  "PHP_SHA256Init context = context\<lparr>dg_count0 := 0, dg_count1 := 0,
     dg_state := [0x6a09e667, 0xbb67ae85, 0x3c6ef372, 0xa54ff53a,
       0x510e527f, 0x9b05688c, 0x1f83d9ab, 0x5be0cd19]\<rparr>"

definition PHP_SHA256Update :: "32 word digest_ctx \<Rightarrow> byte list \<Rightarrow> 32 word digest_ctx option" where
  "PHP_SHA256Update context input = digest_update 64 SHA256Transform context input"

definition PHP_SHA256Final :: "32 word digest_ctx \<Rightarrow> (byte list \<times> 32 word digest_ctx) option" where
  "PHP_SHA256Final context = digest_final 64 8 PHP_SHA256Update save_bits_be (\<lambda>state. SHAEncode32 state 32) context"

definition PHP_SHA224Init :: "32 word digest_ctx \<Rightarrow> 32 word digest_ctx" where
  "PHP_SHA224Init context = context\<lparr>dg_count0 := 0, dg_count1 := 0,
     dg_state := [0xc1059ed8, 0x367cd507, 0x3070dd17, 0xf70e5939,
       0xffc00b31, 0x68581511, 0x64f98fa7, 0xbefa4fa4]\<rparr>"

definition PHP_SHA224Update :: "32 word digest_ctx \<Rightarrow> byte list \<Rightarrow> 32 word digest_ctx option" where
  "PHP_SHA224Update context input = digest_update 64 SHA256Transform context input"

definition PHP_SHA224Final :: "32 word digest_ctx \<Rightarrow> (byte list \<times> 32 word digest_ctx) option" where
  "PHP_SHA224Final context = digest_final 64 8 PHP_SHA224Update save_bits_be (\<lambda>state. SHAEncode32 state 28) context"

subsection \<open>SHA-512 and SHA-384\<close>

definition SHA512_F0 :: "64 word \<Rightarrow> 64 word \<Rightarrow> 64 word \<Rightarrow> 64 word" where
  "SHA512_F0 x y z = (x AND y) XOR (NOT x AND z)"

definition SHA512_F1 :: "64 word \<Rightarrow> 64 word \<Rightarrow> 64 word \<Rightarrow> 64 word" where
  "SHA512_F1 x y z = (x AND y) XOR (x AND z) XOR (y AND z)"

definition SHA512_F2 :: "64 word \<Rightarrow> 64 word" where
  "SHA512_F2 x = ROTR64 28 x XOR ROTR64 34 x XOR ROTR64 39 x"

definition SHA512_F3 :: "64 word \<Rightarrow> 64 word" where
  "SHA512_F3 x = ROTR64 14 x XOR ROTR64 18 x XOR ROTR64 41 x"

definition SHA512_F4 :: "64 word \<Rightarrow> 64 word" where
  "SHA512_F4 x = ROTR64 1 x XOR ROTR64 8 x XOR SHR 7 x"

definition SHA512_F5 :: "64 word \<Rightarrow> 64 word" where
  "SHA512_F5 x = ROTR64 19 x XOR ROTR64 61 x XOR SHR 6 x"

definition SHA512_K :: "64 word list" where
  "SHA512_K = concat [
     [L64 0x428a2f98d728ae22, L64 0x7137449123ef65cd, L64 0xb5c0fbcfec4d3b2f, L64 0xe9b5dba58189dbbc],
     [L64 0x3956c25bf348b538, L64 0x59f111f1b605d019, L64 0x923f82a4af194f9b, L64 0xab1c5ed5da6d8118],
     [L64 0xd807aa98a3030242, L64 0x12835b0145706fbe, L64 0x243185be4ee4b28c, L64 0x550c7dc3d5ffb4e2],
     [L64 0x72be5d74f27b896f, L64 0x80deb1fe3b1696b1, L64 0x9bdc06a725c71235, L64 0xc19bf174cf692694],
     [L64 0xe49b69c19ef14ad2, L64 0xefbe4786384f25e3, L64 0x0fc19dc68b8cd5b5, L64 0x240ca1cc77ac9c65],
     [L64 0x2de92c6f592b0275, L64 0x4a7484aa6ea6e483, L64 0x5cb0a9dcbd41fbd4, L64 0x76f988da831153b5],
     [L64 0x983e5152ee66dfab, L64 0xa831c66d2db43210, L64 0xb00327c898fb213f, L64 0xbf597fc7beef0ee4],
     [L64 0xc6e00bf33da88fc2, L64 0xd5a79147930aa725, L64 0x06ca6351e003826f, L64 0x142929670a0e6e70],
     [L64 0x27b70a8546d22ffc, L64 0x2e1b21385c26c926, L64 0x4d2c6dfc5ac42aed, L64 0x53380d139d95b3df],
     [L64 0x650a73548baf63de, L64 0x766a0abb3c77b2a8, L64 0x81c2c92e47edaee6, L64 0x92722c851482353b],
     [L64 0xa2bfe8a14cf10364, L64 0xa81a664bbc423001, L64 0xc24b8b70d0f89791, L64 0xc76c51a30654be30],
     [L64 0xd192e819d6ef5218, L64 0xd69906245565a910, L64 0xf40e35855771202a, L64 0x106aa07032bbd1b8],
     [L64 0x19a4c116b8d2d0c8, L64 0x1e376c085141ab53, L64 0x2748774cdf8eeb99, L64 0x34b0bcb5e19b48a8],
     [L64 0x391c0cb3c5c95a63, L64 0x4ed8aa4ae3418acb, L64 0x5b9cca4f7763e373, L64 0x682e6ff3d6b2b8a3],
     [L64 0x748f82ee5defb2fc, L64 0x78a5636f43172f60, L64 0x84c87814a1f0ab72, L64 0x8cc702081a6439ec],
     [L64 0x90befffa23631e28, L64 0xa4506cebde82bde9, L64 0xbef9a3f7b2c67915, L64 0xc67178f2e372532b],
     [L64 0xca273eceea26619c, L64 0xd186b8c721c0c207, L64 0xeada7dd6cde0eb1e, L64 0xf57d4f7fee6ed178],
     [L64 0x06f067aa72176fba, L64 0x0a637dc5a2c898a6, L64 0x113f9804bef90dae, L64 0x1b710b35131c471b],
     [L64 0x28db77f523047d84, L64 0x32caab7b40c72493, L64 0x3c9ebe0a15c9bebc, L64 0x431d67c49c100d4c],
     [L64 0x4cc5d4becb3e42b6, L64 0x597f299cfc657e2a, L64 0x5fcb6fab3ad6faec, L64 0x6c44198c4a475817]]"

text \<open>The loop that extends the schedule, and one pass of the loop over the rounds.\<close>

definition sha512_schedule :: "64 word list \<Rightarrow> 64 word list" where
  "sha512_schedule x = foldl (\<lambda>w i. w @ [SHA512_F5 (w ! (i - 2)) + w ! (i - 7) + SHA512_F4 (w ! (i - 15)) + w ! (i - 16)]) x [16..<80]"

definition sha512_round :: "64 word list \<Rightarrow> sha512_regs \<Rightarrow> nat \<Rightarrow> sha512_regs" where
  "sha512_round w r i = (let (a, b, c, d, e, f, g, h) = r;
       T1 = h + SHA512_F3 e + SHA512_F0 e f g + SHA512_K ! i + w ! i;
       T2 = SHA512_F2 a + SHA512_F1 a b c
     in (T1 + T2, a, b, c, d + T1, e, f, g))"

definition SHA512Transform :: "64 word list \<Rightarrow> byte list \<Rightarrow> 64 word list" where
  "SHA512Transform state blk =
     (let x = SHADecode64 blk 128;
          w = sha512_schedule x;
          (a, b, c, d, e, f, g, h) = foldl (sha512_round w)
            (state ! 0, state ! 1, state ! 2, state ! 3, state ! 4, state ! 5, state ! 6, state ! 7) [0..<80]
      in [state ! 0 + a, state ! 1 + b, state ! 2 + c, state ! 3 + d, state ! 4 + e, state ! 5 + f, state ! 6 + g, state ! 7 + h])"

definition PHP_SHA512Init :: "64 word digest_ctx \<Rightarrow> 64 word digest_ctx" where
  "PHP_SHA512Init context = context\<lparr>dg_count0 := 0, dg_count1 := 0,
     dg_state := [L64 0x6a09e667f3bcc908, L64 0xbb67ae8584caa73b, L64 0x3c6ef372fe94f82b, L64 0xa54ff53a5f1d36f1,
       L64 0x510e527fade682d1, L64 0x9b05688c2b3e6c1f, L64 0x1f83d9abfb41bd6b, L64 0x5be0cd19137e2179]\<rparr>"

definition PHP_SHA512Update :: "64 word digest_ctx \<Rightarrow> byte list \<Rightarrow> 64 word digest_ctx option" where
  "PHP_SHA512Update context input = digest_update 128 SHA512Transform context input"

definition PHP_SHA512Final :: "64 word digest_ctx \<Rightarrow> (byte list \<times> 64 word digest_ctx) option" where
  "PHP_SHA512Final context = digest_final 128 16 PHP_SHA512Update save_bits_be64 (\<lambda>state. SHAEncode64 state 64) context"

definition PHP_SHA384Init :: "64 word digest_ctx \<Rightarrow> 64 word digest_ctx" where
  "PHP_SHA384Init context = context\<lparr>dg_count0 := 0, dg_count1 := 0,
     dg_state := [L64 0xcbbb9d5dc1059ed8, L64 0x629a292a367cd507, L64 0x9159015a3070dd17, L64 0x152fecd8f70e5939,
       L64 0x67332667ffc00b31, L64 0x8eb44a8768581511, L64 0xdb0c2e0d64f98fa7, L64 0x47b5481dbefa4fa4]\<rparr>"

definition PHP_SHA384Update :: "64 word digest_ctx \<Rightarrow> byte list \<Rightarrow> 64 word digest_ctx option" where
  "PHP_SHA384Update context input = digest_update 128 SHA512Transform context input"

definition PHP_SHA384Final :: "64 word digest_ctx \<Rightarrow> (byte list \<times> 64 word digest_ctx) option" where
  "PHP_SHA384Final context = digest_final 128 16 PHP_SHA384Update save_bits_be64 (\<lambda>state. SHAEncode64 state 48) context"

end
