(* ===== verification/Digest_Standards.thy ===== *)
theory Digest_Standards
  imports Bytes
begin

text \<open>
  The digests as their standards define them, written without reference to the sources: MD5 after RFC 1321, SHA-1, SHA-224,
  SHA-256, SHA-384 and SHA-512 after FIPS 180-4.  Numbers and bytes are related by base 256, the message is padded as a whole, the
  schedules are recurrences, and the constants of FIPS 180-4 are computed as the roots of the primes.
\<close>

subsection \<open>Numbers and bytes\<close>

definition be_bytes :: "nat \<Rightarrow> nat \<Rightarrow> byte list" where
  "be_bytes k n = map (\<lambda>i. of_nat (n div 256 ^ i)) (rev [0..<k])"

definition le_bytes :: "nat \<Rightarrow> nat \<Rightarrow> byte list" where
  "le_bytes k n = map (\<lambda>i. of_nat (n div 256 ^ i)) [0..<k]"

definition be_val :: "byte list \<Rightarrow> nat" where
  "be_val = foldl (\<lambda>n b. 256 * n + unat b) 0"

definition le_val :: "byte list \<Rightarrow> nat" where
  "le_val bs = be_val (rev bs)"

text \<open>The \<open>n\<close> words of \<open>k\<close> bytes of a block.\<close>

definition block_words :: "(byte list \<Rightarrow> nat) \<Rightarrow> nat \<Rightarrow> nat \<Rightarrow> byte list \<Rightarrow> 'w::len word list" where
  "block_words val k n blk = map (\<lambda>i. of_nat (val (take k (drop (k * i) blk)))) [0..<n]"

text \<open>
  A one bit, the least number of zero bits that fills up the last block of \<open>B\<close> bytes, and the length in bits as \<open>L\<close> bytes.
\<close>

definition padded :: "nat \<Rightarrow> nat \<Rightarrow> (nat \<Rightarrow> nat \<Rightarrow> byte list) \<Rightarrow> byte list \<Rightarrow> byte list" where
  "padded B L bytes m = m @ [0x80] @ replicate ((B - (length m + 1 + L) mod B) mod B) 0 @ bytes L (8 * length m)"

subsection \<open>MD5\<close>

definition rfc_T :: "32 word list" where
  "rfc_T = concat [
     [0xd76aa478, 0xe8c7b756, 0x242070db, 0xc1bdceee], [0xf57c0faf, 0x4787c62a, 0xa8304613, 0xfd469501],
     [0x698098d8, 0x8b44f7af, 0xffff5bb1, 0x895cd7be], [0x6b901122, 0xfd987193, 0xa679438e, 0x49b40821],
     [0xf61e2562, 0xc040b340, 0x265e5a51, 0xe9b6c7aa], [0xd62f105d, 0x02441453, 0xd8a1e681, 0xe7d3fbc8],
     [0x21e1cde6, 0xc33707d6, 0xf4d50d87, 0x455a14ed], [0xa9e3e905, 0xfcefa3f8, 0x676f02d9, 0x8d2a4c8a],
     [0xfffa3942, 0x8771f681, 0x6d9d6122, 0xfde5380c], [0xa4beea44, 0x4bdecfa9, 0xf6bb4b60, 0xbebfbc70],
     [0x289b7ec6, 0xeaa127fa, 0xd4ef3085, 0x04881d05], [0xd9d4d039, 0xe6db99e5, 0x1fa27cf8, 0xc4ac5665],
     [0xf4292244, 0x432aff97, 0xab9423a7, 0xfc93a039], [0x655b59c3, 0x8f0ccc92, 0xffeff47d, 0x85845dd1],
     [0x6fa87e4f, 0xfe2ce6e0, 0xa3014314, 0x4e0811a1], [0xf7537e82, 0xbd3af235, 0x2ad7d2bb, 0xeb86d391]]"

definition rfc_index :: "nat \<Rightarrow> nat" where
  "rfc_index i = [i, 5 * i + 1, 3 * i + 5, 7 * i] ! (i div 16) mod 16"

definition rfc_shift :: "nat \<Rightarrow> nat" where
  "rfc_shift i = [[7, 12, 17, 22], [5, 9, 14, 20], [4, 11, 16, 23], [6, 10, 15, 21]] ! (i div 16) ! (i mod 4)"

definition rfc_fun :: "nat \<Rightarrow> 32 word \<Rightarrow> 32 word \<Rightarrow> 32 word \<Rightarrow> 32 word" where
  "rfc_fun r x y z =
     (if r = 0 then (x AND y) OR (NOT x AND z)
      else if r = 1 then (x AND z) OR (y AND NOT z)
      else if r = 2 then x XOR y XOR z
      else y XOR (x OR NOT z))"

type_synonym md5_op = "nat \<times> nat \<times> nat \<times> 32 word"

definition rfc_ops :: "md5_op list" where
  "rfc_ops = map (\<lambda>i. (i div 16, rfc_index i, rfc_shift i, rfc_T ! i)) [0..<64]"

fun rfc_step :: "32 word list \<Rightarrow> 32 word \<times> 32 word \<times> 32 word \<times> 32 word \<Rightarrow> md5_op \<Rightarrow> 32 word \<times> 32 word \<times> 32 word \<times> 32 word" where
  "rfc_step X (a, b, c, d) (r, k, s, t) = (d, b + word_rotl s (a + rfc_fun r b c d + X ! k + t), b, c)"

fun rfc_add :: "32 word \<times> 32 word \<times> 32 word \<times> 32 word \<Rightarrow> 32 word \<times> 32 word \<times> 32 word \<times> 32 word \<Rightarrow> 32 word \<times> 32 word \<times> 32 word \<times> 32 word" where
  "rfc_add (a, b, c, d) (p, q, r, s) = (a + p, b + q, c + r, d + s)"

definition rfc_block :: "32 word \<times> 32 word \<times> 32 word \<times> 32 word \<Rightarrow> byte list \<Rightarrow> 32 word \<times> 32 word \<times> 32 word \<times> 32 word" where
  "rfc_block r blk = rfc_add (foldl (rfc_step (block_words le_val 4 16 blk)) r rfc_ops) r"

fun rfc_output :: "32 word \<times> 32 word \<times> 32 word \<times> 32 word \<Rightarrow> byte list" where
  "rfc_output (a, b, c, d) = concat (map (le_bytes 4 \<circ> unat) [a, b, c, d])"

definition MD5 :: "byte list \<Rightarrow> byte list" where
  "MD5 m = rfc_output (absorb rfc_block 64 (0x67452301, 0xefcdab89, 0x98badcfe, 0x10325476) (padded 64 8 le_bytes m))"

subsection \<open>The constants of FIPS 180-4\<close>

text \<open>The integer part of the \<open>n\<close>-th root of \<open>x\<close>, one bit after the other, below \<open>2 ^ k\<close>.\<close>

primrec root_bits :: "nat \<Rightarrow> nat \<Rightarrow> nat \<Rightarrow> nat \<Rightarrow> nat" where
  "root_bits n x r 0 = r"
| "root_bits n x r (Suc k) = root_bits n x (if (r + 2 ^ k) ^ n \<le> x then r + 2 ^ k else r) k"

definition frac_root :: "nat \<Rightarrow> nat \<Rightarrow> nat \<Rightarrow> 'w::len word" where
  "frac_root n w p = of_nat (root_bits n (p * 2 ^ (n * w)) 0 (w + 6))"

text \<open>The first eighty primes.\<close>

definition primes80 :: "nat list" where
  "primes80 = [
     2, 3, 5, 7, 11, 13, 17, 19, 23, 29, 31, 37, 41, 43, 47, 53, 59, 61, 67, 71,
     73, 79, 83, 89, 97, 101, 103, 107, 109, 113, 127, 131, 137, 139, 149, 151, 157, 163, 167, 173,
     179, 181, 191, 193, 197, 199, 211, 223, 227, 229, 233, 239, 241, 251, 257, 263, 269, 271, 277, 281,
     283, 293, 307, 311, 313, 317, 331, 337, 347, 349, 353, 359, 367, 373, 379, 383, 389, 397, 401, 409]"

subsection \<open>SHA-1\<close>

text \<open>The message schedule: the words of the block, then each word from earlier ones.\<close>

definition fips_schedule :: "('w list \<Rightarrow> nat \<Rightarrow> 'w) \<Rightarrow> nat \<Rightarrow> 'w list \<Rightarrow> 'w list" where
  "fips_schedule f n M = foldl (\<lambda>w t. w @ [f w t]) M [16..<n]"

definition Ch :: "'w::len word \<Rightarrow> 'w word \<Rightarrow> 'w word \<Rightarrow> 'w word" where
  "Ch x y z = (x AND y) XOR (NOT x AND z)"

definition Maj :: "'w::len word \<Rightarrow> 'w word \<Rightarrow> 'w word \<Rightarrow> 'w word" where
  "Maj x y z = (x AND y) XOR (x AND z) XOR (y AND z)"

definition fips_f :: "nat \<Rightarrow> 32 word \<Rightarrow> 32 word \<Rightarrow> 32 word \<Rightarrow> 32 word" where
  "fips_f t x y z = (if t < 20 then Ch x y z else if 40 \<le> t \<and> t < 60 then Maj x y z else x XOR y XOR z)"

text \<open>\<open>2\<^sup>3\<^sup>0\<close> times the square roots of 2, 3, 5 and 10.\<close>

definition fips_K :: "nat \<Rightarrow> 32 word" where
  "fips_K t = of_nat (root_bits 2 ([2, 3, 5, 10] ! (t div 20) * 2 ^ 60) 0 32)"

fun fips_step :: "32 word list \<Rightarrow> 32 word \<times> 32 word \<times> 32 word \<times> 32 word \<times> 32 word \<Rightarrow> nat \<Rightarrow> 32 word \<times> 32 word \<times> 32 word \<times> 32 word \<times> 32 word" where
  "fips_step w (a, b, c, d, e) t = (word_rotl 5 a + fips_f t b c d + e + fips_K t + w ! t, a, word_rotl 30 b, c, d)"

definition fips_block :: "32 word list \<Rightarrow> byte list \<Rightarrow> 32 word list" where
  "fips_block H blk =
     (let w = fips_schedule (\<lambda>w t. word_rotl 1 (w ! (t - 3) XOR w ! (t - 8) XOR w ! (t - 14) XOR w ! (t - 16))) 80 (block_words be_val 4 16 blk);
          (a, b, c, d, e) = foldl (fips_step w) (H ! 0, H ! 1, H ! 2, H ! 3, H ! 4) [0..<80]
      in map2 (+) H [a, b, c, d, e])"

definition SHA1 :: "byte list \<Rightarrow> byte list" where
  "SHA1 m = concat (map (be_bytes 4 \<circ> unat)
     (absorb fips_block 64 [0x67452301, 0xefcdab89, 0x98badcfe, 0x10325476, 0xc3d2e1f0] (padded 64 8 be_bytes m)))"

subsection \<open>SHA-2\<close>

definition rot3 :: "nat \<Rightarrow> nat \<Rightarrow> nat \<Rightarrow> 'w::len word \<Rightarrow> 'w word" where
  "rot3 i j k x = word_rotr i x XOR word_rotr j x XOR word_rotr k x"

definition rot2 :: "nat \<Rightarrow> nat \<Rightarrow> nat \<Rightarrow> 'w::len word \<Rightarrow> 'w word" where
  "rot2 i j k x = word_rotr i x XOR word_rotr j x XOR drop_bit k x"

type_synonym 'w regs8 = "'w \<times> 'w \<times> 'w \<times> 'w \<times> 'w \<times> 'w \<times> 'w \<times> 'w"

fun fips2_step :: "('w::len word \<Rightarrow> 'w word) \<Rightarrow> ('w word \<Rightarrow> 'w word) \<Rightarrow> 'w word list \<Rightarrow> 'w word list \<Rightarrow> 'w word regs8 \<Rightarrow> nat \<Rightarrow> 'w word regs8" where
  "fips2_step S0 S1 K w (a, b, c, d, e, f, g, h) t =
     (let T1 = h + S1 e + Ch e f g + K ! t + w ! t; T2 = S0 a + Maj a b c in (T1 + T2, a, b, c, d + T1, e, f, g))"

definition fips2_block ::
  "('w::len word \<Rightarrow> 'w word) \<Rightarrow> ('w word \<Rightarrow> 'w word) \<Rightarrow> ('w word \<Rightarrow> 'w word) \<Rightarrow> ('w word \<Rightarrow> 'w word) \<Rightarrow> 'w word list \<Rightarrow>
   'w word list \<Rightarrow> byte list \<Rightarrow> 'w word list" where
  "fips2_block S0 S1 s0 s1 K H blk =
     (let w = fips_schedule (\<lambda>w t. s1 (w ! (t - 2)) + w ! (t - 7) + s0 (w ! (t - 15)) + w ! (t - 16)) (length K)
            (block_words be_val (LENGTH('w) div 8) 16 blk);
          (a, b, c, d, e, f, g, h) = foldl (fips2_step S0 S1 K w) (H ! 0, H ! 1, H ! 2, H ! 3, H ! 4, H ! 5, H ! 6, H ! 7) [0..<length K]
      in map2 (+) H [a, b, c, d, e, f, g, h])"

definition fips_K256 :: "32 word list" where
  "fips_K256 = map (frac_root 3 32) (take 64 primes80)"

definition fips_K512 :: "64 word list" where
  "fips_K512 = map (frac_root 3 64) primes80"

definition fips_block256 :: "32 word list \<Rightarrow> byte list \<Rightarrow> 32 word list" where
  "fips_block256 = fips2_block (rot3 2 13 22) (rot3 6 11 25) (rot2 7 18 3) (rot2 17 19 10) fips_K256"

definition fips_block512 :: "64 word list \<Rightarrow> byte list \<Rightarrow> 64 word list" where
  "fips_block512 = fips2_block (rot3 28 34 39) (rot3 14 18 41) (rot2 1 8 7) (rot2 19 61 6) fips_K512"

definition fips_H256 :: "32 word list" where
  "fips_H256 = map (frac_root 2 32) (take 8 primes80)"

definition fips_H512 :: "64 word list" where
  "fips_H512 = map (frac_root 2 64) (take 8 primes80)"

definition fips_H384 :: "64 word list" where
  "fips_H384 = map (frac_root 2 64) (take 8 (drop 8 primes80))"

text \<open>The second 32 bits of the fractional parts.\<close>

definition fips_H224 :: "32 word list" where
  "fips_H224 = map ucast fips_H384"

definition SHA256 :: "byte list \<Rightarrow> byte list" where
  "SHA256 m = concat (map (be_bytes 4 \<circ> unat) (absorb fips_block256 64 fips_H256 (padded 64 8 be_bytes m)))"

definition SHA224 :: "byte list \<Rightarrow> byte list" where
  "SHA224 m = take 28 (concat (map (be_bytes 4 \<circ> unat) (absorb fips_block256 64 fips_H224 (padded 64 8 be_bytes m))))"

definition SHA512 :: "byte list \<Rightarrow> byte list" where
  "SHA512 m = concat (map (be_bytes 8 \<circ> unat) (absorb fips_block512 128 fips_H512 (padded 128 16 be_bytes m)))"

definition SHA384 :: "byte list \<Rightarrow> byte list" where
  "SHA384 m = take 48 (concat (map (be_bytes 8 \<circ> unat) (absorb fips_block512 128 fips_H384 (padded 128 16 be_bytes m))))"

subsection \<open>A digest as a script sees it\<close>

definition hex_digit :: "nat \<Rightarrow> char" where
  "hex_digit n = ''0123456789abcdef'' ! n"

definition hex_string :: "byte list \<Rightarrow> string" where
  "hex_string bs = concat (map (\<lambda>b. [hex_digit (unat b div 16), hex_digit (unat b mod 16)]) bs)"

subsection \<open>Lemmas\<close>

lemma root_bits_unique:
  assumes "acc \<le> r" and "r < acc + 2 ^ k" and "r ^ n \<le> x" and "x < Suc r ^ n"
  shows "root_bits n x acc k = r"
  using assms(1,2)
proof (induction k arbitrary: acc)
  case (Suc k)
  have "(acc + 2 ^ k) ^ n \<le> x \<longleftrightarrow> acc + 2 ^ k \<le> r"
  proof
    assume le: "(acc + 2 ^ k) ^ n \<le> x"
    show "acc + 2 ^ k \<le> r"
    proof (rule ccontr)
      assume "\<not> acc + 2 ^ k \<le> r"
      then have "Suc r ^ n \<le> (acc + 2 ^ k) ^ n" by (intro power_mono) simp_all
      then show False using le assms(4) by linarith
    qed
  next
    assume "acc + 2 ^ k \<le> r"
    then have "(acc + 2 ^ k) ^ n \<le> r ^ n" by (intro power_mono) simp_all
    then show "(acc + 2 ^ k) ^ n \<le> x" using assms(3) by linarith
  qed
  then show ?case using Suc by simp
qed simp


lemma length_bytes [simp]: "length (be_bytes k n) = k" "length (le_bytes k n) = k"
  by (simp_all add: be_bytes_def le_bytes_def)

lemma absorb_cong:
  assumes "P st" and "\<And>st blk. P st \<Longrightarrow> length blk = n \<Longrightarrow> f st blk = g st blk \<and> P (g st blk)"
  shows "absorb f n st xs = absorb g n st xs \<and> P (absorb g n st xs)"
  using assms
proof (induction g n st xs rule: absorb.induct)
  case (1 g n st xs)
  show ?case
  proof (cases "n = 0 \<or> length xs < n")
    case True
    then show ?thesis using 1 by (simp add: absorb.simps)
  next
    case False
    then have "f st (take n xs) = g st (take n xs) \<and> P (g st (take n xs))" using 1 by simp
    then show ?thesis using 1 False by (simp add: absorb.simps [of _ _ _ xs])
  qed
qed

lemma byte_of_value: "byte_of w (8 * i) = of_nat (unat w div 256 ^ i)"
proof -
  have "unat (byte_of w (8 * i)) = unat w div 2 ^ (8 * i) mod 256"
    by (simp add: byte_of_def unsigned_ucast_eq unat_shift_down take_bit_eq_mod)
  also have "\<dots> = unat (of_nat (unat w div 256 ^ i) :: byte)" by (simp add: unat_of_nat power_mult)
  finally show ?thesis by (simp add: word_unat_eq_iff)
qed

lemma bytes_of_words:
  "le32 w = le_bytes 4 (unat w)" "be32 w = be_bytes 4 (unat w)" "be64 v = be_bytes 8 (unat v)" "le64 v = le_bytes 8 (unat v)"
  using byte_of_value [of w 0] byte_of_value [of w 1] byte_of_value [of w 2] byte_of_value [of w 3]
    byte_of_value [of v 0] byte_of_value [of v 1] byte_of_value [of v 2] byte_of_value [of v 3]
    byte_of_value [of v 4] byte_of_value [of v 5] byte_of_value [of v 6] byte_of_value [of v 7]
  by (simp_all add: le32_def be32_def be64_def le64_def le_bytes_def be_bytes_def upt_rec)

lemma pad_zeros:
  fixes n B L :: nat
  assumes "L < B"
  shows "(B - (n + 1 + L) mod B) mod B = (if n mod B < B - L then B - L - n mod B else 2 * B - L - n mod B) - 1"
proof -
  define u where "u = n mod B"
  have u: "u < B" "(n + 1 + L) mod B = (u + 1 + L) mod B" using assms mod_add_left_eq [of n B "1 + L"]
    by (simp_all add: u_def)
  consider "u + 1 + L < B" | "u + 1 + L = B" | "B < u + 1 + L" "u + 1 + L < 2 * B" using u(1) assms by linarith
  then show ?thesis
  proof cases
    case 3
    then have "(u + 1 + L) mod B = u + 1 + L - B" by (simp add: le_mod_geq)
    then show ?thesis using 3 u by (simp add: add.commute mult_2 flip: u_def)
  qed (use u in \<open>auto simp flip: u_def\<close>)
qed

lemma digit_low:
  fixes n b :: nat
  assumes "i < k" and "0 < b"
  shows "n mod b ^ k div b ^ i mod b = n div b ^ i mod b"
proof -
  have k: "b ^ k = b ^ i * b ^ (k - i)" using assms(1) by (simp flip: power_add)
  have "n mod b ^ k div b ^ i = n div b ^ i mod b ^ (k - i)"
    unfolding k using mod_mult2_eq [of n "b ^ i" "b ^ (k - i)"] assms(2) by simp
  moreover have "b dvd b ^ (k - i)" using assms(1) by (simp add: dvd_power)
  ultimately show ?thesis by (simp add: mod_mod_cancel)
qed

lemma bytes_low: "le_bytes k (n mod 256 ^ k) = le_bytes k n" "be_bytes k (n mod 256 ^ k) = be_bytes k n"
proof -
  have "(of_nat (n mod 256 ^ k div 256 ^ i) :: byte) = of_nat (n div 256 ^ i)" if "i < k" for i
  proof -
    have "n mod 256 ^ k div 256 ^ i mod 256 = n div 256 ^ i mod 256" using digit_low [OF that, of 256 n] by simp
    then show ?thesis by (simp add: word_unat_eq_iff unat_of_nat)
  qed
  then show "le_bytes k (n mod 256 ^ k) = le_bytes k n" "be_bytes k (n mod 256 ^ k) = be_bytes k n"
    by (auto simp: le_bytes_def be_bytes_def)
qed

lemma bytes_of_counts: "le64 (of_nat n) = le_bytes 8 n" "be64 (of_nat n) = be_bytes 8 n"
proof -
  have "unat (of_nat n :: 64 word) = n mod 256 ^ 8" by (simp only: unat_of_nat) simp
  then show "le64 (of_nat n) = le_bytes 8 n" "be64 (of_nat n) = be_bytes 8 n"
    by (simp_all only: bytes_of_words bytes_low)
qed

lemma join_byte: "push_bit 8 w OR ucast (b :: byte) = 256 * w + (of_nat (unat b) :: 'a::len word)"
proof -
  have "push_bit 8 w AND (ucast b :: 'a word) = 0" by (rule bit_word_eqI) (auto simp: bit_simps dest: bit_imp_le_length)
  then have "push_bit 8 w OR ucast b = push_bit 8 w + (ucast b :: 'a word)" by (simp add: disjunctive_add_eq_or)
  then show ?thesis by (simp add: push_bit_eq_mult mult.commute)
qed

lemma le_word4: "ucast a OR push_bit 8 (ucast b) OR push_bit 16 (ucast c) OR push_bit 24 (ucast (d :: byte)) = (of_nat (le_val [a, b, c, d]) :: 32 word)"
proof -
  have "ucast a OR push_bit 8 (ucast b) OR push_bit 16 (ucast c) OR push_bit 24 (ucast d) =
    (push_bit 8 (push_bit 8 (push_bit 8 (push_bit 8 0 OR ucast d) OR ucast c) OR ucast b) OR ucast a :: 32 word)"
    by (simp add: push_bit_or or.commute or.left_commute)
  also have "\<dots> = of_nat (le_val [a, b, c, d])" unfolding join_byte by (simp add: le_val_def be_val_def)
  finally show ?thesis .
qed

lemma take_drop4: "n + 4 \<le> length xs \<Longrightarrow> take 4 (drop n xs) = [xs ! n, xs ! (n + 1), xs ! (n + 2), xs ! (n + 3)]"
  by (rule nth_equalityI) (auto simp: less_Suc_eq numeral_eq_Suc)

lemma drop_value: "drop_bit k w = (word_of_int (uint w div 2 ^ k) :: 'a::len word)"
proof -
  have "uint w div 2 ^ k = int (unat (drop_bit k w))" by (simp add: unat_shift_down zdiv_int)
  then show ?thesis by simp
qed

lemma rotl_value:
  fixes w :: "'a::len word"
  assumes "0 < s" and "s < LENGTH('a)"
  shows "word_rotl s w = word_of_int (uint w * 2 ^ s + uint w div 2 ^ (LENGTH('a) - s))"
proof -
  have "push_bit s w AND drop_bit (LENGTH('a) - s) w = 0"
    using assms by (intro bit_word_eqI) (auto simp: bit_simps dest: bit_imp_le_length)
  then have "word_rotl s w = push_bit s w + drop_bit (LENGTH('a) - s) w"
    using rotl_shifts [OF assms, of w] by (simp add: disjunctive_add_eq_or)
  moreover have "push_bit s w = word_of_int (uint w * 2 ^ s)" by (simp add: push_bit_eq_mult)
  ultimately show ?thesis by (simp add: drop_value)
qed

lemma rotr_value:
  fixes w :: "'a::len word"
  assumes "0 < s" and "s < LENGTH('a)"
  shows "word_rotr s w = word_of_int (uint w * 2 ^ (LENGTH('a) - s) + uint w div 2 ^ s)"
  using rotl_value [of "LENGTH('a) - s" w] assms by (simp add: word_rotl_eq_word_rotr)

text \<open>Evaluation of rotations and shifts of literals; \<open>low w k\<close> is a number of \<open>w\<close> bits.\<close>

definition low :: "nat \<Rightarrow> int \<Rightarrow> int" where
  "low w k = k mod 2 ^ w"

lemma low_values [simp]: "low 32 k = k mod 4294967296" "low 64 k = k mod 18446744073709551616"
  by (simp_all add: low_def)

lemma uint_low: "uint (word_of_int k :: 'a::len word) = low LENGTH('a) k"
  by (simp add: low_def uint_word_of_int)

lemma rotl_low:
  "0 < s \<Longrightarrow> s < LENGTH('a) \<Longrightarrow> word_rotl s (word_of_int k :: 'a::len word) =
    word_of_int (low LENGTH('a) k * 2 ^ s + low LENGTH('a) k div 2 ^ (LENGTH('a) - s))"
  using rotl_value [of s "word_of_int k :: 'a word"] by (simp add: uint_low)

lemma rotr_low:
  "0 < s \<Longrightarrow> s < LENGTH('a) \<Longrightarrow> word_rotr s (word_of_int k :: 'a::len word) =
    word_of_int (low LENGTH('a) k * 2 ^ (LENGTH('a) - s) + low LENGTH('a) k div 2 ^ s)"
  using rotr_value [of s "word_of_int k :: 'a word"] by (simp add: uint_low)

lemma drop_low: "drop_bit s (word_of_int k :: 'a::len word) = word_of_int (low LENGTH('a) k div 2 ^ s)"
  by (simp add: drop_value uint_low)

lemma rot_zero: "word_rotl s 0 = (0 :: 'a::len word)" "word_rotr s 0 = (0 :: 'a::len word)"
  by (rule bit_word_eqI, simp add: bit_word_rotl_iff bit_word_rotr_iff)+

lemmas word_rot_values =
  rot_zero rotl_low [of "Suc 0" "numeral v" for v, simplified] rotl_low [of "Suc 0" "- numeral v" for v, simplified]
  rotl_low [of "numeral s" "numeral v" for s v, simplified] rotl_low [of "numeral s" "- numeral v" for s v, simplified]
  rotr_low [of "numeral s" "numeral v" for s v, simplified] rotr_low [of "numeral s" "- numeral v" for s v, simplified]
  drop_low [of "numeral s" "numeral v" for s v, simplified] drop_low [of "numeral s" "- numeral v" for s v, simplified]

lemma be_val_zeros: "be_val (replicate k 0) = 0"
  unfolding be_val_def by (induction k) simp_all

lemma take_drop8:
  "n + 8 \<le> length xs \<Longrightarrow> take 8 (drop n xs) =
    [xs ! n, xs ! (n + 1), xs ! (n + 2), xs ! (n + 3), xs ! (n + 4), xs ! (n + 5), xs ! (n + 6), xs ! (n + 7)]"
  by (rule nth_equalityI) (auto simp: less_Suc_eq numeral_eq_Suc)

lemma be_word4: "ucast d OR push_bit 8 (ucast c) OR push_bit 16 (ucast b) OR push_bit 24 (ucast (a :: byte)) = (of_nat (be_val [a, b, c, d]) :: 32 word)"
  using le_word4 [of d c b a] by (simp add: le_val_def)

lemma be_word8:
  "ucast h OR push_bit 8 (ucast g) OR push_bit 16 (ucast f) OR push_bit 24 (ucast e) OR push_bit 32 (ucast d) OR
     push_bit 40 (ucast c) OR push_bit 48 (ucast b) OR push_bit 56 (ucast (a :: byte)) = (of_nat (be_val [a, b, c, d, e, f, g, h]) :: 64 word)"
proof -
  have "ucast h OR push_bit 8 (ucast g) OR push_bit 16 (ucast f) OR push_bit 24 (ucast e) OR push_bit 32 (ucast d) OR
      push_bit 40 (ucast c) OR push_bit 48 (ucast b) OR push_bit 56 (ucast a) =
    (push_bit 8 (push_bit 8 (push_bit 8 (push_bit 8 (push_bit 8 (push_bit 8 (push_bit 8 (push_bit 8 0 OR ucast a) OR ucast b) OR ucast c)
      OR ucast d) OR ucast e) OR ucast f) OR ucast g) OR ucast h :: 64 word)"
    by (simp add: push_bit_or or.commute or.left_commute)
  also have "\<dots> = of_nat (be_val [a, b, c, d, e, f, g, h])" unfolding join_byte by (simp add: be_val_def)
  finally show ?thesis .
qed

lemma be_bytes_append: "be_bytes (j + k) n = be_bytes j (n div 256 ^ k) @ be_bytes k n"
proof -
  have "rev [0..<j + k] = map (\<lambda>i. i + k) (rev [0..<j]) @ rev [0..<k]"
    using upt_add_eq_append [of 0 k j] map_add_upt [of k j] by (simp add: add.commute flip: rev_map)
  then show ?thesis by (simp add: be_bytes_def power_add mult.commute flip: div_mult2_eq)
qed

text \<open>The fractional part \<open>k\<close> of a root, checked by taking powers.\<close>

definition is_frac_root :: "nat \<Rightarrow> nat \<Rightarrow> nat \<Rightarrow> nat \<Rightarrow> bool" where
  "is_frac_root n w p k =
     (let r = length (filter (\<lambda>q. q ^ n \<le> p) [1, 2, 3, 4, 5, 6, 7]) * 2 ^ w + k in r ^ n \<le> p * 2 ^ (n * w) \<and> p * 2 ^ (n * w) < Suc r ^ n \<and> r < 2 ^ (w + 6))"

lemma frac_root_checked:
  assumes "is_frac_root n LENGTH('w) p k"
  shows "frac_root n LENGTH('w) p = (of_nat k :: 'w::len word)"
proof -
  define r where "r = length (filter (\<lambda>q. q ^ n \<le> p) [1, 2, 3, 4, 5, 6, 7]) * 2 ^ LENGTH('w) + k"
  have "root_bits n (p * 2 ^ (n * LENGTH('w))) 0 (LENGTH('w) + 6) = r"
    by (rule root_bits_unique) (use assms in \<open>auto simp: is_frac_root_def Let_def r_def\<close>)
  then show ?thesis by (simp add: frac_root_def r_def)
qed

lemma frac_roots_checked:
  assumes "list_all2 (\<lambda>p k. is_frac_root n LENGTH('w) p (unat k)) ps (ks :: 'w::len word list)"
  shows "map (frac_root n LENGTH('w)) ps = ks"
  using assms by induction (auto simp: frac_root_checked)

lemma fips_K_values: "fips_K t = [0x5A827999, 0x6ED9EBA1, 0x8F1BBCDC, 0xCA62C1D6] ! (t div 20)" if "t < 80"
proof -
  have "root_bits 2 (2 * 2 ^ 60) 0 32 = 0x5A827999" "root_bits 2 (3 * 2 ^ 60) 0 32 = 0x6ED9EBA1"
    "root_bits 2 (5 * 2 ^ 60) 0 32 = 0x8F1BBCDC" "root_bits 2 (10 * 2 ^ 60) 0 32 = 0xCA62C1D6"
    by (intro root_bits_unique; simp)+
  moreover have "t div 20 = 0 \<or> t div 20 = 1 \<or> t div 20 = 2 \<or> t div 20 = 3" using that by auto
  ultimately show ?thesis by (auto simp: fips_K_def)
qed

subsection \<open>MD5 of a known message\<close>

lemma take_drop_split: "drop i xs = take k (drop i xs) @ drop (i + k) xs"
  by (metis append_take_drop_id drop_drop add.commute)

lemma rfc_rounds:
  "take 16 rfc_ops = [
     (0, 0, 7, 0xd76aa478), (0, 1, 12, 0xe8c7b756), (0, 2, 17, 0x242070db), (0, 3, 22, 0xc1bdceee),
     (0, 4, 7, 0xf57c0faf), (0, 5, 12, 0x4787c62a), (0, 6, 17, 0xa8304613), (0, 7, 22, 0xfd469501),
     (0, 8, 7, 0x698098d8), (0, 9, 12, 0x8b44f7af), (0, 10, 17, 0xffff5bb1), (0, 11, 22, 0x895cd7be),
     (0, 12, 7, 0x6b901122), (0, 13, 12, 0xfd987193), (0, 14, 17, 0xa679438e), (0, 15, 22, 0x49b40821)]"
  "take 16 (drop 16 rfc_ops) = [
     (1, 1, 5, 0xf61e2562), (1, 6, 9, 0xc040b340), (1, 11, 14, 0x265e5a51), (1, 0, 20, 0xe9b6c7aa),
     (1, 5, 5, 0xd62f105d), (1, 10, 9, 0x02441453), (1, 15, 14, 0xd8a1e681), (1, 4, 20, 0xe7d3fbc8),
     (1, 9, 5, 0x21e1cde6), (1, 14, 9, 0xc33707d6), (1, 3, 14, 0xf4d50d87), (1, 8, 20, 0x455a14ed),
     (1, 13, 5, 0xa9e3e905), (1, 2, 9, 0xfcefa3f8), (1, 7, 14, 0x676f02d9), (1, 12, 20, 0x8d2a4c8a)]"
  "take 16 (drop 32 rfc_ops) = [
     (2, 5, 4, 0xfffa3942), (2, 8, 11, 0x8771f681), (2, 11, 16, 0x6d9d6122), (2, 14, 23, 0xfde5380c),
     (2, 1, 4, 0xa4beea44), (2, 4, 11, 0x4bdecfa9), (2, 7, 16, 0xf6bb4b60), (2, 10, 23, 0xbebfbc70),
     (2, 13, 4, 0x289b7ec6), (2, 0, 11, 0xeaa127fa), (2, 3, 16, 0xd4ef3085), (2, 6, 23, 0x04881d05),
     (2, 9, 4, 0xd9d4d039), (2, 12, 11, 0xe6db99e5), (2, 15, 16, 0x1fa27cf8), (2, 2, 23, 0xc4ac5665)]"
  "drop 48 rfc_ops = [
     (3, 0, 6, 0xf4292244), (3, 7, 10, 0x432aff97), (3, 14, 15, 0xab9423a7), (3, 5, 21, 0xfc93a039),
     (3, 12, 6, 0x655b59c3), (3, 3, 10, 0x8f0ccc92), (3, 10, 15, 0xffeff47d), (3, 1, 21, 0x85845dd1),
     (3, 8, 6, 0x6fa87e4f), (3, 15, 10, 0xfe2ce6e0), (3, 6, 15, 0xa3014314), (3, 13, 21, 0x4e0811a1),
     (3, 4, 6, 0xf7537e82), (3, 11, 10, 0xbd3af235), (3, 2, 15, 0x2ad7d2bb), (3, 9, 21, 0xeb86d391)]"
  by code_simp+

lemma rfc_ops_split: "rfc_ops = take 16 rfc_ops @ take 16 (drop 16 rfc_ops) @ take 16 (drop 32 rfc_ops) @ drop 48 rfc_ops"
  using take_drop_split [of 0 rfc_ops 16] take_drop_split [of 16 rfc_ops 16] take_drop_split [of 32 rfc_ops 16] by simp

lemma md5_abc_words: "block_words le_val 4 16 (padded 64 8 le_bytes [97, 98, 99]) = ([0x80636261, 0, 0, 0, 0, 0, 0, 0, 0, 0, 0, 0, 0, 0, 24, 0] :: 32 word list)"
  by (simp add: padded_def le_bytes_def block_words_def le_val_def be_val_zeros upt_rec) (simp add: be_val_def)

lemma md5_abc_block:
  "rfc_block (0x67452301, 0xefcdab89, 0x98badcfe, 0x10325476) (padded 64 8 le_bytes [97, 98, 99]) = (0x98500190, 0xb04fd23c, 0x7d3f96d6, 0x727fe128)"
  unfolding rfc_block_def md5_abc_words
  by (subst rfc_ops_split, simp only: foldl_append rfc_rounds) (simp add: word_rot_values rfc_fun_def)

text \<open>The first test value of the RFC's appendix.\<close>

lemma MD5_abc: "hex_string (MD5 [97, 98, 99]) = ''900150983cd24fb0d6963f7d28e17f72''"
proof -
  have "length (padded 64 8 le_bytes [97, 98, 99]) = 64" by (simp add: padded_def le_bytes_def)
  then have "MD5 [97, 98, 99] = rfc_output (0x98500190, 0xb04fd23c, 0x7d3f96d6, 0x727fe128)"
    using md5_abc_block by (simp add: MD5_def absorb_exact_step)
  then show ?thesis by (simp add: le_bytes_def upt_rec hex_string_def hex_digit_def)
qed

end
