(* ===== verification/Md5_Spec.thy ===== *)
theory Md5_Spec
  imports Md5 Digest_Standards
begin

text \<open>
  \<open>PHP_MD5Init\<close>, \<open>PHP_MD5Update\<close> and \<open>PHP_MD5Final\<close> compute, for every way of cutting a message into
  pieces, what padding the whole message and compressing it block by block gives (\<open>md5_ref\<close>); the compression of the
  sources is that of RFC 1321, so the result is \<open>MD5\<close> of \<open>Digest_Standards\<close>.
\<close>

subsection \<open>The reference\<close>

definition md5_iv :: md5_regs where
  "md5_iv = (0x67452301, 0xefcdab89, 0x98badcfe, 0x10325476)"

text \<open>One bit, zeros up to 56 modulo 64, and the length in bits modulo \<open>2\<^sup>6\<^sup>4\<close>, low byte first.\<close>

definition md_zeros :: "nat \<Rightarrow> nat" where
  "md_zeros n = (if n mod 64 < 56 then 55 - n mod 64 else 119 - n mod 64)"

definition md5_pad :: "byte list \<Rightarrow> byte list" where
  "md5_pad m = m @ [0x80] @ replicate (md_zeros (length m)) 0 @ le64 (of_nat (8 * length m))"

definition md5_out :: "md5_regs \<Rightarrow> byte list" where
  "md5_out r = (case r of (a, b, c, d) \<Rightarrow> le32 a @ le32 b @ le32 c @ le32 d)"

definition md5_ref :: "byte list \<Rightarrow> byte list" where
  "md5_ref m = md5_out (absorb md5_compress 64 md5_iv (md5_pad m))"

subsection \<open>The compression\<close>

text \<open>The RFC's auxiliary functions and its step, with a rotation.\<close>

lemma md5_aux_rfc:
  "MD5_F x y z = (x AND y) OR (NOT x AND z)"
  "MD5_G x y z = (x AND z) OR (y AND NOT z)"
  unfolding MD5_F_def MD5_G_def by (rule bit_word_eqI, auto simp: bit_simps)+

lemma md5_step_rfc:
  assumes "0 < s" and "s < 32"
  shows "STEP f a b c d x t s = b + word_rotl s (a + f b c d + x + t)"
proof -
  have m: "(0xffffffff :: 32 word) = - 1" by (simp add: word_uint_eq_iff unsigned_minus_1_eq_mask mask_eq_exp_minus_1)
  have "v AND 0xffffffff = v" for v :: "32 word" by (simp only: m and.right_neutral)
  moreover have "push_bit s v OR drop_bit (32 - s) v = word_rotl s v" for v :: "32 word"
    using rotl_shifts [of s v] assms by simp
  ultimately show ?thesis by (simp add: STEP_def Let_def add.commute add.left_commute)
qed

text \<open>The sources' four rounds, which name the registers in turn, as a sequence of the RFC's 64 operations.\<close>

primrec md5_code_fun :: "nat \<Rightarrow> 32 word \<Rightarrow> 32 word \<Rightarrow> 32 word \<Rightarrow> 32 word" where
  "md5_code_fun 0 = MD5_F"
| "md5_code_fun (Suc r) = (if r = 0 then MD5_G else if r = 1 then MD5_H else MD5_I)"

lemma md5_code_fun: "md5_code_fun 0 = MD5_F" "md5_code_fun 1 = MD5_G" "md5_code_fun 2 = MD5_H" "md5_code_fun 3 = MD5_I"
  by (simp_all add: eval_nat_numeral)

fun md5_code_step :: "(nat \<Rightarrow> 32 word) \<Rightarrow> md5_regs \<Rightarrow> md5_op \<Rightarrow> md5_regs" where
  "md5_code_step x (a, b, c, d) (r, k, s, t) = (d, STEP (md5_code_fun r) a b c d (x k) t s, b, c)"

lemma md5_code_fold: "foldl (md5_code_step x) (a, b, c, d) ((r, k, s, t) # ops) =
    (let v = STEP (md5_code_fun r) a b c d (x k) t s in foldl (md5_code_step x) (d, v, b, c) ops)"
  by (simp add: Let_def)

lemma let_pair: "Let (a, b) f = f (a, b)"
  by simp

lemma md5_round_ops:
  "md5_round1 x r = foldl (md5_code_step x) r (take 16 rfc_ops)"
  "md5_round2 x r = foldl (md5_code_step x) r (take 16 (drop 16 rfc_ops))"
  "md5_round3 x r = foldl (md5_code_step x) r (take 16 (drop 32 rfc_ops))"
  "md5_round4 x r = foldl (md5_code_step x) r (drop 48 rfc_ops)"
  by (cases r, simp only: md5_round1_def md5_round2_def md5_round3_def md5_round4_def rfc_rounds let_pair prod.case
      md5_code_fold md5_code_fun foldl_Nil)+

lemma md5_step_ref:
  assumes "r < 4" and "0 < s" and "s < 32" and "k < 16" and "length X = 16"
  shows "md5_code_step (nth X) regs (r, k, s, t) = rfc_step X regs (r, k, s, t)"
proof -
  obtain a b c d where regs: "regs = (a, b, c, d)" by (cases regs)
  consider "r = 0" | "r = 1" | "r = 2" | "r = 3" using assms(1) by linarith
  then have "md5_code_fun r = rfc_fun r" by cases (simp_all add: fun_eq_iff md5_code_fun rfc_fun_def md5_aux_rfc MD5_H_def MD5_I_def)
  then show ?thesis by (simp add: regs md5_step_rfc [OF assms(2,3)])
qed

lemma rfc_ops_ok: "(r, k, s, t) \<in> set rfc_ops \<Longrightarrow> r < 4 \<and> 0 < s \<and> s < 32 \<and> k < 16"
proof -
  have "list_all (\<lambda>(r, k, s, t). r < 4 \<and> 0 < s \<and> s < 32 \<and> k < 16) rfc_ops" by code_simp
  then show "(r, k, s, t) \<in> set rfc_ops \<Longrightarrow> ?thesis" by (auto simp: list_all_iff)
qed

lemma md5_rounds_ops: "md5_round4 x (md5_round3 x (md5_round2 x (md5_round1 x r))) = foldl (md5_code_step x) r rfc_ops"
  unfolding md5_round_ops by (subst (5) rfc_ops_split) (simp only: foldl_append)

lemma md5_block_words: "length ptr = 64 \<Longrightarrow> map (SET ptr) [0..<16] = block_words le_val 4 16 ptr"
  unfolding SET_def block_words_def le_word4 by (auto simp: take_drop4 mult.commute)

lemma md5_compress_rfc:
  assumes "length ptr = 64"
  shows "md5_compress r ptr = rfc_block r ptr"
proof -
  let ?X = "block_words le_val 4 16 ptr :: 32 word list"
  have len: "length ?X = 16" by (simp add: block_words_def)
  have "foldl (md5_code_step (nth ?X)) r rfc_ops = foldl (rfc_step ?X) r rfc_ops"
    by (rule foldl_cong) (use md5_step_ref [OF _ _ _ _ len] rfc_ops_ok in auto)
  then show ?thesis using assms
    by (cases r) (auto simp: md5_compress_def md5_rounds_ops md5_block_words rfc_block_def Let_def split: prod.splits)
qed
subsection \<open>The context\<close>

definition md5_regs_of :: "PHP_MD5_CTX \<Rightarrow> md5_regs" where
  "md5_regs_of c = (md_a c, md_b c, md_c c, md_d c)"

definition md5_holds :: "PHP_MD5_CTX \<Rightarrow> byte list \<Rightarrow> bool" where
  "md5_holds c m \<longleftrightarrow> md5_regs_of c = absorb md5_compress 64 md5_iv m \<and>
     length (md_buffer c) = 64 \<and> take (length m mod 64) (md_buffer c) = rest_of 64 m \<and>
     unat (md_lo c) = length m mod 2 ^ 29 \<and> md_hi c = of_nat (length m div 2 ^ 29)"

lemma body_loop_ok:
  assumes "length ptr mod 64 = 0" and "ptr \<noteq> []"
  shows "\<exists>blk. body_loop r ptr = Some (absorb md5_compress 64 r ptr, blk)"
  using assms
proof (induction r ptr rule: body_loop.induct)
  case (1 r ptr)
  then have len: "64 \<le> length ptr" by (metis length_greater_0_conv mod_less not_less less_irrefl_nat)
  then have ab: "absorb md5_compress 64 r ptr = absorb md5_compress 64 (md5_compress r (take 64 ptr)) (drop 64 ptr)"
    by (subst absorb.simps) simp
  show ?case
  proof (cases "drop 64 ptr = []")
    case True
    with len ab show ?thesis by (subst body_loop.simps) (simp add: Let_def)
  next
    case False
    have "(length ptr - 64) mod 64 = 0" using "1.prems"(1) len by (metis le_mod_geq)
    then have "\<exists>blk. body_loop (md5_compress r (take 64 ptr)) (drop 64 ptr) =
        Some (absorb md5_compress 64 (md5_compress r (take 64 ptr)) (drop 64 ptr), blk)"
      using "1.IH" [OF _ refl refl refl False] len False by simp
    with len ab False show ?thesis by (subst body_loop.simps) (simp add: Let_def)
  qed
qed

lemma body_ok:
  assumes "length ptr mod 64 = 0" and "ptr \<noteq> []"
  obtains c' where "body c ptr = Some c'" and "md5_regs_of c' = absorb md5_compress 64 (md5_regs_of c) ptr"
    and "md_buffer c' = md_buffer c" and "md_lo c' = md_lo c" and "md_hi c' = md_hi c"
proof -
  obtain blk where b: "body_loop (md5_regs_of c) ptr = Some (absorb md5_compress 64 (md5_regs_of c) ptr, blk)"
    using body_loop_ok [OF assms] by blast
  obtain a b' c' d where r: "absorb md5_compress 64 (md5_regs_of c) ptr = (a, b', c', d)"
    by (cases "absorb md5_compress 64 (md5_regs_of c) ptr") blast
  let ?c = "c\<lparr>md_a := a, md_b := b', md_c := c', md_d := d, md_block := blk\<rparr>"
  have "body_loop (md_a c, md_b c, md_c c, md_d c) ptr = Some ((a, b', c', d), blk)" using b r by (simp only: md5_regs_of_def)
  then have "body c ptr = Some ?c" by (simp add: body_def)
  moreover have "md5_regs_of ?c = absorb md5_compress 64 (md5_regs_of c) ptr" unfolding r by (simp add: md5_regs_of_def)
  ultimately show thesis by (rule that) simp_all
qed

text \<open>The last part of an update: full blocks from the message, the rest to the buffer.\<close>

lemma md5_tail_ok:
  assumes len: "length data < 2 ^ 32" and buf: "length (md_buffer c) = 64"
  obtains c' where "md5_tail c data = Some c'" and "md5_regs_of c' = absorb md5_compress 64 (md5_regs_of c) data"
    and "length (md_buffer c') = 64" and "take (length data mod 64) (md_buffer c') = rest_of 64 data"
    and "md_lo c' = md_lo c" and "md_hi c' = md_hi c"
proof -
  let ?s = "of_nat (length data) :: 32 word" and ?n = "length data div 64 * 64"
  have us: "unat ?s = length data" using len by (simp add: unat_of_nat_small)
  have n: "unat (?s AND NOT 0x3f) = ?n" "unat (?s AND 0x3f) = length data mod 64"
    by (simp_all add: mask_numerals unat_and_not_mask unat_and_mask us)
  have r: "take (length data mod 64) (drop ?n data) = rest_of 64 data"
    by (simp add: rest_of_def modulo_nat_def)
  show thesis
  proof (cases "length data < 64")
    case True
    then have "\<not> 64 \<le> ?s" by (simp add: word_le_nat_alt us)
    moreover obtain b where "memcpy_at (md_buffer c) 0 data = Some b" "length b = 64" "take (length data) b = data"
      using memcpy_at_ok [of 0 data "md_buffer c"] True buf by auto
    ultimately show thesis using that [of "c\<lparr>md_buffer := b\<rparr>"] True
      by (simp add: md5_tail_def md5_regs_of_def)
  next
    case False
    then have ge: "64 \<le> ?s" by (simp add: word_le_nat_alt us)
    have ne: "take ?n data \<noteq> []" "length (take ?n data) mod 64 = 0" using False by (auto simp: div_eq_0_iff)
    obtain c1 where c1: "body c (take ?n data) = Some c1" "md5_regs_of c1 = absorb md5_compress 64 (md5_regs_of c) (take ?n data)"
      "md_buffer c1 = md_buffer c" "md_lo c1 = md_lo c" "md_hi c1 = md_hi c"
      by (rule body_ok [OF ne(2,1)])
    have lr: "length (rest_of 64 data) = length data mod 64" by simp
    obtain b where b: "memcpy_at (md_buffer c1) 0 (rest_of 64 data) = Some b" "length b = 64" "take (length data mod 64) b = rest_of 64 data"
      using memcpy_at_ok [of 0 "rest_of 64 data" "md_buffer c1"] buf c1(3) lr by auto
    have ab: "absorb md5_compress 64 (md5_regs_of c) data = absorb md5_compress 64 (md5_regs_of c) (take ?n data)"
      using absorb_append [of 64 md5_compress "md5_regs_of c" "take ?n data" "drop ?n data"] ne(2) by (simp add: rest_of_def)
    have run: "md5_tail c data = Some (c1\<lparr>md_buffer := b\<rparr>)"
      using ge c1(1) b(1) r n by (simp add: md5_tail_def Let_def)
    show thesis
      using that [OF run] b c1 ab by (simp add: md5_regs_of_def)
  qed
qed

text \<open>The counters: the low 29 bits of the length and the rest.\<close>

lemma md5_count:
  fixes lo hi :: "32 word"
  assumes lo: "unat lo = n mod 2 ^ 29" and hi: "hi = of_nat (n div 2 ^ 29)" and k: "k < 2 ^ 32"
  shows "unat ((lo + of_nat k) AND 0x1fffffff) = (n + k) mod 2 ^ 29"
    and "(if (lo + of_nat k) AND 0x1fffffff < lo then hi + 1 else hi) + drop_bit 29 (of_nat k) = of_nat ((n + k) div 2 ^ 29)"
proof -
  have "unat ((lo + of_nat k) AND 0x1fffffff) = (unat lo + k) mod 2 ^ 32 mod 2 ^ 29"
    using k by (simp only: mask_numerals unat_and_mask unat_word_ariths unat_of_nat_small) (simp add: unat_of_nat_small)
  also have "\<dots> = (unat lo + k) mod 2 ^ 29" by (simp add: mod_mod_cancel)
  also have "\<dots> = (n + k) mod 2 ^ 29" by (simp add: lo mod_simps)
  finally show l: "unat ((lo + of_nat k) AND 0x1fffffff) = (n + k) mod 2 ^ 29" .
  have d: "drop_bit 29 (of_nat k :: 32 word) = of_nat (k div 2 ^ 29)"
    by (rule word_unat_eq_iff [THEN iffD2]) (use k in \<open>simp add: unat_shift_down unat_of_nat_small less_mult_imp_div_less\<close>)
  have "(n + k) div 2 ^ 29 = n div 2 ^ 29 + k div 2 ^ 29 + (if (n + k) mod 2 ^ 29 < n mod 2 ^ 29 then 1 else 0)"
    by (rule div_add_carry) simp
  then show "(if (lo + of_nat k) AND 0x1fffffff < lo then hi + 1 else hi) + drop_bit 29 (of_nat k) = of_nat ((n + k) div 2 ^ 29)"
    unfolding d word_less_nat_alt l lo hi by simp
qed

text \<open>The context with its counters advanced, and the update after that.\<close>

definition md5_counted :: "PHP_MD5_CTX \<Rightarrow> nat \<Rightarrow> PHP_MD5_CTX" where
  "md5_counted c n = (let lo = (md_lo c + of_nat n) AND 0x1fffffff
     in c\<lparr>md_lo := lo, md_hi := (if lo < md_lo c then md_hi c + 1 else md_hi c) + drop_bit 29 (of_nat n)\<rparr>)"

lemma md5_update_eq:
  assumes "unat (md_lo c AND 0x3f) = u" and "length xs < 2 ^ 32"
  shows "PHP_MD5Update c xs =
    (if u = 0 then md5_tail (md5_counted c (length xs)) xs
     else if length xs < 64 - u then do {
       buf \<leftarrow> memcpy_at (md_buffer c) u xs; Some ((md5_counted c (length xs))\<lparr>md_buffer := buf\<rparr>) }
     else do {
       buf \<leftarrow> memcpy_at (md_buffer c) u (take (64 - u) xs);
       c' \<leftarrow> body ((md5_counted c (length xs))\<lparr>md_buffer := buf\<rparr>) buf;
       md5_tail c' (drop (64 - u) xs) })"
proof -
  let ?w = "md_lo c AND 0x3f"
  have u: "u < 64" using assms(1) unat_and_mask [of "md_lo c" 6] by (simp add: mask_numerals)
  have z: "?w = 0 \<longleftrightarrow> u = 0" using assms(1) by (simp add: unat_eq_0 [symmetric])
  have f: "unat (64 - ?w) = 64 - u" using assms(1) u by (simp add: unat_sub word_le_nat_alt)
  have lt: "(of_nat (length xs) :: 32 word) < 64 - ?w \<longleftrightarrow> length xs < 64 - u"
    using assms(2) by (simp add: word_less_nat_alt f unat_of_nat_small)
  show ?thesis unfolding PHP_MD5Update_def md5_counted_def Let_def
    using assms(1) by (simp add: z lt f)
qed

lemma md5_holds_step:
  assumes h: "md5_holds c m" and len: "length xs < 2 ^ 32"
    and "md5_regs_of c' = absorb md5_compress 64 (md5_regs_of c) (rest_of 64 m @ xs)"
    and "length (md_buffer c') = 64" and "take (length (m @ xs) mod 64) (md_buffer c') = rest_of 64 (rest_of 64 m @ xs)"
    and "md_lo c' = md_lo (md5_counted c (length xs))" and "md_hi c' = md_hi (md5_counted c (length xs))"
  shows "md5_holds c' (m @ xs)"
proof -
  have r: "md5_regs_of c = absorb md5_compress 64 md5_iv m"
    and cnt: "unat (md_lo c) = length m mod 2 ^ 29" "md_hi c = of_nat (length m div 2 ^ 29)"
    using h by (auto simp: md5_holds_def)
  show ?thesis
    using assms(3-) absorb_append [of 64 md5_compress md5_iv m xs] md5_count [OF cnt len]
    by (simp add: md5_holds_def md5_counted_def Let_def r)
qed

lemma md5_counted_simps [simp]:
  "md_buffer (md5_counted c n) = md_buffer c" "md5_regs_of (md5_counted c n) = md5_regs_of c"
  by (simp_all add: md5_counted_def md5_regs_of_def Let_def)

lemma md5_regs_of_buffer [simp]: "md5_regs_of (c\<lparr>md_buffer := b\<rparr>) = md5_regs_of c" "md5_regs_of (c\<lparr>md_lo := l\<rparr>) = md5_regs_of c"
  by (simp_all add: md5_regs_of_def)

lemma md5_update_ok:
  assumes h: "md5_holds c m" and len: "length xs < 2 ^ 32"
  shows "\<exists>c'. PHP_MD5Update c xs = Some c' \<and> md5_holds c' (m @ xs)"
proof -
  let ?u = "length m mod 64" and ?c = "md5_counted c (length xs)" and ?r = "rest_of 64 m"
  have buf: "length (md_buffer c) = 64" and tk: "take ?u (md_buffer c) = ?r" using h by (auto simp: md5_holds_def)
  have "unat (md_lo c AND 0x3f) = ?u" using h by (simp add: md5_holds_def mask_numerals unat_and_mask mod_mod_cancel)
  note upd = md5_update_eq [OF this len] and step = md5_holds_step [OF h len]
  have lr: "length ?r = ?u" by simp
  have md: "length (m @ xs) mod 64 = length (?r @ xs) mod 64" by (simp add: mod_simps)
  consider "?u = 0" | "?u \<noteq> 0" "length xs < 64 - ?u" | "?u \<noteq> 0" "64 - ?u \<le> length xs" by linarith
  then show ?thesis
  proof cases
    case 1
    then have "?r = []" by (simp flip: length_0_conv)
    moreover obtain c' where "md5_tail ?c xs = Some c'" "md5_regs_of c' = absorb md5_compress 64 (md5_regs_of ?c) xs"
      "length (md_buffer c') = 64" "take (length xs mod 64) (md_buffer c') = rest_of 64 xs" "md_lo c' = md_lo ?c" "md_hi c' = md_hi ?c"
      using md5_tail_ok [OF len, of ?c] buf by auto
    ultimately show ?thesis using step [of c'] md upd 1 by simp
  next
    case 2
    then have n: "?u + length xs \<le> length (md_buffer c)" "length (?r @ xs) < 64" using buf by simp_all
    obtain b where b: "memcpy_at (md_buffer c) ?u xs = Some b" "length b = 64" "take (?u + length xs) b = ?r @ xs"
      using memcpy_at_ok [OF n(1)] tk buf by metis
    have "md5_holds (?c\<lparr>md_buffer := b\<rparr>) (m @ xs)"
      by (rule step) (use b n(2) md in simp_all)
    then show ?thesis using upd 2 b(1) by simp
  next
    case 3
    let ?x = "take (64 - ?u) xs" and ?y = "drop (64 - ?u) xs"
    have n: "?u + length ?x = 64" using 3 by simp
    then have n': "?u + length ?x \<le> length (md_buffer c)" using buf by simp
    obtain b where b: "memcpy_at (md_buffer c) ?u ?x = Some b" "length b = length (md_buffer c)"
      "take (?u + length ?x) b = take ?u (md_buffer c) @ ?x"
      by (rule memcpy_at_ok [OF n'])
    have bx: "b = ?r @ ?x" and b2: "length b = 64" using b(2,3) buf tk unfolding n by simp_all
    then have bm: "length b mod 64 = 0" "b \<noteq> []" by auto
    obtain c1 where c1: "body (?c\<lparr>md_buffer := b\<rparr>) b = Some c1" "md5_regs_of c1 = absorb md5_compress 64 (md5_regs_of c) b"
      "md_buffer c1 = b" "md_lo c1 = md_lo ?c" "md_hi c1 = md_hi ?c"
      using body_ok [of b "?c\<lparr>md_buffer := b\<rparr>"] bm by auto
    have "length ?y < 2 ^ 32" using len by simp
    then obtain c2 where c2: "md5_tail c1 ?y = Some c2" "md5_regs_of c2 = absorb md5_compress 64 (md5_regs_of c1) ?y"
      "length (md_buffer c2) = 64" "take (length ?y mod 64) (md_buffer c2) = rest_of 64 ?y" "md_lo c2 = md_lo c1" "md_hi c2 = md_hi c1"
      using md5_tail_ok [of ?y c1] c1(3) b2 by auto
    have split: "?r @ xs = b @ ?y" using bx by simp
    have "md5_holds c2 (m @ xs)"
    proof (rule step)
      show "md5_regs_of c2 = absorb md5_compress 64 (md5_regs_of c) (?r @ xs)"
        unfolding split using c2(2) c1(2) b2 by (simp add: absorb_block absorb_exact_step)
      show "take (length (m @ xs) mod 64) (md_buffer c2) = rest_of 64 (?r @ xs)"
        unfolding md split using c2(4) b2 by (simp add: rest_of_block)
    qed (use c1 c2 in simp_all)
    then show ?thesis using upd 3 b(1) c1(1) c2(1) by simp
  qed
qed

subsection \<open>Padding\<close>

lemma md5_length_bytes:
  fixes lo hi :: "32 word"
  assumes "unat lo = n mod 2 ^ 29" and "hi = of_nat (n div 2 ^ 29)"
  shows "le32 (push_bit 3 lo) @ le32 hi = le64 (of_nat (8 * n))"
proof -
  define w :: "64 word" where "w = of_nat (8 * n)"
  have w: "unat w = 8 * n mod 2 ^ 64" unfolding w_def by (simp only: unat_of_nat) simp
  have "unat (push_bit 3 lo) = 8 * (n mod 2 ^ 29) mod 2 ^ 32" by (simp add: unat_shift_up assms(1) mult.commute)
  also have "8 * (n mod 2 ^ 29) = 8 * n mod 2 ^ 32" using mult_mod_right [of 8 n "2 ^ 29"] by simp
  also have "8 * n mod 2 ^ 32 mod 2 ^ 32 = 8 * n mod 2 ^ 64 mod (2 ^ 32 :: nat)" by (simp add: mod_mod_cancel)
  also have "\<dots> = unat (ucast w :: 32 word)" by (simp add: w unsigned_ucast_eq take_bit_eq_mod)
  finally have l: "push_bit 3 lo = ucast w" by (simp add: word_unat_eq_iff)
  have "8 * n mod 2 ^ 64 div 2 ^ 32 = 8 * n div 2 ^ 32 mod (2 ^ 32 :: nat)"
    using mod_mult2_eq [of "8 * n" "2 ^ 32" "2 ^ 32"] by simp
  also have "8 * n div 2 ^ 32 = n div 2 ^ 29" using div_mult_mult1 [of 8 n "2 ^ 29"] by simp
  finally have "unat (ucast (drop_bit 32 w) :: 32 word) = unat hi"
    by (simp add: w unsigned_ucast_eq take_bit_eq_mod unat_shift_down assms(2) unat_of_nat)
  then have "hi = ucast (drop_bit 32 w)" by (simp add: word_unat_eq_iff)
  with l show ?thesis unfolding w_def [symmetric] by (simp add: le64_halves)
qed

lemma memcpy_append:
  "i = length xs \<Longrightarrow> length src \<le> length ys \<Longrightarrow> memcpy_at (xs @ ys) i src = Some (xs @ src @ drop (length src) ys)"
  by (simp add: memcpy_at_def)

text \<open>The last block: what follows its first 56 bytes is the length.\<close>

definition md5_finish :: "PHP_MD5_CTX \<Rightarrow> byte list \<Rightarrow> (byte list \<times> PHP_MD5_CTX) option" where
  "md5_finish ctx buf = do {
     let ctx = ctx\<lparr>md_lo := push_bit 3 (md_lo ctx)\<rparr>;
     buf \<leftarrow> memcpy_at buf 56 (le32 (md_lo ctx));
     buf \<leftarrow> memcpy_at buf 60 (le32 (md_hi ctx));
     ctx \<leftarrow> body (ctx\<lparr>md_buffer := buf\<rparr>) buf;
     Some (le32 (md_a ctx) @ le32 (md_b ctx) @ le32 (md_c ctx) @ le32 (md_d ctx),
       \<lparr>md_lo = 0, md_hi = 0, md_a = 0, md_b = 0, md_c = 0, md_d = 0, md_buffer = replicate 64 0, md_block = replicate 16 0\<rparr>)
   }"

lemma md5_finish_ok:
  assumes p: "length p = 56" and t: "length t = 8" and L: "le32 (push_bit 3 (md_lo c)) @ le32 (md_hi c) = L"
  shows "\<exists>c'. md5_finish c (p @ t) = Some (md5_out (absorb md5_compress 64 (md5_regs_of c) (p @ L)), c')"
proof -
  let ?c = "c\<lparr>md_lo := push_bit 3 (md_lo c)\<rparr>" and ?l = "le32 (push_bit 3 (md_lo c))" and ?h = "le32 (md_hi c)"
  have m1: "memcpy_at (p @ t) 56 ?l = Some ((p @ ?l) @ drop 4 t)" using memcpy_append [of 56 p ?l t] p t by simp
  have m2: "memcpy_at ((p @ ?l) @ drop 4 t) 60 ?h = Some (p @ L)"
    using memcpy_append [of 60 "p @ ?l" ?h "drop 4 t"] p t L by simp
  have len: "length (p @ L) mod 64 = 0" "p @ L \<noteq> []" using p by (auto simp: L [symmetric])
  obtain c1 where c1: "body (?c\<lparr>md_buffer := p @ L\<rparr>) (p @ L) = Some c1" "md5_regs_of c1 = absorb md5_compress 64 (md5_regs_of c) (p @ L)"
    using body_ok [OF len, of "?c\<lparr>md_buffer := p @ L\<rparr>"] by auto
  have "md5_out (md5_regs_of c1) = le32 (md_a c1) @ le32 (md_b c1) @ le32 (md_c c1) @ le32 (md_d c1)"
    by (simp add: md5_out_def md5_regs_of_def)
  with m1 m2 c1 show ?thesis by (simp add: md5_finish_def Let_def)
qed

lemma md5_final_eq:
  assumes "unat (md_lo c AND 0x3f) = length r" and "md_buffer c = r @ t" and "length r + length t = 64" and "length r < 64"
  shows "PHP_MD5Final c =
    (if length r < 56 then md5_finish c ((r @ [0x80] @ replicate (55 - length r) 0) @ drop (56 - length r) t)
     else do {
       let b = r @ [0x80] @ replicate (63 - length r) 0;
       c' \<leftarrow> body (c\<lparr>md_buffer := b\<rparr>) b;
       md5_finish c' (replicate 56 0 @ drop 56 b) })"
proof -
  have m1: "memcpy_at (r @ t) (length r) [0x80] = Some ((r @ [0x80]) @ drop 1 t)"
    using memcpy_append [of "length r" r "[0x80]" t] assms(3,4) by simp
  show ?thesis
  proof (cases "length r < 56")
    case True
    have "memset_at ((r @ [0x80]) @ drop 1 t) (length r + 1) 0 (64 - (length r + 1) - 8) =
        Some ((r @ [0x80] @ replicate (55 - length r) 0) @ drop (56 - length r) t)"
      using memcpy_append [of "length r + 1" "r @ [0x80]" "replicate (55 - length r) 0" "drop 1 t"] assms(3) True
        Suc_diff_le [of "length r" 55] by (simp add: memset_at_def)
    moreover have "\<not> 63 - length r < 8" using True by linarith
    ultimately show ?thesis using True m1 assms(1,2) by (simp add: PHP_MD5Final_def md5_finish_def Let_def)
  next
    case False
    let ?b = "r @ [0x80] @ replicate (63 - length r) 0"
    have m2: "memset_at ((r @ [0x80]) @ drop 1 t) (length r + 1) 0 (64 - (length r + 1)) = Some ?b"
      using memcpy_append [of "length r + 1" "r @ [0x80]" "replicate (63 - length r) 0" "drop 1 t"] assms(3,4) False
      by (simp add: memset_at_def)
    have "memset_at ?b 0 0 (64 - 8) = Some (replicate 56 0 @ drop 56 ?b)"
      using memcpy_append [of 0 "[]" "replicate 56 0" ?b] assms(4) by (simp add: memset_at_def)
    moreover have "63 - length r < 8" using False by linarith
    ultimately show ?thesis using False m1 m2 assms(1,2) by (simp add: PHP_MD5Final_def md5_finish_def Let_def)
  qed
qed

lemma md5_final_ok:
  assumes h: "md5_holds c m"
  shows "\<exists>c'. PHP_MD5Final c = Some (md5_ref m, c')"
proof -
  let ?r = "rest_of 64 m" and ?L = "le64 (of_nat (8 * length m))" and ?u = "length m mod 64"
  have regs: "md5_regs_of c = absorb md5_compress 64 md5_iv m"
    and cnt: "unat (md_lo c) = length m mod 2 ^ 29" "md_hi c = of_nat (length m div 2 ^ 29)"
    and buf: "md_buffer c = ?r @ drop ?u (md_buffer c)" "length (md_buffer c) = 64"
    using h by (auto simp: md5_holds_def) (metis append_take_drop_id)
  have used: "unat (md_lo c AND 0x3f) = length ?r" using cnt(1) by (simp add: mask_numerals unat_and_mask mod_mod_cancel)
  note fin = md5_final_eq [OF used buf(1)] and L = md5_length_bytes [OF cnt]
  have ref: "md5_ref m = md5_out (absorb md5_compress 64 (md5_regs_of c) (?r @ [0x80] @ replicate (md_zeros (length m)) 0 @ ?L))"
    using absorb_append [of 64 md5_compress md5_iv m] regs by (simp add: md5_ref_def md5_pad_def)
  show ?thesis
  proof (cases "?u < 56")
    case True
    have "\<exists>c'. md5_finish c ((?r @ [0x80] @ replicate (55 - ?u) 0) @ drop (56 - ?u) (drop ?u (md_buffer c))) =
        Some (md5_out (absorb md5_compress 64 (md5_regs_of c) ((?r @ [0x80] @ replicate (55 - ?u) 0) @ ?L)), c')"
      by (rule md5_finish_ok [OF _ _ L]) (use True buf(2) in simp_all)
    then show ?thesis using fin True ref buf(2) by (simp add: md_zeros_def)
  next
    case False
    let ?b = "?r @ [0x80] @ replicate (63 - ?u) 0"
    have len: "length ?b mod 64 = 0" "?b \<noteq> []" "length ?b = 64" using mod_less_divisor [of 64 "length m"] by simp_all
    obtain c1 where c1: "body (c\<lparr>md_buffer := ?b\<rparr>) ?b = Some c1" "md5_regs_of c1 = absorb md5_compress 64 (md5_regs_of c) ?b"
      "md_lo c1 = md_lo c" "md_hi c1 = md_hi c"
      using body_ok [OF len(1,2), of "c\<lparr>md_buffer := ?b\<rparr>"] by auto
    have "\<exists>c'. md5_finish c1 (replicate 56 0 @ drop 56 ?b) =
        Some (md5_out (absorb md5_compress 64 (md5_regs_of c1) (replicate 56 0 @ ?L)), c')"
      by (rule md5_finish_ok) (use len L c1 in simp_all)
    moreover have "replicate (63 - ?u) 0 @ replicate 56 0 = replicate (md_zeros (length m)) (0 :: byte)"
      using False by (simp add: md_zeros_def flip: replicate_add)
    then have "?r @ [0x80] @ replicate (md_zeros (length m)) 0 @ ?L = ?b @ replicate 56 0 @ ?L" by (metis append_assoc)
    then have "md5_ref m = md5_out (absorb md5_compress 64 (md5_regs_of c1) (replicate 56 0 @ ?L))"
      using ref c1(2) len(3) absorb_block [of 64 ?b md5_compress "md5_regs_of c"] absorb_exact_step [of 64 ?b md5_compress "md5_regs_of c"] by simp
    ultimately show ?thesis using fin False c1(1) buf(2) by simp
  qed
qed

lemma md5_init_holds: "length (md_buffer c) = 64 \<Longrightarrow> md5_holds (PHP_MD5Init c) []"
  by (simp add: md5_holds_def PHP_MD5Init_def md5_regs_of_def md5_iv_def)

definition md5_ctx0 :: PHP_MD5_CTX where
  "md5_ctx0 = \<lparr>md_lo = 0, md_hi = 0, md_a = 0, md_b = 0, md_c = 0, md_d = 0, md_buffer = replicate 64 0, md_block = replicate 16 0\<rparr>"

interpretation md5: streaming_digest md5_holds "PHP_MD5Init md5_ctx0" PHP_MD5Update PHP_MD5Final md5_ref "2 ^ 32"
  by unfold_locales (auto simp: md5_ctx0_def intro: md5_init_holds md5_update_ok md5_final_ok)

subsection \<open>The digest of the RFC\<close>

lemma md5_pad_rfc: "md5_pad m = padded 64 8 le_bytes m"
proof -
  have "le64 (of_nat (8 * length m)) = le_bytes 8 (8 * length m)" by (rule bytes_of_counts)
  moreover have "md_zeros (length m) = (64 - (length m + 1 + 8) mod 64) mod 64" using pad_zeros [of 8 64 "length m"] by (auto simp: md_zeros_def)
  ultimately show ?thesis by (simp add: md5_pad_def padded_def)
qed

lemma md5_ref_rfc: "md5_ref m = MD5 m"
proof -
  have "absorb md5_compress 64 st xs = absorb rfc_block 64 st xs" for st xs
    using absorb_cong [of "\<lambda>_. True" st 64 md5_compress rfc_block xs] md5_compress_rfc by blast
  then show ?thesis
    by (cases "absorb rfc_block 64 md5_iv (padded 64 8 le_bytes m)")
      (simp add: md5_ref_def MD5_def md5_pad_rfc md5_out_def md5_iv_def bytes_of_words)
qed

lemma hex_digits: "make_digest_ex bs = hex_string bs"
proof (induction bs)
  case (Cons b bs)
  have "unat (drop_bit 4 b) = unat b div 16" "unat (b AND 0xF) = unat b mod 16"
    using unat_shift_down [of 4 b] unat_and_mask [of b 4] by (simp_all add: mask_eq_exp_minus_1)
  then show ?case using Cons by (simp add: hex_string_def hex_digit_def hexits_def)
qed (simp add: hex_string_def)

subsection \<open>Properties\<close>

text \<open>A script gets the bytes or their hexadecimal digits.\<close>

definition digest_shown :: "bool \<Rightarrow> byte list \<Rightarrow> digest_result" where
  "digest_shown raw d = (if raw then Raw d else Hex (hex_string d))"

lemma md5_script_ok:
  assumes "length (md_buffer c) = 64" and "\<forall>xs\<in>set xss. length xs < 2 ^ 32"
  shows "\<exists>c1 c2. updates PHP_MD5Update xss (PHP_MD5Init c) = Some c1 \<and> PHP_MD5Final c1 = Some (MD5 (concat xss), c2)"
proof -
  obtain c1 where c1: "updates PHP_MD5Update xss (PHP_MD5Init c) = Some c1" "md5_holds c1 (concat xss)"
    using md5.updates_hold [OF md5_init_holds [OF assms(1)] assms(2)] by auto
  with md5.fin_digest [OF c1(2)] show ?thesis by (auto simp: md5_ref_rfc)
qed

text \<open>
  C16: \<open>md5()\<close> of a string and \<open>md5_file()\<close> of a file read in pieces of at most 1024 bytes are the digest \<open>MD5\<close> of RFC 1321, for every
  message and whatever the context variable held before: \<open>MD5\<close> is written after the RFC and shares neither the padding nor the
  compression, its constants or its byte order with the model of the sources.  A read error gives \<open>false\<close>.
\<close>

theorem md5_matches_rfc:
  assumes "length (md_buffer c) = 64" and "length arg < 2 ^ 31" and "\<forall>xs\<in>set reads. length xs \<le> 1024"
  shows "php_if_md5 c arg raw = Some (digest_shown raw (MD5 arg)) \<and>
    php_if_md5_file c (Some (reads, False)) raw = Some (digest_shown raw (MD5 (concat reads))) \<and>
    php_if_md5_file c (Some (reads, True)) raw = Some DigestFalse"
proof -
  have "\<forall>xs\<in>set [arg]. length xs < 2 ^ 32" using assms(2) by simp
  from md5_script_ok [OF assms(1) this] obtain c1 c2 where
    "PHP_MD5Update (PHP_MD5Init c) arg = Some c1" "PHP_MD5Final c1 = Some (MD5 arg, c2)" by (auto split: Option.bind_splits)
  moreover have "\<forall>xs\<in>set reads. length xs < 2 ^ 32" using assms(3) by fastforce
  from md5_script_ok [OF assms(1) this] obtain d1 d2 where
    "updates PHP_MD5Update reads (PHP_MD5Init c) = Some d1" "PHP_MD5Final d1 = Some (MD5 (concat reads), d2)" by auto
  ultimately show ?thesis by (simp add: php_if_md5_def php_if_md5_file_def digest_shown_def hex_digits)
qed

text \<open>The RFC's test value for "abc".\<close>

theorem md5_matches_rfc_witness:
  "php_if_md5 md5_ctx0 [97, 98, 99] False = Some (Hex ''900150983cd24fb0d6963f7d28e17f72'') \<and>
   php_if_md5_file md5_ctx0 (Some ([[97], [98, 99]], False)) False = Some (Hex ''900150983cd24fb0d6963f7d28e17f72'')"
  using md5_matches_rfc [where c = md5_ctx0 and arg = "[97, 98, 99]" and reads = "[[97], [98, 99]]" and raw = False]
  by (simp add: md5_ctx0_def digest_shown_def MD5_abc)

end
