(* ===== verification/Sha_Spec.thy ===== *)
theory Sha_Spec
  imports Sha1 Sha2 Md5_Spec Digest_Standards
begin

text \<open>
  SHA-1 and the SHA-2 family compute the digest of the padded message for every way of cutting it into
  pieces: interpretations of \<open>streaming_digest\<close> by the shared lemmas on \<open>digest_update\<close> and
  \<open>digest_final\<close>.  The transformations, initial values, constants, padding and encodings are those of FIPS 180-4 as
  \<open>Digest_Standards\<close> states it, so the digests are \<open>SHA1\<close>, \<open>SHA224\<close>, \<open>SHA256\<close>, \<open>SHA384\<close> and \<open>SHA512\<close>.
\<close>

lemma save_bits_length [simp]: "length (save_bits_be a b) = 8" "length (save_bits_be64 c d) = 16"
  by (simp_all add: save_bits_be_def save_bits_be64_def)

text \<open>The saved bytes are the count modulo \<open>2\<^sup>6\<^sup>4\<close>, high byte first.\<close>

lemma save_bits_value: "count_words save_bits_be n = be64 (of_nat n)"
proof -
  define w :: "64 word" where "w = of_nat n"
  have w: "unat w = n mod 2 ^ 64" unfolding w_def by (simp only: unat_of_nat) simp
  have "unat (ucast w :: 32 word) = n mod 2 ^ 64 mod 2 ^ 32" by (simp add: w unsigned_ucast_eq take_bit_eq_mod)
  also have "\<dots> = unat (of_nat n :: 32 word)" by (simp add: unat_of_nat mod_mod_cancel)
  finally have l: "of_nat n = (ucast w :: 32 word)" by (simp add: word_unat_eq_iff)
  have "unat (ucast (drop_bit 32 w) :: 32 word) = n mod 2 ^ 64 div 2 ^ 32 mod 2 ^ 32"
    by (simp add: w unsigned_ucast_eq take_bit_eq_mod unat_shift_down)
  also have "n mod 2 ^ 64 div 2 ^ 32 = n div 2 ^ 32 mod (2 ^ 32 :: nat)"
    using mod_mult2_eq [of n "2 ^ 32" "2 ^ 32"] by simp
  finally have "of_nat (n div 2 ^ 32) = (ucast (drop_bit 32 w) :: 32 word)"
    by (simp add: word_unat_eq_iff unat_of_nat)
  with l show ?thesis unfolding count_words_def save_bits_be_def by (simp add: be64_halves flip: w_def)
qed

subsection \<open>Interpretations\<close>

definition sha_ctx0 :: "nat \<Rightarrow> nat \<Rightarrow> 'w::len word digest_ctx" where
  "sha_ctx0 n B = \<lparr>dg_state = replicate n 0, dg_count0 = 0, dg_count1 = 0, dg_buffer = replicate B 0\<rparr>"

definition sha1_iv :: "32 word list" where
  "sha1_iv = dg_state (PHP_SHA1Init (sha_ctx0 5 64))"

definition sha256_iv :: "32 word list" where
  "sha256_iv = dg_state (PHP_SHA256Init (sha_ctx0 8 64))"

definition sha224_iv :: "32 word list" where
  "sha224_iv = dg_state (PHP_SHA224Init (sha_ctx0 8 64))"

definition sha512_iv :: "64 word list" where
  "sha512_iv = dg_state (PHP_SHA512Init (sha_ctx0 8 128))"

definition sha384_iv :: "64 word list" where
  "sha384_iv = dg_state (PHP_SHA384Init (sha_ctx0 8 128))"

text \<open>The reference digests: pad with the count of bits, compress, encode.\<close>

definition sha1_ref :: "byte list \<Rightarrow> byte list" where
  "sha1_ref m = SHA1Encode (absorb SHA1Transform 64 sha1_iv (md_pad 64 8 (\<lambda>n. be64 (of_nat n)) m)) 20"

definition sha256_ref :: "byte list \<Rightarrow> byte list" where
  "sha256_ref m = SHAEncode32 (absorb SHA256Transform 64 sha256_iv (md_pad 64 8 (\<lambda>n. be64 (of_nat n)) m)) 32"

definition sha224_ref :: "byte list \<Rightarrow> byte list" where
  "sha224_ref m = SHAEncode32 (absorb SHA256Transform 64 sha224_iv (md_pad 64 8 (\<lambda>n. be64 (of_nat n)) m)) 28"

definition sha512_ref :: "byte list \<Rightarrow> byte list" where
  "sha512_ref m = SHAEncode64 (absorb SHA512Transform 128 sha512_iv (md_pad 128 16 (count_words save_bits_be64) m)) 64"

definition sha384_ref :: "byte list \<Rightarrow> byte list" where
  "sha384_ref m = SHAEncode64 (absorb SHA512Transform 128 sha384_iv (md_pad 128 16 (count_words save_bits_be64) m)) 48"

lemma sha_ref_eq:
  "sha1_ref = digest_ref 64 8 SHA1Transform sha1_iv save_bits_be (\<lambda>state. SHA1Encode state 20)"
  "sha256_ref = digest_ref 64 8 SHA256Transform sha256_iv save_bits_be (\<lambda>state. SHAEncode32 state 32)"
  "sha224_ref = digest_ref 64 8 SHA256Transform sha224_iv save_bits_be (\<lambda>state. SHAEncode32 state 28)"
  "sha512_ref = digest_ref 128 16 SHA512Transform sha512_iv save_bits_be64 (\<lambda>state. SHAEncode64 state 64)"
  "sha384_ref = digest_ref 128 16 SHA512Transform sha384_iv save_bits_be64 (\<lambda>state. SHAEncode64 state 48)"
  by (simp_all add: fun_eq_iff digest_ref_def sha1_ref_def sha256_ref_def sha224_ref_def sha512_ref_def sha384_ref_def
      save_bits_value [abs_def])

lemma digest_stream_32:
  fixes c :: "32 word digest_ctx"
  assumes "digest_holds 64 tr iv c m"
  shows "length xs < 2 ^ 31 \<Longrightarrow> \<exists>c'. digest_update 64 tr c xs = Some c' \<and> digest_holds 64 tr iv c' (m @ xs)"
    and "\<exists>c'. digest_final 64 8 (digest_update 64 tr) save_bits_be encode c = Some (digest_ref 64 8 tr iv save_bits_be encode m, c')"
  using digest_update_ok [OF assms, of 6] digest_final_ok [OF assms, of 6 8 save_bits_be] by simp_all

lemma digest_stream_64:
  fixes c :: "64 word digest_ctx"
  assumes "digest_holds 128 tr iv c m"
  shows "length xs < 2 ^ 31 \<Longrightarrow> \<exists>c'. digest_update 128 tr c xs = Some c' \<and> digest_holds 128 tr iv c' (m @ xs)"
    and "\<exists>c'. digest_final 128 16 (digest_update 128 tr) save_bits_be64 encode c = Some (digest_ref 128 16 tr iv save_bits_be64 encode m, c')"
  using digest_update_ok [OF assms, of 7] digest_final_ok [OF assms, of 7 16 save_bits_be64] by simp_all

lemma sha_init_holds:
  "length (dg_buffer c) = 64 \<Longrightarrow> digest_holds 64 SHA1Transform sha1_iv (PHP_SHA1Init c) []"
  "length (dg_buffer c) = 64 \<Longrightarrow> digest_holds 64 SHA256Transform sha256_iv (PHP_SHA256Init c) []"
  "length (dg_buffer c) = 64 \<Longrightarrow> digest_holds 64 SHA256Transform sha224_iv (PHP_SHA224Init c) []"
  "length (dg_buffer d) = 128 \<Longrightarrow> digest_holds 128 SHA512Transform sha512_iv (PHP_SHA512Init d) []"
  "length (dg_buffer d) = 128 \<Longrightarrow> digest_holds 128 SHA512Transform sha384_iv (PHP_SHA384Init d) []"
  by (intro digest_init_holds; simp add: PHP_SHA1Init_def PHP_SHA256Init_def PHP_SHA224Init_def PHP_SHA512Init_def PHP_SHA384Init_def
      sha1_iv_def sha256_iv_def sha224_iv_def sha512_iv_def sha384_iv_def)+

lemma sha_update_abs:
  "PHP_SHA1Update = digest_update 64 SHA1Transform" "PHP_SHA256Update = digest_update 64 SHA256Transform"
  "PHP_SHA224Update = digest_update 64 SHA256Transform" "PHP_SHA512Update = digest_update 128 SHA512Transform"
  "PHP_SHA384Update = digest_update 128 SHA512Transform"
  by (simp_all add: fun_eq_iff PHP_SHA1Update_def PHP_SHA256Update_def PHP_SHA224Update_def PHP_SHA512Update_def PHP_SHA384Update_def)

lemma length_sha_ctx0 [simp]: "length (dg_buffer (sha_ctx0 n B)) = B"
  by (simp add: sha_ctx0_def)

interpretation sha1: streaming_digest "digest_holds 64 SHA1Transform sha1_iv" "PHP_SHA1Init (sha_ctx0 5 64)"
  PHP_SHA1Update PHP_SHA1Final sha1_ref "2 ^ 31"
  by unfold_locales (auto simp: sha_update_abs sha_ref_eq PHP_SHA1Final_def intro: sha_init_holds digest_stream_32)

interpretation sha256: streaming_digest "digest_holds 64 SHA256Transform sha256_iv" "PHP_SHA256Init (sha_ctx0 8 64)"
  PHP_SHA256Update PHP_SHA256Final sha256_ref "2 ^ 31"
  by unfold_locales (auto simp: sha_update_abs sha_ref_eq PHP_SHA256Final_def intro: sha_init_holds digest_stream_32)

interpretation sha224: streaming_digest "digest_holds 64 SHA256Transform sha224_iv" "PHP_SHA224Init (sha_ctx0 8 64)"
  PHP_SHA224Update PHP_SHA224Final sha224_ref "2 ^ 31"
  by unfold_locales (auto simp: sha_update_abs sha_ref_eq PHP_SHA224Final_def intro: sha_init_holds digest_stream_32)

interpretation sha512: streaming_digest "digest_holds 128 SHA512Transform sha512_iv" "PHP_SHA512Init (sha_ctx0 8 128)"
  PHP_SHA512Update PHP_SHA512Final sha512_ref "2 ^ 31"
  by unfold_locales (auto simp: sha_update_abs sha_ref_eq PHP_SHA512Final_def intro: sha_init_holds digest_stream_64)

interpretation sha384: streaming_digest "digest_holds 128 SHA512Transform sha384_iv" "PHP_SHA384Init (sha_ctx0 8 128)"
  PHP_SHA384Update PHP_SHA384Final sha384_ref "2 ^ 31"
  by unfold_locales (auto simp: sha_update_abs sha_ref_eq PHP_SHA384Final_def intro: sha_init_holds digest_stream_64)

subsection \<open>The functions of FIPS 180-4\<close>

lemma sha_rotations:
  "0 < n \<Longrightarrow> n < 32 \<Longrightarrow> ROTATE_LEFT x n = word_rotl n x"
  "0 < n \<Longrightarrow> n < 32 \<Longrightarrow> ROTR32 n x = word_rotr n x"
  "0 < n \<Longrightarrow> n < 64 \<Longrightarrow> ROTR64 n y = word_rotr n y"
proof -
  show "0 < n \<Longrightarrow> n < 32 \<Longrightarrow> ROTATE_LEFT x n = word_rotl n x"
    using rotl_shifts [of n x] by (simp add: ROTATE_LEFT_def)
  show "0 < n \<Longrightarrow> n < 32 \<Longrightarrow> ROTR32 n x = word_rotr n x"
    using rotl_shifts [of "32 - n" x] by (simp add: ROTR32_def or.commute word_rotl_eq_word_rotr)
  show "0 < n \<Longrightarrow> n < 64 \<Longrightarrow> ROTR64 n y = word_rotr n y"
    using rotl_shifts [of "64 - n" y] by (simp add: ROTR64_def or.commute word_rotl_eq_word_rotr)
qed

lemma sha1_functions:
  "SHA1_F x y z = (x AND y) XOR (NOT x AND z)"
  "SHA1_H x y z = (x AND y) XOR (x AND z) XOR (y AND z)"
  unfolding SHA1_F_def SHA1_H_def by (rule bit_word_eqI, auto simp: bit_simps)+

text \<open>The message schedule as the standard has it, 80 words of which each depends on four earlier ones.\<close>

fun sha1_w :: "32 word list \<Rightarrow> nat \<Rightarrow> 32 word" where
  "sha1_w M t = (if t < 16 then M ! t
     else word_rotl 1 (sha1_w M (t - 3) XOR sha1_w M (t - 8) XOR sha1_w M (t - 14) XOR sha1_w M (t - 16)))"

declare sha1_w.simps [simp del]

text \<open>The sources keep the last 16 words in a ring.\<close>

definition sha1_ring :: "32 word list \<Rightarrow> nat \<Rightarrow> 32 word list \<Rightarrow> bool" where
  "sha1_ring M i x \<longleftrightarrow> length x = 16 \<and> (\<forall>t. i \<le> t + 16 \<and> t < i \<longrightarrow> x ! (t mod 16) = sha1_w M t)"

lemma sha1_ring_step:
  assumes r: "sha1_ring M i x" and i: "16 \<le> i"
  shows "\<exists>x'. W x i = (x', sha1_w M i) \<and> sha1_ring M (Suc i) x'"
proof -
  have at: "x ! (t mod 16) = sha1_w M t" if "i \<le> t + 16" "t < i" for t using r that by (simp add: sha1_ring_def)
  have m: "i mod 16 = (i - 16) mod 16" using i by (metis le_mod_geq)
  have "sha1_w M i = word_rotl 1 (x ! ((i - 3) mod 16) XOR x ! ((i - 8) mod 16) XOR x ! ((i - 14) mod 16) XOR x ! (i mod 16))"
    unfolding m using i by (subst sha1_w.simps) (simp add: at)
  then have w: "W x i = (x[i mod 16 := sha1_w M i], sha1_w M i)" by (simp add: W_def Let_def sha_rotations)
  have "sha1_ring M (Suc i) (x[i mod 16 := sha1_w M i])"
    unfolding sha1_ring_def
  proof (intro conjI allI impI)
    show "length (x[i mod 16 := sha1_w M i]) = 16" using r by (simp add: sha1_ring_def)
    fix t assume t: "Suc i \<le> t + 16 \<and> t < Suc i"
    show "x[i mod 16 := sha1_w M i] ! (t mod 16) = sha1_w M t"
    proof (cases "t = i")
      case True
      then show ?thesis using r by (simp add: sha1_ring_def)
    next
      case False
      then have lt: "t < i" "i - t < 16" using t by auto
      have "t mod 16 \<noteq> i mod 16"
      proof
        assume "t mod 16 = i mod 16"
        then have "16 dvd i - t" using lt(1) mod_eq_dvd_iff_nat [of t i 16] by simp
        then show False using lt dvd_imp_le [of 16 "i - t"] by simp
      qed
      then show ?thesis using at [of t] t False by simp
    qed
  qed
  with w show ?thesis by blast
qed

subsection \<open>The transformation of SHA-1\<close>

lemma fips_schedule_Suc: "16 \<le> n \<Longrightarrow> fips_schedule f (Suc n) M = fips_schedule f n M @ [f (fips_schedule f n M) n]"
  by (simp add: fips_schedule_def)

lemma length_fips_schedule: "16 \<le> n \<Longrightarrow> length M = 16 \<Longrightarrow> length (fips_schedule f n M) = n"
proof (induction n rule: nat_induct_at_least)
  case base
  then show ?case by (simp add: fips_schedule_def)
qed (simp add: fips_schedule_Suc)

definition sha1_schedule :: "32 word list \<Rightarrow> 32 word list" where
  "sha1_schedule = fips_schedule (\<lambda>w t. word_rotl 1 (w ! (t - 3) XOR w ! (t - 8) XOR w ! (t - 14) XOR w ! (t - 16))) 80"

lemma fips_schedule_sha1:
  assumes "16 \<le> n" and "length M = 16" and "t < n"
  shows "fips_schedule (\<lambda>w t. word_rotl 1 (w ! (t - 3) XOR w ! (t - 8) XOR w ! (t - 14) XOR w ! (t - 16))) n M ! t = sha1_w M t"
  using assms(1,3)
proof (induction n arbitrary: t rule: nat_induct_at_least)
  case base
  then show ?case by (subst sha1_w.simps) (simp add: fips_schedule_def)
next
  case (Suc n)
  let ?f = "\<lambda>w t. word_rotl 1 (w ! (t - 3) XOR w ! (t - 8) XOR w ! (t - 14) XOR w ! (t - 16))"
  have len: "length (fips_schedule ?f n M) = n" using length_fips_schedule [OF Suc.hyps assms(2)] .
  show ?case
  proof (cases "t = n")
    case True
    then show ?thesis using Suc.hyps Suc.IH len by (subst sha1_w.simps) (simp add: fips_schedule_Suc nth_append)
  next
    case False
    then show ?thesis using Suc.hyps Suc.IH [of t] Suc.prems len by (simp add: fips_schedule_Suc nth_append)
  qed
qed

lemma sha1_schedule_nth: "length M = 16 \<Longrightarrow> t < 80 \<Longrightarrow> sha1_schedule M ! t = sha1_w M t"
  unfolding sha1_schedule_def by (rule fips_schedule_sha1) simp_all

text \<open>The rounds of the sources, which name the registers in turn, as folds of one step with the registers moved.\<close>

type_synonym sha1_fun = "32 word \<Rightarrow> 32 word \<Rightarrow> 32 word \<Rightarrow> 32 word \<Rightarrow> 32 word \<Rightarrow> 32 word \<Rightarrow> 32 word \<times> 32 word"

fun sha1_read_step :: "sha1_fun \<Rightarrow> sha1_regs \<Rightarrow> nat \<Rightarrow> sha1_regs" where
  "sha1_read_step G (a, b, c, d, e, x) t = (let (e, b) = G a b c d e (x ! t) in (e, a, b, c, d, x))"

fun sha1_ring_fold :: "sha1_fun \<Rightarrow> sha1_regs \<Rightarrow> nat \<Rightarrow> sha1_regs" where
  "sha1_ring_fold G (a, b, c, d, e, x) t = (let (x, w) = W x t; (e, b) = G a b c d e w in (e, a, b, c, d, x))"

lemma sha1_read_unroll: "foldl (sha1_read_step G) (a, b, c, d, e, x) (t # ts) =
    (let (e, b) = G a b c d e (x ! t) in foldl (sha1_read_step G) (e, a, b, c, d, x) ts)"
  by (simp add: Let_def split: prod.splits)

lemma sha1_ring_unroll: "foldl (sha1_ring_fold G) (a, b, c, d, e, x) (t # ts) =
    (let (x, w) = W x t; (e, b) = G a b c d e w in foldl (sha1_ring_fold G) (e, a, b, c, d, x) ts)"
  by (simp add: Let_def split: prod.splits)

lemma sha1_fold_let: "foldl f (Let p (\<lambda>(u, v). h u v)) ts = (let (u, v) = p in foldl f (h u v) ts)"
  by (simp add: Let_def split: prod.splits)

lemma sha1_indices:
  "[0..<16] = [0, 1, 2, 3, 4, 5, 6, 7, 8, 9, 10, 11, 12, 13, 14, 15 :: nat]" "[16..<20] = [16, 17, 18, 19 :: nat]"
  "[20..<40] = [20, 21, 22, 23, 24, 25, 26, 27, 28, 29, 30, 31, 32, 33, 34, 35, 36, 37, 38, 39 :: nat]"
  "[40..<60] = [40, 41, 42, 43, 44, 45, 46, 47, 48, 49, 50, 51, 52, 53, 54, 55, 56, 57, 58, 59 :: nat]"
  "[60..<80] = [60, 61, 62, 63, 64, 65, 66, 67, 68, 69, 70, 71, 72, 73, 74, 75, 76, 77, 78, 79 :: nat]"
  by (simp_all add: upt_rec)

lemma sha1_round_folds:
  "sha1_round1 r = foldl (sha1_ring_fold FF) (foldl (sha1_read_step FF) r [0..<16]) [16..<20]"
  "sha1_round2 r = foldl (sha1_ring_fold GG) r [20..<40]"
  "sha1_round3 r = foldl (sha1_ring_fold HH) r [40..<60]"
  "sha1_round4 r = foldl (sha1_ring_fold II) r [60..<80]"
  by (cases r, simp only: sha1_round1_def sha1_round2_def sha1_round3_def sha1_round4_def sha1_indices let_pair prod.case
      sha1_read_unroll sha1_ring_unroll sha1_fold_let foldl_Nil)+

lemma sha1_step_fips:
  "t < 20 \<Longrightarrow> FF a b c d e w = (word_rotl 5 a + fips_f t b c d + e + fips_K t + w, word_rotl 30 b)"
  "20 \<le> t \<Longrightarrow> t < 40 \<Longrightarrow> GG a b c d e w = (word_rotl 5 a + fips_f t b c d + e + fips_K t + w, word_rotl 30 b)"
  "40 \<le> t \<Longrightarrow> t < 60 \<Longrightarrow> HH a b c d e w = (word_rotl 5 a + fips_f t b c d + e + fips_K t + w, word_rotl 30 b)"
  "60 \<le> t \<Longrightarrow> t < 80 \<Longrightarrow> II a b c d e w = (word_rotl 5 a + fips_f t b c d + e + fips_K t + w, word_rotl 30 b)"
proof -
  have d: "20 \<le> t \<Longrightarrow> t < 40 \<Longrightarrow> t div 20 = 1" "40 \<le> t \<Longrightarrow> t < 60 \<Longrightarrow> t div 20 = 2" "60 \<le> t \<Longrightarrow> t < 80 \<Longrightarrow> t div 20 = 3" by auto
  note defs = Let_def sha_rotations sha1_functions fips_f_def Ch_def Maj_def fips_K_values add_ac
  show "t < 20 \<Longrightarrow> FF a b c d e w = (word_rotl 5 a + fips_f t b c d + e + fips_K t + w, word_rotl 30 b)" by (simp add: FF_def defs)
  show "20 \<le> t \<Longrightarrow> t < 40 \<Longrightarrow> GG a b c d e w = (word_rotl 5 a + fips_f t b c d + e + fips_K t + w, word_rotl 30 b)"
    using d(1) by (simp add: GG_def SHA1_G_def defs)
  show "40 \<le> t \<Longrightarrow> t < 60 \<Longrightarrow> HH a b c d e w = (word_rotl 5 a + fips_f t b c d + e + fips_K t + w, word_rotl 30 b)"
    using d(2) by (simp add: HH_def defs)
  show "60 \<le> t \<Longrightarrow> t < 80 \<Longrightarrow> II a b c d e w = (word_rotl 5 a + fips_f t b c d + e + fips_K t + w, word_rotl 30 b)"
    using d(3) by (simp add: II_def SHA1_I_def defs)
qed

text \<open>A register tuple of the sources with the ring behind it.\<close>

fun with_ring :: "'a \<times> 'b \<times> 'c \<times> 'd \<times> 'e \<Rightarrow> 'x \<Rightarrow> 'a \<times> 'b \<times> 'c \<times> 'd \<times> 'e \<times> 'x" where
  "with_ring (a, b, c, d, e) x = (a, b, c, d, e, x)"

lemma sha1_read_fold:
  assumes "n \<le> 16" and "length M = 16"
    and G: "\<And>a b c d e w t. t < 20 \<Longrightarrow> G a b c d e w = (word_rotl 5 a + fips_f t b c d + e + fips_K t + w, word_rotl 30 b)"
  shows "foldl (sha1_read_step G) (with_ring r M) [0..<n] = with_ring (foldl (fips_step (sha1_schedule M)) r [0..<n]) M"
  using assms(1)
proof (induction n)
  case (Suc n)
  obtain a b c d e where f: "foldl (fips_step (sha1_schedule M)) r [0..<n] = (a, b, c, d, e)" by (cases "foldl (fips_step (sha1_schedule M)) r [0..<n]")
  have "sha1_schedule M ! n = M ! n" using Suc.prems sha1_schedule_nth [OF assms(2), of n] by (simp add: sha1_w.simps)
  then show ?case using Suc f G [of n] by simp
qed simp

lemma sha1_ring_run:
  assumes "16 \<le> i" and "i \<le> j" and "j \<le> 80" and "length M = 16" and "sha1_ring M i x"
    and G: "\<And>a b c d e w t. i \<le> t \<Longrightarrow> t < j \<Longrightarrow> G a b c d e w = (word_rotl 5 a + fips_f t b c d + e + fips_K t + w, word_rotl 30 b)"
  shows "\<exists>x'. foldl (sha1_ring_fold G) (with_ring r x) [i..<j] = with_ring (foldl (fips_step (sha1_schedule M)) r [i..<j]) x' \<and> sha1_ring M j x'"
  using assms(2,3,6)
proof (induction j rule: dec_induct)
  case base
  then show ?case using assms(5) by auto
next
  case (step j)
  then obtain x1 where x1: "foldl (sha1_ring_fold G) (with_ring r x) [i..<j] = with_ring (foldl (fips_step (sha1_schedule M)) r [i..<j]) x1" "sha1_ring M j x1"
    by (metis Suc_leD less_Suc_eq)
  obtain x2 where x2: "W x1 j = (x2, sha1_w M j)" "sha1_ring M (Suc j) x2" using sha1_ring_step [OF x1(2)] assms(1) step.hyps by auto
  obtain a b c d e where f: "foldl (fips_step (sha1_schedule M)) r [i..<j] = (a, b, c, d, e)" by (cases "foldl (fips_step (sha1_schedule M)) r [i..<j]")
  have "sha1_schedule M ! j = sha1_w M j" using sha1_schedule_nth [OF assms(4)] step.prems by simp
  then have "foldl (sha1_ring_fold G) (with_ring r x) [i..<Suc j] = with_ring (foldl (fips_step (sha1_schedule M)) r [i..<Suc j]) x2"
    using step.hyps x1 x2 f step.prems(2) [of j] by simp
  then show ?case using x2(2) by blast
qed

lemma sha1_rounds_fips:
  assumes "length M = 16"
  shows "\<exists>x. sha1_round4 (sha1_round3 (sha1_round2 (sha1_round1 (with_ring r M)))) = with_ring (foldl (fips_step (sha1_schedule M)) r [0..<80]) x"
proof -
  let ?f = "fips_step (sha1_schedule M)"
  note run = sha1_ring_run [where M = M, OF _ _ _ assms]
  have ring: "sha1_ring M 16 M" using assms by (auto simp: sha1_ring_def sha1_w.simps)
  define r1 where "r1 = foldl ?f r [0..<16]"
  obtain x2 where x2: "foldl (sha1_ring_fold FF) (with_ring r1 M) [16..<20] = with_ring (foldl ?f r1 [16..<20]) x2" "sha1_ring M 20 x2"
    using run [of 16 20 M FF r1] ring sha1_step_fips(1) by auto
  define r2 where "r2 = foldl ?f r1 [16..<20]"
  obtain x3 where x3: "foldl (sha1_ring_fold GG) (with_ring r2 x2) [20..<40] = with_ring (foldl ?f r2 [20..<40]) x3" "sha1_ring M 40 x3"
    using run [of 20 40 x2 GG r2] x2(2) sha1_step_fips(2) by auto
  define r3 where "r3 = foldl ?f r2 [20..<40]"
  obtain x4 where x4: "foldl (sha1_ring_fold HH) (with_ring r3 x3) [40..<60] = with_ring (foldl ?f r3 [40..<60]) x4" "sha1_ring M 60 x4"
    using run [of 40 60 x3 HH r3] x3(2) sha1_step_fips(3) by auto
  define r4 where "r4 = foldl ?f r3 [40..<60]"
  obtain x5 where x5: "foldl (sha1_ring_fold II) (with_ring r4 x4) [60..<80] = with_ring (foldl ?f r4 [60..<80]) x5"
    using run [of 60 80 x4 II r4] x4(2) sha1_step_fips(4) by auto
  have "[0..<80] = [0..<16] @ [16..<20] @ [20..<40] @ [40..<60] @ [60..<80]"
    using upt_add_eq_append [of 0 16 64] upt_add_eq_append [of 16 20 60] upt_add_eq_append [of 20 40 40] upt_add_eq_append [of 40 60 20]
    by (simp add: upt_rec)
  then have "foldl ?f r [0..<80] = foldl ?f r4 [60..<80]" by (simp only: foldl_append r1_def r2_def r3_def r4_def)
  moreover have "foldl (sha1_read_step FF) (with_ring r M) [0..<16] = with_ring r1 M"
    unfolding r1_def by (rule sha1_read_fold [OF _ assms]) (simp_all add: sha1_step_fips(1))
  ultimately show ?thesis using x2(1) x3(1) x4(1) x5
    by (simp only: sha1_round_folds flip: r2_def r3_def r4_def) blast
qed

lemma decode_words:
  "length blk = 64 \<Longrightarrow> SHA1Decode blk 64 = block_words be_val 4 16 blk" "length blk = 64 \<Longrightarrow> SHADecode32 blk 64 = block_words be_val 4 16 blk"
  "length blk = 128 \<Longrightarrow> SHADecode64 blk 128 = block_words be_val 8 16 blk"
  unfolding SHA1Decode_def SHADecode32_def SHADecode64_def block_words_def Let_def be_word4 be_word8 by (auto simp: take_drop4 take_drop8)

lemma length_block_words [simp]: "length (block_words val k n blk) = n"
  by (simp add: block_words_def)

lemma list5: "length xs = 5 \<Longrightarrow> xs = [xs ! 0, xs ! 1, xs ! 2, xs ! 3, xs ! 4]"
  by (rule nth_equalityI) (auto simp: less_Suc_eq numeral_eq_Suc)

lemma list8: "length xs = 8 \<Longrightarrow> xs = [xs ! 0, xs ! 1, xs ! 2, xs ! 3, xs ! 4, xs ! 5, xs ! 6, xs ! 7]"
  by (rule nth_equalityI) (auto simp: less_Suc_eq numeral_eq_Suc)

lemma sha1_transform_fips:
  assumes "length blk = 64" and "length H = 5"
  shows "SHA1Transform H blk = fips_block H blk \<and> length (fips_block H blk) = 5"
proof -
  let ?M = "block_words be_val 4 16 blk :: 32 word list"
  obtain x where "sha1_round4 (sha1_round3 (sha1_round2 (sha1_round1 (with_ring (H ! 0, H ! 1, H ! 2, H ! 3, H ! 4) ?M)))) =
      with_ring (foldl (fips_step (sha1_schedule ?M)) (H ! 0, H ! 1, H ! 2, H ! 3, H ! 4) [0..<80]) x"
    using sha1_rounds_fips [OF length_block_words] by blast
  moreover obtain a b c d e where "foldl (fips_step (sha1_schedule ?M)) (H ! 0, H ! 1, H ! 2, H ! 3, H ! 4) [0..<80] = (a, b, c, d, e)"
    by (cases "foldl (fips_step (sha1_schedule ?M)) (H ! 0, H ! 1, H ! 2, H ! 3, H ! 4) [0..<80]")
  moreover have "map2 (+) H [a, b, c, d, e] = [H ! 0 + a, H ! 1 + b, H ! 2 + c, H ! 3 + d, H ! 4 + e]" for a b c d e :: "32 word"
    by (subst list5 [OF assms(2)]) simp
  ultimately show ?thesis using assms
    by (simp add: SHA1Transform_def decode_words fips_block_def sha1_schedule_def Let_def)
qed

subsection \<open>The transformations of SHA-2\<close>

lemma sha256_functions:
  "SHA256_F0 = Ch" "SHA256_F1 = Maj" "SHA256_F2 = rot3 2 13 22" "SHA256_F3 = rot3 6 11 25" "SHA256_F4 = rot2 7 18 3" "SHA256_F5 = rot2 17 19 10"
  by (simp_all add: fun_eq_iff SHA256_F0_def SHA256_F1_def SHA256_F2_def SHA256_F3_def SHA256_F4_def SHA256_F5_def
      Ch_def Maj_def rot3_def rot2_def sha_rotations SHR_def)

lemma sha512_functions:
  "SHA512_F0 = Ch" "SHA512_F1 = Maj" "SHA512_F2 = rot3 28 34 39" "SHA512_F3 = rot3 14 18 41" "SHA512_F4 = rot2 1 8 7" "SHA512_F5 = rot2 19 61 6"
  by (simp_all add: fun_eq_iff SHA512_F0_def SHA512_F1_def SHA512_F2_def SHA512_F3_def SHA512_F4_def SHA512_F5_def
      Ch_def Maj_def rot3_def rot2_def sha_rotations SHR_def)

lemma sha256_K: "fips_K256 = SHA256_K"
proof -
  have "list_all2 (\<lambda>p k. is_frac_root 3 32 p (unat k)) (take 64 primes80) SHA256_K"
    by (simp add: is_frac_root_def Let_def primes80_def SHA256_K_def)
  then show ?thesis using frac_roots_checked [where ks = SHA256_K] by (simp add: fips_K256_def)
qed

lemma sha512_K: "fips_K512 = SHA512_K"
proof -
  have "list_all2 (\<lambda>p k. is_frac_root 3 64 p (unat k)) primes80 SHA512_K"
    by (simp add: is_frac_root_def Let_def primes80_def SHA512_K_def L64_def)
  then show ?thesis using frac_roots_checked [where ks = SHA512_K] by (simp add: fips_K512_def)
qed

lemma sha2_initial: "sha256_iv = fips_H256" "sha224_iv = fips_H224" "sha512_iv = fips_H512" "sha384_iv = fips_H384"
proof -
  have "list_all2 (\<lambda>p k. is_frac_root 2 32 p (unat k)) (take 8 primes80) sha256_iv"
    by (simp add: is_frac_root_def Let_def primes80_def sha256_iv_def PHP_SHA256Init_def)
  then show "sha256_iv = fips_H256" using frac_roots_checked [where ks = sha256_iv] by (simp add: fips_H256_def)
  have "list_all2 (\<lambda>p k. is_frac_root 2 64 p (unat k)) (take 8 primes80) sha512_iv"
    by (simp add: is_frac_root_def Let_def primes80_def sha512_iv_def PHP_SHA512Init_def L64_def)
  then show "sha512_iv = fips_H512" using frac_roots_checked [where ks = sha512_iv] by (simp add: fips_H512_def)
  have "list_all2 (\<lambda>p k. is_frac_root 2 64 p (unat k)) (take 8 (drop 8 primes80)) sha384_iv"
    by (simp add: is_frac_root_def Let_def primes80_def sha384_iv_def PHP_SHA384Init_def L64_def)
  then show h: "sha384_iv = fips_H384" using frac_roots_checked [where ks = sha384_iv] by (simp add: fips_H384_def)
  show "sha224_iv = fips_H224"
    unfolding fips_H224_def h [symmetric] by (simp add: sha224_iv_def PHP_SHA224Init_def sha384_iv_def PHP_SHA384Init_def L64_def)
qed

lemma sha_iv_lengths: "length sha1_iv = 5" "length sha256_iv = 8" "length sha224_iv = 8" "length sha512_iv = 8" "length sha384_iv = 8"
  by (simp_all add: sha1_iv_def PHP_SHA1Init_def sha256_iv_def PHP_SHA256Init_def sha224_iv_def PHP_SHA224Init_def
      sha512_iv_def PHP_SHA512Init_def sha384_iv_def PHP_SHA384Init_def)

lemma sha256_transform_fips:
  assumes "length blk = 64" and "length H = 8"
  shows "SHA256Transform H blk = fips_block256 H blk \<and> length (fips_block256 H blk) = 8"
proof -
  let ?M = "block_words be_val 4 16 blk :: 32 word list" and ?step = "fips2_step (rot3 2 13 22) (rot3 6 11 25) SHA256_K"
  let ?w = "fips_schedule (\<lambda>w t. rot2 17 19 10 (w ! (t - 2)) + w ! (t - 7) + rot2 7 18 3 (w ! (t - 15)) + w ! (t - 16)) 64 ?M"
  have k: "length SHA256_K = 64" by (simp add: SHA256_K_def)
  have "sha256_round w r t = ?step w r t" for w r t
  proof -
    obtain a b c d e f g h where "r = (a, b, c, d, e, f, g, h)" by (cases r) auto
    then show ?thesis by (simp add: sha256_round_def sha256_functions)
  qed
  then have step: "sha256_round = ?step" by (simp add: fun_eq_iff)
  have w: "sha256_schedule ?M = ?w" by (simp only: sha256_schedule_def fips_schedule_def sha256_functions)
  define r where "r = foldl (?step ?w) (H ! 0, H ! 1, H ! 2, H ! 3, H ! 4, H ! 5, H ! 6, H ! 7) [0..<64]"
  obtain a b c d e f g h where "r = (a, b, c, d, e, f, g, h)" by (cases r) auto
  note fold = this [unfolded r_def]
  have H: "map2 (+) H [a, b, c, d, e, f, g, h] = [H ! 0 + a, H ! 1 + b, H ! 2 + c, H ! 3 + d, H ! 4 + e, H ! 5 + f, H ! 6 + g, H ! 7 + h]"
    by (subst list8 [OF assms(2)]) simp
  have bytes: "LENGTH(32) div 8 = 4" by simp
  have "SHA256Transform H blk = map2 (+) H [a, b, c, d, e, f, g, h]"
    by (simp only: SHA256Transform_def decode_words assms(1) step w fold Let_def prod.case H)
  moreover have "fips_block256 H blk = map2 (+) H [a, b, c, d, e, f, g, h]"
    by (simp only: fips_block256_def fips2_block_def sha256_K k bytes fold Let_def prod.case)
  ultimately show ?thesis using H by simp
qed

lemma sha512_transform_fips:
  assumes "length blk = 128" and "length H = 8"
  shows "SHA512Transform H blk = fips_block512 H blk \<and> length (fips_block512 H blk) = 8"
proof -
  let ?M = "block_words be_val 8 16 blk :: 64 word list" and ?step = "fips2_step (rot3 28 34 39) (rot3 14 18 41) SHA512_K"
  let ?w = "fips_schedule (\<lambda>w t. rot2 19 61 6 (w ! (t - 2)) + w ! (t - 7) + rot2 1 8 7 (w ! (t - 15)) + w ! (t - 16)) 80 ?M"
  have k: "length SHA512_K = 80" by (simp add: SHA512_K_def)
  have "sha512_round w r t = ?step w r t" for w r t
  proof -
    obtain a b c d e f g h where "r = (a, b, c, d, e, f, g, h)" by (cases r) auto
    then show ?thesis by (simp add: sha512_round_def sha512_functions)
  qed
  then have step: "sha512_round = ?step" by (simp add: fun_eq_iff)
  have w: "sha512_schedule ?M = ?w" by (simp only: sha512_schedule_def fips_schedule_def sha512_functions)
  define r where "r = foldl (?step ?w) (H ! 0, H ! 1, H ! 2, H ! 3, H ! 4, H ! 5, H ! 6, H ! 7) [0..<80]"
  obtain a b c d e f g h where "r = (a, b, c, d, e, f, g, h)" by (cases r) auto
  note fold = this [unfolded r_def]
  have H: "map2 (+) H [a, b, c, d, e, f, g, h] = [H ! 0 + a, H ! 1 + b, H ! 2 + c, H ! 3 + d, H ! 4 + e, H ! 5 + f, H ! 6 + g, H ! 7 + h]"
    by (subst list8 [OF assms(2)]) simp
  have bytes: "LENGTH(64) div 8 = 8" by simp
  have "SHA512Transform H blk = map2 (+) H [a, b, c, d, e, f, g, h]"
    by (simp only: SHA512Transform_def decode_words assms(1) step w fold Let_def prod.case H)
  moreover have "fips_block512 H blk = map2 (+) H [a, b, c, d, e, f, g, h]"
    by (simp only: fips_block512_def fips2_block_def sha512_K k bytes fold Let_def prod.case)
  ultimately show ?thesis using H by simp
qed

subsection \<open>The digests of FIPS 180-4\<close>

lemma concat_prefix: "(\<And>x. length (f x) = k) \<Longrightarrow> concat (map (\<lambda>i. f (xs ! i)) [0..<n]) = take (k * n) (concat (map f xs))" if "n \<le> length xs"
proof -
  assume f: "\<And>x. length (f x) = k"
  have "take (k * n) (concat (map f xs)) = concat (map f (take n xs))"
  proof (induction n arbitrary: xs)
    case (Suc n)
    then show ?case by (cases xs) (simp_all add: f)
  qed simp
  moreover have "map (\<lambda>i. f (xs ! i)) [0..<n] = map f (take n xs)" by (rule nth_equalityI) (use that in auto)
  ultimately show ?thesis by simp
qed

lemma length_concat_bytes: "length (concat (map (be_bytes k \<circ> f) xs)) = k * length xs"
  by (induction xs) simp_all

lemma encode_words:
  "length st = 5 \<Longrightarrow> SHA1Encode st 20 = concat (map (be_bytes 4 \<circ> unat) st)"
  "length st = 8 \<Longrightarrow> SHAEncode32 st 32 = concat (map (be_bytes 4 \<circ> unat) st)"
  "length st = 8 \<Longrightarrow> SHAEncode32 st 28 = take 28 (concat (map (be_bytes 4 \<circ> unat) st))"
  "length sw = 8 \<Longrightarrow> SHAEncode64 sw 64 = concat (map (be_bytes 8 \<circ> unat) sw)"
  "length sw = 8 \<Longrightarrow> SHAEncode64 sw 48 = take 48 (concat (map (be_bytes 8 \<circ> unat) sw))"
  using concat_prefix [of 5 st "be_bytes 4 \<circ> unat" 4] concat_prefix [of 8 st "be_bytes 4 \<circ> unat" 4]
    concat_prefix [of 7 st "be_bytes 4 \<circ> unat" 4] concat_prefix [of 8 sw "be_bytes 8 \<circ> unat" 8] concat_prefix [of 6 sw "be_bytes 8 \<circ> unat" 8]
    length_concat_bytes [of 4 unat st] length_concat_bytes [of 8 unat sw]
  by (simp_all add: SHA1Encode_def SHAEncode32_def SHAEncode64_def bytes_of_words)

lemma sha_padding:
  "md_pad 64 8 (\<lambda>n. be64 (of_nat n)) m = padded 64 8 be_bytes m"
  "md_pad 128 16 (count_words save_bits_be64) m = padded 128 16 be_bytes m"
proof -
  have "be_bytes 16 n = count_words save_bits_be64 n" for n
    using be_bytes_append [of 8 8 n] by (simp add: count_words_def save_bits_be64_def bytes_of_counts)
  then show "md_pad 64 8 (\<lambda>n. be64 (of_nat n)) m = padded 64 8 be_bytes m"
    "md_pad 128 16 (count_words save_bits_be64) m = padded 128 16 be_bytes m"
    using pad_zeros [of 8 64 "length m"] pad_zeros [of 16 128 "length m"]
    by (simp_all add: md_pad_def padded_def md_pad_zeros_def bytes_of_counts)
qed

lemma sha_refs_fips: "sha1_ref m = SHA1 m" "sha256_ref m = SHA256 m" "sha224_ref m = SHA224 m" "sha512_ref m = SHA512 m" "sha384_ref m = SHA384 m"
proof -
  have one: "absorb SHA1Transform 64 sha1_iv xs = absorb fips_block 64 sha1_iv xs \<and> length (absorb fips_block 64 sha1_iv xs) = 5" for xs
    using absorb_cong [of "\<lambda>st. length st = 5" sha1_iv 64 SHA1Transform fips_block xs] sha1_transform_fips by (auto simp: sha_iv_lengths)
  have two: "absorb SHA256Transform 64 iv xs = absorb fips_block256 64 iv xs \<and> length (absorb fips_block256 64 iv xs) = 8" if "length iv = 8" for iv xs
    using absorb_cong [of "\<lambda>st. length st = 8" iv 64 SHA256Transform fips_block256 xs] sha256_transform_fips that by auto
  have three: "absorb SHA512Transform 128 iv xs = absorb fips_block512 128 iv xs \<and> length (absorb fips_block512 128 iv xs) = 8" if "length iv = 8" for iv xs
    using absorb_cong [of "\<lambda>st. length st = 8" iv 128 SHA512Transform fips_block512 xs] sha512_transform_fips that by auto
  have "sha1_iv = [0x67452301, 0xefcdab89, 0x98badcfe, 0x10325476, 0xc3d2e1f0]" by (simp add: sha1_iv_def PHP_SHA1Init_def)
  then show "sha1_ref m = SHA1 m" using one by (simp add: sha1_ref_def SHA1_def sha_padding encode_words)
  note lens = sha_iv_lengths [unfolded sha2_initial]
  show "sha256_ref m = SHA256 m" "sha224_ref m = SHA224 m" "sha512_ref m = SHA512 m" "sha384_ref m = SHA384 m"
    using two three lens
    by (simp_all add: sha256_ref_def SHA256_def sha224_ref_def SHA224_def sha512_ref_def SHA512_def sha384_ref_def SHA384_def
        sha_padding encode_words sha2_initial)
qed

subsection \<open>Known digests\<close>

text \<open>The example message "abc" of the standard, evaluated on the reference: the schedules and the registers after every 20 or 16 steps.\<close>

lemma abc_words: "block_words be_val 4 16 (padded 64 8 be_bytes [97, 98, 99]) = ([0x61626380, 0, 0, 0, 0, 0, 0, 0, 0, 0, 0, 0, 0, 0, 0, 24] :: 32 word list)"
  by (simp add: padded_def be_bytes_def block_words_def be_val_zeros upt_rec) (simp add: be_val_def)

lemma quarters: "[0..<80] = [0..<20] @ [20..<40] @ [40..<60] @ [60..<80 :: nat]" "[0..<64] = [0..<16] @ [16..<32] @ [32..<48] @ [48..<64 :: nat]"
  by (simp_all add: upt_rec)

definition sha1_abc_w :: "32 word list" where
  "sha1_abc_w = [
     0x61626380, 0x0, 0x0, 0x0, 0x0, 0x0, 0x0, 0x0,
     0x0, 0x0, 0x0, 0x0, 0x0, 0x0, 0x0, 0x18,
     0xc2c4c700, 0x0, 0x30, 0x85898e01, 0x0, 0x60, 0xb131c03, 0x30,
     0x85898ec1, 0x16263806, 0x0, 0x180, 0x2c4c700c, 0xf0, 0x93afb507, 0x5898e048,
     0x8e9a9202, 0x600, 0xb131c0f0, 0x16263bc6, 0x4ebed41e, 0x626380a1, 0x16263806, 0x18c0,
     0xd2e138c4, 0xf00, 0x3afb5079, 0x898e04e5, 0xe2ba3c2b, 0x60c0, 0x53a37cd, 0x74458547,
     0xda9415ed, 0x26380a16, 0x626383a1, 0x4ebf54de, 0x3835b44b, 0xf600, 0x1e84c7a3, 0x98e04d98,
     0x651d16a0, 0x62658ca1, 0x458544d6, 0x44584cb7, 0x7ba06619, 0x6380aea2, 0xae55269, 0x627b49a1,
     0x7cd45c9d, 0xf0000, 0xfb50753a, 0xec6765e8, 0xba3c2be2, 0x60c000, 0x3a37cd05, 0x458546f4,
     0xb8599dd6, 0x380a1a26, 0x1e02203, 0xe7cc3456, 0xe6e60b69, 0xf60a00, 0x5795ef4f, 0x822e0879]"

lemma sha1_abc_schedule:
  "fips_schedule (\<lambda>w t. word_rotl 1 (w ! (t - 3) XOR w ! (t - 8) XOR w ! (t - 14) XOR w ! (t - 16))) 80
     [0x61626380, 0, 0, 0, 0, 0, 0, 0, 0, 0, 0, 0, 0, 0, 0, 24] = sha1_abc_w"
  by (simp add: fips_schedule_def sha1_abc_w_def upt_rec word_rot_values)

lemma sha1_abc_rounds1:
  "foldl (fips_step sha1_abc_w) (0x67452301, 0xefcdab89, 0x98badcfe, 0x10325476, 0xc3d2e1f0) [0..<20] =
    (0xfd9e1d7d, 0xdc64901d, 0x20aa99ca, 0xd3a49608, 0xc82f758b)"
  by (simp add: sha1_indices upt_rec sha1_abc_w_def fips_f_def fips_K_values Ch_def Maj_def word_rot_values)

lemma sha1_abc_rounds2:
  "foldl (fips_step sha1_abc_w) (0xfd9e1d7d, 0xdc64901d, 0x20aa99ca, 0xd3a49608, 0xc82f758b) [20..<40] =
    (0x32de1cba, 0x4c986405, 0xf718e5cf, 0x3d447f6, 0xf72eec32)"
  by (simp add: sha1_indices sha1_abc_w_def fips_f_def fips_K_values Ch_def Maj_def word_rot_values)

lemma sha1_abc_rounds3:
  "foldl (fips_step sha1_abc_w) (0x32de1cba, 0x4c986405, 0xf718e5cf, 0x3d447f6, 0xf72eec32) [40..<60] =
    (0x3f52de5a, 0x9d785fd, 0x3498bfd4, 0xf211824f, 0xd79915ab)"
  by (simp add: sha1_indices sha1_abc_w_def fips_f_def fips_K_values Ch_def Maj_def word_rot_values)

lemma sha1_abc_rounds4:
  "foldl (fips_step sha1_abc_w) (0x3f52de5a, 0x9d785fd, 0x3498bfd4, 0xf211824f, 0xd79915ab) [60..<80] =
    (0x42541b35, 0x5738d5e1, 0x21834873, 0x681e6df6, 0xd8fdf6ad)"
  by (simp add: sha1_indices sha1_abc_w_def fips_f_def fips_K_values Ch_def Maj_def word_rot_values)

lemma SHA1_abc: "SHA1 [97, 98, 99] = [0xa9, 0x99, 0x3e, 0x36, 0x47, 0x6, 0x81, 0x6a, 0xba, 0x3e, 0x25, 0x71, 0x78, 0x50, 0xc2, 0x6c, 0x9c, 0xd0, 0xd8, 0x9d]"
proof -
  have len: "length (padded 64 8 be_bytes [97, 98, 99]) = 64" by (simp add: padded_def)
  have "foldl (fips_step sha1_abc_w) (0x67452301, 0xefcdab89, 0x98badcfe, 0x10325476, 0xc3d2e1f0) [0..<80] = (0x42541b35, 0x5738d5e1, 0x21834873, 0x681e6df6, 0xd8fdf6ad)"
    by (simp only: quarters foldl_append sha1_abc_rounds1 sha1_abc_rounds2 sha1_abc_rounds3 sha1_abc_rounds4)
  then have "fips_block [0x67452301, 0xefcdab89, 0x98badcfe, 0x10325476, 0xc3d2e1f0] (padded 64 8 be_bytes [97, 98, 99]) = [0xa9993e36, 0x4706816a, 0xba3e2571, 0x7850c26c, 0x9cd0d89d]"
    by (simp add: fips_block_def abc_words sha1_abc_schedule [unfolded One_nat_def])
  then have "SHA1 [97, 98, 99] = concat (map (be_bytes 4 \<circ> unat) ([0xa9993e36, 0x4706816a, 0xba3e2571, 0x7850c26c, 0x9cd0d89d] :: 32 word list))"
    unfolding SHA1_def by (subst absorb_exact_step [OF _ len]) simp_all
  then show ?thesis by (simp add: be_bytes_def upt_rec)
qed

definition sha256_abc_w :: "32 word list" where
  "sha256_abc_w = [
     0x61626380, 0x0, 0x0, 0x0, 0x0, 0x0, 0x0, 0x0,
     0x0, 0x0, 0x0, 0x0, 0x0, 0x0, 0x0, 0x18,
     0x61626380, 0xf0000, 0x7da86405, 0x600003c6, 0x3e9d7b78, 0x183fc00, 0x12dcbfdb, 0xe2e2c38e,
     0xc8215c1a, 0xb73679a2, 0xe5bc3909, 0x32663c5b, 0x9d209d67, 0xec8726cb, 0x702138a4, 0xd3b7973b,
     0x93f5997f, 0x3b68ba73, 0xaff4ffc1, 0xf10a5c62, 0xa8b3996, 0x72af830a, 0x9409e33e, 0x24641522,
     0x9f47bf94, 0xf0a64f5a, 0x3e246a79, 0x27333ba3, 0xc4763f2, 0x840abf27, 0x7a290d5d, 0x65c43da,
     0xfb3e89cb, 0xcc7617db, 0xb9e66c34, 0xa9993667, 0x84badedd, 0xc21462bc, 0x1487472c, 0xb20f7a99,
     0xef57b9cd, 0xebe6b238, 0x9fe3095e, 0x78bc8d4b, 0xa43fcf15, 0x668b2ff8, 0xeeaba2cc, 0x12b1edeb]"

lemma sha256_abc_schedule:
  "fips_schedule (\<lambda>w t. rot2 17 19 10 (w ! (t - 2)) + w ! (t - 7) + rot2 7 18 3 (w ! (t - 15)) + w ! (t - 16)) 64
     [0x61626380, 0, 0, 0, 0, 0, 0, 0, 0, 0, 0, 0, 0, 0, 0, 24] = sha256_abc_w"
  by (simp add: fips_schedule_def sha256_abc_w_def upt_rec rot2_def word_rot_values)

lemma sha256_abc_rounds1:
  "foldl (fips2_step (rot3 2 13 22) (rot3 6 11 25) SHA256_K sha256_abc_w)
      (0x6a09e667, 0xbb67ae85, 0x3c6ef372, 0xa54ff53a, 0x510e527f, 0x9b05688c, 0x1f83d9ab, 0x5be0cd19) [0..<16] =
    (0xb0fa238e, 0xc0645fde, 0xd932eb16, 0x87912990, 0x7590dcd, 0xb92f20c, 0x745a48de, 0x1e578218)"
  by (simp add: upt_rec sha256_abc_w_def SHA256_K_def rot3_def Ch_def Maj_def Let_def word_rot_values)

lemma sha256_abc_rounds2:
  "foldl (fips2_step (rot3 2 13 22) (rot3 6 11 25) SHA256_K sha256_abc_w)
      (0xb0fa238e, 0xc0645fde, 0xd932eb16, 0x87912990, 0x7590dcd, 0xb92f20c, 0x745a48de, 0x1e578218) [16..<32] =
    (0x73b33bf5, 0xea992a22, 0xa0060b30, 0x363482c9, 0xba591112, 0x109ab3a, 0xade79437, 0x6112a3b7)"
  by (simp add: upt_rec sha256_abc_w_def SHA256_K_def rot3_def Ch_def Maj_def Let_def word_rot_values)

lemma sha256_abc_rounds3:
  "foldl (fips2_step (rot3 2 13 22) (rot3 6 11 25) SHA256_K sha256_abc_w)
      (0x73b33bf5, 0xea992a22, 0xa0060b30, 0x363482c9, 0xba591112, 0x109ab3a, 0xade79437, 0x6112a3b7) [32..<48] =
    (0x4172328d, 0xa14c14b0, 0x72ab4b91, 0x26628815, 0xfecf0bc6, 0xd57b94a9, 0xb7755da1, 0xa80f11f0)"
  by (simp add: upt_rec sha256_abc_w_def SHA256_K_def rot3_def Ch_def Maj_def Let_def word_rot_values)

lemma sha256_abc_rounds4:
  "foldl (fips2_step (rot3 2 13 22) (rot3 6 11 25) SHA256_K sha256_abc_w)
      (0x4172328d, 0xa14c14b0, 0x72ab4b91, 0x26628815, 0xfecf0bc6, 0xd57b94a9, 0xb7755da1, 0xa80f11f0) [48..<64] =
    (0x506e3058, 0xd39a2165, 0x4d24d6c, 0xb85e2ce9, 0x5ef50f24, 0xfb121210, 0x948d25b6, 0x961f4894)"
  by (simp add: upt_rec sha256_abc_w_def SHA256_K_def rot3_def Ch_def Maj_def Let_def word_rot_values)

lemma SHA256_abc: "SHA256 [97, 98, 99] = [
     0xba, 0x78, 0x16, 0xbf, 0x8f, 0x1, 0xcf, 0xea, 0x41, 0x41, 0x40, 0xde, 0x5d, 0xae, 0x22, 0x23,
     0xb0, 0x3, 0x61, 0xa3, 0x96, 0x17, 0x7a, 0x9c, 0xb4, 0x10, 0xff, 0x61, 0xf2, 0x0, 0x15, 0xad]"
proof -
  have len: "length (padded 64 8 be_bytes [97, 98, 99]) = 64" by (simp add: padded_def)
  have "foldl (fips2_step (rot3 2 13 22) (rot3 6 11 25) SHA256_K sha256_abc_w)
      (0x6a09e667, 0xbb67ae85, 0x3c6ef372, 0xa54ff53a, 0x510e527f, 0x9b05688c, 0x1f83d9ab, 0x5be0cd19) [0..<64] =
    (0x506e3058, 0xd39a2165, 0x4d24d6c, 0xb85e2ce9, 0x5ef50f24, 0xfb121210, 0x948d25b6, 0x961f4894)"
    by (simp only: quarters foldl_append sha256_abc_rounds1 sha256_abc_rounds2 sha256_abc_rounds3 sha256_abc_rounds4)
  moreover have H: "fips_H256 = [0x6a09e667, 0xbb67ae85, 0x3c6ef372, 0xa54ff53a, 0x510e527f, 0x9b05688c, 0x1f83d9ab, 0x5be0cd19]"
    by (simp add: sha256_iv_def PHP_SHA256Init_def flip: sha2_initial)
  moreover have "length SHA256_K = 64" by (simp add: SHA256_K_def)
  ultimately have "fips_block256 fips_H256 (padded 64 8 be_bytes [97, 98, 99]) = [0xba7816bf, 0x8f01cfea, 0x414140de, 0x5dae2223, 0xb00361a3, 0x96177a9c, 0xb410ff61, 0xf20015ad]"
    by (simp add: fips_block256_def fips2_block_def sha256_K abc_words sha256_abc_schedule H)
  then have "SHA256 [97, 98, 99] = concat (map (be_bytes 4 \<circ> unat) ([0xba7816bf, 0x8f01cfea, 0x414140de, 0x5dae2223, 0xb00361a3, 0x96177a9c, 0xb410ff61, 0xf20015ad] :: 32 word list))"
    unfolding SHA256_def by (subst absorb_exact_step [OF _ len]) simp_all
  then show ?thesis by (simp add: be_bytes_def upt_rec)
qed

subsection \<open>Properties\<close>

lemma sha1_script_ok:
  assumes "length (dg_buffer c) = 64" and "\<forall>xs\<in>set xss. length xs < 2 ^ 31"
  shows "\<exists>c1 c2. updates PHP_SHA1Update xss (PHP_SHA1Init c) = Some c1 \<and> PHP_SHA1Final c1 = Some (SHA1 (concat xss), c2)"
proof -
  obtain c1 where c1: "updates PHP_SHA1Update xss (PHP_SHA1Init c) = Some c1" "digest_holds 64 SHA1Transform sha1_iv c1 (concat xss)"
    using sha1.updates_hold [OF sha_init_holds(1) [OF assms(1)] assms(2)] by auto
  with sha1.fin_digest [OF c1(2)] show ?thesis by (auto simp: sha_refs_fips)
qed

text \<open>
  C17: \<open>sha1()\<close> of a string and \<open>sha1_file()\<close> of a file read in pieces are the digest \<open>SHA1\<close> of FIPS 180-4, for every message and
  whatever the context variable held before: \<open>SHA1\<close> is written after the standard, with its schedule of 80 words, its functions and
  its constants computed as square roots, and shares no definition with the model of the sources.  A read error gives \<open>false\<close>.
\<close>

theorem sha1_matches_fips:
  assumes "length (dg_buffer c) = 64" and "length arg < 2 ^ 31" and "\<forall>xs\<in>set reads. length xs \<le> 1024"
  shows "sha1 c arg raw = Some (digest_shown raw (SHA1 arg)) \<and>
    sha1_file c (Some (reads, False)) raw = Some (digest_shown raw (SHA1 (concat reads))) \<and>
    sha1_file c (Some (reads, True)) raw = Some DigestFalse"
proof -
  have "\<forall>xs\<in>set [arg]. length xs < 2 ^ 31" using assms(2) by simp
  from sha1_script_ok [OF assms(1) this] obtain c1 c2 where
    "PHP_SHA1Update (PHP_SHA1Init c) arg = Some c1" "PHP_SHA1Final c1 = Some (SHA1 arg, c2)" by (auto split: Option.bind_splits)
  moreover have "\<forall>xs\<in>set reads. length xs < 2 ^ 31" using assms(3) by fastforce
  from sha1_script_ok [OF assms(1) this] obtain d1 d2 where
    "updates PHP_SHA1Update reads (PHP_SHA1Init c) = Some d1" "PHP_SHA1Final d1 = Some (SHA1 (concat reads), d2)" by auto
  ultimately show ?thesis by (simp add: sha1_def sha1_file_def digest_shown_def hex_digits)
qed

text \<open>The standard's digest of "abc".\<close>

theorem sha1_matches_fips_witness:
  "sha1 (sha_ctx0 5 64) [97, 98, 99] False = Some (Hex ''a9993e364706816aba3e25717850c26c9cd0d89d'') \<and>
   sha1_file (sha_ctx0 5 64) (Some ([[97], [98, 99]], False)) False = Some (Hex ''a9993e364706816aba3e25717850c26c9cd0d89d'')"
proof -
  have "hex_string (SHA1 [97, 98, 99]) = ''a9993e364706816aba3e25717850c26c9cd0d89d''"
    unfolding SHA1_abc by (simp add: hex_string_def hex_digit_def)
  then show ?thesis
    using sha1_matches_fips [where c = "sha_ctx0 5 64" and arg = "[97, 98, 99]" and reads = "[[97], [98, 99]]" and raw = False]
    by (simp add: digest_shown_def)
qed

text \<open>
  C18: The SHA-224, SHA-256, SHA-384 and SHA-512 of \<open>ext/hash\<close> give, for every sequence of updates of fewer than \<open>2\<^sup>3\<^sup>1\<close> bytes each,
  the digest FIPS 180-4 defines for the concatenation: its padding with a length of 64 or 128 bits, its functions, its initial values and
  constants computed as the fractional parts of roots of primes.
\<close>

theorem sha2_streaming:
  assumes "\<forall>xs\<in>set xss. length xs < 2 ^ 31"
  shows "(\<exists>c. do { c \<leftarrow> updates PHP_SHA256Update xss (PHP_SHA256Init (sha_ctx0 8 64)); PHP_SHA256Final c } = Some (SHA256 (concat xss), c)) \<and>
    (\<exists>c. do { c \<leftarrow> updates PHP_SHA224Update xss (PHP_SHA224Init (sha_ctx0 8 64)); PHP_SHA224Final c } = Some (SHA224 (concat xss), c)) \<and>
    (\<exists>c. do { c \<leftarrow> updates PHP_SHA512Update xss (PHP_SHA512Init (sha_ctx0 8 128)); PHP_SHA512Final c } = Some (SHA512 (concat xss), c)) \<and>
    (\<exists>c. do { c \<leftarrow> updates PHP_SHA384Update xss (PHP_SHA384Init (sha_ctx0 8 128)); PHP_SHA384Final c } = Some (SHA384 (concat xss), c))"
  unfolding sha_refs_fips [symmetric]
  by (intro conjI sha256.digest_of_pieces sha224.digest_of_pieces sha512.digest_of_pieces sha384.digest_of_pieces)
    (use assms in auto)

text \<open>The standard's SHA-256 of "abc".\<close>

theorem sha2_streaming_witness:
  "\<exists>c. do { c \<leftarrow> updates PHP_SHA256Update [[97], [98, 99]] (PHP_SHA256Init (sha_ctx0 8 64)); PHP_SHA256Final c } = Some ([
     0xba, 0x78, 0x16, 0xbf, 0x8f, 0x1, 0xcf, 0xea, 0x41, 0x41, 0x40, 0xde, 0x5d, 0xae, 0x22, 0x23,
     0xb0, 0x3, 0x61, 0xa3, 0x96, 0x17, 0x7a, 0x9c, 0xb4, 0x10, 0xff, 0x61, 0xf2, 0x0, 0x15, 0xad], c)"
  using sha2_streaming [of "[[97], [98, 99]]"] by (simp add: SHA256_abc)

end
