(* ===== verification/Zend_Objects.thy ===== *)
theory Zend_Objects
  imports Php_Prelude
begin

text \<open>
  The model of the objects store, \<open>Zend/zend_objects_API.c\<close>: a growing array of buckets indexed by
  object handles, reference counts, and a free list threaded through the buckets of dead objects.

  A bucket's union starts with the object pointer of a live object or with the \<open>next\<close> index of a free
  one.  \<open>os_block\<close> counts the blocks \<open>erealloc\<close> has returned, so that a pointer into an old block is
  known to dangle: an access through it is undefined.  The destructor and \<open>free_storage\<close> callbacks run
  arbitrary code, which reaches the store again; they are parameters, functions from the store to the store
  and whether they bailed out.  \<open>buffered\<close> tells whether the object is in the garbage collector's root buffer.
\<close>

datatype 'o bucket_head = Object "'o option" | FreeNext int

record ('o, 'f, 'h) zend_object_store_bucket =
  destructor_called :: bool
  valid :: bool
  apply_count :: "8 word"
  b_head :: "'o bucket_head"
  b_dtor :: "'f option"
  b_free_storage :: "'f option"
  b_clone :: "'f option"
  b_handlers :: "'h option"
  refcount :: uint
  buffered :: bool

record ('o, 'f, 'h) zend_objects_store =
  object_buckets :: "('o, 'f, 'h) zend_object_store_bucket option list option"
  os_top :: uint
  os_size :: uint
  free_list_head :: int
  os_block :: nat
  gc_active :: bool

text \<open>\<open>sizeof(zend_object_store_bucket)\<close> of the build: three bytes padded to four, then seven words.\<close>

definition sizeof_bucket :: uint where
  "sizeof_bucket = 32"

definition bucket_at :: "('o, 'f, 'h) zend_objects_store \<Rightarrow> uint \<Rightarrow> ('o, 'f, 'h) zend_object_store_bucket option" where
  "bucket_at s h = (case object_buckets s of None \<Rightarrow> None
     | Some cs \<Rightarrow> if unat h < length cs then cs ! unat h else None)"

definition bucket_put :: "uint \<Rightarrow> ('o, 'f, 'h) zend_object_store_bucket \<Rightarrow> ('o, 'f, 'h) zend_objects_store \<Rightarrow>
    ('o, 'f, 'h) zend_objects_store option" where
  "bucket_put h b s = (case object_buckets s of None \<Rightarrow> None
     | Some cs \<Rightarrow> if unat h < length cs then Some (s\<lparr>object_buckets := Some (cs[unat h := Some b])\<rparr>) else None)"

definition bucket_upd :: "uint \<Rightarrow> (('o, 'f, 'h) zend_object_store_bucket \<Rightarrow> ('o, 'f, 'h) zend_object_store_bucket) \<Rightarrow>
    ('o, 'f, 'h) zend_objects_store \<Rightarrow> ('o, 'f, 'h) zend_objects_store option" where
  "bucket_upd h f s = do { b \<leftarrow> bucket_at s h; bucket_put h (f b) s }"

subsection \<open>The store\<close>

definition zend_objects_store_init :: "uint \<Rightarrow> bool \<Rightarrow> ('o, 'f, 'h) zend_objects_store option" where
  "zend_objects_store_init init_size active =
     bucket_put 0 \<lparr>destructor_called = False, valid = False, apply_count = 0, b_head = Object None, b_dtor = None,
         b_free_storage = None, b_clone = None, b_handlers = None, refcount = 0, buffered = False\<rparr>
       \<lparr>object_buckets = Some (replicate (unat (init_size * sizeof_bucket) div unat sizeof_bucket) None),
        os_top = 1, os_size = init_size, free_list_head = - 1, os_block = 0, gc_active = active\<rparr>"

definition zend_objects_store_destroy :: "('o, 'f, 'h) zend_objects_store \<Rightarrow> ('o, 'f, 'h) zend_objects_store" where
  "zend_objects_store_destroy s = s\<lparr>object_buckets := None\<rparr>"

definition objects_GC_REMOVE_ZOBJ_FROM_BUFFER :: "uint \<Rightarrow> ('o, 'f, 'h) zend_objects_store \<Rightarrow> ('o, 'f, 'h) zend_objects_store option" where
  "objects_GC_REMOVE_ZOBJ_FROM_BUFFER h s = bucket_upd h (\<lambda>b. if buffered b \<and> \<not> gc_active s then b\<lparr>buffered := False\<rparr> else b) s"

text \<open>The object pointer of a bucket; reading it from a free bucket would read the list index.\<close>

definition head_object :: "('o, 'f, 'h) zend_object_store_bucket \<Rightarrow> 'o option option" where
  "head_object b = (case b_head b of Object p \<Rightarrow> Some p | FreeNext _ \<Rightarrow> None)"

type_synonym ('o, 'f, 'h) dtor_fun =
  "'f \<Rightarrow> 'o option \<Rightarrow> uint \<Rightarrow> ('o, 'f, 'h) zend_objects_store \<Rightarrow> ('o, 'f, 'h) zend_objects_store \<times> bool"
type_synonym ('o, 'f, 'h) free_fun =
  "'f \<Rightarrow> 'o option \<Rightarrow> ('o, 'f, 'h) zend_objects_store \<Rightarrow> ('o, 'f, 'h) zend_objects_store \<times> bool"

text \<open>
  The body of the loop of \<open>zend_objects_store_call_destructors\<close>.  A bailout of a destructor leaves
  the loop and the function.
\<close>

definition call_destructor :: "('o, 'f, 'h) dtor_fun \<Rightarrow> uint \<Rightarrow> ('o, 'f, 'h) zend_objects_store \<Rightarrow>
    (('o, 'f, 'h) zend_objects_store \<times> bool) option" where
  "call_destructor run_dtor i s = do {
     b \<leftarrow> bucket_at s i;
     if valid b \<and> \<not> destructor_called b then do {
       s \<leftarrow> bucket_upd i (\<lambda>b. b\<lparr>destructor_called := True\<rparr>) s;
       p \<leftarrow> head_object b;
       case (b_dtor b, p) of
         (Some d, Some obj) \<Rightarrow> do {
           s \<leftarrow> bucket_upd i (\<lambda>b. b\<lparr>refcount := refcount b + 1\<rparr>) s;
           let (s, bail) = run_dtor d (Some obj) i s;
           if bail then Some (s, True)
           else do {
             s \<leftarrow> bucket_upd i (\<lambda>b. b\<lparr>refcount := refcount b - 1\<rparr>) s;
             b \<leftarrow> bucket_at s i;
             s \<leftarrow> (if refcount b = 0 then objects_GC_REMOVE_ZOBJ_FROM_BUFFER i s else Some s);
             Some (s, False)
           }
         }
       | _ \<Rightarrow> Some (s, False)
     } else Some (s, False)
   }"

lemma next_index_measure: "i < (t :: uint) \<Longrightarrow> 2 ^ 32 - unat (i + 1) < 2 ^ 32 - unat i"
proof -
  assume "i < t"
  then have "unat i + 1 < 2 ^ 32" using unat_lt2p [of t] by (simp add: word_less_nat_alt)
  then show ?thesis by (simp add: unat_inc)
qed

text \<open>
  The loop reads \<open>top\<close> anew every time, since a destructor may create objects; \<open>i\<close> never passes the
  32-bit \<open>top\<close>, so the loop ends when every destructor does.
\<close>

function call_destructors_loop :: "('o, 'f, 'h) dtor_fun \<Rightarrow> uint \<Rightarrow> ('o, 'f, 'h) zend_objects_store \<Rightarrow>
    (('o, 'f, 'h) zend_objects_store \<times> bool) option" where
  "call_destructors_loop run_dtor i s =
     (if i < os_top s then
        (case call_destructor run_dtor i s of
           None \<Rightarrow> None
         | Some (s', bail) \<Rightarrow> if bail then Some (s', True) else call_destructors_loop run_dtor (i + 1) s')
      else Some (s, False))"
  by pat_completeness auto
termination by (relation "measure (\<lambda>(r, i, s). 2 ^ 32 - unat i)") (simp_all add: next_index_measure [simplified])

declare call_destructors_loop.simps [simp del]

definition zend_objects_store_call_destructors :: "('o, 'f, 'h) dtor_fun \<Rightarrow> ('o, 'f, 'h) zend_objects_store \<Rightarrow>
    (('o, 'f, 'h) zend_objects_store \<times> bool) option" where
  "zend_objects_store_call_destructors run_dtor s = call_destructors_loop run_dtor 1 s"

function mark_loop :: "uint \<Rightarrow> ('o, 'f, 'h) zend_objects_store \<Rightarrow> ('o, 'f, 'h) zend_objects_store option" where
  "mark_loop i s =
     (if i < os_top s then
        (case bucket_upd i (\<lambda>b. if valid b then b\<lparr>destructor_called := True\<rparr> else b) s of
           None \<Rightarrow> None
         | Some s' \<Rightarrow> mark_loop (i + 1) s')
      else Some s)"
  by pat_completeness auto
termination by (relation "measure (\<lambda>(i, s). 2 ^ 32 - unat i)") (simp_all add: next_index_measure [simplified])

declare mark_loop.simps [simp del]

definition zend_objects_store_mark_destructed :: "('o, 'f, 'h) zend_objects_store \<Rightarrow> ('o, 'f, 'h) zend_objects_store option" where
  "zend_objects_store_mark_destructed s = (if object_buckets s = None then Some s else mark_loop 1 s)"

text \<open>The body of the loop of \<open>zend_objects_store_free_object_storage\<close>.\<close>

definition free_one :: "('o, 'f, 'h) free_fun \<Rightarrow> uint \<Rightarrow> ('o, 'f, 'h) zend_objects_store \<Rightarrow>
    (('o, 'f, 'h) zend_objects_store \<times> bool) option" where
  "free_one run_free i s = do {
     b \<leftarrow> bucket_at s i;
     if valid b then do {
       s \<leftarrow> objects_GC_REMOVE_ZOBJ_FROM_BUFFER i s;
       s \<leftarrow> bucket_upd i (\<lambda>b. b\<lparr>valid := False\<rparr>) s;
       case b_free_storage b of
         Some f \<Rightarrow> do { p \<leftarrow> head_object b; Some (run_free f p s) }
       | None \<Rightarrow> Some (s, False)
     } else Some (s, False)
   }"

function free_loop :: "('o, 'f, 'h) free_fun \<Rightarrow> uint \<Rightarrow> ('o, 'f, 'h) zend_objects_store \<Rightarrow>
    (('o, 'f, 'h) zend_objects_store \<times> bool) option" where
  "free_loop run_free i s =
     (if i < os_top s then
        (case free_one run_free i s of
           None \<Rightarrow> None
         | Some (s', bail) \<Rightarrow> if bail then Some (s', True) else free_loop run_free (i + 1) s')
      else Some (s, False))"
  by pat_completeness auto
termination by (relation "measure (\<lambda>(r, i, s). 2 ^ 32 - unat i)") (simp_all add: next_index_measure [simplified])

declare free_loop.simps [simp del]

definition zend_objects_store_free_object_storage :: "('o, 'f, 'h) free_fun \<Rightarrow> ('o, 'f, 'h) zend_objects_store \<Rightarrow>
    (('o, 'f, 'h) zend_objects_store \<times> bool) option" where
  "zend_objects_store_free_object_storage run_free s = free_loop run_free 1 s"

subsection \<open>Objects\<close>

text \<open>\<open>std_dtor\<close> is \<open>zend_objects_destroy_object\<close>, the destructor of an object put without one.\<close>

definition zend_objects_store_put ::
  "'f \<Rightarrow> 'o option \<Rightarrow> 'f option \<Rightarrow> 'f option \<Rightarrow> 'f option \<Rightarrow> ('o, 'f, 'h) zend_objects_store \<Rightarrow>
   (('o, 'f, 'h) zend_objects_store \<times> uint) option" where
  "zend_objects_store_put std_dtor object dtor free_storage clone s = do {
     (s, handle) \<leftarrow> (if free_list_head s \<noteq> - 1 then do {
         let handle = word_of_int (free_list_head s);
         b \<leftarrow> bucket_at s handle;
         nxt \<leftarrow> (case b_head b of FreeNext n \<Rightarrow> Some n | Object _ \<Rightarrow> None);
         Some (s\<lparr>free_list_head := nxt\<rparr>, handle)
       } else do {
         s \<leftarrow> (if os_top s = os_size s then do {
             cs \<leftarrow> object_buckets s;
             let sz = push_bit 1 (os_size s);
             let n = unat (sz * sizeof_bucket) div unat sizeof_bucket;
             Some (s\<lparr>os_size := sz, object_buckets := Some (take n cs @ replicate (n - length cs) None), os_block := Suc (os_block s)\<rparr>)
           } else Some s);
         Some (s\<lparr>os_top := os_top s + 1\<rparr>, os_top s)
       });
     s \<leftarrow> bucket_put handle
       \<lparr>destructor_called = False, valid = True, apply_count = 0, b_head = Object object,
        b_dtor = Some (case dtor of Some d \<Rightarrow> d | None \<Rightarrow> std_dtor),
        b_free_storage = free_storage, b_clone = clone, b_handlers = None, refcount = 1, buffered = False\<rparr> s;
     Some (s, handle)
   }"

definition zend_objects_store_get_refcount :: "uint \<Rightarrow> ('o, 'f, 'h) zend_objects_store \<Rightarrow> uint option" where
  "zend_objects_store_get_refcount handle s = do { b \<leftarrow> bucket_at s handle; Some (refcount b) }"

definition zend_objects_store_add_ref :: "uint \<Rightarrow> ('o, 'f, 'h) zend_objects_store \<Rightarrow> ('o, 'f, 'h) zend_objects_store option" where
  "zend_objects_store_add_ref handle s = bucket_upd handle (\<lambda>b. b\<lparr>refcount := refcount b + 1\<rparr>) s"

definition zend_objects_store_add_ref_by_handle :: "uint \<Rightarrow> ('o, 'f, 'h) zend_objects_store \<Rightarrow> ('o, 'f, 'h) zend_objects_store option" where
  "zend_objects_store_add_ref_by_handle handle s = bucket_upd handle (\<lambda>b. b\<lparr>refcount := refcount b + 1\<rparr>) s"

text \<open>\<open>free_list_head = handle\<close> converts the unsigned handle to \<open>int\<close>.\<close>

definition ZEND_OBJECTS_STORE_ADD_TO_FREE_LIST :: "uint \<Rightarrow> ('o, 'f, 'h) zend_objects_store \<Rightarrow> ('o, 'f, 'h) zend_objects_store option" where
  "ZEND_OBJECTS_STORE_ADD_TO_FREE_LIST handle s = do {
     s \<leftarrow> bucket_upd handle (\<lambda>b. b\<lparr>b_head := FreeNext (free_list_head s)\<rparr>) s;
     let s = s\<lparr>free_list_head := sint handle\<rparr>;
     bucket_upd handle (\<lambda>b. b\<lparr>valid := False\<rparr>) s
   }"

text \<open>The destructor part of \<open>del_ref_by_handle_ex\<close>, under \<open>zend_try\<close>: a bailout is remembered.\<close>

definition del_ref_destruct :: "('o, 'f, 'h) dtor_fun \<Rightarrow> uint \<Rightarrow> 'h option \<Rightarrow> ('o, 'f, 'h) zend_objects_store \<Rightarrow>
    (('o, 'f, 'h) zend_objects_store \<times> bool) option" where
  "del_ref_destruct run_dtor handle handlers s = do {
     b \<leftarrow> bucket_at s handle;
     if \<not> destructor_called b then do {
       s \<leftarrow> bucket_upd handle (\<lambda>b. b\<lparr>destructor_called := True\<rparr>) s;
       case b_dtor b of
         Some d \<Rightarrow> do {
           s \<leftarrow> bucket_upd handle (\<lambda>b. if handlers \<noteq> None \<and> b_handlers b = None then b\<lparr>b_handlers := handlers\<rparr> else b) s;
           p \<leftarrow> head_object b;
           Some (run_dtor d p handle s)
         }
       | None \<Rightarrow> Some (s, False)
     } else Some (s, False)
   }"

text \<open>
  The pointer \<open>obj\<close> of the sources is read again after the destructor but not after \<open>free_storage\<close>:
  \<open>block\<close> is the block it points into, and \<open>obj->refcount--\<close> is undefined when the store has moved.
\<close>

definition zend_objects_store_del_ref_by_handle_ex ::
  "('o, 'f, 'h) dtor_fun \<Rightarrow> ('o, 'f, 'h) free_fun \<Rightarrow> uint \<Rightarrow> 'h option \<Rightarrow> ('o, 'f, 'h) zend_objects_store \<Rightarrow>
   (('o, 'f, 'h) zend_objects_store \<times> bool) option" where
  "zend_objects_store_del_ref_by_handle_ex run_dtor run_free handle handlers s =
     (if object_buckets s = None then Some (s, False)
      else do {
        b \<leftarrow> bucket_at s handle;
        (s, block, failure) \<leftarrow> (if valid b \<and> refcount b = 1 then do {
            (s, fail1) \<leftarrow> del_ref_destruct run_dtor handle handlers s;
            let block = os_block s;
            b \<leftarrow> bucket_at s handle;
            if refcount b = 1 then do {
              s \<leftarrow> objects_GC_REMOVE_ZOBJ_FROM_BUFFER handle s;
              (s, fail2) \<leftarrow> (case b_free_storage b of
                 Some f \<Rightarrow> do { p \<leftarrow> head_object b; Some (run_free f p s) }
               | None \<Rightarrow> Some (s, False));
              s \<leftarrow> ZEND_OBJECTS_STORE_ADD_TO_FREE_LIST handle s;
              Some (s, block, fail1 \<or> fail2)
            } else Some (s, block, fail1)
          } else Some (s, os_block s, False));
        if block = os_block s then do {
          s \<leftarrow> bucket_upd handle (\<lambda>b. b\<lparr>refcount := refcount b - 1\<rparr>) s;
          Some (s, failure)
        } else None
      })"

text \<open>A \<open>zval\<close> that refers to an object: its own reference count, the handle and the handlers.\<close>

record 'h object_zval =
  z_refcount :: uint
  z_handle :: uint
  z_handlers :: "'h option"

definition zend_objects_store_del_ref ::
  "('o, 'f, 'h) dtor_fun \<Rightarrow> ('o, 'f, 'h) free_fun \<Rightarrow> (uint \<Rightarrow> ('o, 'f, 'h) zend_objects_store \<Rightarrow> ('o, 'f, 'h) zend_objects_store) \<Rightarrow>
   'h object_zval \<Rightarrow> ('o, 'f, 'h) zend_objects_store \<Rightarrow> ('h object_zval \<times> ('o, 'f, 'h) zend_objects_store \<times> bool) option" where
  "zend_objects_store_del_ref run_dtor run_free gc_zobj_possible_root z s = do {
     let z = z\<lparr>z_refcount := z_refcount z + 1\<rparr>;
     (s, bail) \<leftarrow> zend_objects_store_del_ref_by_handle_ex run_dtor run_free (z_handle z) (z_handlers z) s;
     if bail then Some (z, s, True)
     else do {
       let z = z\<lparr>z_refcount := z_refcount z - 1\<rparr>;
       s \<leftarrow> (if object_buckets s = None then Some s
         else do { b \<leftarrow> bucket_at s (z_handle z); Some (if valid b then gc_zobj_possible_root (z_handle z) s else s) });
       Some (z, s, False)
     }
   }"

text \<open>\<open>run_clone\<close> is the object's clone callback: the store afterwards and the new object.  An object without one is a fatal error.\<close>

definition zend_objects_store_clone_obj ::
  "('f \<Rightarrow> 'o option \<Rightarrow> ('o, 'f, 'h) zend_objects_store \<Rightarrow> ('o, 'f, 'h) zend_objects_store \<times> 'o option) \<Rightarrow> 'f \<Rightarrow>
   uint \<Rightarrow> 'h option \<Rightarrow> ('o, 'f, 'h) zend_objects_store \<Rightarrow> (('o, 'f, 'h) zend_objects_store \<times> (uint \<times> 'h option) option) option" where
  "zend_objects_store_clone_obj run_clone std_dtor handle ht s = do {
     b \<leftarrow> bucket_at s handle;
     (case b_clone b of
        None \<Rightarrow> Some (s, None)
      | Some c \<Rightarrow> do {
          p \<leftarrow> head_object b;
          let (s, new_object) = run_clone c p s;
          b \<leftarrow> bucket_at s handle;
          (s, h) \<leftarrow> zend_objects_store_put std_dtor new_object (b_dtor b) (b_free_storage b) (b_clone b) s;
          s \<leftarrow> bucket_upd handle (\<lambda>b. b\<lparr>b_handlers := ht\<rparr>) s;
          Some (s, Some (h, ht))
        })
   }"

definition zend_object_store_get_object :: "uint \<Rightarrow> ('o, 'f, 'h) zend_objects_store \<Rightarrow> 'o option option" where
  "zend_object_store_get_object handle s = do { b \<leftarrow> bucket_at s handle; head_object b }"

definition zend_object_store_get_object_by_handle :: "uint \<Rightarrow> ('o, 'f, 'h) zend_objects_store \<Rightarrow> 'o option option" where
  "zend_object_store_get_object_by_handle handle s = do { b \<leftarrow> bucket_at s handle; head_object b }"

definition zend_object_store_set_object :: "uint \<Rightarrow> 'o option \<Rightarrow> ('o, 'f, 'h) zend_objects_store \<Rightarrow> ('o, 'f, 'h) zend_objects_store option" where
  "zend_object_store_set_object handle object s = bucket_upd handle (\<lambda>b. b\<lparr>b_head := Object object\<rparr>) s"

definition zend_object_store_ctor_failed :: "uint \<Rightarrow> 'h option \<Rightarrow> ('o, 'f, 'h) zend_objects_store \<Rightarrow> ('o, 'f, 'h) zend_objects_store option" where
  "zend_object_store_ctor_failed handle ht s = bucket_upd handle (\<lambda>b. b\<lparr>b_handlers := ht, destructor_called := True\<rparr>) s"

end
