(* ===== verification/Zend_Objects_Spec.thy ===== *)
theory Zend_Objects_Spec
  imports Zend_Objects
begin

text \<open>
  Correctness of the objects store: the invariant of the bucket array and its free list, the map from handles to
  live buckets that clients see, the effect of every operation on it, and runs of clients that hold
  references.
\<close>

subsection \<open>Cells\<close>

definition cells :: "('o, 'f, 'h) zend_objects_store \<Rightarrow> nat" where
  "cells s = (case object_buckets s of None \<Rightarrow> 0 | Some cs \<Rightarrow> length cs)"

lemma bucket_at_cells: "bucket_at s h = Some b \<Longrightarrow> unat h < cells s \<and> object_buckets s \<noteq> None"
  by (auto simp: bucket_at_def cells_def split: option.splits if_splits)

lemma bucket_put_cells:
  assumes "unat h < cells s"
  obtains s' where "bucket_put h b s = Some s'"
    and "\<And>k. bucket_at s' k = (if k = h then Some b else bucket_at s k)"
    and "cells s' = cells s" and "object_buckets s' \<noteq> None" and "os_top s' = os_top s" and "os_size s' = os_size s"
    and "free_list_head s' = free_list_head s" and "os_block s' = os_block s" and "gc_active s' = gc_active s"
proof -
  obtain cs where cs: "object_buckets s = Some cs" "unat h < length cs"
    using assms by (auto simp: cells_def split: option.splits)
  show ?thesis
    by (rule that [of "s\<lparr>object_buckets := Some (cs[unat h := Some b])\<rparr>"])
      (use cs in \<open>auto simp: bucket_put_def bucket_at_def cells_def nth_list_update dest: word_unat_eq_iff [THEN iffD2]\<close>)
qed

text \<open>The same for a store whose scalar fields have just been changed.\<close>

lemma bucket_put_after:
  assumes "unat h < cells s" and "object_buckets s0 = object_buckets s"
  shows "\<exists>s'. bucket_put h b s0 = Some s' \<and> (\<forall>k. bucket_at s' k = (if k = h then Some b else bucket_at s k))
    \<and> cells s' = cells s \<and> object_buckets s' \<noteq> None \<and> os_top s' = os_top s0 \<and> os_size s' = os_size s0
    \<and> free_list_head s' = free_list_head s0 \<and> os_block s' = os_block s0 \<and> gc_active s' = gc_active s0"
proof -
  have "unat h < cells s0" using assms by (simp add: cells_def)
  moreover have "bucket_at s0 = bucket_at s" "cells s0 = cells s" using assms by (simp_all add: cells_def bucket_at_def fun_eq_iff)
  ultimately show ?thesis by (metis bucket_put_cells)
qed

subsection \<open>The invariant\<close>

fun free_chain :: "('o, 'f, 'h) zend_objects_store \<Rightarrow> int \<Rightarrow> uint list \<Rightarrow> bool" where
  "free_chain s n [] = (n = - 1)"
| "free_chain s n (h # hs) = (n = int (unat h) \<and>
     (case bucket_at s h of None \<Rightarrow> False
      | Some b \<Rightarrow> \<not> valid b \<and> (case b_head b of Object _ \<Rightarrow> False | FreeNext m \<Rightarrow> free_chain s m hs)))"

definition bucket_ok :: "('o, 'f, 'h) zend_object_store_bucket option \<Rightarrow> bool" where
  "bucket_ok c = (case c of None \<Rightarrow> False | Some b \<Rightarrow> valid b \<longrightarrow> (\<exists>p. b_head b = Object p))"

definition store_inv :: "('o, 'f, 'h) zend_objects_store \<Rightarrow> uint list \<Rightarrow> bool" where
  "store_inv s fl \<longleftrightarrow> object_buckets s \<noteq> None \<and> cells s = unat (os_size s) \<and> unat (os_size s) \<le> 2 ^ 26
     \<and> 0 < os_top s \<and> os_top s \<le> os_size s \<and> (\<forall>h < os_top s. bucket_ok (bucket_at s h))
     \<and> (\<forall>b. bucket_at s 0 = Some b \<longrightarrow> \<not> valid b)
     \<and> free_chain s (free_list_head s) fl \<and> distinct fl \<and> (\<forall>h \<in> set fl. 0 < h \<and> h < os_top s)"

text \<open>What clients see: the buckets of the objects that are alive.\<close>

definition live :: "('o, 'f, 'h) zend_objects_store \<Rightarrow> uint \<Rightarrow> ('o, 'f, 'h) zend_object_store_bucket option" where
  "live s h = (if h < os_top s then
     (case bucket_at s h of None \<Rightarrow> None | Some b \<Rightarrow> if valid b then Some b else None) else None)"

lemma liveD: "live s h = Some b \<Longrightarrow> h < os_top s \<and> bucket_at s h = Some b \<and> valid b"
  by (auto simp: live_def split: if_splits option.splits)

lemma live_object: "store_inv s fl \<Longrightarrow> live s h = Some b \<Longrightarrow> \<exists>p. b_head b = Object p"
  using liveD [of s h b] by (auto simp: store_inv_def bucket_ok_def)

lemma live_nonzero: "store_inv s fl \<Longrightarrow> live s h = Some b \<Longrightarrow> h \<noteq> 0"
  using liveD [of s h b] by (auto simp: store_inv_def)

lemma free_chain_cong:
  "free_chain s n hs \<Longrightarrow> (\<And>h. h \<in> set hs \<Longrightarrow> \<exists>b b'. bucket_at s h = Some b \<and> bucket_at s' h = Some b'
      \<and> valid b' = valid b \<and> b_head b' = b_head b) \<Longrightarrow> free_chain s' n hs"
proof (induction s n hs rule: free_chain.induct)
  case (2 s n h hs)
  obtain b b' where "bucket_at s h = Some b" "bucket_at s' h = Some b'" "valid b' = valid b" "b_head b' = b_head b"
    using "2.prems"(2) by force
  with 2 show ?case by (fastforce split: bucket_head.splits option.splits)
qed simp

lemma free_chain_bucket: "free_chain s n hs \<Longrightarrow> h \<in> set hs \<Longrightarrow> \<exists>b. bucket_at s h = Some b \<and> \<not> valid b"
  by (induction s n hs rule: free_chain.induct) (auto split: option.splits bucket_head.splits)

lemma free_chain_dead: "store_inv s fl \<Longrightarrow> h \<in> set fl \<Longrightarrow> live s h = None"
  using free_chain_bucket [of s "free_list_head s" fl h] by (auto simp: store_inv_def live_def)

text \<open>Rewriting a bucket in place keeps the invariant.\<close>

lemma bucket_put_inv:
  assumes inv: "store_inv s fl" and h: "h < os_top s" and b: "bucket_at s h = Some b"
    and v: "valid b' = valid b" and hd: "b_head b' = b_head b \<or> valid b \<and> (\<exists>p. b_head b' = Object p)"
  obtains s' where "bucket_put h b' s = Some s'" and "store_inv s' fl"
    and "live s' = (if valid b then (live s)(h \<mapsto> b') else live s)" and "bucket_at s' h = Some b'"
    and "free_list_head s' = free_list_head s" and "os_block s' = os_block s" and "os_top s' = os_top s"
    and "gc_active s' = gc_active s" and "os_size s' = os_size s"
proof -
  obtain s' where s': "bucket_put h b' s = Some s'"
    "\<And>k. bucket_at s' k = (if k = h then Some b' else bucket_at s k)" "cells s' = cells s"
    "object_buckets s' \<noteq> None" "os_top s' = os_top s" "os_size s' = os_size s"
    "free_list_head s' = free_list_head s" "os_block s' = os_block s" "gc_active s' = gc_active s"
    using bucket_put_cells [of h s b'] bucket_at_cells [OF b] by blast
  have "free_chain s' (free_list_head s) fl"
  proof (rule free_chain_cong)
    show "free_chain s (free_list_head s) fl" using inv by (simp add: store_inv_def)
    fix k assume "k \<in> set fl"
    then obtain c where "bucket_at s k = Some c" "\<not> valid c"
      using inv free_chain_bucket by (force simp: store_inv_def)
    then show "\<exists>b b'. bucket_at s k = Some b \<and> bucket_at s' k = Some b' \<and> valid b' = valid b \<and> b_head b' = b_head b"
      using b v hd s'(2) by (cases "k = h") auto
  qed
  moreover have "\<forall>k < os_top s. bucket_ok (bucket_at s' k)"
    using inv h b v hd s'(2) by (auto simp: store_inv_def bucket_ok_def split: option.splits)
  moreover have "\<forall>c. bucket_at s' 0 = Some c \<longrightarrow> \<not> valid c"
    using inv b v s'(2) by (auto simp: store_inv_def)
  ultimately have "store_inv s' fl" using inv s' by (simp add: store_inv_def)
  moreover have "live s' = (if valid b then (live s)(h \<mapsto> b') else live s)"
    using h b v s' by (auto simp: live_def fun_eq_iff)
  ultimately show ?thesis using that s' by auto
qed

lemma bucket_upd_inv:
  assumes "store_inv s fl" and "h < os_top s" and "bucket_at s h = Some b"
    and "valid (f b) = valid b" and "b_head (f b) = b_head b \<or> valid b \<and> (\<exists>p. b_head (f b) = Object p)"
  obtains s' where "bucket_upd h f s = Some s'" and "store_inv s' fl"
    and "live s' = (if valid b then (live s)(h \<mapsto> f b) else live s)" and "bucket_at s' h = Some (f b)"
    and "free_list_head s' = free_list_head s" and "os_block s' = os_block s" and "os_top s' = os_top s"
    and "gc_active s' = gc_active s" and "os_size s' = os_size s"
  using bucket_put_inv [OF assms, of thesis] assms(3) by (simp add: bucket_upd_def)

subsection \<open>Creating and recycling\<close>

lemma free_list_push:
  assumes inv: "store_inv s fl" and l: "live s h = Some b"
  obtains s' m where "ZEND_OBJECTS_STORE_ADD_TO_FREE_LIST h s = Some s'" and "store_inv s' (h # fl)"
    and "live s' = (live s)(h := None)" and "bucket_at s' h = Some (b\<lparr>b_head := FreeNext m, valid := False\<rparr>)"
    and "os_block s' = os_block s" and "os_top s' = os_top s"
proof -
  note h = liveD [OF l]
  let ?b1 = "b\<lparr>b_head := FreeNext (free_list_head s)\<rparr>" and ?b2 = "b\<lparr>b_head := FreeNext (free_list_head s), valid := False\<rparr>"
  obtain s1 where s1: "bucket_put h ?b1 s = Some s1"
    "\<And>k. bucket_at s1 k = (if k = h then Some ?b1 else bucket_at s k)" "cells s1 = cells s"
    "object_buckets s1 \<noteq> None" "os_top s1 = os_top s" "os_size s1 = os_size s" "free_list_head s1 = free_list_head s"
    "os_block s1 = os_block s" "gc_active s1 = gc_active s"
    using bucket_put_cells [of h s ?b1] bucket_at_cells h by blast
  let ?s = "s1\<lparr>free_list_head := sint h\<rparr>"
  have at1: "bucket_at ?s h = Some ?b1" using s1(2) by (simp add: bucket_at_def)
  have "unat h < cells s1" using s1(3) bucket_at_cells h by metis
  then obtain s2 where s2: "bucket_put h ?b2 ?s = Some s2"
    "\<forall>k. bucket_at s2 k = (if k = h then Some ?b2 else bucket_at s1 k)" "cells s2 = cells s1"
    "object_buckets s2 \<noteq> None" "os_top s2 = os_top s1" "os_size s2 = os_size s1" "free_list_head s2 = sint h"
    "os_block s2 = os_block s1"
    using bucket_put_after [of h s1 ?s ?b2] by force
  have at2: "bucket_at s2 k = (if k = h then Some ?b2 else bucket_at s k)" for k
    using s2(2) s1(2) by simp
  have op: "ZEND_OBJECTS_STORE_ADD_TO_FREE_LIST h s = Some s2"
    using h s1(1) s2(1) at1 by (simp add: ZEND_OBJECTS_STORE_ADD_TO_FREE_LIST_def bucket_upd_def Let_def)
  have nf: "h \<notin> set fl" using free_chain_dead [OF inv] l by auto
  have sz: "unat h < 2 ^ 26" using h inv by (auto simp: store_inv_def word_less_nat_alt word_le_nat_alt)
  have sh: "sint h = int (unat h)" 
  proof -
    have "unat h < 2 ^ 31" using sz by simp
    then have "int (unat h) < int (2 ^ 31)" by (simp only: of_nat_less_iff)
    then have "uint h < 2 ^ 31" by (simp only: uint_nat of_nat_power of_nat_numeral)
    then show ?thesis unfolding uint_nat [symmetric] by (rule sint_small)
  qed
  have "free_chain s2 (free_list_head s) fl"
    by (rule free_chain_cong [of s]) (use inv nf at2 free_chain_bucket in \<open>force simp: store_inv_def\<close>)+
  then have fc: "free_chain s2 (free_list_head s2) (h # fl)" using at2 s2 sh by simp
  have bo: "\<forall>k < os_top s2. bucket_ok (bucket_at s2 k)"
    using inv at2 s2 s1 by (auto simp: store_inv_def bucket_ok_def split: option.splits)
  have i2: "store_inv s2 (h # fl)"
    unfolding store_inv_def
    using inv fc bo at2 s1 s2 h nf live_nonzero [OF inv l] by (auto simp: store_inv_def word_neq_0_conv)
  have lv: "live s2 = (live s)(h := None)" using at2 s2 s1 by (auto simp: live_def fun_eq_iff)
  have blk: "os_block s2 = os_block s" "os_top s2 = os_top s" using s1 s2 by simp_all
  show ?thesis by (rule that [OF op i2 lv _ blk]) (simp add: at2)
qed

definition new_bucket :: "'f \<Rightarrow> 'o option \<Rightarrow> 'f option \<Rightarrow> 'f option \<Rightarrow> 'f option \<Rightarrow> ('o, 'f, 'h) zend_object_store_bucket" where
  "new_bucket std object dtor free_storage clone =
     \<lparr>destructor_called = False, valid = True, apply_count = 0, b_head = Object object,
      b_dtor = Some (case dtor of Some d \<Rightarrow> d | None \<Rightarrow> std),
      b_free_storage = free_storage, b_clone = clone, b_handlers = None, refcount = 1, buffered = False\<rparr>"

text \<open>The store has room when a handle is free or the array can still be doubled.\<close>

definition store_room :: "('o, 'f, 'h) zend_objects_store \<Rightarrow> bool" where
  "store_room s \<longleftrightarrow> free_list_head s \<noteq> - 1 \<or> os_top s < os_size s \<or> unat (os_size s) \<le> 2 ^ 25"

text \<open>The array after the handle of a new object has been made: the growth of the array keeps every bucket.\<close>

lemma grow_store:
  assumes inv: "store_inv s fl" and full: "os_top s = os_size s" and room: "unat (os_size s) \<le> 2 ^ 25"
  obtains cs where "object_buckets s = Some cs" and "length cs = unat (os_size s)"
    and "unat (push_bit 1 (os_size s)) = 2 * length cs"
    and "unat (push_bit 1 (os_size s) * sizeof_bucket) div unat sizeof_bucket = 2 * length cs"
proof -
  obtain cs where cs: "object_buckets s = Some cs" "length cs = unat (os_size s)"
    using inv by (auto simp: store_inv_def cells_def split: option.splits)
  have p: "push_bit 1 (os_size s) = os_size s * 2" by (simp add: push_bit_eq_mult)
  have d: "unat (os_size s * 2) = 2 * length cs" using room cs by (simp add: unat_word_ariths)
  have "unat (os_size s * 2 * sizeof_bucket) div unat sizeof_bucket = 2 * length cs"
    by (subst unat_word_ariths(2)) (use d room cs in \<open>simp add: sizeof_bucket_def\<close>)
  then show ?thesis using that cs p d by simp
qed

lemma store_put_fresh:
  assumes inv: "store_inv s []" and room: "store_room s"
  obtains s' where "zend_objects_store_put std object dtor free_storage clone s = Some (s', os_top s)"
    and "store_inv s' []" and "live s (os_top s) = None"
    and "live s' = (live s)(os_top s \<mapsto> new_bucket std object dtor free_storage clone)"
proof -
  let ?nb = "new_bucket std object dtor free_storage clone" and ?h = "os_top s"
  define n where "n = (if ?h = os_size s then 2 * unat (os_size s) else unat (os_size s))"
  have fh: "free_list_head s = - 1" using inv by (simp add: store_inv_def)
  have sz: "unat (os_size s) \<le> 2 ^ 26" "unat ?h \<le> unat (os_size s)" "0 < unat ?h"
    using inv by (simp_all add: store_inv_def word_le_nat_alt word_less_nat_alt)
  have szr: "unat (os_size s) \<le> 2 ^ 25" if "?h = os_size s"
    using room fh that by (simp add: store_room_def)
  obtain s1 where s1: "(if ?h = os_size s then do {
             cs \<leftarrow> object_buckets s;
             let sz = push_bit 1 (os_size s);
             let n = unat (sz * sizeof_bucket) div unat sizeof_bucket;
             Some (s\<lparr>os_size := sz, object_buckets := Some (take n cs @ replicate (n - length cs) None), os_block := Suc (os_block s)\<rparr>)
           } else Some s) = Some s1"
    "os_top s1 = ?h" "free_list_head s1 = - 1" "cells s1 = n" "unat (os_size s1) = n"
    "\<And>k. k < ?h \<Longrightarrow> bucket_at s1 k = bucket_at s k"
  proof (cases "?h = os_size s")
    case True
    obtain cs where cs: "object_buckets s = Some cs" "length cs = unat (os_size s)"
      "unat (push_bit 1 (os_size s)) = 2 * length cs"
      "unat (push_bit 1 (os_size s) * sizeof_bucket) div unat sizeof_bucket = 2 * length cs"
      using grow_store [OF inv True szr [OF True]] by blast
    show ?thesis
      by (rule that [of "s\<lparr>os_size := push_bit 1 (os_size s), object_buckets := Some (cs @ replicate (length cs) None), os_block := Suc (os_block s)\<rparr>"])
        (use True cs fh in \<open>simp_all add: Let_def n_def cells_def bucket_at_def nth_append word_less_nat_alt\<close>)
  next
    case False
    show ?thesis by (rule that [of s]) (use False inv fh in \<open>simp_all add: n_def store_inv_def\<close>)
  qed
  have hn: "unat ?h < n" "n \<le> 2 ^ 26"
    using sz szr by (auto simp: n_def word_unat_eq_iff)
  let ?s = "s1\<lparr>os_top := ?h + 1\<rparr>"
  obtain s2 where s2: "bucket_put ?h ?nb ?s = Some s2"
    "\<forall>k. bucket_at s2 k = (if k = ?h then Some ?nb else bucket_at s1 k)" "cells s2 = n"
    "object_buckets s2 \<noteq> None" "os_top s2 = ?h + 1" "os_size s2 = os_size s1" "free_list_head s2 = - 1"
    using bucket_put_after [of ?h s1 ?s ?nb] hn s1 by force
  have lt: "k < ?h + 1 \<longleftrightarrow> k = ?h \<or> k < ?h" for k
    using hn unat_inc [of ?h] by (auto simp: word_less_nat_alt word_unat_eq_iff)
  have op: "zend_objects_store_put std object dtor free_storage clone s = Some (s2, ?h)"
    unfolding zend_objects_store_put_def using s1(1,2) s2(1) fh by (simp add: new_bucket_def)
  have "store_inv s2 []"
    unfolding store_inv_def
    using inv s2 s1 hn lt unat_inc [of ?h]
    by (auto simp: store_inv_def bucket_ok_def new_bucket_def word_le_nat_alt word_less_nat_alt)
  moreover have "live s2 = (live s)(?h \<mapsto> ?nb)"
    using s2 s1 lt by (auto simp: live_def fun_eq_iff new_bucket_def)
  ultimately show ?thesis using that op by (simp add: live_def)
qed

lemma store_put_recycled:
  assumes inv: "store_inv s (h # fl)"
  obtains s' where "zend_objects_store_put std object dtor free_storage clone s = Some (s', h)"
    and "store_inv s' fl" and "live s h = None"
    and "live s' = (live s)(h \<mapsto> new_bucket std object dtor free_storage clone)"
proof -
  let ?nb = "new_bucket std object dtor free_storage clone"
  obtain b m where b: "bucket_at s h = Some b" "\<not> valid b" "b_head b = FreeNext m" "free_chain s m fl"
    "free_list_head s = int (unat h)" "h < os_top s" "0 < h" "h \<notin> set fl"
    using inv by (auto simp: store_inv_def split: option.splits bucket_head.splits)
  let ?s = "s\<lparr>free_list_head := m\<rparr>"
  obtain s2 where s2: "bucket_put h ?nb ?s = Some s2"
    "\<forall>k. bucket_at s2 k = (if k = h then Some ?nb else bucket_at s k)" "cells s2 = cells s"
    "object_buckets s2 \<noteq> None" "os_top s2 = os_top s" "os_size s2 = os_size s" "free_list_head s2 = m"
    using bucket_put_after [of h s ?s ?nb] bucket_at_cells [OF b(1)] by force
  have "free_chain s2 m fl"
    by (rule free_chain_cong [OF b(4)]) (use b s2 free_chain_bucket in force)
  then have "store_inv s2 fl"
    unfolding store_inv_def using inv s2 b by (auto simp: store_inv_def bucket_ok_def new_bucket_def)
  moreover have "live s2 = (live s)(h \<mapsto> ?nb)"
    using s2 b by (auto simp: live_def fun_eq_iff new_bucket_def)
  moreover have "zend_objects_store_put std object dtor free_storage clone s = Some (s2, h)"
  proof -
    have "free_list_head s \<noteq> - 1" using b(5) by linarith
    moreover have "word_of_int (free_list_head s) = h" using b(5) by simp
    ultimately show ?thesis unfolding zend_objects_store_put_def using b(1,3) s2(1) by (simp add: new_bucket_def)
  qed
  ultimately show ?thesis using that b by (simp add: live_def)
qed

subsection \<open>Dropping references\<close>

text \<open>
  What the store relies on of the callbacks it runs for an object: they keep the store well formed and the object
  alive; \<open>free_storage\<close> takes no reference to the dying object and does not move the store.
\<close>

definition dtor_contract :: "('o, 'f, 'h) dtor_fun \<Rightarrow> bool" where
  "dtor_contract run_dtor \<longleftrightarrow> (\<forall>d p h s fl b. store_inv s fl \<longrightarrow> live s h = Some b \<longrightarrow>
     (\<exists>fl' b'. store_inv (fst (run_dtor d p h s)) fl' \<and> live (fst (run_dtor d p h s)) h = Some b'))"

definition free_contract :: "('o, 'f, 'h) free_fun \<Rightarrow> uint \<Rightarrow> bool" where
  "free_contract run_free h \<longleftrightarrow> (\<forall>f p s fl b. store_inv s fl \<longrightarrow> live s h = Some b \<longrightarrow>
     os_block (fst (run_free f p s)) = os_block s \<and>
     (\<exists>fl' b'. store_inv (fst (run_free f p s)) fl' \<and> live (fst (run_free f p s)) h = Some b'))"

lemma dtor_contractD:
  "dtor_contract run_dtor \<Longrightarrow> store_inv s fl \<Longrightarrow> live s h = Some b \<Longrightarrow>
    \<exists>fl' b'. store_inv (fst (run_dtor d p h s)) fl' \<and> live (fst (run_dtor d p h s)) h = Some b'"
  unfolding dtor_contract_def by blast

lemma free_contractD:
  "free_contract run_free h \<Longrightarrow> store_inv s fl \<Longrightarrow> live s h = Some b \<Longrightarrow>
    os_block (fst (run_free f p s)) = os_block s \<and>
    (\<exists>fl' b'. store_inv (fst (run_free f p s)) fl' \<and> live (fst (run_free f p s)) h = Some b')"
  unfolding free_contract_def by blast

lemma gc_remove_inv:
  assumes "store_inv s fl" and "live s h = Some b"
  obtains s' b' where "objects_GC_REMOVE_ZOBJ_FROM_BUFFER h s = Some s'" and "store_inv s' fl" and "live s' = (live s)(h \<mapsto> b')"
    and "b' = b \<or> b' = b\<lparr>buffered := False\<rparr>" and "os_block s' = os_block s"
proof -
  let ?f = "\<lambda>b. if buffered b \<and> \<not> gc_active s then b\<lparr>buffered := False\<rparr> else b"
  have l: "h < os_top s" "bucket_at s h = Some b" "valid b" using liveD [OF assms(2)] by auto
  show ?thesis
    by (rule bucket_upd_inv [OF assms(1) l(1,2), of ?f]) (use l that in \<open>auto simp: objects_GC_REMOVE_ZOBJ_FROM_BUFFER_def\<close>)
qed

lemma del_ref_destruct_inv:
  assumes inv: "store_inv s fl" and l: "live s h = Some b" and dc: "dtor_contract run_dtor"
  obtains s' bail fl' b' where "del_ref_destruct run_dtor h handlers s = Some (s', bail)"
    and "store_inv s' fl'" and "live s' h = Some b'"
    and "destructor_called b \<Longrightarrow> s' = s \<and> \<not> bail"
    and "\<not> destructor_called b \<Longrightarrow> b_dtor b = None \<Longrightarrow> live s' = (live s)(h \<mapsto> b\<lparr>destructor_called := True\<rparr>) \<and> \<not> bail"
    and "\<And>d p. \<not> destructor_called b \<Longrightarrow> b_dtor b = Some d \<Longrightarrow> b_head b = Object p \<Longrightarrow>
      \<exists>s1. store_inv s1 fl \<and> (s', bail) = run_dtor d p h s1
        \<and> (\<exists>hh. live s1 = (live s)(h \<mapsto> b\<lparr>destructor_called := True, b_handlers := hh\<rparr>))"
proof (cases "destructor_called b")
  case True
  show ?thesis
    by (rule that [of s False fl b]) (use True inv l liveD [OF l] in \<open>simp_all add: del_ref_destruct_def\<close>)
next
  case False
  let ?f = "\<lambda>b. b\<lparr>destructor_called := True\<rparr>"
    and ?g = "\<lambda>b. if handlers \<noteq> None \<and> b_handlers b = None then b\<lparr>b_handlers := handlers\<rparr> else b"
  have hb: "h < os_top s" "bucket_at s h = Some b" "valid b" using liveD [OF l] by auto
  obtain p where p: "b_head b = Object p" using live_object [OF inv l] by blast
  obtain s1 where s1: "bucket_upd h ?f s = Some s1" "store_inv s1 fl" "live s1 = (live s)(h \<mapsto> ?f b)"
    "bucket_at s1 h = Some (?f b)" "os_top s1 = os_top s"
    by (rule bucket_upd_inv [OF inv hb(1,2), of ?f]) (use hb in auto)
  obtain s2 where s2: "bucket_upd h ?g s1 = Some s2" "store_inv s2 fl" "live s2 = (live s1)(h \<mapsto> ?g (?f b))"
    by (rule bucket_upd_inv [OF s1(2) _ s1(4), of ?g]) (use hb s1(5) in auto)
  have g: "\<exists>hh. ?g (?f b) = b\<lparr>destructor_called := True, b_handlers := hh\<rparr>"
    by (cases b) auto
  show ?thesis
  proof (cases "b_dtor b")
    case None
    then show ?thesis
      using that [of s1 False fl "?f b"] False s1 hb by (simp add: del_ref_destruct_def)
  next
    case (Some d)
    obtain s3 bail where r: "run_dtor d p h s2 = (s3, bail)" by fastforce
    then obtain fl' b' where "store_inv s3 fl'" "live s3 h = Some b'"
      using dtor_contractD [OF dc s2(2), of h "?g (?f b)" d p] s2(3) by auto
    moreover have "del_ref_destruct run_dtor h handlers s = Some (s3, bail)"
      using False Some p s1 s2 hb r by (simp add: del_ref_destruct_def head_object_def)
    moreover obtain hh where "live s2 = (live s)(h \<mapsto> b\<lparr>destructor_called := True, b_handlers := hh\<rparr>)"
      using s1(3) s2(3) g by auto
    ultimately show ?thesis
      by (intro that [of s3 bail fl' b']) (use False Some p r s2(2) in \<open>auto intro: exI [of _ s2]\<close>)
  qed
qed

lemma free_storage_inv:
  assumes inv: "store_inv s fl" and l: "live s h = Some b" and fc: "free_contract run_free h" and p: "b_head b = Object p"
  obtains s' bail fl' b' where "(case b_free_storage b of
                 Some f \<Rightarrow> do { p \<leftarrow> head_object b; Some (run_free f p s) }
               | None \<Rightarrow> Some (s, False)) = Some (s', bail)"
    and "store_inv s' fl'" and "live s' h = Some b'" and "os_block s' = os_block s"
    and "(s', bail) = (case b_free_storage b of None \<Rightarrow> (s, False) | Some f \<Rightarrow> run_free f p s)"
proof (cases "b_free_storage b")
  case None
  then show ?thesis using that [of s False fl b] inv l by simp
next
  case (Some f)
  obtain s' bail where r: "run_free f p s = (s', bail)" by fastforce
  then show ?thesis
    using free_contractD [OF fc inv l, of f p] Some p
    by (elim conjE exE) (rule that [of s' bail], simp_all add: head_object_def)
qed

text \<open>The last reference goes: the storage is freed and the handle becomes the first of the free list.\<close>

lemma del_ref_free:
  assumes inv: "store_inv s fl" and l: "live s h = Some b" and fc: "free_contract run_free h" and p: "b_head b = Object p"
    and r1: "refcount b = 1"
  obtains s' bail fl' s3 where "(do {
              s \<leftarrow> objects_GC_REMOVE_ZOBJ_FROM_BUFFER h s;
              (s, fail2) \<leftarrow> (case b_free_storage b of
                 Some f \<Rightarrow> do { p \<leftarrow> head_object b; Some (run_free f p s) }
               | None \<Rightarrow> Some (s, False));
              s \<leftarrow> ZEND_OBJECTS_STORE_ADD_TO_FREE_LIST h s;
              Some (s, os_block s0, fail1 \<or> fail2) }) = Some (s', os_block s0, fail1 \<or> bail)"
    and "store_inv s' (h # fl')" and "os_block s' = os_block s" and "store_inv s3 fl"
    and "live s3 = (live s)(h \<mapsto> b) \<or> live s3 = (live s)(h \<mapsto> b\<lparr>buffered := False\<rparr>)"
    and "bail = (case b_free_storage b of None \<Rightarrow> False | Some f \<Rightarrow> snd (run_free f p s3))"
    and "live s' = (live (case b_free_storage b of None \<Rightarrow> s3 | Some f \<Rightarrow> fst (run_free f p s3)))(h := None)"
proof -
  obtain s3 b3 where s3: "objects_GC_REMOVE_ZOBJ_FROM_BUFFER h s = Some s3" "store_inv s3 fl" "live s3 = (live s)(h \<mapsto> b3)"
    "b3 = b \<or> b3 = b\<lparr>buffered := False\<rparr>" "os_block s3 = os_block s"
    using gc_remove_inv [OF inv l] by metis
  have l3: "live s3 h = Some b3" and p3: "b_head b3 = Object p" and f3: "b_free_storage b3 = b_free_storage b"
    using s3 p by auto
  have ho: "head_object b3 = head_object b" using s3(4) by (auto simp: head_object_def)
  obtain s4 bail fl4 b4 where s4: "(case b_free_storage b of
                 Some f \<Rightarrow> do { p \<leftarrow> head_object b; Some (run_free f p s3) }
               | None \<Rightarrow> Some (s3, False)) = Some (s4, bail)"
    "store_inv s4 fl4" "live s4 h = Some b4" "os_block s4 = os_block s3"
    "(s4, bail) = (case b_free_storage b of None \<Rightarrow> (s3, False) | Some f \<Rightarrow> run_free f p s3)"
    using free_storage_inv [OF s3(2) l3 fc p3] unfolding f3 ho by metis
  obtain s5 m where s5: "ZEND_OBJECTS_STORE_ADD_TO_FREE_LIST h s4 = Some s5" "store_inv s5 (h # fl4)"
    "live s5 = (live s4)(h := None)" "os_block s5 = os_block s4"
    using free_list_push [OF s4(2,3)] by metis
  have s4f: "s4 = (case b_free_storage b of None \<Rightarrow> s3 | Some f \<Rightarrow> fst (run_free f p s3))"
    and bf: "bail = (case b_free_storage b of None \<Rightarrow> False | Some f \<Rightarrow> snd (run_free f p s3))"
    using s4(5) by (auto split: option.splits dest: arg_cong [of _ _ fst] arg_cong [of _ _ snd])
  show ?thesis
    by (rule that [of s5 bail fl4 s3]) (use s3 s4(1,4) s5 s4f bf in auto)
qed

text \<open>The final \<open>obj->refcount--\<close>, on a bucket that is alive or has just been freed.\<close>

abbreviation decref :: "('o, 'f, 'h) zend_object_store_bucket \<Rightarrow> ('o, 'f, 'h) zend_object_store_bucket" where
  "decref b \<equiv> b\<lparr>refcount := refcount b - 1\<rparr>"

lemma bucket_upd_frame [zframe]:
  "bucket_upd h f s = Some s' \<Longrightarrow> os_top s' = os_top s \<and> os_size s' = os_size s \<and> free_list_head s' = free_list_head s
    \<and> os_block s' = os_block s"
  by (auto simp: bucket_upd_def bucket_put_def split: option.splits if_splits bind_splits)

lemma final_decrement:
  assumes "store_inv s fl" and "h < os_top s" "bucket_at s h = Some b"
  shows "\<exists>s'. bucket_upd h decref s = Some s' \<and> store_inv s' fl
    \<and> live s' = (if valid b then (live s)(h \<mapsto> decref b) else live s) \<and> free_list_head s' = free_list_head s"
  by (rule bucket_upd_inv [OF assms, of decref]) auto

lemma decrement_live:
  "store_inv s fl \<Longrightarrow> live s h = Some b \<Longrightarrow>
    \<exists>s'. bucket_upd h decref s = Some s' \<and> store_inv s' fl \<and> live s' = (live s)(h \<mapsto> decref b)"
  using final_decrement [of s fl h b] liveD [of s h b] by auto

lemma freed_bucket:
  assumes "store_inv s (h # fl)"
  obtains b where "h < os_top s" and "bucket_at s h = Some b" and "\<not> valid b" and "free_list_head s = int (unat h)"
  using assms by (auto simp: store_inv_def split: option.splits)

lemma decrement_freed:
  "store_inv s (h # fl) \<Longrightarrow> \<exists>s'. bucket_upd h decref s = Some s' \<and> store_inv s' (h # fl) \<and> live s' = live s
    \<and> free_list_head s' = int (unat h)"
  by (rule freed_bucket, assumption) (use final_decrement in fastforce)

lemma del_ref_shared:
  assumes inv: "store_inv s fl" and l: "live s h = Some b" and r: "refcount b \<noteq> 1"
  shows "\<exists>s'. zend_objects_store_del_ref_by_handle_ex run_dtor run_free h handlers s = Some (s', False)
    \<and> store_inv s' fl \<and> live s' = (live s)(h \<mapsto> decref b)"
proof -
  have hb: "bucket_at s h = Some b" "valid b" using liveD [OF l] by auto
  obtain cs where ob: "object_buckets s = Some cs" using inv by (auto simp: store_inv_def)
  obtain s' where s': "bucket_upd h decref s = Some s'" "store_inv s' fl" "live s' = (live s)(h \<mapsto> decref b)"
    using decrement_live [OF inv l] by blast
  have "zend_objects_store_del_ref_by_handle_ex run_dtor run_free h handlers s = Some (s', False)"
    unfolding zend_objects_store_del_ref_by_handle_ex_def using ob hb r s'(1) by simp
  with s' show ?thesis by blast
qed

text \<open>
  The last reference: the destructor runs unless it has run, and then, unless it took another reference, the
  storage is freed.
\<close>

lemma del_ref_last:
  assumes inv: "store_inv s fl" and l: "live s h = Some b" and r: "refcount b = 1"
    and dd: "del_ref_destruct run_dtor h handlers s = Some (s2, fail1)" and inv2: "store_inv s2 fl2"
    and l2: "live s2 h = Some b2" and fc: "free_contract run_free h" and p2: "b_head b2 = Object p"
  shows "\<exists>s' bail fl'. zend_objects_store_del_ref_by_handle_ex run_dtor run_free h handlers s = Some (s', bail)
     \<and> store_inv s' fl'
     \<and> (refcount b2 \<noteq> 1 \<longrightarrow> live s' = (live s2)(h \<mapsto> decref b2) \<and> bail = fail1)
     \<and> (refcount b2 = 1 \<longrightarrow> hd fl' = h \<and> free_list_head s' = int (unat h) \<and>
          (\<exists>s3 bb. live s3 = (live s2)(h \<mapsto> bb) \<and> (bb = b2 \<or> bb = b2\<lparr>buffered := False\<rparr>)
             \<and> bail = (fail1 \<or> (case b_free_storage b2 of None \<Rightarrow> False | Some f \<Rightarrow> snd (run_free f p s3)))
             \<and> live s' = (live (case b_free_storage b2 of None \<Rightarrow> s3 | Some f \<Rightarrow> fst (run_free f p s3)))(h := None)))"
proof -
  have hb: "bucket_at s h = Some b" "valid b" using liveD [OF l] by auto
  have hb2: "h < os_top s2" "bucket_at s2 h = Some b2" "valid b2" using liveD [OF l2] by auto
  obtain cs where ob: "object_buckets s = Some cs" using inv by (auto simp: store_inv_def)
  show ?thesis
  proof (cases "refcount b2 = 1")
    case False
    obtain s' where s': "bucket_upd h decref s2 = Some s'" "store_inv s' fl2" "live s' = (live s2)(h \<mapsto> decref b2)"
      using decrement_live [OF inv2 l2] by blast
    have "zend_objects_store_del_ref_by_handle_ex run_dtor run_free h handlers s = Some (s', fail1)"
      unfolding zend_objects_store_del_ref_by_handle_ex_def using False hb ob r dd hb2 s'(1) by simp
    with s' False show ?thesis by blast
  next
    case True
    obtain s' bail fl' s3 where f: "(do {
              s \<leftarrow> objects_GC_REMOVE_ZOBJ_FROM_BUFFER h s2;
              (s, fail2) \<leftarrow> (case b_free_storage b2 of
                 Some f \<Rightarrow> do { p \<leftarrow> head_object b2; Some (run_free f p s) }
               | None \<Rightarrow> Some (s, False));
              s \<leftarrow> ZEND_OBJECTS_STORE_ADD_TO_FREE_LIST h s;
              Some (s, os_block s2, fail1 \<or> fail2) }) = Some (s', os_block s2, fail1 \<or> bail)"
      "store_inv s' (h # fl')" "os_block s' = os_block s2"
      "live s3 = (live s2)(h \<mapsto> b2) \<or> live s3 = (live s2)(h \<mapsto> b2\<lparr>buffered := False\<rparr>)"
      "bail = (case b_free_storage b2 of None \<Rightarrow> False | Some f \<Rightarrow> snd (run_free f p s3))"
      "live s' = (live (case b_free_storage b2 of None \<Rightarrow> s3 | Some f \<Rightarrow> fst (run_free f p s3)))(h := None)"
      by (rule del_ref_free [OF inv2 l2 fc p2 True, of s2 fail1]) (rule that)
    obtain s'' where s'': "bucket_upd h decref s' = Some s''" "store_inv s'' (h # fl')"
      "live s'' = live s'" "free_list_head s'' = int (unat h)"
      using decrement_freed [OF f(2)] by blast
    have "zend_objects_store_del_ref_by_handle_ex run_dtor run_free h handlers s = Some (s'', fail1 \<or> bail)"
      unfolding zend_objects_store_del_ref_by_handle_ex_def using ob hb r dd hb2(2) True f(1,3) s''(1) by simp
    then show ?thesis
      using True s'' f(4-6) by (intro exI [of _ s''] exI [of _ "fail1 \<or> bail"] exI [of _ "h # fl'"]) auto
  qed
qed

subsection \<open>Shutdown\<close>

lemma mark_loop_ok:
  "store_inv s fl \<Longrightarrow> 0 < i \<Longrightarrow> i \<le> os_top s \<Longrightarrow>
    \<exists>s'. mark_loop i s = Some s' \<and> store_inv s' fl \<and> os_top s' = os_top s
      \<and> live s' = (\<lambda>h. if i \<le> h then map_option (\<lambda>b. b\<lparr>destructor_called := True\<rparr>) (live s h) else live s h)"
proof (induction i s rule: mark_loop.induct)
  case (1 i s)
  show ?case
  proof (cases "i < os_top s")
    case False
    then have "live s h = None" if "i \<le> h" for h using that by (auto simp: live_def)
    then have "live s = (\<lambda>h. if i \<le> h then map_option (\<lambda>b. b\<lparr>destructor_called := True\<rparr>) (live s h) else live s h)"
      by (auto simp: fun_eq_iff)
    moreover have "mark_loop i s = Some s" using False by (simp add: mark_loop.simps [of i s])
    ultimately show ?thesis using "1.prems"(1) by blast
  next
    case True
    let ?f = "\<lambda>b. if valid b then b\<lparr>destructor_called := True\<rparr> else b"
    obtain b where b: "bucket_at s i = Some b" using True "1.prems"(1) by (force simp: store_inv_def bucket_ok_def split: option.splits)
    obtain s1 where s1: "bucket_upd i ?f s = Some s1" "store_inv s1 fl" "os_top s1 = os_top s"
      "live s1 = (if valid b then (live s)(i \<mapsto> ?f b) else live s)"
      by (rule bucket_upd_inv [OF "1.prems"(1) True b, of ?f]) auto
    have i1: "unat (i + 1) = unat i + 1"
      using True unat_lt2p [of "os_top s"] by (intro unat_inc) (simp add: word_less_nat_alt)
    have le: "0 < i + 1" "i + 1 \<le> os_top s1" "i + 1 \<le> h \<longleftrightarrow> i \<le> h \<and> h \<noteq> i" for h
      using i1 True s1(3) by (auto simp: word_less_nat_alt word_le_nat_alt word_unat_eq_iff)
    obtain s' where s': "mark_loop (i + 1) s1 = Some s'" "store_inv s' fl" "os_top s' = os_top s1"
      "live s' = (\<lambda>h. if i + 1 \<le> h then map_option (\<lambda>b. b\<lparr>destructor_called := True\<rparr>) (live s1 h) else live s1 h)"
      using "1.IH" [OF True s1(1,2) le(1,2)] by blast
    have "live s i = (if valid b then Some b else None)" using True b by (simp add: live_def)
    then have "live s' = (\<lambda>h. if i \<le> h then map_option (\<lambda>b. b\<lparr>destructor_called := True\<rparr>) (live s h) else live s h)"
      unfolding s'(4) s1(4) le by (auto simp: fun_eq_iff)
    then show ?thesis using s' s1 True by (auto simp: mark_loop.simps [of i s])
  qed
qed

text \<open>At shutdown \<open>free_storage\<close> runs on objects that are no longer alive and must not create new ones.\<close>

definition shutdown_contract :: "('o, 'f, 'h) free_fun \<Rightarrow> bool" where
  "shutdown_contract run_free \<longleftrightarrow> (\<forall>f p s fl. store_inv s fl \<longrightarrow>
     \<not> snd (run_free f p s) \<and> (\<exists>fl'. store_inv (fst (run_free f p s)) fl') \<and> os_top (fst (run_free f p s)) = os_top s
     \<and> dom (live (fst (run_free f p s))) \<subseteq> dom (live s))"

lemma shutdown_contractD:
  "shutdown_contract run_free \<Longrightarrow> store_inv s fl \<Longrightarrow>
    \<exists>s' fl'. run_free f p s = (s', False) \<and> store_inv s' fl' \<and> os_top s' = os_top s \<and> dom (live s') \<subseteq> dom (live s)"
  unfolding shutdown_contract_def
  by (elim allE [of _ f] allE [of _ p] allE [of _ s] allE [of _ fl]) (cases "run_free f p s", simp)

text \<open>Clearing \<open>valid\<close> alone leaves a bucket that is neither alive nor in the free list.\<close>

lemma invalidate_inv:
  assumes inv: "store_inv s fl" and l: "live s h = Some b"
  shows "\<exists>s'. bucket_upd h (\<lambda>b. b\<lparr>valid := False\<rparr>) s = Some s' \<and> store_inv s' fl \<and> live s' = (live s)(h := None)
    \<and> os_top s' = os_top s"
proof -
  note h = liveD [OF l]
  let ?b = "b\<lparr>valid := False\<rparr>"
  obtain s' where s': "bucket_put h ?b s = Some s'"
    "\<forall>k. bucket_at s' k = (if k = h then Some ?b else bucket_at s k)" "cells s' = cells s"
    "object_buckets s' \<noteq> None" "os_top s' = os_top s" "os_size s' = os_size s" "free_list_head s' = free_list_head s"
    using bucket_put_after [of h s s ?b] bucket_at_cells [of s h b] h by blast
  have nf: "h \<notin> set fl" using free_chain_dead [OF inv] l by auto
  have "free_chain s' (free_list_head s) fl"
    by (rule free_chain_cong [of s]) (use inv nf s'(2) free_chain_bucket in \<open>force simp: store_inv_def\<close>)+
  moreover have "\<forall>k < os_top s. bucket_ok (bucket_at s' k)" "\<forall>c. bucket_at s' 0 = Some c \<longrightarrow> \<not> valid c"
    using inv s'(2) by (simp_all add: store_inv_def bucket_ok_def)
  ultimately have "store_inv s' fl" using inv s'(3-) by (simp add: store_inv_def)
  moreover have "live s' = (live s)(h := None)" using s' by (auto simp: live_def fun_eq_iff)
  ultimately show ?thesis using s' h by (simp add: bucket_upd_def)
qed

lemma free_one_ok:
  assumes inv: "store_inv s fl" and i: "i < os_top s" and sc: "shutdown_contract run_free"
  shows "\<exists>s' fl'. free_one run_free i s = Some (s', False) \<and> store_inv s' fl' \<and> os_top s' = os_top s
    \<and> dom (live s') \<subseteq> dom (live s) - {i}"
proof -
  obtain b where b: "bucket_at s i = Some b" using i inv by (force simp: store_inv_def bucket_ok_def split: option.splits)
  show ?thesis
  proof (cases "valid b")
    case False
    then have "free_one run_free i s = Some (s, False)" "live s i = None" using b by (simp_all add: free_one_def live_def)
    then show ?thesis using inv by blast
  next
    case True
    then have l: "live s i = Some b" using b i by (simp add: live_def)
    obtain p where p: "b_head b = Object p" using live_object [OF inv l] by blast
    obtain s1 b1 where s1: "objects_GC_REMOVE_ZOBJ_FROM_BUFFER i s = Some s1" "store_inv s1 fl" "live s1 = (live s)(i \<mapsto> b1)"
      using gc_remove_inv [OF inv l] by metis
    have t1: "os_top s1 = os_top s"
      using s1(1) bucket_upd_frame by (auto simp: objects_GC_REMOVE_ZOBJ_FROM_BUFFER_def)
    obtain s2 where s2: "bucket_upd i (\<lambda>b. b\<lparr>valid := False\<rparr>) s1 = Some s2" "store_inv s2 fl" "live s2 = (live s1)(i := None)"
      "os_top s2 = os_top s1"
      using invalidate_inv [OF s1(2), of i b1] s1(3) by auto
    have d2: "dom (live s2) \<subseteq> dom (live s) - {i}" using s1(3) s2(3) by (auto split: if_splits)
    show ?thesis
    proof (cases "b_free_storage b")
      case None
      then have "free_one run_free i s = Some (s2, False)" unfolding free_one_def using b True s1(1) s2(1) by simp
      then show ?thesis using s2 t1 d2 by metis
    next
      case (Some f)
      obtain s3 fl' where s3: "run_free f p s2 = (s3, False)" "store_inv s3 fl'" "os_top s3 = os_top s2" "dom (live s3) \<subseteq> dom (live s2)"
        using shutdown_contractD [OF sc s2(2)] by blast
      have "free_one run_free i s = Some (s3, False)"
        unfolding free_one_def using b True s1(1) s2(1) Some p s3(1) by (simp add: head_object_def)
      moreover have "dom (live s3) \<subseteq> dom (live s) - {i}" "os_top s3 = os_top s" using s3 d2 s2 t1 by auto
      ultimately show ?thesis using s3(2) by blast
    qed
  qed
qed

lemma free_loop_ok:
  "store_inv s fl \<Longrightarrow> shutdown_contract run_free \<Longrightarrow> i \<le> os_top s \<Longrightarrow> (\<And>h. h < i \<Longrightarrow> live s h = None) \<Longrightarrow>
    \<exists>s' fl'. free_loop run_free i s = Some (s', False) \<and> store_inv s' fl' \<and> (\<forall>h. live s' h = None)"
proof (induction run_free i s arbitrary: fl rule: free_loop.induct)
  case (1 run_free i s)
  show ?case
  proof (cases "i < os_top s")
    case False
    then have "live s h = None" for h using "1.prems"(4) by (cases "h < i") (auto simp: live_def)
    then show ?thesis using False "1.prems"(1) by (auto simp: free_loop.simps [of run_free i s])
  next
    case True
    obtain s1 fl1 where s1: "free_one run_free i s = Some (s1, False)" "store_inv s1 fl1" "os_top s1 = os_top s"
      "dom (live s1) \<subseteq> dom (live s) - {i}"
      using free_one_ok [OF "1.prems"(1) True "1.prems"(2)] by blast
    have i1: "unat (i + 1) = unat i + 1"
      using True unat_lt2p [of "os_top s"] by (intro unat_inc) (simp add: word_less_nat_alt)
    have le: "i + 1 \<le> os_top s1" using i1 True s1(3) by (simp add: word_less_nat_alt word_le_nat_alt)
    have "live s1 h = None" if "h < i + 1" for h
    proof (cases "h = i")
      case False
      then have "h < i" using that i1 by (simp add: word_less_nat_alt word_unat_eq_iff)
      then show ?thesis using "1.prems"(4) s1(4) by (auto simp: dom_def)
    qed (use s1(4) in auto)
    then obtain s' fl' where "free_loop run_free (i + 1) s1 = Some (s', False)" "store_inv s' fl'" "\<forall>h. live s' h = None"
      using "1.IH" [OF True s1(1) refl _ s1(2) "1.prems"(2) le] by blast
    then show ?thesis using True s1(1) by (auto simp: free_loop.simps [of run_free i s])
  qed
qed

lemma call_destructor_ok:
  assumes inv: "store_inv s fl" and i: "i < os_top s" and dc: "dtor_contract run_dtor"
  shows "\<exists>s' bail fl'. call_destructor run_dtor i s = Some (s', bail) \<and> store_inv s' fl'"
proof -
  obtain b where b: "bucket_at s i = Some b" using i inv by (force simp: store_inv_def bucket_ok_def split: option.splits)
  show ?thesis
  proof (cases "valid b \<and> \<not> destructor_called b")
    case False
    then have "call_destructor run_dtor i s = Some (s, False)" using b by (auto simp: call_destructor_def)
    then show ?thesis using inv by blast
  next
    case True
    let ?f = "\<lambda>b. b\<lparr>destructor_called := True\<rparr>" and ?g = "\<lambda>b. b\<lparr>refcount := refcount b + 1\<rparr>"
    have l: "live s i = Some b" using True b i by (simp add: live_def)
    obtain p where p: "b_head b = Object p" using live_object [OF inv l] by blast
    obtain s1 where s1: "bucket_upd i ?f s = Some s1" "store_inv s1 fl" "bucket_at s1 i = Some (?f b)" "os_top s1 = os_top s"
      by (rule bucket_upd_inv [OF inv i b, of ?f]) auto
    obtain s2 where s2: "bucket_upd i ?g s1 = Some s2" "store_inv s2 fl" "live s2 = (live s1)(i \<mapsto> ?g (?f b))"
      by (rule bucket_upd_inv [OF s1(2) _ s1(3), of ?g]) (use i s1(4) True in auto)
    show ?thesis
    proof (cases "b_dtor b = None \<or> p = None")
      case True
      then have "call_destructor run_dtor i s = Some (s1, False)"
        unfolding call_destructor_def using b \<open>valid b \<and> \<not> destructor_called b\<close> s1(1) p
        by (auto simp: head_object_def split: option.splits)
      then show ?thesis using s1 by blast
    next
      case False
      then obtain d obj where d: "b_dtor b = Some d" "p = Some obj" by auto
      obtain s3 bail where r: "run_dtor d (Some obj) i s2 = (s3, bail)" by fastforce
      then obtain fl3 b3 where s3: "store_inv s3 fl3" "live s3 i = Some b3"
        using dtor_contractD [OF dc s2(2), of i "?g (?f b)" d "Some obj"] s2(3) by auto
      obtain s4 where s4: "bucket_upd i decref s3 = Some s4" "store_inv s4 fl3" "live s4 = (live s3)(i \<mapsto> decref b3)"
        using decrement_live [OF s3] by blast
      have l4: "live s4 i = Some (decref b3)" using s4(3) by simp
      obtain s5 b5 where s5: "objects_GC_REMOVE_ZOBJ_FROM_BUFFER i s4 = Some s5" "store_inv s5 fl3"
        using gc_remove_inv [OF s4(2) l4] by blast
      have "call_destructor run_dtor i s = Some (if bail then (s3, True) else if refcount (decref b3) = 0 then (s5, False) else (s4, False))"
        unfolding call_destructor_def
        using b \<open>valid b \<and> \<not> destructor_called b\<close> s1(1) p d s2(1) r s4(1) s5(1) liveD [OF l4] by (simp add: head_object_def)
      then show ?thesis using s3(1) s4(2) s5(2) by (auto split: if_splits)
    qed
  qed
qed

lemma call_destructors_loop_ok:
  "store_inv s fl \<Longrightarrow> dtor_contract run_dtor \<Longrightarrow>
    \<exists>s' bail fl'. call_destructors_loop run_dtor i s = Some (s', bail) \<and> store_inv s' fl'"
proof (induction run_dtor i s arbitrary: fl rule: call_destructors_loop.induct)
  case (1 run_dtor i s)
  show ?case
  proof (cases "i < os_top s")
    case False
    then show ?thesis using "1.prems"(1) by (auto simp: call_destructors_loop.simps [of run_dtor i s])
  next
    case True
    obtain s1 bail fl1 where s1: "call_destructor run_dtor i s = Some (s1, bail)" "store_inv s1 fl1"
      using call_destructor_ok [OF "1.prems"(1) True "1.prems"(2)] by blast
    show ?thesis
    proof (cases bail)
      case True
      then show ?thesis using \<open>i < os_top s\<close> s1 by (auto simp: call_destructors_loop.simps [of run_dtor i s])
    next
      case False
      obtain s' bail' fl' where "call_destructors_loop run_dtor (i + 1) s1 = Some (s', bail')" "store_inv s' fl'"
        using "1.IH" [OF True s1(1) refl False s1(2) "1.prems"(2)] by blast
      then show ?thesis using True False s1(1) by (auto simp: call_destructors_loop.simps [of run_dtor i s])
    qed
  qed
qed

subsection \<open>Clients\<close>

text \<open>
  Clients that hold references: \<open>R h\<close> is how many references to \<open>h\<close> are held.  A client creates an object,
  takes another reference to one it holds, or drops one.  The callbacks here leave the store as it is; a
  destructor may fail.
\<close>

inductive client_reach :: "'f \<Rightarrow> ('f \<Rightarrow> bool) \<Rightarrow> ('f \<Rightarrow> bool) \<Rightarrow> ('o, 'f, 'h) zend_objects_store \<Rightarrow> (uint \<Rightarrow> nat) \<Rightarrow> bool"
  for std dfails ffails where
  start: "zend_objects_store_init n a = Some s \<Longrightarrow> 0 < n \<Longrightarrow> unat n \<le> 2 ^ 26 \<Longrightarrow> client_reach std dfails ffails s (\<lambda>_. 0)"
| create: "client_reach std dfails ffails s R \<Longrightarrow> store_room s \<Longrightarrow>
    zend_objects_store_put std object dtor free_storage clone s = Some (s', h) \<Longrightarrow> client_reach std dfails ffails s' (R(h := 1))"
| share: "client_reach std dfails ffails s R \<Longrightarrow> 0 < R h \<Longrightarrow> R h < 2 ^ 32 - 1 \<Longrightarrow>
    zend_objects_store_add_ref h s = Some s' \<Longrightarrow> client_reach std dfails ffails s' (R(h := R h + 1))"
| drop: "client_reach std dfails ffails s R \<Longrightarrow> 0 < R h \<Longrightarrow>
    zend_objects_store_del_ref_by_handle_ex (\<lambda>d p h s. (s, dfails d)) (\<lambda>f p s. (s, ffails f)) h handlers s = Some (s', bail) \<Longrightarrow>
    client_reach std dfails ffails s' (R(h := R h - 1))"

definition counted :: "('o, 'f, 'h) zend_objects_store \<Rightarrow> (uint \<Rightarrow> nat) \<Rightarrow> bool" where
  "counted s R \<longleftrightarrow> (\<exists>fl. store_inv s fl) \<and> (\<forall>h. R h = (case live s h of None \<Rightarrow> 0 | Some b \<Rightarrow> unat (refcount b)))
     \<and> (\<forall>h b. live s h = Some b \<longrightarrow> 0 < refcount b)"

lemma counted_live: "counted s R \<Longrightarrow> 0 < R h \<Longrightarrow> \<exists>b. live s h = Some b \<and> R h = unat (refcount b)"
  by (force simp: counted_def split: option.splits)

lemma init_inv:
  assumes "0 < n" and "unat n \<le> 2 ^ 26" and i: "zend_objects_store_init n a = Some s"
  shows "store_inv s [] \<and> (\<forall>h. live s h = None)"
proof -
  have n: "unat (n * sizeof_bucket) div unat sizeof_bucket = unat n"
    by (subst unat_word_ariths(2)) (use assms(2) in \<open>simp add: sizeof_bucket_def\<close>)
  have n0: "0 < unat n" using assms(1) by (simp add: word_less_nat_alt)
  have one: "h < 1 \<longleftrightarrow> h = 0" for h :: uint by (simp add: word_less_nat_alt unat_eq_0)
  have le: "1 \<le> n" using n0 by (simp add: word_le_nat_alt)
  show ?thesis
    using i n0 assms(2) le unfolding zend_objects_store_init_def n
    by (auto simp: bucket_put_def store_inv_def cells_def bucket_at_def bucket_ok_def live_def one)
qed

lemma quiet_contracts: "dtor_contract (\<lambda>d p h s. (s, dfails d))" "free_contract (\<lambda>f p s. (s, ffails f)) h"
  by (auto simp: dtor_contract_def free_contract_def)

lemma put_inv:
  assumes "store_inv s fl" and "store_room s"
  shows "\<exists>s' h. zend_objects_store_put std object dtor free_storage clone s = Some (s', h) \<and> store_inv s' (tl fl)
    \<and> (fl \<noteq> [] \<longrightarrow> h = hd fl) \<and> live s h = None \<and> live s' = (live s)(h \<mapsto> new_bucket std object dtor free_storage clone)"
proof (cases fl)
  case Nil
  then show ?thesis using store_put_fresh [of s std object dtor free_storage clone] assms by (metis list.sel(2))
next
  case (Cons h fl')
  then show ?thesis using store_put_recycled [of s h fl' std object dtor free_storage clone] assms
    by (metis list.sel(1) list.sel(3))
qed

lemma quiet_destruct:
  assumes inv: "store_inv s fl" and l: "live s h = Some b" and p: "b_head b = Object p"
  shows "\<exists>s2 fail1 fl2 b2. del_ref_destruct (\<lambda>d p h s. (s, dfails d)) h handlers s = Some (s2, fail1)
    \<and> store_inv s2 fl2 \<and> live s2 = (live s)(h \<mapsto> b2) \<and> refcount b2 = refcount b \<and> b_head b2 = Object p"
proof -
  obtain s2 fail1 fl2 b2 where d: "del_ref_destruct (\<lambda>d p h s. (s, dfails d)) h handlers s = Some (s2, fail1)"
    "store_inv s2 fl2" "live s2 h = Some b2"
    and c1: "destructor_called b \<Longrightarrow> s2 = s \<and> \<not> fail1"
    and c2: "\<not> destructor_called b \<Longrightarrow> b_dtor b = None \<Longrightarrow> live s2 = (live s)(h \<mapsto> b\<lparr>destructor_called := True\<rparr>) \<and> \<not> fail1"
    and c3: "\<And>d p. \<not> destructor_called b \<Longrightarrow> b_dtor b = Some d \<Longrightarrow> b_head b = Object p \<Longrightarrow>
      \<exists>s1. store_inv s1 fl \<and> (s2, fail1) = (s1, dfails d)
        \<and> (\<exists>hh. live s1 = (live s)(h \<mapsto> b\<lparr>destructor_called := True, b_handlers := hh\<rparr>))"
    by (rule del_ref_destruct_inv [OF inv l quiet_contracts(1) [of dfails], of handlers]) (rule that)
  have "\<exists>bb. live s2 = (live s)(h \<mapsto> bb) \<and> refcount bb = refcount b \<and> b_head bb = Object p"
  proof (cases "destructor_called b")
    case True
    then show ?thesis using c1 l p by (intro exI [of _ b]) (auto simp: fun_eq_iff)
  next
    case False
    show ?thesis
    proof (cases "b_dtor b")
      case None
      then show ?thesis using c2 False p by (intro exI [of _ "b\<lparr>destructor_called := True\<rparr>"]) simp
    next
      case (Some d)
      then obtain hh where "live s2 = (live s)(h \<mapsto> b\<lparr>destructor_called := True, b_handlers := hh\<rparr>)"
        using c3 [OF False Some p] by auto
      then show ?thesis using p by (intro exI [of _ "b\<lparr>destructor_called := True, b_handlers := hh\<rparr>"]) simp
    qed
  qed
  then show ?thesis using d by blast
qed

lemma drop_step:
  assumes inv: "store_inv s fl" and l: "live s h = Some b"
  shows "\<exists>s' bail fl'. zend_objects_store_del_ref_by_handle_ex (\<lambda>d p h s. (s, dfails d)) (\<lambda>f p s. (s, ffails f)) h handlers s = Some (s', bail)
    \<and> store_inv s' fl' \<and> (\<exists>b'. refcount b' = refcount b - 1 \<and> live s' = (live s)(h := if refcount b = 1 then None else Some b'))"
proof (cases "refcount b = 1")
  case False
  obtain s' where "zend_objects_store_del_ref_by_handle_ex (\<lambda>d p h s. (s, dfails d)) (\<lambda>f p s. (s, ffails f)) h handlers s = Some (s', False)"
    "store_inv s' fl" "live s' = (live s)(h \<mapsto> decref b)"
    using del_ref_shared [OF inv l False] by blast
  moreover have "refcount (decref b) = refcount b - 1" by simp
  ultimately show ?thesis using False by (auto intro!: exI [of _ "decref b"])
next
  case True
  obtain p where p: "b_head b = Object p" using live_object [OF inv l] by blast
  obtain s2 fail1 fl2 b2 where d: "del_ref_destruct (\<lambda>d p h s. (s, dfails d)) h handlers s = Some (s2, fail1)"
    "store_inv s2 fl2" and l2: "live s2 = (live s)(h \<mapsto> b2)" and r2: "refcount b2 = refcount b" and p2: "b_head b2 = Object p"
    using quiet_destruct [OF inv l p] by blast
  have l2h: "live s2 h = Some b2" using l2 by simp
  have b21: "refcount b2 = 1" using r2 True by simp
  obtain s' bail fl' s3 bb where s': "zend_objects_store_del_ref_by_handle_ex (\<lambda>d p h s. (s, dfails d)) (\<lambda>f p s. (s, ffails f)) h handlers s = Some (s', bail)"
    "store_inv s' fl'" and l3: "live s3 = (live s2)(h \<mapsto> bb)"
    and ls: "live s' = (live (case b_free_storage b2 of None \<Rightarrow> s3 | Some f \<Rightarrow> fst (s3, ffails f)))(h := None)"
    using del_ref_last [OF inv l True d l2h quiet_contracts(2) [of ffails] p2] b21 by blast
  have "live s' = (live s)(h := None)" using ls l2 l3 by (cases "b_free_storage b2") auto
  note s' = s' this
  show ?thesis using s' True by (auto intro!: exI [of _ "b\<lparr>refcount := refcount b - 1\<rparr>"])
qed

lemma counted_reach:
  assumes "client_reach std dfails ffails s R"
  shows "counted s R"
  using assms
proof (induction rule: client_reach.induct)
  case (start n a s)
  then show ?case using init_inv [of n a s] by (auto simp: counted_def)
next
  case (create s R object dtor free_storage clone s' h)
  then obtain fl where "store_inv s fl" by (auto simp: counted_def)
  then show ?case
    using create put_inv [of s fl std object dtor free_storage clone] by (auto simp: counted_def new_bucket_def)
next
  case (share s R h s')
  then obtain fl where inv: "store_inv s fl" by (auto simp: counted_def)
  obtain b where b: "live s h = Some b" "R h = unat (refcount b)" using counted_live [OF share.IH share.hyps(2)] by blast
  let ?g = "\<lambda>b. b\<lparr>refcount := refcount b + 1\<rparr>"
  note lb = liveD [OF b(1)]
  obtain s1 where s1: "bucket_upd h ?g s = Some s1" "store_inv s1 fl" "live s1 = (live s)(h \<mapsto> ?g b)"
    by (rule bucket_upd_inv [OF inv, of h b ?g]) (use lb in auto)
  have "unat (refcount b + 1) = R h + 1" using share.hyps(3) b(2) unat_inc [of "refcount b"] by simp
  then show ?case
    using share.IH share.hyps(4) s1 by (auto simp: counted_def zend_objects_store_add_ref_def word_less_nat_alt)
next
  case (drop s R h handlers s' bail)
  then obtain fl where inv: "store_inv s fl" by (auto simp: counted_def)
  obtain b where b: "live s h = Some b" "R h = unat (refcount b)" using counted_live [OF drop.IH drop.hyps(2)] by blast
  obtain fl' b' where s': "store_inv s' fl'" "refcount b' = refcount b - 1"
    "live s' = (live s)(h := if refcount b = 1 then None else Some b')"
    using drop_step [OF inv b(1), of dfails ffails handlers] drop.hyps(3) by auto
  have u: "unat (refcount b - 1) = R h - 1" using drop.hyps(2) b(2) unat_dec [of "refcount b"] by simp
  have one: "refcount b = 1 \<longleftrightarrow> R h = 1" using b(2) by (simp add: word_unat_eq_iff)
  show ?case
  proof (cases "refcount b = 1")
    case True
    then show ?thesis using drop.IH b s'(1,3) one by (auto simp: counted_def)
  next
    case False
    then have "0 < refcount b'" using one drop.hyps(2) s'(2) u by (simp add: word_less_nat_alt)
    then show ?thesis using False drop.IH b s' u by (auto simp: counted_def)
  qed
qed

subsection \<open>Reallocation\<close>

lemma put_moves_store:
  assumes "zend_objects_store_put std object dtor free_storage clone s = Some (s', k)"
    and "free_list_head s = - 1" and "os_top s = os_size s"
  shows "os_block s' = Suc (os_block s)"
  using assms
  by (auto simp: zend_objects_store_put_def bucket_put_def Let_def split: option.splits if_splits bind_splits)

text \<open>A \<open>free_storage\<close> callback that creates an object, as one that releases another object whose destructor does.\<close>

definition creating_free :: "'f \<Rightarrow> 'o option \<Rightarrow> ('o, 'f, 'h) free_fun" where
  "creating_free std object = (\<lambda>f p s. case zend_objects_store_put std object None None None s of
     Some (s', k) \<Rightarrow> (s', False) | None \<Rightarrow> (s, True))"

lemma free_list_push_block: "ZEND_OBJECTS_STORE_ADD_TO_FREE_LIST h s = Some s' \<Longrightarrow> os_block s' = os_block s"
  by (auto simp: ZEND_OBJECTS_STORE_ADD_TO_FREE_LIST_def Let_def split: bind_splits dest!: bucket_upd_frame)

subsection \<open>A full store with one object\<close>

definition one_object :: "bool \<Rightarrow> (nat, nat, nat) zend_object_store_bucket" where
  "one_object dc = new_bucket 0 (Some 7) None (Some 1) None\<lparr>destructor_called := dc\<rparr>"

definition one_store :: "bool \<Rightarrow> (nat, nat, nat) zend_objects_store" where
  "one_store dc = \<lparr>object_buckets = Some [Some \<lparr>destructor_called = False, valid = False, apply_count = 0, b_head = Object None, b_dtor = None,
         b_free_storage = None, b_clone = None, b_handlers = None, refcount = 0, buffered = False\<rparr>, Some (one_object dc)],
     os_top = 2, os_size = 2, free_list_head = - 1, os_block = 0, gc_active = False\<rparr>"

lemma one_store_facts:
  "store_inv (one_store dc) []" "store_room (one_store dc)" "live (one_store dc) 1 = Some (one_object dc)"
  "os_top (one_store dc) = os_size (one_store dc)" "unat (os_size (one_store dc)) \<le> 2 ^ 25"
proof -
  have two: "h < 2 \<longleftrightarrow> h = 0 \<or> h = 1" for h :: uint
    by (auto simp: word_less_nat_alt word_unat_eq_iff)
  show "store_inv (one_store dc) []"
    by (auto simp: store_inv_def one_store_def one_object_def new_bucket_def cells_def bucket_at_def bucket_ok_def two)
qed (auto simp: store_room_def one_store_def live_def bucket_at_def one_object_def new_bucket_def)

subsection \<open>Properties\<close>

text \<open>
  \<open>zend_objects_store_put\<close> on a well-formed store with room returns a handle that is not zero and names no live object:
  the first of the free list when there is one.  The new object has one reference, no other object changes, the
  store stays well formed, also when the array is reallocated, and the object and its reference count are read back.
\<close>

theorem objects_put_fresh:
  assumes "store_inv s fl" and "store_room s"
  shows "\<exists>s' h. zend_objects_store_put std object dtor free_storage clone s = Some (s', h) \<and> store_inv s' (tl fl)
    \<and> h \<noteq> 0 \<and> live s h = None \<and> (fl \<noteq> [] \<longrightarrow> h = hd fl)
    \<and> live s' = (live s)(h \<mapsto> new_bucket std object dtor free_storage clone)
    \<and> zend_object_store_get_object h s' = Some object \<and> zend_object_store_get_object_by_handle h s' = Some object
    \<and> zend_objects_store_get_refcount h s' = Some 1"
proof -
  obtain s' h where p: "zend_objects_store_put std object dtor free_storage clone s = Some (s', h)" "store_inv s' (tl fl)"
    "fl \<noteq> [] \<longrightarrow> h = hd fl" "live s h = None" "live s' = (live s)(h \<mapsto> new_bucket std object dtor free_storage clone)"
    using put_inv [OF assms] by blast
  have l: "live s' h = Some (new_bucket std object dtor free_storage clone)" using p(5) by simp
  show ?thesis
    using p live_nonzero [OF p(2) l] liveD [OF l]
    by (auto simp: zend_object_store_get_object_def zend_object_store_get_object_by_handle_def
        zend_objects_store_get_refcount_def head_object_def new_bucket_def)
qed

theorem objects_put_fresh_witness:
  "\<exists>s' h. zend_objects_store_put 0 (Some 9) None None None (one_store False) = Some (s', h) \<and> h \<noteq> 0
     \<and> live s' 1 = Some (one_object False) \<and> zend_object_store_get_object h s' = Some (Some 9)"
  using objects_put_fresh [OF one_store_facts(1,2), of 0 "Some 9" None None None False] one_store_facts(3) [of False]
  by auto

text \<open>
  C20: Dropping a reference with \<open>zend_objects_store_del_ref_by_handle_ex\<close>, for all callbacks within their contracts, returns and keeps the store well formed.
  A shared object loses one reference and nothing else happens.  For the last reference the destructor runs once,
  unless it has run; an object that its destructor gave another reference stays alive with the count one lower;
  otherwise its storage is freed and its handle becomes the first of the free list.  A failure of a
  callback is reported after the work is complete.
\<close>

theorem objects_del_ref:
  assumes inv: "store_inv s fl" and l: "live s h = Some b" and dc: "dtor_contract run_dtor" and fc: "free_contract run_free h"
  shows "\<exists>s' bail fl'. zend_objects_store_del_ref_by_handle_ex run_dtor run_free h handlers s = Some (s', bail) \<and> store_inv s' fl'
     \<and> (refcount b \<noteq> 1 \<longrightarrow> live s' = (live s)(h \<mapsto> b\<lparr>refcount := refcount b - 1\<rparr>) \<and> \<not> bail)
     \<and> (refcount b = 1 \<longrightarrow> (\<exists>s2 b2 fail1 p. live s2 h = Some b2 \<and> b_head b2 = Object p
         \<and> (destructor_called b \<longrightarrow> s2 = s \<and> \<not> fail1)
         \<and> (\<forall>d q. \<not> destructor_called b \<longrightarrow> b_dtor b = Some d \<longrightarrow> b_head b = Object q \<longrightarrow>
              (\<exists>s1 hh. (s2, fail1) = run_dtor d q h s1
                \<and> live s1 = (live s)(h \<mapsto> b\<lparr>destructor_called := True, b_handlers := hh\<rparr>)))
         \<and> (refcount b2 \<noteq> 1 \<longrightarrow> live s' = (live s2)(h \<mapsto> b2\<lparr>refcount := refcount b2 - 1\<rparr>) \<and> bail = fail1)
         \<and> (refcount b2 = 1 \<longrightarrow> hd fl' = h \<and> free_list_head s' = int (unat h) \<and>
              (\<exists>s3 bb. live s3 = (live s2)(h \<mapsto> bb) \<and> (bb = b2 \<or> bb = b2\<lparr>buffered := False\<rparr>)
                 \<and> bail = (fail1 \<or> (case b_free_storage b2 of None \<Rightarrow> False | Some f \<Rightarrow> snd (run_free f p s3)))
                 \<and> live s' = (live (case b_free_storage b2 of None \<Rightarrow> s3 | Some f \<Rightarrow> fst (run_free f p s3)))(h := None)))))"
proof (cases "refcount b = 1")
  case False
  then show ?thesis using del_ref_shared [OF inv l False, of run_dtor run_free handlers] by auto
next
  case True
  obtain s2 fail1 fl2 b2 where d: "del_ref_destruct run_dtor h handlers s = Some (s2, fail1)"
    "store_inv s2 fl2" "live s2 h = Some b2"
    and c1: "destructor_called b \<Longrightarrow> s2 = s \<and> \<not> fail1"
    and c3: "\<And>d p. \<not> destructor_called b \<Longrightarrow> b_dtor b = Some d \<Longrightarrow> b_head b = Object p \<Longrightarrow>
      \<exists>s1. store_inv s1 fl \<and> (s2, fail1) = run_dtor d p h s1
        \<and> (\<exists>hh. live s1 = (live s)(h \<mapsto> b\<lparr>destructor_called := True, b_handlers := hh\<rparr>))"
    by (rule del_ref_destruct_inv [OF inv l dc, of handlers]) (rule that)
  obtain p where p: "b_head b2 = Object p" using live_object [OF d(2,3)] by blast
  show ?thesis
  proof -
    obtain s' bail fl' where r: "zend_objects_store_del_ref_by_handle_ex run_dtor run_free h handlers s = Some (s', bail)"
      "store_inv s' fl'"
      and k: "(refcount b2 \<noteq> 1 \<longrightarrow> live s' = (live s2)(h \<mapsto> decref b2) \<and> bail = fail1)
     \<and> (refcount b2 = 1 \<longrightarrow> hd fl' = h \<and> free_list_head s' = int (unat h) \<and>
          (\<exists>s3 bb. live s3 = (live s2)(h \<mapsto> bb) \<and> (bb = b2 \<or> bb = b2\<lparr>buffered := False\<rparr>)
             \<and> bail = (fail1 \<or> (case b_free_storage b2 of None \<Rightarrow> False | Some f \<Rightarrow> snd (run_free f p s3)))
             \<and> live s' = (live (case b_free_storage b2 of None \<Rightarrow> s3 | Some f \<Rightarrow> fst (run_free f p s3)))(h := None)))"
      using del_ref_last [OF inv l True d fc p] by blast
    have c: "\<forall>d q. \<not> destructor_called b \<longrightarrow> b_dtor b = Some d \<longrightarrow> b_head b = Object q \<longrightarrow>
        (\<exists>s1 hh. (s2, fail1) = run_dtor d q h s1
          \<and> live s1 = (live s)(h \<mapsto> b\<lparr>destructor_called := True, b_handlers := hh\<rparr>))"
      using c3 by blast
    show ?thesis
      apply (rule exI [of _ s'], rule exI [of _ bail], rule exI [of _ fl'])
      apply (rule conjI [OF r(1)], rule conjI [OF r(2)], rule conjI)
       apply (simp add: True)
      apply (rule impI, rule exI [of _ s2], rule exI [of _ b2], rule exI [of _ fail1], rule exI [of _ p])
      using d(3) p c1 c k by blast
  qed
qed

theorem objects_del_ref_witness:
  "\<exists>s' bail fl'. zend_objects_store_del_ref_by_handle_ex (\<lambda>d p h s. (s, True)) (\<lambda>f p s. (s, False)) 1 None (one_store False) = Some (s', bail)
     \<and> store_inv s' fl' \<and> hd fl' = 1 \<and> live s' 1 = None"
proof -
  have r: "refcount (one_object False) = 1" by (simp add: one_object_def new_bucket_def)
  show ?thesis
    using objects_del_ref [OF one_store_facts(1) [of False] one_store_facts(3) quiet_contracts(1) [of "\<lambda>_. True"] quiet_contracts(2) [of "\<lambda>_. False"], of None]
    by (auto simp: r one_object_def new_bucket_def dest: fun_cong [of _ _ 1])
qed



text \<open>
  C21: Shutdown.  \<open>zend_objects_store_call_destructors\<close> returns for all destructors within their contract, also when they create objects;
  \<open>zend_objects_store_mark_destructed\<close> marks every live object and changes nothing else;
  \<open>zend_objects_store_free_object_storage\<close> returns and leaves no object alive.  All keep the store well formed.
\<close>

theorem objects_shutdown:
  assumes inv: "store_inv s fl" and dc: "dtor_contract run_dtor" and sc: "shutdown_contract run_free"
  shows "(\<exists>s' bail fl'. zend_objects_store_call_destructors run_dtor s = Some (s', bail) \<and> store_inv s' fl')
    \<and> (\<exists>s'. zend_objects_store_mark_destructed s = Some s' \<and> store_inv s' fl
         \<and> live s' = (\<lambda>h. map_option (\<lambda>b. b\<lparr>destructor_called := True\<rparr>) (live s h)))
    \<and> (\<exists>s' fl'. zend_objects_store_free_object_storage run_free s = Some (s', False) \<and> store_inv s' fl' \<and> (\<forall>h. live s' h = None))"
proof -
  have t: "1 \<le> os_top s" and n: "object_buckets s \<noteq> None"
    using inv by (simp_all add: store_inv_def word_le_nat_alt word_less_nat_alt)
  have z: "live s 0 = None" using live_nonzero [OF inv] by (cases "live s 0") auto
  have lt1: "h < 1 \<Longrightarrow> live s h = None" for h
    using z by (auto simp: word_less_nat_alt unat_eq_0)
  then have le1: "\<not> 1 \<le> h \<Longrightarrow> live s h = None" for h by (simp add: not_le)
  obtain s' where s': "mark_loop 1 s = Some s'" "store_inv s' fl"
    "live s' = (\<lambda>h. if 1 \<le> h then map_option (\<lambda>b. b\<lparr>destructor_called := True\<rparr>) (live s h) else live s h)"
    using mark_loop_ok [OF inv _ t] by auto
  then have "live s' = (\<lambda>h. map_option (\<lambda>b. b\<lparr>destructor_called := True\<rparr>) (live s h))"
    using le1 by (auto simp: fun_eq_iff)
  then show ?thesis
    using s' n call_destructors_loop_ok [OF inv dc, of 1] free_loop_ok [OF inv sc t lt1]
    by (auto simp: zend_objects_store_call_destructors_def zend_objects_store_mark_destructed_def zend_objects_store_free_object_storage_def)
qed

theorem objects_shutdown_witness:
  "\<exists>s' fl'. zend_objects_store_free_object_storage (\<lambda>f p s. (s, False)) (one_store False) = Some (s', False) \<and> store_inv s' fl' \<and> live s' 1 = None"
proof -
  have "shutdown_contract (\<lambda>f p s. (s, False))" by (auto simp: shutdown_contract_def)
  then show ?thesis
    using objects_shutdown [OF one_store_facts(1) quiet_contracts(1) [of "\<lambda>_. False"], of "\<lambda>f p s. (s, False)" False] by blast
qed

text \<open>
  C22: A \<open>free_storage\<close> callback that creates an object while the store is full makes
  \<open>zend_objects_store_del_ref_by_handle_ex\<close> undefined: the store is reallocated, the pointer \<open>obj\<close> is not read again, and
  \<open>obj->refcount--\<close> writes to the old block.
\<close>

theorem objects_free_storage_dangling:
  assumes inv: "store_inv s []" and full: "os_top s = os_size s" "unat (os_size s) \<le> 2 ^ 25"
    and l: "live s h = Some b" and b: "refcount b = 1" "destructor_called b" "b_free_storage b = Some f"
  shows "zend_objects_store_del_ref_by_handle_ex run_dtor (creating_free std object) h handlers s = None"
proof -
  obtain cs where ob: "object_buckets s = Some cs" using inv by (auto simp: store_inv_def)
  obtain s1 b1 where s1: "objects_GC_REMOVE_ZOBJ_FROM_BUFFER h s = Some s1" "store_inv s1 []"
    using gc_remove_inv [OF inv l] by blast
  have f1: "os_top s1 = os_size s1" "os_size s1 = os_size s" "os_block s1 = os_block s"
    using bucket_upd_frame s1(1) full by (fastforce simp: objects_GC_REMOVE_ZOBJ_FROM_BUFFER_def)+
  have h1: "free_list_head s1 = - 1" using s1(2) by (simp add: store_inv_def)
  have room: "store_room s1" using f1 full by (simp add: store_room_def)
  obtain s2 k where p: "zend_objects_store_put std object None None None s1 = Some (s2, k)"
    using put_inv [OF s1(2) room] by blast
  have r: "creating_free std object f q s1 = (s2, False)" for q using p by (simp add: creating_free_def)
  have "os_block s2 = Suc (os_block s)" using put_moves_store [OF p h1 f1(1)] f1(3) by simp
  then have moved: "ZEND_OBJECTS_STORE_ADD_TO_FREE_LIST h s2 = Some s3 \<Longrightarrow> os_block s3 \<noteq> os_block s" for s3
    using free_list_push_block by fastforce
  obtain q where q: "b_head b = Object q" using live_object [OF inv l] by blast
  show ?thesis
    unfolding zend_objects_store_del_ref_by_handle_ex_def
    using ob liveD [OF l] b s1(1) q r moved
    by (cases "ZEND_OBJECTS_STORE_ADD_TO_FREE_LIST h s2") (auto simp: del_ref_destruct_def head_object_def)
qed

theorem objects_free_storage_dangling_witness:
  "zend_objects_store_del_ref_by_handle_ex (\<lambda>d p h s. (s, False)) (creating_free 0 (Some 9)) 1 None (one_store True) = None"
  by (rule objects_free_storage_dangling [OF one_store_facts(1) one_store_facts(4) one_store_facts(5) one_store_facts(3)])
    (simp_all add: one_object_def new_bucket_def)

end
