(* ===== verification/Spl_Heap.thy ===== *)
theory Spl_Heap
  imports Php_Prelude
begin

text \<open>
  The model of \<open>ext/spl/spl_heap.c\<close>: the binary heap in a growing array behind \<open>SplHeap\<close>, \<open>SplMinHeap\<close>,
  \<open>SplMaxHeap\<close> and \<open>SplPriorityQueue\<close>.

  Comparison may run PHP code and throw, so it takes and returns the state \<open>'w\<close> of the rest of the program,
  and \<open>exc\<close> tells whether an exception is pending there (\<open>EG(exception)\<close>).  A comparison that changes the very heap
  it is called for is outside the model.  Cells of the array that have never been written are \<open>None\<close>.
\<close>

definition PTR_HEAP_BLOCK_SIZE :: nat where
  "PTR_HEAP_BLOCK_SIZE = 64"

definition SPL_HEAP_CORRUPTED :: uint where
  "SPL_HEAP_CORRUPTED = 1"

definition SPL_PQUEUE_EXTR_BOTH :: uint where
  "SPL_PQUEUE_EXTR_BOTH = 3"

definition SPL_PQUEUE_EXTR_DATA :: uint where
  "SPL_PQUEUE_EXTR_DATA = 1"

definition SPL_PQUEUE_EXTR_PRIORITY :: uint where
  "SPL_PQUEUE_EXTR_PRIORITY = 2"

definition SPL_PQUEUE_EXTR_MASK :: uint where
  "SPL_PQUEUE_EXTR_MASK = 3"

record ('a, 'w) spl_ptr_heap =
  elements :: "'a option list"
  hp_ctor :: "'a \<Rightarrow> 'w \<Rightarrow> 'w"
  hp_dtor :: "'a \<Rightarrow> 'w \<Rightarrow> 'w"
  hp_cmp :: "'a \<Rightarrow> 'a \<Rightarrow> 'w \<Rightarrow> int \<times> 'w"
  hp_count :: nat
  max_size :: nat
  hp_flags :: uint

definition cell :: "'a option list \<Rightarrow> nat \<Rightarrow> 'a option" where
  "cell es i = (if i < length es then es ! i else None)"

definition set_cell :: "'a option list \<Rightarrow> nat \<Rightarrow> 'a \<Rightarrow> 'a option list option" where
  "set_cell es i x = (if i < length es then Some (es[i := Some x]) else None)"

definition is_corrupted :: "('a, 'w) spl_ptr_heap \<Rightarrow> bool" where
  "is_corrupted h \<longleftrightarrow> hp_flags h AND SPL_HEAP_CORRUPTED \<noteq> 0"

subsection \<open>Comparison\<close>

text \<open>
  The comparison of the elements of the three heap classes.  \<open>fptr_cmp\<close> is the user's override of \<open>compare\<close>
  when there is one, called when the heap belongs to an object; \<open>compare_function\<close> is the engine's comparison.
\<close>

definition spl_ptr_heap_cmp_cb_helper ::
  "('w \<Rightarrow> bool) \<Rightarrow> ('a \<Rightarrow> 'a \<Rightarrow> 'w \<Rightarrow> int \<times> 'w) \<Rightarrow> 'a \<Rightarrow> 'a \<Rightarrow> 'w \<Rightarrow> (status \<times> int) \<times> 'w" where
  "spl_ptr_heap_cmp_cb_helper exc compare a b w =
     (let (r, w) = compare a b w in if exc w then ((FAILURE, 0), w) else ((SUCCESS, r), w))"

definition user_cmp :: "('w \<Rightarrow> bool) \<Rightarrow> ('a \<Rightarrow> 'a \<Rightarrow> 'w \<Rightarrow> int \<times> 'w) \<Rightarrow> 'a \<Rightarrow> 'a \<Rightarrow> 'w \<Rightarrow> int \<times> 'w" where
  "user_cmp exc compare a b w =
     (case spl_ptr_heap_cmp_cb_helper exc compare a b w of ((FAILURE, _), w) \<Rightarrow> (0, w) | ((SUCCESS, r), w) \<Rightarrow> (r, w))"

definition spl_ptr_heap_zval_max_cmp ::
  "('w \<Rightarrow> bool) \<Rightarrow> ('a \<Rightarrow> 'a \<Rightarrow> 'w \<Rightarrow> int \<times> 'w) option \<Rightarrow> ('a \<Rightarrow> 'a \<Rightarrow> 'w \<Rightarrow> int \<times> 'w) \<Rightarrow> 'a \<Rightarrow> 'a \<Rightarrow> 'w \<Rightarrow> int \<times> 'w" where
  "spl_ptr_heap_zval_max_cmp exc fptr_cmp compare_function a b w =
     (if exc w then (0, w)
      else case fptr_cmp of Some f \<Rightarrow> user_cmp exc f a b w | None \<Rightarrow> compare_function a b w)"

definition spl_ptr_heap_zval_min_cmp ::
  "('w \<Rightarrow> bool) \<Rightarrow> ('a \<Rightarrow> 'a \<Rightarrow> 'w \<Rightarrow> int \<times> 'w) option \<Rightarrow> ('a \<Rightarrow> 'a \<Rightarrow> 'w \<Rightarrow> int \<times> 'w) \<Rightarrow> 'a \<Rightarrow> 'a \<Rightarrow> 'w \<Rightarrow> int \<times> 'w" where
  "spl_ptr_heap_zval_min_cmp exc fptr_cmp compare_function a b w =
     (if exc w then (0, w)
      else case fptr_cmp of Some f \<Rightarrow> user_cmp exc f a b w | None \<Rightarrow> compare_function b a w)"

text \<open>An element of a priority queue is an array with the keys \<open>data\<close> and \<open>priority\<close>.\<close>

record 'z pq_elem =
  pq_data :: 'z
  pq_priority :: 'z

datatype 'z pq_out = Both "'z pq_elem" | Single 'z

definition spl_pqueue_extract_helper :: "'z pq_elem \<Rightarrow> uint \<Rightarrow> 'z pq_out option" where
  "spl_pqueue_extract_helper value flags =
     (if flags AND SPL_PQUEUE_EXTR_BOTH = SPL_PQUEUE_EXTR_BOTH then Some (Both value)
      else if flags AND SPL_PQUEUE_EXTR_BOTH > 0 then
        if flags AND SPL_PQUEUE_EXTR_DATA = SPL_PQUEUE_EXTR_DATA then Some (Single (pq_data value))
        else Some (Single (pq_priority value))
      else None)"

definition spl_ptr_pqueue_zval_cmp ::
  "('w \<Rightarrow> bool) \<Rightarrow> ('z \<Rightarrow> 'z \<Rightarrow> 'w \<Rightarrow> int \<times> 'w) option \<Rightarrow> ('z \<Rightarrow> 'z \<Rightarrow> 'w \<Rightarrow> int \<times> 'w) \<Rightarrow>
   'z pq_elem \<Rightarrow> 'z pq_elem \<Rightarrow> 'w \<Rightarrow> int \<times> 'w" where
  "spl_ptr_pqueue_zval_cmp exc fptr_cmp compare_function a b w =
     (case (spl_pqueue_extract_helper a SPL_PQUEUE_EXTR_PRIORITY, spl_pqueue_extract_helper b SPL_PQUEUE_EXTR_PRIORITY) of
        (Some (Single ap), Some (Single bp)) \<Rightarrow>
          if exc w then (0, w)
          else (case fptr_cmp of Some f \<Rightarrow> user_cmp exc f ap bp w | None \<Rightarrow> compare_function ap bp w)
      | _ \<Rightarrow> (0, w))"

subsection \<open>The heap\<close>

definition spl_ptr_heap_init ::
  "('a \<Rightarrow> 'a \<Rightarrow> 'w \<Rightarrow> int \<times> 'w) \<Rightarrow> ('a \<Rightarrow> 'w \<Rightarrow> 'w) \<Rightarrow> ('a \<Rightarrow> 'w \<Rightarrow> 'w) \<Rightarrow> ('a, 'w) spl_ptr_heap" where
  "spl_ptr_heap_init cmp ctor dtor =
     \<lparr>elements = replicate PTR_HEAP_BLOCK_SIZE None, hp_ctor = ctor, hp_dtor = dtor, hp_cmp = cmp, hp_count = 0,
      max_size = PTR_HEAP_BLOCK_SIZE, hp_flags = 0\<rparr>"

text \<open>\<open>safe_erealloc\<close> ends the request when the byte size does not fit \<open>size_t\<close>.\<close>

definition grow_heap :: "('a, 'w) spl_ptr_heap \<Rightarrow> ('a, 'w) spl_ptr_heap outcome" where
  "grow_heap h =
     (if hp_count h + 1 > max_size h then
        if unat sizeof_ptr * max_size h + unat sizeof_ptr * max_size h < 2 ^ 32
        then Done (h\<lparr>elements := take (2 * max_size h) (elements h) @ replicate (2 * max_size h - length (elements h)) None,
                     max_size := max_size h * 2\<rparr>)
        else Fatal
      else Done h)"

function sift_up :: "('a \<Rightarrow> 'a \<Rightarrow> 'w \<Rightarrow> int \<times> 'w) \<Rightarrow> 'a \<Rightarrow> nat \<Rightarrow> 'w \<Rightarrow> 'a option list \<Rightarrow> (nat \<times> 'w \<times> 'a option list) option" where
  "sift_up cmp elem i w es =
     (if i > 0 then
        (case cell es ((i - 1) div 2) of
           None \<Rightarrow> None
         | Some p \<Rightarrow>
             (case cmp p elem w of (c, w') \<Rightarrow>
                if c < 0 then
                  (case set_cell es i p of None \<Rightarrow> None | Some es' \<Rightarrow> sift_up cmp elem ((i - 1) div 2) w' es')
                else Some (i, w', es)))
      else Some (i, w, es))"
  by pat_completeness auto
termination by (relation "measure (\<lambda>(cmp, elem, i, w, es). i)") auto

declare sift_up.simps [simp del]

definition spl_ptr_heap_insert ::
  "('w \<Rightarrow> bool) \<Rightarrow> ('a, 'w) spl_ptr_heap \<Rightarrow> 'a \<Rightarrow> 'w \<Rightarrow> (('a, 'w) spl_ptr_heap \<times> 'w) outcome option" where
  "spl_ptr_heap_insert exc heap elem w =
     (case grow_heap heap of
        Fatal \<Rightarrow> Some Fatal
      | Done heap \<Rightarrow> do {
          let w = hp_ctor heap elem w;
          (i, w, es) \<leftarrow> sift_up (hp_cmp heap) elem (hp_count heap) w (elements heap);
          let heap = heap\<lparr>hp_count := hp_count heap + 1\<rparr>;
          let heap = (if exc w then heap\<lparr>hp_flags := hp_flags heap OR SPL_HEAP_CORRUPTED\<rparr> else heap);
          es \<leftarrow> set_cell es i elem;
          Some (Done (heap\<lparr>elements := es\<rparr>, w))
        })"

definition spl_ptr_heap_top :: "('a, 'w) spl_ptr_heap \<Rightarrow> 'a option option" where
  "spl_ptr_heap_top heap =
     (if hp_count heap = 0 then Some None else do { x \<leftarrow> cell (elements heap) 0; Some (Some x) })"

text \<open>The larger child of the hole, of the two at \<open>j\<close> and \<open>j + 1\<close>.\<close>

definition pick_child :: "('a \<Rightarrow> 'a \<Rightarrow> 'w \<Rightarrow> int \<times> 'w) \<Rightarrow> nat \<Rightarrow> nat \<Rightarrow> 'w \<Rightarrow> 'a option list \<Rightarrow> (nat \<times> 'w) option" where
  "pick_child cmp cnt j w es =
     (if j \<noteq> cnt then
        (case (cell es (j + 1), cell es j) of
           (Some r, Some l) \<Rightarrow> (case cmp r l w of (c, w) \<Rightarrow> Some (if c > 0 then j + 1 else j, w))
         | _ \<Rightarrow> None)
      else Some (j, w))"

lemma pick_child_ge: "pick_child cmp cnt j w es = Some (k, w') \<Longrightarrow> j \<le> k"
  by (auto simp: pick_child_def split: if_splits option.splits prod.splits)

function sift_down ::
  "('a \<Rightarrow> 'a \<Rightarrow> 'w \<Rightarrow> int \<times> 'w) \<Rightarrow> 'a \<Rightarrow> nat \<Rightarrow> nat \<Rightarrow> nat \<Rightarrow> 'w \<Rightarrow> 'a option list \<Rightarrow> (nat \<times> 'w \<times> 'a option list) option" where
  "sift_down cmp bottom cnt limit i w es =
     (if i < limit then
        (case pick_child cmp cnt (i * 2 + 1) w es of
           None \<Rightarrow> None
         | Some (j, w1) \<Rightarrow>
             (case cell es j of
                None \<Rightarrow> None
              | Some x \<Rightarrow>
                  (case cmp bottom x w1 of (c, w2) \<Rightarrow>
                     if c < 0 then
                       (case set_cell es i x of None \<Rightarrow> None | Some es' \<Rightarrow> sift_down cmp bottom cnt limit j w2 es')
                     else Some (i, w2, es))))
      else Some (i, w, es))"
  by pat_completeness auto
termination
  by (relation "measure (\<lambda>(cmp, bottom, cnt, limit, i, w, es). limit - i)") (auto dest!: pick_child_ge)

declare sift_down.simps [simp del]

definition spl_ptr_heap_delete_top ::
  "('w \<Rightarrow> bool) \<Rightarrow> ('a, 'w) spl_ptr_heap \<Rightarrow> 'w \<Rightarrow> ('a option \<times> ('a, 'w) spl_ptr_heap \<times> 'w) option" where
  "spl_ptr_heap_delete_top exc heap w =
     (let limit = (hp_count heap - 1) div 2 in
      if hp_count heap = 0 then Some (None, heap, w)
      else do {
        top \<leftarrow> cell (elements heap) 0;
        let heap = heap\<lparr>hp_count := hp_count heap - 1\<rparr>;
        bottom \<leftarrow> cell (elements heap) (hp_count heap);
        (i, w, es) \<leftarrow> sift_down (hp_cmp heap) bottom (hp_count heap) limit 0 w (elements heap);
        let heap = (if exc w then heap\<lparr>hp_flags := hp_flags heap OR SPL_HEAP_CORRUPTED\<rparr> else heap);
        es \<leftarrow> set_cell es i bottom;
        let w = hp_dtor heap top w;
        Some (Some top, heap\<lparr>elements := es\<rparr>, w)
      })"

text \<open>The loops over the elements from the first to the last.\<close>

fun each_cell :: "('a \<Rightarrow> 'w \<Rightarrow> 'w) \<Rightarrow> 'a option list \<Rightarrow> 'w \<Rightarrow> 'w option" where
  "each_cell f [] w = Some w"
| "each_cell f (None # es) w = None"
| "each_cell f (Some x # es) w = each_cell f es (f x w)"

definition spl_ptr_heap_clone :: "('a, 'w) spl_ptr_heap \<Rightarrow> 'w \<Rightarrow> (('a, 'w) spl_ptr_heap \<times> 'w) option" where
  "spl_ptr_heap_clone from w =
     (let heap = \<lparr>elements = take (max_size from) (elements from), hp_ctor = hp_ctor from, hp_dtor = hp_dtor from,
        hp_cmp = hp_cmp from, hp_count = hp_count from, max_size = max_size from, hp_flags = hp_flags from\<rparr> in do {
        w \<leftarrow> each_cell (hp_ctor heap) (take (hp_count heap) (elements heap)) w;
        Some (heap, w) })"

definition spl_ptr_heap_destroy :: "('a, 'w) spl_ptr_heap \<Rightarrow> 'w \<Rightarrow> 'w option" where
  "spl_ptr_heap_destroy heap w = each_cell (hp_dtor heap) (take (hp_count heap) (elements heap)) w"

definition spl_ptr_heap_count :: "('a, 'w) spl_ptr_heap \<Rightarrow> nat" where
  "spl_ptr_heap_count heap = hp_count heap"

subsection \<open>The methods\<close>

datatype 'v result = Return 'v | RuntimeException string | RecoverableError string

definition corrupted_msg :: string where
  "corrupted_msg = ''Heap is corrupted, heap properties are no longer ensured.''"

record ('a, 'w) spl_heap_object =
  so_heap :: "('a, 'w) spl_ptr_heap"
  so_flags :: uint

definition SplHeap_count :: "('a, 'w) spl_heap_object \<Rightarrow> nat" where
  "SplHeap_count intern = spl_ptr_heap_count (so_heap intern)"

definition SplHeap_isEmpty :: "('a, 'w) spl_heap_object \<Rightarrow> bool" where
  "SplHeap_isEmpty intern = (spl_ptr_heap_count (so_heap intern) = 0)"

text \<open>\<open>separate\<close> is \<open>SEPARATE_ARG_IF_REF\<close>: the value itself with one more reference, or a copy.\<close>

definition SplHeap_insert ::
  "('w \<Rightarrow> bool) \<Rightarrow> ('a \<Rightarrow> 'w \<Rightarrow> 'a \<times> 'w) \<Rightarrow> ('a, 'w) spl_heap_object \<Rightarrow> 'a \<Rightarrow> 'w \<Rightarrow>
   (bool result \<times> ('a, 'w) spl_heap_object \<times> 'w) outcome option" where
  "SplHeap_insert exc separate intern value w =
     (if is_corrupted (so_heap intern) then Some (Done (RuntimeException corrupted_msg, intern, w))
      else do {
        let (value, w) = separate value w;
        r \<leftarrow> spl_ptr_heap_insert exc (so_heap intern) value w;
        Some (case r of Fatal \<Rightarrow> Fatal | Done (heap, w) \<Rightarrow> Done (Return True, intern\<lparr>so_heap := heap\<rparr>, w))
      })"

text \<open>\<open>RETURN_ZVAL(value, 1, 1)\<close> hands out a copy and drops the reference to \<open>value\<close>.\<close>

definition SplHeap_extract ::
  "('w \<Rightarrow> bool) \<Rightarrow> ('a \<Rightarrow> 'w \<Rightarrow> 'w) \<Rightarrow> ('a, 'w) spl_heap_object \<Rightarrow> 'w \<Rightarrow>
   ('a result \<times> ('a, 'w) spl_heap_object \<times> 'w) option" where
  "SplHeap_extract exc zval_ptr_dtor intern w =
     (if is_corrupted (so_heap intern) then Some (RuntimeException corrupted_msg, intern, w)
      else do {
        (value, heap, w) \<leftarrow> spl_ptr_heap_delete_top exc (so_heap intern) w;
        let intern = intern\<lparr>so_heap := heap\<rparr>;
        Some (case value of
            None \<Rightarrow> (RuntimeException ''Can't extract from an empty heap'', intern, w)
          | Some v \<Rightarrow> (Return v, intern, zval_ptr_dtor v w))
      })"

definition SplHeap_top :: "('a, 'w) spl_heap_object \<Rightarrow> 'a result option" where
  "SplHeap_top intern =
     (if is_corrupted (so_heap intern) then Some (RuntimeException corrupted_msg)
      else do {
        value \<leftarrow> spl_ptr_heap_top (so_heap intern);
        Some (case value of None \<Rightarrow> RuntimeException ''Can't peek at an empty heap'' | Some v \<Rightarrow> Return v)
      })"

definition SplHeap_recoverFromCorruption :: "('a, 'w) spl_heap_object \<Rightarrow> ('a, 'w) spl_heap_object" where
  "SplHeap_recoverFromCorruption intern =
     intern\<lparr>so_heap := so_heap intern\<lparr>hp_flags := hp_flags (so_heap intern) AND NOT SPL_HEAP_CORRUPTED\<rparr>\<rparr>"

definition SplHeap_key :: "('a, 'w) spl_heap_object \<Rightarrow> int" where
  "SplHeap_key intern = int (hp_count (so_heap intern)) - 1"

text \<open>The method does not look at the corruption flag, unlike \<open>spl_heap_it_move_forward\<close> of a \<open>foreach\<close>.\<close>

definition SplHeap_next ::
  "('w \<Rightarrow> bool) \<Rightarrow> ('a \<Rightarrow> 'w \<Rightarrow> 'w) \<Rightarrow> ('a, 'w) spl_heap_object \<Rightarrow> 'w \<Rightarrow> (('a, 'w) spl_heap_object \<times> 'w) option" where
  "SplHeap_next exc zval_ptr_dtor intern w = do {
     (elem, heap, w) \<leftarrow> spl_ptr_heap_delete_top exc (so_heap intern) w;
     Some (intern\<lparr>so_heap := heap\<rparr>, case elem of None \<Rightarrow> w | Some x \<Rightarrow> zval_ptr_dtor x w)
   }"

definition spl_heap_it_move_forward ::
  "('w \<Rightarrow> bool) \<Rightarrow> ('a \<Rightarrow> 'w \<Rightarrow> 'w) \<Rightarrow> ('a, 'w) spl_heap_object \<Rightarrow> 'w \<Rightarrow> (unit result \<times> ('a, 'w) spl_heap_object \<times> 'w) option" where
  "spl_heap_it_move_forward exc zval_ptr_dtor intern w =
     (if is_corrupted (so_heap intern) then Some (RuntimeException corrupted_msg, intern, w)
      else do {
        (elem, heap, w) \<leftarrow> spl_ptr_heap_delete_top exc (so_heap intern) w;
        Some (Return (), intern\<lparr>so_heap := heap\<rparr>, case elem of None \<Rightarrow> w | Some x \<Rightarrow> zval_ptr_dtor x w)
      })"

definition SplHeap_valid :: "('a, 'w) spl_heap_object \<Rightarrow> bool" where
  "SplHeap_valid intern = (hp_count (so_heap intern) \<noteq> 0)"

definition SplHeap_current :: "('a, 'w) spl_heap_object \<Rightarrow> 'a option option" where
  "SplHeap_current intern =
     (if hp_count (so_heap intern) = 0 then Some None else do { x \<leftarrow> cell (elements (so_heap intern)) 0; Some (Some x) })"

definition SplPriorityQueue_insert ::
  "('w \<Rightarrow> bool) \<Rightarrow> ('z \<Rightarrow> 'w \<Rightarrow> 'z \<times> 'w) \<Rightarrow> ('z pq_elem, 'w) spl_heap_object \<Rightarrow> 'z \<Rightarrow> 'z \<Rightarrow> 'w \<Rightarrow>
   (bool result \<times> ('z pq_elem, 'w) spl_heap_object \<times> 'w) outcome option" where
  "SplPriorityQueue_insert exc separate intern data priority w =
     (if is_corrupted (so_heap intern) then Some (Done (RuntimeException corrupted_msg, intern, w))
      else do {
        let (data, w) = separate data w;
        let (priority, w) = separate priority w;
        r \<leftarrow> spl_ptr_heap_insert exc (so_heap intern) \<lparr>pq_data = data, pq_priority = priority\<rparr> w;
        Some (case r of Fatal \<Rightarrow> Fatal | Done (heap, w) \<Rightarrow> Done (Return True, intern\<lparr>so_heap := heap\<rparr>, w))
      })"

definition SplPriorityQueue_extract ::
  "('w \<Rightarrow> bool) \<Rightarrow> ('z pq_elem \<Rightarrow> 'w \<Rightarrow> 'w) \<Rightarrow> ('z pq_elem, 'w) spl_heap_object \<Rightarrow> 'w \<Rightarrow>
   ('z pq_out result \<times> ('z pq_elem, 'w) spl_heap_object \<times> 'w) option" where
  "SplPriorityQueue_extract exc zval_ptr_dtor intern w =
     (if is_corrupted (so_heap intern) then Some (RuntimeException corrupted_msg, intern, w)
      else do {
        (value, heap, w) \<leftarrow> spl_ptr_heap_delete_top exc (so_heap intern) w;
        let intern = intern\<lparr>so_heap := heap\<rparr>;
        Some (case value of
            None \<Rightarrow> (RuntimeException ''Can't extract from an empty heap'', intern, w)
          | Some v \<Rightarrow>
              (case spl_pqueue_extract_helper v (so_flags intern) of
                 None \<Rightarrow> (RecoverableError ''Unable to extract from the PriorityQueue node'', intern, zval_ptr_dtor v w)
               | Some out \<Rightarrow> (Return out, intern, zval_ptr_dtor v w)))
      })"

definition SplPriorityQueue_top :: "('z pq_elem, 'w) spl_heap_object \<Rightarrow> 'z pq_out result option" where
  "SplPriorityQueue_top intern =
     (if is_corrupted (so_heap intern) then Some (RuntimeException corrupted_msg)
      else do {
        value \<leftarrow> spl_ptr_heap_top (so_heap intern);
        Some (case value of
            None \<Rightarrow> RuntimeException ''Can't peek at an empty heap''
          | Some v \<Rightarrow>
              (case spl_pqueue_extract_helper v (so_flags intern) of
                 None \<Rightarrow> RecoverableError ''Unable to extract from the PriorityQueue node''
               | Some out \<Rightarrow> Return out))
      })"

definition SplPriorityQueue_setExtractFlags :: "uint \<Rightarrow> ('a, 'w) spl_heap_object \<Rightarrow> ('a, 'w) spl_heap_object \<times> uint" where
  "SplPriorityQueue_setExtractFlags value intern =
     (let intern = intern\<lparr>so_flags := value AND SPL_PQUEUE_EXTR_MASK\<rparr> in (intern, so_flags intern))"

end
