(* ===== verification/Spl_Heap_Spec.thy ===== *)
theory Spl_Heap_Spec
  imports Spl_Heap
begin

text \<open>
  Correctness of the SPL heap: for every comparison, also one that throws or contradicts itself, no element
  is lost or duplicated and no cell outside the array is touched; for a comparison that is a total preorder the
  heap order holds, the top is a greatest element, and extracting everything sorts.
\<close>

subsection \<open>The interface of a queue ordered by a comparison\<close>

primrec inserts :: "('a \<Rightarrow> 'q \<Rightarrow> 'q option) \<Rightarrow> 'a list \<Rightarrow> 'q \<Rightarrow> 'q option" where
  "inserts ins [] q = Some q"
| "inserts ins (x # xs) q = (case ins x q of None \<Rightarrow> None | Some q' \<Rightarrow> inserts ins xs q')"

primrec extracts :: "('q \<Rightarrow> ('a \<times> 'q) option) \<Rightarrow> nat \<Rightarrow> 'q \<Rightarrow> ('a list \<times> 'q) option" where
  "extracts ext 0 q = Some ([], q)"
| "extracts ext (Suc n) q = (case ext q of None \<Rightarrow> None
     | Some (x, q') \<Rightarrow> (case extracts ext n q' of None \<Rightarrow> None | Some (xs, q'') \<Rightarrow> Some (x # xs, q'')))"

locale max_queue =
  fixes inv :: "'q \<Rightarrow> bool" and bag :: "'q \<Rightarrow> 'a multiset" and capacity :: nat
    and ins :: "'a \<Rightarrow> 'q \<Rightarrow> 'q option" and ext :: "'q \<Rightarrow> ('a \<times> 'q) option" and c :: "'a \<Rightarrow> 'a \<Rightarrow> int"
  assumes ins_law: "inv q \<Longrightarrow> size (bag q) < capacity \<Longrightarrow> \<exists>q'. ins x q = Some q' \<and> inv q' \<and> bag q' = add_mset x (bag q)"
    and ext_law: "inv q \<Longrightarrow> bag q \<noteq> {#} \<Longrightarrow>
      \<exists>x q'. ext q = Some (x, q') \<and> inv q' \<and> bag q = add_mset x (bag q') \<and> (\<forall>y \<in># bag q. 0 \<le> c x y)"
begin

lemma inserts_bag:
  "inv q \<Longrightarrow> size (bag q) + length xs \<le> capacity \<Longrightarrow> \<exists>q'. inserts ins xs q = Some q' \<and> inv q' \<and> bag q' = mset xs + bag q"
proof (induction xs arbitrary: q)
  case (Cons x xs)
  obtain q' where q': "ins x q = Some q'" "inv q'" "bag q' = add_mset x (bag q)"
    using ins_law [of q x] Cons.prems by auto
  then show ?case using Cons.IH [of q'] Cons.prems by auto
qed simp

lemma extracts_sorted:
  "inv q \<Longrightarrow> size (bag q) = n \<Longrightarrow>
    \<exists>xs q'. extracts ext n q = Some (xs, q') \<and> inv q' \<and> bag q' = {#} \<and> mset xs = bag q \<and> sorted_wrt (\<lambda>x y. 0 \<le> c x y) xs"
proof (induction n arbitrary: q)
  case (Suc n)
  have "bag q \<noteq> {#}" using Suc.prems(2) by auto
  then obtain x q' where q': "ext q = Some (x, q')" "inv q'" "bag q = add_mset x (bag q')" "\<forall>y \<in># bag q. 0 \<le> c x y"
    using ext_law [OF Suc.prems(1)] by blast
  then obtain xs q'' where "extracts ext n q' = Some (xs, q'')" "inv q''" "bag q'' = {#}" "mset xs = bag q'"
    "sorted_wrt (\<lambda>x y. 0 \<le> c x y) xs"
    using Suc.IH [of q'] Suc.prems(2) by auto
  moreover have "\<forall>y \<in> set xs. 0 \<le> c x y"
    using q'(3,4) \<open>mset xs = bag q'\<close> by (metis set_mset_mset add_mset_remove_trivial in_diffD set_mset_add_mset_insert insertCI)
  ultimately show ?case using q' by auto
qed simp

lemma insert_all_extract_all:
  assumes "inv q" and "bag q = {#}" and "length xs \<le> capacity"
  shows "\<exists>q1 ys q2. inserts ins xs q = Some q1 \<and> extracts ext (length xs) q1 = Some (ys, q2) \<and> inv q2 \<and> bag q2 = {#}
    \<and> mset ys = mset xs \<and> sorted_wrt (\<lambda>x y. 0 \<le> c x y) ys"
proof -
  obtain q1 where q1: "inserts ins xs q = Some q1" "inv q1" "bag q1 = mset xs"
    using inserts_bag [OF assms(1), of xs] assms by auto
  moreover obtain ys q2 where "extracts ext (length xs) q1 = Some (ys, q2)" "inv q2" "bag q2 = {#}" "mset ys = bag q1"
    "sorted_wrt (\<lambda>x y. 0 \<le> c x y) ys"
    using extracts_sorted [OF q1(2), of "length xs"] q1(3) by auto
  ultimately show ?thesis by auto
qed

end

subsection \<open>Cells and their contents\<close>

definition heap_ok :: "('a, 'w) spl_ptr_heap \<Rightarrow> bool" where
  "heap_ok h \<longleftrightarrow> length (elements h) = max_size h \<and> hp_count h \<le> max_size h \<and> None \<notin> set (take (hp_count h) (elements h))
     \<and> (\<exists>k \<le> 23. max_size h = 64 * 2 ^ k)"

definition vals :: "('a, 'w) spl_ptr_heap \<Rightarrow> 'a list" where
  "vals h = map the (take (hp_count h) (elements h))"

definition bag :: "('a, 'w) spl_ptr_heap \<Rightarrow> 'a multiset" where
  "bag h = mset (vals h)"

text \<open>The first \<open>n\<close> cells hold \<open>xs\<close>.\<close>

definition holds :: "'a option list \<Rightarrow> 'a list \<Rightarrow> bool" where
  "holds es xs \<longleftrightarrow> length xs \<le> length es \<and> take (length xs) es = map Some xs"

lemma holds_cell: "holds es xs \<Longrightarrow> i < length xs \<Longrightarrow> cell es i = Some (xs ! i)"
  by (auto simp: holds_def cell_def dest: arg_cong [of _ _ "\<lambda>ys. ys ! i"])

lemma holds_set: "holds es xs \<Longrightarrow> i < length xs \<Longrightarrow> \<exists>es'. set_cell es i x = Some es' \<and> holds es' (xs[i := x]) \<and> length es' = length es"
  by (auto simp: holds_def set_cell_def take_update_swap map_update)

lemma heap_ok_holds: "heap_ok h \<Longrightarrow> holds (elements h) (vals h)"
proof -
  assume ok: "heap_ok h"
  then have "map (Some \<circ> the) (take (hp_count h) (elements h)) = take (hp_count h) (elements h)"
    by (intro map_idI) (auto simp: heap_ok_def, metis option.collapse)
  then show ?thesis using ok by (simp add: heap_ok_def holds_def vals_def)
qed

lemma vals_holds: "holds es xs \<Longrightarrow> vals (h\<lparr>elements := es, hp_count := length xs\<rparr>) = xs"
  by (simp add: vals_def holds_def)

subsection \<open>Sifting up\<close>

definition weak_order_cmp :: "('a \<Rightarrow> 'a \<Rightarrow> int) \<Rightarrow> bool" where
  "weak_order_cmp c \<longleftrightarrow> (\<forall>x y. c x y < 0 \<longleftrightarrow> 0 < c y x) \<and> (\<forall>x y z. 0 \<le> c x y \<longrightarrow> 0 \<le> c y z \<longrightarrow> 0 \<le> c x z)"

lemma weak_orderD:
  assumes "weak_order_cmp c"
  shows "c x y < 0 \<Longrightarrow> 0 \<le> c y x" and "\<not> c x y < 0 \<Longrightarrow> 0 \<le> c x y" and "0 \<le> c x y \<Longrightarrow> 0 \<le> c y z \<Longrightarrow> 0 \<le> c x z"
    and "0 < c x y \<Longrightarrow> 0 \<le> c x y" and "\<not> 0 < c x y \<Longrightarrow> 0 \<le> c y x" and "0 \<le> c x x"
  using assms unfolding weak_order_cmp_def by (metis linorder_not_less less_imp_le)+

definition heap_ord :: "('a \<Rightarrow> 'a \<Rightarrow> int) \<Rightarrow> 'a list \<Rightarrow> bool" where
  "heap_ord c xs \<longleftrightarrow> (\<forall>k. 0 < k \<longrightarrow> k < length xs \<longrightarrow> 0 \<le> c (xs ! ((k - 1) div 2)) (xs ! k))"

text \<open>Heap order except between position \<open>i\<close> and its parent.\<close>

definition up_inv :: "('a \<Rightarrow> 'a \<Rightarrow> int) \<Rightarrow> 'a list \<Rightarrow> nat \<Rightarrow> bool" where
  "up_inv c xs i \<longleftrightarrow> (\<forall>k. 0 < k \<longrightarrow> k < length xs \<longrightarrow> k \<noteq> i \<longrightarrow> 0 \<le> c (xs ! ((k - 1) div 2)) (xs ! k))
     \<and> (0 < i \<longrightarrow> (\<forall>k. 0 < k \<longrightarrow> k < length xs \<longrightarrow> (k - 1) div 2 = i \<longrightarrow> 0 \<le> c (xs ! ((i - 1) div 2)) (xs ! k)))"

lemma parent_lt: "0 < k \<Longrightarrow> (k - 1) div 2 < (k :: nat)"
  by simp

lemma up_inv_step:
  assumes wo: "weak_order_cmp c" and inv: "up_inv c xs i" and i: "0 < i" "i < length xs" and qd: "q = (i - 1) div 2"
    and lt: "c (xs ! q) (xs ! i) < 0"
  shows "up_inv c (xs[i := xs ! q, q := xs ! i]) q"
proof -
  let ?ys = "xs[i := xs ! q, q := xs ! i]"
  have q: "q < i" using i qd by simp
  have ge: "0 \<le> c (xs ! i) (xs ! q)" by (rule weak_orderD(1) [OF wo lt])
  note tr = weak_orderD(3) [OF wo]
  have e: "0 \<le> c (xs ! m) (xs ! k)" if "0 < k" "k < length xs" "k \<noteq> i" "m = (k - 1) div 2" for k m
    using inv that by (simp add: up_inv_def)
  have g: "0 \<le> c (xs ! q) (xs ! k)" if "0 < k" "k < length xs" "i = (k - 1) div 2" for k
    using inv i that by (simp add: up_inv_def qd)
  have nth: "?ys ! k = (if k = q then xs ! i else if k = i then xs ! q else xs ! k)" if "k < length xs" for k
    using that i q by (auto simp: nth_list_update)
  have 1: "0 \<le> c (?ys ! m) (?ys ! k)" if k: "0 < k" "k < length xs" "k \<noteq> q" and m: "m = (k - 1) div 2" for k m
  proof -
    have mk: "m < k" "m < length xs" using k m by simp_all
    consider "k = i" | "m = i" "k \<noteq> i" | "m = q" "k \<noteq> i" | "m \<noteq> i" "m \<noteq> q" "k \<noteq> i" by blast
    then show ?thesis
    proof cases
      case 1
      then have "m = q" using m qd by simp
      then show ?thesis using 1 ge q nth [OF mk(2)] nth [OF k(2)] by simp
    next
      case 2
      then show ?thesis using g [OF k(1,2)] m k(3) q nth [OF mk(2)] nth [OF k(2)] by simp
    next
      case 3
      then show ?thesis using tr [OF ge e [OF k(1,2) 3(2) m, unfolded 3(1)]] k(3) q nth [OF mk(2)] nth [OF k(2)] by simp
    next
      case 4
      then show ?thesis using e [OF k(1,2) 4(3) m] k(3) nth [OF mk(2)] nth [OF k(2)] by simp
    qed
  qed
  have 2: "0 \<le> c (?ys ! m) (?ys ! k)" if k: "0 < q" "0 < k" "k < length xs" "q = (k - 1) div 2" and m: "m = (q - 1) div 2" for k m
  proof -
    have lt: "m < q" "q < k" using parent_lt [OF k(1)] parent_lt [OF k(2)] k(4) m by simp_all
    then have lt: "m < q" "q < k" "m < length xs" using k(3) by simp_all
    have eq: "0 \<le> c (xs ! m) (xs ! q)" using e [of q m] k(1) m q i by simp
    show ?thesis
    proof (cases "k = i")
      case True
      then show ?thesis using eq lt q nth [OF lt(3)] nth [OF k(3)] by simp
    next
      case False
      then show ?thesis using tr [OF eq e [OF k(2,3) False k(4)]] lt q nth [OF lt(3)] nth [OF k(3)] by simp
    qed
  qed
  show ?thesis
    unfolding up_inv_def length_list_update
  proof (intro conjI allI impI)
    fix k assume "0 < k" "k < length xs" "k \<noteq> q"
    then show "0 \<le> c (?ys ! ((k - 1) div 2)) (?ys ! k)" by (rule 1) (rule refl)
  next
    fix k assume "0 < q" "0 < k" "k < length xs" "(k - 1) div 2 = q"
    then show "0 \<le> c (?ys ! ((q - 1) div 2)) (?ys ! k)" by (intro 2) simp_all
  qed
qed

lemma swap_mset:
  assumes "i < length xs" and "j < length xs"
  shows "mset (xs[i := xs ! j, j := xs ! i]) = mset xs"
  using mset_swap [OF assms(2,1)] by (cases "i = j") (simp_all add: list_update_swap)

lemma sift_up_run:
  assumes "\<And>a b w. I w \<Longrightarrow> I (snd (cmp a b w))" and "\<And>a b w. I w \<Longrightarrow> pure \<Longrightarrow> fst (cmp a b w) = c a b"
  shows "i < length xs \<Longrightarrow> length xs \<le> length es \<Longrightarrow> holds (es[i := Some x]) xs \<Longrightarrow> I w \<Longrightarrow>
    \<exists>i' w' es' xs'. sift_up cmp x i w es = Some (i', w', es') \<and> I w' \<and> i' < length xs \<and> length es' = length es
      \<and> holds (es'[i' := Some x]) xs' \<and> length xs' = length xs \<and> mset xs' = mset xs
      \<and> (pure \<longrightarrow> weak_order_cmp c \<longrightarrow> up_inv c xs i \<longrightarrow> heap_ord c xs')"
proof (induction i arbitrary: w es xs rule: less_induct)
  case (less i)
  have xi: "xs ! i = x"
    using less.prems(1-3) by (auto simp: holds_def dest: arg_cong [of _ _ "\<lambda>ys. ys ! i"])
  show ?case
  proof (cases "i = 0")
    case True
    then have "sift_up cmp x i w es = Some (i, w, es)" by (subst sift_up.simps) simp
    moreover have "up_inv c xs i \<longrightarrow> heap_ord c xs" using True by (simp add: up_inv_def heap_ord_def)
    ultimately show ?thesis using less.prems by blast
  next
    case False
    let ?q = "(i - 1) div 2" let ?p = "xs ! ?q"
    have q: "?q < i" using False by simp
    have cell: "cell es ?q = Some ?p"
      using holds_cell [OF less.prems(3), of ?q] q less.prems(1,2) by (simp add: cell_def split: if_splits)
    obtain cc w1 where w1: "cmp ?p x w = (cc, w1)" by fastforce
    have I1: "I w1" using assms(1) [OF less.prems(4), of ?p x] w1 by simp
    have cc: "pure \<Longrightarrow> cc = c ?p x" using assms(2) [OF less.prems(4), of ?p x] w1 by simp
    show ?thesis
    proof (cases "cc < 0")
      case neg: True
      let ?es = "es[i := Some ?p]" let ?xs = "xs[i := ?p, ?q := x]"
      have set: "set_cell es i ?p = Some ?es" using less.prems(1,2) by (simp add: set_cell_def)
      have h: "holds (?es[?q := Some x]) ?xs"
        using less.prems(1-3) q
        by (auto simp: holds_def take_update_swap map_update xi)
          (metis list_update_overwrite list_update_swap nat_neq_iff)
      obtain i' w' es' xs' where r: "sift_up cmp x ?q w1 ?es = Some (i', w', es')" "I w'" "i' < length xs" "length es' = length es"
        "holds (es'[i' := Some x]) xs'" "length xs' = length xs" "mset xs' = mset ?xs"
        "pure \<longrightarrow> weak_order_cmp c \<longrightarrow> up_inv c ?xs ?q \<longrightarrow> heap_ord c xs'"
        using less.IH [OF q, of ?xs ?es w1] less.prems(1,2) q h I1 by auto
      have "mset ?xs = mset xs" using swap_mset [of i xs ?q] less.prems(1) q xi by simp
      moreover have "up_inv c ?xs ?q" if "pure" "weak_order_cmp c" "up_inv c xs i"
        using up_inv_step [OF that(2,3) _ _ refl] False less.prems(1) neg cc that(1) xi by simp
      moreover have "sift_up cmp x i w es = Some (i', w', es')"
        using False cell w1 neg set r(1) by (simp add: sift_up.simps [of cmp x i])
      ultimately show ?thesis using r by auto
    next
      case ge: False
      have "heap_ord c xs" if "pure" "weak_order_cmp c" "up_inv c xs i"
        unfolding heap_ord_def
      proof (intro allI impI)
        fix k assume "0 < k" "k < length xs"
        then show "0 \<le> c (xs ! ((k - 1) div 2)) (xs ! k)"
          using that(3) ge cc [OF that(1)] xi by (cases "k = i") (simp_all add: up_inv_def)
      qed
      moreover have "sift_up cmp x i w es = Some (i, w1, es)"
        using False cell w1 ge by (simp add: sift_up.simps [of cmp x i])
      ultimately show ?thesis using less.prems I1 by blast
    qed
  qed
qed

subsection \<open>Sifting down\<close>

text \<open>Heap order of the first \<open>m\<close> elements except between position \<open>i\<close> and its children.\<close>

definition down_inv :: "('a \<Rightarrow> 'a \<Rightarrow> int) \<Rightarrow> 'a list \<Rightarrow> nat \<Rightarrow> nat \<Rightarrow> bool" where
  "down_inv c xs m i \<longleftrightarrow> (\<forall>k. 0 < k \<longrightarrow> k < m \<longrightarrow> (k - 1) div 2 \<noteq> i \<longrightarrow> 0 \<le> c (xs ! ((k - 1) div 2)) (xs ! k))
     \<and> (0 < i \<longrightarrow> (\<forall>k. 0 < k \<longrightarrow> k < m \<longrightarrow> (k - 1) div 2 = i \<longrightarrow> 0 \<le> c (xs ! ((i - 1) div 2)) (xs ! k)))"

lemma children: "0 < k \<Longrightarrow> (k - 1) div 2 = i \<longleftrightarrow> k = 2 * i + 1 \<or> k = 2 * i + (2 :: nat)"
  by auto

lemma down_inv_step:
  assumes wo: "weak_order_cmp c" and inv: "down_inv c xs m i" and m: "m < length xs" "i < m" "j < m" and j: "j = 2 * i + 1 \<or> j = 2 * i + 2"
    and big: "0 \<le> c (xs ! j) (xs ! (2 * i + 1))" "0 \<le> c (xs ! j) (xs ! (2 * i + 2))" and lt: "c (xs ! i) (xs ! j) < 0"
  shows "down_inv c (xs[i := xs ! j, j := xs ! i]) m j"
proof -
  let ?ys = "xs[i := xs ! j, j := xs ! i]"
  have ij: "i < j" using j by auto
  have ge: "0 \<le> c (xs ! j) (xs ! i)" by (rule weak_orderD(1) [OF wo lt])
  have e: "0 \<le> c (xs ! q) (xs ! k)" if "0 < k" "k < m" "q \<noteq> i" "q = (k - 1) div 2" for k q
    using inv that by (simp add: down_inv_def)
  have g: "0 \<le> c (xs ! q) (xs ! j)" if "0 < i" "q = (i - 1) div 2" for q
  proof -
    have "(j - 1) div 2 = i" using j by auto
    then show ?thesis using inv that m ij by (simp add: down_inv_def)
  qed
  have nth: "?ys ! k = (if k = j then xs ! i else if k = i then xs ! j else xs ! k)" if "k < length xs" for k
    using that m ij by (auto simp: nth_list_update)
  have pj: "(j - 1) div 2 = i" using j by auto
  show ?thesis
    unfolding down_inv_def
  proof (intro conjI allI impI)
    fix k assume k: "0 < k" "k < m" "(k - 1) div 2 \<noteq> j"
    define q where "q = (k - 1) div 2"
    have q: "q < k" "q < length xs" "k < length xs" using k m parent_lt [OF k(1)] by (simp_all add: q_def)
    show "0 \<le> c (?ys ! ((k - 1) div 2)) (?ys ! k)"
    proof (cases "q = i")
      case True
      then have "k = 2 * i + 1 \<or> k = 2 * i + 2" using children [OF k(1), of i] unfolding q_def by blast
      then have "0 \<le> c (xs ! j) (xs ! k)" using big by blast
      then show ?thesis using True k(3) q ij ge nth [OF q(2)] nth [OF q(3)] unfolding q_def [symmetric] by auto
    next
      case False
      have qj: "q \<noteq> j" using k(3) by (simp add: q_def)
      show ?thesis
      proof (cases "k = i")
        case True
        then have "0 \<le> c (xs ! q) (xs ! j)" using g [of q] k(1) by (simp add: q_def)
        then show ?thesis using True False qj ij nth [OF q(2)] nth [OF q(3)] unfolding q_def [symmetric] by simp
      next
        case ki: False
        have "k \<noteq> j" using False pj by (auto simp: q_def)
        then show ?thesis
          using ki False qj e [OF k(1,2) False q_def] nth [OF q(2)] nth [OF q(3)] unfolding q_def [symmetric] by simp
      qed
    qed
  next
    fix k assume k: "0 < j" "0 < k" "k < m" "(k - 1) div 2 = j"
    have jk: "j < k" "k < length xs" using parent_lt [OF k(2)] k m by simp_all
    have "0 \<le> c (xs ! j) (xs ! k)" using e [of k j] k ij by simp
    then show "0 \<le> c (?ys ! ((j - 1) div 2)) (?ys ! k)"
      unfolding pj using nth [of i] nth [OF jk(2)] jk ij m by simp
  qed
qed

lemma pick_child_run:
  assumes I: "\<And>a b w. I w \<Longrightarrow> I (snd (cmp a b w))" and pc: "\<And>a b w. I w \<Longrightarrow> pure \<Longrightarrow> fst (cmp a b w) = c a b"
    and j: "j < m" and cells: "cell es j = Some x" "cell es (j + 1) = Some y" and w: "I w"
  shows "\<exists>k w1. pick_child cmp m j w es = Some (k, w1) \<and> I w1 \<and> (k = j \<or> k = j + 1)
    \<and> (pure \<longrightarrow> weak_order_cmp c \<longrightarrow> 0 \<le> c (if k = j then x else y) x \<and> 0 \<le> c (if k = j then x else y) y)"
proof -
  obtain r w1 where r: "cmp y x w = (r, w1)" by fastforce
  have i1: "I w1" and rc: "pure \<Longrightarrow> r = c y x" using I [OF w, of y x] pc [OF w, of y x] r by simp_all
  have p: "pick_child cmp m j w es = Some (if 0 < r then j + 1 else j, w1)" using j cells r by (simp add: pick_child_def)
  have "0 \<le> c (if (if 0 < r then j + 1 else j) = j then x else y) x \<and> 0 \<le> c (if (if 0 < r then j + 1 else j) = j then x else y) y"
    if "pure" "weak_order_cmp c"
    using weak_orderD(4,5) [OF that(2), of y x] weak_orderD(6) [OF that(2)] rc [OF that(1)] by simp
  with p i1 show ?thesis by (intro exI [of _ "if 0 < r then j + 1 else j"] exI [of _ w1]) auto
qed

lemma holds_hole: "holds (es[i := Some b]) xs \<Longrightarrow> k < length xs \<Longrightarrow> k \<noteq> i \<Longrightarrow> cell es k = Some (xs ! k)"
  using holds_cell [of "es[i := Some b]" xs k] by (simp add: cell_def split: if_splits)

lemma holds_at_hole: "holds (es[i := Some b]) xs \<Longrightarrow> i < length xs \<Longrightarrow> xs ! i = b"
  using holds_cell [of "es[i := Some b]" xs i] by (auto simp: cell_def holds_def split: if_splits)

text \<open>Moving an element into the hole moves the hole.\<close>

lemma holds_move:
  assumes "holds (es[i := Some b]) xs" and "i < length xs" "j < length xs" "i \<noteq> j"
  shows "set_cell es i (xs ! j) = Some (es[i := Some (xs ! j)])" and "holds (es[i := Some (xs ! j), j := Some b]) (xs[i := xs ! j, j := b])"
proof -
  have le: "length xs \<le> length es" and tk: "take (length xs) (es[i := Some b]) = map Some xs"
    using assms(1) by (simp_all add: holds_def)
  show "set_cell es i (xs ! j) = Some (es[i := Some (xs ! j)])" using assms(2) le by (simp add: set_cell_def)
  have "take (length xs) (es[i := Some (xs ! j), j := Some b]) = (take (length xs) (es[i := Some b]))[i := Some (xs ! j), j := Some b]"
    by (simp add: take_update_swap)
  also have "\<dots> = map Some (xs[i := xs ! j, j := b])" unfolding tk by (simp add: map_update)
  finally show "holds (es[i := Some (xs ! j), j := Some b]) (xs[i := xs ! j, j := b])" using le by (simp add: holds_def)
qed

lemma sift_down_run:
  assumes I: "\<And>a b w. I w \<Longrightarrow> I (snd (cmp a b w))" and pc: "\<And>a b w. I w \<Longrightarrow> pure \<Longrightarrow> fst (cmp a b w) = c a b"
  shows "length xs = m + 1 \<Longrightarrow> i \<le> m \<Longrightarrow> xs ! m = b \<Longrightarrow> holds (es[i := Some b]) xs \<Longrightarrow> I w \<Longrightarrow>
    \<exists>i' w' es' xs'. sift_down cmp b m (m div 2) i w es = Some (i', w', es') \<and> I w' \<and> i' \<le> m \<and> length es' = length es
      \<and> holds (es'[i' := Some b]) xs' \<and> length xs' = m + 1 \<and> xs' ! m = b \<and> mset xs' = mset xs
      \<and> (pure \<longrightarrow> weak_order_cmp c \<longrightarrow> down_inv c xs m i \<longrightarrow> heap_ord c (take m xs'))"
proof (induction "m - i" arbitrary: i w es xs rule: less_induct)
  case less
  note pr = less.prems
  have xi: "xs ! i = b" using holds_at_hole [OF pr(4)] pr(1,2) by simp
  show ?case
  proof (cases "i < m div 2")
    case False
    then have s: "sift_down cmp b m (m div 2) i w es = Some (i, w, es)" by (subst sift_down.simps) simp
    have "heap_ord c (take m xs)" if d: "down_inv c xs m i"
      unfolding heap_ord_def
    proof (intro allI impI)
      fix k assume "0 < k" "k < length (take m xs)"
      then have k: "0 < k" "k < m" by simp_all
      then have "(k - 1) div 2 \<noteq> i" using False by auto
      then show "0 \<le> c (take m xs ! ((k - 1) div 2)) (take m xs ! k)" using d k by (simp add: down_inv_def)
    qed
    then show ?thesis using s pr by blast
  next
    case True
    let ?l = "2 * i + 1"
    have l: "?l < m" "?l + 1 \<le> m" "i < m" using True by auto
    have cl: "cell es ?l = Some (xs ! ?l)" "cell es (?l + 1) = Some (xs ! (?l + 1))"
      using holds_hole [OF pr(4)] l pr(1) by simp_all
    obtain j w1 where p: "pick_child cmp m ?l w es = Some (j, w1)" "I w1" "j = ?l \<or> j = ?l + 1"
      and big: "pure \<longrightarrow> weak_order_cmp c \<longrightarrow> 0 \<le> c (if j = ?l then xs ! ?l else xs ! (?l + 1)) (xs ! ?l)
        \<and> 0 \<le> c (if j = ?l then xs ! ?l else xs ! (?l + 1)) (xs ! (?l + 1))"
      using pick_child_run [where I = I and cmp = cmp and c = c and pure = pure, OF I pc l(1) cl pr(5)] by blast
    have j: "i < j" "j \<le> m" "j < length xs" "j = 2 * i + 1 \<or> j = 2 * i + 2" using p(3) l pr(1) by auto
    have xj: "(if j = ?l then xs ! ?l else xs ! (?l + 1)) = xs ! j" using p(3) by auto
    have cj: "cell es j = Some (xs ! j)" using holds_hole [OF pr(4) j(3)] j(1) by simp
    obtain cc w2 where r: "cmp b (xs ! j) w1 = (cc, w2)" by fastforce
    have I2: "I w2" and cc: "pure \<Longrightarrow> cc = c b (xs ! j)" using I [OF p(2), of b "xs ! j"] pc [OF p(2), of b "xs ! j"] r by simp_all
    show ?thesis
    proof (cases "cc < 0")
      case False
      have "heap_ord c (take m xs)" if d: "down_inv c xs m i" and pw: "pure" "weak_order_cmp c"
        unfolding heap_ord_def
      proof (intro allI impI)
        fix k assume "0 < k" "k < length (take m xs)"
        then have k: "0 < k" "k < m" by simp_all
        have bj: "0 \<le> c b (xs ! j)" using False cc [OF pw(1)] by simp
        have "0 \<le> c (xs ! ((k - 1) div 2)) (xs ! k)"
        proof (cases "(k - 1) div 2 = i")
          case True
          then have "k = ?l \<or> k = ?l + 1" using children [OF k(1), of i] by simp
          then have "0 \<le> c (xs ! j) (xs ! k)" using big pw xj by auto
          then show ?thesis using True xi weak_orderD(3) [OF pw(2) bj] by simp
        qed (use d k in \<open>simp add: down_inv_def\<close>)
        then show "0 \<le> c (take m xs ! ((k - 1) div 2)) (take m xs ! k)" using k by simp
      qed
      moreover have "sift_down cmp b m (m div 2) i w es = Some (i, w2, es)"
        by (subst sift_down.simps) (use True p(1) cj r False in \<open>simp add: mult.commute [of i 2]\<close>)
      ultimately show ?thesis using pr I2 by blast
    next
      case neg: True
      let ?es = "es[i := Some (xs ! j)]" and ?xs = "xs[i := xs ! j, j := b]"
      have mv: "set_cell es i (xs ! j) = Some ?es" "holds (?es[j := Some b]) ?xs"
        using holds_move [OF pr(4), of j] l pr(1) j by simp_all
      have xm: "?xs ! m = b" using l j pr(1,3) by (auto simp: nth_list_update)
      have "m - j < m - i" using j l by simp
      then obtain i' w' es' xs' where r2: "sift_down cmp b m (m div 2) j w2 ?es = Some (i', w', es')" "I w'" "i' \<le> m" "length es' = length es"
        "holds (es'[i' := Some b]) xs'" "length xs' = m + 1" "xs' ! m = b" "mset xs' = mset ?xs"
        "pure \<longrightarrow> weak_order_cmp c \<longrightarrow> down_inv c ?xs m j \<longrightarrow> heap_ord c (take m xs')"
        using less.hyps [of j ?xs ?es w2] pr(1) j(2) xm mv(2) I2 by auto
      have "mset ?xs = mset xs" using swap_mset [of i xs j] j l pr(1) xi by simp
      moreover have "down_inv c ?xs m j" if pw: "pure" "weak_order_cmp c" "down_inv c xs m i"
      proof -
        have lt: "c (xs ! i) (xs ! j) < 0" using neg cc [OF pw(1)] xi by simp
        have "j \<noteq> m" using lt weak_orderD(6) [OF pw(2), of b] xi pr(3) by auto
        then show ?thesis using down_inv_step [OF pw(2,3) _ l(3) _ j(4) _ _ lt] j(2) pr(1) big pw(1,2) xj xi by simp
      qed
      moreover have "sift_down cmp b m (m div 2) i w es = Some (i', w', es')"
        by (subst sift_down.simps) (use True p(1) cj r neg mv(1) r2(1) in \<open>simp add: mult.commute [of i 2]\<close>)
      ultimately show ?thesis using r2 by auto
    qed
  qed
qed

subsection \<open>Operations\<close>

lemma init_ok: "heap_ok (spl_ptr_heap_init cmp ctor dtor)" "vals (spl_ptr_heap_init cmp ctor dtor) = []"
  by (auto simp: spl_ptr_heap_init_def heap_ok_def vals_def PTR_HEAP_BLOCK_SIZE_def intro!: exI [of _ 0])

lemma length_vals: "heap_ok h \<Longrightarrow> length (vals h) = hp_count h"
  by (simp add: heap_ok_def vals_def)

text \<open>The array grows by doubling up to \<open>2 ^ 29\<close> elements; the next doubling would overflow the byte size.\<close>

lemma grow_heap_ok:
  assumes ok: "heap_ok h" and room: "hp_count h < 2 ^ 29"
  shows "\<exists>h'. grow_heap h = Done h' \<and> heap_ok h' \<and> vals h' = vals h \<and> hp_count h' = hp_count h \<and> hp_count h < max_size h'
    \<and> hp_cmp h' = hp_cmp h \<and> hp_ctor h' = hp_ctor h \<and> hp_dtor h' = hp_dtor h \<and> hp_flags h' = hp_flags h"
proof (cases "hp_count h + 1 > max_size h")
  case False
  then show ?thesis using ok by (auto simp: grow_heap_def)
next
  case True
  have l: "length (elements h) = max_size h" "hp_count h = max_size h" using ok True by (simp_all add: heap_ok_def)
  obtain k where k: "max_size h = 64 * 2 ^ k" using ok by (auto simp: heap_ok_def)
  have "64 * 2 ^ k < (2 ^ 29 :: nat)" using room l k by simp
  then have "2 ^ k < (2 ^ 23 :: nat)" by simp
  then have k23: "k < 23" by (rule power_less_imp_less_exp [rotated]) simp
  have sz: "4 * max_size h + 4 * max_size h < 2 ^ 32" using room l by simp
  let ?h = "h\<lparr>elements := take (2 * max_size h) (elements h) @ replicate (2 * max_size h - length (elements h)) None, max_size := max_size h * 2\<rparr>"
  have "grow_heap h = Done ?h" using True sz by (simp add: grow_heap_def sizeof_ptr_def)
  moreover have "heap_ok ?h"
    using ok l k k23 by (auto simp: heap_ok_def intro!: exI [of _ "Suc k"])
  moreover have "0 < max_size h" using k by simp
  ultimately show ?thesis using l by (auto simp: vals_def)
qed

text \<open>What an operation leaves alone: the callbacks of the heap.\<close>

definition same_kind :: "('a, 'w) spl_ptr_heap \<Rightarrow> ('a, 'w) spl_ptr_heap \<Rightarrow> bool" where
  "same_kind h' h \<longleftrightarrow> hp_cmp h' = hp_cmp h \<and> hp_ctor h' = hp_ctor h \<and> hp_dtor h' = hp_dtor h"

lemma up_inv_snoc: "heap_ord c xs \<Longrightarrow> up_inv c (xs @ [x]) (length xs)"
proof -
  assume o: "heap_ord c xs"
  have a: "0 \<le> c ((xs @ [x]) ! ((k - 1) div 2)) ((xs @ [x]) ! k)" if "0 < k" "k < length xs" for k
  proof -
    have "(k - 1) div 2 < length xs" using that by simp
    then show ?thesis using o that by (simp add: heap_ord_def nth_append)
  qed
  show ?thesis
    unfolding up_inv_def
  proof (intro conjI allI impI)
    fix k assume "0 < k" "k < length (xs @ [x])" "(k - 1) div 2 = length xs"
    then show "0 \<le> c ((xs @ [x]) ! ((length xs - 1) div 2)) ((xs @ [x]) ! k)" using parent_lt [of k] by simp
  qed (use a in auto)
qed

lemma flags_corrupted: "is_corrupted (h\<lparr>hp_flags := hp_flags h OR SPL_HEAP_CORRUPTED\<rparr>)"
proof -
  have "(hp_flags h OR 1) AND 1 = 1" by (rule bit_word_eqI) (auto simp: bit_simps)
  then show ?thesis by (simp add: is_corrupted_def SPL_HEAP_CORRUPTED_def)
qed

lemma insert_ok:
  assumes ok: "heap_ok h" and room: "hp_count h < 2 ^ 29"
    and I: "\<And>a b w. I w \<Longrightarrow> I (snd (hp_cmp h a b w))" and pc: "\<And>a b w. I w \<Longrightarrow> pure \<Longrightarrow> fst (hp_cmp h a b w) = c a b"
    and w: "I (hp_ctor h x w)"
  shows "\<exists>h' w'. spl_ptr_heap_insert exc h x w = Some (Done (h', w')) \<and> heap_ok h' \<and> same_kind h' h \<and> I w'
    \<and> mset (vals h') = add_mset x (mset (vals h))
    \<and> (if exc w' then is_corrupted h' else hp_flags h' = hp_flags h)
    \<and> (pure \<longrightarrow> weak_order_cmp c \<longrightarrow> heap_ord c (vals h) \<longrightarrow> heap_ord c (vals h'))"
proof -
  obtain g where g: "grow_heap h = Done g" "heap_ok g" "vals g = vals h" "hp_count g = hp_count h" "hp_count h < max_size g"
    "hp_cmp g = hp_cmp h" "hp_ctor g = hp_ctor h" "hp_dtor g = hp_dtor h" "hp_flags g = hp_flags h"
    using grow_heap_ok [OF ok room] by blast
  let ?n = "hp_count h" let ?xs = "vals h @ [x]"
  have n: "length (vals h) = ?n" by (rule length_vals [OF ok])
  have es: "length (elements g) = max_size g" using g(2) by (simp add: heap_ok_def)
  have hg: "holds (elements g) (vals h)" using heap_ok_holds [OF g(2)] g(3) by simp
  have "take (Suc ?n) ((elements g)[?n := Some x]) = map Some ?xs"
    using hg n g(5) es by (simp add: holds_def take_Suc_conv_app_nth take_update_swap list_update_append)
  then have h0: "holds ((elements g)[?n := Some x]) ?xs" using n g(5) es by (simp add: holds_def)
  obtain i w' es' xs' where r: "sift_up (hp_cmp h) x ?n (hp_ctor h x w) (elements g) = Some (i, w', es')" "I w'" "i < length ?xs"
    "length es' = length (elements g)" "holds (es'[i := Some x]) xs'" "length xs' = length ?xs" "mset xs' = mset ?xs"
    "pure \<longrightarrow> weak_order_cmp c \<longrightarrow> up_inv c ?xs ?n \<longrightarrow> heap_ord c xs'"
    using sift_up_run [where I = I and cmp = "hp_cmp h" and c = c and pure = pure, OF I pc, of ?n ?xs "elements g" x "hp_ctor h x w"]
      n g(5) es h0 w by auto
  let ?h = "(if exc w' then g\<lparr>hp_count := ?n + 1, hp_flags := hp_flags g OR SPL_HEAP_CORRUPTED\<rparr> else g\<lparr>hp_count := ?n + 1\<rparr>)\<lparr>elements := es'[i := Some x]\<rparr>"
  have il: "i < length es'" using r(3,4) n g(5) es by simp
  have op: "spl_ptr_heap_insert exc h x w = Some (Done (?h, w'))"
    unfolding spl_ptr_heap_insert_def using g(1,4,6,7) r(1) il by (simp add: Let_def set_cell_def)
  have tk: "take (Suc ?n) (es'[i := Some x]) = map Some xs'" using r(5,6) n by (simp add: holds_def)
  then have v: "vals ?h = xs'" by (simp add: vals_def)
  have "heap_ok ?h" using g(2,5) es r(4) tk unfolding heap_ok_def by auto
  moreover have "same_kind ?h h" using g(6-8) by (simp add: same_kind_def)
  moreover have "if exc w' then is_corrupted ?h else hp_flags ?h = hp_flags h"
    using g(9) flags_corrupted [of g] by (simp add: is_corrupted_def)
  ultimately show ?thesis
    using op r(2,7,8) v up_inv_snoc [of c "vals h" x] n by (intro exI [of _ ?h] exI [of _ w']) simp
qed

lemma heap_ord_top:
  assumes "weak_order_cmp c" and "heap_ord c xs"
  shows "k < length xs \<Longrightarrow> 0 \<le> c (xs ! 0) (xs ! k)"
proof (induction k rule: less_induct)
  case (less k)
  show ?case
  proof (cases "k = 0")
    case False
    have q: "(k - 1) div 2 < k" using False by simp
    have "0 \<le> c (xs ! 0) (xs ! ((k - 1) div 2))" using less.IH [OF q] q less.prems by simp
    moreover have "0 \<le> c (xs ! ((k - 1) div 2)) (xs ! k)" using assms(2) False less.prems by (simp add: heap_ord_def)
    ultimately show ?thesis by (rule weak_orderD(3) [OF assms(1)])
  qed (simp add: weak_orderD(6) [OF assms(1)])
qed

lemma down_inv_start:
  assumes "heap_ord c xs" and "m < length xs"
  shows "down_inv c (xs[0 := b]) m 0"
  unfolding down_inv_def
proof (intro conjI allI impI)
  fix k assume k: "0 < k" "k < m" "(k - 1) div 2 \<noteq> 0"
  then show "0 \<le> c (xs[0 := b] ! ((k - 1) div 2)) (xs[0 := b] ! k)" using assms by (simp add: heap_ord_def)
qed simp

lemma mset_replace_first:
  assumes "length xs' = Suc m" and "xs' ! m = b" and "mset xs' = mset (xs[0 := b])" and "xs \<noteq> []"
  shows "add_mset (xs ! 0) (mset (take m xs')) = mset xs"
proof -
  have "xs' = take m xs' @ [b]" using assms(1,2) by (metis lessI take_Suc_conv_app_nth take_all order_refl)
  then have "mset xs' = add_mset b (mset (take m xs'))" by (metis mset.simps(2) mset_append union_mset_add_mset_right add_0_right mset.simps(1))
  then show ?thesis using assms(3,4) by (cases xs) simp_all
qed

lemma delete_top_ok:
  assumes ok: "heap_ok h" and ne: "vals h \<noteq> []"
    and I: "\<And>a b w. I w \<Longrightarrow> I (snd (hp_cmp h a b w))" and pc: "\<And>a b w. I w \<Longrightarrow> pure \<Longrightarrow> fst (hp_cmp h a b w) = c a b" and w: "I w"
  shows "\<exists>h' w'. spl_ptr_heap_delete_top exc h w = Some (Some (vals h ! 0), h', hp_dtor h (vals h ! 0) w') \<and> heap_ok h' \<and> same_kind h' h
    \<and> I w' \<and> add_mset (vals h ! 0) (mset (vals h')) = mset (vals h)
    \<and> (if exc w' then is_corrupted h' else hp_flags h' = hp_flags h)
    \<and> (pure \<longrightarrow> weak_order_cmp c \<longrightarrow> heap_ord c (vals h) \<longrightarrow> heap_ord c (vals h'))"
proof -
  define m where "m = hp_count h - 1"
  let ?xs = "vals h" let ?b = "vals h ! m" let ?es = "elements h"
  have n: "hp_count h = Suc m" "length ?xs = Suc m" using length_vals [OF ok] ne by (auto simp: m_def neq_Nil_conv)
  have hs: "holds ?es ?xs" by (rule heap_ok_holds [OF ok])
  have le: "Suc m \<le> length ?es" using hs n by (simp add: holds_def)
  have h0: "holds (?es[0 := Some ?b]) (?xs[0 := ?b])" using hs by (simp add: holds_def take_update_swap map_update)
  have bm: "(?xs[0 := ?b]) ! m = ?b" using n by (cases m) (simp_all add: nth_list_update)
  obtain i w' es' xs' where r: "sift_down (hp_cmp h) ?b m (m div 2) 0 w ?es = Some (i, w', es')" "I w'" "i \<le> m" "length es' = length ?es"
    "holds (es'[i := Some ?b]) xs'" "length xs' = m + 1" "xs' ! m = ?b" "mset xs' = mset (?xs[0 := ?b])"
    "pure \<longrightarrow> weak_order_cmp c \<longrightarrow> down_inv c (?xs[0 := ?b]) m 0 \<longrightarrow> heap_ord c (take m xs')"
    using sift_down_run [where I = I and cmp = "hp_cmp h" and c = c and pure = pure, OF I pc, of "?xs[0 := ?b]" m 0 ?b ?es w]
      n h0 bm w by auto
  let ?h = "(if exc w' then h\<lparr>hp_count := m, hp_flags := hp_flags h OR SPL_HEAP_CORRUPTED\<rparr> else h\<lparr>hp_count := m\<rparr>)\<lparr>elements := es'[i := Some ?b]\<rparr>"
  have cells: "cell ?es 0 = Some (?xs ! 0)" "cell ?es m = Some ?b" using holds_cell [OF hs] n by simp_all
  have op: "spl_ptr_heap_delete_top exc h w = Some (Some (?xs ! 0), ?h, hp_dtor h (?xs ! 0) w')"
    unfolding spl_ptr_heap_delete_top_def using n(1) cells r(1,3,4) le by (simp add: Let_def set_cell_def)
  have tk: "take m (es'[i := Some ?b]) = map Some (take m xs')"
    using r(5,6) by (simp add: holds_def) (metis Suc_n_not_le_n min_def nat_le_linear take_map take_take)
  then have v: "vals ?h = take m xs'" by (simp add: vals_def)
  have "heap_ok ?h" using ok n le r(4) tk unfolding heap_ok_def by auto
  moreover have "same_kind ?h h" by (simp add: same_kind_def)
  moreover have "if exc w' then is_corrupted ?h else hp_flags ?h = hp_flags h"
    using flags_corrupted [of h] by (simp add: is_corrupted_def)
  moreover have "add_mset (?xs ! 0) (mset (vals ?h)) = mset ?xs"
    unfolding v by (rule mset_replace_first [OF _ r(7,8)]) (use r(6) ne in simp_all)
  ultimately show ?thesis
    using op r(2,9) v down_inv_start [of c ?xs m ?b] n by (intro exI [of _ ?h] exI [of _ w']) simp
qed

subsection \<open>The heap classes are queues ordered by their comparison\<close>

text \<open>
  Callbacks that do not throw: the comparison computes \<open>c\<close>, and the reference-counting callbacks and the separation
  of an argument leave the value as it is.
\<close>

definition quiet :: "('w \<Rightarrow> bool) \<Rightarrow> ('z \<Rightarrow> 'w \<Rightarrow> 'z \<times> 'w) \<Rightarrow> ('a \<Rightarrow> 'w \<Rightarrow> 'w) \<Rightarrow> ('a \<Rightarrow> 'a \<Rightarrow> int) \<Rightarrow> ('a, 'w) spl_ptr_heap \<Rightarrow> bool" where
  "quiet exc separate zdtor c h \<longleftrightarrow> weak_order_cmp c
     \<and> (\<forall>a b w. \<not> exc w \<longrightarrow> fst (hp_cmp h a b w) = c a b \<and> \<not> exc (snd (hp_cmp h a b w)))
     \<and> (\<forall>x w. \<not> exc w \<longrightarrow> \<not> exc (hp_ctor h x w) \<and> \<not> exc (hp_dtor h x w) \<and> \<not> exc (zdtor x w))
     \<and> (\<forall>z w. \<not> exc w \<longrightarrow> fst (separate z w) = z \<and> \<not> exc (snd (separate z w)))"

definition spl_inv :: "('w \<Rightarrow> bool) \<Rightarrow> ('z \<Rightarrow> 'w \<Rightarrow> 'z \<times> 'w) \<Rightarrow> ('a \<Rightarrow> 'w \<Rightarrow> 'w) \<Rightarrow> ('a \<Rightarrow> 'a \<Rightarrow> int) \<Rightarrow> ('a, 'w) spl_heap_object \<times> 'w \<Rightarrow> bool" where
  "spl_inv exc separate zdtor c q \<longleftrightarrow> heap_ok (so_heap (fst q)) \<and> \<not> is_corrupted (so_heap (fst q)) \<and> \<not> exc (snd q)
     \<and> quiet exc separate zdtor c (so_heap (fst q)) \<and> heap_ord c (vals (so_heap (fst q)))"

definition spl_bag :: "('a, 'w) spl_heap_object \<times> 'w \<Rightarrow> 'a multiset" where
  "spl_bag q = mset (vals (so_heap (fst q)))"

definition spl_ins :: "('w \<Rightarrow> bool) \<Rightarrow> ('a \<Rightarrow> 'w \<Rightarrow> 'a \<times> 'w) \<Rightarrow> 'a \<Rightarrow> ('a, 'w) spl_heap_object \<times> 'w \<Rightarrow> (('a, 'w) spl_heap_object \<times> 'w) option" where
  "spl_ins exc separate x q = (case SplHeap_insert exc separate (fst q) x (snd q) of
     Some (Done (Return True, q')) \<Rightarrow> Some q' | _ \<Rightarrow> None)"

definition spl_ext :: "('w \<Rightarrow> bool) \<Rightarrow> ('a \<Rightarrow> 'w \<Rightarrow> 'w) \<Rightarrow> ('a, 'w) spl_heap_object \<times> 'w \<Rightarrow> ('a \<times> ('a, 'w) spl_heap_object \<times> 'w) option" where
  "spl_ext exc zdtor q = (case SplHeap_extract exc zdtor (fst q) (snd q) of Some (Return x, q') \<Rightarrow> Some (x, q') | _ \<Rightarrow> None)"

lemma quiet_same: "quiet exc separate zdtor c h \<Longrightarrow> same_kind h' h \<Longrightarrow> quiet exc separate zdtor c h'"
  by (simp add: quiet_def same_kind_def)

lemma quiet_separate:
  assumes "spl_inv exc separate zdtor c q" and "\<not> exc w"
  shows "\<exists>w'. separate z w = (z, w') \<and> \<not> exc w'"
proof -
  have "fst (separate z w) = z" "\<not> exc (snd (separate z w))" using assms by (simp_all add: spl_inv_def quiet_def)
  then show ?thesis by (intro exI [of _ "snd (separate z w)"]) (simp add: prod_eq_iff)
qed

lemma quiet_insert:
  assumes "spl_inv exc separate zdtor c (obj, w)" and "hp_count (so_heap obj) < 2 ^ 29" and "\<not> exc w'"
  shows "\<exists>h' w''. spl_ptr_heap_insert exc (so_heap obj) x w' = Some (Done (h', w''))
    \<and> spl_inv exc separate zdtor c (obj\<lparr>so_heap := h'\<rparr>, w'') \<and> mset (vals h') = add_mset x (mset (vals (so_heap obj)))"
proof -
  let ?h = "so_heap obj"
  have q: "quiet exc separate zdtor c ?h" and ok: "heap_ok ?h" and nc: "\<not> is_corrupted ?h" and ord: "heap_ord c (vals ?h)"
    using assms(1) by (simp_all add: spl_inv_def)
  have wo: "weak_order_cmp c" using q by (simp add: quiet_def)
  obtain h' w'' where r: "spl_ptr_heap_insert exc ?h x w' = Some (Done (h', w''))" "heap_ok h'" "same_kind h' ?h" "\<not> exc w''"
    "mset (vals h') = add_mset x (mset (vals ?h))" "if exc w'' then is_corrupted h' else hp_flags h' = hp_flags ?h"
    "weak_order_cmp c \<longrightarrow> heap_ord c (vals ?h) \<longrightarrow> heap_ord c (vals h')"
    using insert_ok [OF ok assms(2), of "\<lambda>w. \<not> exc w" True c x w' exc] q assms(3) by (auto simp: quiet_def)
  then show ?thesis using quiet_same [OF q r(3)] wo ord nc by (auto simp: spl_inv_def is_corrupted_def)
qed

lemma quiet_delete:
  assumes "spl_inv exc separate zdtor c (obj, w)" and ne: "vals (so_heap obj) \<noteq> []"
  shows "\<exists>x h' w'. spl_ptr_heap_delete_top exc (so_heap obj) w = Some (Some x, h', w')
    \<and> spl_inv exc separate zdtor c (obj\<lparr>so_heap := h'\<rparr>, w') \<and> add_mset x (mset (vals h')) = mset (vals (so_heap obj))
    \<and> (\<forall>y \<in> set (vals (so_heap obj)). 0 \<le> c x y)"
proof -
  let ?h = "so_heap obj"
  have q: "quiet exc separate zdtor c ?h" and ok: "heap_ok ?h" and nc: "\<not> is_corrupted ?h" and ord: "heap_ord c (vals ?h)" and w: "\<not> exc w"
    using assms(1) by (simp_all add: spl_inv_def)
  have wo: "weak_order_cmp c" using q by (simp add: quiet_def)
  obtain h' w' where r: "spl_ptr_heap_delete_top exc ?h w = Some (Some (vals ?h ! 0), h', hp_dtor ?h (vals ?h ! 0) w')" "heap_ok h'"
    "same_kind h' ?h" "\<not> exc w'" "add_mset (vals ?h ! 0) (mset (vals h')) = mset (vals ?h)"
    "if exc w' then is_corrupted h' else hp_flags h' = hp_flags ?h"
    "weak_order_cmp c \<longrightarrow> heap_ord c (vals ?h) \<longrightarrow> heap_ord c (vals h')"
    using delete_top_ok [OF ok ne, of "\<lambda>w. \<not> exc w" True c w exc] q w by (auto simp: quiet_def)
  have "\<not> exc (hp_dtor ?h (vals ?h ! 0) w')" using q r(4) by (simp add: quiet_def)
  moreover have "\<forall>y \<in> set (vals ?h). 0 \<le> c (vals ?h ! 0) y" using heap_ord_top [OF wo ord] by (auto simp: in_set_conv_nth)
  ultimately show ?thesis using r quiet_same [OF q r(3)] wo ord nc by (auto simp: spl_inv_def is_corrupted_def)
qed

interpretation spl: max_queue "spl_inv exc separate zdtor c" spl_bag "2 ^ 29" "spl_ins exc separate" "spl_ext exc zdtor" c
  for exc separate zdtor c
proof (unfold_locales, goal_cases)
  case (1 q x)
  obtain obj w where qq: "q = (obj, w)" by (cases q)
  have nc: "\<not> is_corrupted (so_heap obj)" and s: "fst (separate x w) = x" "\<not> exc (snd (separate x w))" and ok: "heap_ok (so_heap obj)"
    using 1(1) by (auto simp: qq spl_inv_def quiet_def)
  have "hp_count (so_heap obj) < 2 ^ 29" using 1(2) length_vals [OF ok] by (simp add: qq spl_bag_def)
  then obtain h' w'' where "spl_ptr_heap_insert exc (so_heap obj) x (snd (separate x w)) = Some (Done (h', w''))"
    "spl_inv exc separate zdtor c (obj\<lparr>so_heap := h'\<rparr>, w'')" "mset (vals h') = add_mset x (mset (vals (so_heap obj)))"
    using quiet_insert [OF 1(1) [unfolded qq] _ s(2)] by blast
  then show ?case using nc s(1) by (cases "separate x w") (auto simp: qq spl_ins_def SplHeap_insert_def spl_bag_def)
next
  case (2 q)
  obtain obj w where qq: "q = (obj, w)" by (cases q)
  have nc: "\<not> is_corrupted (so_heap obj)" using 2(1) by (simp add: qq spl_inv_def)
  obtain x h' w' where d: "spl_ptr_heap_delete_top exc (so_heap obj) w = Some (Some x, h', w')"
    "spl_inv exc separate zdtor c (obj\<lparr>so_heap := h'\<rparr>, w')" "add_mset x (mset (vals h')) = mset (vals (so_heap obj))"
    "\<forall>y \<in> set (vals (so_heap obj)). 0 \<le> c x y"
    using quiet_delete [OF 2(1) [unfolded qq]] 2(2) by (auto simp: qq spl_bag_def)
  have "spl_inv exc separate zdtor c (obj\<lparr>so_heap := h'\<rparr>, zdtor x w')" using d(2) by (auto simp: spl_inv_def quiet_def)
  moreover have "spl_ext exc zdtor q = Some (x, obj\<lparr>so_heap := h'\<rparr>, zdtor x w')"
    using nc d(1) by (simp add: qq spl_ext_def SplHeap_extract_def)
  ultimately show ?case using d(3,4) by (auto simp: qq spl_bag_def)
qed

text \<open>The priority queue, with elements taken out whole (\<open>EXTR_BOTH\<close>).\<close>

definition pq_inv :: "('w \<Rightarrow> bool) \<Rightarrow> ('z \<Rightarrow> 'w \<Rightarrow> 'z \<times> 'w) \<Rightarrow> ('z pq_elem \<Rightarrow> 'w \<Rightarrow> 'w) \<Rightarrow> ('z pq_elem \<Rightarrow> 'z pq_elem \<Rightarrow> int) \<Rightarrow>
    ('z pq_elem, 'w) spl_heap_object \<times> 'w \<Rightarrow> bool" where
  "pq_inv exc separate zdtor c q \<longleftrightarrow> spl_inv exc separate zdtor c q \<and> so_flags (fst q) = SPL_PQUEUE_EXTR_BOTH"

definition pq_ins :: "('w \<Rightarrow> bool) \<Rightarrow> ('z \<Rightarrow> 'w \<Rightarrow> 'z \<times> 'w) \<Rightarrow> 'z pq_elem \<Rightarrow> ('z pq_elem, 'w) spl_heap_object \<times> 'w \<Rightarrow>
    (('z pq_elem, 'w) spl_heap_object \<times> 'w) option" where
  "pq_ins exc separate x q = (case SplPriorityQueue_insert exc separate (fst q) (pq_data x) (pq_priority x) (snd q) of
     Some (Done (Return True, q')) \<Rightarrow> Some q' | _ \<Rightarrow> None)"

definition pq_ext :: "('w \<Rightarrow> bool) \<Rightarrow> ('z pq_elem \<Rightarrow> 'w \<Rightarrow> 'w) \<Rightarrow> ('z pq_elem, 'w) spl_heap_object \<times> 'w \<Rightarrow>
    ('z pq_elem \<times> ('z pq_elem, 'w) spl_heap_object \<times> 'w) option" where
  "pq_ext exc zdtor q = (case SplPriorityQueue_extract exc zdtor (fst q) (snd q) of Some (Return (Both x), q') \<Rightarrow> Some (x, q') | _ \<Rightarrow> None)"

interpretation spl_pq: max_queue "pq_inv exc separate zdtor c" spl_bag "2 ^ 29" "pq_ins exc separate" "pq_ext exc zdtor" c
  for exc separate zdtor c
proof (unfold_locales, goal_cases)
  case (1 q x)
  obtain obj w where qq: "q = (obj, w)" by (cases q)
  have inv: "spl_inv exc separate zdtor c (obj, w)" using 1(1) by (simp add: qq pq_inv_def)
  have nc: "\<not> is_corrupted (so_heap obj)" and ok: "heap_ok (so_heap obj)" using inv by (auto simp: spl_inv_def)
  have "\<not> exc w" using inv by (simp add: spl_inv_def)
  then obtain w1 where s1: "separate (pq_data x) w = (pq_data x, w1)" "\<not> exc w1"
    using quiet_separate [OF inv] by blast
  then obtain w2 where s2: "separate (pq_priority x) w1 = (pq_priority x, w2)" "\<not> exc w2"
    using quiet_separate [OF inv] by blast
  have "hp_count (so_heap obj) < 2 ^ 29" using 1(2) length_vals [OF ok] by (simp add: qq spl_bag_def)
  then obtain h' w'' where r: "spl_ptr_heap_insert exc (so_heap obj) x w2 = Some (Done (h', w''))"
    "spl_inv exc separate zdtor c (obj\<lparr>so_heap := h'\<rparr>, w'')" "mset (vals h') = add_mset x (mset (vals (so_heap obj)))"
    using quiet_insert [OF inv _ s2(2)] by blast
  have rc: "\<lparr>pq_data = pq_data x, pq_priority = pq_priority x\<rparr> = x" by simp
  have "pq_ins exc separate x q = Some (obj\<lparr>so_heap := h'\<rparr>, w'')"
    using nc s1(1) s2(1) r(1) by (simp add: qq pq_ins_def SplPriorityQueue_insert_def rc)
  then show ?case using 1(1) r(2,3) by (simp add: qq pq_inv_def spl_bag_def)
next
  case (2 q)
  obtain obj w where qq: "q = (obj, w)" by (cases q)
  have inv: "spl_inv exc separate zdtor c (obj, w)" and fl: "so_flags obj = SPL_PQUEUE_EXTR_BOTH" using 2(1) by (simp_all add: qq pq_inv_def)
  have nc: "\<not> is_corrupted (so_heap obj)" using inv by (simp add: spl_inv_def)
  obtain x h' w' where d: "spl_ptr_heap_delete_top exc (so_heap obj) w = Some (Some x, h', w')"
    "spl_inv exc separate zdtor c (obj\<lparr>so_heap := h'\<rparr>, w')" "add_mset x (mset (vals h')) = mset (vals (so_heap obj))"
    "\<forall>y \<in> set (vals (so_heap obj)). 0 \<le> c x y"
    using quiet_delete [OF inv] 2(2) by (auto simp: qq spl_bag_def)
  have "pq_inv exc separate zdtor c (obj\<lparr>so_heap := h'\<rparr>, zdtor x w')" using d(2) fl by (auto simp: pq_inv_def spl_inv_def quiet_def)
  moreover have "pq_ext exc zdtor q = Some (x, obj\<lparr>so_heap := h'\<rparr>, zdtor x w')"
    using nc d(1) fl by (simp add: qq pq_ext_def SplPriorityQueue_extract_def spl_pqueue_extract_helper_def SPL_PQUEUE_EXTR_BOTH_def)
  ultimately show ?case using d(3,4) by (auto simp: qq spl_bag_def)
qed

lemma corrupted_frame:
  "(if e then is_corrupted h' else hp_flags h' = hp_flags h) \<Longrightarrow> (if e then is_corrupted h' else is_corrupted h' = is_corrupted h)"
  by (simp add: is_corrupted_def split: if_splits)

text \<open>A heap whose comparison contradicts itself and counts its calls.\<close>

definition odd_heap :: "(nat, nat) spl_ptr_heap" where
  "odd_heap = spl_ptr_heap_init (\<lambda>a b w. (1, w + 1)) (\<lambda>x w. w) (\<lambda>x w. w)"

subsection \<open>Properties\<close>

text \<open>
  C23: For every comparison, also one that throws, depends on its environment or contradicts itself, \<open>spl_ptr_heap_insert\<close> adds
  exactly its element and \<open>spl_ptr_heap_delete_top\<close> removes exactly the element in the first cell, which is what
  \<open>spl_ptr_heap_top\<close> returns; neither touches a cell outside the array.  When an exception is pending afterwards the
  heap is marked corrupted, otherwise the mark does not change.  Up to \<open>2 ^ 29\<close> elements fit.
\<close>

theorem heap_keeps_elements:
  assumes ok: "heap_ok h"
  shows "(hp_count h < 2 ^ 29 \<longrightarrow> (\<exists>h' w'. spl_ptr_heap_insert exc h x w = Some (Done (h', w')) \<and> heap_ok h'
        \<and> mset (vals h') = add_mset x (mset (vals h)) \<and> (if exc w' then is_corrupted h' else is_corrupted h' = is_corrupted h)))
    \<and> (if hp_count h = 0 then spl_ptr_heap_delete_top exc h w = Some (None, h, w) \<and> spl_ptr_heap_top h = Some None
       else \<exists>t h' w'. spl_ptr_heap_delete_top exc h w = Some (Some t, h', hp_dtor h t w') \<and> spl_ptr_heap_top h = Some (Some t) \<and> heap_ok h'
        \<and> mset (vals h) = add_mset t (mset (vals h')) \<and> (if exc w' then is_corrupted h' else is_corrupted h' = is_corrupted h))"
proof -
  have "\<exists>h' w'. spl_ptr_heap_insert exc h x w = Some (Done (h', w')) \<and> heap_ok h'
      \<and> mset (vals h') = add_mset x (mset (vals h)) \<and> (if exc w' then is_corrupted h' else is_corrupted h' = is_corrupted h)"
    if "hp_count h < 2 ^ 29"
    using insert_ok [OF ok that, of "\<lambda>_. True" False "\<lambda>_ _. 0" x w exc] corrupted_frame by blast
  moreover have "\<exists>t h' w'. spl_ptr_heap_delete_top exc h w = Some (Some t, h', hp_dtor h t w') \<and> spl_ptr_heap_top h = Some (Some t) \<and> heap_ok h'
      \<and> mset (vals h) = add_mset t (mset (vals h')) \<and> (if exc w' then is_corrupted h' else is_corrupted h' = is_corrupted h)"
    if n: "hp_count h \<noteq> 0"
  proof -
    have ne: "vals h \<noteq> []" using length_vals [OF ok] n by auto
    have "cell (elements h) 0 = Some (vals h ! 0)" using holds_cell [OF heap_ok_holds [OF ok]] ne by simp
    then have "spl_ptr_heap_top h = Some (Some (vals h ! 0))" using n by (simp add: spl_ptr_heap_top_def)
    then show ?thesis
      using delete_top_ok [OF ok ne, of "\<lambda>_. True" False "\<lambda>_ _. 0" w exc] corrupted_frame by (metis (no_types, lifting))
  qed
  ultimately show ?thesis by (auto simp: spl_ptr_heap_delete_top_def spl_ptr_heap_top_def)
qed

theorem heap_keeps_elements_witness:
  "\<exists>h' w'. spl_ptr_heap_insert (\<lambda>w. 2 < w) odd_heap 7 0 = Some (Done (h', w')) \<and> mset (vals h') = {#7#}"
proof -
  have "heap_ok odd_heap" "vals odd_heap = []" "hp_count odd_heap < 2 ^ 29"
    using init_ok by (simp_all add: odd_heap_def spl_ptr_heap_init_def)
  then show ?thesis using heap_keeps_elements [of odd_heap "\<lambda>w. 2 < w" 7 0] by auto
qed

text \<open>
  C24: Inserting a sequence of up to \<open>2 ^ 29\<close> values into a new heap and extracting as many returns the same values, sorted:
  in non-increasing order of the engine's comparison for \<open>SplMaxHeap\<close>, in non-decreasing order for \<open>SplMinHeap\<close>.
  The heap is then empty, and a further extraction throws.
\<close>

theorem spl_heap_sorts:
  assumes wo: "weak_order_cmp c" and n: "length xs \<le> 2 ^ 29" and w: "\<not> exc w"
    and cf: "\<And>a b w. \<not> exc w \<Longrightarrow> fst (compare_function a b w) = c a b \<and> \<not> exc (snd (compare_function a b w))"
    and rc: "\<And>x w. \<not> exc w \<Longrightarrow> \<not> exc (ctor x w) \<and> \<not> exc (dtor x w) \<and> \<not> exc (zdtor x w)"
    and sp: "\<And>x w. \<not> exc w \<Longrightarrow> fst (separate x w) = x \<and> \<not> exc (snd (separate x w))"
    and cmp: "cmp = (if is_max then spl_ptr_heap_zval_max_cmp exc None compare_function else spl_ptr_heap_zval_min_cmp exc None compare_function)"
  shows "\<exists>q1 ys obj' w'. inserts (spl_ins exc separate) xs (\<lparr>so_heap = spl_ptr_heap_init cmp ctor dtor, so_flags = 0\<rparr>, w) = Some q1
    \<and> extracts (spl_ext exc zdtor) (length xs) q1 = Some (ys, obj', w') \<and> mset ys = mset xs
    \<and> sorted_wrt (\<lambda>x y. if is_max then 0 \<le> c x y else 0 \<le> c y x) ys
    \<and> SplHeap_isEmpty obj' \<and> SplHeap_extract exc zdtor obj' w' = Some (RuntimeException ''Can't extract from an empty heap'', obj', w')"
proof -
  let ?c = "\<lambda>x y. if is_max then c x y else c y x" and ?q = "(\<lparr>so_heap = spl_ptr_heap_init cmp ctor dtor, so_flags = 0\<rparr>, w)"
  have "quiet exc separate zdtor ?c (spl_ptr_heap_init cmp ctor dtor)"
    using wo cf rc sp cmp
    by (auto simp: quiet_def weak_order_cmp_def spl_ptr_heap_init_def spl_ptr_heap_zval_max_cmp_def spl_ptr_heap_zval_min_cmp_def)
  then have inv: "spl_inv exc separate zdtor ?c ?q"
    using w init_ok [of cmp ctor dtor] by (simp add: spl_inv_def heap_ord_def is_corrupted_def spl_ptr_heap_init_def)
  have e: "spl_bag ?q = {#}" using init_ok(2) by (simp add: spl_bag_def)
  obtain q1 ys obj' w' where r: "inserts (spl_ins exc separate) xs ?q = Some q1" "extracts (spl_ext exc zdtor) (length xs) q1 = Some (ys, obj', w')"
    "spl_inv exc separate zdtor ?c (obj', w')" "spl_bag (obj', w') = {#}" "mset ys = mset xs" "sorted_wrt (\<lambda>x y. 0 \<le> ?c x y) ys"
  proof -
    obtain q1 ys q2 where r: "inserts (spl_ins exc separate) xs ?q = Some q1" "extracts (spl_ext exc zdtor) (length xs) q1 = Some (ys, q2)"
      "spl_inv exc separate zdtor ?c q2" "spl_bag q2 = {#}" "mset ys = mset xs" "sorted_wrt (\<lambda>x y. 0 \<le> ?c x y) ys"
      using spl.insert_all_extract_all [OF inv e n] by blast
    obtain obj' w' where "q2 = (obj', w')" by (cases q2)
    then show ?thesis using that r by simp
  qed
  have z: "hp_count (so_heap obj') = 0" and nc: "\<not> is_corrupted (so_heap obj')"
    using r(3,4) length_vals [of "so_heap obj'"] by (simp_all add: spl_inv_def spl_bag_def)
  have "SplHeap_isEmpty obj'" using z by (simp add: SplHeap_isEmpty_def spl_ptr_heap_count_def)
  moreover have "SplHeap_extract exc zdtor obj' w' = Some (RuntimeException ''Can't extract from an empty heap'', obj', w')"
    using z nc by (simp add: SplHeap_extract_def spl_ptr_heap_delete_top_def)
  moreover have "sorted_wrt (\<lambda>x y. if is_max then 0 \<le> c x y else 0 \<le> c y x) ys" using r(6) by (cases is_max) simp_all
  ultimately show ?thesis using r by blast
qed

theorem spl_heap_sorts_witness:
  "\<exists>q1 ys obj' w'. inserts (spl_ins (\<lambda>_. False) (\<lambda>x w. (x, w))) [3, 9, 1 :: int]
      (\<lparr>so_heap = spl_ptr_heap_init (spl_ptr_heap_zval_min_cmp (\<lambda>_. False) None (\<lambda>a b w. (a - b, w))) (\<lambda>x w. w) (\<lambda>x w. w), so_flags = 0\<rparr>, ()) = Some q1
    \<and> extracts (spl_ext (\<lambda>_. False) (\<lambda>x w. w)) 3 q1 = Some (ys, obj', w') \<and> mset ys = {#3, 9, 1#} \<and> sorted_wrt (\<le>) ys"
proof -
  have "weak_order_cmp (\<lambda>a b :: int. a - b)" by (auto simp: weak_order_cmp_def)
  then show ?thesis
    using spl_heap_sorts [of "\<lambda>a b. a - b" "[3, 9, 1]" "\<lambda>_. False" "()" "\<lambda>a b w. (a - b, w)" "\<lambda>x w. w" "\<lambda>x w. w" "\<lambda>x w. w" "\<lambda>x w. (x, w)" _ False]
    by (simp add: numeral_3_eq_3 add_mset_commute) blast
qed

text \<open>
  A priority queue returns its elements in non-increasing order of priority, whatever their data, and none is lost.
\<close>

theorem spl_pqueue_by_priority:
  assumes wo: "weak_order_cmp c" and n: "length xs \<le> 2 ^ 29" and w: "\<not> exc w"
    and cf: "\<And>a b w. \<not> exc w \<Longrightarrow> fst (compare_function a b w) = c a b \<and> \<not> exc (snd (compare_function a b w))"
    and rc: "\<And>x w. \<not> exc w \<Longrightarrow> \<not> exc (ctor x w) \<and> \<not> exc (dtor x w) \<and> \<not> exc (zdtor x w)"
    and sp: "\<And>x w. \<not> exc w \<Longrightarrow> fst (separate x w) = x \<and> \<not> exc (snd (separate x w))"
    and cmp: "cmp = spl_ptr_pqueue_zval_cmp exc None compare_function"
    and obj: "obj = fst (SplPriorityQueue_setExtractFlags 3 \<lparr>so_heap = spl_ptr_heap_init cmp ctor dtor, so_flags = SPL_PQUEUE_EXTR_DATA\<rparr>)"
  shows "\<exists>q1 ys q2. inserts (pq_ins exc separate) xs (obj, w) = Some q1 \<and> extracts (pq_ext exc zdtor) (length xs) q1 = Some (ys, q2)
    \<and> mset ys = mset xs \<and> sorted_wrt (\<lambda>x y. 0 \<le> c (pq_priority x) (pq_priority y)) ys"
proof -
  let ?c = "\<lambda>x y. c (pq_priority x) (pq_priority y)"
  have "quiet exc separate zdtor ?c (spl_ptr_heap_init cmp ctor dtor)"
    using wo cf rc sp cmp
    by (auto simp: quiet_def weak_order_cmp_def spl_ptr_heap_init_def spl_ptr_pqueue_zval_cmp_def spl_pqueue_extract_helper_def
        SPL_PQUEUE_EXTR_PRIORITY_def SPL_PQUEUE_EXTR_BOTH_def SPL_PQUEUE_EXTR_DATA_def)
  then have inv: "pq_inv exc separate zdtor ?c (obj, w)"
    using w init_ok [of cmp ctor dtor] obj
    by (simp add: pq_inv_def spl_inv_def heap_ord_def is_corrupted_def spl_ptr_heap_init_def SplPriorityQueue_setExtractFlags_def Let_def
        SPL_PQUEUE_EXTR_MASK_def SPL_PQUEUE_EXTR_BOTH_def)
  have "spl_bag (obj, w) = {#}"
    using init_ok(2) [of cmp ctor dtor] obj by (simp add: spl_bag_def SplPriorityQueue_setExtractFlags_def Let_def)
  then show ?thesis using spl_pq.insert_all_extract_all [OF inv _ n] by blast
qed

theorem spl_pqueue_by_priority_witness:
  "\<exists>q1 ys q2. inserts (pq_ins (\<lambda>_. False) (\<lambda>x w. (x, w))) [\<lparr>pq_data = 10, pq_priority = 1\<rparr>, \<lparr>pq_data = 20, pq_priority = 5\<rparr>]
      (fst (SplPriorityQueue_setExtractFlags 3 \<lparr>so_heap = spl_ptr_heap_init (spl_ptr_pqueue_zval_cmp (\<lambda>_. False) None (\<lambda>a b w. (a - b :: int, w)))
         (\<lambda>x w. w) (\<lambda>x w. w), so_flags = SPL_PQUEUE_EXTR_DATA\<rparr>), ()) = Some q1
    \<and> extracts (pq_ext (\<lambda>_. False) (\<lambda>x w. w)) (Suc (Suc 0)) q1 = Some (ys, q2) \<and> sorted_wrt (\<lambda>x y. pq_priority y \<le> pq_priority x) ys"
proof -
  have "weak_order_cmp (\<lambda>a b :: int. a - b)" by (auto simp: weak_order_cmp_def)
  then show ?thesis
    using spl_pqueue_by_priority [of "\<lambda>a b. a - b" "[\<lparr>pq_data = 10, pq_priority = 1\<rparr>, \<lparr>pq_data = 20, pq_priority = 5\<rparr>]" "\<lambda>_. False" "()"
        "\<lambda>a b w. (a - b, w)" "\<lambda>x w. w" "\<lambda>x w. w" "\<lambda>x w. w" "\<lambda>x w. (x, w)", OF _ _ _ _ _ _ refl refl]
    by simp blast
qed

text \<open>
  When a comparison throws during an insertion, the method still inserts, the heap is marked corrupted, and from then on
  \<open>insert\<close>, \<open>extract\<close>, \<open>top\<close> and the step of a \<open>foreach\<close> throw and change nothing, until \<open>recoverFromCorruption\<close>,
  which keeps every element and clears the mark.
\<close>

theorem spl_heap_corruption:
  assumes ok: "heap_ok (so_heap obj)" and nc: "\<not> is_corrupted (so_heap obj)" and room: "hp_count (so_heap obj) < 2 ^ 29"
    and ins: "SplHeap_insert exc separate obj v w = Some (Done (r, obj', w'))" and thrown: "exc w'"
  shows "mset (vals (so_heap obj')) = add_mset (fst (separate v w)) (mset (vals (so_heap obj)))
    \<and> SplHeap_insert exc separate obj' v' u = Some (Done (RuntimeException corrupted_msg, obj', u))
    \<and> SplHeap_extract exc zdtor obj' u = Some (RuntimeException corrupted_msg, obj', u)
    \<and> SplHeap_top obj' = Some (RuntimeException corrupted_msg)
    \<and> spl_heap_it_move_forward exc zdtor obj' u = Some (RuntimeException corrupted_msg, obj', u)
    \<and> \<not> is_corrupted (so_heap (SplHeap_recoverFromCorruption obj'))
    \<and> vals (so_heap (SplHeap_recoverFromCorruption obj')) = vals (so_heap obj')"
proof -
  obtain x w0 where s: "separate v w = (x, w0)" by fastforce
  obtain h' w'' where i: "spl_ptr_heap_insert exc (so_heap obj) x w0 = Some (Done (h', w''))"
    "mset (vals h') = add_mset x (mset (vals (so_heap obj)))" "if exc w'' then is_corrupted h' else hp_flags h' = hp_flags (so_heap obj)"
    using insert_ok [OF ok room, of "\<lambda>_. True" False "\<lambda>_ _. 0" x w0 exc] by blast
  then have o: "obj' = obj\<lparr>so_heap := h'\<rparr>" "w' = w''" using ins nc s by (simp_all add: SplHeap_insert_def)
  then have c: "is_corrupted (so_heap obj')" using i(3) thrown by simp
  have "(f AND NOT 1) AND 1 = 0" for f :: uint by (rule bit_word_eqI) (auto simp: bit_simps)
  then have "\<not> is_corrupted (so_heap (SplHeap_recoverFromCorruption obj'))"
    by (simp add: is_corrupted_def SplHeap_recoverFromCorruption_def SPL_HEAP_CORRUPTED_def)
  moreover have "vals (so_heap (SplHeap_recoverFromCorruption obj')) = vals (so_heap obj')"
    by (simp add: vals_def SplHeap_recoverFromCorruption_def)
  ultimately show ?thesis
    using c i(2) o(1) s by (simp add: SplHeap_insert_def SplHeap_extract_def SplHeap_top_def spl_heap_it_move_forward_def)
qed

text \<open>A heap of one element whose comparison always throws; the state counts the pending exceptions.\<close>

definition throwing_object :: "(nat, nat) spl_heap_object" where
  "throwing_object = \<lparr>so_heap = \<lparr>elements = Some 5 # replicate 63 None, hp_ctor = \<lambda>x w. w, hp_dtor = \<lambda>x w. w,
     hp_cmp = \<lambda>a b w. (0, w + 1), hp_count = 1, max_size = 64, hp_flags = 0\<rparr>, so_flags = 0\<rparr>"

theorem spl_heap_corruption_witness:
  "\<exists>r obj' w'. SplHeap_insert (\<lambda>w. 0 < w) (\<lambda>x w. (x, w)) throwing_object 7 0 = Some (Done (r, obj', w')) \<and> 0 < w'
     \<and> mset (vals (so_heap obj')) = {#5, 7#} \<and> SplHeap_extract (\<lambda>w. 0 < w) (\<lambda>x w. w) obj' 0 = Some (RuntimeException corrupted_msg, obj', 0)"
proof -
  have ok: "heap_ok (so_heap throwing_object)" "\<not> is_corrupted (so_heap throwing_object)" "hp_count (so_heap throwing_object) < 2 ^ 29"
    by (auto simp: heap_ok_def throwing_object_def is_corrupted_def intro!: exI [of _ 0])
  have v: "vals (so_heap throwing_object) = [5]" by (simp add: vals_def throwing_object_def)
  obtain r obj' w' where i: "SplHeap_insert (\<lambda>w. 0 < w) (\<lambda>x w. (x, w)) throwing_object 7 0 = Some (Done (r, obj', w'))" "0 < w'"
    by (simp add: SplHeap_insert_def spl_ptr_heap_insert_def throwing_object_def is_corrupted_def grow_heap_def sift_up.simps cell_def set_cell_def Let_def)
  show ?thesis using spl_heap_corruption [OF ok i, where zdtor = "\<lambda>x w. w" and u = 0 and v' = 0] i v by (auto simp: add_mset_commute)
qed

end
