(* ===== verification/Codec.thy ===== *)
theory Codec
  imports Bytes
begin

text \<open>
  The interface of the text encodings: an encoder that may refuse a string (\<open>None\<close>), a decoder that may reject
  its input (\<open>Some None\<close>), and the law that decoding inverts encoding on the strings of the domain.
\<close>

locale codec =
  fixes enc :: "byte list \<Rightarrow> byte list option" and dec :: "byte list \<Rightarrow> byte list option option"
    and encodable :: "byte list \<Rightarrow> bool"
  assumes decode_encode: "encodable s \<Longrightarrow> \<exists>e. enc s = Some e \<and> dec e = Some (Some s)"
begin

lemma enc_injective: "encodable s \<Longrightarrow> encodable t \<Longrightarrow> enc s = enc t \<Longrightarrow> s = t"
  using decode_encode [of s] decode_encode [of t] by auto

lemma decode_decides: "encodable s \<Longrightarrow> \<exists>e. enc s = Some e \<and> (\<forall>t. dec e = Some (Some t) \<longleftrightarrow> t = s)"
  using decode_encode [of s] by auto

end

subsection \<open>Reading memory\<close>

text \<open>The byte at a position of the memory that starts at a pointer; a read outside it is undefined.\<close>

definition rd :: "byte list \<Rightarrow> nat \<Rightarrow> byte option" where
  "rd mem p = (if p < length mem then Some (mem ! p) else None)"

lemma rd_drop: "drop p mem = x # xs \<Longrightarrow> rd mem p = Some x \<and> drop (p + 1) mem = xs"
  by (metis Suc_eq_plus1 drop_Suc drop_eq_Nil2 hd_drop_conv_nth linorder_not_le list.distinct(1) list.sel(1,3) rd_def tl_drop)

text \<open>The character of a string literal as a byte.\<close>

abbreviation chr :: "char \<Rightarrow> byte" where
  "chr c \<equiv> of_char c"

end
