(* ===== verification/Base64.thy ===== *)
theory Base64
  imports Codec
begin

text \<open>
  The model of \<open>ext/standard/base64.c\<close>.  Strings are lists of bytes; \<open>mem\<close> is the memory that starts at a pointer
  argument, which for a PHP string ends with a null byte the length does not count.  A read outside \<open>mem\<close> or a
  write outside the allocated result is undefined.
\<close>

definition base64_table :: "byte list" where
  "base64_table = map of_char (''ABCDEFGHIJKLM'' @ ''NOPQRSTUVWXYZ'' @ ''abcdefghijklm'' @ ''nopqrstuvwxyz'' @ ''0123456789+/'') @ [0]"

definition base64_pad :: byte where
  "base64_pad = of_char (CHR ''='')"

definition base64_reverse_table :: "int list" where
  "base64_reverse_table = concat [
     [- 2, - 2, - 2, - 2, - 2, - 2, - 2, - 2, - 2, - 1, - 1, - 2, - 2, - 1, - 2, - 2],
     [- 2, - 2, - 2, - 2, - 2, - 2, - 2, - 2, - 2, - 2, - 2, - 2, - 2, - 2, - 2, - 2],
     [- 1, - 2, - 2, - 2, - 2, - 2, - 2, - 2, - 2, - 2, - 2, 62, - 2, - 2, - 2, 63],
     [52, 53, 54, 55, 56, 57, 58, 59, 60, 61, - 2, - 2, - 2, - 2, - 2, - 2],
     [- 2, 0, 1, 2, 3, 4, 5, 6, 7, 8, 9, 10, 11, 12, 13, 14],
     [15, 16, 17, 18, 19, 20, 21, 22, 23, 24, 25, - 2, - 2, - 2, - 2, - 2],
     [- 2, 26, 27, 28, 29, 30, 31, 32, 33, 34, 35, 36, 37, 38, 39, 40],
     [41, 42, 43, 44, 45, 46, 47, 48, 49, 50, 51, - 2, - 2, - 2, - 2, - 2],
     [- 2, - 2, - 2, - 2, - 2, - 2, - 2, - 2, - 2, - 2, - 2, - 2, - 2, - 2, - 2, - 2],
     [- 2, - 2, - 2, - 2, - 2, - 2, - 2, - 2, - 2, - 2, - 2, - 2, - 2, - 2, - 2, - 2],
     [- 2, - 2, - 2, - 2, - 2, - 2, - 2, - 2, - 2, - 2, - 2, - 2, - 2, - 2, - 2, - 2],
     [- 2, - 2, - 2, - 2, - 2, - 2, - 2, - 2, - 2, - 2, - 2, - 2, - 2, - 2, - 2, - 2],
     [- 2, - 2, - 2, - 2, - 2, - 2, - 2, - 2, - 2, - 2, - 2, - 2, - 2, - 2, - 2, - 2],
     [- 2, - 2, - 2, - 2, - 2, - 2, - 2, - 2, - 2, - 2, - 2, - 2, - 2, - 2, - 2, - 2],
     [- 2, - 2, - 2, - 2, - 2, - 2, - 2, - 2, - 2, - 2, - 2, - 2, - 2, - 2, - 2, - 2],
     [- 2, - 2, - 2, - 2, - 2, - 2, - 2, - 2, - 2, - 2, - 2, - 2, - 2, - 2, - 2, - 2]]"

definition INT_MAX :: int where
  "INT_MAX = 2147483647"

subsection \<open>Encoding\<close>

text \<open>The four characters of a group of three bytes; the tail groups use the first ones with zero bits.\<close>

definition sextet0 :: "byte \<Rightarrow> byte" where
  "sextet0 a = drop_bit 2 a"

definition sextet1 :: "byte \<Rightarrow> byte \<Rightarrow> byte" where
  "sextet1 a b = push_bit 4 (a AND 0x03) + drop_bit 4 b"

definition sextet2 :: "byte \<Rightarrow> byte \<Rightarrow> byte" where
  "sextet2 b c = push_bit 2 (b AND 0x0f) + drop_bit 6 c"

definition sextet3 :: "byte \<Rightarrow> byte" where
  "sextet3 c = c AND 0x3f"

abbreviation tab64 :: "byte \<Rightarrow> byte" where
  "tab64 k \<equiv> base64_table ! unat k"

fun encode_loop :: "byte list \<Rightarrow> byte list" where
  "encode_loop (a # b # c # rest) =
     tab64 (sextet0 a) # tab64 (sextet1 a b) # tab64 (sextet2 b c) # tab64 (sextet3 c) # encode_loop rest"
| "encode_loop [a, b] = [tab64 (sextet0 a), tab64 (sextet1 a b), tab64 (push_bit 2 (b AND 0x0f)), base64_pad]"
| "encode_loop [a] = [tab64 (sextet0 a), tab64 (push_bit 4 (a AND 0x03)), base64_pad, base64_pad]"
| "encode_loop [] = []"

definition php_base64_encode :: "byte list \<Rightarrow> int \<Rightarrow> byte list option" where
  "php_base64_encode str len =
     (if len < 0 then None
      else if (len + 2) div 3 > INT_MAX div 4 then None
      else Some (encode_loop (take (nat len) str)))"

subsection \<open>Decoding\<close>

definition wr :: "byte option list \<Rightarrow> nat \<Rightarrow> byte \<Rightarrow> byte option list option" where
  "wr res j b = (if j < length res then Some (res[j := Some b]) else None)"

text \<open>\<open>result[j] |= b\<close>\<close>

definition wr_or :: "byte option list \<Rightarrow> nat \<Rightarrow> byte \<Rightarrow> byte option list option" where
  "wr_or res j b = (if j < length res then (case res ! j of None \<Rightarrow> None | Some a \<Rightarrow> wr res j (a OR b)) else None)"

definition isspace :: "byte \<Rightarrow> bool" where
  "isspace c \<longleftrightarrow> c = 32 \<or> 9 \<le> c \<and> c \<le> 13"

text \<open>\<open>while (isspace( *(++current))) continue;\<close> from the position after the increment.\<close>

function skip_space :: "byte list \<Rightarrow> nat \<Rightarrow> (nat \<times> byte) option" where
  "skip_space mem p = (case rd mem p of None \<Rightarrow> None
     | Some c \<Rightarrow> if isspace c then skip_space mem (p + 1) else Some (p, c))"
  by pat_completeness auto
termination by (relation "measure (\<lambda>(mem, p). length mem - p)") (auto simp: rd_def split: if_splits)

declare skip_space.simps [simp del]

lemma skip_space_ge: "skip_space mem p = Some (q, c) \<Longrightarrow> p \<le> q"
proof (induction mem p rule: skip_space.induct)
  case (1 mem p)
  show ?case
    using 1(2) by (subst (asm) skip_space.simps) (auto split: option.splits if_splits dest: 1(1))
qed

text \<open>The \<open>switch (i % 4)\<close>.\<close>

definition put_sextet :: "nat \<Rightarrow> nat \<Rightarrow> byte \<Rightarrow> byte option list \<Rightarrow> (nat \<times> byte option list) option" where
  "put_sextet i j ch res =
     (if i mod 4 = 0 then do { res \<leftarrow> wr res j (push_bit 2 ch); Some (j, res) }
      else if i mod 4 = 1 then do {
        res \<leftarrow> wr_or res j (drop_bit 4 ch);
        res \<leftarrow> wr res (j + 1) (push_bit 4 (ch AND 0x0f));
        Some (j + 1, res) }
      else if i mod 4 = 2 then do {
        res \<leftarrow> wr_or res j (drop_bit 2 ch);
        res \<leftarrow> wr res (j + 1) (push_bit 6 (ch AND 0x03));
        Some (j + 1, res) }
      else do { res \<leftarrow> wr_or res j ch; Some (j + 1, res) })"

text \<open>\<open>Invalid\<close>: the function frees its result and returns NULL.\<close>

datatype decode_end = Invalid | Ended byte nat nat "byte option list"

function decode_loop :: "byte list \<Rightarrow> bool \<Rightarrow> nat \<Rightarrow> int \<Rightarrow> nat \<Rightarrow> nat \<Rightarrow> byte option list \<Rightarrow> decode_end option" where
  "decode_loop mem strict pos len i j res =
     (case rd mem pos of
        None \<Rightarrow> None
      | Some ch \<Rightarrow>
          if ch = 0 \<or> len \<le> 0 then Some (Ended ch i j res)
          else if ch = base64_pad then
            (case rd mem (pos + 1) of
               None \<Rightarrow> None
             | Some nx \<Rightarrow>
                 if nx \<noteq> base64_pad \<and> (i mod 4 = 1 \<or> strict \<and> len - 1 > 0) then
                   if i mod 4 \<noteq> 1 then
                     (case skip_space mem (pos + 2) of
                        None \<Rightarrow> None
                      | Some (q, c) \<Rightarrow> if c = 0 then decode_loop mem strict q (len - 1) i j res else Some Invalid)
                   else Some Invalid
                 else decode_loop mem strict (pos + 1) (len - 1) i j res)
          else
            (let r = base64_reverse_table ! unat ch in
             if \<not> strict \<and> r < 0 \<or> r = - 1 then decode_loop mem strict (pos + 1) (len - 1) i j res
             else if r = - 2 then Some Invalid
             else (case put_sextet i j (word_of_int r) res of
                     None \<Rightarrow> None
                   | Some (j', res') \<Rightarrow> decode_loop mem strict (pos + 1) (len - 1) (i + 1) j' res')))"
  by pat_completeness auto
termination
  by (relation "measure (\<lambda>(mem, strict, pos, len, i, j, res). length mem - pos)")
    (auto simp: rd_def split: if_splits dest!: skip_space_ge)

declare decode_loop.simps [simp del]

definition php_base64_decode_ex :: "byte list \<Rightarrow> int \<Rightarrow> bool \<Rightarrow> byte list option option" where
  "php_base64_decode_ex mem len strict = do {
     r \<leftarrow> decode_loop mem strict 0 len 0 0 (replicate (nat len + 1) None);
     case r of
       Invalid \<Rightarrow> Some None
     | Ended ch i j res \<Rightarrow>
         if ch = base64_pad \<and> i mod 4 = 1 then Some None
         else do {
           res \<leftarrow> (if ch = base64_pad \<and> i mod 4 = 2 then wr res (j + 1) 0
                 else if ch = base64_pad \<and> i mod 4 = 3 then wr res j 0 else Some res);
           res \<leftarrow> wr res j 0;
           if None \<in> set (take j res) then None else Some (Some (map the (take j res)))
         }
   }"

definition php_base64_decode :: "byte list \<Rightarrow> int \<Rightarrow> byte list option option" where
  "php_base64_decode mem len = php_base64_decode_ex mem len False"

text \<open>The PHP functions; \<open>None\<close> of the inner type is \<open>false\<close>.\<close>

definition base64_encode :: "byte list \<Rightarrow> byte list option" where
  "base64_encode str = php_base64_encode str (int (length str))"

definition base64_decode :: "byte list \<Rightarrow> bool \<Rightarrow> byte list option option" where
  "base64_decode str strict = php_base64_decode_ex (str @ [0]) (int (length str)) strict"

end
