(* ===== verification/Base64_Spec.thy ===== *)
theory Base64_Spec
  imports Base64
begin

text \<open>
  Correctness of base64: decoding inverts encoding for every string, strictly or not, and what strict decoding
  accepts after the padding.
\<close>

subsection \<open>Sextets\<close>

lemma disjoint_add: "a AND b = 0 \<Longrightarrow> a + b = a OR (b :: 'a::len word)"
  by (simp add: disjunctive_add_eq_or)

lemma sextet_or:
  "sextet1 a b = push_bit 4 (a AND 0x03) OR drop_bit 4 b"
  "sextet2 b c = push_bit 2 (b AND 0x0f) OR drop_bit 6 c"
  unfolding sextet1_def sextet2_def
  by (rule disjoint_add, rule bit_word_eqI, auto simp: bit_simps dest!: bit_imp_le_length)+

lemma masks8: "(0x03 :: byte) = mask 2" "(0x0f :: byte) = mask 4" "(0x3f :: byte) = mask 6"
  by (simp_all add: mask_eq_exp_minus_1)

lemma add_diffs: "Suc (Suc (n - 2)) = (if 2 \<le> n then n else 2)" "4 + (n - 4) = (if 4 \<le> n then n else (4 :: nat))"
  "6 + (n - 6) = (if 6 \<le> n then n else (6 :: nat))"
  by auto

lemma join_bytes:
  "push_bit 2 (sextet0 a) OR drop_bit 4 (sextet1 a b) = a"
  "push_bit 4 (sextet1 a b AND 0x0f) OR drop_bit 2 (sextet2 b c) = b"
  "push_bit 6 (sextet2 b c AND 0x03) OR sextet3 c = c"
  unfolding sextet0_def sextet3_def sextet_or masks8
  by (rule bit_word_eqI, auto simp: bit_simps add_diffs)+

lemma sextet_small: "unat (sextet0 a) < 64" "unat (sextet1 a b) < 64" "unat (sextet2 b c) < 64" "unat (sextet3 c) < 64"
proof -
  have m: "unat w < 64" if "w AND mask 6 = w" for w :: byte
  proof -
    have "unat w = unat w mod 64" using unat_and_mask [of w 6] that by simp
    then show ?thesis using mod_less_divisor [of 64 "unat w"] by simp
  qed
  show "unat (sextet0 a) < 64" "unat (sextet1 a b) < 64" "unat (sextet2 b c) < 64" "unat (sextet3 c) < 64"
    unfolding sextet0_def sextet3_def sextet_or masks8
    by (rule m, rule bit_word_eqI, auto simp: bit_simps dest: bit_imp_le_length)+
qed

text \<open>The tables are inverse, and no character of the alphabet is the padding or null.\<close>

lemma base64_table_bytes: "base64_table = map of_nat ([65..<91] @ [97..<123] @ [48..<58] @ [43, 47, 0])"
  by code_simp

lemma base64_pad_byte: "base64_pad = 61"
  by code_simp

lemma tables_inverse: "map (\<lambda>b. base64_reverse_table ! unat b) (take 64 base64_table) = map int [0..<64]"
  unfolding base64_table_bytes base64_reverse_table_def by simp code_simp

lemma table_entry:
  assumes "k < 64"
  shows "base64_table ! k \<noteq> 0" and "base64_table ! k \<noteq> base64_pad" and "base64_reverse_table ! unat (base64_table ! k) = int k"
proof -
  have l: "length base64_table = 65" by (simp add: base64_table_bytes)
  then have "take 64 base64_table ! k \<in> set (take 64 base64_table)" using assms by (intro nth_mem) simp
  then have "base64_table ! k \<in> set (take 64 base64_table)" using assms by simp
  moreover have "0 \<notin> set (take 64 base64_table)" "base64_pad \<notin> set (take 64 base64_table)"
    unfolding base64_table_bytes base64_pad_byte by simp_all
  ultimately show "base64_table ! k \<noteq> 0" "base64_table ! k \<noteq> base64_pad" by (metis, metis)
  show "base64_reverse_table ! unat (base64_table ! k) = int k"
    using arg_cong [OF tables_inverse, of "\<lambda>xs. xs ! k"] assms l by simp
qed

subsection \<open>Decoding what was encoded\<close>

lemma decode_step:
  assumes "rd mem pos = Some (tab64 s)" and "unat s < 64" and "0 < len"
  shows "decode_loop mem strict pos len i j res = (case put_sextet i j s res of None \<Rightarrow> None
    | Some (j', res') \<Rightarrow> decode_loop mem strict (pos + 1) (len - 1) (i + 1) j' res')"
proof -
  define r where "r = int (unat s)"
  have r: "r \<noteq> - 1" "r \<noteq> - 2" "\<not> r < 0" and w: "word_of_int r = s" by (simp_all add: r_def del: of_nat_unat) (simp add: r_def)
  have t: "base64_reverse_table ! unat (tab64 s) = r" using table_entry(3) [OF assms(2)] by (simp add: r_def)
  show ?thesis using assms(1,3) table_entry(1,2) [OF assms(2)] t r w by (subst decode_loop.simps) (simp add: Let_def)
qed

lemma put_sextets:
  assumes "i mod 4 = 0"
  shows "j < length res \<Longrightarrow> put_sextet i j s res = Some (j, res[j := Some (push_bit 2 s)])"
    and "j + 1 < length res \<Longrightarrow> res ! j = Some x \<Longrightarrow> put_sextet (i + 1) j s res =
      Some (j + 1, res[j := Some (x OR drop_bit 4 s), j + 1 := Some (push_bit 4 (s AND 0x0f))])"
    and "j + 1 < length res \<Longrightarrow> res ! j = Some x \<Longrightarrow> put_sextet (i + 2) j s res =
      Some (j + 1, res[j := Some (x OR drop_bit 2 s), j + 1 := Some (push_bit 6 (s AND 0x03))])"
    and "j < length res \<Longrightarrow> res ! j = Some x \<Longrightarrow> put_sextet (i + 3) j s res = Some (j + 1, res[j := Some (x OR s)])"
proof -
  obtain q where "i = 4 * q" using assms by (metis mult_div_mod_eq add.right_neutral)
  then have "(i + 1) mod 4 = 1" "(i + 2) mod 4 = 2" "(i + 3) mod 4 = 3" by presburger+
  then show "j < length res \<Longrightarrow> put_sextet i j s res = Some (j, res[j := Some (push_bit 2 s)])"
    and "j + 1 < length res \<Longrightarrow> res ! j = Some x \<Longrightarrow> put_sextet (i + 1) j s res =
      Some (j + 1, res[j := Some (x OR drop_bit 4 s), j + 1 := Some (push_bit 4 (s AND 0x0f))])"
    and "j + 1 < length res \<Longrightarrow> res ! j = Some x \<Longrightarrow> put_sextet (i + 2) j s res =
      Some (j + 1, res[j := Some (x OR drop_bit 2 s), j + 1 := Some (push_bit 6 (s AND 0x03))])"
    and "j < length res \<Longrightarrow> res ! j = Some x \<Longrightarrow> put_sextet (i + 3) j s res = Some (j + 1, res[j := Some (x OR s)])"
    using assms by (simp_all add: put_sextet_def wr_def wr_or_def)
qed

text \<open>Two, three and four characters of a group.\<close>

lemma decode_two:
  assumes d: "drop pos mem = tab64 (sextet0 a) # tab64 (sextet1 a b) # rest" and len: "2 \<le> len" and i: "i mod 4 = 0" and j: "j + 1 < length res"
  shows "decode_loop mem strict pos len i j res =
    decode_loop mem strict (pos + 2) (len - 2) (i + 2) (j + 1) (res[j := Some a, j + 1 := Some (push_bit 4 (sextet1 a b AND 0x0f))])"
    and "drop (pos + 2) mem = rest"
proof -
  note r1 = rd_drop [OF d]
  note r2 = rd_drop [OF conjunct2 [OF r1]]
  show "drop (pos + 2) mem = rest" using r2 by (simp add: numeral_2_eq_2)
  show "decode_loop mem strict pos len i j res =
    decode_loop mem strict (pos + 2) (len - 2) (i + 2) (j + 1) (res[j := Some a, j + 1 := Some (push_bit 4 (sextet1 a b AND 0x0f))])"
    using decode_step [OF conjunct1 [OF r1] sextet_small(1), of len strict i j res]
      decode_step [OF conjunct1 [OF r2] sextet_small(2), of "len - 1" strict "i + 1" j "res[j := Some (push_bit 2 (sextet0 a))]"]
      put_sextets(1) [OF i, of j res "sextet0 a"]
      put_sextets(2) [OF i, of j "res[j := Some (push_bit 2 (sextet0 a))]" "push_bit 2 (sextet0 a)" "sextet1 a b"] len j join_bytes(1) [of a b]
    by (simp add: numeral_2_eq_2)
qed

lemma decode_three:
  assumes d: "drop pos mem = tab64 (sextet0 a) # tab64 (sextet1 a b) # tab64 (sextet2 b c) # rest" and len: "3 \<le> len"
    and i: "i mod 4 = 0" and j: "j + 2 < length res"
  shows "decode_loop mem strict pos len i j res =
    decode_loop mem strict (pos + 3) (len - 3) (i + 3) (j + 2) (res[j := Some a, j + 1 := Some b, j + 2 := Some (push_bit 6 (sextet2 b c AND 0x03))])"
    and "drop (pos + 3) mem = rest"
proof -
  have len2: "2 \<le> len" and j1: "j + 1 < length res" using len j by simp_all
  note two = decode_two [OF d len2 i j1]
  note r = rd_drop [OF two(2)]
  show "drop (pos + 3) mem = rest" using r by (simp add: numeral_3_eq_3 numeral_2_eq_2)
  let ?res = "res[j := Some a, j + 1 := Some (push_bit 4 (sextet1 a b AND 0x0f))]"
  show "decode_loop mem strict pos len i j res =
    decode_loop mem strict (pos + 3) (len - 3) (i + 3) (j + 2) (res[j := Some a, j + 1 := Some b, j + 2 := Some (push_bit 6 (sextet2 b c AND 0x03))])"
    unfolding two(1)
    using decode_step [OF conjunct1 [OF r] sextet_small(3), of "len - 2" strict "i + 2" "j + 1" ?res] len j
      put_sextets(3) [OF i, of "j + 1" ?res "push_bit 4 (sextet1 a b AND 0x0f)" "sextet2 b c"] join_bytes(2) [of a b c]
    by (simp add: add.commute numeral_3_eq_3)
qed

lemma decode_four:
  assumes d: "drop pos mem = tab64 (sextet0 a) # tab64 (sextet1 a b) # tab64 (sextet2 b c) # tab64 (sextet3 c) # rest" and len: "4 \<le> len"
    and i: "i mod 4 = 0" and j: "j + 2 < length res"
  shows "decode_loop mem strict pos len i j res =
    decode_loop mem strict (pos + 4) (len - 4) (i + 4) (j + 3) (res[j := Some a, j + 1 := Some b, j + 2 := Some c])"
    and "drop (pos + 4) mem = rest"
proof -
  have len3: "3 \<le> len" using len by simp
  note three = decode_three [OF d len3 i j]
  note r = rd_drop [OF three(2)]
  show "drop (pos + 4) mem = rest" using r by (simp add: add.commute)
  let ?res = "res[j := Some a, j + 1 := Some b, j + 2 := Some (push_bit 6 (sextet2 b c AND 0x03))]"
  show "decode_loop mem strict pos len i j res =
    decode_loop mem strict (pos + 4) (len - 4) (i + 4) (j + 3) (res[j := Some a, j + 1 := Some b, j + 2 := Some c])"
    unfolding three(1)
    using decode_step [OF conjunct1 [OF r] sextet_small(4), of "len - 3" strict "i + 3" "j + 2" ?res] len j
      put_sextets(4) [OF i, of "j + 2" ?res "push_bit 6 (sextet2 b c AND 0x03)" "sextet3 c"] join_bytes(3) [of b c]
    by (simp add: eval_nat_numeral)
qed

text \<open>Padding before the end of the string is passed over once two or three characters of the group have been read.\<close>

lemma decode_pad:
  assumes "drop pos mem = base64_pad # rest" and "0 < len" and "rest = base64_pad # rest' \<or> rest = 0 # rest' \<and> i mod 4 \<noteq> 1 \<and> len = 1"
  shows "decode_loop mem strict pos len i j res = decode_loop mem strict (pos + 1) (len - 1) i j res" and "drop (pos + 1) mem = rest"
proof -
  note r = rd_drop [OF assms(1)]
  show "drop (pos + 1) mem = rest" using r by simp
  then have "rd mem (pos + 1) = Some (hd rest)" using rd_drop assms(3) by force
  moreover have "base64_pad \<noteq> 0" by (simp add: base64_pad_byte)
  ultimately show "decode_loop mem strict pos len i j res = decode_loop mem strict (pos + 1) (len - 1) i j res"
    using conjunct1 [OF r] assms(2,3) by (subst decode_loop.simps) (auto simp: base64_pad_byte)
qed

lemma decode_end:
  assumes "drop pos mem = 0 # rest"
  shows "decode_loop mem strict pos len i j res = Some (Ended 0 i j res)"
  using rd_drop [OF assms] by (subst decode_loop.simps) simp

lemma sextet_zero: "push_bit 4 (a AND 0x03) = sextet1 a 0" "push_bit 2 (b AND 0x0f) = sextet2 b 0"
  by (simp_all add: sextet1_def sextet2_def)

lemma take_update3:
  assumes "take j res = map Some out" "length out = j" "j + 3 \<le> length res"
  shows "take (j + 3) (res[j := Some a, j + 1 := Some b, j + 2 := Some c]) = map Some (out @ [a, b, c])"
  using assms
  by (simp add: numeral_3_eq_3 numeral_2_eq_2 take_Suc_conv_app_nth nth_list_update take_update_swap list_update_append)

lemma decode_encoded:
  "drop pos mem = encode_loop s @ [0] \<Longrightarrow> i mod 4 = 0 \<Longrightarrow> take j res = map Some out \<Longrightarrow> length out = j \<Longrightarrow>
    j + length (encode_loop s) < length res \<Longrightarrow>
    \<exists>i' res'. decode_loop mem strict pos (int (length (encode_loop s))) i j res = Some (Ended 0 i' (j + length s) res')
      \<and> take (j + length s) res' = map Some (out @ s) \<and> length res' = length res"
proof (induction s arbitrary: pos i j res out rule: encode_loop.induct)
  case (1 a b c rest)
  have d: "drop pos mem = tab64 (sextet0 a) # tab64 (sextet1 a b) # tab64 (sextet2 b c) # tab64 (sextet3 c) # encode_loop rest @ [0]"
    using "1.prems"(1) by simp
  have j: "j + 2 < length res" using "1.prems"(5) by simp
  have len: "(4 :: int) \<le> 4 + int (length (encode_loop rest))" and i4: "(i + 4) mod 4 = 0" using "1.prems"(2) by simp_all
  note four = decode_four [OF d len "1.prems"(2) j]
  let ?res = "res[j := Some a, j + 1 := Some b, j + 2 := Some c]"
  have t: "take (j + 3) ?res = map Some (out @ [a, b, c])" by (rule take_update3 [OF "1.prems"(3,4)]) (use "1.prems"(5) in simp)
  obtain i' res' where r: "decode_loop mem strict (pos + 4) (int (length (encode_loop rest))) (i + 4) (j + 3) ?res = Some (Ended 0 i' (j + 3 + length rest) res')"
    "take (j + 3 + length rest) res' = map Some ((out @ [a, b, c]) @ rest)" "length res' = length ?res"
    using "1.IH" [OF four(2) i4 t] "1.prems"(4,5) by auto
  have "int (length (encode_loop (a # b # c # rest))) = 4 + int (length (encode_loop rest))" by simp
  then show ?case using four(1) [of strict] r by (auto simp: add.commute add.left_commute numeral_3_eq_3)
next
  case (2 a b)
  have d: "drop pos mem = tab64 (sextet0 a) # tab64 (sextet1 a b) # tab64 (sextet2 b 0) # [base64_pad, 0]"
    using "2.prems"(1) by (simp only: encode_loop.simps sextet_zero append.simps)
  have j: "j + 2 < length res" and i3: "(i + 3) mod 4 \<noteq> 1" using "2.prems"(2,5) by (simp, presburger)
  have len: "(3 :: int) \<le> 4" by simp
  note three = decode_three [OF d len "2.prems"(2) j]
  let ?res = "res[j := Some a, j + 1 := Some b, j + 2 := Some (push_bit 6 (sextet2 b 0 AND 0x03))]"
  have "decode_loop mem strict pos 4 i j res = Some (Ended 0 (i + 3) (j + 2) ?res)"
    using three(1) [of strict] decode_pad [OF three(2), where len = 1 and rest' = "[]" and i = "i + 3"] decode_end [of "pos + 4" mem "[]"] i3
    by (simp add: add.commute)
  moreover have "take (j + 2) ?res = map Some (out @ [a, b])"
    using "2.prems"(3-5) by (simp add: numeral_2_eq_2 take_Suc_conv_app_nth nth_list_update take_update_swap list_update_append)
  ultimately show ?case by (simp add: numeral_2_eq_2)
next
  case (3 a)
  have d: "drop pos mem = tab64 (sextet0 a) # tab64 (sextet1 a 0) # [base64_pad, base64_pad, 0]"
    using "3.prems"(1) by (simp only: encode_loop.simps sextet_zero append.simps)
  have j: "j + 1 < length res" and i2: "(i + 2) mod 4 \<noteq> 1" using "3.prems"(2,5) by (simp, presburger)
  have len: "(2 :: int) \<le> 4" by simp
  note two = decode_two [OF d len "3.prems"(2) j]
  let ?res = "res[j := Some a, j + 1 := Some (push_bit 4 (sextet1 a 0 AND 0x0f))]"
  have p1: "decode_loop mem strict (pos + 2) 2 (i + 2) (j + 1) ?res = decode_loop mem strict (pos + 3) 1 (i + 2) (j + 1) ?res" "drop (pos + 3) mem = [base64_pad, 0]"
    using decode_pad [OF two(2), where len = 2 and rest' = "[0]" and i = "i + 2"] by (simp_all add: numeral_3_eq_3)
  have "decode_loop mem strict pos 4 i j res = Some (Ended 0 (i + 2) (j + 1) ?res)"
    using two(1) [of strict] p1(1) decode_pad [OF p1(2), where len = 1 and rest' = "[]" and i = "i + 2"] decode_end [of "pos + 4" mem "[]"] i2
    by (simp add: add.commute)
  moreover have "take (j + 1) ?res = map Some (out @ [a])"
    using "3.prems"(3-5) by (simp add: take_Suc_conv_app_nth nth_list_update take_update_swap list_update_append)
  ultimately show ?case by simp
next
  case 4
  then show ?case using decode_end [of pos mem "[]"] by simp
qed

text \<open>The strings \<open>base64_encode\<close> accepts.\<close>

definition encodable64 :: "byte list \<Rightarrow> bool" where
  "encodable64 s \<longleftrightarrow> (int (length s) + 2) div 3 \<le> INT_MAX div 4"

lemma encode_accepts: "encodable64 s \<Longrightarrow> base64_encode s = Some (encode_loop s)"
  by (simp add: base64_encode_def php_base64_encode_def encodable64_def)

lemma decode_all: "base64_decode (encode_loop s) strict = Some (Some s)"
proof -
  let ?e = "encode_loop s"
  obtain i res where r: "decode_loop (?e @ [0]) strict 0 (int (length ?e)) 0 0 (replicate (length ?e + 1) None) = Some (Ended 0 i (length s) res)"
    "take (length s) res = map Some s" "length res = length ?e + 1"
    using decode_encoded [of 0 "?e @ [0]" s 0 0 "replicate (length ?e + 1) None" "[]" strict] by auto
  have l: "length s \<le> length res" using arg_cong [OF r(2), of length] by simp
  have le: "length s \<le> length ?e" by (induction s rule: encode_loop.induct) simp_all
  have "take (length s) (res[length s := Some 0]) = map Some s" using r(2) by simp
  then show ?thesis
    using r(1,3) le unfolding base64_decode_def php_base64_decode_ex_def by (simp add: wr_def base64_pad_byte del: replicate_Suc Suc_eq_plus1)
qed

interpretation base64: codec base64_encode "\<lambda>e. base64_decode e strict" encodable64 for strict
  by unfold_locales (simp add: encode_accepts decode_all)

subsection \<open>Properties\<close>

text \<open>
  C25: \<open>base64_decode\<close> inverts \<open>base64_encode\<close>, with and without \<open>strict\<close>, for every string whose encoding fits a PHP string: the
  decoder reads nothing outside its input, writes nothing outside its result, and returns the string.  So the
  encoder is injective.  Longer strings are refused.
\<close>

theorem base64_roundtrip:
  "(encodable64 s \<longrightarrow> (\<exists>e. base64_encode s = Some e \<and> base64_decode e strict = Some (Some s)
      \<and> php_base64_decode (e @ [0]) (int (length e)) = Some (Some s)))
   \<and> (\<not> encodable64 s \<longrightarrow> base64_encode s = None)
   \<and> (encodable64 s \<and> encodable64 t \<and> base64_encode s = base64_encode t \<longrightarrow> s = t)"
proof (intro conjI impI)
  assume s: "encodable64 s"
  then show "\<exists>e. base64_encode s = Some e \<and> base64_decode e strict = Some (Some s)
      \<and> php_base64_decode (e @ [0]) (int (length e)) = Some (Some s)"
    using decode_all [of s False] decode_all [of s strict] by (simp add: encode_accepts php_base64_decode_def base64_decode_def)
next
  show "\<not> encodable64 s \<Longrightarrow> base64_encode s = None" by (simp add: base64_encode_def php_base64_encode_def encodable64_def)
next
  show "encodable64 s \<and> encodable64 t \<and> base64_encode s = base64_encode t \<Longrightarrow> s = t" by (metis base64.enc_injective)
qed

theorem base64_roundtrip_witness:
  "encodable64 [72, 105] \<and> base64_encode [72, 105] = Some [83, 71, 107, 61] \<and> base64_decode [83, 71, 107, 61] True = Some (Some [72, 105])"
proof -
  have "encodable64 [72, 105]" by (simp add: encodable64_def INT_MAX_def)
  moreover have "base64_encode [72, 105] = Some [83, 71, 107, 61]" by code_simp
  ultimately show ?thesis using base64_roundtrip [of "[72, 105]" True "[]"] by simp
qed

text \<open>
  C26: Strict decoding looks at the wrong character after a single padding: \<open>++current\<close> passes over the character that follows
  it, so that any one byte, also one outside the alphabet, is accepted there.
\<close>

theorem base64_strict_trailing:
  assumes "x \<noteq> 0" and "x \<noteq> base64_pad"
  shows "base64_decode [tab64 (sextet0 a), tab64 (sextet1 a 0), base64_pad, x] True = Some (Some [a])"
proof -
  let ?mem = "[tab64 (sextet0 a), tab64 (sextet1 a 0), base64_pad, x, 0]"
  let ?res = "[Some a, Some (push_bit 4 (sextet1 a 0 AND 0x0f)), None, None, None]"
  have five: "replicate 5 None = [None, None, None, None, None]" by (simp add: numeral_eq_Suc)
  have two: "decode_loop ?mem True 0 4 0 0 (replicate 5 None) = decode_loop ?mem True 2 2 2 1 ?res"
    unfolding five using decode_two(1) [of 0 ?mem a 0 "[base64_pad, x, 0]" 4 0 0 "[None, None, None, None, None]" True] by (simp add: numeral_2_eq_2)
  have rd: "rd ?mem 2 = Some base64_pad" "rd ?mem 3 = Some x" "rd ?mem 4 = Some 0" by (simp_all add: rd_def)
  have sp: "skip_space ?mem 4 = Some (4, 0)" by (subst skip_space.simps) (simp add: rd isspace_def)
  have "decode_loop ?mem True 2 2 2 1 ?res = decode_loop ?mem True 4 1 2 1 ?res"
    using rd sp assms(2) by (subst decode_loop.simps) (simp add: base64_pad_byte)
  also have "\<dots> = Some (Ended 0 2 1 ?res)" by (rule decode_end [of _ _ "[]"]) simp
  finally have d: "decode_loop ?mem True 0 4 0 0 (replicate 5 None) = Some (Ended 0 2 1 ?res)" using two by simp
  show ?thesis
    using d unfolding base64_decode_def php_base64_decode_ex_def
    by (simp add: wr_def base64_pad_byte)
qed

theorem base64_strict_trailing_witness: "base64_decode [89, 81, 61, 42] True = Some (Some [97])"
proof -
  have t: "base64_table ! unat (sextet0 97) = 89" "base64_table ! unat (sextet1 97 0) = 81" by code_simp+
  show ?thesis using base64_strict_trailing [of 42 97] unfolding t by (simp add: base64_pad_byte)
qed

end
