(* ===== verification/Url_Codec.thy ===== *)
theory Url_Codec
  imports Codec
begin

text \<open>
  The model of the URL encodings of \<open>ext/standard/url.c\<close> (\<open>urlencode\<close>, \<open>rawurlencode\<close> and their inverses) for the
  ASCII build.  The decoders work in place: they read at \<open>data\<close> and write at \<open>dest\<close> of one buffer.
\<close>

definition isupper :: "byte \<Rightarrow> bool" where
  "isupper c \<longleftrightarrow> chr CHR ''A'' \<le> c \<and> c \<le> chr CHR ''Z''"

definition tolower :: "byte \<Rightarrow> byte" where
  "tolower c = (if isupper c then c + 32 else c)"

definition isxdigit :: "byte \<Rightarrow> bool" where
  "isxdigit c \<longleftrightarrow> chr CHR ''0'' \<le> c \<and> c \<le> chr CHR ''9'' \<or> chr CHR ''A'' \<le> c \<and> c \<le> chr CHR ''F'' \<or> chr CHR ''a'' \<le> c \<and> c \<le> chr CHR ''f''"

text \<open>One digit of \<open>php_htoi\<close>; the arithmetic is that of \<open>int\<close>.\<close>

definition htoi_digit :: "byte \<Rightarrow> int" where
  "htoi_digit c = (let c = (if isupper c then tolower c else c) in
     if chr CHR ''0'' \<le> c \<and> c \<le> chr CHR ''9'' then uint c - 48 else uint c - 97 + 10)"

definition php_htoi :: "byte \<Rightarrow> byte \<Rightarrow> int" where
  "php_htoi s0 s1 = htoi_digit s0 * 16 + htoi_digit s1"

definition hexchars :: "byte list" where
  "hexchars = map of_char ''0123456789ABCDEF''"

text \<open>The characters that are escaped.\<close>

definition url_unsafe :: "byte \<Rightarrow> bool" where
  "url_unsafe c \<longleftrightarrow> c < chr CHR ''0'' \<and> c \<noteq> chr CHR ''-'' \<and> c \<noteq> chr CHR ''.'' \<or>
     c < chr CHR ''A'' \<and> c > chr CHR ''9'' \<or>
     c > chr CHR ''Z'' \<and> c < chr CHR ''a'' \<and> c \<noteq> chr CHR ''_'' \<or>
     c > chr CHR ''z''"

definition raw_url_unsafe :: "byte \<Rightarrow> bool" where
  "raw_url_unsafe c \<longleftrightarrow> c < chr CHR ''0'' \<and> c \<noteq> chr CHR ''-'' \<and> c \<noteq> chr CHR ''.'' \<or>
     c < chr CHR ''A'' \<and> c > chr CHR ''9'' \<or>
     c > chr CHR ''Z'' \<and> c < chr CHR ''a'' \<and> c \<noteq> chr CHR ''_'' \<or>
     c > chr CHR ''z'' \<and> c \<noteq> chr CHR ''~''"

definition escape :: "byte \<Rightarrow> byte list" where
  "escape c = [chr CHR ''%'', hexchars ! unat (drop_bit 4 c), hexchars ! unat (c AND 15)]"

primrec url_encode_loop :: "byte list \<Rightarrow> byte list" where
  "url_encode_loop [] = []"
| "url_encode_loop (c # s) =
     (if c = chr CHR '' '' then [chr CHR ''+''] else if url_unsafe c then escape c else [c]) @ url_encode_loop s"

text \<open>\<open>None\<close>: the fatal error for a result longer than \<open>INT_MAX\<close>.\<close>

definition php_url_encode :: "byte list \<Rightarrow> byte list option" where
  "php_url_encode s = (let r = url_encode_loop s in if int (length r) > 2147483647 then None else Some r)"

primrec raw_url_encode_loop :: "byte list \<Rightarrow> byte list" where
  "raw_url_encode_loop [] = []"
| "raw_url_encode_loop (c # s) = (if raw_url_unsafe c then escape c else [c]) @ raw_url_encode_loop s"

definition php_raw_url_encode :: "byte list \<Rightarrow> byte list option" where
  "php_raw_url_encode s = (let r = raw_url_encode_loop s in if int (length r) > 2147483647 then None else Some r)"

text \<open>The two digits after a percent sign, when there are two more characters and both are digits.\<close>

definition escaped_at :: "byte list \<Rightarrow> nat \<Rightarrow> nat \<Rightarrow> byte \<Rightarrow> (byte \<times> byte) option option" where
  "escaped_at str data len c =
     (if c = chr CHR ''%'' \<and> len \<ge> 2 then do {
        h \<leftarrow> rd str (data + 1);
        l \<leftarrow> rd str (data + 2);
        Some (if isxdigit h \<and> isxdigit l then Some (h, l) else None) }
      else Some None)"

text \<open>
  The loop of the decoders on the buffer \<open>str\<close>: \<open>spaces\<close> for \<open>php_url_decode\<close>, which reads \<open>+\<close> as a space.  \<open>len - 1\<close> is the
  count after the test of \<open>while (len--)\<close>.
\<close>

function url_decode_loop :: "bool \<Rightarrow> byte list \<Rightarrow> nat \<Rightarrow> nat \<Rightarrow> nat \<Rightarrow> (byte list \<times> nat) option" where
  "url_decode_loop spaces str dest data len =
     (if len = 0 then Some (str, dest)
      else (case rd str data of
        None \<Rightarrow> None
      | Some c \<Rightarrow>
          if spaces \<and> c = chr CHR ''+'' then url_decode_loop spaces (str[dest := chr CHR '' '']) (dest + 1) (data + 1) (len - 1)
          else (case escaped_at str data (len - 1) c of
            None \<Rightarrow> None
          | Some (Some (h, l)) \<Rightarrow> url_decode_loop spaces (str[dest := word_of_int (php_htoi h l)]) (dest + 1) (data + 3) (len - 3)
          | Some None \<Rightarrow> url_decode_loop spaces (str[dest := c]) (dest + 1) (data + 1) (len - 1))))"
  by pat_completeness auto
termination by (relation "measure (\<lambda>(spaces, str, dest, data, len). len)") auto

declare url_decode_loop.simps [simp del]

text \<open>The terminating null is written at \<open>dest\<close>; the buffer has one byte more than the string.\<close>

definition url_decode_buffer :: "bool \<Rightarrow> byte list \<Rightarrow> nat \<Rightarrow> (byte list \<times> nat) option" where
  "url_decode_buffer spaces str len = do {
     (str, dest) \<leftarrow> url_decode_loop spaces str 0 0 len;
     if dest < length str then Some (str[dest := 0], dest) else None
   }"

definition php_url_decode :: "byte list \<Rightarrow> nat \<Rightarrow> (byte list \<times> nat) option" where
  "php_url_decode str len = url_decode_buffer True str len"

definition php_raw_url_decode :: "byte list \<Rightarrow> nat \<Rightarrow> (byte list \<times> nat) option" where
  "php_raw_url_decode str len = url_decode_buffer False str len"

text \<open>The PHP functions work on a copy of the argument with its null byte (\<open>estrndup\<close>).\<close>

definition urlencode :: "byte list \<Rightarrow> byte list option" where
  "urlencode in_str = php_url_encode in_str"

definition urldecode :: "byte list \<Rightarrow> byte list option" where
  "urldecode in_str = do { (str, n) \<leftarrow> php_url_decode (in_str @ [0]) (length in_str); Some (take n str) }"

definition rawurlencode :: "byte list \<Rightarrow> byte list option" where
  "rawurlencode in_str = php_raw_url_encode in_str"

definition rawurldecode :: "byte list \<Rightarrow> byte list option" where
  "rawurldecode in_str = do { (str, n) \<leftarrow> php_raw_url_decode (in_str @ [0]) (length in_str); Some (take n str) }"

end
