(* ===== verification/Quot_Print.thy ===== *)
theory Quot_Print
  imports Url_Codec
begin

text \<open>
  The model of \<open>ext/standard/quot_print.c\<close>.  A list stands for the string from the current position on; a PHP string is followed
  by a null byte, which is what reading one position past its last byte returns.
\<close>

definition PHP_QPRINT_MAXL :: nat where
  "PHP_QPRINT_MAXL = 75"

definition next_byte :: "byte list \<Rightarrow> byte" where
  "next_byte s = (case s of [] \<Rightarrow> 0 | c # _ \<Rightarrow> c)"

definition iscntrl :: "byte \<Rightarrow> bool" where
  "iscntrl c \<longleftrightarrow> c < 32 \<or> c = 127"

subsection \<open>Encoding\<close>

definition soft_break :: "byte list" where
  "soft_break = [chr CHR ''='', 13, 10]"

definition qp_hex :: "byte \<Rightarrow> byte list" where
  "qp_hex c = [chr CHR ''='', hexchars ! unat (drop_bit 4 c), hexchars ! unat (c AND 0xf)]"

text \<open>The characters written as \<open>=XX\<close>; \<open>rest\<close> is the string after the character.\<close>

definition qp_special :: "byte \<Rightarrow> byte list \<Rightarrow> bool" where
  "qp_special c rest \<longleftrightarrow> iscntrl c \<or> c = 0x7f \<or> c AND 0x80 \<noteq> 0 \<or> c = chr CHR ''='' \<or> c = chr CHR '' '' \<and> next_byte rest = 13"

text \<open>Whether the line is broken before an escaped character; \<open>lp\<close> counts the line with it.\<close>

definition qp_breaks :: "nat \<Rightarrow> byte \<Rightarrow> bool" where
  "qp_breaks lp c \<longleftrightarrow> lp > PHP_QPRINT_MAXL \<and> c \<le> 0x7f
     \<or> c > 0x7f \<and> c \<le> 0xdf \<and> lp + 3 > PHP_QPRINT_MAXL
     \<or> c > 0xdf \<and> c \<le> 0xef \<and> lp + 6 > PHP_QPRINT_MAXL
     \<or> c > 0xef \<and> c \<le> 0xf4 \<and> lp + 9 > PHP_QPRINT_MAXL"

fun qp_encode_loop :: "nat \<Rightarrow> byte list \<Rightarrow> byte list" where
  "qp_encode_loop lp [] = []"
| "qp_encode_loop lp (c # s) =
     (if c = 13 \<and> next_byte s = 10 \<and> s \<noteq> [] then [13, 10] @ qp_encode_loop 0 (tl s)
      else if qp_special c s then
        if qp_breaks (lp + 3) c then soft_break @ qp_hex c @ qp_encode_loop 3 s
        else qp_hex c @ qp_encode_loop (lp + 3) s
      else if lp + 1 > PHP_QPRINT_MAXL then soft_break @ [c] @ qp_encode_loop 1 s
      else [c] @ qp_encode_loop (lp + 1) s)"

text \<open>
  The bytes \<open>safe_emalloc\<close> is asked for, as a natural number: where \<open>3 * length\<close> wraps in a \<open>size_t\<close>, the product exceeds it as well
  and \<open>safe_emalloc\<close> ends the request, so that nothing is encoded.
\<close>

definition qp_allocated :: "nat \<Rightarrow> nat" where
  "qp_allocated n = 3 * (n + ((3 * n) div (PHP_QPRINT_MAXL - 9) + 1)) + 1"

text \<open>\<open>None\<close>: a write outside the allocated buffer.\<close>

definition php_quot_print_encode :: "byte list \<Rightarrow> byte list option" where
  "php_quot_print_encode str =
     (let r = qp_encode_loop 0 str in if length r + 1 \<le> qp_allocated (length str) then Some r else None)"

text \<open>The inner option is \<open>false\<close> for a result longer than \<open>INT_MAX\<close>.\<close>

definition quoted_printable_encode :: "byte list \<Rightarrow> byte list option option" where
  "quoted_printable_encode str =
     (if str = [] then Some (Some [])
      else do { r \<leftarrow> php_quot_print_encode str; Some (if int (length r) > 2147483647 then None else Some r) })"

subsection \<open>Decoding\<close>

definition isdigit :: "byte \<Rightarrow> bool" where
  "isdigit c \<longleftrightarrow> chr CHR ''0'' \<le> c \<and> c \<le> chr CHR ''9''"

definition php_hex2int :: "byte \<Rightarrow> byte" where
  "php_hex2int c =
     (if isdigit c then c - chr CHR ''0''
      else if chr CHR ''A'' \<le> c \<and> c \<le> chr CHR ''F'' then c - chr CHR ''A'' + 10
      else if chr CHR ''a'' \<le> c \<and> c \<le> chr CHR ''f'' then c - chr CHR ''a'' + 10
      else - 1)"

fun skip_blanks :: "byte list \<Rightarrow> byte list" where
  "skip_blanks [] = []"
| "skip_blanks (c # s) = (if c = 32 \<or> c = 9 then skip_blanks s else c # s)"

lemma length_skip_blanks: "length (skip_blanks s) \<le> length s"
  by (induction s) auto

text \<open>
  The rest of the string after an equals sign that no two digits follow: the end of the line reached, a soft line break,
  or nothing of the kind (\<open>None\<close>).
\<close>

definition soft_break_rest :: "byte list \<Rightarrow> byte list option" where
  "soft_break_rest s =
     (case skip_blanks s of
        [] \<Rightarrow> Some []
      | c # t \<Rightarrow>
          if c = 0 then Some (c # t)
          else if c = 13 \<and> next_byte t = 10 then Some (tl t)
          else if c = 13 \<or> c = 10 then Some t
          else None)"

lemma soft_break_rest_shorter: "soft_break_rest s = Some r \<Longrightarrow> length r \<le> length s"
  using length_skip_blanks [of s] by (cases "skip_blanks s") (auto simp: soft_break_rest_def length_skip_blanks split: if_splits)

text \<open>What an equals sign stands for: the bytes written and the rest of the string.\<close>

definition qp_equals :: "byte list \<Rightarrow> byte list \<times> byte list" where
  "qp_equals s =
     (let other = (case soft_break_rest s of Some r \<Rightarrow> ([], r) | None \<Rightarrow> ([chr CHR ''=''], s)) in
      case s of
        h # l # t \<Rightarrow>
          if h \<noteq> 0 \<and> l \<noteq> 0 \<and> isxdigit h \<and> isxdigit l then ([push_bit 4 (php_hex2int h) + php_hex2int l], t) else other
      | _ \<Rightarrow> other)"

lemma qp_equals_shorter:
  assumes "qp_equals s = (out, r)"
  shows "length r \<le> length s" and "length out + length r \<le> length s + 1"
  using assms
  by (auto simp: qp_equals_def Let_def split: list.splits option.splits if_splits dest!: soft_break_rest_shorter)

text \<open>The loop up to the null byte: the end of the list stands for it, and so does a null byte in the string.\<close>

function qp_decode_loop :: "byte list \<Rightarrow> byte list" where
  "qp_decode_loop [] = []"
| "qp_decode_loop (c # s) =
     (if c = 0 then []
      else if c = chr CHR ''='' then (case qp_equals s of (out, r) \<Rightarrow> out @ qp_decode_loop r)
      else c # qp_decode_loop s)"
  by pat_completeness auto
termination by (relation "measure length") (auto dest!: qp_equals_shorter(1) [OF sym])

declare qp_decode_loop.simps [simp del]

text \<open>\<open>None\<close>: a write outside the buffer of \<open>arg1_len + 1\<close> bytes.\<close>

definition quoted_printable_decode :: "byte list \<Rightarrow> byte list option" where
  "quoted_printable_decode arg1 =
     (if arg1 = [] then Some []
      else let r = qp_decode_loop arg1 in if length r + 1 \<le> length arg1 + 1 then Some r else None)"

end
