(* ===== verification/Url_Codec_Spec.thy ===== *)
theory Url_Codec_Spec
  imports Url_Codec
begin

text \<open>
  Correctness of the URL encodings: the decoders, which overwrite the buffer they read, compute a function of the
  original string, and they invert the encoders.
\<close>

subsection \<open>The decoded string\<close>

fun url_decoded :: "bool \<Rightarrow> byte list \<Rightarrow> byte list" where
  "url_decoded spaces [] = []"
| "url_decoded spaces (c # h # l # s) =
     (if spaces \<and> c = chr CHR ''+'' then chr CHR '' '' # url_decoded spaces (h # l # s)
      else if c = chr CHR ''%'' \<and> isxdigit h \<and> isxdigit l then word_of_int (php_htoi h l) # url_decoded spaces s
      else c # url_decoded spaces (h # l # s))"
| "url_decoded spaces (c # s) = (if spaces \<and> c = chr CHR ''+'' then chr CHR '' '' else c) # url_decoded spaces s"

lemma length_url_decoded: "length (url_decoded spaces s) \<le> length s"
  by (induction spaces s rule: url_decoded.induct) (auto split: if_splits)

lemma url_decoded_plus: "spaces \<Longrightarrow> c = chr CHR ''+'' \<Longrightarrow> url_decoded spaces (c # s) = chr CHR '' '' # url_decoded spaces s"
  by (cases "(spaces, c # s)" rule: url_decoded.cases) auto

lemma url_decoded_plain:
  "\<not> (spaces \<and> c = chr CHR ''+'') \<Longrightarrow> (\<And>h l t. s = h # l # t \<Longrightarrow> \<not> (c = chr CHR ''%'' \<and> isxdigit h \<and> isxdigit l)) \<Longrightarrow>
    url_decoded spaces (c # s) = c # url_decoded spaces s"
  by (cases "(spaces, c # s)" rule: url_decoded.cases) auto

text \<open>Writing behind the position that is read next leaves the unread part as it is.\<close>

lemma rest_after_write: "dest \<le> data \<Longrightarrow> take n (drop (data + 1) (str[dest := x])) = take n (drop (data + 1) str)"
  by simp

lemma take_write: "dest < length str \<Longrightarrow> take (dest + 1) (str[dest := x]) = take dest str @ [x]"
  by (simp add: take_Suc_conv_app_nth)

lemma rd_unread: "drop data str = c # s \<Longrightarrow> rd str data = Some c"
  using rd_drop by blast

lemma take_drop_Cons:
  assumes "n \<noteq> 0" and "data + n \<le> length str"
  shows "take n (drop data str) = str ! data # take (n - 1) (drop (data + 1) str)" and "rd str data = Some (str ! data)"
  using assms by (cases n; simp add: Cons_nth_drop_Suc [symmetric] rd_def)+

lemma url_decode_loop_ok:
  "dest \<le> data \<Longrightarrow> data + len \<le> length str \<Longrightarrow>
    \<exists>str' n. url_decode_loop spaces str dest data len = Some (str', n) \<and> length str' = length str
      \<and> take n str' = take dest str @ url_decoded spaces (take len (drop data str)) \<and> n = dest + length (url_decoded spaces (take len (drop data str)))"
proof (induction len arbitrary: str dest data rule: less_induct)
  case (less len)
  show ?case
  proof (cases "len = 0")
    case True
    then show ?thesis using less.prems by (subst url_decode_loop.simps) simp
  next
    case False
    let ?c = "str ! data" and ?s = "take (len - 1) (drop (data + 1) str)"
    have dl: "dest < length str" using less.prems False by simp
    have s: "take len (drop data str) = ?c # ?s" and r: "rd str data = Some ?c" using take_drop_Cons [OF False less.prems(2)] by simp_all
    have turn: ?thesis
      if u: "url_decode_loop spaces str dest data len = url_decode_loop spaces (str[dest := x]) (dest + 1) (data + k) (len - k)"
        and k: "0 < k" "k \<le> len" and v: "url_decoded spaces (?c # ?s) = x # url_decoded spaces (take (len - k) (drop (data + k) str))" for x k
    proof -
      have "drop (data + k) (str[dest := x]) = drop (data + k) str" using less.prems(1) k by simp
      then show ?thesis
        unfolding u s v using less.IH [of "len - k" "dest + 1" "data + k" "str[dest := x]"] less.prems k take_write [OF dl, of x] by auto
    qed
    show ?thesis
    proof (cases "spaces \<and> ?c = chr CHR ''+''")
      case True
      have "url_decode_loop spaces str dest data len = url_decode_loop spaces (str[dest := chr CHR '' '']) (dest + 1) (data + 1) (len - 1)"
        using False r True by (subst url_decode_loop.simps) simp
      then show ?thesis by (rule turn) (use False url_decoded_plus [of spaces ?c ?s] True in simp_all)
    next
      case nplus: False
      consider "escaped_at str data (len - 1) ?c = Some None" "\<And>h l t. ?s = h # l # t \<Longrightarrow> \<not> (?c = chr CHR ''%'' \<and> isxdigit h \<and> isxdigit l)"
        | h l where "escaped_at str data (len - 1) ?c = Some (Some (h, l))" "?c = chr CHR ''%''" "isxdigit h" "isxdigit l" "3 \<le> len"
          "?s = h # l # take (len - 3) (drop (data + 3) str)"
      proof (cases "?c = chr CHR ''%'' \<and> 3 \<le> len")
        case True
        have l2: "len - 1 \<noteq> 0" "data + 1 + (len - 1) \<le> length str" "len - 2 \<noteq> 0" "data + 2 + (len - 2) \<le> length str" using True less.prems by auto
        have ss: "?s = str ! (data + 1) # str ! (data + 2) # take (len - 3) (drop (data + 3) str)"
          using take_drop_Cons(1) [OF l2(1,2)] take_drop_Cons(1) [OF l2(3,4)] by (simp add: numeral_eq_Suc)
        have "rd str (data + 1) = Some (str ! (data + 1))" "rd str (data + 2) = Some (str ! (data + 2))"
          using l2 True by (simp_all add: rd_def)
        moreover have "2 \<le> len - 1" using True by linarith
        ultimately have e: "escaped_at str data (len - 1) ?c =
            Some (if isxdigit (str ! (data + 1)) \<and> isxdigit (str ! (data + 2)) then Some (str ! (data + 1), str ! (data + 2)) else None)"
          using True unfolding escaped_at_def by simp
        show ?thesis
        proof (cases "isxdigit (str ! (data + 1)) \<and> isxdigit (str ! (data + 2))")
          case x: True
          show ?thesis by (rule that(2) [OF _ _ _ _ _ ss]) (use e x True in simp_all)
        next
          case False
          show ?thesis by (rule that(1)) (use e False ss in auto)
        qed
      next
        case False
        then have "escaped_at str data (len - 1) ?c = Some None" by (auto simp: escaped_at_def)
        moreover have "\<not> ?c = chr CHR ''%''" if "?s = h # l # t" for h l t using False arg_cong [OF that, of length] less.prems by auto
        ultimately show ?thesis using that(1) by blast
      qed
      then show ?thesis
      proof cases
        case 1
        have "url_decode_loop spaces str dest data len = url_decode_loop spaces (str[dest := ?c]) (dest + 1) (data + 1) (len - 1)"
          using False r nplus 1(1) by (subst url_decode_loop.simps) auto
        then show ?thesis by (rule turn) (use False url_decoded_plain [OF nplus 1(2)] in simp_all)
      next
        case (2 h l)
        have "url_decode_loop spaces str dest data len = url_decode_loop spaces (str[dest := word_of_int (php_htoi h l)]) (dest + 1) (data + 3) (len - 3)"
          using False r nplus 2(1) by (subst url_decode_loop.simps) auto
        then show ?thesis by (rule turn) (use 2 nplus in simp_all)
      qed
    qed
  qed
qed

lemma url_decode_buffer_ok:
  "\<exists>str'. url_decode_buffer spaces (s @ [0]) (length s) = Some (str', length (url_decoded spaces s))
    \<and> take (length (url_decoded spaces s)) str' = url_decoded spaces s"
proof -
  obtain str' n where r: "url_decode_loop spaces (s @ [0]) 0 0 (length s) = Some (str', n)" "length str' = length s + 1"
    "take n str' = url_decoded spaces s" "n = length (url_decoded spaces s)"
    using url_decode_loop_ok [of 0 0 "length s" "s @ [0]" spaces] by auto
  then show ?thesis using length_url_decoded [of spaces s] by (auto simp: url_decode_buffer_def)
qed

lemma url_decoders: "urldecode s = Some (url_decoded True s)" "rawurldecode s = Some (url_decoded False s)"
  using url_decode_buffer_ok [of True s] url_decode_buffer_ok [of False s]
  by (auto simp: urldecode_def rawurldecode_def php_url_decode_def php_raw_url_decode_def)

subsection \<open>Decoding what was encoded\<close>

lemma hexchars_digit: "k < 16 \<Longrightarrow> isxdigit (hexchars ! k) \<and> htoi_digit (hexchars ! k) = int k"
proof -
  have "list_all (\<lambda>k. isxdigit (hexchars ! k) \<and> htoi_digit (hexchars ! k) = int k) [0..<16]" by code_simp
  then show "k < 16 \<Longrightarrow> ?thesis" by (simp add: list_all_iff)
qed

lemma hexchars_safe: "k < 16 \<Longrightarrow> \<not> url_unsafe (hexchars ! k) \<and> \<not> raw_url_unsafe (hexchars ! k)"
proof -
  have "list_all (\<lambda>k. \<not> url_unsafe (hexchars ! k) \<and> \<not> raw_url_unsafe (hexchars ! k)) [0..<16]" by code_simp
  then show "k < 16 \<Longrightarrow> ?thesis" by (simp add: list_all_iff)
qed

lemma nibbles: "unat (drop_bit 4 c) < 16" "unat (c AND 15) < 16" "int (unat (drop_bit 4 c)) * 16 + int (unat (c AND 15)) = uint (c :: byte)"
proof -
  have h: "unat (drop_bit 4 c) = unat c div 16" using unat_shift_down [of 4 c] by simp
  have m: "(15 :: byte) = mask 4" by (simp add: mask_eq_exp_minus_1)
  have l: "unat (c AND 15) = unat c mod 16" unfolding m using unat_and_mask [of c 4] by simp
  have "unat c < 256" using unat_lt2p [of c] by simp
  then show "unat (drop_bit 4 c) < 16" "unat (c AND 15) < 16" unfolding h l by simp_all
  have "int (unat c div 16) * 16 + int (unat c mod 16) = int (unat c)" by presburger
  then show "int (unat (drop_bit 4 c)) * 16 + int (unat (c AND 15)) = uint c" unfolding h l by simp
qed

lemma url_decoded_escape: "url_decoded spaces (escape c @ s) = c # url_decoded spaces s"
proof -
  have "word_of_int (php_htoi (hexchars ! unat (drop_bit 4 c)) (hexchars ! unat (c AND 15))) = c"
    using hexchars_digit [OF nibbles(1) [of c]] hexchars_digit [OF nibbles(2) [of c]] nibbles(3) [of c] unfolding php_htoi_def by simp
  then show ?thesis using hexchars_digit [OF nibbles(1) [of c]] hexchars_digit [OF nibbles(2) [of c]] by (simp add: escape_def)
qed

lemma url_decoded_encoded: "url_decoded True (url_encode_loop s) = s" "url_decoded False (raw_url_encode_loop s) = s"
proof -
  show "url_decoded True (url_encode_loop s) = s"
  proof (induction s)
    case (Cons c s)
    have "url_decoded True ([c] @ url_encode_loop s) = c # url_decoded True (url_encode_loop s)" if "\<not> url_unsafe c"
      using that by (simp, intro url_decoded_plain) (auto simp: url_unsafe_def)
    then show ?case using Cons url_decoded_escape url_decoded_plus [of True "chr CHR ''+''"] by simp
  qed simp
  show "url_decoded False (raw_url_encode_loop s) = s"
  proof (induction s)
    case (Cons c s)
    have "url_decoded False ([c] @ raw_url_encode_loop s) = c # url_decoded False (raw_url_encode_loop s)" if "\<not> raw_url_unsafe c"
      using that by (simp, intro url_decoded_plain) (auto simp: raw_url_unsafe_def)
    then show ?case using Cons url_decoded_escape by simp
  qed simp
qed

definition url_encodable :: "byte list \<Rightarrow> bool" where
  "url_encodable s \<longleftrightarrow> int (length (url_encode_loop s)) \<le> 2147483647"

definition raw_url_encodable :: "byte list \<Rightarrow> bool" where
  "raw_url_encodable s \<longleftrightarrow> int (length (raw_url_encode_loop s)) \<le> 2147483647"

interpretation url: codec urlencode "\<lambda>e. map_option Some (urldecode e)" url_encodable
  by unfold_locales (simp add: urlencode_def php_url_encode_def url_encodable_def url_decoders url_decoded_encoded)

interpretation raw_url: codec rawurlencode "\<lambda>e. map_option Some (rawurldecode e)" raw_url_encodable
  by unfold_locales (simp add: rawurlencode_def php_raw_url_encode_def raw_url_encodable_def url_decoders url_decoded_encoded)

subsection \<open>Properties\<close>



end
