(* ===== verification/Quot_Print_Spec.thy ===== *)
theory Quot_Print_Spec
  imports Quot_Print Url_Codec_Spec
begin

text \<open>
  Correctness of quoted-printable: decoding inverts encoding, the encoder stays inside the buffer it computes, and
  its lines have at most 76 characters unless they contain bytes above \<open>0xf4\<close>.
\<close>

subsection \<open>The buffer of the encoder\<close>

text \<open>
  A soft line break is paid for by the line before it: \<open>lp\<close> rounded up to a multiple of three is what the line has saved.
\<close>

lemma qp_breaks_full: "qp_breaks (lp + 3) c \<Longrightarrow> 64 \<le> lp"
  by (auto simp: qp_breaks_def PHP_QPRINT_MAXL_def)

lemma qp_encoded_length: "22 * length (qp_encode_loop lp s) \<le> 69 * length s + 3 * ((lp + 2) div 3)"
proof (induction lp s rule: qp_encode_loop.induct)
  case (2 lp c s)
  show ?case
  proof (cases "c = 13 \<and> next_byte s = 10 \<and> s \<noteq> []")
    case True
    then show ?thesis using "2.IH"(1) by (cases s) auto
  next
    case nocr: False
    show ?thesis
    proof (cases "qp_special c s")
      case True
      show ?thesis
      proof (cases "qp_breaks (lp + 3) c")
        case br: True
        have "66 \<le> 3 * ((lp + 2) div 3)" using div_le_mono [of 66 "lp + 2" 3] qp_breaks_full [OF br] by simp
        then show ?thesis using "2.IH"(2) [OF nocr True br] nocr True br by (auto simp: soft_break_def qp_hex_def)
      next
        case False
        have "(lp + 3 + 2) div 3 = (lp + 2) div 3 + 1" by simp
        then show ?thesis using "2.IH"(3) [OF nocr True False] nocr True False by (auto simp: qp_hex_def)
      qed
    next
      case sp: False
      show ?thesis
      proof (cases "lp + 1 > PHP_QPRINT_MAXL")
        case True
        then have "75 \<le> 3 * ((lp + 2) div 3)" using div_le_mono [of 75 "lp + 2" 3] by (simp add: PHP_QPRINT_MAXL_def)
        then show ?thesis using "2.IH"(4) [OF nocr sp True] nocr sp True by (auto simp: soft_break_def)
      next
        case False
        have "(lp + 1 + 2) div 3 \<le> (lp + 2 + 3) div 3" by (rule div_le_mono) simp
        then show ?thesis using "2.IH"(5) [OF nocr sp False] nocr sp False by auto
      qed
    qed
  qed
qed simp

lemma qp_fits: "length (qp_encode_loop 0 s) + 1 \<le> qp_allocated (length s)"
  using qp_encoded_length [of 0 s] unfolding qp_allocated_def PHP_QPRINT_MAXL_def by simp

subsection \<open>Decoding what was encoded\<close>

lemma hex2int_digit: "k < 16 \<Longrightarrow> isxdigit (hexchars ! k) \<and> hexchars ! k \<noteq> 0 \<and> php_hex2int (hexchars ! k) = of_nat k"
proof -
  have "list_all (\<lambda>k. isxdigit (hexchars ! k) \<and> hexchars ! k \<noteq> 0 \<and> php_hex2int (hexchars ! k) = of_nat k) [0..<16]" by code_simp
  then show "k < 16 \<Longrightarrow> ?thesis" by (simp add: list_all_iff)
qed

lemma qp_decode_hex: "qp_decode_loop (qp_hex c @ s) = c # qp_decode_loop s"
proof -
  let ?h = "drop_bit 4 c" and ?l = "c AND 0xf"
  have "?h * 16 + ?l = c" using arg_cong [OF nibbles(3) [of c], of "word_of_int :: int \<Rightarrow> byte"] by simp
  then have "push_bit 4 ?h + ?l = c" by (simp add: push_bit_eq_mult)
  then show ?thesis
    using hex2int_digit [OF nibbles(1) [of c]] hex2int_digit [OF nibbles(2) [of c]]
    by (simp add: qp_hex_def qp_decode_loop.simps(2) qp_equals_def)
qed

lemma qp_decode_break: "qp_decode_loop (soft_break @ s) = qp_decode_loop s"
  by (simp add: soft_break_def qp_decode_loop.simps(2) qp_equals_def isxdigit_def soft_break_rest_def next_byte_def)

lemma qp_decode_plain: "c \<noteq> 0 \<Longrightarrow> c \<noteq> chr CHR ''='' \<Longrightarrow> qp_decode_loop (c # s) = c # qp_decode_loop s"
  by (simp add: qp_decode_loop.simps(2))

lemma qp_decode_encode: "qp_decode_loop (qp_encode_loop lp s) = s"
proof (induction lp s rule: qp_encode_loop.induct)
  case (2 lp c s)
  have plain: "c \<noteq> 0 \<and> c \<noteq> chr CHR ''=''" if "\<not> qp_special c s" using that by (auto simp: qp_special_def iscntrl_def)
  show ?case
  proof (cases "c = 13 \<and> next_byte s = 10 \<and> s \<noteq> []")
    case True
    then obtain t where "s = 10 # t" by (cases s) (auto simp: next_byte_def)
    then show ?thesis using True "2.IH"(1) by (simp add: qp_decode_plain)
  next
    case False
    then show ?thesis using 2 plain qp_decode_plain by (auto simp: qp_decode_hex qp_decode_break)
  qed
qed (simp add: qp_decode_loop.simps)

lemma length_qp_decoded: "length (qp_decode_loop s) \<le> length s"
proof (induction s rule: qp_decode_loop.induct)
  case (2 c s)
  obtain out r where e: "qp_equals s = (out, r)" by fastforce
  show ?case
    using 2 qp_equals_shorter(2) [OF e] e by (cases "c = 0"; cases "c = chr CHR ''=''") (fastforce simp: qp_decode_loop.simps(2))+
qed (simp add: qp_decode_loop.simps)

subsection \<open>The length of the lines\<close>

text \<open>Every line of a text whose lines end with CR LF has at most \<open>n\<close> characters; \<open>k\<close> are already on the first.\<close>

fun lines_within :: "nat \<Rightarrow> nat \<Rightarrow> byte list \<Rightarrow> bool" where
  "lines_within n k [] = (k \<le> n)"
| "lines_within n k (c # s) = (if c = 13 then k \<le> n \<and> lines_within n 0 (tl s) else lines_within n (k + 1) s)"

declare lines_within.simps [simp del]

lemma lines_plain: "c \<noteq> 13 \<Longrightarrow> lines_within n k (c # s) = lines_within n (k + 1) s"
  by (simp add: lines_within.simps)

lemma qp_hex_no_cr: "13 \<notin> set (qp_hex c)"
proof -
  have "hexchars ! i \<noteq> 13" if "i < 16" for i
    using hexchars_digit [OF that] by (auto simp: isxdigit_def)
  then show ?thesis using nibbles(1,2) [of c] by (auto simp: qp_hex_def dest: sym)
qed

lemma lines_hex: "lines_within n k (qp_hex c @ s) = lines_within n (k + 3) s"
  using qp_hex_no_cr [of c] by (auto simp: qp_hex_def lines_plain numeral_3_eq_3)

lemma lines_break: "lines_within n k (soft_break @ s) = (k + 1 \<le> n \<and> lines_within n 0 s)"
  by (simp add: soft_break_def lines_within.simps)

lemma qp_lines: "\<forall>c \<in> set s. c \<le> 0xf4 \<Longrightarrow> lp \<le> 75 \<Longrightarrow> lines_within 76 lp (qp_encode_loop lp s)"
proof (induction lp s rule: qp_encode_loop.induct)
  case (2 lp c s)
  have tl: "\<forall>c \<in> set (tl s). c \<le> 0xf4" using "2.prems"(1) by (cases s) auto
  show ?case
  proof (cases "c = 13 \<and> next_byte s = 10 \<and> s \<noteq> []")
    case True
    then show ?thesis using "2.IH"(1) "2.prems"(2) tl by (simp add: lines_within.simps)
  next
    case nocr: False
    show ?thesis
    proof (cases "qp_special c s")
      case True
      have "lp + 3 \<le> 75" if "\<not> qp_breaks (lp + 3) c"
        using that "2.prems"(1) by (auto simp: qp_breaks_def PHP_QPRINT_MAXL_def not_less)
      then show ?thesis
        using "2.IH"(2,3) [OF nocr True] nocr True "2.prems" by (auto simp: lines_hex lines_break)
    next
      case False
      then have "c \<noteq> 13" by (auto simp: qp_special_def iscntrl_def)
      then show ?thesis
        using "2.IH"(4,5) [OF nocr False] nocr False "2.prems" by (auto simp: lines_plain lines_break PHP_QPRINT_MAXL_def)
    qed
  qed
qed (simp add: lines_within.simps)

text \<open>Bytes above \<open>0xf4\<close> never break a line.\<close>

lemma high_byte:
  fixes c :: byte
  assumes "0xf4 < c"
  shows "qp_special c s" and "\<not> qp_breaks k c" and "c \<noteq> 13"
proof -
  have u: "244 < unat c" using assms by (simp add: word_less_nat_alt)
  have "unat c < 256" using unsigned_less [of c] by simp
  then have "unat c div 128 = 1" using u by (simp add: div_nat_eqI)
  then have "bit (unat c) 7" by (simp add: bit_iff_odd)
  then have "bit c 7" by (simp add: bit_unsigned_iff)
  then have "bit (c AND 0x80) 7" by (simp add: bit_and_iff bit_iff_odd [of "0x80 :: byte"])
  then have "c AND 0x80 \<noteq> 0" by auto
  then show "qp_special c s" by (simp add: qp_special_def)
  show "\<not> qp_breaks k c" and "c \<noteq> 13" using u by (auto simp: qp_breaks_def word_less_nat_alt word_le_nat_alt)
qed

lemma qp_high_loop: "0xf4 < c \<Longrightarrow> qp_encode_loop lp (replicate n c) = concat (replicate n (qp_hex c))"
  by (induction n arbitrary: lp) (simp_all add: high_byte)

subsection \<open>Properties\<close>

text \<open>The strings \<open>quoted_printable_encode\<close> does not answer with \<open>false\<close>.\<close>

definition qp_encodable :: "byte list \<Rightarrow> bool" where
  "qp_encodable s \<longleftrightarrow> int (length (qp_encode_loop 0 s)) \<le> 2147483647"

lemma qp_encode_result: "qp_encodable s \<Longrightarrow> quoted_printable_encode s = Some (Some (qp_encode_loop 0 s))"
  using qp_fits [of s] by (simp add: quoted_printable_encode_def php_quot_print_encode_def qp_encodable_def Let_def)

lemma qp_decode_result: "quoted_printable_decode s = Some (qp_decode_loop s)"
  using length_qp_decoded [of s] by (auto simp: quoted_printable_decode_def Let_def qp_decode_loop.simps)

interpretation qp: codec "\<lambda>s. Option.bind (quoted_printable_encode s) id" "\<lambda>e. map_option Some (quoted_printable_decode e)" qp_encodable
  by unfold_locales (simp add: qp_encode_result qp_decode_result qp_decode_encode)

text \<open>
  C28: \<open>quoted_printable_decode\<close> inverts \<open>quoted_printable_encode\<close> for every string, with every byte value and line ending.  The encoder
  never writes outside the buffer of \<open>3 * (length + 3 * length / 66 + 1) + 1\<close> bytes it allocates, nor does the decoder
  outside its own, on any input.
\<close>

theorem qp_roundtrip:
  "(\<exists>r. php_quot_print_encode s = Some r) \<and> (\<exists>r. quoted_printable_decode s = Some r)
   \<and> (qp_encodable s \<longrightarrow> (\<exists>e. quoted_printable_encode s = Some (Some e) \<and> quoted_printable_decode e = Some s))
   \<and> (\<not> qp_encodable s \<longrightarrow> quoted_printable_encode s = Some None)"
proof -
  have "s \<noteq> []" if "\<not> qp_encodable s" using that by (auto simp: qp_encodable_def)
  then show ?thesis
    using qp_fits [of s] qp_encode_result [of s]
    by (auto simp: qp_decode_result qp_decode_encode php_quot_print_encode_def quoted_printable_encode_def qp_encodable_def Let_def)
qed

theorem qp_roundtrip_witness:
  "quoted_printable_encode [97, 61, 13, 10, 255] = Some (Some [97, 61, 51, 68, 13, 10, 61, 70, 70])
   \<and> quoted_printable_decode [97, 61, 51, 68, 13, 10, 61, 70, 70] = Some [97, 61, 13, 10, 255]"
proof -
  have e: "quoted_printable_encode [97, 61, 13, 10, 255] = Some (Some [97, 61, 51, 68, 13, 10, 61, 70, 70])" by code_simp
  have "qp_encodable [97, 61, 13, 10, 255]" by code_simp
  then show ?thesis using e qp_roundtrip [of "[97, 61, 13, 10, 255]"] by simp
qed

text \<open>
  C29: The lines of \<open>quoted_printable_encode\<close> have at most 76 characters, as RFC 2045 demands, when no byte is above \<open>0xf4\<close>.  Bytes above
  it never cause a line break: a string of them is one line of any length.
\<close>

theorem qp_line_length:
  "((\<forall>c \<in> set s. c \<le> 0xf4) \<longrightarrow> (\<exists>r. php_quot_print_encode s = Some r \<and> lines_within 76 0 r))
   \<and> (0xf4 < c \<longrightarrow> (\<exists>r. php_quot_print_encode (replicate n c) = Some r \<and> 13 \<notin> set r \<and> length r = 3 * n))"
proof -
  have high: "php_quot_print_encode (replicate n c) = Some (concat (replicate n (qp_hex c)))" if "0xf4 < c"
    using qp_fits [of "replicate n c"] by (simp add: php_quot_print_encode_def qp_high_loop [OF that])
  have "13 \<notin> set (concat (replicate n (qp_hex c)))" using qp_hex_no_cr by auto
  moreover have "length (concat (replicate n (qp_hex c))) = 3 * n" by (induction n) (simp_all add: qp_hex_def)
  ultimately show ?thesis
    using high qp_lines [of s 0] qp_fits [of s] by (auto simp: php_quot_print_encode_def Let_def)
qed

theorem qp_line_length_witness:
  "(\<exists>r. php_quot_print_encode [97, 61, 13, 10, 0xc3] = Some r \<and> lines_within 76 0 r)
   \<and> (\<exists>r. php_quot_print_encode (replicate 100 0xff) = Some r \<and> 13 \<notin> set r \<and> length r = 300)"
  using qp_line_length [where s = "[97, 61, 13, 10, 0xc3]" and c = "0xff" and n = 100] by simp

end
