(* ===== verification/Zend_Ts_Hash.thy ===== *)
theory Zend_Ts_Hash
  imports Zend_Hash_Bulk
begin

text \<open>
  The model of \<open>Zend/zend_ts_hash.c\<close>: a hash table with a reader/writer lock made of two mutexes and a counter.  The mutexes of
  \<open>tsrm_mutex_alloc\<close>, \<open>tsrm_mutex_lock\<close> and \<open>tsrm_mutex_unlock\<close> belong to the operating system: \<open>mutex_ops\<close> is a parameter.

  Threads interleave, so a function is the sequence of its atomic steps on the shared memory, and \<open>ts_step\<close> lets any thread take its
  next one.  Tables are named by numbers, as a call may have two of them, which may be the same.  The work on the hash table itself is
  not atomic: it lasts from \<open>Enter\<close> to \<open>Leave\<close>, with the accesses that both name.
\<close>

subsection \<open>Data\<close>

text \<open>\<open>mx_lock\<close> is \<open>None\<close> while the caller has to wait, \<open>mx_unlock\<close> when the mutex does not let the caller release it.\<close>

record 'm mutex_ops =
  mx_new :: 'm
  mx_lock :: "nat \<Rightarrow> 'm \<Rightarrow> 'm option"
  mx_unlock :: "nat \<Rightarrow> 'm \<Rightarrow> 'm option"

text \<open>A mutex is \<open>None\<close> once it is freed.\<close>

record ('d, 'm) TsHashTable =
  ts_hash :: "'d HashTable"
  reader :: uint
  mx_reader :: "'m option"
  mx_writer :: "'m option"

datatype access = Reads nat | Writes nat

text \<open>What a call returns: nothing, a status, the element found, a truth value, numbers, the state of a callback.\<close>

datatype ('d, 's) ts_result =
    Void | Status status | Elem "'d option" | Truth bool | Hash_value ulong | Number uint | Order int | Callback 's

type_synonym ('d, 's) ts_body = "(nat \<Rightarrow> 'd HashTable) \<Rightarrow> ((nat \<Rightarrow> 'd HashTable) \<times> ('d, 's) ts_result) option"

text \<open>
  \<open>First_lock\<close> and \<open>Last_unlock\<close> are the calls for \<open>mx_writer\<close> in the branches of \<open>begin_read\<close> and \<open>end_read\<close>.
\<close>

datatype ('d, 's) ts_instr =
    Lock_reader nat | Unlock_reader nat | Lock_writer nat | Unlock_writer nat
  | Inc_reader nat | First_lock nat | Dec_reader nat | Last_unlock nat | Reset_reader nat | Free_mutexes nat
  | Enter "access list" | Leave "access list" "('d, 's) ts_body"

record ('d, 'm, 's) ts_state =
  tab :: "nat \<Rightarrow> ('d, 'm) TsHashTable"
  prog :: "nat \<Rightarrow> ('d, 's) ts_instr list"
  results :: "(nat \<times> ('d, 's) ts_result) list"

subsection \<open>The steps\<close>

definition upd_tab :: "nat \<Rightarrow> (('d, 'm) TsHashTable \<Rightarrow> ('d, 'm) TsHashTable) \<Rightarrow> ('d, 'm, 's) ts_state \<Rightarrow> ('d, 'm, 's) ts_state" where
  "upd_tab i f s = s\<lparr>tab := (tab s)(i := f (tab s i))\<rparr>"

definition goto :: "nat \<Rightarrow> ('d, 's) ts_instr list \<Rightarrow> ('d, 'm, 's) ts_state \<Rightarrow> ('d, 'm, 's) ts_state" where
  "goto t p s = s\<lparr>prog := (prog s)(t := p)\<rparr>"

definition on_reader :: "('m \<Rightarrow> 'm option) \<Rightarrow> nat \<Rightarrow> ('d, 'm, 's) ts_state \<Rightarrow> ('d, 'm, 's) ts_state option" where
  "on_reader f i s = do { m \<leftarrow> mx_reader (tab s i); m \<leftarrow> f m; Some (upd_tab i (\<lambda>T. T\<lparr>mx_reader := Some m\<rparr>) s) }"

definition on_writer :: "('m \<Rightarrow> 'm option) \<Rightarrow> nat \<Rightarrow> ('d, 'm, 's) ts_state \<Rightarrow> ('d, 'm, 's) ts_state option" where
  "on_writer f i s = do { m \<leftarrow> mx_writer (tab s i); m \<leftarrow> f m; Some (upd_tab i (\<lambda>T. T\<lparr>mx_writer := Some m\<rparr>) s) }"

text \<open>Thread \<open>t\<close> performs an instruction and has \<open>p\<close> left to do; \<open>None\<close> when it cannot.\<close>

fun exec_instr :: "'m mutex_ops \<Rightarrow> nat \<Rightarrow> ('d, 's) ts_instr \<Rightarrow> ('d, 's) ts_instr list \<Rightarrow> ('d, 'm, 's) ts_state \<Rightarrow>
  ('d, 'm, 's) ts_state option" where
  "exec_instr ops t (Lock_reader i) p s = map_option (goto t p) (on_reader (mx_lock ops t) i s)"
| "exec_instr ops t (Unlock_reader i) p s = map_option (goto t p) (on_reader (mx_unlock ops t) i s)"
| "exec_instr ops t (Lock_writer i) p s = map_option (goto t p) (on_writer (mx_lock ops t) i s)"
| "exec_instr ops t (Unlock_writer i) p s = map_option (goto t p) (on_writer (mx_unlock ops t) i s)"
| "exec_instr ops t (First_lock i) p s = map_option (goto t p) (on_writer (mx_lock ops t) i s)"
| "exec_instr ops t (Last_unlock i) p s = map_option (goto t p) (on_writer (mx_unlock ops t) i s)"
| "exec_instr ops t (Inc_reader i) p s =
     (let r = reader (tab s i) + 1 in
      Some (goto t (if r = 1 then First_lock i # p else p) (upd_tab i (\<lambda>T. T\<lparr>reader := r\<rparr>) s)))"
| "exec_instr ops t (Dec_reader i) p s =
     (let r = reader (tab s i) - 1 in
      Some (goto t (if r = 0 then Last_unlock i # p else p) (upd_tab i (\<lambda>T. T\<lparr>reader := r\<rparr>) s)))"
| "exec_instr ops t (Reset_reader i) p s = Some (goto t p (upd_tab i (\<lambda>T. T\<lparr>reader := 0\<rparr>) s))"
| "exec_instr ops t (Free_mutexes i) p s = Some (goto t p (upd_tab i (\<lambda>T. T\<lparr>mx_reader := None, mx_writer := None\<rparr>) s))"
| "exec_instr ops t (Enter a) p s = Some (goto t p s)"
| "exec_instr ops t (Leave a f) p s =
     (case f (\<lambda>i. ts_hash (tab s i)) of
        None \<Rightarrow> None
      | Some (hs, r) \<Rightarrow>
          Some (goto t p (s\<lparr>tab := (\<lambda>i. (tab s i)\<lparr>ts_hash := hs i\<rparr>), results := results s @ [(t, r)]\<rparr>)))"

definition exec :: "'m mutex_ops \<Rightarrow> nat \<Rightarrow> ('d, 'm, 's) ts_state \<Rightarrow> ('d, 'm, 's) ts_state option" where
  "exec ops t s = (case prog s t of [] \<Rightarrow> None | x # p \<Rightarrow> exec_instr ops t x p s)"

text \<open>The threads \<open>T\<close> call the functions of the library, here given by the code of the calls, at any time they are idle.\<close>

inductive ts_step :: "'m mutex_ops \<Rightarrow> nat set \<Rightarrow> ('d, 's) ts_instr list set \<Rightarrow> ('d, 'm, 's) ts_state \<Rightarrow> ('d, 'm, 's) ts_state \<Rightarrow> bool"
  for ops T calls where
  call: "t \<in> T \<Longrightarrow> prog s t = [] \<Longrightarrow> p \<in> calls \<Longrightarrow> ts_step ops T calls s (goto t p s)"
| instr: "t \<in> T \<Longrightarrow> exec ops t s = Some s' \<Longrightarrow> ts_step ops T calls s s'"

inductive_cases ts_stepE: "ts_step ops T calls s s'"

subsection \<open>Locking\<close>

definition begin_read :: "nat \<Rightarrow> ('d, 's) ts_instr list" where
  "begin_read i = [Lock_reader i, Inc_reader i, Unlock_reader i]"

definition end_read :: "nat \<Rightarrow> ('d, 's) ts_instr list" where
  "end_read i = [Lock_reader i, Dec_reader i, Unlock_reader i]"

definition begin_write :: "nat \<Rightarrow> ('d, 's) ts_instr list" where
  "begin_write i = [Lock_writer i]"

definition end_write :: "nat \<Rightarrow> ('d, 's) ts_instr list" where
  "end_write i = [Unlock_writer i]"

lemmas ts_brackets = begin_read_def end_read_def begin_write_def end_write_def

definition ts_access :: "access list \<Rightarrow> ('d, 's) ts_body \<Rightarrow> ('d, 's) ts_instr list" where
  "ts_access a f = [Enter a, Leave a f]"

text \<open>Work that reads a table, and work that changes it; a fatal error does not return to the call.\<close>

definition reading :: "nat \<Rightarrow> ('d HashTable \<Rightarrow> ('d, 's) ts_result option) \<Rightarrow> ('d, 's) ts_instr list" where
  "reading i f = ts_access [Reads i] (\<lambda>hs. map_option (\<lambda>r. (hs, r)) (f (hs i)))"

definition writing :: "nat \<Rightarrow> ('d HashTable \<Rightarrow> ('d HashTable \<times> ('d, 's) ts_result) option) \<Rightarrow> ('d, 's) ts_instr list" where
  "writing i f = ts_access [Writes i] (\<lambda>hs. map_option (\<lambda>(ht, r). (hs(i := ht), r)) (f (hs i)))"

definition returned :: "'a outcome option \<Rightarrow> 'a option" where
  "returned x = (case x of Some (Done y) \<Rightarrow> Some y | _ \<Rightarrow> None)"

subsection \<open>The functions\<close>

definition zend_ts_hash_init :: "'m mutex_ops \<Rightarrow> uint \<Rightarrow> bool \<Rightarrow> bool \<Rightarrow> ('d, 'm) TsHashTable" where
  "zend_ts_hash_init ops nSize dtor persist =
     \<lparr>ts_hash = zend_hash_init nSize dtor persist, reader = 0, mx_reader = Some (mx_new ops), mx_writer = Some (mx_new ops)\<rparr>"

definition zend_ts_hash_init_ex :: "'m mutex_ops \<Rightarrow> uint \<Rightarrow> bool \<Rightarrow> bool \<Rightarrow> bool \<Rightarrow> ('d, 'm) TsHashTable" where
  "zend_ts_hash_init_ex ops nSize dtor persist prot =
     \<lparr>ts_hash = zend_hash_init_ex nSize dtor persist prot, reader = 0, mx_reader = Some (mx_new ops), mx_writer = Some (mx_new ops)\<rparr>"

definition zend_ts_hash_destroy :: "nat \<Rightarrow> ('d, 's) ts_instr list" where
  "zend_ts_hash_destroy i =
     begin_write i @ writing i (map_option (\<lambda>ht. (ht, Void)) \<circ> zend_hash_destroy) @ end_write i @ [Free_mutexes i]"

definition zend_ts_hash_clean :: "nat \<Rightarrow> ('d, 's) ts_instr list" where
  "zend_ts_hash_clean i =
     [Reset_reader i] @ begin_write i @ writing i (map_option (\<lambda>ht. (ht, Void)) \<circ> zend_hash_clean) @ end_write i"

definition zend_ts_hash_add_or_update :: "nat \<Rightarrow> cstr \<Rightarrow> uint \<Rightarrow> 'd \<Rightarrow> uint \<Rightarrow> uint \<Rightarrow> ('d, 's) ts_instr list" where
  "zend_ts_hash_add_or_update i key len d nDataSize flag =
     begin_write i
     @ writing i (map_option (\<lambda>(ht, st, _). (ht, Status st)) \<circ> zend_hash_add_or_update key len d nDataSize flag)
     @ end_write i"

definition zend_ts_hash_quick_add_or_update :: "nat \<Rightarrow> cstr \<Rightarrow> uint \<Rightarrow> ulong \<Rightarrow> 'd \<Rightarrow> uint \<Rightarrow> uint \<Rightarrow> ('d, 's) ts_instr list" where
  "zend_ts_hash_quick_add_or_update i key len h d nDataSize flag =
     begin_write i
     @ writing i (map_option (\<lambda>(ht, st, _). (ht, Status st)) \<circ> zend_hash_quick_add_or_update key len h d nDataSize flag)
     @ end_write i"

definition zend_ts_hash_index_update_or_next_insert :: "nat \<Rightarrow> ulong \<Rightarrow> 'd \<Rightarrow> uint \<Rightarrow> uint \<Rightarrow> ('d, 's) ts_instr list" where
  "zend_ts_hash_index_update_or_next_insert i h d nDataSize flag =
     begin_write i
     @ writing i (map_option (\<lambda>(ht, st, _). (ht, Status st)) \<circ> zend_hash_index_update_or_next_insert h d nDataSize flag)
     @ end_write i"

definition zend_ts_hash_add_empty_element :: "nat \<Rightarrow> cstr \<Rightarrow> uint \<Rightarrow> 'd \<Rightarrow> ('d, 's) ts_instr list" where
  "zend_ts_hash_add_empty_element i key len dummy =
     begin_write i
     @ writing i (map_option (\<lambda>(ht, st, _). (ht, Status st)) \<circ> zend_hash_add_empty_element key len dummy)
     @ end_write i"

definition zend_ts_hash_graceful_destroy :: "nat \<Rightarrow> ('d, 's) ts_instr list" where
  "zend_ts_hash_graceful_destroy i =
     begin_write i @ writing i (map_option (\<lambda>ht. (ht, Void)) \<circ> zend_hash_graceful_destroy) @ end_write i @ [Free_mutexes i]"

definition zend_ts_hash_apply :: "nat \<Rightarrow> ('s \<Rightarrow> 'd \<Rightarrow> 's \<times> 'd \<times> uint) \<Rightarrow> 's \<Rightarrow> ('d, 's) ts_instr list" where
  "zend_ts_hash_apply i f s =
     begin_write i
     @ writing i (map_option (\<lambda>(ht, s'). (ht, Callback s')) \<circ> returned \<circ> zend_hash_apply f s)
     @ end_write i"

definition zend_ts_hash_apply_with_argument ::
  "nat \<Rightarrow> ('s \<Rightarrow> 'd \<Rightarrow> 'arg \<Rightarrow> 's \<times> 'd \<times> uint) \<Rightarrow> 'arg \<Rightarrow> 's \<Rightarrow> ('d, 's) ts_instr list" where
  "zend_ts_hash_apply_with_argument i f arg s =
     begin_write i
     @ writing i (map_option (\<lambda>(ht, s'). (ht, Callback s')) \<circ> returned \<circ> zend_hash_apply_with_argument f arg s)
     @ end_write i"

definition zend_ts_hash_reverse_apply :: "nat \<Rightarrow> ('s \<Rightarrow> 'd \<Rightarrow> 's \<times> 'd \<times> uint) \<Rightarrow> 's \<Rightarrow> ('d, 's) ts_instr list" where
  "zend_ts_hash_reverse_apply i f s =
     begin_write i
     @ writing i (map_option (\<lambda>(ht, s'). (ht, Callback s')) \<circ> returned \<circ> zend_hash_reverse_apply f s)
     @ end_write i"

definition zend_ts_hash_del_key_or_index :: "nat \<Rightarrow> cstr \<Rightarrow> uint \<Rightarrow> ulong \<Rightarrow> del_flag \<Rightarrow> ('d, 's) ts_instr list" where
  "zend_ts_hash_del_key_or_index i key len h flag =
     begin_write i
     @ writing i (map_option (\<lambda>(ht, st). (ht, Status st)) \<circ> zend_hash_del_key_or_index key len h flag)
     @ end_write i"

definition zend_ts_get_hash_value :: "nat \<Rightarrow> cstr \<Rightarrow> uint \<Rightarrow> ('d, 's) ts_instr list" where
  "zend_ts_get_hash_value i key len =
     begin_read i @ ts_access [] (\<lambda>hs. Some (hs, Hash_value (zend_inline_hash_func (cstr_bytes key) len))) @ end_read i"

definition zend_ts_hash_find :: "nat \<Rightarrow> cstr \<Rightarrow> uint \<Rightarrow> ('d, 's) ts_instr list" where
  "zend_ts_hash_find i key len = begin_read i @ reading i (map_option Elem \<circ> zend_hash_find key len) @ end_read i"

definition zend_ts_hash_quick_find :: "nat \<Rightarrow> cstr \<Rightarrow> uint \<Rightarrow> ulong \<Rightarrow> ('d, 's) ts_instr list" where
  "zend_ts_hash_quick_find i key len h = begin_read i @ reading i (map_option Elem \<circ> zend_hash_quick_find key len h) @ end_read i"

definition zend_ts_hash_index_find :: "nat \<Rightarrow> ulong \<Rightarrow> ('d, 's) ts_instr list" where
  "zend_ts_hash_index_find i h = begin_read i @ reading i (map_option Elem \<circ> zend_hash_index_find h) @ end_read i"

definition zend_ts_hash_exists :: "nat \<Rightarrow> cstr \<Rightarrow> uint \<Rightarrow> ('d, 's) ts_instr list" where
  "zend_ts_hash_exists i key len = begin_read i @ reading i (map_option Truth \<circ> zend_hash_exists key len) @ end_read i"

definition zend_ts_hash_index_exists :: "nat \<Rightarrow> ulong \<Rightarrow> ('d, 's) ts_instr list" where
  "zend_ts_hash_index_exists i h = begin_read i @ reading i (map_option Truth \<circ> zend_hash_index_exists h) @ end_read i"

text \<open>Work on a target and a source.\<close>

definition onto :: "nat \<Rightarrow> nat \<Rightarrow> ('d HashTable \<Rightarrow> 'd HashTable \<Rightarrow> 'd HashTable option) \<Rightarrow> ('d, 's) ts_instr list" where
  "onto j i f =
     begin_read i @ begin_write j
     @ ts_access [Reads i, Writes j] (\<lambda>hs. map_option (\<lambda>ht. (hs(j := ht), Void)) (f (hs j) (hs i)))
     @ end_write j @ end_read i"

definition zend_ts_hash_copy :: "nat \<Rightarrow> nat \<Rightarrow> ('d \<Rightarrow> 'd) option \<Rightarrow> uint \<Rightarrow> ('d, 's) ts_instr list" where
  "zend_ts_hash_copy target source ctor siz = onto target source (\<lambda>t s. zend_hash_copy t s ctor siz)"

definition zend_ts_hash_merge :: "nat \<Rightarrow> nat \<Rightarrow> ('d \<Rightarrow> 'd) option \<Rightarrow> uint \<Rightarrow> bool \<Rightarrow> ('d, 's) ts_instr list" where
  "zend_ts_hash_merge target source ctor siz overwrite = onto target source (\<lambda>t s. zend_hash_merge t s ctor siz overwrite)"

definition zend_ts_hash_merge_ex ::
  "nat \<Rightarrow> nat \<Rightarrow> ('d \<Rightarrow> 'd) option \<Rightarrow> uint \<Rightarrow> ('d HashTable \<Rightarrow> 'd \<Rightarrow> zend_hash_key \<Rightarrow> bool) \<Rightarrow> ('d, 's) ts_instr list" where
  "zend_ts_hash_merge_ex target source ctor siz pMergeSource =
     onto target source (\<lambda>t s. zend_hash_merge_ex t s ctor siz pMergeSource)"

definition zend_ts_hash_sort ::
  "nat \<Rightarrow> (nat \<Rightarrow> (addr \<Rightarrow> addr \<Rightarrow> int) \<Rightarrow> addr list \<Rightarrow> addr list option) \<Rightarrow> ('d Bucket \<Rightarrow> 'd Bucket \<Rightarrow> int) \<Rightarrow> bool \<Rightarrow>
   ('d, 's) ts_instr list" where
  "zend_ts_hash_sort i sort_func compar renumber =
     begin_write i
     @ writing i (map_option (\<lambda>ht. (ht, Status SUCCESS)) \<circ> zend_hash_sort sort_func compar renumber)
     @ end_write i"

definition zend_ts_hash_compare :: "nat \<Rightarrow> nat \<Rightarrow> ('d \<Rightarrow> 'd \<Rightarrow> int) \<Rightarrow> bool \<Rightarrow> ('d, 's) ts_instr list" where
  "zend_ts_hash_compare i j compar ordered =
     begin_read i @ begin_read j
     @ ts_access [Reads i, Reads j]
         (\<lambda>hs. map_option (\<lambda>((ht1, ht2), r). (hs(i := ht1, j := ht2), Order r)) (returned (zend_hash_compare compar ordered (hs i) (hs j))))
     @ end_read j @ end_read i"

definition zend_ts_hash_minmax :: "nat \<Rightarrow> ('d Bucket \<Rightarrow> 'd Bucket \<Rightarrow> int) \<Rightarrow> bool \<Rightarrow> ('d, 's) ts_instr list" where
  "zend_ts_hash_minmax i compar flag =
     begin_read i @ reading i (map_option (Elem \<circ> fst) \<circ> zend_hash_minmax compar flag) @ end_read i"

definition zend_ts_hash_num_elements :: "nat \<Rightarrow> ('d, 's) ts_instr list" where
  "zend_ts_hash_num_elements i = begin_read i @ reading i (Some \<circ> Number \<circ> zend_hash_num_elements) @ end_read i"

definition zend_ts_hash_rehash :: "nat \<Rightarrow> ('d, 's) ts_instr list" where
  "zend_ts_hash_rehash i =
     begin_write i @ writing i (map_option (\<lambda>ht. (ht, Status SUCCESS)) \<circ> zend_hash_rehash) @ end_write i"

end
