(* ===== verification/Zend_Ts_Hash_Spec.thy ===== *)
theory Zend_Ts_Hash_Spec
  imports Zend_Ts_Hash
begin

text \<open>
  The lock of \<open>Zend/zend_ts_hash.c\<close> excludes writers from readers and from each other, and the calls on one table finish, when the
  mutexes of the system let any thread release them.  Each thread's place in its code determines which locks it holds; the invariant
  counts the threads per place.
\<close>

subsection \<open>The calls\<close>

text \<open>The calls of one table that neither destroy nor clean it, and the calls with two different tables.\<close>

inductive ts_call :: "nat \<Rightarrow> ('d, 's) ts_instr list \<Rightarrow> bool" for i where
  "ts_call i (zend_ts_hash_add_or_update i key len d sz flag)"
| "ts_call i (zend_ts_hash_quick_add_or_update i key len h d sz flag)"
| "ts_call i (zend_ts_hash_index_update_or_next_insert i h d sz flag)"
| "ts_call i (zend_ts_hash_add_empty_element i key len d)"
| "ts_call i (zend_ts_hash_apply i f s)"
| "ts_call i (zend_ts_hash_apply_with_argument i fa (arg :: 's) s)"
| "ts_call i (zend_ts_hash_reverse_apply i f s)"
| "ts_call i (zend_ts_hash_del_key_or_index i key len h df)"
| "ts_call i (zend_ts_get_hash_value i key len)"
| "ts_call i (zend_ts_hash_find i key len)"
| "ts_call i (zend_ts_hash_quick_find i key len h)"
| "ts_call i (zend_ts_hash_index_find i h)"
| "ts_call i (zend_ts_hash_exists i key len)"
| "ts_call i (zend_ts_hash_index_exists i h)"
| "ts_call i (zend_ts_hash_sort i sf cmp renumber)"
| "ts_call i (zend_ts_hash_minmax i cmp mflag)"
| "ts_call i (zend_ts_hash_num_elements i)"
| "ts_call i (zend_ts_hash_rehash i)"


inductive ts_call2 :: "nat \<Rightarrow> nat \<Rightarrow> ('d, 's) ts_instr list \<Rightarrow> bool" for i j where
  "ts_call2 i j (zend_ts_hash_copy i j ctor siz)"
| "ts_call2 i j (zend_ts_hash_merge i j ctor siz overwrite)"
| "ts_call2 i j (zend_ts_hash_merge_ex i j ctor siz chk)"
| "ts_call2 i j (zend_ts_hash_compare i j cmp ordered)"

definition ts_calls :: "('d, 's) ts_instr list set" where
  "ts_calls = {p. \<exists>i j. ts_call i p \<or> i \<noteq> j \<and> ts_call2 i j p}"

lemmas ts_call_defs = zend_ts_hash_add_or_update_def zend_ts_hash_quick_add_or_update_def
  zend_ts_hash_index_update_or_next_insert_def zend_ts_hash_add_empty_element_def zend_ts_hash_apply_def
  zend_ts_hash_apply_with_argument_def zend_ts_hash_reverse_apply_def zend_ts_hash_del_key_or_index_def
  zend_ts_get_hash_value_def zend_ts_hash_find_def zend_ts_hash_quick_find_def zend_ts_hash_index_find_def
  zend_ts_hash_exists_def zend_ts_hash_index_exists_def zend_ts_hash_sort_def zend_ts_hash_minmax_def
  zend_ts_hash_num_elements_def zend_ts_hash_rehash_def
  zend_ts_hash_copy_def zend_ts_hash_merge_def zend_ts_hash_merge_ex_def zend_ts_hash_compare_def
  onto_def reading_def writing_def ts_access_def ts_brackets

subsection \<open>The lock discipline\<close>

text \<open>
  What a thread holds, from the code it has left: it holds \<open>mx_reader\<close> when it will unlock it before it locks it, counts as a reader
  when it will count down before up, and holds \<open>mx_writer\<close> as a writer when it will unlock it first.
\<close>

fun first_of :: "('x \<Rightarrow> bool option) \<Rightarrow> 'x list \<Rightarrow> bool" where
  "first_of f [] = False"
| "first_of f (x # p) = (case f x of Some b \<Rightarrow> b | None \<Rightarrow> first_of f p)"

definition mark :: "bool \<Rightarrow> nat \<Rightarrow> nat \<Rightarrow> bool option" where
  "mark b i j = (if i = j then Some b else None)"

lemma mark_simps [simp]: "mark b i i = Some b" "i \<noteq> j \<Longrightarrow> mark b i j = None"
  by (simp_all add: mark_def)

definition has_reader :: "nat \<Rightarrow> ('d, 's) ts_instr list \<Rightarrow> bool" where
  "has_reader i = first_of (\<lambda>x. case x of Lock_reader j \<Rightarrow> mark False i j | Unlock_reader j \<Rightarrow> mark True i j | _ \<Rightarrow> None)"

definition is_reader :: "nat \<Rightarrow> ('d, 's) ts_instr list \<Rightarrow> bool" where
  "is_reader i = first_of (\<lambda>x. case x of Inc_reader j \<Rightarrow> mark False i j | Dec_reader j \<Rightarrow> mark True i j | _ \<Rightarrow> None)"

definition is_writer :: "nat \<Rightarrow> ('d, 's) ts_instr list \<Rightarrow> bool" where
  "is_writer i = first_of (\<lambda>x. case x of Lock_writer j \<Rightarrow> mark False i j | Unlock_writer j \<Rightarrow> mark True i j | _ \<Rightarrow> None)"

lemma has_reader_simps [simp]:
  "\<not> has_reader i []"
  "has_reader i (Lock_reader j # p) = (i \<noteq> j \<and> has_reader i p)"
  "has_reader i (Unlock_reader j # p) = (i = j \<or> has_reader i p)"
  "has_reader i (Lock_writer j # p) = has_reader i p"
  "has_reader i (Unlock_writer j # p) = has_reader i p"
  "has_reader i (Inc_reader j # p) = has_reader i p"
  "has_reader i (First_lock j # p) = has_reader i p"
  "has_reader i (Dec_reader j # p) = has_reader i p"
  "has_reader i (Last_unlock j # p) = has_reader i p"
  "has_reader i (Enter a # p) = has_reader i p"
  "has_reader i (Leave a f # p) = has_reader i p"
  by (simp_all add: has_reader_def mark_def)

lemma is_reader_simps [simp]:
  "\<not> is_reader i []"
  "is_reader i (Inc_reader j # p) = (i \<noteq> j \<and> is_reader i p)"
  "is_reader i (Dec_reader j # p) = (i = j \<or> is_reader i p)"
  "is_reader i (Lock_reader j # p) = is_reader i p"
  "is_reader i (Unlock_reader j # p) = is_reader i p"
  "is_reader i (Lock_writer j # p) = is_reader i p"
  "is_reader i (Unlock_writer j # p) = is_reader i p"
  "is_reader i (First_lock j # p) = is_reader i p"
  "is_reader i (Last_unlock j # p) = is_reader i p"
  "is_reader i (Enter a # p) = is_reader i p"
  "is_reader i (Leave a f # p) = is_reader i p"
  by (simp_all add: is_reader_def mark_def)

lemma is_writer_simps [simp]:
  "\<not> is_writer i []"
  "is_writer i (Lock_writer j # p) = (i \<noteq> j \<and> is_writer i p)"
  "is_writer i (Unlock_writer j # p) = (i = j \<or> is_writer i p)"
  "is_writer i (Lock_reader j # p) = is_writer i p"
  "is_writer i (Unlock_reader j # p) = is_writer i p"
  "is_writer i (Inc_reader j # p) = is_writer i p"
  "is_writer i (First_lock j # p) = is_writer i p"
  "is_writer i (Dec_reader j # p) = is_writer i p"
  "is_writer i (Last_unlock j # p) = is_writer i p"
  "is_writer i (Enter a # p) = is_writer i p"
  "is_writer i (Leave a f # p) = is_writer i p"
  by (simp_all add: is_writer_def mark_def)

definition may :: "('d, 's) ts_instr list \<Rightarrow> access \<Rightarrow> bool" where
  "may p a = (case a of Reads i \<Rightarrow> is_reader i p | Writes i \<Rightarrow> is_writer i p)"

primrec disciplined :: "('d, 's) ts_instr list \<Rightarrow> bool" where
  "disciplined [] = True"
| "disciplined (x # p) = (disciplined p \<and>
     (case x of
        Lock_reader i \<Rightarrow> has_reader i p
      | Unlock_reader i \<Rightarrow> \<not> has_reader i p
      | Inc_reader i \<Rightarrow> has_reader i p \<and> is_reader i p
      | First_lock i \<Rightarrow> has_reader i p \<and> is_reader i p
      | Dec_reader i \<Rightarrow> has_reader i p \<and> \<not> is_reader i p
      | Last_unlock i \<Rightarrow> has_reader i p \<and> \<not> is_reader i p
      | Lock_writer i \<Rightarrow> is_writer i p
      | Unlock_writer i \<Rightarrow> \<not> is_writer i p
      | Reset_reader i \<Rightarrow> False
      | Free_mutexes i \<Rightarrow> False
      | Enter a \<Rightarrow> list_all (may p) a
      | Leave a f \<Rightarrow> list_all (may p) a))"

text \<open>The code of a function has neither of the two conditional steps; a body changes the tables only where it has the right to.\<close>

definition branch_step :: "('d, 's) ts_instr \<Rightarrow> bool" where
  "branch_step x = (case x of First_lock i \<Rightarrow> True | Last_unlock i \<Rightarrow> True | _ \<Rightarrow> False)"

definition framed :: "('d, 's) ts_instr \<Rightarrow> bool" where
  "framed x = (case x of
     Leave a f \<Rightarrow> (\<forall>hs hs' r i. f hs = Some (hs', r) \<longrightarrow> Writes i \<notin> set a \<longrightarrow> hs' i = hs i)
   | _ \<Rightarrow> True)"

definition call_ok :: "('d, 's) ts_instr list \<Rightarrow> bool" where
  "call_ok p \<longleftrightarrow> disciplined p \<and> (\<forall>x\<in>set p. \<not> branch_step x \<and> framed x) \<and>
     (\<forall>i. \<not> has_reader i p \<and> \<not> is_reader i p \<and> \<not> is_writer i p)"

lemma ts_call_ok: "ts_call i p \<Longrightarrow> call_ok p"
  by (erule ts_call.cases)
    (fastforce simp: call_ok_def ts_call_defs may_def branch_step_def framed_def)+

lemma compare_keeps: "zend_hash_compare c ordered ht1 ht2 = Some (Done ((h1, h2), r)) \<Longrightarrow> h1 = ht1 \<and> h2 = ht2"
  by (auto simp: zend_hash_compare_def HASH_PROTECT_RECURSION_def HASH_UNPROTECT_RECURSION_def Let_def
      split: outcome.splits if_splits bind_splits)

lemma framed_compare:
  "framed (Leave a (\<lambda>hs. map_option (\<lambda>((h1, h2), r). (hs(i := h1, j := h2), Order r))
     (returned (zend_hash_compare c ordered (hs i) (hs j)))))"
  by (auto simp: framed_def returned_def dest!: compare_keeps split: option.splits outcome.splits)

lemma ts_call2_ok: "ts_call2 i j p \<Longrightarrow> i \<noteq> j \<Longrightarrow> call_ok p"
proof (erule ts_call2.cases)
  fix cmp ordered
  assume "p = zend_ts_hash_compare i j cmp ordered" and "i \<noteq> j"
  then show "call_ok p"
    using framed_compare [of "[Reads i, Reads j]" i j cmp ordered]
    by (simp add: call_ok_def ts_call_defs may_def branch_step_def) (auto simp: framed_def)
qed (fastforce simp: call_ok_def ts_call_defs may_def branch_step_def framed_def)+

lemma ts_calls_ok: "p \<in> ts_calls \<Longrightarrow> call_ok p"
  by (auto simp: ts_calls_def ts_call_ok ts_call2_ok)

subsection \<open>The invariant\<close>

text \<open>
  Mutexes any thread may release: a mutex is held or free, locking waits while it is held, and a held mutex can be unlocked.
\<close>

definition semaphore :: "'m mutex_ops \<Rightarrow> ('m \<Rightarrow> bool) \<Rightarrow> bool" where
  "semaphore ops held \<longleftrightarrow> \<not> held (mx_new ops) \<and>
     (\<forall>t m. if held m then mx_lock ops t m = None else (\<exists>m'. mx_lock ops t m = Some m' \<and> held m')) \<and>
     (\<forall>t m. held m \<longrightarrow> (\<exists>m'. mx_unlock ops t m = Some m' \<and> \<not> held m'))"

definition counted :: "nat set \<Rightarrow> (('d, 's) ts_instr list \<Rightarrow> bool) \<Rightarrow> ('d, 'm, 's) ts_state \<Rightarrow> int" where
  "counted T P s = (\<Sum>t\<in>T. of_bool (P (prog s t)))"

lemma prog_goto [simp]: "prog (goto t p s) = (prog s)(t := p)" "tab (goto t p s) = tab s"
  by (simp_all add: goto_def)

lemma upd_tab_simps [simp]: "prog (upd_tab i f s) = prog s" "tab (upd_tab i f s) = (tab s)(i := f (tab s i))"
  by (simp_all add: upd_tab_def)

lemma counted_cong: "prog s' = prog s \<Longrightarrow> counted T P s' = counted T P s"
  by (simp add: counted_def)

lemma counted_update:
  assumes "finite T" and "t \<in> T" and "prog s' = (prog s)(t := p)"
  shows "counted T P s' = counted T P s - of_bool (P (prog s t)) + of_bool (P p)"
proof -
  have "counted T P s' = of_bool (P p) + (\<Sum>u\<in>T - {t}. of_bool (P (prog s u)))"
    unfolding counted_def using assms by (subst sum.remove [OF assms(1,2)]) (auto intro!: sum.cong)
  moreover have "counted T P s = of_bool (P (prog s t)) + (\<Sum>u\<in>T - {t}. of_bool (P (prog s u)))"
    unfolding counted_def using assms by (subst sum.remove [OF assms(1,2)]) auto
  ultimately show ?thesis by simp
qed

lemma counted_nonneg: "0 \<le> counted T P s"
  by (simp add: counted_def sum_nonneg)

lemma counted_le_card: "finite T \<Longrightarrow> counted T P s \<le> int (card T)"
  using sum_mono [of T "\<lambda>t. of_bool (P (prog s t))" "\<lambda>_. 1 :: int"] by (simp add: counted_def)

lemma counted_mono: "(\<And>t. t \<in> T \<Longrightarrow> P (prog s t) \<Longrightarrow> Q (prog s t)) \<Longrightarrow> counted T P s \<le> counted T Q s"
  unfolding counted_def by (rule sum_mono) auto

lemma counted_pos: "finite T \<Longrightarrow> 0 < counted T P s \<longleftrightarrow> (\<exists>t\<in>T. P (prog s t))"
  unfolding counted_def using sum_nonneg_eq_0_iff [of T "\<lambda>t. of_bool (P (prog s t)) :: int"] counted_nonneg [of T P s]
  by (auto simp: counted_def order_less_le)

lemma counted_two:
  assumes "finite T" and "t \<in> T" and "u \<in> T" and "t \<noteq> u" and "P (prog s t)" and "P (prog s u)"
  shows "2 \<le> counted T P s"
proof -
  have "(\<Sum>v\<in>{t, u}. of_bool (P (prog s v)) :: int) \<le> counted T P s"
    unfolding counted_def using assms by (intro sum_mono2) auto
  then show ?thesis using assms by simp
qed

definition first_step :: "nat \<Rightarrow> ('d, 's) ts_instr list \<Rightarrow> bool" where
  "first_step i p = (case p of First_lock j # _ \<Rightarrow> i = j | _ \<Rightarrow> False)"

definition last_step :: "nat \<Rightarrow> ('d, 's) ts_instr list \<Rightarrow> bool" where
  "last_step i p = (case p of Last_unlock j # _ \<Rightarrow> i = j | _ \<Rightarrow> False)"

text \<open>
  \<open>mx_reader\<close> is held by one thread or by none, \<open>reader\<close> is the number of readers, and \<open>mx_writer\<close> is held for one writer or, from
  the first reader to the last, for the readers.
\<close>

definition lock_inv :: "nat set \<Rightarrow> ('m \<Rightarrow> bool) \<Rightarrow> ('d, 'm, 's) ts_state \<Rightarrow> nat \<Rightarrow> bool" where
  "lock_inv T held s i \<longleftrightarrow>
     (\<exists>mr. mx_reader (tab s i) = Some mr \<and> of_bool (held mr) = counted T (has_reader i) s) \<and>
     (\<exists>mw. mx_writer (tab s i) = Some mw \<and>
        of_bool (held mw) = counted T (is_writer i) s + of_bool (reader (tab s i) \<noteq> 0)
          - counted T (first_step i) s + counted T (last_step i) s) \<and>
     Word.uint (reader (tab s i)) = counted T (is_reader i) s \<and>
     (\<forall>t\<in>T. first_step i (prog s t) \<longrightarrow> reader (tab s i) = 1)"

definition prog_ok :: "('d, 's) ts_instr list \<Rightarrow> bool" where
  "prog_ok p \<longleftrightarrow> disciplined p \<and> (\<forall>x\<in>set p. framed x) \<and> (\<forall>x\<in>set (tl p). \<not> branch_step x)"

definition ts_inv :: "nat set \<Rightarrow> ('m \<Rightarrow> bool) \<Rightarrow> ('d, 'm, 's) ts_state \<Rightarrow> bool" where
  "ts_inv T held s \<longleftrightarrow> (\<forall>t. prog_ok (prog s t)) \<and> (\<forall>i. lock_inv T held s i)"

lemma steps_plain:
  assumes "prog_ok (x # p)"
  shows "\<not> first_step i p" and "\<not> last_step i p"
  using assms by (auto simp: prog_ok_def first_step_def last_step_def branch_step_def split: list.splits ts_instr.splits)

lemma step_simps [simp]:
  "first_step i (First_lock j # p) = (i = j)" "last_step i (Last_unlock j # p) = (i = j)"
  "\<not> branch_step x \<Longrightarrow> \<not> first_step i (x # p)" "\<not> branch_step x \<Longrightarrow> \<not> last_step i (x # p)"
  "\<not> last_step i (First_lock j # p)" "\<not> first_step i (Last_unlock j # p)"
  "\<not> first_step i []" "\<not> last_step i []"
  by (auto simp: first_step_def last_step_def branch_step_def split: ts_instr.splits)

lemma reader_lock_le1:
  assumes "lock_inv T held s i"
  shows "counted T (has_reader i) s \<le> 1"
proof -
  obtain m where "of_bool (held m) = counted T (has_reader i) s" using assms by (auto simp: lock_inv_def)
  then show ?thesis by (cases "held m") simp_all
qed

lemma one_reader_lock:
  assumes "lock_inv T held s i" and "finite T" and "t \<in> T" and "u \<in> T"
    and "has_reader i (prog s t)" and "has_reader i (prog s u)"
  shows "t = u"
  using assms(2-) reader_lock_le1 [OF assms(1)] counted_two [of T t u "has_reader i" s] by fastforce

lemma prog_ok_tl: "prog_ok (x # p) \<Longrightarrow> prog_ok p"
  by (cases p) (auto simp: prog_ok_def)

text \<open>A step that concerns another table, or none.\<close>

lemma lock_inv_other:
  assumes "lock_inv T held s i" and "finite T" and "t \<in> T" and "prog s' = (prog s)(t := p)"
    and "mx_reader (tab s' i) = mx_reader (tab s i)" and "mx_writer (tab s' i) = mx_writer (tab s i)"
    and "reader (tab s' i) = reader (tab s i)"
    and "has_reader i p = has_reader i (prog s t)" and "is_reader i p = is_reader i (prog s t)"
    and "is_writer i p = is_writer i (prog s t)" and "first_step i p = first_step i (prog s t)"
    and "last_step i p = last_step i (prog s t)"
  shows "lock_inv T held s' i"
proof -
  have "counted T P s' = counted T P s" if "P p = P (prog s t)" for P
    using counted_update [OF assms(2-4), of P] that by simp
  then show ?thesis using assms by (auto simp: lock_inv_def)
qed

lemma semaphore_lock: "semaphore ops held \<Longrightarrow> mx_lock ops t m = Some m' \<Longrightarrow> \<not> held m \<and> held m'"
  by (metis semaphore_def option.distinct(1) option.inject)

lemma semaphore_unlock: "semaphore ops held \<Longrightarrow> mx_unlock ops t m = Some m' \<Longrightarrow> held m \<Longrightarrow> \<not> held m'"
  by (metis semaphore_def option.inject)

text \<open>The number of pending first locks is the number of tables' readers that have not got \<open>mx_writer\<close> yet.\<close>

lemma readers_share:
  assumes "lock_inv T held s i" and "finite T" and "\<And>t. prog_ok (prog s t)"
  shows "0 \<le> of_bool (reader (tab s i) \<noteq> 0) - counted T (first_step i) s"
proof (cases "\<exists>t\<in>T. first_step i (prog s t)")
  case True
  then have "reader (tab s i) = 1" using assms(1) by (auto simp: lock_inv_def)
  have "has_reader i (prog s t)" if "first_step i (prog s t)" for t
    using that assms(3) [of t] by (auto simp: first_step_def prog_ok_def split: list.splits ts_instr.splits)
  then have "counted T (first_step i) s \<le> counted T (has_reader i) s" by (intro counted_mono)
  then show ?thesis using reader_lock_le1 [OF assms(1)] \<open>reader (tab s i) = 1\<close> by simp
next
  case False
  then have "counted T (first_step i) s = 0" by (simp add: counted_def)
  then show ?thesis by simp
qed

text \<open>Who is about to unlock a mutex finds it held.\<close>

lemma reader_held:
  assumes "lock_inv T held s i" and "finite T" and "t \<in> T" and "has_reader i (prog s t)"
  obtains m where "mx_reader (tab s i) = Some m" and "held m"
proof -
  obtain m where m: "mx_reader (tab s i) = Some m" "of_bool (held m) = counted T (has_reader i) s"
    using assms(1) by (auto simp: lock_inv_def)
  then have "held m" using counted_pos [OF assms(2), of "has_reader i" s] assms(3,4) by (cases "held m") auto
  then show ?thesis using m that by blast
qed

lemma writer_held:
  assumes "lock_inv T held s i" and "finite T" and "t \<in> T" and "\<And>u. prog_ok (prog s u)"
    and "is_writer i (prog s t) \<or> last_step i (prog s t)"
  obtains m where "mx_writer (tab s i) = Some m" and "held m"
proof -
  obtain m where m: "mx_writer (tab s i) = Some m"
    "of_bool (held m) = counted T (is_writer i) s + of_bool (reader (tab s i) \<noteq> 0) - counted T (first_step i) s + counted T (last_step i) s"
    using assms(1) by (auto simp: lock_inv_def)
  have "0 < counted T (is_writer i) s + counted T (last_step i) s"
    using counted_pos [OF assms(2), of "is_writer i" s] counted_pos [OF assms(2), of "last_step i" s] assms(3,5)
      counted_nonneg [of T "is_writer i" s] counted_nonneg [of T "last_step i" s]
    by (auto intro: add_pos_nonneg add_nonneg_pos)
  then have "held m" using m(2) readers_share [OF assms(1,2,4)] by (cases "held m") auto
  then show ?thesis using m(1) that by blast
qed

text \<open>Thread \<open>t\<close> is about to perform the instruction \<open>x\<close>.\<close>

definition at_step :: "'m mutex_ops \<Rightarrow> nat set \<Rightarrow> ('m \<Rightarrow> bool) \<Rightarrow> ('d, 'm, 's) ts_state \<Rightarrow> nat \<Rightarrow> ('d, 's) ts_instr \<Rightarrow>
  ('d, 's) ts_instr list \<Rightarrow> bool" where
  "at_step ops T held s t x p \<longleftrightarrow> finite T \<and> t \<in> T \<and> card T < 2 ^ 32 \<and> semaphore ops held \<and> prog s t = x # p \<and> (\<forall>u. prog_ok (prog s u))"

lemma at_stepD:
  assumes "at_step ops T held s t x p"
  shows "finite T" "t \<in> T" "card T < 2 ^ 32" "prog s t = x # p" "prog_ok (prog s u)" "disciplined (x # p)"
proof -
  show "prog s t = x # p" and "prog_ok (prog s u)" for u using assms by (simp_all add: at_step_def)
  then show "disciplined (x # p)" by (metis prog_ok_def)
qed (use assms in \<open>simp_all add: at_step_def\<close>)

lemma at_step_plain: "at_step ops T held s t x p \<Longrightarrow> \<not> first_step i p \<and> \<not> last_step i p"
  by (metis at_step_def steps_plain)

lemmas at_step_lock = semaphore_lock [OF at_step_def [THEN iffD1, THEN conjunct2, THEN conjunct2, THEN conjunct2, THEN conjunct1]]
lemmas at_step_unlock = semaphore_unlock [OF at_step_def [THEN iffD1, THEN conjunct2, THEN conjunct2, THEN conjunct2, THEN conjunct1]]

lemma lock_inv_reader_mutex:
  assumes step: "at_step ops T held s t x p" and inv: "lock_inv T held s i" and exec: "exec_instr ops t x p s = Some s'"
    and x: "x = Lock_reader j \<or> x = Unlock_reader j"
  shows "lock_inv T held s' i"
proof -
  note st = at_stepD [OF step] and plain = at_step_plain [OF step, of i]
  note upd = counted_update [OF st(1,2)] and other = lock_inv_other [OF inv st(1,2), of _ p]
  show ?thesis
  proof (cases "i = j")
    case False
    then show ?thesis using exec x plain st(4)
      by (intro other) (auto simp: on_reader_def branch_step_def split: bind_splits)
  next
    case True
    show ?thesis
    proof (cases "x = Lock_reader j")
      case lock: True
      then show ?thesis using True exec inv st(4,6) plain at_step_lock [OF step] st(2)
        by (auto simp: lock_inv_def on_reader_def upd branch_step_def split: bind_splits if_splits)
    next
      case False
      then have x: "x = Unlock_reader j" using x by blast
      obtain m where "mx_reader (tab s i) = Some m" "held m"
        using reader_held [OF inv st(1,2)] st(4) x True by auto
      then show ?thesis using True exec x inv st(4,6) plain at_step_unlock [OF step]
        by (auto simp: lock_inv_def on_reader_def upd branch_step_def split: bind_splits if_splits)
    qed
  qed
qed

lemma lock_inv_writer_mutex:
  assumes step: "at_step ops T held s t x p" and inv: "lock_inv T held s i" and exec: "exec_instr ops t x p s = Some s'"
    and x: "x = Lock_writer j \<or> x = Unlock_writer j"
  shows "lock_inv T held s' i"
proof -
  note st = at_stepD [OF step] and plain = at_step_plain [OF step, of i]
  note upd = counted_update [OF st(1,2)] and other = lock_inv_other [OF inv st(1,2), of _ p]
  show ?thesis
  proof (cases "i = j")
    case False
    then show ?thesis using exec x plain st(4)
      by (intro other) (auto simp: on_writer_def branch_step_def split: bind_splits)
  next
    case True
    show ?thesis
    proof (cases "x = Lock_writer j")
      case lock: True
      then show ?thesis using True exec inv st(4,6) plain at_step_lock [OF step] st(2)
        by (auto simp: lock_inv_def on_writer_def upd branch_step_def split: bind_splits if_splits)
    next
      case False
      then have x: "x = Unlock_writer j" using x by blast
      obtain m where "mx_writer (tab s i) = Some m" "held m"
        using writer_held [OF inv st(1,2,5)] st(4) x True by auto
      then show ?thesis using True exec x inv st(4,6) plain at_step_unlock [OF step]
        by (auto simp: lock_inv_def on_writer_def upd branch_step_def split: bind_splits if_splits)
    qed
  qed
qed

lemma lock_inv_branch:
  assumes step: "at_step ops T held s t x p" and inv: "lock_inv T held s i" and exec: "exec_instr ops t x p s = Some s'"
    and x: "x = First_lock j \<or> x = Last_unlock j"
  shows "lock_inv T held s' i"
proof -
  note st = at_stepD [OF step] and plain = at_step_plain [OF step, of i]
  note upd = counted_update [OF st(1,2)] and other = lock_inv_other [OF inv st(1,2), of _ p]
  show ?thesis
  proof (cases "i = j")
    case False
    then show ?thesis using exec x plain st(4)
      by (intro other) (auto simp: on_writer_def branch_step_def split: bind_splits)
  next
    case True
    show ?thesis
    proof (cases "x = First_lock j")
      case lock: True
      then show ?thesis using True exec inv st(4,6) plain at_step_lock [OF step] st(2)
        by (auto simp: lock_inv_def on_writer_def upd branch_step_def split: bind_splits if_splits)
    next
      case False
      then have x: "x = Last_unlock j" using x by blast
      obtain m where "mx_writer (tab s i) = Some m" "held m"
        using writer_held [OF inv st(1,2,5)] st(4) x True by auto
      then show ?thesis using True exec x inv st(4,6) plain at_step_unlock [OF step]
        by (auto simp: lock_inv_def on_writer_def upd branch_step_def split: bind_splits if_splits)
    qed
  qed
qed

text \<open>The counter changes only while its thread holds \<open>mx_reader\<close>: nobody else is between its change and the lock that follows.\<close>

lemma no_pending:
  assumes step: "at_step ops T held s t x p" and inv: "lock_inv T held s i" and "has_reader i p" and x: "x = Inc_reader i \<or> x = Dec_reader i"
  shows "counted T (first_step i) s = 0" and "counted T (last_step i) s = 0" and "\<forall>u\<in>T. \<not> first_step i (prog s u)"
proof -
  note st = at_stepD [OF step]
  have u: "\<not> first_step i (prog s u) \<and> \<not> last_step i (prog s u)" if "u \<in> T" for u
  proof (cases "u = t")
    case True
    then show ?thesis using x st(4) by (auto simp: branch_step_def)
  next
    case False
    then have "\<not> has_reader i (prog s u)" using one_reader_lock [OF inv st(1) that st(2)] assms(3) x st(4) by auto
    then show ?thesis using st(5) [of u] by (auto simp: first_step_def last_step_def prog_ok_def split: list.splits ts_instr.splits)
  qed
  then show "counted T (first_step i) s = 0" and "counted T (last_step i) s = 0" and "\<forall>u\<in>T. \<not> first_step i (prog s u)"
    by (simp_all add: counted_def)
qed

lemma lock_inv_counter:
  assumes step: "at_step ops T held s t x p" and inv: "lock_inv T held s i" and exec: "exec_instr ops t x p s = Some s'"
    and x: "x = Inc_reader j \<or> x = Dec_reader j"
  shows "lock_inv T held s' i"
proof (cases "i = j")
  case False
  then show ?thesis using exec x at_step_plain [OF step, of i] at_stepD(4) [OF step]
    by (intro lock_inv_other [OF inv at_stepD(1,2) [OF step], of _ "prog s' t"]) (auto simp: Let_def branch_step_def split: if_splits)
next
  case True
  note st = at_stepD [OF step] and plain = at_step_plain [OF step, of i]
  note upd = counted_update [OF st(1,2)]
  have "has_reader i p" using st(6) x True by auto
  note none = no_pending [OF step inv this x [folded True]]
  let ?r = "reader (tab s i)"
  have r: "Word.uint ?r = counted T (is_reader i) s" using inv by (simp add: lock_inv_def)
  have inc: "Word.uint (?r + 1) = counted T (is_reader i) s + 1" if "x = Inc_reader j"
  proof -
    have "counted T (is_reader i) (goto t p s) = counted T (is_reader i) s + 1" using that True st(4,6) by (simp add: upd)
    then have "counted T (is_reader i) s + 1 < 2 ^ 32" using counted_le_card [OF st(1), of "is_reader i" "goto t p s"] st(3) by simp
    then show ?thesis using r counted_nonneg [of T "is_reader i" s] by (simp add: uint_word_ariths)
  qed
  have dec: "Word.uint (?r - 1) = counted T (is_reader i) s - 1" if "x = Dec_reader j"
  proof -
    have "is_reader i (prog s t)" using st(4) that True by simp
    then have "1 \<le> Word.uint ?r" using counted_pos [OF st(1), of "is_reader i" s] r st(2) by force
    moreover have "Word.uint ?r < 2 ^ 32" using uint_bounded [of ?r] by simp
    ultimately show ?thesis using r by (simp add: uint_word_ariths)
  qed
  show ?thesis
  proof (cases "x = Inc_reader j")
    case xinc: True
    have "?r + 1 \<noteq> 0" using inc [OF xinc] counted_nonneg [of T "is_reader i" s] by auto
    then show ?thesis using True xinc exec inv st(4,6) plain none inc [OF xinc] r st(2)
      by (auto simp: lock_inv_def Let_def upd branch_step_def split: if_splits)
  next
    case False
    then have xdec: "x = Dec_reader j" using x by blast
    have "0 \<le> Word.uint (?r - 1)" by simp
    then have "?r \<noteq> 0" unfolding dec [OF xdec] using r by auto
    then show ?thesis using True xdec exec inv st(4,6) plain none dec [OF xdec] r st(2)
      by (auto simp: lock_inv_def Let_def upd branch_step_def split: if_splits)
  qed
qed

lemma lock_inv_exec:
  assumes step: "at_step ops T held s t x p" and inv: "lock_inv T held s i" and exec: "exec_instr ops t x p s = Some s'"
  shows "lock_inv T held s' i"
proof (cases x)
  case (Enter a)
  then show ?thesis using exec at_step_plain [OF step, of i] at_stepD(4) [OF step]
    by (intro lock_inv_other [OF inv at_stepD(1,2) [OF step], of _ p]) (auto simp: branch_step_def)
next
  case (Leave a f)
  then show ?thesis using exec at_step_plain [OF step, of i] at_stepD(4) [OF step]
    by (intro lock_inv_other [OF inv at_stepD(1,2) [OF step], of _ p]) (auto simp: branch_step_def split: option.splits)
qed (use at_stepD(6) [OF step] lock_inv_reader_mutex [OF assms] lock_inv_writer_mutex [OF assms] lock_inv_branch [OF assms]
    lock_inv_counter [OF assms] in auto)

lemma prog_ok_exec:
  assumes "at_step ops T held s t x p" and "exec_instr ops t x p s = Some s'"
  shows "prog_ok (prog s' u)"
proof -
  note st = at_stepD [OF assms(1)]
  have "prog_ok p" using st(5) [of t] st(4) prog_ok_tl by metis
  moreover have "prog_ok (First_lock i # p)" if "x = Inc_reader i" for i
    using that st(4,6) st(5) [of t] by (auto simp: prog_ok_def framed_def)
  moreover have "prog_ok (Last_unlock i # p)" if "x = Dec_reader i" for i
    using that st(4,6) st(5) [of t] by (auto simp: prog_ok_def framed_def)
  ultimately show ?thesis
    using assms(2) st(5) [of u] by (cases x) (auto simp: Let_def on_reader_def on_writer_def split: bind_splits option.splits if_splits)
qed

lemma ts_inv_step:
  assumes "ts_step ops T ts_calls s s'" and "ts_inv T held s" and "finite T" and "card T < 2 ^ 32" and "semaphore ops held"
  shows "ts_inv T held s'"
  using assms(1)
proof (cases rule: ts_step.cases)
  case (call t p)
  have ok: "call_ok p" using call ts_calls_ok by blast
  then have "prog_ok p" by (cases p) (auto simp: call_ok_def prog_ok_def)
  moreover have "lock_inv T held s' i" for i
    using call ok assms(2,3) lock_inv_other [of T held s i t s' p]
    by (cases p) (auto simp: ts_inv_def call_ok_def)
  ultimately show ?thesis using call assms(2) by (simp add: ts_inv_def)
next
  case (instr t)
  then obtain x p where x: "prog s t = x # p" "exec_instr ops t x p s = Some s'" by (auto simp: exec_def split: list.splits)
  have "at_step ops T held s t x p" using assms instr x by (simp add: at_step_def ts_inv_def)
  then show ?thesis using prog_ok_exec [OF _ x(2)] lock_inv_exec [OF _ _ x(2)] assms(2) by (simp add: ts_inv_def)
qed

definition ts_initial :: "'m mutex_ops \<Rightarrow> ('d, 'm, 's) ts_state \<Rightarrow> bool" where
  "ts_initial ops s \<longleftrightarrow> (\<forall>t. prog s t = []) \<and>
     (\<forall>i. \<exists>n dtor persist prot. tab s i = zend_ts_hash_init ops n dtor persist \<or> tab s i = zend_ts_hash_init_ex ops n dtor persist prot)"

lemma ts_inv_initial:
  assumes "ts_initial ops s" and "semaphore ops held"
  shows "ts_inv T held s"
proof -
  have "counted T P s = 0" if "\<not> P []" for P using assms(1) that by (simp add: counted_def ts_initial_def)
  then have "lock_inv T held s i" for i
    using assms by (auto simp: lock_inv_def ts_initial_def semaphore_def zend_ts_hash_init_def zend_ts_hash_init_ex_def dest!: spec [of _ i])
  then show ?thesis using assms(1) by (auto simp: ts_inv_def ts_initial_def prog_ok_def)
qed

lemma ts_inv_reachable:
  assumes "(ts_step ops T ts_calls)\<^sup>*\<^sup>* s0 s" and "ts_initial ops s0" and "finite T" and "card T < 2 ^ 32" and "semaphore ops held"
  shows "ts_inv T held s"
  using assms(1)
proof (induction rule: rtranclp_induct)
  case base
  then show ?case using ts_inv_initial [OF assms(2,5)] .
next
  case (step y z)
  then show ?case using ts_inv_step assms by blast
qed

subsection \<open>Exclusion\<close>

definition inside :: "('d, 'm, 's) ts_state \<Rightarrow> nat \<Rightarrow> access \<Rightarrow> bool" where
  "inside s t a \<longleftrightarrow> (\<exists>acc f p. prog s t = Leave acc f # p \<and> a \<in> set acc)"

definition unlocks :: "('d, 's) ts_instr list \<Rightarrow> bool" where
  "unlocks p = (case p of Unlock_reader i # _ \<Rightarrow> True | Unlock_writer i # _ \<Rightarrow> True | Last_unlock i # _ \<Rightarrow> True | _ \<Rightarrow> False)"

lemma inside_may:
  assumes "inside s t a" and "prog_ok (prog s t)"
  shows "case a of Reads i \<Rightarrow> is_reader i (prog s t) | Writes i \<Rightarrow> is_writer i (prog s t)"
  using assms by (auto simp: inside_def prog_ok_def may_def list_all_iff split: access.splits)

lemma inside_no_step: "inside s t a \<Longrightarrow> \<not> first_step i (prog s t)"
  by (auto simp: inside_def first_step_def)

lemma writer_alone:
  assumes inv: "lock_inv T held s i" and ok: "\<And>u. prog_ok (prog s u)" and fin: "finite T" and T: "t \<in> T" "u \<in> T"
    and t: "is_writer i (prog s t)" and u: "is_writer i (prog s u) \<or> is_reader i (prog s u) \<and> \<not> first_step i (prog s u)"
  shows "t = u"
proof (rule ccontr)
  assume ne: "t \<noteq> u"
  obtain b where b: "of_bool b = counted T (is_writer i) s + of_bool (reader (tab s i) \<noteq> 0) - counted T (first_step i) s + counted T (last_step i) s"
    using inv by (auto simp: lock_inv_def)
  have w: "1 \<le> counted T (is_writer i) s" using counted_pos [OF fin, of "is_writer i" s] T(1) t by force
  note share = readers_share [OF inv fin ok] counted_nonneg [of T "last_step i" s]
  show False
  proof (cases "is_writer i (prog s u)")
    case True
    then have "2 \<le> counted T (is_writer i) s" using counted_two [OF fin T ne] t by blast
    then show False using b share by (cases b) auto
  next
    case False
    then have rd: "is_reader i (prog s u)" "\<not> first_step i (prog s u)" using u by auto
    have r: "Word.uint (reader (tab s i)) = counted T (is_reader i) s" using inv by (simp add: lock_inv_def)
    then have "reader (tab s i) \<noteq> 0" using counted_pos [OF fin, of "is_reader i" s] T(2) rd by force
    then have "0 < counted T (first_step i) s" using b w share by (cases b) auto
    then obtain v where v: "v \<in> T" "first_step i (prog s v)" using counted_pos [OF fin] by blast
    then have "is_reader i (prog s v)" using ok [of v]
      by (auto simp: first_step_def prog_ok_def split: list.splits ts_instr.splits)
    moreover have "v \<noteq> u" using v rd by auto
    ultimately have "2 \<le> counted T (is_reader i) s" using counted_two [OF fin v(1) T(2)] rd(1) by blast
    moreover have "reader (tab s i) = 1" using inv v by (auto simp: lock_inv_def)
    ultimately show False using r by simp
  qed
qed

lemma unlock_enabled:
  assumes "ts_inv T held s" and "finite T" and "t \<in> T" and "semaphore ops held" and "unlocks (prog s t)"
  shows "exec ops t s \<noteq> None"
proof -
  have inv: "lock_inv T held s i" and ok: "prog_ok (prog s u)" for i u using assms(1) by (simp_all add: ts_inv_def)
  have free: "\<exists>m'. mx_unlock ops t m = Some m'" if "held m" for m using assms(4) that by (metis semaphore_def)
  obtain i p where p: "prog s t = Unlock_reader i # p \<or> prog s t = Unlock_writer i # p \<or> prog s t = Last_unlock i # p"
    using assms(5) by (auto simp: unlocks_def split: list.splits ts_instr.splits)
  then show ?thesis
  proof (elim disjE)
    assume e: "prog s t = Unlock_reader i # p"
    then obtain m where "mx_reader (tab s i) = Some m" "held m" using reader_held [OF inv assms(2,3)] by auto
    then show ?thesis using e free [of m] by (auto simp: exec_def on_reader_def)
  next
    assume e: "prog s t = Unlock_writer i # p"
    then obtain m where "mx_writer (tab s i) = Some m" "held m" using writer_held [OF inv assms(2,3) ok] by auto
    then show ?thesis using e free [of m] by (auto simp: exec_def on_writer_def)
  next
    assume e: "prog s t = Last_unlock i # p"
    then obtain m where "mx_writer (tab s i) = Some m" "held m" using writer_held [OF inv assms(2,3) ok] by auto
    then show ?thesis using e free [of m] by (auto simp: exec_def on_writer_def)
  qed
qed

lemma change_inside:
  assumes "ts_step ops T ts_calls s s'" and "ts_inv T held s" and "ts_hash (tab s' i) \<noteq> ts_hash (tab s i)"
  shows "\<exists>t\<in>T. inside s t (Writes i)"
  using assms(1)
proof (cases rule: ts_step.cases)
  case (call t p)
  then show ?thesis using assms(3) by simp
next
  case (instr t)
  then obtain x p where x: "prog s t = x # p" "exec_instr ops t x p s = Some s'" by (auto simp: exec_def split: list.splits)
  have f: "framed x" using assms(2) x(1) by (auto simp: ts_inv_def prog_ok_def dest: spec [of _ t])
  show ?thesis
  proof (cases x)
    case (Leave a f)
    obtain hs r where "f (\<lambda>j. ts_hash (tab s j)) = Some (hs, r)" and "hs i \<noteq> ts_hash (tab s i)"
      using x(2) assms(3) Leave by (auto split: option.splits)
    then have "Writes i \<in> set a" using f Leave by (force simp: framed_def)
    then show ?thesis using x(1) Leave instr by (auto simp: inside_def)
  qed (use x(2) assms(3) in \<open>auto simp: on_reader_def on_writer_def Let_def split: bind_splits if_splits\<close>)
qed


subsection \<open>Runs\<close>

text \<open>A schedule: the calls that start and the threads that take a step, in order.\<close>

datatype ('d, 's) event = Call nat "('d, 's) ts_instr list" | Step nat

fun ts_run :: "'m mutex_ops \<Rightarrow> ('d, 's) event list \<Rightarrow> ('d, 'm, 's) ts_state \<Rightarrow> ('d, 'm, 's) ts_state option" where
  "ts_run ops [] s = Some s"
| "ts_run ops (Call t p # es) s = (if prog s t = [] then ts_run ops es (goto t p s) else None)"
| "ts_run ops (Step t # es) s = (case exec ops t s of None \<Rightarrow> None | Some s' \<Rightarrow> ts_run ops es s')"

definition events_ok :: "nat set \<Rightarrow> ('d, 's) ts_instr list set \<Rightarrow> ('d, 's) event list \<Rightarrow> bool" where
  "events_ok T calls es \<longleftrightarrow> (\<forall>e\<in>set es. case e of Call t p \<Rightarrow> t \<in> T \<and> p \<in> calls | Step t \<Rightarrow> t \<in> T)"

lemma ts_run_reachable:
  assumes "ts_run ops es s = Some s'" and "events_ok T calls es"
  shows "(ts_step ops T calls)\<^sup>*\<^sup>* s s'"
  using assms
proof (induction ops es s rule: ts_run.induct)
  case (2 ops t p es s)
  then have "ts_step ops T calls s (goto t p s)" by (auto simp: events_ok_def split: if_splits intro: ts_step.call)
  then show ?case using 2 by (auto simp: events_ok_def split: if_splits intro: converse_rtranclp_into_rtranclp)
next
  case (3 ops t es s)
  then obtain s1 where s1: "exec ops t s = Some s1" by (auto split: option.splits)
  then have "ts_step ops T calls s s1" using 3(3) by (auto simp: events_ok_def intro: ts_step.instr)
  then show ?case using 3 s1 by (auto simp: events_ok_def intro: converse_rtranclp_into_rtranclp)
qed simp

text \<open>A mutex of one bit, and states to start from.\<close>

definition bit_mutex :: "bool mutex_ops" where
  "bit_mutex = \<lparr>mx_new = False, mx_lock = (\<lambda>t m. if m then None else Some True), mx_unlock = (\<lambda>t m. if m then Some False else None)\<rparr>"

lemma bit_mutex_semaphore: "semaphore bit_mutex id"
  by (auto simp: semaphore_def bit_mutex_def)

definition fresh_state :: "'m mutex_ops \<Rightarrow> (nat, 'm, nat) ts_state" where
  "fresh_state ops = \<lparr>tab = (\<lambda>_. zend_ts_hash_init ops 8 False False), prog = (\<lambda>_. []), results = []\<rparr>"

lemma fresh_state_initial: "ts_initial ops (fresh_state ops)"
  by (auto simp: ts_initial_def fresh_state_def)

definition reader_inside :: "(nat, nat) event list" where
  "reader_inside = Call 0 (zend_ts_hash_index_find 0 5) # [Step 0, Step 0, Step 0, Step 0, Step 0, Call 1 (zend_ts_hash_rehash 0)]"

lemmas ts_run_simps = exec_def on_reader_def on_writer_def upd_tab_def goto_def fresh_state_def zend_ts_hash_init_def
  bit_mutex_def ts_call_defs


subsection \<open>Progress\<close>

text \<open>The code of a call on one table: no lock is requested while another one is held, the first lock of the readers apart.\<close>

fun instr_table :: "('d, 's) ts_instr \<Rightarrow> nat option" where
  "instr_table (Enter a) = None"
| "instr_table (Leave a f) = None"
| "instr_table (Lock_reader i) = Some i"
| "instr_table (Unlock_reader i) = Some i"
| "instr_table (Lock_writer i) = Some i"
| "instr_table (Unlock_writer i) = Some i"
| "instr_table (Inc_reader i) = Some i"
| "instr_table (First_lock i) = Some i"
| "instr_table (Dec_reader i) = Some i"
| "instr_table (Last_unlock i) = Some i"
| "instr_table (Reset_reader i) = Some i"
| "instr_table (Free_mutexes i) = Some i"

primrec flat :: "nat \<Rightarrow> ('d, 's) ts_instr list \<Rightarrow> bool" where
  "flat i [] = True"
| "flat i (x # p) = (flat i p \<and> (instr_table x = None \<or> instr_table x = Some i) \<and>
     (case x of
        Lock_reader j \<Rightarrow> \<not> is_writer i p
      | Inc_reader j \<Rightarrow> \<not> is_writer i p
      | First_lock j \<Rightarrow> \<not> is_writer i p
      | Lock_writer j \<Rightarrow> \<not> has_reader i p \<and> \<not> is_reader i p
      | _ \<Rightarrow> True))"

lemma ts_call_flat: "ts_call i p \<Longrightarrow> flat i p"
  by (erule ts_call.cases) (simp add: ts_call_defs)+

lemma flat_other:
  assumes "flat i p" and "disciplined p" and "j \<noteq> i"
  shows "\<not> has_reader j p" and "\<not> is_reader j p" and "\<not> is_writer j p"
  using assms by (induction p) (auto split: ts_instr.splits)

lemma flat_exec:
  assumes "prog s t = x # p" and "flat i (x # p)" and "exec_instr ops t x p s = Some s'"
  shows "flat i (prog s' t)"
  using assms by (cases x) (auto simp: Let_def on_reader_def on_writer_def split: bind_splits option.splits if_splits)

lemma exec_other_prog:
  assumes "exec ops t s = Some s'" and "u \<noteq> t"
  shows "prog s' u = prog s u"
  using assms
  by (auto simp: exec_def Let_def on_reader_def on_writer_def split: list.splits bind_splits option.splits if_splits
      elim!: exec_instr.elims)

definition flat_inv :: "('d, 'm, 's) ts_state \<Rightarrow> bool" where
  "flat_inv s \<longleftrightarrow> (\<forall>t. \<exists>i. flat i (prog s t))"

lemma flat_inv_step:
  assumes "ts_step ops T {p. \<exists>i. ts_call i p} s s'" and "flat_inv s"
  shows "flat_inv s'"
  using assms(1)
proof (cases rule: ts_step.cases)
  case (call t p)
  then show ?thesis using assms(2) ts_call_flat by (auto simp: flat_inv_def)
next
  case (instr t)
  then obtain x p where x: "prog s t = x # p" "exec_instr ops t x p s = Some s'" by (auto simp: exec_def split: list.splits)
  have "\<exists>i. flat i (prog s' u)" for u
    using flat_exec [OF x(1) _ x(2)] exec_other_prog [OF instr(2), of u] assms(2) x(1) by (cases "u = t") (metis flat_inv_def)+
  then show ?thesis by (simp add: flat_inv_def)
qed

text \<open>A thread at work whose function on the table does not return.\<close>

definition body_stuck :: "('d, 'm, 's) ts_state \<Rightarrow> nat \<Rightarrow> bool" where
  "body_stuck s t \<longleftrightarrow> (\<exists>a f p. prog s t = Leave a f # p \<and> f (\<lambda>i. ts_hash (tab s i)) = None)"

definition stopped :: "'m mutex_ops \<Rightarrow> nat set \<Rightarrow> ('d, 'm, 's) ts_state \<Rightarrow> bool" where
  "stopped ops T s \<longleftrightarrow> (\<forall>t\<in>T. exec ops t s = None)"

lemma waiting:
  assumes inv: "ts_inv T held s" and fin: "finite T" and sem: "semaphore ops held" and t: "t \<in> T" and stop: "stopped ops T s"
    and p: "prog s t = x # p"
  shows "(\<exists>i m. x = Lock_reader i \<and> mx_reader (tab s i) = Some m \<and> held m) \<or>
    (\<exists>i m. (x = Lock_writer i \<or> x = First_lock i) \<and> mx_writer (tab s i) = Some m \<and> held m) \<or> body_stuck s t"
proof -
  have none: "exec_instr ops t x p s = None" using stop t p by (auto simp: stopped_def exec_def)
  have lock: "held m" if "mx_lock ops t m = None" for m using sem that by (metis semaphore_def option.distinct(1))
  have d: "disciplined (x # p)" using inv p by (metis ts_inv_def prog_ok_def)
  have tab: "\<exists>mr mw. mx_reader (tab s i) = Some mr \<and> mx_writer (tab s i) = Some mw" for i
    using inv by (auto simp: ts_inv_def lock_inv_def)
  have "\<not> unlocks (x # p)" using unlock_enabled [OF inv fin t sem] p stop t by (auto simp: stopped_def)
  then show ?thesis
    using none d p
  proof (cases x)
    case (Lock_reader i)
    then show ?thesis using none lock tab [of i] by (auto simp: on_reader_def split: bind_splits)
  next
    case (Lock_writer i)
    then show ?thesis using none lock tab [of i] by (auto simp: on_writer_def split: bind_splits)
  next
    case (First_lock i)
    then show ?thesis using none lock tab [of i] by (auto simp: on_writer_def split: bind_splits)
  qed (auto simp: unlocks_def Let_def body_stuck_def split: option.splits)
qed

text \<open>Whoever holds a lock in a stopped state waits, in the end, for a function on the table that does not return.\<close>

definition stalled :: "'m mutex_ops \<Rightarrow> nat set \<Rightarrow> ('m \<Rightarrow> bool) \<Rightarrow> ('d, 'm, 's) ts_state \<Rightarrow> bool" where
  "stalled ops T held s \<longleftrightarrow> ts_inv T held s \<and> flat_inv s \<and> finite T \<and> semaphore ops held \<and> stopped ops T s"

lemma stalled_waits:
  assumes "stalled ops T held s" and "u \<in> T" and "prog s u = x # p"
  shows "(\<exists>i m. x = Lock_reader i \<and> mx_reader (tab s i) = Some m \<and> held m) \<or>
    (\<exists>i m. (x = Lock_writer i \<or> x = First_lock i) \<and> mx_writer (tab s i) = Some m \<and> held m) \<or> body_stuck s u"
  using waiting [of T held s ops u x p] assms by (simp add: stalled_def)

lemma stalled_prog:
  assumes "stalled ops T held s" and "prog s u = x # p" and "is_writer i (x # p) \<or> has_reader i (x # p) \<or> is_reader i (x # p)"
  shows "flat i (x # p)"
proof -
  obtain j where "flat j (x # p)" "disciplined (x # p)"
    using assms(1,2) by (metis stalled_def flat_inv_def ts_inv_def prog_ok_def)
  then show ?thesis using flat_other [of j "x # p" i] assms(3) by metis
qed

lemma stalled_lock_inv: "stalled ops T held s \<Longrightarrow> lock_inv T held s i \<and> prog_ok (prog s u) \<and> finite T"
  by (simp add: stalled_def ts_inv_def)

lemma stalled_counted: "stalled ops T held s \<Longrightarrow> counted T P s \<noteq> 0 \<Longrightarrow> \<exists>v\<in>T. P (prog s v)"
  using counted_pos [of T P s] counted_nonneg [of T P s] by (auto simp: stalled_def order_less_le)

lemma stalled_writer:
  assumes "stalled ops T held s" and "u \<in> T" and "is_writer i (prog s u)"
  shows "body_stuck s u"
proof -
  obtain x p where p: "prog s u = x # p" using assms(3) by (cases "prog s u") auto
  have "flat i (x # p)" using stalled_prog [OF assms(1) p] assms(3) p by simp
  then show ?thesis using stalled_waits [OF assms(1,2) p] assms(3) p by auto
qed

lemma first_step_counts:
  assumes "stalled ops T held s" and "u \<in> T" and "first_step i (prog s u)"
  shows "has_reader i (prog s u)" and "reader (tab s i) = 1" and "counted T (last_step i) s = 0" and "1 \<le> counted T (first_step i) s"
proof -
  note inv = stalled_lock_inv [OF assms(1)]
  show hr: "has_reader i (prog s u)" using inv [of i u] assms(3)
    by (auto simp: first_step_def prog_ok_def split: list.splits ts_instr.splits)
  show "reader (tab s i) = 1" using inv [of i] assms(2,3) by (auto simp: lock_inv_def)
  have "\<not> last_step i (prog s v)" if "v \<in> T" for v
  proof
    assume l: "last_step i (prog s v)"
    then have "has_reader i (prog s v)" using inv [of i v] by (auto simp: last_step_def prog_ok_def split: list.splits ts_instr.splits)
    then have "v = u" using one_reader_lock [of T held s i v u] inv [of i] that assms(2) hr by blast
    then show False using l assms(3) by (auto simp: first_step_def last_step_def split: list.splits ts_instr.splits)
  qed
  then show "counted T (last_step i) s = 0" by (simp add: counted_def)
  show "1 \<le> counted T (first_step i) s" using counted_pos [of T "first_step i" s] inv [of i] assms(2,3) by force
qed

lemma stalled_first:
  assumes "stalled ops T held s" and "u \<in> T" and "first_step i (prog s u)"
  shows "\<exists>t\<in>T. body_stuck s t"
proof -
  obtain p where p: "prog s u = First_lock i # p" using assms(3) by (auto simp: first_step_def split: list.splits ts_instr.splits)
  then obtain m where "mx_writer (tab s i) = Some m" "held m"
    using stalled_waits [OF assms(1,2) p] by (auto simp: body_stuck_def)
  then have "1 = counted T (is_writer i) s + 1 - counted T (first_step i) s"
    using stalled_lock_inv [OF assms(1), of i] first_step_counts [OF assms] by (auto simp: lock_inv_def)
  then have "counted T (is_writer i) s \<noteq> 0" using first_step_counts(4) [OF assms] by simp
  then obtain v where "v \<in> T" "is_writer i (prog s v)" using stalled_counted [OF assms(1)] by blast
  then show ?thesis using stalled_writer [OF assms(1)] by blast
qed

lemma stalled_has_reader:
  assumes "stalled ops T held s" and "u \<in> T" and "has_reader i (prog s u)"
  shows "\<exists>t\<in>T. body_stuck s t"
proof -
  obtain x p where p: "prog s u = x # p" using assms(3) by (cases "prog s u") auto
  have f: "flat i (x # p)" using stalled_prog [OF assms(1) p] assms(3) p by simp
  show ?thesis
  proof (cases "first_step i (prog s u)")
    case True
    then show ?thesis using stalled_first [OF assms(1,2)] by blast
  next
    case False
    then have "body_stuck s u" using stalled_waits [OF assms(1,2) p] f assms(3) p by auto
    then show ?thesis using assms(2) by blast
  qed
qed

lemma stalled_is_reader:
  assumes "stalled ops T held s" and "u \<in> T" and "is_reader i (prog s u)"
  shows "\<exists>t\<in>T. body_stuck s t"
proof -
  obtain x p where p: "prog s u = x # p" using assms(3) by (cases "prog s u") auto
  have f: "flat i (x # p)" using stalled_prog [OF assms(1) p] assms(3) p by simp
  consider m where "x = Lock_reader i" "mx_reader (tab s i) = Some m" "held m" | "first_step i (prog s u)" | "body_stuck s u"
    using stalled_waits [OF assms(1,2) p] f assms(3) p by auto
  then show ?thesis
  proof cases
    case 1
    then have "counted T (has_reader i) s \<noteq> 0" using stalled_lock_inv [OF assms(1), of i] by (auto simp: lock_inv_def)
    then show ?thesis using stalled_counted [OF assms(1)] stalled_has_reader [OF assms(1)] by blast
  next
    case 2
    then show ?thesis using stalled_first [OF assms(1,2)] by blast
  next
    case 3
    then show ?thesis using assms(2) by blast
  qed
qed

text \<open>So nobody waits for a lock alone.\<close>

lemma stalled_idle:
  assumes st: "stalled ops T held s" and "u \<in> T" and "prog s u \<noteq> []"
  shows "\<exists>t\<in>T. body_stuck s t"
proof -
  obtain x p where p: "prog s u = x # p" using assms(3) by (cases "prog s u") auto
  note pos = stalled_counted [OF st]
  consider (r) i m where "x = Lock_reader i" "mx_reader (tab s i) = Some m" "held m"
    | (w) i m where "x = Lock_writer i \<or> x = First_lock i" "mx_writer (tab s i) = Some m" "held m" | (b) "body_stuck s u"
    using stalled_waits [OF st assms(2) p] by blast
  then show ?thesis
  proof cases
    case r
    then have "counted T (has_reader i) s \<noteq> 0" using stalled_lock_inv [OF st, of i] by (auto simp: lock_inv_def)
    then show ?thesis using pos stalled_has_reader [OF st] by blast
  next
    case w
    then have "1 = counted T (is_writer i) s + of_bool (reader (tab s i) \<noteq> 0) - counted T (first_step i) s + counted T (last_step i) s"
      and "Word.uint (reader (tab s i)) = counted T (is_reader i) s"
      using stalled_lock_inv [OF st, of i] by (auto simp: lock_inv_def)
    then have "counted T (is_writer i) s \<noteq> 0 \<or> counted T (is_reader i) s \<noteq> 0 \<or> counted T (last_step i) s \<noteq> 0"
      using counted_nonneg [of T "first_step i" s] by (cases "reader (tab s i) = 0") (auto simp: uint_0_iff dest: sym)
    moreover have "has_reader i (prog s v)" if "last_step i (prog s v)" for v
      using that stalled_lock_inv [OF st, of i v] by (auto simp: last_step_def prog_ok_def split: list.splits ts_instr.splits)
    ultimately show ?thesis using pos stalled_writer [OF st] stalled_is_reader [OF st] stalled_has_reader [OF st] by metis
  next
    case b
    then show ?thesis using assms(2) by blast
  qed
qed

subsection \<open>Every call ends\<close>

definition instr_work :: "('d, 's) ts_instr \<Rightarrow> nat" where
  "instr_work x = (case x of Inc_reader i \<Rightarrow> 2 | Dec_reader i \<Rightarrow> 2 | _ \<Rightarrow> 1)"

definition ts_work :: "nat set \<Rightarrow> ('d, 'm, 's) ts_state \<Rightarrow> nat" where
  "ts_work T s = (\<Sum>t\<in>T. sum_list (map instr_work (prog s t)))"

definition any_exec :: "'m mutex_ops \<Rightarrow> nat set \<Rightarrow> ('d, 'm, 's) ts_state \<Rightarrow> ('d, 'm, 's) ts_state \<Rightarrow> bool" where
  "any_exec ops T s s' \<longleftrightarrow> (\<exists>t\<in>T. exec ops t s = Some s')"

lemma exec_work:
  assumes "exec ops t s = Some s'"
  shows "sum_list (map instr_work (prog s' t)) < sum_list (map instr_work (prog s t))"
proof -
  obtain x p where x: "prog s t = x # p" "exec_instr ops t x p s = Some s'" using assms by (auto simp: exec_def split: list.splits)
  then show ?thesis
    by (cases x) (auto simp: instr_work_def Let_def on_reader_def on_writer_def split: bind_splits option.splits if_splits)
qed

lemma any_exec_work:
  assumes "any_exec ops T s s'" and "finite T"
  shows "ts_work T s' < ts_work T s"
proof -
  obtain t where t: "t \<in> T" "exec ops t s = Some s'" using assms(1) by (auto simp: any_exec_def)
  show ?thesis unfolding ts_work_def
  proof (rule sum_strict_mono_ex1 [OF assms(2)])
    show "\<forall>u\<in>T. sum_list (map instr_work (prog s' u)) \<le> sum_list (map instr_work (prog s u))"
      using exec_work [OF t(2)] exec_other_prog [OF t(2)] by (metis order_less_imp_le order_refl)
    show "\<exists>u\<in>T. sum_list (map instr_work (prog s' u)) < sum_list (map instr_work (prog s u))"
      using exec_work [OF t(2)] t(1) by blast
  qed
qed

lemma runs_bounded:
  assumes "(any_exec ops T ^^ k) s s'" and "finite T"
  shows "k + ts_work T s' \<le> ts_work T s"
  using assms(1)
proof (induction k arbitrary: s')
  case (Suc k)
  then obtain m where "(any_exec ops T ^^ k) s m" "any_exec ops T m s'" by auto
  then show ?case using Suc.IH any_exec_work [OF _ assms(2)] by fastforce
qed simp

lemma ts_step_mono: "ts_step ops T A s s' \<Longrightarrow> A \<subseteq> B \<Longrightarrow> ts_step ops T B s s'"
  by (elim ts_stepE) (auto intro: ts_step.intros)

lemma flat_inv_reachable:
  assumes "(ts_step ops T {p. \<exists>i. ts_call i p})\<^sup>*\<^sup>* s0 s" and "ts_initial ops s0"
  shows "flat_inv s"
  using assms(1)
proof (induction rule: rtranclp_induct)
  case base
  then show ?case using assms(2) by (simp add: ts_initial_def flat_inv_def)
qed (rule flat_inv_step)



subsection \<open>Where the lock fails\<close>

definition clean_while_read :: "(nat, nat) event list" where
  "clean_while_read = Call 0 (zend_ts_hash_num_elements 0) # [Step 0, Step 0, Step 0, Step 0, Step 0,
     Call 1 (zend_ts_hash_clean 0), Step 1, Step 0, Step 0, Step 0, Step 0]"

definition crossed_copies :: "(nat, nat) event list" where
  "crossed_copies = [Call 0 (zend_ts_hash_copy 0 1 None 4), Call 1 (zend_ts_hash_copy 1 0 None 4),
     Step 0, Step 0, Step 0, Step 0, Step 1, Step 1, Step 1, Step 1]"


text \<open>Mutexes with an owner, as the critical sections of Windows: only the thread that locked one may unlock it.\<close>

definition critical_section :: "'m mutex_ops \<Rightarrow> ('m \<Rightarrow> nat option) \<Rightarrow> bool" where
  "critical_section ops owner \<longleftrightarrow> owner (mx_new ops) = None \<and>
     (\<forall>t m. owner m = None \<longrightarrow> (\<exists>m'. mx_lock ops t m = Some m' \<and> owner m' = Some t \<and>
        (\<exists>m''. mx_unlock ops t m' = Some m'' \<and> owner m'' = None))) \<and>
     (\<forall>t m. owner m \<noteq> Some t \<longrightarrow> mx_unlock ops t m = None)"

definition overlapping_readers :: "(nat, nat) event list" where
  "overlapping_readers = [Call 0 (zend_ts_hash_num_elements 0), Call 1 (zend_ts_hash_num_elements 0),
     Step 0, Step 0, Step 0, Step 0, Step 0, Step 1, Step 1, Step 1, Step 1, Step 0, Step 0, Step 0, Step 0,
     Step 1, Step 1, Step 1]"


definition owned_mutex :: "nat option mutex_ops" where
  "owned_mutex = \<lparr>mx_new = None, mx_lock = (\<lambda>t m. if m = None then Some (Some t) else None),
     mx_unlock = (\<lambda>t m. if m = Some t then Some None else None)\<rparr>"


end
