(* ===== verification/Zend_Gc.thy ===== *)
theory Zend_Gc
  imports Php_Prelude
begin

text \<open>
  The model of \<open>Zend/zend_gc.c\<close>, the collector of reference cycles: the buffer of possible roots and the three phases of
  \<open>gc_collect_cycles\<close> that mark, scan and collect.

  Memory holds zvals, at addresses, and the objects of the store, by handle.  What the collector reads of a value is its reference count,
  its colour and buffer address, and the values it refers to: the elements of an array, in the order of its list, and for an object what
  its \<open>get_gc\<close> handler returns, a table of pointers, some of them null, and perhaps a list of properties.  The handler is assumed to return
  the same references throughout a collection.  A function and the calls it makes for the values found are written as a step that returns
  the values to visit, and a recursion over lists of values; \<open>goto tail_call\<close> is a call in last position.
\<close>

subsection \<open>Data\<close>

datatype gc_color = GC_BLACK | GC_WHITE | GC_GREY | GC_PURPLE

text \<open>A pointer to a root buffer: null, the list head \<open>GC_G(roots)\<close>, or an entry of \<open>GC_G(buf)\<close>.\<close>

datatype rptr = Rnull | Rroots | Rbuf nat

text \<open>A pointer of the list of values to free.\<close>

datatype zfree = Znull | FREE_LIST_END | Free_zval addr

text \<open>The pointer part of \<open>u.buffered\<close>, or \<open>u.next\<close>, which shares its memory.\<close>

datatype gc_addr = Null | Root nat | Next zfree

datatype zdata = Scalar | Array "addr list" | Symbol_table | Object nat

record zval_gc_info =
  z_type :: zdata
  refcount__gc :: uint
  z_color :: gc_color
  z_addr :: gc_addr

record store_object =
  o_valid :: bool
  o_get_gc :: bool
  o_dtor :: bool
  o_dtor_called :: bool
  o_table :: "ptr list"
  o_props :: "addr list option"
  o_refcount :: uint
  o_color :: gc_color
  o_addr :: gc_addr

record gc_root_buffer =
  rb_prev :: rptr
  rb_next :: rptr
  rb_handle :: nat
  rb_pz :: addr

record gc =
  gc_enabled :: bool
  gc_active :: bool
  buf :: "(nat \<Rightarrow> gc_root_buffer) option"
  roots_prev :: rptr
  roots_next :: rptr
  unused :: rptr
  first_unused :: nat
  last_unused :: nat
  zval_to_free :: zfree
  free_list :: zfree
  next_to_free :: zfree
  gc_runs :: uint
  collected :: uint
  zvals :: "addr \<Rightarrow> zval_gc_info option"
  objects :: "nat \<Rightarrow> store_object option"
  object_buckets :: bool

definition GC_ROOT_BUFFER_MAX_ENTRIES :: nat where
  "GC_ROOT_BUFFER_MAX_ENTRIES = 10000"

subsection \<open>Memory accesses\<close>

definition zv_upd :: "addr \<Rightarrow> (zval_gc_info \<Rightarrow> zval_gc_info) \<Rightarrow> gc \<Rightarrow> gc option" where
  "zv_upd a f s = (case zvals s a of None \<Rightarrow> None | Some z \<Rightarrow> Some (s\<lparr>zvals := (zvals s)(a \<mapsto> f z)\<rparr>))"

definition ob_upd :: "nat \<Rightarrow> (store_object \<Rightarrow> store_object) \<Rightarrow> gc \<Rightarrow> gc option" where
  "ob_upd h f s = (case objects s h of None \<Rightarrow> None | Some z \<Rightarrow> Some (s\<lparr>objects := (objects s)(h \<mapsto> f z)\<rparr>))"

definition rb_get :: "nat \<Rightarrow> gc \<Rightarrow> gc_root_buffer option" where
  "rb_get i s = (case buf s of Some b \<Rightarrow> if i < GC_ROOT_BUFFER_MAX_ENTRIES then Some (b i) else None | None \<Rightarrow> None)"

definition rb_upd :: "nat \<Rightarrow> (gc_root_buffer \<Rightarrow> gc_root_buffer) \<Rightarrow> gc \<Rightarrow> gc option" where
  "rb_upd i f s =
     (case buf s of
        Some b \<Rightarrow> if i < GC_ROOT_BUFFER_MAX_ENTRIES then Some (s\<lparr>buf := Some (b(i := f (b i)))\<rparr>) else None
      | None \<Rightarrow> None)"

definition set_next :: "rptr \<Rightarrow> rptr \<Rightarrow> gc \<Rightarrow> gc option" where
  "set_next p x s = (case p of Rnull \<Rightarrow> None | Rroots \<Rightarrow> Some (s\<lparr>roots_next := x\<rparr>) | Rbuf i \<Rightarrow> rb_upd i (\<lambda>b. b\<lparr>rb_next := x\<rparr>) s)"

definition set_prev :: "rptr \<Rightarrow> rptr \<Rightarrow> gc \<Rightarrow> gc option" where
  "set_prev p x s = (case p of Rnull \<Rightarrow> None | Rroots \<Rightarrow> Some (s\<lparr>roots_prev := x\<rparr>) | Rbuf i \<Rightarrow> rb_upd i (\<lambda>b. b\<lparr>rb_prev := x\<rparr>) s)"

subsection \<open>The buffer\<close>

definition gc_globals_ctor_ex :: "gc \<Rightarrow> gc" where
  "gc_globals_ctor_ex s = s\<lparr>gc_enabled := False, gc_active := False, buf := None, roots_next := Rroots, roots_prev := Rroots,
     unused := Rnull, zval_to_free := Znull, free_list := Znull, next_to_free := Znull, gc_runs := 0, collected := 0\<rparr>"

definition root_buffer_dtor :: "gc \<Rightarrow> gc" where
  "root_buffer_dtor s = (if buf s \<noteq> None then s\<lparr>buf := None\<rparr> else s)"

definition gc_reset :: "gc \<Rightarrow> gc" where
  "gc_reset s =
     (let s = s\<lparr>gc_runs := 0, collected := 0, roots_next := Rroots, roots_prev := Rroots, unused := Rnull, first_unused := 0\<rparr> in
      if buf s \<noteq> None then s\<lparr>zval_to_free := Znull\<rparr> else s\<lparr>last_unused := 0\<rparr>)"

text \<open>\<open>b\<close> is the uninitialized memory \<open>malloc\<close> returns.\<close>

definition gc_init :: "(nat \<Rightarrow> gc_root_buffer) \<Rightarrow> gc \<Rightarrow> gc" where
  "gc_init b s =
     (if buf s = None \<and> gc_enabled s then gc_reset (s\<lparr>buf := Some b, last_unused := GC_ROOT_BUFFER_MAX_ENTRIES\<rparr>) else s)"

definition gc_remove_from_buffer :: "nat \<Rightarrow> gc \<Rightarrow> gc option" where
  "gc_remove_from_buffer root s = do {
     b \<leftarrow> rb_get root s;
     s \<leftarrow> set_prev (rb_next b) (rb_prev b) s;
     b \<leftarrow> rb_get root s;
     s \<leftarrow> set_next (rb_prev b) (rb_next b) s;
     s \<leftarrow> rb_upd root (\<lambda>b. b\<lparr>rb_prev := unused s\<rparr>) s;
     Some (s\<lparr>unused := Rbuf root\<rparr>)
   }"

text \<open>
  An entry for a new root; \<open>collect\<close> is the collection that runs when the buffer is full.  The first component is \<open>None\<close> when there is
  no entry to be had.
\<close>

definition new_root :: "(gc \<Rightarrow> gc option) \<Rightarrow> gc \<Rightarrow> (nat option \<times> gc) option" where
  "new_root collect s =
     (case unused s of
        Rbuf i \<Rightarrow> do { b \<leftarrow> rb_get i s; Some (Some i, s\<lparr>unused := rb_prev b\<rparr>) }
      | Rroots \<Rightarrow> None
      | Rnull \<Rightarrow>
          if first_unused s \<noteq> last_unused s then Some (Some (first_unused s), s\<lparr>first_unused := first_unused s + 1\<rparr>)
          else if \<not> gc_enabled s then Some (None, s)
          else do {
            s \<leftarrow> collect s;
            (case unused s of
               Rbuf i \<Rightarrow> do { b \<leftarrow> rb_get i s; Some (Some i, s\<lparr>unused := rb_prev b\<rparr>) }
             | _ \<Rightarrow> Some (None, s))
          })"

definition link_root :: "nat \<Rightarrow> gc \<Rightarrow> gc option" where
  "link_root i s = do {
     s \<leftarrow> rb_upd i (\<lambda>b. b\<lparr>rb_next := roots_next s, rb_prev := Rroots\<rparr>) s;
     s \<leftarrow> set_prev (roots_next s) (Rbuf i) s;
     Some (s\<lparr>roots_next := Rbuf i\<rparr>)
   }"

text \<open>The count of the value itself is raised while the collection runs.\<close>

definition protected :: "addr \<Rightarrow> (gc \<Rightarrow> gc option) \<Rightarrow> gc \<Rightarrow> gc option" where
  "protected a collect s = do {
     s \<leftarrow> zv_upd a (\<lambda>z. z\<lparr>refcount__gc := refcount__gc z + 1\<rparr>) s;
     s \<leftarrow> collect s;
     zv_upd a (\<lambda>z. z\<lparr>refcount__gc := refcount__gc z - 1\<rparr>) s
   }"

definition gc_zobj_possible_root :: "(gc \<Rightarrow> gc option) \<Rightarrow> addr \<Rightarrow> nat \<Rightarrow> gc \<Rightarrow> gc option" where
  "gc_zobj_possible_root collect a h s =
     (if \<not> object_buckets s then Some s
      else do {
        obj \<leftarrow> objects s h;
        if \<not> o_get_gc obj then Some s
        else if o_color obj \<noteq> GC_PURPLE \<and> o_addr obj = Null then do {
          (newRoot, s) \<leftarrow> new_root (protected a collect) s;
          (case newRoot of
             None \<Rightarrow> Some s
           | Some i \<Rightarrow> do {
               s \<leftarrow> ob_upd h (\<lambda>ob. ob\<lparr>o_color := GC_PURPLE\<rparr>) s;
               s \<leftarrow> link_root i s;
               s \<leftarrow> ob_upd h (\<lambda>ob. ob\<lparr>o_addr := Root i\<rparr>) s;
               rb_upd i (\<lambda>b. b\<lparr>rb_handle := h\<rparr>) s
             })
        }
        else Some s
      })"

text \<open>A value that the running collection is going to delete: its \<open>u.buffered\<close> is a link of the list to free.\<close>

definition being_freed :: "zval_gc_info \<Rightarrow> gc \<Rightarrow> bool" where
  "being_freed z s \<longleftrightarrow> free_list s \<noteq> Znull \<and> z_color z = GC_BLACK \<and> (case z_addr z of Next _ \<Rightarrow> True | _ \<Rightarrow> False)"

definition gc_zval_possible_root :: "(gc \<Rightarrow> gc option) \<Rightarrow> addr \<Rightarrow> gc \<Rightarrow> gc option" where
  "gc_zval_possible_root collect a s = do {
     z \<leftarrow> zvals s a;
     if being_freed z s then Some s
     else (case z_type z of
         Object h \<Rightarrow>
           if object_buckets s then do { obj \<leftarrow> objects s h; if o_valid obj then gc_zobj_possible_root collect a h s else Some s }
           else Some s
       | _ \<Rightarrow>
           if z_color z \<noteq> GC_PURPLE \<and> z_addr z = Null then do {
             (newRoot, s) \<leftarrow> new_root (protected a collect) s;
             (case newRoot of
                None \<Rightarrow> Some s
              | Some i \<Rightarrow> do {
                  s \<leftarrow> zv_upd a (\<lambda>z. z\<lparr>z_color := GC_PURPLE\<rparr>) s;
                  s \<leftarrow> link_root i s;
                  s \<leftarrow> zv_upd a (\<lambda>z. z\<lparr>z_addr := Root i\<rparr>) s;
                  rb_upd i (\<lambda>b. b\<lparr>rb_handle := 0, rb_pz := a\<rparr>) s
                })
           }
           else Some s)
   }"

definition gc_zval_check_possible_root :: "(gc \<Rightarrow> gc option) \<Rightarrow> addr \<Rightarrow> gc \<Rightarrow> gc option" where
  "gc_zval_check_possible_root collect a s = do {
     z \<leftarrow> zvals s a;
     if z_type z = Scalar then Some s else gc_zval_possible_root collect a s
   }"

text \<open>A null address is below the buffer, like the address of a value; there is no entry to remove at it.\<close>

definition gc_remove_zval_from_buffer :: "addr \<Rightarrow> gc \<Rightarrow> gc option" where
  "gc_remove_zval_from_buffer a s = do {
     z \<leftarrow> zvals s a;
     (case z_addr z of
        Root i \<Rightarrow> do {
          s \<leftarrow> gc_remove_from_buffer i s;
          zv_upd a (\<lambda>z. z\<lparr>z_color := GC_BLACK, z_addr := Null\<rparr>) s
        }
      | Next q \<Rightarrow>
          if free_list s \<noteq> Znull \<and> z_color z = GC_BLACK then
            Some (if next_to_free s = Free_zval a then s\<lparr>next_to_free := q\<rparr> else s)
          else None
      | Null \<Rightarrow>
          if free_list s \<noteq> Znull \<and> z_color z = GC_BLACK then
            Some (if next_to_free s = Free_zval a then s\<lparr>next_to_free := Znull\<rparr> else s)
          else None)
   }"

definition GC_REMOVE_ZVAL_FROM_BUFFER :: "addr \<Rightarrow> gc \<Rightarrow> gc option" where
  "GC_REMOVE_ZVAL_FROM_BUFFER a s = do { z \<leftarrow> zvals s a; if z_addr z \<noteq> Null then gc_remove_zval_from_buffer a s else Some s }"

definition GC_REMOVE_ZOBJ_FROM_BUFFER :: "nat \<Rightarrow> gc \<Rightarrow> gc option" where
  "GC_REMOVE_ZOBJ_FROM_BUFFER h s = do {
     obj \<leftarrow> objects s h;
     if gc_active s then Some s
     else (case o_addr obj of
         Root i \<Rightarrow> do { s \<leftarrow> gc_remove_from_buffer i s; ob_upd h (\<lambda>ob. ob\<lparr>o_color := GC_BLACK, o_addr := Null\<rparr>) s }
       | Null \<Rightarrow> Some s
       | Next _ \<Rightarrow> None)
   }"

subsection \<open>What a value refers to\<close>

definition table_refs :: "ptr list \<Rightarrow> addr list" where
  "table_refs tb = List.map_filter id tb"

definition gc_refs :: "store_object \<Rightarrow> addr list" where
  "gc_refs obj =
     (if o_valid obj \<and> o_get_gc obj then table_refs (o_table obj) @ (case o_props obj of None \<Rightarrow> [] | Some ps \<Rightarrow> ps) else [])"

text \<open>The reference counts of zvals of the global symbol table are left alone.\<close>

definition add_ref :: "uint \<Rightarrow> addr \<Rightarrow> gc \<Rightarrow> gc option" where
  "add_ref d a s = do {
     z \<leftarrow> zvals s a;
     if z_type z = Symbol_table then Some s else zv_upd a (\<lambda>z. z\<lparr>refcount__gc := refcount__gc z + d\<rparr>) s
   }"

definition set_zcolor :: "gc_color \<Rightarrow> addr \<Rightarrow> gc \<Rightarrow> gc option" where
  "set_zcolor c a = zv_upd a (\<lambda>z. z\<lparr>z_color := c\<rparr>)"

definition set_ocolor :: "gc_color \<Rightarrow> nat \<Rightarrow> gc \<Rightarrow> gc option" where
  "set_ocolor c h = ob_upd h (\<lambda>ob. ob\<lparr>o_color := c\<rparr>)"

definition obj_ref :: "uint \<Rightarrow> nat \<Rightarrow> gc \<Rightarrow> gc option" where
  "obj_ref d h = ob_upd h (\<lambda>ob. ob\<lparr>o_refcount := o_refcount ob + d\<rparr>)"

subsection \<open>Marking\<close>

text \<open>The object part, shared by \<open>zval_mark_grey\<close> and \<open>zobj_mark_grey\<close>.\<close>

definition zobj_grey_step :: "nat \<Rightarrow> gc \<Rightarrow> (addr list \<times> gc) option" where
  "zobj_grey_step h s = do {
     obj \<leftarrow> objects s h;
     if o_color obj \<noteq> GC_GREY then do { s \<leftarrow> set_ocolor GC_GREY h s; Some (gc_refs obj, s) } else Some ([], s)
   }"

definition zval_grey_step :: "addr \<Rightarrow> gc \<Rightarrow> (addr list \<times> gc) option" where
  "zval_grey_step a s = do {
     z \<leftarrow> zvals s a;
     if z_color z \<noteq> GC_GREY then do {
       s \<leftarrow> set_zcolor GC_GREY a s;
       (case z_type z of
          Object h \<Rightarrow> if object_buckets s then do { s \<leftarrow> obj_ref (- 1) h s; zobj_grey_step h s } else Some ([], s)
        | Symbol_table \<Rightarrow> do { s \<leftarrow> set_zcolor GC_BLACK a s; Some ([], s) }
        | Array xs \<Rightarrow> Some (xs, s)
        | Scalar \<Rightarrow> Some ([], s))
     }
     else Some ([], s)
   }"

partial_function (option) mark_grey_each :: "addr list \<Rightarrow> gc \<Rightarrow> gc option" where [code]:
  "mark_grey_each ps s = (case ps of
     [] \<Rightarrow> Some s
   | a # ps' \<Rightarrow> do {
       s \<leftarrow> add_ref (- 1) a s;
       (kids, s) \<leftarrow> zval_grey_step a s;
       s \<leftarrow> mark_grey_each kids s;
       mark_grey_each ps' s
     })"

definition zval_mark_grey :: "addr \<Rightarrow> gc \<Rightarrow> gc option" where
  "zval_mark_grey a s = do { (kids, s) \<leftarrow> zval_grey_step a s; mark_grey_each kids s }"

definition zobj_mark_grey :: "nat \<Rightarrow> gc \<Rightarrow> gc option" where
  "zobj_mark_grey h s = do { (kids, s) \<leftarrow> zobj_grey_step h s; mark_grey_each kids s }"

text \<open>One entry of the buffer.\<close>

definition mark_root :: "nat \<Rightarrow> gc \<Rightarrow> gc option" where
  "mark_root i s = do {
     b \<leftarrow> rb_get i s;
     if rb_handle b \<noteq> 0 then
       if object_buckets s then do {
         obj \<leftarrow> objects s (rb_handle b);
         if o_color obj = GC_PURPLE then zobj_mark_grey (rb_handle b) s
         else do { s \<leftarrow> ob_upd (rb_handle b) (\<lambda>ob. ob\<lparr>o_addr := Null\<rparr>) s; gc_remove_from_buffer i s }
       }
       else Some s
     else do {
       z \<leftarrow> zvals s (rb_pz b);
       if z_color z = GC_PURPLE then zval_mark_grey (rb_pz b) s
       else do { s \<leftarrow> zv_upd (rb_pz b) (\<lambda>z. z\<lparr>z_addr := Null\<rparr>) s; gc_remove_from_buffer i s }
     }
   }"

partial_function (option) roots_loop :: "(nat \<Rightarrow> gc \<Rightarrow> gc option) \<Rightarrow> rptr \<Rightarrow> gc \<Rightarrow> gc option" where [code]:
  "roots_loop f current s = (case current of
     Rroots \<Rightarrow> Some s
   | Rnull \<Rightarrow> None
   | Rbuf i \<Rightarrow> do { s \<leftarrow> f i s; b \<leftarrow> rb_get i s; roots_loop f (rb_next b) s })"

definition gc_mark_roots :: "gc \<Rightarrow> gc option" where
  "gc_mark_roots s = roots_loop mark_root (roots_next s) s"

subsection \<open>Scanning\<close>

definition zobj_black_step :: "nat \<Rightarrow> gc \<Rightarrow> (addr list \<times> gc) option" where
  "zobj_black_step h s = do { obj \<leftarrow> objects s h; s \<leftarrow> set_ocolor GC_BLACK h s; Some (gc_refs obj, s) }"

definition zval_black_step :: "addr \<Rightarrow> gc \<Rightarrow> (addr list \<times> gc) option" where
  "zval_black_step a s = do {
     z \<leftarrow> zvals s a;
     s \<leftarrow> set_zcolor GC_BLACK a s;
     (case z_type z of
        Object h \<Rightarrow>
          if object_buckets s then do {
            s \<leftarrow> obj_ref 1 h s;
            obj \<leftarrow> objects s h;
            if o_color obj \<noteq> GC_BLACK then zobj_black_step h s else Some ([], s)
          }
          else Some ([], s)
      | Array xs \<Rightarrow> Some (xs, s)
      | _ \<Rightarrow> Some ([], s))
   }"

partial_function (option) scan_black_each :: "addr list \<Rightarrow> gc \<Rightarrow> gc option" where [code]:
  "scan_black_each ps s = (case ps of
     [] \<Rightarrow> Some s
   | a # ps' \<Rightarrow> do {
       s \<leftarrow> add_ref 1 a s;
       z \<leftarrow> zvals s a;
       s \<leftarrow> (if z_color z \<noteq> GC_BLACK then do { (kids, s) \<leftarrow> zval_black_step a s; scan_black_each kids s } else Some s);
       scan_black_each ps' s
     })"

definition zval_scan_black :: "addr \<Rightarrow> gc \<Rightarrow> gc option" where
  "zval_scan_black a s = do { (kids, s) \<leftarrow> zval_black_step a s; scan_black_each kids s }"

definition zobj_scan_black :: "nat \<Rightarrow> gc \<Rightarrow> gc option" where
  "zobj_scan_black h s = do { (kids, s) \<leftarrow> zobj_black_step h s; scan_black_each kids s }"

definition zobj_scan_step :: "nat \<Rightarrow> gc \<Rightarrow> (addr list \<times> gc) option" where
  "zobj_scan_step h s = do {
     obj \<leftarrow> objects s h;
     if o_color obj = GC_GREY then
       if o_refcount obj > 0 then do { s \<leftarrow> zobj_scan_black h s; Some ([], s) }
       else do { s \<leftarrow> set_ocolor GC_WHITE h s; Some (gc_refs obj, s) }
     else Some ([], s)
   }"

definition zval_scan_step :: "addr \<Rightarrow> gc \<Rightarrow> (addr list \<times> gc) option" where
  "zval_scan_step a s = do {
     z \<leftarrow> zvals s a;
     if z_color z = GC_GREY then
       if refcount__gc z > 0 then do { s \<leftarrow> zval_scan_black a s; Some ([], s) }
       else do {
         s \<leftarrow> set_zcolor GC_WHITE a s;
         (case z_type z of
            Object h \<Rightarrow> if object_buckets s then zobj_scan_step h s else Some ([], s)
          | Symbol_table \<Rightarrow> do { s \<leftarrow> set_zcolor GC_BLACK a s; Some ([], s) }
          | Array xs \<Rightarrow> Some (xs, s)
          | Scalar \<Rightarrow> Some ([], s))
       }
     else Some ([], s)
   }"

partial_function (option) scan_each :: "addr list \<Rightarrow> gc \<Rightarrow> gc option" where [code]:
  "scan_each ps s = (case ps of
     [] \<Rightarrow> Some s
   | a # ps' \<Rightarrow> do { (kids, s) \<leftarrow> zval_scan_step a s; s \<leftarrow> scan_each kids s; scan_each ps' s })"

definition zval_scan :: "addr \<Rightarrow> gc \<Rightarrow> gc option" where
  "zval_scan a s = do { (kids, s) \<leftarrow> zval_scan_step a s; scan_each kids s }"

definition zobj_scan :: "nat \<Rightarrow> gc \<Rightarrow> gc option" where
  "zobj_scan h s = (if object_buckets s then do { (kids, s) \<leftarrow> zobj_scan_step h s; scan_each kids s } else Some s)"

definition scan_root :: "nat \<Rightarrow> gc \<Rightarrow> gc option" where
  "scan_root i s = do { b \<leftarrow> rb_get i s; if rb_handle b \<noteq> 0 then zobj_scan (rb_handle b) s else zval_scan (rb_pz b) s }"

definition gc_scan_roots :: "gc \<Rightarrow> gc option" where
  "gc_scan_roots s = roots_loop scan_root (roots_next s) s"

subsection \<open>Collecting\<close>

text \<open>The count is restored and the value put into the list to free.\<close>

definition put_free :: "addr \<Rightarrow> gc \<Rightarrow> gc option" where
  "put_free a s = do {
     s \<leftarrow> zv_upd a (\<lambda>z. z\<lparr>refcount__gc := refcount__gc z + 1, z_color := GC_BLACK, z_addr := Next (zval_to_free s)\<rparr>) s;
     Some (s\<lparr>zval_to_free := Free_zval a\<rparr>)
   }"

definition props_of :: "store_object \<Rightarrow> addr list option" where
  "props_of obj = (if o_valid obj \<and> o_get_gc obj then o_props obj else Some [])"

definition zobj_collect_step :: "nat \<Rightarrow> gc \<Rightarrow> (store_object option \<times> gc) option" where
  "zobj_collect_step h s = do {
     obj \<leftarrow> objects s h;
     if o_color obj = GC_WHITE \<and> o_addr obj = Null then do { s \<leftarrow> set_ocolor GC_PURPLE h s; Some (Some obj, s) }
     else Some (None, s)
   }"

text \<open>
  Whether the value is white, the references visited before it is put into the list to free, and those visited after.  The elements of
  the symbol table are not part of the model: such a value is never white.
\<close>

definition zval_collect_step :: "addr \<Rightarrow> gc \<Rightarrow> (bool \<times> addr list \<times> addr list \<times> gc) option" where
  "zval_collect_step a s = do {
     z \<leftarrow> zvals s a;
     if z_color z = GC_WHITE \<and> z_addr z = Null then do {
       s \<leftarrow> set_zcolor GC_BLACK a s;
       (case z_type z of
          Object h \<Rightarrow>
            if object_buckets s then do {
              (white, s) \<leftarrow> zobj_collect_step h s;
              (case white of
                 None \<Rightarrow> Some (True, [], [], s)
               | Some obj \<Rightarrow>
                   (case props_of obj of
                      None \<Rightarrow> Some (True, [], gc_refs obj, s)
                    | Some ps \<Rightarrow> Some (True, if o_valid obj \<and> o_get_gc obj then table_refs (o_table obj) else [], ps, s)))
            }
            else Some (True, [], [], s)
        | Array xs \<Rightarrow> Some (True, [], xs, s)
        | Scalar \<Rightarrow> Some (True, [], [], s)
        | Symbol_table \<Rightarrow> None)
     }
     else Some (False, [], [], s)
   }"

partial_function (option) collect_white_each :: "addr list \<Rightarrow> gc \<Rightarrow> gc option" where [code]:
  "collect_white_each ps s = (case ps of
     [] \<Rightarrow> Some s
   | a # ps' \<Rightarrow> do {
       s \<leftarrow> add_ref 1 a s;
       (white, before, after, s) \<leftarrow> zval_collect_step a s;
       s \<leftarrow> collect_white_each before s;
       s \<leftarrow> (if white then put_free a s else Some s);
       s \<leftarrow> collect_white_each after s;
       collect_white_each ps' s
     })"

definition zval_collect_white :: "addr \<Rightarrow> gc \<Rightarrow> gc option" where
  "zval_collect_white a s = do {
     (white, before, after, s) \<leftarrow> zval_collect_step a s;
     s \<leftarrow> collect_white_each before s;
     s \<leftarrow> (if white then put_free a s else Some s);
     collect_white_each after s
   }"

definition zobj_collect_white :: "nat \<Rightarrow> gc \<Rightarrow> gc option" where
  "zobj_collect_white h s = do {
     (white, s) \<leftarrow> zobj_collect_step h s;
     (case white of None \<Rightarrow> Some s | Some obj \<Rightarrow> collect_white_each (gc_refs obj) s)
   }"

definition collect_root :: "nat \<Rightarrow> gc \<Rightarrow> gc option" where
  "collect_root i s = do {
     b \<leftarrow> rb_get i s;
     s \<leftarrow>
       (if rb_handle b \<noteq> 0 then
          if object_buckets s then do {
            s \<leftarrow> ob_upd (rb_handle b) (\<lambda>ob. ob\<lparr>o_addr := Null\<rparr>) s;
            zobj_collect_white (rb_handle b) s
          }
          else Some s
        else do {
          s \<leftarrow> zv_upd (rb_pz b) (\<lambda>z. z\<lparr>z_addr := Null\<rparr>) s;
          zval_collect_white (rb_pz b) s
        });
     gc_remove_from_buffer i s
   }"

definition gc_collect_roots :: "gc \<Rightarrow> gc option" where
  "gc_collect_roots s = roots_loop collect_root (roots_next s) s"

subsection \<open>The collection\<close>

text \<open>The link of a value of the list to free.\<close>

definition next_link :: "addr \<Rightarrow> gc \<Rightarrow> zfree option" where
  "next_link a s = do { z \<leftarrow> zvals s a; (case z_addr z of Next q \<Rightarrow> Some q | _ \<Rightarrow> None) }"

text \<open>
  The calls that run other parts of the engine and, through destructors, PHP code are parameters: the destructor of an object,
  \<open>zend_objects_store_del_ref_by_handle_ex\<close>, \<open>zend_hash_destroy\<close> with \<open>FREE_HASHTABLE\<close>, and \<open>zval_dtor\<close>.
\<close>

record gc_calls =
  obj_dtor :: "nat \<Rightarrow> gc \<Rightarrow> gc option"
  del_ref_by_handle :: "nat \<Rightarrow> gc \<Rightarrow> gc option"
  hash_destroy :: "zdata \<Rightarrow> gc \<Rightarrow> gc option"
  zval_dtor :: "addr \<Rightarrow> gc \<Rightarrow> gc option"

definition call_dtor :: "gc_calls \<Rightarrow> addr \<Rightarrow> gc \<Rightarrow> gc option" where
  "call_dtor cs a s = do {
     z \<leftarrow> zvals s a;
     (case z_type z of
        Object h \<Rightarrow>
          if object_buckets s then do {
            obj \<leftarrow> objects s h;
            if o_valid obj \<and> o_refcount obj = 0 \<and> o_dtor obj \<and> \<not> o_dtor_called obj then do {
              s \<leftarrow> ob_upd h (\<lambda>ob. ob\<lparr>o_dtor_called := True, o_refcount := o_refcount ob + 1\<rparr>) s;
              s \<leftarrow> obj_dtor cs h s;
              obj_ref (- 1) h s
            }
            else Some s
          }
          else Some s
      | _ \<Rightarrow> Some s)
   }"

partial_function (option) dtor_loop :: "gc_calls \<Rightarrow> zfree \<Rightarrow> uint \<Rightarrow> gc \<Rightarrow> (uint \<times> gc) option" where [code]:
  "dtor_loop cs p n s = (case p of
     FREE_LIST_END \<Rightarrow> Some (n, s)
   | Znull \<Rightarrow> None
   | Free_zval a \<Rightarrow> do { s \<leftarrow> call_dtor cs a s; q \<leftarrow> next_link a s; dtor_loop cs q (n + 1) s })"

definition set_null :: "addr \<Rightarrow> gc \<Rightarrow> gc option" where
  "set_null a = zv_upd a (\<lambda>z. z\<lparr>z_type := Scalar\<rparr>)"

definition destroy_zval :: "gc_calls \<Rightarrow> addr \<Rightarrow> gc \<Rightarrow> gc option" where
  "destroy_zval cs a s = do {
     z \<leftarrow> zvals s a;
     (case z_type z of
        Object h \<Rightarrow>
          if object_buckets s then do {
            obj \<leftarrow> objects s h;
            if o_valid obj \<and> o_refcount obj = 0 then do {
              s \<leftarrow> ob_upd h (\<lambda>ob. ob\<lparr>o_refcount := 1\<rparr>) s;
              s \<leftarrow> set_null a s;
              del_ref_by_handle cs h s
            }
            else Some s
          }
          else Some s
      | Scalar \<Rightarrow> do { s \<leftarrow> zval_dtor cs a s; set_null a s }
      | t \<Rightarrow> do { s \<leftarrow> set_null a s; hash_destroy cs t s })
   }"

partial_function (option) gc_destroy_loop :: "gc_calls \<Rightarrow> zfree \<Rightarrow> gc \<Rightarrow> gc option" where [code]:
  "gc_destroy_loop cs p s = (case p of
     FREE_LIST_END \<Rightarrow> Some s
   | Znull \<Rightarrow> None
   | Free_zval a \<Rightarrow> do {
       q \<leftarrow> next_link a s;
       s \<leftarrow> destroy_zval cs a (s\<lparr>next_to_free := q\<rparr>);
       gc_destroy_loop cs (next_to_free s) s
     })"

partial_function (option) gc_free_loop :: "zfree \<Rightarrow> gc \<Rightarrow> gc option" where [code]:
  "gc_free_loop p s = (case p of
     FREE_LIST_END \<Rightarrow> Some s
   | Znull \<Rightarrow> None
   | Free_zval a \<Rightarrow> do { q \<leftarrow> next_link a s; gc_free_loop q (s\<lparr>zvals := (zvals s)(a := None)\<rparr>) })"

definition gc_find_garbage :: "gc \<Rightarrow> gc option" where
  "gc_find_garbage s = do {
     s \<leftarrow> gc_mark_roots (s\<lparr>gc_runs := gc_runs s + 1, zval_to_free := FREE_LIST_END, gc_active := True\<rparr>);
     s \<leftarrow> gc_scan_roots s;
     gc_collect_roots s
   }"

definition gc_collect_cycles :: "gc_calls \<Rightarrow> gc \<Rightarrow> (uint \<times> gc) option" where
  "gc_collect_cycles cs s =
     (if roots_next s = Rroots \<or> gc_active s then Some (0, s)
      else do {
        s \<leftarrow> gc_find_garbage s;
        let orig_free_list = free_list s;
        let orig_next_to_free = next_to_free s;
        let p = zval_to_free s;
        let s = s\<lparr>free_list := p, zval_to_free := Znull, gc_active := False\<rparr>;
        (n, s) \<leftarrow> dtor_loop cs p 0 s;
        s \<leftarrow> gc_destroy_loop cs (free_list s) s;
        s \<leftarrow> gc_free_loop (free_list s) s;
        Some (n, s\<lparr>collected := collected s + n, free_list := orig_free_list, next_to_free := orig_next_to_free\<rparr>)
      })"

end
