(* ===== verification/Gc_Graph.thy ===== *)
theory Gc_Graph
  imports Zend_Gc
begin

text \<open>
  The three phases of the collector on a graph of counted nodes, each as a relation that follows the recursion of the code: a node that
  an edge leads to has its count changed and, when it is new to the phase, is painted and its own edges are followed.  The lemmas give
  the effect of a phase in closed form.
\<close>

record 'n gview =
  gcol :: "'n \<Rightarrow> gc_color"
  gcnt :: "'n \<Rightarrow> uint"

definition paint :: "'n \<Rightarrow> gc_color \<Rightarrow> 'n gview \<Rightarrow> 'n gview" where
  "paint n c v = v\<lparr>gcol := (gcol v)(n := c)\<rparr>"

definition bump :: "uint \<Rightarrow> 'n \<Rightarrow> 'n gview \<Rightarrow> 'n gview" where
  "bump d n v = v\<lparr>gcnt := (gcnt v)(n := gcnt v n + d)\<rparr>"

lemma view_simps [simp]:
  "gcol (paint n c v) = (gcol v)(n := c)" "gcnt (paint n c v) = gcnt v"
  "gcol (bump d n v) = gcol v" "gcnt (bump d n v) = (gcnt v)(n := gcnt v n + d)"
  by (simp_all add: paint_def bump_def)

definition edge :: "('n \<Rightarrow> 'n list) \<Rightarrow> ('n \<times> 'n) set" where
  "edge succs = {(m, n). n \<in> set (succs m)}"

definition reach :: "('n \<Rightarrow> 'n list) \<Rightarrow> 'n set \<Rightarrow> 'n set" where
  "reach succs A = (edge succs)\<^sup>* `` A"

text \<open>The number of edges from a set of nodes to a node.\<close>

definition in_edges :: "('n \<Rightarrow> 'n list) \<Rightarrow> 'n set \<Rightarrow> 'n \<Rightarrow> nat" where
  "in_edges succs D n = (\<Sum>m\<in>D. count_list (succs m) n)"

lemma reach_refl: "n \<in> A \<Longrightarrow> n \<in> reach succs A"
  by (auto simp: reach_def)

lemma reach_step: "m \<in> reach succs A \<Longrightarrow> n \<in> set (succs m) \<Longrightarrow> n \<in> reach succs A"
  by (auto simp: reach_def edge_def intro: rtrancl_into_rtrancl)

lemma reach_mono: "A \<subseteq> B \<Longrightarrow> reach succs A \<subseteq> reach succs B"
  by (auto simp: reach_def)

lemma reach_trans: "A \<subseteq> reach succs B \<Longrightarrow> reach succs A \<subseteq> reach succs B"
  by (auto simp: reach_def intro: rtrancl_trans)

lemma reach_closed: "(\<And>m n. m \<in> C \<Longrightarrow> n \<in> set (succs m) \<Longrightarrow> n \<in> C) \<Longrightarrow> A \<subseteq> C \<Longrightarrow> reach succs A \<subseteq> C"
proof
  fix x
  assume cl: "\<And>m n. m \<in> C \<Longrightarrow> n \<in> set (succs m) \<Longrightarrow> n \<in> C" and "A \<subseteq> C" and "x \<in> reach succs A"
  then obtain a where "a \<in> C" and "(a, x) \<in> (edge succs)\<^sup>*" by (auto simp: reach_def)
  from this(2,1) show "x \<in> C" by induction (auto simp: edge_def intro: cl)
qed

lemma in_edges_union: "finite D \<Longrightarrow> finite E \<Longrightarrow> D \<inter> E = {} \<Longrightarrow> in_edges succs (D \<union> E) n = in_edges succs D n + in_edges succs E n"
  by (simp add: in_edges_def sum.union_disjoint)

lemma in_edges_insert: "finite D \<Longrightarrow> m \<notin> D \<Longrightarrow> in_edges succs (insert m D) n = count_list (succs m) n + in_edges succs D n"
  by (simp add: in_edges_def)

lemma in_edges_pos: "0 < in_edges succs D n \<Longrightarrow> \<exists>m\<in>D. n \<in> set (succs m)"
proof (rule ccontr)
  assume "0 < in_edges succs D n" and "\<not> (\<exists>m\<in>D. n \<in> set (succs m))"
  then show False by (simp add: in_edges_def)
qed

lemma in_edges_mono: "finite E \<Longrightarrow> D \<subseteq> E \<Longrightarrow> in_edges succs D n \<le> in_edges succs E n"
  unfolding in_edges_def by (rule sum_mono2) auto

lemma in_edges_empty [simp]: "in_edges succs {} n = 0"
  by (simp add: in_edges_def)

subsection \<open>Sweeps\<close>

text \<open>
  Marking is a sweep that paints grey and takes one off the count for every edge it follows; \<open>zval_scan_black\<close> is one that paints black
  and adds one.
\<close>

inductive gsweep :: "gc_color \<Rightarrow> uint \<Rightarrow> ('n \<Rightarrow> 'n list) \<Rightarrow> 'n list \<Rightarrow> 'n gview \<Rightarrow> 'n gview \<Rightarrow> bool" for c d succs where
  sweep_nil: "gsweep c d succs [] v v"
| sweep_seen: "gcol v n = c \<Longrightarrow> gsweep c d succs ns (bump d n v) v' \<Longrightarrow> gsweep c d succs (n # ns) v v'"
| sweep_new: "gcol v n \<noteq> c \<Longrightarrow> gsweep c d succs (succs n) (paint n c (bump d n v)) v1 \<Longrightarrow> gsweep c d succs ns v1 v' \<Longrightarrow>
    gsweep c d succs (n # ns) v v'"

text \<open>A sweep paints a set \<open>D\<close> and counts every edge from it and every reference of \<open>ns\<close>.\<close>

definition swept :: "gc_color \<Rightarrow> uint \<Rightarrow> ('n \<Rightarrow> 'n list) \<Rightarrow> 'n list \<Rightarrow> 'n gview \<Rightarrow> 'n gview \<Rightarrow> 'n set \<Rightarrow> bool" where
  "swept c d succs ns v v' D \<longleftrightarrow> finite D \<and> D \<subseteq> reach succs (set ns) \<and> (\<forall>n\<in>D. gcol v n \<noteq> c) \<and>
     (\<forall>n\<in>D. gcol v' n = c) \<and> (\<forall>n. n \<notin> D \<longrightarrow> gcol v' n = gcol v n) \<and>
     (\<forall>n. gcnt v' n = gcnt v n + d * of_nat (count_list ns n + in_edges succs D n)) \<and>
     (\<forall>n\<in>set ns. gcol v' n = c) \<and> (\<forall>m\<in>D. \<forall>n\<in>set (succs m). gcol v' n = c)"

lemma gsweep_swept: "gsweep c d succs ns v v' \<Longrightarrow> \<exists>D. swept c d succs ns v v' D"
proof (induction rule: gsweep.induct)
  case (sweep_nil v)
  then show ?case by (intro exI [of _ "{}"]) (simp add: swept_def)
next
  case (sweep_seen v n ns v')
  then obtain D where D: "swept c d succs ns (bump d n v) v' D" by blast
  then have "swept c d succs (n # ns) v v' D"
    using sweep_seen(1) reach_mono [of "set ns" "set (n # ns)" succs] by (auto simp: swept_def algebra_simps)
  then show ?case ..
next
  case (sweep_new v n v1 ns v')
  then obtain D E where D: "swept c d succs (succs n) (paint n c (bump d n v)) v1 D" and E: "swept c d succs ns v1 v' E" by blast
  have "n \<notin> D" using D by (auto simp: swept_def)
  moreover from this have "gcol v1 n = c" using D by (simp add: swept_def)
  ultimately have disj: "n \<notin> D" "n \<notin> E" "D \<inter> E = {}" using D E by (auto simp: swept_def)
  have "D \<subseteq> reach succs (set (n # ns))"
    using D reach_trans [of "set (succs n)" succs "set (n # ns)"] reach_step [of n succs "set (n # ns)"]
    by (auto simp: swept_def intro: reach_refl)
  moreover have "E \<subseteq> reach succs (set (n # ns))" using E reach_mono [of "set ns" "set (n # ns)" succs] by (auto simp: swept_def)
  moreover have "gcol v' m = c" if "m \<in> set (succs n) \<or> (\<exists>k\<in>D. m \<in> set (succs k))" for m
    using that D E by (cases "m \<in> E") (auto simp: swept_def)
  ultimately have "swept c d succs (n # ns) v v' (insert n D \<union> E)"
    using D E disj sweep_new(1)
    by (auto simp: swept_def in_edges_union in_edges_insert algebra_simps intro!: reach_refl)
  then show ?case by blast
qed

subsection \<open>Marking from the roots\<close>

text \<open>Roots that are not purple any more when their turn comes are dropped; \<open>ks\<close> are those kept.\<close>

inductive gmark_roots :: "('n \<Rightarrow> 'n list) \<Rightarrow> 'n list \<Rightarrow> 'n gview \<Rightarrow> 'n list \<Rightarrow> 'n gview \<Rightarrow> bool" for succs where
  roots_nil: "gmark_roots succs [] v [] v"
| roots_drop: "gcol v r \<noteq> GC_PURPLE \<Longrightarrow> gmark_roots succs rs v ks v' \<Longrightarrow> gmark_roots succs (r # rs) v ks v'"
| roots_mark: "gcol v r = GC_PURPLE \<Longrightarrow> gsweep GC_GREY (- 1) succs (succs r) (paint r GC_GREY v) v1 \<Longrightarrow>
    gmark_roots succs rs v1 ks v' \<Longrightarrow> gmark_roots succs (r # rs) v (r # ks) v'"

definition marked :: "('n \<Rightarrow> 'n list) \<Rightarrow> 'n list \<Rightarrow> 'n gview \<Rightarrow> 'n list \<Rightarrow> 'n gview \<Rightarrow> 'n set \<Rightarrow> bool" where
  "marked succs rs v ks v' D \<longleftrightarrow> finite D \<and> D \<subseteq> reach succs (set ks) \<and> set ks \<subseteq> D \<and> (\<forall>n\<in>D. gcol v n \<noteq> GC_GREY) \<and>
     (\<forall>n\<in>D. gcol v' n = GC_GREY) \<and> (\<forall>n. n \<notin> D \<longrightarrow> gcol v' n = gcol v n) \<and>
     (\<forall>n. gcnt v' n = gcnt v n - of_nat (in_edges succs D n)) \<and>
     (\<forall>r\<in>set rs. gcol v' r \<noteq> GC_PURPLE) \<and> (\<forall>m\<in>D. \<forall>n\<in>set (succs m). gcol v' n = GC_GREY)"

lemma gmark_roots_marked: "gmark_roots succs rs v ks v' \<Longrightarrow> \<exists>D. marked succs rs v ks v' D"
proof (induction rule: gmark_roots.induct)
  case (roots_nil v)
  then show ?case by (intro exI [of _ "{}"]) (simp add: marked_def)
next
  case (roots_drop v r rs ks v')
  then obtain D where "marked succs rs v ks v' D" by blast
  then have "marked succs (r # rs) v ks v' D" using roots_drop(1) by (cases "r \<in> D") (auto simp: marked_def)
  then show ?case ..
next
  case (roots_mark v r v1 rs ks v')
  obtain D where D: "swept GC_GREY (- 1) succs (succs r) (paint r GC_GREY v) v1 D" using gsweep_swept roots_mark(2) by blast
  obtain E where E: "marked succs rs v1 ks v' E" using roots_mark by blast
  have "r \<notin> D" using D by (auto simp: swept_def)
  moreover from this have "gcol v1 r = GC_GREY" using D by (simp add: swept_def)
  ultimately have disj: "r \<notin> D" "r \<notin> E" "D \<inter> E = {}" using D E by (auto simp: swept_def marked_def)
  have grey: "gcol v' n = GC_GREY" if "gcol v1 n = GC_GREY" for n using that E by (cases "n \<in> E") (auto simp: marked_def)
  have "D \<subseteq> reach succs (set (r # ks))"
    using D reach_trans [of "set (succs r)" succs "set (r # ks)"] reach_step [of r succs "set (r # ks)"]
    by (auto simp: swept_def intro: reach_refl)
  moreover have "E \<subseteq> reach succs (set (r # ks))" using E reach_mono [of "set ks" "set (r # ks)" succs] by (auto simp: marked_def)
  moreover have "r \<in> reach succs (set (r # ks))" by (simp add: reach_refl)
  ultimately have reach: "insert r D \<union> E \<subseteq> reach succs (set (r # ks))" by blast
  have col: "gcol v' m = (if m \<in> insert r D \<union> E then GC_GREY else gcol v m)" for m
    using D E disj by (cases "m \<in> E"; cases "m \<in> D") (auto simp: swept_def marked_def)
  have cnt: "\<forall>m. gcnt v' m = gcnt v m - of_nat (in_edges succs (insert r D \<union> E) m)"
    using D E disj by (simp add: swept_def marked_def in_edges_union in_edges_insert)
  have d: "\<forall>m\<in>insert r D. \<forall>n\<in>set (succs m). gcol v' n = GC_GREY" using D grey by (auto simp: swept_def)
  have e: "\<forall>m\<in>E. \<forall>n\<in>set (succs m). gcol v' n = GC_GREY" using E by (auto simp: marked_def)
  have closed: "\<forall>m\<in>insert r D \<union> E. \<forall>n\<in>set (succs m). gcol v' n = GC_GREY" using d e by blast
  have new: "\<forall>m\<in>insert r D \<union> E. gcol v m \<noteq> GC_GREY"
  proof
    fix m
    assume "m \<in> insert r D \<union> E"
    then show "gcol v m \<noteq> GC_GREY"
      using D E roots_mark(1) disj by (cases "m \<in> E"; cases "m \<in> D") (auto simp: swept_def marked_def split: if_splits)
  qed
  have set: "finite (insert r D \<union> E)" "set (r # ks) \<subseteq> insert r D \<union> E" using D E by (auto simp: swept_def marked_def)
  have roots: "\<forall>m\<in>set (r # rs). gcol v' m \<noteq> GC_PURPLE" using E col [of r] by (auto simp: marked_def)
  have cols: "\<forall>m\<in>insert r D \<union> E. gcol v' m = GC_GREY" "\<forall>m. m \<notin> insert r D \<union> E \<longrightarrow> gcol v' m = gcol v m"
    using col by simp_all
  have "marked succs (r # rs) v (r # ks) v' (insert r D \<union> E)"
    unfolding marked_def using set reach new cols cnt roots closed by (intro conjI) assumption+
  then show ?case by blast
qed

subsection \<open>Scanning\<close>

inductive gscan :: "('n \<Rightarrow> 'n list) \<Rightarrow> 'n list \<Rightarrow> 'n gview \<Rightarrow> 'n gview \<Rightarrow> bool" for succs where
  scan_nil: "gscan succs [] v v"
| scan_other: "gcol v n \<noteq> GC_GREY \<Longrightarrow> gscan succs ns v v' \<Longrightarrow> gscan succs (n # ns) v v'"
| scan_live: "gcol v n = GC_GREY \<Longrightarrow> gcnt v n \<noteq> 0 \<Longrightarrow> gsweep GC_BLACK 1 succs (succs n) (paint n GC_BLACK v) v1 \<Longrightarrow>
    gscan succs ns v1 v' \<Longrightarrow> gscan succs (n # ns) v v'"
| scan_white: "gcol v n = GC_GREY \<Longrightarrow> gcnt v n = 0 \<Longrightarrow> gscan succs (succs n) (paint n GC_WHITE v) v1 \<Longrightarrow>
    gscan succs ns v1 v' \<Longrightarrow> gscan succs (n # ns) v v'"

text \<open>The nodes of the marked set that something outside of it refers to, and what they reach.\<close>

definition live :: "('n \<Rightarrow> 'n list) \<Rightarrow> 'n set \<Rightarrow> 'n gview \<Rightarrow> 'n set" where
  "live succs G v = reach succs {n \<in> G. gcnt v n \<noteq> 0}"

definition blacks :: "'n set \<Rightarrow> 'n gview \<Rightarrow> 'n set" where
  "blacks G v = {n \<in> G. gcol v n = GC_BLACK}"

definition scan_inv :: "('n \<Rightarrow> 'n list) \<Rightarrow> 'n set \<Rightarrow> 'n gview \<Rightarrow> 'n gview \<Rightarrow> bool" where
  "scan_inv succs G v0 v \<longleftrightarrow> finite G \<and> (\<forall>m\<in>G. set (succs m) \<subseteq> G) \<and>
     (\<forall>n. n \<notin> G \<longrightarrow> gcol v n = GC_BLACK) \<and> (\<forall>n. gcol v n \<noteq> GC_PURPLE) \<and>
     (\<forall>m\<in>blacks G v. set (succs m) \<subseteq> blacks G v) \<and> blacks G v \<subseteq> live succs G v0 \<and>
     (\<forall>n. gcnt v n = gcnt v0 n + of_nat (in_edges succs (blacks G v) n)) \<and>
     (\<forall>n. gcol v n = GC_WHITE \<longrightarrow> gcnt v0 n = 0) \<and> (\<forall>n\<in>G. unat (gcnt v0 n) + in_edges succs G n < 2 ^ 32)"

definition scan_done :: "('n \<Rightarrow> 'n list) \<Rightarrow> 'n gview \<Rightarrow> 'n gview \<Rightarrow> bool" where
  "scan_done succs v v' \<longleftrightarrow> (\<forall>n. gcol v n \<noteq> GC_GREY \<longrightarrow> gcol v' n \<noteq> GC_GREY) \<and>
     (\<forall>n. gcol v' n = GC_WHITE \<longrightarrow> gcol v n = GC_GREY \<or> gcol v n = GC_WHITE) \<and>
     (\<forall>n. gcol v n = GC_GREY \<and> gcol v' n = GC_WHITE \<longrightarrow> (\<forall>m\<in>set (succs n). gcol v' m \<noteq> GC_GREY))"

lemma scan_inv_black:
  assumes inv: "scan_inv succs G v0 v" and grey: "gcol v n = GC_GREY" and cnt: "gcnt v n \<noteq> 0"
    and sw: "swept GC_BLACK 1 succs (succs n) (paint n GC_BLACK v) v1 D"
  shows "scan_inv succs G v0 v1"
proof -
  have D: "finite D" "D \<subseteq> reach succs (set (succs n))" "\<forall>m\<in>D. gcol v1 m = GC_BLACK"
    "\<forall>m\<in>set (succs n). gcol v1 m = GC_BLACK" "\<forall>m\<in>D. \<forall>k\<in>set (succs m). gcol v1 k = GC_BLACK"
    using sw by (simp_all add: swept_def)
  have "\<forall>m\<in>D. gcol (paint n GC_BLACK v) m \<noteq> GC_BLACK" using sw unfolding swept_def by blast
  then have new: "m \<noteq> n \<and> gcol v m \<noteq> GC_BLACK" if "m \<in> D" for m using that by (cases "m = n") auto
  then have nD: "n \<notin> D" by blast
  then have old: "gcol v1 m = (if m \<in> insert n D then GC_BLACK else gcol v m)" for m using sw by (auto simp: swept_def)
  have n: "n \<in> G" using inv grey by (auto simp: scan_inv_def)
  have "n \<in> live succs G v0"
  proof (cases "gcnt v0 n = 0")
    case True
    then have "of_nat (in_edges succs (blacks G v) n) \<noteq> (0 :: uint)" using inv cnt by (simp add: scan_inv_def)
    then have "0 < in_edges succs (blacks G v) n" by (intro gr0I notI) simp
    then obtain m where "m \<in> blacks G v" "n \<in> set (succs m)" using in_edges_pos by metis
    then show ?thesis using inv by (auto simp: scan_inv_def live_def intro: reach_step)
  qed (use n in \<open>auto simp: live_def intro: reach_refl\<close>)
  moreover from this have "set (succs n) \<subseteq> live succs G v0" by (auto simp: live_def intro: reach_step)
  ultimately have live: "insert n D \<subseteq> live succs G v0" using D(2) reach_trans unfolding live_def by blast
  have "reach succs (set (succs n)) \<subseteq> G" by (rule reach_closed) (use inv n in \<open>auto simp: scan_inv_def\<close>)
  then have DG: "insert n D \<subseteq> G" using D(2) n by blast
  then have eq: "blacks G v1 = blacks G v \<union> insert n D" by (auto simp: blacks_def old split: if_splits)
  have disj: "blacks G v \<inter> insert n D = {}" using new grey by (auto simp: blacks_def)
  have "finite (blacks G v)" using inv by (auto simp: scan_inv_def blacks_def)
  then have "gcnt v1 m = gcnt v0 m + of_nat (in_edges succs (blacks G v1) m)" for m
    using inv sw disj nD D(1) unfolding eq by (simp add: scan_inv_def swept_def in_edges_union in_edges_insert)
  moreover have "set (succs m) \<subseteq> blacks G v1" if "m \<in> blacks G v1" for m
  proof (cases "m \<in> blacks G v")
    case True
    then show ?thesis using inv eq by (auto simp: scan_inv_def)
  next
    case False
    then have "m \<in> insert n D" using that eq by blast
    moreover from this have "\<forall>k\<in>set (succs m). gcol v1 k = GC_BLACK" using D by blast
    ultimately show ?thesis using inv DG by (auto simp: blacks_def scan_inv_def)
  qed
  ultimately show ?thesis using inv live eq DG unfolding scan_inv_def by (simp add: old)
qed

lemma scan_inv_white:
  assumes inv: "scan_inv succs G v0 v" and grey: "gcol v n = GC_GREY" and cnt: "gcnt v n = 0"
  shows "scan_inv succs G v0 (paint n GC_WHITE v)"
proof -
  have n: "n \<in> G" using inv grey by (auto simp: scan_inv_def)
  have "in_edges succs (blacks G v) n \<le> in_edges succs G n" using inv by (intro in_edges_mono) (auto simp: scan_inv_def blacks_def)
  then have bound: "unat (gcnt v0 n) + in_edges succs (blacks G v) n < 2 ^ 32" using inv n by (fastforce simp: scan_inv_def)
  have "of_nat (unat (gcnt v0 n) + in_edges succs (blacks G v) n) = (0 :: uint)" using inv cnt by (simp add: scan_inv_def)
  then have "unat (of_nat (unat (gcnt v0 n) + in_edges succs (blacks G v) n) :: uint) = 0" by simp
  then have "unat (gcnt v0 n) + in_edges succs (blacks G v) n = 0" using bound by (simp only: unat_of_nat take_bit_nat_eq_self_iff) (simp add: take_bit_eq_mod)
  then have "gcnt v0 n = 0" by (simp add: unat_eq_0)
  moreover have "blacks G (paint n GC_WHITE v) = blacks G v" using grey by (auto simp: blacks_def)
  ultimately show ?thesis using inv n by (simp add: scan_inv_def)
qed

lemma swept_not_grey: "swept GC_BLACK 1 succs ns v v' D \<Longrightarrow> gcol v m \<noteq> GC_GREY \<Longrightarrow> gcol v' m \<noteq> GC_GREY"
  by (cases "m \<in> D") (auto simp: swept_def)

lemma swept_white: "swept GC_BLACK 1 succs ns v v' D \<Longrightarrow> gcol v' m = GC_WHITE \<Longrightarrow> gcol v m = GC_WHITE"
  by (cases "m \<in> D") (auto simp: swept_def)

lemma scan_done_trans: "scan_done succs v v1 \<Longrightarrow> scan_done succs v1 v' \<Longrightarrow> scan_done succs v v'"
  unfolding scan_done_def by metis

lemma scan_done_live:
  assumes D: "swept GC_BLACK 1 succs ns (paint n GC_BLACK v) v1 D"
  shows "scan_done succs v v1" and "gcol v1 n \<noteq> GC_GREY"
proof -
  show n: "gcol v1 n \<noteq> GC_GREY" using swept_not_grey [OF D, of n] by simp
  have "gcol v1 m \<noteq> GC_GREY" if "gcol v m \<noteq> GC_GREY" for m
    using that swept_not_grey [OF D, of m] n by (cases "m = n") auto
  moreover have "gcol v m = GC_WHITE" if "gcol v1 m = GC_WHITE" for m
    using swept_white [OF D that] by (auto split: if_splits)
  ultimately show "scan_done succs v v1" by (auto simp: scan_done_def)
qed

lemma scan_done_white:
  assumes "gcol v n = GC_GREY" and "scan_done succs (paint n GC_WHITE v) v1" and "\<forall>m\<in>set (succs n). gcol v1 m \<noteq> GC_GREY"
  shows "scan_done succs v v1" and "gcol v1 n \<noteq> GC_GREY"
proof -
  have a: "gcol v1 m \<noteq> GC_GREY" if "gcol v m \<noteq> GC_GREY \<or> m = n" for m
    using that assms(1,2) by (cases "m = n") (auto simp: scan_done_def)
  have b: "gcol v m = GC_GREY \<or> gcol v m = GC_WHITE" if "gcol v1 m = GC_WHITE" for m
    using that assms(1,2) by (cases "m = n") (auto simp: scan_done_def)
  have c: "\<forall>k\<in>set (succs m). gcol v1 k \<noteq> GC_GREY" if "gcol v m = GC_GREY" "gcol v1 m = GC_WHITE" for m
    using that assms by (cases "m = n") (auto simp: scan_done_def)
  show "scan_done succs v v1" unfolding scan_done_def using a b c by blast
  show "gcol v1 n \<noteq> GC_GREY" using a by blast
qed

lemma gscan_scanned:
  assumes "gscan succs ns v v'" and "scan_inv succs G v0 v"
  shows "scan_inv succs G v0 v' \<and> scan_done succs v v' \<and> (\<forall>n\<in>set ns. gcol v' n \<noteq> GC_GREY)"
  using assms
proof (induction rule: gscan.induct)
  case (scan_nil v)
  then show ?case by (auto simp: scan_done_def)
next
  case (scan_other v n ns v')
  then show ?case by (auto simp: scan_done_def)
next
  case (scan_live v n v1 ns v')
  obtain D where D: "swept GC_BLACK 1 succs (succs n) (paint n GC_BLACK v) v1 D" using gsweep_swept scan_live(3) by blast
  have "scan_inv succs G v0 v1" using scan_inv_black [OF scan_live.prems scan_live(1,2) D] .
  then have "scan_inv succs G v0 v'" "scan_done succs v1 v'" "\<forall>m\<in>set ns. gcol v' m \<noteq> GC_GREY" using scan_live.IH by blast+
  moreover from this have "gcol v' n \<noteq> GC_GREY" using scan_done_live(2) [OF D] by (simp add: scan_done_def)
  ultimately show ?case using scan_done_trans [OF scan_done_live(1) [OF D]] by simp
next
  case (scan_white v n v1 ns v')
  have i: "scan_inv succs G v0 v1" "scan_done succs (paint n GC_WHITE v) v1" "\<forall>m\<in>set (succs n). gcol v1 m \<noteq> GC_GREY"
    using scan_white.IH(1) scan_inv_white [OF scan_white.prems scan_white(1,2)] by blast+
  then have j: "scan_inv succs G v0 v'" "scan_done succs v1 v'" "\<forall>m\<in>set ns. gcol v' m \<noteq> GC_GREY" using scan_white.IH(2) by blast+
  note w = scan_done_white [OF scan_white(1) i(2,3)]
  have "gcol v' n \<noteq> GC_GREY" using w(2) j(2) by (simp add: scan_done_def)
  then show ?case using scan_done_trans [OF w(1) j(2)] j by simp
qed

subsection \<open>Collecting\<close>

text \<open>
  \<open>isz\<close> tells values from objects: only values have their counts restored, one more than before for those put into the list to free.
  White nodes in \<open>R\<close>, the roots still waiting for their turn, are left to it.
\<close>

definition credit :: "('n \<Rightarrow> bool) \<Rightarrow> 'n \<Rightarrow> 'n gview \<Rightarrow> 'n gview" where
  "credit isz n v = (if isz n then bump 1 n v else v)"

definition over :: "('n \<Rightarrow> bool) \<Rightarrow> 'n \<Rightarrow> 'n gview \<Rightarrow> 'n gview" where
  "over isz n v = credit isz n (paint n (if isz n then GC_BLACK else GC_PURPLE) v)"

inductive gcollect :: "('n \<Rightarrow> bool) \<Rightarrow> ('n \<Rightarrow> 'n list) \<Rightarrow> 'n set \<Rightarrow> 'n list \<Rightarrow> 'n gview \<Rightarrow> 'n gview \<Rightarrow> bool" for isz succs R where
  collect_nil: "gcollect isz succs R [] v v"
| collect_other: "\<not> (gcol v n = GC_WHITE \<and> n \<notin> R) \<Longrightarrow> gcollect isz succs R ns (credit isz n v) v' \<Longrightarrow> gcollect isz succs R (n # ns) v v'"
| collect_white: "gcol v n = GC_WHITE \<Longrightarrow> n \<notin> R \<Longrightarrow> gcollect isz succs R (succs n) (over isz n (credit isz n v)) v1 \<Longrightarrow>
    gcollect isz succs R ns v1 v' \<Longrightarrow> gcollect isz succs R (n # ns) v v'"

definition collected_set :: "('n \<Rightarrow> bool) \<Rightarrow> ('n \<Rightarrow> 'n list) \<Rightarrow> 'n set \<Rightarrow> 'n list \<Rightarrow> 'n gview \<Rightarrow> 'n gview \<Rightarrow> 'n set \<Rightarrow> bool" where
  "collected_set isz succs R ns v v' W \<longleftrightarrow> finite W \<and> W \<inter> R = {} \<and> (\<forall>n\<in>W. gcol v n = GC_WHITE) \<and>
     (\<forall>n. gcol v' n = (if n \<in> W then (if isz n then GC_BLACK else GC_PURPLE) else gcol v n)) \<and>
     (\<forall>n. gcnt v' n = gcnt v n + (if isz n then of_nat (count_list ns n + in_edges succs W n + of_bool (n \<in> W)) else 0)) \<and>
     (\<forall>n\<in>set ns. gcol v' n = GC_WHITE \<longrightarrow> n \<in> R) \<and> (\<forall>m\<in>W. \<forall>n\<in>set (succs m). gcol v' n = GC_WHITE \<longrightarrow> n \<in> R)"

lemma collected_setI:
  assumes "finite W" and "W \<inter> R = {}" and "\<And>n. n \<in> W \<Longrightarrow> gcol v n = GC_WHITE"
    and "\<And>n. gcol v' n = (if n \<in> W then (if isz n then GC_BLACK else GC_PURPLE) else gcol v n)"
    and "\<And>n. gcnt v' n = gcnt v n + (if isz n then of_nat (count_list ns n + in_edges succs W n + of_bool (n \<in> W)) else 0)"
    and "\<forall>n\<in>set ns. gcol v' n = GC_WHITE \<longrightarrow> n \<in> R" and "\<forall>m\<in>W. \<forall>n\<in>set (succs m). gcol v' n = GC_WHITE \<longrightarrow> n \<in> R"
  shows "collected_set isz succs R ns v v' W"
  unfolding collected_set_def using assms by blast

lemma credit_simps [simp]:
  "gcol (credit isz n v) = gcol v" "gcnt (credit isz n v) = (gcnt v)(n := gcnt v n + (if isz n then 1 else 0))"
  "gcol (over isz n v) = (gcol v)(n := if isz n then GC_BLACK else GC_PURPLE)"
  "gcnt (over isz n v) = (gcnt v)(n := gcnt v n + (if isz n then 1 else 0))"
  by (auto simp: credit_def over_def)

lemma collected_insert:
  assumes n: "gcol v n = GC_WHITE" "n \<notin> R"
    and C: "collected_set isz succs R (succs n) (over isz n v) v1 W"
  shows "n \<notin> W" and "collected_set isz succs R [] v v1 (insert n W)"
proof -
  have "gcol (over isz n v) n \<noteq> GC_WHITE" by simp
  then show nW: "n \<notin> W" using C unfolding collected_set_def by blast
  have white: "gcol v m = GC_WHITE" if "m \<in> insert n W" for m
    using that C n nW by (cases "m = n") (auto simp: collected_set_def)
  have col: "gcol v1 m = (if m \<in> insert n W then (if isz m then GC_BLACK else GC_PURPLE) else gcol v m)" for m
    using C nW by (auto simp: collected_set_def)
  have fin: "finite W" using C by (simp add: collected_set_def)
  have cnt: "gcnt v1 m = gcnt v m + (if isz m then of_nat (in_edges succs (insert n W) m + of_bool (m \<in> insert n W)) else 0)" for m
    using C nW fin by (auto simp: collected_set_def in_edges_insert)
  have closed: "\<forall>m\<in>insert n W. \<forall>k\<in>set (succs m). gcol v1 k = GC_WHITE \<longrightarrow> k \<in> R" using C by (simp add: collected_set_def)
  have "finite (insert n W)" "insert n W \<inter> R = {}" using C n(2) by (auto simp: collected_set_def)
  then show "collected_set isz succs R [] v v1 (insert n W)"
    by (rule collected_setI) (use white col cnt closed in simp_all)
qed

lemma collected_append:
  assumes A: "collected_set isz succs Q ms v v1 V" and B: "collected_set isz succs R ns v1 v' W"
    and V: "V \<inter> R = {}" and Q: "\<And>k. k \<in> Q \<Longrightarrow> gcol v' k = GC_WHITE \<Longrightarrow> k \<in> R"
  shows "collected_set isz succs R (ms @ ns) v v' (V \<union> W)"
proof -
  have disj: "V \<inter> W = {}" using A B by (auto simp: collected_set_def split: if_splits)
  have fin: "finite V" "finite W" using A B by (auto simp: collected_set_def)
  have col: "gcol v' m = (if m \<in> V \<union> W then (if isz m then GC_BLACK else GC_PURPLE) else gcol v m)" for m
    using A B by (auto simp: collected_set_def)
  have white: "gcol v m = GC_WHITE" if "m \<in> V \<union> W" for m
    using that A B disj by (cases "m \<in> V") (auto simp: collected_set_def split: if_splits)
  have stays: "gcol v1 m = GC_WHITE" if "gcol v' m = GC_WHITE" for m
    using that B by (cases "m \<in> W") (auto simp: collected_set_def split: if_splits)
  have cnt: "gcnt v' m = gcnt v m + (if isz m then of_nat (count_list (ms @ ns) m + in_edges succs (V \<union> W) m + of_bool (m \<in> V \<union> W)) else 0)" for m
    using A B fin disj by (auto simp: collected_set_def in_edges_union)
  have "finite (V \<union> W)" "(V \<union> W) \<inter> R = {}" using fin V B by (auto simp: collected_set_def)
  moreover have "\<forall>m\<in>set (ms @ ns). gcol v' m = GC_WHITE \<longrightarrow> m \<in> R" "\<forall>m\<in>V \<union> W. \<forall>k\<in>set (succs m). gcol v' k = GC_WHITE \<longrightarrow> k \<in> R"
    using A B stays Q unfolding collected_set_def by auto
  ultimately show ?thesis using white col cnt by (intro collected_setI)
qed

lemma gcollect_collected: "gcollect isz succs R ns v v' \<Longrightarrow> \<exists>W. collected_set isz succs R ns v v' W"
proof (induction rule: gcollect.induct)
  case (collect_nil v)
  then show ?case by (intro exI [of _ "{}"]) (simp add: collected_set_def)
next
  case (collect_other v n ns v')
  then obtain W where W: "collected_set isz succs R ns (credit isz n v) v' W" by blast
  then have "collected_set isz succs R (n # ns) v v' W" using collect_other(1) by (auto simp: collected_set_def split: if_splits)
  then show ?case ..
next
  case (collect_white v n v1 ns v')
  then obtain V W where V: "collected_set isz succs R (succs n) (over isz n (credit isz n v)) v1 V"
    and W: "collected_set isz succs R ns v1 v' W" by blast
  have "collected_set isz succs R [] (credit isz n v) v1 (insert n V)"
    by (rule collected_insert(2) [OF _ collect_white(2) V]) (simp add: collect_white(1))
  then have "collected_set isz succs R [n] v v1 (insert n V)" by (auto simp: collected_set_def)
  then have "collected_set isz succs R (n # ns) v v' (insert n V \<union> W)" using collected_append [OF _ W, of R "[n]" v "insert n V"] by (auto simp: collected_set_def)
  then show ?case ..
qed

inductive gcollect_roots :: "('n \<Rightarrow> bool) \<Rightarrow> ('n \<Rightarrow> 'n list) \<Rightarrow> 'n list \<Rightarrow> 'n gview \<Rightarrow> 'n gview \<Rightarrow> bool" for isz succs where
  croots_nil: "gcollect_roots isz succs [] v v"
| croots_other: "gcol v r \<noteq> GC_WHITE \<Longrightarrow> gcollect_roots isz succs rs v v' \<Longrightarrow> gcollect_roots isz succs (r # rs) v v'"
| croots_white: "gcol v r = GC_WHITE \<Longrightarrow> gcollect isz succs (set rs) (succs r) (over isz r v) v1 \<Longrightarrow>
    gcollect_roots isz succs rs v1 v' \<Longrightarrow> gcollect_roots isz succs (r # rs) v v'"

lemma gcollect_roots_collected:
  assumes "gcollect_roots isz succs rs v v'" and "distinct rs"
  shows "\<exists>W. collected_set isz succs {} [] v v' W \<and> (\<forall>r\<in>set rs. gcol v' r \<noteq> GC_WHITE)"
  using assms
proof (induction rule: gcollect_roots.induct)
  case (croots_nil v)
  then show ?case by (intro exI [of _ "{}"]) (simp add: collected_set_def)
next
  case (croots_other v r rs v')
  then obtain W where W: "collected_set isz succs {} [] v v' W" "\<forall>r\<in>set rs. gcol v' r \<noteq> GC_WHITE" by auto
  then have "gcol v' r \<noteq> GC_WHITE" using croots_other(1) by (simp add: collected_set_def)
  then show ?case using W by auto
next
  case (croots_white v r rs v1 v')
  then obtain W where W: "collected_set isz succs {} [] v1 v' W" "\<forall>r\<in>set rs. gcol v' r \<noteq> GC_WHITE" by auto
  obtain V where "collected_set isz succs (set rs) (succs r) (over isz r v) v1 V" using gcollect_collected croots_white(2) by blast
  then have V: "collected_set isz succs (set rs) [] v v1 (insert r V)"
    using collected_insert(2) [OF croots_white(1)] croots_white.prems by simp
  then have "collected_set isz succs {} [] v v' (insert r V \<union> W)" using collected_append [OF V W(1)] W(2) by auto
  moreover from this have "gcol v' r \<noteq> GC_WHITE" by (simp add: collected_set_def)
  ultimately show ?case using W(2) by auto
qed

subsection \<open>The whole collection\<close>

lemma gmark_roots_kept: "gmark_roots succs rs v ks v' \<Longrightarrow> set ks \<subseteq> set rs \<and> (distinct rs \<longrightarrow> distinct ks)"
  by (induction rule: gmark_roots.induct) auto

text \<open>
  The nodes found to be garbage: reached from the roots, but from no node with references from elsewhere.
\<close>

definition garbage :: "('n \<Rightarrow> 'n list) \<Rightarrow> 'n set \<Rightarrow> ('n \<Rightarrow> uint) \<Rightarrow> 'n set" where
  "garbage succs A cnt =
     (let G = reach succs A in G - reach succs {n \<in> G. unat (cnt n) \<noteq> in_edges succs G n})"

lemma mark_phase:
  assumes "gmark_roots succs rs v0 ks v1" and "\<And>n. gcol v0 n = (if n \<in> set rs then GC_PURPLE else GC_BLACK)"
  defines "G \<equiv> reach succs (set rs)"
  shows "finite G" and "G = reach succs (set ks)" and "\<forall>m\<in>G. set (succs m) \<subseteq> G"
    and "gcol v1 = (\<lambda>n. if n \<in> G then GC_GREY else GC_BLACK)" and "gcnt v1 = (\<lambda>n. gcnt v0 n - of_nat (in_edges succs G n))"
proof -
  obtain D where D: "marked succs rs v0 ks v1 D" using gmark_roots_marked [OF assms(1)] by blast
  have grey: "n \<in> D" if "gcol v1 n = GC_GREY" for n
    using that D assms(2) [of n] by (auto simp: marked_def split: if_splits)
  have "set rs \<subseteq> D"
  proof
    fix r
    assume "r \<in> set rs"
    then have "gcol v1 r \<noteq> GC_PURPLE" and "gcol v0 r = GC_PURPLE" using D assms(2) [of r] by (auto simp: marked_def)
    then show "r \<in> D" using D by (auto simp: marked_def)
  qed
  moreover have "n \<in> D" if "m \<in> D" "n \<in> set (succs m)" for m n
    using that D by (intro grey) (simp add: marked_def)
  ultimately have "G \<subseteq> D" unfolding G_def by (intro reach_closed)
  moreover have "D \<subseteq> reach succs (set ks)" using D by (simp add: marked_def)
  moreover have "reach succs (set ks) \<subseteq> G" using gmark_roots_kept [OF assms(1)] reach_mono unfolding G_def by metis
  ultimately have G: "D = G" "G = reach succs (set ks)" by auto
  show "finite G" and "G = reach succs (set ks)" using D G by (auto simp: marked_def)
  show "\<forall>m\<in>G. set (succs m) \<subseteq> G" by (auto simp: G_def intro: reach_step)
  have "n \<notin> set rs" if "n \<notin> G" for n using that by (auto simp: G_def intro: reach_refl)
  then show "gcol v1 = (\<lambda>n. if n \<in> G then GC_GREY else GC_BLACK)" using D assms(2) by (auto simp: marked_def G(1))
  show "gcnt v1 = (\<lambda>n. gcnt v0 n - of_nat (in_edges succs G n))" using D by (auto simp: marked_def G(1))
qed

lemma scan_phase:
  assumes scan: "gscan succs ks v1 v2" and G: "finite G" "G = reach succs (set ks)" "\<forall>m\<in>G. set (succs m) \<subseteq> G"
    and col: "gcol v1 = (\<lambda>n. if n \<in> G then GC_GREY else GC_BLACK)"
    and bound: "\<forall>n\<in>G. unat (gcnt v1 n) + in_edges succs G n < 2 ^ 32"
  shows "gcol v2 = (\<lambda>n. if n \<in> G - live succs G v1 then GC_WHITE else GC_BLACK)"
    and "gcnt v2 = (\<lambda>n. gcnt v1 n + of_nat (in_edges succs (live succs G v1) n))"
    and "\<forall>m\<in>live succs G v1. set (succs m) \<subseteq> live succs G v1" and "live succs G v1 \<subseteq> G"
proof -
  have "blacks G v1 = {}" using col by (auto simp: blacks_def)
  then have "scan_inv succs G v1 v1" using G col bound by (simp add: scan_inv_def)
  then have inv: "scan_inv succs G v1 v2" and dn: "scan_done succs v1 v2" and ks: "\<forall>n\<in>set ks. gcol v2 n \<noteq> GC_GREY"
    using gscan_scanned [OF scan] by blast+
  have "G \<subseteq> {n \<in> G. gcol v2 n \<noteq> GC_GREY}" unfolding G(2)
  proof (rule reach_closed)
    fix m n
    assume m: "m \<in> {n \<in> reach succs (set ks). gcol v2 n \<noteq> GC_GREY}" and n: "n \<in> set (succs m)"
    then consider "m \<in> blacks G v2" | "gcol v2 m = GC_WHITE" using inv G(2) by (auto simp: blacks_def scan_inv_def) (metis gc_color.exhaust)
    then have "gcol v2 n \<noteq> GC_GREY"
    proof cases
      case 1
      then have "n \<in> blacks G v2" using inv n by (auto simp: scan_inv_def)
      then show ?thesis by (simp add: blacks_def)
    next
      case 2
      then show ?thesis using dn m n col G(2) by (auto simp: scan_done_def)
    qed
    then show "n \<in> {n \<in> reach succs (set ks). gcol v2 n \<noteq> GC_GREY}" using m n by (auto intro: reach_step)
  qed (use ks in \<open>auto intro: reach_refl\<close>)
  then have grey: "gcol v2 n \<noteq> GC_GREY" for n using inv by (auto simp: scan_inv_def)
  have "live succs G v1 \<subseteq> blacks G v2" unfolding live_def
  proof (rule reach_closed)
    show "{n \<in> G. gcnt v1 n \<noteq> 0} \<subseteq> blacks G v2" using inv grey by (auto simp: blacks_def scan_inv_def) (metis gc_color.exhaust)
  qed (use inv in \<open>auto simp: scan_inv_def\<close>)
  then have eq: "blacks G v2 = live succs G v1" using inv by (auto simp: scan_inv_def)
  show "gcol v2 = (\<lambda>n. if n \<in> G - live succs G v1 then GC_WHITE else GC_BLACK)"
  proof
    fix n
    show "gcol v2 n = (if n \<in> G - live succs G v1 then GC_WHITE else GC_BLACK)"
      using inv grey [of n] unfolding eq [symmetric] by (cases "gcol v2 n") (auto simp: blacks_def scan_inv_def)
  qed
  show "gcnt v2 = (\<lambda>n. gcnt v1 n + of_nat (in_edges succs (live succs G v1) n))"
    using inv unfolding eq [symmetric] by (auto simp: scan_inv_def)
  show "\<forall>m\<in>live succs G v1. set (succs m) \<subseteq> live succs G v1" by (auto simp: live_def intro: reach_step)
  show "live succs G v1 \<subseteq> G" unfolding eq [symmetric] by (auto simp: blacks_def)
qed

lemma collect_phase:
  assumes coll: "gcollect_roots isz succs ks v2 v3" and "distinct ks"
    and G: "finite G" "G = reach succs (set ks)" and L: "L \<subseteq> G" "\<forall>m\<in>L. set (succs m) \<subseteq> L"
    and col: "gcol v2 = (\<lambda>n. if n \<in> G - L then GC_WHITE else GC_BLACK)"
  shows "gcol v3 = (\<lambda>n. if n \<in> G - L \<and> \<not> isz n then GC_PURPLE else GC_BLACK)"
    and "gcnt v3 = (\<lambda>n. gcnt v2 n + (if isz n then of_nat (in_edges succs (G - L) n + of_bool (n \<in> G - L)) else 0))"
proof -
  obtain W where W: "collected_set isz succs {} [] v2 v3 W" and ks: "\<forall>r\<in>set ks. gcol v3 r \<noteq> GC_WHITE"
    using gcollect_roots_collected [OF coll \<open>distinct ks\<close>] by blast
  have c3: "gcol v3 n = (if n \<in> W then (if isz n then GC_BLACK else GC_PURPLE) else gcol v2 n)" for n using W by (simp add: collected_set_def)
  have "\<forall>n\<in>W. gcol v2 n = GC_WHITE" using W by (simp add: collected_set_def)
  then have WG: "W \<subseteq> G - L" using col by (auto split: if_splits)
  have "G \<subseteq> {n \<in> G. gcol v3 n \<noteq> GC_WHITE}" unfolding G(2)
  proof (rule reach_closed)
    fix m n
    assume m: "m \<in> {n \<in> reach succs (set ks). gcol v3 n \<noteq> GC_WHITE}" and n: "n \<in> set (succs m)"
    have "gcol v3 n \<noteq> GC_WHITE"
    proof (cases "m \<in> W")
      case True
      then show ?thesis using W n unfolding collected_set_def by blast
    next
      case False
      then have "gcol v2 m \<noteq> GC_WHITE" using m c3 [of m] by simp
      then have "m \<in> L" using m col G(2) by (auto split: if_splits)
      then have "n \<in> L" using L(2) n by blast
      then show ?thesis using c3 [of n] col by auto
    qed
    then show "n \<in> {n \<in> reach succs (set ks). gcol v3 n \<noteq> GC_WHITE}" using m n by (auto intro: reach_step)
  qed (use ks in \<open>auto intro: reach_refl\<close>)
  then have "G - L \<subseteq> W" using c3 col by (auto split: if_splits)
  then have eq: "W = G - L" using WG by blast
  show "gcol v3 = (\<lambda>n. if n \<in> G - L \<and> \<not> isz n then GC_PURPLE else GC_BLACK)" using c3 col eq by auto
  show "gcnt v3 = (\<lambda>n. gcnt v2 n + (if isz n then of_nat (in_edges succs (G - L) n + of_bool (n \<in> G - L)) else 0))"
    using W unfolding eq by (simp add: collected_set_def fun_eq_iff)
qed

lemma cycles_found:
  assumes mark: "gmark_roots succs rs v0 ks v1" and scan: "gscan succs ks v1 v2" and coll: "gcollect_roots isz succs ks v2 v3"
    and rs: "distinct rs" "\<And>n. gcol v0 n = (if n \<in> set rs then GC_PURPLE else GC_BLACK)"
    and bound: "\<And>n. n \<in> reach succs (set rs) \<Longrightarrow> in_edges succs (reach succs (set rs)) n \<le> unat (gcnt v0 n)"
  defines "W \<equiv> garbage succs (set rs) (gcnt v0)"
  shows "gcol v3 = (\<lambda>n. if n \<in> W \<and> \<not> isz n then GC_PURPLE else GC_BLACK)"
    and "gcnt v3 = (\<lambda>n. if isz n then gcnt v0 n + of_bool (n \<in> W) else gcnt v0 n - of_nat (in_edges succs W n))"
    and "gcol v2 = (\<lambda>n. if n \<in> W then GC_WHITE else GC_BLACK)"
proof -
  define G where "G = reach succs (set rs)"
  note m = mark_phase [OF mark rs(2), folded G_def]
  have u: "unat (gcnt v1 n) = unat (gcnt v0 n) - in_edges succs G n" if "n \<in> G" for n
  proof -
    have "in_edges succs G n \<le> unat (gcnt v0 n)" using bound that by (simp add: G_def)
    moreover from this have "in_edges succs G n < 2 ^ 32" using unat_lt2p [of "gcnt v0 n"] by simp
    ultimately show ?thesis unfolding m(5) by (simp add: unat_sub word_le_nat_alt unat_of_nat take_bit_nat_eq_self)
  qed
  have "\<forall>n\<in>G. unat (gcnt v1 n) + in_edges succs G n < 2 ^ 32"
    using bound unat_lt2p [of "gcnt v0 n" for n] by (auto simp: u G_def)
  note s = scan_phase [OF scan m(1,2,3,4) this]
  have "gcnt v1 n \<noteq> 0 \<longleftrightarrow> unat (gcnt v0 n) \<noteq> in_edges succs G n" if "n \<in> G" for n
    using u [OF that] bound [of n] that unfolding G_def [symmetric] by (simp flip: unat_eq_0)
  then have "{n \<in> G. gcnt v1 n \<noteq> 0} = {n \<in> G. unat (gcnt v0 n) \<noteq> in_edges succs G n}" by blast
  then have live: "live succs G v1 = reach succs {n \<in> G. unat (gcnt v0 n) \<noteq> in_edges succs G n}" by (simp add: live_def)
  then have W: "W = G - live succs G v1" by (simp add: W_def garbage_def G_def Let_def)
  have ks: "distinct ks" using gmark_roots_kept [OF mark] rs(1) by blast
  note c = collect_phase [OF coll ks m(1,2) s(4,3,1), folded W]
  show "gcol v3 = (\<lambda>n. if n \<in> W \<and> \<not> isz n then GC_PURPLE else GC_BLACK)" by (rule c(1))
  show "gcol v2 = (\<lambda>n. if n \<in> W then GC_WHITE else GC_BLACK)" using s(1) W by simp
  have "in_edges succs G n = in_edges succs (live succs G v1) n + in_edges succs W n" for n
    using in_edges_union [of "live succs G v1" W succs n] m(1) s(4) W finite_subset [OF s(4) m(1)] by (simp add: Un_absorb1)
  then show "gcnt v3 = (\<lambda>n. if isz n then gcnt v0 n + of_bool (n \<in> W) else gcnt v0 n - of_nat (in_edges succs W n))"
    unfolding c(2) s(2) m(5) by auto
qed

end
