(* ===== verification/Zend_Gc_View.thy ===== *)
theory Zend_Gc_View
  imports Gc_Graph
begin

text \<open>
  Memory as a graph: its nodes are the values and the objects, and the recursive functions of the collector follow its edges.  Values of
  the symbol table, whose counts the collector leaves alone, are not part of it.
\<close>

datatype gnode = Zv addr | Ob nat

definition ztype :: "gc \<Rightarrow> addr \<Rightarrow> zdata option" where
  "ztype s a = map_option z_type (zvals s a)"

definition orefs :: "gc \<Rightarrow> nat \<Rightarrow> addr list option" where
  "orefs s h = map_option gc_refs (objects s h)"

definition grefs :: "gc \<Rightarrow> addr list \<Rightarrow> gnode list" where
  "grefs s ps = map Zv (filter (\<lambda>a. ztype s a \<noteq> Some Symbol_table) ps)"

primrec gsuccs :: "gc \<Rightarrow> gnode \<Rightarrow> gnode list" where
  "gsuccs s (Zv a) =
     (case ztype s a of
        Some (Object h) \<Rightarrow> if object_buckets s then [Ob h] else []
      | Some (Array xs) \<Rightarrow> grefs s xs
      | _ \<Rightarrow> [])"
| "gsuccs s (Ob h) = (case orefs s h of Some ps \<Rightarrow> grefs s ps | None \<Rightarrow> [])"

definition zcol :: "zval_gc_info option \<Rightarrow> gc_color" where
  "zcol x = (case x of Some z \<Rightarrow> if z_type z = Symbol_table then GC_BLACK else z_color z | None \<Rightarrow> GC_BLACK)"

definition zcnt :: "zval_gc_info option \<Rightarrow> uint" where
  "zcnt x = (case x of Some z \<Rightarrow> if z_type z = Symbol_table then 0 else refcount__gc z | None \<Rightarrow> 0)"

definition ocol :: "store_object option \<Rightarrow> gc_color" where
  "ocol x = (case x of Some ob \<Rightarrow> o_color ob | None \<Rightarrow> GC_BLACK)"

definition ocnt :: "store_object option \<Rightarrow> uint" where
  "ocnt x = (case x of Some ob \<Rightarrow> o_refcount ob | None \<Rightarrow> 0)"

definition view :: "gc \<Rightarrow> gnode gview" where
  "view s = \<lparr>gcol = (\<lambda>n. case n of Zv a \<Rightarrow> zcol (zvals s a) | Ob h \<Rightarrow> ocol (objects s h)),
             gcnt = (\<lambda>n. case n of Zv a \<Rightarrow> zcnt (zvals s a) | Ob h \<Rightarrow> ocnt (objects s h))\<rparr>"

lemma view_node [simp]:
  "gcol (view s) (Zv a) = zcol (zvals s a)" "gcnt (view s) (Zv a) = zcnt (zvals s a)"
  "gcol (view s) (Ob h) = ocol (objects s h)" "gcnt (view s) (Ob h) = ocnt (objects s h)"
  by (simp_all add: view_def)

text \<open>What the recursive functions leave unchanged: the values themselves and their buffer addresses, and everything that is not a value.\<close>

definition obj_shape :: "store_object \<Rightarrow> bool \<times> bool \<times> ptr list \<times> addr list option" where
  "obj_shape ob = (o_valid ob, o_get_gc ob, o_table ob, o_props ob)"

definition same_shape :: "gc \<Rightarrow> gc \<Rightarrow> bool" where
  "same_shape s s' \<longleftrightarrow> ztype s' = ztype s \<and> (\<forall>h. map_option obj_shape (objects s' h) = map_option obj_shape (objects s h)) \<and>
     object_buckets s' = object_buckets s"

definition same_addrs :: "gc \<Rightarrow> gc \<Rightarrow> bool" where
  "same_addrs s s' \<longleftrightarrow> (\<forall>a. map_option z_addr (zvals s' a) = map_option z_addr (zvals s a)) \<and>
     (\<forall>h. map_option o_addr (objects s' h) = map_option o_addr (objects s h))"

definition same_rest :: "gc \<Rightarrow> gc \<Rightarrow> bool" where
  "same_rest s s' \<longleftrightarrow> (\<exists>zs os. s' = s\<lparr>zvals := zs, objects := os\<rparr>)"

text \<open>The symbol table is never left with a colour it did not have, black apart.\<close>

definition same_syms :: "gc \<Rightarrow> gc \<Rightarrow> bool" where
  "same_syms s s' \<longleftrightarrow> (\<forall>a z z'. zvals s a = Some z \<and> z_type z = Symbol_table \<and> zvals s' a = Some z' \<longrightarrow>
     z_color z' = z_color z \<or> z_color z' = GC_BLACK)"

definition keeps :: "gc \<Rightarrow> gc \<Rightarrow> bool" where
  "keeps s s' \<longleftrightarrow> same_shape s s' \<and> same_addrs s s' \<and> same_rest s s' \<and> same_syms s s'"

lemma same_shape_refl [simp]: "same_shape s s"
  by (simp add: same_shape_def)

lemma same_shape_trans: "same_shape s s1 \<Longrightarrow> same_shape s1 s2 \<Longrightarrow> same_shape s s2"
  by (simp add: same_shape_def)

lemma same_rest_refl [simp]: "same_rest s s"
  unfolding same_rest_def by (intro exI [of _ "zvals s"] exI [of _ "objects s"]) simp

lemma same_rest_trans: "same_rest s s1 \<Longrightarrow> same_rest s1 s2 \<Longrightarrow> same_rest s s2"
  unfolding same_rest_def by force

lemma same_syms_refl [simp]: "same_syms s s"
  by (auto simp: same_syms_def)

lemma same_syms_trans:
  assumes "same_shape s s1" and "same_syms s s1" and "same_syms s1 s2"
  shows "same_syms s s2"
  unfolding same_syms_def
proof (intro allI impI)
  fix a z z2
  assume z: "zvals s a = Some z \<and> z_type z = Symbol_table \<and> zvals s2 a = Some z2"
  then have "ztype s1 a = Some Symbol_table" using assms(1) by (simp add: same_shape_def ztype_def)
  then obtain z1 where "zvals s1 a = Some z1" "z_type z1 = Symbol_table" by (auto simp: ztype_def)
  then show "z_color z2 = z_color z \<or> z_color z2 = GC_BLACK" using z assms(2,3) unfolding same_syms_def by metis
qed

lemma keeps_refl [simp]: "keeps s s"
  by (simp add: keeps_def same_addrs_def)

lemma keeps_trans [trans]: "keeps s s1 \<Longrightarrow> keeps s1 s2 \<Longrightarrow> keeps s s2"
  by (auto simp: keeps_def same_addrs_def intro: same_shape_trans same_rest_trans same_syms_trans)

lemma shape_orefs: "same_shape s s' \<Longrightarrow> orefs s' = orefs s"
proof
  fix h
  assume "same_shape s s'"
  then have "map_option obj_shape (objects s' h) = map_option obj_shape (objects s h)" by (simp add: same_shape_def)
  then show "orefs s' h = orefs s h"
    by (cases "objects s' h"; cases "objects s h") (auto simp: orefs_def gc_refs_def obj_shape_def)
qed

lemma shape_refs:
  assumes "same_shape s s'"
  shows "gsuccs s' = gsuccs s" and "grefs s' = grefs s" and "ztype s' = ztype s" and "object_buckets s' = object_buckets s"
proof -
  show ty: "ztype s' = ztype s" and ob: "object_buckets s' = object_buckets s" using assms by (simp_all add: same_shape_def)
  then show refs: "grefs s' = grefs s" by (simp add: grefs_def fun_eq_iff)
  have "gsuccs s' n = gsuccs s n" for n
    by (cases n) (auto simp: ty ob refs shape_orefs [OF assms] split: option.splits zdata.splits)
  then show "gsuccs s' = gsuccs s" by (simp add: fun_eq_iff)
qed

lemmas keeps_shape = keeps_def [THEN iffD1, THEN conjunct1]
lemmas keeps_refs = shape_refs [OF keeps_shape]

text \<open>Every reference leads to a value of the memory.\<close>

definition heap_closed :: "gc \<Rightarrow> bool" where
  "heap_closed s \<longleftrightarrow> finite {a. ztype s a \<noteq> None} \<and>
     (\<forall>a xs. ztype s a = Some (Array xs) \<longrightarrow> (\<forall>x\<in>set xs. ztype s x \<noteq> None)) \<and>
     (\<forall>a h. ztype s a = Some (Object h) \<longrightarrow> orefs s h \<noteq> None) \<and>
     (\<forall>h ps. orefs s h = Some ps \<longrightarrow> (\<forall>x\<in>set ps. ztype s x \<noteq> None))"

lemma heap_closed_shape: "same_shape s s' \<Longrightarrow> heap_closed s' = heap_closed s"
  by (simp add: heap_closed_def shape_orefs shape_refs(3))

lemma heap_closed_keeps: "heap_closed s \<Longrightarrow> keeps s s' \<Longrightarrow> heap_closed s'"
  using heap_closed_shape keeps_shape by blast

subsection \<open>The accesses\<close>

lemma zv_upd_view:
  assumes "zvals s a = Some z" and "z_type z \<noteq> Symbol_table" and "z_type (f z) = z_type z" and "z_addr (f z) = z_addr z"
  obtains s' where "zv_upd a f s = Some s'" and "keeps s s'"
    and "view s' = (view s)\<lparr>gcol := (gcol (view s))(Zv a := z_color (f z)), gcnt := (gcnt (view s))(Zv a := refcount__gc (f z))\<rparr>"
proof
  let ?s = "s\<lparr>zvals := (zvals s)(a \<mapsto> f z)\<rparr>"
  show "zv_upd a f s = Some ?s" using assms by (simp add: zv_upd_def)
  show "keeps s ?s" 
    using assms by (auto simp: keeps_def same_shape_def same_addrs_def same_rest_def same_syms_def ztype_def fun_eq_iff
        intro!: exI [of _ "(zvals s)(a \<mapsto> f z)"] exI [of _ "objects s"])
  show "view ?s = (view s)\<lparr>gcol := (gcol (view s))(Zv a := z_color (f z)), gcnt := (gcnt (view s))(Zv a := refcount__gc (f z))\<rparr>"
    using assms by (auto simp: view_def zcol_def zcnt_def fun_eq_iff split: gnode.splits)
qed


lemma ob_upd_view:
  assumes "objects s h = Some ob" and "obj_shape (f ob) = obj_shape ob" and "o_addr (f ob) = o_addr ob"
  obtains s' where "ob_upd h f s = Some s'" and "keeps s s'"
    and "view s' = (view s)\<lparr>gcol := (gcol (view s))(Ob h := o_color (f ob)), gcnt := (gcnt (view s))(Ob h := o_refcount (f ob))\<rparr>"
proof
  let ?s = "s\<lparr>objects := (objects s)(h \<mapsto> f ob)\<rparr>"
  show "ob_upd h f s = Some ?s" using assms by (simp add: ob_upd_def)
  show "keeps s ?s" using assms
    by (auto simp: keeps_def same_shape_def same_addrs_def same_rest_def same_syms_def ztype_def fun_eq_iff
        intro!: exI [of _ "zvals s"] exI [of _ "(objects s)(h \<mapsto> f ob)"])
  show "view ?s = (view s)\<lparr>gcol := (gcol (view s))(Ob h := o_color (f ob)), gcnt := (gcnt (view s))(Ob h := o_refcount (f ob))\<rparr>"
    using assms by (auto simp: view_def ocol_def ocnt_def fun_eq_iff split: gnode.splits)
qed

lemma view_eqI: "(\<And>n. gcol v n = gcol w n) \<Longrightarrow> (\<And>n. gcnt v n = gcnt w n) \<Longrightarrow> v = (w :: 'n gview)"
  by (cases v; cases w) (simp add: fun_eq_iff)

lemma zvals_type: "ztype s a = Some t \<longleftrightarrow> (\<exists>z. zvals s a = Some z \<and> z_type z = t)"
  by (auto simp: ztype_def)

lemma set_zcolor_view:
  assumes "ztype s a = Some t" and "t \<noteq> Symbol_table"
  obtains s' where "set_zcolor c a s = Some s'" and "keeps s s'" and "view s' = paint (Zv a) c (view s)"
proof -
  obtain z where z: "zvals s a = Some z" "z_type z = t" using assms(1) by (auto simp: zvals_type)
  show ?thesis
    using z assms(2) by (rule_tac zv_upd_view [of s a z "\<lambda>z. z\<lparr>z_color := c\<rparr>"])
      (auto simp: set_zcolor_def zcnt_def intro!: that view_eqI)
qed

lemma set_ocolor_view:
  assumes "objects s h = Some ob"
  obtains s' where "set_ocolor c h s = Some s'" and "keeps s s'" and "view s' = paint (Ob h) c (view s)"
  using assms
  by (rule_tac ob_upd_view [of s h ob "\<lambda>z. z\<lparr>o_color := c\<rparr>"])
    (auto simp: set_ocolor_def obj_shape_def ocnt_def intro!: that view_eqI)

lemma obj_ref_view:
  assumes "objects s h = Some ob"
  obtains s' where "obj_ref d h s = Some s'" and "keeps s s'" and "view s' = bump d (Ob h) (view s)"
  using assms
  by (rule_tac ob_upd_view [of s h ob "\<lambda>z. z\<lparr>o_refcount := o_refcount z + d\<rparr>"])
    (auto simp: obj_ref_def obj_shape_def ocnt_def ocol_def intro!: that view_eqI)

lemma add_ref_view:
  assumes "ztype s a = Some t"
  obtains s' where "add_ref d a s = Some s'" and "keeps s s'"
    and "view s' = (if t = Symbol_table then view s else bump d (Zv a) (view s))"
proof (cases "t = Symbol_table")
  case True
  then show ?thesis using assms that [of s] by (auto simp: add_ref_def zvals_type)
next
  case False
  obtain z where z: "zvals s a = Some z" "z_type z = t" using assms(1) by (auto simp: zvals_type)
  show ?thesis
    using z False by (rule_tac zv_upd_view [of s a z "\<lambda>z. z\<lparr>refcount__gc := refcount__gc z + d\<rparr>"])
      (auto simp: add_ref_def zcnt_def zcol_def intro!: that view_eqI)
qed

lemma set_zcolor_sym:
  assumes z: "zvals s a = Some z" "z_type z = Symbol_table"
  obtains s1 s2 where "set_zcolor c a s = Some s1" and "set_zcolor GC_BLACK a s1 = Some s2" and "set_zcolor GC_BLACK a s = Some s2"
    and "keeps s s2" and "view s2 = view s"
proof
  let ?s1 = "s\<lparr>zvals := (zvals s)(a \<mapsto> z\<lparr>z_color := c\<rparr>)\<rparr>"
  let ?s2 = "s\<lparr>zvals := (zvals s)(a \<mapsto> z\<lparr>z_color := GC_BLACK\<rparr>)\<rparr>"
  show "set_zcolor c a s = Some ?s1" and "set_zcolor GC_BLACK a ?s1 = Some ?s2" and "set_zcolor GC_BLACK a s = Some ?s2"
    using z by (simp_all add: set_zcolor_def zv_upd_def)
  show "keeps s ?s2" using z
    by (auto simp: keeps_def same_shape_def same_addrs_def same_rest_def same_syms_def ztype_def fun_eq_iff
        intro!: exI [of _ "(zvals s)(a \<mapsto> z\<lparr>z_color := GC_BLACK\<rparr>)"] exI [of _ "objects s"])
  show "view ?s2 = view s" using z by (auto simp: view_def zcol_def zcnt_def fun_eq_iff split: gnode.splits)
qed

lemma zcol_type: "ztype s a = Some t \<Longrightarrow> t \<noteq> Symbol_table \<Longrightarrow> zvals s a = Some z \<Longrightarrow> zcol (zvals s a) = z_color z"
  by (auto simp: zvals_type zcol_def)

declare view_node [simp del]

text \<open>The number of values whose colour satisfies a predicate: those a phase can still visit.\<close>

definition num :: "(gc_color \<Rightarrow> bool) \<Rightarrow> gc \<Rightarrow> nat" where
  "num P s = card {a. ztype s a \<noteq> None \<and> P (gcol (view s) (Zv a))}"

lemma num_view: "ztype s' = ztype s \<Longrightarrow> view s' = view s \<Longrightarrow> num P s' = num P s"
  by (simp add: num_def)

lemma num_finite: "heap_closed s \<Longrightarrow> finite {a. ztype s a \<noteq> None \<and> Q a}"
  by (rule finite_subset [of _ "{a. ztype s a \<noteq> None}"]) (auto simp: heap_closed_def)

lemma num_mono:
  assumes "heap_closed s" and "ztype s' = ztype s" and "\<And>b. P (gcol (view s') (Zv b)) \<Longrightarrow> P (gcol (view s) (Zv b))"
  shows "num P s' \<le> num P s"
  unfolding num_def assms(2) by (rule card_mono [OF num_finite [OF assms(1)]]) (use assms(3) in blast)

lemma num_less:
  assumes "heap_closed s" and "ztype s' = ztype s" and "\<And>b. P (gcol (view s') (Zv b)) \<Longrightarrow> P (gcol (view s) (Zv b))"
    and "ztype s a \<noteq> None" and "P (gcol (view s) (Zv a))" and "\<not> P (gcol (view s') (Zv a))"
  shows "num P s' < num P s"
  unfolding num_def assms(2)
proof (rule psubset_card_mono [OF num_finite [OF assms(1)]])
  show "{b. ztype s b \<noteq> None \<and> P (gcol (view s') (Zv b))} \<subset> {b. ztype s b \<noteq> None \<and> P (gcol (view s) (Zv b))}"
    using assms(3-6) by blast
qed

lemma gsweep_keeps_color:
  assumes "gsweep c d succs ns v v'" and "gcol v n = c"
  shows "gcol v' n = c"
proof -
  obtain D where D: "swept c d succs ns v v' D" using gsweep_swept [OF assms(1)] by blast
  show ?thesis using D assms(2) by (cases "n \<in> D") (simp_all add: swept_def)
qed

end
