(* ===== verification/Zend_Gc_Phases.thy ===== *)
theory Zend_Gc_Phases
  imports Zend_Gc_View
begin

text \<open>
  The recursive functions of the collector return, and do on memory what the phases of \<open>Gc_Graph\<close> do on its graph.

  The locale \<open>heap_visit\<close> is what the four recursions have in common: a list of values is visited one by one, a visit may visit other
  lists when it has made progress, and what a visit does is the abstract phase \<open>rel\<close> at the value's node.
\<close>

definition follows :: "(addr list \<Rightarrow> gc \<Rightarrow> gc option) \<Rightarrow> (gc \<Rightarrow> gc \<Rightarrow> bool) \<Rightarrow> (gc \<Rightarrow> nat) \<Rightarrow>
    ((gnode \<Rightarrow> gnode list) \<Rightarrow> gnode list \<Rightarrow> gnode gview \<Rightarrow> gnode gview \<Rightarrow> bool) \<Rightarrow> addr list \<Rightarrow> gc \<Rightarrow> bool" where
  "follows each K fuel rel ps s \<longleftrightarrow>
     (\<exists>s'. each ps s = Some s' \<and> K s s' \<and> fuel s' \<le> fuel s \<and> rel (gsuccs s) (grefs s ps) (view s) (view s'))"

locale heap_visit =
  fixes visit :: "(addr list \<Rightarrow> gc \<Rightarrow> gc option) \<Rightarrow> addr \<Rightarrow> gc \<Rightarrow> gc option"
    and each :: "addr list \<Rightarrow> gc \<Rightarrow> gc option"
    and ok :: "gc \<Rightarrow> bool"
    and K :: "gc \<Rightarrow> gc \<Rightarrow> bool"
    and fuel :: "gc \<Rightarrow> nat"
    and rel :: "(gnode \<Rightarrow> gnode list) \<Rightarrow> gnode list \<Rightarrow> gnode gview \<Rightarrow> gnode gview \<Rightarrow> bool"
  assumes each_eq: "each ps s = (case ps of [] \<Rightarrow> Some s | a # ps' \<Rightarrow> visit each a s \<bind> each ps')"
    and K_refl: "K s s"
    and K_trans: "K s s1 \<Longrightarrow> K s1 s2 \<Longrightarrow> K s s2"
    and K_shape: "K s s' \<Longrightarrow> same_shape s s'"
    and ok_K: "ok s \<Longrightarrow> K s s' \<Longrightarrow> ok s'"
    and rel_nil: "rel g [] v v"
    and rel_append: "rel g ms v v1 \<Longrightarrow> rel g ns v1 v' \<Longrightarrow> rel g (ms @ ns) v v'"
    and visit_ok: "ok s \<Longrightarrow> ztype s a \<noteq> None \<Longrightarrow> (\<And>kids s1. ok s1 \<Longrightarrow> same_shape s s1 \<Longrightarrow> fuel s1 < fuel s \<Longrightarrow>
        \<forall>x\<in>set kids. ztype s x \<noteq> None \<Longrightarrow> follows each K fuel rel kids s1) \<Longrightarrow>
      \<exists>s1. visit each a s = Some s1 \<and> K s s1 \<and> fuel s1 \<le> fuel s \<and> rel (gsuccs s) (grefs s [a]) (view s) (view s1)"
begin

lemma each_follows_within:
  assumes "ok s" and "\<forall>x\<in>set ps. ztype s x \<noteq> None" and "fuel s \<le> n"
  shows "follows each K fuel rel ps s"
  using assms
proof (induction n arbitrary: s ps rule: less_induct)
  case (less n)
  note outer = less.IH
  show ?case
    using less.prems
  proof (induction ps arbitrary: s)
    case Nil
    then show ?case by (auto simp: follows_def each_eq [of "[]"] K_refl rel_nil grefs_def)
  next
    case (Cons a ps)
    have "follows each K fuel rel kids s1" if "ok s1" "same_shape s s1" "fuel s1 < fuel s" "\<forall>x\<in>set kids. ztype s x \<noteq> None" for kids s1
      using that outer [of "fuel s1" s1 kids] shape_refs(3) [OF that(2)] Cons.prems(3) by simp
    then obtain s1 where s1: "visit each a s = Some s1" "K s s1" "fuel s1 \<le> fuel s" "rel (gsuccs s) (grefs s [a]) (view s) (view s1)"
      using visit_ok [OF Cons.prems(1), of a] Cons.prems(2) by auto
    note shape = shape_refs [OF K_shape [OF s1(2)]]
    obtain s2 where s2: "each ps s1 = Some s2" "K s1 s2" "fuel s2 \<le> fuel s1" "rel (gsuccs s1) (grefs s1 ps) (view s1) (view s2)"
      using Cons.IH [OF ok_K [OF Cons.prems(1) s1(2)]] Cons.prems(2,3) s1(3) by (auto simp: follows_def shape)
    have "each (a # ps) s = Some s2" using s1(1) s2(1) by (simp add: each_eq [of "a # ps"])
    moreover have "grefs s (a # ps) = grefs s [a] @ grefs s ps" by (simp add: grefs_def)
    ultimately show ?case using s1 s2 K_trans [OF s1(2) s2(2)] rel_append [OF s1(4), of "grefs s ps"]
      by (auto simp: follows_def shape)
  qed
qed

lemma each_follows: "ok s \<Longrightarrow> \<forall>x\<in>set ps. ztype s x \<noteq> None \<Longrightarrow> follows each K fuel rel ps s"
  using each_follows_within by blast

end

subsection \<open>Sweeps\<close>

text \<open>The parts of a sweep's visit, for marking and blackening alike.\<close>

lemma gsweep_append: "gsweep c d g ms v v1 \<Longrightarrow> gsweep c d g ns v1 v' \<Longrightarrow> gsweep c d g (ms @ ns) v v'"
  by (induction rule: gsweep.induct) (auto intro: gsweep.intros)

lemma gsweep_one: "gcol v n \<noteq> c \<Longrightarrow> gsweep c d g (g n) (paint n c (bump d n v)) v' \<Longrightarrow> gsweep c d g [n] v v'"
  by (rule sweep_new) (auto intro: sweep_nil)

lemma gsweep_again: "gcol v n = c \<Longrightarrow> gsweep c d g [n] v (bump d n v)"
  by (rule sweep_seen) (auto intro: sweep_nil)

lemma grefs_single: "grefs s [a] = (if ztype s a = Some Symbol_table then [] else [Zv a])"
  by (simp add: grefs_def)

lemma grefs_nil [simp]: "grefs s [] = []"
  by (simp add: grefs_def)

lemma closed_kids:
  assumes "heap_closed s"
  shows "ztype s a = Some (Array xs) \<Longrightarrow> \<forall>x\<in>set xs. ztype s x \<noteq> None"
    and "orefs s h = Some ps \<Longrightarrow> \<forall>x\<in>set ps. ztype s x \<noteq> None"
    and "ztype s a = Some (Object h) \<Longrightarrow> \<exists>ps. orefs s h = Some ps"
  using assms unfolding heap_closed_def by blast+

lemma zobj_grey_step_view:
  assumes "orefs s h = Some ps"
  obtains s' kids where "zobj_grey_step h s = Some (kids, s')" and "keeps s s'"
    and "gcol (view s) (Ob h) = GC_GREY \<Longrightarrow> kids = [] \<and> view s' = view s"
    and "gcol (view s) (Ob h) \<noteq> GC_GREY \<Longrightarrow> kids = ps \<and> view s' = paint (Ob h) GC_GREY (view s)"
proof -
  obtain ob where ob: "objects s h = Some ob" "gc_refs ob = ps" using assms by (auto simp: orefs_def)
  have col: "gcol (view s) (Ob h) = o_color ob" using ob by (simp add: view_node ocol_def)
  show ?thesis
  proof (cases "o_color ob = GC_GREY")
    case True
    then show ?thesis using ob col by (intro that [of "[]" s]) (simp_all add: zobj_grey_step_def)
  next
    case False
    obtain s' where "set_ocolor GC_GREY h s = Some s'" "keeps s s'" "view s' = paint (Ob h) GC_GREY (view s)"
      using set_ocolor_view [OF ob(1)] .
    then show ?thesis using False ob col by (intro that [of ps s']) (simp_all add: zobj_grey_step_def)
  qed
qed

text \<open>The object part of a visit; for marking and blackening it has the same effect, with their colour and difference.\<close>

definition obj_step :: "gc_color \<Rightarrow> uint \<Rightarrow> (nat \<Rightarrow> gc \<Rightarrow> (addr list \<times> gc) option) \<Rightarrow> bool" where
  "obj_step c d f \<longleftrightarrow> (\<forall>s h ps. orefs s h = Some ps \<longrightarrow> (\<exists>kids s'. f h s = Some (kids, s') \<and> keeps s s' \<and>
     (gcol (view s) (Ob h) = c \<longrightarrow> kids = [] \<and> view s' = bump d (Ob h) (view s)) \<and>
     (gcol (view s) (Ob h) \<noteq> c \<longrightarrow> kids = ps \<and> view s' = paint (Ob h) c (bump d (Ob h) (view s)))))"

definition sweep_kids :: "(nat \<Rightarrow> gc \<Rightarrow> (addr list \<times> gc) option) \<Rightarrow> zdata \<Rightarrow> gc \<Rightarrow> (addr list \<times> gc) option" where
  "sweep_kids f t s =
     (case t of
        Object h \<Rightarrow> if object_buckets s then f h s else Some ([], s)
      | Array xs \<Rightarrow> Some (xs, s)
      | _ \<Rightarrow> Some ([], s))"

lemma grey_obj_step: "obj_step GC_GREY (- 1) (\<lambda>h s. obj_ref (- 1) h s \<bind> zobj_grey_step h)"
  unfolding obj_step_def
proof (intro allI impI)
  fix s h ps
  assume ps: "orefs s h = Some ps"
  then obtain ob where "objects s h = Some ob" by (auto simp: orefs_def)
  then obtain s1 where s1: "obj_ref (- 1) h s = Some s1" "keeps s s1" "view s1 = bump (- 1) (Ob h) (view s)" by (rule obj_ref_view)
  then have "orefs s1 h = Some ps" using ps shape_orefs [OF keeps_shape [OF s1(2)]] by simp
  then obtain s2 kids where "zobj_grey_step h s1 = Some (kids, s2)" "keeps s1 s2"
    "gcol (view s1) (Ob h) = GC_GREY \<Longrightarrow> kids = [] \<and> view s2 = view s1"
    "gcol (view s1) (Ob h) \<noteq> GC_GREY \<Longrightarrow> kids = ps \<and> view s2 = paint (Ob h) GC_GREY (view s1)"
    using zobj_grey_step_view by metis
  then show "\<exists>kids s'. (obj_ref (- 1) h s \<bind> zobj_grey_step h) = Some (kids, s') \<and> keeps s s' \<and>
      (gcol (view s) (Ob h) = GC_GREY \<longrightarrow> kids = [] \<and> view s' = bump (- 1) (Ob h) (view s)) \<and>
      (gcol (view s) (Ob h) \<noteq> GC_GREY \<longrightarrow> kids = ps \<and> view s' = paint (Ob h) GC_GREY (bump (- 1) (Ob h) (view s)))"
    using s1 keeps_trans [OF s1(2)] by (intro exI [of _ kids] exI [of _ s2]) simp
qed

lemma sweep_kids_view:
  assumes f: "obj_step c d f" and closed: "heap_closed s" and t: "ztype s a = Some t" "t \<noteq> Symbol_table"
  obtains kids s' where "sweep_kids f t s = Some (kids, s')" and "keeps s s'" and "\<forall>x\<in>set kids. ztype s x \<noteq> None"
    and "\<And>b. gcol (view s') (Zv b) = gcol (view s) (Zv b)"
    and "\<And>v. gsweep c d (gsuccs s) (grefs s kids) (view s') v \<Longrightarrow> gsweep c d (gsuccs s) (gsuccs s (Zv a)) (view s) v"
proof (cases t)
  case Scalar
  then show ?thesis using t by (intro that [of "[]" s]) (simp_all add: sweep_kids_def)
next
  case (Array xs)
  then show ?thesis using t closed_kids(1) [OF closed] by (intro that [of xs s]) (simp_all add: sweep_kids_def)
next
  case (Object h)
  obtain ps where ps: "orefs s h = Some ps" using closed_kids(3) [OF closed] t Object by blast
  obtain kids s' where k: "f h s = Some (kids, s')" "keeps s s'"
    "gcol (view s) (Ob h) = c \<longrightarrow> kids = [] \<and> view s' = bump d (Ob h) (view s)"
    "gcol (view s) (Ob h) \<noteq> c \<longrightarrow> kids = ps \<and> view s' = paint (Ob h) c (bump d (Ob h) (view s))"
    using f ps unfolding obj_step_def by blast
  have succs: "gsuccs s (Zv a) = (if object_buckets s then [Ob h] else [])" "gsuccs s (Ob h) = grefs s ps"
    using t Object ps by simp_all
  show ?thesis
  proof (cases "object_buckets s")
    case False
    then show ?thesis using Object succs by (intro that [of "[]" s]) (simp_all add: sweep_kids_def)
  next
    case True
    show ?thesis
    proof (cases "gcol (view s) (Ob h) = c")
      case seen: True
      have "gsweep c d (gsuccs s) [Ob h] (view s) v" if "gsweep c d (gsuccs s) [] (bump d (Ob h) (view s)) v" for v
        using sweep_seen [OF seen that] .
      then show ?thesis using Object True k seen succs by (intro that [of "[]" s']) (simp_all add: sweep_kids_def)
    next
      case False
      have "gsweep c d (gsuccs s) [Ob h] (view s) v"
        if "gsweep c d (gsuccs s) (grefs s ps) (paint (Ob h) c (bump d (Ob h) (view s))) v" for v
        using gsweep_one [OF False, of d "gsuccs s" v] that succs(2) by simp
      then show ?thesis using Object True k False succs closed_kids(2) [OF closed ps]
        by (intro that [of ps s']) (simp_all add: sweep_kids_def)
    qed
  qed
qed (use t in simp)

lemma sweep_visit_new:
  assumes f: "obj_step c d f" and closed: "heap_closed s" and t: "ztype s a = Some t" "t \<noteq> Symbol_table"
    and new: "gcol (view s) (Zv a) \<noteq> c" and s1: "keeps s s1" "view s1 = bump d (Zv a) (view s)"
    and kids: "\<And>kids s1. heap_closed s1 \<Longrightarrow> same_shape s s1 \<Longrightarrow> num (\<lambda>x. x \<noteq> c) s1 < num (\<lambda>x. x \<noteq> c) s \<Longrightarrow> \<forall>x\<in>set kids. ztype s x \<noteq> None \<Longrightarrow>
      follows each keeps (num (\<lambda>x. x \<noteq> c)) (gsweep c d) kids s1"
  obtains s2 s' where "set_zcolor c a s1 = Some s2" and "(sweep_kids f t s2 \<bind> (\<lambda>(kids, s). each kids s)) = Some s'"
    and "keeps s s'" and "num (\<lambda>x. x \<noteq> c) s' \<le> num (\<lambda>x. x \<noteq> c) s" and "gsweep c d (gsuccs s) [Zv a] (view s) (view s')"
proof -
  have "ztype s1 a = Some t" using t keeps_refs(3) [OF s1(1)] by simp
  then obtain s2 where s2: "set_zcolor c a s1 = Some s2" "keeps s1 s2" "view s2 = paint (Zv a) c (view s1)"
    using t(2) by (rule set_zcolor_view)
  have k2: "keeps s s2" using s1(1) s2(2) by (rule keeps_trans)
  note same2 = keeps_refs [OF k2]
  have "heap_closed s2" using closed heap_closed_shape [OF keeps_shape [OF k2]] by simp
  moreover have "ztype s2 a = Some t" using t same2 by simp
  ultimately obtain ks s3 where s3: "sweep_kids f t s2 = Some (ks, s3)" "keeps s2 s3" "\<forall>x\<in>set ks. ztype s2 x \<noteq> None"
    "\<And>b. gcol (view s3) (Zv b) = gcol (view s2) (Zv b)"
    "\<And>v. gsweep c d (gsuccs s2) (grefs s2 ks) (view s3) v \<Longrightarrow> gsweep c d (gsuccs s2) (gsuccs s2 (Zv a)) (view s2) v"
    using sweep_kids_view [OF f _ _ t(2)] by metis
  have k3: "keeps s s3" using k2 s3(2) by (rule keeps_trans)
  have "num (\<lambda>x. x \<noteq> c) s3 < num (\<lambda>x. x \<noteq> c) s"
    by (rule num_less [OF closed keeps_refs(3) [OF k3], where a = a]) (auto simp: s3(4) s2(3) s1(2) t new split: if_splits)
  moreover from this have "follows each keeps (num (\<lambda>x. x \<noteq> c)) (gsweep c d) ks s3" using kids [OF heap_closed_keeps [OF closed k3] keeps_shape [OF k3]] s3(3) same2 by simp
  ultimately obtain s4 where s4: "each ks s3 = Some s4" "keeps s3 s4" "num (\<lambda>x. x \<noteq> c) s4 \<le> num (\<lambda>x. x \<noteq> c) s"
    "gsweep c d (gsuccs s3) (grefs s3 ks) (view s3) (view s4)"
    by (auto simp: follows_def)
  have "gsweep c d (gsuccs s2) (gsuccs s2 (Zv a)) (view s2) (view s4)" using s3(5) s4(4) keeps_refs [OF s3(2)] by simp
  then have "gsweep c d (gsuccs s) [Zv a] (view s) (view s4)" using gsweep_one [OF new] same2 s2(3) s1(2) by simp
  then show ?thesis using s2(1) s3(1) s4 keeps_trans [OF k3 s4(2)] by (intro that [of s2 s4]) simp_all
qed

text \<open>
  A visit adds \<open>d\<close> to the count and visits what \<open>step\<close> returns; \<open>sweep_step\<close> is what a step does: nothing to a value that has the colour
  already or is the symbol table, else it paints the value and returns its references.
\<close>

definition sweep_visit :: "uint \<Rightarrow> (addr \<Rightarrow> gc \<Rightarrow> (addr list \<times> gc) option) \<Rightarrow> (addr list \<Rightarrow> gc \<Rightarrow> gc option) \<Rightarrow> addr \<Rightarrow> gc \<Rightarrow> gc option"
  where "sweep_visit d step each a s = do { s \<leftarrow> add_ref d a s; (kids, s) \<leftarrow> step a s; each kids s }"

definition sweep_step :: "gc_color \<Rightarrow> (nat \<Rightarrow> gc \<Rightarrow> (addr list \<times> gc) option) \<Rightarrow> (addr \<Rightarrow> gc \<Rightarrow> (addr list \<times> gc) option) \<Rightarrow> bool" where
  "sweep_step c f step \<longleftrightarrow> (\<forall>s a z. zvals s a = Some z \<longrightarrow>
     (z_type z = Symbol_table \<longrightarrow> (\<exists>s'. step a s = Some ([], s') \<and> keeps s s' \<and> view s' = view s)) \<and>
     (z_type z \<noteq> Symbol_table \<longrightarrow> z_color z = c \<longrightarrow> step a s = Some ([], s)) \<and>
     (z_type z \<noteq> Symbol_table \<longrightarrow> z_color z \<noteq> c \<longrightarrow> step a s = set_zcolor c a s \<bind> sweep_kids f (z_type z)))"

lemma sweep_visit_ok:
  assumes f: "obj_step c d f" and step: "sweep_step c f step"
    and closed: "heap_closed s" and t: "ztype s a \<noteq> None" and nil: "\<And>s. each [] s = Some s"
    and kids: "\<And>kids s1. heap_closed s1 \<Longrightarrow> same_shape s s1 \<Longrightarrow> num (\<lambda>x. x \<noteq> c) s1 < num (\<lambda>x. x \<noteq> c) s \<Longrightarrow>
      \<forall>x\<in>set kids. ztype s x \<noteq> None \<Longrightarrow> follows each keeps (num (\<lambda>x. x \<noteq> c)) (gsweep c d) kids s1"
  shows "\<exists>s1. sweep_visit d step each a s = Some s1 \<and> keeps s s1 \<and> num (\<lambda>x. x \<noteq> c) s1 \<le> num (\<lambda>x. x \<noteq> c) s \<and>
    gsweep c d (gsuccs s) (grefs s [a]) (view s) (view s1)"
proof -
  obtain t where t: "ztype s a = Some t" using t by blast
  obtain s1 where s1: "add_ref d a s = Some s1" "keeps s s1"
    "view s1 = (if t = Symbol_table then view s else bump d (Zv a) (view s))"
    using add_ref_view [OF t] .
  have t1: "ztype s1 a = Some t" using t keeps_refs(3) [OF s1(2)] by simp
  then obtain z where z: "zvals s1 a = Some z" "z_type z = t" by (auto simp: zvals_type)
  show ?thesis
  proof (cases "t = Symbol_table")
    case True
    then obtain s2 where s2: "step a s1 = Some ([], s2)" "keeps s1 s2" "view s2 = view s1" using step z unfolding sweep_step_def by blast
    have "sweep_visit d step each a s = Some s2" using s1(1) s2(1) nil by (simp add: sweep_visit_def)
    moreover have "view s2 = view s" and k: "keeps s s2" using s1 s2 True keeps_trans [OF s1(2)] by simp_all
    ultimately show ?thesis using True t num_view [OF keeps_refs(3) [OF k]] by (intro exI [of _ s2]) (simp add: grefs_single sweep_nil)
  next
    case False
    have col: "gcol (view s) (Zv a) = z_color z" using zcol_type [OF t1 False z(1)] s1(3) False by (metis view_simps(3) view_node(1))
    show ?thesis
    proof (cases "z_color z = c")
      case True
      then have "step a s1 = Some ([], s1)" using step z False unfolding sweep_step_def by blast
      then have "sweep_visit d step each a s = Some s1" using s1(1) nil by (simp add: sweep_visit_def)
      moreover have "gsweep c d (gsuccs s) [Zv a] (view s) (view s1)" using gsweep_again True col s1(3) False by simp
      moreover have "num (\<lambda>x. x \<noteq> c) s1 \<le> num (\<lambda>x. x \<noteq> c) s"
        by (rule num_mono [OF closed keeps_refs(3) [OF s1(2)]]) (simp add: s1(3) False)
      ultimately show ?thesis using s1(2) t False by (intro exI [of _ s1]) (simp add: grefs_single)
    next
      case new: False
      have v1: "view s1 = bump d (Zv a) (view s)" using s1(3) False by simp
      have "step a s1 = set_zcolor c a s1 \<bind> sweep_kids f t" using step z False new unfolding sweep_step_def by blast
      moreover obtain s2 s' where s': "set_zcolor c a s1 = Some s2" "(sweep_kids f t s2 \<bind> (\<lambda>(kids, s). each kids s)) = Some s'"
        "keeps s s'" "num (\<lambda>x. x \<noteq> c) s' \<le> num (\<lambda>x. x \<noteq> c) s" "gsweep c d (gsuccs s) [Zv a] (view s) (view s')"
        by (rule sweep_visit_new [OF f closed t False _ s1(2) v1 kids]) (use col new in simp_all)
      ultimately have "sweep_visit d step each a s = Some s'" using s1(1) by (simp add: sweep_visit_def)
      then show ?thesis using s' t False by (intro exI [of _ s']) (simp add: grefs_single)
    qed
  qed
qed

lemma sweep_heap_visit:
  assumes "obj_step c d f" and "sweep_step c f step"
    and eq: "\<And>ps s. each ps s = (case ps of [] \<Rightarrow> Some s | a # ps' \<Rightarrow> sweep_visit d step each a s \<bind> each ps')"
  shows "heap_visit (sweep_visit d step) each heap_closed keeps (num (\<lambda>x. x \<noteq> c)) (gsweep c d)"
proof
  fix s a
  assume "heap_closed s" and "ztype s a \<noteq> None" and "\<And>kids s1. heap_closed s1 \<Longrightarrow> same_shape s s1 \<Longrightarrow> num (\<lambda>x. x \<noteq> c) s1 < num (\<lambda>x. x \<noteq> c) s \<Longrightarrow>
      \<forall>x\<in>set kids. ztype s x \<noteq> None \<Longrightarrow> follows each keeps (num (\<lambda>x. x \<noteq> c)) (gsweep c d) kids s1"
  then show "\<exists>s1. sweep_visit d step each a s = Some s1 \<and> keeps s s1 \<and> num (\<lambda>x. x \<noteq> c) s1 \<le> num (\<lambda>x. x \<noteq> c) s \<and>
    gsweep c d (gsuccs s) (grefs s [a]) (view s) (view s1)"
    by (intro sweep_visit_ok [OF assms(1,2)]) (simp_all add: eq [of "[]"])
qed (auto intro: keeps_trans keeps_shape sweep_nil gsweep_append heap_closed_keeps eq)

subsubsection \<open>Marking\<close>

lemma grey_sweep_step: "sweep_step GC_GREY (\<lambda>h s. obj_ref (- 1) h s \<bind> zobj_grey_step h) zval_grey_step"
  unfolding sweep_step_def
proof (intro allI impI conjI)
  fix s :: gc and a z
  assume z: "zvals s a = Some z"
  { assume sym: "z_type z = Symbol_table"
    obtain s2 s3 where "set_zcolor GC_GREY a s = Some s2" "set_zcolor GC_BLACK a s2 = Some s3" "keeps s s3" "view s3 = view s"
      using set_zcolor_sym [OF z sym] by metis
    then show "\<exists>s'. zval_grey_step a s = Some ([], s') \<and> keeps s s' \<and> view s' = view s"
      using z sym by (cases "z_color z = GC_GREY") (simp_all add: zval_grey_step_def) }
  assume "z_type z \<noteq> Symbol_table"
  then show "zval_grey_step a s = set_zcolor GC_GREY a s \<bind> sweep_kids (\<lambda>h s. obj_ref (- 1) h s \<bind> zobj_grey_step h) (z_type z)"
    if "z_color z \<noteq> GC_GREY"
    using z that by (cases "set_zcolor GC_GREY a s") (auto simp: zval_grey_step_def sweep_kids_def split: zdata.splits)
  show "zval_grey_step a s = Some ([], s)" if "z_color z = GC_GREY" using z that by (simp add: zval_grey_step_def)
qed

interpretation grey: heap_visit "sweep_visit (- 1) zval_grey_step" mark_grey_each heap_closed keeps "num (\<lambda>x. x \<noteq> GC_GREY)" "gsweep GC_GREY (- 1)"
  by (rule sweep_heap_visit [OF grey_obj_step grey_sweep_step], subst mark_grey_each.simps)
    (auto simp: sweep_visit_def bind_assoc case_prod_unfold split: list.splits)

subsubsection \<open>Blackening\<close>

definition black_check :: "addr \<Rightarrow> gc \<Rightarrow> (addr list \<times> gc) option" where
  "black_check a s = do { z \<leftarrow> zvals s a; if z_color z \<noteq> GC_BLACK then zval_black_step a s else Some ([], s) }"

definition black_obj :: "nat \<Rightarrow> gc \<Rightarrow> (addr list \<times> gc) option" where
  "black_obj h s = do {
     s \<leftarrow> obj_ref 1 h s;
     obj \<leftarrow> objects s h;
     if o_color obj \<noteq> GC_BLACK then zobj_black_step h s else Some ([], s)
   }"

lemma zobj_black_step_view:
  assumes "orefs s h = Some ps"
  obtains s' where "zobj_black_step h s = Some (ps, s')" and "keeps s s'" and "view s' = paint (Ob h) GC_BLACK (view s)"
proof -
  obtain ob where ob: "objects s h = Some ob" "gc_refs ob = ps" using assms by (auto simp: orefs_def)
  obtain s' where "set_ocolor GC_BLACK h s = Some s'" "keeps s s'" "view s' = paint (Ob h) GC_BLACK (view s)"
    using set_ocolor_view [OF ob(1)] .
  then show ?thesis using ob by (intro that [of s']) (simp_all add: zobj_black_step_def)
qed

lemma black_obj_step: "obj_step GC_BLACK 1 black_obj"
  unfolding obj_step_def
proof (intro allI impI)
  fix s h ps
  assume ps: "orefs s h = Some ps"
  then obtain ob where "objects s h = Some ob" by (auto simp: orefs_def)
  then obtain s1 where s1: "obj_ref 1 h s = Some s1" "keeps s s1" "view s1 = bump 1 (Ob h) (view s)" by (rule obj_ref_view)
  then have ps1: "orefs s1 h = Some ps" using ps shape_orefs [OF keeps_shape [OF s1(2)]] by simp
  then obtain ob where ob: "objects s1 h = Some ob" by (auto simp: orefs_def)
  then have "gcol (view s1) (Ob h) = o_color ob" by (simp add: view_node ocol_def)
  then have col: "o_color ob = gcol (view s) (Ob h)" using s1(3) by simp
  obtain s2 where s2: "zobj_black_step h s1 = Some (ps, s2)" "keeps s1 s2" "view s2 = paint (Ob h) GC_BLACK (view s1)"
    using zobj_black_step_view [OF ps1] .
  show "\<exists>kids s'. black_obj h s = Some (kids, s') \<and> keeps s s' \<and>
      (gcol (view s) (Ob h) = GC_BLACK \<longrightarrow> kids = [] \<and> view s' = bump 1 (Ob h) (view s)) \<and>
      (gcol (view s) (Ob h) \<noteq> GC_BLACK \<longrightarrow> kids = ps \<and> view s' = paint (Ob h) GC_BLACK (bump 1 (Ob h) (view s)))"
    using s1 s2 ob col keeps_trans [OF s1(2) s2(2)] by (cases "o_color ob = GC_BLACK") (simp_all add: black_obj_def)
qed

lemma zval_black_step_eq:
  "zvals s a = Some z \<Longrightarrow> zval_black_step a s = set_zcolor GC_BLACK a s \<bind> sweep_kids black_obj (z_type z)"
  by (cases "set_zcolor GC_BLACK a s") (auto simp: zval_black_step_def black_obj_def sweep_kids_def split: zdata.splits)

lemma black_sweep_step: "sweep_step GC_BLACK black_obj black_check"
  unfolding sweep_step_def
proof (intro allI impI conjI)
  fix s :: gc and a z
  assume z: "zvals s a = Some z"
  show "\<exists>s'. black_check a s = Some ([], s') \<and> keeps s s' \<and> view s' = view s" if "z_type z = Symbol_table"
    using z that set_zcolor_sym [OF z that, of GC_BLACK "\<exists>s'. set_zcolor GC_BLACK a s = Some s' \<and> keeps s s' \<and> view s' = view s"]
    by (cases "z_color z = GC_BLACK") (auto simp: black_check_def zval_black_step_eq sweep_kids_def)
  show "black_check a s = set_zcolor GC_BLACK a s \<bind> sweep_kids black_obj (z_type z)" if "z_color z \<noteq> GC_BLACK"
    using z that by (simp add: black_check_def zval_black_step_eq)
  show "black_check a s = Some ([], s)" if "z_color z = GC_BLACK" using z that by (simp add: black_check_def)
qed

lemma scan_black_each_eq:
  "scan_black_each ps s = (case ps of [] \<Rightarrow> Some s | a # ps' \<Rightarrow> sweep_visit 1 black_check scan_black_each a s \<bind> scan_black_each ps')"
proof (cases ps)
  case (Cons a ps')
  have nil: "scan_black_each [] = Some" by (simp add: scan_black_each.simps fun_eq_iff)
  show ?thesis unfolding Cons
    by (subst scan_black_each.simps) (auto simp: sweep_visit_def black_check_def nil bind_assoc case_prod_unfold intro!: Option.bind_cong)
qed (simp add: scan_black_each.simps)

interpretation black: heap_visit "sweep_visit 1 black_check" scan_black_each heap_closed keeps "num (\<lambda>x. x \<noteq> GC_BLACK)" "gsweep GC_BLACK 1"
  by (rule sweep_heap_visit [OF black_obj_step black_sweep_step scan_black_each_eq])

subsubsection \<open>Sweeps from one node\<close>

lemma sweep_from_value:
  assumes f: "obj_step c d f" and each: "\<And>kids s. heap_closed s \<Longrightarrow> \<forall>x\<in>set kids. ztype s x \<noteq> None \<Longrightarrow> follows each keeps fuel (gsweep c d) kids s"
    and closed: "heap_closed s" and t: "ztype s a = Some t" "t \<noteq> Symbol_table"
  shows "\<exists>s'. ((set_zcolor c a s \<bind> sweep_kids f t) \<bind> (\<lambda>(kids, s). each kids s)) = Some s' \<and> keeps s s' \<and>
    gsweep c d (gsuccs s) (gsuccs s (Zv a)) (paint (Zv a) c (view s)) (view s')"
proof -
  obtain s1 where s1: "set_zcolor c a s = Some s1" "keeps s s1" "view s1 = paint (Zv a) c (view s)" using set_zcolor_view [OF t] .
  note same = keeps_refs [OF s1(2)]
  have "heap_closed s1" "ztype s1 a = Some t" using closed heap_closed_keeps [OF _ s1(2)] t same by simp_all
  then obtain ks s2 where s2: "sweep_kids f t s1 = Some (ks, s2)" "keeps s1 s2" "\<forall>x\<in>set ks. ztype s1 x \<noteq> None"
    "\<And>v. gsweep c d (gsuccs s1) (grefs s1 ks) (view s2) v \<Longrightarrow> gsweep c d (gsuccs s1) (gsuccs s1 (Zv a)) (view s1) v"
    using sweep_kids_view [OF f _ _ t(2)] by metis
  have "follows each keeps fuel (gsweep c d) ks s2"
    using each heap_closed_keeps [OF \<open>heap_closed s1\<close> s2(2)] s2(3) keeps_refs(3) [OF s2(2)] by simp
  then obtain s3 where "each ks s2 = Some s3" "keeps s2 s3" "gsweep c d (gsuccs s2) (grefs s2 ks) (view s2) (view s3)"
    by (auto simp: follows_def)
  then show ?thesis using s1 s2 same keeps_refs [OF s2(2)] keeps_trans [OF s1(2) keeps_trans [OF s2(2)]]
    by (intro exI [of _ s3]) simp
qed

lemma zval_mark_grey_view:
  assumes "heap_closed s" and "ztype s a = Some t" and "t \<noteq> Symbol_table" and "gcol (view s) (Zv a) \<noteq> GC_GREY"
  shows "\<exists>s'. zval_mark_grey a s = Some s' \<and> keeps s s' \<and>
    gsweep GC_GREY (- 1) (gsuccs s) (gsuccs s (Zv a)) (paint (Zv a) GC_GREY (view s)) (view s')"
proof -
  obtain z where z: "zvals s a = Some z" "z_type z = t" using assms(2) by (auto simp: zvals_type)
  then have "z_color z \<noteq> GC_GREY" using assms(3,4) by (simp add: view_node zcol_def)
  then have "zval_grey_step a s = set_zcolor GC_GREY a s \<bind> sweep_kids (\<lambda>h s. obj_ref (- 1) h s \<bind> zobj_grey_step h) t"
    using grey_sweep_step z assms(3) unfolding sweep_step_def by blast
  then show ?thesis using sweep_from_value [OF grey_obj_step grey.each_follows assms(1-3)] by (simp add: zval_mark_grey_def)
qed

lemma zval_scan_black_view:
  assumes "heap_closed s" and "ztype s a = Some t" and "t \<noteq> Symbol_table"
  shows "\<exists>s'. zval_scan_black a s = Some s' \<and> keeps s s' \<and>
    gsweep GC_BLACK 1 (gsuccs s) (gsuccs s (Zv a)) (paint (Zv a) GC_BLACK (view s)) (view s')"
proof -
  obtain z where z: "zvals s a = Some z" "z_type z = t" using assms(2) by (auto simp: zvals_type)
  show ?thesis using sweep_from_value [OF black_obj_step black.each_follows assms] zval_black_step_eq [OF z(1)] z(2)
    by (simp add: zval_scan_black_def)
qed

lemma sweep_from_object:
  assumes ps: "orefs s h = Some ps" and step: "step h s = Some (ps, s1)" "keeps s s1" "view s1 = paint (Ob h) c (view s)"
    and closed: "heap_closed s"
    and each: "\<And>kids s. heap_closed s \<Longrightarrow> \<forall>x\<in>set kids. ztype s x \<noteq> None \<Longrightarrow> follows each keeps fuel (gsweep c d) kids s"
  shows "\<exists>s'. (step h s \<bind> (\<lambda>(kids, s). each kids s)) = Some s' \<and> keeps s s' \<and>
    gsweep c d (gsuccs s) (gsuccs s (Ob h)) (paint (Ob h) c (view s)) (view s')"
proof -
  have "follows each keeps fuel (gsweep c d) ps s1"
    using each heap_closed_keeps [OF closed step(2)] closed_kids(2) [OF closed ps] keeps_refs(3) [OF step(2)] by simp
  then show ?thesis using step ps keeps_trans [OF step(2)] keeps_refs [OF step(2)] by (auto simp: follows_def)
qed

lemma zobj_mark_grey_view:
  assumes "heap_closed s" and ps: "orefs s h = Some ps" and "gcol (view s) (Ob h) \<noteq> GC_GREY"
  shows "\<exists>s'. zobj_mark_grey h s = Some s' \<and> keeps s s' \<and>
    gsweep GC_GREY (- 1) (gsuccs s) (gsuccs s (Ob h)) (paint (Ob h) GC_GREY (view s)) (view s')"
proof -
  obtain s1 where s1: "zobj_grey_step h s = Some (ps, s1)" "keeps s s1" "view s1 = paint (Ob h) GC_GREY (view s)"
    using zobj_grey_step_view [OF ps] assms(3) by metis
  show ?thesis using sweep_from_object [where step = zobj_grey_step, OF ps s1 assms(1) grey.each_follows] by (simp add: zobj_mark_grey_def)
qed

lemma zobj_scan_black_view:
  assumes "heap_closed s" and ps: "orefs s h = Some ps"
  shows "\<exists>s'. zobj_scan_black h s = Some s' \<and> keeps s s' \<and>
    gsweep GC_BLACK 1 (gsuccs s) (gsuccs s (Ob h)) (paint (Ob h) GC_BLACK (view s)) (view s')"
proof -
  obtain s1 where s1: "zobj_black_step h s = Some (ps, s1)" "keeps s s1" "view s1 = paint (Ob h) GC_BLACK (view s)"
    using zobj_black_step_view [OF ps] .
  show ?thesis using sweep_from_object [where step = zobj_black_step, OF ps s1 assms(1) black.each_follows] by (simp add: zobj_scan_black_def)
qed

subsection \<open>Scanning\<close>

lemma gscan_append: "gscan g ms v v1 \<Longrightarrow> gscan g ns v1 v' \<Longrightarrow> gscan g (ms @ ns) v v'"
  by (induction rule: gscan.induct) (auto intro: gscan.intros)

lemma gscan_skip: "gcol v n \<noteq> GC_GREY \<Longrightarrow> gscan g [n] v v"
  by (auto intro: gscan.intros)

lemma gscan_alive: "gcol v n = GC_GREY \<Longrightarrow> gcnt v n \<noteq> 0 \<Longrightarrow> gsweep GC_BLACK 1 g (g n) (paint n GC_BLACK v) v' \<Longrightarrow> gscan g [n] v v'"
  by (auto intro: gscan.intros)

lemma gscan_dead: "gcol v n = GC_GREY \<Longrightarrow> gcnt v n = 0 \<Longrightarrow> gscan g (g n) (paint n GC_WHITE v) v' \<Longrightarrow> gscan g [n] v v'"
  by (auto intro: gscan.intros)

lemma gsweep_black_grey: "gsweep GC_BLACK d g ns v v' \<Longrightarrow> gcol v' n = GC_GREY \<Longrightarrow> gcol v n = GC_GREY"
proof -
  assume "gsweep GC_BLACK d g ns v v'" and n: "gcol v' n = GC_GREY"
  then obtain D where D: "swept GC_BLACK d g ns v v' D" using gsweep_swept by blast
  show ?thesis using D n by (cases "n \<in> D") (simp_all add: swept_def)
qed

lemma zobj_scan_step_view:
  assumes closed: "heap_closed s" and ps: "orefs s h = Some ps"
  shows "\<exists>kids s'. zobj_scan_step h s = Some (kids, s') \<and> keeps s s' \<and> (\<forall>x\<in>set kids. ztype s x \<noteq> None) \<and>
    (\<forall>b. gcol (view s') (Zv b) = GC_GREY \<longrightarrow> gcol (view s) (Zv b) = GC_GREY) \<and>
    (\<forall>v. gscan (gsuccs s) (grefs s kids) (view s') v \<longrightarrow> gscan (gsuccs s) [Ob h] (view s) v)"
proof -
  obtain ob where ob: "objects s h = Some ob" "gc_refs ob = ps" using ps by (auto simp: orefs_def)
  then have col: "gcol (view s) (Ob h) = o_color ob" and cnt: "gcnt (view s) (Ob h) = o_refcount ob"
    by (simp_all add: view_node ocol_def ocnt_def)
  consider "o_color ob \<noteq> GC_GREY" | "o_color ob = GC_GREY" "o_refcount ob \<noteq> 0" | "o_color ob = GC_GREY" "o_refcount ob = 0" by blast
  then show ?thesis
  proof cases
    case 1
    have "gscan (gsuccs s) [Ob h] (view s) v" if "gscan (gsuccs s) [] (view s) v" for v
      using gscan_append [OF gscan_skip that] 1 col by simp
    then show ?thesis using 1 ob by (intro exI [of _ "[]"] exI [of _ s]) (simp add: zobj_scan_step_def)
  next
    case 2
    obtain s' where s': "zobj_scan_black h s = Some s'" "keeps s s'"
      "gsweep GC_BLACK 1 (gsuccs s) (gsuccs s (Ob h)) (paint (Ob h) GC_BLACK (view s)) (view s')"
      using zobj_scan_black_view [OF closed ps] by blast
    have "gscan (gsuccs s) [Ob h] (view s) v" if "gscan (gsuccs s) [] (view s') v" for v
      using gscan_append [OF gscan_alive that] 2 col cnt s'(3) by simp
    moreover have "gcol (view s) (Zv b) = GC_GREY" if "gcol (view s') (Zv b) = GC_GREY" for b
      using gsweep_black_grey [OF s'(3) that] by simp
    ultimately show ?thesis using 2 ob s' by (intro exI [of _ "[]"] exI [of _ s']) (simp add: zobj_scan_step_def word_gt_0)
  next
    case 3
    obtain s' where s': "set_ocolor GC_WHITE h s = Some s'" "keeps s s'" "view s' = paint (Ob h) GC_WHITE (view s)"
      using set_ocolor_view [OF ob(1)] .
    have "gscan (gsuccs s) [Ob h] (view s) v" if "gscan (gsuccs s) (grefs s ps) (view s') v" for v
      using gscan_dead [of "view s" "Ob h"] that 3 col cnt s'(3) ps by simp
    then show ?thesis using 3 ob s' closed_kids(2) [OF closed ps] by (intro exI [of _ ps] exI [of _ s']) (simp add: zobj_scan_step_def)
  qed
qed

text \<open>A value that turned white: its references.\<close>

definition scan_kids :: "zdata \<Rightarrow> gc \<Rightarrow> (addr list \<times> gc) option" where
  "scan_kids t s =
     (case t of
        Object h \<Rightarrow> if object_buckets s then zobj_scan_step h s else Some ([], s)
      | Array xs \<Rightarrow> Some (xs, s)
      | _ \<Rightarrow> Some ([], s))"

lemma scan_kids_view:
  assumes closed: "heap_closed s" and t: "ztype s a = Some t" "t \<noteq> Symbol_table"
  shows "\<exists>kids s'. scan_kids t s = Some (kids, s') \<and> keeps s s' \<and> (\<forall>x\<in>set kids. ztype s x \<noteq> None) \<and>
    (\<forall>b. gcol (view s') (Zv b) = GC_GREY \<longrightarrow> gcol (view s) (Zv b) = GC_GREY) \<and>
    (\<forall>v. gscan (gsuccs s) (grefs s kids) (view s') v \<longrightarrow> gscan (gsuccs s) (gsuccs s (Zv a)) (view s) v)"
proof (cases t)
  case (Array xs)
  then show ?thesis using t closed_kids(1) [OF closed] by (intro exI [of _ xs] exI [of _ s]) (simp add: scan_kids_def)
next
  case (Object h)
  obtain ps where ps: "orefs s h = Some ps" using closed_kids(3) [OF closed] t Object by blast
  show ?thesis
  proof (cases "object_buckets s")
    case True
    then show ?thesis using zobj_scan_step_view [OF closed ps] Object t by (simp add: scan_kids_def)
  next
    case False
    then show ?thesis using Object t by (intro exI [of _ "[]"] exI [of _ s]) (simp add: scan_kids_def)
  qed
next
  case Scalar
  then show ?thesis using t by (intro exI [of _ "[]"] exI [of _ s]) (simp add: scan_kids_def)
qed (use t in simp)

definition scan_visit :: "(addr list \<Rightarrow> gc \<Rightarrow> gc option) \<Rightarrow> addr \<Rightarrow> gc \<Rightarrow> gc option" where
  "scan_visit each a s = zval_scan_step a s \<bind> (\<lambda>(kids, s). each kids s)"

lemma zval_scan_step_symbol:
  assumes z: "zvals s a = Some z" "z_type z = Symbol_table"
  shows "\<exists>s'. zval_scan_step a s = Some ([], s') \<and> keeps s s' \<and> view s' = view s"
proof -
  obtain s1 s2 where s1: "set_zcolor GC_WHITE a s = Some s1" "set_zcolor GC_BLACK a s1 = Some s2" "set_zcolor GC_BLACK a s = Some s2"
    "keeps s s2" "view s2 = view s"
    using set_zcolor_sym [OF z] by metis
  have black: "zval_scan_black a s = Some s2"
    using s1(3) z zval_black_step_eq [OF z(1)] by (simp add: zval_scan_black_def sweep_kids_def scan_black_each.simps)
  consider "z_color z \<noteq> GC_GREY" | "z_color z = GC_GREY" "refcount__gc z > 0" | "z_color z = GC_GREY" "\<not> refcount__gc z > 0" by blast
  then show ?thesis by cases (use z s1 black in \<open>simp_all add: zval_scan_step_def\<close>)
qed

lemma zval_scan_step_white:
  "zvals s a = Some z \<Longrightarrow> z_type z \<noteq> Symbol_table \<Longrightarrow> z_color z = GC_GREY \<Longrightarrow> refcount__gc z = 0 \<Longrightarrow>
    zval_scan_step a s = set_zcolor GC_WHITE a s \<bind> scan_kids (z_type z)"
  by (cases "set_zcolor GC_WHITE a s") (auto simp: zval_scan_step_def scan_kids_def split: zdata.splits)

lemma scan_visit_ok:
  assumes closed: "heap_closed s" and t: "ztype s a \<noteq> None" and nil: "\<And>s. each [] s = Some s"
    and kids: "\<And>kids s1. heap_closed s1 \<Longrightarrow> same_shape s s1 \<Longrightarrow> num (\<lambda>x. x = GC_GREY) s1 < num (\<lambda>x. x = GC_GREY) s \<Longrightarrow>
      \<forall>x\<in>set kids. ztype s x \<noteq> None \<Longrightarrow> follows each keeps (num (\<lambda>x. x = GC_GREY)) gscan kids s1"
  shows "\<exists>s1. scan_visit each a s = Some s1 \<and> keeps s s1 \<and> num (\<lambda>x. x = GC_GREY) s1 \<le> num (\<lambda>x. x = GC_GREY) s \<and>
    gscan (gsuccs s) (grefs s [a]) (view s) (view s1)"
proof -
  obtain t where t: "ztype s a = Some t" using t by blast
  obtain z where z: "zvals s a = Some z" "z_type z = t" using t by (auto simp: zvals_type)
  show ?thesis
  proof (cases "t = Symbol_table")
    case True
    then obtain s1 where s1: "zval_scan_step a s = Some ([], s1)" "keeps s s1" "view s1 = view s"
      using zval_scan_step_symbol z by blast
    then show ?thesis using True t nil num_view [OF keeps_refs(3) [OF s1(2)]]
      by (intro exI [of _ s1]) (simp add: scan_visit_def grefs_single scan_nil)
  next
    case False
    have col: "gcol (view s) (Zv a) = z_color z" and cnt: "gcnt (view s) (Zv a) = refcount__gc z"
      using z False by (simp_all add: view_node zcol_def zcnt_def)
    have refs: "grefs s [a] = [Zv a]" using t False by (simp add: grefs_single)
    consider "z_color z \<noteq> GC_GREY" | "z_color z = GC_GREY" "refcount__gc z \<noteq> 0" | "z_color z = GC_GREY" "refcount__gc z = 0" by blast
    then show ?thesis
    proof cases
      case 1
      then show ?thesis using z nil gscan_skip [of "view s" "Zv a"] col refs by (intro exI [of _ s]) (simp add: scan_visit_def zval_scan_step_def)
    next
      case 2
      obtain s' where s': "zval_scan_black a s = Some s'" "keeps s s'"
        "gsweep GC_BLACK 1 (gsuccs s) (gsuccs s (Zv a)) (paint (Zv a) GC_BLACK (view s)) (view s')"
        using zval_scan_black_view [OF closed t False] by blast
      have "num (\<lambda>x. x = GC_GREY) s' \<le> num (\<lambda>x. x = GC_GREY) s"
        using gsweep_black_grey [OF s'(3), of "Zv b" for b] by (intro num_mono [OF closed keeps_refs(3) [OF s'(2)]]) (fastforce split: if_splits)
      moreover have "gscan (gsuccs s) [Zv a] (view s) (view s')" using gscan_alive 2 col cnt s'(3) by metis
      ultimately show ?thesis using 2 z s' nil refs
        by (intro exI [of _ s']) (simp add: scan_visit_def zval_scan_step_def word_gt_0)
    next
      case 3
      obtain s1 where s1: "set_zcolor GC_WHITE a s = Some s1" "keeps s s1" "view s1 = paint (Zv a) GC_WHITE (view s)"
        using set_zcolor_view [OF t False] .
      note same = keeps_refs [OF s1(2)]
      obtain ks s2 where s2: "scan_kids t s1 = Some (ks, s2)" "keeps s1 s2" "\<forall>x\<in>set ks. ztype s1 x \<noteq> None"
        "\<And>b. gcol (view s2) (Zv b) = GC_GREY \<Longrightarrow> gcol (view s1) (Zv b) = GC_GREY"
        "\<And>v. gscan (gsuccs s1) (grefs s1 ks) (view s2) v \<Longrightarrow> gscan (gsuccs s1) (gsuccs s1 (Zv a)) (view s1) v"
        using scan_kids_view [OF heap_closed_keeps [OF closed s1(2)] _ False] t same by metis
      have k2: "keeps s s2" using s1(2) s2(2) by (rule keeps_trans)
      have white: "gcol (view s2) (Zv a) \<noteq> GC_GREY" using s2(4) [of a] s1(3) by auto
      have grey: "gcol (view s) (Zv b) = GC_GREY" if "gcol (view s2) (Zv b) = GC_GREY" for b
        using s2(4) [OF that] s1(3) by (cases "b = a") simp_all
      have "num (\<lambda>x. x = GC_GREY) s2 < num (\<lambda>x. x = GC_GREY) s"
        by (rule num_less [OF closed keeps_refs(3) [OF k2], where a = a])
          (use grey white t col 3 in simp_all)
      moreover from this have "follows each keeps (num (\<lambda>x. x = GC_GREY)) gscan ks s2" using kids [OF heap_closed_keeps [OF closed k2] keeps_shape [OF k2]] s2(3) same by simp
      ultimately obtain s3 where s3: "each ks s2 = Some s3" "keeps s2 s3" "num (\<lambda>x. x = GC_GREY) s3 \<le> num (\<lambda>x. x = GC_GREY) s"
        "gscan (gsuccs s2) (grefs s2 ks) (view s2) (view s3)"
        by (auto simp: follows_def)
      have "gscan (gsuccs s) (gsuccs s (Zv a)) (view s1) (view s3)" using s2(5) s3(4) keeps_refs [OF s2(2)] same by simp
      then have "gscan (gsuccs s) [Zv a] (view s) (view s3)" using gscan_dead 3 col cnt s1(3) by metis
      then show ?thesis using zval_scan_step_white [OF z(1)] z 3 False s1 s2(1) s3 keeps_trans [OF k2 s3(2)] refs
        by (intro exI [of _ s3]) (simp add: scan_visit_def)
    qed
  qed
qed

interpretation scan: heap_visit scan_visit scan_each heap_closed keeps "num (\<lambda>x. x = GC_GREY)" gscan
proof
  show eq: "scan_each ps s = (case ps of [] \<Rightarrow> Some s | a # ps' \<Rightarrow> scan_visit scan_each a s \<bind> scan_each ps')" for ps s
    by (subst scan_each.simps) (auto simp: scan_visit_def bind_assoc case_prod_unfold split: list.splits)
  fix s a
  assume "heap_closed s" and "ztype s a \<noteq> None" and "\<And>kids s1. heap_closed s1 \<Longrightarrow> same_shape s s1 \<Longrightarrow> num (\<lambda>x. x = GC_GREY) s1 < num (\<lambda>x. x = GC_GREY) s \<Longrightarrow>
      \<forall>x\<in>set kids. ztype s x \<noteq> None \<Longrightarrow> follows scan_each keeps (num (\<lambda>x. x = GC_GREY)) gscan kids s1"
  then show "\<exists>s1. scan_visit scan_each a s = Some s1 \<and> keeps s s1 \<and> num (\<lambda>x. x = GC_GREY) s1 \<le> num (\<lambda>x. x = GC_GREY) s \<and>
    gscan (gsuccs s) (grefs s [a]) (view s) (view s1)"
    by (intro scan_visit_ok) (simp_all add: eq [of "[]"])
qed (auto intro: keeps_trans keeps_shape scan_nil gscan_append heap_closed_keeps)

end
