(* ===== verification/Zend_Gc_Collect.thy ===== *)
theory Zend_Gc_Collect
  imports Zend_Gc_Phases
begin

text \<open>
  The collecting phase: \<open>zval_collect_white\<close> follows \<open>gcollect\<close>, and the list to free grows by the values that were white.
\<close>

definition naddr :: "gc \<Rightarrow> gnode \<Rightarrow> gc_addr option" where
  "naddr s n = (case n of Zv a \<Rightarrow> map_option z_addr (zvals s a) | Ob h \<Rightarrow> map_option o_addr (objects s h))"

primrec free_chain :: "gc \<Rightarrow> zfree \<Rightarrow> addr list \<Rightarrow> bool" where
  "free_chain s p [] \<longleftrightarrow> p = FREE_LIST_END"
| "free_chain s p (a # xs) \<longleftrightarrow> p = Free_zval a \<and> (\<exists>q. next_link a s = Some q \<and> free_chain s q xs)"

definition whites :: "gc \<Rightarrow> gnode set" where
  "whites s = {n. gcol (view s) n = GC_WHITE}"

definition syms_ok :: "gc \<Rightarrow> bool" where
  "syms_ok s \<longleftrightarrow> (\<forall>a z. zvals s a = Some z \<and> z_type z = Symbol_table \<longrightarrow> z_color z \<noteq> GC_WHITE)"

text \<open>White nodes have a buffer address just when they are roots of \<open>R\<close>.\<close>

definition cok :: "gnode set \<Rightarrow> gc \<Rightarrow> bool" where
  "cok R s \<longleftrightarrow> heap_closed s \<and> syms_ok s \<and> (\<forall>n\<in>whites s. naddr s n = Some Null \<longleftrightarrow> n \<notin> R)"

text \<open>The values \<open>ws\<close>, white before, were put into the list to free; nothing else was.\<close>

definition collects :: "addr list \<Rightarrow> gc \<Rightarrow> gc \<Rightarrow> bool" where
  "collects ws s s' \<longleftrightarrow> same_shape s s' \<and> same_syms s s' \<and> (\<exists>zs os p. s' = s\<lparr>zvals := zs, objects := os, zval_to_free := p\<rparr>) \<and>
     (\<forall>n. n \<notin> Zv ` set ws \<longrightarrow> naddr s' n = naddr s n) \<and> distinct ws \<and> Zv ` set ws \<subseteq> whites s \<and> whites s' \<subseteq> whites s \<and>
     (\<forall>a. Zv a \<in> whites s' \<longleftrightarrow> Zv a \<in> whites s \<and> a \<notin> set ws) \<and>
     (\<forall>xs. free_chain s (zval_to_free s) xs \<longrightarrow> set xs \<inter> set ws = {} \<longrightarrow> free_chain s' (zval_to_free s') (ws @ xs))"

lemma same_syms_ok: "same_shape s s' \<Longrightarrow> same_syms s s' \<Longrightarrow> syms_ok s \<Longrightarrow> syms_ok s'"
proof -
  assume a: "same_shape s s'" "same_syms s s'" "syms_ok s"
  show ?thesis unfolding syms_ok_def
  proof (intro allI impI)
    fix a z'
    assume z': "zvals s' a = Some z' \<and> z_type z' = Symbol_table"
    then have "ztype s a = Some Symbol_table" using a(1) by (metis same_shape_def zvals_type)
    then obtain z where "zvals s a = Some z" "z_type z = Symbol_table" by (auto simp: zvals_type)
    then show "z_color z' \<noteq> GC_WHITE" using a(2,3) z' unfolding same_syms_def syms_ok_def by (metis gc_color.distinct(1))
  qed
qed

lemma gc_free_chain_cong: "(\<And>x. x \<in> set xs \<Longrightarrow> next_link x s' = next_link x s) \<Longrightarrow> free_chain s' p xs = free_chain s p xs"
  by (induction xs arbitrary: p) auto

lemma next_link_addr: "naddr s' (Zv a) = naddr s (Zv a) \<Longrightarrow> next_link a s' = next_link a s"
  by (cases "zvals s' a"; cases "zvals s a") (simp_all add: naddr_def next_link_def)

lemma keeps_naddr: "keeps s s' \<Longrightarrow> naddr s' n = naddr s n"
  by (simp add: keeps_def same_addrs_def naddr_def split: gnode.splits)

lemma keeps_chain:
  assumes "keeps s s'"
  shows "free_chain s' q xs = free_chain s q xs" and "zval_to_free s' = zval_to_free s"
proof -
  show "free_chain s' q xs = free_chain s q xs" by (intro gc_free_chain_cong next_link_addr keeps_naddr [OF assms])
  show "zval_to_free s' = zval_to_free s" using assms by (auto simp: keeps_def same_rest_def)
qed

lemma keeps_collects:
  assumes k: "keeps s s'" and "whites s' \<subseteq> whites s" and "\<And>a. Zv a \<in> whites s' \<longleftrightarrow> Zv a \<in> whites s"
  shows "collects [] s s'"
proof -
  obtain zs os where "s' = s\<lparr>zvals := zs, objects := os\<rparr>" using k by (auto simp: keeps_def same_rest_def)
  then have rest: "\<exists>zs os p. s' = s\<lparr>zvals := zs, objects := os, zval_to_free := p\<rparr>"
    by (intro exI [of _ zs] exI [of _ os] exI [of _ "zval_to_free s"]) simp
  have "same_shape s s'" "same_syms s s'" using k by (simp_all add: keeps_def)
  then show ?thesis unfolding collects_def using assms(2,3) rest by (intro conjI) (simp_all add: keeps_naddr [OF k] keeps_chain [OF k])
qed

lemma collects_refl: "collects [] s s"
  by (rule keeps_collects) auto

lemma collects_shape: "collects ws s s' \<Longrightarrow> same_shape s s'"
  by (simp add: collects_def)

lemma collects_cok:
  assumes c: "collects ws s s'" and ok: "cok R s"
  shows "cok R s'"
proof -
  have "heap_closed s'" "syms_ok s'" using c ok heap_closed_shape same_syms_ok by (auto simp: collects_def cok_def)
  moreover have "naddr s' n = Some Null \<longleftrightarrow> n \<notin> R" if "n \<in> whites s'" for n
  proof -
    have "n \<notin> Zv ` set ws" using c that by (auto simp: collects_def)
    then show ?thesis using c that ok by (auto simp: collects_def cok_def)
  qed
  ultimately show ?thesis by (simp add: cok_def)
qed

lemma collects_rest:
  "\<exists>zs os p. s1 = s\<lparr>zvals := zs, objects := os, zval_to_free := p\<rparr> \<Longrightarrow> \<exists>zs os p. s2 = s1\<lparr>zvals := zs, objects := os, zval_to_free := p\<rparr> \<Longrightarrow>
    \<exists>zs os p. s2 = s\<lparr>zvals := zs, objects := os, zval_to_free := p\<rparr>"
  by force

lemma collects_trans:
  assumes a: "collects ws s s1" and b: "collects vs s1 s2"
  shows "collects (vs @ ws) s s2"
proof -
  have disj: "set vs \<inter> set ws = {}" using a b unfolding collects_def by blast
  have shape: "same_shape s s2" "same_syms s s2" using a b by (auto simp: collects_def intro: same_shape_trans same_syms_trans)
  have rest: "\<exists>zs os p. s2 = s\<lparr>zvals := zs, objects := os, zval_to_free := p\<rparr>"
    using a b collects_rest [of s1 s s2] by (simp add: collects_def)
  have addr: "naddr s2 n = naddr s n" if "n \<notin> Zv ` set (vs @ ws)" for n using a b that by (simp add: collects_def image_Un)
  have white: "Zv ` set (vs @ ws) \<subseteq> whites s" "whites s2 \<subseteq> whites s" using a b unfolding collects_def by (auto simp: image_Un)
  have iff: "Zv x \<in> whites s2 \<longleftrightarrow> Zv x \<in> whites s \<and> x \<notin> set (vs @ ws)" for x using a b unfolding collects_def by auto
  have "free_chain s2 (zval_to_free s2) ((vs @ ws) @ xs)"
    if "free_chain s (zval_to_free s) xs" "set xs \<inter> set (vs @ ws) = {}" for xs
  proof -
    have "free_chain s1 (zval_to_free s1) (ws @ xs)" using a that unfolding collects_def by auto
    moreover have "set (ws @ xs) \<inter> set vs = {}" using that(2) disj by auto
    ultimately have "free_chain s2 (zval_to_free s2) (vs @ ws @ xs)" using b unfolding collects_def by blast
    then show ?thesis by simp
  qed
  moreover have "distinct (vs @ ws)" using a b disj by (simp add: collects_def)
  ultimately show ?thesis unfolding collects_def using shape rest addr white iff by blast
qed

lemma put_free_view:
  assumes "ztype s a = Some t" and "t \<noteq> Symbol_table" and "gcol (view s) (Zv a) = GC_BLACK"
  obtains s' where "put_free a s = Some s'" and "same_shape s s'" and "same_syms s s'" and "view s' = bump 1 (Zv a) (view s)"
    and "\<exists>zs os p. s' = s\<lparr>zvals := zs, objects := os, zval_to_free := p\<rparr>" and "zval_to_free s' = Free_zval a"
    and "next_link a s' = Some (zval_to_free s)" and "\<forall>n. n \<noteq> Zv a \<longrightarrow> naddr s' n = naddr s n"
proof -
  obtain z where z: "zvals s a = Some z" "z_type z = t" using assms(1) by (auto simp: zvals_type)
  let ?z = "z\<lparr>refcount__gc := refcount__gc z + 1, z_color := GC_BLACK, z_addr := Next (zval_to_free s)\<rparr>"
  let ?s = "s\<lparr>zvals := (zvals s)(a \<mapsto> ?z), zval_to_free := Free_zval a\<rparr>"
  show ?thesis
  proof (rule that [of ?s])
    show "put_free a s = Some ?s" using z by (simp add: put_free_def zv_upd_def)
    show "same_shape s ?s" using z by (auto simp: same_shape_def ztype_def)
    show "same_syms s ?s" using z assms(2) by (auto simp: same_syms_def)
    show "view ?s = bump 1 (Zv a) (view s)" using z assms(2,3)
      by (intro view_eqI) (auto simp: view_node zcol_def zcnt_def view_def split: gnode.splits)
    show "\<exists>zs os p. ?s = s\<lparr>zvals := zs, objects := os, zval_to_free := p\<rparr>"
      by (intro exI [of _ "(zvals s)(a \<mapsto> ?z)"] exI [of _ "objects s"] exI [of _ "Free_zval a"]) simp
    show "next_link a ?s = Some (zval_to_free s)" by (simp add: next_link_def)
    show "\<forall>n. n \<noteq> Zv a \<longrightarrow> naddr ?s n = naddr s n" by (auto simp: naddr_def split: gnode.splits)
  qed simp
qed

lemma collects_put:
  assumes k: "keeps s s1" and a: "ztype s a = Some t" "t \<noteq> Symbol_table" "Zv a \<in> whites s"
    and w: "whites s1 \<subseteq> whites s" "\<And>b. Zv b \<in> whites s1 \<longleftrightarrow> Zv b \<in> whites s \<and> b \<noteq> a"
    and c: "collects ws s1 s2" and black: "gcol (view s2) (Zv a) = GC_BLACK" and put: "put_free a s2 = Some s3"
  shows "collects (a # ws) s s3"
proof -
  have shape: "same_shape s s2" "same_syms s s2"
    using k c by (auto simp: keeps_def collects_def intro: same_shape_trans same_syms_trans)
  then have "ztype s2 a = Some t" using a shape_refs(3) by simp
  then obtain s3' where "put_free a s2 = Some s3'" and s3: "same_shape s2 s3'" "same_syms s2 s3'" "view s3' = bump 1 (Zv a) (view s2)"
    "\<exists>zs os p. s3' = s2\<lparr>zvals := zs, objects := os, zval_to_free := p\<rparr>" "zval_to_free s3' = Free_zval a"
    "next_link a s3' = Some (zval_to_free s2)" "\<forall>n. n \<noteq> Zv a \<longrightarrow> naddr s3' n = naddr s2 n"
    using a(2) black by (rule put_free_view)
  then have eq: "s3' = s3" using put by simp
  have wh: "whites s3 = whites s2" using s3(3) by (simp add: eq whites_def)
  obtain zs os where s1: "s1 = s\<lparr>zvals := zs, objects := os\<rparr>" using k by (auto simp: keeps_def same_rest_def)
  then have "\<exists>zs os p. s1 = s\<lparr>zvals := zs, objects := os, zval_to_free := p\<rparr>"
    by (intro exI [of _ zs] exI [of _ os] exI [of _ "zval_to_free s"]) simp
  then have "\<exists>zs os p. s2 = s\<lparr>zvals := zs, objects := os, zval_to_free := p\<rparr>" using collects_rest [of s1 s s2] c by (simp add: collects_def)
  then have rest: "\<exists>zs os p. s3 = s\<lparr>zvals := zs, objects := os, zval_to_free := p\<rparr>" using collects_rest [of s2 s s3] s3(4) eq by simp
  have ws: "Zv ` set ws \<subseteq> whites s1" "distinct ws" using c by (simp_all add: collects_def)
  then have aws: "a \<notin> set ws" using w(2) [of a] by auto
  have addr: "naddr s3 n = naddr s n" if "n \<notin> Zv ` set (a # ws)" for n
    using that c keeps_naddr [OF k] s3(7) by (simp add: collects_def eq)
  have iff: "Zv b \<in> whites s3 \<longleftrightarrow> Zv b \<in> whites s \<and> b \<notin> set (a # ws)" for b using c w(2) by (auto simp: wh collects_def)
  have chain: "free_chain s3 (zval_to_free s3) ((a # ws) @ xs)"
    if "free_chain s (zval_to_free s) xs" "set xs \<inter> set (a # ws) = {}" for xs
  proof -
    have "free_chain s1 (zval_to_free s1) xs" using that(1) by (simp add: keeps_chain [OF k])
    moreover have "set xs \<inter> set ws = {}" using that(2) by auto
    ultimately have "free_chain s2 (zval_to_free s2) (ws @ xs)" using c unfolding collects_def by blast
    moreover have "next_link x s3 = next_link x s2" if "x \<in> set (ws @ xs)" for x
      using that \<open>set xs \<inter> set (a # ws) = {}\<close> aws s3(7) by (intro next_link_addr) (auto simp: eq)
    ultimately have "free_chain s3 (zval_to_free s2) (ws @ xs)" using gc_free_chain_cong [of "ws @ xs" s3 s2] by simp
    then show ?thesis using s3(5,6) by (simp add: eq)
  qed
  have sub: "Zv ` set (a # ws) \<subseteq> whites s" "whites s3 \<subseteq> whites s" "distinct (a # ws)"
    using ws a(3) w(1) aws c by (auto simp: wh collects_def)
  have "same_shape s s3" "same_syms s s3" using shape s3(1,2) same_shape_trans same_syms_trans eq by blast+
  then show ?thesis unfolding collects_def using rest addr sub iff chain by blast
qed

subsection \<open>Visits\<close>

definition is_zv :: "gnode \<Rightarrow> bool" where
  "is_zv n \<longleftrightarrow> (case n of Zv _ \<Rightarrow> True | Ob _ \<Rightarrow> False)"

lemma is_zv_simps [simp]: "is_zv (Zv a)" "\<not> is_zv (Ob h)"
  by (simp_all add: is_zv_def)

lemma bump_commutes:
  "credit isz m (bump d n v) = bump d n (credit isz m v)" "over isz m (bump d n v) = bump d n (over isz m v)"
  by (auto intro!: view_eqI simp: credit_def over_def)

lemma gcollect_bump: "gcollect isz g R ns v v' \<Longrightarrow> gcollect isz g R ns (bump d n v) (bump d n v')"
proof (induction rule: gcollect.induct)
  case (collect_white v m v1 ns v')
  then show ?case by (intro gcollect.collect_white [where v = "bump d n v"]) (auto simp: bump_commutes)
qed (auto intro: gcollect.intros simp: bump_commutes)

lemma gcollect_append: "gcollect isz g R ms v v1 \<Longrightarrow> gcollect isz g R ns v1 v' \<Longrightarrow> gcollect isz g R (ms @ ns) v v'"
  by (induction rule: gcollect.induct) (auto intro: gcollect.intros)

lemma gcollect_color:
  assumes "gcollect isz g R ns v v'"
  shows "gcol v n \<noteq> GC_WHITE \<Longrightarrow> gcol v' n = gcol v n" and "gcol v' n = GC_WHITE \<Longrightarrow> gcol v n = GC_WHITE"
proof -
  obtain W where "collected_set isz g R ns v v' W" using gcollect_collected [OF assms] by blast
  then have "\<forall>n\<in>W. gcol v n = GC_WHITE" "gcol v' n = (if n \<in> W then (if isz n then GC_BLACK else GC_PURPLE) else gcol v n)"
    unfolding collected_set_def by blast+
  then show "gcol v n \<noteq> GC_WHITE \<Longrightarrow> gcol v' n = gcol v n" and "gcol v' n = GC_WHITE \<Longrightarrow> gcol v n = GC_WHITE"
    by (auto split: if_splits)
qed

text \<open>The references of a white value: those visited before and those visited after it is put into the list to free.\<close>

definition collect_kids :: "zdata \<Rightarrow> gc \<Rightarrow> (addr list \<times> addr list \<times> gc) option" where
  "collect_kids t s =
     (case t of
        Object h \<Rightarrow>
          if object_buckets s then do {
            (white, s) \<leftarrow> zobj_collect_step h s;
            (case white of
               None \<Rightarrow> Some ([], [], s)
             | Some obj \<Rightarrow>
                 (case props_of obj of
                    None \<Rightarrow> Some ([], gc_refs obj, s)
                  | Some ps \<Rightarrow> Some (if o_valid obj \<and> o_get_gc obj then table_refs (o_table obj) else [], ps, s)))
          }
          else Some ([], [], s)
      | Array xs \<Rightarrow> Some ([], xs, s)
      | _ \<Rightarrow> Some ([], [], s))"

lemma props_split:
  "(case props_of ob of None \<Rightarrow> ([], gc_refs ob) | Some ps \<Rightarrow> (if o_valid ob \<and> o_get_gc ob then table_refs (o_table ob) else [], ps)) = (xs, ys) \<Longrightarrow>
    gc_refs ob = xs @ ys"
  by (auto simp: props_of_def gc_refs_def split: option.splits if_splits)

lemma zobj_collect_step_view:
  assumes ok: "cok R s" and ob: "objects s h = Some ob"
  obtains (other) "zobj_collect_step h s = Some (None, s)" and "\<not> (gcol (view s) (Ob h) = GC_WHITE \<and> Ob h \<notin> R)"
  | (white) s' where "zobj_collect_step h s = Some (Some ob, s')" and "gcol (view s) (Ob h) = GC_WHITE" and "Ob h \<notin> R"
      and "keeps s s'" and "view s' = paint (Ob h) GC_PURPLE (view s)"
proof -
  have col: "gcol (view s) (Ob h) = o_color ob" using ob by (simp add: view_node ocol_def)
  have addr: "naddr s (Ob h) = Some (o_addr ob)" using ob by (simp add: naddr_def)
  have iff: "o_color ob = GC_WHITE \<and> o_addr ob = Null \<longleftrightarrow> gcol (view s) (Ob h) = GC_WHITE \<and> Ob h \<notin> R"
    using ok col addr by (auto simp: cok_def whites_def)
  show thesis
  proof (cases "o_color ob = GC_WHITE \<and> o_addr ob = Null")
    case True
    obtain s' where "set_ocolor GC_PURPLE h s = Some s'" "keeps s s'" "view s' = paint (Ob h) GC_PURPLE (view s)"
      using set_ocolor_view [OF ob] .
    then show thesis using True ob iff by (intro white [of s']) (simp_all add: zobj_collect_step_def)
  next
    case False
    then show thesis using ob iff by (intro other) (auto simp: zobj_collect_step_def)
  qed
qed

text \<open>What a part of a visit that only paints an object establishes.\<close>

definition kids_ok :: "gnode set \<Rightarrow> gnode list \<Rightarrow> addr list \<Rightarrow> gc \<Rightarrow> gc \<Rightarrow> bool" where
  "kids_ok R ns ks s s' \<longleftrightarrow> keeps s s' \<and> (\<forall>x\<in>set ks. ztype s x \<noteq> None) \<and> whites s' \<subseteq> whites s \<and>
     (\<forall>b. gcol (view s') (Zv b) = gcol (view s) (Zv b)) \<and>
     (\<forall>a v. gcollect is_zv (gsuccs s) R (grefs s ks) (bump 1 (Zv a) (view s')) v \<longrightarrow>
       gcollect is_zv (gsuccs s) R ns (bump 1 (Zv a) (view s)) v)"

lemma kids_ok_same: "\<forall>x\<in>set ks. ztype s x \<noteq> None \<Longrightarrow> kids_ok R (grefs s ks) ks s s"
  by (simp add: kids_ok_def)

lemma kids_ok_other:
  assumes "\<not> (gcol (view s) (Ob h) = GC_WHITE \<and> Ob h \<notin> R)"
  shows "kids_ok R [Ob h] [] s s"
  unfolding kids_ok_def using assms by (auto intro!: collect_other simp: credit_def)

lemma kids_ok_white:
  assumes "gcol (view s) (Ob h) = GC_WHITE" and "Ob h \<notin> R" and s': "keeps s s'" "view s' = paint (Ob h) GC_PURPLE (view s)"
    and ps: "orefs s h = Some ps" and closed: "heap_closed s"
  shows "kids_ok R [Ob h] ps s s'"
proof -
  have "gcollect is_zv (gsuccs s) R [Ob h] (bump 1 (Zv a) (view s)) v"
    if "gcollect is_zv (gsuccs s) R (grefs s ps) (bump 1 (Zv a) (view s')) v" for a v
  proof (rule collect_white [OF _ assms(2) _ collect_nil])
    have "over is_zv (Ob h) (credit is_zv (Ob h) (bump 1 (Zv a) (view s))) = bump 1 (Zv a) (view s')"
      by (auto intro!: view_eqI simp: s'(2))
    then show "gcollect is_zv (gsuccs s) R (gsuccs s (Ob h)) (over is_zv (Ob h) (credit is_zv (Ob h) (bump 1 (Zv a) (view s)))) v"
      using that ps by simp
  qed (simp add: assms(1))
  moreover have "whites s' \<subseteq> whites s" by (auto simp: whites_def s'(2) split: if_splits)
  ultimately show ?thesis using s' closed_kids(2) [OF closed ps] by (simp add: kids_ok_def)
qed

lemma collect_kids_view:
  assumes ok: "cok R s" and t: "ztype s a = Some t" "t \<noteq> Symbol_table"
  shows "\<exists>xs ys s'. collect_kids t s = Some (xs, ys, s') \<and> kids_ok R (gsuccs s (Zv a)) (xs @ ys) s s'"
proof (cases t)
  case (Array xs)
  have closed: "heap_closed s" using ok by (simp add: cok_def)
  show ?thesis using t Array kids_ok_same [OF closed_kids(1) [OF closed], of a xs R]
    by (intro exI [of _ "[]"] exI [of _ xs] exI [of _ s]) (simp add: collect_kids_def)
next
  case (Object h)
  have closed: "heap_closed s" using ok by (simp add: cok_def)
  obtain ps where ps: "orefs s h = Some ps" using closed_kids(3) [OF closed] t Object by blast
  obtain ob where ob: "objects s h = Some ob" "gc_refs ob = ps" using ps by (auto simp: orefs_def)
  show ?thesis
  proof (cases "object_buckets s")
    case True
    from ok ob(1) show ?thesis
    proof (cases rule: zobj_collect_step_view)
      case other
      then show ?thesis using True Object t kids_ok_other
        by (intro exI [of _ "[]"] exI [of _ "[]"] exI [of _ s]) (simp add: collect_kids_def)
    next
      case (white s')
      obtain xs ys where split:
        "(case props_of ob of None \<Rightarrow> ([], gc_refs ob) | Some ps \<Rightarrow> (if o_valid ob \<and> o_get_gc ob then table_refs (o_table ob) else [], ps)) = (xs, ys)"
        by fastforce
      then have "collect_kids t s = Some (xs, ys, s')"
        using True Object white(1) by (auto simp: collect_kids_def split: option.splits)
      moreover have "kids_ok R (gsuccs s (Zv a)) (xs @ ys) s s'"
        using kids_ok_white [OF white(2-5) ps closed] True Object t ob(2) props_split [OF split] by simp
      ultimately show ?thesis by blast
    qed
  next
    case False
    then show ?thesis using Object t kids_ok_same [of "[]" s R]
      by (intro exI [of _ "[]"] exI [of _ "[]"] exI [of _ s]) (simp add: collect_kids_def)
  qed
next
  case Scalar
  then show ?thesis using t kids_ok_same [of "[]" s R] by (intro exI [of _ "[]"] exI [of _ "[]"] exI [of _ s]) (simp add: collect_kids_def)
qed (use t in simp)

abbreviation collects_some :: "gc \<Rightarrow> gc \<Rightarrow> bool" where
  "collects_some s s' \<equiv> \<exists>ws. collects ws s s'"

abbreviation white_num :: "gc \<Rightarrow> nat" where
  "white_num \<equiv> num (\<lambda>x. x = GC_WHITE)"

abbreviation gcollect_in :: "gnode set \<Rightarrow> (gnode \<Rightarrow> gnode list) \<Rightarrow> gnode list \<Rightarrow> gnode gview \<Rightarrow> gnode gview \<Rightarrow> bool" where
  "gcollect_in R \<equiv> \<lambda>g. gcollect is_zv g R"

definition collect_body :: "(addr list \<Rightarrow> gc \<Rightarrow> gc option) \<Rightarrow> addr \<Rightarrow> gc \<Rightarrow> gc option" where
  "collect_body each a s = do {
     (white, before, after, s) \<leftarrow> zval_collect_step a s;
     s \<leftarrow> each before s;
     s \<leftarrow> (if white then put_free a s else Some s);
     each after s
   }"

lemma zval_collect_step_white:
  "zvals s a = Some z \<Longrightarrow> z_type z \<noteq> Symbol_table \<Longrightarrow> z_color z = GC_WHITE \<Longrightarrow> z_addr z = Null \<Longrightarrow>
    zval_collect_step a s = set_zcolor GC_BLACK a s \<bind> (\<lambda>s. collect_kids (z_type z) s \<bind> (\<lambda>(xs, ys, s). Some (True, xs, ys, s)))"
  by (cases "set_zcolor GC_BLACK a s") (auto simp: zval_collect_step_def collect_kids_def bind_assoc case_prod_unfold
      split: zdata.splits option.splits intro!: Option.bind_cong)

lemma white_num_mono: "heap_closed s \<Longrightarrow> same_shape s s' \<Longrightarrow> whites s' \<subseteq> whites s \<Longrightarrow> white_num s' \<le> white_num s"
  by (rule num_mono [OF _ shape_refs(3)]) (auto simp: whites_def)

lemma cok_keeps: "cok R s \<Longrightarrow> keeps s s' \<Longrightarrow> whites s' \<subseteq> whites s \<Longrightarrow> cok R s'"
  by (auto simp: cok_def keeps_naddr heap_closed_keeps intro: same_syms_ok keeps_shape) (auto simp: keeps_def intro: same_syms_ok)

lemma cok_value:
  assumes "cok R s" and z: "zvals s a = Some z" and "z_type z \<noteq> Symbol_table"
  shows "z_color z = GC_WHITE \<and> z_addr z = Null \<longleftrightarrow> Zv a \<in> whites s \<and> Zv a \<notin> R"
proof -
  have "Zv a \<in> whites s \<longleftrightarrow> z_color z = GC_WHITE" using assms(2,3) by (simp add: whites_def view_node zcol_def)
  moreover have "naddr s (Zv a) = Some (z_addr z)" using z by (simp add: naddr_def)
  moreover have "Zv a \<in> whites s \<Longrightarrow> naddr s (Zv a) = Some Null \<longleftrightarrow> Zv a \<notin> R" using assms(1) unfolding cok_def by blast
  ultimately show ?thesis by auto
qed

lemma collect_body_white:
  assumes ok: "cok R s" and t: "ztype s a = Some t" "t \<noteq> Symbol_table" and white: "Zv a \<in> whites s" "Zv a \<notin> R"
    and kids: "\<And>kids s1. cok R s1 \<Longrightarrow> same_shape s s1 \<Longrightarrow> white_num s1 < white_num s \<Longrightarrow>
      \<forall>x\<in>set kids. ztype s x \<noteq> None \<Longrightarrow> follows each collects_some white_num (gcollect_in R) kids s1"
  shows "\<exists>s'. collect_body each a s = Some s' \<and> collects_some s s' \<and> white_num s' \<le> white_num s \<and>
    gcollect is_zv (gsuccs s) R (gsuccs s (Zv a)) (over is_zv (Zv a) (view s)) (view s')"
proof -
  have closed: "heap_closed s" using ok by (simp add: cok_def)
  obtain z where z: "zvals s a = Some z" "z_type z = t" using t by (auto simp: zvals_type)
  have zw: "z_color z = GC_WHITE" "z_addr z = Null"
    using z t(2) white cok_value [OF ok z(1)] by simp_all
  obtain s1 where s1: "set_zcolor GC_BLACK a s = Some s1" "keeps s s1" "view s1 = paint (Zv a) GC_BLACK (view s)"
    using set_zcolor_view [OF t] .
  have w1: "whites s1 = whites s - {Zv a}" by (auto simp: whites_def s1(3) split: if_splits)
  have ok1: "cok R s1" using cok_keeps [OF ok s1(2)] w1 by blast
  have t1: "ztype s1 a = Some t" using t keeps_refs(3) [OF s1(2)] by simp
  obtain xs ys s2 where s2: "collect_kids t s1 = Some (xs, ys, s2)" and k: "kids_ok R (gsuccs s1 (Zv a)) (xs @ ys) s1 s2"
    using collect_kids_view [OF ok1 t1 t(2)] by blast
  have k2: "keeps s1 s2" "whites s2 \<subseteq> whites s1" "\<And>b. gcol (view s2) (Zv b) = gcol (view s1) (Zv b)" using k by (simp_all add: kids_ok_def)
  have k02: "keeps s s2" using keeps_trans [OF s1(2) k2(1)] .
  have valid: "\<forall>x\<in>set xs. ztype s x \<noteq> None" "\<forall>x\<in>set ys. ztype s x \<noteq> None"
    using k keeps_refs(3) [OF s1(2)] by (simp_all add: kids_ok_def)
  have ok2: "cok R s2" using cok_keeps [OF ok1 k2(1,2)] .
  have "white_num s2 < white_num s"
    by (rule num_less [OF closed keeps_refs(3) [OF k02], where a = a]) (use k2(3) s1(3) t white in \<open>auto simp: whites_def split: if_splits\<close>)
  moreover from this obtain s3 ws where s3: "each xs s2 = Some s3" "collects ws s2 s3" "white_num s3 \<le> white_num s2"
    "gcollect is_zv (gsuccs s2) R (grefs s2 xs) (view s2) (view s3)"
    using kids [OF ok2 keeps_shape [OF k02] _ valid(1)] by (auto simp: follows_def)
  ultimately have fuel3: "white_num s3 < white_num s" by simp
  have black3: "gcol (view s3) (Zv a) = GC_BLACK" using gcollect_color(1) [OF s3(4), of "Zv a"] k2(3) s1(3) by simp
  have shape3: "same_shape s s3" using same_shape_trans [OF keeps_shape [OF k02] collects_shape [OF s3(2)]] .
  then have t3: "ztype s3 a = Some t" using t shape_refs(3) by simp
  obtain s4 where s4: "put_free a s3 = Some s4" "same_shape s3 s4" "same_syms s3 s4" "view s4 = bump 1 (Zv a) (view s3)"
    "\<forall>n. n \<noteq> Zv a \<longrightarrow> naddr s4 n = naddr s3 n"
    using put_free_view [OF t3 t(2) black3] by metis
  have "\<And>b. Zv b \<in> whites s2 \<longleftrightarrow> Zv b \<in> whites s \<and> b \<noteq> a" using k2(3) s1(3) by (simp add: whites_def)
  moreover have "whites s2 \<subseteq> whites s" using k2(2) w1 by blast
  ultimately have c4: "collects (a # ws) s s4" using collects_put [OF k02 t white(1) _ _ s3(2) black3 s4(1)] by blast
  have ok4: "cok R s4" using collects_cok [OF c4 ok] .
  have "whites s4 = whites s3" by (simp add: whites_def s4(4))
  then have "white_num s4 \<le> white_num s3" using white_num_mono [OF _ s4(2)] collects_cok [OF s3(2) ok2] by (simp add: cok_def)
  moreover from this obtain s5 vs where s5: "each ys s4 = Some s5" "collects vs s4 s5" "white_num s5 \<le> white_num s4"
    "gcollect is_zv (gsuccs s4) R (grefs s4 ys) (view s4) (view s5)"
    using kids [OF ok4 collects_shape [OF c4] _ valid(2)] fuel3 by (auto simp: follows_def)
  ultimately have fuel: "white_num s5 \<le> white_num s" using fuel3 by simp
  note same2 = keeps_refs [OF k02] and same4 = shape_refs [OF collects_shape [OF c4]] and same1 = keeps_refs [OF s1(2)]
  have "gcollect is_zv (gsuccs s) R (grefs s (xs @ ys)) (bump 1 (Zv a) (view s2)) (view s5)"
    using gcollect_append [OF gcollect_bump [OF s3(4)]] s5(4) s4(4) same2 same4 by (simp add: grefs_def)
  then have "gcollect is_zv (gsuccs s) R (gsuccs s (Zv a)) (bump 1 (Zv a) (view s1)) (view s5)" using k same1 by (simp add: kids_ok_def)
  moreover have "over is_zv (Zv a) (view s) = bump 1 (Zv a) (view s1)" by (simp add: over_def credit_def s1(3))
  moreover have "collect_body each a s = Some s5"
    using zval_collect_step_white [OF z(1)] z zw t(2) s1(1) s2 s3(1) s4(1) s5(1) by (simp add: collect_body_def)
  ultimately show ?thesis using collects_trans [OF c4 s5(2)] fuel by auto
qed

lemma collect_body_other:
  assumes ok: "cok R s" and "ztype s a \<noteq> None" and "\<not> (Zv a \<in> whites s \<and> Zv a \<notin> R)" and nil: "\<And>s. each [] s = Some s"
  shows "collect_body each a s = Some s"
proof -
  obtain z where z: "zvals s a = Some z" using assms(2) by (auto simp: ztype_def)
  have "\<not> (z_color z = GC_WHITE \<and> z_addr z = Null)"
  proof (cases "z_type z = Symbol_table")
    case True
    then show ?thesis using ok z by (auto simp: cok_def syms_ok_def)
  next
    case False
    then show ?thesis using cok_value [OF ok z] assms(3) by simp
  qed
  then have "zval_collect_step a s = Some (False, [], [], s)" using z by (auto simp: zval_collect_step_def)
  then show ?thesis using nil by (simp add: collect_body_def)
qed

definition collect_visit :: "(addr list \<Rightarrow> gc \<Rightarrow> gc option) \<Rightarrow> addr \<Rightarrow> gc \<Rightarrow> gc option" where
  "collect_visit each a s = add_ref 1 a s \<bind> collect_body each a"

lemma collect_visit_ok:
  assumes ok: "cok R s" and t: "ztype s a \<noteq> None" and nil: "\<And>s. each [] s = Some s"
    and kids: "\<And>kids s1. cok R s1 \<Longrightarrow> same_shape s s1 \<Longrightarrow> white_num s1 < white_num s \<Longrightarrow>
      \<forall>x\<in>set kids. ztype s x \<noteq> None \<Longrightarrow> follows each collects_some white_num (gcollect_in R) kids s1"
  shows "\<exists>s1. collect_visit each a s = Some s1 \<and> collects_some s s1 \<and> white_num s1 \<le> white_num s \<and>
    gcollect_in R (gsuccs s) (grefs s [a]) (view s) (view s1)"
proof -
  obtain t where t: "ztype s a = Some t" using t by blast
  obtain s1 where s1: "add_ref 1 a s = Some s1" "keeps s s1"
    "view s1 = (if t = Symbol_table then view s else bump 1 (Zv a) (view s))"
    using add_ref_view [OF t] .
  have w1: "whites s1 = whites s" by (simp add: whites_def s1(3))
  have ok1: "cok R s1" and c1: "collects [] s s1" using cok_keeps [OF ok s1(2)] keeps_collects [OF s1(2)] w1 by simp_all
  note same = keeps_refs [OF s1(2)]
  have num1: "white_num s1 = white_num s" using w1 by (auto simp: num_def whites_def same(3) set_eq_iff intro!: arg_cong [of _ _ card])
  show ?thesis
  proof (cases "Zv a \<in> whites s \<and> Zv a \<notin> R")
    case True
    then have sym: "t \<noteq> Symbol_table" using t by (auto simp: whites_def view_node zcol_def ztype_def split: option.splits)
    have v1: "view s1 = credit is_zv (Zv a) (view s)" using sym s1(3) by (simp add: credit_def)
    have "\<exists>s'. collect_body each a s1 = Some s' \<and> collects_some s1 s' \<and> white_num s' \<le> white_num s1 \<and>
        gcollect is_zv (gsuccs s1) R (gsuccs s1 (Zv a)) (over is_zv (Zv a) (view s1)) (view s')"
      using t True same w1 kids same_shape_trans [OF keeps_shape [OF s1(2)]] num1
      by (intro collect_body_white [OF ok1 _ sym]) simp_all
    then obtain s2 ws where s2: "collect_body each a s1 = Some s2" "collects ws s1 s2" "white_num s2 \<le> white_num s"
      "gcollect is_zv (gsuccs s) R (gsuccs s (Zv a)) (over is_zv (Zv a) (view s1)) (view s2)"
      using same num1 by auto
    have "gcollect is_zv (gsuccs s) R [Zv a] (view s) (view s2)"
      by (rule collect_white [OF _ _ _ collect_nil]) (use True s2(4) v1 in \<open>simp_all add: whites_def\<close>)
    then show ?thesis using s1(1) s2 collects_trans [OF c1 s2(2)] t sym by (intro exI [of _ s2]) (auto simp: collect_visit_def grefs_single)
  next
    case False
    then have "collect_body each a s1 = Some s1" using collect_body_other [OF ok1] nil w1 t same by simp
    moreover have "gcollect is_zv (gsuccs s) R (grefs s [a]) (view s) (view s1)"
      using False t s1(3) by (auto simp: grefs_single whites_def credit_def intro!: collect_nil collect_other)
    ultimately show ?thesis using s1(1) c1 num1 by (intro exI [of _ s1]) (auto simp: collect_visit_def)
  qed
qed

lemma collect_heap_visit: "heap_visit collect_visit collect_white_each (cok R) collects_some white_num (gcollect_in R)"
proof
  show eq: "collect_white_each ps s = (case ps of [] \<Rightarrow> Some s | a # ps' \<Rightarrow> collect_visit collect_white_each a s \<bind> collect_white_each ps')" for ps s
    by (subst collect_white_each.simps) (auto simp: collect_visit_def collect_body_def bind_assoc case_prod_unfold split: list.splits)
  fix s a
  assume "cok R s" and "ztype s a \<noteq> None" and "\<And>kids s1. cok R s1 \<Longrightarrow> same_shape s s1 \<Longrightarrow> white_num s1 < white_num s \<Longrightarrow>
      \<forall>x\<in>set kids. ztype s x \<noteq> None \<Longrightarrow> follows collect_white_each collects_some white_num (gcollect_in R) kids s1"
  then show "\<exists>s1. collect_visit collect_white_each a s = Some s1 \<and> collects_some s s1 \<and> white_num s1 \<le> white_num s \<and>
    gcollect_in R (gsuccs s) (grefs s [a]) (view s) (view s1)"
    by (intro collect_visit_ok) (simp_all add: eq [of "[]"])
qed (auto intro: collects_refl collects_trans collects_shape collect_nil gcollect_append collects_cok)

interpretation white: heap_visit collect_visit collect_white_each "cok R" collects_some white_num "gcollect_in R" for R
  by (rule collect_heap_visit)

end
