(* ===== verification/Zend_Gc_Roots.thy ===== *)
theory Zend_Gc_Roots
  imports Zend_Gc_Collect
begin

text \<open>
  The buffer of roots: a ring of entries through \<open>GC_G(roots)\<close>, and the list of unused entries.
\<close>

definition nxt :: "gc \<Rightarrow> rptr \<Rightarrow> rptr" where
  "nxt s p = (case p of Rnull \<Rightarrow> Rnull | Rroots \<Rightarrow> roots_next s | Rbuf i \<Rightarrow> (case buf s of Some b \<Rightarrow> rb_next (b i) | None \<Rightarrow> Rnull))"

definition prv :: "gc \<Rightarrow> rptr \<Rightarrow> rptr" where
  "prv s p = (case p of Rnull \<Rightarrow> Rnull | Rroots \<Rightarrow> roots_prev s | Rbuf i \<Rightarrow> (case buf s of Some b \<Rightarrow> rb_prev (b i) | None \<Rightarrow> Rnull))"

primrec links :: "gc \<Rightarrow> rptr \<Rightarrow> nat list \<Rightarrow> bool" where
  "links s p [] \<longleftrightarrow> nxt s p = Rroots \<and> prv s Rroots = p"
| "links s p (i # is) \<longleftrightarrow> nxt s p = Rbuf i \<and> prv s (Rbuf i) = p \<and> links s (Rbuf i) is"

primrec unused_chain :: "gc \<Rightarrow> rptr \<Rightarrow> nat list \<Rightarrow> bool" where
  "unused_chain s p [] \<longleftrightarrow> p = Rnull"
| "unused_chain s p (i # us) \<longleftrightarrow> p = Rbuf i \<and> unused_chain s (prv s (Rbuf i)) us"

definition buf_ok :: "nat list \<Rightarrow> nat list \<Rightarrow> gc \<Rightarrow> bool" where
  "buf_ok is us s \<longleftrightarrow> buf s \<noteq> None \<and> links s Rroots is \<and> unused_chain s (unused s) us \<and> distinct (is @ us) \<and>
     set (is @ us) = {..<first_unused s} \<and> first_unused s \<le> last_unused s \<and> last_unused s = GC_ROOT_BUFFER_MAX_ENTRIES"

abbreviation first_of :: "nat list \<Rightarrow> rptr" where
  "first_of is \<equiv> (case is of [] \<Rightarrow> Rroots | i # _ \<Rightarrow> Rbuf i)"

text \<open>What an operation on the buffer leaves unchanged.\<close>

definition same_heap :: "gc \<Rightarrow> gc \<Rightarrow> bool" where
  "same_heap s s' \<longleftrightarrow> (\<exists>b n p u. s' = s\<lparr>buf := b, roots_next := n, roots_prev := p, unused := u\<rparr>)"

definition rb_of :: "gc \<Rightarrow> nat \<Rightarrow> gc_root_buffer" where
  "rb_of s i = (case buf s of Some b \<Rightarrow> b i | None \<Rightarrow> undefined)"

definition same_entries :: "gc \<Rightarrow> gc \<Rightarrow> bool" where
  "same_entries s s' \<longleftrightarrow> (\<forall>i. rb_handle (rb_of s' i) = rb_handle (rb_of s i) \<and> rb_pz (rb_of s' i) = rb_pz (rb_of s i))"

lemma ring_fields [simp]:
  "nxt (s\<lparr>unused := u\<rparr>) = nxt s" "prv (s\<lparr>unused := u\<rparr>) = prv s"
  "nxt (s\<lparr>first_unused := f\<rparr>) = nxt s" "prv (s\<lparr>first_unused := f\<rparr>) = prv s"
  by (simp_all add: nxt_def prv_def fun_eq_iff split: rptr.splits)

lemma links_first: "links s p is \<Longrightarrow> nxt s p = first_of is"
  by (cases "is") auto

lemma links_last: "links s p is \<Longrightarrow> prv s Rroots = (if is = [] then p else Rbuf (last is))"
  by (induction "is" arbitrary: p) auto


lemma links_cong:
  "(\<And>q. q \<in> insert p (Rbuf ` set is) \<Longrightarrow> nxt s' q = nxt s q) \<Longrightarrow> (\<And>q. q \<in> insert Rroots (Rbuf ` set is) \<Longrightarrow> prv s' q = prv s q) \<Longrightarrow>
    links s' p is = links s p is"
  by (induction "is" arbitrary: p) auto

lemma unused_cong: "(\<And>i. i \<in> set us \<Longrightarrow> prv s' (Rbuf i) = prv s (Rbuf i)) \<Longrightarrow> unused_chain s' p us = unused_chain s p us"
  by (induction us arbitrary: p) auto

lemma links_at:
  "links s p (ks @ i # rs) \<Longrightarrow> prv s (Rbuf i) = (if ks = [] then p else Rbuf (last ks)) \<and> nxt s (Rbuf i) = first_of rs"
  by (induction ks arbitrary: p) (auto simp: links_first)

text \<open>Taking an entry out of the ring.\<close>

lemma links_remove:
  assumes "links s p (ks @ i # rs)" and "distinct (ks @ i # rs)" and "p \<notin> Rbuf ` set (ks @ i # rs)"
    and "nxt s' = (nxt s)((if ks = [] then p else Rbuf (last ks)) := first_of rs)"
    and "\<And>q. q \<noteq> first_of rs \<Longrightarrow> q \<noteq> Rbuf i \<Longrightarrow> prv s' q = prv s q" and "prv s' (first_of rs) = (if ks = [] then p else Rbuf (last ks))"
  shows "links s' p (ks @ rs)"
  using assms
proof (induction ks arbitrary: p)
  case Nil
  show ?case
  proof (cases rs)
    case (Cons j js)
    have "links s (Rbuf j) js" "Rbuf j \<noteq> p" using Nil.prems(1,3) Cons by auto
    moreover have "prv s' q = prv s q" if "q \<in> insert Rroots (Rbuf ` set js)" for q
      using that Nil.prems(2) Cons by (intro Nil.prems(5)) auto
    then have "links s' (Rbuf j) js = links s (Rbuf j) js"
      using Nil.prems(3,4) Cons by (intro links_cong) auto
    ultimately show ?thesis using Nil.prems Cons by simp
  qed (use Nil.prems in simp)
next
  case (Cons k ks)
  have k: "nxt s p = Rbuf k" "prv s (Rbuf k) = p" "links s (Rbuf k) (ks @ i # rs)" using Cons.prems(1) by simp_all
  have "links s' (Rbuf k) (ks @ rs)"
    using k(3) Cons.prems by (intro Cons.IH) auto
  moreover have "nxt s' p = Rbuf k" using k(1) Cons.prems(3,4) by (auto split: if_splits)
  moreover have "Rbuf k \<noteq> first_of rs" using Cons.prems(2) by (auto split: list.splits)
  then have "prv s' (Rbuf k) = p" using k(2) Cons.prems(2,5) by simp
  ultimately show ?case by simp
qed

definition ptr_ok :: "rptr \<Rightarrow> bool" where
  "ptr_ok p \<longleftrightarrow> (case p of Rnull \<Rightarrow> False | Rroots \<Rightarrow> True | Rbuf i \<Rightarrow> i < GC_ROOT_BUFFER_MAX_ENTRIES)"

lemma same_heap_refl [simp]: "same_heap s s"
  unfolding same_heap_def by (intro exI [of _ "buf s"] exI [of _ "roots_next s"] exI [of _ "roots_prev s"] exI [of _ "unused s"]) simp

lemma same_heap_trans: "same_heap s s1 \<Longrightarrow> same_heap s1 s2 \<Longrightarrow> same_heap s s2"
  unfolding same_heap_def by force

lemma same_entries_trans: "same_entries s s1 \<Longrightarrow> same_entries s1 s2 \<Longrightarrow> same_entries s s2"
  by (simp add: same_entries_def)

lemma rb_upd_ring:
  assumes "buf s = Some b" and "i < GC_ROOT_BUFFER_MAX_ENTRIES"
    and "\<And>e. rb_handle (f e) = rb_handle e" and "\<And>e. rb_pz (f e) = rb_pz e"
  obtains s' where "rb_upd i f s = Some s'" and "nxt s' = (nxt s)(Rbuf i := rb_next (f (b i)))" and "prv s' = (prv s)(Rbuf i := rb_prev (f (b i)))"
    and "buf s' = Some (b(i := f (b i)))" and "same_heap s s'" and "same_entries s s'" and "unused s' = unused s"
proof
  let ?s = "s\<lparr>buf := Some (b(i := f (b i)))\<rparr>"
  show "rb_upd i f s = Some ?s" using assms by (simp add: rb_upd_def)
  show "nxt ?s = (nxt s)(Rbuf i := rb_next (f (b i)))" and "prv ?s = (prv s)(Rbuf i := rb_prev (f (b i)))"
    using assms by (auto simp: nxt_def prv_def fun_eq_iff split: rptr.splits)
  show "same_heap s ?s" unfolding same_heap_def
    by (intro exI [of _ "Some (b(i := f (b i)))"] exI [of _ "roots_next s"] exI [of _ "roots_prev s"] exI [of _ "unused s"]) simp
  show "same_entries s ?s" using assms by (auto simp: same_entries_def rb_of_def)
qed simp_all

lemma set_prev_ring:
  assumes "buf s \<noteq> None" and "ptr_ok q"
  obtains s' where "set_prev q x s = Some s'" and "nxt s' = nxt s" and "prv s' = (prv s)(q := x)" and "buf s' \<noteq> None"
    and "same_heap s s'" and "same_entries s s'" and "unused s' = unused s"
proof (cases q)
  case (Rbuf i)
  obtain b where b: "buf s = Some b" using assms(1) by blast
  obtain s' where "rb_upd i (\<lambda>b. b\<lparr>rb_prev := x\<rparr>) s = Some s'" "nxt s' = (nxt s)(Rbuf i := rb_next (b i))" "prv s' = (prv s)(Rbuf i := x)"
    "buf s' = Some (b(i := (b i)\<lparr>rb_prev := x\<rparr>))" "same_heap s s'" "same_entries s s'" "unused s' = unused s"
    using assms(2) Rbuf by (rule_tac rb_upd_ring [OF b, of i "\<lambda>b. b\<lparr>rb_prev := x\<rparr>"]) (auto simp: ptr_ok_def)
  then show ?thesis using Rbuf b by (intro that [of s']) (auto simp: set_prev_def nxt_def fun_eq_iff)
next
  case Rroots
  have "same_heap s (s\<lparr>roots_prev := x\<rparr>)" unfolding same_heap_def
    by (intro exI [of _ "buf s"] exI [of _ "roots_next s"] exI [of _ x] exI [of _ "unused s"]) simp
  then show ?thesis using Rroots assms(1)
    by (intro that [of "s\<lparr>roots_prev := x\<rparr>"]) (auto simp: set_prev_def nxt_def prv_def same_entries_def rb_of_def fun_eq_iff split: rptr.splits)
qed (use assms(2) in \<open>simp add: ptr_ok_def\<close>)

lemma set_next_ring:
  assumes "buf s \<noteq> None" and "ptr_ok q"
  obtains s' where "set_next q x s = Some s'" and "nxt s' = (nxt s)(q := x)" and "prv s' = prv s" and "buf s' \<noteq> None"
    and "same_heap s s'" and "same_entries s s'" and "unused s' = unused s"
proof (cases q)
  case (Rbuf i)
  obtain b where b: "buf s = Some b" using assms(1) by blast
  obtain s' where "rb_upd i (\<lambda>b. b\<lparr>rb_next := x\<rparr>) s = Some s'" "nxt s' = (nxt s)(Rbuf i := x)" "prv s' = (prv s)(Rbuf i := rb_prev (b i))"
    "buf s' = Some (b(i := (b i)\<lparr>rb_next := x\<rparr>))" "same_heap s s'" "same_entries s s'" "unused s' = unused s"
    using assms(2) Rbuf by (rule_tac rb_upd_ring [OF b, of i "\<lambda>b. b\<lparr>rb_next := x\<rparr>"]) (auto simp: ptr_ok_def)
  then show ?thesis using Rbuf b by (intro that [of s']) (auto simp: set_next_def prv_def fun_eq_iff)
next
  case Rroots
  have "same_heap s (s\<lparr>roots_next := x\<rparr>)" unfolding same_heap_def
    by (intro exI [of _ "buf s"] exI [of _ x] exI [of _ "roots_prev s"] exI [of _ "unused s"]) simp
  then show ?thesis using Rroots assms(1)
    by (intro that [of "s\<lparr>roots_next := x\<rparr>"]) (auto simp: set_next_def nxt_def prv_def same_entries_def rb_of_def fun_eq_iff split: rptr.splits)
qed (use assms(2) in \<open>simp add: ptr_ok_def\<close>)

lemma rb_get_nxt: "buf s \<noteq> None \<Longrightarrow> i < GC_ROOT_BUFFER_MAX_ENTRIES \<Longrightarrow> rb_get i s = Some (rb_of s i) \<and> rb_next (rb_of s i) = nxt s (Rbuf i) \<and>
    rb_prev (rb_of s i) = prv s (Rbuf i)"
  by (auto simp: rb_get_def rb_of_def nxt_def prv_def)

lemma buf_ok_bounds:
  assumes "buf_ok is us s"
  shows "i \<in> set (is @ us) \<Longrightarrow> i < GC_ROOT_BUFFER_MAX_ENTRIES" and "buf s \<noteq> None"
proof -
  have b: "set (is @ us) = {..<first_unused s}" "first_unused s \<le> GC_ROOT_BUFFER_MAX_ENTRIES" "buf s \<noteq> None"
    using assms unfolding buf_ok_def by (blast, metis, blast)
  then show "buf s \<noteq> None" by blast
  assume "i \<in> set (is @ us)"
  then have "i < first_unused s" unfolding b(1) by simp
  then show "i < GC_ROOT_BUFFER_MAX_ENTRIES" using b(2) by simp
qed

lemma same_heap_fields:
  assumes "same_heap s s'"
  shows "zvals s' = zvals s" and "objects s' = objects s" and "object_buckets s' = object_buckets s" and "zval_to_free s' = zval_to_free s"
    and "first_unused s' = first_unused s" and "last_unused s' = last_unused s"
  using assms by (auto simp: same_heap_def)

lemma gc_remove_from_buffer_ok:
  assumes ok: "buf_ok (ks @ i # rs) us s"
  obtains s' where "gc_remove_from_buffer i s = Some s'" and "buf_ok (ks @ rs) (i # us) s'" and "nxt s' (Rbuf i) = first_of rs"
    and "same_heap s s'" and "same_entries s s'"
proof -
  have links: "links s Rroots (ks @ i # rs)" and dist: "distinct ((ks @ i # rs) @ us)" and unused: "unused_chain s (unused s) us"
    using ok by (simp_all add: buf_ok_def)
  let ?p = "if ks = [] then Rroots else Rbuf (last ks)"
  have at: "prv s (Rbuf i) = ?p" "nxt s (Rbuf i) = first_of rs" using links_at [OF links] by simp_all
  have lt: "j < GC_ROOT_BUFFER_MAX_ENTRIES" if "j \<in> set (ks @ i # rs)" for j using buf_ok_bounds(1) [OF ok, of j] that by auto
  have p: "ptr_ok ?p" "ptr_ok (first_of rs)" using lt by (auto simp: ptr_ok_def split: list.splits)
  have i: "i < GC_ROOT_BUFFER_MAX_ENTRIES" using lt by simp
  have ne: "?p \<noteq> Rbuf i" "first_of rs \<noteq> Rbuf i" using dist by (auto split: list.splits)
  obtain s1 where s1: "set_prev (first_of rs) ?p s = Some s1" "nxt s1 = nxt s" "prv s1 = (prv s)(first_of rs := ?p)" "buf s1 \<noteq> None"
    "same_heap s s1" "same_entries s s1" "unused s1 = unused s"
    using set_prev_ring [OF buf_ok_bounds(2) [OF ok] p(2)] .
  obtain s2 where s2: "set_next ?p (first_of rs) s1 = Some s2" "nxt s2 = (nxt s1)(?p := first_of rs)" "prv s2 = prv s1" "buf s2 \<noteq> None"
    "same_heap s1 s2" "same_entries s1 s2" "unused s2 = unused s1"
    using set_next_ring [OF s1(4) p(1)] .
  obtain b where b: "buf s2 = Some b" using s2(4) by blast
  obtain s3 where s3: "rb_upd i (\<lambda>b. b\<lparr>rb_prev := unused s2\<rparr>) s2 = Some s3" "nxt s3 = (nxt s2)(Rbuf i := rb_next (b i))"
    "prv s3 = (prv s2)(Rbuf i := unused s2)" "buf s3 = Some (b(i := (b i)\<lparr>rb_prev := unused s2\<rparr>))" "same_heap s2 s3" "same_entries s2 s3"
    "unused s3 = unused s2"
    using i by (rule_tac rb_upd_ring [OF b, of i "\<lambda>b. b\<lparr>rb_prev := unused s2\<rparr>"]) auto
  let ?s = "s3\<lparr>unused := Rbuf i\<rparr>"
  have nxt3: "nxt ?s = (nxt s)(?p := first_of rs)"
    using s3(2) s2(2) s1(2) b by (auto simp: nxt_def fun_eq_iff split: rptr.splits)
  have prv3: "prv ?s = (prv s)(first_of rs := ?p, Rbuf i := unused s)"
    using s3(3) s2(3,7) s1(3,7) by simp
  show ?thesis
  proof (rule that [of ?s])
    have "rb_get i s = Some (rb_of s i)" "rb_next (rb_of s i) = first_of rs" "rb_prev (rb_of s i) = ?p"
      using rb_get_nxt [OF buf_ok_bounds(2) [OF ok] i] at by simp_all
    moreover have "rb_get i s1 = Some (rb_of s1 i)" "rb_next (rb_of s1 i) = first_of rs" "rb_prev (rb_of s1 i) = ?p"
      using rb_get_nxt [OF s1(4) i] at s1(2,3) ne by simp_all
    ultimately show "gc_remove_from_buffer i s = Some ?s" using s1(1) s2(1) s3(1) by (simp add: gc_remove_from_buffer_def)
    have heap: "same_heap s s3" using same_heap_trans [OF s1(5) same_heap_trans [OF s2(5) s3(5)]] .
    have "same_heap s3 ?s" unfolding same_heap_def
      by (intro exI [of _ "buf s3"] exI [of _ "roots_next s3"] exI [of _ "roots_prev s3"] exI [of _ "Rbuf i"]) simp
    then show heap': "same_heap s ?s" using same_heap_trans [OF heap] by simp
    show "same_entries s ?s" using same_entries_trans [OF s1(6) same_entries_trans [OF s2(6) s3(6)]]
      by (simp add: same_entries_def rb_of_def)
    show "nxt ?s (Rbuf i) = first_of rs" using nxt3 at(2) ne(1) by simp
    have "links ?s Rroots (ks @ rs)"
      by (rule links_remove [OF links]) (use dist nxt3 prv3 ne in auto)
    moreover have "unused_chain ?s (unused s) us"
    proof -
      have "prv ?s (Rbuf j) = prv s (Rbuf j)" if "j \<in> set us" for j using that dist prv3 by (auto split: list.splits)
      then show ?thesis using unused unused_cong [of us ?s s] by blast
    qed
    then have "unused_chain ?s (unused ?s) (i # us)" using prv3 by simp
    moreover have "set (ks @ rs @ i # us) = set ((ks @ i # rs) @ us)" by auto
    ultimately show "buf_ok (ks @ rs) (i # us) ?s" using ok dist same_heap_fields [OF heap'] s3(4) by (auto simp: buf_ok_def)
  qed
qed

subsection \<open>Entries and their nodes\<close>

definition root_node :: "gc \<Rightarrow> nat \<Rightarrow> gnode list" where
  "root_node s i =
     (let b = rb_of s i in
      if rb_handle b \<noteq> 0 then if object_buckets s then [Ob (rb_handle b)] else [] else grefs s [rb_pz b])"

definition root_nodes :: "gc \<Rightarrow> nat list \<Rightarrow> gnode list" where
  "root_nodes s is = concat (map (root_node s) is)"

definition entry_ok :: "gc \<Rightarrow> nat \<Rightarrow> bool" where
  "entry_ok s i \<longleftrightarrow>
     (let b = rb_of s i in
      if rb_handle b \<noteq> 0 then object_buckets s \<longrightarrow> orefs s (rb_handle b) \<noteq> None else ztype s (rb_pz b) \<noteq> None)"

definition gnodes :: "gc \<Rightarrow> gnode set" where
  "gnodes s = {n. case n of Zv a \<Rightarrow> ztype s a \<noteq> None \<and> ztype s a \<noteq> Some Symbol_table | Ob h \<Rightarrow> orefs s h \<noteq> None}"

text \<open>The steps of the loops over the roots change neither the values nor which of them the entries are for.\<close>

definition moved :: "gc \<Rightarrow> gc \<Rightarrow> bool" where
  "moved s s' \<longleftrightarrow> same_shape s s' \<and> same_syms s s' \<and> same_entries s s' \<and>
     (\<exists>zs os b n p u f. s' = s\<lparr>zvals := zs, objects := os, buf := b, roots_next := n, roots_prev := p, unused := u, zval_to_free := f\<rparr>)"

lemma moved_refl [simp]: "moved s s"
  unfolding moved_def
  by (intro conjI exI [of _ "zvals s"] exI [of _ "objects s"] exI [of _ "buf s"] exI [of _ "roots_next s"] exI [of _ "roots_prev s"]
      exI [of _ "unused s"] exI [of _ "zval_to_free s"]) (simp_all add: same_entries_def)

lemma moved_rest:
  "\<exists>zs os b n p u f. s1 = s\<lparr>zvals := zs, objects := os, buf := b, roots_next := n, roots_prev := p, unused := u, zval_to_free := f\<rparr> \<Longrightarrow>
   \<exists>zs os b n p u f. s2 = s1\<lparr>zvals := zs, objects := os, buf := b, roots_next := n, roots_prev := p, unused := u, zval_to_free := f\<rparr> \<Longrightarrow>
   \<exists>zs os b n p u f. s2 = s\<lparr>zvals := zs, objects := os, buf := b, roots_next := n, roots_prev := p, unused := u, zval_to_free := f\<rparr>"
  by force

lemma moved_trans: "moved s s1 \<Longrightarrow> moved s1 s2 \<Longrightarrow> moved s s2"
  unfolding moved_def using same_shape_trans same_syms_trans same_entries_trans moved_rest [of s1 s s2] by blast

lemma moved_shape: "moved s s' \<Longrightarrow> same_shape s s'"
  by (simp add: moved_def)

lemma moved_fields:
  assumes "moved s s'"
  shows "free_list s' = free_list s" and "next_to_free s' = next_to_free s"
proof -
  obtain zs os b n p u f where
    "s' = s\<lparr>zvals := zs, objects := os, buf := b, roots_next := n, roots_prev := p, unused := u, zval_to_free := f\<rparr>"
    using assms unfolding moved_def by blast
  then show "free_list s' = free_list s" and "next_to_free s' = next_to_free s" by simp_all
qed

lemma moved_nodes:
  assumes "moved s s'"
  shows "root_node s' = root_node s" and "root_nodes s' = root_nodes s" and "entry_ok s' = entry_ok s" and "gnodes s' = gnodes s"
    and "gsuccs s' = gsuccs s" and "heap_closed s' = heap_closed s"
proof -
  have sh: "same_shape s s'" and en: "same_entries s s'" using assms by (simp_all add: moved_def)
  note same = shape_refs [OF sh] shape_orefs [OF sh]
  show node: "root_node s' = root_node s" using en same by (auto simp: root_node_def same_entries_def fun_eq_iff Let_def)
  then show "root_nodes s' = root_nodes s" by (intro ext) (simp add: root_nodes_def)
  show "entry_ok s' = entry_ok s" using en same by (auto simp: entry_ok_def same_entries_def fun_eq_iff Let_def)
  show "gnodes s' = gnodes s" "gsuccs s' = gsuccs s" using same by (simp_all add: gnodes_def cong: gnode.case_cong)
  show "heap_closed s' = heap_closed s" using heap_closed_shape [OF sh] .
qed

lemma root_node_cases:
  assumes "entry_ok s i"
  obtains (obj) h ps where "rb_handle (rb_of s i) = h" and "h \<noteq> 0" and "object_buckets s" and "orefs s h = Some ps" and "root_node s i = [Ob h]"
  | (none) "rb_handle (rb_of s i) \<noteq> 0" and "\<not> object_buckets s" and "root_node s i = []"
  | (val) a t where "rb_handle (rb_of s i) = 0" and "rb_pz (rb_of s i) = a" and "ztype s a = Some t" and "t \<noteq> Symbol_table" and "root_node s i = [Zv a]"
  | (sym) a where "rb_handle (rb_of s i) = 0" and "rb_pz (rb_of s i) = a" and "ztype s a = Some Symbol_table" and "root_node s i = []"
proof (cases "rb_handle (rb_of s i) = 0")
  case True
  then obtain t where "ztype s (rb_pz (rb_of s i)) = Some t" using assms by (auto simp: entry_ok_def Let_def)
  then show ?thesis using True val [of "rb_pz (rb_of s i)" t] sym [of "rb_pz (rb_of s i)"]
    by (cases "t = Symbol_table") (simp_all add: root_node_def grefs_single)
next
  case False
  then show ?thesis using assms obj [of "rb_handle (rb_of s i)"] none
    by (cases "object_buckets s") (auto simp: root_node_def entry_ok_def Let_def)
qed

lemma same_heap_view:
  assumes "same_heap s s'" and "same_entries s s'"
  shows "view s' = view s" and "naddr s' = naddr s" and "moved s s'" and "zval_to_free s' = zval_to_free s" and "free_chain s' = free_chain s"
proof -
  note f = same_heap_fields [OF assms(1)]
  show "view s' = view s" "naddr s' = naddr s" "zval_to_free s' = zval_to_free s" by (simp_all add: view_def naddr_def fun_eq_iff f split: gnode.splits)
  have "next_link a s' = next_link a s" for a by (simp add: next_link_def f)
  then show "free_chain s' = free_chain s" using gc_free_chain_cong [of _ s' s] by (simp add: fun_eq_iff)
  obtain b n p u where "s' = s\<lparr>buf := b, roots_next := n, roots_prev := p, unused := u\<rparr>" using assms(1) by (auto simp: same_heap_def)
  then have "s' = s\<lparr>zvals := zvals s, objects := objects s, buf := b, roots_next := n, roots_prev := p, unused := u, zval_to_free := zval_to_free s\<rparr>"
    by simp
  moreover have "same_shape s s'" "same_syms s s'" using f by (auto simp: same_shape_def ztype_def same_syms_def)
  ultimately show "moved s s'" unfolding moved_def using assms(2) by blast
qed

lemma keeps_moved:
  assumes "keeps s s'"
  shows "moved s s'" and "buf_ok is us s' = buf_ok is us s" and "nxt s' = nxt s"
proof -
  obtain zs os where s': "s' = s\<lparr>zvals := zs, objects := os\<rparr>" using assms by (auto simp: keeps_def same_rest_def)
  have ring: "nxt s' = nxt s" "prv s' = prv s" unfolding s' by (simp_all add: nxt_def prv_def fun_eq_iff split: rptr.splits)
  then show "nxt s' = nxt s" by simp
  have l: "links s' p is = links s p is" "unused_chain s' p us = unused_chain s p us" for p
    using links_cong [of p "is" s' s] unused_cong [of us s' s p] ring by simp_all
  show "buf_ok is us s' = buf_ok is us s" unfolding buf_ok_def l by (simp add: s')
  have "s' = s\<lparr>zvals := zs, objects := os, buf := buf s, roots_next := roots_next s, roots_prev := roots_prev s, unused := unused s, zval_to_free := zval_to_free s\<rparr>"
    using s' by simp
  moreover have "same_entries s s'" by (simp add: same_entries_def rb_of_def s')
  ultimately show "moved s s'" using assms unfolding moved_def keeps_def by blast
qed

text \<open>Clearing the address of a root.\<close>

definition clear_addr :: "gnode \<Rightarrow> gc \<Rightarrow> gc option" where
  "clear_addr n = (case n of Zv a \<Rightarrow> zv_upd a (\<lambda>z. z\<lparr>z_addr := Null\<rparr>) | Ob h \<Rightarrow> ob_upd h (\<lambda>ob. ob\<lparr>o_addr := Null\<rparr>))"

lemma clear_addr_ok:
  assumes "case n of Zv a \<Rightarrow> ztype s a \<noteq> None | Ob h \<Rightarrow> orefs s h \<noteq> None"
  obtains s' where "clear_addr n s = Some s'" and "view s' = view s" and "naddr s' = (naddr s)(n := Some Null)" and "moved s s'"
    and "buf_ok is us s' = buf_ok is us s" and "nxt s' = nxt s" and "zval_to_free s' = zval_to_free s"
    and "\<And>q xs. n \<notin> Zv ` set xs \<Longrightarrow> free_chain s' q xs = free_chain s q xs"
proof -
  obtain zs os where s': "clear_addr n s = Some (s\<lparr>zvals := zs, objects := os\<rparr>)"
    and z: "\<And>a. zs a = (if n = Zv a then map_option (\<lambda>z. z\<lparr>z_addr := Null\<rparr>) (zvals s a) else zvals s a)"
    and ob: "\<And>h. os h = (if n = Ob h then map_option (\<lambda>ob. ob\<lparr>o_addr := Null\<rparr>) (objects s h) else objects s h)"
    and some: "case n of Zv a \<Rightarrow> zs a \<noteq> None | Ob h \<Rightarrow> os h \<noteq> None"
  proof (cases n)
    case (Zv a)
    then obtain z where "zvals s a = Some z" using assms by (auto simp: ztype_def)
    then show ?thesis using Zv
      by (intro that [where zs = "(zvals s)(a \<mapsto> z\<lparr>z_addr := Null\<rparr>)" and os = "objects s"]) (auto simp: clear_addr_def zv_upd_def)
  next
    case (Ob h)
    then obtain ob where "objects s h = Some ob" using assms by (auto simp: orefs_def)
    then show ?thesis using Ob
      by (intro that [where zs = "zvals s" and os = "(objects s)(h \<mapsto> ob\<lparr>o_addr := Null\<rparr>)"]) (auto simp: clear_addr_def ob_upd_def)
  qed
  let ?s = "s\<lparr>zvals := zs, objects := os\<rparr>"
  have zc: "zcol (zs a) = zcol (zvals s a)" "zcnt (zs a) = zcnt (zvals s a)" "map_option z_type (zs a) = map_option z_type (zvals s a)" for a
    unfolding z by (cases "zvals s a"; simp add: zcol_def zcnt_def)+
  have oc: "ocol (os h) = ocol (objects s h)" "ocnt (os h) = ocnt (objects s h)" "map_option obj_shape (os h) = map_option obj_shape (objects s h)" for h
    unfolding ob by (cases "objects s h"; simp add: ocol_def ocnt_def obj_shape_def)+
  show ?thesis
  proof (rule that [of ?s])
    show "view ?s = view s" by (simp add: view_def zc oc cong: gnode.case_cong)
    have addr: "naddr ?s m = ((naddr s)(n := Some Null)) m" for m using some z ob
      by (cases m; cases n) (auto simp: naddr_def split: option.splits)
    then show "naddr ?s = (naddr s)(n := Some Null)" by (rule ext)
    have "same_shape s ?s" by (simp add: same_shape_def ztype_def zc oc fun_eq_iff)
    moreover have "same_syms s ?s" unfolding same_syms_def using z by (auto split: if_splits)
    moreover have "same_entries s ?s" by (simp add: same_entries_def rb_of_def)
    moreover have "?s = s\<lparr>zvals := zs, objects := os, buf := buf s, roots_next := roots_next s, roots_prev := roots_prev s, unused := unused s,
        zval_to_free := zval_to_free s\<rparr>" by simp
    ultimately show "moved s ?s" unfolding moved_def by blast
    have ring: "nxt ?s = nxt s" "prv ?s = prv s" by (simp_all add: nxt_def prv_def fun_eq_iff split: rptr.splits)
    then show "nxt ?s = nxt s" by simp
    have l: "links ?s p is = links s p is" "unused_chain ?s p us = unused_chain s p us" for p
      using links_cong [of p "is" ?s s] unused_cong [of us ?s s p] ring by simp_all
    show "buf_ok is us ?s = buf_ok is us s" unfolding buf_ok_def l by simp
    show "free_chain ?s q xs = free_chain s q xs" if "n \<notin> Zv ` set xs" for q xs
      by (rule gc_free_chain_cong, rule next_link_addr) (use that addr in auto)
  qed (simp_all add: s')
qed

lemma collects_moved:
  assumes "collects ws s s'"
  shows "moved s s'" and "buf_ok is us s' = buf_ok is us s" and "nxt s' = nxt s"
proof -
  obtain zs os f where s': "s' = s\<lparr>zvals := zs, objects := os, zval_to_free := f\<rparr>" using assms unfolding collects_def by blast
  have ring: "nxt s' = nxt s" "prv s' = prv s" unfolding s' by (simp_all add: nxt_def prv_def fun_eq_iff split: rptr.splits)
  then show "nxt s' = nxt s" by simp
  have l: "links s' p is = links s p is" "unused_chain s' p us = unused_chain s p us" for p
    using links_cong [of p "is" s' s] unused_cong [of us s' s p] ring by simp_all
  show "buf_ok is us s' = buf_ok is us s" unfolding buf_ok_def l by (simp add: s')
  have "s' = s\<lparr>zvals := zs, objects := os, buf := buf s, roots_next := roots_next s, roots_prev := roots_prev s, unused := unused s, zval_to_free := f\<rparr>"
    using s' by simp
  moreover have "same_entries s s'" by (simp add: same_entries_def rb_of_def s')
  moreover have "same_shape s s'" "same_syms s s'" using assms unfolding collects_def by blast+
  ultimately show "moved s s'" unfolding moved_def by blast
qed

end
