(* ===== verification/Zend_Gc_Spec.thy ===== *)
theory Zend_Gc_Spec
  imports Zend_Gc_Roots
begin

text \<open>
  The collection as a whole.
\<close>

subsection \<open>Marking the roots\<close>

text \<open>An entry is dropped: its node forgets it, and it joins the unused entries.\<close>

lemma drop_root:
  assumes n: "case n of Zv a \<Rightarrow> ztype s a \<noteq> None | Ob h \<Rightarrow> orefs s h \<noteq> None" and ok: "buf_ok (ks @ i # rs) us s"
  obtains s' where "(clear_addr n s \<bind> gc_remove_from_buffer i) = Some s'" and "moved s s'" and "view s' = view s"
    and "naddr s' = (naddr s)(n := Some Null)" and "buf_ok (ks @ rs) (i # us) s'" and "nxt s' (Rbuf i) = first_of rs"
    and "zval_to_free s' = zval_to_free s" and "\<And>q xs. n \<notin> Zv ` set xs \<Longrightarrow> free_chain s' q xs = free_chain s q xs"
proof -
  obtain s1 where s1: "clear_addr n s = Some s1" "view s1 = view s" "naddr s1 = (naddr s)(n := Some Null)" "moved s s1"
    "buf_ok (ks @ i # rs) us s1 = buf_ok (ks @ i # rs) us s" "zval_to_free s1 = zval_to_free s"
    and chain: "\<And>q xs. n \<notin> Zv ` set xs \<Longrightarrow> free_chain s1 q xs = free_chain s q xs"
    using clear_addr_ok [OF n, of "ks @ i # rs" us] by metis
  have "buf_ok (ks @ i # rs) us s1" using s1(5) ok by simp
  then obtain s2 where s2: "gc_remove_from_buffer i s1 = Some s2" "buf_ok (ks @ rs) (i # us) s2" "nxt s2 (Rbuf i) = first_of rs"
    "same_heap s1 s2" "same_entries s1 s2" by (rule gc_remove_from_buffer_ok)
  note same = same_heap_view [OF s2(4,5)]
  show ?thesis using s1 s2 same chain moved_trans [OF s1(4) same(3)] by (intro that [of s2]) simp_all
qed

definition mark_result :: "nat list \<Rightarrow> nat \<Rightarrow> nat list \<Rightarrow> nat list \<Rightarrow> gc \<Rightarrow> gc \<Rightarrow> bool \<Rightarrow> bool" where
  "mark_result ks i rs us s s' kept \<longleftrightarrow> moved s s' \<and> nxt s' (Rbuf i) = first_of rs \<and> zval_to_free s' = zval_to_free s \<and>
     (if kept then buf_ok (ks @ i # rs) us s' else buf_ok (ks @ rs) (i # us) s') \<and>
     gmark_roots (gsuccs s) (root_node s i) (view s) (if kept then root_node s i else []) (view s') \<and>
     (\<forall>n\<in>gnodes s. naddr s' n = (if kept \<or> n \<notin> set (root_node s i) then naddr s n else Some Null))"

lemma mark_dropped:
  assumes n: "case n of Zv a \<Rightarrow> ztype s a \<noteq> None | Ob h \<Rightarrow> orefs s h \<noteq> None" and ok: "buf_ok (ks @ i # rs) us s"
    and node: "root_node s i = (if n \<in> gnodes s then [n] else [])" and col: "gcol (view s) n \<noteq> GC_PURPLE"
  shows "\<exists>s'. (clear_addr n s \<bind> gc_remove_from_buffer i) = Some s' \<and> mark_result ks i rs us s s' False"
proof -
  obtain s' where s': "(clear_addr n s \<bind> gc_remove_from_buffer i) = Some s'" "moved s s'" "view s' = view s"
    "naddr s' = (naddr s)(n := Some Null)" "buf_ok (ks @ rs) (i # us) s'" "nxt s' (Rbuf i) = first_of rs" "zval_to_free s' = zval_to_free s"
    using drop_root [OF n ok] by metis
  have "gmark_roots (gsuccs s) (root_node s i) (view s) [] (view s')" using s'(3) node col by (auto intro!: roots_nil roots_drop)
  then show ?thesis using s' node by (auto simp: mark_result_def)
qed

lemma mark_kept:
  assumes ok: "buf_ok (ks @ i # rs) us s" and k: "keeps s s'"
    and m: "gmark_roots (gsuccs s) (root_node s i) (view s) (root_node s i) (view s')"
  shows "mark_result ks i rs us s s' True"
proof -
  have "nxt s (Rbuf i) = first_of rs" using links_at [of s Rroots ks i rs] ok by (simp add: buf_ok_def)
  then show ?thesis using assms keeps_moved [OF k] keeps_naddr [OF k] keeps_chain(2) [OF k] by (simp add: mark_result_def)
qed

lemma buf_ok_at: "buf_ok (ks @ i # rs) us s \<Longrightarrow> rb_get i s = Some (rb_of s i)"
  using rb_get_nxt [of s i] buf_ok_bounds(1) [of "ks @ i # rs" us s i] buf_ok_bounds(2) [of "ks @ i # rs" us s] by simp

lemma mark_root_ok:
  assumes closed: "heap_closed s" and ok: "buf_ok (ks @ i # rs) us s" and entry: "entry_ok s i"
  shows "\<exists>s' kept. mark_root i s = Some s' \<and> mark_result ks i rs us s s' kept"
  using entry
proof (cases rule: root_node_cases)
  case (obj h ps)
  then obtain ob where ob: "objects s h = Some ob" by (auto simp: orefs_def)
  have col: "gcol (view s) (Ob h) = o_color ob" using ob by (simp add: view_node ocol_def)
  show ?thesis
  proof (cases "o_color ob = GC_PURPLE")
    case True
    then obtain s' where s': "zobj_mark_grey h s = Some s'" "keeps s s'"
      "gsweep GC_GREY (- 1) (gsuccs s) (gsuccs s (Ob h)) (paint (Ob h) GC_GREY (view s)) (view s')"
      using zobj_mark_grey_view [OF closed obj(4)] col by auto
    have "gmark_roots (gsuccs s) (root_node s i) (view s) (root_node s i) (view s')"
      unfolding obj(5) by (rule roots_mark [OF _ s'(3) roots_nil]) (simp add: col True)
    moreover have "mark_root i s = Some s'" using obj ob True s'(1) buf_ok_at [OF ok] by (simp add: mark_root_def)
    ultimately show ?thesis using mark_kept [OF ok s'(2)] by blast
  next
    case False
    have "mark_root i s = clear_addr (Ob h) s \<bind> gc_remove_from_buffer i"
      using obj ob False buf_ok_at [OF ok] by (simp add: mark_root_def clear_addr_def)
    moreover have "Ob h \<in> gnodes s" using obj(4) by (simp add: gnodes_def)
    ultimately show ?thesis using mark_dropped [OF _ ok, of "Ob h"] obj col False by auto
  qed
next
  case none
  then have "mark_root i s = Some s" using buf_ok_at [OF ok] by (simp add: mark_root_def)
  then show ?thesis using mark_kept [OF ok keeps_refl] none roots_nil by metis
next
  case (val a t)
  then obtain z where z: "zvals s a = Some z" "z_type z = t" by (auto simp: zvals_type)
  have col: "gcol (view s) (Zv a) = z_color z" using z val by (simp add: view_node zcol_def)
  show ?thesis
  proof (cases "z_color z = GC_PURPLE")
    case True
    then obtain s' where s': "zval_mark_grey a s = Some s'" "keeps s s'"
      "gsweep GC_GREY (- 1) (gsuccs s) (gsuccs s (Zv a)) (paint (Zv a) GC_GREY (view s)) (view s')"
      using zval_mark_grey_view [OF closed val(3,4)] col by auto
    have "gmark_roots (gsuccs s) (root_node s i) (view s) (root_node s i) (view s')"
      unfolding val(5) by (rule roots_mark [OF _ s'(3) roots_nil]) (simp add: col True)
    moreover have "mark_root i s = Some s'" using val z True s'(1) buf_ok_at [OF ok] by (simp add: mark_root_def)
    ultimately show ?thesis using mark_kept [OF ok s'(2)] by blast
  next
    case False
    have "mark_root i s = clear_addr (Zv a) s \<bind> gc_remove_from_buffer i"
      using val z False buf_ok_at [OF ok] by (simp add: mark_root_def clear_addr_def)
    moreover have "Zv a \<in> gnodes s" using val(3,4) by (simp add: gnodes_def)
    ultimately show ?thesis using mark_dropped [OF _ ok, of "Zv a"] val col False by auto
  qed
next
  case (sym a)
  then obtain z where z: "zvals s a = Some z" "z_type z = Symbol_table" by (auto simp: zvals_type)
  show ?thesis
  proof (cases "z_color z = GC_PURPLE")
    case True
    obtain s' where s': "zval_grey_step a s = Some ([], s')" "keeps s s'" "view s' = view s"
      using grey_sweep_step z unfolding sweep_step_def by blast
    then have "mark_root i s = Some s'" using sym z True buf_ok_at [OF ok]
      by (simp add: mark_root_def zval_mark_grey_def mark_grey_each.simps)
    then show ?thesis using mark_kept [OF ok s'(2)] s'(3) sym roots_nil by metis
  next
    case False
    have "mark_root i s = clear_addr (Zv a) s \<bind> gc_remove_from_buffer i"
      using sym z False buf_ok_at [OF ok] by (simp add: mark_root_def clear_addr_def)
    moreover have "Zv a \<notin> gnodes s" "gcol (view s) (Zv a) \<noteq> GC_PURPLE" using sym(3) z by (simp_all add: gnodes_def view_node zcol_def)
    ultimately show ?thesis using mark_dropped [OF _ ok, of "Zv a"] sym by auto
  qed
qed

lemma gmark_roots_append: "gmark_roots g rs v ks v1 \<Longrightarrow> gmark_roots g rs' v1 ks' v' \<Longrightarrow> gmark_roots g (rs @ rs') v (ks @ ks') v'"
  by (induction rule: gmark_roots.induct) (auto intro: gmark_roots.intros)

text \<open>The entries hold the addresses of their nodes; no other node has an address.\<close>

definition roots_addr :: "gc \<Rightarrow> nat list \<Rightarrow> bool" where
  "roots_addr s is \<longleftrightarrow> (\<forall>i\<in>set is. \<forall>n\<in>set (root_node s i). naddr s n = Some (Root i)) \<and>
     (\<forall>n\<in>gnodes s. n \<notin> set (root_nodes s is) \<longrightarrow> naddr s n = Some Null)"

lemma root_node_gnodes: "entry_ok s i \<Longrightarrow> set (root_node s i) \<subseteq> gnodes s"
  by (erule root_node_cases) (auto simp: gnodes_def)

lemma root_node_distinct: "distinct (root_node s i)"
  by (simp add: root_node_def Let_def grefs_single)

lemma root_nodes_simps [simp]:
  "root_nodes s [] = []" "root_nodes s (i # is) = root_node s i @ root_nodes s is" "root_nodes s (is @ js) = root_nodes s is @ root_nodes s js"
  by (simp_all add: root_nodes_def)

lemma roots_addr_disjoint:
  assumes "\<forall>i\<in>set is. \<forall>n\<in>set (root_node s i). naddr s n = Some (Root i)" and "i \<notin> set is" and "n \<in> set (root_node s i)" and "naddr s n = Some (Root i)"
  shows "n \<notin> set (root_nodes s is)"
  using assms by (force simp: root_nodes_def)

lemma root_nodes_distinct:
  "\<forall>i\<in>set is. \<forall>n\<in>set (root_node s i). naddr s n = Some (Root i) \<Longrightarrow> distinct is \<Longrightarrow> distinct (root_nodes s is)"
proof (induction "is")
  case (Cons i "is")
  then show ?case using roots_addr_disjoint [of "is" s i] by (fastforce simp: root_node_distinct)
qed simp

lemma roots_addr_cong:
  assumes m: "moved s s'" and addr: "\<And>n. n \<in> gnodes s \<Longrightarrow> naddr s' n = naddr s n" and entries: "\<forall>j\<in>set is. entry_ok s j"
    and ra: "roots_addr s is"
  shows "roots_addr s' is"
proof -
  have "naddr s' n = Some (Root j)" if "j \<in> set is" "n \<in> set (root_node s j)" for j n
  proof -
    have "n \<in> gnodes s" using that entries root_node_gnodes by blast
    then show ?thesis using addr that ra by (simp add: roots_addr_def)
  qed
  then show ?thesis using addr ra unfolding roots_addr_def moved_nodes [OF m] by simp
qed

lemma mark_result_addr:
  assumes r: "mark_result ks i rs us s s' kept" and ra: "roots_addr s (ks @ i # rs)" and ok: "buf_ok (ks @ i # rs) us s"
    and entries: "\<forall>j\<in>set (ks @ i # rs). entry_ok s j"
  shows "roots_addr s' ((if kept then ks @ [i] else ks) @ rs)"
proof -
  have m: "moved s s'" using r by (simp add: mark_result_def)
  note same = moved_nodes [OF m]
  have addr: "naddr s' n = (if kept \<or> n \<notin> set (root_node s i) then naddr s n else Some Null)" if "n \<in> gnodes s" for n
    using r that by (simp add: mark_result_def)
  show ?thesis
  proof (cases kept)
    case True
    then show ?thesis using roots_addr_cong [OF m _ entries ra] addr by simp
  next
    case False
    have dist: "i \<notin> set (ks @ rs)" using ok by (simp add: buf_ok_def)
    have a: "\<forall>j\<in>set (ks @ i # rs). \<forall>n\<in>set (root_node s j). naddr s n = Some (Root j)" using ra by (simp add: roots_addr_def)
    have "naddr s' n = Some (Root j)" if j: "j \<in> set (ks @ rs)" "n \<in> set (root_node s j)" for j n
    proof -
      have "naddr s n = Some (Root j)" using a j by auto
      moreover have "n \<notin> set (root_node s i)"
      proof
        assume "n \<in> set (root_node s i)"
        then have "naddr s n = Some (Root i)" using a by simp
        then show False using \<open>naddr s n = Some (Root j)\<close> j(1) dist by auto
      qed
      moreover have "n \<in> gnodes s" using j entries root_node_gnodes by auto
      ultimately show ?thesis using addr by simp
    qed
    moreover have "naddr s' n = Some Null" if "n \<in> gnodes s" "n \<notin> set (root_nodes s (ks @ rs))" for n
      using that addr ra False by (auto simp: roots_addr_def)
    ultimately show ?thesis unfolding roots_addr_def same using False by simp
  qed
qed

lemma mark_loop:
  assumes "heap_closed s" and "buf_ok (ks @ rs) us s" and "\<forall>i\<in>set (ks @ rs). entry_ok s i" and "roots_addr s (ks @ rs)"
  shows "\<exists>s' ks' us'. roots_loop mark_root (first_of rs) s = Some s' \<and> moved s s' \<and> zval_to_free s' = zval_to_free s \<and>
    buf_ok (ks @ ks') us' s' \<and> set ks' \<subseteq> set rs \<and> roots_addr s' (ks @ ks') \<and>
    gmark_roots (gsuccs s) (root_nodes s rs) (view s) (root_nodes s ks') (view s')"
  using assms
proof (induction rs arbitrary: ks us s)
  case Nil
  then show ?case by (intro exI [of _ s] exI [of _ "[]"] exI [of _ us]) (simp add: roots_loop.simps roots_nil)
next
  case (Cons i rs)
  obtain s1 kept where s1: "mark_root i s = Some s1" and r: "mark_result ks i rs us s s1 kept"
    using mark_root_ok [OF Cons.prems(1,2)] Cons.prems(3) by auto
  have m: "moved s s1" "nxt s1 (Rbuf i) = first_of rs" "zval_to_free s1 = zval_to_free s"
    and mark: "gmark_roots (gsuccs s) (root_node s i) (view s) (if kept then root_node s i else []) (view s1)"
    using r by (simp_all add: mark_result_def)
  note same = moved_nodes [OF m(1)]
  let ?ks = "if kept then ks @ [i] else ks" and ?us = "if kept then us else i # us"
  have ok: "buf_ok (?ks @ rs) ?us s1" using r by (simp add: mark_result_def)
  have i: "i < GC_ROOT_BUFFER_MAX_ENTRIES" using buf_ok_bounds(1) [OF Cons.prems(2), of i] by simp
  have closed: "heap_closed s1" and entries: "\<forall>j\<in>set (?ks @ rs). entry_ok s1 j" using Cons.prems(1,3) same by auto
  obtain s2 ks' us' where s2: "roots_loop mark_root (first_of rs) s1 = Some s2" "moved s1 s2" "zval_to_free s2 = zval_to_free s1"
    "buf_ok (?ks @ ks') us' s2" "set ks' \<subseteq> set rs" "roots_addr s2 (?ks @ ks')"
    "gmark_roots (gsuccs s1) (root_nodes s1 rs) (view s1) (root_nodes s1 ks') (view s2)"
    using Cons.IH [OF closed ok entries mark_result_addr [OF r Cons.prems(4,2,3)]] by blast
  have "roots_loop mark_root (first_of (i # rs)) s = Some s2"
    using s1 rb_get_nxt [OF buf_ok_bounds(2) [OF ok] i] m(2) s2(1) by (subst roots_loop.simps) simp
  moreover have "gmark_roots (gsuccs s) (root_nodes s (i # rs)) (view s) ((if kept then root_node s i else []) @ root_nodes s ks') (view s2)"
    using gmark_roots_append [OF mark] s2(7) same by simp
  ultimately show ?case using s2 m moved_trans [OF m(1) s2(2)]
    by (intro exI [of _ s2] exI [of _ "(if kept then [i] else []) @ ks'"] exI [of _ us']) (auto split: if_splits)
qed

subsection \<open>Scanning the roots\<close>

lemma scan_root_ok:
  assumes closed: "heap_closed s" and ok: "buf_ok (ks @ i # rs) us s" and entry: "entry_ok s i"
  shows "\<exists>s'. scan_root i s = Some s' \<and> keeps s s' \<and> gscan (gsuccs s) (root_node s i) (view s) (view s')"
proof (cases "rb_handle (rb_of s i) = 0")
  case True
  let ?a = "rb_pz (rb_of s i)"
  have a: "ztype s ?a \<noteq> None" "root_node s i = grefs s [?a]" using entry True by (simp_all add: entry_ok_def root_node_def)
  have "follows scan_each keeps (num (\<lambda>x. x = GC_GREY)) gscan kids s1" if "heap_closed s1" "same_shape s s1" "\<forall>x\<in>set kids. ztype s x \<noteq> None" for kids s1
    using scan.each_follows [OF that(1)] that(3) shape_refs(3) [OF that(2)] by simp
  then have "\<exists>s1. scan_visit scan_each ?a s = Some s1 \<and> keeps s s1 \<and> num (\<lambda>x. x = GC_GREY) s1 \<le> num (\<lambda>x. x = GC_GREY) s \<and>
      gscan (gsuccs s) (grefs s [?a]) (view s) (view s1)"
    by (intro scan.visit_ok [OF closed a(1)]) blast
  moreover have "scan_root i s = scan_visit scan_each ?a s" using True buf_ok_at [OF ok] by (simp add: scan_root_def zval_scan_def scan_visit_def)
  ultimately show ?thesis using a(2) by auto
next
  case False
  show ?thesis
  proof (cases "object_buckets s")
    case True
    then obtain h ps where h: "rb_handle (rb_of s i) = h" "orefs s h = Some ps" "root_node s i = [Ob h]" "h \<noteq> 0"
      using entry False by (auto simp: entry_ok_def root_node_def Let_def)
    obtain ks s1 where s1: "zobj_scan_step h s = Some (ks, s1)" "keeps s s1" "\<forall>x\<in>set ks. ztype s x \<noteq> None"
      "\<And>v. gscan (gsuccs s) (grefs s ks) (view s1) v \<Longrightarrow> gscan (gsuccs s) [Ob h] (view s) v"
      using zobj_scan_step_view [OF closed h(2)] by blast
    have "follows scan_each keeps (num (\<lambda>x. x = GC_GREY)) gscan ks s1"
      using scan.each_follows [OF heap_closed_keeps [OF closed s1(2)]] s1(3) keeps_refs(3) [OF s1(2)] by simp
    then obtain s2 where s2: "scan_each ks s1 = Some s2" "keeps s1 s2" "gscan (gsuccs s1) (grefs s1 ks) (view s1) (view s2)"
      by (auto simp: follows_def)
    have "scan_root i s = Some s2" using h True s1(1) s2(1) buf_ok_at [OF ok] by (simp add: scan_root_def zobj_scan_def)
    moreover have "gscan (gsuccs s) [Ob h] (view s) (view s2)" using s1(4) s2(3) keeps_refs [OF s1(2)] by simp
    ultimately show ?thesis using keeps_trans [OF s1(2) s2(2)] h(3) by simp
  next
    case nob: False
    then have "scan_root i s = Some s" using False buf_ok_at [OF ok] by (simp add: scan_root_def zobj_scan_def)
    then show ?thesis using nob False by (simp add: root_node_def scan_nil)
  qed
qed

lemma scan_loop:
  assumes "heap_closed s" and "buf_ok (ks @ rs) us s" and "\<forall>i\<in>set rs. entry_ok s i"
  shows "\<exists>s'. roots_loop scan_root (first_of rs) s = Some s' \<and> keeps s s' \<and> gscan (gsuccs s) (root_nodes s rs) (view s) (view s')"
  using assms
proof (induction rs arbitrary: ks s)
  case Nil
  then show ?case by (intro exI [of _ s]) (simp add: roots_loop.simps scan_nil)
next
  case (Cons i rs)
  obtain s1 where s1: "scan_root i s = Some s1" "keeps s s1" "gscan (gsuccs s) (root_node s i) (view s) (view s1)"
    using scan_root_ok [OF Cons.prems(1,2)] Cons.prems(3) by auto
  note m = keeps_moved [OF s1(2)] and same = moved_nodes [OF keeps_moved(1) [OF s1(2)]]
  have ok: "buf_ok ((ks @ [i]) @ rs) us s1" using Cons.prems(2) m(2) by simp
  have closed: "heap_closed s1" and entries: "\<forall>j\<in>set rs. entry_ok s1 j" using Cons.prems(1,3) same by simp_all
  obtain s2 where s2: "roots_loop scan_root (first_of rs) s1 = Some s2" "keeps s1 s2" "gscan (gsuccs s1) (root_nodes s1 rs) (view s1) (view s2)"
    using Cons.IH [OF closed ok entries] by blast
  have i: "i < GC_ROOT_BUFFER_MAX_ENTRIES" using buf_ok_bounds(1) [OF Cons.prems(2), of i] by simp
  have "nxt s (Rbuf i) = first_of rs" using links_at [of s Rroots ks i rs] Cons.prems(2) by (simp add: buf_ok_def)
  then have "roots_loop scan_root (first_of (i # rs)) s = Some s2"
    using s1(1) rb_get_nxt [OF buf_ok_bounds(2) [OF ok] i] m(3) s2(1) by (subst roots_loop.simps) simp
  moreover have "gscan (gsuccs s) (root_nodes s (i # rs)) (view s) (view s2)"
    using gscan_append [OF s1(3)] s2(3) same by simp
  ultimately show ?case using keeps_trans [OF s1(2) s2(2)] by blast
qed

subsection \<open>Collecting the roots\<close>

lemma gcollect_roots_kept:
  assumes "gcollect isz g R ns v v'" and "n \<in> R"
  shows "gcol v' n = gcol v n"
proof -
  obtain W where "collected_set isz g R ns v v' W" using gcollect_collected [OF assms(1)] by blast
  then have "W \<inter> R = {}" "gcol v' n = (if n \<in> W then (if isz n then GC_BLACK else GC_PURPLE) else gcol v n)"
    unfolding collected_set_def by blast+
  then show ?thesis using assms(2) by auto
qed

lemma chain_addr: "free_chain s q xs \<Longrightarrow> x \<in> set xs \<Longrightarrow> \<exists>p. naddr s (Zv x) = Some (Next p)"
proof (induction xs arbitrary: q)
  case (Cons a xs)
  then obtain p where p: "next_link a s = Some p" "free_chain s p xs" by auto
  then have "\<exists>p. naddr s (Zv a) = Some (Next p)"
    by (cases "zvals s a") (auto simp: next_link_def naddr_def split: gc_addr.splits)
  then show ?case using Cons p(2) by auto
qed simp

text \<open>Between two roots: the roots left have addresses, other white nodes have none, and \<open>fs\<close> is the list to free.\<close>

definition coll_inv :: "nat list \<Rightarrow> nat list \<Rightarrow> addr list \<Rightarrow> gc \<Rightarrow> bool" where
  "coll_inv rs us fs s \<longleftrightarrow> heap_closed s \<and> syms_ok s \<and> buf_ok rs us s \<and> (\<forall>i\<in>set rs. entry_ok s i) \<and>
     (\<forall>i\<in>set rs. \<forall>n\<in>set (root_node s i). naddr s n = Some (Root i)) \<and>
     (\<forall>n\<in>whites s. n \<notin> set (root_nodes s rs) \<longrightarrow> naddr s n = Some Null) \<and>
     free_chain s (zval_to_free s) fs \<and> distinct fs \<and> (\<forall>a\<in>set fs. Zv a \<in> gnodes s \<and> Zv a \<notin> whites s)"

lemma whites_gnodes: "whites s \<subseteq> gnodes s"
proof
  fix n
  assume "n \<in> whites s"
  then show "n \<in> gnodes s"
    by (cases n) (auto simp: whites_def gnodes_def view_node zcol_def ocol_def ztype_def orefs_def split: option.splits if_splits)
qed

text \<open>The node of the current root is cleared; the rest of the roots wait.\<close>

lemma coll_inv_clear:
  assumes inv: "coll_inv (i # rs) us fs s" and n: "case n of Zv a \<Rightarrow> ztype s a \<noteq> None | Ob h \<Rightarrow> orefs s h \<noteq> None"
    and node: "root_node s i = (if n \<in> gnodes s then [n] else [])"
  obtains s1 where "clear_addr n s = Some s1" and "view s1 = view s" and "moved s s1" and "buf_ok (i # rs) us s1"
    and "cok (set (root_nodes s rs)) s1" and "free_chain s1 (zval_to_free s1) fs" and "n \<in> gnodes s \<Longrightarrow> n \<notin> set (root_nodes s rs)"
    and "\<forall>j\<in>set rs. \<forall>m\<in>set (root_node s j). naddr s1 m = Some (Root j)"
proof -
  have ok: "buf_ok (i # rs) us s" and entries: "\<forall>j\<in>set (i # rs). entry_ok s j"
    and roots: "\<And>j m. j \<in> set (i # rs) \<Longrightarrow> m \<in> set (root_node s j) \<Longrightarrow> naddr s m = Some (Root j)"
    and wh: "\<And>m. m \<in> whites s \<Longrightarrow> m \<notin> set (root_nodes s (i # rs)) \<Longrightarrow> naddr s m = Some Null"
    and chain: "free_chain s (zval_to_free s) fs" and fs: "\<forall>a\<in>set fs. Zv a \<in> gnodes s"
    using inv unfolding coll_inv_def by auto
  obtain s1 where s1: "clear_addr n s = Some s1" "view s1 = view s" "naddr s1 = (naddr s)(n := Some Null)" "moved s s1"
    "buf_ok (i # rs) us s1 = buf_ok (i # rs) us s" "zval_to_free s1 = zval_to_free s"
    and chain1: "\<And>q xs. n \<notin> Zv ` set xs \<Longrightarrow> free_chain s1 q xs = free_chain s q xs"
    using clear_addr_ok [OF n, of "i # rs" us] by metis
  have irs: "i \<notin> set rs" using ok by (simp add: buf_ok_def)
  have sep: "m \<notin> set (root_nodes s rs)" if "naddr s m \<noteq> None" "\<And>j. j \<in> set rs \<Longrightarrow> naddr s m \<noteq> Some (Root j)" for m
    using that roots by (auto simp: root_nodes_def)
  have n1: "naddr s n = Some (Root i)" if "n \<in> gnodes s" using roots [of i n] node that by simp
  have nrs: "n \<notin> set (root_nodes s rs)" if "n \<in> gnodes s" using n1 [OF that] irs by (intro sep) auto
  have "n \<notin> Zv ` set fs"
  proof
    assume "n \<in> Zv ` set fs"
    then obtain a where a: "n = Zv a" "a \<in> set fs" by blast
    then have "naddr s n = Some (Root i)" using fs n1 by simp
    then show False using chain_addr [OF chain a(2)] a(1) by auto
  qed
  then have "free_chain s1 (zval_to_free s1) fs" using chain1 chain s1(6) by simp
  moreover have "cok (set (root_nodes s rs)) s1" unfolding cok_def
  proof (intro conjI ballI)
    show "heap_closed s1" using moved_nodes(6) [OF s1(4)] inv by (simp add: coll_inv_def)
    show "syms_ok s1" using inv s1(4) same_syms_ok by (auto simp: coll_inv_def moved_def)
    fix m
    assume "m \<in> whites s1"
    then have m: "m \<in> whites s" by (simp add: whites_def s1(2))
    show "naddr s1 m = Some Null \<longleftrightarrow> m \<notin> set (root_nodes s rs)"
    proof (cases "m = n")
      case True
      then show ?thesis using nrs m whites_gnodes by (auto simp: s1(3))
    next
      case False
      then have "m \<notin> set (root_node s i)" using node by (auto split: if_splits)
      then have "m \<notin> set (root_nodes s rs) \<Longrightarrow> naddr s m = Some Null" using wh [OF m] by simp
      moreover have "naddr s m \<noteq> Some Null" if mem: "m \<in> set (root_nodes s rs)"
      proof -
        obtain j where "j \<in> set rs" "m \<in> set (root_node s j)" using mem by (auto simp: root_nodes_def)
        then show ?thesis using roots [of j m] by simp
      qed
      ultimately show ?thesis using False by (auto simp: s1(3))
    qed
  qed
  moreover have "naddr s1 m = Some (Root j)" if "j \<in> set rs" "m \<in> set (root_node s j)" for j m
  proof -
    have "m \<in> gnodes s" using that entries root_node_gnodes by auto
    then have "m \<noteq> n" using nrs that by (auto simp: root_nodes_def)
    then show ?thesis using roots that by (simp add: s1(3))
  qed
  ultimately show ?thesis using s1 nrs ok by (intro that [of s1]) simp_all
qed

text \<open>What collecting from the node, and then removing the entry, leaves.\<close>

lemma coll_inv_step:
  assumes inv: "coll_inv (i # rs) us fs s" and s1: "view s1 = view s" "moved s s1" "buf_ok (i # rs) us s1"
    "free_chain s1 (zval_to_free s1) fs" "\<forall>j\<in>set rs. \<forall>m\<in>set (root_node s j). naddr s1 m = Some (Root j)" "cok (set (root_nodes s rs)) s1"
    and c: "collects ws s1 s2" and kept: "\<forall>m\<in>set (root_nodes s rs). gcol (view s2) m = gcol (view s1) m"
  obtains s3 where "gc_remove_from_buffer i s2 = Some s3" and "coll_inv rs (i # us) (ws @ fs) s3" and "moved s s3" and "view s3 = view s2"
    and "nxt s3 (Rbuf i) = first_of rs" and "Zv ` set ws = {n \<in> whites s - whites s3. is_zv n}"
proof -
  note m2 = collects_moved [OF c]
  have "buf_ok ([] @ i # rs) us s2" using s1(3) m2(2) by simp
  then obtain s3 where s3: "gc_remove_from_buffer i s2 = Some s3" "buf_ok ([] @ rs) (i # us) s3" "nxt s3 (Rbuf i) = first_of rs"
    "same_heap s2 s3" "same_entries s2 s3" by (rule gc_remove_from_buffer_ok)
  note same3 = same_heap_view [OF s3(4,5)]
  have m: "moved s s3" using moved_trans [OF s1(2) moved_trans [OF m2(1) same3(3)]] .
  note same = moved_nodes [OF m]
  have w: "whites s3 = whites s2" "whites s1 = whites s" by (simp_all add: whites_def same3(1) s1(1))
  have cs: "Zv ` set ws \<subseteq> whites s" "whites s2 \<subseteq> whites s" "distinct ws" "\<And>a. Zv a \<in> whites s2 \<longleftrightarrow> Zv a \<in> whites s \<and> a \<notin> set ws"
    "\<And>n. n \<notin> Zv ` set ws \<Longrightarrow> naddr s2 n = naddr s1 n"
    using c unfolding collects_def w(2) by blast+
  have fs: "\<forall>a\<in>set fs. Zv a \<in> gnodes s \<and> Zv a \<notin> whites s" "distinct fs" using inv unfolding coll_inv_def by blast+
  then have disj: "set fs \<inter> set ws = {}" using cs(1) by auto
  have chain: "free_chain s3 (zval_to_free s3) (ws @ fs)" using c s1(4) disj unfolding collects_def by (simp add: same3)
  have "heap_closed s3" "\<forall>j\<in>set rs. entry_ok s3 j" "syms_ok s3"
    using inv same same_syms_ok m unfolding coll_inv_def moved_def by auto
  moreover have "naddr s3 n = Some (Root j)" if "j \<in> set rs" "n \<in> set (root_node s j)" for j n
  proof -
    have "n \<in> set (root_nodes s rs)" using that by (auto simp: root_nodes_def)
    then have "n \<in> whites s2 \<longleftrightarrow> n \<in> whites s" using kept by (simp add: whites_def s1(1))
    then have "n \<notin> Zv ` set ws" using cs(1,4) by auto
    then show ?thesis using cs(5) s1(5) that by (simp add: same3)
  qed
  moreover have "naddr s3 n = Some Null" if "n \<in> whites s3" "n \<notin> set (root_nodes s rs)" for n
  proof -
    have "n \<notin> Zv ` set ws" using that(1) cs(4) by (auto simp: w)
    then show ?thesis using cs(5) s1(6) that cs(2) by (auto simp: same3 cok_def w)
  qed
  moreover have "distinct (ws @ fs)" using cs(3) fs(2) disj by auto
  moreover have "\<forall>a\<in>set (ws @ fs). Zv a \<in> gnodes s \<and> Zv a \<notin> whites s3"
    using fs(1) cs(1,2,4) whites_gnodes [of s] by (auto simp: w)
  ultimately have "coll_inv rs (i # us) (ws @ fs) s3" using s3(2) chain unfolding coll_inv_def same by simp
  moreover have "n \<in> Zv ` set ws \<longleftrightarrow> n \<in> {n \<in> whites s - whites s3. is_zv n}" for n
    using cs(1,4) by (cases n) (auto simp: w)
  then have "Zv ` set ws = {n \<in> whites s - whites s3. is_zv n}" by blast
  ultimately show ?thesis using s3 m same3(1) by (intro that [of s3]) simp_all
qed

text \<open>Collecting from one root node, after its address is cleared; \<open>R\<close> are the nodes of the roots left.\<close>

definition node_collected :: "(gnode \<Rightarrow> gnode list) \<Rightarrow> gnode set \<Rightarrow> gnode \<Rightarrow> gnode gview \<Rightarrow> gnode gview \<Rightarrow> bool" where
  "node_collected g R n v v' \<longleftrightarrow>
     (if gcol v n = GC_WHITE then gcollect is_zv g R (g n) (over is_zv n v) v' else v' = v)"

lemma node_collected_kept: "node_collected g R n v v' \<Longrightarrow> n \<notin> R \<Longrightarrow> m \<in> R \<Longrightarrow> gcol v' m = gcol v m"
  using gcollect_roots_kept [of is_zv g R "g n" "over is_zv n v" v' m] by (auto simp: node_collected_def split: if_splits)

lemma zval_collect_white_ok:
  assumes ok: "cok R s" and t: "ztype s a = Some t" "t \<noteq> Symbol_table" and R: "Zv a \<notin> R"
  shows "\<exists>s' ws. zval_collect_white a s = Some s' \<and> collects ws s s' \<and> node_collected (gsuccs s) R (Zv a) (view s) (view s')"
proof -
  have eq: "zval_collect_white a s = collect_body collect_white_each a s" by (simp add: zval_collect_white_def collect_body_def)
  show ?thesis
  proof (cases "Zv a \<in> whites s")
    case True
    have "follows collect_white_each collects_some white_num (gcollect_in R) kids s1"
      if "cok R s1" "same_shape s s1" "\<forall>x\<in>set kids. ztype s x \<noteq> None" for kids s1
      using white.each_follows [OF that(1)] that(3) shape_refs(3) [OF that(2)] by simp
    then have "\<exists>s'. collect_body collect_white_each a s = Some s' \<and> collects_some s s' \<and> white_num s' \<le> white_num s \<and>
        gcollect is_zv (gsuccs s) R (gsuccs s (Zv a)) (over is_zv (Zv a) (view s)) (view s')"
      by (intro collect_body_white [OF ok t True R]) blast
    then show ?thesis using eq True by (auto simp: node_collected_def whites_def)
  next
    case False
    then have "collect_body collect_white_each a s = Some s"
      using t by (intro collect_body_other [OF ok]) (simp_all add: collect_white_each.simps)
    then show ?thesis using eq False collects_refl by (auto simp: node_collected_def whites_def)
  qed
qed

lemma zobj_collect_white_ok:
  assumes ok: "cok R s" and ps: "orefs s h = Some ps" and R: "Ob h \<notin> R"
  shows "\<exists>s' ws. zobj_collect_white h s = Some s' \<and> collects ws s s' \<and> node_collected (gsuccs s) R (Ob h) (view s) (view s')"
proof -
  obtain ob where ob: "objects s h = Some ob" "gc_refs ob = ps" using ps by (auto simp: orefs_def)
  have closed: "heap_closed s" using ok by (simp add: cok_def)
  from ok ob(1) show ?thesis
  proof (cases rule: zobj_collect_step_view)
    case other
    then have "zobj_collect_white h s = Some s" "gcol (view s) (Ob h) \<noteq> GC_WHITE" using R by (simp_all add: zobj_collect_white_def)
    then show ?thesis using collects_refl by (auto simp: node_collected_def)
  next
    case (white s1)
    have w: "whites s1 \<subseteq> whites s" "\<And>b. Zv b \<in> whites s1 \<longleftrightarrow> Zv b \<in> whites s" by (auto simp: whites_def white(5) split: if_splits)
    have "follows collect_white_each collects_some white_num (gcollect_in R) ps s1"
      using white.each_follows [OF cok_keeps [OF ok white(4) w(1)]] closed_kids(2) [OF closed ps] keeps_refs(3) [OF white(4)] by simp
    then obtain s2 ws where s2: "collect_white_each ps s1 = Some s2" "collects ws s1 s2"
      "gcollect is_zv (gsuccs s1) R (grefs s1 ps) (view s1) (view s2)"
      by (auto simp: follows_def)
    have "over is_zv (Ob h) (view s) = view s1" by (simp add: over_def credit_def white(5))
    then have "node_collected (gsuccs s) R (Ob h) (view s) (view s2)"
      using s2(3) keeps_refs [OF white(4)] white(2) ps by (simp add: node_collected_def)
    moreover have "zobj_collect_white h s = Some s2" using white(1) s2(1) ob(2) by (simp add: zobj_collect_white_def)
    moreover have "collects ws s s2" using collects_trans [OF keeps_collects [OF white(4) w] s2(2)] by simp
    ultimately show ?thesis by blast
  qed
qed

definition collect_result :: "nat list \<Rightarrow> nat \<Rightarrow> nat list \<Rightarrow> addr list \<Rightarrow> gc \<Rightarrow> gc \<Rightarrow> bool" where
  "collect_result rs i us fs s s' \<longleftrightarrow> (\<exists>ws. coll_inv rs (i # us) (ws @ fs) s' \<and> moved s s' \<and> nxt s' (Rbuf i) = first_of rs \<and>
     Zv ` set ws = {n \<in> whites s - whites s'. is_zv n} \<and> whites s' \<subseteq> whites s \<and>
     (\<forall>v. gcollect_roots is_zv (gsuccs s) (root_nodes s rs) (view s') v \<longrightarrow>
       gcollect_roots is_zv (gsuccs s) (root_nodes s (i # rs)) (view s) v))"

lemma node_collected_result:
  assumes inv: "coll_inv (i # rs) us fs s" and s1: "view s1 = view s" "moved s s1" "buf_ok (i # rs) us s1"
    "free_chain s1 (zval_to_free s1) fs" "\<forall>j\<in>set rs. \<forall>m\<in>set (root_node s j). naddr s1 m = Some (Root j)" "cok (set (root_nodes s rs)) s1"
    and node: "root_node s i = [n]" "n \<notin> set (root_nodes s rs)"
    and c: "collects ws s1 s2" "node_collected (gsuccs s1) (set (root_nodes s rs)) n (view s1) (view s2)"
  shows "\<exists>s'. gc_remove_from_buffer i s2 = Some s' \<and> collect_result rs i us fs s s'"
proof -
  have kept: "\<forall>m\<in>set (root_nodes s rs). gcol (view s2) m = gcol (view s1) m" using node_collected_kept [OF c(2) node(2)] by blast
  obtain s3 where s3: "gc_remove_from_buffer i s2 = Some s3" "coll_inv rs (i # us) (ws @ fs) s3" "moved s s3" "view s3 = view s2"
    "nxt s3 (Rbuf i) = first_of rs" "Zv ` set ws = {n \<in> whites s - whites s3. is_zv n}"
    using coll_inv_step [OF inv s1 c(1) kept] .
  have "gcollect_roots is_zv (gsuccs s) (n # root_nodes s rs) (view s) v" if "gcollect_roots is_zv (gsuccs s) (root_nodes s rs) (view s2) v" for v
  proof (cases "gcol (view s) n = GC_WHITE")
    case True
    then have "gcollect is_zv (gsuccs s) (set (root_nodes s rs)) (gsuccs s n) (over is_zv n (view s)) (view s2)"
      using c(2) moved_nodes(5) [OF s1(2)] by (simp add: node_collected_def s1(1))
    from croots_white [OF True this that] show ?thesis .
  next
    case False
    then have "view s2 = view s" using c(2) by (simp add: node_collected_def s1(1))
    then show ?thesis using croots_other [OF False] that by simp
  qed
  moreover have "whites s3 \<subseteq> whites s"
    using c(1) unfolding collects_def by (simp add: whites_def s3(4) s1(1))
  ultimately have "collect_result rs i us fs s s3" unfolding collect_result_def using s3 node(1) by (intro exI [of _ ws]) simp
  then show ?thesis using s3(1) by blast
qed

lemma no_node_result:
  assumes inv: "coll_inv (i # rs) us fs s" and s1: "view s1 = view s" "moved s s1" "buf_ok (i # rs) us s1"
    "free_chain s1 (zval_to_free s1) fs" "\<forall>j\<in>set rs. \<forall>m\<in>set (root_node s j). naddr s1 m = Some (Root j)" "cok (set (root_nodes s rs)) s1"
    and node: "root_node s i = []"
  shows "\<exists>s'. gc_remove_from_buffer i s1 = Some s' \<and> collect_result rs i us fs s s'"
proof -
  obtain s3 where s3: "gc_remove_from_buffer i s1 = Some s3" "coll_inv rs (i # us) ([] @ fs) s3" "moved s s3" "view s3 = view s1"
    "nxt s3 (Rbuf i) = first_of rs" "Zv ` set [] = {n \<in> whites s - whites s3. is_zv n}"
    using coll_inv_step [OF inv s1 collects_refl] by blast
  have "whites s3 = whites s" by (simp add: whites_def s3(4) s1(1))
  then have "collect_result rs i us fs s s3" unfolding collect_result_def using s3 node s1(1) by (intro exI [of _ "[]"]) simp
  then show ?thesis using s3(1) by blast
qed

lemma collect_root_ok:
  assumes inv: "coll_inv (i # rs) us fs s"
  shows "\<exists>s'. collect_root i s = Some s' \<and> collect_result rs i us fs s s'"
proof -
  have entry: "entry_ok s i" and ok: "buf_ok ([] @ i # rs) us s" using inv by (simp_all add: coll_inv_def)
  note at = buf_ok_at [OF ok]
  from entry show ?thesis
  proof (cases rule: root_node_cases)
    case (obj h ps)
    have n: "case Ob h of Zv a \<Rightarrow> ztype s a \<noteq> None | Ob h \<Rightarrow> orefs s h \<noteq> None" "Ob h \<in> gnodes s" using obj by (simp_all add: gnodes_def)
    then have node: "root_node s i = (if Ob h \<in> gnodes s then [Ob h] else [])" using obj by simp
    obtain s1 where s1: "clear_addr (Ob h) s = Some s1" and r: "view s1 = view s" "moved s s1" "buf_ok (i # rs) us s1"
      "free_chain s1 (zval_to_free s1) fs" "\<forall>j\<in>set rs. \<forall>m\<in>set (root_node s j). naddr s1 m = Some (Root j)" "cok (set (root_nodes s rs)) s1"
      and R: "Ob h \<notin> set (root_nodes s rs)"
      using coll_inv_clear [OF inv n(1) node] n(2) by metis
    have "orefs s1 h = Some ps" using obj(4) shape_orefs [OF moved_shape [OF r(2)]] by simp
    then obtain s2 ws where s2: "zobj_collect_white h s1 = Some s2" "collects ws s1 s2"
      "node_collected (gsuccs s1) (set (root_nodes s rs)) (Ob h) (view s1) (view s2)"
      using zobj_collect_white_ok [OF r(6) _ R] by blast
    have "collect_root i s = gc_remove_from_buffer i s2" using at obj s1 s2(1) by (simp add: collect_root_def clear_addr_def)
    then show ?thesis using node_collected_result [OF inv r obj(5) R s2(2,3)] by simp
  next
    case none
    have c: "cok (set (root_nodes s rs)) s" unfolding cok_def
    proof (intro conjI ballI)
      fix n
      assume n: "n \<in> whites s"
      have "naddr s n \<noteq> Some Null" if "n \<in> set (root_nodes s rs)" using that inv by (auto simp: root_nodes_def coll_inv_def)
      moreover have "naddr s n = Some Null" if "n \<notin> set (root_nodes s rs)" using that n none inv by (simp add: coll_inv_def)
      ultimately show "naddr s n = Some Null \<longleftrightarrow> n \<notin> set (root_nodes s rs)" by blast
    qed (use inv in \<open>simp_all add: coll_inv_def\<close>)
    have "collect_root i s = gc_remove_from_buffer i s" using at none by (simp add: collect_root_def)
    then show ?thesis using no_node_result [OF inv refl moved_refl _ _ _ c none(3)] inv by (simp add: coll_inv_def)
  next
    case (val a t)
    have n: "case Zv a of Zv a \<Rightarrow> ztype s a \<noteq> None | Ob h \<Rightarrow> orefs s h \<noteq> None" "Zv a \<in> gnodes s" using val by (simp_all add: gnodes_def)
    then have node: "root_node s i = (if Zv a \<in> gnodes s then [Zv a] else [])" using val by simp
    obtain s1 where s1: "clear_addr (Zv a) s = Some s1" and r: "view s1 = view s" "moved s s1" "buf_ok (i # rs) us s1"
      "free_chain s1 (zval_to_free s1) fs" "\<forall>j\<in>set rs. \<forall>m\<in>set (root_node s j). naddr s1 m = Some (Root j)" "cok (set (root_nodes s rs)) s1"
      and R: "Zv a \<notin> set (root_nodes s rs)"
      using coll_inv_clear [OF inv n(1) node] n(2) by metis
    have "ztype s1 a = Some t" using val(3) shape_refs(3) [OF moved_shape [OF r(2)]] by simp
    then obtain s2 ws where s2: "zval_collect_white a s1 = Some s2" "collects ws s1 s2"
      "node_collected (gsuccs s1) (set (root_nodes s rs)) (Zv a) (view s1) (view s2)"
      using zval_collect_white_ok [OF r(6) _ val(4) R] by blast
    have "collect_root i s = gc_remove_from_buffer i s2" using at val s1 s2(1) by (simp add: collect_root_def clear_addr_def)
    then show ?thesis using node_collected_result [OF inv r val(5) R s2(2,3)] by simp
  next
    case (sym a)
    have n: "case Zv a of Zv a \<Rightarrow> ztype s a \<noteq> None | Ob h \<Rightarrow> orefs s h \<noteq> None" "Zv a \<notin> gnodes s" using sym by (simp_all add: gnodes_def)
    then have node: "root_node s i = (if Zv a \<in> gnodes s then [Zv a] else [])" using sym by simp
    obtain s1 where s1: "clear_addr (Zv a) s = Some s1" and r: "view s1 = view s" "moved s s1" "buf_ok (i # rs) us s1"
      "free_chain s1 (zval_to_free s1) fs" "\<forall>j\<in>set rs. \<forall>m\<in>set (root_node s j). naddr s1 m = Some (Root j)" "cok (set (root_nodes s rs)) s1"
      using coll_inv_clear [OF inv n(1) node] by metis
    have t1: "ztype s1 a = Some Symbol_table" using sym(3) shape_refs(3) [OF moved_shape [OF r(2)]] by simp
    then have "Zv a \<notin> whites s1" using whites_gnodes [of s1] by (auto simp: gnodes_def)
    then have "zval_collect_white a s1 = Some s1"
      using collect_body_other [OF r(6), of a collect_white_each] t1
      by (simp add: zval_collect_white_def collect_body_def collect_white_each.simps)
    then have "collect_root i s = gc_remove_from_buffer i s1" using at sym s1 by (simp add: collect_root_def clear_addr_def)
    then show ?thesis using no_node_result [OF inv r sym(4)] by simp
  qed
qed

lemma collect_loop:
  assumes "coll_inv rs us fs s"
  shows "\<exists>s' us' ws. roots_loop collect_root (first_of rs) s = Some s' \<and> coll_inv [] us' (ws @ fs) s' \<and> moved s s' \<and> whites s' \<subseteq> whites s \<and>
    Zv ` set ws = {n \<in> whites s - whites s'. is_zv n} \<and> gcollect_roots is_zv (gsuccs s) (root_nodes s rs) (view s) (view s')"
  using assms
proof (induction rs arbitrary: us fs s)
  case Nil
  then show ?case by (intro exI [of _ s] exI [of _ us] exI [of _ "[]"]) (simp add: roots_loop.simps croots_nil)
next
  case (Cons i rs)
  obtain s1 where s1: "collect_root i s = Some s1" "collect_result rs i us fs s s1" using collect_root_ok [OF Cons.prems] by blast
  then obtain ws where r: "coll_inv rs (i # us) (ws @ fs) s1" "moved s s1" "nxt s1 (Rbuf i) = first_of rs"
    "Zv ` set ws = {n \<in> whites s - whites s1. is_zv n}" "whites s1 \<subseteq> whites s"
    "\<And>v. gcollect_roots is_zv (gsuccs s) (root_nodes s rs) (view s1) v \<Longrightarrow> gcollect_roots is_zv (gsuccs s) (root_nodes s (i # rs)) (view s) v"
    unfolding collect_result_def by blast
  obtain s2 us' vs where s2: "roots_loop collect_root (first_of rs) s1 = Some s2" "coll_inv [] us' (vs @ ws @ fs) s2" "moved s1 s2"
    "whites s2 \<subseteq> whites s1" "Zv ` set vs = {n \<in> whites s1 - whites s2. is_zv n}"
    "gcollect_roots is_zv (gsuccs s1) (root_nodes s1 rs) (view s1) (view s2)"
    using Cons.IH [OF r(1)] by blast
  have b: "buf_ok (i # rs) us s" "buf_ok rs (i # us) s1" using Cons.prems r(1) by (simp_all add: coll_inv_def)
  have i: "i < GC_ROOT_BUFFER_MAX_ENTRIES" using buf_ok_bounds(1) [OF b(1), of i] by simp
  have "roots_loop collect_root (first_of (i # rs)) s = Some s2"
    using s1(1) rb_get_nxt [OF buf_ok_bounds(2) [OF b(2)] i] r(3) s2(1) by (subst roots_loop.simps) simp
  moreover have "gcollect_roots is_zv (gsuccs s) (root_nodes s (i # rs)) (view s) (view s2)"
    using r(6) s2(6) moved_nodes [OF r(2)] by simp
  moreover have "Zv ` set (vs @ ws) = {n \<in> whites s - whites s2. is_zv n}"
    unfolding set_append image_Un s2(5) r(4) using s2(4) r(5) by auto
  ultimately show ?case using s2(2,4) r(5) moved_trans [OF r(2) s2(3)]
    by (intro exI [of _ s2] exI [of _ us'] exI [of _ "vs @ ws"]) auto
qed

subsection \<open>The phases together\<close>

text \<open>
  The state between collections: the entries of the buffer are for distinct nodes, which know their entries and are purple; all other
  nodes are black.
\<close>

definition gc_inv :: "nat list \<Rightarrow> nat list \<Rightarrow> gc \<Rightarrow> bool" where
  "gc_inv is us s \<longleftrightarrow> heap_closed s \<and> syms_ok s \<and> buf_ok is us s \<and> (\<forall>i\<in>set is. entry_ok s i) \<and> roots_addr s is \<and>
     (\<forall>n. gcol (view s) n = (if n \<in> set (root_nodes s is) then GC_PURPLE else GC_BLACK))"

text \<open>The nodes found to be garbage, and the condition on the counts: each node has at least the references that lead to it from the roots.\<close>

definition gc_garbage :: "nat list \<Rightarrow> gc \<Rightarrow> gnode set" where
  "gc_garbage is s = garbage (gsuccs s) (set (root_nodes s is)) (gcnt (view s))"

definition counted :: "nat list \<Rightarrow> gc \<Rightarrow> bool" where
  "counted is s \<longleftrightarrow> (\<forall>n\<in>reach (gsuccs s) (set (root_nodes s is)).
     in_edges (gsuccs s) (reach (gsuccs s) (set (root_nodes s is))) n \<le> unat (gcnt (view s) n))"

lemma gc_inv_start:
  fixes r f a
  assumes inv: "gc_inv is us s"
  defines "s' \<equiv> s\<lparr>gc_runs := r, zval_to_free := f, gc_active := a\<rparr>"
  shows "gc_inv is us s'" and "view s' = view s" and "gsuccs s' = gsuccs s" and "root_nodes s' = root_nodes s" and "same_shape s s'"
proof -
  show shape: "same_shape s s'" by (simp add: same_shape_def ztype_def fun_eq_iff s'_def)
  note same = shape_refs [OF shape] shape_orefs [OF shape]
  show view: "view s' = view s" by (simp add: view_def s'_def fun_eq_iff split: gnode.splits)
  show "gsuccs s' = gsuccs s" by (rule same)
  have rb: "rb_of s' = rb_of s" by (simp add: rb_of_def fun_eq_iff s'_def)
  have node: "root_node s' = root_node s" by (simp add: root_node_def fun_eq_iff rb same Let_def)
  then show nodes: "root_nodes s' = root_nodes s" by (intro ext) (simp add: root_nodes_def)
  have entry: "entry_ok s' = entry_ok s" by (simp add: entry_ok_def fun_eq_iff rb same Let_def)
  have addr: "naddr s' = naddr s" by (simp add: naddr_def fun_eq_iff s'_def split: gnode.splits)
  have ring: "nxt s' = nxt s" "prv s' = prv s" by (simp_all add: nxt_def prv_def fun_eq_iff s'_def split: rptr.splits)
  have l: "links s' p is = links s p is" "unused_chain s' p us = unused_chain s p us" for p
    using links_cong [of p "is" s' s] unused_cong [of us s' s p] ring by simp_all
  have buf: "buf_ok is us s' = buf_ok is us s" unfolding buf_ok_def l by (simp add: s'_def)
  have "gnodes s' = gnodes s" "syms_ok s' = syms_ok s" using same by (simp_all add: gnodes_def syms_ok_def s'_def cong: gnode.case_cong)
  then show "gc_inv is us s'" using inv unfolding gc_inv_def roots_addr_def
    by (simp add: heap_closed_shape [OF shape] view node nodes entry addr buf)
qed

lemma buf_ok_first: "buf_ok is us s \<Longrightarrow> roots_next s = first_of is"
  using links_first [of s Rroots "is"] by (simp add: buf_ok_def nxt_def)

lemma find_garbage:
  assumes inv: "gc_inv is us s" and counts: "counted is s"
  obtains s' us' ws where "gc_find_garbage s = Some s'" and "coll_inv [] us' ws s'" and "same_shape s s'"
    and "gcol (view s') = (\<lambda>n. if n \<in> gc_garbage is s \<and> \<not> is_zv n then GC_PURPLE else GC_BLACK)"
    and "gcnt (view s') = (\<lambda>n. if is_zv n then gcnt (view s) n + of_bool (n \<in> gc_garbage is s)
      else gcnt (view s) n - of_nat (in_edges (gsuccs s) (gc_garbage is s) n))"
    and "Zv ` set ws = {n \<in> gc_garbage is s. is_zv n}" and "free_list s' = free_list s" and "next_to_free s' = next_to_free s"
proof -
  define s0 where "s0 = s\<lparr>gc_runs := gc_runs s + 1, zval_to_free := FREE_LIST_END, gc_active := True\<rparr>"
  note start = gc_inv_start [OF inv, where r = "gc_runs s + 1" and f = FREE_LIST_END and a = True, folded s0_def]
  have i0: "heap_closed s0" "buf_ok ([] @ is) us s0" "\<forall>i\<in>set ([] @ is). entry_ok s0 i" "roots_addr s0 ([] @ is)" "syms_ok s0" "distinct is"
    using start(1) by (simp_all add: gc_inv_def buf_ok_def)
  obtain s1 ks us1 where s1: "roots_loop mark_root (first_of is) s0 = Some s1" "moved s0 s1" "zval_to_free s1 = zval_to_free s0"
    "buf_ok ([] @ ks) us1 s1" "set ks \<subseteq> set is" "roots_addr s1 ([] @ ks)"
    "gmark_roots (gsuccs s0) (root_nodes s0 is) (view s0) (root_nodes s0 ks) (view s1)"
    using mark_loop [OF i0(1-4)] by blast
  note same1 = moved_nodes [OF s1(2)]
  have e1: "heap_closed s1" "\<forall>i\<in>set ks. entry_ok s1 i" using i0(1,3) s1(5) same1 by auto
  obtain s2 where s2: "roots_loop scan_root (first_of ks) s1 = Some s2" "keeps s1 s2" "gscan (gsuccs s1) (root_nodes s1 ks) (view s1) (view s2)"
    using scan_loop [OF e1(1) s1(4) e1(2)] by blast
  note m2 = keeps_moved [OF s2(2)] and same2 = moved_nodes [OF keeps_moved(1) [OF s2(2)]]
  have "roots_addr s2 ks" using roots_addr_cong [OF m2(1) keeps_naddr [OF s2(2)] e1(2)] s1(6) by simp
  moreover have "syms_ok s2" using i0(5) s1(2) m2(1) same_syms_ok unfolding moved_def by blast
  moreover have "zval_to_free s2 = FREE_LIST_END" using keeps_chain(2) [OF s2(2)] s1(3) by (simp add: s0_def)
  ultimately have c2: "coll_inv ks us1 [] s2"
    using e1 s1(4) same2 m2(2) whites_gnodes [of s2] unfolding coll_inv_def roots_addr_def by auto
  obtain s3 us' ws where s3: "roots_loop collect_root (first_of ks) s2 = Some s3" "coll_inv [] us' (ws @ []) s3" "moved s2 s3"
    "Zv ` set ws = {n \<in> whites s2 - whites s3. is_zv n}" "gcollect_roots is_zv (gsuccs s2) (root_nodes s2 ks) (view s2) (view s3)"
    using collect_loop [OF c2] by blast
  have same: "gsuccs s2 = gsuccs s" "gsuccs s1 = gsuccs s" "root_nodes s2 = root_nodes s" "root_nodes s1 = root_nodes s" using same1 same2 start by simp_all
  have roots: "distinct (root_nodes s is)"
    using root_nodes_distinct [of "is" s] inv i0(6) by (simp add: gc_inv_def roots_addr_def)
  have col: "gcol (view s) n = (if n \<in> set (root_nodes s is) then GC_PURPLE else GC_BLACK)" for n using inv by (simp add: gc_inv_def)
  have bound: "in_edges (gsuccs s) (reach (gsuccs s) (set (root_nodes s is))) n \<le> unat (gcnt (view s) n)"
    if "n \<in> reach (gsuccs s) (set (root_nodes s is))" for n using counts that by (simp add: counted_def)
  note found = cycles_found [OF s1(7) [unfolded start] s2(3) [unfolded same] s3(5) [unfolded same] roots col bound, folded gc_garbage_def]
  have "whites s2 = gc_garbage is s" "whites s3 = {}" by (auto simp: whites_def found(1,3))
  then have ws: "Zv ` set ws = {n \<in> gc_garbage is s. is_zv n}" using s3(4) by simp
  have "buf_ok ks us1 s2" using c2 by (simp add: coll_inv_def)
  then have "gc_mark_roots s0 = Some s1" "gc_scan_roots s1 = Some s2" "gc_collect_roots s2 = Some s3"
    using s1(1,4) s2(1) s3(1) i0(2) by (simp_all add: gc_mark_roots_def gc_scan_roots_def gc_collect_roots_def buf_ok_first)
  then have run: "gc_find_garbage s = Some s3" by (simp add: gc_find_garbage_def flip: s0_def)
  have shape: "same_shape s s3"
    using same_shape_trans [OF start(5) same_shape_trans [OF moved_shape [OF s1(2)] same_shape_trans [OF keeps_shape [OF s2(2)] moved_shape [OF s3(3)]]]] .
  have "free_list s3 = free_list s" "next_to_free s3 = next_to_free s"
    using moved_fields [OF s1(2)] moved_fields [OF m2(1)] moved_fields [OF s3(3)] by (simp_all add: s0_def)
  then show ?thesis by (rule_tac that [OF run _ shape found(1,2) ws]) (use s3(2) in simp_all)
qed

end
