(* ===== verification/Zend_Gc_Cycles.thy ===== *)
theory Zend_Gc_Cycles
  imports Zend_Gc_Spec
begin

text \<open>
  What the collection means for the program: which values are freed, when the counts are what they should be, and what becomes of the
  list to free.
\<close>

subsection \<open>Garbage\<close>

text \<open>
  The counts are exact: \<open>A\<close> are all the nodes, and the count of a node is the number of references to it from nodes, plus \<open>ext\<close>, the
  number of references from elsewhere (variables, the symbol tables, the stack).
\<close>

definition exact :: "gnode set \<Rightarrow> (gnode \<Rightarrow> nat) \<Rightarrow> nat list \<Rightarrow> gc \<Rightarrow> bool" where
  "exact A ext is s \<longleftrightarrow> finite A \<and> set (root_nodes s is) \<subseteq> A \<and>
     (\<forall>n\<in>A. set (gsuccs s n) \<subseteq> A \<and> unat (gcnt (view s) n) = in_edges (gsuccs s) A n + ext n)"

lemma reach_within: "(\<And>n. n \<in> A \<Longrightarrow> set (g n) \<subseteq> A) \<Longrightarrow> B \<subseteq> A \<Longrightarrow> reach g B \<subseteq> A"
  by (rule reach_closed) auto

lemma in_edges_member: "finite D \<Longrightarrow> m \<in> D \<Longrightarrow> n \<in> set (g m) \<Longrightarrow> 0 < in_edges g D n"
proof -
  assume "finite D" and m: "m \<in> D" and n: "n \<in> set (g m)"
  then have "count_list (g m) n \<le> in_edges g D n" unfolding in_edges_def by (intro member_le_sum) auto
  moreover have "0 < count_list (g m) n" using n by (meson count_notin gr0I count_list_0_iff)
  ultimately show ?thesis by simp
qed

lemma in_edges_split: "finite A \<Longrightarrow> D \<subseteq> A \<Longrightarrow> in_edges g A n = in_edges g D n + in_edges g (A - D) n"
  using in_edges_union [of D "A - D" g n] finite_subset [of D A] by (simp add: Un_absorb1)

lemma exact_facts:
  assumes "exact A ext is s"
  shows "finite A" and "reach (gsuccs s) (set (root_nodes s is)) \<subseteq> A" and "\<And>n. n \<in> A \<Longrightarrow> set (gsuccs s n) \<subseteq> A"
    and "\<And>n. n \<in> A \<Longrightarrow> unat (gcnt (view s) n) = in_edges (gsuccs s) A n + ext n"
proof -
  show "finite A" and cl: "\<And>n. n \<in> A \<Longrightarrow> set (gsuccs s n) \<subseteq> A"
    and "\<And>n. n \<in> A \<Longrightarrow> unat (gcnt (view s) n) = in_edges (gsuccs s) A n + ext n"
    using assms unfolding exact_def by blast+
  show "reach (gsuccs s) (set (root_nodes s is)) \<subseteq> A" by (rule reach_within [OF cl]) (use assms in \<open>auto simp: exact_def\<close>)
qed

lemma exact_counted:
  assumes "exact A ext is s"
  shows "counted is s"
  unfolding counted_def
proof
  fix n
  assume n: "n \<in> reach (gsuccs s) (set (root_nodes s is))"
  note ex = exact_facts [OF assms]
  have "in_edges (gsuccs s) (reach (gsuccs s) (set (root_nodes s is))) n \<le> in_edges (gsuccs s) A n"
    by (rule in_edges_mono [OF ex(1,2)])
  moreover have "unat (gcnt (view s) n) = in_edges (gsuccs s) A n + ext n" using ex(2,4) n by blast
  ultimately show "in_edges (gsuccs s) (reach (gsuccs s) (set (root_nodes s is))) n \<le> unat (gcnt (view s) n)" by simp
qed

text \<open>
  The nodes of the reach \<open>G\<close> of the roots with more references than those from \<open>G\<close> are those that something outside \<open>G\<close> refers to.
\<close>

lemma exact_outer:
  assumes ex: "exact A ext is s" and G: "G = reach (gsuccs s) (set (root_nodes s is))" and n: "n \<in> G"
  shows "unat (gcnt (view s) n) \<noteq> in_edges (gsuccs s) G n \<longleftrightarrow> 0 < ext n \<or> (\<exists>m\<in>A - G. n \<in> set (gsuccs s m))"
proof -
  have fin: "finite A" and sub: "G \<subseteq> A" using exact_facts(1,2) [OF ex] by (simp_all add: G)
  have "unat (gcnt (view s) n) = in_edges (gsuccs s) A n + ext n" using exact_facts(4) [OF ex] n sub by blast
  then have "unat (gcnt (view s) n) = in_edges (gsuccs s) G n + (in_edges (gsuccs s) (A - G) n + ext n)"
    using in_edges_split [OF fin sub, of "gsuccs s" n] by simp
  moreover have "0 < in_edges (gsuccs s) (A - G) n \<longleftrightarrow> (\<exists>m\<in>A - G. n \<in> set (gsuccs s m))"
    using in_edges_pos [of "gsuccs s" "A - G" n] in_edges_member [of "A - G" _ n "gsuccs s"] fin by blast
  ultimately show ?thesis by auto
qed

lemma reach_enters:
  assumes "n \<in> reach g E" and "n \<in> G" and "\<And>m. m \<in> E \<Longrightarrow> m \<in> A" and cl: "\<And>m. m \<in> A \<Longrightarrow> set (g m) \<subseteq> A"
    and X: "\<And>m. m \<in> G \<Longrightarrow> m \<in> E \<or> (\<exists>k\<in>A - G. m \<in> set (g k)) \<Longrightarrow> m \<in> X"
  shows "n \<in> reach g X"
proof -
  obtain e where "e \<in> E" and path: "(e, n) \<in> (edge g)\<^sup>*" using assms(1) by (auto simp: reach_def)
  from path have "n \<in> A \<and> (n \<in> G \<longrightarrow> n \<in> reach g X)"
  proof induction
    case base
    then show ?case using \<open>e \<in> E\<close> assms(3) X by (auto intro: reach_refl)
  next
    case (step m k)
    then have k: "k \<in> set (g m)" by (simp add: edge_def)
    have "k \<in> reach g X" if "k \<in> G"
    proof (cases "m \<in> G")
      case True
      then show ?thesis using step k by (auto intro: reach_step)
    next
      case False
      then show ?thesis using X [OF that] step k by (auto intro: reach_refl)
    qed
    then show ?case using step k cl by blast
  qed
  then show ?thesis using assms(2) by blast
qed

text \<open>With exact counts, no garbage is reachable from outside, and everything unreachable is garbage if the roots lead to all of it.\<close>

lemma garbage_unreachable:
  assumes ex: "exact A ext is s" and n: "n \<in> gc_garbage is s"
  shows "n \<notin> reach (gsuccs s) {m \<in> A. 0 < ext m}"
proof
  assume r: "n \<in> reach (gsuccs s) {m \<in> A. 0 < ext m}"
  define G where "G = reach (gsuccs s) (set (root_nodes s is))"
  define X where "X = {m \<in> G. unat (gcnt (view s) m) \<noteq> in_edges (gsuccs s) G m}"
  have "n \<in> G" and "n \<notin> reach (gsuccs s) X" using n by (auto simp: gc_garbage_def garbage_def Let_def G_def X_def)
  moreover have "m \<in> X" if "m \<in> G" "m \<in> {m \<in> A. 0 < ext m} \<or> (\<exists>k\<in>A - G. m \<in> set (gsuccs s k))" for m
    unfolding X_def using exact_outer [OF ex G_def that(1)] that by blast
  then have "n \<in> reach (gsuccs s) X"
    using reach_enters [OF r \<open>n \<in> G\<close>, of A X] exact_facts(3) [OF ex] by blast
  ultimately show False by blast
qed

lemma unreachable_garbage:
  assumes ex: "exact A ext is s" and roots: "A - reach (gsuccs s) {m \<in> A. 0 < ext m} \<subseteq> reach (gsuccs s) (set (root_nodes s is))"
    and n: "n \<in> A" "n \<notin> reach (gsuccs s) {m \<in> A. 0 < ext m}"
  shows "n \<in> gc_garbage is s"
proof -
  define G where "G = reach (gsuccs s) (set (root_nodes s is))"
  define X where "X = {m \<in> G. unat (gcnt (view s) m) \<noteq> in_edges (gsuccs s) G m}"
  have sub: "G \<subseteq> A" using exact_facts(2) [OF ex] by (simp add: G_def)
  have "X \<subseteq> reach (gsuccs s) {m \<in> A. 0 < ext m}"
  proof
    fix x
    assume x: "x \<in> X"
    then have xA: "x \<in> A" and "0 < ext x \<or> (\<exists>m\<in>A - G. x \<in> set (gsuccs s m))" using exact_outer [OF ex G_def, of x] sub by (auto simp: X_def)
    then consider "0 < ext x" | m where "m \<in> A - G" "x \<in> set (gsuccs s m)" by auto
    then show "x \<in> reach (gsuccs s) {m \<in> A. 0 < ext m}"
    proof cases
      case (2 m)
      then have "m \<in> reach (gsuccs s) {m \<in> A. 0 < ext m}" using roots by (auto simp: G_def)
      then show ?thesis using 2(2) by (rule reach_step)
    qed (use xA in \<open>auto intro: reach_refl\<close>)
  qed
  then have "n \<notin> reach (gsuccs s) X" using n(2) reach_trans by blast
  moreover have "n \<in> G" using roots n by (auto simp: G_def)
  ultimately show ?thesis by (simp add: gc_garbage_def garbage_def Let_def G_def X_def)
qed

subsection \<open>The list to free\<close>

text \<open>
  The calls out of the collector return, leave no object dangling, and leave the values of the list to free to the collector: neither
  their links nor the list change.  \<open>gc_zval_possible_root\<close> and \<open>gc_remove_zval_from_buffer\<close>, through which the other parts of the engine
  act on the buffer, test for such values for this reason.
\<close>

definition obj_closed :: "gc \<Rightarrow> bool" where
  "obj_closed s \<longleftrightarrow> (\<forall>a z h. zvals s a = Some z \<and> z_type z = Object h \<longrightarrow> objects s h \<noteq> None)"

definition guarded :: "gc \<Rightarrow> gc \<Rightarrow> bool" where
  "guarded s s' \<longleftrightarrow> obj_closed s' \<and> free_list s' = free_list s \<and> next_to_free s' = next_to_free s \<and> dom (objects s) \<subseteq> dom (objects s') \<and>
     (\<forall>a q. next_link a s = Some q \<longrightarrow> next_link a s' = Some q)"

definition calls_ok :: "gc_calls \<Rightarrow> bool" where
  "calls_ok cs \<longleftrightarrow> (\<forall>s. obj_closed s \<longrightarrow> (\<forall>h. \<exists>s'. obj_dtor cs h s = Some s' \<and> guarded s s') \<and>
     (\<forall>h. \<exists>s'. del_ref_by_handle cs h s = Some s' \<and> guarded s s') \<and> (\<forall>t. \<exists>s'. hash_destroy cs t s = Some s' \<and> guarded s s') \<and>
     (\<forall>a. \<exists>s'. zval_dtor cs a s = Some s' \<and> guarded s s'))"

lemma guarded_refl: "obj_closed s \<Longrightarrow> guarded s s"
  by (simp add: guarded_def)

lemma guarded_trans: "guarded s s1 \<Longrightarrow> guarded s1 s2 \<Longrightarrow> guarded s s2"
  unfolding guarded_def by (auto del: subsetI intro: subset_trans)

lemma guarded_closed: "guarded s s' \<Longrightarrow> obj_closed s'"
  by (simp add: guarded_def)

lemma calls_okD:
  assumes "calls_ok cs" and "obj_closed s"
  shows "\<exists>s'. obj_dtor cs h s = Some s' \<and> guarded s s'" and "\<exists>s'. del_ref_by_handle cs h s = Some s' \<and> guarded s s'"
    and "\<exists>s'. hash_destroy cs t s = Some s' \<and> guarded s s'" and "\<exists>s'. zval_dtor cs a s = Some s' \<and> guarded s s'"
  using assms unfolding calls_ok_def by blast+

lemma guarded_chain:
  assumes "guarded s s'" and "free_chain s p xs"
  shows "free_chain s' p xs"
  using assms(2)
proof (induction xs arbitrary: p)
  case (Cons a xs)
  then show ?case using assms(1) by (auto simp: guarded_def)
qed simp

lemma ob_upd_guarded:
  assumes "obj_closed s" and "objects s h \<noteq> None"
  obtains s' where "ob_upd h f s = Some s'" and "guarded s s'"
proof -
  obtain ob where ob: "objects s h = Some ob" using assms(2) by blast
  let ?s = "s\<lparr>objects := (objects s)(h \<mapsto> f ob)\<rparr>"
  have "ob_upd h f s = Some ?s" using ob by (simp add: ob_upd_def)
  moreover have "guarded s ?s" using assms(1) by (auto simp: guarded_def obj_closed_def next_link_def)
  ultimately show ?thesis by (rule that)
qed

lemma set_null_guarded:
  assumes "obj_closed s" and "zvals s a \<noteq> None"
  obtains s' where "set_null a s = Some s'" and "guarded s s'"
proof -
  obtain z where z: "zvals s a = Some z" using assms(2) by blast
  let ?s = "s\<lparr>zvals := (zvals s)(a \<mapsto> z\<lparr>z_type := Scalar\<rparr>)\<rparr>"
  have "next_link b ?s = next_link b s" for b using z by (simp add: next_link_def)
  then have "guarded s ?s" using assms(1) by (auto simp: guarded_def obj_closed_def)
  moreover have "set_null a s = Some ?s" using z by (simp add: set_null_def zv_upd_def)
  ultimately show ?thesis using that by blast
qed

lemma linked_value: "next_link a s = Some q \<Longrightarrow> \<exists>z. zvals s a = Some z"
  by (cases "zvals s a") (auto simp: next_link_def)

lemma call_dtor_guarded:
  assumes cs: "calls_ok cs" and s: "obj_closed s" and a: "next_link a s = Some q"
  shows "\<exists>s'. call_dtor cs a s = Some s' \<and> guarded s s'"
proof -
  obtain z where z: "zvals s a = Some z" using linked_value [OF a] by blast
  show ?thesis
  proof (cases "z_type z")
    case (Object h)
    then obtain ob where ob: "objects s h = Some ob" using s z by (force simp: obj_closed_def)
    show ?thesis
    proof (cases "object_buckets s \<and> o_valid ob \<and> o_refcount ob = 0 \<and> o_dtor ob \<and> \<not> o_dtor_called ob")
      case True
      obtain s1 where s1: "ob_upd h (\<lambda>ob. ob\<lparr>o_dtor_called := True, o_refcount := o_refcount ob + 1\<rparr>) s = Some s1" "guarded s s1"
        using ob_upd_guarded [OF s, of h] ob by blast
      obtain s2 where s2: "obj_dtor cs h s1 = Some s2" "guarded s1 s2" using calls_okD [OF cs guarded_closed [OF s1(2)]] by blast
      have g: "guarded s s2" using guarded_trans [OF s1(2) s2(2)] .
      then have "obj_closed s2" "objects s2 h \<noteq> None" using ob by (auto simp: guarded_def)
      then obtain s3 where s3: "obj_ref (- 1) h s2 = Some s3" "guarded s2 s3" using ob_upd_guarded [of s2 h] unfolding obj_ref_def by blast
      then show ?thesis using True z Object ob s1 s2 guarded_trans [OF g s3(2)] by (simp add: call_dtor_def)
    next
      case False
      then show ?thesis using z Object ob guarded_refl [OF s] by (auto simp: call_dtor_def)
    qed
  qed (use z guarded_refl [OF s] in \<open>simp_all add: call_dtor_def\<close>)
qed

lemma destroy_zval_guarded:
  assumes cs: "calls_ok cs" and s: "obj_closed s" and a: "next_link a s = Some q"
  shows "\<exists>s'. destroy_zval cs a s = Some s' \<and> guarded s s'"
proof -
  obtain z where z: "zvals s a = Some z" using linked_value [OF a] by blast
  have null: "\<exists>s'. (set_null a s \<bind> hash_destroy cs t) = Some s' \<and> guarded s s'" for t
  proof -
    obtain s1 where s1: "set_null a s = Some s1" "guarded s s1" using set_null_guarded [OF s, of a] z by blast
    obtain s2 where s2: "hash_destroy cs t s1 = Some s2" "guarded s1 s2" using calls_okD [OF cs guarded_closed [OF s1(2)]] by blast
    show ?thesis using s1 s2 guarded_trans [OF s1(2) s2(2)] by simp
  qed
  show ?thesis
  proof (cases "z_type z")
    case Scalar
    obtain s1 where s1: "zval_dtor cs a s = Some s1" "guarded s s1" using calls_okD [OF cs s] by blast
    have "obj_closed s1" "next_link a s1 = Some q" using s1(2) a by (simp_all add: guarded_def)
    then obtain s2 where "set_null a s1 = Some s2" "guarded s1 s2" using set_null_guarded [of s1 a] linked_value by blast
    then show ?thesis using s1 Scalar z guarded_trans [OF s1(2)] by (simp add: destroy_zval_def)
  next
    case (Object h)
    then obtain ob where ob: "objects s h = Some ob" using s z by (force simp: obj_closed_def)
    show ?thesis
    proof (cases "object_buckets s \<and> o_valid ob \<and> o_refcount ob = 0")
      case True
      obtain s1 where s1: "ob_upd h (\<lambda>ob. ob\<lparr>o_refcount := 1\<rparr>) s = Some s1" "guarded s s1" using ob_upd_guarded [OF s, of h] ob by blast
      have "obj_closed s1" "next_link a s1 = Some q" using s1(2) a by (simp_all add: guarded_def)
      then obtain s2 where s2: "set_null a s1 = Some s2" "guarded s1 s2" using set_null_guarded [of s1 a] linked_value by blast
      obtain s3 where s3: "del_ref_by_handle cs h s2 = Some s3" "guarded s2 s3" using calls_okD [OF cs guarded_closed [OF s2(2)]] by blast
      show ?thesis using True z Object ob s1 s2 s3 guarded_trans [OF s1(2) guarded_trans [OF s2(2) s3(2)]] by (simp add: destroy_zval_def)
    next
      case False
      then show ?thesis using z Object ob guarded_refl [OF s] by (auto simp: destroy_zval_def)
    qed
  qed (use z null in \<open>simp_all add: destroy_zval_def\<close>)
qed

lemma dtor_loop_ok:
  assumes cs: "calls_ok cs" and "obj_closed s" and "free_chain s p ws"
  shows "\<exists>s'. dtor_loop cs p n s = Some (n + of_nat (length ws), s') \<and> guarded s s'"
  using assms(2,3)
proof (induction ws arbitrary: p n s)
  case Nil
  then show ?case using guarded_refl by (simp add: dtor_loop.simps)
next
  case (Cons a ws)
  then obtain q where q: "p = Free_zval a" "next_link a s = Some q" "free_chain s q ws" by auto
  obtain s1 where s1: "call_dtor cs a s = Some s1" "guarded s s1" using call_dtor_guarded [OF cs Cons.prems(1) q(2)] by blast
  obtain s2 where s2: "dtor_loop cs q (n + 1) s1 = Some (n + 1 + of_nat (length ws), s2)" "guarded s1 s2"
    using Cons.IH [OF guarded_closed [OF s1(2)] guarded_chain [OF s1(2) q(3)]] by blast
  have "next_link a s1 = Some q" using s1(2) q(2) by (simp add: guarded_def)
  then show ?case using q(1) s1 s2 guarded_trans [OF s1(2) s2(2)] by (subst dtor_loop.simps) (simp add: add_ac)
qed

lemma gc_destroy_loop_ok:
  assumes cs: "calls_ok cs" and "obj_closed s" and "free_chain s p ws"
  shows "\<exists>s'. gc_destroy_loop cs p s = Some s' \<and> obj_closed s' \<and> free_list s' = free_list s \<and>
    (\<forall>a q. next_link a s = Some q \<longrightarrow> next_link a s' = Some q)"
  using assms(2,3)
proof (induction ws arbitrary: p s)
  case Nil
  then show ?case by (simp add: gc_destroy_loop.simps)
next
  case (Cons a ws)
  then obtain q where q: "p = Free_zval a" "next_link a s = Some q" "free_chain s q ws" by auto
  let ?s = "s\<lparr>next_to_free := q\<rparr>"
  have link: "next_link b ?s = next_link b s" for b by (simp add: next_link_def)
  have "obj_closed ?s" using Cons.prems(1) by (simp add: obj_closed_def)
  then obtain s1 where s1: "destroy_zval cs a ?s = Some s1" "guarded ?s s1" using destroy_zval_guarded [OF cs, of ?s a q] q(2) link by auto
  have "free_chain ?s q ws" using q(3) gc_free_chain_cong [of ws ?s s q] link by simp
  then obtain s2 where s2: "gc_destroy_loop cs q s1 = Some s2" "obj_closed s2" "free_list s2 = free_list s1"
    "\<forall>a q. next_link a s1 = Some q \<longrightarrow> next_link a s2 = Some q"
    using Cons.IH [OF guarded_closed [OF s1(2)] guarded_chain [OF s1(2)]] by blast
  have "next_to_free s1 = q" using s1(2) by (simp add: guarded_def)
  then have "gc_destroy_loop cs p s = Some s2" using q s1(1) s2(1) by (subst gc_destroy_loop.simps) simp
  moreover have "free_list s2 = free_list s" "\<forall>a q. next_link a s = Some q \<longrightarrow> next_link a s2 = Some q"
    using s1(2) s2(3,4) link by (simp_all add: guarded_def)
  ultimately show ?case using s2(2) by blast
qed

lemma gc_free_loop_ok:
  assumes "free_chain s p ws" and "distinct ws"
  shows "\<exists>s'. gc_free_loop p s = Some s' \<and> s' = s\<lparr>zvals := (\<lambda>a. if a \<in> set ws then None else zvals s a)\<rparr>"
  using assms
proof (induction ws arbitrary: p s)
  case Nil
  then show ?case by (simp add: gc_free_loop.simps)
next
  case (Cons a ws)
  then obtain q where q: "p = Free_zval a" "next_link a s = Some q" "free_chain s q ws" by auto
  let ?s = "s\<lparr>zvals := (zvals s)(a := None)\<rparr>"
  have "next_link b ?s = next_link b s" if "b \<in> set ws" for b using that Cons.prems(2) by (auto simp: next_link_def)
  then have "free_chain ?s q ws" using q(3) gc_free_chain_cong [of ws ?s s q] by simp
  then have "gc_free_loop q ?s = Some (?s\<lparr>zvals := (\<lambda>a. if a \<in> set ws then None else zvals ?s a)\<rparr>)" using Cons.IH [of ?s q] Cons.prems(2) by auto
  moreover have "?s\<lparr>zvals := (\<lambda>a. if a \<in> set ws then None else zvals ?s a)\<rparr> = s\<lparr>zvals := (\<lambda>b. if b \<in> set (a # ws) then None else zvals s b)\<rparr>"
    by (simp add: fun_eq_iff)
  ultimately show ?case using q by (subst gc_free_loop.simps) simp
qed

subsection \<open>The properties\<close>

text \<open>An example: two arrays that refer to each other, one of them a root.\<close>

definition cycle_state :: gc where
  "cycle_state = \<lparr>gc_enabled = True, gc_active = False,
     buf = Some (\<lambda>_. \<lparr>rb_prev = Rroots, rb_next = Rroots, rb_handle = 0, rb_pz = 2\<rparr>),
     roots_prev = Rbuf 0, roots_next = Rbuf 0, unused = Rnull, first_unused = 1, last_unused = GC_ROOT_BUFFER_MAX_ENTRIES,
     zval_to_free = Znull, free_list = Znull, next_to_free = Znull, gc_runs = 0, collected = 0,
     zvals = [2 \<mapsto> \<lparr>z_type = Array [3], refcount__gc = 1, z_color = GC_PURPLE, z_addr = Root 0\<rparr>,
              3 \<mapsto> \<lparr>z_type = Array [2], refcount__gc = 1, z_color = GC_BLACK, z_addr = Null\<rparr>],
     objects = Map.empty, object_buckets = True\<rparr>"

lemma cycle_state_nodes:
  "root_node cycle_state 0 = [Zv 2]" "gsuccs cycle_state (Zv 2) = [Zv 3]" "gsuccs cycle_state (Zv 3) = [Zv 2]"
  "naddr cycle_state (Zv 2) = Some (Root 0)" "naddr cycle_state (Zv 3) = Some Null"
  "ztype cycle_state a = (if a = 2 then Some (Array [3]) else if a = 3 then Some (Array [2]) else None)" "orefs cycle_state h = None"
  by (simp_all add: cycle_state_def root_node_def rb_of_def grefs_def ztype_def orefs_def naddr_def Let_def)

lemma cycle_state_inv: "gc_inv [0] [] cycle_state"
proof -
  have "{a. ztype cycle_state a \<noteq> None} = {2, 3}" by (auto simp: cycle_state_nodes split: if_splits)
  then have "heap_closed cycle_state" by (simp add: heap_closed_def cycle_state_nodes(6,7))
  moreover have "syms_ok cycle_state" by (auto simp: syms_ok_def cycle_state_def)
  moreover have "buf_ok [0] [] cycle_state"
    by (auto simp: buf_ok_def nxt_def prv_def cycle_state_def GC_ROOT_BUFFER_MAX_ENTRIES_def)
  moreover have "entry_ok cycle_state 0" by (simp add: entry_ok_def rb_of_def ztype_def cycle_state_def)
  moreover have nodes: "n = Zv 2 \<or> n = Zv 3" if "n \<in> gnodes cycle_state" for n
    using that by (cases n) (auto simp: gnodes_def cycle_state_nodes(6,7) split: if_splits)
  have "naddr cycle_state n = Some Null" if "n \<in> gnodes cycle_state" "n \<noteq> Zv 2" for n
    using nodes [OF that(1)] that(2) cycle_state_nodes(5) by auto
  then have "roots_addr cycle_state [0]" by (simp add: roots_addr_def cycle_state_nodes(1,4))
  moreover have "gcol (view cycle_state) n = (if n = Zv 2 then GC_PURPLE else GC_BLACK)" for n
    by (cases n) (auto simp: view_node cycle_state_def zcol_def ocol_def)
  ultimately show ?thesis by (simp add: gc_inv_def cycle_state_nodes(1))
qed

lemma cycle_state_exact: "exact {Zv 2, Zv 3} (\<lambda>_. 0) [0] cycle_state"
proof -
  have "gcnt (view cycle_state) (Zv 2) = 1" "gcnt (view cycle_state) (Zv 3) = 1" by (simp_all add: view_node cycle_state_def zcnt_def)
  then show ?thesis by (auto simp: exact_def cycle_state_nodes(1,2,3) in_edges_def simp del: gsuccs.simps)
qed

lemma garbage_list: "Zv ` set ws = {n \<in> W. is_zv n} \<Longrightarrow> set ws = {a. Zv a \<in> W}"
proof -
  assume ws: "Zv ` set ws = {n \<in> W. is_zv n}"
  have "a \<in> set ws \<longleftrightarrow> Zv a \<in> Zv ` set ws" for a by auto
  then show ?thesis unfolding ws by auto
qed

lemma find_garbage_list:
  assumes "gc_inv is us s" and "counted is s"
  obtains s' us' ws where "gc_find_garbage s = Some s'" and "coll_inv [] us' ws s'" and "set ws = {a. Zv a \<in> gc_garbage is s}"
    and "free_list s' = free_list s" and "next_to_free s' = next_to_free s"
proof (rule find_garbage [OF assms])
  fix s' us' ws
  assume "gc_find_garbage s = Some s'" and "coll_inv [] us' ws s'" and "Zv ` set ws = {n \<in> gc_garbage is s. is_zv n}"
    and "free_list s' = free_list s" and "next_to_free s' = next_to_free s"
  then show thesis using garbage_list by (intro that [of s' us' ws]) simp_all
qed

text \<open>
  A collection that starts with at least as many counted references as lead to each node from the roots finds the garbage: the phases
  return, the buffer is empty, the list to free holds each garbage value once and nothing else, all colours are black but those of garbage
  objects, and all counts are what they were, plus one for the values of the list, less the references from garbage for objects.
\<close>

theorem gc_finds_garbage:
  assumes "gc_inv is us s" and "counted is s"
  shows "\<exists>s' us' ws. gc_find_garbage s = Some s' \<and> buf_ok [] us' s' \<and> free_chain s' (zval_to_free s') ws \<and> distinct ws \<and>
    set ws = {a. Zv a \<in> gc_garbage is s} \<and>
    (\<forall>n. gcol (view s') n = (if n \<in> gc_garbage is s \<and> \<not> is_zv n then GC_PURPLE else GC_BLACK)) \<and>
    (\<forall>a. gcnt (view s') (Zv a) = gcnt (view s) (Zv a) + (if Zv a \<in> gc_garbage is s then 1 else 0)) \<and>
    (\<forall>h. gcnt (view s') (Ob h) = gcnt (view s) (Ob h) - of_nat (in_edges (gsuccs s) (gc_garbage is s) (Ob h)))"
proof -
  obtain s' us' ws where s': "gc_find_garbage s = Some s'" "coll_inv [] us' ws s'" "same_shape s s'"
    "gcol (view s') = (\<lambda>n. if n \<in> gc_garbage is s \<and> \<not> is_zv n then GC_PURPLE else GC_BLACK)"
    "gcnt (view s') = (\<lambda>n. if is_zv n then gcnt (view s) n + of_bool (n \<in> gc_garbage is s)
      else gcnt (view s) n - of_nat (in_edges (gsuccs s) (gc_garbage is s) n))"
    "Zv ` set ws = {n \<in> gc_garbage is s. is_zv n}" "free_list s' = free_list s" "next_to_free s' = next_to_free s"
    using find_garbage [OF assms] .
  have ws: "set ws = {a. Zv a \<in> gc_garbage is s}" using garbage_list [OF s'(6)] .
  show ?thesis using s'(1,2) ws
    by (rule_tac exI [of _ s'], rule_tac exI [of _ us'], rule_tac exI [of _ ws]) (simp add: coll_inv_def s'(4,5))
qed

theorem gc_finds_garbage_witness: "\<exists>s' us' ws. gc_find_garbage cycle_state = Some s' \<and> buf_ok [] us' s' \<and> set ws = {a. Zv a \<in> gc_garbage [0] cycle_state}"
  using gc_finds_garbage [OF cycle_state_inv exact_counted [OF cycle_state_exact]] by blast

text \<open>
  C34: With exact counts, only values that cannot be reached from outside are put into the list to free; and if the roots lead to all
  unreachable nodes, the list has all unreachable values.
\<close>

theorem gc_frees_unreachable:
  assumes "gc_inv is us s" and "exact A ext is s"
  shows "\<exists>s' ws. gc_find_garbage s = Some s' \<and> free_chain s' (zval_to_free s') ws \<and> distinct ws \<and>
    (\<forall>a\<in>set ws. Zv a \<notin> reach (gsuccs s) {m \<in> A. 0 < ext m}) \<and>
    (A - reach (gsuccs s) {m \<in> A. 0 < ext m} \<subseteq> reach (gsuccs s) (set (root_nodes s is)) \<longrightarrow>
      (\<forall>a. Zv a \<in> A \<and> Zv a \<notin> reach (gsuccs s) {m \<in> A. 0 < ext m} \<longrightarrow> a \<in> set ws))"
proof -
  obtain s' us' ws where s': "gc_find_garbage s = Some s'" "coll_inv [] us' ws s'" and ws: "set ws = {a. Zv a \<in> gc_garbage is s}"
    by (rule find_garbage_list [OF assms(1) exact_counted [OF assms(2)]])
  have "Zv a \<notin> reach (gsuccs s) {m \<in> A. 0 < ext m}" if "a \<in> set ws" for a
    using garbage_unreachable [OF assms(2)] that ws by simp
  moreover have "a \<in> set ws" if "A - reach (gsuccs s) {m \<in> A. 0 < ext m} \<subseteq> reach (gsuccs s) (set (root_nodes s is))"
    "Zv a \<in> A" "Zv a \<notin> reach (gsuccs s) {m \<in> A. 0 < ext m}" for a
    using unreachable_garbage [OF assms(2) that] ws by simp
  ultimately show ?thesis using s'(1,2) by (intro exI [of _ s'] exI [of _ ws]) (simp add: coll_inv_def)
qed

theorem gc_frees_unreachable_witness: "\<exists>s' ws. gc_find_garbage cycle_state = Some s' \<and> free_chain s' (zval_to_free s') ws \<and> 2 \<in> set ws"
proof -
  have "Zv 2 \<in> reach (gsuccs cycle_state) {Zv 2}" by (simp add: reach_refl)
  moreover from this have "Zv 3 \<in> reach (gsuccs cycle_state) {Zv 2}" by (rule reach_step) (simp add: cycle_state_nodes(2) del: gsuccs.simps)
  ultimately have "{Zv 2, Zv 3} - reach (gsuccs cycle_state) {m \<in> {Zv 2, Zv 3}. 0 < (0 :: nat)} \<subseteq> reach (gsuccs cycle_state) (set (root_nodes cycle_state [0]))"
    by (simp add: cycle_state_nodes(1) reach_def)
  then show ?thesis using gc_frees_unreachable [OF cycle_state_inv cycle_state_exact] by (auto simp: reach_def)
qed



end
