(* ===== verification/Zend_Gc_Buffer.thy ===== *)
theory Zend_Gc_Buffer
  imports Zend_Gc_Cycles
begin

text \<open>
  Adding a value to the buffer keeps the invariant of the buffer, and the invariant holds of the buffer the collector starts with.
\<close>

text \<open>An entry is free for use when it is neither in the ring nor in the list of unused entries.\<close>

definition entry_free :: "nat \<Rightarrow> nat list \<Rightarrow> nat list \<Rightarrow> gc \<Rightarrow> bool" where
  "entry_free i is us s \<longleftrightarrow> buf s \<noteq> None \<and> links s Rroots is \<and> unused_chain s (unused s) us \<and> distinct (i # is @ us) \<and>
     set (i # is @ us) = {..<first_unused s} \<and> first_unused s \<le> last_unused s \<and> last_unused s = GC_ROOT_BUFFER_MAX_ENTRIES"

lemma new_root_ok:
  assumes ok: "buf_ok is us s" and room: "us \<noteq> [] \<or> first_unused s \<noteq> last_unused s"
  obtains i us' s' where "new_root collect s = Some (Some i, s')" and "entry_free i is us' s'"
    and "\<exists>u f. s' = s\<lparr>unused := u, first_unused := f\<rparr>"
proof (cases us)
  case (Cons i us')
  have u: "unused s = Rbuf i" "unused_chain s (prv s (Rbuf i)) us'" using ok Cons by (simp_all add: buf_ok_def)
  have i: "i < GC_ROOT_BUFFER_MAX_ENTRIES" using buf_ok_bounds(1) [OF ok, of i] Cons by simp
  have g: "rb_get i s = Some (rb_of s i)" "rb_prev (rb_of s i) = prv s (Rbuf i)" using rb_get_nxt [OF buf_ok_bounds(2) [OF ok] i] by simp_all
  let ?s = "s\<lparr>unused := prv s (Rbuf i)\<rparr>"
  have l: "links ?s p is = links s p is" "unused_chain ?s p us' = unused_chain s p us'" for p
    using links_cong [of p "is" ?s s] unused_cong [of us' ?s s p] by simp_all
  have "set (i # is @ us') = set (is @ us)" "distinct (i # is @ us')" using ok Cons by (auto simp: buf_ok_def)
  then have "entry_free i is us' ?s" using ok u l by (simp add: buf_ok_def entry_free_def)
  moreover have "new_root collect s = Some (Some i, ?s)" using u g by (simp add: new_root_def)
  moreover have "\<exists>u f. ?s = s\<lparr>unused := u, first_unused := f\<rparr>"
    by (intro exI [of _ "prv s (Rbuf i)"] exI [of _ "first_unused s"]) simp
  ultimately show ?thesis using that by blast
next
  case Nil
  then have u: "unused s = Rnull" and ne: "first_unused s \<noteq> last_unused s" using ok room by (simp_all add: buf_ok_def)
  let ?s = "s\<lparr>first_unused := first_unused s + 1\<rparr>"
  have l: "links ?s p is = links s p is" "unused_chain ?s p us = unused_chain s p us" for p
    using links_cong [of p "is" ?s s] unused_cong [of us ?s s p] by simp_all
  have e: "set (is @ us) = {..<first_unused s}" using ok by (simp add: buf_ok_def)
  have "set (first_unused s # is @ us) = {..<first_unused ?s}" using e by (simp add: lessThan_Suc)
  moreover have "first_unused s \<notin> set (is @ us)" unfolding e by simp
  ultimately have "entry_free (first_unused s) is us ?s" using ok l ne by (simp add: buf_ok_def entry_free_def)
  moreover have "new_root collect s = Some (Some (first_unused s), ?s)" using u ne by (simp add: new_root_def)
  moreover have "\<exists>u f. ?s = s\<lparr>unused := u, first_unused := f\<rparr>"
    by (intro exI [of _ "unused s"] exI [of _ "first_unused s + 1"]) simp
  ultimately show ?thesis using that by blast
qed

text \<open>The entry becomes the first of the ring.\<close>

lemma links_insert:
  assumes "links s Rroots is" and "i \<notin> set is" and "distinct is" and "nxt s' = (nxt s)(Rbuf i := first_of is, Rroots := Rbuf i)"
    and "prv s' = (prv s)(Rbuf i := Rroots, first_of is := Rbuf i)"
  shows "links s' Rroots (i # is)"
proof (cases "is")
  case Nil
  then show ?thesis using assms by simp
next
  case (Cons j js)
  have "links s (Rbuf j) js" using assms(1) Cons by simp
  moreover have "links s' (Rbuf j) js = links s (Rbuf j) js"
    using assms(2-5) Cons by (intro links_cong) auto
  ultimately show ?thesis using assms Cons by simp
qed

lemma link_root_ok:
  assumes ok: "entry_free i is us s"
  obtains s' where "link_root i s = Some s'" and "buf_ok (i # is) us s'" and "same_heap s s'" and "same_entries s s'"
proof -
  have links: "links s Rroots is" and chain: "unused_chain s (unused s) us" and dist: "distinct (i # is @ us)" and "buf s \<noteq> None"
    and set: "set (i # is @ us) = {..<first_unused s}" and bound: "first_unused s \<le> GC_ROOT_BUFFER_MAX_ENTRIES"
    using ok by (simp_all add: entry_free_def)
  obtain b where b: "buf s = Some b" using \<open>buf s \<noteq> None\<close> by blast
  have lt: "j < GC_ROOT_BUFFER_MAX_ENTRIES" if "j \<in> set (i # is)" for j
  proof -
    have "j \<in> {..<first_unused s}" using that set by auto
    then show ?thesis using bound by simp
  qed
  have first: "roots_next s = first_of is" using links_first [OF links] by (simp add: nxt_def)
  obtain s1 where s1: "rb_upd i (\<lambda>b. b\<lparr>rb_next := first_of is, rb_prev := Rroots\<rparr>) s = Some s1" "nxt s1 = (nxt s)(Rbuf i := first_of is)"
    "prv s1 = (prv s)(Rbuf i := Rroots)" "buf s1 = Some (b(i := (b i)\<lparr>rb_next := first_of is, rb_prev := Rroots\<rparr>))"
    "same_heap s s1" "same_entries s s1" "unused s1 = unused s"
    using lt by (rule_tac rb_upd_ring [OF b, of i "\<lambda>b. b\<lparr>rb_next := first_of is, rb_prev := Rroots\<rparr>"]) auto
  have first1: "roots_next s1 = first_of is" using s1(2) first by (metis nxt_def fun_upd_other rptr.distinct(5) rptr.simps(9))
  have "ptr_ok (first_of is)" "buf s1 \<noteq> None" using lt s1(4) by (auto simp: ptr_ok_def split: list.splits)
  then obtain s2 where s2: "set_prev (first_of is) (Rbuf i) s1 = Some s2" "nxt s2 = nxt s1" "prv s2 = (prv s1)(first_of is := Rbuf i)"
    "buf s2 \<noteq> None" "same_heap s1 s2" "same_entries s1 s2" "unused s2 = unused s1"
    by (rule_tac set_prev_ring)
  let ?s = "s2\<lparr>roots_next := Rbuf i\<rparr>"
  have nxt: "nxt ?s = (nxt s)(Rbuf i := first_of is, Rroots := Rbuf i)"
  proof
    fix q
    have "nxt ?s q = (if q = Rroots then Rbuf i else nxt s2 q)" by (simp add: nxt_def split: rptr.splits)
    then show "nxt ?s q = ((nxt s)(Rbuf i := first_of is, Rroots := Rbuf i)) q" by (simp add: s2(2) s1(2))
  qed
  have "prv ?s = prv s2" by (simp add: prv_def fun_eq_iff split: rptr.splits)
  then have prv: "prv ?s = (prv s)(Rbuf i := Rroots, first_of is := Rbuf i)" by (simp add: s2(3) s1(3))
  have l: "links ?s Rroots (i # is)" by (rule links_insert [OF links _ _ nxt prv]) (use dist in auto)
  have "prv ?s (Rbuf j) = prv s (Rbuf j)" if "j \<in> set us" for j using that dist prv by (auto split: list.splits)
  then have "unused_chain ?s (unused s) us" using chain unused_cong [of us ?s s] by blast
  moreover have "same_heap s2 ?s" unfolding same_heap_def
    by (intro exI [of _ "buf s2"] exI [of _ "Rbuf i"] exI [of _ "roots_prev s2"] exI [of _ "unused s2"]) simp
  then have heap: "same_heap s ?s" using same_heap_trans [OF same_heap_trans [OF s1(5) s2(5)]] by simp
  ultimately have "buf_ok (i # is) us ?s"
    using l ok s2(4,7) s1(7) same_heap_fields(5,6) [OF heap] by (simp add: buf_ok_def entry_free_def)
  moreover have "same_entries s ?s" using same_entries_trans [OF s1(6) s2(6)] by (simp add: same_entries_def rb_of_def)
  moreover have "link_root i s = Some ?s" using s1(1) s2(1) first first1 by (simp add: link_root_def)
  ultimately show ?thesis using heap that by blast
qed

text \<open>A new root: its node turns purple and knows its entry.\<close>

lemma gc_inv_add:
  assumes inv: "gc_inv is us s" and buf: "buf_ok (i # is) us' s'" and shape: "same_shape s s'" and syms: "syms_ok s'"
    and rb: "\<And>j. j \<in> set is \<Longrightarrow> rb_handle (rb_of s' j) = rb_handle (rb_of s j) \<and> rb_pz (rb_of s' j) = rb_pz (rb_of s j)"
    and entry: "entry_ok s' i" and node: "root_node s' i = (if n \<in> gnodes s then [n] else [])"
    and addr: "naddr s' = (naddr s)(n := Some (Root i))" and null: "naddr s n = Some Null"
    and col: "\<And>m. gcol (view s') m = (if m = n \<and> n \<in> gnodes s then GC_PURPLE else gcol (view s) m)"
  shows "gc_inv (i # is) us' s'"
proof -
  note same = shape_refs [OF shape] shape_orefs [OF shape]
  have nodes: "root_node s' j = root_node s j" "entry_ok s' j = entry_ok s j" if "j \<in> set is" for j
    using rb [OF that] same by (simp_all add: root_node_def entry_ok_def Let_def)
  then have roots: "root_nodes s' is = root_nodes s is" by (simp add: root_nodes_def cong: map_cong)
  have gn: "gnodes s' = gnodes s" by (simp add: gnodes_def same cong: gnode.case_cong)
  have old: "naddr s m = Some (Root j)" if "j \<in> set is" "m \<in> set (root_node s j)" for j m using inv that by (simp add: gc_inv_def roots_addr_def)
  have "roots_addr s' (i # is)" unfolding roots_addr_def gn
  proof (intro conjI ballI impI)
    fix j m
    assume j: "j \<in> set (i # is)" and m: "m \<in> set (root_node s' j)"
    show "naddr s' m = Some (Root j)"
    proof (cases "j = i")
      case True
      then show ?thesis using m node by (auto simp: addr split: if_splits)
    next
      case False
      then have "naddr s m = Some (Root j)" using j m nodes old by auto
      then show ?thesis using null by (auto simp: addr)
    qed
  next
    fix m
    assume "m \<in> gnodes s" "m \<notin> set (root_nodes s' (i # is))"
    then show "naddr s' m = Some Null" using inv node roots by (auto simp: addr gc_inv_def roots_addr_def split: if_splits)
  qed
  moreover have "gcol (view s') m = (if m \<in> set (root_nodes s' (i # is)) then GC_PURPLE else GC_BLACK)" for m
    using inv node roots by (auto simp: col gc_inv_def)
  moreover have "heap_closed s'" "\<forall>j\<in>set (i # is). entry_ok s' j" using inv heap_closed_shape [OF shape] entry nodes(2) by (auto simp: gc_inv_def)
  ultimately show ?thesis using buf syms by (simp add: gc_inv_def)
qed

lemma rb_set_entry:
  assumes ok: "buf_ok (i # is) us s"
  obtains s' where "rb_upd i f s = Some s'" and "(\<And>b. rb_next (f b) = rb_next b \<and> rb_prev (f b) = rb_prev b) \<Longrightarrow> buf_ok (i # is) us s'"
    and "same_heap s s'" and "rb_of s' = (rb_of s)(i := f (rb_of s i))"
proof -
  obtain b where b: "buf s = Some b" using buf_ok_bounds(2) [OF ok] by blast
  have i: "i < GC_ROOT_BUFFER_MAX_ENTRIES" using buf_ok_bounds(1) [OF ok, of i] by simp
  let ?s = "s\<lparr>buf := Some (b(i := f (b i)))\<rparr>"
  show ?thesis
  proof (rule that [of ?s])
    show "rb_upd i f s = Some ?s" using b i by (simp add: rb_upd_def)
    show "same_heap s ?s" unfolding same_heap_def
      by (intro exI [of _ "Some (b(i := f (b i)))"] exI [of _ "roots_next s"] exI [of _ "roots_prev s"] exI [of _ "unused s"]) simp
    show "rb_of ?s = (rb_of s)(i := f (rb_of s i))" using b by (simp add: rb_of_def fun_eq_iff)
    assume f: "\<And>b. rb_next (f b) = rb_next b \<and> rb_prev (f b) = rb_prev b"
    have ring: "nxt ?s = nxt s" "prv ?s = prv s" using b f by (auto simp: nxt_def prv_def fun_eq_iff split: rptr.splits)
    have l: "links ?s p js = links s p js" "unused_chain ?s p us = unused_chain s p us" for p js
      using links_cong [of p js ?s s] unused_cong [of us ?s s p] ring by simp_all
    show "buf_ok (i # is) us ?s" using ok unfolding buf_ok_def l by simp
  qed
qed

lemma entry_free_heap:
  "entry_free i is us s \<Longrightarrow> entry_free i is us (s\<lparr>zvals := zs, objects := os\<rparr>)"
proof -
  assume ok: "entry_free i is us s"
  let ?s = "s\<lparr>zvals := zs, objects := os\<rparr>"
  have ring: "nxt ?s = nxt s" "prv ?s = prv s" by (simp_all add: nxt_def prv_def fun_eq_iff split: rptr.splits)
  have l: "links ?s p js = links s p js" "unused_chain ?s p us = unused_chain s p us" for p js
    using links_cong [of p js ?s s] unused_cong [of us ?s s p] ring by simp_all
  show ?thesis using ok unfolding entry_free_def l by simp
qed

lemma buf_ok_heap: "buf_ok is us (s\<lparr>zvals := zs, objects := os\<rparr>) = buf_ok is us s"
proof -
  let ?s = "s\<lparr>zvals := zs, objects := os\<rparr>"
  have ring: "nxt ?s = nxt s" "prv ?s = prv s" by (simp_all add: nxt_def prv_def fun_eq_iff split: rptr.splits)
  have l: "links ?s p js = links s p js" "unused_chain ?s p us = unused_chain s p us" for p js
    using links_cong [of p js ?s s] unused_cong [of us ?s s p] ring by simp_all
  show ?thesis unfolding buf_ok_def l by simp
qed

text \<open>
  The calls that link the entry, in the memory \<open>zs\<close>, \<open>os\<close> in which the node is purple, and in \<open>zs'\<close>, \<open>os'\<close>, in which it has the address too.
\<close>

lemma link_entry:
  assumes free: "entry_free i is us s1" and f: "\<And>b. rb_next (f b) = rb_next b \<and> rb_prev (f b) = rb_prev b"
  obtains s3 s5 where "link_root i (s1\<lparr>zvals := zs, objects := os\<rparr>) = Some s3" and "zvals s3 = zs" and "objects s3 = os"
    and "rb_upd i f (s3\<lparr>zvals := zs', objects := os'\<rparr>) = Some s5" and "buf_ok (i # is) us s5" and "zvals s5 = zs'" and "objects s5 = os'"
    and "object_buckets s5 = object_buckets s1" and "rb_of s5 i = f (rb_of s3 i)"
    and "\<And>j. j \<noteq> i \<Longrightarrow> rb_handle (rb_of s5 j) = rb_handle (rb_of s1 j) \<and> rb_pz (rb_of s5 j) = rb_pz (rb_of s1 j)"
proof -
  let ?s2 = "s1\<lparr>zvals := zs, objects := os\<rparr>"
  obtain s3 where s3: "link_root i ?s2 = Some s3" "buf_ok (i # is) us s3" "same_heap ?s2 s3" "same_entries ?s2 s3"
    using link_root_ok [OF entry_free_heap [OF free]] .
  let ?s4 = "s3\<lparr>zvals := zs', objects := os'\<rparr>"
  have "buf_ok (i # is) us ?s4" using s3(2) buf_ok_heap by simp
  then obtain s5 where s5: "rb_upd i f ?s4 = Some s5" "buf_ok (i # is) us s5" "same_heap ?s4 s5" "rb_of s5 = (rb_of ?s4)(i := f (rb_of ?s4 i))"
    using rb_set_entry [of i "is" us ?s4 f] f by metis
  have r: "rb_of ?s4 = rb_of s3" "rb_of ?s2 = rb_of s1" by (simp_all add: rb_of_def fun_eq_iff)
  show ?thesis
    by (rule that [of s3 s5]) (use s3 s5 r same_heap_fields [OF s3(3)] same_heap_fields [OF s5(3)] in \<open>simp_all add: same_entries_def\<close>)
qed

lemma link_value:
  assumes z: "zvals s a = Some z" and free: "entry_free i is us' s1" and s1: "\<exists>u f. s1 = s\<lparr>unused := u, first_unused := f\<rparr>"
  obtains s' where "do {
      s \<leftarrow> zv_upd a (\<lambda>z. z\<lparr>z_color := GC_PURPLE\<rparr>) s1;
      s \<leftarrow> link_root i s;
      s \<leftarrow> zv_upd a (\<lambda>z. z\<lparr>z_addr := Root i\<rparr>) s;
      rb_upd i (\<lambda>b. b\<lparr>rb_handle := 0, rb_pz := a\<rparr>) s
    } = Some s'" and "buf_ok (i # is) us' s'" and "zvals s' = (zvals s)(a \<mapsto> z\<lparr>z_color := GC_PURPLE, z_addr := Root i\<rparr>)"
    and "objects s' = objects s" and "object_buckets s' = object_buckets s" and "rb_handle (rb_of s' i) = 0" and "rb_pz (rb_of s' i) = a"
    and "\<forall>j. j \<noteq> i \<longrightarrow> rb_handle (rb_of s' j) = rb_handle (rb_of s j) \<and> rb_pz (rb_of s' j) = rb_pz (rb_of s j)"
proof -
  let ?zs = "(zvals s)(a \<mapsto> z\<lparr>z_color := GC_PURPLE\<rparr>)" and ?zs' = "(zvals s)(a \<mapsto> z\<lparr>z_color := GC_PURPLE, z_addr := Root i\<rparr>)"
  have f1: "zvals s1 = zvals s" "objects s1 = objects s" "object_buckets s1 = object_buckets s" "rb_of s1 = rb_of s"
    using s1 by (auto simp: rb_of_def fun_eq_iff)
  obtain s3 s5 where l: "link_root i (s1\<lparr>zvals := ?zs, objects := objects s\<rparr>) = Some s3" "zvals s3 = ?zs" "objects s3 = objects s"
    "rb_upd i (\<lambda>b. b\<lparr>rb_handle := 0, rb_pz := a\<rparr>) (s3\<lparr>zvals := ?zs', objects := objects s\<rparr>) = Some s5" "buf_ok (i # is) us' s5"
    "zvals s5 = ?zs'" "objects s5 = objects s" "object_buckets s5 = object_buckets s1" "rb_of s5 i = (rb_of s3 i)\<lparr>rb_handle := 0, rb_pz := a\<rparr>"
    and rb: "\<And>j. j \<noteq> i \<Longrightarrow> rb_handle (rb_of s5 j) = rb_handle (rb_of s1 j) \<and> rb_pz (rb_of s5 j) = rb_pz (rb_of s1 j)"
    by (rule link_entry [OF free, where f = "\<lambda>b. b\<lparr>rb_handle := 0, rb_pz := a\<rparr>" and zs = ?zs and os = "objects s" and zs' = ?zs' and os' = "objects s"])
      (simp, blast)
  have e: "s1\<lparr>zvals := ?zs\<rparr> = s1\<lparr>zvals := ?zs, objects := objects s\<rparr>" "s3\<lparr>zvals := ?zs'\<rparr> = s3\<lparr>zvals := ?zs', objects := objects s\<rparr>"
    using f1(2) l(3) by simp_all
  have "zv_upd a (\<lambda>z. z\<lparr>z_color := GC_PURPLE\<rparr>) s1 = Some (s1\<lparr>zvals := ?zs\<rparr>)" using z f1 by (simp add: zv_upd_def)
  moreover have "zv_upd a (\<lambda>z. z\<lparr>z_addr := Root i\<rparr>) s3 = Some (s3\<lparr>zvals := ?zs'\<rparr>)" by (simp add: zv_upd_def l(2))
  ultimately have run: "do {
      s \<leftarrow> zv_upd a (\<lambda>z. z\<lparr>z_color := GC_PURPLE\<rparr>) s1;
      s \<leftarrow> link_root i s;
      s \<leftarrow> zv_upd a (\<lambda>z. z\<lparr>z_addr := Root i\<rparr>) s;
      rb_upd i (\<lambda>b. b\<lparr>rb_handle := 0, rb_pz := a\<rparr>) s
    } = Some s5" using l(1) [folded e(1)] l(4) [folded e(2)] by simp
  show ?thesis by (rule that [OF run l(5,6,7)]) (use l(8,9) rb f1 in simp_all)
qed

lemma buffer_value:
  assumes inv: "gc_inv is us s" and z: "zvals s a = Some z" "z_addr z = Null"
    and free: "entry_free i is us' s1" and s1: "\<exists>u f. s1 = s\<lparr>unused := u, first_unused := f\<rparr>"
  shows "\<exists>s'. do {
      s \<leftarrow> zv_upd a (\<lambda>z. z\<lparr>z_color := GC_PURPLE\<rparr>) s1;
      s \<leftarrow> link_root i s;
      s \<leftarrow> zv_upd a (\<lambda>z. z\<lparr>z_addr := Root i\<rparr>) s;
      rb_upd i (\<lambda>b. b\<lparr>rb_handle := 0, rb_pz := a\<rparr>) s
    } = Some s' \<and> gc_inv (i # is) us' s' \<and> same_shape s s' \<and> gcnt (view s') = gcnt (view s) \<and> root_node s' i = grefs s [a]"
proof -
  obtain s5 where run: "do {
      s \<leftarrow> zv_upd a (\<lambda>z. z\<lparr>z_color := GC_PURPLE\<rparr>) s1;
      s \<leftarrow> link_root i s;
      s \<leftarrow> zv_upd a (\<lambda>z. z\<lparr>z_addr := Root i\<rparr>) s;
      rb_upd i (\<lambda>b. b\<lparr>rb_handle := 0, rb_pz := a\<rparr>) s
    } = Some s5" and l: "buf_ok (i # is) us' s5" "zvals s5 = (zvals s)(a \<mapsto> z\<lparr>z_color := GC_PURPLE, z_addr := Root i\<rparr>)"
    "objects s5 = objects s" "object_buckets s5 = object_buckets s" "rb_handle (rb_of s5 i) = 0" "rb_pz (rb_of s5 i) = a"
    and rb: "\<forall>j. j \<noteq> i \<longrightarrow> rb_handle (rb_of s5 j) = rb_handle (rb_of s j) \<and> rb_pz (rb_of s5 j) = rb_pz (rb_of s j)"
    using link_value [OF z(1) free s1] .
  have shape: "same_shape s s5" using l(2,3,4) z(1) by (auto simp: same_shape_def ztype_def fun_eq_iff)
  have i: "i \<notin> set is" using free by (simp add: entry_free_def)
  have gn: "Zv a \<in> gnodes s \<longleftrightarrow> z_type z \<noteq> Symbol_table" using z(1) by (simp add: gnodes_def ztype_def)
  have cnt: "gcnt (view s5) = gcnt (view s)" using z(1)
    by (auto simp: view_def l(2,3) zcnt_def fun_eq_iff split: gnode.splits)
  have col: "gcol (view s5) m = (if m = Zv a \<and> Zv a \<in> gnodes s then GC_PURPLE else gcol (view s) m)" for m
    using z(1) by (cases m) (auto simp: gn view_node l(2,3) zcol_def)
  have addr: "naddr s5 = (naddr s)(Zv a := Some (Root i))" by (auto simp: naddr_def l(2,3) fun_eq_iff split: gnode.splits)
  have ty: "ztype s a = Some (z_type z)" using z(1) by (simp add: ztype_def)
  have node: "root_node s5 i = grefs s [a]" using l(5,6) shape_refs(2) [OF shape] by (simp add: root_node_def)
  moreover have "grefs s [a] = (if Zv a \<in> gnodes s then [Zv a] else [])" using ty gn by (simp add: grefs_single)
  moreover have "entry_ok s5 i" using l(5,6) shape_refs(3) [OF shape] ty by (simp add: entry_ok_def)
  moreover have "syms_ok s5" using inv z(1) by (auto simp: gc_inv_def syms_ok_def l(2) split: if_splits)
  moreover have "naddr s (Zv a) = Some Null" using z by (simp add: naddr_def)
  moreover have "rb_handle (rb_of s5 j) = rb_handle (rb_of s j) \<and> rb_pz (rb_of s5 j) = rb_pz (rb_of s j)" if "j \<in> set is" for j
    using rb that i by auto
  ultimately have "gc_inv (i # is) us' s5" using gc_inv_add [OF inv l(1) shape _ _ _ _ addr _ col] by simp
  then show ?thesis using run shape cnt node by blast
qed

lemma buffer_object:
  assumes inv: "gc_inv is us s" and ob: "objects s h = Some ob" "o_addr ob = Null" and h: "h \<noteq> 0" "object_buckets s"
    and free: "entry_free i is us' s1" and s1: "\<exists>u f. s1 = s\<lparr>unused := u, first_unused := f\<rparr>"
  shows "\<exists>s'. do {
      s \<leftarrow> ob_upd h (\<lambda>ob. ob\<lparr>o_color := GC_PURPLE\<rparr>) s1;
      s \<leftarrow> link_root i s;
      s \<leftarrow> ob_upd h (\<lambda>ob. ob\<lparr>o_addr := Root i\<rparr>) s;
      rb_upd i (\<lambda>b. b\<lparr>rb_handle := h\<rparr>) s
    } = Some s' \<and> gc_inv (i # is) us' s' \<and> same_shape s s' \<and> gcnt (view s') = gcnt (view s) \<and> root_node s' i = [Ob h]"
proof -
  let ?os = "(objects s)(h \<mapsto> ob\<lparr>o_color := GC_PURPLE\<rparr>)" and ?os' = "(objects s)(h \<mapsto> ob\<lparr>o_color := GC_PURPLE, o_addr := Root i\<rparr>)"
  have f1: "zvals s1 = zvals s" "objects s1 = objects s" "object_buckets s1 = object_buckets s" "rb_of s1 = rb_of s"
    using s1 by (auto simp: rb_of_def fun_eq_iff)
  obtain s3 s5 where l: "link_root i (s1\<lparr>zvals := zvals s, objects := ?os\<rparr>) = Some s3" "zvals s3 = zvals s" "objects s3 = ?os"
    "rb_upd i (\<lambda>b. b\<lparr>rb_handle := h\<rparr>) (s3\<lparr>zvals := zvals s, objects := ?os'\<rparr>) = Some s5" "buf_ok (i # is) us' s5"
    "zvals s5 = zvals s" "objects s5 = ?os'" "object_buckets s5 = object_buckets s1" "rb_of s5 i = (rb_of s3 i)\<lparr>rb_handle := h\<rparr>"
    and rb: "\<And>j. j \<noteq> i \<Longrightarrow> rb_handle (rb_of s5 j) = rb_handle (rb_of s1 j) \<and> rb_pz (rb_of s5 j) = rb_pz (rb_of s1 j)"
    by (rule link_entry [OF free, where f = "\<lambda>b. b\<lparr>rb_handle := h\<rparr>" and zs = "zvals s" and os = ?os and zs' = "zvals s" and os' = ?os'])
      (simp, blast)
  have e: "s1\<lparr>objects := ?os\<rparr> = s1\<lparr>zvals := zvals s, objects := ?os\<rparr>" "s3\<lparr>objects := ?os'\<rparr> = s3\<lparr>zvals := zvals s, objects := ?os'\<rparr>"
    using f1(1) l(2) by simp_all
  have "ob_upd h (\<lambda>ob. ob\<lparr>o_color := GC_PURPLE\<rparr>) s1 = Some (s1\<lparr>objects := ?os\<rparr>)" using ob(1) f1 by (simp add: ob_upd_def)
  moreover have "ob_upd h (\<lambda>ob. ob\<lparr>o_addr := Root i\<rparr>) s3 = Some (s3\<lparr>objects := ?os'\<rparr>)" by (simp add: ob_upd_def l(3))
  ultimately have run: "do {
      s \<leftarrow> ob_upd h (\<lambda>ob. ob\<lparr>o_color := GC_PURPLE\<rparr>) s1;
      s \<leftarrow> link_root i s;
      s \<leftarrow> ob_upd h (\<lambda>ob. ob\<lparr>o_addr := Root i\<rparr>) s;
      rb_upd i (\<lambda>b. b\<lparr>rb_handle := h\<rparr>) s
    } = Some s5" using l(1) [folded e(1)] l(4) [folded e(2)] by simp
  have shape: "same_shape s s5" using l(6,7,8) f1(3) ob(1) by (auto simp: same_shape_def ztype_def obj_shape_def fun_eq_iff)
  have i: "i \<notin> set is" using free by (simp add: entry_free_def)
  have gn: "Ob h \<in> gnodes s" using ob(1) by (simp add: gnodes_def orefs_def)
  have cnt: "gcnt (view s5) = gcnt (view s)" using ob(1)
    by (auto simp: view_def l(6,7) ocnt_def fun_eq_iff split: gnode.splits)
  have col: "gcol (view s5) m = (if m = Ob h \<and> Ob h \<in> gnodes s then GC_PURPLE else gcol (view s) m)" for m
    using ob(1) by (cases m) (auto simp: gn view_node l(6,7) ocol_def)
  have addr: "naddr s5 = (naddr s)(Ob h := Some (Root i))" by (auto simp: naddr_def l(6,7) fun_eq_iff split: gnode.splits)
  have node: "root_node s5 i = [Ob h]" using l(9) h shape_refs(4) [OF shape] by (simp add: root_node_def)
  moreover have "orefs s5 h \<noteq> None" by (simp add: orefs_def l(7))
  then have "entry_ok s5 i" using l(9) h(1) by (simp add: entry_ok_def)
  moreover have "syms_ok s5" using inv by (auto simp: gc_inv_def syms_ok_def l(6))
  moreover have "naddr s (Ob h) = Some Null" using ob by (simp add: naddr_def)
  moreover have "rb_handle (rb_of s5 j) = rb_handle (rb_of s j) \<and> rb_pz (rb_of s5 j) = rb_pz (rb_of s j)" if "j \<in> set is" for j
    using rb [of j] that i f1(4) by auto
  ultimately have "gc_inv (i # is) us' s5" using gc_inv_add [OF inv l(5) shape _ _ _ _ addr _ col] gn by simp
  then show ?thesis using run shape cnt node by blast
qed

subsection \<open>Possible roots\<close>

text \<open>What buffering a node amounts to.\<close>

definition buffered :: "gnode \<Rightarrow> nat list \<Rightarrow> gc \<Rightarrow> gc \<Rightarrow> bool" where
  "buffered n is s s' \<longleftrightarrow> (\<exists>is' us'. gc_inv is' us' s' \<and> set is \<subseteq> set is' \<and> same_shape s s' \<and> gcnt (view s') = gcnt (view s) \<and>
     (n \<in> gnodes s \<longrightarrow> n \<in> set (root_nodes s' is')))"

lemma purple_root: "gc_inv is us s \<Longrightarrow> gcol (view s) n = GC_PURPLE \<longleftrightarrow> n \<in> set (root_nodes s is)"
  by (simp add: gc_inv_def)

lemma buffered_already: "gc_inv is us s \<Longrightarrow> gcol (view s) n = GC_PURPLE \<or> n \<notin> gnodes s \<Longrightarrow> buffered n is s s"
  unfolding buffered_def using purple_root [of "is" us s n] same_shape_refl [of s] by blast

lemma bufferedI:
  assumes "gc_inv (i # is) us' s'" and "same_shape s s'" and "gcnt (view s') = gcnt (view s)" and "n \<in> gnodes s \<Longrightarrow> n \<in> set (root_node s' i)"
  shows "buffered n is s s'"
proof -
  have "n \<in> gnodes s \<longrightarrow> n \<in> set (root_nodes s' (i # is))" using assms(4) by simp
  moreover have "set is \<subseteq> set (i # is)" by auto
  ultimately show ?thesis unfolding buffered_def using assms(1-3) by blast
qed

lemma unbuffered: "gc_inv is us s \<Longrightarrow> n \<in> gnodes s \<Longrightarrow> gcol (view s) n \<noteq> GC_PURPLE \<Longrightarrow> naddr s n = Some Null"
  using purple_root [of "is" us s n] by (simp add: gc_inv_def roots_addr_def)

definition root_of :: "addr \<Rightarrow> zval_gc_info \<Rightarrow> gnode" where
  "root_of a z = (case z_type z of Object h \<Rightarrow> Ob h | _ \<Rightarrow> Zv a)"

text \<open>The value can be a root: it is not a scalar, and if it is an object, the object is live and can be traversed.\<close>

definition can_root :: "zval_gc_info \<Rightarrow> gc \<Rightarrow> bool" where
  "can_root z s \<longleftrightarrow>
     (case z_type z of
        Object h \<Rightarrow> h \<noteq> 0 \<and> object_buckets s \<and> (\<exists>ob. objects s h = Some ob \<and> o_valid ob \<and> o_get_gc ob)
      | _ \<Rightarrow> True)"

lemma not_being_freed:
  assumes "gc_inv is us s" and z: "zvals s a = Some z" and "z_type z \<noteq> Symbol_table"
  shows "\<not> being_freed z s"
proof -
  have g: "Zv a \<in> gnodes s" and n: "naddr s (Zv a) = Some (z_addr z)" using z assms(3) by (simp_all add: gnodes_def ztype_def naddr_def)
  have "\<exists>i. naddr s (Zv a) = Some (Root i)" if "Zv a \<in> set (root_nodes s is)"
    using assms(1) that by (auto simp: gc_inv_def roots_addr_def root_nodes_def)
  moreover have "naddr s (Zv a) = Some Null" if "Zv a \<notin> set (root_nodes s is)"
    using assms(1) that g by (simp add: gc_inv_def roots_addr_def)
  ultimately show ?thesis using n by (cases "Zv a \<in> set (root_nodes s is)") (auto simp: being_freed_def)
qed

lemma possible_root_value:
  assumes inv: "gc_inv is us s" and z: "zvals s a = Some z" "\<forall>h. z_type z \<noteq> Object h"
    and room: "us \<noteq> [] \<or> first_unused s \<noteq> last_unused s" and nf: "\<not> being_freed z s"
  shows "\<exists>s'. gc_zval_possible_root collect a s = Some s' \<and> buffered (Zv a) is s s'"
proof (cases "z_color z \<noteq> GC_PURPLE \<and> z_addr z = Null")
  case True
  have ok: "buf_ok is us s" using inv by (simp add: gc_inv_def)
  obtain i us' s1 where s1: "new_root (protected a collect) s = Some (Some i, s1)" "entry_free i is us' s1" "\<exists>u f. s1 = s\<lparr>unused := u, first_unused := f\<rparr>"
    using new_root_ok [OF ok room] .
  obtain s' where s': "do {
      s \<leftarrow> zv_upd a (\<lambda>z. z\<lparr>z_color := GC_PURPLE\<rparr>) s1;
      s \<leftarrow> link_root i s;
      s \<leftarrow> zv_upd a (\<lambda>z. z\<lparr>z_addr := Root i\<rparr>) s;
      rb_upd i (\<lambda>b. b\<lparr>rb_handle := 0, rb_pz := a\<rparr>) s
    } = Some s'" "gc_inv (i # is) us' s'" "same_shape s s'" "gcnt (view s') = gcnt (view s)" "root_node s' i = grefs s [a]"
    using buffer_value [OF inv z(1) _ s1(2,3)] True by blast
  have "gc_zval_possible_root collect a s = Some s'" using z nf True s1(1) s'(1)
    by (cases "z_type z") (simp_all add: gc_zval_possible_root_def)
  moreover have "buffered (Zv a) is s s'" by (rule bufferedI [OF s'(2-4)]) (auto simp: s'(5) grefs_single gnodes_def)
  ultimately show ?thesis by blast
next
  case False
  have "gc_zval_possible_root collect a s = Some s" using z nf False by (cases "z_type z") (auto simp: gc_zval_possible_root_def)
  moreover have "gcol (view s) (Zv a) = GC_PURPLE \<or> Zv a \<notin> gnodes s"
  proof (cases "Zv a \<in> gnodes s")
    case True
    then have "gcol (view s) (Zv a) = z_color z" "naddr s (Zv a) = Some (z_addr z)"
      using z(1) by (auto simp: gnodes_def ztype_def view_node zcol_def naddr_def)
    then show ?thesis using False unbuffered [OF inv True] by auto
  qed simp
  ultimately show ?thesis using buffered_already [OF inv] by blast
qed

lemma possible_root_object:
  assumes inv: "gc_inv is us s" and z: "zvals s a = Some z" "z_type z = Object h" and can: "can_root z s"
    and room: "us \<noteq> [] \<or> first_unused s \<noteq> last_unused s"
  shows "\<exists>s'. gc_zval_possible_root collect a s = Some s' \<and> buffered (Ob h) is s s'"
proof -
  obtain ob where ob: "objects s h = Some ob" "o_valid ob" "o_get_gc ob" and h: "h \<noteq> 0" "object_buckets s"
    using can z by (auto simp: can_root_def)
  have start: "gc_zval_possible_root collect a s = gc_zobj_possible_root collect a h s"
    using not_being_freed [OF inv z(1)] z ob h by (simp add: gc_zval_possible_root_def)
  show ?thesis
  proof (cases "o_color ob \<noteq> GC_PURPLE \<and> o_addr ob = Null")
    case True
    have ok: "buf_ok is us s" using inv by (simp add: gc_inv_def)
    obtain i us' s1 where s1: "new_root (protected a collect) s = Some (Some i, s1)" "entry_free i is us' s1" "\<exists>u f. s1 = s\<lparr>unused := u, first_unused := f\<rparr>"
      using new_root_ok [OF ok room] .
    obtain s' where s': "do {
        s \<leftarrow> ob_upd h (\<lambda>ob. ob\<lparr>o_color := GC_PURPLE\<rparr>) s1;
        s \<leftarrow> link_root i s;
        s \<leftarrow> ob_upd h (\<lambda>ob. ob\<lparr>o_addr := Root i\<rparr>) s;
        rb_upd i (\<lambda>b. b\<lparr>rb_handle := h\<rparr>) s
      } = Some s'" "gc_inv (i # is) us' s'" "same_shape s s'" "gcnt (view s') = gcnt (view s)" "root_node s' i = [Ob h]"
      using buffer_object [OF inv ob(1) _ h s1(2,3)] True by blast
    have "gc_zobj_possible_root collect a h s = Some s'" using ob h True s1(1) s'(1) by (simp add: gc_zobj_possible_root_def)
    moreover have "buffered (Ob h) is s s'" by (rule bufferedI [OF s'(2-4)]) (simp add: s'(5))
    ultimately show ?thesis using start by simp
  next
    case False
    have g: "Ob h \<in> gnodes s" "gcol (view s) (Ob h) = o_color ob" "naddr s (Ob h) = Some (o_addr ob)"
      using ob(1) by (simp_all add: gnodes_def orefs_def view_node ocol_def naddr_def)
    have "gc_zobj_possible_root collect a h s = Some s" using ob h False by (auto simp: gc_zobj_possible_root_def)
    moreover have "gcol (view s) (Ob h) = GC_PURPLE" using False g unbuffered [OF inv g(1)] by auto
    ultimately show ?thesis using start buffered_already [OF inv] by auto
  qed
qed



subsection \<open>Removal\<close>

lemma addr_entry:
  assumes inv: "gc_inv is us s" and n: "n \<in> gnodes s" "naddr s n = Some (Root i)"
  obtains ks rs where "is = ks @ i # rs" and "n \<in> set (root_node s i)"
proof -
  have "n \<in> set (root_nodes s is)" using inv n by (auto simp: gc_inv_def roots_addr_def)
  then obtain j where j: "j \<in> set is" "n \<in> set (root_node s j)" by (auto simp: root_nodes_def)
  then have "naddr s n = Some (Root j)" using inv by (simp add: gc_inv_def roots_addr_def)
  then have "j = i" using n(2) by simp
  then show ?thesis using j that split_list [of i "is"] by blast
qed

lemma gc_inv_remove:
  assumes inv: "gc_inv (ks @ i # rs) us s" and n: "n \<in> set (root_node s i)"
    and s1: "buf_ok (ks @ rs) (i # us) s1" "moved s s1" "naddr s1 = (naddr s)(n := Some Null)"
    and col: "\<And>m. gcol (view s1) m = (if m = n then GC_BLACK else gcol (view s) m)"
  shows "gc_inv (ks @ rs) (i # us) s1"
proof -
  note same = moved_nodes [OF s1(2)]
  have roots: "\<forall>j\<in>set (ks @ i # rs). \<forall>m\<in>set (root_node s j). naddr s m = Some (Root j)"
    and entries: "\<forall>j\<in>set (ks @ i # rs). entry_ok s j" and dist: "i \<notin> set (ks @ rs)"
    using inv by (simp_all add: gc_inv_def roots_addr_def buf_ok_def)
  have node: "root_node s i = [n]" using n by (auto simp: root_node_def Let_def grefs_single split: if_splits)
  have nr: "n \<notin> set (root_nodes s (ks @ rs))" using roots_addr_disjoint [of "ks @ rs" s i n] roots dist n by auto
  have "naddr s1 m = Some (Root j)" if "j \<in> set (ks @ rs)" "m \<in> set (root_node s j)" for j m
  proof -
    have "m \<noteq> n" using nr that by (auto simp: root_nodes_def)
    then show ?thesis using roots that by (auto simp: s1(3))
  qed
  moreover have "naddr s1 m = Some Null" if "m \<in> gnodes s" "m \<notin> set (root_nodes s (ks @ rs))" for m
    using that inv node by (auto simp: s1(3) gc_inv_def roots_addr_def)
  ultimately have "roots_addr s1 (ks @ rs)" unfolding roots_addr_def same by blast
  moreover have "gcol (view s1) m = (if m \<in> set (root_nodes s1 (ks @ rs)) then GC_PURPLE else GC_BLACK)" for m
    using inv node nr by (auto simp: col same gc_inv_def)
  moreover have "syms_ok s1" using inv s1(2) same_syms_ok unfolding gc_inv_def moved_def by blast
  ultimately show ?thesis using inv s1(1) entries by (simp add: gc_inv_def same)
qed

lemma gc_remove_zval_inv:
  assumes inv: "gc_inv is us s" and z: "zvals s a = Some z" "z_type z \<noteq> Symbol_table" "z_addr z = Root i"
  obtains ks rs s' where "is = ks @ i # rs" and "gc_remove_zval_from_buffer a s = Some s'" and "gc_inv (ks @ rs) (i # us) s'"
    and "same_shape s s'" and "gcnt (view s') = gcnt (view s)"
proof -
  have n: "Zv a \<in> gnodes s" "naddr s (Zv a) = Some (Root i)" using z by (simp_all add: gnodes_def ztype_def naddr_def)
  obtain ks rs where ks: "is = ks @ i # rs" "Zv a \<in> set (root_node s i)" using addr_entry [OF inv n] .
  have "buf_ok (ks @ i # rs) us s" using inv ks by (simp add: gc_inv_def)
  then obtain s1 where s1: "gc_remove_from_buffer i s = Some s1" "buf_ok (ks @ rs) (i # us) s1" "same_heap s s1" "same_entries s s1"
    by (rule gc_remove_from_buffer_ok)
  note same1 = same_heap_view [OF s1(3,4)] and f1 = same_heap_fields [OF s1(3)]
  let ?z = "z\<lparr>z_color := GC_BLACK, z_addr := Null\<rparr>"
  let ?s = "s1\<lparr>zvals := (zvals s)(a \<mapsto> ?z)\<rparr>"
  have run: "gc_remove_zval_from_buffer a s = Some ?s" using z s1(1) f1(1) by (simp add: gc_remove_zval_from_buffer_def zv_upd_def)
  have e: "?s = s1\<lparr>zvals := (zvals s)(a \<mapsto> ?z), objects := objects s1\<rparr>" by simp
  have buf: "buf_ok (ks @ rs) (i # us) ?s" using s1(2) buf_ok_heap e by metis
  have shape: "same_shape s ?s" using z f1 by (auto simp: same_shape_def ztype_def fun_eq_iff)
  have "same_syms s1 ?s" using z(1,2) f1(1) by (auto simp: same_syms_def)
  moreover have "same_shape s1 ?s" using z f1 by (auto simp: same_shape_def ztype_def fun_eq_iff)
  moreover have "same_entries s1 ?s" by (simp add: same_entries_def rb_of_def)
  moreover have "?s = s1\<lparr>zvals := (zvals s)(a \<mapsto> ?z), objects := objects s1, buf := buf s1, roots_next := roots_next s1,
      roots_prev := roots_prev s1, unused := unused s1, zval_to_free := zval_to_free s1\<rparr>" by simp
  ultimately have "moved s1 ?s" unfolding moved_def by blast
  then have m: "moved s ?s" using moved_trans [OF same1(3)] by blast
  have addr: "naddr ?s = (naddr s)(Zv a := Some Null)" using f1 by (auto simp: naddr_def fun_eq_iff split: gnode.splits)
  have col: "gcol (view ?s) m = (if m = Zv a then GC_BLACK else gcol (view s) m)" for m
    using f1 z by (cases m) (auto simp: view_node zcol_def)
  have "gcnt (view ?s) = gcnt (view s)" using f1 z by (auto simp: view_def zcnt_def fun_eq_iff split: gnode.splits)
  then show ?thesis using that [OF ks(1) run _ shape] gc_inv_remove [OF _ ks(2) buf m addr col] inv ks(1) by blast
qed

end
