(* ===== verification/Zend_List.thy ===== *)
theory Zend_List
  imports Zend_Hash_Iter
begin

text \<open>
  The model of \<open>Zend/zend_list.c\<close>, the lists of resources: \<open>regular_list\<close> maps the id of a resource of the request to its
  entry, \<open>persistent_list\<close> holds the resources that outlive requests, and \<open>list_destructors\<close> maps a resource type to its destructors.
  All three are hash tables of \<open>Zend_Hash\<close>.  An entry leaves a list through \<open>pDestructor\<close>, whose calls a table records in \<open>dtor_log\<close>;
  what a call does is \<open>list_entry_destructor\<close> or \<open>plist_entry_destructor\<close>.  Pointers to functions and to what a resource stands for are
  numbers, and \<open>int\<close> is as wide as the \<open>ulong\<close> of a key.
\<close>

subsection \<open>Data\<close>

record zend_rsrc_list_entry =
  le_ptr :: ptr
  le_type :: uint
  le_refcount :: uint

record zend_rsrc_list_dtors_entry =
  list_dtor :: ptr
  plist_dtor :: ptr
  list_dtor_ex :: ptr
  plist_dtor_ex :: ptr
  type_name :: "byte list option"
  module_number :: uint
  resource_id :: uint
  ld_type :: byte

type_synonym rsrc_list = "zend_rsrc_list_entry HashTable"
type_synonym rsrc_dtors = "zend_rsrc_list_dtors_entry HashTable"

definition ZEND_RESOURCE_LIST_TYPE_STD :: byte where "ZEND_RESOURCE_LIST_TYPE_STD = 1"
definition ZEND_RESOURCE_LIST_TYPE_EX :: byte where "ZEND_RESOURCE_LIST_TYPE_EX = 2"

text \<open>The sizes of the two structures on the target: 3 and 8 words.\<close>

definition sizeof_list_entry :: uint where "sizeof_list_entry = 12"
definition sizeof_dtors_entry :: uint where "sizeof_dtors_entry = 32"

subsection \<open>Resources of the request\<close>

definition zend_list_insert :: "ptr \<Rightarrow> uint \<Rightarrow> rsrc_list \<Rightarrow> (uint \<times> rsrc_list) option" where
  "zend_list_insert p t regular_list = do {
     let le = \<lparr>le_ptr = p, le_type = t, le_refcount = 1\<rparr>;
     let index = zend_hash_next_free_element regular_list;
     (regular_list, _) \<leftarrow> zend_hash_index_update_or_next_insert index le sizeof_list_entry HASH_UPDATE regular_list;
     Some (index, regular_list)
   }"

text \<open>
  The pointer that \<open>zend_hash_index_find\<close> stores through \<open>pData\<close>, as the address of the bucket that holds the entry.
\<close>

definition index_find_ptr :: "uint \<Rightarrow> 'd HashTable \<Rightarrow> ptr option" where
  "index_find_ptr h ht = do {
     slot \<leftarrow> slot_read ht (hash_index ht h);
     chain_find ht (index_match h) slot
   }"

definition le_write :: "addr \<Rightarrow> (zend_rsrc_list_entry \<Rightarrow> zend_rsrc_list_entry) \<Rightarrow> rsrc_list \<Rightarrow> rsrc_list option" where
  "le_write a f regular_list = ht_write regular_list a (\<lambda>b. b\<lparr>pData := f (pData b)\<rparr>)"

definition zend_list_delete :: "uint \<Rightarrow> rsrc_list \<Rightarrow> (rsrc_list \<times> status) option" where
  "zend_list_delete rid regular_list = do {
     q \<leftarrow> index_find_ptr rid regular_list;
     (case q of
        Some a \<Rightarrow> do {
          regular_list \<leftarrow> le_write a (\<lambda>le. le\<lparr>le_refcount := le_refcount le - 1\<rparr>) regular_list;
          b \<leftarrow> heap regular_list a;
          if sint (le_refcount (pData b)) \<le> 0
          then zend_hash_del_key_or_index NullStr 0 rid HASH_DEL_INDEX regular_list
          else Some (regular_list, SUCCESS)
        }
      | None \<Rightarrow> Some (regular_list, FAILURE))
   }"

definition zend_list_find :: "uint \<Rightarrow> rsrc_list \<Rightarrow> (ptr \<times> uint) option" where
  "zend_list_find rid regular_list = do {
     q \<leftarrow> zend_hash_index_find rid regular_list;
     Some (case q of Some le \<Rightarrow> (le_ptr le, le_type le) | None \<Rightarrow> (None, - 1))
   }"

definition zend_list_addref :: "uint \<Rightarrow> rsrc_list \<Rightarrow> (rsrc_list \<times> status) option" where
  "zend_list_addref rid regular_list = do {
     q \<leftarrow> index_find_ptr rid regular_list;
     (case q of
        Some a \<Rightarrow> do {
          regular_list \<leftarrow> le_write a (\<lambda>le. le\<lparr>le_refcount := le_refcount le + 1\<rparr>) regular_list;
          Some (regular_list, SUCCESS)
        }
      | None \<Rightarrow> Some (regular_list, FAILURE))
   }"

text \<open>A value as far as the lists see it: its type, and \<open>value.lval\<close>.\<close>

record rsrc_zval =
  rz_type :: byte
  rz_lval :: uint

definition IS_RESOURCE :: byte where "IS_RESOURCE = 7"

definition zend_register_resource ::
  "rsrc_zval option \<Rightarrow> ptr \<Rightarrow> uint \<Rightarrow> rsrc_list \<Rightarrow> (uint \<times> rsrc_zval option \<times> rsrc_list) option" where
  "zend_register_resource rsrc_result p t regular_list = do {
     (rsrc_id, regular_list) \<leftarrow> zend_list_insert p t regular_list;
     Some (rsrc_id, map_option (\<lambda>_. \<lparr>rz_type = IS_RESOURCE, rz_lval = rsrc_id\<rparr>) rsrc_result, regular_list)
   }"

text \<open>
  \<open>zend_fetch_resource\<close> returns the pointer, the value stored in \<open>*found_resource_type\<close> if any, and the warning raised.  Warnings are
  raised only when the caller named the resource type; \<open>resource_types\<close> are the variable arguments.
\<close>

datatype rsrc_warning = No_resource_supplied | Not_a_resource | Not_a_valid_id uint | Not_a_valid_resource

fun match_type :: "uint \<Rightarrow> uint list \<Rightarrow> bool" where
  "match_type actual [] \<longleftrightarrow> False"
| "match_type actual (t # ts) \<longleftrightarrow> (if actual = t then True else match_type actual ts)"

definition zend_fetch_resource ::
  "rsrc_zval option \<Rightarrow> uint \<Rightarrow> bool \<Rightarrow> uint list \<Rightarrow> rsrc_list \<Rightarrow> (ptr \<times> uint option \<times> rsrc_warning option) option" where
  "zend_fetch_resource passed_id default_id named resource_types regular_list = (
     let warn = (\<lambda>w. if named then Some w else None);
         fetch = (\<lambda>rid. do {
           (resource, actual_resource_type) \<leftarrow> zend_list_find rid regular_list;
           Some (
             if resource = None then (None, None, warn (Not_a_valid_id rid))
             else if match_type actual_resource_type resource_types then (resource, Some actual_resource_type, None)
             else (None, None, warn Not_a_valid_resource))
         })
     in if default_id = - 1 then
          (case passed_id of
             None \<Rightarrow> Some (None, None, warn No_resource_supplied)
           | Some z \<Rightarrow> if rz_type z \<noteq> IS_RESOURCE then Some (None, None, warn Not_a_resource) else fetch (rz_lval z))
        else fetch default_id)"

subsection \<open>Destruction of an entry\<close>

text \<open>
  What the destructor of a list does for one entry: a call of an old style destructor with the pointer, of a new style one with the
  entry, nothing, or the warning for an unknown type.  A value of \<open>ld->type\<close> other than the two constants is excluded by
  \<open>EMPTY_SWITCH_DEFAULT_CASE\<close>, which the compiler takes as unreachable.
\<close>

datatype dtor_action = Call_dtor addr ptr | Call_dtor_ex addr zend_rsrc_list_entry | No_dtor | Unknown_type uint

definition run_dtor :: "zend_rsrc_list_entry \<Rightarrow> byte \<Rightarrow> ptr \<Rightarrow> ptr \<Rightarrow> dtor_action option" where
  "run_dtor le t std ex =
     (if t = ZEND_RESOURCE_LIST_TYPE_STD then
        Some (case std of Some f \<Rightarrow> Call_dtor f (le_ptr le) | None \<Rightarrow> No_dtor)
      else if t = ZEND_RESOURCE_LIST_TYPE_EX then
        Some (case ex of Some f \<Rightarrow> Call_dtor_ex f le | None \<Rightarrow> No_dtor)
      else None)"

definition list_entry_destructor :: "rsrc_dtors \<Rightarrow> zend_rsrc_list_entry \<Rightarrow> dtor_action option" where
  "list_entry_destructor list_destructors le = do {
     q \<leftarrow> zend_hash_index_find (le_type le) list_destructors;
     (case q of
        Some ld \<Rightarrow> run_dtor le (ld_type ld) (list_dtor ld) (list_dtor_ex ld)
      | None \<Rightarrow> Some (Unknown_type (le_type le)))
   }"

definition plist_entry_destructor :: "rsrc_dtors \<Rightarrow> zend_rsrc_list_entry \<Rightarrow> dtor_action option" where
  "plist_entry_destructor list_destructors le = do {
     q \<leftarrow> zend_hash_index_find (le_type le) list_destructors;
     (case q of
        Some ld \<Rightarrow> run_dtor le (ld_type ld) (plist_dtor ld) (plist_dtor_ex ld)
      | None \<Rightarrow> Some (Unknown_type (le_type le)))
   }"

subsection \<open>The lists\<close>

definition zend_init_rsrc_list :: rsrc_list where
  "zend_init_rsrc_list = (zend_hash_init 0 True False)\<lparr>nNextFreeElement := 1\<rparr>"

definition zend_init_rsrc_plist :: rsrc_list where
  "zend_init_rsrc_plist = zend_hash_init_ex 0 True True False"

definition zend_destroy_rsrc_list :: "rsrc_list \<Rightarrow> rsrc_list option" where
  "zend_destroy_rsrc_list ht = zend_hash_graceful_reverse_destroy ht"

subsection \<open>Types and their destructors\<close>

definition zend_init_rsrc_list_dtors :: rsrc_dtors where
  "zend_init_rsrc_list_dtors = (zend_hash_init 50 False True)\<lparr>nNextFreeElement := 1\<rparr>"

definition zend_destroy_rsrc_list_dtors :: "rsrc_dtors \<Rightarrow> rsrc_dtors option" where
  "zend_destroy_rsrc_list_dtors list_destructors = zend_hash_destroy list_destructors"

text \<open>The result \<open>FAILURE\<close> of a registration is \<open>- 1\<close>, as for every function that returns \<open>int\<close>.\<close>

definition zend_register_list_destructors :: "ptr \<Rightarrow> ptr \<Rightarrow> uint \<Rightarrow> rsrc_dtors \<Rightarrow> (rsrc_dtors \<times> uint) option" where
  "zend_register_list_destructors ld pld module list_destructors = do {
     let lde = \<lparr>list_dtor = ld, plist_dtor = pld, list_dtor_ex = None, plist_dtor_ex = None, type_name = None,
       module_number = module, resource_id = nNextFreeElement list_destructors, ld_type = ZEND_RESOURCE_LIST_TYPE_STD\<rparr>;
     (list_destructors, st, _) \<leftarrow> zend_hash_index_update_or_next_insert 0 lde sizeof_dtors_entry HASH_NEXT_INSERT list_destructors;
     Some (list_destructors, if st = FAILURE then - 1 else nNextFreeElement list_destructors - 1)
   }"

definition zend_register_list_destructors_ex ::
  "ptr \<Rightarrow> ptr \<Rightarrow> byte list option \<Rightarrow> uint \<Rightarrow> rsrc_dtors \<Rightarrow> (rsrc_dtors \<times> uint) option" where
  "zend_register_list_destructors_ex ld pld name module list_destructors = do {
     let lde = \<lparr>list_dtor = None, plist_dtor = None, list_dtor_ex = ld, plist_dtor_ex = pld, type_name = name,
       module_number = module, resource_id = nNextFreeElement list_destructors, ld_type = ZEND_RESOURCE_LIST_TYPE_EX\<rparr>;
     (list_destructors, st, _) \<leftarrow> zend_hash_index_update_or_next_insert 0 lde sizeof_dtors_entry HASH_NEXT_INSERT list_destructors;
     Some (list_destructors, if st = FAILURE then - 1 else nNextFreeElement list_destructors - 1)
   }"

text \<open>
  The loop over the types, with a position of its own.  Names are C strings, here without the terminating 0, so \<open>strcmp\<close> returns 0 for
  equal lists.
\<close>

partial_function (option) dtor_id_loop :: "byte list \<Rightarrow> rsrc_dtors \<Rightarrow> pos_arg \<Rightarrow> uint option" where [code]:
  "dtor_id_loop name list_destructors pos = do {
     q \<leftarrow> zend_hash_get_current_data_ex list_destructors pos;
     (case q of
        Some lde \<Rightarrow>
          if type_name lde = Some name then Some (resource_id lde)
          else do {
            ((list_destructors, pos), _) \<leftarrow> zend_hash_move_forward_ex list_destructors pos;
            dtor_id_loop name list_destructors pos
          }
      | None \<Rightarrow> Some 0)
   }"

definition zend_fetch_list_dtor_id :: "byte list \<Rightarrow> rsrc_dtors \<Rightarrow> uint option" where
  "zend_fetch_list_dtor_id name list_destructors = (
     let (list_destructors, pos) = zend_hash_internal_pointer_reset_ex list_destructors (Some None)
     in dtor_id_loop name list_destructors pos)"

definition zend_rsrc_list_get_rsrc_type :: "uint \<Rightarrow> rsrc_list \<Rightarrow> rsrc_dtors \<Rightarrow> byte list option option" where
  "zend_rsrc_list_get_rsrc_type resource regular_list list_destructors = do {
     (p, rsrc_type) \<leftarrow> zend_list_find resource regular_list;
     if p = None then Some None
     else do {
       q \<leftarrow> zend_hash_index_find rsrc_type list_destructors;
       Some (case q of Some lde \<Rightarrow> type_name lde | None \<Rightarrow> None)
     }
   }"

subsection \<open>Unloading a module\<close>

text \<open>
  The callbacks return whether to remove the element.  The outer one runs a whole walk over the persistent list, so its state is the
  outcome of the walks so far.
\<close>

definition clean_module_resource :: "unit \<Rightarrow> zend_rsrc_list_entry \<Rightarrow> uint \<Rightarrow> unit \<times> zend_rsrc_list_entry \<times> uint" where
  "clean_module_resource u le rt = (u, le, if le_type le = rt then 1 else 0)"

definition clean_type :: "uint \<Rightarrow> rsrc_list \<Rightarrow> rsrc_list outcome option" where
  "clean_type rt persistent_list = do {
     out \<leftarrow> zend_hash_apply_with_argument clean_module_resource rt () persistent_list;
     Some (case out of Done (persistent_list, _) \<Rightarrow> Done persistent_list | Fatal \<Rightarrow> Fatal)
   }"

definition zend_clean_module_rsrc_dtors_cb ::
  "rsrc_list outcome option \<Rightarrow> zend_rsrc_list_dtors_entry \<Rightarrow> uint \<Rightarrow> rsrc_list outcome option \<times> zend_rsrc_list_dtors_entry \<times> uint" where
  "zend_clean_module_rsrc_dtors_cb cleaned ld module =
     (if module_number ld = module
      then (do { out \<leftarrow> cleaned; (case out of Done persistent_list \<Rightarrow> clean_type (resource_id ld) persistent_list | Fatal \<Rightarrow> Some Fatal) }, ld, 1)
      else (cleaned, ld, 0))"

definition zend_clean_module_rsrc_dtors :: "uint \<Rightarrow> rsrc_list \<Rightarrow> rsrc_dtors \<Rightarrow> (rsrc_dtors \<times> rsrc_list) outcome option" where
  "zend_clean_module_rsrc_dtors module persistent_list list_destructors = do {
     out \<leftarrow> zend_hash_apply_with_argument zend_clean_module_rsrc_dtors_cb module (Some (Done persistent_list)) list_destructors;
     (case out of
        Done (list_destructors, cleaned) \<Rightarrow> do {
          out \<leftarrow> cleaned;
          Some (case out of Done persistent_list \<Rightarrow> Done (list_destructors, persistent_list) | Fatal \<Rightarrow> Fatal)
        }
      | Fatal \<Rightarrow> Some Fatal)
   }"

end
