(* ===== verification/Zend_List_Spec.thy ===== *)
theory Zend_List_Spec
  imports Zend_List Zend_Hash_Iter_Spec
begin

text \<open>
  The lists of resources: ids are given out once, a resource lives as long as references to it, \<open>zend_fetch_resource\<close> returns only what was
  registered with a type the caller asked for, and unloading a module removes its types and their persistent resources.
\<close>

subsection \<open>Fields that insertion and deletion keep\<close>

definition kept :: "'d HashTable \<Rightarrow> ulong \<times> bool \<times> bool \<times> bool \<times> byte" where
  "kept ht = (nNextFreeElement ht, pDestructor ht, persistent ht, bApplyProtection ht, nApplyCount ht)"

lemma kept_upd [simp]:
  "kept (ht\<lparr>heap := hp\<rparr>) = kept ht" "kept (ht\<lparr>arBuckets := ar\<rparr>) = kept ht" "kept (ht\<lparr>pListHead := p\<rparr>) = kept ht"
  "kept (ht\<lparr>pListTail := p\<rparr>) = kept ht" "kept (ht\<lparr>pInternalPointer := p\<rparr>) = kept ht" "kept (ht\<lparr>brk := a\<rparr>) = kept ht"
  "kept (ht\<lparr>nNumOfElements := n\<rparr>) = kept ht" "kept (ht\<lparr>nTableSize := n\<rparr>) = kept ht" "kept (ht\<lparr>nTableMask := n\<rparr>) = kept ht"
  "kept (ht\<lparr>dtor_log := l\<rparr>) = kept ht" "kept (ht\<lparr>nNextFreeElement := n\<rparr>) = (n, snd (kept ht))"
  by (simp_all add: kept_def)

lemma keptD: "kept ht' = kept ht \<Longrightarrow> nNextFreeElement ht' = nNextFreeElement ht"
  by (simp add: kept_def)

lemma ht_write_kept: "ht_write ht a f = Some ht' \<Longrightarrow> kept ht' = kept ht"
  by (auto simp: ht_write_def split: option.splits)

lemma slot_write_kept: "slot_write ht i p = Some ht' \<Longrightarrow> kept ht' = kept ht"
  by (auto simp: slot_write_def split: if_splits)

lemma connect_bucket_kept: "CONNECT_TO_BUCKET_DLLIST el p ht = Some ht' \<Longrightarrow> kept ht' = kept ht"
  by (auto simp: CONNECT_TO_BUCKET_DLLIST_def bind_eq_Some_conv split: option.splits dest!: ht_write_kept)

lemma connect_global_kept: "CONNECT_TO_GLOBAL_DLLIST el ht = Some ht' \<Longrightarrow> kept ht' = kept ht"
  by (auto simp: CONNECT_TO_GLOBAL_DLLIST_def CONNECT_TO_GLOBAL_DLLIST_EX_def bind_eq_Some_conv
      split: option.splits if_splits dest!: ht_write_kept)

lemma rehash_loop_kept:
  assumes "rehash_loop ht p = Some ht'"
  shows "kept ht' = kept ht"
proof (rule rehash_loop.raw_induct [OF _ assms])
  fix loop and ht :: "'a HashTable" and p ht'
  assume ih: "\<And>ht p ht'. loop ht p = Some ht' \<Longrightarrow> kept ht' = kept ht"
    and body: "(case p of None \<Rightarrow> Some ht
      | Some a \<Rightarrow> do {
          b \<leftarrow> heap ht a;
          slot \<leftarrow> slot_read ht (hash_index ht (b_h b));
          ht \<leftarrow> CONNECT_TO_BUCKET_DLLIST a slot ht;
          ht \<leftarrow> slot_write ht (hash_index ht (b_h b)) (Some a);
          b \<leftarrow> heap ht a;
          loop ht (pListNext b)
        }) = Some ht'"
  show "kept ht' = kept ht"
    using body by (auto simp: bind_eq_Some_conv split: option.splits dest!: ih connect_bucket_kept slot_write_kept)
qed

lemma resize_kept: "ZEND_HASH_IF_FULL_DO_RESIZE ht = Some ht' \<Longrightarrow> kept ht' = kept ht"
  by (auto simp: ZEND_HASH_IF_FULL_DO_RESIZE_def zend_hash_do_resize_def zend_hash_rehash_def Let_def
      split: if_splits dest!: rehash_loop_kept)

lemma CHECK_INIT_kept [simp]: "kept (CHECK_INIT ht) = kept ht" "nNextFreeElement (CHECK_INIT ht) = nNextFreeElement ht"
  by (simp_all add: CHECK_INIT_def)

lemma bump_kept: "kept h1 = kept h2 \<Longrightarrow> kept (bump_next_free h h1) = kept (bump_next_free h h2)"
  by (auto simp: bump_next_free_def kept_def)

lemma update_found_kept: "update_found a d sz ht = Some (ht', r) \<Longrightarrow> kept ht' = kept ht"
  by (auto simp: update_found_def UPDATE_DATA_def bind_eq_Some_conv call_pDestructor_def split: if_splits dest!: ht_write_kept)

lemma index_insert_kept:
  assumes "zend_hash_index_update_or_next_insert h d sz flag ht = Some (ht', st, dest)"
  shows "kept ht' = kept ht \<or>
    kept ht' = kept (bump_next_free (index_of_flag flag h ht) ht)"
  using assms
  by (auto simp: zend_hash_index_update_or_next_insert_def Let_def bind_eq_Some_conv pemalloc_bucket_def index_of_flag_def
      simp del: not_None_eq split: option.splits if_splits
      dest!: update_found_kept connect_bucket_kept connect_global_kept slot_write_kept resize_kept intro: bump_kept)

lemma link_kept:
  "(case p of Some l \<Rightarrow> ht_write ht l f | None \<Rightarrow> slot_write ht i q) = Some ht' \<Longrightarrow> kept ht' = kept ht"
  "(case p of Some l \<Rightarrow> ht_write ht l f | None \<Rightarrow> Some ht) = Some ht' \<Longrightarrow> kept ht' = kept ht"
  "(case p of Some l \<Rightarrow> ht_write ht l f | None \<Rightarrow> Some (ht\<lparr>pListHead := q\<rparr>)) = Some ht' \<Longrightarrow> kept ht' = kept ht"
  "(case p of Some l \<Rightarrow> ht_write ht l f | None \<Rightarrow> Some (ht\<lparr>pListTail := q\<rparr>)) = Some ht' \<Longrightarrow> kept ht' = kept ht"
  by (auto split: option.splits dest: ht_write_kept slot_write_kept)

lemma free_kept [simp]: "kept (call_pDestructor ht d) = kept ht" "kept (pefree_bucket ht a) = kept ht"
  by (simp_all add: call_pDestructor_def pefree_bucket_def)

lemma bucket_delete_kept: "i_zend_hash_bucket_delete a ht = Some ht' \<Longrightarrow> kept ht' = kept ht"
  unfolding i_zend_hash_bucket_delete_def Let_def bind_eq_Some_conv
  by (elim exE conjE, drule link_kept(1), drule link_kept(2), drule link_kept(3), drule link_kept(4)) auto

lemma index_delete_kept:
  "zend_hash_del_key_or_index key len h flag ht = Some (ht', st) \<Longrightarrow> kept ht' = kept ht"
  by (auto simp: zend_hash_del_key_or_index_def bind_eq_Some_conv Let_def split: option.splits dest!: bucket_delete_kept)

lemma nonneg_less:
  assumes "0 \<le> sint (x :: uint)" and "x \<noteq> LONG_MAX"
  shows "x < LONG_MAX"
proof -
  have "sint x < 2 ^ 31" using sint_lt [of x] by simp
  then have "uint x = sint x" using assms(1) uint_sint [of x] by (simp add: take_bit_int_eq_self_iff)
  then have "uint x < 2 ^ 31" "uint x \<noteq> 2 ^ 31 - 1" using \<open>sint x < 2 ^ 31\<close> assms(2) by (auto simp: LONG_MAX_def word_uint_eq_iff)
  then show ?thesis by (simp add: LONG_MAX_def word_less_def)
qed

lemma next_free_fresh:
  assumes "hash_refines ht al" and "nNextFreeElement ht \<noteq> LONG_MAX"
  shows "KInt (nNextFreeElement ht) \<notin> fst ` set al"
  using assms hash_invD(11) by (fastforce simp: next_free_ok_def elim: hash_refinesE)

lemma index_insert_fresh:
  assumes r: "hash_refines ht al" and n: "nNextFreeElement ht \<noteq> LONG_MAX" and len: "length al < 2 ^ 32 - 1"
    and h: "index_of_flag flag h ht = nNextFreeElement ht"
  obtains ht' dest where "zend_hash_index_update_or_next_insert h d sz flag ht = Some (ht', SUCCESS, dest)"
    and "hash_refines ht' (al @ [(KInt (nNextFreeElement ht), d)])" and "nNextFreeElement ht' = nNextFreeElement ht + 1"
    and "same_flags ht ht'" and "dtor_log ht' = dtor_log ht"
proof -
  let ?n = "nNextFreeElement ht"
  obtain xs where xs: "hash_inv ht xs" "clean_keys ht" "entries ht xs = al" "length al = length xs"
    using r by (rule hash_refinesE)
  note fresh = next_free_fresh [OF r n]
  obtain ht' st dest where e: "zend_hash_index_update_or_next_insert h d sz flag ht = Some (ht', st, dest)"
    and a: "add_result (flag AND HASH_NEXT_INSERT \<noteq> 0 \<or> flag AND HASH_ADD \<noteq> 0) (KInt ?n) d al ht (ht', st, dest)"
    using index_add_ok [OF xs(1,2), of h d sz flag] len xs h by auto
  have post: "st = SUCCESS" "hash_refines ht' (al @ [(KInt ?n, d)])" "pDestructor ht' = pDestructor ht" "dtor_log ht' = dtor_log ht"
    using a fresh map_of_eq_None_iff [of al "KInt ?n"] by (auto simp: add_result_def AList_update_new)
  have "0 \<le> sint ?n" using hash_invD(11) [OF xs(1)] by (simp add: next_free_ok_def)
  then have less: "?n < LONG_MAX" using n by (rule nonneg_less)
  have "nNextFreeElement ht' \<noteq> ?n"
    using next_free_fresh [OF post(2)] n by auto
  then have "nNextFreeElement ht' = ?n + 1"
    using index_insert_kept [OF e] less by (auto simp: kept_def bump_next_free_def h)
  moreover have "same_flags ht ht'" using index_insert_kept [OF e] by (auto simp: kept_def same_flags_def bump_next_free_def split: if_splits)
  ultimately show thesis using that e post by blast
qed

subsection \<open>Writing through the pointer to an entry\<close>

lemma index_find_ptr_ok:
  assumes "hash_inv ht xs"
  shows "index_find_ptr h ht = Some (key_addr ht xs (KInt h))"
  using index_lookup [OF assms] slot_read_ok [OF hash_invD(1) [OF assms]] by (simp add: index_find_ptr_def)

lemma index_find_ptr_None:
  assumes "hash_refines ht al" and "map_of al (KInt h) = None"
  shows "index_find_ptr h ht = Some None"
proof -
  obtain xs where "hash_inv ht xs" "entries ht xs = al" using assms(1) by (rule hash_refinesE)
  with assms(2) index_find_ptr_ok [of ht xs h] map_of_entries [of ht xs "KInt h"] show ?thesis by simp
qed

lemma le_write_ok:
  assumes "hash_refines ht al" and le: "map_of al (KInt h) = Some le"
  obtains a ht' b where "index_find_ptr h ht = Some (Some a)" and "le_write a f ht = Some ht'"
    and "heap ht' a = Some b" and "pData b = f le" and "hash_refines ht' (AList.update (KInt h) (f le) al)"
    and "nNextFreeElement ht' = nNextFreeElement ht" and "pDestructor ht' = pDestructor ht" and "dtor_log ht' = dtor_log ht"
proof -
  obtain xs where xs: "hash_inv ht xs" "clean_keys ht" "entries ht xs = al" using assms(1) by (rule hash_refinesE)
  obtain a where k: "key_addr ht xs (KInt h) = Some a" and d: "pData (the (heap ht a)) = le"
    using le unfolding xs(3) [symmetric] map_of_entries by auto
  obtain b where b: "heap ht a = Some b" using hash_invD(5) [OF xs(1)] key_addr_SomeD [OF k] by blast
  let ?ht = "ht\<lparr>dtor_log := dtor_log ht, heap := (heap ht)(a \<mapsto> b\<lparr>pData := f le, pDataInline := pDataInline b\<rparr>)\<rparr>"
  note a = key_addr_SomeD [OF k]
  have "hash_refines ?ht (AList.update (KInt h) (f le) al)"
    using set_data_inv [OF xs(1,2) conjunct1 [OF a] b refl, where l = "dtor_log ht" and d = "f le" and il = "pDataInline b"] a b xs(3)
    unfolding hash_refines_def by auto
  moreover have "le_write a f ht = Some ?ht" using b d by (simp add: le_write_def ht_write_def)
  ultimately show thesis using that [of a ?ht] index_find_ptr_ok [OF xs(1), of h] k by simp
qed

subsection \<open>The registry\<close>

text \<open>
  A registry lists every resource ever registered: its pointer, its type, and how many references to it are held, 0 once it is
  destroyed.  The id of a resource is its position, from 1.
\<close>

type_synonym rsrc = "ptr \<times> uint \<times> nat"

primrec rsrc_entry :: "rsrc \<Rightarrow> zend_rsrc_list_entry" where
  "rsrc_entry (p, tn) = \<lparr>le_ptr = p, le_type = fst tn, le_refcount = of_nat (snd tn)\<rparr>"

definition rsrc_count :: "rsrc \<Rightarrow> nat" where
  "rsrc_count r = snd (snd r)"

lemma rsrc_entry_fields [simp]: "le_ptr (rsrc_entry r) = fst r" "le_type (rsrc_entry r) = fst (snd r)"
  by (cases r, simp)+

definition recount :: "rsrc \<Rightarrow> nat \<Rightarrow> rsrc" where
  "recount r n = (fst r, fst (snd r), n)"

lemma rsrc_count_recount [simp]: "rsrc_count (recount r n) = n" "recount (recount r m) n = recount r n"
  by (simp_all add: rsrc_count_def recount_def)

primrec live_from :: "nat \<Rightarrow> rsrc list \<Rightarrow> (hkey \<times> zend_rsrc_list_entry) list" where
  "live_from i [] = []"
| "live_from i (r # rs) = (if rsrc_count r = 0 then [] else [(KInt (of_nat i), rsrc_entry r)]) @ live_from (Suc i) rs"

lemma live_from_append [simp]: "live_from i (rs @ qs) = live_from i rs @ live_from (i + length rs) qs"
  by (induction rs arbitrary: i) simp_all

lemma length_live_from: "length (live_from i rs) \<le> length rs"
  by (induction rs arbitrary: i) (auto simp: le_SucI)

lemma sint_of_nat_small:
  assumes "n < 2 ^ 31"
  shows "sint (of_nat n :: uint) = int n"
proof -
  have "uint (of_nat n :: uint) = int n" using assms by (simp add: unsigned_of_nat take_bit_nat_eq_self)
  with assms show ?thesis by (simp add: sint_small)
qed

lemma of_nat_eq_uint: "i < 2 ^ 32 \<Longrightarrow> j < 2 ^ 32 \<Longrightarrow> (of_nat i :: uint) = of_nat j \<longleftrightarrow> i = j"
  by (simp add: word_unat_eq_iff unat_of_nat)

lemma live_from_keys:
  "k \<in> fst ` set (live_from i rs) \<longleftrightarrow> (\<exists>j < length rs. k = KInt (of_nat (i + j)) \<and> rsrc_count (rs ! j) \<noteq> 0)"
proof (induction rs arbitrary: i)
  case (Cons r rs)
  have "(\<exists>j < length (r # rs). k = KInt (of_nat (i + j)) \<and> rsrc_count ((r # rs) ! j) \<noteq> 0) \<longleftrightarrow>
    k = KInt (of_nat i) \<and> rsrc_count r \<noteq> 0 \<or> (\<exists>j < length rs. k = KInt (of_nat (Suc i + j)) \<and> rsrc_count (rs ! j) \<noteq> 0)"
    by (simp add: Ex_less_Suc2 del: of_nat_Suc of_nat_add)
  with Cons.IH [of "Suc i"] show ?case by auto
qed simp

lemma live_from_below: "i + length rs < 2 ^ 32 \<Longrightarrow> j < i \<Longrightarrow> KInt (of_nat j) \<notin> fst ` set (live_from i rs)"
  unfolding live_from_keys by (auto simp del: of_nat_add simp: of_nat_eq_uint)

lemma map_of_live_from:
  "i + length rs < 2 ^ 32 \<Longrightarrow> j < length rs \<Longrightarrow>
    map_of (live_from i rs) (KInt (of_nat (i + j))) = (if rsrc_count (rs ! j) = 0 then None else Some (rsrc_entry (rs ! j)))"
proof (induction rs arbitrary: i j)
  case (Cons r rs)
  show ?case
  proof (cases j)
    case 0
    then show ?thesis using live_from_below [of "Suc i" rs i] Cons.prems(1) by (simp add: map_of_eq_None_iff del: of_nat_Suc)
  next
    case (Suc j')
    then have "(of_nat (i + j) :: uint) \<noteq> of_nat i" using Cons.prems by (subst of_nat_eq_uint) auto
    then show ?thesis using Suc Cons.IH [of "Suc i" j'] Cons.prems by (simp del: of_nat_Suc of_nat_add)
  qed
qed simp

lemma live_from_update:
  assumes "i + length rs < 2 ^ 32" and "j < length rs" and "rsrc_count (rs ! j) \<noteq> 0" and "rsrc_count r' \<noteq> 0"
  shows "AList.update (KInt (of_nat (i + j))) (rsrc_entry r') (live_from i rs) = live_from i (rs[j := r'])"
  using assms
proof (induction rs arbitrary: i j)
  case (Cons r rs)
  show ?case
  proof (cases j)
    case (Suc j')
    then have "(of_nat (i + j) :: uint) \<noteq> of_nat i" using Cons.prems by (subst of_nat_eq_uint) auto
    then show ?thesis using Suc Cons.IH [of "Suc i" j'] Cons.prems by (simp del: of_nat_Suc of_nat_add)
  qed (use Cons.prems in simp)
qed simp

lemma live_from_delete:
  assumes "i + length rs < 2 ^ 32" and "j < length rs" and "rsrc_count r' = 0"
  shows "AList.delete (KInt (of_nat (i + j))) (live_from i rs) = live_from i (rs[j := r'])"
  using assms
proof (induction rs arbitrary: i j)
  case (Cons r rs)
  show ?case
  proof (cases j)
    case 0
    then show ?thesis using live_from_below [of "Suc i" rs i] Cons.prems by (simp add: delete_id del: of_nat_Suc)
  next
    case (Suc j')
    then have "(of_nat (i + j) :: uint) \<noteq> of_nat i" using Cons.prems by (subst of_nat_eq_uint) auto
    then show ?thesis using Suc Cons.IH [of "Suc i" j'] Cons.prems by (simp del: of_nat_Suc of_nat_add)
  qed
qed simp

subsection \<open>What clients do\<close>

text \<open>
  The operations on the registry, written for resources: the position of a live resource, a new reference, and the loss of one,
  after which the resource may be destroyed.
\<close>

datatype rsrc_op = Register ptr uint | Addref uint | Delete uint

definition rsrc_at :: "uint \<Rightarrow> rsrc list \<Rightarrow> nat option" where
  "rsrc_at rid rs = (if 0 < unat rid \<and> unat rid \<le> length rs \<and> rsrc_count (rs ! (unat rid - 1)) \<noteq> 0 then Some (unat rid - 1) else None)"

primrec reg_step :: "rsrc_op \<Rightarrow> rsrc list \<times> rsrc list \<Rightarrow> rsrc list \<times> rsrc list" where
  "reg_step (Register p t) s = (fst s @ [(p, t, 1)], snd s)"
| "reg_step (Addref rid) s = (case rsrc_at rid (fst s) of
     Some j \<Rightarrow> ((fst s)[j := recount (fst s ! j) (rsrc_count (fst s ! j) + 1)], snd s)
   | None \<Rightarrow> s)"
| "reg_step (Delete rid) s = (case rsrc_at rid (fst s) of
     Some j \<Rightarrow> (let r = recount (fst s ! j) (rsrc_count (fst s ! j) - 1)
               in ((fst s)[j := r], if rsrc_count r = 0 then snd s @ [r] else snd s))
   | None \<Rightarrow> s)"

text \<open>The same operations on the list of the engine.\<close>

primrec list_step :: "rsrc_op \<Rightarrow> rsrc_list \<Rightarrow> rsrc_list option" where
  "list_step (Register p t) ht = map_option snd (zend_list_insert p t ht)"
| "list_step (Addref rid) ht = map_option fst (zend_list_addref rid ht)"
| "list_step (Delete rid) ht = map_option fst (zend_list_delete rid ht)"

primrec list_run :: "rsrc_op list \<Rightarrow> rsrc_list \<Rightarrow> rsrc_list option" where
  "list_run [] ht = Some ht"
| "list_run (x # xs) ht = Option.bind (list_step x ht) (list_run xs)"

definition reg_run :: "rsrc_op list \<Rightarrow> rsrc list \<times> rsrc list \<Rightarrow> rsrc list \<times> rsrc list" where
  "reg_run xs s = fold reg_step xs s"

definition list_holds :: "rsrc_list \<Rightarrow> rsrc list \<times> rsrc list \<Rightarrow> bool" where
  "list_holds ht s \<longleftrightarrow> hash_refines ht (live_from 1 (fst s)) \<and> nNextFreeElement ht = of_nat (Suc (length (fst s))) \<and>
     pDestructor ht \<and> dtor_log ht = map rsrc_entry (snd s)"

definition reg_small :: "nat \<Rightarrow> rsrc list \<times> rsrc list \<Rightarrow> bool" where
  "reg_small n s \<longleftrightarrow> length (fst s) \<le> n \<and> (\<forall>r\<in>set (fst s). rsrc_count r \<le> Suc n)"

lemma init_refines: "hash_refines (ht :: 'd HashTable) [] \<Longrightarrow> hash_refines (ht\<lparr>nNextFreeElement := 1\<rparr>) []"
  by (auto simp: hash_refines_def hash_inv_def table_ok_def clean_keys_def entries_def next_free_ok_def)

lemma init_holds_list: "list_holds zend_init_rsrc_list ([], [])"
proof -
  have "hash_refines zend_init_rsrc_list []" unfolding zend_init_rsrc_list_def by (rule init_refines [OF zend_hash_init_ok])
  then show ?thesis by (simp add: list_holds_def zend_init_rsrc_list_def zend_hash_init_def)
qed

lemma live_at:
  assumes "length rs < 2 ^ 31"
  shows "map_of (live_from 1 rs) (KInt rid) = (case rsrc_at rid rs of Some j \<Rightarrow> Some (rsrc_entry (rs ! j)) | None \<Rightarrow> None)"
proof (cases "0 < unat rid \<and> unat rid \<le> length rs")
  case True
  then have "rid = of_nat (1 + (unat rid - 1))" by simp
  with map_of_live_from [of 1 rs "unat rid - 1"] True assms show ?thesis by (auto simp: rsrc_at_def)
next
  case False
  have "KInt rid \<notin> fst ` set (live_from 1 rs)"
  proof
    assume "KInt rid \<in> fst ` set (live_from 1 rs)"
    then obtain j where j: "j < length rs" "rid = of_nat (1 + j)" unfolding live_from_keys by auto
    then have "unat rid = 1 + j" using assms unfolding j(2) unat_of_nat by simp
    with j(1) False show False by simp
  qed
  then show ?thesis using False by (auto simp: rsrc_at_def map_of_eq_None_iff)
qed

lemma rsrc_at_SomeD: "rsrc_at rid rs = Some j \<Longrightarrow> j < length rs \<and> rsrc_count (rs ! j) \<noteq> 0 \<and> KInt rid = KInt (of_nat (1 + j))"
  by (auto simp: rsrc_at_def split: if_splits)

lemma insert_holds:
  assumes h: "list_holds ht s" and n: "length (fst s) < 2 ^ 31 - 2"
  shows "\<exists>ht'. zend_list_insert p t ht = Some (of_nat (Suc (length (fst s))), ht') \<and> list_holds ht' (reg_step (Register p t) s)"
proof -
  let ?al = "live_from 1 (fst s)"
  have r: "hash_refines ht ?al" and nf: "nNextFreeElement ht = of_nat (Suc (length (fst s)))" and d: "pDestructor ht" "dtor_log ht = map rsrc_entry (snd s)"
    using h by (auto simp: list_holds_def)
  have "(of_nat (Suc (length (fst s))) :: uint) \<noteq> of_nat (2 ^ 31 - 1)" using n by (subst of_nat_eq_uint) auto
  then have "nNextFreeElement ht \<noteq> LONG_MAX" using nf by (simp add: LONG_MAX_def)
  moreover have "length ?al < 2 ^ 32 - 1" using length_live_from [of 1 "fst s"] n by simp
  moreover have "index_of_flag HASH_UPDATE (nNextFreeElement ht) ht = nNextFreeElement ht" by (simp add: index_of_flag_def)
  ultimately obtain ht' dest where i: "zend_hash_index_update_or_next_insert (nNextFreeElement ht) (rsrc_entry (p, t, 1)) sizeof_list_entry HASH_UPDATE ht =
      Some (ht', SUCCESS, dest)" "hash_refines ht' (?al @ [(KInt (nNextFreeElement ht), rsrc_entry (p, t, 1))])"
      "nNextFreeElement ht' = nNextFreeElement ht + 1" "same_flags ht ht'" "dtor_log ht' = dtor_log ht"
    using index_insert_fresh [OF r] by blast
  have "?al @ [(KInt (nNextFreeElement ht), rsrc_entry (p, t, 1))] = live_from 1 (fst s @ [(p, t, 1)])"
    by (simp add: nf rsrc_count_def)
  then show ?thesis using i d nf
    by (auto simp: list_holds_def zend_list_insert_def zend_hash_next_free_element_def add.commute same_flags_def)
qed

lemma addref_holds:
  assumes h: "list_holds ht s" and n: "length (fst s) < 2 ^ 31"
  shows "\<exists>ht'. zend_list_addref rid ht = Some (ht', if rsrc_at rid (fst s) = None then FAILURE else SUCCESS) \<and>
    list_holds ht' (reg_step (Addref rid) s)"
proof -
  let ?al = "live_from 1 (fst s)"
  have r: "hash_refines ht ?al" using h by (simp add: list_holds_def)
  show ?thesis
  proof (cases "rsrc_at rid (fst s)")
    case None
    then have "index_find_ptr rid ht = Some None" using index_find_ptr_None [OF r, of rid] live_at [OF n, of rid] by simp
    then show ?thesis using None h by (simp add: zend_list_addref_def)
  next
    case (Some j)
    note j = rsrc_at_SomeD [OF Some]
    have m: "map_of ?al (KInt rid) = Some (rsrc_entry (fst s ! j))" using live_at [OF n, of rid] Some by simp
    let ?r = "fst s ! j" and ?f = "\<lambda>le. le\<lparr>le_refcount := le_refcount le + 1\<rparr>"
    obtain a ht' b where w: "index_find_ptr rid ht = Some (Some a)" "le_write a ?f ht = Some ht'"
      "hash_refines ht' (AList.update (KInt rid) (?f (rsrc_entry ?r)) ?al)"
      "nNextFreeElement ht' = nNextFreeElement ht" "pDestructor ht' = pDestructor ht" "dtor_log ht' = dtor_log ht"
      by (rule le_write_ok [OF r m])
    have "?f (rsrc_entry ?r) = rsrc_entry (recount ?r (rsrc_count ?r + 1))" by (cases ?r) (simp add: recount_def rsrc_count_def add.commute)
    then have "AList.update (KInt rid) (?f (rsrc_entry ?r)) ?al = live_from 1 ((fst s)[j := recount ?r (rsrc_count ?r + 1)])"
      using live_from_update [of 1 "fst s" j "recount ?r (rsrc_count ?r + 1)"] j n by simp
    then show ?thesis using w Some h by (simp add: zend_list_addref_def list_holds_def)
  qed
qed

lemma delete_holds:
  assumes h: "list_holds ht s" and n: "length (fst s) < 2 ^ 31" and c: "\<forall>r\<in>set (fst s). rsrc_count r < 2 ^ 31"
  shows "\<exists>ht'. zend_list_delete rid ht = Some (ht', if rsrc_at rid (fst s) = None then FAILURE else SUCCESS) \<and>
    list_holds ht' (reg_step (Delete rid) s)"
proof -
  let ?al = "live_from 1 (fst s)"
  have r: "hash_refines ht ?al" using h by (simp add: list_holds_def)
  show ?thesis
  proof (cases "rsrc_at rid (fst s)")
    case None
    then have "index_find_ptr rid ht = Some None" using index_find_ptr_None [OF r, of rid] live_at [OF n, of rid] by simp
    then show ?thesis using None h by (simp add: zend_list_delete_def)
  next
    case (Some j)
    note j = rsrc_at_SomeD [OF Some]
    have m: "map_of ?al (KInt rid) = Some (rsrc_entry (fst s ! j))" using live_at [OF n, of rid] Some by simp
    let ?f = "\<lambda>le. le\<lparr>le_refcount := le_refcount le - 1\<rparr>"
    let ?c = "rsrc_count (fst s ! j) - 1"
    let ?r = "recount (fst s ! j) ?c"
    obtain a ht1 b where w: "index_find_ptr rid ht = Some (Some a)" "le_write a ?f ht = Some ht1"
      "heap ht1 a = Some b" "pData b = ?f (rsrc_entry (fst s ! j))"
      "hash_refines ht1 (AList.update (KInt rid) (?f (rsrc_entry (fst s ! j))) ?al)"
      "nNextFreeElement ht1 = nNextFreeElement ht" "pDestructor ht1 = pDestructor ht" "dtor_log ht1 = dtor_log ht"
      by (rule le_write_ok [OF r m])
    have e: "?f (rsrc_entry (fst s ! j)) = rsrc_entry ?r"
      using j by (cases "fst s ! j") (simp add: recount_def rsrc_count_def of_nat_diff)
    have cn: "?c < 2 ^ 31" using c j nth_mem [of j "fst s"] by fastforce
    then have cnt: "sint (le_refcount (pData b)) = int ?c" unfolding w(4) e by (simp add: recount_def sint_of_nat_small)
    show ?thesis
    proof (cases "?c = 0")
      case False
      then have "AList.update (KInt rid) (rsrc_entry ?r) ?al = live_from 1 ((fst s)[j := ?r])"
        using live_from_update [of 1 "fst s" j ?r] j n by simp
      then show ?thesis using w Some h cnt False by (simp add: zend_list_delete_def list_holds_def e Let_def)
    next
      case True
      let ?al1 = "AList.update (KInt rid) (rsrc_entry ?r) ?al"
      obtain xs where xs: "hash_inv ht1 xs" "clean_keys ht1" "entries ht1 xs = ?al1" using w(5) unfolding e by (rule hash_refinesE)
      obtain ht2 st where d: "zend_hash_del_key_or_index NullStr 0 rid HASH_DEL_INDEX ht1 = Some (ht2, st)"
        "del_result (KInt rid) ?al1 ht1 (ht2, st)" using del_index_ok [OF xs(1,2), of rid] xs(3) by auto
      have "AList.delete (KInt rid) ?al1 = live_from 1 ((fst s)[j := ?r])"
        using live_from_delete [of 1 "fst s" j ?r] j n True by (simp add: delete_update_same)
      moreover have "st = SUCCESS" "hash_refines ht2 (AList.delete (KInt rid) ?al1)" "dtor_log ht2 = dtor_log ht @ [rsrc_entry ?r]"
          "pDestructor ht2" using d(2) w(7,8) h by (auto simp: del_result_def update_conv' log_dtor_def list_holds_def)
      ultimately show ?thesis using w Some h cnt True d(1) keptD [OF index_delete_kept [OF d(1)]] by (simp add: zend_list_delete_def list_holds_def e Let_def)
    qed
  qed
qed

lemma reg_small_update:
  assumes "reg_small n s" and "c \<le> Suc (Suc n)"
  shows "reg_small (Suc n) ((fst s)[j := recount r c], ds)"
  using assms set_update_subset_insert [of "fst s" j "recount r c"] by (fastforce simp: reg_small_def)

lemma reg_small_step:
  assumes "reg_small n s"
  shows "reg_small (Suc n) (reg_step x s)"
proof -
  have mono: "reg_small (Suc n) s" using assms by (auto simp: reg_small_def)
  have c: "rsrc_count (fst s ! j) \<le> Suc n" if "rsrc_at rid (fst s) = Some j" for rid j
    using that assms nth_mem rsrc_at_SomeD by (metis reg_small_def)
  show ?thesis
  proof (cases x)
    case (Register p t)
    then show ?thesis using assms by (auto simp: reg_small_def rsrc_count_def)
  next
    case (Addref rid)
    then show ?thesis using mono c [of rid] by (auto split: option.split intro!: reg_small_update [OF assms])
  next
    case (Delete rid)
    have "rsrc_count (fst s ! j) - 1 \<le> Suc (Suc n)" if "rsrc_at rid (fst s) = Some j" for j
      using c [OF that] by simp
    then show ?thesis using Delete mono by (auto simp: Let_def split: option.split intro!: reg_small_update [OF assms])
  qed
qed

lemma step_holds:
  assumes "list_holds ht s" and "reg_small n s" and "n < 2 ^ 31 - 2"
  shows "\<exists>ht'. list_step x ht = Some ht' \<and> list_holds ht' (reg_step x s)"
proof (cases x)
  case (Register p t)
  then show ?thesis using insert_holds [OF assms(1), of p t] assms(2,3) by (auto simp: reg_small_def)
next
  case (Addref rid)
  then show ?thesis using addref_holds [OF assms(1), of rid] assms(2,3) by (auto simp: reg_small_def)
next
  case (Delete rid)
  then show ?thesis using delete_holds [OF assms(1), of rid] assms(2,3) by (fastforce simp: reg_small_def)
qed

lemma run_holds:
  assumes "list_holds ht s" and "reg_small n s" and "n + length xs < 2 ^ 31 - 1"
  shows "\<exists>ht'. list_run xs ht = Some ht' \<and> list_holds ht' (reg_run xs s) \<and> reg_small (n + length xs) (reg_run xs s)"
  using assms
proof (induction xs arbitrary: ht s n)
  case (Cons x xs)
  obtain ht1 where h1: "list_step x ht = Some ht1" "list_holds ht1 (reg_step x s)"
    using step_holds [OF Cons.prems(1,2), of x] Cons.prems(3) by auto
  with Cons.IH [OF h1(2) reg_small_step [OF Cons.prems(2)]] Cons.prems(3) show ?case by (simp add: reg_run_def)
qed (simp add: reg_run_def)

lemma init_small: "reg_small 0 ([], [])"
  by (simp add: reg_small_def)

lemmas run_from_init = run_holds [OF init_holds_list init_small, unfolded add_0]

text \<open>The resources registered in a run, in order.\<close>

definition registered :: "rsrc_op list \<Rightarrow> (ptr \<times> uint) list" where
  "registered xs = concat (map (\<lambda>x. case x of Register p t \<Rightarrow> [(p, t)] | _ \<Rightarrow> []) xs)"

lemma map_update_same: "f v = f (xs ! j) \<Longrightarrow> map f (xs[j := v]) = map f xs"
  by (metis list_update_id map_update)

lemma reg_step_registered:
  "map (\<lambda>r. (fst r, fst (snd r))) (fst (reg_step x s)) = map (\<lambda>r. (fst r, fst (snd r))) (fst s) @ registered [x]"
  by (cases x) (auto simp: registered_def recount_def Let_def map_update_same split: option.split)

lemma reg_run_registered: "map (\<lambda>r. (fst r, fst (snd r))) (fst (reg_run xs s)) = map (\<lambda>r. (fst r, fst (snd r))) (fst s) @ registered xs"
proof (induction xs arbitrary: s)
  case (Cons x xs)
  show ?case using Cons [of "reg_step x s"] reg_step_registered [of x s] by (simp add: reg_run_def registered_def)
qed (simp add: reg_run_def registered_def)

text \<open>How a run counts the references to one resource, and that a destroyed resource stays destroyed.\<close>

lemma reg_step_dead:
  assumes "j < length (fst s)" and "rsrc_count (fst s ! j) = 0"
  shows "j < length (fst (reg_step x s)) \<and> rsrc_count (fst (reg_step x s) ! j) = 0"
proof -
  have "i \<noteq> j" if "rsrc_at rid (fst s) = Some i" for rid i using rsrc_at_SomeD [OF that] assms(2) by auto
  then show ?thesis using assms by (cases x) (auto simp: nth_append Let_def split: option.split)
qed

lemma reg_run_dead:
  assumes "j < length (fst s)" and "rsrc_count (fst s ! j) = 0"
  shows "rsrc_count (fst (reg_run xs s) ! j) = 0"
  using assms by (induction xs arbitrary: s) (simp_all add: reg_run_def reg_step_dead)

subsection \<open>Fetching\<close>

lemma match_type_set: "match_type t ts \<longleftrightarrow> t \<in> set ts"
  by (induction ts) auto

lemma find_holds:
  assumes "list_holds ht s" and "length (fst s) < 2 ^ 31"
  shows "zend_list_find rid ht = Some (case rsrc_at rid (fst s) of Some j \<Rightarrow> (fst (fst s ! j), fst (snd (fst s ! j))) | None \<Rightarrow> (None, - 1))"
proof -
  obtain xs where xs: "hash_inv ht xs" "entries ht xs = live_from 1 (fst s)"
    using assms(1) unfolding list_holds_def by (auto elim: hash_refinesE)
  show ?thesis using index_find_ok(1) [OF xs(1), of rid] live_at [OF assms(2), of rid]
    by (cases "rsrc_at rid (fst s)") (simp_all add: zend_list_find_def xs(2))
qed

text \<open>The id that \<open>zend_fetch_resource\<close> looks up, if the caller gave one.\<close>

definition asked_id :: "rsrc_zval option \<Rightarrow> uint \<Rightarrow> uint option" where
  "asked_id z default_id = (if default_id \<noteq> - 1 then Some default_id else
     (case z of Some v \<Rightarrow> if rz_type v = IS_RESOURCE then Some (rz_lval v) else None | None \<Rightarrow> None))"

definition refs :: "rsrc_op list \<Rightarrow> nat \<Rightarrow> nat" where
  "refs xs j = rsrc_count (fst (reg_run xs ([], [])) ! j)"

lemma length_registered: "length (fst (reg_run xs ([], []))) = length (registered xs)"
  using arg_cong [OF reg_run_registered [of xs "([], [])"], of length] by simp

lemma registered_at:
  assumes "j < length (registered xs)"
  shows "registered xs ! j = (fst (fst (reg_run xs ([], [])) ! j), fst (snd (fst (reg_run xs ([], [])) ! j)))"
proof -
  have "registered xs ! j = map (\<lambda>r. (fst r, fst (snd r))) (fst (reg_run xs ([], []))) ! j"
    using reg_run_registered [of xs "([], [])"] by simp
  then show ?thesis using assms by (simp add: length_registered)
qed

lemma registered_bound: "length (registered xs) \<le> length xs"
  by (induction xs) (auto simp: registered_def le_SucI split: rsrc_op.split)

lemma rsrc_at_run:
  assumes "length xs < 2 ^ 31 - 1"
  shows "rsrc_at rid (fst (reg_run xs ([], []))) = Some j \<longleftrightarrow> rid = of_nat (Suc j) \<and> j < length (registered xs) \<and> 0 < refs xs j"
proof -
  have "unat (of_nat (Suc j) :: uint) = Suc j" if "j < length (registered xs)"
    using that registered_bound [of xs] assms unfolding unat_of_nat by simp
  then show ?thesis by (auto simp: rsrc_at_def refs_def length_registered simp del: of_nat_Suc)
qed

lemma find_run:
  assumes "length xs < 2 ^ 31 - 1" and "list_run xs zend_init_rsrc_list = Some ht"
  shows "zend_list_find rid ht = Some (case rsrc_at rid (fst (reg_run xs ([], []))) of Some j \<Rightarrow> registered xs ! j | None \<Rightarrow> (None, - 1))"
proof -
  have "list_holds ht (reg_run xs ([], []))" using run_from_init [OF assms(1)] assms(2) by auto
  moreover have "length (fst (reg_run xs ([], []))) < 2 ^ 31" using assms(1) registered_bound [of xs] by (simp add: length_registered)
  moreover have "registered xs ! j = (fst (fst (reg_run xs ([], [])) ! j), fst (snd (fst (reg_run xs ([], [])) ! j)))"
    if "rsrc_at rid (fst (reg_run xs ([], []))) = Some j" for j
    using registered_at rsrc_at_SomeD [OF that] by (simp add: length_registered)
  ultimately show ?thesis using find_holds [of ht "reg_run xs ([], [])" rid] by (auto split: option.split)
qed

subsection \<open>The last id\<close>

lemma insert_again:
  assumes "hash_refines ht al" and "nNextFreeElement ht = LONG_MAX" and "length al < 2 ^ 32 - 1" and "pDestructor ht"
  shows "\<exists>ht'. zend_list_insert p t ht = Some (LONG_MAX, ht') \<and> hash_refines ht' (AList.update (KInt LONG_MAX) (rsrc_entry (p, t, 1)) al) \<and>
    nNextFreeElement ht' = LONG_MAX \<and> pDestructor ht' \<and>
    dtor_log ht' = dtor_log ht @ (case map_of al (KInt LONG_MAX) of None \<Rightarrow> [] | Some old \<Rightarrow> [old])"
proof -
  obtain xs where xs: "hash_inv ht xs" "clean_keys ht" "entries ht xs = al" "length al = length xs"
    using assms(1) by (rule hash_refinesE)
  have h: "index_of_flag HASH_UPDATE LONG_MAX ht = LONG_MAX" by (simp add: index_of_flag_def)
  obtain ht' st dest where e: "zend_hash_index_update_or_next_insert LONG_MAX (rsrc_entry (p, t, 1)) sizeof_list_entry HASH_UPDATE ht = Some (ht', st, dest)"
    and a: "add_result False (KInt LONG_MAX) (rsrc_entry (p, t, 1)) al ht (ht', st, dest)"
    using index_add_ok [OF xs(1,2), of LONG_MAX "rsrc_entry (p, t, 1)" sizeof_list_entry HASH_UPDATE] assms(3) xs(3,4) h by auto
  have "nNextFreeElement ht' = LONG_MAX" using index_insert_kept [OF e] assms(2) h by (auto simp: kept_def bump_next_free_def)
  with e a assms(2,4) show ?thesis
    by (auto simp: zend_list_insert_def zend_hash_next_free_element_def add_result_def log_dtor_def split: option.split)
qed

lemma reg_run_registers: "reg_run (replicate n (Register p t)) s = (fst s @ replicate n (p, t, 1), snd s)"
  by (induction n arbitrary: s) (simp_all add: reg_run_def replicate_app_Cons_same)

lemma full_list:
  assumes "Suc n = 2 ^ 31 - 1"
  shows "\<exists>ht al. list_run (replicate n (Register p t)) zend_init_rsrc_list = Some ht \<and> hash_refines ht al \<and>
    nNextFreeElement ht = LONG_MAX \<and> length al < 2 ^ 32 - 2 \<and> pDestructor ht \<and> dtor_log ht = [] \<and> map_of al (KInt LONG_MAX) = None"
proof -
  let ?rs = "replicate n (p, t, 1 :: nat)"
  have n: "n < 2 ^ 31 - 1" "n < 2 ^ 31" using assms by simp_all
  obtain ht where ht: "list_run (replicate n (Register p t)) zend_init_rsrc_list = Some ht" "list_holds ht (?rs, [])"
    using run_from_init [of "replicate n (Register p t)"] n by (auto simp: reg_run_registers)
  have "nNextFreeElement ht = of_nat (2 ^ 31 - 1)" using ht(2) assms by (simp only: list_holds_def fst_conv length_replicate)
  then have "nNextFreeElement ht = LONG_MAX" by (simp add: LONG_MAX_def)
  moreover have "rsrc_at LONG_MAX ?rs = None" using assms by (simp add: rsrc_at_def LONG_MAX_def)
  then have "map_of (live_from 1 ?rs) (KInt LONG_MAX) = None" using live_at [of ?rs LONG_MAX] n by simp
  moreover have "length (live_from 1 ?rs) < 2 ^ 32 - 2" using length_live_from [of 1 ?rs] n by simp
  ultimately show ?thesis using ht by (auto simp: list_holds_def)
qed

subsection \<open>Unloading a module\<close>

lemma apply_argument_eq:
  "zend_hash_apply_with_argument f arg s ht = zend_hash_apply_with_arguments (\<lambda>s d k. f s d arg) s ht"
  by (simp add: zend_hash_apply_with_argument_def zend_hash_apply_with_arguments_def)

lemma clean_spec:
  "apply_spec (\<lambda>s d _. clean_module_resource () d rt) () al =
    (filter (\<lambda>e. le_type (snd e) \<noteq> rt) al, (), map snd (filter (\<lambda>e. le_type (snd e) = rt) al))"
  by (induction al) (auto simp: clean_module_resource_def Let_def ZEND_HASH_APPLY_STOP_def ZEND_HASH_APPLY_REMOVE_def)

definition plist_cleaned :: "rsrc_list \<Rightarrow> (hkey \<times> zend_rsrc_list_entry) list \<Rightarrow> uint set \<Rightarrow> rsrc_list \<Rightarrow> bool" where
  "plist_cleaned pl al ts pl' \<longleftrightarrow> hash_refines pl' (filter (\<lambda>e. le_type (snd e) \<notin> ts) al) \<and> \<not> bApplyProtection pl' \<and> pDestructor pl' \<and>
     mset (dtor_log pl') = mset (dtor_log pl) + mset (map snd (filter (\<lambda>e. le_type (snd e) \<in> ts) al))"

lemma clean_type_ok:
  assumes "hash_refines pl al" and "\<not> bApplyProtection pl" and "pDestructor pl"
  shows "\<exists>pl'. clean_type rt pl = Some (Done pl') \<and> plist_cleaned pl al {rt} pl'"
proof -
  have n: "\<not> apply_nested pl" using assms(2) by (simp add: apply_nested_def)
  show ?thesis
    using apply_with_arguments_ok [OF assms(1), of "\<lambda>s d _. clean_module_resource s d rt" "()"] n assms(2,3)
    by (auto simp: clean_type_def apply_argument_eq apply_result_def clean_spec plist_cleaned_def log_dtor_def same_flags_def)
qed

lemma cleaned_trans:
  assumes "plist_cleaned pl al ts pl1" and "plist_cleaned pl1 (filter (\<lambda>e. le_type (snd e) \<notin> ts) al) us pl2"
  shows "plist_cleaned pl al (ts \<union> us) pl2"
proof -
  have "mset (filter (\<lambda>e. le_type (snd e) \<in> ts \<union> us) xs) = mset (filter (\<lambda>e. le_type (snd e) \<in> ts) xs) +
      mset (filter (\<lambda>e. le_type (snd e) \<in> us \<and> le_type (snd e) \<notin> ts) xs)" for xs :: "(hkey \<times> zend_rsrc_list_entry) list"
    by (induction xs) auto
  with assms show ?thesis by (simp add: plist_cleaned_def conj_commute image_mset_union mset_map del: mset_filter)
qed

definition module_types :: "uint \<Rightarrow> (hkey \<times> zend_rsrc_list_dtors_entry) list \<Rightarrow> uint set" where
  "module_types m dl = set (map (resource_id \<circ> snd) (filter (\<lambda>e. module_number (snd e) = m) dl))"

lemma clean_dtors_spec:
  assumes "hash_refines pl al" and "\<not> bApplyProtection pl" and "pDestructor pl"
  shows "\<exists>pl' ds. apply_spec (\<lambda>s d _. zend_clean_module_rsrc_dtors_cb s d m) (Some (Done pl)) dl =
      (filter (\<lambda>e. module_number (snd e) \<noteq> m) dl, Some (Done pl'), ds) \<and> plist_cleaned pl al (module_types m dl) pl'"
  using assms
proof (induction dl arbitrary: pl al)
  case Nil
  then show ?case by (auto simp: plist_cleaned_def module_types_def)
next
  case (Cons e dl)
  show ?case
  proof (cases "module_number (snd e) = m")
    case False
    then have "module_types m (e # dl) = module_types m dl" by (auto simp: module_types_def)
    then show ?thesis using Cons.IH [OF Cons.prems] False
      by (auto simp: zend_clean_module_rsrc_dtors_cb_def ZEND_HASH_APPLY_STOP_def ZEND_HASH_APPLY_REMOVE_def)
  next
    case True
    let ?t = "resource_id (snd e)"
    obtain pl1 where pl1: "clean_type ?t pl = Some (Done pl1)" "plist_cleaned pl al {?t} pl1"
      using clean_type_ok [OF Cons.prems] by blast
    then obtain pl' ds where r: "apply_spec (\<lambda>s d _. zend_clean_module_rsrc_dtors_cb s d m) (Some (Done pl1)) dl =
        (filter (\<lambda>e. module_number (snd e) \<noteq> m) dl, Some (Done pl'), ds)"
        "plist_cleaned pl1 (filter (\<lambda>e. le_type (snd e) \<notin> {?t}) al) (module_types m dl) pl'"
      using Cons.IH [of pl1 "filter (\<lambda>e. le_type (snd e) \<notin> {?t}) al"] by (auto simp: plist_cleaned_def)
    have "module_types m (e # dl) = {?t} \<union> module_types m dl" using True by (auto simp: module_types_def)
    then show ?thesis using cleaned_trans [OF pl1(2) r(2)] True pl1(1) r(1)
      by (auto simp: zend_clean_module_rsrc_dtors_cb_def ZEND_HASH_APPLY_STOP_def ZEND_HASH_APPLY_REMOVE_def)
  qed
qed

subsection \<open>Registering types\<close>

definition std_entry :: "ptr \<Rightarrow> ptr \<Rightarrow> uint \<Rightarrow> uint \<Rightarrow> zend_rsrc_list_dtors_entry" where
  "std_entry ld pld m n = \<lparr>list_dtor = ld, plist_dtor = pld, list_dtor_ex = None, plist_dtor_ex = None, type_name = None,
     module_number = m, resource_id = n, ld_type = ZEND_RESOURCE_LIST_TYPE_STD\<rparr>"

definition ex_entry :: "ptr \<Rightarrow> ptr \<Rightarrow> byte list option \<Rightarrow> uint \<Rightarrow> uint \<Rightarrow> zend_rsrc_list_dtors_entry" where
  "ex_entry ld pld name m n = \<lparr>list_dtor = None, plist_dtor = None, list_dtor_ex = ld, plist_dtor_ex = pld, type_name = name,
     module_number = m, resource_id = n, ld_type = ZEND_RESOURCE_LIST_TYPE_EX\<rparr>"

definition type_added :: "rsrc_dtors \<Rightarrow> (hkey \<times> zend_rsrc_list_dtors_entry) list \<Rightarrow> zend_rsrc_list_dtors_entry \<Rightarrow> rsrc_dtors \<Rightarrow> bool" where
  "type_added dtors dl lde dtors' \<longleftrightarrow> hash_refines dtors' (dl @ [(KInt (nNextFreeElement dtors), lde)]) \<and>
     nNextFreeElement dtors' = nNextFreeElement dtors + 1 \<and> same_flags dtors dtors'"

lemma register_ok:
  assumes "hash_refines dtors dl" and "nNextFreeElement dtors \<noteq> LONG_MAX" and "length dl < 2 ^ 32 - 1"
  shows "\<exists>dtors'. zend_register_list_destructors ld pld m dtors = Some (dtors', nNextFreeElement dtors) \<and>
      type_added dtors dl (std_entry ld pld m (nNextFreeElement dtors)) dtors'"
    and "\<exists>dtors'. zend_register_list_destructors_ex ld pld name m dtors = Some (dtors', nNextFreeElement dtors) \<and>
      type_added dtors dl (ex_entry ld pld name m (nNextFreeElement dtors)) dtors'"
proof -
  have h: "index_of_flag HASH_NEXT_INSERT 0 dtors = nNextFreeElement dtors" by (simp add: index_of_flag_def)
  have ins: "\<exists>dtors' dest. zend_hash_index_update_or_next_insert 0 d sizeof_dtors_entry HASH_NEXT_INSERT dtors = Some (dtors', SUCCESS, dest) \<and>
      type_added dtors dl d dtors'" for d
    using index_insert_fresh [OF assms h, of d] unfolding type_added_def by metis
  show "\<exists>dtors'. zend_register_list_destructors ld pld m dtors = Some (dtors', nNextFreeElement dtors) \<and>
      type_added dtors dl (std_entry ld pld m (nNextFreeElement dtors)) dtors'"
    using ins [of "std_entry ld pld m (nNextFreeElement dtors)"]
    by (auto simp: zend_register_list_destructors_def std_entry_def type_added_def)
  show "\<exists>dtors'. zend_register_list_destructors_ex ld pld name m dtors = Some (dtors', nNextFreeElement dtors) \<and>
      type_added dtors dl (ex_entry ld pld name m (nNextFreeElement dtors)) dtors'"
    using ins [of "ex_entry ld pld name m (nNextFreeElement dtors)"]
    by (auto simp: zend_register_list_destructors_ex_def ex_entry_def type_added_def)
qed

text \<open>The destructors registered for a type are those that run for its resources.\<close>

lemma registered_dtor:
  assumes "hash_refines dtors dl" and "map_of dl (KInt (le_type le)) = Some lde"
  shows "list_entry_destructor dtors le = run_dtor le (ld_type lde) (list_dtor lde) (list_dtor_ex lde)"
    and "plist_entry_destructor dtors le = run_dtor le (ld_type lde) (plist_dtor lde) (plist_dtor_ex lde)"
proof -
  obtain xs where "hash_inv dtors xs" "entries dtors xs = dl" using assms(1) by (rule hash_refinesE)
  then have "zend_hash_index_find (le_type le) dtors = Some (Some lde)" using index_find_ok(1) [of dtors xs "le_type le"] assms(2) by simp
  then show "list_entry_destructor dtors le = run_dtor le (ld_type lde) (list_dtor lde) (list_dtor_ex lde)"
    "plist_entry_destructor dtors le = run_dtor le (ld_type lde) (plist_dtor lde) (plist_dtor_ex lde)"
    by (simp_all add: list_entry_destructor_def plist_entry_destructor_def)
qed

lemma type_dispatch:
  assumes "hash_refines dtors dl" and "nNextFreeElement dtors \<noteq> LONG_MAX" and "type_added dtors dl lde dtors'"
    and "le_type le = nNextFreeElement dtors"
  shows "list_entry_destructor dtors' le = run_dtor le (ld_type lde) (list_dtor lde) (list_dtor_ex lde)"
    and "plist_entry_destructor dtors' le = run_dtor le (ld_type lde) (plist_dtor lde) (plist_dtor_ex lde)"
proof -
  have "map_of dl (KInt (le_type le)) = None" using next_free_fresh [OF assms(1,2)] assms(4) by (simp add: map_of_eq_None_iff)
  then have "map_of (dl @ [(KInt (nNextFreeElement dtors), lde)]) (KInt (le_type le)) = Some lde" using assms(4) by (simp add: map_add_def)
  with assms(3) registered_dtor [of dtors'] show
    "list_entry_destructor dtors' le = run_dtor le (ld_type lde) (list_dtor lde) (list_dtor_ex lde)"
    "plist_entry_destructor dtors' le = run_dtor le (ld_type lde) (plist_dtor lde) (plist_dtor_ex lde)"
    unfolding type_added_def by blast+
qed

text \<open>\<open>zend_fetch_list_dtor_id\<close> returns the id of the first type with the name.\<close>

definition first_named :: "byte list \<Rightarrow> (hkey \<times> zend_rsrc_list_dtors_entry) list \<Rightarrow> uint" where
  "first_named name dl = (case find (\<lambda>e. type_name (snd e) = Some name) dl of Some e \<Rightarrow> resource_id (snd e) | None \<Rightarrow> 0)"

lemma dtor_id_loop_ok:
  assumes "hash_inv ht (us @ vs)"
  shows "dtor_id_loop name ht (Some (head_opt vs)) = Some (first_named name (entries ht vs))"
  using assms
proof (induction vs arbitrary: us)
  case Nil
  show ?case by (subst dtor_id_loop.simps) (simp add: zend_hash_get_current_data_ex_def current_def first_named_def)
next
  case (Cons a vs)
  obtain b where b: "heap ht a = Some b" using hash_invD(5) [OF Cons.prems] by fastforce
  have "pListNext b = head_opt vs"
    using glist_neighbours(1) [OF Cons.prems, of "length us"] b by (cases vs) (simp_all add: nth_append)
  then show ?case using Cons.IH [of "us @ [a]"] Cons.prems b
    by (subst dtor_id_loop.simps) (simp add: zend_hash_get_current_data_ex_def zend_hash_move_forward_ex_def current_def set_current_def
        first_named_def entries_Cons)
qed

lemma fetch_list_dtor_id_ok:
  assumes "hash_refines dtors dl"
  shows "zend_fetch_list_dtor_id name dtors = Some (first_named name dl)"
proof -
  obtain xs where xs: "hash_inv dtors ([] @ xs)" "entries dtors xs = dl" using assms by (auto elim: hash_refinesE)
  then have "pListHead dtors = head_opt xs" using hash_invD(3) [OF xs(1)] by (simp add: glist_def)
  then show ?thesis using dtor_id_loop_ok [OF xs(1), of name] xs(2)
    by (simp add: zend_fetch_list_dtor_id_def zend_hash_internal_pointer_reset_ex_def set_current_def)
qed

text \<open>At the end of a request the resources that are left are destroyed, the last registered first.\<close>

lemma destroy_rsrc_list_ok:
  assumes "list_holds ht s"
  shows "\<exists>ht'. zend_destroy_rsrc_list ht = Some ht' \<and> heap ht' = Map.empty \<and>
    dtor_log ht' = map rsrc_entry (snd s @ rev (filter (\<lambda>r. rsrc_count r \<noteq> 0) (fst s)))"
proof -
  have live: "map snd (live_from i rs) = map rsrc_entry (filter (\<lambda>r. rsrc_count r \<noteq> 0) rs)" for i rs
    by (induction rs arbitrary: i) auto
  obtain xs where xs: "hash_inv ht xs" "clean_keys ht" "entries ht xs = live_from 1 (fst s)"
    using assms unfolding list_holds_def by (auto elim: hash_refinesE)
  then show ?thesis using graceful_loop_ok(2) [OF xs(1,2)] assms
    by (auto simp: zend_destroy_rsrc_list_def zend_hash_graceful_reverse_destroy_def list_holds_def log_dtor_def rev_map [symmetric] live
        simp del: One_nat_def dest: hash_invD(5))
qed

text \<open>The name of the type of a resource.\<close>

lemma get_rsrc_type_ok:
  assumes "list_holds ht s" and "length (fst s) < 2 ^ 31" and "hash_refines dtors dl"
  shows "zend_rsrc_list_get_rsrc_type rid ht dtors = Some (case rsrc_at rid (fst s) of
      Some j \<Rightarrow> if fst (fst s ! j) = None then None
        else (case map_of dl (KInt (fst (snd (fst s ! j)))) of Some lde \<Rightarrow> type_name lde | None \<Rightarrow> None)
    | None \<Rightarrow> None)"
proof -
  obtain xs where "hash_inv dtors xs" "entries dtors xs = dl" using assms(3) by (rule hash_refinesE)
  then have "zend_hash_index_find t dtors = Some (map_of dl (KInt t))" for t using index_find_ok(1) [of dtors xs t] by simp
  then show ?thesis by (auto simp: zend_rsrc_list_get_rsrc_type_def find_holds [OF assms(1,2)] split: option.split)
qed

text \<open>A type of module 5, and a persistent resource of that type.\<close>

definition sample_dtors :: rsrc_dtors where
  "sample_dtors = fst (the (zend_register_list_destructors None (Some 7) 5 zend_init_rsrc_list_dtors))"

definition sample_plist :: rsrc_list where
  "sample_plist = snd (the (zend_list_insert (Some 9) 1 zend_init_rsrc_plist))"

lemma sample_dtors_ok: "hash_refines sample_dtors [(KInt 1, std_entry None (Some 7) 5 1)]" "\<not> apply_nested sample_dtors"
proof -
  let ?ht = zend_init_rsrc_list_dtors
  have "hash_refines ?ht []" unfolding zend_init_rsrc_list_dtors_def by (rule init_refines [OF zend_hash_init_ok])
  moreover have f: "nNextFreeElement ?ht = 1" "nApplyCount ?ht = 0" by (simp_all add: zend_init_rsrc_list_dtors_def zend_hash_init_def)
  ultimately obtain dtors' where "zend_register_list_destructors None (Some 7) 5 ?ht = Some (dtors', 1)"
    "type_added ?ht [] (std_entry None (Some 7) 5 1) dtors'" using register_ok(1) [of ?ht "[]" None "Some 7" 5] by (auto simp: LONG_MAX_def)
  then show "hash_refines sample_dtors [(KInt 1, std_entry None (Some 7) 5 1)]" "\<not> apply_nested sample_dtors"
    using f by (simp_all add: sample_dtors_def type_added_def same_flags_def apply_nested_def)
qed

lemma sample_plist_ok: "hash_refines sample_plist [(KInt 0, \<lparr>le_ptr = Some 9, le_type = 1, le_refcount = 1\<rparr>)]"
  "\<not> bApplyProtection sample_plist" "pDestructor sample_plist" "dtor_log sample_plist = []"
proof -
  let ?ht = zend_init_rsrc_plist
  obtain xs where "hash_inv (zend_hash_init 0 True True :: rsrc_list) xs" "clean_keys (zend_hash_init 0 True True :: rsrc_list)"
    "entries (zend_hash_init 0 True True :: rsrc_list) xs = []"
    using zend_hash_init_ok [of 0 True True, where 'a = zend_rsrc_list_entry] by (rule hash_refinesE)
  then have r: "hash_refines ?ht []"
    by (auto simp: hash_refines_def zend_init_rsrc_plist_def zend_hash_init_ex_def hash_inv_def table_ok_def clean_keys_def entries_def)
  have f: "nNextFreeElement ?ht = 0" "\<not> bApplyProtection ?ht" "pDestructor ?ht" "dtor_log ?ht = []"
    by (simp_all add: zend_init_rsrc_plist_def zend_hash_init_ex_def zend_hash_init_def)
  let ?le = "\<lparr>le_ptr = Some 9, le_type = 1, le_refcount = 1\<rparr>"
  have p: "nNextFreeElement ?ht \<noteq> LONG_MAX" "length ([] :: (hkey \<times> zend_rsrc_list_entry) list) < 2 ^ 32 - 1"
    "index_of_flag HASH_UPDATE 0 ?ht = nNextFreeElement ?ht" using f(1) by (simp_all add: LONG_MAX_def index_of_flag_def)
  obtain ht' dest where "zend_hash_index_update_or_next_insert 0 ?le sizeof_list_entry HASH_UPDATE ?ht = Some (ht', SUCCESS, dest)"
    "hash_refines ht' ([] @ [(KInt (nNextFreeElement ?ht), ?le)])" "nNextFreeElement ht' = nNextFreeElement ?ht + 1"
    "same_flags ?ht ht'" "dtor_log ht' = dtor_log ?ht" by (rule index_insert_fresh [OF r p])
  then show "hash_refines sample_plist [(KInt 0, \<lparr>le_ptr = Some 9, le_type = 1, le_refcount = 1\<rparr>)]"
    "\<not> bApplyProtection sample_plist" "pDestructor sample_plist" "dtor_log sample_plist = []"
    using f by (simp_all add: sample_plist_def zend_list_insert_def zend_hash_next_free_element_def same_flags_def)
qed

subsection \<open>Properties\<close>

text \<open>
  C37: every run of \<open>zend_list_insert\<close>, \<open>_zend_list_addref\<close> and \<open>_zend_list_delete\<close> on a new list of resources returns and keeps
  the hash table consistent; the list holds exactly the resources to which references are left, each with their number, and the
  destructor of the list has run once for each of the others, in the order in which they lost their last reference.  The \<open>n\<close>-th
  resource registered gets the id \<open>n\<close>, so an id is never given out twice, and the id of a destroyed resource stays invalid whatever
  happens later.
\<close>

theorem resource_runs:
  assumes "length xs < 2 ^ 31 - 2"
  shows "\<exists>ht. list_run xs zend_init_rsrc_list = Some ht \<and> list_holds ht (reg_run xs ([], [])) \<and>
    (\<forall>p t. \<exists>ht'. zend_list_insert p t ht = Some (of_nat (Suc (length (registered xs))), ht')) \<and>
    (\<forall>j ys. j < length (registered xs) \<and> refs xs j = 0 \<and> length (xs @ ys) < 2 ^ 31 - 1 \<longrightarrow>
      (\<exists>ht'. list_run (xs @ ys) zend_init_rsrc_list = Some ht' \<and> zend_list_find (of_nat (Suc j)) ht' = Some (None, - 1)))"
proof -
  let ?s = "reg_run xs ([], [])"
  obtain ht where ht: "list_run xs zend_init_rsrc_list = Some ht" "list_holds ht ?s"
    using run_from_init [of xs] assms by auto
  have "\<exists>ht'. zend_list_insert p t ht = Some (of_nat (Suc (length (registered xs))), ht')" for p t
    using insert_holds [OF ht(2), of p t] assms registered_bound [of xs] by (auto simp: length_registered)
  moreover have "\<exists>ht'. list_run (xs @ ys) zend_init_rsrc_list = Some ht' \<and> zend_list_find (of_nat (Suc j)) ht' = Some (None, - 1)"
    if j: "j < length (registered xs)" "refs xs j = 0" "length (xs @ ys) < 2 ^ 31 - 1" for j ys
  proof -
    have "refs (xs @ ys) j = 0" using reg_run_dead [of j ?s ys] j by (simp add: refs_def reg_run_def length_registered [unfolded reg_run_def])
    moreover have "i = j" if "(of_nat (Suc j) :: uint) = of_nat (Suc i)" "i < length (registered (xs @ ys))" for i
      using that j registered_bound [of xs] registered_bound [of "xs @ ys"] by (simp add: of_nat_eq_uint del: of_nat_Suc)
    ultimately have "rsrc_at (of_nat (Suc j)) (fst (reg_run (xs @ ys) ([], []))) = None"
      using rsrc_at_run [OF j(3), of "of_nat (Suc j)"] by (metis not_None_eq not_gr_zero)
    moreover obtain ht' where "list_run (xs @ ys) zend_init_rsrc_list = Some ht'" using run_from_init [OF j(3)] by auto
    ultimately show ?thesis using find_run [OF j(3)] by simp
  qed
  ultimately show ?thesis using ht by blast
qed

text \<open>A run: two resources of types 1 and 2; the first is shared and then given up by both of its owners.\<close>

definition sample_run :: "rsrc_op list" where
  "sample_run = [Register (Some 100) 1, Register (Some 200) 2, Addref 1, Delete 1, Delete 1]"

lemma sample_run_facts: "length sample_run = 5" "registered sample_run = [(Some 100, 1), (Some 200, 2)]"
  "reg_run sample_run ([], []) = ([(Some 100, 1, 0), (Some 200, 2, 1)], [(Some 100, 1, 0)])"
  "refs sample_run 0 = 0" "refs sample_run 1 = 1"
  by (simp_all add: sample_run_def registered_def reg_run_def refs_def rsrc_at_def rsrc_count_def recount_def Let_def)

theorem resource_runs_witness:
  "\<exists>ht. list_run sample_run zend_init_rsrc_list = Some ht \<and> dtor_log ht = [\<lparr>le_ptr = Some 100, le_type = 1, le_refcount = 0\<rparr>] \<and>
    (\<exists>ht'. zend_list_insert None 1 ht = Some (3, ht'))"
proof -
  have "\<exists>ht. list_run sample_run zend_init_rsrc_list = Some ht \<and> list_holds ht (reg_run sample_run ([], [])) \<and>
      (\<forall>p t. \<exists>ht'. zend_list_insert p t ht = Some (of_nat (Suc (length (registered sample_run))), ht'))"
    using resource_runs [of sample_run] sample_run_facts(1) by auto
  then show ?thesis unfolding sample_run_facts by (fastforce simp: list_holds_def)
qed

text \<open>
  C38: \<open>zend_fetch_resource\<close> is type safe: it returns a pointer exactly when the id asked for (the value's, or the default one) is that
  of a resource to which references are left, registered with this pointer and with one of the types the caller lists, and it
  stores that type; in every other case it returns null, with a warning if the caller named the type.
\<close>

theorem resource_fetch_typed:
  assumes "length xs < 2 ^ 31 - 1" and "list_run xs zend_init_rsrc_list = Some ht"
  shows "\<exists>q found w. zend_fetch_resource z default_id named ts ht = Some (q, found, w) \<and>
    (\<forall>p t. q = Some p \<and> found = Some t \<longleftrightarrow> (\<exists>j. asked_id z default_id = Some (of_nat (Suc j)) \<and> j < length (registered xs) \<and>
      0 < refs xs j \<and> registered xs ! j = (Some p, t) \<and> t \<in> set ts)) \<and>
    (q = None \<longleftrightarrow> found = None) \<and> (w = None \<longleftrightarrow> q \<noteq> None \<or> \<not> named)"
proof (cases "asked_id z default_id")
  case None
  then show ?thesis
    by (auto simp: zend_fetch_resource_def asked_id_def Let_def split: option.splits if_splits)
next
  case (Some rid)
  have e: "zend_fetch_resource z default_id named ts ht = (let warn = (\<lambda>w. if named then Some w else None) in
      do { (resource, t) \<leftarrow> zend_list_find rid ht;
        Some (if resource = None then (None, None, warn (Not_a_valid_id rid))
          else if match_type t ts then (resource, Some t, None) else (None, None, warn Not_a_valid_resource)) })"
    using Some by (auto simp: zend_fetch_resource_def asked_id_def Let_def split: option.splits if_splits)
  show ?thesis
  proof (cases "rsrc_at rid (fst (reg_run xs ([], [])))")
    case None
    then have "\<not> (\<exists>j. rid = of_nat (Suc j) \<and> j < length (registered xs) \<and> 0 < refs xs j)"
      using rsrc_at_run [OF assms(1)] by (metis option.discI)
    then show ?thesis using Some None by (auto simp: e find_run [OF assms] Let_def)
  next
    case (Some j)
    then have "rid = of_nat (Suc i) \<and> i < length (registered xs) \<and> 0 < refs xs i \<longleftrightarrow> i = j" for i
      unfolding rsrc_at_run [OF assms(1), symmetric] by auto
    then have one: "(\<exists>i. rid = of_nat (Suc i) \<and> i < length (registered xs) \<and> 0 < refs xs i \<and> Q i) \<longleftrightarrow> Q j" for Q
      by metis
    show ?thesis unfolding e find_run [OF assms] Some \<open>asked_id z default_id = Some rid\<close>
      by (cases "registered xs ! j") (simp add: one Let_def match_type_set del: of_nat_Suc, auto)
  qed
qed

theorem resource_fetch_typed_witness:
  "\<exists>ht. list_run sample_run zend_init_rsrc_list = Some ht \<and>
    (\<exists>q found w. zend_fetch_resource None 2 True [1, 2] ht = Some (q, found, w) \<and> q = Some 200 \<and> found = Some 2)"
proof -
  have n: "length sample_run < 2 ^ 31 - 1" using sample_run_facts(1) by simp
  then obtain ht where ht: "list_run sample_run zend_init_rsrc_list = Some ht" using run_from_init by blast
  have "\<exists>j. asked_id None 2 = Some (of_nat (Suc j)) \<and> j < length (registered sample_run) \<and> 0 < refs sample_run j \<and>
      registered sample_run ! j = (Some 200, 2) \<and> 2 \<in> set [1, 2 :: uint]"
    by (rule exI [of _ 1]) (use sample_run_facts in \<open>simp add: asked_id_def\<close>)
  then show ?thesis using resource_fetch_typed [OF n ht, of None 2 True "[1, 2]"] ht by blast
qed


text \<open>
  C40: unloading a module (\<open>zend_clean_module_rsrc_dtors\<close>) removes exactly its resource types from the list of destructors and exactly
  the persistent resources of these types from the persistent list, and calls the destructor of that list once for each of them; the
  walk over the persistent list inside the walk over the types never raises the fatal error for nesting.
\<close>

theorem module_cleanup:
  assumes "hash_refines dtors dl" and "\<not> apply_nested dtors"
    and "hash_refines plist al" and "\<not> bApplyProtection plist" and "pDestructor plist"
  shows "\<exists>dtors' plist'. zend_clean_module_rsrc_dtors m plist dtors = Some (Done (dtors', plist')) \<and>
    hash_refines dtors' (filter (\<lambda>e. module_number (snd e) \<noteq> m) dl) \<and>
    hash_refines plist' (filter (\<lambda>e. le_type (snd e) \<notin> module_types m dl) al) \<and>
    mset (dtor_log plist') = mset (dtor_log plist) + mset (map snd (filter (\<lambda>e. le_type (snd e) \<in> module_types m dl) al))"
proof -
  obtain plist' ds where "apply_spec (\<lambda>s d _. zend_clean_module_rsrc_dtors_cb s d m) (Some (Done plist)) dl =
      (filter (\<lambda>e. module_number (snd e) \<noteq> m) dl, Some (Done plist'), ds)" "plist_cleaned plist al (module_types m dl) plist'"
    using clean_dtors_spec [OF assms(3-5)] by blast
  then show ?thesis
    using apply_with_arguments_ok [OF assms(1), of "\<lambda>s d _. zend_clean_module_rsrc_dtors_cb s d m" "Some (Done plist)"] assms(2)
    by (auto simp: zend_clean_module_rsrc_dtors_def apply_argument_eq apply_result_def plist_cleaned_def)
qed

theorem module_cleanup_witness:
  "\<exists>dtors' plist'. zend_clean_module_rsrc_dtors 5 sample_plist sample_dtors = Some (Done (dtors', plist')) \<and>
    hash_refines dtors' [] \<and> hash_refines plist' [] \<and> mset (dtor_log plist') = {#\<lparr>le_ptr = Some 9, le_type = 1, le_refcount = 1\<rparr>#}"
  using module_cleanup [OF sample_dtors_ok sample_plist_ok(1-3), of 5] by (simp add: module_types_def std_entry_def sample_plist_ok(4))

end
